(* ===== verification/Ring_Buffer.thy ===== *)
theory Ring_Buffer
  imports Prelude "HOL-Library.Multiset"
begin

text \<open>
  The concurrent circular buffer of the ML router: \<^verbatim>\<open>class Address\<close>
  (targets/simple_switch/address.h) and \<^verbatim>\<open>class ConcurrentCBuffer\<close> (ccbuffer.h), and the
  reward queue \<^verbatim>\<open>class RewardsQ\<close> (rewardsQ.h).  Each public method takes the mutex for its
  whole body, so an interleaving of calls is a sequence of the operations below.
\<close>

section \<open>State\<close>

record address =
  addr :: u32
  valid :: bool

definition new_address :: address where
  "new_address = \<lparr>addr = 0, valid = False\<rparr>"

definition address_of :: "u32 \<Rightarrow> address" where
  "address_of a = \<lparr>addr = a, valid = False\<rparr>"

definition enable :: "address \<Rightarrow> address" where
  "enable a = a\<lparr>valid := True\<rparr>"

definition disable :: "address \<Rightarrow> address" where
  "disable a = a\<lparr>valid := False\<rparr>"

definition CBufferSize :: nat where
  "CBufferSize = 30"

record ccbuffer =
  futureDestinations :: "address list"
  head :: nat
  validElements :: int
  nextPos :: nat

definition cc_new :: ccbuffer where
  "cc_new = \<lparr>futureDestinations = replicate CBufferSize new_address,
             head = 0, validElements = 0, nextPos = 0\<rparr>"

section \<open>Operations\<close>

text \<open>
  \<^verbatim>\<open>while (!futureDestinations[i].isValid()) i = (i + 1) % CBufferSize;\<close> as written: it does
  not return when no slot is valid.
\<close>

partial_function (option) scan_valid :: "address list \<Rightarrow> nat \<Rightarrow> nat option" where
  "scan_valid fd i =
     (if CBufferSize \<le> i then None
      else if valid (fd ! i) then Some i
      else scan_valid fd ((i + 1) mod CBufferSize))"

definition cc_get :: "ccbuffer \<Rightarrow> int \<Rightarrow> u32 option" where
  "cc_get b pos = (if 0 \<le> pos \<and> pos < int CBufferSize
     then Some (addr (futureDestinations b ! nat pos)) else None)"

definition cc_isValid :: "ccbuffer \<Rightarrow> int \<Rightarrow> bool option" where
  "cc_isValid b pos = (if 0 \<le> pos \<and> pos < int CBufferSize
     then Some (valid (futureDestinations b ! nat pos)) else None)"

definition cc_push :: "ccbuffer \<Rightarrow> u32 \<Rightarrow> (nat \<times> ccbuffer) option" where
  "cc_push b address =
     (let pos = nextPos b mod CBufferSize in
      do {
        b1 \<leftarrow> (if pos = head b \<and> validElements b \<noteq> 0 then
                 do {
                   i \<leftarrow> scan_valid (futureDestinations b) ((head b + 1) mod CBufferSize);
                   Some (b\<lparr>head := i, validElements := validElements b - 1\<rparr>)
                 }
               else Some b);
        Some (pos, b1\<lparr>futureDestinations :=
                         (futureDestinations b1)[pos := enable (address_of address)],
                       nextPos := (pos + 1) mod CBufferSize,
                       validElements := validElements b1 + 1\<rparr>)
      })"

definition cc_pop :: "ccbuffer \<Rightarrow> int \<Rightarrow> ccbuffer option" where
  "cc_pop b pos =
     (if \<not> (0 \<le> pos \<and> pos < int CBufferSize) then None
      else if \<not> valid (futureDestinations b ! nat pos) then Some b
      else do {
        h \<leftarrow> (if nat pos = head b then
                do {
                  i \<leftarrow> scan_valid (futureDestinations b) ((head b + 1) mod CBufferSize);
                  Some (if i = head b then nextPos b else i)
                }
              else Some (head b));
        Some (b\<lparr>head := h,
                futureDestinations :=
                  (futureDestinations b)[nat pos := disable (futureDestinations b ! nat pos)],
                validElements := validElements b - 1\<rparr>)
      })"

definition cc_getHead :: "ccbuffer \<Rightarrow> nat" where
  "cc_getHead b = head b"

definition cc_currElems :: "ccbuffer \<Rightarrow> int" where
  "cc_currElems b = validElements b"

text \<open>\<^verbatim>\<open>show\<close> prints the valid addresses, \<open>CBufferSize\<close> slots from the head on.\<close>

definition cc_show :: "ccbuffer \<Rightarrow> u32 list" where
  "cc_show b = map addr (filter valid
     (map (\<lambda>counter. futureDestinations b ! ((head b + counter) mod CBufferSize))
       [0..<CBufferSize]))"

section \<open>The reward queue\<close>

definition rq_size :: "u32 list \<Rightarrow> nat" where
  "rq_size q = length q"

definition rq_push :: "u32 list \<Rightarrow> u32 \<Rightarrow> u32 list" where
  "rq_push q v = q @ [v]"

definition rq_pop :: "u32 list \<Rightarrow> u32 \<times> u32 list" where
  "rq_pop q = (case q of [] \<Rightarrow> (0, []) | v # q' \<Rightarrow> (v, q'))"

section \<open>Abstraction: the queue of live entries\<close>

text \<open>
  The ring read from the head: every slot with its index, \<open>CBufferSize\<close> of them.  The
  entries of the queue are the valid ones, each with the position \<open>push\<close> returned for it.
\<close>

definition ring :: "ccbuffer \<Rightarrow> (nat \<times> address) list" where
  "ring b = rotate (head b) (enumerate 0 (futureDestinations b))"

definition live :: "(nat \<times> address) \<Rightarrow> bool" where
  "live x = valid (snd x)"

definition cc_entries :: "ccbuffer \<Rightarrow> (nat \<times> u32) list" where
  "cc_entries b = map (\<lambda>(p, a). (p, addr a)) (filter live (ring b))"

text \<open>Slots from the head up to the next position to write: live entries are there only.\<close>

definition cc_window :: "ccbuffer \<Rightarrow> nat" where
  "cc_window b = (if validElements b = 0 then 0
     else if nextPos b = head b then CBufferSize
     else (nextPos b + CBufferSize - head b) mod CBufferSize)"

definition cc_inv :: "ccbuffer \<Rightarrow> bool" where
  "cc_inv b \<longleftrightarrow>
     length (futureDestinations b) = CBufferSize \<and> head b < CBufferSize \<and>
     nextPos b < CBufferSize \<and>
     validElements b = int (length (filter valid (futureDestinations b))) \<and>
     (validElements b = 0 \<longrightarrow> head b = nextPos b) \<and>
     (validElements b \<noteq> 0 \<longrightarrow> valid (futureDestinations b ! head b)) \<and>
     filter live (drop (cc_window b) (ring b)) = []"

lemma live_pair [simp]: "live (p, a) = valid a"
  by (simp add: live_def)

lemma length_ring [simp]: "length (ring b) = length (futureDestinations b)"
  by (simp add: ring_def)

lemma filter_live_enumerate:
  "length (filter live (enumerate n fd)) = length (filter valid fd)"
  by (induction fd arbitrary: n) (auto simp: live_def)

lemma length_filter_rotate: "length (filter P (rotate n xs)) = length (filter P xs)"
proof -
  have "mset (rotate1 ys) = mset ys" for ys :: "'a list"
    by (cases ys) simp_all
  then have "mset (rotate n xs) = mset xs" for n :: nat
    by (induction n) (simp_all add: rotate_Suc)
  then have "mset (filter P (rotate n xs)) = mset (filter P xs)"
    by (simp add: mset_filter)
  then show ?thesis by (metis size_mset)
qed

subsection \<open>The scan for the next valid slot\<close>

lemma scan_valid_step:
  "i < CBufferSize \<Longrightarrow> scan_valid fd i =
     (if valid (fd ! i) then Some i else scan_valid fd ((i + 1) mod CBufferSize))"
  by (subst scan_valid.simps) simp

lemma scan_valid_finds:
  assumes "i < CBufferSize"
    and "valid (fd ! ((i + m) mod CBufferSize))"
    and "\<And>k. k < m \<Longrightarrow> \<not> valid (fd ! ((i + k) mod CBufferSize))"
  shows "scan_valid fd i = Some ((i + m) mod CBufferSize)"
  using assms
proof (induction m arbitrary: i)
  case 0
  then show ?case by (simp add: scan_valid_step)
next
  case (Suc m)
  let ?j = "(i + 1) mod CBufferSize"
  have shift: "(?j + k) mod CBufferSize = (i + Suc k) mod CBufferSize" for k
    by (simp add: mod_add_left_eq)
  have "scan_valid fd ?j = Some ((?j + m) mod CBufferSize)"
  proof (rule Suc.IH)
    show "?j < CBufferSize" by (simp add: CBufferSize_def)
    show "valid (fd ! ((?j + m) mod CBufferSize))"
      using Suc.prems(2) by (simp only: shift)
    show "\<not> valid (fd ! ((?j + k) mod CBufferSize))" if "k < m" for k
      using Suc.prems(3) [of "Suc k"] that by (simp only: shift) simp
  qed
  moreover have "\<not> valid (fd ! i)"
    using Suc.prems(3) [of 0] Suc.prems(1) by simp
  ultimately show ?case
    using Suc.prems(1) by (simp only: scan_valid_step shift if_False)
qed

lemma scan_from_head:
  assumes h: "h < CBufferSize" and v: "valid (fd ! h)"
  obtains d where "1 \<le> d" "d \<le> CBufferSize"
    "scan_valid fd ((h + 1) mod CBufferSize) = Some ((h + d) mod CBufferSize)"
    "valid (fd ! ((h + d) mod CBufferSize))"
    "\<And>k. 1 \<le> k \<Longrightarrow> k < d \<Longrightarrow> \<not> valid (fd ! ((h + k) mod CBufferSize))"
proof -
  define m where "m = (LEAST m. valid (fd ! ((h + Suc m) mod CBufferSize)))"
  have ex: "valid (fd ! ((h + Suc 29) mod CBufferSize))"
    using h v by (simp add: CBufferSize_def)
  have m1: "valid (fd ! ((h + Suc m) mod CBufferSize))"
    unfolding m_def using ex by (rule LeastI)
  have m2: "m \<le> 29"
    unfolding m_def using ex by (rule Least_le)
  have m3: "\<not> valid (fd ! ((h + Suc k) mod CBufferSize))" if "k < m" for k
    using that not_less_Least unfolding m_def by blast
  have shift: "((h + 1) mod CBufferSize + k) mod CBufferSize = (h + Suc k) mod CBufferSize" for k
    by (simp add: mod_add_left_eq)
  have "scan_valid fd ((h + 1) mod CBufferSize) =
      Some (((h + 1) mod CBufferSize + m) mod CBufferSize)"
    using m1 m3 by (intro scan_valid_finds) (simp_all only: shift, simp_all add: CBufferSize_def)
  then have s: "scan_valid fd ((h + 1) mod CBufferSize) = Some ((h + Suc m) mod CBufferSize)"
    by (simp only: shift)
  show thesis
  proof (rule that [of "Suc m"])
    show "1 \<le> Suc m" "Suc m \<le> CBufferSize" using m2 by (simp_all add: CBufferSize_def)
    show "\<not> valid (fd ! ((h + k) mod CBufferSize))" if "1 \<le> k" "k < Suc m" for k
      using m3 [of "k - 1"] that by simp
  qed (rule s, rule m1)
qed

subsection \<open>The ring under updates and head moves\<close>

lemma nth_ring:
  assumes "k < length (futureDestinations b)"
  shows "ring b ! k =
     ((head b + k) mod length (futureDestinations b),
      futureDestinations b ! ((head b + k) mod length (futureDestinations b)))"
proof -
  have "(head b + k) mod length (futureDestinations b) < length (futureDestinations b)"
    using assms by (intro mod_less_divisor) auto
  then show ?thesis
    using assms by (simp add: ring_def nth_rotate nth_enumerate_eq)
qed

lemma mod_add_inj:
  fixes j k n h :: nat
  assumes "j < n" "k < n" "(h + j) mod n = (h + k) mod n"
  shows "j = k"
proof -
  have le: "i = i'" if "i \<le> i'" "i' < n" "(h + i) mod n = (h + i') mod n" for i i' :: nat
  proof -
    have "n dvd i' - i"
      using that mod_eq_dvd_iff_nat [of "h + i" "h + i'" n] by simp
    then show ?thesis
      using that by (auto dest: dvd_imp_le)
  qed
  from le [of j k] le [of k j] assms show ?thesis
    by (cases "j \<le> k") simp_all
qed

lemma rotate_enumerate_update:
  assumes "k < length fd"
  shows "rotate h (enumerate 0 (fd[(h + k) mod length fd := y])) =
    (rotate h (enumerate 0 fd))[k := ((h + k) mod length fd, y)]"
proof (rule nth_equalityI)
  fix j assume "j < length (rotate h (enumerate 0 (fd[(h + k) mod length fd := y])))"
  then have j: "j < length fd" by simp
  have m: "(h + i) mod length fd < length fd" for i
    using j by (intro mod_less_divisor) auto
  show "rotate h (enumerate 0 (fd[(h + k) mod length fd := y])) ! j =
      (rotate h (enumerate 0 fd))[k := ((h + k) mod length fd, y)] ! j"
    using assms j m mod_add_inj [OF j assms, of h]
    by (auto simp: nth_rotate nth_enumerate_eq nth_list_update)
qed simp

text \<open>The ring splits at the next live slot: the head, \<open>d - 1\<close> dead slots, the rest.\<close>

lemma ring_split:
  assumes len: "length (futureDestinations b) = CBufferSize" and h: "head b < CBufferSize"
    and d: "1 \<le> d" "d \<le> CBufferSize"
    and dead: "\<And>k. 1 \<le> k \<Longrightarrow> k < d \<Longrightarrow>
      \<not> valid (futureDestinations b ! ((head b + k) mod CBufferSize))"
  obtains N where "ring b = (head b, futureDestinations b ! head b) # N @ drop d (ring b)"
    "length N = d - 1" "filter live N = []"
proof -
  let ?R = "ring b"
  define N where "N = take (d - 1) (drop 1 ?R)"
  have lenR: "length ?R = CBufferSize" using len by simp
  have "?R ! 0 = (head b, futureDestinations b ! head b)"
    using h len nth_ring [of 0 b] by (simp add: CBufferSize_def)
  then have c: "?R = (head b, futureDestinations b ! head b) # drop 1 ?R"
    using lenR by (cases ?R) (simp_all add: CBufferSize_def)
  have "drop 1 ?R = N @ drop (d - 1) (drop 1 ?R)"
    unfolding N_def by (rule append_take_drop_id [symmetric])
  then have "drop 1 ?R = N @ drop d ?R"
    using d by simp
  then have "?R = (head b, futureDestinations b ! head b) # N @ drop d ?R"
    using c by simp
  moreover have "length N = d - 1"
    using lenR d unfolding N_def by simp
  moreover have "\<not> live x" if "x \<in> set N" for x
  proof -
    from that obtain k where k: "k < d - 1" "x = ?R ! Suc k"
      using lenR d unfolding N_def by (auto simp: in_set_conv_nth)
    then show ?thesis
      using dead [of "Suc k"] d len nth_ring [of "Suc k" b] by simp
  qed
  then have "filter live N = []" by simp
  ultimately show thesis by (rule that)
qed

lemma window_after_advance:
  assumes "h < CBufferSize" "1 \<le> d" "d < CBufferSize"
  shows "(h + d) mod CBufferSize \<noteq> h"
  using assms by (auto simp: CBufferSize_def mod_if)

lemma cc_inv_new: "cc_inv cc_new"
  by (auto simp: cc_inv_def cc_new_def ring_def cc_window_def new_address_def
      filter_empty_conv in_set_enumerate_eq CBufferSize_def)

lemma cc_entries_new [simp]: "cc_entries cc_new = []"
  by (auto simp: cc_entries_def cc_new_def ring_def new_address_def filter_empty_conv
      in_set_enumerate_eq)

lemma cc_inv_length: "cc_inv b \<Longrightarrow> length (futureDestinations b) = CBufferSize"
  by (simp add: cc_inv_def)

lemma validElements_entries:
  "cc_inv b \<Longrightarrow> validElements b = int (length (cc_entries b))"
  by (simp add: cc_inv_def cc_entries_def ring_def length_filter_rotate filter_live_enumerate)

text \<open>Distances on the ring.\<close>

lemma CBufferSize_pos [simp]: "0 < CBufferSize" "x mod CBufferSize < CBufferSize"
  by (simp_all add: CBufferSize_def)

lemma mod_below_twice: "(x::nat) < 2 * n \<Longrightarrow> x mod n = (if x < n then x else x - n)"
  by (simp add: mod_if)

lemma dist_mod:
  assumes "h < CBufferSize" "p < CBufferSize" "p \<noteq> h"
  shows "(p + CBufferSize - h) mod CBufferSize < CBufferSize"
    "(h + (p + CBufferSize - h) mod CBufferSize) mod CBufferSize = p"
proof -
  have e: "(p + CBufferSize - h) mod CBufferSize =
      (if h < p then p - h else p + CBufferSize - h)"
    using assms by (subst mod_below_twice) auto
  show "(p + CBufferSize - h) mod CBufferSize < CBufferSize"
    using assms by (auto simp: e)
  show "(h + (p + CBufferSize - h) mod CBufferSize) mod CBufferSize = p"
    using assms by (simp add: e)
qed

lemma dist_mod_Suc:
  assumes "h < CBufferSize" "w < CBufferSize"
  shows "(h + w + 1) mod CBufferSize = h \<longleftrightarrow> Suc w = CBufferSize"
    "Suc w \<noteq> CBufferSize \<Longrightarrow>
      ((h + w + 1) mod CBufferSize + CBufferSize - h) mod CBufferSize = Suc w"
proof -
  have e: "(h + w + 1) mod CBufferSize =
      (if h + w + 1 < CBufferSize then h + w + 1 else h + w + 1 - CBufferSize)"
    using assms by (subst mod_below_twice) auto
  show "(h + w + 1) mod CBufferSize = h \<longleftrightarrow> Suc w = CBufferSize"
    using assms unfolding e by auto
  show "((h + w + 1) mod CBufferSize + CBufferSize - h) mod CBufferSize = Suc w"
    if "Suc w \<noteq> CBufferSize"
  proof (cases "h + w + 1 < CBufferSize")
    case True
    then have "(h + w + 1) mod CBufferSize + CBufferSize - h = Suc w + CBufferSize"
      unfolding e by simp
    then show ?thesis
      using assms that by (simp only:) (subst mod_below_twice, auto)
  next
    case False
    then have "(h + w + 1) mod CBufferSize + CBufferSize - h = Suc w"
      using assms unfolding e by simp
    then show ?thesis using assms that by simp
  qed
qed

lemma dist_mod_back:
  assumes "h < CBufferSize" "1 < d" "d \<le> CBufferSize"
  shows "(h + 1) mod CBufferSize \<noteq> (h + d) mod CBufferSize"
    "((h + 1) mod CBufferSize + CBufferSize - (h + d) mod CBufferSize) mod CBufferSize =
      Suc (CBufferSize - d)"
proof -
  have e1: "(h + 1) mod CBufferSize = (if h + 1 < CBufferSize then h + 1 else 0)"
    using assms by (subst mod_below_twice) auto
  have e2: "(h + d) mod CBufferSize =
      (if h + d < CBufferSize then h + d else h + d - CBufferSize)"
    using assms by (subst mod_below_twice) auto
  show "(h + 1) mod CBufferSize \<noteq> (h + d) mod CBufferSize"
    using assms unfolding e1 e2 by auto
  have "(h + 1) mod CBufferSize + CBufferSize - (h + d) mod CBufferSize = Suc (CBufferSize - d)
    \<or> (h + 1) mod CBufferSize + CBufferSize - (h + d) mod CBufferSize =
        Suc (CBufferSize - d) + CBufferSize"
    using assms unfolding e1 e2 by auto
  then show "((h + 1) mod CBufferSize + CBufferSize - (h + d) mod CBufferSize) mod CBufferSize =
      Suc (CBufferSize - d)"
    using assms by (elim disjE; simp only:) (subst mod_below_twice, auto)+
qed

lemma window_shift:
  assumes h: "h < CBufferSize" and p: "p < CBufferSize" and d: "1 \<le> d" "d < CBufferSize"
    and w: "w = (if p = h then CBufferSize else (p + CBufferSize - h) mod CBufferSize)"
    and dw: "d < w" and ne: "p \<noteq> (h + d) mod CBufferSize"
  shows "(p + CBufferSize - (h + d) mod CBufferSize) mod CBufferSize = w - d"
proof -
  have e: "(h + d) mod CBufferSize =
      (if h + d < CBufferSize then h + d else h + d - CBufferSize)"
    using h d by (subst mod_below_twice) auto
  have w': "w = (if h < p then p - h else p + CBufferSize - h)"
    using h p by (subst w, subst mod_below_twice) auto
  have "p + CBufferSize - (h + d) mod CBufferSize = w - d \<or>
      p + CBufferSize - (h + d) mod CBufferSize = w - d + CBufferSize"
    using h p d dw ne unfolding e w' by (simp split: if_splits; linarith)
  moreover have "w - d < CBufferSize" using d h p unfolding w' by auto
  ultimately show ?thesis by auto
qed

section \<open>push: a bounded queue that evicts its oldest entry\<close>

definition cc_full :: "ccbuffer \<Rightarrow> bool" where
  "cc_full b \<longleftrightarrow> nextPos b = head b \<and> validElements b \<noteq> 0"

definition written :: "ccbuffer \<Rightarrow> u32 \<Rightarrow> address list" where
  "written b a = (futureDestinations b)[nextPos b := enable (address_of a)]"

lemma written_simps [simp]:
  "length (written b a) = length (futureDestinations b)"
  "valid (enable x)" "addr (enable x) = addr x" "addr (address_of a) = a"
  "\<not> valid (disable x)"
  by (simp_all add: written_def enable_def address_of_def disable_def)

lemma push_not_full:
  assumes inv: "cc_inv b" and nf: "\<not> cc_full b"
  shows "\<exists>b'. cc_push b a = Some (nextPos b, b') \<and> cc_inv b' \<and>
    cc_entries b' = cc_entries b @ [(nextPos b, a)]"
proof -
  let ?w = "cc_window b" and ?p = "nextPos b" and ?e = "enable (address_of a)"
  let ?b = "b\<lparr>futureDestinations := written b a, nextPos := (?p + 1) mod CBufferSize,
    validElements := validElements b + 1\<rparr>"
  have len: "length (futureDestinations b) = CBufferSize" and h: "head b < CBufferSize"
    and p: "?p < CBufferSize" and out: "filter live (drop ?w (ring b)) = []"
    and cnt: "validElements b = int (length (filter valid (futureDestinations b)))"
    and hd0: "validElements b = 0 \<longrightarrow> head b = ?p"
    and hd1: "validElements b \<noteq> 0 \<longrightarrow> valid (futureDestinations b ! head b)"
    using inv by (simp_all add: cc_inv_def)
  have w: "?w < CBufferSize \<and> (head b + ?w) mod CBufferSize = ?p"
  proof (cases "validElements b = 0")
    case True
    then show ?thesis using hd0 h by (simp add: cc_window_def)
  next
    case False
    then show ?thesis
      using nf dist_mod [OF h p] by (simp add: cc_window_def cc_full_def)
  qed
  have pushed: "cc_push b a = Some (?p, ?b)"
    using nf p unfolding cc_full_def
    by (cases "?p = head b") (simp_all add: cc_push_def written_def Let_def)
  have R: "ring ?b = (ring b)[?w := (?p, ?e)]"
    using rotate_enumerate_update [of ?w "futureDestinations b" "head b" ?e] len w
    by (simp add: ring_def written_def)
  have lenR: "length (ring b) = CBufferSize" using len by simp
  have parts: "ring ?b = take ?w (ring b) @ (?p, ?e) # drop (Suc ?w) (ring b)"
    unfolding R using lenR w by (intro upd_conv_take_nth_drop) simp
  have tail: "filter live (drop (Suc ?w) (ring b)) = []"
  proof -
    have "drop ?w (ring b) = ring b ! ?w # drop (Suc ?w) (ring b)"
      using lenR w by (simp add: Cons_nth_drop_Suc)
    then show ?thesis using out by (simp split: if_splits)
  qed
  have keep: "filter live (take ?w (ring b)) = filter live (ring b)"
    using out by (metis append_Nil2 append_take_drop_id filter_append)
  have ents: "cc_entries ?b = cc_entries b @ [(?p, a)]"
    unfolding cc_entries_def parts using tail keep by simp
  have "\<not> valid (futureDestinations b ! ?p)"
  proof -
    have "ring b ! ?w \<in> set (drop ?w (ring b))"
      using lenR w by (metis Cons_nth_drop_Suc list.set_intros(1))
    then show ?thesis
      using out nth_ring [of ?w b] len w by (auto simp: filter_empty_conv)
  qed
  then have cnt': "validElements ?b = int (length (filter valid (written b a)))"
    using length_filter_list_update [of ?p "futureDestinations b" valid ?e] len p cnt
    by (simp add: written_def)
  have "validElements b + 1 \<noteq> 0" using cnt by simp
  moreover have "valid (written b a ! head b)"
    using hd0 hd1 h p len by (cases "head b = ?p") (auto simp: written_def)
  moreover have "filter live (drop (cc_window ?b) (ring ?b)) = []"
  proof -
    have "(?p + 1) mod CBufferSize = (head b + ?w + 1) mod CBufferSize"
      using w by (metis mod_add_left_eq)
    then have "cc_window ?b = Suc ?w"
      using dist_mod_Suc [OF h conjunct1 [OF w]] \<open>validElements b + 1 \<noteq> 0\<close>
      by (cases "Suc ?w = CBufferSize") (simp_all add: cc_window_def)
    then show ?thesis
      unfolding parts using lenR w tail by simp
  qed
  ultimately have "cc_inv ?b"
    using len h p cnt' by (simp add: cc_inv_def)
  with pushed ents show ?thesis by blast
qed

lemma push_full:
  assumes inv: "cc_inv b" and full: "cc_full b"
  shows "\<exists>b'. cc_push b a = Some (nextPos b, b') \<and> cc_inv b' \<and>
    cc_entries b' = tl (cc_entries b) @ [(nextPos b, a)]"
proof -
  let ?h = "head b" and ?e = "enable (address_of a)"
  have len: "length (futureDestinations b) = CBufferSize" and h: "?h < CBufferSize"
    and cnt: "validElements b = int (length (filter valid (futureDestinations b)))"
    and hv: "valid (futureDestinations b ! ?h)" and ne: "validElements b \<noteq> 0"
    and np: "nextPos b = ?h"
    using inv full by (simp_all add: cc_inv_def cc_full_def)
  obtain d where d: "1 \<le> d" "d \<le> CBufferSize"
    and sc: "scan_valid (futureDestinations b) ((?h + 1) mod CBufferSize)
      = Some ((?h + d) mod CBufferSize)"
    and dv: "valid (futureDestinations b ! ((?h + d) mod CBufferSize))"
    and dead: "\<And>k. 1 \<le> k \<Longrightarrow> k < d \<Longrightarrow>
      \<not> valid (futureDestinations b ! ((?h + k) mod CBufferSize))"
    using scan_from_head [OF h hv] by blast
  obtain N where N: "ring b = (?h, futureDestinations b ! ?h) # N @ drop d (ring b)"
    "length N = d - 1" "filter live N = []"
    using ring_split [OF len h d dead] by blast
  let ?b = "b\<lparr>futureDestinations := written b a, head := (?h + d) mod CBufferSize,
    nextPos := (?h + 1) mod CBufferSize, validElements := validElements b\<rparr>"
  have pushed: "cc_push b a = Some (nextPos b, ?b)"
    using np ne h by (simp add: cc_push_def written_def Let_def sc [simplified])
  have "rotate ?h (enumerate 0 (written b a)) = (ring b)[0 := (?h, ?e)]"
    using rotate_enumerate_update [of 0 "futureDestinations b" ?h ?e] len h np
    by (simp add: ring_def written_def CBufferSize_def)
  also have "\<dots> = (?h, ?e) # N @ drop d (ring b)"
    by (subst N(1)) simp
  finally have rot: "rotate ?h (enumerate 0 (written b a)) = (?h, ?e) # N @ drop d (ring b)" .
  have "ring ?b = rotate (?h + d) (enumerate 0 (written b a))"
    using len rotate_conv_mod [of "?h + d" "enumerate 0 (written b a)"] by (simp add: ring_def)
  also have "\<dots> = rotate d (rotate ?h (enumerate 0 (written b a)))"
    by (simp add: rotate_rotate add.commute)
  also have "\<dots> = drop d (ring b) @ (?h, ?e) # N"
    unfolding rot using d N(2) len
    by (subst rotate_split) (simp_all add: drop_Cons' take_Cons')
  finally have R: "ring ?b = drop d (ring b) @ (?h, ?e) # N" .
  have live_b: "filter live (ring b) =
      (?h, futureDestinations b ! ?h) # filter live (drop d (ring b))"
    by (subst N(1)) (simp add: N(3) hv)
  have ents: "cc_entries ?b = tl (cc_entries b) @ [(nextPos b, a)]"
    unfolding cc_entries_def R using N(3) np by (simp add: live_b)
  have cnt': "validElements ?b = int (length (filter valid (written b a)))"
    using length_filter_list_update [of ?h "futureDestinations b" valid ?e] len h cnt np hv
    by (simp add: written_def)
  have hd: "valid (written b a ! ((?h + d) mod CBufferSize))"
    using dv len h np by (cases "(?h + d) mod CBufferSize = ?h") (simp_all add: written_def)
  have "drop (cc_window ?b) (ring ?b) = N \<or> drop (cc_window ?b) (ring ?b) = []"
  proof (cases "d = 1")
    case True
    then show ?thesis using len ne by (simp add: cc_window_def)
  next
    case False
    then have "cc_window ?b = Suc (CBufferSize - d)"
      using dist_mod_back [OF h, of d] d ne by (auto simp: cc_window_def)
    then show ?thesis unfolding R using len d by simp
  qed
  then have out: "filter live (drop (cc_window ?b) (ring ?b)) = []"
    using N(3) by auto
  have "cc_inv ?b"
    unfolding cc_inv_def
    by (intro conjI impI; (rule out | use len h hd ne in \<open>simp; fail\<close> | use cnt' in simp))
  with pushed ents show ?thesis by blast
qed

section \<open>pop: removal by position\<close>

definition cleared :: "ccbuffer \<Rightarrow> nat \<Rightarrow> address list" where
  "cleared b p = (futureDestinations b)[p := disable (futureDestinations b ! p)]"

lemma cleared_simps [simp]:
  "length (cleared b p) = length (futureDestinations b)"
  "p < length (futureDestinations b) \<Longrightarrow> \<not> valid (cleared b p ! p)"
  "q \<noteq> p \<Longrightarrow> cleared b p ! q = futureDestinations b ! q"
  by (simp_all add: cleared_def)

lemma pop_invalid:
  "p < CBufferSize \<Longrightarrow> \<not> valid (futureDestinations b ! p) \<Longrightarrow> cc_pop b (int p) = Some b"
  by (simp add: cc_pop_def)

text \<open>Ring indices are distinct, so clearing one slot removes exactly its entry.\<close>

lemma distinct_ring: "distinct (map fst (ring b))"
proof -
  have "map fst (ring b) = rotate (head b) [0..<length (futureDestinations b)]"
    by (simp add: ring_def rotate_map [symmetric])
  then show ?thesis by simp
qed

lemma filter_remove_one:
  assumes "distinct (map fst (A @ (p, x) # B))"
  shows "filter (\<lambda>y. fst y \<noteq> p) (filter live (A @ (p, x) # B)) = filter live (A @ B)"
proof -
  have "filter (\<lambda>y. fst y \<noteq> p) (filter live C) = filter live C"
    if "p \<notin> fst ` set C" for C :: "(nat \<times> address) list"
    using that by (intro filter_True) force
  from this [of A] this [of B] show ?thesis
    using assms by (simp del: filter_filter)
qed

lemma entries_filter:
  "map (\<lambda>(p, a). (p, addr a)) (filter (\<lambda>y. fst y \<noteq> q) xs) =
   filter (\<lambda>y. fst y \<noteq> q) (map (\<lambda>(p, a). (p, addr a)) xs)"
  by (induction xs) auto

lemma valid_count_cleared:
  assumes "p < length (futureDestinations b)" "valid (futureDestinations b ! p)"
    and "validElements b = int (length (filter valid (futureDestinations b)))"
  shows "validElements b - 1 = int (length (filter valid (cleared b p)))"
  using length_filter_list_update [of p "futureDestinations b" valid
      "disable (futureDestinations b ! p)"] assms
  by (simp add: cleared_def)

lemma pop_inside:
  assumes inv: "cc_inv b" and p: "p < CBufferSize" "p \<noteq> head b"
    and v: "valid (futureDestinations b ! p)"
  shows "\<exists>b'. cc_pop b (int p) = Some b' \<and> cc_inv b' \<and>
    cc_entries b' = filter (\<lambda>y. fst y \<noteq> p) (cc_entries b)"
proof -
  let ?b = "b\<lparr>futureDestinations := cleared b p, validElements := validElements b - 1\<rparr>"
  let ?x = "futureDestinations b ! p" and ?w = "cc_window b"
  have len: "length (futureDestinations b) = CBufferSize" and h: "head b < CBufferSize"
    and np: "nextPos b < CBufferSize" and out: "filter live (drop ?w (ring b)) = []"
    and cnt: "validElements b = int (length (filter valid (futureDestinations b)))"
    using inv by (simp_all add: cc_inv_def)
  have "filter valid (futureDestinations b) \<noteq> []"
    using v p len by (auto simp: filter_empty_conv)
  then have ne: "validElements b \<noteq> 0" using cnt by simp
  then have hv: "valid (futureDestinations b ! head b)" using inv by (simp add: cc_inv_def)
  have popped: "cc_pop b (int p) = Some ?b"
    using p v by (simp add: cc_pop_def cleared_def)
  define k where "k = (p + CBufferSize - head b) mod CBufferSize"
  have k: "k < CBufferSize" "(head b + k) mod CBufferSize = p"
    using dist_mod [OF h p] by (simp_all add: k_def)
  have R: "ring ?b = (ring b)[k := (p, disable ?x)]"
    using rotate_enumerate_update [of k "futureDestinations b" "head b" "disable ?x"] len k
    by (simp add: ring_def cleared_def)
  have lenR: "k < length (ring b)" using len k by simp
  have Rk: "ring b ! k = (p, ?x)" using nth_ring [of k b] len k by simp
  have split: "ring b = take k (ring b) @ (p, ?x) # drop (Suc k) (ring b)"
    using id_take_nth_drop [OF lenR] Rk by simp
  have "filter live (ring ?b) = filter live (take k (ring b) @ drop (Suc k) (ring b))"
    unfolding R upd_conv_take_nth_drop [OF lenR] by simp
  also have "\<dots> = filter (\<lambda>y. fst y \<noteq> p) (filter live (ring b))"
    by (subst (3) split, rule filter_remove_one [symmetric])
      (use split distinct_ring [of b] in simp)
  finally have flt: "filter live (ring ?b) =
      filter (\<lambda>y. fst y \<noteq> p) (filter live (ring b))" .
  have ents: "cc_entries ?b = filter (\<lambda>y. fst y \<noteq> p) (cc_entries b)"
    unfolding cc_entries_def flt by (rule entries_filter)
  have cnt': "validElements ?b = int (length (filter valid (cleared b p)))"
    using valid_count_cleared v cnt p len by simp
  have hv': "valid (cleared b p ! head b)" using hv p by simp
  have "filter valid (cleared b p) \<noteq> []"
    by (rule filter_nth_not_empty [of "head b"]) (use hv' h len in simp_all)
  then have ne': "validElements ?b \<noteq> 0" using cnt' by simp
  then have "cc_window ?b = ?w" using ne by (simp add: cc_window_def)
  moreover have "\<not> live x" if "x \<in> set (drop ?w (ring ?b))" for x
    using that out unfolding R
    by (cases "?w \<le> k")
      (auto simp: drop_update_swap filter_empty_conv dest!: set_update_subset_insert [THEN subsetD])
  ultimately have out': "filter live (drop (cc_window ?b) (ring ?b)) = []"
    by (simp only:) (rule filter_none)
  have "cc_inv ?b"
    unfolding cc_inv_def
    by (intro conjI impI; (rule out' | use len h np hv' ne' in \<open>simp; fail\<close> | use cnt' in simp))
  with popped ents show ?thesis by blast
qed

lemma no_valid_elements:
  "filter valid fd = [] \<Longrightarrow> filter live (rotate h (enumerate 0 fd)) = []"
  using length_filter_rotate [of live h "enumerate 0 fd"] filter_live_enumerate [of 0 fd]
  by simp

lemma window_after_pop:
  assumes inv: "cc_inv b" and ne: "validElements b \<noteq> 0"
    and d: "1 \<le> d" "d < CBufferSize"
    and dv: "valid (futureDestinations b ! ((head b + d) mod CBufferSize))"
    and N: "filter live N = []" "\<not> valid x"
    and b': "head b' = (head b + d) mod CBufferSize" "nextPos b' = nextPos b"
      "validElements b' \<noteq> 0"
  shows "filter live (drop (cc_window b') (drop d (ring b) @ (head b, x) # N)) = []"
proof -
  let ?w = "cc_window b"
  have len: "length (futureDestinations b) = CBufferSize" and h: "head b < CBufferSize"
    and np: "nextPos b < CBufferSize" and out: "filter live (drop ?w (ring b)) = []"
    using inv by (simp_all add: cc_inv_def)
  have dw: "d < ?w"
  proof (rule ccontr)
    assume "\<not> d < ?w"
    moreover have "ring b ! d \<in> set (drop d (ring b))"
      using d len by (metis Cons_nth_drop_Suc length_ring list.set_intros(1))
    ultimately have "ring b ! d \<in> set (drop ?w (ring b))"
      using set_drop_subset_set_drop [of ?w d "ring b"] by auto
    then show False
      using out dv nth_ring [of d b] len d by (auto simp: filter_empty_conv)
  qed
  have "cc_window b' = ?w - d \<or> cc_window b' = CBufferSize"
    using window_shift [OF h np d refl] dw ne b' by (auto simp: cc_window_def)
  then show ?thesis
    using out N len dw by (auto simp: filter_empty_conv drop_Cons' dest: in_set_dropD)
qed

lemma pop_head:
  assumes inv: "cc_inv b" and v: "valid (futureDestinations b ! head b)"
  shows "\<exists>b'. cc_pop b (int (head b)) = Some b' \<and> cc_inv b' \<and>
    cc_entries b' = filter (\<lambda>y. fst y \<noteq> head b) (cc_entries b)"
proof -
  let ?h = "head b" and ?x = "futureDestinations b ! head b" and ?w = "cc_window b"
  have len: "length (futureDestinations b) = CBufferSize" and h: "?h < CBufferSize"
    and np: "nextPos b < CBufferSize" and out: "filter live (drop ?w (ring b)) = []"
    and cnt: "validElements b = int (length (filter valid (futureDestinations b)))"
    using inv by (simp_all add: cc_inv_def)
  have "filter valid (futureDestinations b) \<noteq> []"
    using v h len by (auto simp: filter_empty_conv)
  then have ne: "validElements b \<noteq> 0" using cnt by simp
  obtain d where d: "1 \<le> d" "d \<le> CBufferSize"
    and sc: "scan_valid (futureDestinations b) ((?h + 1) mod CBufferSize)
      = Some ((?h + d) mod CBufferSize)"
    and dv: "valid (futureDestinations b ! ((?h + d) mod CBufferSize))"
    and dead: "\<And>k. 1 \<le> k \<Longrightarrow> k < d \<Longrightarrow>
      \<not> valid (futureDestinations b ! ((?h + k) mod CBufferSize))"
    using scan_from_head [OF h v] by blast
  obtain N where N: "ring b = (?h, ?x) # N @ drop d (ring b)"
    "length N = d - 1" "filter live N = []"
    using ring_split [OF len h d dead] by blast
  let ?i = "(?h + d) mod CBufferSize"
  let ?b = "b\<lparr>head := (if ?i = ?h then nextPos b else ?i), futureDestinations := cleared b ?h,
    validElements := validElements b - 1\<rparr>"
  have popped: "cc_pop b (int ?h) = Some ?b"
    using v h by (simp add: cc_pop_def cleared_def sc [simplified])
  have rot: "rotate ?h (enumerate 0 (cleared b ?h)) = (?h, disable ?x) # N @ drop d (ring b)"
    using rotate_enumerate_update [of 0 "futureDestinations b" ?h "disable ?x"] len h
    by (simp only: flip: ring_def) (simp add: cleared_def, subst N(1), simp)
  have live_b: "filter live (ring b) = (?h, ?x) # filter live (drop d (ring b))"
    by (subst N(1)) (simp add: N(3) v)
  have rest: "filter (\<lambda>y. fst y \<noteq> ?h) (filter live (ring b)) = filter live (drop d (ring b))"
    using filter_remove_one [of "[]" ?h ?x "N @ drop d (ring b)"] N(1) distinct_ring [of b] N(3)
    by (simp flip: live_b)
  have cnt': "validElements ?b = int (length (filter valid (cleared b ?h)))"
    using valid_count_cleared v cnt h len by simp
  show ?thesis
  proof (cases "d = CBufferSize")
    case True
    then have i: "?i = ?h" and none: "drop d (ring b) = []"
      using h len by simp_all
    have "filter live (rotate ?h (enumerate 0 (cleared b ?h))) = []"
      unfolding rot using none N(3) by simp
    then have "filter valid (cleared b ?h) = []"
      using length_filter_rotate [of live ?h "enumerate 0 (cleared b ?h)"]
        filter_live_enumerate [of 0 "cleared b ?h"] by simp
    then have e: "filter live (ring ?b) = []" and z: "validElements ?b = 0"
      using cnt' by (simp_all add: ring_def no_valid_elements)
    have ents: "cc_entries ?b = filter (\<lambda>y. fst y \<noteq> ?h) (cc_entries b)"
      unfolding cc_entries_def e entries_filter [symmetric] rest none by simp
    have out': "filter live (drop (cc_window ?b) (ring ?b)) = []"
      using e by (rule filter_drop_none)
    have "cc_inv ?b"
      unfolding cc_inv_def
      by (intro conjI impI; (rule out' | use len np i z in \<open>simp; fail\<close> | use cnt' in simp))
    with popped ents show ?thesis by blast
  next
    case False
    then have i: "?i \<noteq> ?h" using window_after_advance [OF h] d by simp
    have "ring ?b = rotate (?h + d) (enumerate 0 (cleared b ?h))"
      using len i rotate_conv_mod [of "?h + d" "enumerate 0 (cleared b ?h)"]
      by (simp add: ring_def)
    also have "\<dots> = rotate d (rotate ?h (enumerate 0 (cleared b ?h)))"
      by (simp add: rotate_rotate add.commute)
    also have "\<dots> = drop d (ring b) @ (?h, disable ?x) # N"
      unfolding rot using d N(2) len
      by (subst rotate_split) (simp_all add: drop_Cons' take_Cons')
    finally have R: "ring ?b = drop d (ring b) @ (?h, disable ?x) # N" .
    have ents: "cc_entries ?b = filter (\<lambda>y. fst y \<noteq> ?h) (cc_entries b)"
      unfolding cc_entries_def R entries_filter [symmetric] rest using N(3) by simp
    have hv: "valid (cleared b ?h ! ?i)" using dv i by simp
    have "filter valid (cleared b ?h) \<noteq> []"
      by (rule filter_nth_not_empty [of ?i]) (use hv len in simp_all)
    then have ne': "validElements ?b \<noteq> 0" using cnt' by simp
    have out': "filter live (drop (cc_window ?b) (ring ?b)) = []"
      unfolding R by (rule window_after_pop [OF inv ne]) (use d False dv N(3) ne' i in simp_all)
    have "cc_inv ?b"
      unfolding cc_inv_def
      by (intro conjI impI; (rule out' | use len np hv ne' i in \<open>simp; fail\<close> | use cnt' in simp))
    with popped ents show ?thesis by blast
  qed
qed

section \<open>The contract the extern relies on\<close>

text \<open>
  What \<^verbatim>\<open>MLController\<close> uses of its buffer: \<open>push\<close> appends and hands out a position,
  dropping at most the oldest entry; \<open>pop\<close> removes the entry at a position.
\<close>

locale position_queue =
  fixes inv :: "'b \<Rightarrow> bool"
    and entries :: "'b \<Rightarrow> (nat \<times> 'a) list"
    and push :: "'b \<Rightarrow> 'a \<Rightarrow> (nat \<times> 'b) option"
    and pop :: "'b \<Rightarrow> int \<Rightarrow> 'b option"
    and capacity :: nat
  assumes push_law: "inv b \<Longrightarrow> \<exists>p b' E. push b a = Some (p, b') \<and> inv b' \<and>
      entries b' = E @ [(p, a)] \<and> (E = entries b \<or> E = tl (entries b))"
    and pop_law: "inv b \<Longrightarrow> p < capacity \<Longrightarrow> \<exists>b'. pop b (int p) = Some b' \<and> inv b' \<and>
      entries b' = filter (\<lambda>y. fst y \<noteq> p) (entries b)"
    and positions_distinct: "inv b \<Longrightarrow> distinct (map fst (entries b))"
    and positions_bounded: "inv b \<Longrightarrow> y \<in> set (entries b) \<Longrightarrow> fst y < capacity"

datatype 'a buffer_call = Push_call 'a | Pop_call nat

fun run_calls ::
  "('b \<Rightarrow> 'a \<Rightarrow> (nat \<times> 'b) option) \<Rightarrow> ('b \<Rightarrow> int \<Rightarrow> 'b option) \<Rightarrow> 'b \<Rightarrow> 'a buffer_call list \<Rightarrow> 'b option"
where
  "run_calls psh pp b [] = Some b"
| "run_calls psh pp b (Push_call a # cs) =
     (case psh b a of None \<Rightarrow> None | Some (_, b') \<Rightarrow> run_calls psh pp b' cs)"
| "run_calls psh pp b (Pop_call p # cs) =
     (case pp b (int p) of None \<Rightarrow> None | Some b' \<Rightarrow> run_calls psh pp b' cs)"

fun call_ok :: "nat \<Rightarrow> 'a buffer_call \<Rightarrow> bool" where
  "call_ok n (Push_call a) = True"
| "call_ok n (Pop_call p) = (p < n)"

context position_queue begin

lemma size_bounded: "inv b \<Longrightarrow> length (entries b) \<le> capacity"
proof -
  assume i: "inv b"
  have "card (set (map fst (entries b))) \<le> card {..<capacity}"
    using positions_bounded [OF i] by (intro card_mono) auto
  then show ?thesis using distinct_card [OF positions_distinct [OF i]] by simp
qed

lemma push_then_pop:
  assumes "inv b"
  shows "\<exists>p b' b''. push b a = Some (p, b') \<and> pop b' (int p) = Some b'' \<and> inv b'' \<and>
    (entries b'' = entries b \<or> entries b'' = tl (entries b))"
proof -
  obtain p b' E where p: "push b a = Some (p, b')" "inv b'" "entries b' = E @ [(p, a)]"
    "E = entries b \<or> E = tl (entries b)"
    using push_law [OF assms] by blast
  have "p < capacity" using positions_bounded [OF p(2), of "(p, a)"] p(3) by simp
  then obtain b'' where b'': "pop b' (int p) = Some b''" "inv b''"
    "entries b'' = filter (\<lambda>y. fst y \<noteq> p) (entries b')"
    using pop_law [OF p(2)] by blast
  have "p \<notin> fst ` set E"
    using positions_distinct [OF p(2)] p(3) by simp
  then have "filter (\<lambda>y. fst y \<noteq> p) E = E" by (intro filter_True) force
  then show ?thesis using p b'' by auto
qed

lemma run_total:
  "inv b \<Longrightarrow> list_all (call_ok capacity) cs \<Longrightarrow>
   \<exists>b'. run_calls push pop b cs = Some b' \<and> inv b'"
proof (induction cs arbitrary: b)
  case (Cons c cs)
  show ?case
  proof (cases c)
    case (Push_call a)
    obtain p b' where "push b a = Some (p, b')" "inv b'"
      using push_law [OF Cons.prems(1)] by blast
    then show ?thesis using Cons Push_call by simp
  next
    case (Pop_call p)
    obtain b' where "pop b (int p) = Some b'" "inv b'"
      using pop_law [OF Cons.prems(1), of p] Cons.prems(2) Pop_call by auto
    then show ?thesis using Cons Pop_call by simp
  qed
qed simp

end

lemma entries_of_ring: "fst ` set (cc_entries b) \<subseteq> fst ` set (ring b)"
  by (force simp: cc_entries_def)

lemma map_fst_entries: "map fst (cc_entries b) = map fst (filter live (ring b))"
  by (simp add: cc_entries_def case_prod_beta comp_def)

lemma pop_contract:
  assumes "cc_inv b" "p < CBufferSize"
  shows "\<exists>b'. cc_pop b (int p) = Some b' \<and> cc_inv b' \<and>
    cc_entries b' = filter (\<lambda>y. fst y \<noteq> p) (cc_entries b)"
proof (cases "valid (futureDestinations b ! p)")
  case True
  then show ?thesis
    using pop_inside [OF assms(1,2)] pop_head [OF assms(1)] by (cases "p = head b") auto
next
  case False
  have "fst y \<noteq> p" if "y \<in> set (cc_entries b)" for y
    using that False cc_inv_length [OF assms(1)]
    by (auto simp: cc_entries_def ring_def in_set_enumerate_eq)
  then show ?thesis
    using pop_invalid [OF assms(2) False] assms(1) by (auto simp: filter_id_conv [symmetric])
qed

interpretation ccq: position_queue cc_inv cc_entries cc_push cc_pop CBufferSize
proof
  show "\<exists>p b' E. cc_push b a = Some (p, b') \<and> cc_inv b' \<and>
      cc_entries b' = E @ [(p, a)] \<and> (E = cc_entries b \<or> E = tl (cc_entries b))"
    if "cc_inv b" for b a
    using push_full [OF that] push_not_full [OF that] by (cases "cc_full b") blast+
  show "\<exists>b'. cc_pop b (int p) = Some b' \<and> cc_inv b' \<and>
      cc_entries b' = filter (\<lambda>y. fst y \<noteq> p) (cc_entries b)"
    if "cc_inv b" "p < CBufferSize" for b p
    using that by (rule pop_contract)
  show "distinct (map fst (cc_entries b))" if "cc_inv b" for b
    using distinct_ring [of b] by (simp add: map_fst_entries distinct_map_filter)
  show "fst y < CBufferSize" if "cc_inv b" "y \<in> set (cc_entries b)" for b y
    using that(2) cc_inv_length [OF that(1)]
    by (auto simp: cc_entries_def ring_def in_set_enumerate_eq)
qed

lemma cc_push_ok:
  "cc_inv b \<Longrightarrow> \<exists>b'. cc_push b a = Some (nextPos b, b') \<and> cc_inv b'"
  using push_full [of b a] push_not_full [of b a] by blast

lemma cc_pop_ok: "cc_inv b \<Longrightarrow> cc_pop b pos = Some b' \<Longrightarrow> cc_inv b'"
proof -
  assume i: "cc_inv b" and p: "cc_pop b pos = Some b'"
  then have "0 \<le> pos \<and> pos < int CBufferSize" by (simp add: cc_pop_def split: if_splits)
  then have "nat pos < CBufferSize" "int (nat pos) = pos" by auto
  then show "cc_inv b'" using pop_contract [OF i, of "nat pos"] p by auto
qed

lemma cc_calls_bound: "cc_inv b \<Longrightarrow> 0 \<le> validElements b \<and> validElements b \<le> 30"
  using ccq.size_bounded [of b] by (simp add: validElements_entries CBufferSize_def)

section \<open>Properties\<close>

text \<open>
  C38: \<open>push\<close> refines a bounded FIFO: on a buffer in a consistent state it terminates,
  returns the position it wrote, and appends the address behind the live entries, dropping
  the oldest one exactly when the write position has caught up with the head.
\<close>

theorem cc_push_refines:
  assumes "cc_inv b"
  shows "\<exists>b'. cc_push b a = Some (nextPos b, b') \<and> cc_inv b' \<and>
    cc_entries b' = (if cc_full b then tl (cc_entries b) else cc_entries b) @ [(nextPos b, a)]"
  using push_full [OF assms] push_not_full [OF assms] by simp

lemma cc_push_refines_witness:
  "\<exists>b'. cc_push cc_new 7 = Some (0, b') \<and> cc_entries b' = [(0, 7)]"
  using cc_push_refines [OF cc_inv_new, of 7]
  by (auto simp: cc_full_def cc_entries_new) (simp_all add: cc_new_def)

text \<open>
  C39: \<open>pop\<close> at any position of the array, on a buffer in a consistent state, terminates, removes exactly the live
  entry stored at that position (nothing if the slot is empty) and keeps the order of the others; the new state is consistent.
\<close>

theorem cc_pop_refines:
  assumes "cc_inv b" "p < CBufferSize"
  shows "\<exists>b'. cc_pop b (int p) = Some b' \<and> cc_inv b' \<and>
    cc_entries b' = filter (\<lambda>y. fst y \<noteq> p) (cc_entries b)"
  using assms by (rule ccq.pop_law)

text \<open>Two addresses are pushed, and the first is popped.\<close>

lemma cc_pop_refines_witness:
  "\<exists>b1 b2 b3. cc_push cc_new 7 = Some (0, b1) \<and> cc_push b1 8 = Some (1, b2) \<and> cc_pop b2 0 = Some b3 \<and>
     cc_entries b2 = [(0, 7), (1, 8)] \<and> cc_entries b3 = [(1, 8)]"
proof -
  have "\<not> cc_full cc_new" "nextPos cc_new = 0" by (simp_all add: cc_full_def cc_new_def)
  then obtain b1 where b1: "cc_push cc_new 7 = Some (0, b1)" "cc_inv b1" "cc_entries b1 = [(0, 7)]"
    using push_not_full [OF cc_inv_new, of 7] by auto
  have n: "nextPos b1 = 1" "head b1 = 0" using b1(1) by (auto simp: cc_push_def cc_new_def CBufferSize_def)
  then have "\<not> cc_full b1" by (simp add: cc_full_def)
  then obtain b2 where b2: "cc_push b1 8 = Some (1, b2)" "cc_inv b2" "cc_entries b2 = [(0, 7), (1, 8)]"
    using push_not_full [OF b1(2), of 8] b1(3) n(1) by auto
  obtain b3 where "cc_pop b2 0 = Some b3" "cc_entries b3 = [(1, 8)]"
    using cc_pop_refines [OF b2(2), of 0] b2(3) by auto
  then show ?thesis using b1(1) b2(1,3) by blast
qed

text \<open>
  No sequence of calls can hang or leave the consistent states: from a new buffer every
  sequence of pushes and of pops at array positions returns, so neither scan for the next
  valid slot ever runs forever, and the number of live entries stays within the capacity.
\<close>

theorem cc_calls_total:
  assumes "list_all (call_ok CBufferSize) cs"
  shows "\<exists>b. run_calls cc_push cc_pop cc_new cs = Some b \<and> cc_inv b \<and>
    validElements b = int (length (cc_entries b)) \<and> validElements b \<le> 30"
  using ccq.run_total [OF cc_inv_new assms] ccq.size_bounded
  by (auto simp: validElements_entries CBufferSize_def)

lemma cc_calls_total_witness:
  "\<exists>b. run_calls cc_push cc_pop cc_new [Push_call 1, Push_call 2, Pop_call 0, Pop_call 29] = Some b"
  using cc_calls_total [of "[Push_call 1, Push_call 2, Pop_call 0, Pop_call 29]"]
  by (auto simp: CBufferSize_def)

text \<open>
  A position outlives its entry.  When the buffer is full the next push reuses the
  position of the oldest entry; a later pop by the owner of that position (a packet that
  was still in the queues) removes the new entry, not its own.
\<close>

theorem cc_stale_position:
  assumes "cc_inv b" "cc_full b"
  shows "\<exists>b' b''. fst (hd (cc_entries b)) = nextPos b \<and>
    cc_push b a = Some (nextPos b, b') \<and> (nextPos b, a) \<in> set (cc_entries b') \<and>
    cc_pop b' (int (nextPos b)) = Some b'' \<and> cc_entries b'' = tl (cc_entries b)"
proof -
  have hv: "valid (futureDestinations b ! head b)" "head b < CBufferSize"
    and np: "nextPos b = head b" and len: "length (futureDestinations b) = CBufferSize"
    using assms by (auto simp: cc_inv_def cc_full_def)
  have "ring b ! 0 = (head b, futureDestinations b ! head b)"
    using hv len nth_ring [of 0 b] by simp
  then have r: "ring b = (head b, futureDestinations b ! head b) # drop 1 (ring b)"
    using len length_ring [of b] by (cases "ring b") (auto simp: CBufferSize_def)
  then have first: "cc_entries b = (nextPos b, addr (futureDestinations b ! head b)) # tl (cc_entries b)"
  proof -
    obtain X where "ring b = (head b, futureDestinations b ! head b) # X" using r by blast
    then show ?thesis by (simp add: cc_entries_def hv np)
  qed
  obtain b' where b': "cc_push b a = Some (nextPos b, b')" "cc_inv b'"
    "cc_entries b' = tl (cc_entries b) @ [(nextPos b, a)]"
    using push_full [OF assms] by blast
  have "nextPos b \<notin> fst ` set (tl (cc_entries b))"
    using ccq.positions_distinct [OF b'(2)] b'(3) by simp
  then have "filter (\<lambda>y. fst y \<noteq> nextPos b) (tl (cc_entries b)) = tl (cc_entries b)"
    by (intro filter_True) force
  moreover obtain b'' where "cc_pop b' (int (nextPos b)) = Some b''"
    "cc_entries b'' = filter (\<lambda>y. fst y \<noteq> nextPos b) (cc_entries b')"
    using ccq.pop_law [OF b'(2), of "nextPos b"] hv np by auto
  moreover have "fst (hd (cc_entries b)) = nextPos b" by (subst first) simp
  ultimately show ?thesis using b' by auto
qed

definition full_example :: ccbuffer where
  "full_example = \<lparr>futureDestinations = replicate CBufferSize (enable (address_of 1)),
     head = 0, validElements = 30, nextPos = 0\<rparr>"

lemma full_example_ok: "cc_inv full_example" "cc_full full_example"
  by (simp_all add: cc_inv_def cc_full_def full_example_def cc_window_def ring_def CBufferSize_def)

lemma cc_stale_position_witness:
  "\<exists>b' b''. cc_push full_example 5 = Some (0, b') \<and> (0, 5) \<in> set (cc_entries b') \<and>
    cc_pop b' 0 = Some b'' \<and> cc_entries b'' = tl (cc_entries full_example)"
  using cc_stale_position [OF full_example_ok, of 5] by (auto simp: full_example_def)

lemma show_entries: "length (futureDestinations b) = CBufferSize \<Longrightarrow> cc_show b = map snd (cc_entries b)"
proof -
  assume len: "length (futureDestinations b) = CBufferSize"
  have "map (\<lambda>k. futureDestinations b ! ((head b + k) mod CBufferSize)) [0..<CBufferSize] =
      map snd (ring b)"
    by (rule nth_equalityI) (simp_all add: len nth_ring)
  moreover have "live = (\<lambda>x. valid (snd x))" by (simp add: live_def fun_eq_iff)
  ultimately show ?thesis
    by (simp add: cc_show_def cc_entries_def filter_map comp_def case_prod_beta)
qed

end
