(* ===== verification/ML_Controller.thy ===== *)
theory ML_Controller
  imports Ring_Buffer
begin

text \<open>
  The router extern \<^verbatim>\<open>class MLController\<close> (targets/simple_switch/MLController.cpp), the
  connection to the Python agent \<^verbatim>\<open>class PyModule\<close> (pymodule.h) and the MAC address helpers
  of parseMac.h.  One \<open>controller\<close> record is one extern instance; \<open>shared\<close> holds the static
  members all instances see.  The pointer members \<open>c\<close> and \<open>py\<close> are keys into the static
  tables, so two instances bound to one host share one buffer, as the pointers do.

  Outside the model: console output, the log and command files, \<^verbatim>\<open>sleep\<close>.  The content of
  topology.db (what \<^verbatim>\<open>parseMac()\<close> returns, \<open>None\<close> when the file cannot be opened) and the
  results of the socket calls are arguments.
\<close>

section \<open>MAC addresses as text\<close>

definition hex_digit :: "nat \<Rightarrow> char" where
  "hex_digit d = (if d < 10 then char_of (48 + d) else char_of (87 + d))"

fun hex_of :: "nat \<Rightarrow> string" where
  "hex_of n = (if n < 16 then [hex_digit n] else hex_of (n div 16) @ [hex_digit (n mod 16)])"

declare hex_of.simps [simp del]

text \<open>The loop of \<^verbatim>\<open>showMac\<close>: a colon behind every second digit but the last.\<close>

fun colons :: "nat \<Rightarrow> nat \<Rightarrow> string \<Rightarrow> string" where
  "colons i len [] = []"
| "colons i len (ch # cs) =
     (if (i + 1) mod 2 = 0 \<and> i \<noteq> len - 1 then [ch, CHR '':''] else [ch]) @ colons (i + 1) len cs"

definition showMac :: "u64 \<Rightarrow> string" where
  "showMac mac =
     (let macString = hex_of (unat mac);
          padded = replicate (12 - length macString) (CHR ''0'') @ macString
      in colons 0 (length padded) padded)"

definition hex_value :: "char \<Rightarrow> nat option" where
  "hex_value ch = (let n = (of_char ch :: nat) in
     if 48 \<le> n \<and> n \<le> 57 then Some (n - 48)
     else if 65 \<le> n \<and> n \<le> 70 then Some (n - 55)
     else if 97 \<le> n \<and> n \<le> 102 then Some (n - 87)
     else None)"

fun hex_number :: "nat \<Rightarrow> string \<Rightarrow> nat option" where
  "hex_number acc [] = Some acc"
| "hex_number acc (ch # cs) =
     (case hex_value ch of None \<Rightarrow> None | Some d \<Rightarrow> hex_number (16 * acc + d) cs)"

text \<open>
  Colons erased, the rest read as a hexadecimal number into 64 bits; the stream extraction
  stores the largest value on overflow.  Text that is not a non-empty sequence of
  hexadecimal digits and colons is outside the model.
\<close>

definition convert_mac :: "string \<Rightarrow> u64 option" where
  "convert_mac mac =
     (let digits = filter (\<lambda>ch. ch \<noteq> CHR '':'') mac in
      if digits = [] then None
      else case hex_number 0 digits of
        None \<Rightarrow> None
      | Some n \<Rightarrow> Some (if n < 2 ^ 64 then of_nat n else - 1))"

section \<open>The connection to the agent\<close>

record pymodule =
  connected :: bool
  created :: bool
  py_port :: int

record socket_env =
  sock_ret :: int
  conn_ret :: int
  recv_reply :: "int option" \<comment> \<open>\<open>None\<close>: recv never returns a positive count\<close>

definition getOffset :: "string \<Rightarrow> int option" where
  "getOffset name = (case name of
     c0 # c1 # _ \<Rightarrow> Some ((if c0 = CHR ''l'' then 10 else 0) + int (of_char c1) - 48)
   | [c0] \<Rightarrow> Some ((if c0 = CHR ''l'' then 10 else 0) - 48)
   | [] \<Rightarrow> None)"

definition setPort :: "pymodule \<Rightarrow> string \<Rightarrow> pymodule option" where
  "setPort p name = (if py_port p \<noteq> 1400 then Some p
     else do { off \<leftarrow> getOffset name; Some (p\<lparr>py_port := py_port p + off\<rparr>) })"

definition new_PyModule :: "string \<Rightarrow> pymodule option" where
  "new_PyModule host = setPort \<lparr>connected = False, created = False, py_port = 1400\<rparr> host"

definition createConnection :: "socket_env \<Rightarrow> pymodule \<Rightarrow> (bool \<times> pymodule) option" where
  "createConnection env p = do {
     p1 \<leftarrow> (if \<not> created p then
              (if sock_ret env < 0 then None
               else if 0 < sock_ret env then Some (p\<lparr>created := True\<rparr>)
               else Some p)
            else Some p);
     let p2 = (if 0 \<le> conn_ret env then p1\<lparr>connected := True\<rparr> else p1);
     Some (connected p2, p2)
   }"

fun dec :: "nat \<Rightarrow> string" where
  "dec n = (if n < 10 then [char_of (48 + n)] else dec (n div 10) @ [char_of (48 + n mod 10)])"

declare dec.simps [simp del]

definition sdec :: "int \<Rightarrow> string" where
  "sdec i = (if i < 0 then CHR ''-'' # dec (nat (- i)) else dec (nat i))"

definition buffered_addresses :: "ccbuffer \<Rightarrow> u32 list" where
  "buffered_addresses b = List.map_filter (\<lambda>i.
     let pos = (cc_getHead b + i) mod CBufferSize in
     if cc_isValid b (int pos) = Some True then cc_get b (int pos) else None) [0..<CBufferSize]"

text \<open>The text \<^verbatim>\<open>getPort\<close> writes into \<open>sbuffer[512]\<close>, without the final zero byte.\<close>

definition request_text :: "u32 \<Rightarrow> u32 \<Rightarrow> ccbuffer \<Rightarrow> string" where
  "request_text address qTime b =
     ''GETP '' @ sdec (cc_currElems b) @ '' '' @ sdec (sint address) @ '' '' @
     sdec (sint qTime) @ '' '' @
     concat (map (\<lambda>a. dec (unat a) @ '' '') (buffered_addresses b))"

definition sbuffer_size :: nat where
  "sbuffer_size = 512"

definition py_getPort ::
  "socket_env \<Rightarrow> pymodule \<Rightarrow> u32 \<Rightarrow> u32 \<Rightarrow> ccbuffer \<Rightarrow> (int \<times> pymodule) option" where
  "py_getPort env p address qTime b = do {
     p1 \<leftarrow> (if \<not> connected p then
              do { (ok, p') \<leftarrow> createConnection env p; Some (p'\<lparr>connected := ok\<rparr>) }
            else Some p);
     if \<not> connected p1 then Some (-1, p1)
     else if sbuffer_size \<le> length (request_text address qTime b) then None
     else case recv_reply env of None \<Rightarrow> None | Some r \<Rightarrow> Some (r, p1)
   }"

section \<open>State of the extern\<close>

definition RWS_SIZE :: nat where
  "RWS_SIZE = 100000"

definition UPDATE_FREQUENCY :: int where
  "UPDATE_FREQUENCY = 500"

record controller =
  isIngress :: bool
  c_key :: "string option"
  py_key :: "string option"
  host :: string
  counters :: "u32 \<rightharpoonup> int"
  firstRun :: bool

record shared =
  ccbuffers :: "string \<rightharpoonup> ccbuffer"
  pyS :: "string \<rightharpoonup> pymodule"
  hosts :: "(u64 \<times> string) list"
  rws :: "nat \<Rightarrow> u32"
  nextId :: nat
  nextRw :: nat
  packet_counter :: "string \<Rightarrow> int"

definition ml_init :: controller where
  "ml_init = \<lparr>isIngress = True, c_key = None, py_key = None, host = ''nullhost'',
     counters = Map.empty, firstRun = True\<rparr>"

definition shared_init :: shared where
  "shared_init = \<lparr>ccbuffers = Map.empty, pyS = Map.empty, hosts = [], rws = (\<lambda>_. 0),
     nextId = 0, nextRw = 0, packet_counter = (\<lambda>_. 0)\<rparr>"

section \<open>Private helpers\<close>

definition checkHost :: "u64 \<Rightarrow> controller \<Rightarrow> shared \<Rightarrow> controller" where
  "checkHost mac s sh =
     (if host s = ''nullhost'' then
        (case map_of (hosts sh) mac of None \<Rightarrow> s | Some h \<Rightarrow> s\<lparr>host := h\<rparr>)
      else s)"

definition checkDestination :: "u64 \<Rightarrow> shared \<Rightarrow> int" where
  "checkDestination mac sh = (case map_of (hosts sh) mac of None \<Rightarrow> -1 | Some _ \<Rightarrow> 0)"

definition checkPy :: "controller \<Rightarrow> shared \<Rightarrow> (controller \<times> shared) option" where
  "checkPy s sh =
     (if host s = ''nullhost'' then Some (s, sh)
      else if py_key s \<noteq> None then Some (s, sh)
      else do {
        sh1 \<leftarrow> (case pyS sh (host s) of
                  None \<Rightarrow> do { p \<leftarrow> new_PyModule (host s);
                               Some (sh\<lparr>pyS := (pyS sh)(host s \<mapsto> p)\<rparr>) }
                | Some _ \<Rightarrow> Some sh);
        Some (s\<lparr>py_key := Some (host s)\<rparr>, sh1)
      })"

definition checkCCBuffer :: "controller \<Rightarrow> shared \<Rightarrow> controller \<times> shared" where
  "checkCCBuffer s sh =
     (if c_key s \<noteq> None then (s, sh)
      else (s\<lparr>c_key := Some (host s)\<rparr>,
            (case ccbuffers sh (host s) of
               None \<Rightarrow> sh\<lparr>ccbuffers := (ccbuffers sh)(host s \<mapsto> cc_new)\<rparr>
             | Some _ \<Rightarrow> sh)))"

text \<open>The pointer \<open>c\<close> dereferenced: undefined while it is null.\<close>

definition the_buffer :: "controller \<Rightarrow> shared \<Rightarrow> (string \<times> ccbuffer) option" where
  "the_buffer s sh = do { k \<leftarrow> c_key s; b \<leftarrow> ccbuffers sh k; Some (k, b) }"

definition load_hosts :: "(u64 \<times> string) list option \<Rightarrow> shared \<Rightarrow> shared option" where
  "load_hosts topo sh =
     (if hosts sh = [] then do { t \<leftarrow> topo; Some (sh\<lparr>hosts := t\<rparr>) } else Some sh)"

text \<open>The per-address counter of \<^verbatim>\<open>pushAddr\<close> and the flag it computes.\<close>

definition bump_counter :: "(u32 \<rightharpoonup> int) \<Rightarrow> u32 \<Rightarrow> (u32 \<rightharpoonup> int) \<times> int" where
  "bump_counter cnt a =
     (let (cnt1, upd1) = (if cnt a = None then (cnt(a \<mapsto> 0), 1) else (cnt, 0));
          n = (case cnt1 a of None \<Rightarrow> 0 | Some v \<Rightarrow> v) + 1
      in if n = UPDATE_FREQUENCY then (cnt1(a \<mapsto> 0), 1) else (cnt1(a \<mapsto> n), upd1))"

text \<open>Lines of \<^verbatim>\<open>getOutputPort\<close> that pick the reward to report and number the request.\<close>

definition take_reward :: "shared \<Rightarrow> u32 \<times> shared" where
  "take_reward sh =
     (if nextId sh \<noteq> 0
      then (rws sh (nextRw sh), sh\<lparr>nextRw := (nextRw sh + 1) mod RWS_SIZE\<rparr>)
      else (0, sh))"

definition next_request :: "shared \<Rightarrow> shared" where
  "next_request sh = sh\<lparr>nextId := (nextId sh + 1) mod RWS_SIZE\<rparr>"

section \<open>Methods called from the P4 program\<close>

text \<open>
  The in-out parameters \<open>pos\<close>, \<open>update_entry\<close>, \<open>outPort\<close>, \<open>doForward\<close> and \<open>id\<close> are passed
  with their old values and returned with the new ones.
\<close>

definition pushAddr ::
  "(u64 \<times> string) list option \<Rightarrow> u64 \<Rightarrow> u32 \<Rightarrow> int \<Rightarrow> int \<Rightarrow> int \<Rightarrow> controller \<Rightarrow> shared \<Rightarrow>
   (int \<times> int \<times> controller \<times> shared) option" where
  "pushAddr topo mac address pos valid_bool update_entry s sh =
     (let s0 = s\<lparr>firstRun := False\<rparr> in
      if valid_bool = 0 then Some (pos, update_entry, s0, sh)
      else do {
        sh1 \<leftarrow> load_hosts topo sh;
        let s1 = checkHost mac s0 sh1;
        let (s2, sh2) = checkCCBuffer s1 sh1;
        let (cnt, upd) = bump_counter (counters s2) address;
        (k, b) \<leftarrow> the_buffer s2 sh2;
        (ret, b') \<leftarrow> cc_push b address;
        Some (int ret, upd, s2\<lparr>counters := cnt\<rparr>, sh2\<lparr>ccbuffers := (ccbuffers sh2)(k \<mapsto> b')\<rparr>)
      })"

definition popAddr ::
  "u64 \<Rightarrow> int \<Rightarrow> int \<Rightarrow> controller \<Rightarrow> shared \<Rightarrow> (controller \<times> shared) option" where
  "popAddr mac pos valid_bool s sh =
     (let s1 = checkHost mac s sh; (s2, sh2) = checkCCBuffer s1 sh in
      if valid_bool = 0 then Some (s2, sh2)
      else do {
        (k, b) \<leftarrow> the_buffer s2 sh2;
        b' \<leftarrow> cc_pop b pos;
        Some (s2, sh2\<lparr>ccbuffers := (ccbuffers sh2)(k \<mapsto> b')\<rparr>)
      })"

definition getOutputPort ::
  "socket_env \<Rightarrow> (u64 \<times> string) list option \<Rightarrow> u64 \<Rightarrow> int \<Rightarrow> int \<Rightarrow> int \<Rightarrow> int \<Rightarrow> int \<Rightarrow>
   controller \<Rightarrow> shared \<Rightarrow> (int \<times> int \<times> int \<times> controller \<times> shared) option" where
  "getOutputPort env topo mac pos valid_bool outPort doForward rid s sh =
     do {
       sh1 \<leftarrow> load_hosts topo sh;
       if valid_bool = 0 then Some (outPort, doForward, rid, s, sh1)
       else do {
         let s1 = checkHost mac s sh1;
         (s2, sh2) \<leftarrow> checkPy s1 sh1;
         let rid' = int (nextId sh2);
         let (lastRw, sh3) = take_reward sh2;
         pk \<leftarrow> py_key s2;
         p \<leftarrow> pyS sh3 pk;
         (k, b) \<leftarrow> the_buffer s2 sh3;
         a \<leftarrow> cc_get b pos;
         (port, p') \<leftarrow> py_getPort env p a lastRw b;
         let doForward1 = (if port = -1 then 0 else doForward);
         let doForward2 = 1;
         Some (port, doForward2, rid', s2, next_request (sh3\<lparr>pyS := (pyS sh3)(pk \<mapsto> p')\<rparr>))
       }
     }"

text \<open>
  \<open>neighbor\<close> is \<^verbatim>\<open>getNeighbor(host, port)\<close>: a lookup in topology.db, \<open>None\<close> where it throws.
\<close>

definition getNeighborMac ::
  "(string \<Rightarrow> u32 \<Rightarrow> u64 option) \<Rightarrow> u64 \<Rightarrow> u32 \<Rightarrow> int \<Rightarrow> controller \<Rightarrow> shared \<Rightarrow> (u64 \<times> int) option" where
  "getNeighborMac neighbor mac port doForward s sh =
     (if checkDestination mac sh < 0 then Some (mac, 0)
      else do { rv \<leftarrow> neighbor (host s) port; Some (rv, 1) })"

definition sendReward :: "int \<Rightarrow> u32 \<Rightarrow> u32 \<Rightarrow> shared \<Rightarrow> shared" where
  "sendReward valid_bool qtime rid sh =
     (if valid_bool = 0 then sh else sh\<lparr>rws := (rws sh)(unat rid := qtime)\<rparr>)"

definition setAsIngress :: "controller \<Rightarrow> controller" where
  "setAsIngress s = s\<lparr>isIngress := True\<rparr>"

definition setAsEgress :: "controller \<Rightarrow> controller" where
  "setAsEgress s = s\<lparr>isIngress := False\<rparr>"

text \<open>\<^verbatim>\<open>MLController::hosts[m]\<close> as an rvalue: \<open>operator[]\<close> inserts the empty string.\<close>

definition hosts_index :: "u64 \<Rightarrow> shared \<Rightarrow> string \<times> shared" where
  "hosts_index m sh = (case map_of (hosts sh) m of
     Some h \<Rightarrow> (h, sh)
   | None \<Rightarrow> ('''', sh\<lparr>hosts := (m, '''') # hosts sh\<rparr>))"

definition logDrop_f :: "u64 \<Rightarrow> u64 \<Rightarrow> int \<Rightarrow> controller \<Rightarrow> shared \<Rightarrow> string \<times> shared" where
  "logDrop_f macsrc macdst in_port s sh =
     (if host s = ''nullhost'' then ('''', sh)
      else
        (let (hs, sh1) = hosts_index macsrc sh; (hd, sh2) = hosts_index macdst sh1 in
         (''src: '' @ hs @ '', dst: '' @ hd @ '', port: '' @ sdec in_port @ '' [dropped]'', sh2)))"

definition logFw_f ::
  "string \<Rightarrow> u64 \<Rightarrow> u64 \<Rightarrow> int \<Rightarrow> int \<Rightarrow> u64 \<Rightarrow> controller \<Rightarrow> shared \<Rightarrow> string \<times> shared" where
  "logFw_f ipdst macsrc macdst in_port out_port destination s sh =
     (let (hs, sh1) = hosts_index macsrc sh; (hd, sh2) = hosts_index macdst sh1;
          (ht, sh3) = hosts_index destination sh2;
          n = packet_counter sh3 (host s) + 1
      in (''('' @ ipdst @ '') src: '' @ hs @ '', dst: '' @ hd @ '', port: '' @ sdec in_port @
          '' [forwarded to '' @ ht @ '', port '' @ sdec out_port @ ''] (count = '' @ sdec n @ '')'',
          sh3\<lparr>packet_counter := (packet_counter sh3)(host s := n)\<rparr>))"

section \<open>Route rewriting\<close>

text \<open>The loop of \<^verbatim>\<open>make_route\<close>: the index of the third dot.\<close>

fun third_dot :: "string \<Rightarrow> nat \<Rightarrow> nat \<Rightarrow> nat \<Rightarrow> nat option" where
  "third_dot [] i count_dots last_dot = (if count_dots < 3 then None else Some last_dot)"
| "third_dot (ch # cs) i count_dots last_dot =
     (if count_dots < 3 then
        (if ch = CHR ''.'' then third_dot cs (i + 1) (count_dots + 1) i
         else third_dot cs (i + 1) count_dots last_dot)
      else Some last_dot)"

definition make_route :: "string \<Rightarrow> string option" where
  "make_route dst = do { d \<leftarrow> third_dot dst 0 0 0; Some (take (d + 1) dst @ ''0/24'') }"

fun contains :: "string \<Rightarrow> string \<Rightarrow> bool" where
  "contains pat [] = (pat = [])"
| "contains pat (x # xs) = (take (length pat) (x # xs) = pat \<or> contains pat xs)"

text \<open>
  \<^verbatim>\<open>update_routes\<close> on the lines of the command file: every line naming the prefix becomes the
  new route; the route is appended when no line does.
\<close>

definition update_route_lines :: "string \<Rightarrow> string \<Rightarrow> int \<Rightarrow> string list \<Rightarrow> string list" where
  "update_route_lines ip mac_next_hop port ls =
     (let new_route = ''table_add ipv4_lpm ipv4_forward '' @ ip @ '' => '' @ mac_next_hop @ '' '' @
            sdec port in
      map (\<lambda>l. if contains ip l then new_route else l) ls @
      (if \<exists>l \<in> set ls. contains ip l then [] else [new_route]))"

definition thrift_port :: "string \<Rightarrow> int option" where
  "thrift_port h = (case h of
     c0 # c1 # _ \<Rightarrow> Some (9089 + (if c0 = CHR ''s'' then 4 else 0) + int (of_char c1) - 48)
   | [c0] \<Rightarrow> Some (9089 + (if c0 = CHR ''s'' then 4 else 0) - 48)
   | [] \<Rightarrow> None)"

section \<open>Lemmas on the text helpers\<close>

lemma hex_value_digit: "d < 16 \<Longrightarrow> hex_value (hex_digit d) = Some d"
  by (simp add: hex_value_def hex_digit_def)

lemma hex_digit_not_colon: "d < 16 \<Longrightarrow> hex_digit d \<noteq> CHR '':''"
proof -
  assume "d < 16"
  then have "hex_value (hex_digit d) \<noteq> None" by (simp add: hex_value_digit)
  moreover have "hex_value CHR '':'' = None" by (simp add: hex_value_def)
  ultimately show ?thesis by metis
qed

lemma hex_of_ne [simp]: "hex_of n \<noteq> []"
  by (subst hex_of.simps) simp

lemma hex_of_no_colon: "CHR '':'' \<notin> set (hex_of n)"
proof (induction n rule: hex_of.induct)
  case (1 n)
  then show ?case
    using hex_digit_not_colon [of n] hex_digit_not_colon [of "n mod 16"]
    by (subst hex_of.simps) (auto simp del: hex_of.simps)
qed

lemma hex_number_append:
  "hex_number acc (xs @ ys) =
     (case hex_number acc xs of None \<Rightarrow> None | Some n \<Rightarrow> hex_number n ys)"
  by (induction xs arbitrary: acc) (auto split: option.splits)

lemma hex_number_hex_of: "hex_number 0 (hex_of n) = Some n"
proof (induction n rule: hex_of.induct)
  case (1 n)
  show ?case
  proof (cases "n < 16")
    case True
    then show ?thesis by (subst hex_of.simps) (simp add: hex_value_digit)
  next
    case False
    then show ?thesis
      using 1 by (subst hex_of.simps) (simp add: hex_number_append hex_value_digit)
  qed
qed

lemma hex_number_zeros: "hex_number 0 (replicate k (CHR ''0'') @ xs) = hex_number 0 xs"
  by (induction k) (simp_all add: hex_value_def)

lemma filter_colons:
  "CHR '':'' \<notin> set cs \<Longrightarrow> filter (\<lambda>ch. ch \<noteq> CHR '':'') (colons i len cs) = cs"
  by (induction i len cs rule: colons.induct) auto

lemma length_dec: "n < 10 ^ Suc k \<Longrightarrow> length (dec n) \<le> Suc k"
proof (induction k arbitrary: n)
  case 0
  then show ?case by (subst dec.simps) simp
next
  case (Suc k)
  show ?case
  proof (cases "n < 10")
    case True
    then show ?thesis by (subst dec.simps) simp
  next
    case False
    have "n div 10 < 10 ^ Suc k" using Suc.prems by (simp add: less_mult_imp_div_less)
    from Suc.IH [OF this] False show ?thesis by (subst dec.simps) simp
  qed
qed

lemma length_sdec: "\<bar>i\<bar> < 10 ^ Suc k \<Longrightarrow> length (sdec i) \<le> Suc (Suc k)"
  using length_dec [of "nat i" k] length_dec [of "nat (- i)" k]
  by (auto simp: sdec_def nat_less_iff abs_less_iff)

lemma sint_u32_bound: "\<bar>sint (w :: u32)\<bar> < 10 ^ Suc 9"
  using sint_range_size [of w] by (simp add: size_word.rep_eq) (simp add: abs_less_iff)

lemma length_concat_bound:
  "(\<And>x. x \<in> set xs \<Longrightarrow> length x \<le> m) \<Longrightarrow> length (concat xs) \<le> m * length xs"
  by (induction xs) (auto simp: add_le_mono)

lemma length_map_filter: "length (List.map_filter f xs) \<le> length xs"
  by (simp add: map_filter_def)

section \<open>The request text fits its buffer\<close>

lemma length_buffered_addresses: "length (buffered_addresses b) \<le> 30"
  unfolding buffered_addresses_def
  by (rule order_trans [OF length_map_filter]) (simp add: CBufferSize_def)

text \<open>
  \<^verbatim>\<open>sprintf\<close> never writes past \<open>sbuffer\<close>: for a consistent ring buffer the whole request,
  four fields and up to thirty addresses in decimal, is shorter than the 512 bytes.
\<close>

theorem request_text_fits:
  assumes "cc_inv b"
  shows "length (request_text address qTime b) < sbuffer_size"
proof -
  have "0 \<le> validElements b" "validElements b \<le> 30"
    using cc_calls_bound [OF assms] by simp_all
  then have n: "length (sdec (cc_currElems b)) \<le> Suc (Suc 1)"
    by (intro length_sdec) (simp add: cc_currElems_def)
  have a: "length (sdec (sint w)) \<le> 11" for w :: u32
    using length_sdec [OF sint_u32_bound [of w]] by simp
  have "length (dec (unat w) @ '' '') \<le> 11" for w :: u32
    using length_dec [of "unat w" 9] unat_bound [of w] by simp
  then have "length (concat (map (\<lambda>a. dec (unat a) @ '' '') (buffered_addresses b)))
      \<le> 11 * length (buffered_addresses b)"
    by (intro order_trans [OF length_concat_bound [where m = 11]]) auto
  then show ?thesis
    using n a [of address] a [of qTime] length_buffered_addresses [of b]
    by (simp add: request_text_def sbuffer_size_def)
qed

lemma request_text_fits_witness: "length (request_text 0 0 cc_new) < sbuffer_size"
  using request_text_fits [OF cc_inv_new] .

text \<open>
  \<^verbatim>\<open>convert_mac\<close> inverts \<^verbatim>\<open>showMac\<close> on every 64-bit value.
\<close>

theorem convert_mac_showMac: "convert_mac (showMac m) = Some m"
proof -
  let ?h = "hex_of (unat m)"
  let ?p = "replicate (12 - length ?h) (CHR ''0'') @ ?h"
  have "CHR '':'' \<notin> set ?p" using hex_of_no_colon [of "unat m"] by auto
  then have f: "filter (\<lambda>ch. ch \<noteq> CHR '':'') (showMac m) = ?p"
    by (simp add: showMac_def Let_def filter_colons del: filter_append filter_replicate)
  moreover have "unat m < 2 ^ 64" using unat_bound [of m] by simp
  ultimately show ?thesis
    by (simp add: convert_mac_def Let_def hex_number_zeros hex_number_hex_of)
qed

section \<open>How often the agent is asked\<close>

definition counters_after :: "u32 list \<Rightarrow> (u32 \<rightharpoonup> int)" where
  "counters_after xs = fold (\<lambda>x c. fst (bump_counter c x)) xs Map.empty"

lemma counters_after_snoc:
  "counters_after (xs @ [x]) = fst (bump_counter (counters_after xs) x)"
  by (simp add: counters_after_def)

lemma counters_after_value:
  "counters_after xs a =
    (if count_list xs a = 0 then None else Some (int (count_list xs a mod 500)))"
proof (induction xs rule: rev_induct)
  case Nil
  then show ?case by (simp add: counters_after_def)
next
  case (snoc x xs)
  let ?n = "count_list xs x"
  show ?case
  proof (cases "x = a")
    case True
    then show ?thesis
      using snoc counter_wrap [of 500 ?n]
      by (cases "Suc ?n mod 500 = 0") (auto simp: counters_after_snoc bump_counter_def Let_def
          UPDATE_FREQUENCY_def)
  next
    case False
    then show ?thesis
      using snoc by (simp add: counters_after_snoc bump_counter_def Let_def)
  qed
qed

text \<open>
  After any sequence of pushed addresses, the flag \<open>update_entry\<close> computed for a push of
  address \<open>a\<close> is 1 exactly for the first push of \<open>a\<close> and for every 500th one, whatever was
  pushed in between.
\<close>

theorem update_entry_schedule:
  "snd (bump_counter (counters_after xs) a) =
    (let n = count_list xs a + 1 in if n = 1 \<or> n mod 500 = 0 then 1 else 0)"
proof -
  let ?n = "count_list xs a"
  show ?thesis
    using counter_wrap [of 500 ?n]
    by (cases "?n = 0") (simp_all add: bump_counter_def counters_after_value Let_def
        UPDATE_FREQUENCY_def)
qed

section \<open>Which reward a request reports\<close>

definition request_cycle :: "shared \<Rightarrow> shared" where
  "request_cycle sh = next_request (snd (take_reward sh))"

lemma reward_index_le: "k div 100000 + (if 100000 dvd k then 0 else 1) \<le> (k::nat)"
proof (cases "k = 0")
  case False
  then have "k div 100000 < k" by (intro div_less_dividend) simp_all
  then show ?thesis by simp
qed simp

lemma reward_index_step:
  defines "f \<equiv> \<lambda>k::nat. k - k div 100000 - (if 100000 dvd k then 0 else 1)"
  shows "f (Suc k) = (if k mod 100000 = 0 then f k else Suc (f k))"
  using reward_index_le [of k] reward_index_le [of "Suc k"]
  unfolding f_def dvd_eq_mod_eq_0 div_Suc mod_Suc by (auto split: if_splits)

text \<open>
  The reward slot drifts.  After \<open>k\<close> requests the next id is \<open>k mod 100000\<close>, and the next
  slot read is \<open>k - k div 100000 - 1\<close> (modulo the table size) when the id is not 0: the reward
  reported with a request is the one of the request \<open>1 + k div 100000\<close> before it, so it is the
  preceding request's only until the ids first wrap around.
\<close>

theorem reward_slot_drift:
  "nextId ((request_cycle ^^ k) shared_init) = k mod 100000 \<and>
   nextRw ((request_cycle ^^ k) shared_init) =
     (k - k div 100000 - (if 100000 dvd k then 0 else 1)) mod 100000"
proof (induction k)
  case 0
  then show ?case by (simp add: shared_init_def)
next
  case (Suc k)
  let ?s = "(request_cycle ^^ k) shared_init"
  have step: "nextId (request_cycle sh) = Suc (nextId sh) mod 100000"
    "nextRw (request_cycle sh) =
      (if nextId sh = 0 then nextRw sh else Suc (nextRw sh) mod 100000)" for sh
    by (simp_all add: request_cycle_def next_request_def take_reward_def RWS_SIZE_def)
  have id: "nextId ?s = k mod 100000"
    and rw: "nextRw ?s = (k - k div 100000 - (if 100000 dvd k then 0 else 1)) mod 100000"
    using Suc by simp_all
  show ?case
    unfolding funpow.simps comp_def step id rw reward_index_step
    by (simp add: mod_Suc_eq)
qed


section \<open>The extern as a state machine\<close>

text \<open>
  Any number of extern instances (the ingress and the egress pipeline of each switch own
  one) over one set of static members.  A step is one method call by one instance that
  returns; which instance calls what, with which arguments, is not determined.
\<close>

record extern_sys =
  inst :: "nat \<Rightarrow> controller"
  stat :: shared

definition extern_init :: extern_sys where
  "extern_init = \<lparr>inst = (\<lambda>_. ml_init), stat = shared_init\<rparr>"

inductive extern_step :: "extern_sys \<Rightarrow> extern_sys \<Rightarrow> bool" where
  push: "pushAddr topo mac a pos v u (inst x i) (stat x) = Some (pos', u', s', sh') \<Longrightarrow>
    extern_step x \<lparr>inst = (inst x)(i := s'), stat = sh'\<rparr>"
| pop: "popAddr mac pos v (inst x i) (stat x) = Some (s', sh') \<Longrightarrow>
    extern_step x \<lparr>inst = (inst x)(i := s'), stat = sh'\<rparr>"
| port: "getOutputPort env topo mac pos v op fw r (inst x i) (stat x) =
      Some (op', fw', r', s', sh') \<Longrightarrow>
    extern_step x \<lparr>inst = (inst x)(i := s'), stat = sh'\<rparr>"
| reward: "extern_step x (x\<lparr>stat := sendReward v q r (stat x)\<rparr>)"
| ingress: "extern_step x (x\<lparr>inst := (inst x)(i := setAsIngress (inst x i))\<rparr>)"
| egress: "extern_step x (x\<lparr>inst := (inst x)(i := setAsEgress (inst x i))\<rparr>)"
| logdrop: "extern_step x (x\<lparr>stat := snd (logDrop_f m1 m2 p (inst x i) (stat x))\<rparr>)"
| logfw: "extern_step x (x\<lparr>stat := snd (logFw_f ip m1 m2 p1 p2 d (inst x i) (stat x))\<rparr>)"

inductive extern_reachable :: "extern_sys \<Rightarrow> bool" where
  start: "extern_reachable extern_init"
| step: "extern_reachable x \<Longrightarrow> extern_step x y \<Longrightarrow> extern_reachable y"

text \<open>Static tables are consistent and every bound pointer points at an entry.\<close>

definition shared_ok :: "shared \<Rightarrow> bool" where
  "shared_ok sh \<longleftrightarrow> (\<forall>k b. ccbuffers sh k = Some b \<longrightarrow> cc_inv b) \<and>
     nextId sh < RWS_SIZE \<and> nextRw sh < RWS_SIZE"

definition bound_ok :: "controller \<Rightarrow> shared \<Rightarrow> bool" where
  "bound_ok s sh \<longleftrightarrow> (\<forall>k. c_key s = Some k \<longrightarrow> k \<in> dom (ccbuffers sh)) \<and>
     (\<forall>k. py_key s = Some k \<longrightarrow> k \<in> dom (pyS sh))"

definition grows :: "shared \<Rightarrow> shared \<Rightarrow> bool" where
  "grows sh sh' \<longleftrightarrow> dom (ccbuffers sh) \<subseteq> dom (ccbuffers sh') \<and> dom (pyS sh) \<subseteq> dom (pyS sh')"

lemma bound_ok_grows: "bound_ok s sh \<Longrightarrow> grows sh sh' \<Longrightarrow> bound_ok s sh'"
  unfolding bound_ok_def grows_def by blast

lemma grows_refl [simp]: "grows sh sh"
  by (simp add: grows_def)

lemma grows_trans: "grows a b \<Longrightarrow> grows b c \<Longrightarrow> grows a c"
  unfolding grows_def by blast

lemma grows_fields [simp]:
  "grows sh (sh'\<lparr>hosts := t\<rparr>) = grows sh sh'"
  "grows sh (sh'\<lparr>packet_counter := pc\<rparr>) = grows sh sh'"
  by (simp_all add: grows_def)

lemma load_hosts_ok:
  assumes "load_hosts topo sh = Some sh1"
  shows "ccbuffers sh1 = ccbuffers sh \<and> pyS sh1 = pyS sh \<and> nextId sh1 = nextId sh \<and>
    nextRw sh1 = nextRw sh"
  using assms by (auto simp: load_hosts_def bind_eq_Some_iff split: if_splits)

lemma checkHost_keys [simp]:
  "c_key (checkHost mac s sh) = c_key s" "py_key (checkHost mac s sh) = py_key s"
  by (simp_all add: checkHost_def split: option.split)

lemma checkCCBuffer_ok:
  assumes "shared_ok sh" "bound_ok s sh"
  shows "\<exists>s' sh'. checkCCBuffer s sh = (s', sh') \<and> shared_ok sh' \<and> bound_ok s' sh' \<and>
    grows sh sh' \<and> c_key s' \<noteq> None"
  using assms
  by (auto simp: checkCCBuffer_def shared_ok_def bound_ok_def grows_def cc_inv_new
      split: option.splits if_splits)

lemma the_buffer_ok:
  assumes "shared_ok sh" "bound_ok s sh" "c_key s \<noteq> None"
  obtains k b where "the_buffer s sh = Some (k, b)" "ccbuffers sh k = Some b" "cc_inv b"
  using assms by (auto simp: the_buffer_def shared_ok_def bound_ok_def)

lemma shared_ok_update:
  "shared_ok sh \<Longrightarrow> cc_inv b \<Longrightarrow> shared_ok (sh\<lparr>ccbuffers := (ccbuffers sh)(k \<mapsto> b)\<rparr>)"
  by (auto simp: shared_ok_def)

lemma grows_update: "grows sh (sh\<lparr>ccbuffers := (ccbuffers sh)(k \<mapsto> b)\<rparr>)"
  by (auto simp: grows_def)

lemma bound_ok_frame:
  "c_key s' = c_key s \<Longrightarrow> py_key s' = py_key s \<Longrightarrow> ccbuffers sh' = ccbuffers sh \<Longrightarrow>
   pyS sh' = pyS sh \<Longrightarrow> bound_ok s' sh' = bound_ok s sh"
  by (simp add: bound_ok_def)

lemma pushAddr_total:
  assumes ok: "shared_ok sh" "bound_ok s sh" and t: "hosts sh \<noteq> [] \<or> topo \<noteq> None" and v: "v \<noteq> 0"
  shows "\<exists>p u' s' sh'. pushAddr topo mac a pos v u s sh = Some (int p, u', s', sh') \<and>
    p < CBufferSize \<and> shared_ok sh' \<and> bound_ok s' sh' \<and> grows sh sh' \<and> c_key s' \<noteq> None"
proof -
  let ?s0 = "s\<lparr>firstRun := False\<rparr>"
  obtain sh1 where sh1: "load_hosts topo sh = Some sh1"
    using t by (cases "hosts sh = []"; cases topo) (auto simp: load_hosts_def)
  have f: "ccbuffers sh1 = ccbuffers sh" "pyS sh1 = pyS sh" "shared_ok sh1"
    using load_hosts_ok [OF sh1] ok(1) by (simp_all add: shared_ok_def)
  have "bound_ok (checkHost mac ?s0 sh1) sh1"
    using ok(2) f by (subst bound_ok_frame) simp_all
  then obtain s2 sh2 where 2: "checkCCBuffer (checkHost mac ?s0 sh1) sh1 = (s2, sh2)"
    "shared_ok sh2" "bound_ok s2 sh2" "grows sh1 sh2" "c_key s2 \<noteq> None"
    using checkCCBuffer_ok [OF f(3)] by blast
  obtain k b where kb: "the_buffer s2 sh2 = Some (k, b)" "cc_inv b"
    using the_buffer_ok [OF 2(2,3,5)] by blast
  obtain b' where b': "cc_push b a = Some (nextPos b, b')" "cc_inv b'"
    using cc_push_ok [OF kb(2)] by blast
  obtain cnt upd where cu: "bump_counter (counters s2) a = (cnt, upd)" by fastforce
  let ?s' = "s2\<lparr>counters := cnt\<rparr>"
    and ?sh' = "sh2\<lparr>ccbuffers := (ccbuffers sh2)(k \<mapsto> b')\<rparr>"
  have "pushAddr topo mac a pos v u s sh = Some (int (nextPos b), upd, ?s', ?sh')"
    using v by (simp add: pushAddr_def Let_def sh1 2(1) cu kb(1) b'(1))
  moreover have "bound_ok ?s' ?sh'"
    using bound_ok_grows [OF 2(3) grows_update] by (simp add: bound_ok_def)
  moreover have "grows sh ?sh'"
    using 2(4) f grows_update [of sh2 k b'] by (auto simp: grows_def)
  moreover have "nextPos b < CBufferSize" using kb(2) by (simp add: cc_inv_def)
  ultimately show ?thesis
    using shared_ok_update [OF 2(2) b'(2)] 2(5) by fastforce
qed


lemma pushAddr_invalid:
  "pushAddr topo mac a pos 0 u s sh = Some (pos, u, s\<lparr>firstRun := False\<rparr>, sh)"
  by (simp add: pushAddr_def Let_def)

lemma pushAddr_no_topology:
  "hosts sh = [] \<Longrightarrow> v \<noteq> 0 \<Longrightarrow> pushAddr None mac a pos v u s sh = None"
  by (simp add: pushAddr_def load_hosts_def Let_def)

lemma pushAddr_keeps:
  assumes "pushAddr topo mac a pos v u s sh = Some (p', u', s', sh')"
    and ok: "shared_ok sh" "bound_ok s sh"
  shows "shared_ok sh' \<and> bound_ok s' sh' \<and> grows sh sh'"
proof (cases "v = 0")
  case True
  with assms show ?thesis by (auto simp: pushAddr_invalid bound_ok_def)
next
  case False
  show ?thesis
  proof (cases "hosts sh = [] \<and> topo = None")
    case True
    then show ?thesis using assms(1) False pushAddr_no_topology by auto
  next
    case nt: False
    then show ?thesis
      using pushAddr_total [OF ok, of topo v mac a pos u] assms(1) False by auto
  qed
qed

lemma popAddr_keeps:
  assumes p: "popAddr mac pos v s sh = Some (s', sh')"
    and ok: "shared_ok sh" "bound_ok s sh"
  shows "shared_ok sh' \<and> bound_ok s' sh' \<and> grows sh sh'"
proof -
  have "bound_ok (checkHost mac s sh) sh"
    using ok(2) by (subst bound_ok_frame) simp_all
  then obtain s2 sh2 where 2: "checkCCBuffer (checkHost mac s sh) sh = (s2, sh2)"
    "shared_ok sh2" "bound_ok s2 sh2" "grows sh sh2" "c_key s2 \<noteq> None"
    using checkCCBuffer_ok [OF ok(1)] by blast
  obtain k b where kb: "the_buffer s2 sh2 = Some (k, b)" "cc_inv b"
    using the_buffer_ok [OF 2(2,3,5)] by blast
  show ?thesis
  proof (cases "v = 0")
    case True
    then show ?thesis using p 2 by (simp add: popAddr_def)
  next
    case False
    then obtain b' where b': "cc_pop b pos = Some b'" "s' = s2"
      "sh' = sh2\<lparr>ccbuffers := (ccbuffers sh2)(k \<mapsto> b')\<rparr>"
      using p by (auto simp: popAddr_def 2(1) kb(1) bind_eq_Some_iff)
    then have "cc_inv b'" using cc_pop_ok [OF kb(2)] by blast
    then show ?thesis
      using b' 2 shared_ok_update bound_ok_grows [OF 2(3) grows_update]
        grows_trans [OF 2(4) grows_update] by simp
  qed
qed

lemma checkPy_keeps:
  assumes "checkPy s sh = Some (s', sh')" "shared_ok sh" "bound_ok s sh"
  shows "shared_ok sh' \<and> bound_ok s' sh' \<and> grows sh sh'"
  using assms
  by (auto simp: checkPy_def shared_ok_def bound_ok_def grows_def bind_eq_Some_iff
      split: if_splits option.splits)

lemma take_reward_frame [simp]:
  "ccbuffers (snd (take_reward sh)) = ccbuffers sh" "pyS (snd (take_reward sh)) = pyS sh"
  "nextId (snd (take_reward sh)) = nextId sh" "hosts (snd (take_reward sh)) = hosts sh"
  by (simp_all add: take_reward_def)

lemma take_reward_ok: "shared_ok sh \<Longrightarrow> shared_ok (snd (take_reward sh))"
  by (simp add: shared_ok_def take_reward_def RWS_SIZE_def)

lemma getOutputPort_keeps:
  assumes g: "getOutputPort env topo mac pos v op fw r s sh = Some (op', fw', r', s', sh')"
    and ok: "shared_ok sh" "bound_ok s sh"
  shows "shared_ok sh' \<and> bound_ok s' sh' \<and> grows sh sh'"
proof -
  obtain sh1 where sh1: "load_hosts topo sh = Some sh1"
    using g by (auto simp: getOutputPort_def bind_eq_Some_iff)
  have f: "shared_ok sh1" "bound_ok s sh1" "grows sh sh1"
    using load_hosts_ok [OF sh1] ok by (auto simp: shared_ok_def bound_ok_def grows_def)
  show ?thesis
  proof (cases "v = 0")
    case True
    then show ?thesis using g f sh1 by (simp add: getOutputPort_def)
  next
    case False
    obtain s2 sh2 where 2: "checkPy (checkHost mac s sh1) sh1 = Some (s2, sh2)"
      using g False by (auto simp: getOutputPort_def sh1 Let_def bind_eq_Some_iff)
    have "bound_ok (checkHost mac s sh1) sh1"
      using f(2) by (subst bound_ok_frame) simp_all
    then have k: "shared_ok sh2" "bound_ok s2 sh2" "grows sh1 sh2"
      using checkPy_keeps [OF 2 f(1)] by simp_all
    obtain pk p' where p': "s' = s2"
      "sh' = next_request ((snd (take_reward sh2))\<lparr>pyS := (pyS sh2)(pk \<mapsto> p')\<rparr>)"
      using g False 2
      by (auto simp: getOutputPort_def sh1 Let_def bind_eq_Some_iff case_prod_beta)
    have "shared_ok sh'"
      using take_reward_ok [OF k(1)] by (simp add: p' shared_ok_def next_request_def RWS_SIZE_def)
    moreover have "grows sh2 sh'" by (auto simp: p' grows_def next_request_def)
    ultimately show ?thesis
      using p'(1) bound_ok_grows [OF k(2)] f(3) k(3) grows_trans by blast
  qed
qed

lemma hosts_index_frame [simp]:
  "ccbuffers (snd (hosts_index m sh)) = ccbuffers sh" "pyS (snd (hosts_index m sh)) = pyS sh"
  "nextId (snd (hosts_index m sh)) = nextId sh" "nextRw (snd (hosts_index m sh)) = nextRw sh"
  by (simp_all add: hosts_index_def split: option.split)

lemma log_frame:
  "ccbuffers (snd (logDrop_f m1 m2 p s sh)) = ccbuffers sh"
  "pyS (snd (logDrop_f m1 m2 p s sh)) = pyS sh"
  "nextId (snd (logDrop_f m1 m2 p s sh)) = nextId sh"
  "nextRw (snd (logDrop_f m1 m2 p s sh)) = nextRw sh"
  "ccbuffers (snd (logFw_f ip m1 m2 p1 p2 d s sh)) = ccbuffers sh"
  "pyS (snd (logFw_f ip m1 m2 p1 p2 d s sh)) = pyS sh"
  "nextId (snd (logFw_f ip m1 m2 p1 p2 d s sh)) = nextId sh"
  "nextRw (snd (logFw_f ip m1 m2 p1 p2 d s sh)) = nextRw sh"
  by (simp_all add: logDrop_f_def logFw_f_def Let_def case_prod_beta)

definition extern_ok :: "extern_sys \<Rightarrow> bool" where
  "extern_ok x \<longleftrightarrow> shared_ok (stat x) \<and> (\<forall>i. bound_ok (inst x i) (stat x))"

lemma extern_ok_frame:
  assumes "extern_ok x" "ccbuffers sh' = ccbuffers (stat x)" "pyS sh' = pyS (stat x)"
    "nextId sh' = nextId (stat x)" "nextRw sh' = nextRw (stat x)"
  shows "extern_ok (x\<lparr>stat := sh'\<rparr>)"
  using assms by (simp add: extern_ok_def shared_ok_def bound_ok_def)

lemma extern_ok_call:
  assumes "extern_ok x" "shared_ok sh' \<and> bound_ok s' sh' \<and> grows (stat x) sh'"
  shows "extern_ok \<lparr>inst = (inst x)(i := s'), stat = sh'\<rparr>"
  using assms bound_ok_grows by (auto simp: extern_ok_def)

lemma extern_step_ok: "extern_step x y \<Longrightarrow> extern_ok x \<Longrightarrow> extern_ok y"
proof (induction rule: extern_step.induct)
  case push
  then show ?case by (intro extern_ok_call pushAddr_keeps) (auto simp: extern_ok_def)
next
  case pop
  then show ?case by (intro extern_ok_call popAddr_keeps) (auto simp: extern_ok_def)
next
  case port
  then show ?case by (intro extern_ok_call getOutputPort_keeps) (auto simp: extern_ok_def)
next
  case reward
  then show ?case by (intro extern_ok_frame) (simp_all add: sendReward_def)
next
  case ingress
  then show ?case by (auto simp: extern_ok_def bound_ok_def setAsIngress_def)
next
  case egress
  then show ?case by (auto simp: extern_ok_def bound_ok_def setAsEgress_def)
next
  case logdrop
  then show ?case by (intro extern_ok_frame) (simp_all add: log_frame)
next
  case logfw
  then show ?case by (intro extern_ok_frame) (simp_all add: log_frame)
qed

lemma extern_ok_init: "extern_ok extern_init"
  by (simp add: extern_ok_def extern_init_def shared_ok_def bound_ok_def shared_init_def
      ml_init_def RWS_SIZE_def)

lemma reachable_extern_ok: "extern_reachable x \<Longrightarrow> extern_ok x"
  by (induction rule: extern_reachable.induct) (auto intro: extern_ok_init extern_step_ok)


text \<open>
  C40: In every reachable state of the externs, whatever the instances called in whatever order, pushing a non-zero address
  returns once hosts are known or the topology can be read: no null buffer, no endless scan.  The position handed out is
  inside the array, and the new state is reachable.
\<close>

theorem push_never_stuck:
  assumes "extern_reachable x" "hosts (stat x) \<noteq> [] \<or> topo \<noteq> None" "v \<noteq> 0"
  shows "\<exists>p u' s' sh'. pushAddr topo mac a pos v u (inst x i) (stat x) = Some (int p, u', s', sh')
    \<and> p < CBufferSize \<and> extern_reachable \<lparr>inst = (inst x)(i := s'), stat = sh'\<rparr>"
proof -
  have "shared_ok (stat x)" "bound_ok (inst x i) (stat x)"
    using reachable_extern_ok [OF assms(1)] by (auto simp: extern_ok_def)
  from pushAddr_total [OF this assms(2,3), of mac a pos u]
  obtain p u' s' sh' where r: "p < CBufferSize"
    "pushAddr topo mac a pos v u (inst x i) (stat x) = Some (int p, u', s', sh')"
    by blast
  from extern_reachable.step [OF assms(1) extern_step.push [OF r(2)]] r show ?thesis by blast
qed

lemma push_never_stuck_witness:
  "\<exists>r. pushAddr (Some [(1, ''s1'')]) 1 7 0 1 0 (inst extern_init 0) (stat extern_init) = Some r"
  using push_never_stuck [OF extern_reachable.start, of "Some [(1, ''s1'')]" 1 1 7 0 0 0] by auto

text \<open>
  An unreachable agent does not stop forwarding.  When the connection fails,
  \<^verbatim>\<open>getPort\<close> answers -1, but \<^verbatim>\<open>getOutputPort\<close> overwrites the \<open>doForward = 0\<close> it has just
  stored: the P4 program is told to forward, on port -1.
\<close>

theorem agent_down_still_forwards:
  assumes "hosts sh \<noteq> []" "v \<noteq> 0" "host s = h" "h \<noteq> ''nullhost''" "py_key s = Some h"
    and "pyS sh h = Some p" "\<not> connected p" "created p" "conn_ret env < 0"
    and "the_buffer s sh = Some (k, b)" "0 \<le> pos" "pos < int CBufferSize"
  shows "\<exists>sh'. getOutputPort env topo mac pos v op fw r s sh = Some (-1, 1, int (nextId sh), s, sh')"
proof -
  have "load_hosts topo sh = Some sh" using assms(1) by (simp add: load_hosts_def)
  moreover have "checkHost mac s sh = s" using assms(3,4) by (simp add: checkHost_def)
  moreover have "checkPy s sh = Some (s, sh)" using assms(3-5) by (simp add: checkPy_def)
  moreover have "the_buffer s (snd (take_reward sh)) = Some (k, b)"
    using assms(10) by (simp add: the_buffer_def)
  moreover have "py_getPort env p a q b = Some (-1, p\<lparr>connected := False\<rparr>)" for a q
    using assms(7-9) by (simp add: py_getPort_def createConnection_def)
  ultimately show ?thesis
    using assms(2,5,6,11,12)
    by (simp add: getOutputPort_def Let_def case_prod_beta cc_get_def)
qed

lemma agent_down_still_forwards_witness:
  "\<exists>sh'. getOutputPort \<lparr>sock_ret = 3, conn_ret = -1, recv_reply = None\<rparr> None 1 0 1 0 0 0
     (ml_init\<lparr>host := ''s1'', py_key := Some ''s1'', c_key := Some ''s1''\<rparr>)
     (shared_init\<lparr>hosts := [(1, ''s1'')], ccbuffers := [''s1'' \<mapsto> cc_new],
        pyS := [''s1'' \<mapsto> \<lparr>connected = False, created = True, py_port = 1401\<rparr>]\<rparr>)
   = Some (-1, 1, 0, ml_init\<lparr>host := ''s1'', py_key := Some ''s1'', c_key := Some ''s1''\<rparr>, sh')"
  using agent_down_still_forwards
    [where sh = "shared_init\<lparr>hosts := [(1, ''s1'')], ccbuffers := [''s1'' \<mapsto> cc_new],
        pyS := [''s1'' \<mapsto> \<lparr>connected = False, created = True, py_port = 1401\<rparr>]\<rparr>"
      and s = "ml_init\<lparr>host := ''s1'', py_key := Some ''s1'', c_key := Some ''s1''\<rparr>"
      and v = 1 and h = "''s1''" and p = "\<lparr>connected = False, created = True, py_port = 1401\<rparr>"
      and env = "\<lparr>sock_ret = 3, conn_ret = -1, recv_reply = None\<rparr>" and k = "''s1''"
      and b = cc_new and pos = 0 and topo = None and mac = 1 and op = 0 and fw = 0 and r = 0]
  by (simp add: shared_init_def ml_init_def the_buffer_def CBufferSize_def)

text \<open>
  An instance whose first packet carries an unknown MAC address binds its buffer pointer
  to the \<open>nullhost\<close> buffer and keeps it: a later packet with a known address gives the
  instance its host name, but its addresses still go to the \<open>nullhost\<close> buffer.
\<close>

theorem nullhost_buffer_kept:
  assumes "shared_ok sh" "bound_ok s sh" "hosts sh \<noteq> []"
    and "host s = ''nullhost''" "c_key s = None"
    and "map_of (hosts sh) m1 = None" "map_of (hosts sh) m2 = Some h" "h \<noteq> ''nullhost''"
  shows "\<exists>p u s1 sh1 p' u' s2 sh2.
    pushAddr topo m1 a 0 1 0 s sh = Some (p, u, s1, sh1) \<and>
    pushAddr topo m2 a' 0 1 0 s1 sh1 = Some (p', u', s2, sh2) \<and>
    host s2 = h \<and> c_key s2 = Some ''nullhost'' \<and> ccbuffers sh2 h = ccbuffers sh h"
proof -
  obtain p u s1 sh1 where 1: "pushAddr topo m1 a 0 1 0 s sh = Some (int p, u, s1, sh1)"
    "shared_ok sh1" "bound_ok s1 sh1"
    using pushAddr_total [OF assms(1,2), of topo 1 m1 a 0 0] assms(3) by auto
  have e1: "host s1 = ''nullhost''" "c_key s1 = Some ''nullhost''" "hosts sh1 = hosts sh"
    "ccbuffers sh1 h = ccbuffers sh h"
    using 1(1) assms(3-8)
    by (auto simp: pushAddr_def load_hosts_def checkHost_def checkCCBuffer_def the_buffer_def
        Let_def bind_eq_Some_iff case_prod_beta split: option.splits)
  obtain p' u' s2 sh2 where 2: "pushAddr topo m2 a' 0 1 0 s1 sh1 = Some (int p', u', s2, sh2)"
    using pushAddr_total [OF 1(2,3), of topo 1 m2 a' 0 0] assms(3) e1(3) by auto
  have "host s2 = h" "c_key s2 = Some ''nullhost''" "ccbuffers sh2 h = ccbuffers sh1 h"
    using 2 assms(3,7,8) e1
    by (auto simp: pushAddr_def load_hosts_def checkHost_def checkCCBuffer_def the_buffer_def
        Let_def bind_eq_Some_iff case_prod_beta)
  with 1(1) 2 e1(4) show ?thesis by auto
qed

lemma nullhost_buffer_kept_witness:
  "\<exists>p u s1 sh1 p' u' s2 sh2.
    pushAddr None 9 5 0 1 0 ml_init (shared_init\<lparr>hosts := [(1, ''s1'')]\<rparr>) = Some (p, u, s1, sh1) \<and>
    pushAddr None 1 6 0 1 0 s1 sh1 = Some (p', u', s2, sh2) \<and> host s2 = ''s1'' \<and>
    c_key s2 = Some ''nullhost'' \<and> ccbuffers sh2 ''s1'' = None"
  using nullhost_buffer_kept [of "shared_init\<lparr>hosts := [(1, ''s1'')]\<rparr>" ml_init 9 1 "''s1''" None 5 6]
  by (simp add: shared_ok_def bound_ok_def shared_init_def ml_init_def RWS_SIZE_def)

text \<open>
  Logging a drop changes forwarding.  \<^verbatim>\<open>logDrop_f\<close> reads the host table with
  \<^verbatim>\<open>operator[]\<close>, which inserts the unknown address; afterwards \<^verbatim>\<open>checkDestination\<close> takes it
  for a known node and \<^verbatim>\<open>getNeighborMac\<close> no longer clears \<open>doForward\<close> for it.
\<close>

theorem log_makes_known:
  assumes "host s \<noteq> ''nullhost''" "checkDestination m sh < 0"
  shows "getNeighborMac nb m p fw s sh = Some (m, 0) \<and>
    checkDestination m (snd (logDrop_f m m' ip s sh)) = 0 \<and>
    getNeighborMac nb m p fw s (snd (logDrop_f m m' ip s sh)) =
      map_option (\<lambda>rv. (rv, 1)) (nb (host s) p)"
proof -
  have "map_of (hosts sh) m = None"
    using assms(2) by (simp add: checkDestination_def split: option.splits)
  then have "checkDestination m (snd (logDrop_f m m' ip s sh)) = 0"
    using assms(1)
    by (auto simp: logDrop_f_def hosts_index_def checkDestination_def Let_def split: option.splits)
  then show ?thesis
    using assms(2) by (cases "nb (host s) p") (simp_all add: getNeighborMac_def)
qed

lemma log_makes_known_witness:
  "getNeighborMac (\<lambda>_ _. Some 2) 9 1 0 (ml_init\<lparr>host := ''s1''\<rparr>)
     (snd (logDrop_f 9 1 3 (ml_init\<lparr>host := ''s1''\<rparr>) (shared_init\<lparr>hosts := [(1, ''s1'')]\<rparr>))) = Some (2, 1)"
  using log_makes_known [of "ml_init\<lparr>host := ''s1''\<rparr>" 9 "shared_init\<lparr>hosts := [(1, ''s1'')]\<rparr>"
      "\<lambda>_ _. Some 2" 1 0 1 3]
  by (simp add: checkDestination_def)

end
