(* ===== verification/Bit_Extract.thy ===== *)
theory Bit_Extract
  imports Prelude
begin

text \<open>
  Moving bit fields between a packet buffer and byte-aligned field storage:
  \<^verbatim>\<open>generic_extract\<close> and \<^verbatim>\<open>generic_deparse\<close> of src/bm_sim/extract.h.  Buffers are byte
  lists that start at the pointer the C++ passes.  The specification reads a buffer as the
  sequence of its bits, most significant first.
\<close>

unbundle bit_operations_syntax

section \<open>The two routines\<close>

definition bytes_of_bits :: "nat \<Rightarrow> nat" where
  "bytes_of_bits n = (n + 7) div 8"

definition mask_first :: "nat \<Rightarrow> u8 list \<Rightarrow> u8 list" where
  "mask_first d xs = xs[0 := (xs ! 0) AND drop_bit d 0xFF]"

text \<open>
  \<open>None\<close>: a read past the end of the buffer, or a write to the first byte of an empty field.
\<close>

definition generic_extract :: "u8 list \<Rightarrow> nat \<Rightarrow> nat \<Rightarrow> u8 list option" where
  "generic_extract data bit_offset bitwidth =
     (let nbytes = bytes_of_bits bitwidth in
      if bit_offset = 0 \<and> bitwidth mod 8 = 0 then
        (if length data < nbytes then None else Some (take nbytes data))
      else if nbytes = 0 then None
      else let dst_offset = 8 * nbytes - bitwidth in
      if bit_offset = dst_offset then
        (if length data < nbytes then None else Some (mask_first dst_offset (take nbytes data)))
      else if dst_offset < bit_offset then
        (let offset = bit_offset - dst_offset;
             straddles = 8 * nbytes < bit_offset + bitwidth in
         if length data < (if straddles then nbytes + 1 else nbytes) then None
         else
           let i = nbytes - 1;
               body = map (\<lambda>j. push_bit offset (data ! j) OR drop_bit (8 - offset) (data ! (j + 1))) [0..<i];
               masked = (if body = [] then [] else mask_first dst_offset body);
               lst = push_bit offset (data ! i);
               lst' = (if straddles then lst OR drop_bit (8 - offset) (data ! (i + 1)) else lst)
           in Some (masked @ [lst']))
      else
        (let offset = dst_offset - bit_offset in
         if length data < nbytes then None
         else Some ((drop_bit offset (data ! 0) AND drop_bit dst_offset 0xFF) #
           map (\<lambda>j. push_bit (8 - offset) (data ! (j - 1)) OR drop_bit offset (data ! j))
             [1..<nbytes])))"

definition generic_deparse :: "u8 list \<Rightarrow> nat \<Rightarrow> u8 list \<Rightarrow> nat \<Rightarrow> u8 list option" where
  "generic_deparse data bitwidth dst hdr_offset =
     (if bitwidth = 0 then Some dst
      else let nbytes = bytes_of_bits bitwidth in
      if length data < nbytes then None
      else if hdr_offset = 0 \<and> bitwidth mod 8 = 0 then
        (if length dst < nbytes then None else Some (take nbytes data @ drop nbytes dst))
      else let field_offset = 8 * nbytes - bitwidth;
               hdr_bytes = bytes_of_bits (hdr_offset + bitwidth) in
      if length dst < hdr_bytes then None
      else let d0 = (dst ! 0) AND NOT (drop_bit hdr_offset 0xFF) in
      if field_offset = hdr_offset then
        Some ((d0 OR data ! 0) # take (hdr_bytes - 1) (drop 1 data) @ drop hdr_bytes dst)
      else if hdr_offset < field_offset then
        (let offset = field_offset - hdr_offset; i = hdr_bytes - 1 in
         Some (map (\<lambda>j. (if j = 0 then d0 else 0) OR
                   (push_bit offset (data ! j) OR
                    (if j < i then drop_bit (8 - offset) (data ! (j + 1)) else 0))) [0..<hdr_bytes] @
               drop hdr_bytes dst))
      else
        (let offset = hdr_offset - field_offset;
             first = d0 OR drop_bit offset (data ! 0) in
         if nbytes = 1 then
           (if length dst < 2 then None
            else Some (first # push_bit (8 - offset) (data ! 0) # drop 2 dst))
         else
           (let i = hdr_bytes - 1;
                tail_offset = 8 * hdr_bytes - (hdr_offset + bitwidth);
                lst = (dst ! i AND (push_bit tail_offset 1 - 1)) OR
                      push_bit (8 - offset) (data ! (i - 1))
            in Some (first #
                 map (\<lambda>j. push_bit (8 - offset) (data ! (j - 1)) OR drop_bit offset (data ! j))
                   [1..<i] @
                 [lst] @ drop hdr_bytes dst))))"

section \<open>Buffers as bit sequences\<close>

definition byte_bits :: "u8 \<Rightarrow> bool list" where
  "byte_bits b = map (\<lambda>i. bit b (7 - i)) [0..<8]"

definition bits :: "u8 list \<Rightarrow> bool list" where
  "bits bs = concat (map byte_bits bs)"

lemma length_byte_bits [simp]: "length (byte_bits b) = 8"
  by (simp add: byte_bits_def)

lemma nth_byte_bits [simp]: "i < 8 \<Longrightarrow> byte_bits b ! i = bit b (7 - i)"
  by (simp add: byte_bits_def)

lemma byte_bits_eqI: "length xs = 8 \<Longrightarrow> (\<And>i. i < 8 \<Longrightarrow> bit b (7 - i) = xs ! i) \<Longrightarrow> byte_bits b = xs"
  by (rule nth_equalityI) simp_all

lemma bits_simps [simp]: "bits [] = []" "bits (b # bs) = byte_bits b @ bits bs"
  "bits (xs @ ys) = bits xs @ bits ys"
  by (simp_all add: bits_def)

lemma length_bits [simp]: "length (bits bs) = 8 * length bs"
  by (induction bs) simp_all

lemma byte_bits_inject: "byte_bits a = byte_bits b \<longleftrightarrow> a = b"
proof
  assume e: "byte_bits a = byte_bits b"
  have "bit a n = bit b n" if "n < 8" for n
    using arg_cong [OF e, of "\<lambda>xs. xs ! (7 - n)"] that by simp
  then show "a = b" by (intro bit_word_eqI) simp
qed simp

lemma bits_inject: "length xs = length ys \<Longrightarrow> bits xs = bits ys \<longleftrightarrow> xs = ys"
  by (induction xs ys rule: list_induct2) (auto simp: byte_bits_inject)

lemma take_bits: "take (8 * n) (bits bs) = bits (take n bs)"
  by (induction n arbitrary: bs) (simp, case_tac bs, simp_all)

lemma drop_bits: "drop (8 * n) (bits bs) = bits (drop n bs)"
  by (induction n arbitrary: bs) (simp, case_tac bs, simp_all)

subsection \<open>Byte operations on bits\<close>

lemma byte_bits_zero: "byte_bits 0 = replicate 8 False"
  by (rule byte_bits_eqI) simp_all

lemma byte_bits_or: "byte_bits (a OR b) = map2 (\<or>) (byte_bits a) (byte_bits b)"
  by (rule byte_bits_eqI) (simp_all add: bit_or_iff)

lemma bit_255: "bit (0xFF :: int) n \<longleftrightarrow> n < 8"
proof -
  have "(0xFF :: int) = mask 8" by (simp add: mask_eq_exp_minus_1)
  then show ?thesis by (simp only: bit_mask_iff) simp
qed

lemma byte_bits_mask:
  "d \<le> 8 \<Longrightarrow> byte_bits (a AND drop_bit d 0xFF) = replicate d False @ drop d (byte_bits a)"
  by (rule byte_bits_eqI)
    (auto simp: bit_and_iff bit_drop_bit_eq bit_255 nth_append)

lemma byte_bits_keep:
  "d \<le> 8 \<Longrightarrow> byte_bits (a AND NOT (drop_bit d 0xFF)) = take d (byte_bits a) @ replicate (8 - d) False"
  by (rule byte_bits_eqI)
    (auto simp: bit_and_iff bit_not_iff bit_drop_bit_eq bit_255 nth_append)

lemma byte_bits_shl: "s \<le> 8 \<Longrightarrow> byte_bits (push_bit s a) = drop s (byte_bits a) @ replicate s False"
  by (rule byte_bits_eqI) (auto simp: bit_push_bit_iff nth_append add.commute)

lemma byte_bits_shr: "s \<le> 8 \<Longrightarrow> byte_bits (drop_bit s a) = replicate s False @ take (8 - s) (byte_bits a)"
  by (rule byte_bits_eqI)
    (auto simp: bit_drop_bit_eq nth_append add.commute dest: bit_imp_le_length)

lemma byte_bits_low:
  "t \<le> 8 \<Longrightarrow> byte_bits (a AND (push_bit t 1 - 1)) = replicate (8 - t) False @ drop (8 - t) (byte_bits a)"
  by (rule byte_bits_eqI)
    (auto simp: bit_and_iff nth_append push_bit_eq_mult bit_mask_iff simp flip: mask_eq_exp_minus_1)

lemma take_low_or:
  assumes "s \<le> 8" "n \<le> s"
  shows "take n (byte_bits ((a AND (push_bit (8 - s) 1 - 1)) OR b)) = take n (byte_bits b)"
proof -
  have "byte_bits (a AND (push_bit (8 - s) 1 - 1)) = replicate s False @ drop s (byte_bits a)"
    using byte_bits_low [of "8 - s" a] assms by simp
  then show ?thesis
    using assms unfolding byte_bits_or by (auto intro!: nth_equalityI simp: nth_append)
qed

text \<open>A byte glued from the end of one byte and the start of the next.\<close>

lemma byte_bits_glue:
  assumes "s \<le> 8"
  shows "byte_bits (push_bit s a OR drop_bit (8 - s) b) = drop s (byte_bits a) @ take s (byte_bits b)"
proof -
  have "byte_bits (drop_bit (8 - s) b) = replicate (8 - s) False @ take s (byte_bits b)"
    using byte_bits_shr [of "8 - s" b] assms by simp
  then show ?thesis
    using assms by (auto simp: byte_bits_or byte_bits_shl intro!: nth_equalityI simp: nth_append)
qed


section \<open>Extraction\<close>

lemma drop_bits_Cons:
  "m < length data \<Longrightarrow> drop (8 * m) (bits data) = byte_bits (data ! m) @ drop (8 * Suc m) (bits data)"
  by (simp only: drop_bits) (simp add: Cons_nth_drop_Suc [symmetric])

lemma byte_window:
  assumes "s \<le> 8" "Suc m < length data"
  shows "take 8 (drop (8 * m + s) (bits data)) =
    drop s (byte_bits (data ! m)) @ take s (byte_bits (data ! Suc m))"
proof -
  have "drop (8 * m + s) (bits data) = drop s (drop (8 * m) (bits data))"
    by (simp add: add.commute)
  also have "\<dots> = drop s (byte_bits (data ! m)) @ byte_bits (data ! Suc m) @
      drop (8 * Suc (Suc m)) (bits data)"
    using assms by (simp add: drop_bits_Cons del: mult_Suc_right)
  finally show ?thesis using assms(1) by simp
qed

lemma bits_glue_run:
  assumes "s \<le> 8" "n < length data"
  shows "bits (map (\<lambda>j. push_bit s (data ! j) OR drop_bit (8 - s) (data ! (j + 1))) [0..<n]) =
    take (8 * n) (drop s (bits data))"
  using assms
proof (induction n)
  case (Suc n)
  have "take (8 * Suc n) (drop s (bits data)) =
      take (8 * n) (drop s (bits data)) @ take 8 (drop (8 * n + s) (bits data))"
    using take_add [of "8 * n" 8 "drop s (bits data)"] by (simp add: add.commute)
  then show ?case
    using Suc byte_window [of s n data] by (simp add: byte_bits_glue)
qed simp

lemma bits_mask_first:
  "d \<le> 8 \<Longrightarrow> xs \<noteq> [] \<Longrightarrow> bits (mask_first d xs) = replicate d False @ drop d (bits xs)"
  by (cases xs) (simp_all add: mask_first_def byte_bits_mask)

lemma length_mask_first [simp]: "length (mask_first d xs) = length xs"
  by (simp add: mask_first_def)

text \<open>Field geometry: how many bytes, how much padding in front.\<close>

lemma pad_bound: "0 < w \<Longrightarrow> 8 * bytes_of_bits w - w < 8"
  by (simp add: bytes_of_bits_def)

lemma bytes_of_bits_ge: "w \<le> 8 * bytes_of_bits w"
  by (simp add: bytes_of_bits_def)

lemma bytes_of_bits_le: "n \<le> 8 * m \<Longrightarrow> bytes_of_bits n \<le> m"
  by (simp add: bytes_of_bits_def)

lemma bytes_of_bits_pos: "0 < w \<Longrightarrow> 0 < bytes_of_bits w"
  by (simp add: bytes_of_bits_def)

lemma bytes_of_bits_mult: "w mod 8 = 0 \<Longrightarrow> 8 * bytes_of_bits w = w"
  by (simp add: bytes_of_bits_def) presburger

lemma bytes_of_bits_mono: "a \<le> b \<Longrightarrow> bytes_of_bits a \<le> bytes_of_bits b"
  by (simp add: bytes_of_bits_def div_le_mono)

definition narrow_straddle :: "nat \<Rightarrow> nat \<Rightarrow> bool" where
  "narrow_straddle off w \<longleftrightarrow> bytes_of_bits w = 1 \<and> 8 < off + w"

definition padded :: "nat \<Rightarrow> bool list \<Rightarrow> bool list" where
  "padded w fb = replicate (8 * bytes_of_bits w - w) False @ fb"

lemma extract_shift_left:
  assumes w: "0 < w" and off: "off < 8" and len: "off + w \<le> 8 * length data"
    and gt: "8 * bytes_of_bits w - w < off" and ns: "\<not> narrow_straddle off w"
  shows "\<exists>bs. generic_extract data off w = Some bs \<and> length bs = bytes_of_bits w \<and>
    bits bs = padded w (take w (drop off (bits data)))"
proof -
  let ?nb = "bytes_of_bits w"
  let ?d = "8 * ?nb - w" and ?s = "off - (8 * ?nb - w)"
  have str: "8 * ?nb < off + w" using gt bytes_of_bits_ge [of w] by simp
  have nb: "2 \<le> ?nb"
    using ns str bytes_of_bits_pos [OF w] by (auto simp: narrow_straddle_def)
  have lend: "?nb < length data" using str len by simp
  have s: "?s \<le> 8" "?d + ?s = off" "?d \<le> 8" using off gt pad_bound [OF w] by simp_all
  let ?glue = "\<lambda>j. push_bit ?s (data ! j) OR drop_bit (8 - ?s) (data ! (j + 1))"
  let ?body = "map ?glue [0..<?nb - 1]"
  have ne: "?body \<noteq> []" using nb by simp
  have "generic_extract data off w = Some (mask_first ?d ?body @ [?glue (?nb - 1)])"
    using w gt str lend nb ne by (simp add: generic_extract_def Let_def)
  also have "mask_first ?d ?body @ [?glue (?nb - 1)] = mask_first ?d (map ?glue [0..<?nb])"
  proof -
    have "[0..<?nb] = [0..<?nb - 1] @ [?nb - 1]"
      using nb by (metis One_nat_def Suc_pred bot_nat_0.extremum gr_zeroI not_numeral_le_zero upt_Suc)
    then show ?thesis using ne by (simp add: mask_first_def list_update_append nth_append)
  qed
  finally have e: "generic_extract data off w = Some (mask_first ?d (map ?glue [0..<?nb]))" .
  have "bits (mask_first ?d (map ?glue [0..<?nb])) =
      replicate ?d False @ drop ?d (take (8 * ?nb) (drop ?s (bits data)))"
    using s nb lend bits_glue_run [OF s(1) lend] by (subst bits_mask_first) auto
  also have "\<dots> = padded w (take w (drop off (bits data)))"
    using s bytes_of_bits_ge [of w] by (simp add: padded_def drop_take)
  finally show ?thesis using e by simp
qed

lemma extract_shift_right:
  assumes w: "0 < w" and len: "off + w \<le> 8 * length data"
    and lt: "off < 8 * bytes_of_bits w - w"
  shows "\<exists>bs. generic_extract data off w = Some bs \<and> length bs = bytes_of_bits w \<and>
    bits bs = padded w (take w (drop off (bits data)))"
proof -
  let ?nb = "bytes_of_bits w"
  define d where "d = 8 * ?nb - w"
  define s where "s = d - off"
  have nb: "0 < ?nb" by (rule bytes_of_bits_pos [OF w])
  have lend: "?nb \<le> length data"
    using len by (intro bytes_of_bits_le) simp
  have s: "s \<le> 8" "d \<le> 8" "d < 8" "off + s = d" "d - s = off" using pad_bound [OF w] lt by (simp_all add: s_def d_def)
  have ltd: "off < d" using lt by (simp add: d_def)
  have dw: "w + d = 8 * ?nb" using bytes_of_bits_ge [of w] by (simp add: d_def)
  let ?glue = "\<lambda>j. push_bit (8 - s) (data ! j) OR drop_bit (8 - (8 - s)) (data ! (j + 1))"
  let ?f = "drop_bit s (data ! 0) AND drop_bit d 0xFF"
  have tl: "map (\<lambda>j. push_bit (8 - s) (data ! (j - 1)) OR drop_bit s (data ! j)) [1..<?nb] =
      map ?glue [0..<?nb - 1]"
    using s nb by (intro nth_equalityI) (simp_all add: nth_upt)
  have "\<not> (off = 0 \<and> w mod 8 = 0)" using lt bytes_of_bits_mult [of w] by auto
  then have "generic_extract data off w = Some (?f # map ?glue [0..<?nb - 1])"
    unfolding generic_extract_def Let_def d_def [symmetric] s_def [symmetric]
    using w ltd lend nb tl by (cases "off = 0") simp_all
  moreover have "bits (?f # map ?glue [0..<?nb - 1]) = padded w (take w (drop off (bits data)))"
  proof -
    have b0: "bits data = byte_bits (data ! 0) @ drop 8 (bits data)"
      using lend nb by (cases data) simp_all
    have "bits (map ?glue [0..<?nb - 1]) = take (8 * (?nb - 1)) (drop (8 - s) (bits data))"
      using nb lend by (intro bits_glue_run) simp_all
    moreover have "8 - (s + off) = 8 - d" using s by simp
    moreover have "byte_bits ?f = replicate d False @ take (8 - (s + off)) (drop off (byte_bits (data ! 0)))"
      using s by (simp add: byte_bits_mask byte_bits_shr drop_take)
    moreover have "take (8 - d) (drop off (byte_bits (data ! 0))) = take (8 - d) (drop off (bits data))"
      using s by (subst b0) simp
    moreover have "take (8 * (?nb - 1)) (drop (8 - s) (bits data)) =
        take (8 * (?nb - 1)) (drop (8 - d) (drop off (bits data)))"
    proof -
      have "off + (8 - d) = 8 - s" "8 - d + off = 8 - s" using s by simp_all
      then show ?thesis by (simp only: drop_drop)
    qed
    moreover have "8 - d + 8 * (?nb - 1) = w"
      using s(3) dw nb by (cases ?nb) simp_all
    ultimately show ?thesis
      using take_add [of "8 - d" "8 * (?nb - 1)" "drop off (bits data)"]
      by (simp add: padded_def flip: d_def)
  qed
  ultimately show ?thesis using nb by simp
qed


lemma extract_aligned:
  assumes w: "0 < w" and len: "off + w \<le> 8 * length data"
    and eq: "off = 8 * bytes_of_bits w - w"
  shows "\<exists>bs. generic_extract data off w = Some bs \<and> length bs = bytes_of_bits w \<and>
    bits bs = padded w (take w (drop off (bits data)))"
proof -
  let ?nb = "bytes_of_bits w"
  have nb: "0 < ?nb" by (rule bytes_of_bits_pos [OF w])
  have lend: "?nb \<le> length data"
    using len by (intro bytes_of_bits_le) simp
  have d: "off < 8" using pad_bound [OF w] eq by simp
  have t: "take w (drop off (bits data)) = drop off (bits (take ?nb data))"
    using eq bytes_of_bits_ge [of w] by (simp add: drop_take flip: take_bits)
  show ?thesis
  proof (cases "off = 0 \<and> w mod 8 = 0")
    case True
    then show ?thesis using eq lend t by (auto simp: generic_extract_def Let_def padded_def)
  next
    case False
    have "take ?nb data \<noteq> []" using nb lend by auto
    then have "bits (mask_first off (take ?nb data)) = padded w (take w (drop off (bits data)))"
      using d t by (subst bits_mask_first) (auto simp: padded_def simp flip: eq)
    then show ?thesis using False eq lend nb by (auto simp: generic_extract_def Let_def)
  qed
qed

lemma generic_extract_bits:
  assumes "0 < w" "off < 8" "off + w \<le> 8 * length data" "\<not> narrow_straddle off w"
  shows "\<exists>bs. generic_extract data off w = Some bs \<and> length bs = bytes_of_bits w \<and>
    bits bs = padded w (take w (drop off (bits data)))"
  using extract_aligned [OF assms(1,3)] extract_shift_right [OF assms(1,3)]
    extract_shift_left [OF assms(1-3) _ assms(4)]
  by (cases off "8 * bytes_of_bits w - w" rule: linorder_cases) blast+

section \<open>Writing a field back\<close>

text \<open>
  The C++ relies on a field's storage being zero-padded in front; \<open>field_store\<close> says so.
\<close>

definition field_store :: "nat \<Rightarrow> bool list \<Rightarrow> u8 list \<Rightarrow> bool" where
  "field_store w fb data \<longleftrightarrow> length fb = w \<and> length data = bytes_of_bits w \<and> bits data = padded w fb"

lemma first_byte_or:
  assumes "off \<le> 8" "length xs = 8 - off"
    and "byte_bits b = replicate off False @ xs"
  shows "byte_bits ((a AND NOT (drop_bit off 0xFF)) OR b) = take off (byte_bits a) @ xs"
  using assms by (auto simp: byte_bits_or byte_bits_keep intro!: nth_equalityI simp: nth_append)

lemma take_bits_Cons: "dst \<noteq> [] \<Longrightarrow> off \<le> 8 \<Longrightarrow> take off (byte_bits (dst ! 0)) = take off (bits dst)"
  by (cases dst) simp_all

lemma deparse_aligned:
  assumes st: "field_store w fb data" and w: "0 < w" and len: "off + w \<le> 8 * length dst"
    and eq: "off = 8 * bytes_of_bits w - w"
  shows "\<exists>dst'. generic_deparse data w dst off = Some dst' \<and> length dst' = length dst \<and>
    take (off + w) (bits dst') = take off (bits dst) @ fb"
proof -
  let ?nb = "bytes_of_bits w"
  have nb: "0 < ?nb" by (rule bytes_of_bits_pos [OF w])
  have ow: "off + w = 8 * ?nb" using eq bytes_of_bits_ge [of w] by simp
  have lend: "?nb \<le> length dst" using len ow by simp
  have d: "off < 8" using pad_bound [OF w] eq by simp
  have dne: "dst \<noteq> []" using lend nb by auto
  have ld: "length data = ?nb" and bd: "bits data = replicate off False @ fb"
    and lf: "length fb = w"
    using st eq by (simp_all add: field_store_def padded_def)
  show ?thesis
  proof (cases "off = 0 \<and> w mod 8 = 0")
    case True
    then show ?thesis
      using lend ld bd ow lf w by (simp add: generic_deparse_def Let_def)
  next
    case False
    have hb: "bytes_of_bits (off + w) = ?nb" by (simp add: ow bytes_of_bits_def)
    let ?f = "(dst ! 0 AND NOT (drop_bit off 0xFF)) OR data ! 0"
    have e: "generic_deparse data w dst off =
        Some (?f # take (?nb - 1) (drop 1 data) @ drop ?nb dst)"
      using False w ld lend
      by (cases "off = 0") (simp_all add: generic_deparse_def Let_def hb flip: eq)
    have dc: "data = data ! 0 # take (?nb - 1) (drop 1 data)"
      using ld nb by (cases data) simp_all
    have c: "byte_bits (data ! 0) @ bits (take (?nb - 1) (drop 1 data)) = replicate off False @ fb"
      using bd by (subst (asm) dc) (simp only: bits_simps)
    from arg_cong [OF c, of "take 8"] have b0: "byte_bits (data ! 0) = replicate off False @ take (8 - off) fb"
      using d by simp
    from arg_cong [OF c, of "drop 8"] have r: "bits (take (?nb - 1) (drop 1 data)) = drop (8 - off) fb"
      using d by simp
    have "byte_bits ?f = take off (bits dst) @ take (8 - off) fb"
    proof -
      have "8 - off \<le> w" using ow nb d by simp
      then show ?thesis
        using d dne b0 lf by (subst first_byte_or) (auto simp: take_bits_Cons)
    qed
    then have h: "bits (?f # take (?nb - 1) (drop 1 data) @ drop ?nb dst) =
        take off (bits dst) @ fb @ bits (drop ?nb dst)"
      using append_take_drop_id [of "8 - off" fb] by (simp only: bits_simps r append.assoc) simp
    moreover have "off \<le> 8 * length dst" using d lend nb by simp
    ultimately have "take (off + w) (bits (?f # take (?nb - 1) (drop 1 data) @ drop ?nb dst)) =
        take off (bits dst) @ fb"
      unfolding h using lf by simp
    with e show ?thesis using lend ld nb by auto
  qed
qed


lemma deparse_shift_left:
  assumes st: "field_store w fb data" and w: "0 < w" and len: "off + w \<le> 8 * length dst"
    and lt: "off < 8 * bytes_of_bits w - w"
  shows "\<exists>dst'. generic_deparse data w dst off = Some dst' \<and> length dst' = length dst \<and>
    take (off + w) (bits dst') = take off (bits dst) @ fb"
proof -
  let ?nb = "bytes_of_bits w"
  define d where "d = 8 * ?nb - w"
  define s where "s = d - off"
  have nb: "0 < ?nb" by (rule bytes_of_bits_pos [OF w])
  have s: "s \<le> 8" "d < 8" "off + s = d" "off < 8" "d - s = off" using pad_bound [OF w] lt by (simp_all add: s_def d_def)
  have ltd: "off < d" using lt by (simp add: d_def)
  have dw: "w + d = 8 * ?nb" using bytes_of_bits_ge [of w] by (simp add: d_def)
  have hb: "bytes_of_bits (off + w) = ?nb"
    using lt bytes_of_bits_mono [of w "off + w"] bytes_of_bits_le [of "off + w" ?nb] by simp
  have lend: "?nb \<le> length dst" using bytes_of_bits_le [OF len] hb by simp
  have dne: "dst \<noteq> []" using lend nb by auto
  have ld: "length data = ?nb" and bd: "bits data = replicate d False @ fb" and lf: "length fb = w"
    using st by (simp_all add: field_store_def padded_def d_def)
  let ?x = "data @ [0]"
  let ?glue = "\<lambda>j. push_bit s (?x ! j) OR drop_bit (8 - s) (?x ! (j + 1))"
  let ?keep = "dst ! 0 AND NOT (drop_bit off 0xFF)"
  have body: "map (\<lambda>j. (if j = 0 then ?keep else 0) OR (push_bit s (data ! j) OR
      (if j < ?nb - 1 then drop_bit (8 - s) (data ! (j + 1)) else 0))) [0..<?nb] =
    (map ?glue [0..<?nb])[0 := ?keep OR ?glue 0]"
    using ld nb by (intro nth_equalityI) (auto simp: nth_list_update nth_append)
  have "\<not> (off = 0 \<and> w mod 8 = 0)" using lt bytes_of_bits_mult [of w] by auto
  then have e: "generic_deparse data w dst off =
      Some ((map ?glue [0..<?nb])[0 := ?keep OR ?glue 0] @ drop ?nb dst)"
    unfolding generic_deparse_def Let_def hb d_def [symmetric] s_def [symmetric] body
    using ltd w ld lend nb by (cases "off = 0") simp_all
  have run: "bits (map ?glue [0..<?nb]) = replicate off False @ fb @ replicate s False"
  proof -
    have "bits (map ?glue [0..<?nb]) = take (8 * ?nb) (drop s (bits ?x))"
      using s ld by (intro bits_glue_run) simp_all
    also have "drop s (bits ?x) = replicate off False @ fb @ replicate 8 False"
      using s by (simp add: bd byte_bits_zero)
    also have "replicate 8 False = replicate s False @ replicate (8 - s) False"
      using replicate_add [of s "8 - s" False] s(1) by simp
    also have "replicate off False @ fb @ \<dots> =
        (replicate off False @ fb @ replicate s False) @ replicate (8 - s) False"
      by simp
    also have "take (8 * ?nb) \<dots> = replicate off False @ fb @ replicate s False"
    proof -
      have "length (replicate off False @ fb @ replicate s False) = 8 * ?nb" using s dw lf by simp
      then show ?thesis by (metis append_eq_conv_conj)
    qed
    finally show ?thesis .
  qed
  obtain g gs where g: "map ?glue [0..<?nb] = g # gs"
    using nb by (cases "map ?glue [0..<?nb]") auto
  have g0: "?glue 0 = g" using arg_cong [OF g, of "\<lambda>xs. xs ! 0"] nb by simp
  define fs where "fs = fb @ replicate s False"
  have c: "byte_bits g @ bits gs = replicate off False @ fs"
    using run g by (simp add: fs_def)
  from arg_cong [OF c, of "take 8"] have gb: "byte_bits g = replicate off False @ take (8 - off) fs"
    using s by simp
  from arg_cong [OF c, of "drop 8"] have gr: "bits gs = drop (8 - off) fs"
    using s by simp
  have l8: "8 \<le> off + w + s" using s nb dw by simp
  have lfs: "length fs = w + s" by (simp add: fs_def lf)
  have "byte_bits (?keep OR g) = take off (byte_bits (dst ! 0)) @ take (8 - off) fs"
    using s l8 lfs by (intro first_byte_or gb) simp_all
  then have "bits ((g # gs)[0 := ?keep OR g] @ drop ?nb dst) =
      take off (bits dst) @ (take (8 - off) fs @ drop (8 - off) fs) @ bits (drop ?nb dst)"
    using s dne by (simp add: gr take_bits_Cons)
  then have h: "bits ((g # gs)[0 := ?keep OR g] @ drop ?nb dst) =
      take off (bits dst) @ fb @ replicate s False @ bits (drop ?nb dst)"
    by (simp only: append_take_drop_id) (simp add: fs_def)
  moreover have "length ((g # gs)[0 := ?keep OR g] @ drop ?nb dst) = length dst"
    using arg_cong [OF g, of length] lend by simp
  moreover have "off \<le> 8 * length dst" using s lend nb by simp
  ultimately have "take (off + w) (bits ((g # gs)[0 := ?keep OR g] @ drop ?nb dst)) =
      take off (bits dst) @ fb"
    unfolding h using lf by simp
  moreover have "length ((g # gs)[0 := ?keep OR g] @ drop ?nb dst) = length dst"
    using arg_cong [OF g, of length] lend by simp
  ultimately show ?thesis
    unfolding e g0 g by blast
qed

lemma deparse_shift_right:
  assumes st: "field_store w fb data" and w: "0 < w" and len: "off + w \<le> 8 * length dst"
    and off: "off < 8" and gt: "8 * bytes_of_bits w - w < off"
  shows "\<exists>dst'. generic_deparse data w dst off = Some dst' \<and> length dst' = length dst \<and>
    take (off + w) (bits dst') = take off (bits dst) @ fb"
proof -
  let ?nb = "bytes_of_bits w"
  define d where "d = 8 * ?nb - w"
  define s where "s = off - d"
  have nb: "0 < ?nb" by (rule bytes_of_bits_pos [OF w])
  have s: "s \<le> 8" "0 < s" "s < 8" "d + s = off" using off gt by (simp_all add: s_def d_def)
  have gtd: "d < off" using gt by (simp add: d_def)
  have dw: "w + d = 8 * ?nb" using bytes_of_bits_ge [of w] by (simp add: d_def)
  have ow: "8 * ?nb < off + w" using gt bytes_of_bits_ge [of w] by simp
  have hb: "bytes_of_bits (off + w) = Suc ?nb"
  proof -
    have "off + w \<le> 8 * Suc ?nb" using off bytes_of_bits_ge [of w] by simp
    from bytes_of_bits_le [OF this] show ?thesis using ow by (simp add: bytes_of_bits_def)
  qed
  have lend: "Suc ?nb \<le> length dst" using bytes_of_bits_le [OF len] hb by simp
  have dne: "dst \<noteq> []" using lend by auto
  have ld: "length data = ?nb" and bd: "bits data = replicate d False @ fb" and lf: "length fb = w"
    using st by (simp_all add: field_store_def padded_def d_def)
  let ?keep = "dst ! 0 AND NOT (drop_bit off 0xFF)"
  let ?x = "0 # data"
  let ?glue = "\<lambda>j. push_bit (8 - s) (?x ! j) OR drop_bit (8 - (8 - s)) (?x ! (j + 1))"
  have run: "bits (map ?glue [0..<?nb]) = take (8 * ?nb) (replicate off False @ fb)"
  proof -
    have "bits (map ?glue [0..<?nb]) = take (8 * ?nb) (drop (8 - s) (bits ?x))"
      using s ld by (intro bits_glue_run) simp_all
    also have "drop (8 - s) (bits ?x) = replicate off False @ fb"
      using s by (simp add: bd byte_bits_zero replicate_add [symmetric])
    finally show ?thesis .
  qed
  have lastbyte: "take (off + w - 8 * ?nb) (byte_bits (push_bit (8 - s) (data ! (?nb - 1)))) =
      drop (8 * ?nb - off) fb"
  proof -
    have "drop (8 * (?nb - 1)) (bits data) = byte_bits (data ! (?nb - 1))"
      using drop_bits_Cons [of "?nb - 1" data] ld nb by simp
    then have "drop (8 - s) (byte_bits (data ! (?nb - 1))) =
        drop (8 - s + 8 * (?nb - 1)) (replicate d False @ fb)"
      using bd by (metis drop_drop)
    also have "8 - s + 8 * (?nb - 1) = 8 * ?nb - off + d" using s off nb by (cases ?nb) simp_all
    also have "drop (8 * ?nb - off + d) (replicate d False @ fb) = drop (8 * ?nb - off) fb"
      by simp
    finally have "drop (8 - s) (byte_bits (data ! (?nb - 1))) = drop (8 * ?nb - off) fb" .
    moreover have "off + w - 8 * ?nb = s" using s dw by simp
    moreover have "w - (8 * ?nb - off) = s" using s dw off nb by (cases ?nb) simp_all
    ultimately show ?thesis
      using s lf by (simp add: byte_bits_shl)
  qed
  obtain g gs where g: "map ?glue [0..<?nb] = g # gs" using nb by (cases "map ?glue [0..<?nb]") auto
  have g0: "drop_bit s (data ! 0) = g"
  proof -
    have "?glue 0 = g"
      using arg_cong [OF g, of "\<lambda>xs. xs ! 0"] nb by simp
    then show ?thesis using s by simp
  qed
  have gs: "map (\<lambda>j. push_bit (8 - s) (data ! (j - 1)) OR drop_bit s (data ! j)) [1..<?nb] = gs"
  proof -
    have "gs = map ?glue [1..<?nb]"
      using g nb by (cases ?nb) (simp_all add: upt_conv_Cons del: upt_Suc)
    then show ?thesis using s by (auto simp: nth_Cons' intro!: nth_equalityI)
  qed
  have l8: "8 \<le> off + w" using ow nb by simp
  have gb: "byte_bits g = replicate off False @ take (8 - off) fb"
    and gr: "bits gs = take (8 * (?nb - 1)) (drop (8 - off) fb)"
  proof -
    have r: "byte_bits g @ bits gs = take (8 * ?nb) (replicate off False @ fb)"
      using run g by simp
    from arg_cong [OF this, of "take 8"] show "byte_bits g = replicate off False @ take (8 - off) fb"
      using off nb by simp
    from arg_cong [OF r, of "drop 8"] show "bits gs = take (8 * (?nb - 1)) (drop (8 - off) fb)"
      using off nb by (simp add: drop_take right_diff_distrib')
  qed
  have fst8: "byte_bits (?keep OR drop_bit s (data ! 0)) = take off (bits dst) @ take (8 - off) fb"
    unfolding g0 using off dne gb l8 lf by (subst first_byte_or) (auto simp: take_bits_Cons)
  have nalign: "\<not> (off = 0 \<and> w mod 8 = 0)" using gt by auto
  have offd: "off \<le> 8 * length dst" using off lend by simp
  have fbsplit: "fb = take (8 - off) fb @ take (8 * (?nb - 1)) (drop (8 - off) fb) @
      drop (8 * ?nb - off) fb"
  proof -
    have "8 * ?nb - off = 8 - off + 8 * (?nb - 1)" using off nb by simp
    then show ?thesis
      using append_take_drop_id [of "8 * ?nb - off" fb] take_add [of "8 - off" "8 * (?nb - 1)" fb]
      by (simp only: append.assoc)
  qed
  have fin: "take (off + w) (bits ((?keep OR drop_bit s (data ! 0)) # gs @ [l] @ drop (Suc ?nb) dst)) =
      take off (bits dst) @ fb"
    if l: "take (off + w - 8 * ?nb) (byte_bits l) = drop (8 * ?nb - off) fb" for l
  proof -
    have lg: "length gs = ?nb - 1" using arg_cong [OF g, of length] by simp
    have "w + off - (8 + 8 * (?nb - Suc 0)) = off + w - 8 * ?nb"
      "w + off - (16 + 8 * (?nb - Suc 0)) = 0"
      using nb off bytes_of_bits_ge [of w] by (cases ?nb; simp)+
    then have "take (off + w) (bits ((?keep OR drop_bit s (data ! 0)) # gs @ [l] @ drop (Suc ?nb) dst)) =
        take off (bits dst) @ take (8 - off) fb @ bits gs @ take (off + w - 8 * ?nb) (byte_bits l)"
      using l8 ow off lg nb offd lf lend by (simp add: fst8)
    then show ?thesis unfolding l gr using fbsplit by simp
  qed
  show ?thesis
  proof (cases "?nb = 1")
    case True
    have "generic_deparse data w dst off =
        Some ((?keep OR drop_bit s (data ! 0)) # push_bit (8 - s) (data ! 0) # drop 2 dst)"
      unfolding generic_deparse_def Let_def hb d_def [symmetric] s_def [symmetric]
      using nalign w ld lend gtd True by (cases "off = 0") simp_all
    moreover have "gs = []" using arg_cong [OF g, of length] True by simp
    ultimately show ?thesis
      using fin [OF lastbyte] lend True by (auto simp: numeral_2_eq_2)
  next
    case False
    let ?t = "8 * Suc ?nb - (off + w)"
    let ?l = "(dst ! ?nb AND (push_bit ?t 1 - 1)) OR push_bit (8 - s) (data ! (?nb - 1))"
    have e: "generic_deparse data w dst off =
        Some ((?keep OR drop_bit s (data ! 0)) # gs @ [?l] @ drop (Suc ?nb) dst)"
      unfolding generic_deparse_def Let_def hb d_def [symmetric] s_def [symmetric]
      using nalign w ld lend gtd False gs by (cases "off = 0") simp_all
    have "?t = 8 - s" using s ow dw by simp
    then have "take (off + w - 8 * ?nb) (byte_bits ?l) = drop (8 * ?nb - off) fb"
      using s ow dw lastbyte by (simp only: take_low_or)
    from fin [OF this] e arg_cong [OF g, of length] lend nb show ?thesis by auto
  qed
qed

lemma generic_deparse_bits:
  assumes "field_store w fb data" "0 < w" "off < 8" "off + w \<le> 8 * length dst"
  shows "\<exists>dst'. generic_deparse data w dst off = Some dst' \<and> length dst' = length dst \<and>
    take (off + w) (bits dst') = take off (bits dst) @ fb"
  using deparse_aligned [OF assms(1,2,4)] deparse_shift_left [OF assms(1,2,4)]
    deparse_shift_right [OF assms(1,2,4,3)]
  by (cases off "8 * bytes_of_bits w - w" rule: linorder_cases) blast+

section \<open>Properties\<close>

text \<open>
  extracting a field of \<open>w\<close> bits at bit offset \<open>off\<close> yields exactly these bits of the packet,
  in order, right-aligned in \<open>bytes_of_bits w\<close> bytes and zero-padded in front, whatever the
  alignment; the one case left out is a field of at most 8 bits that straddles two bytes.
\<close>

theorem generic_extract_correct:
  assumes "0 < w" "off < 8" "off + w \<le> 8 * length data" "\<not> narrow_straddle off w"
  shows "\<exists>bs. generic_extract data off w = Some bs \<and>
    field_store w (take w (drop off (bits data))) bs"
  using generic_extract_bits [OF assms] assms(3) by (auto simp: field_store_def)

theorem generic_extract_correct_witness:
  "\<exists>bs. generic_extract [0xAB, 0xCD, 0xEF] 4 12 = Some bs \<and>
    field_store 12 (take 12 (drop 4 (bits [0xAB, 0xCD, 0xEF]))) bs"
  by (rule generic_extract_correct) (simp_all add: narrow_straddle_def bytes_of_bits_def)

text \<open>
  deparsing writes the field's bits at its offset, keeps every bit before them, and never
  changes the length of the packet buffer.
\<close>

theorem generic_deparse_correct:
  assumes "field_store w fb data" "0 < w" "off < 8" "off + w \<le> 8 * length dst"
  shows "\<exists>dst'. generic_deparse data w dst off = Some dst' \<and> length dst' = length dst \<and>
    take (off + w) (bits dst') = take off (bits dst) @ fb"
  by (rule generic_deparse_bits [OF assms])

theorem generic_deparse_correct_witness:
  "\<exists>dst'. generic_deparse [0x0A, 0xBC] 12 [0xFF, 0xFF, 0xFF] 6 = Some dst' \<and>
     length dst' = length [0xFF, 0xFF, 0xFF :: u8] \<and>
     take (6 + 12) (bits dst') = take 6 (bits [0xFF, 0xFF, 0xFF]) @ drop 4 (bits [0x0A, 0xBC])"
  by (rule generic_deparse_correct)
    (simp_all add: field_store_def padded_def bytes_of_bits_def byte_bits_def upt_rec replicate_expand)

text \<open>
  a field written into a packet and read back from the same offset is unchanged.
\<close>

theorem deparse_extract_roundtrip:
  assumes st: "field_store w fb data" and w: "0 < w" and off: "off < 8"
    and len: "off + w \<le> 8 * length dst" and ns: "\<not> narrow_straddle off w"
  shows "Option.bind (generic_deparse data w dst off) (\<lambda>dst'. generic_extract dst' off w) = Some data"
proof -
  obtain dst' where d: "generic_deparse data w dst off = Some dst'" and l: "length dst' = length dst"
    and t: "take (off + w) (bits dst') = take off (bits dst) @ fb"
    using generic_deparse_bits [OF st w off len] by blast
  have offd: "length (take off (bits dst)) = off" using len by simp
  have "take w (drop off (bits dst')) = drop off (take (off + w) (bits dst'))"
    by (simp add: drop_take)
  also have "\<dots> = fb" using offd by (simp add: t)
  finally have "take w (drop off (bits dst')) = fb" .
  then obtain bs where e: "generic_extract dst' off w = Some bs" and "length bs = bytes_of_bits w"
    and "bits bs = padded w fb"
    using generic_extract_bits [OF w off _ ns] len l by metis
  then have "bs = data" using st bits_inject [of bs data] by (simp add: field_store_def)
  with d e show ?thesis by simp
qed

theorem deparse_extract_roundtrip_witness:
  "Option.bind (generic_deparse [0x0A, 0xBC] 12 [0xFF, 0xFF, 0xFF] 6)
     (\<lambda>dst'. generic_extract dst' 6 12) = Some [0x0A, 0xBC]"
  by (rule deparse_extract_roundtrip [where fb = "drop 4 (bits [0x0A, 0xBC])"])
    (simp_all add: field_store_def padded_def bytes_of_bits_def byte_bits_def narrow_straddle_def upt_rec replicate_expand)

text \<open>
  the case left out is wrong in the code.  For a field of fewer than 8 bits that straddles two
  bytes the mask is applied to the first byte before that byte is written, so the stored byte
  carries, in front of the field, the packet bits that precede it instead of zeros.
\<close>

theorem narrow_straddle_unmasked:
  assumes "0 < w" "w < 8" "off < 8" "8 < off + w" "off + w \<le> 8 * length data"
  shows "\<exists>b. generic_extract data off w = Some [b] \<and>
    byte_bits b = take (8 - w) (drop (off + w - 8) (bits data)) @ take w (drop off (bits data))"
proof -
  define s where "s = off + w - 8"
  have nb: "bytes_of_bits w = 1" using assms(1,2) by (simp add: bytes_of_bits_def)
  have len: "Suc 0 < length data" using assms(4,5) by simp
  have s: "off - (8 - w) = s" "s \<le> 8" "s + (8 - w) = off" "8 - w < off" "8 - w + s = off"
    using assms by (simp_all add: s_def)
  have b: "byte_bits (push_bit s (data ! 0) OR drop_bit (8 - s) (data ! 1)) =
      take 8 (drop s (bits data))"
    using byte_window [of s 0 data] s(2) len by (simp add: byte_bits_glue)
  have "take 8 (drop s (bits data)) =
      take (8 - w) (drop s (bits data)) @ take w (drop off (bits data))"
    using take_add [of "8 - w" w "drop s (bits data)"] assms(2) s by simp
  then show ?thesis
    unfolding s_def [symmetric] using b s assms len
    by (simp add: generic_extract_def Let_def nb)
qed

theorem narrow_straddle_unmasked_witness:
  "\<exists>b. generic_extract [0xFF, 0x80] 3 6 = Some [b] \<and>
    byte_bits b = take (8 - 6) (drop (3 + 6 - 8) (bits [0xFF, 0x80])) @ take 6 (drop 3 (bits [0xFF, 0x80]))"
  by (rule narrow_straddle_unmasked) simp_all

end
