(* ===== verification/Bm_Data.thy ===== *)
theory Bm_Data
  imports Prelude
begin

text \<open>
  The arbitrary-precision values of the switch: class \<^verbatim>\<open>Data\<close> of bm_sim/data.h and the byte
  conversions of bm_sim/bignum.h.  A \<^verbatim>\<open>Bignum\<close> is an \<open>int\<close>.  Every operation returns the
  value it stores; \<open>None\<close> is a failed \<^verbatim>\<open>assert\<close>, or a conversion to a machine type the value
  does not fit.
\<close>

unbundle bit_operations_syntax

section \<open>Byte strings and integers\<close>

fun import_acc :: "int \<Rightarrow> u8 list \<Rightarrow> int" where
  "import_acc acc [] = acc"
| "import_acc acc (b # bs) = import_acc (256 * acc + uint b) bs"

definition import_bytes :: "u8 list \<Rightarrow> int" where
  "import_bytes bs = import_acc 0 bs"

fun be_bytes :: "nat \<Rightarrow> int \<Rightarrow> u8 list" where
  "be_bytes 0 v = []"
| "be_bytes (Suc n) v = be_bytes n (v div 256) @ [word_of_int v]"

text \<open>
  \<^verbatim>\<open>export_bytes\<close> into a zeroed buffer of \<open>n\<close> bytes: the magnitude of the value in one word
  of \<open>n\<close> bytes.  \<open>None\<close>: the value needs more than one word, a write past the buffer.
\<close>

definition export_bytes :: "nat \<Rightarrow> int \<Rightarrow> u8 list option" where
  "export_bytes n v = (if \<bar>v\<bar> < 256 ^ n then Some (be_bytes n \<bar>v\<bar>) else None)"

section \<open>The class\<close>

record data =
  arith :: bool
  dval :: int

definition new_data :: data where
  "new_data = \<lparr>arith = True, dval = 0\<rparr>"

definition data_of :: "int \<Rightarrow> data" where
  "data_of i = \<lparr>arith = True, dval = i\<rparr>"

definition both_arith :: "'a data_scheme \<Rightarrow> 'b data_scheme \<Rightarrow> unit option" where
  "both_arith a b = guard (arith a \<and> arith b)"

subsection \<open>Hexadecimal strings\<close>

definition char2digit :: "char \<Rightarrow> u8 option" where
  "char2digit ch = (let n = (of_char ch :: nat) in
     if 48 \<le> n \<and> n \<le> 57 then Some (of_nat (n - 48))
     else if 65 \<le> n \<and> n \<le> 70 then Some (of_nat (n - 65 + 10))
     else if 97 \<le> n \<and> n \<le> 102 then Some (of_nat (n - 97 + 10))
     else None)"

fun hex_pairs :: "string \<Rightarrow> u8 list option" where
  "hex_pairs [] = Some []"
| "hex_pairs [ch] = None"
| "hex_pairs (c1 # c2 # cs) = do {
     h \<leftarrow> char2digit c1;
     l \<leftarrow> char2digit c2;
     r \<leftarrow> hex_pairs cs;
     Some ((push_bit 4 h + l) # r)
   }"

definition hex_bytes :: "string \<Rightarrow> u8 list option" where
  "hex_bytes s =
     (if s = [] then None
      else if length s mod 2 \<noteq> 0 then do {
        c \<leftarrow> char2digit (hd s);
        r \<leftarrow> hex_pairs (tl s);
        Some (c # r)
      }
      else hex_pairs s)"

definition strip_0x :: "string \<Rightarrow> string" where
  "strip_0x s = (if take 2 s = ''0x'' then drop 2 s else s)"

definition set_hexstring :: "string \<Rightarrow> int option" where
  "set_hexstring s =
     (let neg = (take 1 s = ''-'');
          s1 = (if neg then drop 1 s else s)
      in do {
        bs \<leftarrow> hex_bytes (strip_0x s1);
        let v = import_bytes bs;
        Some (if neg then - v else v)
      })"

subsection \<open>Conversions\<close>

definition get_uint :: "'a data_scheme \<Rightarrow> nat option" where
  "get_uint d = (if arith d \<and> 0 \<le> dval d \<and> dval d < 2 ^ 32 then Some (nat (dval d)) else None)"

definition get_uint64 :: "'a data_scheme \<Rightarrow> nat option" where
  "get_uint64 d = (if arith d \<and> 0 \<le> dval d \<and> dval d < 2 ^ 64 then Some (nat (dval d)) else None)"

definition get_int :: "'a data_scheme \<Rightarrow> int option" where
  "get_int d = (if arith d \<and> - (2 ^ 31) \<le> dval d \<and> dval d < 2 ^ 31 then Some (dval d) else None)"

subsection \<open>Arithmetic\<close>

definition d_add :: "'a data_scheme \<Rightarrow> 'b data_scheme \<Rightarrow> int option" where
  "d_add a b = do { both_arith a b; Some (dval a + dval b) }"

definition d_sub :: "'a data_scheme \<Rightarrow> 'b data_scheme \<Rightarrow> int option" where
  "d_sub a b = do { both_arith a b; Some (dval a - dval b) }"

definition d_mod :: "'a data_scheme \<Rightarrow> 'b data_scheme \<Rightarrow> int option" where
  "d_mod a b = do { both_arith a b; guard (0 \<le> dval a \<and> 0 < dval b); Some (dval a mod dval b) }"

definition d_divide :: "'a data_scheme \<Rightarrow> 'b data_scheme \<Rightarrow> int option" where
  "d_divide a b = do { both_arith a b; guard (0 \<le> dval a \<and> 0 < dval b); Some (dval a div dval b) }"

definition d_multiply :: "'a data_scheme \<Rightarrow> 'b data_scheme \<Rightarrow> int option" where
  "d_multiply a b = do { both_arith a b; Some (dval a * dval b) }"

definition d_shift_left :: "'a data_scheme \<Rightarrow> 'b data_scheme \<Rightarrow> int option" where
  "d_shift_left a b = do {
     both_arith a b; guard (0 \<le> dval b); n \<leftarrow> get_uint b; Some (push_bit n (dval a)) }"

definition d_shift_right :: "'a data_scheme \<Rightarrow> 'b data_scheme \<Rightarrow> int option" where
  "d_shift_right a b = do {
     both_arith a b; guard (0 \<le> dval b); n \<leftarrow> get_uint b; Some (drop_bit n (dval a)) }"

definition d_bit_and :: "'a data_scheme \<Rightarrow> 'b data_scheme \<Rightarrow> int option" where
  "d_bit_and a b = do { both_arith a b; Some (dval a AND dval b) }"

definition d_bit_or :: "'a data_scheme \<Rightarrow> 'b data_scheme \<Rightarrow> int option" where
  "d_bit_or a b = do { both_arith a b; Some (dval a OR dval b) }"

definition d_bit_xor :: "'a data_scheme \<Rightarrow> 'b data_scheme \<Rightarrow> int option" where
  "d_bit_xor a b = do { both_arith a b; Some (dval a XOR dval b) }"

definition d_bit_neg :: "'a data_scheme \<Rightarrow> int option" where
  "d_bit_neg a = do { guard (arith a); Some (NOT (dval a)) }"

text \<open>Width 0 makes \<^verbatim>\<open>uwidth - 1\<close> wrap to the largest unsigned: outside the model.\<close>

definition d_two_comp_mod :: "'a data_scheme \<Rightarrow> 'b data_scheme \<Rightarrow> int option" where
  "d_two_comp_mod src width = do {
     uwidth \<leftarrow> get_uint width;
     guard (0 < uwidth);
     let msk = push_bit uwidth 1 - 1;
     let mx = push_bit (uwidth - 1) 1 - 1;
     let mn = - push_bit (uwidth - 1) 1;
     if dval src < mn \<or> dval src > mx then
       (let v = dval src AND msk in
        Some (if v > mx then v - push_bit uwidth 1 else v))
     else Some (dval src)
   }"

definition test_eq :: "'a data_scheme \<Rightarrow> int \<Rightarrow> bool" where
  "test_eq d i \<longleftrightarrow> dval d = i"

definition d_eq :: "'a data_scheme \<Rightarrow> 'b data_scheme \<Rightarrow> bool option" where
  "d_eq a b = do { both_arith a b; Some (dval a = dval b) }"

definition d_neq :: "'a data_scheme \<Rightarrow> 'b data_scheme \<Rightarrow> bool option" where
  "d_neq a b = do { both_arith a b; r \<leftarrow> d_eq a b; Some (\<not> r) }"

definition d_gt :: "'a data_scheme \<Rightarrow> 'b data_scheme \<Rightarrow> bool option" where
  "d_gt a b = do { both_arith a b; Some (dval a > dval b) }"

definition d_ge :: "'a data_scheme \<Rightarrow> 'b data_scheme \<Rightarrow> bool option" where
  "d_ge a b = do { both_arith a b; Some (dval a \<ge> dval b) }"

definition d_lt :: "'a data_scheme \<Rightarrow> 'b data_scheme \<Rightarrow> bool option" where
  "d_lt a b = do { both_arith a b; Some (dval a < dval b) }"

definition d_le :: "'a data_scheme \<Rightarrow> 'b data_scheme \<Rightarrow> bool option" where
  "d_le a b = do { both_arith a b; Some (dval a \<le> dval b) }"

section \<open>Lemmas\<close>

lemma import_acc_append: "import_acc acc (xs @ ys) = import_acc (import_acc acc xs) ys"
  by (induction xs arbitrary: acc) simp_all

lemma import_acc_linear: "import_acc acc bs = acc * 256 ^ length bs + import_acc 0 bs"
proof (induction bs arbitrary: acc)
  case (Cons b bs)
  from Cons [of "256 * acc + uint b"] Cons [of "uint b"] show ?case
    by (simp add: algebra_simps)
qed simp

lemma import_bytes_Nil [simp]: "import_bytes [] = 0"
  by (simp add: import_bytes_def)

lemma import_bytes_Cons: "import_bytes (b # bs) = uint b * 256 ^ length bs + import_bytes bs"
  using import_acc_linear [of "uint b" bs] by (simp add: import_bytes_def)

lemma import_bytes_snoc: "import_bytes (bs @ [b]) = 256 * import_bytes bs + uint b"
  by (simp add: import_bytes_def import_acc_append)

lemma uint_u8_bound: "0 \<le> uint (b :: u8) \<and> uint b < 256"
  using uint_bounded [of b] by simp

lemma import_bytes_bound: "0 \<le> import_bytes bs \<and> import_bytes bs < 256 ^ length bs"
proof (induction bs rule: rev_induct)
  case (snoc b bs)
  then show ?case using uint_u8_bound [of b] by (simp add: import_bytes_snoc)
qed simp

lemma length_be_bytes [simp]: "length (be_bytes n v) = n"
  by (induction n arbitrary: v) simp_all

lemma import_be_bytes: "0 \<le> v \<Longrightarrow> import_bytes (be_bytes n v) = v mod 256 ^ n"
proof (induction n arbitrary: v)
  case (Suc n)
  have u: "uint (word_of_int v :: u8) = v mod 256"
    by (simp add: uint_word_of_int)
  have "v mod 256 ^ Suc n = 256 * (v div 256 mod 256 ^ n) + v mod 256"
    using zmod_zmult2_eq [of "256 ^ n" v 256] by (simp add: mult.commute)
  then show ?case using Suc.IH [of "v div 256"] Suc.prems by (simp add: import_bytes_snoc u)
qed simp

lemma be_import_bytes: "be_bytes (length bs) (import_bytes bs) = bs"
proof (induction bs rule: rev_induct)
  case (snoc b bs)
  have "(256 * import_bytes bs + uint b) div 256 = import_bytes bs"
    using uint_u8_bound [of b] by simp
  moreover have "word_of_int (256 * import_bytes bs + uint b) = b"
  proof -
    have "(256 * import_bytes bs + uint b) mod 2 ^ LENGTH(8) = uint b"
      using uint_u8_bound [of b] by simp
    then show ?thesis unfolding word_uint_eq_iff uint_word_of_int .
  qed
  ultimately show ?case using snoc by (simp add: import_bytes_snoc)
qed simp

lemma import_bytes_inject:
  assumes "length xs = length ys" "import_bytes xs = import_bytes ys"
  shows "xs = ys"
  using assms by (metis be_import_bytes)

lemma import_export: "export_bytes n v = Some bs \<Longrightarrow> 0 \<le> v \<Longrightarrow> import_bytes bs = v \<and> length bs = n"
  by (auto simp: export_bytes_def import_be_bytes split: if_splits)

lemma export_import: "length bs = n \<Longrightarrow> export_bytes n (import_bytes bs) = Some bs"
  using import_bytes_bound [of bs] be_import_bytes [of bs] by (auto simp: export_bytes_def)

lemma and_low_mask: "v AND (push_bit n 1 - 1) = v mod (2 :: int) ^ n"
  by (simp add: push_bit_eq_mult mask_eq_exp_minus_1 [symmetric] take_bit_eq_mask [symmetric]
      take_bit_eq_mod)

subsection \<open>Hexadecimal strings\<close>

fun hex_numeral :: "nat \<Rightarrow> string \<Rightarrow> nat option" where
  "hex_numeral acc [] = Some acc"
| "hex_numeral acc (ch # cs) = do { d \<leftarrow> char2digit ch; hex_numeral (16 * acc + unat d) cs }"

lemma char2digit_bound: "char2digit ch = Some d \<Longrightarrow> unat d < 16"
  by (auto simp: char2digit_def Let_def unat_of_nat simp del: of_nat_diff split: if_splits)

lemma unat_hex_byte:
  assumes "unat h < 16" "unat l < 16"
  shows "unat (push_bit 4 h + l :: u8) = 16 * unat h + unat l"
proof -
  have e: "push_bit 4 h + l = of_nat (16 * unat h + unat l)"
    by (simp add: push_bit_eq_mult)
  show ?thesis unfolding e unat_of_nat using assms by simp
qed

lemma hex_pairs_numeral:
  "length s mod 2 = 0 \<Longrightarrow>
   map_option (\<lambda>bs. import_acc (int acc) bs) (hex_pairs s) = map_option int (hex_numeral acc s)"
proof (induction s arbitrary: acc rule: hex_pairs.induct)
  case (3 c1 c2 cs)
  show ?case
  proof (cases "char2digit c1")
    case (Some h)
    show ?thesis
    proof (cases "char2digit c2")
      case 2: (Some l)
      have u: "uint (push_bit 4 h + l) = int (16 * unat h + unat l)"
        unfolding uint_nat
          unat_hex_byte [OF char2digit_bound [OF Some] char2digit_bound [OF 2]] by (rule refl)
      have "map_option (import_acc (int (16 * (16 * acc + unat h) + unat l))) (hex_pairs cs) =
          map_option int (hex_numeral (16 * (16 * acc + unat h) + unat l) cs)"
        using 3(2) by (intro 3(1) [OF Some 2]) simp
      moreover have "256 * int acc + uint (push_bit 4 h + l) =
          int (16 * (16 * acc + unat h) + unat l)"
        unfolding u by simp
      ultimately show ?thesis using Some 2 by (cases "hex_pairs cs") (simp_all add: add.assoc)
    qed (simp add: Some)
  qed simp
qed simp_all

lemma hex_bytes_numeral:
  "map_option import_bytes (hex_bytes s) = (if s = [] then None else map_option int (hex_numeral 0 s))"
proof (cases s)
  case (Cons c cs)
  show ?thesis
  proof (cases "length s mod 2 = 0")
    case True
    then show ?thesis
      using hex_pairs_numeral [OF True, of 0] Cons
      unfolding hex_bytes_def import_bytes_def [abs_def] by (simp only:) simp
  next
    case False
    then have "length cs mod 2 = 0" using Cons by simp presburger
    then have p: "map_option (import_acc (int acc)) (hex_pairs cs) = map_option int (hex_numeral acc cs)"
      for acc by (rule hex_pairs_numeral)
    show ?thesis
    proof (cases "char2digit c")
      case (Some d)
      have "hex_bytes s = map_option (Cons d) (hex_pairs cs)"
        using False Cons Some by (cases "hex_pairs cs") (simp_all add: hex_bytes_def)
      then have "map_option import_bytes (hex_bytes s) = map_option (import_acc (uint d)) (hex_pairs cs)"
        by (simp add: option.map_comp o_def import_bytes_def)
      also have "uint d = int (unat d)" by (rule uint_nat)
      finally show ?thesis using p [of "unat d"] Cons Some by simp
    qed (use False Cons in \<open>simp add: hex_bytes_def\<close>)
  qed
qed (simp add: hex_bytes_def)

section \<open>Properties\<close>

text \<open>
  \<^verbatim>\<open>Data::set(hexstring)\<close> reads an optional minus sign, an optional \<^verbatim>\<open>0x\<close> and then at least
  one hexadecimal digit, of either case and of any number, even or odd, as one base-16 number;
  any other text is rejected.
\<close>

theorem set_hexstring_numeral:
  "set_hexstring s =
    (let neg = (take 1 s = ''-''); digits = strip_0x (if neg then drop 1 s else s) in
     if digits = [] then None
     else map_option (\<lambda>n. if neg then - int n else int n) (hex_numeral 0 digits))"
proof -
  define digits where "digits = strip_0x (if take 1 s = ''-'' then drop 1 s else s)"
  have "set_hexstring s = map_option (\<lambda>v. if take 1 s = ''-'' then - v else v)
      (map_option import_bytes (hex_bytes digits))"
    unfolding set_hexstring_def digits_def Let_def by (auto simp: map_option_case split: option.split)
  then show ?thesis
    unfolding hex_bytes_numeral Let_def digits_def [symmetric]
    by (auto simp: option.map_comp o_def)
qed

text \<open>
  \<^verbatim>\<open>two_comp_mod\<close> wraps a value of any size and sign to width \<open>w\<close>: the result is the one
  integer of \<open>[-2^(w-1), 2^(w-1))\<close> congruent to the value modulo \<open>2^w\<close>.
\<close>

theorem two_comp_mod_wraps:
  assumes "get_uint width = Some w" "0 < w"
  shows "\<exists>r. d_two_comp_mod src width = Some r \<and> - (2 ^ (w - 1)) \<le> r \<and> r < 2 ^ (w - 1) \<and>
    r mod 2 ^ w = dval src mod 2 ^ w"
proof -
  define H :: int where "H = 2 ^ (w - 1)"
  have w: "(2 :: int) ^ w = 2 * H" using assms(2) by (cases w) (simp_all add: H_def)
  define m where "m = dval src mod (2 * H)"
  have m: "0 \<le> m" "m < 2 * H" by (simp_all add: m_def H_def)
  have p: "push_bit w (1 :: int) = 2 * H" "push_bit (w - 1) (1 :: int) = H"
    by (simp_all add: push_bit_eq_mult w H_def)
  have a: "dval src AND (2 * H - 1) = m"
    using and_low_mask [of "dval src" w] by (simp only: p m_def w)
  have "d_two_comp_mod src width = Some
      (if dval src < - H \<or> dval src > H - 1 then (if m > H - 1 then m - 2 * H else m) else dval src)"
    unfolding d_two_comp_mod_def assms(1) Option.bind.simps bind_guard Let_def p a
    using assms(2) by simp
  moreover have "(m - 2 * H) mod (2 * H) = m" "m mod (2 * H) = m"
    using m by (simp_all add: m_def)
  ultimately show ?thesis
    using m unfolding w H_def [symmetric] by (auto simp: m_def [symmetric])
qed

theorem two_comp_mod_wraps_witness:
  "\<exists>r. d_two_comp_mod (data_of 200) (data_of 8) = Some r \<and> - (2 ^ (8 - 1)) \<le> r \<and> r < 2 ^ (8 - 1) \<and>
    r mod 2 ^ 8 = dval (data_of 200) mod 2 ^ 8"
  by (rule two_comp_mod_wraps) (simp_all add: get_uint_def data_of_def)

end
