(* ===== verification/Packet_Fields.thy ===== *)
theory Packet_Fields
  imports Bm_Data Bit_Extract
begin

text \<open>
  Header fields: class \<^verbatim>\<open>Field\<close> of bm_sim/fields.h and fields.cpp, a \<^verbatim>\<open>Data\<close> whose value is kept
  together with its bytes.  Debugger notifications and the link to the enclosing header are
  left out; \<^verbatim>\<open>assign_VL\<close>'s call back into the header is made in the header theory.
\<close>

unbundle bit_operations_syntax

section \<open>State\<close>

record field = data +
  nbits :: nat
  nbytes :: nat
  fbytes :: "u8 list"
  is_signed :: bool
  hidden :: bool
  VL :: bool
  written_to :: bool
  fmask :: int
  fmax :: int
  fmin :: int

definition new_field :: "nat \<Rightarrow> bool \<Rightarrow> bool \<Rightarrow> bool \<Rightarrow> bool \<Rightarrow> field option" where
  "new_field n arith_flag sg hid vl = do {
     guard (sg \<longrightarrow> 1 < n);
     Some \<lparr>arith = arith_flag, dval = 0, nbits = n, nbytes = bytes_of_bits n,
       fbytes = replicate (bytes_of_bits n) 0, is_signed = sg, hidden = hid, VL = vl,
       written_to = False, fmask = push_bit n 1 - 1,
       fmax = (if sg then push_bit (n - 1) 1 - 1 else 1),
       fmin = (if sg then - push_bit (n - 1) 1 else 1)\<rparr>
   }"

section \<open>Operations\<close>

definition sync_value :: "field \<Rightarrow> field" where
  "sync_value f =
     (let v = import_bytes (take (nbytes f) (fbytes f));
          v' = (if is_signed f \<and> bit v (nbits f - 1) then unset_bit (nbits f - 1) v + fmin f else v)
      in f\<lparr>dval := v', written_to := True\<rparr>)"

text \<open>The value after the wrapping done by \<^verbatim>\<open>Field::export_bytes\<close>.\<close>

definition wrapped :: "field \<Rightarrow> int" where
  "wrapped f =
     (if \<not> is_signed f then dval f AND fmask f
      else if dval f < fmin f \<or> dval f > fmask f then
        (let v = dval f AND fmask f in if v > fmax f then v - (fmask f + 1) else v)
      else dval f)"

definition field_export :: "field \<Rightarrow> field option" where
  "field_export f =
     (let v = wrapped f;
          w = (if \<not> is_signed f \<or> 0 \<le> v then v else v - fmin f - fmin f)
      in do {
        guard (nbytes f \<le> length (fbytes f));
        bs \<leftarrow> export_bytes (nbytes f) w;
        Some (f\<lparr>dval := v,
                fbytes := bs @ replicate (length (fbytes f) - nbytes f) 0,
                written_to := True\<rparr>)
      })"

text \<open>\<^verbatim>\<open>Data::set\<close> on a field, whose \<^verbatim>\<open>export_bytes\<close> is virtual.\<close>

definition field_set :: "field \<Rightarrow> int \<Rightarrow> field option" where
  "field_set f v = field_export (f\<lparr>dval := v\<rparr>)"

definition set_bytes :: "field \<Rightarrow> u8 list \<Rightarrow> field option" where
  "set_bytes f src = do {
     guard (length src = nbytes f \<and> nbytes f \<le> length (fbytes f));
     let f1 = f\<lparr>fbytes := src @ drop (length src) (fbytes f)\<rparr>;
     Some (if arith f1 then sync_value f1 else f1)
   }"

definition swap_field :: "field \<Rightarrow> field \<Rightarrow> (field \<times> field) option" where
  "swap_field f g =
     (let f1 = f\<lparr>dval := dval g, fbytes := fbytes g\<rparr>;
          g1 = g\<lparr>dval := dval f, fbytes := fbytes f\<rparr>
      in if \<not> VL f then Some (f1, g1)
         else do {
           guard (is_signed f = is_signed g);
           let f2 = f1\<lparr>nbits := nbits g, nbytes := nbytes g, fmask := fmask g\<rparr>;
           let g2 = g1\<lparr>nbits := nbits f, nbytes := nbytes f, fmask := fmask f\<rparr>;
           Some (if is_signed f
             then (f2\<lparr>fmax := fmax g, fmin := fmin g\<rparr>, g2\<lparr>fmax := fmax f, fmin := fmin f\<rparr>)
             else (f2, g2))
         })"

definition field_extract :: "field \<Rightarrow> u8 list \<Rightarrow> nat \<Rightarrow> field option" where
  "field_extract f data hdr_offset = do {
     bs \<leftarrow> generic_extract data hdr_offset (nbits f);
     guard (length bs \<le> length (fbytes f));
     let f1 = f\<lparr>fbytes := bs @ drop (length bs) (fbytes f)\<rparr>;
     Some (if arith f1 then sync_value f1 else f1)
   }"

text \<open>\<^verbatim>\<open>mask = (1 << nbits)\<close> shifts an \<^verbatim>\<open>int\<close>: undefined for 31 bits and more.\<close>

definition field_extract_VL :: "field \<Rightarrow> u8 list \<Rightarrow> nat \<Rightarrow> int \<Rightarrow> field option" where
  "field_extract_VL f data hdr_offset computed_nbits = do {
     guard (0 \<le> computed_nbits \<and> computed_nbits < 31);
     let n = nat computed_nbits;
     let nb = bytes_of_bits n;
     guard (is_signed f \<longrightarrow> 1 < n);
     let f1 = f\<lparr>nbits := n, nbytes := nb, fmask := push_bit n 1 - 1,
        fbytes := take nb (fbytes f) @ replicate (nb - length (fbytes f)) 0\<rparr>;
     let f2 = (if is_signed f
        then f1\<lparr>fmax := push_bit (n - 1) (fmax f) - 1, fmin := - push_bit (n - 1) (fmin f)\<rparr>
        else f1);
     field_extract f2 data hdr_offset
   }"

definition field_deparse :: "field \<Rightarrow> u8 list \<Rightarrow> nat \<Rightarrow> u8 list option" where
  "field_deparse f data hdr_offset = generic_deparse (fbytes f) (nbits f) data hdr_offset"

definition assign_VL :: "field \<Rightarrow> field \<Rightarrow> field option" where
  "assign_VL f src = do {
     guard (VL f);
     field_set (f\<lparr>nbits := nbits src, nbytes := nbytes src,
       fbytes := take (nbytes src) (fbytes f) @ replicate (nbytes src - length (fbytes f)) 0,
       fmask := fmask src, fmax := fmax src, fmin := fmin src\<rparr>) (dval src)
   }"

definition reset_VL :: "field \<Rightarrow> field option" where
  "reset_VL f = do {
     guard (VL f);
     let f1 = f\<lparr>nbits := 0, nbytes := 0, fmask := 1\<rparr>;
     Some (if is_signed f then f1\<lparr>fmax := 1, fmin := 1\<rparr> else f1)
   }"

definition copy_value :: "field \<Rightarrow> field \<Rightarrow> field" where
  "copy_value f src =
     (let f1 = f\<lparr>dval := dval src, fbytes := fbytes src\<rparr> in
      if \<not> VL f then f1
      else let f2 = f1\<lparr>nbits := nbits src, nbytes := nbytes src, fmask := fmask src\<rparr> in
        if is_signed f then f2\<lparr>fmin := fmin src, fmax := fmax src\<rparr> else f2)"

section \<open>Invariants\<close>

text \<open>The geometry every constructor call sets up.\<close>

definition field_ok :: "field \<Rightarrow> bool" where
  "field_ok f \<longleftrightarrow> nbytes f = bytes_of_bits (nbits f) \<and> length (fbytes f) = nbytes f \<and>
     fmask f = 2 ^ nbits f - 1 \<and>
     (is_signed f \<longrightarrow> 1 < nbits f \<and> fmax f = 2 ^ (nbits f - 1) - 1 \<and> fmin f = - (2 ^ (nbits f - 1)))"

lemma new_field_ok: "new_field n a s h v = Some f \<Longrightarrow> field_ok f"
  by (auto simp: new_field_def field_ok_def push_bit_eq_mult split: if_splits)

text \<open>No bit set in front of the field.\<close>

definition packed :: "field \<Rightarrow> bool" where
  "packed f \<longleftrightarrow> import_bytes (fbytes f) < 2 ^ nbits f"

definition int_of_bits :: "bool list \<Rightarrow> int" where
  "int_of_bits bs = foldl (\<lambda>acc b. 2 * acc + (if b then 1 else 0)) 0 bs"

subsection \<open>Bytes and bits\<close>

lemma int_of_bits_snoc: "int_of_bits (bs @ [b]) = 2 * int_of_bits bs + (if b then 1 else 0)"
  by (simp add: int_of_bits_def)

lemma int_of_bits_append: "int_of_bits (xs @ ys) = int_of_bits xs * 2 ^ length ys + int_of_bits ys"
proof (induction ys rule: rev_induct)
  case Nil
  then show ?case by (simp add: int_of_bits_def)
next
  case (snoc y ys)
  have "int_of_bits (xs @ ys @ [y]) = 2 * int_of_bits (xs @ ys) + (if y then 1 else 0)"
    using int_of_bits_snoc [of "xs @ ys" y] by simp
  then show ?case using snoc by (simp add: int_of_bits_snoc algebra_simps)
qed

lemma int_of_bits_bound: "0 \<le> int_of_bits bs \<and> int_of_bits bs < 2 ^ length bs"
proof (induction bs rule: rev_induct)
  case Nil
  then show ?case by (simp add: int_of_bits_def)
next
  case (snoc b bs)
  then show ?case by (auto simp: int_of_bits_snoc)
qed

lemma int_of_bits_zeros [simp]: "int_of_bits (replicate n False) = 0"
  by (induction n) (simp_all add: int_of_bits_def)

lemma int_of_bits_inject:
  "length xs = length ys \<Longrightarrow> int_of_bits xs = int_of_bits ys \<Longrightarrow> xs = ys"
proof (induction xs arbitrary: ys rule: rev_induct)
  case (snoc x xs)
  then obtain y ys' where ys: "ys = ys' @ [y]" by (cases ys rule: rev_cases) auto
  have "2 * int_of_bits xs + (if x then 1 else 0) = 2 * int_of_bits ys' + (if y then 1 else 0)"
    using snoc.prems(2) by (simp add: ys int_of_bits_snoc)
  then have "x = y" "int_of_bits xs = int_of_bits ys'" by (auto split: if_splits) presburger+
  then show ?case using snoc ys by simp
qed simp

lemma int_of_bits_horner: "int_of_bits bs = horner_sum of_bool 2 (rev bs)"
  by (induction bs rule: rev_induct) (simp_all add: int_of_bits_snoc int_of_bits_def)

lemma rev_byte_bits: "rev (byte_bits b) = map (bit (uint b)) [0..<8]"
  by (rule nth_equalityI) (auto simp: rev_nth bit_uint_iff dest: bit_imp_le_length)

lemma uint_byte_bits: "uint (b :: u8) = int_of_bits (byte_bits b)"
proof -
  have "take_bit 8 (uint b) = uint b"
    using uint_u8_bound [of b] by (simp add: take_bit_int_eq_self)
  then show ?thesis
    by (simp add: int_of_bits_horner rev_byte_bits horner_sum_bit_eq_take_bit)
qed

lemma import_bytes_bits: "import_bytes bs = int_of_bits (bits bs)"
proof (induction bs rule: rev_induct)
  case Nil
  then show ?case by (simp add: int_of_bits_def)
next
  case (snoc b bs)
  then show ?case
    using int_of_bits_append [of "bits bs" "byte_bits b"]
    by (simp add: import_bytes_snoc uint_byte_bits)
qed

lemma int_of_padded: "int_of_bits (padded w fb) = int_of_bits fb"
  by (simp add: padded_def int_of_bits_append)

lemma field_store_value: "field_store w fb data \<Longrightarrow> import_bytes data = int_of_bits fb"
  by (simp add: field_store_def import_bytes_bits int_of_padded)

lemma packed_field_store:
  assumes "field_ok f" "packed f"
  shows "field_store (nbits f) (drop (8 * nbytes f - nbits f) (bits (fbytes f))) (fbytes f)"
proof -
  define p where "p = 8 * nbytes f - nbits f"
  have l: "length (bits (fbytes f)) = p + nbits f" "length (fbytes f) = nbytes f"
    "nbytes f = bytes_of_bits (nbits f)"
    using assms(1) bytes_of_bits_ge [of "nbits f"] by (simp_all add: field_ok_def p_def)
  have "int_of_bits (bits (fbytes f)) =
      int_of_bits (take p (bits (fbytes f))) * 2 ^ nbits f + int_of_bits (drop p (bits (fbytes f)))"
    using int_of_bits_append [of "take p (bits (fbytes f))" "drop p (bits (fbytes f))"] l by simp
  then have "int_of_bits (take p (bits (fbytes f))) * 2 ^ nbits f < 1 * 2 ^ nbits f"
    using assms(2) int_of_bits_bound [of "drop p (bits (fbytes f))"]
    unfolding packed_def import_bytes_bits by linarith
  then have "int_of_bits (take p (bits (fbytes f))) < 1"
    by (rule mult_right_less_imp_less) simp
  then have "int_of_bits (take p (bits (fbytes f))) = 0"
    using int_of_bits_bound [of "take p (bits (fbytes f))"] by simp
  then have "take p (bits (fbytes f)) = replicate p False"
    using l by (intro int_of_bits_inject) simp_all
  then show ?thesis
    using l append_take_drop_id [of p "bits (fbytes f)"] by (simp add: field_store_def padded_def flip: p_def)
qed

section \<open>What the operations establish\<close>

lemma bytes_power: "(256 :: int) ^ n = 2 ^ (8 * n)"
  by (simp add: power_mult)

lemma pow_bits_le_bytes: "(2 :: int) ^ n \<le> 256 ^ bytes_of_bits n"
  unfolding bytes_power by (intro power_increasing bytes_of_bits_ge) simp

lemma field_ok_value_update [simp]:
  "field_ok (f\<lparr>dval := v\<rparr>) = field_ok f" "field_ok (f\<lparr>written_to := b\<rparr>) = field_ok f"
  by (simp_all add: field_ok_def)

lemma and_field_mask: "field_ok f \<Longrightarrow> v AND fmask f = v mod 2 ^ nbits f"
  using and_low_mask [of v "nbits f"] by (simp add: field_ok_def push_bit_eq_mult)

lemma field_set_eq:
  assumes "field_ok f" "wrapped (f\<lparr>dval := v\<rparr>) = x"
    and "(if \<not> is_signed f \<or> 0 \<le> x then x else x - fmin f - fmin f) = w" "0 \<le> w" "w < 2 ^ nbits f"
  shows "field_set f v = Some (f\<lparr>dval := x, fbytes := be_bytes (nbytes f) w, written_to := True\<rparr>)"
    and "import_bytes (be_bytes (nbytes f) w) = w"
proof -
  have b: "w < 256 ^ nbytes f"
    using pow_bits_le_bytes [of "nbits f"] assms(1,5) by (simp add: field_ok_def)
  then show "import_bytes (be_bytes (nbytes f) w) = w" using assms(4) by (simp add: import_be_bytes)
  show "field_set f v = Some (f\<lparr>dval := x, fbytes := be_bytes (nbytes f) w, written_to := True\<rparr>)"
    using assms b by (auto simp: field_set_def field_export_def export_bytes_def field_ok_def Let_def)
qed

lemma field_ok_stored:
  "field_ok f \<Longrightarrow> field_ok (f\<lparr>dval := x, fbytes := be_bytes (nbytes f) w, written_to := b\<rparr>)"
  by (simp add: field_ok_def)

lemma signed_bounds:
  assumes "field_ok f" "is_signed f"
  obtains H where "0 < H" "(2 :: int) ^ nbits f = 2 * H" "fmask f = 2 * H - 1" "fmax f = H - 1"
    "fmin f = - H" "2 ^ (nbits f - 1) = H"
proof
  show "(2 :: int) ^ nbits f = 2 * 2 ^ (nbits f - 1)"
    using assms by (cases "nbits f") (simp_all add: field_ok_def)
  then show "fmask f = 2 * 2 ^ (nbits f - 1) - 1" using assms(1) by (simp add: field_ok_def)
qed (use assms in \<open>simp_all add: field_ok_def\<close>)

text \<open>Reading the bytes of a signed field as two's complement.\<close>

lemma sync_signed:
  assumes ok: "field_ok f" and sg: "is_signed f" and w: "import_bytes (fbytes f) = w" "w < 2 ^ nbits f"
  shows "dval (sync_value f) = (if w < 2 ^ (nbits f - 1) then w else w - 2 ^ nbits f)"
proof -
  have n: "1 < nbits f" using ok sg by (simp add: field_ok_def)
  define k where "k = nbits f - 1"
  have k: "nbits f = Suc k" using n by (simp add: k_def)
  have w0: "0 \<le> w" using import_bytes_bound [of "fbytes f"] w(1) by simp
  have tk: "take (nbytes f) (fbytes f) = fbytes f" using ok by (simp add: field_ok_def)
  have b: "bit w k \<longleftrightarrow> \<not> w < 2 ^ k"
  proof -
    have "w div 2 ^ k = (if w < 2 ^ k then 0 else 1)"
    proof (cases "w < 2 ^ k")
      case False
      then have "w div 2 ^ k = (w - 2 ^ k) div 2 ^ k + 1" by (intro div_pos_geq) simp_all
      moreover have "(w - 2 ^ k) div 2 ^ k = 0"
        using False w(2) by (intro div_pos_pos_trivial) (simp_all add: k)
      ultimately show ?thesis using False by simp
    qed (use w0 in simp)
    then show ?thesis by (simp add: bit_iff_odd)
  qed
  show ?thesis
  proof (cases "w < 2 ^ k")
    case True
    then show ?thesis using sg w(1) b by (simp add: sync_value_def tk k)
  next
    case False
    have "unset_bit k w = w - 2 ^ k" using b False by (simp add: unset_bit_eq)
    then show ?thesis
      using sg w(1) b False ok by (simp add: sync_value_def tk k field_ok_def)
  qed
qed

subsection \<open>Extraction\<close>

lemma sync_value_frame [simp]:
  "nbits (sync_value f) = nbits f" "nbytes (sync_value f) = nbytes f" "fbytes (sync_value f) = fbytes f"
  "hidden (sync_value f) = hidden f" "VL (sync_value f) = VL f" "is_signed (sync_value f) = is_signed f"
  "arith (sync_value f) = arith f" "field_ok (sync_value f) = field_ok f"
  by (simp_all add: sync_value_def Let_def field_ok_def)

lemma field_extract_bits:
  assumes ok: "field_ok f" and w: "0 < nbits f" and off: "off < 8" "off + nbits f \<le> 8 * length data"
    and ns: "\<not> narrow_straddle off (nbits f)"
  shows "\<exists>f'. field_extract f data off = Some f' \<and> field_ok f' \<and> nbits f' = nbits f \<and>
    hidden f' = hidden f \<and>
    field_store (nbits f) (take (nbits f) (drop off (bits data))) (fbytes f') \<and>
    (arith f \<and> \<not> is_signed f \<longrightarrow> dval f' = int_of_bits (take (nbits f) (drop off (bits data))))"
proof -
  obtain bs where bs: "generic_extract data off (nbits f) = Some bs" "length bs = bytes_of_bits (nbits f)"
    "bits bs = padded (nbits f) (take (nbits f) (drop off (bits data)))"
    using generic_extract_bits [OF w off ns] by blast
  have st: "field_store (nbits f) (take (nbits f) (drop off (bits data))) bs"
    using bs(2,3) off(2) by (simp add: field_store_def)
  have l: "length bs = nbytes f" "length (fbytes f) = nbytes f" using ok bs(2) by (simp_all add: field_ok_def)
  let ?f = "f\<lparr>fbytes := bs\<rparr>"
  have "field_extract f data off = Some (if arith f then sync_value ?f else ?f)"
    using bs(1) l by (simp add: field_extract_def)
  moreover have "field_ok ?f" using ok l by (simp add: field_ok_def)
  moreover have "\<not> is_signed f \<Longrightarrow> dval (sync_value ?f) = int_of_bits (take (nbits f) (drop off (bits data)))"
    using field_store_value [OF st] l by (simp add: sync_value_def)
  ultimately show ?thesis using st by auto
qed

section \<open>Properties\<close>

text \<open>
  storing any integer in an unsigned field keeps it modulo \<open>2^nbits\<close>, leaves exactly these
  bits in the field's bytes, zero-padded, and keeps the field consistent.
\<close>

theorem field_set_unsigned:
  assumes ok: "field_ok f" and us: "\<not> is_signed f"
  shows "\<exists>f'. field_set f v = Some f' \<and> dval f' = v mod 2 ^ nbits f \<and>
    import_bytes (fbytes f') = v mod 2 ^ nbits f \<and> field_ok f' \<and> packed f' \<and> written_to f'"
proof -
  have x: "wrapped (f\<lparr>dval := v\<rparr>) = v mod 2 ^ nbits f"
    using and_field_mask [OF ok, of v] us by (simp add: wrapped_def)
  have "0 \<le> v mod 2 ^ nbits f" "v mod 2 ^ nbits f < 2 ^ nbits f" by simp_all
  from field_set_eq [OF ok x _ this] us show ?thesis
    using field_ok_stored [OF ok] by (simp add: packed_def)
qed

theorem field_set_unsigned_witness:
  "\<exists>f'. field_set (the (new_field 9 True False False False)) 1000 = Some f' \<and> dval f' = 1000 mod 2 ^ 9"
  using field_set_unsigned [of "the (new_field 9 True False False False)" 1000]
    new_field_ok [of 9 True False False False] by (auto simp: new_field_def)

text \<open>
  storing an integer in a signed field of \<open>n\<close> bits keeps the representative of the value
  modulo \<open>2^n\<close> in \<open>[-2^(n-1), 2^(n-1))\<close>, and the bytes written read back as that value;
  the values from \<open>2^(n-1)\<close> up to \<open>2^n - 1\<close> are left out.
\<close>

theorem field_set_signed:
  assumes ok: "field_ok f" and sg: "is_signed f" and v: "v < 2 ^ (nbits f - 1) \<or> 2 ^ nbits f \<le> v"
  shows "\<exists>f'. field_set f v = Some f' \<and> - (2 ^ (nbits f - 1)) \<le> dval f' \<and> dval f' < 2 ^ (nbits f - 1) \<and>
    dval f' mod 2 ^ nbits f = v mod 2 ^ nbits f \<and> dval (sync_value f') = dval f' \<and> field_ok f'"
proof -
  obtain H where H: "0 < H" "(2 :: int) ^ nbits f = 2 * H" "fmask f = 2 * H - 1" "fmax f = H - 1"
    "fmin f = - H" "2 ^ (nbits f - 1) = H"
    by (rule signed_bounds [OF ok sg])
  define m where "m = v mod (2 * H)"
  have m: "0 \<le> m" "m < 2 * H" using H(1) by (simp_all add: m_def)
  define x where "x = (if m < H then m else m - 2 * H)"
  have xm: "x mod (2 * H) = m" using m by (auto simp: x_def)
  have wr: "wrapped (f\<lparr>dval := v\<rparr>) = x"
  proof (cases "v < - H \<or> 2 * H - 1 < v")
    case True
    then show ?thesis
      using sg H and_field_mask [OF ok, of v] by (simp add: wrapped_def x_def m_def)
  next
    case False
    then have r: "- H \<le> v" "v < H" using v H by auto
    have "v mod (2 * H) = (if 0 \<le> v then v else v + 2 * H)"
    proof (cases "0 \<le> v")
      case False
      have "v mod (2 * H) = (v + 2 * H) mod (2 * H)" by simp
      also have "\<dots> = v + 2 * H" using r False by (intro mod_pos_pos_trivial) simp_all
      finally show ?thesis using False by simp
    qed (use r in simp)
    then have "x = v" using r H(1) by (auto simp: x_def m_def)
    then show ?thesis using sg H False by (simp add: wrapped_def)
  qed
  have w: "(if \<not> is_signed f \<or> 0 \<le> x then x else x - fmin f - fmin f) = m"
    using sg H m by (auto simp: x_def)
  have "m < 2 ^ nbits f" using m H(2) by simp
  note e = field_set_eq [OF ok wr w m(1) this]
  let ?f = "f\<lparr>dval := x, fbytes := be_bytes (nbytes f) m, written_to := True\<rparr>"
  have "dval (sync_value ?f) = x"
    using sync_signed [of ?f m] field_ok_stored [OF ok] sg e(2) m H by (simp add: x_def)
  moreover have "- H \<le> x" "x < H" using m by (auto simp: x_def)
  ultimately show ?thesis
    unfolding H(2,6) using e(1) field_ok_stored [OF ok] xm by (auto simp: m_def)
qed

theorem field_set_signed_witness:
  "\<exists>f'. field_set (the (new_field 8 True True False False)) (- 3) = Some f' \<and> dval f' < 2 ^ (8 - 1) \<and>
    dval (sync_value f') = dval f'"
  using field_set_signed [of "the (new_field 8 True True False False)" "- 3"]
    new_field_ok [of 8 True True False False] by (auto simp: new_field_def)

text \<open>
  the range left out is wrong in the code.  \<^verbatim>\<open>export_bytes\<close> compares with \<^verbatim>\<open>mask\<close> where
  \<^verbatim>\<open>max\<close> is meant: a value from \<open>2^(n-1)\<close> to \<open>2^n - 1\<close> stays positive in the signed field,
  although the bytes stored with it read back as the negative value \<open>v - 2^n\<close>.
\<close>

theorem signed_field_not_wrapped:
  assumes ok: "field_ok f" and sg: "is_signed f" and v: "2 ^ (nbits f - 1) \<le> v" "v < 2 ^ nbits f"
  shows "\<exists>f'. field_set f v = Some f' \<and> dval f' = v \<and> dval (sync_value f') = v - 2 ^ nbits f"
proof -
  obtain H where H: "0 < H" "(2 :: int) ^ nbits f = 2 * H" "fmask f = 2 * H - 1" "fmax f = H - 1"
    "fmin f = - H" "2 ^ (nbits f - 1) = H"
    by (rule signed_bounds [OF ok sg])
  have wr: "wrapped (f\<lparr>dval := v\<rparr>) = v" using sg H v by (simp add: wrapped_def)
  have v0: "0 \<le> v" using v H by simp
  have w: "(if \<not> is_signed f \<or> 0 \<le> v then v else v - fmin f - fmin f) = v" using v0 by simp
  note e = field_set_eq [OF ok wr w v0 v(2)]
  let ?f = "f\<lparr>dval := v, fbytes := be_bytes (nbytes f) v, written_to := True\<rparr>"
  have "dval (sync_value ?f) = v - 2 ^ nbits f"
    using sync_signed [of ?f v] field_ok_stored [OF ok] sg e(2) v H by simp
  then show ?thesis using e(1) by auto
qed

theorem signed_field_not_wrapped_witness:
  "\<exists>f'. field_set (the (new_field 8 True True False False)) 200 = Some f' \<and> dval f' = 200 \<and>
    dval (sync_value f') = 200 - 2 ^ 8"
  using signed_field_not_wrapped [of "the (new_field 8 True True False False)" 200]
    new_field_ok [of 8 True True False False] by (auto simp: new_field_def)

end
