(* ===== verification/Headers.thy ===== *)
theory Headers
  imports Packet_Fields
begin

text \<open>
  Header types and header instances: bm_sim/headers.h and headers.cpp.  What involves another
  object (marking a header valid notifies its union, a variable-length extraction evaluates
  an expression over all headers) is completed in the PHV theory: here the length of the
  variable-length field is an argument.
\<close>

section \<open>Header types\<close>

record finfo =
  fi_name :: string
  bitwidth :: nat
  fi_signed :: bool
  fi_VL :: bool
  fi_hidden :: bool

definition hidden_fields :: "finfo list" where
  "hidden_fields = [\<lparr>fi_name = ''$valid$'', bitwidth = 1, fi_signed = False, fi_VL = False,
     fi_hidden = True\<rparr>]"

record header_type =
  type_id :: nat
  fields_info :: "finfo list"
  VL_offset :: "nat option"
  VL_max_header_bytes :: nat
  VL_inputs :: "nat list option" \<comment> \<open>fields the length expression reads, if there is one\<close>

definition new_header_type :: "nat \<Rightarrow> header_type" where
  "new_header_type i = \<lparr>type_id = i, fields_info = hidden_fields, VL_offset = None,
     VL_max_header_bytes = 0, VL_inputs = None\<rparr>"

definition push_back_field :: "header_type \<Rightarrow> string \<Rightarrow> nat \<Rightarrow> bool \<Rightarrow> bool \<Rightarrow> nat \<times> header_type" where
  "push_back_field ht name width sg vl =
     (let offset = length (fields_info ht) - length hidden_fields in
      (offset, ht\<lparr>fields_info := take offset (fields_info ht) @
        [\<lparr>fi_name = name, bitwidth = width, fi_signed = sg, fi_VL = vl, fi_hidden = False\<rparr>] @
        drop offset (fields_info ht)\<rparr>))"

definition push_back_VL_field ::
  "header_type \<Rightarrow> string \<Rightarrow> nat \<Rightarrow> nat list option \<Rightarrow> bool \<Rightarrow> (nat \<times> header_type) option" where
  "push_back_VL_field ht name max_bytes inputs sg =
     (let (offset, ht1) = push_back_field ht name 0 sg True in
      if VL_offset ht1 \<noteq> None then None
      else Some (offset, ht1\<lparr>VL_offset := Some offset, VL_max_header_bytes := max_bytes,
        VL_inputs := inputs\<rparr>))"

definition is_VL_type :: "header_type \<Rightarrow> bool" where
  "is_VL_type ht \<longleftrightarrow> VL_offset ht \<noteq> None"

definition type_bit_width :: "header_type \<Rightarrow> nat" where
  "type_bit_width ht = sum_list (map bitwidth (fields_info ht))"

definition get_field_offset :: "header_type \<Rightarrow> string \<Rightarrow> int" where
  "get_field_offset ht name =
     (case find (\<lambda>i. fi_name (fields_info ht ! i) = name) [0..<length (fields_info ht)] of
        Some i \<Rightarrow> int i | None \<Rightarrow> -1)"

section \<open>Header instances\<close>

record header =
  htype :: header_type
  hfields :: "field list"
  valid_flag :: bool
  metadata :: bool
  nbytes_packet :: int
  union_membership :: "(nat \<times> nat) option"

fun build_fields :: "nat set \<Rightarrow> nat \<Rightarrow> finfo list \<Rightarrow> field list option" where
  "build_fields ar i [] = Some []"
| "build_fields ar i (fi # fis) = do {
     f \<leftarrow> new_field (bitwidth fi) (i \<in> ar) (fi_signed fi) (fi_hidden fi) (fi_VL fi);
     fs \<leftarrow> build_fields ar (i + 1) fis;
     Some (f # fs)
   }"

definition new_header :: "header_type \<Rightarrow> nat set \<Rightarrow> bool \<Rightarrow> header option" where
  "new_header ht arith_offsets md = do {
     fs \<leftarrow> build_fields arith_offsets 0 (fields_info ht);
     let n = sum_list (map nbits (filter (\<lambda>f. \<not> hidden f) fs));
     guard (n mod 8 = 0);
     Some \<lparr>htype = ht, hfields = fs, valid_flag = False, metadata = md, nbytes_packet = int (n div 8),
       union_membership = None\<rparr>
   }"

definition visible :: "field list \<Rightarrow> field list" where
  "visible fs = takeWhile (\<lambda>f. \<not> hidden f) fs"

definition recompute_nbytes_packet :: "header \<Rightarrow> header option" where
  "recompute_nbytes_packet h =
     (let n = sum_list (map nbits (visible (hfields h))) in
      do { guard (n mod 8 = 0); Some (h\<lparr>nbytes_packet := int (n div 8)\<rparr>) })"

definition is_valid :: "header \<Rightarrow> bool" where
  "is_valid h \<longleftrightarrow> metadata h \<or> valid_flag h"

text \<open>
  \<^verbatim>\<open>mark_valid\<close> and \<^verbatim>\<open>mark_invalid\<close> up to the notification of the union: the flag and the
  hidden field, which is the last one.
\<close>

definition set_validity :: "bool \<Rightarrow> header \<Rightarrow> header option" where
  "set_validity b h = do {
     guard (hfields h \<noteq> []);
     vf \<leftarrow> field_set (last (hfields h)) (if b then 1 else 0);
     Some (h\<lparr>valid_flag := b, hfields := butlast (hfields h) @ [vf]\<rparr>)
   }"

definition reset_header :: "header \<Rightarrow> header option" where
  "reset_header h = do {
     fs \<leftarrow> map_opt (\<lambda>f. field_set f 0) (hfields h);
     Some (h\<lparr>hfields := fs\<rparr>)
   }"

definition reset_VL_header :: "header \<Rightarrow> header option" where
  "reset_VL_header h = (case VL_offset (htype h) of
     None \<Rightarrow> Some h
   | Some o1 \<Rightarrow> do {
       f \<leftarrow> nth_opt (hfields h) o1;
       f' \<leftarrow> reset_VL f;
       Some (h\<lparr>nbytes_packet := nbytes_packet h - int (nbytes f), hfields := (hfields h)[o1 := f']\<rparr>)
     })"

definition set_header_written_to :: "bool \<Rightarrow> header \<Rightarrow> header" where
  "set_header_written_to b h = h\<lparr>hfields := map (\<lambda>f. f\<lparr>written_to := b\<rparr>) (hfields h)\<rparr>"

subsection \<open>Packet bytes to fields and back\<close>

text \<open>
  The loops of \<^verbatim>\<open>extract\<close>, \<^verbatim>\<open>extract_VL_common\<close> and \<^verbatim>\<open>deparse\<close>: \<open>data\<close> is the buffer from the
  current pointer on, the pointer moves by whole bytes.  In \<open>extract_fields\<close> the argument
  \<open>vl\<close> is the index of the variable-length field and its length in bits, if there is one.
\<close>

fun extract_fields :: "(nat \<times> int) option \<Rightarrow> nat \<Rightarrow> field list \<Rightarrow> u8 list \<Rightarrow> nat \<Rightarrow> field list option" where
  "extract_fields vl i [] data hdr_offset = Some []"
| "extract_fields vl i (f # fs) data hdr_offset =
     (if hidden f then Some (f # fs)
      else do {
        f' \<leftarrow> (case vl of
                 Some (j, n) \<Rightarrow> if i = j then field_extract_VL f data hdr_offset n
                                else field_extract f data hdr_offset
               | None \<Rightarrow> field_extract f data hdr_offset);
        let o1 = hdr_offset + nbits f';
        fs' \<leftarrow> extract_fields vl (i + 1) fs (drop (o1 div 8) data) (o1 mod 8);
        Some (f' # fs')
      })"

definition header_extract :: "header \<Rightarrow> u8 list \<Rightarrow> header option" where
  "header_extract h data = do {
     fs \<leftarrow> extract_fields None 0 (hfields h) data 0;
     set_validity True (h\<lparr>hfields := fs\<rparr>)
   }"

definition header_extract_VL :: "header \<Rightarrow> u8 list \<Rightarrow> int \<Rightarrow> header option" where
  "header_extract_VL h data VL_nbits = do {
     o1 \<leftarrow> VL_offset (htype h);
     fs \<leftarrow> extract_fields (Some (o1, VL_nbits)) 0 (hfields h) data 0;
     h1 \<leftarrow> recompute_nbytes_packet (h\<lparr>hfields := fs\<rparr>);
     set_validity True h1
   }"

fun deparse_fields :: "field list \<Rightarrow> u8 list \<Rightarrow> nat \<Rightarrow> u8 list option" where
  "deparse_fields [] data hdr_offset = Some data"
| "deparse_fields (f # fs) data hdr_offset =
     (if hidden f then Some data
      else do {
        d \<leftarrow> field_deparse f data hdr_offset;
        let o1 = hdr_offset + nbits f;
        r \<leftarrow> deparse_fields fs (drop (o1 div 8) d) (o1 mod 8);
        Some (take (o1 div 8) d @ r)
      })"

definition header_deparse :: "header \<Rightarrow> u8 list \<Rightarrow> u8 list option" where
  "header_deparse h data = deparse_fields (hfields h) data 0"

subsection \<open>Copying and comparing\<close>

fun swap_fields :: "field list \<Rightarrow> field list \<Rightarrow> (field list \<times> field list) option" where
  "swap_fields [] gs = Some ([], gs)"
| "swap_fields (f # fs) [] = None"
| "swap_fields (f # fs) (g # gs) = do {
     (f', g') \<leftarrow> swap_field f g;
     (fs', gs') \<leftarrow> swap_fields fs gs;
     Some (f' # fs', g' # gs')
   }"

definition swap_header :: "header \<Rightarrow> header \<Rightarrow> (header \<times> header) option" where
  "swap_header h1 h2 = do {
     (fs1, fs2) \<leftarrow> swap_fields (hfields h1) (hfields h2);
     Some (h1\<lparr>valid_flag := valid_flag h2, hfields := fs1, nbytes_packet := nbytes_packet h2\<rparr>,
           h2\<lparr>valid_flag := valid_flag h1, hfields := fs2, nbytes_packet := nbytes_packet h1\<rparr>)
   }"

fun copy_field_list :: "field list \<Rightarrow> field list \<Rightarrow> field list option" where
  "copy_field_list [] srcs = Some []"
| "copy_field_list (f # fs) [] = None"
| "copy_field_list (f # fs) (s # srcs) = do {
     fs' \<leftarrow> copy_field_list fs srcs;
     Some (copy_value f s # fs')
   }"

definition copy_fields :: "header \<Rightarrow> header \<Rightarrow> header option" where
  "copy_fields h src = do {
     fs \<leftarrow> copy_field_list (hfields h) (hfields src);
     Some (h\<lparr>hfields := fs, nbytes_packet := nbytes_packet src\<rparr>)
   }"

text \<open>\<^verbatim>\<open>fields == other.fields\<close>: sizes, then element by element up to the first difference.\<close>

fun fields_eq :: "field list \<Rightarrow> field list \<Rightarrow> bool option" where
  "fields_eq [] [] = Some True"
| "fields_eq (f # fs) (g # gs) = do { e \<leftarrow> d_eq f g; if e then fields_eq fs gs else Some False }"
| "fields_eq _ _ = Some False"

definition header_cmp :: "header \<Rightarrow> header \<Rightarrow> bool option" where
  "header_cmp h other =
     (if type_id (htype h) = type_id (htype other) \<and> is_valid h \<and> is_valid other
      then (if length (hfields h) = length (hfields other) then fields_eq (hfields h) (hfields other)
            else Some False)
      else Some False)"

section \<open>Extraction and deparsing of whole headers\<close>

definition width_of :: "field list \<Rightarrow> nat" where
  "width_of fs = sum_list (map nbits (visible fs))"

lemma width_of_simps [simp]:
  "width_of [] = 0" "width_of (f # fs) = (if hidden f then 0 else nbits f + width_of fs)"
  by (simp_all add: width_of_def visible_def)

text \<open>No visible field is empty or a narrow one across a byte boundary.\<close>

fun layout_ok :: "nat \<Rightarrow> field list \<Rightarrow> bool" where
  "layout_ok off [] = True"
| "layout_ok off (f # fs) =
     (hidden f \<or> (field_ok f \<and> 0 < nbits f \<and> \<not> narrow_straddle off (nbits f) \<and>
        layout_ok ((off + nbits f) mod 8) fs))"

text \<open>The visible fields hold the bits \<open>B\<close>, in order.\<close>

fun holds_bits :: "field list \<Rightarrow> bool list \<Rightarrow> bool" where
  "holds_bits [] B = (B = [])"
| "holds_bits (f # fs) B =
     (if hidden f then B = []
      else field_store (nbits f) (take (nbits f) B) (fbytes f) \<and> holds_bits fs (drop (nbits f) B))"

lemma extract_fields_bits:
  assumes "layout_ok off fs" "off < 8" "off + width_of fs \<le> 8 * length data"
  shows "\<exists>fs'. extract_fields None i fs data off = Some fs' \<and> length fs' = length fs \<and>
    map nbits fs' = map nbits fs \<and> map hidden fs' = map hidden fs \<and> layout_ok off fs' \<and>
    holds_bits fs' (take (width_of fs) (drop off (bits data)))"
  using assms
proof (induction fs arbitrary: i data off)
  case (Cons f fs)
  show ?case
  proof (cases "hidden f")
    case False
    define o1 where "o1 = off + nbits f"
    have ok: "field_ok f" "0 < nbits f" "\<not> narrow_straddle off (nbits f)" "layout_ok (o1 mod 8) fs"
      and len: "off + nbits f \<le> 8 * length data"
      using Cons.prems False by (simp_all add: o1_def)
    obtain f' where f': "field_extract f data off = Some f'" "field_ok f'" "nbits f' = nbits f"
      "hidden f' = hidden f" "field_store (nbits f) (take (nbits f) (drop off (bits data))) (fbytes f')"
      using field_extract_bits [OF ok(1,2) Cons.prems(2) len ok(3)] by blast
    have "o1 mod 8 + width_of fs \<le> 8 * length (drop (o1 div 8) data)"
    proof -
      have "8 * (o1 div 8) + o1 mod 8 = o1" by simp
      moreover have "o1 + width_of fs \<le> 8 * length data"
        using Cons.prems(3) False by (simp add: o1_def)
      ultimately show ?thesis by (simp only: length_drop diff_mult_distrib2)
    qed
    with Cons.IH [OF ok(4)] obtain fs' where fs':
      "extract_fields None (i + 1) fs (drop (o1 div 8) data) (o1 mod 8) = Some fs'"
      "length fs' = length fs" "map nbits fs' = map nbits fs" "map hidden fs' = map hidden fs"
      "layout_ok (o1 mod 8) fs'"
      "holds_bits fs' (take (width_of fs) (drop (o1 mod 8) (bits (drop (o1 div 8) data))))"
      by (metis mod_less_divisor zero_less_numeral)
    have "drop (o1 mod 8) (bits (drop (o1 div 8) data)) = drop (nbits f) (drop off (bits data))"
      by (simp add: drop_bits [symmetric] o1_def add.commute)
    then show ?thesis
      using False f' fs' ok by (auto simp: o1_def drop_take min_def)
  qed simp
qed simp

lemma deparse_fields_bits:
  assumes "holds_bits fs B" "\<forall>f \<in> set (visible fs). 0 < nbits f" "length B = width_of fs" "off < 8"
    "off + width_of fs \<le> 8 * length dst"
  shows "\<exists>d. deparse_fields fs dst off = Some d \<and> length d = length dst \<and>
    take (off + width_of fs) (bits d) = take off (bits dst) @ B"
  using assms
proof (induction fs arbitrary: B dst off)
  case (Cons f fs)
  show ?case
  proof (cases "hidden f")
    case True
    then show ?thesis using Cons.prems by simp
  next
    case False
    define o1 q r where "o1 = off + nbits f" and "q = o1 div 8" and "r = o1 mod 8"
    have qr: "8 * q + r = o1" "r < 8" by (simp_all add: q_def r_def)
    have pr: "field_store (nbits f) (take (nbits f) B) (fbytes f)" "holds_bits fs (drop (nbits f) B)"
      "0 < nbits f" "\<forall>f \<in> set (visible fs). 0 < nbits f" "length (drop (nbits f) B) = width_of fs"
      "off + nbits f \<le> 8 * length dst" "o1 + width_of fs \<le> 8 * length dst"
      using Cons.prems False by (simp_all add: visible_def o1_def)
    obtain d where d: "generic_deparse (fbytes f) (nbits f) dst off = Some d" "length d = length dst"
      "take o1 (bits d) = take off (bits dst) @ take (nbits f) B"
      using generic_deparse_bits [OF pr(1,3) Cons.prems(4) pr(6)] unfolding o1_def by blast
    have "r + width_of fs \<le> 8 * length (drop q d)"
      using pr(7) qr(1) d(2) by (simp add: diff_mult_distrib2)
    with Cons.IH [OF pr(2,4,5) qr(2)] obtain d' where d': "deparse_fields fs (drop q d) r = Some d'"
      "length d' = length (drop q d)"
      "take (r + width_of fs) (bits d') = take r (bits (drop q d)) @ drop (nbits f) B"
      by blast
    have ql: "q \<le> length d" using pr(7) qr(1) d(2) by simp
    have e: "off + width_of (f # fs) = 8 * q + (r + width_of fs)"
      using False qr(1) by (simp add: o1_def)
    have "take (off + width_of (f # fs)) (bits (take q d @ d')) =
        bits (take q d) @ take (r + width_of fs) (bits d')"
      unfolding e using ql by (simp add: min_def)
    also have "\<dots> = (take (8 * q) (bits d) @ take r (drop (8 * q) (bits d))) @ drop (nbits f) B"
      by (simp only: d'(3) take_bits drop_bits append.assoc)
    also have "\<dots> = take o1 (bits d) @ drop (nbits f) B"
      by (simp only: take_add [symmetric] qr(1))
    also have "\<dots> = take off (bits dst) @ B"
      by (simp only: d(3) append.assoc append_take_drop_id)
    finally show ?thesis
      using False d d' ql by (simp add: field_deparse_def o1_def [symmetric] q_def [symmetric] r_def [symmetric])
  qed
qed simp

text \<open>The shape every constructed header has: one hidden field, the last one.\<close>

definition header_shape :: "header \<Rightarrow> bool" where
  "header_shape h \<longleftrightarrow> (\<exists>vs vf. hfields h = vs @ [vf] \<and> (\<forall>f \<in> set vs. \<not> hidden f) \<and> hidden vf \<and>
     field_ok vf \<and> \<not> is_signed vf \<and> nbits vf = 1)"

definition valid_consistent :: "header \<Rightarrow> bool" where
  "valid_consistent h \<longleftrightarrow> hfields h \<noteq> [] \<and>
     dval (last (hfields h)) = (if valid_flag h then 1 else 0)"

lemma field_set_frame:
  "field_set f v = Some f' \<Longrightarrow> hidden f' = hidden f \<and> is_signed f' = is_signed f \<and> nbits f' = nbits f \<and>
     arith f' = arith f \<and> VL f' = VL f \<and> nbytes f' = nbytes f"
  unfolding field_set_def field_export_def Let_def bind_guard
  by (auto simp: bind_eq_Some_iff split: if_splits)

lemma set_validity_shape:
  assumes "header_shape h"
  shows "\<exists>h' vf'. set_validity b h = Some h' \<and> hfields h' = butlast (hfields h) @ [vf'] \<and> hidden vf' \<and>
    header_shape h' \<and> valid_consistent h' \<and> valid_flag h' = b \<and> htype h' = htype h \<and>
    metadata h' = metadata h \<and> union_membership h' = union_membership h \<and>
    nbytes_packet h' = nbytes_packet h"
proof -
  obtain vs vf where s: "hfields h = vs @ [vf]" "\<forall>f \<in> set vs. \<not> hidden f" "hidden vf" "field_ok vf"
    "\<not> is_signed vf" "nbits vf = 1"
    using assms by (auto simp: header_shape_def)
  obtain vf' where v: "field_set vf (if b then 1 else 0) = Some vf'"
    "dval vf' = (if b then 1 else 0)" "field_ok vf'"
    using field_set_unsigned [OF s(4,5), of "if b then 1 else 0"] s(6) by auto
  then show ?thesis
    using s field_set_frame [OF v(1)] by (auto simp: set_validity_def header_shape_def valid_consistent_def)
qed

lemma visible_snoc_hidden:
  assumes "\<forall>f \<in> set vs. \<not> hidden f" "hidden v"
  shows "visible (vs @ [v]) = vs"
  using assms by (simp add: visible_def)

lemma hidden_tail_irrelevant:
  assumes "hidden v" "hidden v'"
  shows "holds_bits (vs @ [v]) B = holds_bits (vs @ [v']) B" "width_of (vs @ [v]) = width_of (vs @ [v'])"
  using assms by (induction vs arbitrary: B) auto

lemma extract_keeps_hidden:
  "extract_fields vl i (vs @ [v]) data off = Some fs' \<Longrightarrow> \<forall>f \<in> set vs. \<not> hidden f \<Longrightarrow> hidden v \<Longrightarrow>
   \<exists>vs'. fs' = vs' @ [v] \<and> length vs' = length vs"
proof (induction vs arbitrary: i data off fs')
  case (Cons f vs)
  then obtain f' fs'' i' d' o' where "fs' = f' # fs''" "extract_fields vl i' (vs @ [v]) d' o' = Some fs''"
    by (auto simp: bind_eq_Some_iff Let_def)
  with Cons show ?case by (metis append_Cons length_Cons list.set_intros(2))
qed simp

lemma layout_ok_pos:
  "layout_ok off (vs @ ws) \<Longrightarrow> \<forall>f \<in> set vs. \<not> hidden f \<Longrightarrow> \<forall>f \<in> set vs. 0 < nbits f"
  by (induction vs arbitrary: off) auto

subsection \<open>What the constructors build\<close>

fun build_type :: "(string \<times> nat \<times> bool) list \<Rightarrow> header_type \<Rightarrow> header_type" where
  "build_type [] ht = ht"
| "build_type ((name, w, sg) # specs) ht = build_type specs (snd (push_back_field ht name w sg False))"

lemma push_back_field_info:
  "fields_info ht = vis @ hidden_fields \<Longrightarrow>
   fields_info (snd (push_back_field ht name w sg vl)) =
     (vis @ [\<lparr>fi_name = name, bitwidth = w, fi_signed = sg, fi_VL = vl, fi_hidden = False\<rparr>]) @ hidden_fields
   \<and> fst (push_back_field ht name w sg vl) = length vis"
  by (simp add: push_back_field_def hidden_fields_def Let_def)

lemma build_type_info:
  "fields_info ht = vis @ hidden_fields \<Longrightarrow> \<forall>fi \<in> set vis. \<not> fi_hidden fi \<Longrightarrow>
   \<exists>vis'. fields_info (build_type specs ht) = vis' @ hidden_fields \<and> (\<forall>fi \<in> set vis'. \<not> fi_hidden fi) \<and>
     map bitwidth vis' = map bitwidth vis @ map (fst \<circ> snd) specs"
proof (induction specs ht arbitrary: vis rule: build_type.induct)
  case (2 name w sg specs ht)
  let ?fi = "\<lparr>fi_name = name, bitwidth = w, fi_signed = sg, fi_VL = False, fi_hidden = False\<rparr>"
  have "\<forall>fi \<in> set (vis @ [?fi]). \<not> fi_hidden fi" using 2(3) by auto
  from "2.IH" [OF conjunct1 [OF push_back_field_info [OF 2(2)]] this] show ?case by auto
qed simp

lemma new_field_frame:
  "new_field n a s hdn vl = Some f \<Longrightarrow> hidden f = hdn \<and> nbits f = n \<and> is_signed f = s \<and> dval f = 0 \<and> arith f = a"
  by (auto simp: new_field_def split: if_splits)

lemma build_fields_append:
  "build_fields ar i (xs @ ys) =
     do { fs \<leftarrow> build_fields ar i xs; gs \<leftarrow> build_fields ar (i + length xs) ys; Some (fs @ gs) }"
proof (induction xs arbitrary: i)
  case Nil
  show ?case by (cases "build_fields ar i ys") simp_all
next
  case (Cons x xs)
  then show ?case
    by (cases "new_field (bitwidth x) (i \<in> ar) (fi_signed x) (fi_hidden x) (fi_VL x)";
        cases "build_fields ar (Suc i) xs"; cases "build_fields ar (Suc (i + length xs)) ys") simp_all
qed

lemma build_fields_visible:
  "build_fields ar i xs = Some fs \<Longrightarrow> \<forall>fi \<in> set xs. \<not> fi_hidden fi \<Longrightarrow>
   (\<forall>f \<in> set fs. \<not> hidden f \<and> field_ok f) \<and> map nbits fs = map bitwidth xs"
proof (induction xs arbitrary: i fs)
  case (Cons x xs)
  then show ?case by (fastforce simp: bind_eq_Some_iff dest: new_field_frame new_field_ok)
qed simp

lemma new_header_facts:
  assumes "new_header (build_type specs (new_header_type i)) ar md = Some h"
  shows "header_shape h \<and> valid_consistent h \<and> \<not> valid_flag h \<and> (\<forall>f \<in> set (hfields h). field_ok f) \<and>
    map nbits (butlast (hfields h)) = map (fst \<circ> snd) specs \<and>
    8 * nbytes_packet h = int (sum_list (map (fst \<circ> snd) specs))"
proof -
  define ht where "ht = build_type specs (new_header_type i)"
  obtain vis where vis: "fields_info ht = vis @ hidden_fields" "\<forall>fi \<in> set vis. \<not> fi_hidden fi"
    "map bitwidth vis = map (fst \<circ> snd) specs"
    using build_type_info [of "new_header_type i" "[]" specs]
    by (auto simp: new_header_type_def ht_def)
  obtain fs where fs: "build_fields ar 0 (vis @ hidden_fields) = Some fs"
    "sum_list (map nbits (filter (\<lambda>f. \<not> hidden f) fs)) mod 8 = 0"
    "h = \<lparr>htype = ht, hfields = fs, valid_flag = False, metadata = md,
      nbytes_packet = int (sum_list (map nbits (filter (\<lambda>f. \<not> hidden f) fs)) div 8), union_membership = None\<rparr>"
    using assms vis(1) by (auto simp: new_header_def ht_def [symmetric] bind_eq_Some_iff Let_def split: if_splits)
  obtain us where us: "build_fields ar 0 vis = Some us"
    and gs: "\<exists>gs. build_fields ar (length vis) hidden_fields = Some gs \<and> fs = us @ gs"
    using fs(1) by (auto simp: build_fields_append bind_eq_Some_iff)
  then obtain v where v: "fs = us @ [v]" "hidden v" "nbits v = 1" "\<not> is_signed v" "dval v = 0" "field_ok v"
    by (auto simp: hidden_fields_def new_field_def field_ok_def bytes_of_bits_def)
  note bv = build_fields_visible [OF us vis(2)]
  have "filter (\<lambda>f. \<not> hidden f) fs = us" using bv v(1,2) by simp
  moreover have "map nbits us = map (fst \<circ> snd) specs" using bv vis(3) by simp
  ultimately have n: "sum_list (map (fst \<circ> snd) specs) mod 8 = 0"
    "nbytes_packet h = int (sum_list (map (fst \<circ> snd) specs) div 8)"
    using fs(2,3) by simp_all
  then have "8 * nbytes_packet h = int (sum_list (map (fst \<circ> snd) specs))" by auto
  then show ?thesis
    using fs(3) v bv vis(3) by (auto simp: header_shape_def valid_consistent_def)
qed

lemma new_header_shape:
  "new_header (build_type specs (new_header_type i)) ar md = Some h \<Longrightarrow> header_shape h \<and> \<not> valid_flag h"
  using new_header_facts by blast

lemma extract_then_deparse:
  assumes "header_shape h" "layout_ok 0 (hfields h)" "width_of (hfields h) = 8 * n" "n \<le> length data"
  shows "\<exists>h'. header_extract h data = Some h' \<and> is_valid h' \<and> valid_consistent h' \<and> htype h' = htype h \<and>
    metadata h' = metadata h \<and> union_membership h' = union_membership h \<and> nbytes_packet h' = nbytes_packet h \<and>
    width_of (hfields h') = 8 * n \<and>
    (\<forall>dst. n \<le> length dst \<longrightarrow> (\<exists>d. header_deparse h' dst = Some d \<and> length d = length dst \<and> take n d = take n data))"
proof -
  obtain fs' where f: "extract_fields None 0 (hfields h) data 0 = Some fs'"
    "map nbits fs' = map nbits (hfields h)" "map hidden fs' = map hidden (hfields h)" "layout_ok 0 fs'"
    "holds_bits fs' (take (8 * n) (bits data))"
    using extract_fields_bits [OF assms(2), of data 0] assms(3,4) by auto
  obtain vs v where s: "hfields h = vs @ [v]" "\<forall>f \<in> set vs. \<not> hidden f" "hidden v" "field_ok v"
    "\<not> is_signed v" "nbits v = 1"
    using assms(1) by (auto simp: header_shape_def)
  obtain vs' where vs': "fs' = vs' @ [v]" "length vs' = length vs"
    using extract_keeps_hidden [OF _ s(2,3), of None 0 data 0 fs'] f(1) s(1) by auto
  have nh: "\<forall>f \<in> set vs'. \<not> hidden f"
  proof -
    have "map hidden vs' = map hidden vs" using f(3) s(1) vs' by simp
    then have "hidden ` set vs' = hidden ` set vs" by (metis list.set_map)
    then show ?thesis using s(2) by auto
  qed
  have "header_shape (h\<lparr>hfields := fs'\<rparr>)" using s vs' nh by (auto simp: header_shape_def)
  from set_validity_shape [OF this, of True] obtain h' vf' where h':
    "set_validity True (h\<lparr>hfields := fs'\<rparr>) = Some h'" "hfields h' = vs' @ [vf']" "hidden vf'"
    "valid_consistent h'" "valid_flag h'" "htype h' = htype h" "metadata h' = metadata h"
    "union_membership h' = union_membership h" "nbytes_packet h' = nbytes_packet h"
    using vs' by auto
  have B: "holds_bits (hfields h') (take (8 * n) (bits data))"
    using f(5) hidden_tail_irrelevant(1) [OF s(3) h'(3)] vs' h'(2) by simp
  have W: "width_of (hfields h') = 8 * n"
  proof -
    have "map nbits vs' = map nbits vs" using f(2) s(1) vs' by simp
    then have "width_of fs' = width_of (hfields h)"
      using s vs' nh by (simp add: width_of_def visible_snoc_hidden)
    then show ?thesis
      using hidden_tail_irrelevant(2) [OF h'(3) s(3), of vs'] vs' h'(2) assms(3) by simp
  qed
  have pos: "\<forall>f \<in> set (visible (hfields h')). 0 < nbits f"
    using layout_ok_pos [OF _ nh] f(4) vs'(1) nh h'(2,3) by (simp add: visible_snoc_hidden)
  have "\<exists>d. header_deparse h' dst = Some d \<and> length d = length dst \<and> take n d = take n data" if l: "n \<le> length dst" for dst
  proof -
    obtain d where d: "deparse_fields (hfields h') dst 0 = Some d" "length d = length dst"
      "take (8 * n) (bits d) = take (8 * n) (bits data)"
      using deparse_fields_bits [OF B pos, of 0 dst] W l assms(4) by auto
    have "bits (take n d) = bits (take n data)" using d(3) by (simp add: take_bits)
    then have "take n d = take n data" using d(2) l assms(4) by (intro bits_inject [THEN iffD1]) simp_all
    then show ?thesis using d(1,2) by (simp add: header_deparse_def)
  qed
  moreover have "header_extract h data = Some h'" using f(1) h'(1) by (simp add: header_extract_def)
  ultimately show ?thesis using h' W by (auto simp: is_valid_def)
qed

section \<open>Properties\<close>

text \<open>
  C36: Parsing a header and deparsing it again reproduces the packet.  A header whose visible fields have fixed widths, none of
  them empty and none of less than a byte across two bytes, and make up \<open>n\<close> whole bytes is extracted from any packet of at least
  \<open>n\<close> bytes, becomes valid, and deparses into any \<open>n\<close>-byte buffer as exactly the first \<open>n\<close> bytes of the packet.
\<close>

theorem header_roundtrip:
  assumes "header_shape h" "layout_ok 0 (hfields h)" "width_of (hfields h) = 8 * n" "n \<le> length data"
  shows "\<exists>h'. header_extract h data = Some h' \<and> is_valid h' \<and> valid_consistent h' \<and>
    (\<forall>dst. length dst = n \<longrightarrow> header_deparse h' dst = Some (take n data))"
proof -
  from extract_then_deparse [OF assms] obtain h' where h': "header_extract h data = Some h'" "is_valid h'" "valid_consistent h'"
    "\<And>dst. n \<le> length dst \<Longrightarrow> \<exists>d. header_deparse h' dst = Some d \<and> length d = length dst \<and> take n d = take n data"
    by blast
  have "header_deparse h' dst = Some (take n data)" if l: "length dst = n" for dst
    using h'(4) [of dst] l by auto
  with h'(1-3) show ?thesis by blast
qed

text \<open>A header type of three fields: 4, 4 and 8 bits.\<close>

definition sample_type :: header_type where
  "sample_type = build_type [(''version'', 4, False), (''ihl'', 4, False), (''tos'', 8, False)]
     (new_header_type 0)"

theorem header_roundtrip_witness:
  "\<exists>h'. header_extract (the (new_header sample_type {0, 1, 2, 3} False)) [0x45, 0x07, 0xFF] = Some h' \<and>
     header_deparse h' [0, 0] = Some [0x45, 0x07]"
proof -
  let ?h = "the (new_header sample_type {0, 1, 2, 3} False)"
  have "header_shape ?h"
    by (simp add: header_shape_def sample_type_def new_header_def new_header_type_def push_back_field_def
        hidden_fields_def new_field_def Let_def bytes_of_bits_def field_ok_def)
  moreover have "layout_ok 0 (hfields ?h)" "width_of (hfields ?h) = 8 * 2"
    by (simp_all add: sample_type_def new_header_def new_header_type_def push_back_field_def
        hidden_fields_def new_field_def Let_def bytes_of_bits_def field_ok_def narrow_straddle_def)
  ultimately show ?thesis
    using header_roundtrip [of ?h 2 "[0x45, 0x07, 0xFF]"] by force
qed

text \<open>
  whatever fields a header type is given, a header of that type is built with its fields in
  order and the hidden validity field last, invalid, every field consistent, and with the byte
  length of its fields.
\<close>

theorem new_header_wellformed:
  assumes "new_header (build_type specs (new_header_type i)) ar md = Some h"
  shows "header_shape h \<and> valid_consistent h \<and> \<not> valid_flag h \<and> (\<forall>f \<in> set (hfields h). field_ok f) \<and>
    map nbits (butlast (hfields h)) = map (fst \<circ> snd) specs \<and>
    8 * nbytes_packet h = int (sum_list (map (fst \<circ> snd) specs))"
  by (rule new_header_facts [OF assms])

theorem new_header_wellformed_witness:
  "header_shape (the (new_header (build_type [(''version'', 4, False), (''ihl'', 4, False)]
     (new_header_type 0)) {0, 1, 2} False))"
  using new_header_wellformed [of "[(''version'', 4, False), (''ihl'', 4, False)]" 0 "{0, 1, 2}" False]
  by (simp add: new_header_def new_header_type_def push_back_field_def
        hidden_fields_def new_field_def Let_def bytes_of_bits_def)

end
