(* ===== verification/Phv_Store.thy ===== *)
theory Phv_Store
  imports Headers
begin

text \<open>
  The packet header vector: phv.h and phv.cpp, with the header stacks of stacks.cpp and the
  header unions of header_unions.h.  Stacks and unions hold references to headers, so they
  are lists of header numbers and every operation works on the vector they point into.  The
  maps from names to headers and fields are left out: the core code works with the numbers.
\<close>

lemma concat_apart:
  assumes "distinct (concat L)" "a < length L" "b < length L" "a \<noteq> b"
  shows "set (L ! a) \<inter> set (L ! b) = {}"
  using assms
proof (induction L arbitrary: a b)
  case (Cons x L)
  have *: "set x \<inter> set (L ! i) = {}" if "i < length L" for i
    using Cons.prems(1) that by (auto dest: nth_mem)
  show ?case
    using Cons * by (cases a; cases b) auto
qed simp

section \<open>State\<close>

record hstack =
  elements :: "nat list"
  snext :: nat

record hunion =
  u_headers :: "nat list"
  u_valid :: bool
  u_idx :: nat

record phv =
  headers :: "header list"
  header_stacks :: "hstack list"
  header_unions :: "hunion list"
  header_union_stacks :: "hstack list"

definition empty_phv :: phv where
  "empty_phv = \<lparr>headers = [], header_stacks = [], header_unions = [], header_union_stacks = []\<rparr>"

definition put_header :: "nat \<Rightarrow> header \<Rightarrow> phv \<Rightarrow> phv" where
  "put_header i h p = p\<lparr>headers := (headers p)[i := h]\<rparr>"

definition put_union :: "nat \<Rightarrow> hunion \<Rightarrow> phv \<Rightarrow> phv" where
  "put_union i u p = p\<lparr>header_unions := (header_unions p)[i := u]\<rparr>"

definition phv_get_field :: "phv \<Rightarrow> nat \<Rightarrow> nat \<Rightarrow> field option" where
  "phv_get_field p i off = do { h \<leftarrow> nth_opt (headers p) i; nth_opt (hfields h) off }"

section \<open>Validity of headers and unions\<close>

definition make_header_invalid :: "nat \<Rightarrow> nat \<Rightarrow> phv \<Rightarrow> phv option" where
  "make_header_invalid u idx p = do {
     un \<leftarrow> nth_opt (header_unions p) u;
     Some (if u_valid un \<and> u_idx un = idx then put_union u (un\<lparr>u_valid := False\<rparr>) p else p)
   }"

definition mark_invalid :: "nat \<Rightarrow> phv \<Rightarrow> phv option" where
  "mark_invalid i p = do {
     h \<leftarrow> nth_opt (headers p) i;
     h' \<leftarrow> set_validity False h;
     let p1 = put_header i h' p;
     (case union_membership h of
        None \<Rightarrow> Some p1
      | Some (u, idx) \<Rightarrow> make_header_invalid u idx p1)
   }"

definition make_header_valid :: "nat \<Rightarrow> nat \<Rightarrow> phv \<Rightarrow> phv option" where
  "make_header_valid u new_idx p = do {
     un \<leftarrow> nth_opt (header_unions p) u;
     p1 \<leftarrow> (if u_valid un \<and> u_idx un \<noteq> new_idx
            then do { i \<leftarrow> nth_opt (u_headers un) (u_idx un); mark_invalid i p }
            else Some p);
     un1 \<leftarrow> nth_opt (header_unions p1) u;
     Some (put_union u (un1\<lparr>u_idx := new_idx, u_valid := True\<rparr>) p1)
   }"

definition mark_valid :: "nat \<Rightarrow> phv \<Rightarrow> phv option" where
  "mark_valid i p = do {
     h \<leftarrow> nth_opt (headers p) i;
     h' \<leftarrow> set_validity True h;
     let p1 = put_header i h' p;
     (case union_membership h of
        None \<Rightarrow> Some p1
      | Some (u, idx) \<Rightarrow> make_header_valid u idx p1)
   }"

section \<open>Exchanging contents\<close>

definition swap_headers :: "nat \<Rightarrow> nat \<Rightarrow> phv \<Rightarrow> phv option" where
  "swap_headers i j p = do {
     h1 \<leftarrow> nth_opt (headers p) i;
     h2 \<leftarrow> nth_opt (headers p) j;
     (h1', h2') \<leftarrow> swap_header h1 h2;
     Some (put_header j h2' (put_header i h1' p))
   }"

definition swap_unions :: "nat \<Rightarrow> nat \<Rightarrow> phv \<Rightarrow> phv option" where
  "swap_unions a b p = do {
     ua \<leftarrow> nth_opt (header_unions p) a;
     ub \<leftarrow> nth_opt (header_unions p) b;
     guard (length (u_headers ua) = length (u_headers ub));
     let p1 = put_union b (ub\<lparr>u_valid := u_valid ua, u_idx := u_idx ua\<rparr>)
               (put_union a (ua\<lparr>u_valid := u_valid ub, u_idx := u_idx ub\<rparr>) p);
     fold_opt (\<lambda>(i, j). swap_headers i j) (zip (u_headers ua) (u_headers ub)) p1
   }"

text \<open>\<^verbatim>\<open>HeaderUnion::mark_valid\<close> and \<^verbatim>\<open>mark_invalid\<close> do nothing.\<close>

definition union_mark :: "nat \<Rightarrow> phv \<Rightarrow> phv option" where
  "union_mark u p = Some p"

definition union_cmp :: "phv \<Rightarrow> hunion \<Rightarrow> hunion \<Rightarrow> bool option" where
  "union_cmp p u v =
     (if u_valid u \<and> u_valid v \<and> u_idx u = u_idx v then do {
        i \<leftarrow> nth_opt (u_headers u) (u_idx u); j \<leftarrow> nth_opt (u_headers v) (u_idx u);
        h1 \<leftarrow> nth_opt (headers p) i; h2 \<leftarrow> nth_opt (headers p) j;
        header_cmp h1 h2
      }
      else Some False)"

definition get_valid_header :: "hunion \<Rightarrow> nat option option" where
  "get_valid_header u = (if u_valid u then map_option Some (nth_opt (u_headers u) (u_idx u)) else Some None)"

section \<open>Stacks\<close>

text \<open>
  \<^verbatim>\<open>Stack<T>\<close> for any element type: \<open>sw\<close> is \<open>swap_values\<close>, \<open>mv\<close> and \<open>mi\<close> are \<open>mark_valid\<close> and
  \<open>mark_invalid\<close> of the element with the given number.
\<close>

definition swap_at :: "(nat \<Rightarrow> nat \<Rightarrow> 's \<Rightarrow> 's option) \<Rightarrow> hstack \<Rightarrow> nat \<Rightarrow> nat \<Rightarrow> 's \<Rightarrow> 's option" where
  "swap_at sw st i j s = do { a \<leftarrow> nth_opt (elements st) i; b \<leftarrow> nth_opt (elements st) j; sw a b s }"

definition on_element :: "(nat \<Rightarrow> 's \<Rightarrow> 's option) \<Rightarrow> hstack \<Rightarrow> nat \<Rightarrow> 's \<Rightarrow> 's option" where
  "on_element g st i s = do { a \<leftarrow> nth_opt (elements st) i; g a s }"

definition pop_front ::
  "(nat \<Rightarrow> nat \<Rightarrow> 's \<Rightarrow> 's option) \<Rightarrow> (nat \<Rightarrow> 's \<Rightarrow> 's option) \<Rightarrow> hstack \<Rightarrow> 's \<Rightarrow> (nat \<times> hstack \<times> 's) option" where
  "pop_front sw mi st s =
     (if snext st = 0 then Some (0, st, s)
      else let n = snext st - 1 in do {
        s1 \<leftarrow> fold_opt (\<lambda>i. swap_at sw st i (i + 1)) [0..<n] s;
        s2 \<leftarrow> on_element mi st n s1;
        Some (1, st\<lparr>snext := n\<rparr>, s2)
      })"

definition pop_front_n ::
  "(nat \<Rightarrow> nat \<Rightarrow> 's \<Rightarrow> 's option) \<Rightarrow> (nat \<Rightarrow> 's \<Rightarrow> 's option) \<Rightarrow> nat \<Rightarrow> hstack \<Rightarrow> 's \<Rightarrow>
   (nat \<times> hstack \<times> 's) option" where
  "pop_front_n sw mi num st s =
     (if num = 0 then Some (0, st, s)
      else let popped = min (snext st) num; n = snext st - popped in do {
        s1 \<leftarrow> fold_opt (\<lambda>i. swap_at sw st i (i + num)) [0..<n] s;
        s2 \<leftarrow> fold_opt (on_element mi st) [n..<n + popped] s1;
        Some (popped, st\<lparr>snext := n\<rparr>, s2)
      })"

text \<open>
  In the two \<open>push_front\<close>s the loop counter starts at \<open>next - 1\<close>: on a stack without elements
  it wraps around and the first access is out of range.
\<close>

definition push_front ::
  "(nat \<Rightarrow> nat \<Rightarrow> 's \<Rightarrow> 's option) \<Rightarrow> (nat \<Rightarrow> 's \<Rightarrow> 's option) \<Rightarrow> hstack \<Rightarrow> 's \<Rightarrow> (nat \<times> hstack \<times> 's) option" where
  "push_front sw mv st s =
     (let n = (if snext st < length (elements st) then snext st + 1 else snext st) in do {
        guard (0 < n);
        s1 \<leftarrow> fold_opt (\<lambda>i. swap_at sw st i (i - 1)) (rev [1..<n]) s;
        s2 \<leftarrow> on_element mv st 0 s1;
        Some (1, st\<lparr>snext := n\<rparr>, s2)
      })"

definition push_front_n ::
  "(nat \<Rightarrow> nat \<Rightarrow> 's \<Rightarrow> 's option) \<Rightarrow> (nat \<Rightarrow> 's \<Rightarrow> 's option) \<Rightarrow> nat \<Rightarrow> hstack \<Rightarrow> 's \<Rightarrow>
   (nat \<times> hstack \<times> 's) option" where
  "push_front_n sw mv num st s =
     (if num = 0 then Some (0, st, s)
      else let n = min (length (elements st)) (snext st + num);
               pushed = min (length (elements st)) num in do {
        guard (0 < n);
        s1 \<leftarrow> fold_opt (\<lambda>i. swap_at sw st i (i - num)) (rev [num..<n]) s;
        s2 \<leftarrow> fold_opt (on_element mv st) [0..<pushed] s1;
        Some (pushed, st\<lparr>snext := n\<rparr>, s2)
      })"

definition pop_back :: "(nat \<Rightarrow> 's \<Rightarrow> 's option) \<Rightarrow> hstack \<Rightarrow> 's \<Rightarrow> (nat \<times> hstack \<times> 's) option" where
  "pop_back mi st s =
     (if snext st = 0 then Some (0, st, s)
      else do { s' \<leftarrow> on_element mi st (snext st - 1) s; Some (1, st\<lparr>snext := snext st - 1\<rparr>, s') })"

definition push_back :: "(nat \<Rightarrow> 's \<Rightarrow> 's option) \<Rightarrow> hstack \<Rightarrow> 's \<Rightarrow> (nat \<times> hstack \<times> 's) option" where
  "push_back mv st s =
     (if snext st = length (elements st) then Some (0, st, s)
      else do { s' \<leftarrow> on_element mv st (snext st) s; Some (1, st\<lparr>snext := snext st + 1\<rparr>, s') })"

definition get_depth :: "hstack \<Rightarrow> nat" where
  "get_depth st = length (elements st)"

definition get_count :: "hstack \<Rightarrow> nat" where
  "get_count st = snext st"

definition is_full :: "hstack \<Rightarrow> bool" where
  "is_full st \<longleftrightarrow> length (elements st) \<le> snext st"

definition stack_reset :: "hstack \<Rightarrow> hstack" where
  "stack_reset st = st\<lparr>snext := 0\<rparr>"

definition get_last :: "hstack \<Rightarrow> nat option" where
  "get_last st = do { guard (0 < snext st); nth_opt (elements st) (snext st - 1) }"

definition get_next :: "hstack \<Rightarrow> nat option" where
  "get_next st = do { guard (snext st < length (elements st)); nth_opt (elements st) (snext st) }"

definition stack_at :: "hstack \<Rightarrow> nat \<Rightarrow> nat option" where
  "stack_at st idx = nth_opt (elements st) idx"

definition set_next_element :: "nat \<Rightarrow> hstack \<Rightarrow> hstack" where
  "set_next_element e st = st\<lparr>elements := elements st @ [e]\<rparr>"

section \<open>The whole vector\<close>

definition each_header :: "(nat \<Rightarrow> phv \<Rightarrow> phv option) \<Rightarrow> phv \<Rightarrow> phv option" where
  "each_header g p = fold_opt g [0..<length (headers p)] p"

definition update_header :: "(header \<Rightarrow> header option) \<Rightarrow> nat \<Rightarrow> phv \<Rightarrow> phv option" where
  "update_header g i p = do {
     h \<leftarrow> nth_opt (headers p) i; h' \<leftarrow> g h; Some (put_header i h' p) }"

definition phv_reset :: "phv \<Rightarrow> phv option" where
  "phv_reset = each_header (\<lambda>i p. do { p1 \<leftarrow> mark_invalid i p; update_header reset_VL_header i p1 })"

definition reset_header_stacks :: "phv \<Rightarrow> phv" where
  "reset_header_stacks p = p\<lparr>header_stacks := map stack_reset (header_stacks p),
     header_union_stacks := map stack_reset (header_union_stacks p)\<rparr>"

definition reset_metadata :: "phv \<Rightarrow> phv option" where
  "reset_metadata = each_header (update_header (\<lambda>h. if metadata h then reset_header h else Some h))"

definition reset_headers :: "phv \<Rightarrow> phv option" where
  "reset_headers = each_header (update_header reset_header)"

definition phv_set_written_to :: "bool \<Rightarrow> phv \<Rightarrow> phv" where
  "phv_set_written_to b p = p\<lparr>headers := map (set_header_written_to b) (headers p)\<rparr>"

definition copy_headers :: "phv \<Rightarrow> phv \<Rightarrow> phv option" where
  "copy_headers src = each_header (\<lambda>i p. do {
     s \<leftarrow> nth_opt (headers src) i;
     update_header (\<lambda>h.
       let h1 = h\<lparr>valid_flag := valid_flag s, metadata := metadata s\<rparr> in
       if valid_flag h1 \<or> metadata h1 then copy_fields h1 s else Some h1) i p
   })"

text \<open>Construction, in the order the factory calls it; the asserts check the numbering.\<close>

definition push_back_header :: "nat \<Rightarrow> header_type \<Rightarrow> nat set \<Rightarrow> bool \<Rightarrow> phv \<Rightarrow> phv option" where
  "push_back_header i ht ar md p = do {
     guard (i = length (headers p));
     h \<leftarrow> new_header ht ar md;
     fs \<leftarrow> (case (VL_offset ht, VL_inputs ht) of
              (Some _, Some offs) \<Rightarrow> fold_opt (\<lambda>o1 fs. do {
                f \<leftarrow> nth_opt fs o1; Some (fs[o1 := f\<lparr>arith := True\<rparr>]) }) offs (hfields h)
            | _ \<Rightarrow> Some (hfields h));
     Some (p\<lparr>headers := headers p @ [h\<lparr>hfields := fs\<rparr>]\<rparr>)
   }"

definition push_back_header_stack :: "nat \<Rightarrow> nat list \<Rightarrow> phv \<Rightarrow> phv option" where
  "push_back_header_stack i ids p = do {
     guard (i = length (header_stacks p));
     guard (\<forall>x \<in> set ids. x < length (headers p));
     Some (p\<lparr>header_stacks := header_stacks p @ [\<lparr>elements = ids, snext = 0\<rparr>]\<rparr>)
   }"

definition push_back_header_union :: "nat \<Rightarrow> nat list \<Rightarrow> phv \<Rightarrow> phv option" where
  "push_back_header_union i ids p = do {
     guard (i = length (header_unions p));
     let p1 = p\<lparr>header_unions := header_unions p @ [\<lparr>u_headers = ids, u_valid = False, u_idx = 0\<rparr>]\<rparr>;
     fold_opt (\<lambda>(idx, x). update_header (\<lambda>h. Some (h\<lparr>union_membership := Some (i, idx)\<rparr>)) x)
       (enumerate 0 ids) p1
   }"

definition push_back_header_union_stack :: "nat \<Rightarrow> nat list \<Rightarrow> phv \<Rightarrow> phv option" where
  "push_back_header_union_stack i ids p = do {
     guard (i = length (header_union_stacks p));
     guard (\<forall>x \<in> set ids. x < length (header_unions p));
     Some (p\<lparr>header_union_stacks := header_union_stacks p @ [\<lparr>elements = ids, snext = 0\<rparr>]\<rparr>)
   }"

section \<open>The stack contract\<close>

definition stack_ok :: "('s \<Rightarrow> nat \<Rightarrow> 'k option) \<Rightarrow> 's \<Rightarrow> hstack \<Rightarrow> bool" where
  "stack_ok kind s st \<longleftrightarrow> distinct (elements st) \<and> snext st \<le> length (elements st) \<and>
     (\<exists>k. \<forall>a \<in> set (elements st). kind s a = Some k)"

text \<open>The abstract stack: the payloads of the occupied elements, front first.\<close>

definition stack_view :: "('s \<Rightarrow> nat \<Rightarrow> 'c) \<Rightarrow> 's \<Rightarrow> hstack \<Rightarrow> 'c list" where
  "stack_view payload s st = map (payload s) (take (snext st) (elements st))"

text \<open>
  What the stack operations need from their elements.  \<open>kind\<close> is the shape of an element, which
  no operation changes; two different elements of one shape can be exchanged.  \<open>payload\<close> is what
  an element carries, \<open>on\<close> and \<open>off\<close> are what marking it does to the payload.
\<close>

locale stack_elements =
  fixes sw :: "nat \<Rightarrow> nat \<Rightarrow> 's \<Rightarrow> 's option"
    and mv mi :: "nat \<Rightarrow> 's \<Rightarrow> 's option"
    and kind :: "'s \<Rightarrow> nat \<Rightarrow> 'k option"
    and payload :: "'s \<Rightarrow> nat \<Rightarrow> 'c"
    and on off :: "'c \<Rightarrow> 'c"
  assumes swap: "kind s a = Some k \<Longrightarrow> kind s b = Some k \<Longrightarrow> a \<noteq> b \<Longrightarrow>
      \<exists>s'. sw a b s = Some s' \<and> (\<forall>c. kind s' c = kind s c) \<and>
        payload s' = (payload s)(a := payload s b, b := payload s a)"
    and mark: "kind s a = Some k \<Longrightarrow>
      \<exists>s'. mv a s = Some s' \<and> (\<forall>c. kind s' c = kind s c) \<and> payload s' = (payload s)(a := on (payload s a))"
    and unmark: "kind s a = Some k \<Longrightarrow>
      \<exists>s'. mi a s = Some s' \<and> (\<forall>c. kind s' c = kind s c) \<and> payload s' = (payload s)(a := off (payload s a))"
begin

lemma swap_at_works:
  assumes "distinct (elements st)" "\<forall>a \<in> set (elements st). kind s a = Some k"
    and "i < length (elements st)" "j < length (elements st)" "i \<noteq> j"
  shows "\<exists>s'. swap_at sw st i j s = Some s' \<and> (\<forall>a \<in> set (elements st). kind s' a = Some k) \<and>
    payload s' = (payload s)(elements st ! i := payload s (elements st ! j),
                             elements st ! j := payload s (elements st ! i))"
proof -
  have "elements st ! i \<noteq> elements st ! j" using assms by (simp add: nth_eq_iff_index_eq)
  then show ?thesis
    using swap [of s "elements st ! i" k "elements st ! j"] assms
    by (fastforce simp: swap_at_def nth_opt_def)
qed

lemma marks_work:
  assumes "distinct (elements st)" "\<forall>a \<in> set (elements st). kind s a = Some k"
    and "m \<le> n" "n \<le> length (elements st)"
    and g: "\<And>s a. kind s a = Some k \<Longrightarrow>
      \<exists>s'. g a s = Some s' \<and> (\<forall>c. kind s' c = kind s c) \<and> payload s' = (payload s)(a := h (payload s a))"
  shows "\<exists>s'. fold_opt (on_element g st) [m..<n] s = Some s' \<and>
    (\<forall>a \<in> set (elements st). kind s' a = Some k) \<and>
    (\<forall>i < length (elements st). payload s' (elements st ! i) =
       (if m \<le> i \<and> i < n then h (payload s (elements st ! i)) else payload s (elements st ! i)))"
  using assms(3,4)
proof (induction n)
  case 0
  then show ?case using assms(2) by simp
next
  case (Suc n)
  show ?case
  proof (cases "m = Suc n")
    case False
    then have mn: "m \<le> n" using Suc.prems by simp
    with Suc obtain s1 where s1: "fold_opt (on_element g st) [m..<n] s = Some s1"
      "\<forall>a \<in> set (elements st). kind s1 a = Some k"
      "\<forall>i < length (elements st). payload s1 (elements st ! i) =
         (if m \<le> i \<and> i < n then h (payload s (elements st ! i)) else payload s (elements st ! i))"
      by auto
    have n: "n < length (elements st)" using Suc.prems by simp
    obtain s2 where s2: "g (elements st ! n) s1 = Some s2" "\<forall>c. kind s2 c = kind s1 c"
      "payload s2 = (payload s1)(elements st ! n := h (payload s1 (elements st ! n)))"
      using g [of s1 "elements st ! n"] s1(2) n by auto
    have "fold_opt (on_element g st) [m..<Suc n] s = Some s2"
      using mn s1(1) s2(1) n by (simp add: fold_opt_append on_element_def nth_opt_def)
    moreover have "payload s2 (elements st ! i) =
       (if m \<le> i \<and> i < Suc n then h (payload s (elements st ! i)) else payload s (elements st ! i))"
      if "i < length (elements st)" for i
      using s1(3) s2(3) n mn that assms(1) by (auto simp: nth_eq_iff_index_eq)
    ultimately show ?thesis using s1(2) s2(2) by auto
  qed (use assms(2) in auto)
qed

text \<open>The two shifting loops.\<close>

lemma shift_down_works:
  assumes "distinct (elements st)" "\<forall>a \<in> set (elements st). kind s a = Some k" "0 < num"
    and "n + num \<le> length (elements st)"
  shows "\<exists>s'. fold_opt (\<lambda>i. swap_at sw st i (i + num)) [0..<n] s = Some s' \<and>
    (\<forall>a \<in> set (elements st). kind s' a = Some k) \<and>
    (\<forall>i < n. payload s' (elements st ! i) = payload s (elements st ! (i + num))) \<and>
    (\<forall>i. n + num \<le> i \<and> i < length (elements st) \<longrightarrow> payload s' (elements st ! i) = payload s (elements st ! i))"
  using assms(4)
proof (induction n)
  case 0
  then show ?case using assms(2) by simp
next
  case (Suc n)
  then obtain s1 where s1: "fold_opt (\<lambda>i. swap_at sw st i (i + num)) [0..<n] s = Some s1"
    "\<forall>a \<in> set (elements st). kind s1 a = Some k"
    "\<forall>i < n. payload s1 (elements st ! i) = payload s (elements st ! (i + num))"
    "\<forall>i. n + num \<le> i \<and> i < length (elements st) \<longrightarrow> payload s1 (elements st ! i) = payload s (elements st ! i)"
    by auto
  have n: "n < length (elements st)" "n + num < length (elements st)" "n \<noteq> n + num"
    using Suc.prems assms(3) by simp_all
  obtain s2 where s2: "swap_at sw st n (n + num) s1 = Some s2"
    "\<forall>a \<in> set (elements st). kind s2 a = Some k"
    "payload s2 = (payload s1)(elements st ! n := payload s1 (elements st ! (n + num)),
                             elements st ! (n + num) := payload s1 (elements st ! n))"
    using swap_at_works [OF assms(1) s1(2) n] by blast
  have "payload s2 (elements st ! i) = payload s (elements st ! (i + num))" if "i < Suc n" for i
    using that s1(3,4) s2(3) n assms(1) Suc.prems
    by (cases "i = n") (auto simp: nth_eq_iff_index_eq)
  moreover have "payload s2 (elements st ! i) = payload s (elements st ! i)"
    if "Suc n + num \<le> i \<and> i < length (elements st)" for i
    using that s1(4) s2(3) n assms(1) by (auto simp: nth_eq_iff_index_eq)
  ultimately show ?case using s1(1) s2(1,2) by (simp add: fold_opt_append)
qed

lemma shift_up_works:
  assumes "distinct (elements st)" "\<forall>a \<in> set (elements st). kind s a = Some k" "0 < num"
    and "n \<le> length (elements st)"
  shows "\<exists>s'. fold_opt (\<lambda>i. swap_at sw st i (i - num)) (rev [num..<n]) s = Some s' \<and>
    (\<forall>a \<in> set (elements st). kind s' a = Some k) \<and>
    (\<forall>i. num \<le> i \<and> i < n \<longrightarrow> payload s' (elements st ! i) = payload s (elements st ! (i - num))) \<and>
    (\<forall>i. n \<le> i \<and> i < length (elements st) \<longrightarrow> payload s' (elements st ! i) = payload s (elements st ! i))"
  using assms(2,4)
proof (induction n arbitrary: s)
  case 0
  then show ?case by simp
next
  case (Suc n)
  show ?case
  proof (cases "num \<le> n")
    case True
    have n: "n < length (elements st)" "n - num < length (elements st)" "n \<noteq> n - num"
      using Suc.prems assms(3) True by simp_all
    obtain s1 where s1: "swap_at sw st n (n - num) s = Some s1"
      "\<forall>a \<in> set (elements st). kind s1 a = Some k"
      "payload s1 = (payload s)(elements st ! n := payload s (elements st ! (n - num)),
                               elements st ! (n - num) := payload s (elements st ! n))"
      using swap_at_works [OF assms(1) Suc.prems(1) n] by blast
    obtain s2 where s2: "fold_opt (\<lambda>i. swap_at sw st i (i - num)) (rev [num..<n]) s1 = Some s2"
      "\<forall>a \<in> set (elements st). kind s2 a = Some k"
      "\<forall>i. num \<le> i \<and> i < n \<longrightarrow> payload s2 (elements st ! i) = payload s1 (elements st ! (i - num))"
      "\<forall>i. n \<le> i \<and> i < length (elements st) \<longrightarrow> payload s2 (elements st ! i) = payload s1 (elements st ! i)"
      using Suc.IH [OF s1(2)] Suc.prems by auto
    have "payload s2 (elements st ! i) = payload s (elements st ! (i - num))" if "num \<le> i \<and> i < Suc n" for i
    proof (cases "i = n")
      case True
      then show ?thesis using s2(4) s1(3) n assms(1) by (auto simp: nth_eq_iff_index_eq)
    next
      case False
      then have "elements st ! (i - num) \<noteq> elements st ! n" "elements st ! (i - num) \<noteq> elements st ! (n - num)"
        using that n assms(1) by (auto simp: nth_eq_iff_index_eq)
      then show ?thesis using s2(3) s1(3) that False by auto
    qed
    moreover have "payload s2 (elements st ! i) = payload s (elements st ! i)"
      if "Suc n \<le> i \<and> i < length (elements st)" for i
      using s2(4) s1(3) n that assms(1) by (auto simp: nth_eq_iff_index_eq)
    ultimately show ?thesis using s1(1) s2(1,2) True by simp
  qed (use Suc.prems in auto)
qed

text \<open>Shifting up by one brings the payload of the last place to the front.\<close>

lemma shift_up_front:
  assumes "distinct (elements st)" "\<forall>a \<in> set (elements st). kind s a = Some k" "0 < n" "n \<le> length (elements st)"
    and "fold_opt (\<lambda>i. swap_at sw st i (i - 1)) (rev [1..<n]) s = Some s'"
  shows "payload s' (elements st ! 0) = payload s (elements st ! (n - 1))"
  using assms(2-5)
proof (induction n arbitrary: s)
  case (Suc n)
  show ?case
  proof (cases "n = 0")
    case False
    then have n: "n < length (elements st)" "n - 1 < length (elements st)" "n \<noteq> n - 1"
      using Suc.prems by simp_all
    obtain s1 where s1: "swap_at sw st n (n - 1) s = Some s1"
      "\<forall>a \<in> set (elements st). kind s1 a = Some k"
      "payload s1 = (payload s)(elements st ! n := payload s (elements st ! (n - 1)),
                               elements st ! (n - 1) := payload s (elements st ! n))"
      using swap_at_works [OF assms(1) Suc.prems(1) n] by blast
    have "fold_opt (\<lambda>i. swap_at sw st i (i - 1)) (rev [1..<n]) s1 = Some s'"
      using Suc.prems(4) s1(1) False by (simp add: Suc_le_eq)
    from Suc.IH [OF s1(2) _ _ this] Suc.prems False show ?thesis using s1(3) by simp
  qed (use Suc.prems in simp)
qed simp

lemma push_front_rotates:
  assumes ok: "stack_ok kind s st" and ne: "elements st \<noteq> []" and full: "snext st = length (elements st)"
  shows "\<exists>s'. push_front sw mv st s = Some (1, st, s') \<and>
    payload s' (hd (elements st)) = on (payload s (last (elements st)))"
proof -
  obtain k where k: "distinct (elements st)" "\<forall>a \<in> set (elements st). kind s a = Some k"
    using ok by (auto simp: stack_ok_def)
  define n where "n = length (elements st)"
  have n: "0 < n" using ne by (simp add: n_def)
  obtain s1 where s1: "fold_opt (\<lambda>i. swap_at sw st i (i - 1)) (rev [1..<n]) s = Some s1"
    "\<forall>a \<in> set (elements st). kind s1 a = Some k"
    using shift_up_works [OF k, of 1 n] by (auto simp: n_def)
  have f: "payload s1 (elements st ! 0) = payload s (elements st ! (n - 1))"
    using shift_up_front [OF k n _ s1(1)] by (simp add: n_def)
  obtain s2 where s2: "mv (elements st ! 0) s1 = Some s2"
    "payload s2 = (payload s1)(elements st ! 0 := on (payload s1 (elements st ! 0)))"
    using mark [of s1 "elements st ! 0" k] s1(2) ne by auto
  have "push_front sw mv st s = Some (1, st, s2)"
    using s1(1) s2(1) n full ne by (simp add: push_front_def Let_def on_element_def nth_opt_def n_def)
  then show ?thesis using s2(2) f ne by (simp add: hd_conv_nth last_conv_nth n_def)
qed

lemma pop_front_n_view:
  assumes ok: "stack_ok kind s st"
  shows "\<exists>st' s'. pop_front_n sw mi num st s = Some (min (snext st) num, st', s') \<and> stack_ok kind s' st' \<and>
    elements st' = elements st \<and> stack_view payload s' st' = drop num (stack_view payload s st)"
proof (cases "num = 0")
  case True
  then show ?thesis using ok by (simp add: pop_front_n_def)
next
  case False
  obtain k where k: "distinct (elements st)" "snext st \<le> length (elements st)"
    "\<forall>a \<in> set (elements st). kind s a = Some k"
    using ok by (auto simp: stack_ok_def)
  define popped n where "popped = min (snext st) num" and "n = snext st - popped"
  have np: "n + popped = snext st" by (simp add: n_def popped_def)
  have nn: "n + num \<le> length (elements st) \<or> n = 0" using k(2) by (auto simp: n_def popped_def)
  obtain s1 where s1: "fold_opt (\<lambda>i. swap_at sw st i (i + num)) [0..<n] s = Some s1"
    "\<forall>a \<in> set (elements st). kind s1 a = Some k"
    "\<forall>i < n. payload s1 (elements st ! i) = payload s (elements st ! (i + num))"
  proof (cases "n = 0")
    case True
    then show ?thesis using that k(3) by simp
  next
    case False
    then show ?thesis
      using that shift_down_works [OF k(1,3), of num n] nn \<open>num \<noteq> 0\<close> by auto
  qed
  obtain s2 where s2: "fold_opt (on_element mi st) [n..<n + popped] s1 = Some s2"
    "\<forall>a \<in> set (elements st). kind s2 a = Some k"
    "\<forall>i < length (elements st). payload s2 (elements st ! i) =
       (if n \<le> i \<and> i < n + popped then off (payload s1 (elements st ! i)) else payload s1 (elements st ! i))"
    using marks_work [OF k(1) s1(2), of n "n + popped" mi off] unmark np k(2) by auto
  let ?st = "st\<lparr>snext := n\<rparr>"
  have "stack_view payload s2 ?st = drop num (stack_view payload s st)"
  proof (rule nth_equalityI)
    show "length (stack_view payload s2 ?st) = length (drop num (stack_view payload s st))"
      using k(2) np by (auto simp: stack_view_def n_def popped_def)
  next
    fix i
    assume "i < length (stack_view payload s2 ?st)"
    then have i: "i < n" by (simp add: stack_view_def)
    then have "i + num < snext st" by (auto simp: n_def popped_def)
    then show "stack_view payload s2 ?st ! i = drop num (stack_view payload s st) ! i"
      using i s1(3) s2(3) k(2) by (simp add: stack_view_def add.commute)
  qed
  moreover have "pop_front_n sw mi num st s = Some (popped, ?st, s2)"
    using s1(1) s2(1) False by (simp add: pop_front_n_def Let_def popped_def n_def)
  moreover have "stack_ok kind s2 ?st" using k(1,2) s2(2) np by (auto simp: stack_ok_def)
  ultimately show ?thesis by (auto simp: popped_def)
qed

lemma push_front_n_view:
  assumes ok: "stack_ok kind s st" and ne: "elements st \<noteq> []"
  shows "\<exists>st' s' new. push_front_n sw mv num st s = Some (min (length (elements st)) num, st', s') \<and>
    stack_ok kind s' st' \<and> elements st' = elements st \<and> length new = min (length (elements st)) num \<and>
    stack_view payload s' st' = take (length (elements st)) (map on new @ stack_view payload s st)"
proof (cases "num = 0")
  case True
  then show ?thesis using ok
    by (auto simp: push_front_n_def stack_ok_def stack_view_def min_def)
next
  case False
  obtain k where k: "distinct (elements st)" "snext st \<le> length (elements st)"
    "\<forall>a \<in> set (elements st). kind s a = Some k"
    using ok by (auto simp: stack_ok_def)
  define D n pushed where "D = length (elements st)" and "n = min D (snext st + num)" and "pushed = min D num"
  have D: "0 < D" "n \<le> D" "pushed \<le> n" "0 < n" "pushed \<le> D"
    using ne False by (auto simp: D_def n_def pushed_def)
  obtain s1 where s1: "fold_opt (\<lambda>i. swap_at sw st i (i - num)) (rev [num..<n]) s = Some s1"
    "\<forall>a \<in> set (elements st). kind s1 a = Some k"
    "\<forall>i. num \<le> i \<and> i < n \<longrightarrow> payload s1 (elements st ! i) = payload s (elements st ! (i - num))"
    using shift_up_works [OF k(1,3), of num n] False D by (auto simp: D_def)
  obtain s2 where s2: "fold_opt (on_element mv st) [0..<pushed] s1 = Some s2"
    "\<forall>a \<in> set (elements st). kind s2 a = Some k"
    "\<forall>i < D. payload s2 (elements st ! i) =
       (if i < pushed then on (payload s1 (elements st ! i)) else payload s1 (elements st ! i))"
    using marks_work [OF k(1) s1(2), of 0 pushed mv on] mark D by (auto simp: D_def)
  let ?st = "st\<lparr>snext := n\<rparr>"
  define new where "new = map (\<lambda>i. payload s1 (elements st ! i)) [0..<pushed]"
  have "stack_view payload s2 ?st = take D (map on new @ stack_view payload s st)"
  proof (rule nth_equalityI)
    show "length (stack_view payload s2 ?st) = length (take D (map on new @ stack_view payload s st))"
      using k(2) D by (auto simp: stack_view_def new_def n_def pushed_def D_def)
  next
    fix i
    assume "i < length (stack_view payload s2 ?st)"
    then have i: "i < n" "i < D" using D by (simp_all add: stack_view_def)
    show "stack_view payload s2 ?st ! i = take D (map on new @ stack_view payload s st) ! i"
    proof (cases "i < pushed")
      case True
      then show ?thesis using i s2(3) by (simp add: stack_view_def new_def nth_append D_def)
    next
      case F: False
      then have p: "pushed = num" "num \<le> i" using i by (auto simp: pushed_def)
      have "i - num < snext st" using i F p by (auto simp: n_def)
      then show ?thesis
        using i F s1(3) s2(3) p k(2) by (simp add: stack_view_def new_def nth_append D_def)
    qed
  qed
  moreover have "push_front_n sw mv num st s = Some (pushed, ?st, s2)"
    using s1(1) s2(1) False D by (simp add: push_front_n_def Let_def n_def pushed_def D_def)
  moreover have "stack_ok kind s2 ?st" using k(1,2) s2(2) D by (auto simp: stack_ok_def D_def)
  moreover have "length new = pushed" by (simp add: new_def)
  ultimately show ?thesis by (auto simp: D_def pushed_def)
qed

end

subsection \<open>Headers are stack elements\<close>

definition fixed_shape :: "header \<Rightarrow> (nat \<times> nat \<times> nat) list option" where
  "fixed_shape h = (if header_shape h \<and> (\<forall>f \<in> set (hfields h). \<not> VL f)
     then Some (map (\<lambda>f. (nbits f, nbytes f, length (fbytes f))) (hfields h)) else None)"

definition header_payload :: "header \<Rightarrow> bool \<times> (int \<times> u8 list) list \<times> int" where
  "header_payload h = (valid_flag h, map (\<lambda>f. (dval f, fbytes f)) (hfields h), nbytes_packet h)"

definition hdr_shape :: "phv \<Rightarrow> nat \<Rightarrow> (nat \<times> nat \<times> nat) list option" where
  "hdr_shape p a = nth_opt (headers p) a \<bind> fixed_shape"

definition hdr_kind :: "phv \<Rightarrow> nat \<Rightarrow> (nat \<times> nat \<times> nat) list option" where
  "hdr_kind p a = (if map_option union_membership (nth_opt (headers p) a) = Some None
     then hdr_shape p a else None)"

definition hdr_payload :: "phv \<Rightarrow> nat \<Rightarrow> bool \<times> (int \<times> u8 list) list \<times> int" where
  "hdr_payload p a = (case nth_opt (headers p) a of
     Some h \<Rightarrow> header_payload h | None \<Rightarrow> (False, [], 0))"

definition mark_payload :: "bool \<Rightarrow> bool \<times> (int \<times> u8 list) list \<times> int \<Rightarrow> bool \<times> (int \<times> u8 list) list \<times> int" where
  "mark_payload b = (\<lambda>(v, fs, n). (b, butlast fs @ [(if b then 1 else 0, [if b then 1 else 0])], n))"

lemma swap_fields_fixed:
  assumes "\<forall>f \<in> set fs. \<not> VL f" "length fs = length gs"
  shows "swap_fields fs gs = Some (map2 (\<lambda>f g. f\<lparr>dval := dval g, fbytes := fbytes g\<rparr>) fs gs,
    map2 (\<lambda>f g. g\<lparr>dval := dval f, fbytes := fbytes f\<rparr>) fs gs)"
  using assms(2,1) by (induction fs gs rule: list_induct2) (simp_all add: swap_field_def Let_def)

lemma header_shape_updated:
  assumes "header_shape h" "length gs = length (hfields h)"
    "map (\<lambda>f. (nbits f, nbytes f, length (fbytes f))) gs = map (\<lambda>f. (nbits f, nbytes f, length (fbytes f))) (hfields h)"
  shows "header_shape (h\<lparr>valid_flag := v,
      hfields := map2 (\<lambda>f g. f\<lparr>dval := dval g, fbytes := fbytes g\<rparr>) (hfields h) gs, nbytes_packet := n\<rparr>)"
proof -
  obtain vs vf where s: "hfields h = vs @ [vf]" "\<forall>f \<in> set vs. \<not> hidden f" "hidden vf" "field_ok vf"
    "\<not> is_signed vf" "nbits vf = 1"
    using assms(1) by (auto simp: header_shape_def)
  obtain us g where g: "gs = us @ [g]" using assms(2) s(1) by (cases gs rule: rev_cases) auto
  have "length us = length vs" "length (fbytes g) = length (fbytes vf)" using assms(2,3) s(1) g by simp_all
  then show ?thesis
    using s g by (auto simp: header_shape_def field_ok_def in_set_zip)
qed

lemma swap_header_fixed:
  assumes "fixed_shape h1 = Some k" "fixed_shape h2 = Some k"
  shows "\<exists>h1' h2'. swap_header h1 h2 = Some (h1', h2') \<and> fixed_shape h1' = Some k \<and> fixed_shape h2' = Some k \<and>
    header_payload h1' = header_payload h2 \<and> header_payload h2' = header_payload h1 \<and>
    union_membership h1' = union_membership h1 \<and> union_membership h2' = union_membership h2"
proof -
  let ?sig = "\<lambda>f :: field. (nbits f, nbytes f, length (fbytes f))"
  have a: "header_shape h1" "header_shape h2" "\<forall>f \<in> set (hfields h1). \<not> VL f" "\<forall>f \<in> set (hfields h2). \<not> VL f"
    and k: "map ?sig (hfields h1) = k" "map ?sig (hfields h2) = k"
    using assms by (simp_all add: fixed_shape_def split: if_splits)
  have l: "length (hfields h1) = length (hfields h2)" using k map_eq_imp_length_eq by metis
  define up :: "field list \<Rightarrow> field list \<Rightarrow> field list" where
    "up = map2 (\<lambda>f g. f\<lparr>dval := dval g, fbytes := fbytes g\<rparr>)"
  have up2: "map2 (\<lambda>f g. g\<lparr>dval := dval f, fbytes := fbytes f\<rparr>) fs gs = up gs fs" for fs gs
    unfolding up_def by (induction fs gs rule: list_induct2') simp_all
  have sig: "map ?sig (up fs gs) = map ?sig fs" if "length fs = length gs" "map ?sig fs = map ?sig gs" for fs gs
    using that unfolding up_def by (induction fs gs rule: list_induct2) simp_all
  have pay: "map (\<lambda>f. (dval f, fbytes f)) (up fs gs) = map (\<lambda>f. (dval f, fbytes f)) gs" if "length fs = length gs" for fs gs
    using that unfolding up_def by (induction fs gs rule: list_induct2) simp_all
  have vl: "\<forall>f \<in> set (up fs gs). \<not> VL f" if "length fs = length gs" "\<forall>f \<in> set fs. \<not> VL f" for fs gs
    using that unfolding up_def by (induction fs gs rule: list_induct2) simp_all
  define H1 where "H1 = h1\<lparr>valid_flag := valid_flag h2, hfields := up (hfields h1) (hfields h2),
      nbytes_packet := nbytes_packet h2\<rparr>"
  define H2 where "H2 = h2\<lparr>valid_flag := valid_flag h1, hfields := up (hfields h2) (hfields h1),
      nbytes_packet := nbytes_packet h1\<rparr>"
  have "swap_header h1 h2 = Some (H1, H2)"
    using swap_fields_fixed [OF a(3) l]
    by (simp add: swap_header_def up2 H1_def H2_def) (simp add: up_def)
  moreover have sh: "header_shape H1" "header_shape H2"
    unfolding H1_def H2_def up_def using a(1,2) l k by (intro header_shape_updated; simp)+
  have f: "hfields H1 = up (hfields h1) (hfields h2)" "hfields H2 = up (hfields h2) (hfields h1)"
    by (simp_all add: H1_def H2_def)
  have sk: "map ?sig (hfields H1) = k" "map ?sig (hfields H2) = k"
    unfolding f using sig [OF l] sig [OF l [symmetric]] k by metis+
  have "\<forall>f \<in> set (hfields H1). \<not> VL f" "\<forall>f \<in> set (hfields H2). \<not> VL f"
    unfolding f using vl [OF l a(3)] vl [OF l [symmetric] a(4)] by blast+
  with sh sk have "fixed_shape H1 = Some k" "fixed_shape H2 = Some k"
    unfolding fixed_shape_def by simp_all
  moreover have "header_payload H1 = header_payload h2" "header_payload H2 = header_payload h1"
    unfolding header_payload_def f pay [OF l] pay [OF l [symmetric]] by (simp_all add: H1_def H2_def)
  moreover have "union_membership H1 = union_membership h1" "union_membership H2 = union_membership h2"
    by (simp_all add: H1_def H2_def)
  ultimately show ?thesis by blast
qed

lemma swap_headers_fixed:
  assumes "hdr_shape p a = Some k" "hdr_shape p b = Some k" "a \<noteq> b"
  shows "\<exists>p'. swap_headers a b p = Some p' \<and> (\<forall>c. hdr_shape p' c = hdr_shape p c) \<and>
    (\<forall>c. hdr_kind p' c = hdr_kind p c) \<and> header_unions p' = header_unions p \<and>
    length (headers p') = length (headers p) \<and>
    hdr_payload p' = (hdr_payload p)(a := hdr_payload p b, b := hdr_payload p a)"
proof -
  have ab: "a < length (headers p)" "b < length (headers p)" "fixed_shape (headers p ! a) = Some k"
    "fixed_shape (headers p ! b) = Some k"
    using assms(1,2) by (auto simp: hdr_shape_def bind_eq_Some_iff nth_opt_Some_iff)
  from swap_header_fixed [OF ab(3,4)] obtain h1 h2 where
    "swap_header (headers p ! a) (headers p ! b) = Some (h1, h2)" "fixed_shape h1 = Some k" "fixed_shape h2 = Some k"
    "header_payload h1 = header_payload (headers p ! b)" "header_payload h2 = header_payload (headers p ! a)"
    "union_membership h1 = union_membership (headers p ! a)" "union_membership h2 = union_membership (headers p ! b)"
    by blast
  then show ?thesis
    using ab assms(3)
    by (auto simp: swap_headers_def put_header_def hdr_shape_def hdr_kind_def hdr_payload_def nth_opt_def
        nth_list_update fun_eq_iff)
qed

lemma set_validity_fixed:
  assumes "fixed_shape h = Some k"
  shows "\<exists>h'. set_validity b h = Some h' \<and> fixed_shape h' = Some k \<and>
    header_payload h' = mark_payload b (header_payload h) \<and> union_membership h' = union_membership h"
proof -
  have sh: "header_shape h" and vl: "\<forall>f \<in> set (hfields h). \<not> VL f"
    and k: "k = map (\<lambda>f. (nbits f, nbytes f, length (fbytes f))) (hfields h)"
    using assms by (simp_all add: fixed_shape_def split: if_splits)
  obtain vs vf where s: "hfields h = vs @ [vf]" "\<forall>f \<in> set vs. \<not> hidden f" "hidden vf" "field_ok vf"
    "\<not> is_signed vf" "nbits vf = 1"
    using sh by (auto simp: header_shape_def)
  let ?v = "if b then 1 else 0 :: int"
  have nb: "nbytes vf = 1" "length (fbytes vf) = 1" using s(4,6) by (simp_all add: field_ok_def bytes_of_bits_def)
  have wr: "wrapped (vf\<lparr>dval := ?v\<rparr>) = ?v"
    using and_field_mask [OF s(4), of ?v] s(5,6) by (simp add: wrapped_def)
  have "field_set vf ?v = Some (vf\<lparr>dval := ?v, fbytes := be_bytes (nbytes vf) ?v, written_to := True\<rparr>)"
    by (rule field_set_eq(1) [OF s(4) wr]) (use s in auto)
  moreover have "be_bytes (nbytes vf) ?v = [if b then 1 else 0]" using nb by simp
  ultimately have f: "field_set vf ?v = Some (vf\<lparr>dval := ?v, fbytes := [if b then 1 else 0], written_to := True\<rparr>)"
    by simp
  have "set_validity b h = Some (h\<lparr>valid_flag := b,
      hfields := vs @ [vf\<lparr>dval := ?v, fbytes := [if b then 1 else 0], written_to := True\<rparr>]\<rparr>)"
    using f s(1) by (simp add: set_validity_def)
  then show ?thesis
    using s nb vl k by (auto simp: fixed_shape_def header_shape_def header_payload_def mark_payload_def field_ok_def)
qed

lemma hdr_mark_fixed:
  assumes "hdr_kind p a = Some k" "g = mark_valid \<and> b \<or> g = mark_invalid \<and> \<not> b"
  shows "\<exists>p'. g a p = Some p' \<and> (\<forall>c. hdr_kind p' c = hdr_kind p c) \<and>
    hdr_payload p' = (hdr_payload p)(a := mark_payload b (hdr_payload p a))"
proof -
  have a: "a < length (headers p)" "fixed_shape (headers p ! a) = Some k" "union_membership (headers p ! a) = None"
    using assms(1) by (auto simp: hdr_kind_def hdr_shape_def bind_eq_Some_iff nth_opt_def split: if_splits)
  from set_validity_fixed [OF a(2), of b] obtain h' where
    "set_validity b (headers p ! a) = Some h'" "fixed_shape h' = Some k"
    "header_payload h' = mark_payload b (header_payload (headers p ! a))" "union_membership h' = None"
    using a(3) by auto
  then show ?thesis
    using a assms(2)
    by (auto simp: mark_valid_def mark_invalid_def put_header_def hdr_shape_def hdr_kind_def hdr_payload_def
        nth_opt_def nth_list_update fun_eq_iff)
qed

interpretation hs: stack_elements swap_headers mark_valid mark_invalid hdr_kind hdr_payload
  "mark_payload True" "mark_payload False"
proof
  fix p a k b
  assume "hdr_kind p a = Some k" "hdr_kind p b = Some k" "a \<noteq> b"
  then have "hdr_shape p a = Some k" "hdr_shape p b = Some k" by (simp_all add: hdr_kind_def split: if_splits)
  from swap_headers_fixed [OF this \<open>a \<noteq> b\<close>]
  show "\<exists>p'. swap_headers a b p = Some p' \<and> (\<forall>c. hdr_kind p' c = hdr_kind p c) \<and>
    hdr_payload p' = (hdr_payload p)(a := hdr_payload p b, b := hdr_payload p a)"
    by blast
qed (use hdr_mark_fixed in blast)+

subsection \<open>Header unions are stack elements\<close>

definition unions_apart :: "phv \<Rightarrow> bool" where
  "unions_apart p \<longleftrightarrow> distinct (concat (map u_headers (header_unions p)))"

definition un_kind :: "phv \<Rightarrow> nat \<Rightarrow> (nat \<times> nat \<times> nat) list list option" where
  "un_kind p u = (if unions_apart p
     then do { un \<leftarrow> nth_opt (header_unions p) u; map_opt (hdr_shape p) (u_headers un) } else None)"

definition un_payload :: "phv \<Rightarrow> nat \<Rightarrow> bool \<times> nat \<times> (bool \<times> (int \<times> u8 list) list \<times> int) list" where
  "un_payload p u = (case nth_opt (header_unions p) u of
     Some un \<Rightarrow> (u_valid un, u_idx un, map (hdr_payload p) (u_headers un)) | None \<Rightarrow> (False, 0, []))"

lemma fold_swap_headers:
  assumes "length xs = length ys" "distinct (xs @ ys)"
    "map_opt (hdr_shape p) xs = Some ks" "map_opt (hdr_shape p) ys = Some ks"
  shows "\<exists>p'. fold_opt (\<lambda>(i, j). swap_headers i j) (zip xs ys) p = Some p' \<and>
    (\<forall>c. hdr_shape p' c = hdr_shape p c) \<and> header_unions p' = header_unions p \<and>
    map (hdr_payload p') xs = map (hdr_payload p) ys \<and> map (hdr_payload p') ys = map (hdr_payload p) xs \<and>
    (\<forall>c. c \<notin> set xs \<union> set ys \<longrightarrow> hdr_payload p' c = hdr_payload p c)"
  using assms
proof (induction xs ys arbitrary: p ks rule: list_induct2)
  case (Cons x xs y ys)
  obtain k ks' where k: "hdr_shape p x = Some k" "hdr_shape p y = Some k"
    "map_opt (hdr_shape p) xs = Some ks'" "map_opt (hdr_shape p) ys = Some ks'"
    using Cons.prems by (auto simp: bind_eq_Some_iff)
  have xy: "x \<noteq> y" "x \<notin> set xs" "x \<notin> set ys" "y \<notin> set xs" "y \<notin> set ys" "distinct (xs @ ys)"
    using Cons.prems(1) by auto
  obtain p1 where p1: "swap_headers x y p = Some p1" "\<forall>c. hdr_shape p1 c = hdr_shape p c"
    "header_unions p1 = header_unions p"
    "hdr_payload p1 = (hdr_payload p)(x := hdr_payload p y, y := hdr_payload p x)"
    using swap_headers_fixed [OF k(1,2) xy(1)] by blast
  have "hdr_shape p1 = hdr_shape p" using p1(2) by auto
  then obtain p2 where p2: "fold_opt (\<lambda>(i, j). swap_headers i j) (zip xs ys) p1 = Some p2"
    "\<forall>c. hdr_shape p2 c = hdr_shape p1 c" "header_unions p2 = header_unions p1"
    "map (hdr_payload p2) xs = map (hdr_payload p1) ys" "map (hdr_payload p2) ys = map (hdr_payload p1) xs"
    "\<forall>c. c \<notin> set xs \<union> set ys \<longrightarrow> hdr_payload p2 c = hdr_payload p1 c"
    using Cons.IH [OF xy(6), of p1 ks'] k by auto
  have "map (hdr_payload p1) xs = map (hdr_payload p) xs" "map (hdr_payload p1) ys = map (hdr_payload p) ys"
    using p1(4) xy by auto
  then show ?case using p1 p2 xy by auto
qed simp

lemma union_headers_apart:
  assumes "unions_apart p" "a \<noteq> b" "nth_opt (header_unions p) a = Some ua" "nth_opt (header_unions p) b = Some ub"
  shows "distinct (u_headers ua @ u_headers ub)"
proof -
  have "distinct (u_headers ua)" "distinct (u_headers ub)" "set (u_headers ua) \<inter> set (u_headers ub) = {}"
  proof -
    let ?L = "map u_headers (header_unions p)"
    have ab: "a < length ?L" "b < length ?L" "?L ! a = u_headers ua" "?L ! b = u_headers ub"
      using assms(3,4) by (auto simp: nth_opt_def split: if_splits)
    have d: "distinct (concat ?L)" using assms(1) by (simp add: unions_apart_def)
    then show "distinct (u_headers ua)" "distinct (u_headers ub)"
      using ab by (metis distinct_concat_iff nth_mem)+
    show "set (u_headers ua) \<inter> set (u_headers ub) = {}"
      using concat_apart [OF d _ _ assms(2)] ab by metis
  qed
  then show ?thesis by simp
qed

lemma swap_unions_fixed:
  assumes "un_kind p a = Some k" "un_kind p b = Some k" "a \<noteq> b"
  shows "\<exists>p'. swap_unions a b p = Some p' \<and> (\<forall>c. un_kind p' c = un_kind p c) \<and>
    un_payload p' = (un_payload p)(a := un_payload p b, b := un_payload p a)"
proof -
  obtain ua ub where u: "nth_opt (header_unions p) a = Some ua" "nth_opt (header_unions p) b = Some ub"
    "map_opt (hdr_shape p) (u_headers ua) = Some k" "map_opt (hdr_shape p) (u_headers ub) = Some k"
    and ap: "unions_apart p"
    using assms(1,2) by (auto simp: un_kind_def bind_eq_Some_iff split: if_splits)
  have l: "length (u_headers ua) = length (u_headers ub)"
    using u(3,4) map_opt_length by metis
  have d: "distinct (u_headers ua @ u_headers ub)" by (rule union_headers_apart [OF ap assms(3) u(1,2)])
  define p1 where "p1 = put_union b (ub\<lparr>u_valid := u_valid ua, u_idx := u_idx ua\<rparr>)
               (put_union a (ua\<lparr>u_valid := u_valid ub, u_idx := u_idx ub\<rparr>) p)"
  have p1: "headers p1 = headers p" by (simp add: p1_def put_union_def)
  then have sh: "hdr_shape p1 = hdr_shape p" "hdr_payload p1 = hdr_payload p"
    by (simp_all add: hdr_shape_def [abs_def] hdr_payload_def [abs_def])
  have un1: "map u_headers (header_unions p1) = map u_headers (header_unions p)"
    using u(1,2) assms(3)
    by (auto simp: p1_def put_union_def nth_opt_def map_update nth_list_update list_update_id
        intro!: nth_equalityI split: if_splits)
  obtain p2 where p2: "fold_opt (\<lambda>(i, j). swap_headers i j) (zip (u_headers ua) (u_headers ub)) p1 = Some p2"
    "\<forall>c. hdr_shape p2 c = hdr_shape p1 c" "header_unions p2 = header_unions p1"
    "map (hdr_payload p2) (u_headers ua) = map (hdr_payload p1) (u_headers ub)"
    "map (hdr_payload p2) (u_headers ub) = map (hdr_payload p1) (u_headers ua)"
    "\<forall>c. c \<notin> set (u_headers ua) \<union> set (u_headers ub) \<longrightarrow> hdr_payload p2 c = hdr_payload p1 c"
    using fold_swap_headers [OF l d, of p1 k] u(3,4) sh(1) by auto
  have "swap_unions a b p = Some p2"
    using u(1,2) l p2(1) by (simp add: swap_unions_def p1_def)
  moreover have "un_kind p2 c = un_kind p c" for c
  proof -
    have hs: "hdr_shape p2 = hdr_shape p" using p2(2) sh(1) by auto
    have "unions_apart p2 = unions_apart p" using un1 p2(3) by (simp add: unions_apart_def)
    moreover have "map_option u_headers (nth_opt (header_unions p2) c) = map_option u_headers (nth_opt (header_unions p) c)"
      using un1 p2(3) by (metis (no_types) length_map nth_map nth_opt_def option.map(1,2))
    ultimately show ?thesis
      by (cases "nth_opt (header_unions p2) c"; cases "nth_opt (header_unions p) c") (simp_all add: un_kind_def hs)
  qed
  moreover have "un_payload p2 c = ((un_payload p)(a := un_payload p b, b := un_payload p a)) c" for c
  proof -
    have nu: "nth_opt (header_unions p2) c =
        (if c = a then Some (ua\<lparr>u_valid := u_valid ub, u_idx := u_idx ub\<rparr>)
         else if c = b then Some (ub\<lparr>u_valid := u_valid ua, u_idx := u_idx ua\<rparr>)
         else nth_opt (header_unions p) c)"
      using u(1,2) assms(3) p2(3) by (auto simp: p1_def put_union_def nth_opt_def nth_list_update split: if_splits)
    consider "c = a" | "c = b" | "c \<noteq> a" "c \<noteq> b" by blast
    then show ?thesis
    proof cases
      case 3
      show ?thesis
      proof (cases "nth_opt (header_unions p) c")
        case (Some uc)
        have "set (u_headers uc) \<inter> (set (u_headers ua) \<union> set (u_headers ub)) = {}"
          using union_headers_apart [OF ap 3(1) Some u(1)] union_headers_apart [OF ap 3(2) Some u(2)] by auto
        then have "map (hdr_payload p2) (u_headers uc) = map (hdr_payload p) (u_headers uc)"
          using p2(6) sh(2) by auto
        then show ?thesis using 3 Some nu by (simp add: un_payload_def)
      qed (use 3 nu in \<open>simp add: un_payload_def\<close>)
    qed (use assms(3) nu u(1,2) p2(4,5) sh(2) in \<open>simp_all add: un_payload_def\<close>)
  qed
  ultimately show ?thesis by blast
qed

interpretation us: stack_elements swap_unions union_mark union_mark un_kind un_payload "\<lambda>x. x" "\<lambda>x. x"
  by unfold_locales (use swap_unions_fixed in blast, simp_all add: union_mark_def)

section \<open>At most one valid header per union\<close>

text \<open>What construction sets up: headers know their union, and unions their headers.\<close>

definition phv_wf :: "phv \<Rightarrow> bool" where
  "phv_wf p \<longleftrightarrow> (\<forall>i < length (headers p). header_shape (headers p ! i) \<and>
       (\<forall>u idx. union_membership (headers p ! i) = Some (u, idx) \<longrightarrow>
          u < length (header_unions p) \<and> idx < length (u_headers (header_unions p ! u)) \<and>
          u_headers (header_unions p ! u) ! idx = i)) \<and>
     (\<forall>u < length (header_unions p). \<forall>idx < length (u_headers (header_unions p ! u)).
        u_headers (header_unions p ! u) ! idx < length (headers p) \<and>
        union_membership (headers p ! (u_headers (header_unions p ! u) ! idx)) = Some (u, idx)) \<and>
     (\<forall>u < length (header_unions p). u_valid (header_unions p ! u) \<longrightarrow>
        u_idx (header_unions p ! u) < length (u_headers (header_unions p ! u)))"

definition unions_exclusive :: "phv \<Rightarrow> bool" where
  "unions_exclusive p \<longleftrightarrow> (\<forall>i < length (headers p). \<forall>u idx.
     union_membership (headers p ! i) = Some (u, idx) \<and> valid_flag (headers p ! i) \<longrightarrow>
     u_valid (header_unions p ! u) \<and> u_idx (header_unions p ! u) = idx)"

lemma phv_wfD:
  assumes "phv_wf p" "i < length (headers p)"
  shows "header_shape (headers p ! i)"
    and "union_membership (headers p ! i) = Some (u, idx) \<Longrightarrow>
      u < length (header_unions p) \<and> idx < length (u_headers (header_unions p ! u)) \<and>
      u_headers (header_unions p ! u) ! idx = i"
  using assms by (auto simp: phv_wf_def)

text \<open>A store that differs from a well-formed one only in contents and valid indices.\<close>

lemma phv_wf_update:
  assumes "phv_wf p" "length (headers p') = length (headers p)"
    "\<forall>i < length (headers p). header_shape (headers p' ! i) \<and>
       union_membership (headers p' ! i) = union_membership (headers p ! i)"
    "map u_headers (header_unions p') = map u_headers (header_unions p)"
    "\<forall>u < length (header_unions p'). u_valid (header_unions p' ! u) \<longrightarrow>
       u_idx (header_unions p' ! u) < length (u_headers (header_unions p' ! u))"
  shows "phv_wf p'"
proof -
  have l: "length (header_unions p') = length (header_unions p)"
    using assms(4) map_eq_imp_length_eq by metis
  have u: "u_headers (header_unions p' ! u) = u_headers (header_unions p ! u)"
    if "u < length (header_unions p)" for u
    using arg_cong [OF assms(4), of "\<lambda>xs. xs ! u"] that l by simp
  have a: "header_shape (headers p' ! i) \<and> (\<forall>u idx. union_membership (headers p' ! i) = Some (u, idx) \<longrightarrow>
      u < length (header_unions p') \<and> idx < length (u_headers (header_unions p' ! u)) \<and>
      u_headers (header_unions p' ! u) ! idx = i)" if "i < length (headers p')" for i
    using phv_wfD [OF assms(1), of i] that assms(2,3) l u by auto
  have b: "u_headers (header_unions p' ! v) ! idx < length (headers p') \<and>
      union_membership (headers p' ! (u_headers (header_unions p' ! v) ! idx)) = Some (v, idx)"
    if "v < length (header_unions p')" "idx < length (u_headers (header_unions p' ! v))" for v idx
    using assms(1-3) that l u [of v] by (auto simp: phv_wf_def)
  show ?thesis unfolding phv_wf_def using a b assms(5) by blast
qed

lemma mark_invalid_effect:
  assumes wf: "phv_wf p" and i: "i < length (headers p)"
  shows "\<exists>p' h'. mark_invalid i p = Some p' \<and> phv_wf p' \<and> headers p' = (headers p)[i := h'] \<and>
    \<not> valid_flag h' \<and> union_membership h' = union_membership (headers p ! i) \<and>
    map u_headers (header_unions p') = map u_headers (header_unions p) \<and>
    header_unions p' = (case union_membership (headers p ! i) of None \<Rightarrow> header_unions p
      | Some (u, idx) \<Rightarrow> if u_valid (header_unions p ! u) \<and> u_idx (header_unions p ! u) = idx
          then (header_unions p)[u := (header_unions p ! u)\<lparr>u_valid := False\<rparr>] else header_unions p)"
proof -
  obtain h' where h': "set_validity False (headers p ! i) = Some h'" "header_shape h'" "\<not> valid_flag h'"
    "union_membership h' = union_membership (headers p ! i)"
    using set_validity_shape [OF phv_wfD(1) [OF wf i], of False] by auto
  define U where "U = (case union_membership (headers p ! i) of None \<Rightarrow> header_unions p
      | Some (u, idx) \<Rightarrow> if u_valid (header_unions p ! u) \<and> u_idx (header_unions p ! u) = idx
          then (header_unions p)[u := (header_unions p ! u)\<lparr>u_valid := False\<rparr>] else header_unions p)"
  define p' where "p' = p\<lparr>headers := (headers p)[i := h'], header_unions := U\<rparr>"
  have m: "mark_invalid i p = Some p'"
    using h' i phv_wfD(2) [OF wf i]
    by (auto simp: mark_invalid_def make_header_invalid_def put_header_def put_union_def nth_opt_def p'_def U_def
        split: option.splits)
  have mu: "map u_headers U = map u_headers (header_unions p)"
    by (auto simp: U_def map_update_same split: option.splits)
  have "phv_wf p'"
  proof (rule phv_wf_update [OF wf])
    show "\<forall>u < length (header_unions p'). u_valid (header_unions p' ! u) \<longrightarrow>
       u_idx (header_unions p' ! u) < length (u_headers (header_unions p' ! u))"
      using wf by (auto simp: p'_def U_def phv_wf_def nth_update_if split: option.splits)
  qed (use h' i wf mu in \<open>auto simp: p'_def nth_list_update dest: phv_wfD(1)\<close>)
  then show ?thesis using m h' mu unfolding U_def [symmetric] by (auto simp: p'_def)
qed

lemma mark_invalid_exclusive:
  assumes wf: "phv_wf p" and ex: "unions_exclusive p" and m: "mark_invalid i p = Some p'"
  shows "unions_exclusive p'"
proof -
  have i: "i < length (headers p)" using m by (auto simp: mark_invalid_def bind_eq_Some_iff nth_opt_Some_iff)
  from mark_invalid_effect [OF wf i] m obtain h' where h': "headers p' = (headers p)[i := h']" "\<not> valid_flag h'"
    and U: "header_unions p' = (case union_membership (headers p ! i) of None \<Rightarrow> header_unions p
      | Some (u, idx) \<Rightarrow> if u_valid (header_unions p ! u) \<and> u_idx (header_unions p ! u) = idx
          then (header_unions p)[u := (header_unions p ! u)\<lparr>u_valid := False\<rparr>] else header_unions p)"
    by auto
  show ?thesis
    unfolding unions_exclusive_def
  proof (intro allI impI, elim conjE)
    fix j u idx
    assume j: "j < length (headers p')" "union_membership (headers p' ! j) = Some (u, idx)" "valid_flag (headers p' ! j)"
    then have ne: "j \<noteq> i" using h' i by auto
    then have ji: "j \<noteq> i" "j < length (headers p)" "headers p' ! j = headers p ! j"
      using j(1) h'(1) by simp_all
    then have v: "u_valid (header_unions p ! u)" "u_idx (header_unions p ! u) = idx"
      using ex j by (auto simp: unions_exclusive_def)
    have ju: "u_headers (header_unions p ! u) ! idx = j"
      using phv_wfD(2) [OF wf ji(2)] j(2) ji(3) by auto
    have "union_membership (headers p ! i) \<noteq> Some (u, idx)"
      using phv_wfD(2) [OF wf i, of u idx] ju ji(1) by auto
    then have "header_unions p' ! u = header_unions p ! u"
      using U v by (auto simp: nth_update_if split: option.splits if_splits)
    then show "u_valid (header_unions p' ! u) \<and> u_idx (header_unions p' ! u) = idx" using v by simp
  qed
qed

lemma mark_valid_exclusive:
  assumes wf: "phv_wf p" and ex: "unions_exclusive p" and i: "i < length (headers p)"
  shows "\<exists>p'. mark_valid i p = Some p' \<and> phv_wf p' \<and> unions_exclusive p' \<and> valid_flag (headers p' ! i) \<and>
    length (headers p') = length (headers p)"
proof -
  obtain h' where h': "set_validity True (headers p ! i) = Some h'" "header_shape h'" "valid_flag h'"
    "union_membership h' = union_membership (headers p ! i)"
    using set_validity_shape [OF phv_wfD(1) [OF wf i], of True] by auto
  define p1 where "p1 = put_header i h' p"
  have p1: "headers p1 = (headers p)[i := h']" "header_unions p1 = header_unions p"
    by (simp_all add: p1_def put_header_def)
  have wf1: "phv_wf p1"
    by (rule phv_wf_update [OF wf])
      (use h' i wf p1 in \<open>auto simp: nth_list_update phv_wf_def\<close>)
  show ?thesis
  proof (cases "union_membership (headers p ! i)")
    case None
    then have "mark_valid i p = Some p1" using h' i by (simp add: mark_valid_def nth_opt_def p1_def)
    moreover have "unions_exclusive p1"
      using ex None h' i p1 by (auto simp: unions_exclusive_def nth_list_update)
    ultimately show ?thesis using wf1 p1 h' i by simp
  next
    case (Some m)
    obtain u new where un: "union_membership (headers p ! i) = Some (u, new)" using Some by (cases m) auto
    note w = phv_wfD(2) [OF wf i un]
    define uu where "uu = header_unions p ! u"
    \<comment> \<open>after the previous valid header is invalidated, no other header of the union is valid\<close>
    obtain p2 where p2: "(if u_valid uu \<and> u_idx uu \<noteq> new
          then do { i \<leftarrow> nth_opt (u_headers uu) (u_idx uu); mark_invalid i p1 } else Some p1) = Some p2"
      "phv_wf p2" "length (headers p2) = length (headers p)" "headers p2 ! i = h'"
      "map u_headers (header_unions p2) = map u_headers (header_unions p)"
      "\<forall>j < length (headers p). j \<noteq> i \<longrightarrow> union_membership (headers p2 ! j) = union_membership (headers p ! j) \<and>
         (valid_flag (headers p2 ! j) \<longrightarrow> headers p2 ! j = headers p ! j)"
      "\<forall>j < length (headers p). j \<noteq> i \<and> (\<exists>idx. union_membership (headers p ! j) = Some (u, idx)) \<longrightarrow>
         \<not> valid_flag (headers p2 ! j)"
      "\<forall>v. v \<noteq> u \<longrightarrow> header_unions p2 ! v = header_unions p ! v"
    proof (cases "u_valid uu \<and> u_idx uu \<noteq> new")
      case True
      define j0 where "j0 = u_headers uu ! u_idx uu"
      have j0: "u_idx uu < length (u_headers uu)" "j0 < length (headers p)"
        "union_membership (headers p ! j0) = Some (u, u_idx uu)"
        using wf w True by (auto simp: phv_wf_def uu_def j0_def)
      have j0i: "j0 \<noteq> i" using j0(3) un True by auto
      have j1: "j0 < length (headers p1)" "headers p1 ! j0 = headers p ! j0" using j0 j0i p1 by simp_all
      from mark_invalid_effect [OF wf1 j1(1)] obtain p2 h2 where m: "mark_invalid j0 p1 = Some p2" "phv_wf p2"
        "headers p2 = (headers p1)[j0 := h2]" "\<not> valid_flag h2" "union_membership h2 = Some (u, u_idx uu)"
        "map u_headers (header_unions p2) = map u_headers (header_unions p1)"
        "header_unions p2 = (header_unions p1)[u := (header_unions p1 ! u)\<lparr>u_valid := False\<rparr>]"
        using j1(2) j0(3) p1 True by (auto simp: uu_def)
      have "\<not> valid_flag (headers p2 ! j)"
        if j: "j < length (headers p)" "j \<noteq> i" "union_membership (headers p ! j) = Some (u, idx)" for j idx
      proof (cases "j = j0")
        case True
        then show ?thesis using m(3,4) j1(1) by simp
      next
        case False
        have "u_headers uu ! idx = j" using phv_wfD(2) [OF wf j(1,3)] by (simp add: uu_def)
        then have "idx \<noteq> u_idx uu" using False by (auto simp: j0_def)
        then have "\<not> valid_flag (headers p ! j)" using ex j by (auto simp: unions_exclusive_def uu_def)
        then show ?thesis using m(3) False j p1 by simp
      qed
      then have x: "\<forall>j < length (headers p). j \<noteq> i \<and> (\<exists>idx. union_membership (headers p ! j) = Some (u, idx)) \<longrightarrow>
         \<not> valid_flag (headers p2 ! j)" by blast
      show ?thesis
      proof (rule that [OF _ m(2)])
        show "(if u_valid uu \<and> u_idx uu \<noteq> new
          then do { i \<leftarrow> nth_opt (u_headers uu) (u_idx uu); mark_invalid i p1 } else Some p1) = Some p2"
          using True m(1) j0(1) by (simp add: nth_opt_def flip: j0_def)
        show "length (headers p2) = length (headers p)" "headers p2 ! i = h'"
          using m(3) j0i p1 i by simp_all
        show "map u_headers (header_unions p2) = map u_headers (header_unions p)" using m(6) p1 by simp
        show "\<forall>j < length (headers p). j \<noteq> i \<longrightarrow> union_membership (headers p2 ! j) = union_membership (headers p ! j) \<and>
           (valid_flag (headers p2 ! j) \<longrightarrow> headers p2 ! j = headers p ! j)"
          using m(3,4,5) p1 j0(3) by (simp add: nth_update_if)
        show "\<forall>v. v \<noteq> u \<longrightarrow> header_unions p2 ! v = header_unions p ! v" using m(7) p1 by simp
      qed (rule x)
    next
      case False
      have "\<not> valid_flag (headers p ! j)"
        if j: "j < length (headers p)" "j \<noteq> i" "union_membership (headers p ! j) = Some (u, idx)" for j idx
      proof
        assume "valid_flag (headers p ! j)"
        then have "u_valid uu" "u_idx uu = idx" using ex j by (auto simp: unions_exclusive_def uu_def)
        then have "idx = new" using False by auto
        then show False using phv_wfD(2) [OF wf j(1,3)] w j(2) by simp
      qed
      then show ?thesis using that [of p1] False wf1 p1 i by auto
    qed
    have lu: "length (header_unions p2) = length (header_unions p)"
      using p2(5) map_eq_imp_length_eq by metis
    define p3 where "p3 = put_union u ((header_unions p2 ! u)\<lparr>u_idx := new, u_valid := True\<rparr>) p2"
    have p3: "headers p3 = headers p2"
      "header_unions p3 = (header_unions p2)[u := (header_unions p2 ! u)\<lparr>u_idx := new, u_valid := True\<rparr>]"
      by (simp_all add: p3_def put_union_def)
    have uh: "u_headers (header_unions p2 ! v) = u_headers (header_unions p ! v)"
      if "v < length (header_unions p)" for v
      using arg_cong [OF p2(5), of "\<lambda>xs. xs ! v"] that lu by simp
    have n1: "nth_opt (header_unions p1) u = Some uu"
      and n2: "nth_opt (header_unions p2) u = Some (header_unions p2 ! u)"
      using w p1 lu by (simp_all add: nth_opt_def uu_def)
    have "make_header_valid u new p1 = Some p3"
      unfolding make_header_valid_def n1 Option.bind.simps p2(1) n2 by (simp add: p3_def)
    then have "mark_valid i p = Some p3"
      using h' i un by (simp add: mark_valid_def nth_opt_def p1_def [symmetric])
    moreover have "phv_wf p3"
    proof (rule phv_wf_update [OF p2(2)])
      show "\<forall>v < length (header_unions p3). u_valid (header_unions p3 ! v) \<longrightarrow>
         u_idx (header_unions p3 ! v) < length (u_headers (header_unions p3 ! v))"
        using p2(2) w uh [of u] by (auto simp: p3 phv_wf_def nth_update_if)
    qed (use p2(2) in \<open>auto simp: p3 map_update_same dest: phv_wfD(1)\<close>)
    moreover have "unions_exclusive p3"
      unfolding unions_exclusive_def
    proof (intro allI impI, elim conjE)
      fix j v idx
      assume j: "j < length (headers p3)" "union_membership (headers p3 ! j) = Some (v, idx)" "valid_flag (headers p3 ! j)"
      show "u_valid (header_unions p3 ! v) \<and> u_idx (header_unions p3 ! v) = idx"
      proof (cases "j = i")
        case True
        then show ?thesis using j p2(4) p3 h'(4) un w lu by simp
      next
        case False
        have jl: "j < length (headers p)" using j(1) p2(3) p3 by simp
        have e: "headers p2 ! j = headers p ! j" using p2(6) jl False j(3) p3 by simp
        have "v \<noteq> u" using p2(7) jl False j(2,3) p3(1) e by auto
        then have "header_unions p3 ! v = header_unions p ! v" using p2(8) p3(2) by simp
        then show ?thesis using ex jl j(2,3) p3(1) e by (auto simp: unions_exclusive_def)
      qed
    qed
    ultimately show ?thesis using p2(3,4) p3 h'(3) by simp
  qed
qed

section \<open>Copying a vector\<close>

lemma copy_headers_frame:
  assumes "copy_headers src p = Some p'"
  shows "header_unions p' = header_unions p \<and> header_stacks p' = header_stacks p \<and>
    header_union_stacks p' = header_union_stacks p \<and> length (headers p') = length (headers p)"
  by (rule fold_opt_invariant [OF assms [unfolded copy_headers_def each_header_def]])
    (auto simp: update_header_def put_header_def bind_eq_Some_iff)

lemma copy_headers_valid:
  assumes "copy_headers src p = Some p'" "i < length (headers p)"
  shows "i < length (headers src) \<and> valid_flag (headers p' ! i) = valid_flag (headers src ! i)"
proof -
  define g where "g = (\<lambda>i p. do {
     s \<leftarrow> nth_opt (headers src) i;
     update_header (\<lambda>h.
       let h1 = h\<lparr>valid_flag := valid_flag s, metadata := metadata s\<rparr> in
       if valid_flag h1 \<or> metadata h1 then copy_fields h1 s else Some h1) i p })"
  have step: "i < length (headers src) \<and> i < length (headers q) \<and> length (headers q') = length (headers q) \<and>
      valid_flag (headers q' ! i) = valid_flag (headers src ! i) \<and> (\<forall>j. j \<noteq> i \<longrightarrow> headers q' ! j = headers q ! j)"
    if "g i q = Some q'" for i q q'
    using that
    by (auto simp: g_def update_header_def put_header_def bind_eq_Some_iff nth_opt_Some_iff Let_def
        copy_fields_def split: if_splits)
  have "n \<le> length (headers q) \<Longrightarrow> fold_opt g [0..<n] q = Some q' \<Longrightarrow>
      length (headers q') = length (headers q) \<and>
      (\<forall>i < n. i < length (headers src) \<and> valid_flag (headers q' ! i) = valid_flag (headers src ! i))" for n q q'
  proof (induction n arbitrary: q')
    case (Suc n)
    then obtain q1 where q1: "fold_opt g [0..<n] q = Some q1" "g n q1 = Some q'"
      by (auto simp: fold_opt_append bind_eq_Some_iff)
    show ?case using Suc.IH [OF _ q1(1)] Suc.prems(1) step [OF q1(2)] by (auto simp: less_Suc_eq)
  qed simp
  from this [of "length (headers p)" p p'] assms show ?thesis
    by (simp add: copy_headers_def each_header_def g_def)
qed

section \<open>Properties\<close>

text \<open>
  popping \<open>num\<close> headers off a header stack drops the first \<open>num\<close> of its headers, contents and
  validity included, and never fails; the number returned is the number of headers dropped.
\<close>

theorem header_stack_pop_front:
  assumes "stack_ok hdr_kind p st"
  shows "\<exists>st' p'. pop_front_n swap_headers mark_invalid num st p = Some (min (snext st) num, st', p') \<and>
    stack_ok hdr_kind p' st' \<and> elements st' = elements st \<and>
    stack_view hdr_payload p' st' = drop num (stack_view hdr_payload p st)"
  by (rule hs.pop_front_n_view [OF assms])

text \<open>
  pushing \<open>num\<close> headers in front of a header stack puts that many valid headers first, keeps the
  headers that were there behind them and discards what no longer fits the depth.
\<close>

theorem header_stack_push_front:
  assumes "stack_ok hdr_kind p st" "elements st \<noteq> []"
  shows "\<exists>st' p' new. push_front_n swap_headers mark_valid num st p =
      Some (min (get_depth st) num, st', p') \<and>
    stack_ok hdr_kind p' st' \<and> length new = min (get_depth st) num \<and>
    stack_view hdr_payload p' st' =
      take (get_depth st) (map (mark_payload True) new @ stack_view hdr_payload p st)"
  using hs.push_front_n_view [OF assms, of num] unfolding get_depth_def by blast

text \<open>
  the same operation on a full stack of header unions does not discard the last element:
  because marking a union valid does nothing, the union pushed in front is the one that was
  last, with its valid header.
\<close>

theorem union_push_front_recycles:
  assumes "stack_ok un_kind p st" "elements st \<noteq> []" "is_full st"
  shows "\<exists>p'. push_front swap_unions union_mark st p = Some (1, st, p') \<and>
    un_payload p' (hd (elements st)) = un_payload p (last (elements st))"
  using us.push_front_rotates [OF assms(1,2)] assms(1,3) by (simp add: is_full_def stack_ok_def)

text \<open>
  C37: at most one header of a union is valid.  In a well-formed header vector where every valid
  member header is its union's recorded valid header, marking any header valid or invalid
  succeeds and keeps this so, the notifications between headers and unions included.
\<close>

theorem union_exclusive_step:
  assumes "phv_wf p" "unions_exclusive p" "i < length (headers p)"
  shows "(\<exists>p'. mark_valid i p = Some p' \<and> phv_wf p' \<and> unions_exclusive p' \<and> valid_flag (headers p' ! i)) \<and>
    (\<exists>p'. mark_invalid i p = Some p' \<and> phv_wf p' \<and> unions_exclusive p')"
  using mark_valid_exclusive [OF assms] mark_invalid_effect [OF assms(1,3)]
    mark_invalid_exclusive [OF assms(1,2)] by blast

text \<open>
  cloning a packet forgets its unions and stacks.  \<^verbatim>\<open>copy_headers\<close> copies the validity of every
  header, but leaves the unions and the stack counters of the destination as they were: the
  clone of a packet with a valid union has a valid member header in an invalid union.
\<close>

theorem copy_headers_forgets:
  assumes "copy_headers src p = Some p'" "i < length (headers p)" "valid_flag (headers src ! i)"
    and "union_membership (headers p' ! i) = Some (u, idx)" "\<not> u_valid (header_unions p ! u)"
  shows "valid_flag (headers p' ! i) \<and> \<not> u_valid (header_unions p' ! u) \<and> \<not> unions_exclusive p' \<and>
    map snext (header_stacks p') = map snext (header_stacks p)"
proof -
  have "valid_flag (headers p' ! i)" using copy_headers_valid [OF assms(1,2)] assms(3) by simp
  moreover have "\<not> u_valid (header_unions p' ! u)" using copy_headers_frame [OF assms(1)] assms(5) by simp
  ultimately show ?thesis
    using copy_headers_frame [OF assms(1)] assms(2,4) by (auto simp: unions_exclusive_def)
qed

section \<open>A concrete vector\<close>

text \<open>Two headers of one 8-bit field, outside unions, or each in a union of its own.\<close>

definition sample_header :: header where
  "sample_header = the (new_header (build_type [(''f'', 8, False)] (new_header_type 0)) {0, 1} False)"

definition two_headers :: phv where
  "two_headers = empty_phv\<lparr>headers := [sample_header, sample_header]\<rparr>"

definition two_unions :: phv where
  "two_unions = empty_phv\<lparr>
     headers := [sample_header\<lparr>union_membership := Some (0, 0)\<rparr>, sample_header\<lparr>union_membership := Some (1, 0)\<rparr>],
     header_unions := [\<lparr>u_headers = [0], u_valid = False, u_idx = 0\<rparr>,
                       \<lparr>u_headers = [1], u_valid = False, u_idx = 0\<rparr>]\<rparr>"

lemma sample_header_facts:
  "header_shape sample_header" "\<forall>f \<in> set (hfields sample_header). \<not> VL f" "\<not> valid_flag sample_header"
  "union_membership sample_header = None" "hfields sample_header \<noteq> []"
  by (simp_all add: sample_header_def header_shape_def new_header_def new_header_type_def push_back_field_def
      hidden_fields_def new_field_def Let_def bytes_of_bits_def field_ok_def)

lemma two_headers_ok: "n \<le> 2 \<Longrightarrow> stack_ok hdr_kind two_headers \<lparr>elements = [0, 1], snext = n\<rparr>"
  using sample_header_facts
  by (simp add: stack_ok_def two_headers_def hdr_kind_def hdr_shape_def nth_opt_def fixed_shape_def)

lemma two_unions_ok: "stack_ok un_kind two_unions \<lparr>elements = [0, 1], snext = 2\<rparr>"
  using sample_header_facts
  by (simp add: stack_ok_def two_unions_def un_kind_def unions_apart_def hdr_shape_def nth_opt_def fixed_shape_def
      header_shape_def)

theorem header_stack_pop_front_witness:
  "\<exists>st' p'. pop_front_n swap_headers mark_invalid 1 \<lparr>elements = [0, 1], snext = 2\<rparr> two_headers = Some (1, st', p') \<and>
    stack_view hdr_payload p' st' = [hdr_payload two_headers 1]"
  using header_stack_pop_front [OF two_headers_ok [of 2], of 1] by (auto simp: stack_view_def)

theorem header_stack_push_front_witness:
  "\<exists>st' p' new. push_front_n swap_headers mark_valid 1 \<lparr>elements = [0, 1], snext = 1\<rparr> two_headers = Some (1, st', p') \<and>
    stack_view hdr_payload p' st' = map (mark_payload True) new @ [hdr_payload two_headers 0]"
  using header_stack_push_front [OF two_headers_ok [of 1], of 1] by (auto simp: stack_view_def get_depth_def)

theorem union_push_front_recycles_witness:
  "\<exists>p'. push_front swap_unions union_mark \<lparr>elements = [0, 1], snext = 2\<rparr> two_unions =
      Some (1, \<lparr>elements = [0, 1], snext = 2\<rparr>, p') \<and> un_payload p' 0 = un_payload two_unions 1"
  using union_push_front_recycles [OF two_unions_ok] by (auto simp: is_full_def)

lemma two_unions_wf: "phv_wf two_unions" "unions_exclusive two_unions"
  using sample_header_facts
  by (auto simp: phv_wf_def unions_exclusive_def two_unions_def header_shape_def less_Suc_eq numeral_2_eq_2 nth_Cons'
      split: if_splits)

theorem union_exclusive_step_witness:
  "\<exists>p'. mark_valid 1 two_unions = Some p' \<and> unions_exclusive p' \<and> valid_flag (headers p' ! 1)"
  using union_exclusive_step [OF two_unions_wf, of 1] by (auto simp: two_unions_def)

theorem copy_headers_forgets_witness:
  "\<exists>p'. copy_headers (two_unions\<lparr>headers := map (\<lambda>h. h\<lparr>valid_flag := True\<rparr>) (headers two_unions)\<rparr>) two_unions = Some p' \<and>
    \<not> unions_exclusive p'"
proof -
  let ?src = "two_unions\<lparr>headers := map (\<lambda>h. h\<lparr>valid_flag := True\<rparr>) (headers two_unions)\<rparr>"
  have "copy_field_list fs fs \<noteq> None" for fs by (induction fs) auto
  then obtain gs where gs: "copy_field_list (hfields sample_header) (hfields sample_header) = Some gs" by auto
  define p' where "p' = two_unions\<lparr>headers := map (\<lambda>h. h\<lparr>valid_flag := True, hfields := gs\<rparr>) (headers two_unions)\<rparr>"
  have c: "copy_headers ?src two_unions = Some p'"
    using gs by (simp add: copy_headers_def each_header_def two_unions_def update_header_def nth_opt_def
        put_header_def copy_fields_def upt_rec p'_def)
  then show ?thesis
    using copy_headers_forgets [OF c, of 0 0 0] by (simp add: p'_def two_unions_def)
qed

end
