(* ===== verification/Phv_Factory.thy ===== *)
theory Phv_Factory
  imports Phv_Store
begin

text \<open>
  \<^verbatim>\<open>PHVFactory\<close> of phv.h and phv.cpp: descriptions of headers, stacks and unions collected under
  their numbers, and the header vector built from them.  A \<^verbatim>\<open>std::map\<close> is a list of pairs
  sorted by key.  Names and field aliases are left out, as in the header vector itself.
\<close>

section \<open>Ordered maps\<close>

fun smap_insert :: "nat \<Rightarrow> 'v \<Rightarrow> (nat \<times> 'v) list \<Rightarrow> (nat \<times> 'v) list" where
  "smap_insert k v [] = [(k, v)]"
| "smap_insert k v ((k', v') # m) =
     (if k < k' then (k, v) # (k', v') # m
      else if k = k' then (k', v') # m
      else (k', v') # smap_insert k v m)"

definition smap_at :: "(nat \<times> 'v) list \<Rightarrow> nat \<Rightarrow> 'v option" where
  "smap_at m k = map_of m k"

fun smap_modify :: "('v \<Rightarrow> 'v) \<Rightarrow> nat \<Rightarrow> (nat \<times> 'v) list \<Rightarrow> (nat \<times> 'v) list option" where
  "smap_modify g k [] = None"
| "smap_modify g k ((k', v) # m) =
     (if k = k' then Some ((k', g v) # m)
      else do { m' \<leftarrow> smap_modify g k m; Some ((k', v) # m') })"

section \<open>The factory\<close>

record header_desc =
  hd_type :: header_type
  hd_arith :: "nat set"
  hd_metadata :: bool

record phv_factory =
  header_descs :: "(nat \<times> header_desc) list"
  header_stack_descs :: "(nat \<times> nat list) list"
  header_union_descs :: "(nat \<times> nat list) list"
  header_union_stack_descs :: "(nat \<times> nat list) list"

definition new_factory :: phv_factory where
  "new_factory = \<lparr>header_descs = [], header_stack_descs = [], header_union_descs = [],
     header_union_stack_descs = []\<rparr>"

definition new_header_desc :: "header_type \<Rightarrow> bool \<Rightarrow> header_desc" where
  "new_header_desc ht md = \<lparr>hd_type = ht, hd_arith = {..<length (fields_info ht)}, hd_metadata = md\<rparr>"

definition f_push_back_header :: "nat \<Rightarrow> header_type \<Rightarrow> bool \<Rightarrow> phv_factory \<Rightarrow> phv_factory" where
  "f_push_back_header i ht md f =
     f\<lparr>header_descs := smap_insert i (new_header_desc ht md) (header_descs f)\<rparr>"

definition f_push_back_header_stack :: "nat \<Rightarrow> nat list \<Rightarrow> phv_factory \<Rightarrow> phv_factory" where
  "f_push_back_header_stack i ids f =
     f\<lparr>header_stack_descs := smap_insert i ids (header_stack_descs f)\<rparr>"

definition f_push_back_header_union :: "nat \<Rightarrow> nat list \<Rightarrow> phv_factory \<Rightarrow> phv_factory" where
  "f_push_back_header_union i ids f =
     f\<lparr>header_union_descs := smap_insert i ids (header_union_descs f)\<rparr>"

definition f_push_back_header_union_stack :: "nat \<Rightarrow> nat list \<Rightarrow> phv_factory \<Rightarrow> phv_factory" where
  "f_push_back_header_union_stack i ids f =
     f\<lparr>header_union_stack_descs := smap_insert i ids (header_union_stack_descs f)\<rparr>"

subsection \<open>Arithmetic flags\<close>

definition modify_desc :: "(header_desc \<Rightarrow> header_desc) \<Rightarrow> nat \<Rightarrow> phv_factory \<Rightarrow> phv_factory option" where
  "modify_desc g i f = do { m \<leftarrow> smap_modify g i (header_descs f); Some (f\<lparr>header_descs := m\<rparr>) }"

definition enable_field_arith :: "nat \<Rightarrow> nat \<Rightarrow> phv_factory \<Rightarrow> phv_factory option" where
  "enable_field_arith i off = modify_desc (\<lambda>d. d\<lparr>hd_arith := insert off (hd_arith d)\<rparr>) i"

definition enable_all_field_arith :: "nat \<Rightarrow> phv_factory \<Rightarrow> phv_factory option" where
  "enable_all_field_arith =
     modify_desc (\<lambda>d. d\<lparr>hd_arith := {..<length (fields_info (hd_type d))} \<union> hd_arith d\<rparr>)"

definition disable_field_arith :: "nat \<Rightarrow> nat \<Rightarrow> phv_factory \<Rightarrow> phv_factory option" where
  "disable_field_arith i off = modify_desc (\<lambda>d. d\<lparr>hd_arith := hd_arith d - {off}\<rparr>) i"

definition disable_all_field_arith :: "nat \<Rightarrow> phv_factory \<Rightarrow> phv_factory option" where
  "disable_all_field_arith = modify_desc (\<lambda>d. d\<lparr>hd_arith := {}\<rparr>)"

definition enable_stack_field_arith :: "nat \<Rightarrow> nat \<Rightarrow> phv_factory \<Rightarrow> phv_factory option" where
  "enable_stack_field_arith i off f = do {
     ids \<leftarrow> smap_at (header_stack_descs f) i;
     fold_opt (\<lambda>h. enable_field_arith h off) ids f
   }"

definition enable_all_stack_field_arith :: "nat \<Rightarrow> phv_factory \<Rightarrow> phv_factory option" where
  "enable_all_stack_field_arith i f = do {
     ids \<leftarrow> smap_at (header_stack_descs f) i;
     fold_opt enable_all_field_arith ids f
   }"

definition enable_union_stack_field_arith :: "nat \<Rightarrow> nat \<Rightarrow> nat \<Rightarrow> phv_factory \<Rightarrow> phv_factory option" where
  "enable_union_stack_field_arith i header_offset off f = do {
     us \<leftarrow> smap_at (header_union_stack_descs f) i;
     fold_opt (\<lambda>u f. do {
       hs \<leftarrow> smap_at (header_union_descs f) u;
       h \<leftarrow> nth_opt hs header_offset;
       enable_field_arith h off f }) us f
   }"

definition enable_all_union_stack_header_arith :: "nat \<Rightarrow> nat \<Rightarrow> phv_factory \<Rightarrow> phv_factory option" where
  "enable_all_union_stack_header_arith i header_offset f = do {
     us \<leftarrow> smap_at (header_union_stack_descs f) i;
     fold_opt (\<lambda>u f. do {
       hs \<leftarrow> smap_at (header_union_descs f) u;
       h \<leftarrow> nth_opt hs header_offset;
       enable_all_field_arith h f }) us f
   }"

definition enable_all_union_stack_field_arith :: "nat \<Rightarrow> phv_factory \<Rightarrow> phv_factory option" where
  "enable_all_union_stack_field_arith i f = do {
     us \<leftarrow> smap_at (header_union_stack_descs f) i;
     fold_opt (\<lambda>u f. do {
       hs \<leftarrow> smap_at (header_union_descs f) u;
       fold_opt enable_all_field_arith hs f }) us f
   }"

definition enable_all_arith :: "phv_factory \<Rightarrow> phv_factory option" where
  "enable_all_arith f = fold_opt enable_all_field_arith (map fst (header_descs f)) f"

subsection \<open>Building a header vector\<close>

definition factory_create :: "phv_factory \<Rightarrow> phv option" where
  "factory_create f = do {
     p1 \<leftarrow> fold_opt (\<lambda>(i, d). push_back_header i (hd_type d) (hd_arith d) (hd_metadata d))
             (header_descs f) empty_phv;
     p2 \<leftarrow> fold_opt (\<lambda>(i, ids). push_back_header_stack i ids) (header_stack_descs f) p1;
     p3 \<leftarrow> fold_opt (\<lambda>(i, ids). push_back_header_union i ids) (header_union_descs f) p2;
     fold_opt (\<lambda>(i, ids). push_back_header_union_stack i ids) (header_union_stack_descs f) p3
   }"

section \<open>Lemmas\<close>

lemma smap_insert_keys:
  "sorted (map fst m) \<Longrightarrow> distinct (map fst m) \<Longrightarrow>
   sorted (map fst (smap_insert k v m)) \<and> distinct (map fst (smap_insert k v m)) \<and>
   set (map fst (smap_insert k v m)) = insert k (set (map fst m))"
  by (induction k v m rule: smap_insert.induct) auto

lemma smap_insert_lookup:
  "sorted (map fst m) \<Longrightarrow> distinct (map fst m) \<Longrightarrow>
   smap_at (smap_insert k v m) k' =
     (if k' = k then Some (case smap_at m k of None \<Rightarrow> v | Some v' \<Rightarrow> v') else smap_at m k')"
proof (induction k v m rule: smap_insert.induct)
  case (2 k v k1 v1 m)
  have "k < k1 \<Longrightarrow> map_of m k = None"
    using "2.prems" by (auto simp: map_of_eq_None_iff)
  then show ?case using 2 by (auto simp: smap_at_def split: option.splits)
qed (simp add: smap_at_def)

text \<open>Before the unions are made: no memberships, nothing valid.\<close>

definition bare :: "phv \<Rightarrow> bool" where
  "bare p \<longleftrightarrow> header_unions p = [] \<and>
     (\<forall>h \<in> set (headers p). header_shape h \<and> union_membership h = None \<and> \<not> valid_flag h)"

definition all_invalid :: "phv \<Rightarrow> bool" where
  "all_invalid p \<longleftrightarrow> (\<forall>h \<in> set (headers p). \<not> valid_flag h) \<and> (\<forall>u \<in> set (header_unions p). \<not> u_valid u)"

lemma build_type_not_VL: "VL_offset ht = None \<Longrightarrow> VL_offset (build_type specs ht) = None"
  by (induction specs ht rule: build_type.induct) (simp_all add: push_back_field_def Let_def)

lemma push_back_header_bare:
  assumes "push_back_header i ht ar md p = Some p'" "bare p" "ht = build_type specs (new_header_type n)"
  shows "bare p'"
proof -
  have "VL_offset ht = None" using assms(3) by (simp add: build_type_not_VL new_header_type_def)
  then obtain h where h: "new_header ht ar md = Some h" "p' = p\<lparr>headers := headers p @ [h]\<rparr>"
    using assms(1) by (auto simp: push_back_header_def bind_eq_Some_iff split: if_splits)
  have "header_shape h" "\<not> valid_flag h"
    using new_header_shape h(1) assms(3) by blast+
  moreover have "union_membership h = None"
    using h(1) by (auto simp: new_header_def bind_eq_Some_iff Let_def split: if_splits)
  ultimately show ?thesis using assms(2) h(2) by (simp add: bare_def)
qed

lemma set_memberships:
  assumes "distinct ids"
    "fold_opt (\<lambda>(idx, x). update_header (\<lambda>h. Some (h\<lparr>union_membership := Some (u, idx)\<rparr>)) x) (enumerate n ids) p = Some p'"
  shows "header_unions p' = header_unions p \<and> length (headers p') = length (headers p) \<and>
    (\<forall>k < length ids. ids ! k < length (headers p) \<and>
       headers p' ! (ids ! k) = (headers p ! (ids ! k))\<lparr>union_membership := Some (u, n + k)\<rparr>) \<and>
    (\<forall>j. j \<notin> set ids \<longrightarrow> headers p' ! j = headers p ! j)"
  using assms
proof (induction ids arbitrary: n p)
  case (Cons x ids)
  obtain p1 where q: "update_header (\<lambda>h. Some (h\<lparr>union_membership := Some (u, n)\<rparr>)) x p = Some p1"
    "fold_opt (\<lambda>(idx, x). update_header (\<lambda>h. Some (h\<lparr>union_membership := Some (u, idx)\<rparr>)) x) (enumerate (Suc n) ids) p1 = Some p'"
    using Cons.prems(2) by (auto simp: bind_eq_Some_iff)
  have p1: "x < length (headers p)"
    "p1 = put_header x ((headers p ! x)\<lparr>union_membership := Some (u, n)\<rparr>) p"
    "fold_opt (\<lambda>(idx, x). update_header (\<lambda>h. Some (h\<lparr>union_membership := Some (u, idx)\<rparr>)) x) (enumerate (Suc n) ids) p1 = Some p'"
    using q by (auto simp: bind_eq_Some_iff update_header_def nth_opt_Some_iff)
  have d: "distinct ids" "x \<notin> set ids" using Cons.prems(1) by simp_all
  note IH = Cons.IH [OF d(1) p1(3)]
  have "headers p1 ! j = headers p ! j" if "j \<noteq> x" for j using that p1(2) by (simp add: put_header_def)
  moreover have "ids ! k \<noteq> x" if "k < length ids" for k using that d(2) by auto
  moreover have "headers p' ! x = (headers p ! x)\<lparr>union_membership := Some (u, n)\<rparr>"
    using IH d(2) p1(1,2) by (simp add: put_header_def)
  moreover have "length (headers p1) = length (headers p)" "header_unions p1 = header_unions p"
    using p1(2) by (simp_all add: put_header_def)
  ultimately show ?case
    using IH p1(1) by (auto simp: nth_Cons' less_Suc_eq_0_disj)
qed simp

lemma push_back_header_union_wf:
  assumes p': "push_back_header_union i ids p = Some p'" and wf: "phv_wf p" and inv: "all_invalid p"
    and d: "distinct ids" "\<forall>x \<in> set ids. \<forall>u \<in> set (header_unions p). x \<notin> set (u_headers u)"
  shows "phv_wf p' \<and> all_invalid p' \<and>
    map u_headers (header_unions p') = map u_headers (header_unions p) @ [ids]"
proof -
  define U where "U = length (header_unions p)"
  have iU: "i = U" using p' by (simp add: push_back_header_union_def U_def split: if_splits)
  define p1 where "p1 = p\<lparr>header_unions := header_unions p @ [\<lparr>u_headers = ids, u_valid = False, u_idx = 0\<rparr>]\<rparr>"
  have f: "fold_opt (\<lambda>(idx, x). update_header (\<lambda>h. Some (h\<lparr>union_membership := Some (U, idx)\<rparr>)) x) (enumerate 0 ids) p1 = Some p'"
    using p' iU by (simp add: push_back_header_union_def p1_def U_def split: if_splits)
  note M = set_memberships [OF d(1) f]
  have U1: "header_unions p' = header_unions p @ [\<lparr>u_headers = ids, u_valid = False, u_idx = 0\<rparr>]"
    and L: "length (headers p') = length (headers p)"
    and hit: "\<And>k. k < length ids \<Longrightarrow> ids ! k < length (headers p) \<and>
       headers p' ! (ids ! k) = (headers p ! (ids ! k))\<lparr>union_membership := Some (U, k)\<rparr>"
    and miss: "\<And>j. j \<notin> set ids \<Longrightarrow> headers p' ! j = headers p ! j"
    using M by (auto simp: p1_def)
  have old: "headers p' ! (u_headers (header_unions p ! u) ! idx) = headers p ! (u_headers (header_unions p ! u) ! idx)"
    if "u < U" "idx < length (u_headers (header_unions p ! u))" for u idx
    using that d(2) miss unfolding U_def by (metis nth_mem)
  have valid: "valid_flag (headers p' ! j) = valid_flag (headers p ! j) \<and>
      header_shape (headers p' ! j) = header_shape (headers p ! j)" for j
  proof (cases "j \<in> set ids")
    case True
    then obtain k where "k < length ids" "ids ! k = j" by (auto simp: in_set_conv_nth)
    with hit show ?thesis by (auto simp: header_shape_def)
  qed (simp add: miss)
  have "phv_wf p'"
    unfolding phv_wf_def
  proof (intro conjI allI impI)
    fix j assume j: "j < length (headers p')"
    then show "header_shape (headers p' ! j)" using valid phv_wfD(1) [OF wf] L by simp
    fix u idx assume m: "union_membership (headers p' ! j) = Some (u, idx)"
    have "u < length (header_unions p') \<and> idx < length (u_headers (header_unions p' ! u)) \<and>
        u_headers (header_unions p' ! u) ! idx = j"
    proof (cases "j \<in> set ids")
      case True
      then obtain k where k: "k < length ids" "ids ! k = j" by (auto simp: in_set_conv_nth)
      with hit m have "u = U" "idx = k" by auto
      with k show ?thesis by (simp add: U1 U_def)
    next
      case False
      then show ?thesis using phv_wfD(2) [OF wf, of j u idx] m j L miss by (simp add: U1 nth_append)
    qed
    then show "u < length (header_unions p')" "idx < length (u_headers (header_unions p' ! u))"
        "u_headers (header_unions p' ! u) ! idx = j" by blast+
  next
    fix u idx assume a: "u < length (header_unions p')" "idx < length (u_headers (header_unions p' ! u))"
    have "u_headers (header_unions p' ! u) ! idx < length (headers p') \<and>
        union_membership (headers p' ! (u_headers (header_unions p' ! u) ! idx)) = Some (u, idx)"
    proof (cases "u = U")
      case True
      then show ?thesis using a hit L by (simp add: U1 U_def)
    next
      case False
      then have u: "u < U" using a(1) by (simp add: U1 U_def)
      then show ?thesis using a(2) old [OF u] wf L by (simp add: U1 U_def nth_append phv_wf_def)
    qed
    then show "u_headers (header_unions p' ! u) ! idx < length (headers p')"
      "union_membership (headers p' ! (u_headers (header_unions p' ! u) ! idx)) = Some (u, idx)" by blast+
  next
    fix u assume "u < length (header_unions p')" "u_valid (header_unions p' ! u)"
    then show "u_idx (header_unions p' ! u) < length (u_headers (header_unions p' ! u))"
      using inv by (auto simp: all_invalid_def U1 nth_append less_Suc_eq split: if_splits)
  qed
  moreover have "all_invalid p'"
    using inv valid L by (simp add: all_invalid_def U1 all_set_conv_all_nth)
  ultimately show ?thesis by (simp add: U1)
qed

lemma push_unions_wf:
  assumes "fold_opt (\<lambda>(i, ids). push_back_header_union i ids) descs p = Some p'" "phv_wf p" "all_invalid p"
    "distinct (concat (map u_headers (header_unions p) @ map snd descs))"
  shows "phv_wf p' \<and> all_invalid p'"
  using assms
proof (induction descs arbitrary: p)
  case (Cons d descs)
  obtain i ids where d: "d = (i, ids)" by (cases d)
  obtain p1 where p1: "push_back_header_union i ids p = Some p1"
    "fold_opt (\<lambda>(i, ids). push_back_header_union i ids) descs p1 = Some p'"
    using Cons.prems(1) d by (auto simp: bind_eq_Some_iff)
  have "distinct ids" "\<forall>x \<in> set ids. \<forall>u \<in> set (header_unions p). x \<notin> set (u_headers u)"
    using Cons.prems(4) d by auto
  from push_back_header_union_wf [OF p1(1) Cons.prems(2,3) this]
  have w: "phv_wf p1" "all_invalid p1" "map u_headers (header_unions p1) = map u_headers (header_unions p) @ [ids]"
    by blast+
  have "distinct (concat (map u_headers (header_unions p1) @ map snd descs))"
    using Cons.prems(4) w(3) d by simp
  from Cons.IH [OF p1(2) w(1,2) this] show ?case .
qed simp

section \<open>Properties\<close>

text \<open>
  every header vector the factory creates is well-formed: headers and unions refer to each
  other consistently, nothing is valid, so at most one header per union is.  The header types
  are the ones built by adding fixed-width fields, and no header is put in two unions.
\<close>

theorem factory_create_wf:
  assumes "factory_create f = Some p" "distinct (concat (map snd (header_union_descs f)))"
    and "\<forall>d \<in> set (header_descs f). \<exists>specs n. hd_type (snd d) = build_type specs (new_header_type n)"
  shows "phv_wf p \<and> unions_exclusive p \<and> all_invalid p"
proof -
  obtain p1 p2 p3 where
    1: "fold_opt (\<lambda>(i, d). push_back_header i (hd_type d) (hd_arith d) (hd_metadata d)) (header_descs f) empty_phv = Some p1"
    and 2: "fold_opt (\<lambda>(i, ids). push_back_header_stack i ids) (header_stack_descs f) p1 = Some p2"
    and 3: "fold_opt (\<lambda>(i, ids). push_back_header_union i ids) (header_union_descs f) p2 = Some p3"
    and 4: "fold_opt (\<lambda>(i, ids). push_back_header_union_stack i ids) (header_union_stack_descs f) p3 = Some p"
    using assms(1) by (auto simp: factory_create_def bind_eq_Some_iff)
  have "bare p1"
  proof (rule fold_opt_invariant [OF 1])
    fix d p p'
    assume d: "d \<in> set (header_descs f)" and "bare p"
      and b: "(case d of (i, d) \<Rightarrow> push_back_header i (hd_type d) (hd_arith d) (hd_metadata d)) p = Some p'"
    obtain specs n where "hd_type (snd d) = build_type specs (new_header_type n)" using assms(3) d by blast
    with push_back_header_bare [OF _ \<open>bare p\<close>] b show "bare p'" by (auto simp: case_prod_beta)
  qed (simp add: bare_def empty_phv_def)
  then have "bare p2"
    by (rule fold_opt_invariant [OF 2])
      (auto simp: bare_def push_back_header_stack_def split: if_splits)
  then have "phv_wf p2" "all_invalid p2" "header_unions p2 = []"
    by (auto simp: bare_def phv_wf_def all_invalid_def)
  then have "phv_wf p3 \<and> all_invalid p3"
    using push_unions_wf [OF 3] assms(2) by simp
  moreover have "headers p = headers p3 \<and> header_unions p = header_unions p3"
    by (rule fold_opt_invariant [OF 4]) (auto simp: push_back_header_union_stack_def split: if_splits)
  ultimately have "phv_wf p \<and> all_invalid p"
    by (simp add: phv_wf_def all_invalid_def)
  then show ?thesis by (auto simp: unions_exclusive_def all_invalid_def)
qed

definition sample_factory :: phv_factory where
  "sample_factory = f_push_back_header_union 0 [0, 1]
     (f_push_back_header 1 (build_type [(''g'', 16, False)] (new_header_type 1)) False
     (f_push_back_header 0 (build_type [(''f'', 8, False)] (new_header_type 0)) False new_factory))"

theorem factory_create_wf_witness:
  "\<exists>p. factory_create sample_factory = Some p \<and> phv_wf p \<and> unions_exclusive p"
proof -
  have "factory_create sample_factory \<noteq> None"
    by (simp add: factory_create_def sample_factory_def new_factory_def f_push_back_header_def
      f_push_back_header_union_def new_header_desc_def push_back_header_def empty_phv_def new_header_def
      new_header_type_def push_back_field_def hidden_fields_def new_field_def Let_def
      push_back_header_union_def update_header_def nth_opt_def put_header_def bytes_of_bits_def)
  then obtain p where p: "factory_create sample_factory = Some p" by blast
  have "distinct (concat (map snd (header_union_descs sample_factory)))"
    by (simp add: sample_factory_def new_factory_def f_push_back_header_def f_push_back_header_union_def)
  moreover have "\<forall>d \<in> set (header_descs sample_factory). \<exists>specs n. hd_type (snd d) = build_type specs (new_header_type n)"
    by (auto simp: sample_factory_def new_factory_def f_push_back_header_def f_push_back_header_union_def
        new_header_desc_def simp del: build_type.simps)
  ultimately show ?thesis using factory_create_wf [OF p] p by blast
qed

end
