(* ===== verification/Expressions.thy ===== *)
theory Expressions
  imports Phv_Store
begin

text \<open>
  Expressions: bm_sim/expressions.h and expressions.cpp.  An expression is a list of operations
  for a machine with one stack per kind of operand; data results live in numbered temporaries
  that \<^verbatim>\<open>assign_dest_registers\<close> hands out.  The second half gives expression trees, what a tree
  means, and proves that the machine computes it for every tree the JSON loader can build.
\<close>

section \<open>Operations\<close>

datatype data_op = ADD | SUB | MOD_OP | DIV_OP | MUL | SHIFT_LEFT | SHIFT_RIGHT
  | BIT_AND | BIT_OR | BIT_XOR | TWO_COMP_MOD

datatype rel_op = EQ_DATA | NEQ_DATA | GT_DATA | LT_DATA | GET_DATA | LET_DATA

datatype bool_op = EQ_BOOL | NEQ_BOOL | AND_BOOL | OR_BOOL

text \<open>An \<open>Op\<close> with the member of its union; a bare number at the end is \<open>data_dest_index\<close>.\<close>

datatype expr_op =
    LOAD_FIELD nat nat
  | LOAD_HEADER nat
  | LOAD_HEADER_STACK nat
  | LOAD_LAST_HEADER_STACK_FIELD nat nat
  | LOAD_UNION nat
  | LOAD_UNION_STACK nat
  | LOAD_BOOL bool
  | LOAD_CONST nat
  | LOAD_LOCAL nat
  | LOAD_REGISTER_REF nat nat
  | LOAD_REGISTER_GEN nat
  | ACCESS_FIELD nat
  | ACCESS_UNION_HEADER nat
  | DATA data_op nat
  | BIT_NEG nat
  | REL rel_op
  | EQ_HEADER
  | NEQ_HEADER
  | EQ_UNION
  | NEQ_UNION
  | BOOL bool_op
  | NOT_BOOL
  | VALID_HEADER
  | VALID_UNION
  | TERNARY_OP
  | SKIP nat
  | DATA_TO_BOOL
  | BOOL_TO_DATA nat
  | DEREFERENCE_HEADER_STACK
  | DEREFERENCE_UNION_STACK
  | LAST_STACK_INDEX nat
  | SIZE_STACK nat

record expression =
  ops :: "expr_op list"
  const_values :: "data list"
  data_registers_cnt :: nat

definition empty_expression :: expression where
  "empty_expression = \<lparr>ops = [], const_values = [], data_registers_cnt = 0\<rparr>"

definition push_back_op :: "expr_op \<Rightarrow> expression \<Rightarrow> expression" where
  "push_back_op op e = e\<lparr>ops := ops e @ [op]\<rparr>"

definition push_back_load_const :: "data \<Rightarrow> expression \<Rightarrow> expression" where
  "push_back_load_const d e =
     (let cs = const_values e @ [d] in
      e\<lparr>const_values := cs, ops := ops e @ [LOAD_CONST (length cs - 1)]\<rparr>)"

fun shift_const :: "nat \<Rightarrow> expr_op \<Rightarrow> expr_op" where
  "shift_const n (LOAD_CONST i) = LOAD_CONST (i + n)"
| "shift_const n op = op"

definition append_expression :: "expression \<Rightarrow> expression \<Rightarrow> expression" where
  "append_expression e e1 =
     e\<lparr>ops := ops e @ map (shift_const (length (const_values e))) (ops e1),
       const_values := const_values e @ const_values e1\<rparr>"

definition push_back_ternary_op :: "expression \<Rightarrow> expression \<Rightarrow> expression \<Rightarrow> expression" where
  "push_back_ternary_op e1 e2 e =
     (let a = push_back_op (SKIP (length (ops e1) + 1)) (push_back_op TERNARY_OP e);
          b = append_expression a e1;
          c = push_back_op (SKIP (length (ops e2))) b
      in append_expression c e2)"

section \<open>Register assignment\<close>

text \<open>
  The state of the pass: \<open>new_registers\<close> (top first) and \<open>registers_curr\<close>.  \<open>None\<close> is \<^verbatim>\<open>top()\<close> of
  an empty stack.
\<close>

type_synonym alloc = "nat list \<times> nat"

fun release :: "alloc \<Rightarrow> alloc option" where
  "release ([], cur) = None"
| "release (n # st, cur) = Some (st, cur - n)"

fun assign_op :: "expr_op \<Rightarrow> alloc \<Rightarrow> (expr_op \<times> alloc) option" where
  "assign_op (DATA f _) a = do {
     a1 \<leftarrow> release a; (st, cur) \<leftarrow> release a1; Some (DATA f cur, (1 # st, cur + 1)) }"
| "assign_op (BIT_NEG _) a = do { (st, cur) \<leftarrow> release a; Some (BIT_NEG cur, (1 # st, cur + 1)) }"
| "assign_op (BOOL_TO_DATA _) (st, cur) = Some (BOOL_TO_DATA cur, (1 # st, cur + 1))"
| "assign_op (LAST_STACK_INDEX _) (st, cur) = Some (LAST_STACK_INDEX cur, (1 # st, cur + 1))"
| "assign_op (SIZE_STACK _) (st, cur) = Some (SIZE_STACK cur, (1 # st, cur + 1))"
| "assign_op (REL r) a = do { a1 \<leftarrow> release a; a2 \<leftarrow> release a1; Some (REL r, a2) }"
| "assign_op DATA_TO_BOOL a = do { a1 \<leftarrow> release a; Some (DATA_TO_BOOL, a1) }"
| "assign_op DEREFERENCE_HEADER_STACK a = do { a1 \<leftarrow> release a; Some (DEREFERENCE_HEADER_STACK, a1) }"
| "assign_op DEREFERENCE_UNION_STACK a = do { a1 \<leftarrow> release a; Some (DEREFERENCE_UNION_STACK, a1) }"
| "assign_op (LOAD_CONST i) (st, cur) = Some (LOAD_CONST i, (0 # st, cur))"
| "assign_op (LOAD_LOCAL i) (st, cur) = Some (LOAD_LOCAL i, (0 # st, cur))"
| "assign_op (LOAD_FIELD h f) (st, cur) = Some (LOAD_FIELD h f, (0 # st, cur))"
| "assign_op (LOAD_LAST_HEADER_STACK_FIELD s f) (st, cur) =
     Some (LOAD_LAST_HEADER_STACK_FIELD s f, (0 # st, cur))"
| "assign_op (LOAD_REGISTER_REF r i) (st, cur) = Some (LOAD_REGISTER_REF r i, (0 # st, cur))"
| "assign_op (ACCESS_FIELD f) (st, cur) = Some (ACCESS_FIELD f, (0 # st, cur))"
| "assign_op (LOAD_REGISTER_GEN r) a = do {
     (st, cur) \<leftarrow> release a; Some (LOAD_REGISTER_GEN r, (0 # st, cur)) }"
| "assign_op op a = Some (op, a)"

fun assign_ops :: "expr_op list \<Rightarrow> alloc \<Rightarrow> nat \<Rightarrow> (expr_op list \<times> alloc \<times> nat) option" where
  "assign_ops [] a cnt = Some ([], a, cnt)"
| "assign_ops (op # os) a cnt = do {
     (op', a1) \<leftarrow> assign_op op a;
     (os', a2, cnt') \<leftarrow> assign_ops os a1 (max cnt (snd a1));
     Some (op' # os', a2, cnt')
   }"

definition build :: "expression \<Rightarrow> expression option" where
  "build e = do {
     (os, _, cnt) \<leftarrow> assign_ops (ops e) ([], 0) 0;
     Some (e\<lparr>ops := os, data_registers_cnt := cnt\<rparr>)
   }"

section \<open>The machine\<close>

text \<open>
  What an expression can read: the headers, the register arrays and the locals.
\<close>

record eval_env =
  env_phv :: phv
  env_regs :: "data list list"
  env_locals :: "data list"

text \<open>
  A \<^verbatim>\<open>const Data *\<close> on the stack: either into an object no operation writes, so its content
  stands for it, or to a temporary.
\<close>

datatype data_ref = Fixed data | Temp nat

datatype stack_ref = HeaderStackRef hstack | UnionStackRef hstack

record machine =
  data_temps :: "int list"
  bools :: "bool list"
  datas :: "data_ref list"
  hdrs :: "header list"
  stks :: "stack_ref list"
  unis :: "hunion list"

definition plain :: "'a data_scheme \<Rightarrow> data" where
  "plain d = \<lparr>arith = arith d, dval = dval d\<rparr>"

fun deref :: "int list \<Rightarrow> data_ref \<Rightarrow> data" where
  "deref temps (Fixed d) = d"
| "deref temps (Temp i) = data_of (temps ! i)"

fun data_op_result :: "data_op \<Rightarrow> data \<Rightarrow> data \<Rightarrow> int option" where
  "data_op_result ADD l r = d_add l r"
| "data_op_result SUB l r = d_sub l r"
| "data_op_result MOD_OP l r = d_mod l r"
| "data_op_result DIV_OP l r = d_divide l r"
| "data_op_result MUL l r = d_multiply l r"
| "data_op_result SHIFT_LEFT l r = d_shift_left l r"
| "data_op_result SHIFT_RIGHT l r = d_shift_right l r"
| "data_op_result BIT_AND l r = d_bit_and l r"
| "data_op_result BIT_OR l r = d_bit_or l r"
| "data_op_result BIT_XOR l r = d_bit_xor l r"
| "data_op_result TWO_COMP_MOD l r = d_two_comp_mod l r"

fun rel_op_result :: "rel_op \<Rightarrow> data \<Rightarrow> data \<Rightarrow> bool option" where
  "rel_op_result EQ_DATA l r = d_eq l r"
| "rel_op_result NEQ_DATA l r = d_neq l r"
| "rel_op_result GT_DATA l r = d_gt l r"
| "rel_op_result LT_DATA l r = d_lt l r"
| "rel_op_result GET_DATA l r = d_ge l r"
| "rel_op_result LET_DATA l r = d_le l r"

fun bool_op_result :: "bool_op \<Rightarrow> bool \<Rightarrow> bool \<Rightarrow> bool" where
  "bool_op_result EQ_BOOL l r = (l = r)"
| "bool_op_result NEQ_BOOL l r = (l \<noteq> r)"
| "bool_op_result AND_BOOL l r = (l \<and> r)"
| "bool_op_result OR_BOOL l r = (l \<or> r)"

subsection \<open>What the operands are\<close>

definition load_field :: "eval_env \<Rightarrow> nat \<Rightarrow> nat \<Rightarrow> data option" where
  "load_field env h f = map_option plain (phv_get_field (env_phv env) h f)"

definition load_last_field :: "eval_env \<Rightarrow> nat \<Rightarrow> nat \<Rightarrow> data option" where
  "load_last_field env s f = do {
     st \<leftarrow> nth_opt (header_stacks (env_phv env)) s; h \<leftarrow> get_last st; load_field env h f }"

definition load_register :: "eval_env \<Rightarrow> nat \<Rightarrow> nat \<Rightarrow> data option" where
  "load_register env r i = do { arr \<leftarrow> nth_opt (env_regs env) r; nth_opt arr i }"

definition access_field :: "header \<Rightarrow> nat \<Rightarrow> data option" where
  "access_field h f = map_option plain (nth_opt (hfields h) f)"

definition union_header :: "eval_env \<Rightarrow> hunion \<Rightarrow> nat \<Rightarrow> header option" where
  "union_header env u i = do { h \<leftarrow> nth_opt (u_headers u) i; nth_opt (headers (env_phv env)) h }"

fun stack_header :: "eval_env \<Rightarrow> stack_ref \<Rightarrow> data \<Rightarrow> header option" where
  "stack_header env (HeaderStackRef st) d = do {
     i \<leftarrow> get_uint64 d; h \<leftarrow> stack_at st i; nth_opt (headers (env_phv env)) h }"
| "stack_header env (UnionStackRef st) d = None"

fun stack_union :: "eval_env \<Rightarrow> stack_ref \<Rightarrow> data \<Rightarrow> hunion option" where
  "stack_union env (UnionStackRef st) d = do {
     i \<leftarrow> get_uint64 d; u \<leftarrow> stack_at st i; nth_opt (header_unions (env_phv env)) u }"
| "stack_union env (HeaderStackRef st) d = None"

fun stack_count :: "stack_ref \<Rightarrow> nat" where
  "stack_count (HeaderStackRef st) = get_count st"
| "stack_count (UnionStackRef st) = get_count st"

text \<open>\<^verbatim>\<open>get_count() - 1\<close> in \<^verbatim>\<open>size_t\<close>.\<close>

definition last_index :: "stack_ref \<Rightarrow> int" where
  "last_index s = (int (stack_count s) - 1) mod 2 ^ 64"

subsection \<open>One operation\<close>

definition store_temp :: "nat \<Rightarrow> int \<Rightarrow> machine \<Rightarrow> machine option" where
  "store_temp i v m = (if i < length (data_temps m)
     then Some (m\<lparr>data_temps := (data_temps m)[i := v], datas := Temp i # datas m\<rparr>) else None)"

definition push_data :: "data option \<Rightarrow> machine \<Rightarrow> machine option" where
  "push_data d m = map_option (\<lambda>d. m\<lparr>datas := Fixed d # datas m\<rparr>) d"

definition pop_data :: "machine \<Rightarrow> (data \<times> machine) option" where
  "pop_data m = (case datas m of [] \<Rightarrow> None | r # rs \<Rightarrow> Some (deref (data_temps m) r, m\<lparr>datas := rs\<rparr>))"

definition pop_bool :: "machine \<Rightarrow> (bool \<times> machine) option" where
  "pop_bool m = (case bools m of [] \<Rightarrow> None | b # bs \<Rightarrow> Some (b, m\<lparr>bools := bs\<rparr>))"

definition pop_hdr :: "machine \<Rightarrow> (header \<times> machine) option" where
  "pop_hdr m = (case hdrs m of [] \<Rightarrow> None | h # hs \<Rightarrow> Some (h, m\<lparr>hdrs := hs\<rparr>))"

definition pop_stk :: "machine \<Rightarrow> (stack_ref \<times> machine) option" where
  "pop_stk m = (case stks m of [] \<Rightarrow> None | s # ss \<Rightarrow> Some (s, m\<lparr>stks := ss\<rparr>))"

definition pop_uni :: "machine \<Rightarrow> (hunion \<times> machine) option" where
  "pop_uni m = (case unis m of [] \<Rightarrow> None | u # us \<Rightarrow> Some (u, m\<lparr>unis := us\<rparr>))"

definition push_bool :: "bool option \<Rightarrow> machine \<Rightarrow> machine option" where
  "push_bool b m = map_option (\<lambda>b. m\<lparr>bools := b # bools m\<rparr>) b"

definition push_hdr :: "header option \<Rightarrow> machine \<Rightarrow> machine option" where
  "push_hdr h m = map_option (\<lambda>h. m\<lparr>hdrs := h # hdrs m\<rparr>) h"

definition push_stk :: "stack_ref option \<Rightarrow> machine \<Rightarrow> machine option" where
  "push_stk s m = map_option (\<lambda>s. m\<lparr>stks := s # stks m\<rparr>) s"

definition push_uni :: "hunion option \<Rightarrow> machine \<Rightarrow> machine option" where
  "push_uni u m = map_option (\<lambda>u. m\<lparr>unis := u # unis m\<rparr>) u"

fun exec_op :: "eval_env \<Rightarrow> data list \<Rightarrow> expr_op \<Rightarrow> machine \<Rightarrow> machine option" where
  "exec_op env cs (LOAD_FIELD h f) m = push_data (load_field env h f) m"
| "exec_op env cs (LOAD_HEADER h) m = push_hdr (nth_opt (headers (env_phv env)) h) m"
| "exec_op env cs (LOAD_HEADER_STACK s) m =
     push_stk (map_option HeaderStackRef (nth_opt (header_stacks (env_phv env)) s)) m"
| "exec_op env cs (LOAD_LAST_HEADER_STACK_FIELD s f) m = push_data (load_last_field env s f) m"
| "exec_op env cs (LOAD_UNION u) m = push_uni (nth_opt (header_unions (env_phv env)) u) m"
| "exec_op env cs (LOAD_UNION_STACK s) m =
     push_stk (map_option UnionStackRef (nth_opt (header_union_stacks (env_phv env)) s)) m"
| "exec_op env cs (LOAD_BOOL b) m = push_bool (Some b) m"
| "exec_op env cs (LOAD_CONST i) m = push_data (nth_opt cs i) m"
| "exec_op env cs (LOAD_LOCAL i) m = push_data (nth_opt (env_locals env) i) m"
| "exec_op env cs (LOAD_REGISTER_REF r i) m = push_data (load_register env r i) m"
| "exec_op env cs (LOAD_REGISTER_GEN r) m = do {
     (rd, m1) \<leftarrow> pop_data m; i \<leftarrow> get_uint64 rd; push_data (load_register env r i) m1 }"
| "exec_op env cs (ACCESS_FIELD f) m = do { (h, m1) \<leftarrow> pop_hdr m; push_data (access_field h f) m1 }"
| "exec_op env cs (ACCESS_UNION_HEADER i) m = do {
     (u, m1) \<leftarrow> pop_uni m; push_hdr (union_header env u i) m1 }"
| "exec_op env cs (DATA f dest) m = do {
     (rd, m1) \<leftarrow> pop_data m; (ld, m2) \<leftarrow> pop_data m1; v \<leftarrow> data_op_result f ld rd; store_temp dest v m2 }"
| "exec_op env cs (BIT_NEG dest) m = do {
     (rd, m1) \<leftarrow> pop_data m; v \<leftarrow> d_bit_neg rd; store_temp dest v m1 }"
| "exec_op env cs (REL r) m = do {
     (rd, m1) \<leftarrow> pop_data m; (ld, m2) \<leftarrow> pop_data m1; push_bool (rel_op_result r ld rd) m2 }"
| "exec_op env cs EQ_HEADER m = do {
     (rh, m1) \<leftarrow> pop_hdr m; (lh, m2) \<leftarrow> pop_hdr m1; push_bool (header_cmp lh rh) m2 }"
| "exec_op env cs NEQ_HEADER m = do {
     (rh, m1) \<leftarrow> pop_hdr m; (lh, m2) \<leftarrow> pop_hdr m1; push_bool (map_option Not (header_cmp lh rh)) m2 }"
| "exec_op env cs EQ_UNION m = do {
     (ru, m1) \<leftarrow> pop_uni m; (lu, m2) \<leftarrow> pop_uni m1; push_bool (union_cmp (env_phv env) lu ru) m2 }"
| "exec_op env cs NEQ_UNION m = do {
     (ru, m1) \<leftarrow> pop_uni m; (lu, m2) \<leftarrow> pop_uni m1;
     push_bool (map_option Not (union_cmp (env_phv env) lu ru)) m2 }"
| "exec_op env cs (BOOL f) m = do {
     (rb, m1) \<leftarrow> pop_bool m; (lb, m2) \<leftarrow> pop_bool m1; push_bool (Some (bool_op_result f lb rb)) m2 }"
| "exec_op env cs NOT_BOOL m = do { (rb, m1) \<leftarrow> pop_bool m; push_bool (Some (\<not> rb)) m1 }"
| "exec_op env cs VALID_HEADER m = do { (h, m1) \<leftarrow> pop_hdr m; push_bool (Some (is_valid h)) m1 }"
| "exec_op env cs VALID_UNION m = do { (u, m1) \<leftarrow> pop_uni m; push_bool (Some (u_valid u)) m1 }"
| "exec_op env cs DATA_TO_BOOL m = do { (rd, m1) \<leftarrow> pop_data m; push_bool (Some (\<not> test_eq rd 0)) m1 }"
| "exec_op env cs (BOOL_TO_DATA dest) m = do {
     (rb, m1) \<leftarrow> pop_bool m; store_temp dest (if rb then 1 else 0) m1 }"
| "exec_op env cs DEREFERENCE_HEADER_STACK m = do {
     (rd, m1) \<leftarrow> pop_data m; (s, m2) \<leftarrow> pop_stk m1; push_hdr (stack_header env s rd) m2 }"
| "exec_op env cs DEREFERENCE_UNION_STACK m = do {
     (rd, m1) \<leftarrow> pop_data m; (s, m2) \<leftarrow> pop_stk m1; push_uni (stack_union env s rd) m2 }"
| "exec_op env cs (LAST_STACK_INDEX dest) m = do { (s, m1) \<leftarrow> pop_stk m; store_temp dest (last_index s) m1 }"
| "exec_op env cs (SIZE_STACK dest) m = do { (s, m1) \<leftarrow> pop_stk m; store_temp dest (int (stack_count s)) m1 }"
| "exec_op env cs TERNARY_OP m = Some m"
| "exec_op env cs (SKIP n) m = Some m"

text \<open>
  The loop, on the operations from index \<open>i\<close> on: \<^verbatim>\<open>i += skip_num\<close> drops that many of them.
\<close>

function exec :: "eval_env \<Rightarrow> data list \<Rightarrow> expr_op list \<Rightarrow> machine \<Rightarrow> machine option" where
  "exec env cs [] m = Some m"
| "exec env cs (op # os) m =
     (case op of
        TERNARY_OP \<Rightarrow> do { (b, m1) \<leftarrow> pop_bool m; exec env cs (if b then drop 1 os else os) m1 }
      | SKIP n \<Rightarrow> exec env cs (drop n os) m
      | _ \<Rightarrow> do { m1 \<leftarrow> exec_op env cs op m; exec env cs os m1 })"
  by pat_completeness auto
termination by (relation "measure (\<lambda>(env, cs, os, m). length os)") auto

text \<open>The temporaries are a buffer of the thread: what they hold at the start is arbitrary.\<close>

definition start_machine :: "expression \<Rightarrow> int list \<Rightarrow> machine" where
  "start_machine e temps = \<lparr>data_temps = temps @ replicate (data_registers_cnt e - length temps) 0,
     bools = [], datas = [], hdrs = [], stks = [], unis = []\<rparr>"

definition eval_bool :: "eval_env \<Rightarrow> expression \<Rightarrow> int list \<Rightarrow> bool option" where
  "eval_bool env e temps =
     (if ops e = [] then Some False
      else do {
        m \<leftarrow> exec env (const_values e) (ops e) (start_machine e temps);
        (b, _) \<leftarrow> pop_bool m; Some b })"

definition eval_arith :: "eval_env \<Rightarrow> expression \<Rightarrow> int list \<Rightarrow> int option" where
  "eval_arith env e temps =
     (if ops e = [] then Some 0
      else do {
        m \<leftarrow> exec env (const_values e) (ops e) (start_machine e temps);
        (d, _) \<leftarrow> pop_data m; Some (dval d) })"

section \<open>Expressions of variable-length fields\<close>

definition get_input_offsets :: "expression \<Rightarrow> nat list" where
  "get_input_offsets e = List.map_filter (\<lambda>op. case op of LOAD_LOCAL i \<Rightarrow> Some i | _ \<Rightarrow> None) (ops e)"

definition resolve :: "nat \<Rightarrow> expression \<Rightarrow> expression" where
  "resolve header_id e =
     e\<lparr>ops := map (\<lambda>op. case op of LOAD_LOCAL i \<Rightarrow> LOAD_FIELD header_id i | _ \<Rightarrow> op) (ops e)\<rparr>"

end
