(* ===== verification/Expression_Trees.thy ===== *)
theory Expression_Trees
  imports Expressions
begin

text \<open>
  Expression trees, the order in which the loader pushes them onto an \<^verbatim>\<open>Expression\<close>, and the
  proof that register assignment and the stack machine compute what the tree means.
\<close>

section \<open>Trees and their meaning\<close>

datatype sexp = StackE nat | UnionStackE nat

datatype dexp =
    FieldE nat nat
  | LastFieldE nat nat
  | ConstE data
  | LocalE nat
  | RegisterE nat nat
  | RegisterAtE nat dexp
  | AccessE hexp nat
  | DataE data_op dexp dexp
  | NegE dexp
  | FromBoolE bexp
  | LastIndexE sexp
  | SizeE sexp
  | TernE bexp dexp dexp
and bexp =
    BoolE bool
  | RelE rel_op dexp dexp
  | EqHeaderE hexp hexp
  | NeqHeaderE hexp hexp
  | EqUnionE uexp uexp
  | NeqUnionE uexp uexp
  | BoolOpE bool_op bexp bexp
  | NotE bexp
  | ValidE hexp
  | ValidUnionE uexp
  | ToBoolE dexp
  | TernBE bexp bexp bexp
and hexp =
    HeaderE nat
  | MemberE uexp nat
  | StackHeaderE sexp dexp
and uexp =
    UnionE nat
  | StackUnionE sexp dexp

fun seval :: "eval_env \<Rightarrow> sexp \<Rightarrow> stack_ref option" where
  "seval env (StackE s) = map_option HeaderStackRef (nth_opt (header_stacks (env_phv env)) s)"
| "seval env (UnionStackE s) = map_option UnionStackRef (nth_opt (header_union_stacks (env_phv env)) s)"

fun deval :: "eval_env \<Rightarrow> dexp \<Rightarrow> data option"
  and beval :: "eval_env \<Rightarrow> bexp \<Rightarrow> bool option"
  and heval :: "eval_env \<Rightarrow> hexp \<Rightarrow> header option"
  and ueval :: "eval_env \<Rightarrow> uexp \<Rightarrow> hunion option" where
  "deval env (FieldE h f) = load_field env h f"
| "deval env (LastFieldE s f) = load_last_field env s f"
| "deval env (ConstE d) = Some d"
| "deval env (LocalE i) = nth_opt (env_locals env) i"
| "deval env (RegisterE r i) = load_register env r i"
| "deval env (RegisterAtE r e) = do { d \<leftarrow> deval env e; i \<leftarrow> get_uint64 d; load_register env r i }"
| "deval env (AccessE h f) = do { x \<leftarrow> heval env h; access_field x f }"
| "deval env (DataE f l r) = do {
     x \<leftarrow> deval env l; y \<leftarrow> deval env r; map_option data_of (data_op_result f x y) }"
| "deval env (NegE e) = do { x \<leftarrow> deval env e; map_option data_of (d_bit_neg x) }"
| "deval env (FromBoolE b) = do { x \<leftarrow> beval env b; Some (data_of (if x then 1 else 0)) }"
| "deval env (LastIndexE s) = do { x \<leftarrow> seval env s; Some (data_of (last_index x)) }"
| "deval env (SizeE s) = do { x \<leftarrow> seval env s; Some (data_of (int (stack_count x))) }"
| "deval env (TernE b l r) = do { x \<leftarrow> beval env b; if x then deval env l else deval env r }"
| "beval env (BoolE b) = Some b"
| "beval env (RelE r x y) = do { a \<leftarrow> deval env x; b \<leftarrow> deval env y; rel_op_result r a b }"
| "beval env (EqHeaderE x y) = do { a \<leftarrow> heval env x; b \<leftarrow> heval env y; header_cmp a b }"
| "beval env (NeqHeaderE x y) = do { a \<leftarrow> heval env x; b \<leftarrow> heval env y; map_option Not (header_cmp a b) }"
| "beval env (EqUnionE x y) = do { a \<leftarrow> ueval env x; b \<leftarrow> ueval env y; union_cmp (env_phv env) a b }"
| "beval env (NeqUnionE x y) = do {
     a \<leftarrow> ueval env x; b \<leftarrow> ueval env y; map_option Not (union_cmp (env_phv env) a b) }"
| "beval env (BoolOpE f x y) = do { a \<leftarrow> beval env x; b \<leftarrow> beval env y; Some (bool_op_result f a b) }"
| "beval env (NotE x) = do { a \<leftarrow> beval env x; Some (\<not> a) }"
| "beval env (ValidE h) = do { x \<leftarrow> heval env h; Some (is_valid x) }"
| "beval env (ValidUnionE u) = do { x \<leftarrow> ueval env u; Some (u_valid x) }"
| "beval env (ToBoolE e) = do { x \<leftarrow> deval env e; Some (\<not> test_eq x 0) }"
| "beval env (TernBE b l r) = do { x \<leftarrow> beval env b; if x then beval env l else beval env r }"
| "heval env (HeaderE h) = nth_opt (headers (env_phv env)) h"
| "heval env (MemberE u i) = do { x \<leftarrow> ueval env u; union_header env x i }"
| "heval env (StackHeaderE s e) = do { x \<leftarrow> seval env s; d \<leftarrow> deval env e; stack_header env x d }"
| "ueval env (UnionE u) = nth_opt (header_unions (env_phv env)) u"
| "ueval env (StackUnionE s e) = do { x \<leftarrow> seval env s; d \<leftarrow> deval env e; stack_union env x d }"

section \<open>Pushing a tree onto an expression\<close>

fun push_sexp :: "sexp \<Rightarrow> expression \<Rightarrow> expression" where
  "push_sexp (StackE s) E = push_back_op (LOAD_HEADER_STACK s) E"
| "push_sexp (UnionStackE s) E = push_back_op (LOAD_UNION_STACK s) E"

fun push_dexp :: "dexp \<Rightarrow> expression \<Rightarrow> expression"
  and push_bexp :: "bexp \<Rightarrow> expression \<Rightarrow> expression"
  and push_hexp :: "hexp \<Rightarrow> expression \<Rightarrow> expression"
  and push_uexp :: "uexp \<Rightarrow> expression \<Rightarrow> expression" where
  "push_dexp (FieldE h f) E = push_back_op (LOAD_FIELD h f) E"
| "push_dexp (LastFieldE s f) E = push_back_op (LOAD_LAST_HEADER_STACK_FIELD s f) E"
| "push_dexp (ConstE d) E = push_back_load_const d E"
| "push_dexp (LocalE i) E = push_back_op (LOAD_LOCAL i) E"
| "push_dexp (RegisterE r i) E = push_back_op (LOAD_REGISTER_REF r i) E"
| "push_dexp (RegisterAtE r e) E = push_back_op (LOAD_REGISTER_GEN r) (push_dexp e E)"
| "push_dexp (AccessE h f) E = push_back_op (ACCESS_FIELD f) (push_hexp h E)"
| "push_dexp (DataE f l r) E = push_back_op (DATA f 0) (push_dexp r (push_dexp l E))"
| "push_dexp (NegE e) E = push_back_op (BIT_NEG 0) (push_dexp e E)"
| "push_dexp (FromBoolE b) E = push_back_op (BOOL_TO_DATA 0) (push_bexp b E)"
| "push_dexp (LastIndexE s) E = push_back_op (LAST_STACK_INDEX 0) (push_sexp s E)"
| "push_dexp (SizeE s) E = push_back_op (SIZE_STACK 0) (push_sexp s E)"
| "push_dexp (TernE b l r) E =
     push_back_ternary_op (push_dexp l empty_expression) (push_dexp r empty_expression) (push_bexp b E)"
| "push_bexp (BoolE b) E = push_back_op (LOAD_BOOL b) E"
| "push_bexp (RelE r x y) E = push_back_op (REL r) (push_dexp y (push_dexp x E))"
| "push_bexp (EqHeaderE x y) E = push_back_op EQ_HEADER (push_hexp y (push_hexp x E))"
| "push_bexp (NeqHeaderE x y) E = push_back_op NEQ_HEADER (push_hexp y (push_hexp x E))"
| "push_bexp (EqUnionE x y) E = push_back_op EQ_UNION (push_uexp y (push_uexp x E))"
| "push_bexp (NeqUnionE x y) E = push_back_op NEQ_UNION (push_uexp y (push_uexp x E))"
| "push_bexp (BoolOpE f x y) E = push_back_op (BOOL f) (push_bexp y (push_bexp x E))"
| "push_bexp (NotE x) E = push_back_op NOT_BOOL (push_bexp x E)"
| "push_bexp (ValidE h) E = push_back_op VALID_HEADER (push_hexp h E)"
| "push_bexp (ValidUnionE u) E = push_back_op VALID_UNION (push_uexp u E)"
| "push_bexp (ToBoolE e) E = push_back_op DATA_TO_BOOL (push_dexp e E)"
| "push_bexp (TernBE b l r) E =
     push_back_ternary_op (push_bexp l empty_expression) (push_bexp r empty_expression) (push_bexp b E)"
| "push_hexp (HeaderE h) E = push_back_op (LOAD_HEADER h) E"
| "push_hexp (MemberE u i) E = push_back_op (ACCESS_UNION_HEADER i) (push_uexp u E)"
| "push_hexp (StackHeaderE s e) E = push_back_op DEREFERENCE_HEADER_STACK (push_dexp e (push_sexp s E))"
| "push_uexp (UnionE u) E = push_back_op (LOAD_UNION u) E"
| "push_uexp (StackUnionE s e) E = push_back_op DEREFERENCE_UNION_STACK (push_dexp e (push_sexp s E))"

section \<open>Code as a function of the constant offset\<close>

text \<open>
  \<open>n\<close> constants are already there: the operations appended, and the constants appended.
\<close>

type_synonym code = "nat \<Rightarrow> expr_op list \<times> data list"

definition code1 :: "expr_op \<Rightarrow> code" where
  "code1 op = (\<lambda>n. ([op], []))"

definition seq_code :: "code \<Rightarrow> code \<Rightarrow> code" where
  "seq_code c d = (\<lambda>n. let (o1, k1) = c n; (o2, k2) = d (n + length k1) in (o1 @ o2, k1 @ k2))"

definition tern_code :: "code \<Rightarrow> code \<Rightarrow> code \<Rightarrow> code" where
  "tern_code b c d = (\<lambda>n.
     let (ob, kb) = b n; (oc, kc) = c (n + length kb); (od, kd) = d (n + length kb + length kc)
     in (ob @ [TERNARY_OP, SKIP (length oc + 1)] @ oc @ [SKIP (length od)] @ od, kb @ kc @ kd))"

fun code_s :: "sexp \<Rightarrow> code" where
  "code_s (StackE s) = code1 (LOAD_HEADER_STACK s)"
| "code_s (UnionStackE s) = code1 (LOAD_UNION_STACK s)"

fun code_d :: "dexp \<Rightarrow> code" and code_b :: "bexp \<Rightarrow> code" and code_h :: "hexp \<Rightarrow> code" and code_u :: "uexp \<Rightarrow> code" where
  "code_d (FieldE h f) = code1 (LOAD_FIELD h f)"
| "code_d (LastFieldE s f) = code1 (LOAD_LAST_HEADER_STACK_FIELD s f)"
| "code_d (ConstE d) = (\<lambda>n. ([LOAD_CONST n], [d]))"
| "code_d (LocalE i) = code1 (LOAD_LOCAL i)"
| "code_d (RegisterE r i) = code1 (LOAD_REGISTER_REF r i)"
| "code_d (RegisterAtE r e) = seq_code (code_d e) (code1 (LOAD_REGISTER_GEN r))"
| "code_d (AccessE h f) = seq_code (code_h h) (code1 (ACCESS_FIELD f))"
| "code_d (DataE f l r) = seq_code (seq_code (code_d l) (code_d r)) (code1 (DATA f 0))"
| "code_d (NegE e) = seq_code (code_d e) (code1 (BIT_NEG 0))"
| "code_d (FromBoolE b) = seq_code (code_b b) (code1 (BOOL_TO_DATA 0))"
| "code_d (LastIndexE s) = seq_code (code_s s) (code1 (LAST_STACK_INDEX 0))"
| "code_d (SizeE s) = seq_code (code_s s) (code1 (SIZE_STACK 0))"
| "code_d (TernE b l r) = tern_code (code_b b) (code_d l) (code_d r)"
| "code_b (BoolE b) = code1 (LOAD_BOOL b)"
| "code_b (RelE r x y) = seq_code (seq_code (code_d x) (code_d y)) (code1 (REL r))"
| "code_b (EqHeaderE x y) = seq_code (seq_code (code_h x) (code_h y)) (code1 EQ_HEADER)"
| "code_b (NeqHeaderE x y) = seq_code (seq_code (code_h x) (code_h y)) (code1 NEQ_HEADER)"
| "code_b (EqUnionE x y) = seq_code (seq_code (code_u x) (code_u y)) (code1 EQ_UNION)"
| "code_b (NeqUnionE x y) = seq_code (seq_code (code_u x) (code_u y)) (code1 NEQ_UNION)"
| "code_b (BoolOpE f x y) = seq_code (seq_code (code_b x) (code_b y)) (code1 (BOOL f))"
| "code_b (NotE x) = seq_code (code_b x) (code1 NOT_BOOL)"
| "code_b (ValidE h) = seq_code (code_h h) (code1 VALID_HEADER)"
| "code_b (ValidUnionE u) = seq_code (code_u u) (code1 VALID_UNION)"
| "code_b (ToBoolE e) = seq_code (code_d e) (code1 DATA_TO_BOOL)"
| "code_b (TernBE b l r) = tern_code (code_b b) (code_b l) (code_b r)"
| "code_h (HeaderE h) = code1 (LOAD_HEADER h)"
| "code_h (MemberE u i) = seq_code (code_u u) (code1 (ACCESS_UNION_HEADER i))"
| "code_h (StackHeaderE s e) = seq_code (seq_code (code_s s) (code_d e)) (code1 DEREFERENCE_HEADER_STACK)"
| "code_u (UnionE u) = code1 (LOAD_UNION u)"
| "code_u (StackUnionE s e) = seq_code (seq_code (code_s s) (code_d e)) (code1 DEREFERENCE_UNION_STACK)"

definition add_code :: "code \<Rightarrow> expression \<Rightarrow> expression" where
  "add_code c E = E\<lparr>ops := ops E @ fst (c (length (const_values E))),
     const_values := const_values E @ snd (c (length (const_values E)))\<rparr>"

text \<open>Moving a piece of code behind \<open>m\<close> more constants shifts its constant numbers.\<close>

definition shifts :: "code \<Rightarrow> bool" where
  "shifts c \<longleftrightarrow> (\<forall>n m. c (n + m) = (map (shift_const m) (fst (c n)), snd (c n)))"

lemma shifts_code1: "(\<forall>i. op \<noteq> LOAD_CONST i) \<Longrightarrow> shifts (code1 op)"
  by (cases op) (simp_all add: shifts_def code1_def)

lemma shiftsD: "shifts c \<Longrightarrow> k = n + m \<Longrightarrow> c k = (map (shift_const m) (fst (c n)), snd (c n))"
  by (simp add: shifts_def)

lemma shifts_seq:
  assumes "shifts c" "shifts d"
  shows "shifts (seq_code c d)"
  unfolding shifts_def
proof (intro allI)
  fix n m
  define kc where "kc = length (snd (c n))"
  note 1 = shiftsD [OF assms(1) refl, of n m]
  have "n + m + kc = (n + kc) + m" by simp
  note 2 = shiftsD [OF assms(2) this]
  show "seq_code c d (n + m) = (map (shift_const m) (fst (seq_code c d n)), snd (seq_code c d n))"
    unfolding seq_code_def Let_def case_prod_beta 1 fst_conv snd_conv kc_def [symmetric] 2 by simp
qed

lemma shifts_tern:
  assumes "shifts b" "shifts c" "shifts d"
  shows "shifts (tern_code b c d)"
  unfolding shifts_def
proof (intro allI)
  fix n m
  define kb where "kb = length (snd (b n))"
  define kc where "kc = length (snd (c (n + kb)))"
  note 1 = shiftsD [OF assms(1) refl, of n m]
  have "n + m + kb = (n + kb) + m" by simp
  note 2 = shiftsD [OF assms(2) this]
  have "n + m + kb + kc = (n + kb + kc) + m" by simp
  note 3 = shiftsD [OF assms(3) this]
  show "tern_code b c d (n + m) = (map (shift_const m) (fst (tern_code b c d n)), snd (tern_code b c d n))"
    unfolding tern_code_def Let_def case_prod_beta 1 fst_conv snd_conv kb_def [symmetric] 2
      kc_def [symmetric] 3
    by simp
qed

lemma shifts_s: "shifts (code_s s)"
  by (cases s) (simp_all add: shifts_code1)

lemma shifts_const: "shifts (\<lambda>n. ([LOAD_CONST n], [d]))"
  by (simp add: shifts_def)

lemma shifts_all:
  shows "shifts (code_d e)" and "shifts (code_b b)" and "shifts (code_h h)" and "shifts (code_u u)"
  by (induction e and b and h and u)
    (simp_all add: shifts_seq shifts_tern shifts_s shifts_const shifts_code1)

lemma push_code1: "(\<forall>i. op \<noteq> LOAD_CONST i) \<Longrightarrow> push_back_op op E = add_code (code1 op) E"
  by (simp add: push_back_op_def add_code_def code1_def)

lemma add_code_seq: "add_code d (add_code c E) = add_code (seq_code c d) E"
  by (simp add: add_code_def seq_code_def Let_def case_prod_beta)

lemma add_code_ternary:
  assumes "shifts c" "shifts d"
  shows "push_back_ternary_op (add_code c empty_expression) (add_code d empty_expression) (add_code b E) =
    add_code (tern_code b c d) E"
proof -
  define n1 where "n1 = length (const_values E @ snd (b (length (const_values E))))"
  define n2 where "n2 = n1 + length (snd (c n1))"
  have c: "map (shift_const n1) (fst (c 0)) = fst (c n1)" "snd (c 0) = snd (c n1)"
    using shiftsD [OF assms(1), of n1 0 n1] by simp_all
  have d: "map (shift_const n2) (fst (d 0)) = fst (d n2)" "snd (d 0) = snd (d n2)"
    using shiftsD [OF assms(2), of n2 0 n2] by simp_all
  have l: "length (fst (c 0)) = length (fst (c n1))" "length (fst (d 0)) = length (fst (d n2))"
    using arg_cong [OF c(1), of length] arg_cong [OF d(1), of length] by simp_all
  show ?thesis
    using c d l
    by (simp add: push_back_ternary_op_def append_expression_def add_code_def tern_code_def empty_expression_def
        push_back_op_def Let_def case_prod_beta n1_def n2_def add.assoc)
qed

lemma push_s: "push_sexp s E = add_code (code_s s) E"
  by (cases s) (simp_all add: push_code1)

lemma push_all:
  shows "push_dexp e E = add_code (code_d e) E" and "push_bexp b E = add_code (code_b b) E"
    and "push_hexp h E = add_code (code_h h) E" and "push_uexp u E = add_code (code_u u) E"
proof (induction e and b and h and u arbitrary: E and E and E and E)
  case (ConstE d)
  then show ?case by (simp add: push_back_load_const_def add_code_def Let_def)
qed (simp_all add: push_code1 push_s add_code_seq add_code_ternary shifts_all)

end
