(* ===== verification/Expression_Correct.thy ===== *)
theory Expression_Correct
  imports Expression_Trees
begin

text \<open>
  The register machine computes the meaning of a tree: composition lemmas for the pieces of
  code of a tree, and the theorems about \<^verbatim>\<open>Expression::eval_bool\<close> and \<^verbatim>\<open>eval_arith\<close>.
\<close>

section \<open>Sequences of operations\<close>

lemma assign_ops_append:
  "assign_ops (xs @ ys) a cnt = do {
     (xs', a1, c1) \<leftarrow> assign_ops xs a cnt;
     (ys', a2, c2) \<leftarrow> assign_ops ys a1 c1;
     Some (xs' @ ys', a2, c2)
   }"
proof (induction xs arbitrary: a cnt)
  case Nil
  show ?case by (cases "assign_ops ys a cnt") auto
next
  case (Cons x xs)
  then show ?case
    by (cases "assign_op x a") (auto simp: case_prod_beta Option.bind_assoc split: Option.bind_split)
qed

lemma assign_ops_length: "assign_ops xs a cnt = Some (xs', a', c') \<Longrightarrow> length xs' = length xs"
  by (induction xs arbitrary: a cnt xs') (auto simp: bind_eq_Some_iff)

text \<open>\<open>keep lo m temps\<close>: \<open>temps\<close> has the same number of temporaries, those below \<open>lo\<close> unchanged.\<close>

definition keep :: "nat \<Rightarrow> machine \<Rightarrow> int list \<Rightarrow> bool" where
  "keep lo m temps \<longleftrightarrow> length temps = length (data_temps m) \<and> (\<forall>i < lo. temps ! i = data_temps m ! i)"

text \<open>
  \<open>put lo hi m v m'\<close>: \<open>m'\<close> is \<open>m\<close> with the value \<open>v\<close> pushed, where only temporaries from \<open>lo\<close> on were
  written and \<open>v\<close>, if it is in a temporary, is in one below \<open>hi\<close>.
\<close>

definition put_d :: "nat \<Rightarrow> nat \<Rightarrow> machine \<Rightarrow> data \<Rightarrow> machine \<Rightarrow> bool" where
  "put_d lo hi m v m' \<longleftrightarrow> (\<exists>temps r. keep lo m temps \<and> m' = m\<lparr>data_temps := temps, datas := r # datas m\<rparr> \<and>
     deref temps r = v \<and> (\<forall>i. r = Temp i \<longrightarrow> lo \<le> i \<and> i < hi))"

definition put_b :: "nat \<Rightarrow> nat \<Rightarrow> machine \<Rightarrow> bool \<Rightarrow> machine \<Rightarrow> bool" where
  "put_b lo hi m v m' \<longleftrightarrow> (\<exists>temps. keep lo m temps \<and> m' = m\<lparr>data_temps := temps, bools := v # bools m\<rparr>)"

definition put_h :: "nat \<Rightarrow> nat \<Rightarrow> machine \<Rightarrow> header \<Rightarrow> machine \<Rightarrow> bool" where
  "put_h lo hi m v m' \<longleftrightarrow> (\<exists>temps. keep lo m temps \<and> m' = m\<lparr>data_temps := temps, hdrs := v # hdrs m\<rparr>)"

definition put_u :: "nat \<Rightarrow> nat \<Rightarrow> machine \<Rightarrow> hunion \<Rightarrow> machine \<Rightarrow> bool" where
  "put_u lo hi m v m' \<longleftrightarrow> (\<exists>temps. keep lo m temps \<and> m' = m\<lparr>data_temps := temps, unis := v # unis m\<rparr>)"

definition put_s :: "nat \<Rightarrow> nat \<Rightarrow> machine \<Rightarrow> stack_ref \<Rightarrow> machine \<Rightarrow> bool" where
  "put_s lo hi m v m' \<longleftrightarrow> (\<exists>temps. keep lo m temps \<and> m' = m\<lparr>data_temps := temps, stks := v # stks m\<rparr>)"

lemmas put_defs = put_d_def put_b_def put_h_def put_u_def put_s_def

lemma keep_refl [simp]: "keep lo m (data_temps m)"
  by (simp add: keep_def)

lemma keep_length: "keep lo m temps \<Longrightarrow> length temps = length (data_temps m)"
  by (simp add: keep_def)

text \<open>What the ternary operator needs of every kind of operand.\<close>

definition widens :: "(nat \<Rightarrow> nat \<Rightarrow> machine \<Rightarrow> 'v \<Rightarrow> machine \<Rightarrow> bool) \<Rightarrow> bool" where
  "widens put \<longleftrightarrow> (\<forall>lo lo2 hi2 hi m temps v m'. keep lo m temps \<and> lo \<le> lo2 \<and> hi2 \<le> hi \<and>
     put lo2 hi2 (m\<lparr>data_temps := temps\<rparr>) v m' \<longrightarrow> put lo hi m v m')"

lemma keep_trans: "keep lo m temps \<Longrightarrow> lo \<le> lo2 \<Longrightarrow> keep lo2 (m\<lparr>data_temps := temps\<rparr>) temps2 \<Longrightarrow> keep lo m temps2"
  by (auto simp: keep_def)

lemma widens_put_d: "widens put_d"
  unfolding widens_def put_d_def
proof (intro allI impI, elim conjE exE)
  fix lo lo2 hi2 hi :: nat and m m' :: machine and temps v temps2 r
  assume "keep lo m temps" "lo \<le> lo2" "keep lo2 (m\<lparr>data_temps := temps\<rparr>) temps2" "hi2 \<le> hi"
    "m' = m\<lparr>data_temps := temps, data_temps := temps2, datas := r # datas (m\<lparr>data_temps := temps\<rparr>)\<rparr>"
    "deref temps2 r = v" "\<forall>i. r = Temp i \<longrightarrow> lo2 \<le> i \<and> i < hi2"
  then show "\<exists>temps r. keep lo m temps \<and> m' = m\<lparr>data_temps := temps, datas := r # datas m\<rparr> \<and>
     deref temps r = v \<and> (\<forall>i. r = Temp i \<longrightarrow> lo \<le> i \<and> i < hi)"
    by (intro exI [of _ temps2] exI [of _ r]) (auto dest: keep_trans)
qed

lemma widens_put_b: "widens put_b"
  unfolding widens_def put_b_def
proof (intro allI impI, elim conjE exE)
  fix lo lo2 hi2 hi :: nat and m m' :: machine and temps v temps2
  assume "keep lo m temps" "lo \<le> lo2" "keep lo2 (m\<lparr>data_temps := temps\<rparr>) temps2"
    "m' = m\<lparr>data_temps := temps, data_temps := temps2, bools := v # bools (m\<lparr>data_temps := temps\<rparr>)\<rparr>"
  then show "\<exists>temps. keep lo m temps \<and> m' = m\<lparr>data_temps := temps, bools := v # bools m\<rparr>"
    by (intro exI [of _ temps2]) (auto dest: keep_trans)
qed

section \<open>Pieces of code\<close>

definition runs ::
  "(nat \<Rightarrow> nat \<Rightarrow> machine \<Rightarrow> 'v \<Rightarrow> machine \<Rightarrow> bool) \<Rightarrow> eval_env \<Rightarrow> data list \<Rightarrow> expr_op list \<Rightarrow> 'v option \<Rightarrow>
   nat \<Rightarrow> nat \<Rightarrow> nat \<Rightarrow> bool" where
  "runs put env cs os v lo hi cnt \<longleftrightarrow> (\<forall>rest m. cnt \<le> length (data_temps m) \<longrightarrow>
     (case v of None \<Rightarrow> exec env cs (os @ rest) m = None
      | Some x \<Rightarrow> \<exists>m'. put lo hi m x m' \<and> exec env cs (os @ rest) m = exec env cs rest m'))"

text \<open>
  A piece of code for a value: started on any allocation state it leaves at least \<open>k\<close> entries \<open>X\<close> on
  top of \<open>new_registers\<close>, and the operations with their destinations push the value.
\<close>

definition computes ::
  "(nat \<Rightarrow> nat \<Rightarrow> machine \<Rightarrow> 'v \<Rightarrow> machine \<Rightarrow> bool) \<Rightarrow> nat \<Rightarrow> eval_env \<Rightarrow> code \<Rightarrow> 'v option \<Rightarrow> bool" where
  "computes put k env c v \<longleftrightarrow> (\<forall>n st cnt. \<exists>X os cnt'. k \<le> length X \<and>
     assign_ops (fst (c n)) (st, sum_list st) cnt = Some (os, (X @ st, sum_list (X @ st)), cnt') \<and>
     cnt \<le> cnt' \<and>
     (\<forall>P Q. length P = n \<longrightarrow> runs put env (P @ snd (c n) @ Q) os v (sum_list st) (sum_list (X @ st)) cnt'))"

lemma computesE:
  assumes "computes put k env c v"
  obtains X os cnt' where "k \<le> length X"
    "assign_ops (fst (c n)) (st, sum_list st) cnt = Some (os, (X @ st, sum_list (X @ st)), cnt')"
    "cnt \<le> cnt'"
    "\<forall>P Q. length P = n \<longrightarrow> runs put env (P @ snd (c n) @ Q) os v (sum_list st) (sum_list (X @ st)) cnt'"
  using assms unfolding computes_def by metis

lemma computesI:
  assumes "\<And>n st cnt. \<exists>X os cnt'. k \<le> length X \<and>
     assign_ops (fst (c n)) (st, sum_list st) cnt = Some (os, (X @ st, sum_list (X @ st)), cnt') \<and>
     cnt \<le> cnt' \<and>
     (\<forall>P Q. length P = n \<longrightarrow> runs put env (P @ snd (c n) @ Q) os v (sum_list st) (sum_list (X @ st)) cnt')"
  shows "computes put k env c v"
  using assms unfolding computes_def by blast

definition jump :: "expr_op \<Rightarrow> bool" where
  "jump op \<longleftrightarrow> (case op of TERNARY_OP \<Rightarrow> True | SKIP n \<Rightarrow> True | _ \<Rightarrow> False)"

lemma exec_step: "\<not> jump op \<Longrightarrow> exec env cs (op # os) m = exec_op env cs op m \<bind> exec env cs os"
  by (cases op) (simp_all add: jump_def)

declare exec.simps(2) [simp del]

text \<open>Code for two operands, one after the other: the pair of values, the second on top.\<close>

definition put2 ::
  "(nat \<Rightarrow> nat \<Rightarrow> machine \<Rightarrow> 'a \<Rightarrow> machine \<Rightarrow> bool) \<Rightarrow> (nat \<Rightarrow> nat \<Rightarrow> machine \<Rightarrow> 'b \<Rightarrow> machine \<Rightarrow> bool) \<Rightarrow>
   nat \<Rightarrow> nat \<Rightarrow> machine \<Rightarrow> 'a \<times> 'b \<Rightarrow> machine \<Rightarrow> bool" where
  "put2 pa pb lo hi m v m' \<longleftrightarrow> (\<exists>mid m1. lo \<le> mid \<and> mid \<le> hi \<and> pa lo mid m (fst v) m1 \<and> pb mid hi m1 (snd v) m')"

definition same_size :: "(nat \<Rightarrow> nat \<Rightarrow> machine \<Rightarrow> 'v \<Rightarrow> machine \<Rightarrow> bool) \<Rightarrow> bool" where
  "same_size put \<longleftrightarrow> (\<forall>lo hi m v m'. put lo hi m v m' \<longrightarrow> length (data_temps m') = length (data_temps m))"

lemma same_size_put: "same_size put_d" "same_size put_b" "same_size put_h" "same_size put_u" "same_size put_s"
  unfolding same_size_def put_defs by (auto dest: keep_length)

lemma same_size_put2: "same_size pa \<Longrightarrow> same_size pb \<Longrightarrow> same_size (put2 pa pb)"
  unfolding same_size_def put2_def by metis

lemma runs_seq:
  assumes "runs pa env cs o1 va lo mid c1" "runs pb env cs o2 vb mid hi c2" "same_size pa"
    and "lo \<le> mid" "mid \<le> hi" "c1 \<le> c2"
  shows "runs (put2 pa pb) env cs (o1 @ o2) (va \<bind> (\<lambda>x. map_option (Pair x) vb)) lo hi c2"
  unfolding runs_def
proof (intro allI impI)
  fix rest and m :: machine assume m: "c2 \<le> length (data_temps m)"
  show "case va \<bind> (\<lambda>x. map_option (Pair x) vb) of
      None \<Rightarrow> exec env cs ((o1 @ o2) @ rest) m = None
    | Some x \<Rightarrow> \<exists>m'. put2 pa pb lo hi m x m' \<and> exec env cs ((o1 @ o2) @ rest) m = exec env cs rest m'"
  proof (cases va)
    case None
    then show ?thesis using assms(1,6) m by (simp add: runs_def)
  next
    case (Some x)
    have "c1 \<le> length (data_temps m)" using assms(6) m by simp
    from assms(1) [unfolded runs_def, rule_format, OF this, of "o2 @ rest"] Some
    obtain m1 where m1: "pa lo mid m x m1" "exec env cs (o1 @ o2 @ rest) m = exec env cs (o2 @ rest) m1"
      by auto
    have l: "c2 \<le> length (data_temps m1)" using m1(1) assms(3) m by (metis same_size_def)
    show ?thesis
    proof (cases vb)
      case None
      then show ?thesis using assms(2) l m1(2) Some by (simp add: runs_def)
    next
      case vb: (Some y)
      then obtain m2 where "pb mid hi m1 y m2" "exec env cs (o2 @ rest) m1 = exec env cs rest m2"
        using assms(2) l by (auto simp: runs_def)
      then show ?thesis using Some vb m1 assms(4,5) by (auto simp: put2_def)
    qed
  qed
qed

lemma computes_pair:
  assumes "computes pa ka env c va" "computes pb kb env d vb" "same_size pa"
  shows "computes (put2 pa pb) (ka + kb) env (seq_code c d) (va \<bind> (\<lambda>x. map_option (Pair x) vb))"
proof (rule computesI)
  fix n st cnt
  define v where "v = va \<bind> (\<lambda>x. map_option (Pair x) vb)"
  obtain X o1 c1 where 1: "ka \<le> length X"
    "assign_ops (fst (c n)) (st, sum_list st) cnt = Some (o1, (X @ st, sum_list (X @ st)), c1)" "cnt \<le> c1"
    "\<forall>P Q. length P = n \<longrightarrow> runs pa env (P @ snd (c n) @ Q) o1 va (sum_list st) (sum_list (X @ st)) c1"
    by (rule computesE [OF assms(1), of n st cnt])
  define n2 where "n2 = n + length (snd (c n))"
  obtain Y o2 c2 where 2: "kb \<le> length Y"
    "assign_ops (fst (d n2)) (X @ st, sum_list (X @ st)) c1 =
       Some (o2, (Y @ X @ st, sum_list (Y @ X @ st)), c2)" "c1 \<le> c2"
    "\<forall>P Q. length P = n2 \<longrightarrow>
       runs pb env (P @ snd (d n2) @ Q) o2 vb (sum_list (X @ st)) (sum_list (Y @ X @ st)) c2"
    by (rule computesE [OF assms(2), of n2 "X @ st" c1])
  have s: "seq_code c d n = (fst (c n) @ fst (d n2), snd (c n) @ snd (d n2))"
    by (simp add: seq_code_def Let_def case_prod_beta n2_def)
  have r: "runs (put2 pa pb) env (P @ snd (seq_code c d n) @ Q) (o1 @ o2) v
      (sum_list st) (sum_list (Y @ X @ st)) c2" if "length P = n" for P Q
    unfolding v_def
  proof (rule runs_seq [where mid = "sum_list (X @ st)"])
    show "runs pa env (P @ snd (seq_code c d n) @ Q) o1 va (sum_list st) (sum_list (X @ st)) c1"
      unfolding s using 1(4) [rule_format, OF that, of "snd (d n2) @ Q"] by simp
    have "length (P @ snd (c n)) = n2" using that by (simp add: n2_def)
    from 2(4) [rule_format, OF this, of Q]
    show "runs pb env (P @ snd (seq_code c d n) @ Q) o2 vb (sum_list (X @ st)) (sum_list (Y @ X @ st)) c2"
      unfolding s by simp
  qed (use assms(3) 2(3) in simp_all)
  have a: "assign_ops (fst (seq_code c d n)) (st, sum_list st) cnt =
      Some (o1 @ o2, (Y @ X @ st, sum_list (Y @ X @ st)), c2)"
    unfolding s fst_conv assign_ops_append 1(2) by (simp only: Option.bind.simps prod.case 2(2))
  have "ka + kb \<le> length (Y @ X)" using 1(1) 2(1) by simp
  moreover have "cnt \<le> c2" using 1(3) 2(3) by simp
  ultimately show "\<exists>X os cnt'. ka + kb \<le> length X \<and>
     assign_ops (fst (seq_code c d n)) (st, sum_list st) cnt = Some (os, (X @ st, sum_list (X @ st)), cnt') \<and>
     cnt \<le> cnt' \<and>
     (\<forall>P Q. length P = n \<longrightarrow> runs (put2 pa pb) env (P @ snd (seq_code c d n) @ Q) os
        (va \<bind> (\<lambda>x. map_option (Pair x) vb)) (sum_list st) (sum_list (X @ st)) cnt')"
    using a r unfolding v_def
    by (intro exI [of _ "Y @ X"] exI [of _ "o1 @ o2"] exI [of _ c2]) simp
qed

text \<open>\<open>gives r v P\<close>: \<open>r\<close> fails where \<open>v\<close> does, and otherwise is a machine related to the value.\<close>

definition gives :: "machine option \<Rightarrow> 'v option \<Rightarrow> ('v \<Rightarrow> machine \<Rightarrow> bool) \<Rightarrow> bool" where
  "gives r v P \<longleftrightarrow> (case v of None \<Rightarrow> r = None | Some y \<Rightarrow> \<exists>m2. r = Some m2 \<and> P y m2)"

text \<open>
  An operation on top of code: how it changes the allocation, and what it does with the value the
  code pushed.
\<close>

definition op_ok ::
  "(nat \<Rightarrow> nat \<Rightarrow> machine \<Rightarrow> 'a \<Rightarrow> machine \<Rightarrow> bool) \<Rightarrow> nat \<Rightarrow> expr_op \<Rightarrow>
   (nat \<Rightarrow> nat \<Rightarrow> machine \<Rightarrow> 'b \<Rightarrow> machine \<Rightarrow> bool) \<Rightarrow> nat \<Rightarrow> eval_env \<Rightarrow> ('a \<Rightarrow> 'b option) \<Rightarrow> bool" where
  "op_ok p k op q k' env w \<longleftrightarrow> (\<forall>Z st. k \<le> length Z \<longrightarrow> (\<exists>X op'. k' \<le> length X \<and>
     assign_op op (Z @ st, sum_list (Z @ st)) = Some (op', (X @ st, sum_list (X @ st))) \<and> \<not> jump op' \<and>
     (\<forall>cs m m1 x. p (sum_list st) (sum_list (Z @ st)) m x m1 \<and> sum_list (X @ st) \<le> length (data_temps m) \<longrightarrow>
       gives (exec_op env cs op' m1) (w x) (q (sum_list st) (sum_list (X @ st)) m))))"

lemma computes_then:
  assumes "computes p k env c v" "op_ok p k op q k' env w"
  shows "computes q k' env (seq_code c (code1 op)) (v \<bind> w)"
proof (rule computesI)
  fix n st cnt
  obtain Z os c1 where 1: "k \<le> length Z"
    "assign_ops (fst (c n)) (st, sum_list st) cnt = Some (os, (Z @ st, sum_list (Z @ st)), c1)" "cnt \<le> c1"
    "\<forall>P Q. length P = n \<longrightarrow> runs p env (P @ snd (c n) @ Q) os v (sum_list st) (sum_list (Z @ st)) c1"
    by (rule computesE [OF assms(1), of n st cnt])
  obtain X op' where 2: "k' \<le> length X"
    "assign_op op (Z @ st, sum_list (Z @ st)) = Some (op', (X @ st, sum_list (X @ st)))" "\<not> jump op'"
    and e: "\<And>cs m m1 x. p (sum_list st) (sum_list (Z @ st)) m x m1 \<Longrightarrow>
      sum_list (X @ st) \<le> length (data_temps m) \<Longrightarrow>
       gives (exec_op env cs op' m1) (w x) (q (sum_list st) (sum_list (X @ st)) m)"
    using assms(2) [unfolded op_ok_def, rule_format, OF 1(1), of st] by blast
  define c2 where "c2 = max c1 (sum_list (X @ st))"
  have s: "seq_code c (code1 op) n = (fst (c n) @ [op], snd (c n))"
    by (simp add: seq_code_def code1_def Let_def case_prod_beta)
  have a: "assign_ops (fst (seq_code c (code1 op) n)) (st, sum_list st) cnt =
      Some (os @ [op'], (X @ st, sum_list (X @ st)), c2)"
    unfolding s fst_conv assign_ops_append 1(2) by (simp add: 2(2) [simplified] c2_def)
  have r: "runs q env (P @ snd (seq_code c (code1 op) n) @ Q) (os @ [op']) (v \<bind> w)
      (sum_list st) (sum_list (X @ st)) c2" if "length P = n" for P Q
    unfolding runs_def s snd_conv
  proof (intro allI impI)
    fix rest and m :: machine assume "c2 \<le> length (data_temps m)"
    then have m: "c1 \<le> length (data_temps m)" "sum_list (X @ st) \<le> length (data_temps m)"
      by (auto simp: c2_def)
    define cs where "cs = P @ snd (c n) @ Q"
    note ih = 1(4) [rule_format, OF that, of Q, folded cs_def, unfolded runs_def, rule_format, OF m(1), of "op' # rest"]
    show "case v \<bind> w of None \<Rightarrow> exec env (P @ snd (c n) @ Q) ((os @ [op']) @ rest) m = None
      | Some x \<Rightarrow> \<exists>m'. q (sum_list st) (sum_list (X @ st)) m x m' \<and>
          exec env (P @ snd (c n) @ Q) ((os @ [op']) @ rest) m = exec env (P @ snd (c n) @ Q) rest m'"
      unfolding cs_def [symmetric]
    proof (cases v)
      case None
      then show "case v \<bind> w of None \<Rightarrow> exec env cs ((os @ [op']) @ rest) m = None
        | Some x \<Rightarrow> \<exists>m'. q (sum_list st) (sum_list (X @ st)) m x m' \<and>
            exec env cs ((os @ [op']) @ rest) m = exec env cs rest m'"
        using ih by simp
    next
      case (Some x)
      then obtain m1 where m1: "p (sum_list st) (sum_list (Z @ st)) m x m1"
        "exec env cs (os @ op' # rest) m = exec env cs (op' # rest) m1"
        using ih by auto
      have x: "exec env cs ((os @ [op']) @ rest) m = exec_op env cs op' m1 \<bind> exec env cs rest"
        using m1(2) exec_step [OF 2(3)] by simp
      show "case v \<bind> w of None \<Rightarrow> exec env cs ((os @ [op']) @ rest) m = None
        | Some x \<Rightarrow> \<exists>m'. q (sum_list st) (sum_list (X @ st)) m x m' \<and>
            exec env cs ((os @ [op']) @ rest) m = exec env cs rest m'"
        unfolding x using e [OF m1(1) m(2), of cs] Some by (auto simp: gives_def split: option.splits)
    qed
  qed
  have "cnt \<le> c2" using 1(3) by (simp add: c2_def)
  then show "\<exists>X os cnt'. k' \<le> length X \<and>
     assign_ops (fst (seq_code c (code1 op) n)) (st, sum_list st) cnt =
       Some (os, (X @ st, sum_list (X @ st)), cnt') \<and> cnt \<le> cnt' \<and>
     (\<forall>P Q. length P = n \<longrightarrow> runs q env (P @ snd (seq_code c (code1 op) n) @ Q) os (v \<bind> w)
        (sum_list st) (sum_list (X @ st)) cnt')"
    using a r 2(1) by blast
qed

section \<open>The operations\<close>

text \<open>No operand at all.\<close>

definition put0 :: "nat \<Rightarrow> nat \<Rightarrow> machine \<Rightarrow> unit \<Rightarrow> machine \<Rightarrow> bool" where
  "put0 lo hi m v m' \<longleftrightarrow> m' = m"

definition code0 :: code where
  "code0 = (\<lambda>n. ([], []))"

lemma computes_code0: "computes put0 0 env code0 (Some ())"
  by (rule computesI) (simp add: code0_def runs_def put0_def)

lemma seq_code0 [simp]: "seq_code code0 c = c"
  by (simp add: seq_code_def code0_def)

lemma put_dI:
  "keep lo m temps \<Longrightarrow> put_d lo hi m v (m\<lparr>data_temps := temps, datas := Fixed v # datas m\<rparr>)"
  unfolding put_d_def by (intro exI [of _ temps] exI [of _ "Fixed v"]) simp

lemma put_tempI:
  assumes "keep lo m temps" "lo \<le> i" "i < hi" "i < length (data_temps m)"
  shows "put_d lo hi m (data_of v) (m\<lparr>data_temps := temps[i := v], datas := Temp i # datas m\<rparr>)"
  unfolding put_d_def using assms
  by (intro exI [of _ "temps[i := v]"] exI [of _ "Temp i"]) (auto simp: keep_def)

lemma put_bI: "keep lo m temps \<Longrightarrow> put_b lo hi m v (m\<lparr>data_temps := temps, bools := v # bools m\<rparr>)"
  and put_hI: "keep lo m temps \<Longrightarrow> put_h lo hi m h (m\<lparr>data_temps := temps, hdrs := h # hdrs m\<rparr>)"
  and put_uI: "keep lo m temps \<Longrightarrow> put_u lo hi m u (m\<lparr>data_temps := temps, unis := u # unis m\<rparr>)"
  and put_sI: "keep lo m temps \<Longrightarrow> put_s lo hi m s (m\<lparr>data_temps := temps, stks := s # stks m\<rparr>)"
  by (auto simp: put_defs)

lemma put_dE:
  assumes "put_d lo hi m v m1"
  obtains temps r where "keep lo m temps" "m1 = m\<lparr>data_temps := temps, datas := r # datas m\<rparr>" "deref temps r = v"
  using assms by (auto simp: put_d_def)

lemma put_bE:
  assumes "put_b lo hi m v m1"
  obtains temps where "keep lo m temps" "m1 = m\<lparr>data_temps := temps, bools := v # bools m\<rparr>"
  using assms by (auto simp: put_b_def)

lemma put_hE:
  assumes "put_h lo hi m v m1"
  obtains temps where "keep lo m temps" "m1 = m\<lparr>data_temps := temps, hdrs := v # hdrs m\<rparr>"
  using assms by (auto simp: put_h_def)

lemma put_uE:
  assumes "put_u lo hi m v m1"
  obtains temps where "keep lo m temps" "m1 = m\<lparr>data_temps := temps, unis := v # unis m\<rparr>"
  using assms by (auto simp: put_u_def)

lemma put_sE:
  assumes "put_s lo hi m v m1"
  obtains temps where "keep lo m temps" "m1 = m\<lparr>data_temps := temps, stks := v # stks m\<rparr>"
  using assms by (auto simp: put_s_def)

lemma put_ddE:
  assumes "put2 put_d put_d lo hi m v m2"
  obtains temps r1 r2 where "keep lo m temps" "m2 = m\<lparr>data_temps := temps, datas := r2 # r1 # datas m\<rparr>"
    "deref temps r1 = fst v" "deref temps r2 = snd v"
proof -
  obtain mid m1 where mid: "lo \<le> mid" "put_d lo mid m (fst v) m1" "put_d mid hi m1 (snd v) m2"
    using assms by (auto simp: put2_def)
  from mid(2) obtain temps r where 1: "keep lo m temps" "m1 = m\<lparr>data_temps := temps, datas := r # datas m\<rparr>"
    "deref temps r = fst v" "\<forall>i. r = Temp i \<longrightarrow> lo \<le> i \<and> i < mid"
    by (auto simp: put_d_def)
  from mid(3) obtain temps2 r2 where 2: "keep mid m1 temps2"
    "m2 = m1\<lparr>data_temps := temps2, datas := r2 # datas m1\<rparr>" "deref temps2 r2 = snd v"
    by (auto simp: put_d_def)
  have "deref temps2 r = fst v" using 1(3,4) 2(1) by (cases r) (auto simp: 1(2) keep_def)
  moreover have "keep lo m temps2" using 1(1) 2(1) mid(1) by (auto simp: 1(2) keep_def)
  ultimately show thesis using 1(2) 2(2,3) by (intro that) auto
qed

lemma put_bbE:
  assumes "put2 put_b put_b lo hi m v m2"
  obtains temps where "keep lo m temps" "m2 = m\<lparr>data_temps := temps, bools := snd v # fst v # bools m\<rparr>"
proof -
  obtain mid m1 where mid: "lo \<le> mid" "put_b lo mid m (fst v) m1" "put_b mid hi m1 (snd v) m2"
    using assms by (auto simp: put2_def)
  from mid(2) obtain t1 where 1: "keep lo m t1" "m1 = m\<lparr>data_temps := t1, bools := fst v # bools m\<rparr>" by (rule put_bE)
  from mid(3) obtain t2 where 2: "keep mid m1 t2" "m2 = m1\<lparr>data_temps := t2, bools := snd v # bools m1\<rparr>" by (rule put_bE)
  have "keep lo m t2" using 1(1) 2(1) mid(1) by (auto simp: 1(2) keep_def)
  then show thesis using 1(2) 2(2) by (intro that) auto
qed

lemma put_hhE:
  assumes "put2 put_h put_h lo hi m v m2"
  obtains temps where "keep lo m temps" "m2 = m\<lparr>data_temps := temps, hdrs := snd v # fst v # hdrs m\<rparr>"
proof -
  obtain mid m1 where mid: "lo \<le> mid" "put_h lo mid m (fst v) m1" "put_h mid hi m1 (snd v) m2"
    using assms by (auto simp: put2_def)
  from mid(2) obtain t1 where 1: "keep lo m t1" "m1 = m\<lparr>data_temps := t1, hdrs := fst v # hdrs m\<rparr>" by (rule put_hE)
  from mid(3) obtain t2 where 2: "keep mid m1 t2" "m2 = m1\<lparr>data_temps := t2, hdrs := snd v # hdrs m1\<rparr>" by (rule put_hE)
  have "keep lo m t2" using 1(1) 2(1) mid(1) by (auto simp: 1(2) keep_def)
  then show thesis using 1(2) 2(2) by (intro that) auto
qed

lemma put_uuE:
  assumes "put2 put_u put_u lo hi m v m2"
  obtains temps where "keep lo m temps" "m2 = m\<lparr>data_temps := temps, unis := snd v # fst v # unis m\<rparr>"
proof -
  obtain mid m1 where mid: "lo \<le> mid" "put_u lo mid m (fst v) m1" "put_u mid hi m1 (snd v) m2"
    using assms by (auto simp: put2_def)
  from mid(2) obtain t1 where 1: "keep lo m t1" "m1 = m\<lparr>data_temps := t1, unis := fst v # unis m\<rparr>" by (rule put_uE)
  from mid(3) obtain t2 where 2: "keep mid m1 t2" "m2 = m1\<lparr>data_temps := t2, unis := snd v # unis m1\<rparr>" by (rule put_uE)
  have "keep lo m t2" using 1(1) 2(1) mid(1) by (auto simp: 1(2) keep_def)
  then show thesis using 1(2) 2(2) by (intro that) auto
qed

lemma put_sdE:
  assumes "put2 put_s put_d lo hi m v m2"
  obtains temps r where "keep lo m temps" "deref temps r = snd v"
    "m2 = m\<lparr>data_temps := temps, stks := fst v # stks m, datas := r # datas m\<rparr>"
proof -
  obtain mid m1 where mid: "lo \<le> mid" "put_s lo mid m (fst v) m1" "put_d mid hi m1 (snd v) m2"
    using assms by (auto simp: put2_def)
  from mid(2) obtain t1 where 1: "keep lo m t1" "m1 = m\<lparr>data_temps := t1, stks := fst v # stks m\<rparr>" by (rule put_sE)
  from mid(3) obtain t2 r where 2: "keep mid m1 t2" "m2 = m1\<lparr>data_temps := t2, datas := r # datas m1\<rparr>"
    "deref t2 r = snd v" by (rule put_dE)
  have "keep lo m t2" using 1(1) 2(1) mid(1) by (auto simp: 1(2) keep_def)
  then show thesis using 1(2) 2(2,3) by (intro that) auto
qed

lemmas put_intros = put_dI put_bI put_hI put_uI put_sI put_tempI
lemmas put_elims = put_dE put_bE put_hE put_uE put_sE put_ddE put_bbE put_hhE put_uuE put_sdE

lemmas machine_ops = pop_data_def pop_bool_def pop_hdr_def pop_uni_def pop_stk_def
  push_data_def push_bool_def push_hdr_def push_uni_def push_stk_def store_temp_def

text \<open>One introduction rule per way an operation changes the allocation.\<close>

lemma op_okI:
  assumes "\<And>Z st. k \<le> length Z \<Longrightarrow> k' \<le> length (X Z)"
    and "\<And>Z st. k \<le> length Z \<Longrightarrow>
      assign_op op (Z @ st, sum_list (Z @ st)) = Some (op' (sum_list (tl (X Z) @ st)), (X Z @ st, sum_list (X Z @ st)))"
    and "\<And>i. \<not> jump (op' i)"
    and "\<And>Z st cs m m1 x. k \<le> length Z \<Longrightarrow> p (sum_list st) (sum_list (Z @ st)) m x m1 \<Longrightarrow>
      sum_list (X Z @ st) \<le> length (data_temps m) \<Longrightarrow>
      gives (exec_op env cs (op' (sum_list (tl (X Z) @ st))) m1) (w x) (q (sum_list st) (sum_list (X Z @ st)) m)"
  shows "op_ok p k op q k' env w"
  unfolding op_ok_def
  using assms
  by (intro allI impI, rule_tac x = "X Z" in exI, rule_tac x = "op' (sum_list (tl (X Z) @ st))" in exI) blast

lemma push_put:
  assumes "keep lo m temps"
  shows "gives (push_data v (m\<lparr>data_temps := temps\<rparr>)) v (put_d lo hi m)"
    and "gives (push_bool b (m\<lparr>data_temps := temps\<rparr>)) b (put_b lo hi m)"
    and "gives (push_hdr h (m\<lparr>data_temps := temps\<rparr>)) h (put_h lo hi m)"
    and "gives (push_uni u (m\<lparr>data_temps := temps\<rparr>)) u (put_u lo hi m)"
    and "gives (push_stk s (m\<lparr>data_temps := temps\<rparr>)) s (put_s lo hi m)"
    and "lo \<le> i \<Longrightarrow> i < hi \<Longrightarrow> i < length (data_temps m) \<Longrightarrow>
      gives (store_temp i x (m\<lparr>data_temps := temps\<rparr>)) (Some (data_of x)) (put_d lo hi m)"
  using assms
  by (auto simp: gives_def machine_ops keep_length intro!: put_intros split: option.splits)

lemma gives_None [simp]: "gives None v P \<longleftrightarrow> v = None"
  by (simp add: gives_def split: option.splits)

lemma gives_fail [simp]: "gives r None P \<longleftrightarrow> r = None"
  by (simp add: gives_def)

lemma push_put0:
  shows "gives (push_data v m) v (put_d lo hi m)" and "gives (push_bool b m) b (put_b lo hi m)"
    and "gives (push_hdr h m) h (put_h lo hi m)" and "gives (push_uni u m) u (put_u lo hi m)"
    and "gives (push_stk s m) s (put_s lo hi m)"
  using push_put(1) [OF keep_refl, of v m lo hi] push_put(2) [OF keep_refl, of b m lo hi]
    push_put(3) [OF keep_refl, of h m lo hi] push_put(4) [OF keep_refl, of u m lo hi]
    push_put(5) [OF keep_refl, of s m lo hi]
  by simp_all

text \<open>Operations that load something.\<close>

lemma ok_load_d:
  assumes "\<And>a. assign_op op a = Some (op, (0 # fst a, snd a))" "\<not> jump op"
    and "\<And>cs m. exec_op env cs op m = push_data v m"
  shows "op_ok put0 0 op put_d 1 env (\<lambda>_. v)"
  by (rule op_okI [where X = "\<lambda>Z. 0 # Z" and op' = "\<lambda>_. op"])
    (use assms in \<open>simp_all add: put0_def push_put0\<close>)

lemma ok_load:
  assumes "\<And>a. assign_op op a = Some (op, a)" "\<not> jump op"
  shows "(\<And>cs m. exec_op env cs op m = push_bool b m) \<Longrightarrow> op_ok put0 0 op put_b 0 env (\<lambda>_. b)"
    and "(\<And>cs m. exec_op env cs op m = push_hdr h m) \<Longrightarrow> op_ok put0 0 op put_h 0 env (\<lambda>_. h)"
    and "(\<And>cs m. exec_op env cs op m = push_uni u m) \<Longrightarrow> op_ok put0 0 op put_u 0 env (\<lambda>_. u)"
    and "(\<And>cs m. exec_op env cs op m = push_stk s m) \<Longrightarrow> op_ok put0 0 op put_s 0 env (\<lambda>_. s)"
  by (rule op_okI [where X = "\<lambda>Z. Z" and op' = "\<lambda>_. op"],
    use assms in \<open>simp_all add: put0_def push_put0\<close>)+

lemmas pops = pop_data_def pop_bool_def pop_hdr_def pop_uni_def pop_stk_def jump_def

text \<open>Operations on headers, unions and bools leave the allocation alone.\<close>

lemma op_sameI:
  assumes "\<And>a. assign_op op a = Some (op, a)" "\<not> jump op"
    and "\<And>lo hi cs m m1 x. p lo hi m x m1 \<Longrightarrow> gives (exec_op env cs op m1) (w x) (q lo hi m)"
  shows "op_ok p 0 op q 0 env w"
  by (rule op_okI [where X = "\<lambda>Z. Z" and op' = "\<lambda>_. op"]) (use assms in auto)

lemma ok_same:
  shows "op_ok put_h 0 VALID_HEADER put_b 0 env (\<lambda>h. Some (is_valid h))"
    and "op_ok put_u 0 VALID_UNION put_b 0 env (\<lambda>u. Some (u_valid u))"
    and "op_ok put_b 0 NOT_BOOL put_b 0 env (\<lambda>b. Some (\<not> b))"
    and "op_ok put_u 0 (ACCESS_UNION_HEADER i) put_h 0 env (\<lambda>u. union_header env u i)"
    and "op_ok (put2 put_b put_b) 0 (BOOL f) put_b 0 env (\<lambda>x. Some (bool_op_result f (fst x) (snd x)))"
    and "op_ok (put2 put_h put_h) 0 EQ_HEADER put_b 0 env (\<lambda>x. header_cmp (fst x) (snd x))"
    and "op_ok (put2 put_h put_h) 0 NEQ_HEADER put_b 0 env (\<lambda>x. map_option Not (header_cmp (fst x) (snd x)))"
    and "op_ok (put2 put_u put_u) 0 EQ_UNION put_b 0 env (\<lambda>x. union_cmp (env_phv env) (fst x) (snd x))"
    and "op_ok (put2 put_u put_u) 0 NEQ_UNION put_b 0 env
      (\<lambda>x. map_option Not (union_cmp (env_phv env) (fst x) (snd x)))"
  by (rule op_sameI; auto simp: pops elim!: put_elims intro!: push_put)+

text \<open>Operations that take data: the allocation releases one or two entries.\<close>

lemma sum_drop1: "Suc 0 \<le> length Z \<Longrightarrow>
    release (Z @ st, sum_list Z + sum_list st) = Some (tl Z @ st, sum_list (tl Z) + sum_list st)"
  for Z :: "nat list"
  by (cases Z) simp_all

lemma tl_tl_length: "2 \<le> length Z \<Longrightarrow> Suc 0 \<le> length Z \<and> Suc 0 \<le> length (tl Z)"
  by (cases Z) simp_all

lemma ok_data:
  shows "op_ok (put2 put_d put_d) 2 (REL r) put_b 0 env (\<lambda>x. rel_op_result r (fst x) (snd x))"
    and "op_ok put_d 1 DATA_TO_BOOL put_b 0 env (\<lambda>x. Some (\<not> test_eq x 0))"
    and "op_ok (put2 put_s put_d) 1 DEREFERENCE_HEADER_STACK put_h 0 env (\<lambda>x. stack_header env (fst x) (snd x))"
    and "op_ok (put2 put_s put_d) 1 DEREFERENCE_UNION_STACK put_u 0 env (\<lambda>x. stack_union env (fst x) (snd x))"
  subgoal
    by (rule op_okI [where X = "\<lambda>Z. tl (tl Z)" and op' = "\<lambda>_. REL r"])
      (auto simp: pops sum_drop1 tl_tl_length elim!: put_elims intro!: push_put)
  subgoal
    by (rule op_okI [where X = tl and op' = "\<lambda>_. DATA_TO_BOOL"])
      (auto simp: pops sum_drop1 elim!: put_elims intro!: push_put)
  subgoal
    by (rule op_okI [where X = tl and op' = "\<lambda>_. DEREFERENCE_HEADER_STACK"])
      (auto simp: pops sum_drop1 elim!: put_elims intro!: push_put)
  subgoal
    by (rule op_okI [where X = tl and op' = "\<lambda>_. DEREFERENCE_UNION_STACK"])
      (auto simp: pops sum_drop1 elim!: put_elims intro!: push_put)
  done

lemma ok_to_data:
  shows "op_ok put_h 0 (ACCESS_FIELD f) put_d 1 env (\<lambda>x. access_field x f)"
    and "op_ok put_d 1 (LOAD_REGISTER_GEN r) put_d 1 env (\<lambda>x. get_uint64 x \<bind> load_register env r)"
    and "op_ok put_b 0 (BOOL_TO_DATA i) put_d 1 env (\<lambda>x. Some (data_of (if x then 1 else 0)))"
    and "op_ok put_s 0 (LAST_STACK_INDEX i) put_d 1 env (\<lambda>x. Some (data_of (last_index x)))"
    and "op_ok put_s 0 (SIZE_STACK i) put_d 1 env (\<lambda>x. Some (data_of (int (stack_count x))))"
    and "op_ok put_d 1 (BIT_NEG i) put_d 1 env (\<lambda>x. map_option data_of (d_bit_neg x))"
    and "op_ok (put2 put_d put_d) 2 (DATA g i) put_d 1 env
      (\<lambda>x. map_option data_of (data_op_result g (fst x) (snd x)))"
  subgoal
    by (rule op_okI [where X = "\<lambda>Z. 0 # Z" and op' = "\<lambda>_. ACCESS_FIELD f"])
      (auto simp: pops elim!: put_elims intro!: push_put)
  subgoal
    by (rule op_okI [where X = "\<lambda>Z. 0 # tl Z" and op' = "\<lambda>_. LOAD_REGISTER_GEN r"])
      (auto simp: pops sum_drop1 elim!: put_elims intro!: push_put split: Option.bind_splits)
  subgoal
    by (rule op_okI [where X = "\<lambda>Z. 1 # Z" and op' = BOOL_TO_DATA])
      (auto simp: pops elim!: put_elims intro!: push_put)
  subgoal
    by (rule op_okI [where X = "\<lambda>Z. 1 # Z" and op' = LAST_STACK_INDEX])
      (auto simp: pops elim!: put_elims intro!: push_put)
  subgoal
    by (rule op_okI [where X = "\<lambda>Z. 1 # Z" and op' = SIZE_STACK])
      (auto simp: pops elim!: put_elims intro!: push_put)
  subgoal
    by (rule op_okI [where X = "\<lambda>Z. 1 # tl Z" and op' = BIT_NEG])
      (auto simp: pops sum_drop1 elim!: put_elims intro!: push_put split: Option.bind_splits)
  subgoal
    by (rule op_okI [where X = "\<lambda>Z. 1 # tl (tl Z)" and op' = "DATA g"])
      (auto simp: pops sum_drop1 tl_tl_length elim!: put_elims intro!: push_put split: Option.bind_splits)
  done

section \<open>The ternary operator\<close>

lemma exec_ternary: "exec env cs (TERNARY_OP # SKIP n # os) m = do {
    (b, m1) \<leftarrow> pop_bool m; if b then exec env cs os m1 else exec env cs (drop n os) m1 }"
  by (simp add: exec.simps(2) split: Option.bind_split)

lemma exec_skip: "exec env cs (SKIP (length os) # os @ rest) m = exec env cs rest m"
  by (simp add: exec.simps(2))

lemma runs_ternary:
  assumes "runs put_b env cs ob vb lo l1 c1" "runs put env cs oc vc l1 l2 c2" "runs put env cs od vd l2 l3 c3"
    and "widens put" "lo \<le> l1" "l1 \<le> l2" "l2 \<le> l3" "c1 \<le> c2" "c2 \<le> c3"
  shows "runs put env cs (ob @ [TERNARY_OP, SKIP (length oc + 1)] @ oc @ [SKIP (length od)] @ od)
    (vb \<bind> (\<lambda>x. if x then vc else vd)) lo l3 c3"
  unfolding runs_def
proof (intro allI impI)
  fix rest and m :: machine assume m: "c3 \<le> length (data_temps m)"
  define k where "k = oc @ SKIP (length od) # od @ rest"
  have e: "(ob @ [TERNARY_OP, SKIP (length oc + 1)] @ oc @ [SKIP (length od)] @ od) @ rest =
      ob @ TERNARY_OP # SKIP (length oc + 1) # k"
    by (simp add: k_def)
  have k: "drop (length oc + 1) k = od @ rest" by (simp add: k_def)
  have m1: "c1 \<le> length (data_temps m)" using m assms(8,9) by simp
  note b = assms(1) [unfolded runs_def, rule_format, OF m1, of "TERNARY_OP # SKIP (length oc + 1) # k"]
  show "case vb \<bind> (\<lambda>x. if x then vc else vd) of
      None \<Rightarrow> exec env cs ((ob @ [TERNARY_OP, SKIP (length oc + 1)] @ oc @ [SKIP (length od)] @ od) @ rest) m = None
    | Some x \<Rightarrow> \<exists>m'. put lo l3 m x m' \<and>
        exec env cs ((ob @ [TERNARY_OP, SKIP (length oc + 1)] @ oc @ [SKIP (length od)] @ od) @ rest) m =
          exec env cs rest m'"
    unfolding e
  proof (cases vb)
    case None
    then show "case vb \<bind> (\<lambda>x. if x then vc else vd) of
        None \<Rightarrow> exec env cs (ob @ TERNARY_OP # SKIP (length oc + 1) # k) m = None
      | Some x \<Rightarrow> \<exists>m'. put lo l3 m x m' \<and>
          exec env cs (ob @ TERNARY_OP # SKIP (length oc + 1) # k) m = exec env cs rest m'"
      using b by simp
  next
    case (Some x)
    then obtain m' where "put_b lo l1 m x m'" and
      r: "exec env cs (ob @ TERNARY_OP # SKIP (length oc + 1) # k) m =
        exec env cs (TERNARY_OP # SKIP (length oc + 1) # k) m'"
      using b by auto
    then obtain temps where t: "keep lo m temps" "m' = m\<lparr>data_temps := temps, bools := x # bools m\<rparr>"
      by (auto elim: put_bE)
    have go: "exec env cs (ob @ TERNARY_OP # SKIP (length oc + 1) # k) m =
        exec env cs (if x then k else od @ rest) (m\<lparr>data_temps := temps\<rparr>)"
      unfolding r exec_ternary k by (simp add: t(2) pop_bool_def)
    have l: "c2 \<le> length (data_temps (m\<lparr>data_temps := temps\<rparr>))" "c3 \<le> length (data_temps (m\<lparr>data_temps := temps\<rparr>))"
      using keep_length [OF t(1)] m assms(9) by simp_all
    note c = assms(2) [unfolded runs_def, rule_format, OF l(1), of "SKIP (length od) # od @ rest"]
    note d = assms(3) [unfolded runs_def, rule_format, OF l(2), of rest]
    have w: "put lo l3 m y m2" if "put l1 l2 (m\<lparr>data_temps := temps\<rparr>) y m2 \<or> put l2 l3 (m\<lparr>data_temps := temps\<rparr>) y m2"
      for y m2
      using assms(4-7) t(1) that unfolding widens_def by (meson order.trans order.refl)
    show "case vb \<bind> (\<lambda>x. if x then vc else vd) of
        None \<Rightarrow> exec env cs (ob @ TERNARY_OP # SKIP (length oc + 1) # k) m = None
      | Some x \<Rightarrow> \<exists>m'. put lo l3 m x m' \<and>
          exec env cs (ob @ TERNARY_OP # SKIP (length oc + 1) # k) m = exec env cs rest m'"
    proof (cases x)
      case True
      then have "vb \<bind> (\<lambda>x. if x then vc else vd) = vc" using Some by simp
      moreover have "exec env cs (ob @ TERNARY_OP # SKIP (length oc + 1) # k) m =
          exec env cs (oc @ SKIP (length od) # od @ rest) (m\<lparr>data_temps := temps\<rparr>)"
        using go True by (simp add: k_def)
      ultimately show ?thesis using c w unfolding exec_skip by (simp split: option.splits) metis
    next
      case False
      then have "vb \<bind> (\<lambda>x. if x then vc else vd) = vd" using Some by simp
      moreover have "exec env cs (ob @ TERNARY_OP # SKIP (length oc + 1) # k) m =
          exec env cs (od @ rest) (m\<lparr>data_temps := temps\<rparr>)"
        using go False by simp
      ultimately show ?thesis using d w by (simp split: option.splits) metis
    qed
  qed
qed

lemma computes_ternary:
  assumes "computes put_b 0 env b vb" "computes put k env c vc" "computes put k env d vd" "widens put"
  shows "computes put k env (tern_code b c d) (vb \<bind> (\<lambda>x. if x then vc else vd))"
proof (rule computesI)
  fix n st cnt
  obtain Z ob c1 where 1:
    "assign_ops (fst (b n)) (st, sum_list st) cnt = Some (ob, (Z @ st, sum_list (Z @ st)), c1)" "cnt \<le> c1"
    "\<forall>P Q. length P = n \<longrightarrow> runs put_b env (P @ snd (b n) @ Q) ob vb (sum_list st) (sum_list (Z @ st)) c1"
    by (rule computesE [OF assms(1), of n st cnt])
  define n2 where "n2 = n + length (snd (b n))"
  define i1 where "i1 = max c1 (sum_list (Z @ st))"
  obtain X oc c2 where 2: "k \<le> length X"
    "assign_ops (fst (c n2)) (Z @ st, sum_list (Z @ st)) i1 =
       Some (oc, (X @ Z @ st, sum_list (X @ Z @ st)), c2)" "i1 \<le> c2"
    "\<forall>P Q. length P = n2 \<longrightarrow>
       runs put env (P @ snd (c n2) @ Q) oc vc (sum_list (Z @ st)) (sum_list (X @ Z @ st)) c2"
    by (rule computesE [OF assms(2), of n2 "Z @ st" i1])
  define n3 where "n3 = n2 + length (snd (c n2))"
  define i2 where "i2 = max c2 (sum_list (X @ Z @ st))"
  obtain Y od c3 where 3: "k \<le> length Y"
    "assign_ops (fst (d n3)) (X @ Z @ st, sum_list (X @ Z @ st)) i2 =
       Some (od, (Y @ X @ Z @ st, sum_list (Y @ X @ Z @ st)), c3)" "i2 \<le> c3"
    "\<forall>P Q. length P = n3 \<longrightarrow>
       runs put env (P @ snd (d n3) @ Q) od vd (sum_list (X @ Z @ st)) (sum_list (Y @ X @ Z @ st)) c3"
    by (rule computesE [OF assms(3), of n3 "X @ Z @ st" i2])
  have len: "length oc = length (fst (c n2))" "length od = length (fst (d n3))"
    using assign_ops_length [OF 2(2)] assign_ops_length [OF 3(2)] by simp_all
  have s: "tern_code b c d n =
      (fst (b n) @ [TERNARY_OP, SKIP (length oc + 1)] @ fst (c n2) @ [SKIP (length od)] @ fst (d n3),
       snd (b n) @ snd (c n2) @ snd (d n3))"
    by (simp add: tern_code_def Let_def case_prod_beta n3_def n2_def len add.assoc)
  define os where "os = ob @ [TERNARY_OP, SKIP (length oc + 1)] @ oc @ [SKIP (length od)] @ od"
  have t1: "assign_ops [TERNARY_OP, SKIP j] a cnt = Some ([TERNARY_OP, SKIP j], a, max cnt (snd a))"
    and t2: "assign_ops [SKIP j] a cnt = Some ([SKIP j], a, max cnt (snd a))" for j a cnt
    by simp_all
  have a: "assign_ops (fst (tern_code b c d n)) (st, sum_list st) cnt =
      Some (os, (Y @ X @ Z @ st, sum_list (Y @ X @ Z @ st)), c3)"
    unfolding s fst_conv assign_ops_append 1(1) os_def t1 t2 Option.bind.simps prod.case snd_conv
      i1_def [symmetric] 2(2) i2_def [symmetric] 3(2)
    by simp
  have r: "runs put env (P @ snd (tern_code b c d n) @ Q) os (vb \<bind> (\<lambda>x. if x then vc else vd))
      (sum_list st) (sum_list (Y @ X @ Z @ st)) c3" if p: "length P = n" for P Q
    unfolding os_def s snd_conv
  proof (rule runs_ternary [OF _ _ _ assms(4), where ?l1.0 = "sum_list (Z @ st)" and ?l2.0 = "sum_list (X @ Z @ st)"])
    show "runs put_b env (P @ (snd (b n) @ snd (c n2) @ snd (d n3)) @ Q) ob vb (sum_list st) (sum_list (Z @ st)) c1"
      using 1(3) [rule_format, OF p, of "snd (c n2) @ snd (d n3) @ Q"] by simp
    have "length (P @ snd (b n)) = n2" using p by (simp add: n2_def)
    from 2(4) [rule_format, OF this, of "snd (d n3) @ Q"]
    show "runs put env (P @ (snd (b n) @ snd (c n2) @ snd (d n3)) @ Q) oc vc
        (sum_list (Z @ st)) (sum_list (X @ Z @ st)) c2" by simp
    have "length (P @ snd (b n) @ snd (c n2)) = n3" using p by (simp add: n2_def n3_def)
    from 3(4) [rule_format, OF this, of Q]
    show "runs put env (P @ (snd (b n) @ snd (c n2) @ snd (d n3)) @ Q) od vd
        (sum_list (X @ Z @ st)) (sum_list (Y @ X @ Z @ st)) c3" by simp
  qed (use 2(3) 3(3) in \<open>simp_all add: i1_def i2_def\<close>)
  have "k \<le> length (Y @ X @ Z)" "cnt \<le> c3" using 1(2) 2(1,3) 3(3) by (simp_all add: i1_def i2_def)
  then show "\<exists>X os cnt'. k \<le> length X \<and>
     assign_ops (fst (tern_code b c d n)) (st, sum_list st) cnt = Some (os, (X @ st, sum_list (X @ st)), cnt') \<and>
     cnt \<le> cnt' \<and>
     (\<forall>P Q. length P = n \<longrightarrow> runs put env (P @ snd (tern_code b c d n) @ Q) os
        (vb \<bind> (\<lambda>x. if x then vc else vd)) (sum_list st) (sum_list (X @ st)) cnt')"
    using a r by (intro exI [of _ "Y @ X @ Z"] exI [of _ os] exI [of _ c3]) simp
qed

section \<open>Every tree\<close>

lemma computes_load: "op_ok put0 0 op q k env (\<lambda>_. v) \<Longrightarrow> computes q k env (code1 op) v"
  using computes_then [OF computes_code0] by fastforce

lemma computes_then2:
  assumes "computes pa ka env c va" "computes pb kb env d vb" "same_size pa"
    and "op_ok (put2 pa pb) kk op q k env w" "kk = ka + kb"
  shows "computes q k env (seq_code (seq_code c d) (code1 op)) (do { x \<leftarrow> va; y \<leftarrow> vb; w (x, y) })"
proof -
  have e: "(va \<bind> (\<lambda>x. map_option (Pair x) vb)) \<bind> w = do { x \<leftarrow> va; y \<leftarrow> vb; w (x, y) }"
    by (cases va; cases vb) simp_all
  show ?thesis using computes_then [OF computes_pair [OF assms(1-3)] assms(4) [unfolded assms(5)]] unfolding e .
qed

lemma computes_const: "computes put_d 1 env (\<lambda>n. ([LOAD_CONST n], [d])) (Some d)"
proof (rule computesI)
  fix n st cnt
  have "runs put_d env (P @ [d] @ Q) [LOAD_CONST n] (Some d) (sum_list st) (sum_list (0 # st)) k"
    if "length P = n" for P Q k
    unfolding runs_def option.case
  proof (intro allI impI)
    fix rest m
    obtain m2 where "push_data (Some d) m = Some m2" "put_d (sum_list st) (sum_list (0 # st)) m d m2"
      using push_put0(1) [of "Some d" m "sum_list st" "sum_list (0 # st)"] by (auto simp: gives_def)
    then show "\<exists>m'. put_d (sum_list st) (sum_list (0 # st)) m d m' \<and>
        exec env (P @ [d] @ Q) ([LOAD_CONST n] @ rest) m = exec env (P @ [d] @ Q) rest m'"
      using that by (intro exI [of _ m2]) (auto simp: exec_step jump_def nth_opt_def nth_append)
  qed
  then show "\<exists>X os cnt'. 1 \<le> length X \<and>
     assign_ops (fst ([LOAD_CONST n], [d])) (st, sum_list st) cnt = Some (os, (X @ st, sum_list (X @ st)), cnt') \<and>
     cnt \<le> cnt' \<and>
     (\<forall>P Q. length P = n \<longrightarrow> runs put_d env (P @ snd ([LOAD_CONST n], [d]) @ Q) os (Some d)
        (sum_list st) (sum_list (X @ st)) cnt')"
    by (intro exI [of _ "[0]"]) auto
qed

lemma computes_s: "computes put_s 0 env (code_s s) (seval env s)"
  by (cases s) (auto simp: jump_def intro!: computes_load ok_load)

lemma two: "(2::nat) = 1 + 1" "(1::nat) = 0 + 1" "(0::nat) = 0 + 0"
  by simp_all

lemmas on_dd = computes_then2 [OF _ _ same_size_put(1) _ two(1)]
lemmas on_sd = computes_then2 [OF _ _ same_size_put(5) _ two(2)]
lemmas on_bb = computes_then2 [OF _ _ same_size_put(2) _ two(3)]
lemmas on_hh = computes_then2 [OF _ _ same_size_put(3) _ two(3)]
lemmas on_uu = computes_then2 [OF _ _ same_size_put(4) _ two(3)]

lemma computes_all:
  shows "computes put_d 1 env (code_d e) (deval env e)" and "computes put_b 0 env (code_b b) (beval env b)"
    and "computes put_h 0 env (code_h h) (heval env h)" and "computes put_u 0 env (code_u u) (ueval env u)"
proof (induction e and b and h and u)
  case (RegisterAtE r e)
  show ?case using computes_then [OF RegisterAtE ok_to_data(2)] by simp
next
  case (AccessE h f)
  show ?case using computes_then [OF AccessE ok_to_data(1)] by simp
next
  case (DataE f l r)
  show ?case using on_dd [OF DataE ok_to_data(7)] by simp
next
  case (NegE e)
  show ?case using computes_then [OF NegE ok_to_data(6)] by simp
next
  case (FromBoolE b)
  show ?case using computes_then [OF FromBoolE ok_to_data(3)] by simp
next
  case (LastIndexE s)
  show ?case using computes_then [OF computes_s ok_to_data(4)] by simp
next
  case (SizeE s)
  show ?case using computes_then [OF computes_s ok_to_data(5)] by simp
next
  case (TernE b l r)
  show ?case using computes_ternary [OF TernE widens_put_d] by simp
next
  case (RelE r x y)
  show ?case using on_dd [OF RelE ok_data(1)] by simp
next
  case (EqHeaderE x y)
  show ?case using on_hh [OF EqHeaderE ok_same(6)] by simp
next
  case (NeqHeaderE x y)
  show ?case using on_hh [OF NeqHeaderE ok_same(7)] by simp
next
  case (EqUnionE x y)
  show ?case using on_uu [OF EqUnionE ok_same(8)] by simp
next
  case (NeqUnionE x y)
  show ?case using on_uu [OF NeqUnionE ok_same(9)] by simp
next
  case (BoolOpE f x y)
  show ?case using on_bb [OF BoolOpE ok_same(5)] by simp
next
  case (NotE x)
  show ?case using computes_then [OF NotE ok_same(3)] by simp
next
  case (ValidE h)
  show ?case using computes_then [OF ValidE ok_same(1)] by simp
next
  case (ValidUnionE u)
  show ?case using computes_then [OF ValidUnionE ok_same(2)] by simp
next
  case (ToBoolE e)
  show ?case using computes_then [OF ToBoolE ok_data(2)] by simp
next
  case (TernBE b l r)
  show ?case using computes_ternary [OF TernBE widens_put_b] by simp
next
  case (MemberE u i)
  show ?case using computes_then [OF MemberE ok_same(4)] by simp
next
  case (StackHeaderE s e)
  show ?case using on_sd [OF computes_s StackHeaderE ok_data(3)] by simp
next
  case (StackUnionE s e)
  show ?case using on_sd [OF computes_s StackUnionE ok_data(4)] by simp
qed (auto simp: computes_const [simplified] jump_def intro!: computes_load ok_load ok_load_d [simplified])

section \<open>The entry points\<close>

lemma build_computes:
  assumes "computes put k env c v"
  obtains E where "build (add_code c empty_expression) = Some E" "length (ops E) = length (fst (c 0))"
    "\<forall>temps. case v of None \<Rightarrow> exec env (const_values E) (ops E) (start_machine E temps) = None
      | Some x \<Rightarrow> \<exists>lo hi m'. put lo hi (start_machine E temps) x m' \<and>
          exec env (const_values E) (ops E) (start_machine E temps) = Some m'"
proof -
  obtain X os cnt where 1:
    "assign_ops (fst (c 0)) ([], sum_list []) 0 = Some (os, (X @ [], sum_list (X @ [])), cnt)"
    "\<forall>P Q. length P = 0 \<longrightarrow> runs put env (P @ snd (c 0) @ Q) os v (sum_list []) (sum_list (X @ [])) cnt"
    by (rule computesE [OF assms, of 0 "[]" 0])
  define E where "E = \<lparr>ops = os, const_values = snd (c 0), data_registers_cnt = cnt\<rparr>"
  have b: "build (add_code c empty_expression) = Some E"
    using 1(1) by (simp add: build_def add_code_def empty_expression_def E_def)
  have l: "length (ops E) = length (fst (c 0))" using assign_ops_length [OF 1(1)] by (simp add: E_def)
  have r: "runs put env (snd (c 0)) os v 0 (sum_list X) cnt"
    using 1(2) [rule_format, of "[]" "[]"] by simp
  show thesis
  proof (rule that [OF b l], rule allI)
    fix temps
    have "cnt \<le> length (data_temps (start_machine E temps))" by (simp add: start_machine_def E_def)
    from r [unfolded runs_def, rule_format, OF this, of "[]"]
    show "case v of None \<Rightarrow> exec env (const_values E) (ops E) (start_machine E temps) = None
      | Some x \<Rightarrow> \<exists>lo hi m'. put lo hi (start_machine E temps) x m' \<and>
          exec env (const_values E) (ops E) (start_machine E temps) = Some m'"
      by (simp add: E_def split: option.splits) blast
  qed
qed

lemma code_nonempty: "fst (code_d e n) \<noteq> []" "fst (code_b b n) \<noteq> []"
  by (cases e; simp add: code1_def seq_code_def tern_code_def Let_def case_prod_beta)
    (cases b; simp add: code1_def seq_code_def tern_code_def Let_def case_prod_beta)

text \<open>C30: for every arithmetic expression tree the loader can push, \<^verbatim>\<open>build\<close> succeeds (the
  stack of register counts is never popped empty) and \<^verbatim>\<open>eval_arith\<close> returns exactly the value
  of the tree, or fails exactly where the tree has no value, whatever the thread's temporaries
  held before: no operation overwrites a temporary another operand still lives in, and every
  destination is below the number of registers counted.\<close>

theorem eval_arith_correct:
  "\<exists>E. build (push_dexp e empty_expression) = Some E \<and>
     (\<forall>env temps. eval_arith env E temps = map_option dval (deval env e))"
proof -
  have b: "\<exists>E. build (push_dexp e empty_expression) = Some E \<and> ops E \<noteq> [] \<and>
      (\<forall>temps. eval_arith env E temps = map_option dval (deval env e))" for env
  proof -
    obtain E where E: "build (add_code (code_d e) empty_expression) = Some E"
      "length (ops E) = length (fst (code_d e 0))"
      "\<forall>temps. case deval env e of None \<Rightarrow> exec env (const_values E) (ops E) (start_machine E temps) = None
        | Some x \<Rightarrow> \<exists>lo hi m'. put_d lo hi (start_machine E temps) x m' \<and>
            exec env (const_values E) (ops E) (start_machine E temps) = Some m'"
      by (rule build_computes [OF computes_all(1)])
    have n: "ops E \<noteq> []" using E(2) code_nonempty(1) [of e 0] by auto
    have "eval_arith env E temps = map_option dval (deval env e)" for temps
      using E(3) [rule_format, of temps] n by (auto simp: eval_arith_def pop_data_def put_d_def split: option.splits)
    then show ?thesis using E(1) n by (auto simp: push_all)
  qed
  from b [of undefined] obtain E where "build (push_dexp e empty_expression) = Some E" by blast
  moreover from this b have "\<forall>env temps. eval_arith env E temps = map_option dval (deval env e)" by (metis option.inject)
  ultimately show ?thesis by blast
qed

text \<open>the same for boolean expressions and \<^verbatim>\<open>eval_bool\<close>: conditions, relational operators, header
  and union equality and validity, and both forms of the ternary operator.\<close>

theorem eval_bool_correct:
  "\<exists>E. build (push_bexp b empty_expression) = Some E \<and>
     (\<forall>env temps. eval_bool env E temps = beval env b)"
proof -
  have b: "\<exists>E. build (push_bexp b empty_expression) = Some E \<and> ops E \<noteq> [] \<and>
      (\<forall>temps. eval_bool env E temps = beval env b)" for env
  proof -
    obtain E where E: "build (add_code (code_b b) empty_expression) = Some E"
      "length (ops E) = length (fst (code_b b 0))"
      "\<forall>temps. case beval env b of None \<Rightarrow> exec env (const_values E) (ops E) (start_machine E temps) = None
        | Some x \<Rightarrow> \<exists>lo hi m'. put_b lo hi (start_machine E temps) x m' \<and>
            exec env (const_values E) (ops E) (start_machine E temps) = Some m'"
      by (rule build_computes [OF computes_all(2)])
    have n: "ops E \<noteq> []" using E(2) code_nonempty(2) [of b 0] by auto
    have "eval_bool env E temps = beval env b" for temps
      using E(3) [rule_format, of temps] n by (auto simp: eval_bool_def pop_bool_def put_b_def split: option.splits)
    then show ?thesis using E(1) n by (auto simp: push_all)
  qed
  from b [of undefined] obtain E where "build (push_bexp b empty_expression) = Some E" by blast
  moreover from this b have "\<forall>env temps. eval_bool env E temps = beval env b" by (metis option.inject)
  ultimately show ?thesis by blast
qed

section \<open>Expressions of variable-length fields\<close>

lemma exec_resolve:
  assumes "nth_opt (headers (env_phv env)) h = Some hdr"
  shows "exec env cs (ops (resolve h e)) m = exec (env\<lparr>env_locals := map plain (hfields hdr)\<rparr>) cs (ops e) m"
proof -
  define env' where "env' = env\<lparr>env_locals := map plain (hfields hdr)\<rparr>"
  define g where "g = (\<lambda>op. case op of LOAD_LOCAL i \<Rightarrow> LOAD_FIELD h i | _ \<Rightarrow> op)"
  have u: "union_cmp (env_phv env) = union_cmp (env_phv env')" by (simp add: env'_def)
  have o: "exec_op env cs (g op) m = exec_op env' cs op m" if "\<not> jump op" for op m
  proof -
    have s: "stack_header env = stack_header env'" "stack_union env = stack_union env'"
      by (rule ext, rule ext, case_tac x; simp add: env'_def)+
    show ?thesis
    proof (cases op)
      case (LOAD_LOCAL i)
      then show ?thesis
        using assms by (auto simp: g_def env'_def load_field_def phv_get_field_def nth_opt_def)
    qed (use s that in \<open>auto simp: g_def env'_def jump_def load_field_def load_last_field_def load_register_def
        union_header_def\<close>)
  qed
  have j: "jump (g op) = jump op" for op by (cases op) (simp_all add: g_def jump_def)
  have "exec env cs (map g os) m = exec env' cs os m" for os m
  proof (induction os arbitrary: m rule: length_induct)
    case (1 os)
    show ?case
    proof (cases os)
      case (Cons op os')
      have ih: "exec env cs (map g (drop n os')) m = exec env' cs (drop n os') m" for n m
        using 1 Cons by simp
      show ?thesis
      proof (cases "jump op")
        case True
        then show ?thesis
          using ih [of 0] ih [of 1] ih Cons
          by (cases op) (auto simp: jump_def g_def exec.simps(2) drop_map [symmetric] split: Option.bind_split)
      next
        case False
        then have "\<not> jump (g op)" using j by simp
        moreover have "exec env cs (map g os') = exec env' cs os'" using ih [of 0] by (intro ext) simp
        ultimately show ?thesis using o [OF False] Cons by (simp add: exec_step False)
      qed
    qed simp
  qed
  then show ?thesis by (simp add: resolve_def g_def env'_def)
qed

text \<open>an expression for a variable-length field is written over the fields of its own header
  type (its locals); \<^verbatim>\<open>resolve\<close> makes it one over a header of the packet whose value is the
  original's with that header's fields as the locals.\<close>

theorem resolve_reads_header:
  assumes "nth_opt (headers (env_phv env)) h = Some hdr"
  shows "eval_arith env (resolve h e) temps = eval_arith (env\<lparr>env_locals := map plain (hfields hdr)\<rparr>) e temps"
proof -
  have "ops (resolve h e) = [] \<longleftrightarrow> ops e = []" "const_values (resolve h e) = const_values e"
    "start_machine (resolve h e) temps = start_machine e temps"
    by (simp_all add: resolve_def start_machine_def)
  then show ?thesis by (simp add: eval_arith_def exec_resolve [OF assms])
qed

text \<open>the index of the last element of an empty stack is \<open>2^64 - 1\<close>, not a failure.\<close>

theorem last_index_empty:
  assumes "nth_opt (header_stacks (env_phv env)) s = Some st" "get_count st = 0"
  shows "deval env (LastIndexE (StackE s)) = Some (data_of (2 ^ 64 - 1))"
  using assms by (simp add: last_index_def)

theorem resolve_reads_header_witness:
  "let hdr = \<lparr>htype = new_header_type 0, hfields = [], valid_flag = True, metadata = False,
         nbytes_packet = 0, union_membership = None\<rparr>;
       env = \<lparr>env_phv = empty_phv\<lparr>headers := [hdr]\<rparr>, env_regs = [], env_locals = []\<rparr>
   in eval_arith env (resolve 0 empty_expression) [] =
      eval_arith (env\<lparr>env_locals := map plain (hfields hdr)\<rparr>) empty_expression []"
  unfolding Let_def by (rule resolve_reads_header) (simp add: nth_opt_def)

theorem last_index_empty_witness:
  "deval \<lparr>env_phv = empty_phv\<lparr>header_stacks := [\<lparr>elements = [0, 1], snext = 0\<rparr>]\<rparr>, env_regs = [], env_locals = []\<rparr>
     (LastIndexE (StackE 0)) = Some (data_of (2 ^ 64 - 1))"
  by (rule last_index_empty [of _ _ "\<lparr>elements = [0, 1], snext = 0\<rparr>"]) (simp_all add: nth_opt_def get_count_def)

end
