(* ===== verification/LPM_Trie.thy ===== *)
theory LPM_Trie
  imports Prelude
begin

text \<open>
  The longest-prefix-match trie: bf_lpm_trie.c and its C++ wrapper lpm_trie.h.  A node has one
  branch per byte and the prefixes that end inside it, keyed by their last bits.  The parent
  pointers of the code are the path of the recursion here.  A Judy array is the finite map the
  code uses it as.  \<open>None\<close> is a read past the end of the prefix or key.
\<close>

section \<open>Nodes\<close>

type_synonym lpm_value = u64

datatype node = Node (branches: "u8 \<Rightarrow> node option") (prefixes: "nat \<Rightarrow> lpm_value option")
  (branch_num: u8) (pref_num: u8)

definition new_node :: node where
  "new_node = Node (\<lambda>_. None) (\<lambda>_. None) 0 0"

record bf_lpm_trie =
  root :: node
  key_width_bytes :: nat
  release_memory :: bool

definition lpm_create :: "nat \<Rightarrow> bool \<Rightarrow> bf_lpm_trie option" where
  "lpm_create w auto_shrink = (if w \<le> 64
     then Some \<lparr>root = new_node, key_width_bytes = w, release_memory = auto_shrink\<rparr> else None)"

fun get_next_node :: "node \<Rightarrow> u8 \<Rightarrow> node option" where
  "get_next_node (Node br pf bn pn) b = br b"

fun set_next_node :: "node \<Rightarrow> u8 \<Rightarrow> node \<Rightarrow> node" where
  "set_next_node (Node br pf bn pn) b n = Node (br(b \<mapsto> n)) pf bn pn"

fun delete_branch :: "node \<Rightarrow> u8 \<Rightarrow> node" where
  "delete_branch (Node br pf bn pn) b = Node (br(b := None)) pf bn pn"

fun add_branch_num :: "u8 \<Rightarrow> node \<Rightarrow> node" where
  "add_branch_num d (Node br pf bn pn) = Node br pf (bn + d) pn"

fun add_pref_num :: "u8 \<Rightarrow> node \<Rightarrow> node" where
  "add_pref_num d (Node br pf bn pn) = Node br pf bn (pn + d)"

definition get_prefix_key :: "nat \<Rightarrow> u8 \<Rightarrow> nat" where
  "get_prefix_key l b = (if l = 0 then 0 else unat (drop_bit (8 - l) b) + l * 2 ^ 8)"

text \<open>The result says whether a value other than 0 was there.\<close>

fun insert_prefix :: "node \<Rightarrow> nat \<Rightarrow> lpm_value \<Rightarrow> bool \<times> node" where
  "insert_prefix (Node br pf bn pn) k v =
     ((case pf k of None \<Rightarrow> False | Some w \<Rightarrow> w \<noteq> 0), Node br (pf(k \<mapsto> v)) bn pn)"

definition get_prefix_ptr :: "node \<Rightarrow> nat \<Rightarrow> lpm_value option" where
  "get_prefix_ptr n k = prefixes n k"

fun delete_prefix :: "node \<Rightarrow> nat \<Rightarrow> node" where
  "delete_prefix (Node br pf bn pn) k = Node br (pf(k := None)) bn pn"

section \<open>Operations\<close>

text \<open>The key of what is left of a prefix after its whole bytes.\<close>

fun last_key :: "u8 list \<Rightarrow> nat \<Rightarrow> nat option" where
  "last_key ps 0 = Some 0"
| "last_key [] l = None"
| "last_key (b # ps) l = Some (get_prefix_key l b)"

definition insert_here :: "u8 list \<Rightarrow> nat \<Rightarrow> lpm_value \<Rightarrow> node \<Rightarrow> node option" where
  "insert_here ps l v n = do {
     k \<leftarrow> last_key ps l;
     let (was, n') = insert_prefix n k v;
     Some (if was then n' else add_pref_num 1 n')
   }"

fun insert_node :: "u8 list \<Rightarrow> nat \<Rightarrow> lpm_value \<Rightarrow> node \<Rightarrow> node option" where
  "insert_node [] l v n = (if 8 \<le> l then None else insert_here [] l v n)"
| "insert_node (b # ps) l v n =
     (if 8 \<le> l then
        (case get_next_node n b of
           Some c \<Rightarrow> do { c' \<leftarrow> insert_node ps (l - 8) v c; Some (set_next_node n b c') }
         | None \<Rightarrow> do {
             c' \<leftarrow> insert_node ps (l - 8) v new_node;
             Some (add_branch_num 1 (set_next_node n b c')) })
      else insert_here (b # ps) l v n)"

definition lpm_insert :: "bf_lpm_trie \<Rightarrow> u8 list \<Rightarrow> nat \<Rightarrow> lpm_value \<Rightarrow> bf_lpm_trie option" where
  "lpm_insert t ps l v = map_option (\<lambda>n. t\<lparr>root := n\<rparr>) (insert_node ps l v (root t))"

text \<open>The outer \<open>None\<close> is a read past the end, the inner one \<open>false\<close>.\<close>

fun retrieve_node :: "u8 list \<Rightarrow> nat \<Rightarrow> node \<Rightarrow> lpm_value option option" where
  "retrieve_node [] l n = (if 8 \<le> l then None else do { k \<leftarrow> last_key [] l; Some (get_prefix_ptr n k) })"
| "retrieve_node (b # ps) l n =
     (if 8 \<le> l then
        (case get_next_node n b of None \<Rightarrow> Some None | Some c \<Rightarrow> retrieve_node ps (l - 8) c)
      else do { k \<leftarrow> last_key (b # ps) l; Some (get_prefix_ptr n k) })"

definition lpm_retrieve_value :: "bf_lpm_trie \<Rightarrow> u8 list \<Rightarrow> nat \<Rightarrow> lpm_value option option" where
  "lpm_retrieve_value t ps l = retrieve_node ps l (root t)"

definition lpm_has_prefix :: "bf_lpm_trie \<Rightarrow> u8 list \<Rightarrow> nat \<Rightarrow> bool option" where
  "lpm_has_prefix t ps l = map_option (\<lambda>r. r \<noteq> None) (lpm_retrieve_value t ps l)"

text \<open>The loop over the lengths 7, 6, ..., 1.\<close>

fun find_partial :: "node \<Rightarrow> u8 \<Rightarrow> nat \<Rightarrow> lpm_value option" where
  "find_partial n b 0 = None"
| "find_partial n b (Suc i) =
     (case get_prefix_ptr n (get_prefix_key (Suc i) b) of
        Some v \<Rightarrow> Some v
      | None \<Rightarrow> find_partial n b i)"

text \<open>\<open>best\<close> is \<^verbatim>\<open>*pvalue\<close> with \<^verbatim>\<open>found\<close>.\<close>

definition or_else :: "'a option \<Rightarrow> 'a option \<Rightarrow> 'a option" where
  "or_else a b = (case a of None \<Rightarrow> b | Some x \<Rightarrow> Some x)"

fun lookup_node :: "nat \<Rightarrow> u8 list \<Rightarrow> node \<Rightarrow> lpm_value option \<Rightarrow> lpm_value option option" where
  "lookup_node 0 ks n best = Some (or_else (get_prefix_ptr n 0) best)"
| "lookup_node (Suc w) [] n best = None"
| "lookup_node (Suc w) (b # ks) n best =
     (let best1 = or_else (get_prefix_ptr n 0) best;
          best2 = or_else (find_partial n b 7) best1
      in case get_next_node n b of
           None \<Rightarrow> Some best2
         | Some c \<Rightarrow> lookup_node w ks c best2)"

definition lpm_lookup :: "bf_lpm_trie \<Rightarrow> u8 list \<Rightarrow> lpm_value option option" where
  "lpm_lookup t key = lookup_node (key_width_bytes t) key (root t) None"

text \<open>
  Deletion.  The results: the return value, the node after it, and whether the loop that frees
  empty nodes has reached this one and goes on to its parent.
\<close>

definition empty_counts :: "node \<Rightarrow> bool" where
  "empty_counts n \<longleftrightarrow> pref_num n = 0 \<and> branch_num n = 0"

definition delete_here :: "bool \<Rightarrow> u8 list \<Rightarrow> nat \<Rightarrow> node \<Rightarrow> (bool \<times> node \<times> bool) option" where
  "delete_here release ps l n = do {
     k \<leftarrow> last_key ps l;
     Some (if get_prefix_ptr n k = None then (False, n, False)
           else if release
             then let n' = add_pref_num (- 1) (delete_prefix n k) in (True, n', empty_counts n')
             else (True, n, False))
   }"

fun delete_node :: "bool \<Rightarrow> u8 list \<Rightarrow> nat \<Rightarrow> node \<Rightarrow> (bool \<times> node \<times> bool) option" where
  "delete_node release [] l n = (if 8 \<le> l then None else delete_here release [] l n)"
| "delete_node release (b # ps) l n =
     (if 8 \<le> l then
        (case get_next_node n b of
           None \<Rightarrow> Some (False, n, False)
         | Some c \<Rightarrow> do {
             (r, c', up) \<leftarrow> delete_node release ps (l - 8) c;
             let n' = (if up then add_branch_num (- 1) (delete_branch n b) else set_next_node n b c');
             Some (r, n', up \<and> empty_counts n') })
      else delete_here release (b # ps) l n)"

definition lpm_delete :: "bf_lpm_trie \<Rightarrow> u8 list \<Rightarrow> nat \<Rightarrow> (bool \<times> bf_lpm_trie) option" where
  "lpm_delete t ps l = do {
     (r, n, up) \<leftarrow> delete_node (release_memory t) ps l (root t);
     Some (r, t\<lparr>root := n\<rparr>)
   }"

section \<open>The wrapper\<close>

definition lpm_new :: "nat \<Rightarrow> bf_lpm_trie option" where
  "lpm_new w = lpm_create w True"

definition lpm_clear :: "bf_lpm_trie \<Rightarrow> bf_lpm_trie option" where
  "lpm_clear t = lpm_create (key_width_bytes t) True"

section \<open>Keys inside a node\<close>

text \<open>Bit \<open>i\<close> of a prefix, the most significant bit of the first byte first.\<close>

definition prefix_bit :: "u8 list \<Rightarrow> nat \<Rightarrow> bool" where
  "prefix_bit p i = bit (p ! (i div 8)) (7 - i mod 8)"

definition same_prefix :: "u8 list \<Rightarrow> u8 list \<Rightarrow> nat \<Rightarrow> bool" where
  "same_prefix p q l \<longleftrightarrow> (\<forall>i < l. prefix_bit p i = prefix_bit q i)"

lemma same_prefix_refl [simp]: "same_prefix p p l"
  by (simp add: same_prefix_def)

lemma same_prefix_0 [simp]: "same_prefix p q 0"
  by (simp add: same_prefix_def)

lemma prefix_bit_Cons [simp]:
  "i < 8 \<Longrightarrow> prefix_bit (b # p) i = bit b (7 - i)"
  "prefix_bit (b # p) (i + 8) = prefix_bit p i"
proof -
  have "(i + 8) div 8 = Suc (i div 8)" by simp
  then show "prefix_bit (b # p) (i + 8) = prefix_bit p i"
    unfolding prefix_bit_def by (simp only: nth_Cons_Suc mod_add_self2)
qed (simp add: prefix_bit_def)

lemma byte_eqI: "(\<And>i. i < 8 \<Longrightarrow> bit a (7 - i) = bit b (7 - i)) \<Longrightarrow> a = (b :: u8)"
proof (rule bit_word_eqI)
  fix n assume h: "\<And>i. i < 8 \<Longrightarrow> bit a (7 - i) = bit b (7 - i)" "n < LENGTH(8)"
  then show "bit a n = bit b n" using h(1) [of "7 - n"] by simp
qed

lemma same_prefix_short: "l < 8 \<Longrightarrow> same_prefix (a # p) (b # q) l \<longleftrightarrow> (\<forall>i < l. bit a (7 - i) = bit b (7 - i))"
  by (auto simp: same_prefix_def)

lemma same_prefix_Cons:
  assumes "8 \<le> l"
  shows "same_prefix (a # p) (b # q) l \<longleftrightarrow> a = b \<and> same_prefix p q (l - 8)"
proof
  assume s: "same_prefix (a # p) (b # q) l"
  have "bit a (7 - i) = bit b (7 - i)" if "i < 8" for i
    using s [unfolded same_prefix_def, rule_format, of i] that assms by simp
  then have "a = b" by (rule byte_eqI)
  moreover have "prefix_bit p i = prefix_bit q i" if "i < l - 8" for i
    using s [unfolded same_prefix_def, rule_format, of "i + 8"] that by simp
  ultimately show "a = b \<and> same_prefix p q (l - 8)" by (simp add: same_prefix_def)
next
  assume r: "a = b \<and> same_prefix p q (l - 8)"
  show "same_prefix (a # p) (b # q) l"
    unfolding same_prefix_def
  proof (intro allI impI)
    fix i assume "i < l"
    show "prefix_bit (a # p) i = prefix_bit (b # q) i"
    proof (cases "i < 8")
      case False
      then obtain j where "i = j + 8" by (metis add.commute le_Suc_ex linorder_not_less)
      then show ?thesis using r \<open>i < l\<close> by (simp add: same_prefix_def)
    qed (use r in simp)
  qed
qed

lemma high_bits_bound: "l \<le> 7 \<Longrightarrow> unat (drop_bit (8 - l) (b :: u8)) < 2 ^ l"
proof -
  assume l: "l \<le> 7"
  have "unat (drop_bit (8 - l) b) = unat b div 2 ^ (8 - l)"
    using unat_bound [of b] unfolding unsigned_drop_bit_eq by (simp add: drop_bit_eq_div take_bit_nat_eq_self)
  moreover have "unat b < 2 ^ l * 2 ^ (8 - l)" using unat_bound [of b] l by (simp flip: power_add)
  ultimately show ?thesis by (simp add: less_mult_imp_div_less)
qed

lemma high_bits_bound': "l \<le> 7 \<Longrightarrow> unat (drop_bit (8 - l) (b :: u8)) < 2 ^ 8"
proof -
  assume l: "l \<le> 7"
  have "(2::nat) ^ l \<le> 2 ^ 8" using l by (intro power_increasing) auto
  then show ?thesis using high_bits_bound [OF l, of b] by linarith
qed

lemma high_bits_eq:
  assumes "l \<le> 7"
  shows "drop_bit (8 - l) a = drop_bit (8 - l) (b :: u8) \<longleftrightarrow> (\<forall>i < l. bit a (7 - i) = bit b (7 - i))"
proof
  assume e: "drop_bit (8 - l) a = drop_bit (8 - l) b"
  show "\<forall>i < l. bit a (7 - i) = bit b (7 - i)"
  proof (intro allI impI)
    fix i assume "i < l"
    then have k: "7 - i = (8 - l) + (l - 1 - i)" using assms by simp
    show "bit a (7 - i) = bit b (7 - i)"
      using arg_cong [OF e, of "\<lambda>w. bit w (l - 1 - i)"] unfolding k by (simp add: bit_drop_bit_eq)
  qed
next
  assume h: "\<forall>i < l. bit a (7 - i) = bit b (7 - i)"
  show "drop_bit (8 - l) a = drop_bit (8 - l) b"
  proof (rule bit_word_eqI)
    fix n assume "n < LENGTH(8)"
    show "bit (drop_bit (8 - l) a) n = bit (drop_bit (8 - l) b) n"
    proof (cases "8 - l + n < 8")
      case True
      then show ?thesis using h [rule_format, of "l - 1 - n"] assms by (simp add: bit_drop_bit_eq)
    next
      case False
      then show ?thesis using bit_imp_le_length [of a "8 - l + n"] bit_imp_le_length [of b "8 - l + n"]
        by (auto simp: bit_drop_bit_eq)
    qed
  qed
qed

lemma key_digits: "x < 256 \<Longrightarrow> y < 256 \<Longrightarrow> x + l * 256 = y + m * 256 \<longleftrightarrow> l = m \<and> x = (y::nat)"
proof
  assume b: "x < 256" "y < 256" and e: "x + l * 256 = y + m * 256"
  have "(x + l * 256) div 256 = l" "(y + m * 256) div 256 = m" using b by simp_all
  then have "l = m" using e by simp
  then show "l = m \<and> x = y" using e by simp
qed simp

lemma prefix_key_inject:
  assumes "l \<le> 7" "m \<le> 7"
  shows "get_prefix_key l a = get_prefix_key m b \<longleftrightarrow> l = m \<and> (\<forall>i < l. bit a (7 - i) = bit b (7 - i))"
proof -
  have x: "unat (drop_bit (8 - l) a) < 256" "unat (drop_bit (8 - m) b) < 256"
    using high_bits_bound' [OF assms(1), of a] high_bits_bound' [OF assms(2), of b] by simp_all
  have "get_prefix_key l a = get_prefix_key m b \<longleftrightarrow> l = m \<and> (l = 0 \<or> drop_bit (8 - l) a = drop_bit (8 - m) b)"
    using x by (auto simp: get_prefix_key_def key_digits word_unat_eq_iff)
  then show ?thesis using high_bits_eq [OF assms(1), of a b] by auto
qed

lemma get_prefix_key_0 [simp]: "get_prefix_key 0 b = 0"
  by (simp add: get_prefix_key_def)

lemma get_prefix_key_eq_0: "get_prefix_key l b = 0 \<longleftrightarrow> l = 0"
  by (simp add: get_prefix_key_def)

lemma last_key_byte: "l < 8 \<Longrightarrow> last_key (b # ps) l = Some (get_prefix_key l b)"
  by (cases l) simp_all

lemma last_key_eq:
  assumes "l < 8" "m < 8" "l \<le> 8 * length p" "m \<le> 8 * length q" "last_key p l = Some k"
  shows "last_key q m = Some k \<longleftrightarrow> m = l \<and> same_prefix p q l"
proof (cases p)
  case Nil
  with assms(3,5) have "l = 0" "k = 0" by auto
  then show ?thesis using assms(2,4) by (cases q; cases m) (auto simp: get_prefix_key_eq_0)
next
  case (Cons a p')
  show ?thesis
  proof (cases q)
    case Nil
    with assms(4) have "m = 0" by simp
    then show ?thesis using assms(1,5) Cons Nil by (auto simp: last_key_byte get_prefix_key_eq_0)
  next
    case q: (Cons b q')
    have "k = get_prefix_key l a" using assms(1,5) Cons by (simp add: last_key_byte)
    then show ?thesis
      using prefix_key_inject [of m l b a] assms(1,2) Cons q by (auto simp: last_key_byte same_prefix_short)
  qed
qed

lemma last_key_total: "l \<le> 8 * length p \<Longrightarrow> \<exists>k. last_key p l = Some k"
  by (cases "(p, l)" rule: last_key.cases) auto

section \<open>Retrieval\<close>

lemma node_simps [simp]:
  "branches (set_next_node n b c) = (branches n)(b \<mapsto> c)" "prefixes (set_next_node n b c) = prefixes n"
  "branches (delete_branch n b) = (branches n)(b := None)" "prefixes (delete_branch n b) = prefixes n"
  "branches (add_branch_num d n) = branches n" "prefixes (add_branch_num d n) = prefixes n"
  "branches (add_pref_num d n) = branches n" "prefixes (add_pref_num d n) = prefixes n"
  "branches (delete_prefix n k) = branches n" "prefixes (delete_prefix n k) = (prefixes n)(k := None)"
  "branch_num (set_next_node n b c) = branch_num n" "branch_num (delete_branch n b) = branch_num n"
  "branch_num (add_branch_num d n) = branch_num n + d" "branch_num (add_pref_num d n) = branch_num n"
  "branch_num (delete_prefix n k) = branch_num n"
  "pref_num (set_next_node n b c) = pref_num n" "pref_num (delete_branch n b) = pref_num n"
  "pref_num (add_branch_num d n) = pref_num n" "pref_num (add_pref_num d n) = pref_num n + d"
  "pref_num (delete_prefix n k) = pref_num n"
  "get_next_node n b = branches n b"
  by (cases n; simp)+

lemma insert_prefix_simps [simp]:
  "fst (insert_prefix n k v) \<longleftrightarrow> (\<exists>w. prefixes n k = Some w \<and> w \<noteq> 0)"
  "prefixes (snd (insert_prefix n k v)) = (prefixes n)(k \<mapsto> v)"
  "branches (snd (insert_prefix n k v)) = branches n"
  "branch_num (snd (insert_prefix n k v)) = branch_num n"
  "pref_num (snd (insert_prefix n k v)) = pref_num n"
  by (cases n; simp split: option.split)+

lemma new_node_simps [simp]:
  "branches new_node b = None" "prefixes new_node k = None" "branch_num new_node = 0" "pref_num new_node = 0"
  by (simp_all add: new_node_def)

lemma retrieve_here:
  assumes "l < 8" "last_key q l = Some k"
  shows "retrieve_node q l n = Some (prefixes n k)"
  using assms by (cases q) (simp_all add: get_prefix_ptr_def)

lemma retrieve_total: "l \<le> 8 * length q \<Longrightarrow> \<exists>r. retrieve_node q l n = Some r"
proof (induction q arbitrary: l n)
  case (Cons b q)
  then show ?case by (cases "l < 8") (auto simp: last_key_byte split: option.splits)
qed simp

lemma retrieve_new: "l \<le> 8 * length q \<Longrightarrow> retrieve_node q l new_node = Some None"
  by (cases q; cases "l < 8") (auto simp: last_key_byte get_prefix_ptr_def)

lemma insert_here_eq:
  assumes "last_key p l = Some k" "insert_here p l v n = Some n'"
  shows "prefixes n' = (prefixes n)(k \<mapsto> v)" "branches n' = branches n" "branch_num n' = branch_num n"
    "pref_num n' = pref_num n + (if \<exists>w. prefixes n k = Some w \<and> w \<noteq> 0 then 0 else 1)"
  using assms by (auto simp: insert_here_def case_prod_beta Let_def split: if_splits)

lemma insert_total: "l \<le> 8 * length p \<Longrightarrow> \<exists>n'. insert_node p l v n = Some n'"
proof (induction p arbitrary: l n)
  case Nil
  then show ?case by (simp add: insert_here_def case_prod_beta)
next
  case (Cons b p)
  show ?case
  proof (cases "8 \<le> l")
    case True
    then have l: "l - 8 \<le> 8 * length p" using Cons.prems by simp
    obtain c' where "insert_node p (l - 8) v (case branches n b of None \<Rightarrow> new_node | Some c \<Rightarrow> c) = Some c'"
      using Cons.IH [OF l] by blast
    then show ?thesis using True by (auto split: option.splits)
  next
    case False
    then show ?thesis by (simp add: insert_here_def last_key_byte case_prod_beta)
  qed
qed

text \<open>The law of insertion: the retrieved value changes for that prefix and no other.\<close>

lemma retrieve_insert:
  assumes "insert_node p l v n = Some n'" "l \<le> 8 * length p" "m \<le> 8 * length q"
  shows "retrieve_node q m n' = (if m = l \<and> same_prefix p q l then Some (Some v) else retrieve_node q m n)"
  using assms
proof (induction p arbitrary: l m q n n')
  case Nil
  then have l: "l = 0" "insert_here [] 0 v n = Some n'" by (auto split: if_splits)
  note e = insert_here_eq [OF _ l(2)]
  show ?case using Nil.prems(3) l(1) e(1,2) [of 0]
    by (cases q; cases "m < 8") (auto simp: last_key_byte get_prefix_ptr_def get_prefix_key_eq_0 split: option.split)
next
  case (Cons b p)
  show ?case
  proof (cases "l < 8")
    case True
    then obtain k where k: "last_key (b # p) l = Some k" by (simp add: last_key_byte)
    from Cons.prems(1) True have h: "insert_here (b # p) l v n = Some n'" by (simp split: if_splits)
    note e = insert_here_eq [OF k h]
    show ?thesis
    proof (cases "m < 8")
      case m: True
      obtain j where j: "last_key q m = Some j" using last_key_total [OF Cons.prems(3)] by blast
      have "j = k \<longleftrightarrow> m = l \<and> same_prefix (b # p) q l"
        using last_key_eq [OF True m Cons.prems(2,3) k] j by auto
      then show ?thesis using retrieve_here [OF m j] e(1) by auto
    next
      case False
      then have "m \<noteq> l" using True by simp
      then show ?thesis using False e(2) Cons.prems(3) by (cases q) auto
    qed
  next
    case False
    then have l8: "8 \<le> l" "l - 8 \<le> 8 * length p" using Cons.prems(2) by auto
    define c where "c = (case branches n b of None \<Rightarrow> new_node | Some c \<Rightarrow> c)"
    obtain c' where c': "insert_node p (l - 8) v c = Some c'" and
      br: "branches n' = (branches n)(b \<mapsto> c')" and pf: "prefixes n' = prefixes n"
      using Cons.prems(1) l8(1) by (auto simp: bind_eq_Some_iff c_def split: option.splits)
    show ?thesis
    proof (cases "m < 8")
      case m: True
      obtain j where j: "last_key q m = Some j" using last_key_total [OF Cons.prems(3)] by blast
      then show ?thesis using retrieve_here [OF m j] pf m l8(1) by simp
    next
      case m: False
      then obtain a q' where q: "q = a # q'" "8 \<le> m" "m - 8 \<le> 8 * length q'"
        using Cons.prems(3) by (cases q) auto
      have c: "retrieve_node q' (m - 8) c = (case branches n b of None \<Rightarrow> Some None | Some c \<Rightarrow> retrieve_node q' (m - 8) c)"
        using retrieve_new [OF q(3)] by (simp add: c_def split: option.split)
      have ml: "m - 8 = l - 8 \<longleftrightarrow> m = l" using l8(1) q(2) by auto
      show ?thesis
        using Cons.IH [OF c' l8(2) q(3)] c q br same_prefix_Cons [OF l8(1), of b p a q'] ml by auto
    qed
  qed
qed

section \<open>Lookup\<close>

text \<open>The longest length up to \<open>n\<close> that has a value, by search from \<open>n\<close> down.\<close>

fun longest :: "(nat \<Rightarrow> 'a option) \<Rightarrow> nat \<Rightarrow> 'a option" where
  "longest f 0 = f 0"
| "longest f (Suc n) = or_else (f (Suc n)) (longest f n)"

lemma or_else_simps [simp]: "or_else None b = b" "or_else (Some x) b = Some x" "or_else a None = a"
  by (simp_all add: or_else_def split: option.split)

lemma or_else_assoc: "or_else (or_else a b) c = or_else a (or_else b c)"
  by (simp add: or_else_def split: option.split)

lemma or_else_Some_iff: "or_else a b = Some x \<longleftrightarrow> a = Some x \<or> a = None \<and> b = Some x"
  by (auto simp: or_else_def split: option.split)

lemma longest_Some_iff:
  "longest f n = Some v \<longleftrightarrow> (\<exists>l \<le> n. f l = Some v \<and> (\<forall>m. l < m \<and> m \<le> n \<longrightarrow> f m = None))"
proof (induction n)
  case 0
  show ?case by auto
next
  case (Suc n)
  show ?case
  proof (cases "f (Suc n)")
    case None
    have "(\<exists>l \<le> n. f l = Some v \<and> (\<forall>m. l < m \<and> m \<le> n \<longrightarrow> f m = None)) \<longleftrightarrow>
        (\<exists>l \<le> Suc n. f l = Some v \<and> (\<forall>m. l < m \<and> m \<le> Suc n \<longrightarrow> f m = None))"
      using None by (metis le_Suc_eq option.distinct(1))
    then show ?thesis using Suc None by simp
  next
    case (Some w)
    then show ?thesis by (auto simp: or_else_Some_iff) (metis le_neq_implies_less le_refl option.distinct(1) option.inject)
  qed
qed

lemma longest_None_iff: "longest f n = None \<longleftrightarrow> (\<forall>l \<le> n. f l = None)"
  by (induction n) (auto simp: le_Suc_eq or_else_def split: option.splits)

lemma longest_split: "longest f (n + Suc k) = or_else (longest (\<lambda>l. f (l + Suc k)) n) (longest f k)"
  by (induction n) (simp_all add: or_else_assoc)

lemma longest_cong: "(\<And>l. l \<le> n \<Longrightarrow> f l = g l) \<Longrightarrow> longest f n = longest g n"
  by (induction n) simp_all

text \<open>The value stored for the first \<open>l\<close> bits of a key.\<close>

definition stored :: "node \<Rightarrow> u8 list \<Rightarrow> nat \<Rightarrow> lpm_value option" where
  "stored n key l = (case retrieve_node key l n of Some r \<Rightarrow> r | None \<Rightarrow> None)"

lemma retrieve_stored: "l \<le> 8 * length q \<Longrightarrow> retrieve_node q l n = Some (stored n q l)"
  using retrieve_total [of l q n] by (auto simp: stored_def)

lemma stored_short: "l < 8 \<Longrightarrow> stored n (b # ks) l = prefixes n (get_prefix_key l b)"
  by (simp add: stored_def last_key_byte get_prefix_ptr_def)

lemma stored_0: "stored n ks 0 = prefixes n 0"
  by (cases ks) (simp_all add: stored_def get_prefix_ptr_def)

lemma stored_long: "stored n (b # ks) (l + 8) = (case branches n b of None \<Rightarrow> None | Some c \<Rightarrow> stored c ks l)"
  by (simp add: stored_def split: option.split)

lemma find_partial_longest:
  "i < 8 \<Longrightarrow> longest (stored n (b # ks)) i = or_else (find_partial n b i) (prefixes n 0)"
proof (induction i)
  case (Suc i)
  then show ?case
    by (simp add: stored_short get_prefix_ptr_def or_else_def split: option.split)
qed (simp add: stored_short)

lemma lookup_node_longest:
  assumes "w \<le> length ks"
  shows "lookup_node w ks n best = Some (or_else (longest (stored n ks) (8 * w)) best)"
  using assms
proof (induction w arbitrary: ks n best)
  case 0
  then show ?case by (simp add: stored_0 get_prefix_ptr_def)
next
  case (Suc w)
  then obtain b ks' where ks: "ks = b # ks'" "w \<le> length ks'" by (cases ks) auto
  have "longest (stored n ks) (8 * Suc w) =
      or_else (longest (\<lambda>l. stored n ks (l + 8)) (8 * w)) (longest (stored n ks) 7)"
    using longest_split [of "stored n ks" "8 * w" 7] by (simp add: add.commute)
  also have "longest (stored n ks) 7 = or_else (find_partial n b 7) (prefixes n 0)"
    using find_partial_longest [of 7] ks(1) by simp
  also have "longest (\<lambda>l. stored n ks (l + 8)) (8 * w) =
      (case branches n b of None \<Rightarrow> None | Some c \<Rightarrow> longest (stored c ks') (8 * w))"
    unfolding ks(1) stored_long by (cases "branches n b") (simp_all add: longest_None_iff)
  finally have e: "longest (stored n ks) (8 * Suc w) =
      or_else (case branches n b of None \<Rightarrow> None | Some c \<Rightarrow> longest (stored c ks') (8 * w))
        (or_else (find_partial n b 7) (prefixes n 0))" .
  show ?case
    unfolding e unfolding ks(1)
    by (cases "branches n b") (simp_all add: Suc.IH [OF ks(2)] get_prefix_ptr_def or_else_assoc Let_def)
qed

text \<open>C31: a lookup returns the value of the longest stored prefix of the key: the loop over the
  bytes of the key and over the lengths 7 to 1 in each node agrees with trying the lengths from
  all bits of the key down to 0 one at a time with \<^verbatim>\<open>bf_lpm_trie_retrieve_value\<close>.\<close>

theorem lpm_lookup_longest:
  assumes "length key = key_width_bytes t"
  shows "lpm_lookup t key =
    Some (longest (\<lambda>l. case lpm_retrieve_value t key l of Some r \<Rightarrow> r | None \<Rightarrow> None) (8 * length key))"
  using lookup_node_longest [of "length key" key "root t" None] assms
  by (simp add: lpm_lookup_def lpm_retrieve_value_def stored_def [abs_def])

section \<open>Counters and deletion\<close>

definition node_keys :: "nat set" where
  "node_keys = insert 0 (\<Union>l \<in> {1..7}. (\<lambda>x. x + l * 256) ` {..< 2 ^ l})"

lemma node_keys_finite [simp]: "finite node_keys"
  by (simp add: node_keys_def)

lemma card_node_keys: "card node_keys \<le> 255"
proof -
  have "card (\<Union>l \<in> {1..7}. (\<lambda>x. x + l * 256) ` {..< 2 ^ l}) \<le> (\<Sum>l \<in> {1..7::nat}. card ((\<lambda>x. x + l * 256) ` {..< (2::nat) ^ l}))"
    by (intro card_UN_le) simp
  also have "\<dots> \<le> (\<Sum>l \<in> {1..7::nat}. 2 ^ l)"
    by (intro sum_mono) (metis card_image_le card_lessThan finite_lessThan)
  also have "\<dots> = 254" by (simp add: atLeastAtMostSuc_conv numeral_eq_Suc)
  finally show ?thesis
    unfolding node_keys_def by (intro card_insert_le_m1) simp_all
qed

lemma get_prefix_key_in: "l < 8 \<Longrightarrow> get_prefix_key l b \<in> node_keys"
proof -
  assume l: "l < 8"
  have "unat (drop_bit (8 - l) b) < 2 ^ l" using high_bits_bound [of l b] l by simp
  then show ?thesis using l by (fastforce simp: get_prefix_key_def node_keys_def)
qed

lemma last_key_in: "last_key p l = Some k \<Longrightarrow> l < 8 \<Longrightarrow> k \<in> node_keys"
proof (cases "(p, l)" rule: last_key.cases)
  case (1 ps)
  then show "last_key p l = Some k \<Longrightarrow> k \<in> node_keys" by (auto simp: node_keys_def)
next
  case (3 b ps v)
  then show "last_key p l = Some k \<Longrightarrow> l < 8 \<Longrightarrow> k \<in> node_keys" by (auto simp: get_prefix_key_in simp del: get_prefix_key_0)
qed auto

text \<open>The counters count: no node has had 256 branches.\<close>

inductive node_ok :: "node \<Rightarrow> bool" where
  "unat bn = card (dom br) \<Longrightarrow> unat pn = card (dom pf) \<Longrightarrow> dom pf \<subseteq> node_keys \<Longrightarrow>
   (\<And>b c. br b = Some c \<Longrightarrow> node_ok c) \<Longrightarrow> node_ok (Node br pf bn pn)"

inductive_simps node_ok_Node: "node_ok (Node br pf bn pn)"

lemma node_ok_iff:
  "node_ok n \<longleftrightarrow> unat (branch_num n) = card (dom (branches n)) \<and> unat (pref_num n) = card (dom (prefixes n)) \<and>
     dom (prefixes n) \<subseteq> node_keys \<and> (\<forall>b c. branches n b = Some c \<longrightarrow> node_ok c)"
  by (cases n) (auto simp: node_ok_Node)

lemmas node_okD = node_ok_iff [THEN iffD1]
lemmas node_okI = node_ok_iff [THEN iffD2]

lemma node_ok_fields:
  assumes "node_ok n"
  shows "unat (branch_num n) = card (dom (branches n))" "unat (pref_num n) = card (dom (prefixes n))"
    "finite (dom (prefixes n))" "dom (prefixes n) \<subseteq> node_keys" "branches n b = Some c \<Longrightarrow> node_ok c"
  using node_okD [OF assms] finite_subset [OF _ node_keys_finite] by blast+

lemma node_ok_new: "node_ok new_node"
  by (simp add: new_node_def node_ok_Node)

lemma unat_minus_1: "w \<noteq> 0 \<Longrightarrow> unat (w - 1) = unat (w :: u8) - 1"
  by (simp add: unat_minus_one)

lemma dom_None: "dom f = {} \<Longrightarrow> f = (\<lambda>_. None)"
  by (auto simp: dom_def)

lemma empty_counts_iff:
  assumes "node_ok n"
  shows "empty_counts n \<longleftrightarrow> branches n = (\<lambda>_. None) \<and> prefixes n = (\<lambda>_. None)"
proof -
  have f: "finite (dom (branches n))" by simp
  have "empty_counts n \<longleftrightarrow> unat (branch_num n) = 0 \<and> unat (pref_num n) = 0"
    by (auto simp: empty_counts_def unat_eq_0)
  also have "\<dots> \<longleftrightarrow> dom (branches n) = {} \<and> dom (prefixes n) = {}"
    unfolding node_ok_fields(1,2) [OF assms] using f node_ok_fields(3) [OF assms] by simp
  also have "\<dots> \<longleftrightarrow> branches n = (\<lambda>_. None) \<and> prefixes n = (\<lambda>_. None)" by (auto simp: dom_def)
  finally show ?thesis .
qed

lemma retrieve_empty:
  assumes "branches n = (\<lambda>_. None)" "prefixes n = (\<lambda>_. None)" "m \<le> 8 * length q"
  shows "retrieve_node q m n = Some None"
  using assms by (cases q; cases "m < 8") (auto simp: last_key_byte get_prefix_ptr_def)

lemma delete_here_ok:
  assumes "node_ok n" "last_key p l = Some k" "l < 8" "delete_here True p l n = Some (r, n', up)"
  shows "r \<longleftrightarrow> prefixes n k \<noteq> None" "branches n' = branches n" "prefixes n' = (prefixes n)(k := None)"
    "node_ok n'" "up \<Longrightarrow> empty_counts n'"
proof -
  note fin = node_ok_fields(3) [OF assms(1)]
  have *: "(r \<longleftrightarrow> prefixes n k \<noteq> None) \<and> branches n' = branches n \<and> prefixes n' = (prefixes n)(k := None) \<and>
      node_ok n' \<and> (up \<longrightarrow> empty_counts n')"
  proof (cases "prefixes n k")
    case None
    then have "(prefixes n)(k := None) = prefixes n" by auto
    then show ?thesis using assms None by (auto simp: delete_here_def get_prefix_ptr_def)
  next
    case (Some w)
    then have n': "n' = add_pref_num (- 1) (delete_prefix n k)" "r" "up = empty_counts n'"
      using assms(2,4) by (auto simp: delete_here_def get_prefix_ptr_def Let_def)
    have k: "k \<in> dom (prefixes n)" using Some by auto
    then have "card (dom (prefixes n)) \<noteq> 0" using fin by auto
    then have "pref_num n \<noteq> 0" using node_ok_fields(2) [OF assms(1)] by auto
    then have "unat (pref_num n') = card (dom (prefixes n'))"
      using k fin n'(1) node_ok_fields(2) [OF assms(1)] by (simp add: unat_minus_1)
    then have "node_ok n'"
      using node_ok_fields [OF assms(1)] n'(1) by (intro node_okI) auto
    then show ?thesis using Some n' by simp
  qed
  then show "r \<longleftrightarrow> prefixes n k \<noteq> None" "branches n' = branches n" "prefixes n' = (prefixes n)(k := None)"
    "node_ok n'" "up \<Longrightarrow> empty_counts n'" by auto
qed

lemma replace_branch_ok:
  assumes "node_ok n" "branches n b = Some c" "node_ok c'"
  shows "node_ok (set_next_node n b c')"
proof -
  have "dom (branches (set_next_node n b c')) = dom (branches n)" using assms(2) by auto
  then show ?thesis using node_ok_fields [OF assms(1)] assms(3) by (intro node_okI) (auto split: if_splits)
qed

lemma remove_branch_ok:
  assumes "node_ok n" "branches n b = Some c"
  shows "node_ok (add_branch_num (- 1) (delete_branch n b))"
proof -
  have b: "b \<in> dom (branches n)" using assms(2) by auto
  then have "card (dom (branches n)) \<noteq> 0" by auto
  then have "branch_num n \<noteq> 0" using node_ok_fields(1) [OF assms(1)] by auto
  then show ?thesis using node_ok_fields [OF assms(1)] b by (intro node_okI) (auto simp: unat_minus_1 split: if_splits)
qed

lemma delete_node_ok:
  assumes "node_ok n" "l \<le> 8 * length p" "delete_node True p l n = Some (r, n', up)"
  shows "node_ok n' \<and> (up \<longrightarrow> empty_counts n') \<and> (r \<longleftrightarrow> retrieve_node p l n \<noteq> Some None) \<and>
    (\<forall>m q. m \<le> 8 * length q \<longrightarrow>
      retrieve_node q m n' = (if m = l \<and> same_prefix p q l then Some None else retrieve_node q m n))"
  using assms
proof (induction p arbitrary: l n r n' up)
  case Nil
  then have h: "l = 0" "delete_here True [] 0 n = Some (r, n', up)" by auto
  note e = delete_here_ok [OF Nil.prems(1) _ _ h(2), of 0, simplified]
  have "retrieve_node q m n' = (if m = 0 then Some None else retrieve_node q m n)" if "m \<le> 8 * length q" for m q
    using that e(2,3) by (cases q; cases "m < 8") (auto simp: last_key_byte get_prefix_ptr_def get_prefix_key_eq_0)
  then show ?case using e(1,4,5) h(1) by (simp add: get_prefix_ptr_def)
next
  case (Cons b p)
  show ?case
  proof (cases "l < 8")
    case True
    define k where "k = get_prefix_key l b"
    have k: "last_key (b # p) l = Some k" using True by (simp add: last_key_byte k_def)
    have h: "delete_here True (b # p) l n = Some (r, n', up)" using Cons.prems(3) True by simp
    note e = delete_here_ok [OF Cons.prems(1) k True h]
    have "retrieve_node q m n' = (if m = l \<and> same_prefix (b # p) q l then Some None else retrieve_node q m n)"
      if m: "m \<le> 8 * length q" for m q
    proof (cases "m < 8")
      case m8: True
      obtain j where j: "last_key q m = Some j" using last_key_total [OF m] by blast
      have "j = k \<longleftrightarrow> m = l \<and> same_prefix (b # p) q l"
        using last_key_eq [OF True m8 Cons.prems(2) m k] j by auto
      then show ?thesis using retrieve_here [OF m8 j] e(3) by auto
    next
      case False
      then show ?thesis using e(2) m True by (cases q) auto
    qed
    moreover have "retrieve_node (b # p) l n = Some (prefixes n k)" by (rule retrieve_here [OF True k])
    ultimately show ?thesis using e(1,4,5) by (simp del: retrieve_node.simps)
  next
    case False
    then have l8: "8 \<le> l" "l - 8 \<le> 8 * length p" using Cons.prems(2) by auto
    show ?thesis
    proof (cases "branches n b")
      case None
      then have n': "n' = n" "\<not> r" "\<not> up" using Cons.prems(3) l8(1) by auto
      have "retrieve_node q m n = Some None" if "m \<le> 8 * length q" "m = l" "same_prefix (b # p) q l" for m q
        using that l8(1) None same_prefix_Cons [OF l8(1), of b p] by (cases q) auto
      then show ?thesis using n' Cons.prems(1) None l8(1) by auto
    next
      case (Some c)
      have c: "node_ok c" using node_ok_fields(5) [OF Cons.prems(1) Some] .
      obtain c' up' where d: "delete_node True p (l - 8) c = Some (r, c', up')" and
        n': "n' = (if up' then add_branch_num (- 1) (delete_branch n b) else set_next_node n b c')"
        "up \<longleftrightarrow> up' \<and> empty_counts n'"
        using Cons.prems(3) l8(1) Some by (auto simp: bind_eq_Some_iff Let_def)
      note ih = Cons.IH [OF c l8(2) d]
      have "node_ok n'"
        using n'(1) ih replace_branch_ok [OF Cons.prems(1) Some] remove_branch_ok [OF Cons.prems(1) Some] by simp
      moreover have "retrieve_node q m n' =
          (if m = l \<and> same_prefix (b # p) q l then Some None else retrieve_node q m n)" if m: "m \<le> 8 * length q" for m q
      proof (cases "m < 8")
        case m8: True
        obtain j where j: "last_key q m = Some j" using last_key_total [OF m] by blast
        then show ?thesis using retrieve_here [OF m8 j] m8 l8(1) n'(1) by simp
      next
        case m8: False
        then obtain a q' where q: "q = a # q'" "8 \<le> m" "m - 8 \<le> 8 * length q'" using m by (cases q) auto
        have c': "retrieve_node q' (m - 8) c' = Some None" if up'
          using retrieve_empty [OF _ _ q(3)] empty_counts_iff [of c'] ih that by blast
        have ml: "m - 8 = l - 8 \<longleftrightarrow> m = l" using l8(1) q(2) by auto
        have "retrieve_node q m n' = (if a = b then retrieve_node q' (m - 8) c' else retrieve_node q m n)"
          using c' n'(1) q by auto
        also have "\<dots> = (if m = l \<and> same_prefix (b # p) q l then Some None else retrieve_node q m n)"
          using ih q Some same_prefix_Cons [OF l8(1), of b p a q'] ml by auto
        finally show ?thesis .
      qed
      ultimately show ?thesis using ih n'(2) Some l8(1) by simp
    qed
  qed
qed

lemma delete_total: "l \<le> 8 * length p \<Longrightarrow> delete_node rel p l n \<noteq> None"
proof (induction p arbitrary: l n)
  case (Cons b p)
  show ?case
  proof (cases "8 \<le> l")
    case True
    then have "l - 8 \<le> 8 * length p" using Cons.prems by simp
    note ih = Cons.IH [OF this]
    show ?thesis
    proof (cases "branches n b")
      case (Some c)
      obtain r c' up where "delete_node rel p (l - 8) c = Some (r, c', up)"
        using ih [of c] by (metis option.exhaust prod.exhaust)
      then show ?thesis using True Some by (simp add: Let_def)
    qed (use True in simp)
  qed (simp add: delete_here_def last_key_byte)
qed (simp add: delete_here_def)

section \<open>Insertion keeps the counters\<close>

text \<open>A node on the way of a prefix that gets a new branch has fewer than 255.\<close>

fun room :: "u8 list \<Rightarrow> nat \<Rightarrow> node \<Rightarrow> bool" where
  "room [] l n = True"
| "room (b # p) l n = (8 \<le> l \<longrightarrow>
     (case branches n b of None \<Rightarrow> card (dom (branches n)) < 255 | Some c \<Rightarrow> room p (l - 8) c))"

lemma unat_plus_1: "unat w < 255 \<Longrightarrow> unat (w + 1) = unat (w :: u8) + 1"
  by (simp add: unat_word_ariths)

lemma insert_here_ok:
  assumes "node_ok n" "last_key p l = Some k" "l < 8" "insert_here p l v n = Some n'" "prefixes n k \<noteq> Some 0"
  shows "node_ok n'"
proof (cases "prefixes n k")
  case None
  note e = insert_here_eq [OF assms(2,4)] and f = node_ok_fields [OF assms(1)]
  have k: "k \<notin> dom (prefixes n)" using None by auto
  have in_keys: "insert k (dom (prefixes n)) \<subseteq> node_keys" using f(4) last_key_in [OF assms(2,3)] by simp
  have "card (insert k (dom (prefixes n))) \<le> 255"
    using card_mono [OF node_keys_finite in_keys] card_node_keys by simp
  then have "card (dom (prefixes n)) < 255" using k f(3) by simp
  then have "unat (pref_num n') = card (dom (prefixes n'))"
    using e None k f(2,3) by (simp add: unat_plus_1)
  then show ?thesis using e f in_keys by (intro node_okI) auto
next
  case (Some w)
  note e = insert_here_eq [OF assms(2,4)] and f = node_ok_fields [OF assms(1)]
  have "dom (prefixes n') = dom (prefixes n)" using e(1) Some by auto
  moreover have "pref_num n' = pref_num n" using e(4) Some assms(5) by auto
  ultimately show ?thesis using e f by (intro node_okI) auto
qed

lemma insert_node_ok:
  assumes "node_ok n" "l \<le> 8 * length p" "insert_node p l v n = Some n'" "room p l n" "stored n p l \<noteq> Some 0"
  shows "node_ok n'"
  using assms
proof (induction p arbitrary: l n n')
  case Nil
  then have h: "l = 0" "insert_here [] 0 v n = Some n'" by auto
  then show ?case using insert_here_ok [OF Nil.prems(1) _ _ h(2), of 0] Nil.prems(5) by (simp add: stored_0)
next
  case (Cons b p)
  note f = node_ok_fields [OF Cons.prems(1)]
  show ?case
  proof (cases "l < 8")
    case True
    then have "insert_here (b # p) l v n = Some n'" using Cons.prems(3) by simp
    then show ?thesis
      using insert_here_ok [OF Cons.prems(1) last_key_byte [OF True] True] Cons.prems(5) True by (simp add: stored_short)
  next
    case False
    then have l8: "8 \<le> l" "l - 8 \<le> 8 * length p" using Cons.prems(2) by auto
    have st: "stored n (b # p) l = (case branches n b of None \<Rightarrow> None | Some c \<Rightarrow> stored c p (l - 8))"
      using stored_long [of n b p "l - 8"] l8(1) by simp
    show ?thesis
    proof (cases "branches n b")
      case (Some c)
      then obtain c' where c': "insert_node p (l - 8) v c = Some c'" "n' = set_next_node n b c'"
        using Cons.prems(3) l8(1) by (auto simp: bind_eq_Some_iff)
      have "node_ok c'"
        using Cons.IH [OF f(5) [OF Some] l8(2) c'(1)] Cons.prems(4,5) l8(1) Some st by simp
      then show ?thesis unfolding c'(2) by (rule replace_branch_ok [OF Cons.prems(1) Some])
    next
      case None
      then obtain c' where c': "insert_node p (l - 8) v new_node = Some c'"
        "n' = add_branch_num 1 (set_next_node n b c')"
        using Cons.prems(3) l8(1) by (auto simp: bind_eq_Some_iff)
      have "room p (l - 8) new_node" by (cases p) (auto simp: new_node_def)
      moreover have "stored new_node p (l - 8) \<noteq> Some 0" using retrieve_new [OF l8(2)] by (simp add: stored_def)
      ultimately have ok: "node_ok c'" using Cons.IH [OF node_ok_new l8(2) c'(1)] by simp
      have b: "b \<notin> dom (branches n)" and lt: "card (dom (branches n)) < 255"
        using None Cons.prems(4) l8(1) by auto
      then have "unat (branch_num n') = card (dom (branches n'))"
        using c'(2) f(1) by (simp add: unat_plus_1)
      then show ?thesis using f c'(2) ok by (intro node_okI) (auto split: if_splits)
    qed
  qed
qed

section \<open>The trie implements a routing table\<close>

text \<open>A routing table is a list of prefix, length and value; a prefix occurs at most once.\<close>

type_synonym route_table = "(u8 list \<times> nat \<times> lpm_value) list"

fun rt_get :: "route_table \<Rightarrow> u8 list \<Rightarrow> nat \<Rightarrow> lpm_value option" where
  "rt_get [] q m = None"
| "rt_get ((p, l, v) # t) q m = (if m = l \<and> same_prefix p q l then Some v else rt_get t q m)"

definition rt_remove :: "u8 list \<Rightarrow> nat \<Rightarrow> route_table \<Rightarrow> route_table" where
  "rt_remove p l t = filter (\<lambda>(p', l', v). \<not> (l' = l \<and> same_prefix p p' l)) t"

definition rt_lookup :: "route_table \<Rightarrow> u8 list \<Rightarrow> lpm_value option" where
  "rt_lookup t key = longest (rt_get t key) (8 * length key)"

lemma same_prefix_trans: "same_prefix p q l \<Longrightarrow> same_prefix p r l \<longleftrightarrow> same_prefix q r l"
  by (simp add: same_prefix_def)

lemma same_prefix_sym: "same_prefix p q l \<longleftrightarrow> same_prefix q p l"
  by (auto simp: same_prefix_def)

lemma rt_get_remove:
  "rt_get (rt_remove p l t) q m = (if m = l \<and> same_prefix p q l then None else rt_get t q m)"
proof (induction t)
  case (Cons e t)
  obtain p' l' v where e: "e = (p', l', v)" by (cases e)
  show ?case
  proof (cases "l' = l \<and> same_prefix p p' l")
    case True
    then have "same_prefix p q l \<longleftrightarrow> same_prefix p' q l" by (metis same_prefix_trans)
    then show ?thesis using Cons True by (auto simp: e rt_remove_def)
  next
    case False
    then have "\<not> (m = l' \<and> same_prefix p' q l' \<and> m = l \<and> same_prefix p q l)"
      by (metis same_prefix_trans same_prefix_sym)
    then show ?thesis using Cons False by (auto simp: e rt_remove_def)
  qed
qed (simp add: rt_remove_def)

text \<open>A trie stands for a table: the same value for every prefix that fits in a key.\<close>

definition stands_for :: "bf_lpm_trie \<Rightarrow> route_table \<Rightarrow> bool" where
  "stands_for t rt \<longleftrightarrow> release_memory t \<and> node_ok (root t) \<and>
     (\<forall>q m. m \<le> 8 * length q \<longrightarrow> lpm_retrieve_value t q m = Some (rt_get rt q m))"

lemma stands_forD:
  assumes "stands_for t rt"
  shows "release_memory t" "node_ok (root t)"
    "m \<le> 8 * length q \<Longrightarrow> retrieve_node q m (root t) = Some (rt_get rt q m)"
  using assms by (auto simp: stands_for_def lpm_retrieve_value_def)

lemma stands_forI:
  assumes "release_memory t" "node_ok (root t)"
    "\<And>q m. m \<le> 8 * length q \<Longrightarrow> retrieve_node q m (root t) = Some (rt_get rt q m)"
  shows "stands_for t rt"
  using assms by (auto simp: stands_for_def lpm_retrieve_value_def)

lemma lpm_new_refines: "w \<le> 64 \<Longrightarrow> \<exists>t. lpm_new w = Some t \<and> stands_for t [] \<and> key_width_bytes t = w"
  by (auto simp: lpm_new_def lpm_create_def node_ok_new retrieve_new intro: stands_forI)

lemma lpm_insert_table:
  assumes "stands_for t rt" "l \<le> 8 * length p" "room p l (root t)" "rt_get rt p l \<noteq> Some 0"
  shows "\<exists>t'. lpm_insert t p l v = Some t' \<and> stands_for t' ((p, l, v) # rt_remove p l rt)"
proof -
  obtain n where n: "insert_node p l v (root t) = Some n" using insert_total [OF assms(2)] by blast
  note s = stands_forD [OF assms(1)]
  have "stored (root t) p l \<noteq> Some 0" using s(3) [OF assms(2)] assms(4) by (simp add: stored_def)
  then have ok: "node_ok n" by (rule insert_node_ok [OF s(2) assms(2) n assms(3)])
  have "retrieve_node q m n = Some (rt_get ((p, l, v) # rt_remove p l rt) q m)" if "m \<le> 8 * length q" for q m
    using retrieve_insert [OF n assms(2) that] s(3) [OF that] by (auto simp: rt_get_remove)
  then have "stands_for (t\<lparr>root := n\<rparr>) ((p, l, v) # rt_remove p l rt)"
    using s(1) ok by (intro stands_forI) simp_all
  then show ?thesis using n by (simp add: lpm_insert_def)
qed

text \<open>C32: inserting into a trie that stands for a routing table succeeds and gives a trie for the
  table with the prefix added or its value replaced, and no other prefix changed, as long as no
  node on the way that gets a new branch has 255 already and no value 0 is overwritten.\<close>

theorem lpm_insert_refines:
  assumes "stands_for t rt" "l \<le> 8 * length p" "room p l (root t)" "rt_get rt p l \<noteq> Some 0"
  shows "\<exists>t'. lpm_insert t p l v = Some t' \<and> stands_for t' ((p, l, v) # rt_remove p l rt)"
  using assms by (rule lpm_insert_table)

lemma lpm_delete_table:
  assumes "stands_for t rt" "l \<le> 8 * length p"
  shows "\<exists>t'. lpm_delete t p l = Some (rt_get rt p l \<noteq> None, t') \<and> stands_for t' (rt_remove p l rt)"
proof -
  obtain r n up where n: "delete_node True p l (root t) = Some (r, n, up)"
    using delete_total [OF assms(2)] by (metis option.exhaust prod.exhaust)
  note s = stands_forD [OF assms(1)]
  note d = delete_node_ok [OF s(2) assms(2) n]
  have "retrieve_node q m n = Some (rt_get (rt_remove p l rt) q m)" if m: "m \<le> 8 * length q" for q m
    using d s(3) [OF m] m by (simp add: rt_get_remove)
  then have "stands_for (t\<lparr>root := n\<rparr>) (rt_remove p l rt)"
    using s(1) d by (intro stands_forI) simp_all
  moreover have "r \<longleftrightarrow> rt_get rt p l \<noteq> None" using d s(3) [OF assms(2)] by simp
  ultimately show ?thesis using n s(1) by (auto simp: lpm_delete_def)
qed

text \<open>
  C33: Deleting a prefix from a trie that stands for a routing table (and so has no node with 256 branches) returns whether
  the prefix was in the table and gives a trie that stands for the table without it: freeing empty nodes up to the root loses
  nothing.
\<close>

theorem lpm_delete_refines:
  assumes "stands_for t rt" "l \<le> 8 * length p"
  shows "\<exists>t'. lpm_delete t p l = Some (rt_get rt p l \<noteq> None, t') \<and> stands_for t' (rt_remove p l rt)"
  using assms by (rule lpm_delete_table)

lemma lpm_lookup_table:
  assumes "stands_for t rt" "length key = key_width_bytes t"
  shows "lpm_lookup t key = Some (rt_lookup rt key)"
proof -
  have "longest (stored (root t) key) (8 * length key) = longest (rt_get rt key) (8 * length key)"
    by (rule longest_cong) (simp add: stored_def stands_forD(3) [OF assms(1)])
  then show ?thesis
    using lookup_node_longest [of "length key" key "root t" None] assms(2)
    by (simp add: lpm_lookup_def rt_lookup_def)
qed

text \<open>a lookup in a trie that stands for a table returns the value of the longest prefix of the
  key in the table, or nothing when none is.\<close>

theorem lpm_lookup_refines:
  assumes "stands_for t rt" "length key = key_width_bytes t"
  shows "lpm_lookup t key = Some (rt_lookup rt key)"
  using assms by (rule lpm_lookup_table)

section \<open>The 256th branch\<close>

text \<open>
  \<^verbatim>\<open>branch_num\<close> is an \<^verbatim>\<open>unsigned char\<close>: with 256 branches it is 0 again, and the node counts as
  empty once its last prefix goes.
\<close>

definition all_bytes :: "u8 list" where
  "all_bytes = map word_of_nat [0..<256]"

definition leaf :: "lpm_value \<Rightarrow> node" where
  "leaf v = Node (\<lambda>_. None) [0 \<mapsto> v] 0 1"

definition fan :: "(u8 \<Rightarrow> lpm_value) \<Rightarrow> u8 list \<Rightarrow> (nat \<rightharpoonup> lpm_value) \<Rightarrow> u8 \<Rightarrow> node" where
  "fan f bs pf pn = Node (\<lambda>b. if b \<in> set bs then Some (leaf (f b)) else None) pf (word_of_nat (length bs)) pn"

lemma distinct_all_bytes: "distinct all_bytes" "set all_bytes = UNIV" "length all_bytes = 256"
proof -
  have "inj_on (word_of_nat :: nat \<Rightarrow> u8) {0..<256}"
    by (rule inj_on_inverseI [where g = unat]) (simp add: unat_of_nat take_bit_nat_eq_self)
  then show "distinct all_bytes" by (simp add: all_bytes_def distinct_map)
  show "set all_bytes = UNIV"
  proof (intro equalityI subset_UNIV subsetI)
    fix x :: u8
    have "x = word_of_nat (unat x)" "unat x \<in> set [0..<256]" using unat_bound [of x] by simp_all
    then show "x \<in> set all_bytes" unfolding all_bytes_def set_map by (rule image_eqI)
  qed
qed (simp add: all_bytes_def)

lemma insert_leaf: "insert_here [] 0 v new_node = Some (leaf v)"
  by (simp add: insert_here_def new_node_def leaf_def)

lemma insert_fan:
  "b \<notin> set bs \<Longrightarrow> insert_node [b] 8 (f b) (fan f bs pf pn) = Some (fan f (bs @ [b]) pf pn)"
  by (auto simp: fan_def insert_leaf fun_upd_def add.commute)

lemma insert_below:
  assumes "root t = Node [a \<mapsto> c] Map.empty 1 0" "insert_node p l v c = Some c'"
  shows "lpm_insert t (a # p) (l + 8) v = Some (t\<lparr>root := Node [a \<mapsto> c'] Map.empty 1 0\<rparr>)"
  using assms by (simp add: lpm_insert_def)

lemma insert_fans:
  assumes "distinct bs" "bs \<noteq> []" "root t = new_node"
  shows "fold_opt (\<lambda>b t. lpm_insert t [a, b] 16 (f b)) bs t =
    Some (t\<lparr>root := Node [a \<mapsto> fan f bs Map.empty 0] Map.empty 1 0\<rparr>)"
  using assms
proof (induction bs rule: rev_induct)
  case (snoc b bs)
  show ?case
  proof (cases "bs = []")
    case True
    have "insert_node [b] 8 (f b) new_node = Some (fan f [b] Map.empty 0)"
      using insert_fan [of b "[]" f Map.empty 0] by (simp add: fan_def new_node_def)
    then have "insert_node [a, b] 16 (f b) new_node = Some (Node [a \<mapsto> fan f [b] Map.empty 0] Map.empty 1 0)"
      by (simp add: new_node_def)
    then show ?thesis using snoc.prems(3) True by (simp add: lpm_insert_def fun_upd_def)
  next
    case False
    have ih: "fold_opt (\<lambda>b t. lpm_insert t [a, b] 16 (f b)) bs t =
        Some (t\<lparr>root := Node [a \<mapsto> fan f bs Map.empty 0] Map.empty 1 0\<rparr>)"
      by (rule snoc.IH) (use snoc.prems False in simp_all)
    have "insert_node [b] 8 (f b) (fan f bs Map.empty 0) = Some (fan f (bs @ [b]) Map.empty 0)"
      using snoc.prems(1) by (intro insert_fan) simp
    from insert_below [where l = 8, OF _ this]
    show ?thesis unfolding fold_opt_append ih by (simp add: fun_upd_def)
  qed
qed simp

text \<open>insert the 256 prefixes of 16 bits that start with one byte, and the prefix of 8 bits
  that is this byte; deleting the 8-bit prefix then also removes all 256 others, which were
  retrieved before and are not afterwards, because the branch counter of their node has wrapped to 0.\<close>

theorem lpm_full_node_lost:
  assumes "w \<le> 64"
  shows "\<exists>t0 t1 t2 t3. lpm_new w = Some t0 \<and>
    fold_opt (\<lambda>b t. lpm_insert t [a, b] 16 (f b)) all_bytes t0 = Some t1 \<and>
    lpm_insert t1 [a] 8 v = Some t2 \<and> lpm_delete t2 [a] 8 = Some (True, t3) \<and>
    (\<forall>b. lpm_retrieve_value t2 [a, b] 16 = Some (Some (f b))) \<and>
    (\<forall>b. lpm_retrieve_value t3 [a, b] 16 = Some None)"
proof -
  define t0 where "t0 = \<lparr>root = new_node, key_width_bytes = w, release_memory = True\<rparr>"
  define t1 where "t1 = t0\<lparr>root := Node [a \<mapsto> fan f all_bytes Map.empty 0] Map.empty 1 0\<rparr>"
  define t2 where "t2 = t0\<lparr>root := Node [a \<mapsto> fan f all_bytes [0 \<mapsto> v] 1] Map.empty 1 0\<rparr>"
  define t3 where "t3 = t0\<lparr>root := new_node\<rparr>"
  have 0: "lpm_new w = Some t0" using assms by (simp add: lpm_new_def lpm_create_def t0_def)
  have ne: "all_bytes \<noteq> []" using distinct_all_bytes(3) by auto
  have 1: "fold_opt (\<lambda>b t. lpm_insert t [a, b] 16 (f b)) all_bytes t0 = Some t1"
    unfolding t1_def by (rule insert_fans [OF distinct_all_bytes(1) ne]) (simp add: t0_def)
  have "insert_node [] 0 v (fan f all_bytes Map.empty 0) = Some (fan f all_bytes [0 \<mapsto> v] 1)"
    by (simp add: insert_here_def fan_def)
  from insert_below [OF _ this, of t1 a]
  have 2: "lpm_insert t1 [a] 8 v = Some t2" by (simp add: t1_def t2_def)
  have "branch_num (fan f all_bytes pf pn) = 0" for pf pn
    by (simp add: fan_def distinct_all_bytes(3))
  then have 3: "lpm_delete t2 [a] 8 = Some (True, t3)"
    by (simp add: lpm_delete_def t2_def t3_def t0_def delete_here_def get_prefix_ptr_def fan_def Let_def
        empty_counts_def new_node_def)
  have r: "lpm_retrieve_value t2 [a, b] 16 = Some (Some (f b))" "lpm_retrieve_value t3 [a, b] 16 = Some None" for b
    by (simp_all add: lpm_retrieve_value_def t2_def t3_def fan_def distinct_all_bytes(2) leaf_def get_prefix_ptr_def)
  show ?thesis using 0 1 2 3 r by blast
qed

section \<open>Witnesses\<close>

theorem lpm_lookup_longest_witness:
  "lpm_lookup \<lparr>root = new_node, key_width_bytes = 2, release_memory = True\<rparr> [10, 1] =
    Some (longest (\<lambda>l. case lpm_retrieve_value \<lparr>root = new_node, key_width_bytes = 2, release_memory = True\<rparr> [10, 1] l
      of Some r \<Rightarrow> r | None \<Rightarrow> None) (8 * length [10 :: u8, 1]))"
  by (rule lpm_lookup_longest) simp

lemma stands_for_new: "stands_for \<lparr>root = new_node, key_width_bytes = 4, release_memory = True\<rparr> []"
  by (rule stands_forI) (simp_all add: node_ok_new retrieve_new)

theorem lpm_insert_refines_witness:
  "\<exists>t'. lpm_insert \<lparr>root = new_node, key_width_bytes = 4, release_memory = True\<rparr> [10, 128] 9 7 = Some t' \<and>
     stands_for t' (([10, 128], 9, 7) # rt_remove [10, 128] 9 [])"
  by (rule lpm_insert_refines [OF stands_for_new]) (simp_all add: new_node_def)

theorem lpm_delete_refines_witness:
  "\<exists>t'. lpm_delete \<lparr>root = new_node, key_width_bytes = 4, release_memory = True\<rparr> [10, 128] 9 =
     Some (rt_get [] [10, 128] 9 \<noteq> None, t') \<and> stands_for t' (rt_remove [10, 128] 9 [])"
  by (rule lpm_delete_refines [OF stands_for_new]) simp

theorem lpm_lookup_refines_witness:
  "lpm_lookup \<lparr>root = new_node, key_width_bytes = 4, release_memory = True\<rparr> [10, 1, 2, 3] =
     Some (rt_lookup [] [10, 1, 2, 3])"
  by (rule lpm_lookup_refines [OF stands_for_new]) simp

theorem lpm_full_node_lost_witness:
  "\<exists>t0 t1 t2 t3. lpm_new 4 = Some t0 \<and>
    fold_opt (\<lambda>b t. lpm_insert t [10, b] 16 (ucast b + 1)) all_bytes t0 = Some t1 \<and>
    lpm_insert t1 [10] 8 7 = Some t2 \<and> lpm_delete t2 [10] 8 = Some (True, t3) \<and>
    (\<forall>b. lpm_retrieve_value t2 [10, b] 16 = Some (Some (ucast b + 1))) \<and>
    (\<forall>b. lpm_retrieve_value t3 [10, b] 16 = Some None)"
  by (rule lpm_full_node_lost) simp

end
