(* ===== verification/Handle_Mgr.thy ===== *)
theory Handle_Mgr
  imports Prelude
begin

text \<open>
  Allocation of entry handles: handle_mgr.h.  The Judy1 array is a finite set of words; \<^verbatim>\<open>J1F\<close>,
  \<^verbatim>\<open>J1N\<close> and \<^verbatim>\<open>J1FE\<close> are its least element, the least one above an index, and the least word not
  in it.  The end of an iteration is \<open>-1\<close>, the largest word.
\<close>

section \<open>State and operations\<close>

type_synonym handle_mgr = "nat set"

definition word_max :: nat where
  "word_max = 2 ^ 64 - 1"

definition mgr_new :: handle_mgr where
  "mgr_new = {}"

definition first_from :: "handle_mgr \<Rightarrow> nat \<Rightarrow> nat option" where
  "first_from S i = (let T = Set.filter (\<lambda>j. i \<le> j) S in if T = {} then None else Some (Min T))"

text \<open>\<open>None\<close> is the return value \<open>-1\<close>: no word is free.\<close>

definition first_empty :: "handle_mgr \<Rightarrow> nat option" where
  "first_empty S = (let h = Min ({..card S} - S) in if h \<le> word_max then Some h else None)"

definition get_handle :: "handle_mgr \<Rightarrow> (nat \<times> handle_mgr) option" where
  "get_handle S = map_option (\<lambda>h. (h, insert h S)) (first_empty S)"

definition release_handle :: "handle_mgr \<Rightarrow> nat \<Rightarrow> bool \<times> handle_mgr" where
  "release_handle S h = (h \<in> S, S - {h})"

definition set_handle :: "handle_mgr \<Rightarrow> nat \<Rightarrow> bool \<times> handle_mgr" where
  "set_handle S h = (h \<notin> S, insert h S)"

definition mgr_size :: "handle_mgr \<Rightarrow> nat" where
  "mgr_size S = card S"

definition valid_handle :: "handle_mgr \<Rightarrow> nat \<Rightarrow> bool" where
  "valid_handle S h \<longleftrightarrow> h \<in> S"

definition mgr_clear :: "handle_mgr \<Rightarrow> handle_mgr" where
  "mgr_clear S = {}"

definition mgr_begin :: "handle_mgr \<Rightarrow> nat" where
  "mgr_begin S = (case first_from S 0 of None \<Rightarrow> word_max | Some h \<Rightarrow> h)"

definition mgr_next :: "handle_mgr \<Rightarrow> nat \<Rightarrow> nat" where
  "mgr_next S i = (case first_from S (i + 1) of None \<Rightarrow> word_max | Some h \<Rightarrow> h)"

definition mgr_end :: nat where
  "mgr_end = word_max"

text \<open>The loop of the copy constructor.\<close>

fun copy_loop :: "nat \<Rightarrow> handle_mgr \<Rightarrow> nat option \<Rightarrow> handle_mgr \<Rightarrow> handle_mgr option" where
  "copy_loop fuel other None S = Some S"
| "copy_loop 0 other (Some i) S = None"
| "copy_loop (Suc fuel) other (Some i) S = copy_loop fuel other (first_from other (i + 1)) (insert i S)"

definition mgr_copy :: "handle_mgr \<Rightarrow> handle_mgr option" where
  "mgr_copy other = copy_loop (card other) other (first_from other 0) {}"

text \<open>A loop from \<^verbatim>\<open>begin()\<close> to \<^verbatim>\<open>end()\<close>: the handles it visits.\<close>

fun iterate :: "nat \<Rightarrow> handle_mgr \<Rightarrow> nat \<Rightarrow> nat list option" where
  "iterate fuel S i = (if i = mgr_end then Some []
     else case fuel of 0 \<Rightarrow> None | Suc f \<Rightarrow> map_option ((#) i) (iterate f S (mgr_next S i)))"

declare iterate.simps [simp del]

definition all_handles :: "handle_mgr \<Rightarrow> nat list option" where
  "all_handles S = iterate (card S) S (mgr_begin S)"

section \<open>The first free handle\<close>

lemma first_empty_free:
  assumes "finite S"
  defines "h \<equiv> Min ({..card S} - S)"
  shows "h \<notin> S" "{..<h} \<subseteq> S" "h \<le> card S"
proof -
  have "\<not> {..card S} \<subseteq> S"
  proof
    assume "{..card S} \<subseteq> S"
    then have "card {..card S} \<le> card S" using assms(1) by (rule card_mono [rotated])
    then show False by simp
  qed
  then have ne: "{..card S} - S \<noteq> {}" by auto
  have "h \<in> {..card S} - S" unfolding h_def by (rule Min_in) (use ne in auto)
  then show "h \<notin> S" "h \<le> card S" by auto
  show "{..<h} \<subseteq> S"
  proof
    fix i assume i: "i \<in> {..<h}"
    show "i \<in> S"
    proof (rule ccontr)
      assume "i \<notin> S"
      then have "i \<in> {..card S} - S" using i \<open>h \<le> card S\<close> by auto
      then have "h \<le> i" unfolding h_def by (intro Min_le) auto
      then show False using i by simp
    qed
  qed
qed

lemma get_handle_Some:
  assumes "finite S" "get_handle S = Some (h, S')"
  shows "h \<notin> S" "{..<h} \<subseteq> S" "h \<le> card S" "S' = insert h S" "finite S'"
  using first_empty_free [OF assms(1)] assms
  by (auto simp: get_handle_def first_empty_def Let_def split: if_splits)

lemma get_handle_total:
  assumes "finite S" "card S \<le> word_max"
  shows "\<exists>h S'. get_handle S = Some (h, S')"
  using first_empty_free(3) [OF assms(1)] assms(2)
  by (auto simp: get_handle_def first_empty_def Let_def)

lemma first_from_Some_iff:
  assumes "finite S"
  shows "first_from S i = Some h \<longleftrightarrow> h \<in> S \<and> i \<le> h \<and> (\<forall>j \<in> S. i \<le> j \<longrightarrow> h \<le> j)"
proof -
  define T where "T = Set.filter (\<lambda>j. i \<le> j) S"
  have f: "finite T" using assms by (simp add: T_def)
  have "T \<noteq> {} \<Longrightarrow> (Min T = h \<longleftrightarrow> h \<in> T \<and> (\<forall>j \<in> T. h \<le> j))"
    using f by (auto simp: Min_eq_iff)
  then show ?thesis by (auto simp: first_from_def Let_def T_def [symmetric]) (auto simp: T_def)
qed

lemma first_from_None_iff: "first_from S i = None \<longleftrightarrow> (\<forall>j \<in> S. j < i)"
  by (auto simp: first_from_def Let_def not_le)

section \<open>Iteration\<close>

definition sorted_from :: "handle_mgr \<Rightarrow> nat \<Rightarrow> nat list" where
  "sorted_from S i = sorted_list_of_set {j \<in> S. i \<le> j}"

lemma sorted_from_step:
  assumes "finite S" "first_from S i = Some h"
  shows "sorted_from S i = h # sorted_from S (h + 1)"
proof -
  note h = assms(2) [unfolded first_from_Some_iff [OF assms(1)]]
  define T where "T = {j \<in> S. i \<le> j}"
  have f: "finite T" "h \<in> T" using assms(1) h by (simp_all add: T_def)
  have "Min T = h" using f h by (intro Min_eqI) (simp_all add: T_def)
  moreover have "T - {h} = {j \<in> S. h + 1 \<le> j}"
  proof (intro equalityI subsetI)
    fix j assume "j \<in> T - {h}"
    then have "j \<in> S" "h \<le> j" "j \<noteq> h" using h by (simp_all add: T_def)
    then show "j \<in> {j \<in> S. h + 1 \<le> j}" by simp
  qed (use h in \<open>simp add: T_def\<close>)
  ultimately show ?thesis
    using sorted_list_of_set_nonempty [OF f(1)] f(2) unfolding sorted_from_def T_def [symmetric] by auto
qed

lemma set_above:
  fixes S :: "nat set"
  assumes "h \<in> S" "i \<le> h" "\<forall>j \<in> S. i \<le> j \<longrightarrow> h \<le> j"
  shows "{j \<in> S. i \<le> j} = insert h {j \<in> S. h + 1 \<le> j}"
proof (intro equalityI subsetI)
  fix j assume "j \<in> {j \<in> S. i \<le> j}"
  then have "j \<in> S" "h \<le> j" using assms(3) by simp_all
  then show "j \<in> insert h {j \<in> S. h + 1 \<le> j}" by (cases "j = h") simp_all
qed (use assms(1,2) in auto)

lemma card_above_less:
  fixes S :: "nat set"
  assumes "finite S" "h \<in> S" "i \<le> h"
  shows "card {j \<in> S. h + 1 \<le> j} < card {j \<in> S. i \<le> j}"
proof (rule psubset_card_mono)
  have "h \<in> {j \<in> S. i \<le> j}" "h \<notin> {j \<in> S. h + 1 \<le> j}" using assms by simp_all
  moreover have "{j \<in> S. h + 1 \<le> j} \<subseteq> {j \<in> S. i \<le> j}" using assms(3) by auto
  ultimately show "{j \<in> S. h + 1 \<le> j} \<subset> {j \<in> S. i \<le> j}" by blast
qed (use assms(1) in simp)

lemma iterate_sorted:
  assumes "finite S" "\<forall>j \<in> S. j < word_max" "card {j \<in> S. i \<le> j} \<le> fuel"
  shows "iterate fuel S (case first_from S i of None \<Rightarrow> word_max | Some h \<Rightarrow> h) = Some (sorted_from S i)"
  using assms(3)
proof (induction fuel arbitrary: i)
  case 0
  then have e: "{j \<in> S. i \<le> j} = {}" using assms(1) by simp
  moreover have "first_from S i = None" using e by (simp add: first_from_def Let_def)
  ultimately show ?case unfolding sorted_from_def e by (simp add: iterate.simps mgr_end_def)
next
  case (Suc fuel)
  show ?case
  proof (cases "first_from S i")
    case None
    then have e: "{j \<in> S. i \<le> j} = {}" by (auto simp: first_from_None_iff)
    show ?thesis using None unfolding sorted_from_def e by (simp add: iterate.simps mgr_end_def)
  next
    case (Some h)
    note h = Some [unfolded first_from_Some_iff [OF assms(1)]]
    have "card {j \<in> S. h + 1 \<le> j} < card {j \<in> S. i \<le> j}" by (rule card_above_less [OF assms(1)]) (use h in simp_all)
    then have "card {j \<in> S. h + 1 \<le> j} \<le> fuel" using Suc.prems by simp
    from Suc.IH [OF this] have "iterate fuel S (mgr_next S h) = Some (sorted_from S (h + 1))"
      by (simp add: mgr_next_def)
    then show ?thesis
      using Some h assms(2) sorted_from_step [OF assms(1) Some]
      by (simp add: iterate.simps [of "Suc fuel"] mgr_end_def) auto
  qed
qed

lemma all_handles_sorted:
  assumes "finite S" "\<forall>j \<in> S. j < word_max"
  shows "all_handles S = Some (sorted_list_of_set S)"
  using iterate_sorted [OF assms, of 0 "card S"] assms(1)
  by (simp add: all_handles_def mgr_begin_def sorted_from_def)

text \<open>A loop over the handles visits each allocated handle once, in increasing order, and ends.\<close>

theorem handles_iterated:
  assumes "finite S" "\<forall>j \<in> S. j < word_max"
  shows "all_handles S = Some (sorted_list_of_set S)"
  using assms by (rule all_handles_sorted)

lemma copy_loop_all:
  assumes "finite S" "card {j \<in> S. i \<le> j} \<le> fuel"
  shows "copy_loop fuel S (first_from S i) T = Some (T \<union> {j \<in> S. i \<le> j})"
  using assms(2)
proof (induction fuel arbitrary: i T)
  case 0
  then have e: "{j \<in> S. i \<le> j} = {}" using assms(1) by simp
  moreover have "first_from S i = None" using e by (simp add: first_from_def Let_def)
  ultimately show ?case unfolding e by simp
next
  case (Suc fuel)
  show ?case
  proof (cases "first_from S i")
    case None
    then have e: "{j \<in> S. i \<le> j} = {}" by (auto simp: first_from_None_iff)
    show ?thesis using None unfolding e by simp
  next
    case (Some h)
    note h = Some [unfolded first_from_Some_iff [OF assms(1)]]
    have "card {j \<in> S. h + 1 \<le> j} < card {j \<in> S. i \<le> j}" by (rule card_above_less [OF assms(1)]) (use h in simp_all)
    then have "card {j \<in> S. h + 1 \<le> j} \<le> fuel" using Suc.prems by simp
    moreover have "insert h T \<union> {j \<in> S. h + 1 \<le> j} = T \<union> {j \<in> S. i \<le> j}" using set_above [of h S i] h by auto
    ultimately show ?thesis using Suc.IH [of "h + 1" "insert h T"] Some by simp
  qed
qed

lemma mgr_copy_eq: "finite S \<Longrightarrow> mgr_copy S = Some S"
  using copy_loop_all [of S 0 "card S" "{}"] by (simp add: mgr_copy_def)

theorem handles_iterated_witness:
  "all_handles {3, 0, 7} = Some (sorted_list_of_set {3, 0, 7})"
  by (rule handles_iterated) (simp_all add: word_max_def)

end
