(* ===== verification/Entry_List.thy ===== *)
theory Entry_List
  imports Prelude
begin

text \<open>
  Keys of match entries (match_key_types.h), and the list of entries that ternary and range
  tables search, with its cache (lookup_structures.cpp, \<^verbatim>\<open>TernaryCache\<close> and \<^verbatim>\<open>EntryList\<close>).  The
  entries live in a vector, so a pointer to one is its index; a pointer to a key is the key it
  points to, which the match unit does not change while the entry is in the list.
\<close>

section \<open>Keys\<close>

record match_key =
  kdata :: "u8 list"
  kversion :: nat

record lpm_key = match_key +
  prefix_length :: nat

record ternary_key = match_key +
  kmask :: "u8 list"
  kpriority :: int

record range_key = ternary_key +
  range_widths :: "nat list"

definition int_max :: int where
  "int_max = 2 ^ 31 - 1"

definition ternary_eq :: "('a ternary_key_scheme) \<Rightarrow> ('b ternary_key_scheme) \<Rightarrow> bool" where
  "ternary_eq k1 k2 \<longleftrightarrow> kdata k1 = kdata k2 \<and> kmask k1 = kmask k2"

definition range_eq :: "range_key \<Rightarrow> range_key \<Rightarrow> bool" where
  "range_eq k1 k2 \<longleftrightarrow> kdata k1 = kdata k2 \<and> kmask k1 = kmask k2 \<and> range_widths k1 = range_widths k2"

section \<open>The cache\<close>

text \<open>
  \<open>lru\<close> is the list of cached keys with their handles, most recent first, and \<open>cindex\<close> the keys
  of the hash map, whose iterators lead to the list element with that key.
\<close>

record ternary_cache =
  lru :: "(nat \<times> u8 list) list"
  cindex :: "u8 list set"

definition cache_new :: ternary_cache where
  "cache_new = \<lparr>lru = [], cindex = {}\<rparr>"

definition cache_size :: nat where
  "cache_size = 64"

definition move_to_head :: "nat \<times> u8 list \<Rightarrow> ternary_cache \<Rightarrow> ternary_cache" where
  "move_to_head x c = c\<lparr>lru := x # remove1 x (lru c)\<rparr>"

definition cache_lookup :: "u8 list \<Rightarrow> ternary_cache \<Rightarrow> (nat option \<times> ternary_cache) option" where
  "cache_lookup key c =
     (if key \<in> cindex c then do {
        x \<leftarrow> find (\<lambda>(h, k). k = key) (lru c);
        Some (Some (fst x), move_to_head x c) }
      else Some (None, c))"

definition cache_evict :: "ternary_cache \<Rightarrow> ternary_cache option" where
  "cache_evict c =
     (if card (cindex c) = cache_size then
        (if lru c = [] then None
         else let evict = last (lru c) in
           if snd evict \<in> cindex c
           then Some \<lparr>lru = butlast (lru c), cindex = cindex c - {snd evict}\<rparr>
           else None)
      else Some c)"

definition cache_add :: "u8 list \<Rightarrow> nat \<Rightarrow> ternary_cache \<Rightarrow> (bool \<times> ternary_cache) option" where
  "cache_add key h c =
     (if key \<in> cindex c then Some (False, c)
      else do {
        c1 \<leftarrow> cache_evict c;
        Some (True, \<lparr>lru = (h, key) # lru c1, cindex = insert key (cindex c1)\<rparr>) })"

definition invalidate_all :: "ternary_cache \<Rightarrow> ternary_cache" where
  "invalidate_all c = \<lparr>lru = [], cindex = {}\<rparr>"

section \<open>The list of entries\<close>

record 'k entry =
  e_priority :: int
  e_key :: "'k option"
  e_prev :: "nat option"
  e_next :: "nat option"

record 'k entry_list =
  el_head :: "nat option"
  el_entries :: "'k entry list"
  entries_count :: nat
  enable_cache :: bool
  use_cache :: bool
  el_cache :: ternary_cache

definition null_entry :: "'k entry" where
  "null_entry = \<lparr>e_priority = 0, e_key = None, e_prev = None, e_next = None\<rparr>"

definition el_new :: "nat \<Rightarrow> bool \<Rightarrow> 'k entry_list" where
  "el_new n en = \<lparr>el_head = None, el_entries = replicate n null_entry, entries_count = 0,
     enable_cache = en, use_cache = False, el_cache = cache_new\<rparr>"

text \<open>The entries a loop along the \<open>next\<close> pointers visits; it ends if it visits no entry twice.\<close>

fun chain :: "nat \<Rightarrow> 'k entry list \<Rightarrow> nat option \<Rightarrow> nat list option" where
  "chain fuel es None = Some []"
| "chain 0 es (Some i) = None"
| "chain (Suc fuel) es (Some i) = do {
     e \<leftarrow> nth_opt es i; rest \<leftarrow> chain fuel es (e_next e); Some (i # rest) }"

definition visited :: "'k entry_list \<Rightarrow> nat list option" where
  "visited l = chain (length (el_entries l)) (el_entries l) (el_head l)"

text \<open>\<^verbatim>\<open>std::distance(head, entry)\<close>, converted to an unsigned handle.\<close>

definition handle_from_entry :: "'k entry_list \<Rightarrow> nat \<Rightarrow> nat option" where
  "handle_from_entry l i = (case el_head l of
     None \<Rightarrow> None | Some h \<Rightarrow> Some (nat ((int i - int h) mod 2 ^ 64)))"

definition same_entry :: "('k \<Rightarrow> 'k \<Rightarrow> bool) \<Rightarrow> ('k \<Rightarrow> int) \<Rightarrow> 'k \<Rightarrow> 'k entry \<Rightarrow> bool" where
  "same_entry eq prio key e \<longleftrightarrow> e_priority e = prio key \<and> (case e_key e of None \<Rightarrow> False | Some k \<Rightarrow> eq k key)"

definition find_entry :: "('k \<Rightarrow> 'k \<Rightarrow> bool) \<Rightarrow> ('k \<Rightarrow> int) \<Rightarrow> 'k entry_list \<Rightarrow> 'k \<Rightarrow> nat option option" where
  "find_entry eq prio l key =
     map_option (find (\<lambda>i. same_entry eq prio key (el_entries l ! i))) (visited l)"

definition el_exists :: "('k \<Rightarrow> 'k \<Rightarrow> bool) \<Rightarrow> ('k \<Rightarrow> int) \<Rightarrow> 'k entry_list \<Rightarrow> 'k \<Rightarrow> bool option" where
  "el_exists eq prio l key = map_option (\<lambda>r. r \<noteq> None) (find_entry eq prio l key)"

definition el_retrieve :: "('k \<Rightarrow> 'k \<Rightarrow> bool) \<Rightarrow> ('k \<Rightarrow> int) \<Rightarrow> 'k entry_list \<Rightarrow> 'k \<Rightarrow> nat option option" where
  "el_retrieve eq prio l key = do {
     r \<leftarrow> find_entry eq prio l key;
     case r of None \<Rightarrow> Some None | Some i \<Rightarrow> map_option Some (handle_from_entry l i) }"

definition cache_activated :: "'k entry_list \<Rightarrow> bool" where
  "cache_activated l = use_cache l"

definition update_use_cache :: "'k entry_list \<Rightarrow> 'k entry_list" where
  "update_use_cache l = l\<lparr>use_cache := enable_cache l \<and> 16 \<le> entries_count l\<rparr>"

definition touch_cache :: "'k entry_list \<Rightarrow> 'k entry_list" where
  "touch_cache l = update_use_cache
     (if cache_activated l then l\<lparr>el_cache := invalidate_all (el_cache l)\<rparr> else l)"

text \<open>One step of the search: the entry so far with its priority.\<close>

definition scan_step :: "('b \<Rightarrow> 'k \<Rightarrow> bool option) \<Rightarrow> 'b \<Rightarrow> 'k entry_list \<Rightarrow>
   nat \<Rightarrow> int \<times> nat option \<Rightarrow> (int \<times> nat option) option" where
  "scan_step cmp key l i best = (let e = el_entries l ! i in
     if fst best \<le> e_priority e then Some best
     else do {
       k \<leftarrow> e_key e;
       c \<leftarrow> cmp key k;
       if c then do { h \<leftarrow> handle_from_entry l i; Some (e_priority e, Some h) } else Some best })"

definition scan :: "('b \<Rightarrow> 'k \<Rightarrow> bool option) \<Rightarrow> 'b \<Rightarrow> 'k entry_list \<Rightarrow> nat option option" where
  "scan cmp key l = do {
     is \<leftarrow> visited l;
     best \<leftarrow> fold_opt (scan_step cmp key l) is (int_max, None);
     Some (snd best) }"

definition search_and_cache ::
  "(u8 list \<Rightarrow> 'k \<Rightarrow> bool option) \<Rightarrow> u8 list \<Rightarrow> 'k entry_list \<Rightarrow> (nat option \<times> 'k entry_list) option" where
  "search_and_cache cmp key l = do {
     r \<leftarrow> scan cmp key l;
     case r of None \<Rightarrow> Some (None, l)
     | Some h \<Rightarrow>
         if cache_activated l then do {
           (_, c) \<leftarrow> cache_add key h (el_cache l); Some (Some h, l\<lparr>el_cache := c\<rparr>) }
         else Some (Some h, l) }"

definition el_lookup ::
  "(u8 list \<Rightarrow> 'k \<Rightarrow> bool option) \<Rightarrow> u8 list \<Rightarrow> 'k entry_list \<Rightarrow> (nat option \<times> 'k entry_list) option" where
  "el_lookup cmp key l =
     (if cache_activated l then do {
        (r, c) \<leftarrow> cache_lookup key (el_cache l);
        if r \<noteq> None then Some (r, l\<lparr>el_cache := c\<rparr>)
        else search_and_cache cmp key (l\<lparr>el_cache := c\<rparr>) }
      else search_and_cache cmp key l)"

definition set_prev :: "nat option \<Rightarrow> nat option \<Rightarrow> 'k entry list \<Rightarrow> 'k entry list" where
  "set_prev n p es = (case n of None \<Rightarrow> es | Some i \<Rightarrow> es[i := (es ! i)\<lparr>e_prev := p\<rparr>])"

definition el_link :: "('k \<Rightarrow> int) \<Rightarrow> 'k \<Rightarrow> nat \<Rightarrow> 'k entry_list \<Rightarrow> 'k entry_list option" where
  "el_link prio key h l =
     (let es = el_entries l;
          e = (es ! h)\<lparr>e_priority := prio key, e_key := Some key\<rparr>
      in if h = 0
         then let n = el_head l in
           Some (l\<lparr>el_head := Some 0,
             el_entries := set_prev n (Some 0) (es[0 := e\<lparr>e_prev := None, e_next := n\<rparr>])\<rparr>)
         else if el_head l = Some h then None
         else let n = e_next (es ! (h - 1));
                  es1 = es[h := e\<lparr>e_prev := Some (h - 1), e_next := n\<rparr>];
                  es2 = es1[h - 1 := (es1 ! (h - 1))\<lparr>e_next := Some h\<rparr>]
           in Some (l\<lparr>el_entries := set_prev n (Some h) es2\<rparr>))"

definition el_add :: "('k \<Rightarrow> int) \<Rightarrow> 'k \<Rightarrow> nat \<Rightarrow> 'k entry_list \<Rightarrow> 'k entry_list option" where
  "el_add prio key h l = do {
     guard (h < length (el_entries l));
     l1 \<leftarrow> el_link prio key h l;
     Some (touch_cache (l1\<lparr>entries_count := entries_count l1 + 1\<rparr>)) }"

definition el_unlink :: "nat \<Rightarrow> 'k entry_list \<Rightarrow> 'k entry_list" where
  "el_unlink i l =
     (let es = el_entries l; e = es ! i;
          l1 = (case e_prev e of
                  Some p \<Rightarrow> l\<lparr>el_entries := es[p := (es ! p)\<lparr>e_next := e_next e\<rparr>]\<rparr>
                | None \<Rightarrow> l\<lparr>el_head := e_next e\<rparr>)
      in l1\<lparr>el_entries := set_prev (e_next e) (e_prev e) (el_entries l1)\<rparr>)"

definition el_delete :: "('k \<Rightarrow> 'k \<Rightarrow> bool) \<Rightarrow> ('k \<Rightarrow> int) \<Rightarrow> 'k \<Rightarrow> 'k entry_list \<Rightarrow> 'k entry_list option" where
  "el_delete eq prio key l = do {
     r \<leftarrow> find_entry eq prio l key;
     i \<leftarrow> r;
     let l1 = el_unlink i l;
     Some (touch_cache (l1\<lparr>entries_count := entries_count l1 - 1\<rparr>)) }"

definition el_clear :: "'k entry_list \<Rightarrow> 'k entry_list" where
  "el_clear l = update_use_cache
     (l\<lparr>el_head := None, el_cache := invalidate_all (el_cache l), entries_count := 0\<rparr>)"

section \<open>Linked segments\<close>

text \<open>
  \<open>lseg es p hs n\<close>: the entries \<open>hs\<close> are linked in this order, after \<open>p\<close> and before \<open>n\<close>.
\<close>

definition first_or :: "nat list \<Rightarrow> nat option \<Rightarrow> nat option" where
  "first_or hs n = (case hs of [] \<Rightarrow> n | h # _ \<Rightarrow> Some h)"

definition last_or :: "nat list \<Rightarrow> nat option \<Rightarrow> nat option" where
  "last_or hs p = (if hs = [] then p else Some (last hs))"

lemma first_or_simps [simp]: "first_or [] n = n" "first_or (h # hs) n = Some h"
  by (simp_all add: first_or_def)

lemma first_or_append [simp]: "first_or (us @ vs) n = first_or us (first_or vs n)"
  by (cases us) simp_all

lemma last_or_simps [simp]: "last_or [] p = p" "last_or (hs @ [h]) p = Some h"
  by (simp_all add: last_or_def)

lemma last_or_Cons [simp]: "last_or (h # hs) p = last_or hs (Some h)"
  by (simp add: last_or_def)

fun lseg :: "'k entry list \<Rightarrow> nat option \<Rightarrow> nat list \<Rightarrow> nat option \<Rightarrow> bool" where
  "lseg es p [] n = True"
| "lseg es p (h # hs) n \<longleftrightarrow> h < length es \<and> e_prev (es ! h) = p \<and> e_next (es ! h) = first_or hs n \<and>
     lseg es (Some h) hs n"

lemma lseg_append: "lseg es p (us @ vs) n \<longleftrightarrow> lseg es p us (first_or vs n) \<and> lseg es (last_or us p) vs n"
  by (induction us arbitrary: p) auto

lemma lseg_frame:
  "i \<notin> set hs \<Longrightarrow> lseg (es[i := e]) p hs n = lseg es p hs n"
  by (induction hs arbitrary: p) auto

lemma lseg_bound: "lseg es p hs n \<Longrightarrow> h \<in> set hs \<Longrightarrow> h < length es"
  by (induction hs arbitrary: p) auto

lemma lseg_chain:
  "lseg es p hs None \<Longrightarrow> length hs \<le> fuel \<Longrightarrow> chain fuel es (first_or hs None) = Some hs"
proof (induction hs arbitrary: p fuel)
  case (Cons h hs)
  then obtain f where "fuel = Suc f" by (cases fuel) auto
  then show ?case using Cons.prems Cons.IH [of "Some h" f] by (simp add: nth_opt_def)
qed simp

text \<open>Changing the \<open>prev\<close> pointer of the first entry, or the \<open>next\<close> pointer of the last.\<close>

lemma lseg_set_prev:
  assumes "lseg es p hs n" "distinct hs"
  shows "lseg (set_prev (first_or hs None) q es) q hs n"
  using assms by (cases hs) (auto simp: set_prev_def lseg_frame)

lemma lseg_set_next:
  assumes "lseg es p (us @ [i]) n" "i \<notin> set us"
  shows "lseg (es[i := (es ! i)\<lparr>e_next := m\<rparr>]) p (us @ [i]) m"
  using assms by (auto simp: lseg_append lseg_frame)

lemma set_prev_length [simp]: "length (set_prev n p es) = length es"
  by (simp add: set_prev_def split: option.split)

lemma set_prev_frame: "n \<noteq> Some i \<Longrightarrow> set_prev n p es ! i = es ! i"
  by (cases n) (simp_all add: set_prev_def)

lemma lseg_set_prev_frame: "(\<And>i. n = Some i \<Longrightarrow> i \<notin> set hs) \<Longrightarrow> lseg (set_prev n q es) p hs m = lseg es p hs m"
  by (auto simp: set_prev_def lseg_frame split: option.split)

lemma first_or_in: "first_or hs None = Some i \<Longrightarrow> i \<in> set hs"
  by (cases hs) auto

section \<open>The invariant\<close>

text \<open>
  \<open>el_rep prio l hs\<close>: the list holds the entries \<open>hs\<close>, in increasing order of handle, with their
  keys and priorities.
\<close>

definition el_rep :: "('k \<Rightarrow> int) \<Rightarrow> 'k entry_list \<Rightarrow> nat list \<Rightarrow> bool" where
  "el_rep prio l hs \<longleftrightarrow> sorted_wrt (<) hs \<and> el_head l = first_or hs None \<and>
     lseg (el_entries l) None hs None \<and> entries_count l = length hs \<and>
     (\<forall>h \<in> set hs. \<exists>k. e_key (el_entries l ! h) = Some k \<and> e_priority (el_entries l ! h) = prio k)"

definition el_key :: "'k entry_list \<Rightarrow> nat \<Rightarrow> 'k" where
  "el_key l h = the (e_key (el_entries l ! h))"

lemma el_rep_key:
  "el_rep prio l hs \<Longrightarrow> h \<in> set hs \<Longrightarrow>
    e_key (el_entries l ! h) = Some (el_key l h) \<and> e_priority (el_entries l ! h) = prio (el_key l h)"
  by (auto simp: el_rep_def el_key_def)

lemma el_rep_distinct: "el_rep prio l hs \<Longrightarrow> distinct hs"
  by (simp add: el_rep_def strict_sorted_iff)

lemma el_rep_bound: "el_rep prio l hs \<Longrightarrow> h \<in> set hs \<Longrightarrow> h < length (el_entries l)"
  using lseg_bound by (fastforce simp: el_rep_def)

lemma el_rep_visited:
  assumes "el_rep prio l hs"
  shows "visited l = Some hs"
proof -
  have "set hs \<subseteq> {..<length (el_entries l)}" using el_rep_bound [OF assms] by auto
  then have "card (set hs) \<le> length (el_entries l)" using card_mono [of "{..<length (el_entries l)}"] by fastforce
  then have "length hs \<le> length (el_entries l)" using el_rep_distinct [OF assms] by (simp add: distinct_card)
  then show ?thesis using assms lseg_chain by (auto simp: visited_def el_rep_def)
qed

lemma el_rep_unique: "el_rep prio l hs \<Longrightarrow> el_rep prio l hs' \<Longrightarrow> hs = hs'"
  by (metis el_rep_visited option.inject)

lemma el_rep_cong:
  "el_head l' = el_head l \<Longrightarrow> el_entries l' = el_entries l \<Longrightarrow> entries_count l' = entries_count l \<Longrightarrow>
    el_rep prio l' hs = el_rep prio l hs"
  by (simp add: el_rep_def)

lemma touch_cache_simps [simp]:
  "el_head (touch_cache l) = el_head l" "el_entries (touch_cache l) = el_entries l"
  "entries_count (touch_cache l) = entries_count l" "enable_cache (touch_cache l) = enable_cache l"
  "el_head (update_use_cache l) = el_head l" "el_entries (update_use_cache l) = el_entries l"
  "entries_count (update_use_cache l) = entries_count l" "enable_cache (update_use_cache l) = enable_cache l"
  "el_cache (update_use_cache l) = el_cache l"
  by (simp_all add: touch_cache_def update_use_cache_def)

lemma el_new_rep: "el_rep prio (el_new n en) []"
  by (simp add: el_rep_def el_new_def)

lemma el_clear_rep: "el_rep prio (el_clear l) []"
  by (simp add: el_rep_def el_clear_def)

lemma find_entry_rep: "el_rep prio l hs \<Longrightarrow>
    find_entry eq prio l key = Some (find (\<lambda>h. prio (el_key l h) = prio key \<and> eq (el_key l h) key) hs)"
  using el_rep_key by (fastforce simp: find_entry_def el_rep_visited same_entry_def intro!: find_cong)

section \<open>Adding and deleting\<close>

lemma set_prev_fields [simp]:
  "e_key (set_prev n p es ! i) = e_key (es ! i)" "e_priority (set_prev n p es ! i) = e_priority (es ! i)"
  by (cases n; simp add: set_prev_def nth_update_if)+

text \<open>A handle whose predecessors are all in use goes right after its predecessor.\<close>

definition insert_after :: "nat \<Rightarrow> nat list \<Rightarrow> nat list" where
  "insert_after h hs = filter (\<lambda>i. i < h) hs @ h # filter (\<lambda>i. h < i) hs"

lemma sorted_partition: "sorted_wrt (<) hs \<Longrightarrow> h \<notin> set hs \<Longrightarrow> hs = filter (\<lambda>i. i < h) hs @ filter (\<lambda>i. h < i) hs"
  for h :: nat
proof (induction hs)
  case (Cons x hs)
  show ?case
  proof (cases "x < h")
    case False
    then have "h < x" using Cons.prems(2) by auto
    then have "filter (\<lambda>i. i < h) hs = []" "filter (\<lambda>i. h < i) hs = hs"
      using Cons.prems(1) by (auto simp: filter_empty_conv filter_id_conv)
    then show ?thesis using \<open>h < x\<close> by simp
  qed (use Cons in auto)
qed simp

lemma insert_after_sorted: "sorted_wrt (<) hs \<Longrightarrow> sorted_wrt (<) (insert_after h hs)"
  by (auto simp: insert_after_def sorted_wrt_append intro: sorted_wrt_filter)

lemma insert_after_set: "h \<notin> set hs \<Longrightarrow> set (insert_after h hs) = insert h (set hs)"
  by (auto simp: insert_after_def)

lemma insert_after_length: "sorted_wrt (<) hs \<Longrightarrow> h \<notin> set hs \<Longrightarrow> length (insert_after h hs) = Suc (length hs)"
  using arg_cong [OF sorted_partition, of hs h length] by (simp add: insert_after_def)

lemma last_below:
  fixes hs :: "nat list"
  assumes "sorted_wrt (<) hs" "{..<h} \<subseteq> set hs" "0 < h"
  shows "\<exists>us. filter (\<lambda>i. i < h) hs = us @ [h - 1] \<and> h - 1 \<notin> set us"
proof -
  define fs where "fs = filter (\<lambda>i. i < h) hs"
  have s: "sorted_wrt (<) fs" "h - 1 \<in> set fs" "\<forall>i \<in> set fs. i \<le> h - 1"
    using assms by (auto simp: fs_def intro: sorted_wrt_filter)
  then obtain us x where u: "fs = us @ [x]" by (metis empty_iff empty_set rev_exhaust)
  then have "h - 1 = x" using s by (auto simp: sorted_wrt_append)
  then show ?thesis using u s(1) by (auto simp: fs_def sorted_wrt_append)
qed

lemma el_link_rep:
  assumes "el_rep prio l hs" "h < length (el_entries l)" "h \<notin> set hs" "{..<h} \<subseteq> set hs"
  obtains l1 where "el_link prio key h l = Some l1" "el_head l1 = first_or (insert_after h hs) None"
    "lseg (el_entries l1) None (insert_after h hs) None"
    "length (el_entries l1) = length (el_entries l)"
    "\<forall>i. e_key (el_entries l1 ! i) = (if i = h then Some key else e_key (el_entries l ! i)) \<and>
       e_priority (el_entries l1 ! i) = (if i = h then prio key else e_priority (el_entries l ! i))"
    "entries_count l1 = entries_count l" "enable_cache l1 = enable_cache l" "use_cache l1 = use_cache l"
    "el_cache l1 = el_cache l"
proof -
  define es where "es = el_entries l"
  define vs where "vs = filter (\<lambda>i. h < i) hs"
  have srt: "sorted_wrt (<) hs" and seg: "lseg es None hs None" and hd: "el_head l = first_or hs None"
    using assms(1) by (auto simp: el_rep_def es_def)
  have hv: "h \<notin> set vs" "distinct vs" using el_rep_distinct [OF assms(1)] by (auto simp: vs_def)
  show thesis
  proof (cases "h = 0")
    case True
    have pos: "\<forall>x \<in> set hs. 0 < x" using assms(3) True by (metis neq0_conv)
    then have hs: "vs = hs" "insert_after h hs = 0 # hs"
      using pos True by (simp_all add: insert_after_def vs_def filter_id_conv)
    define e where "e = (es ! 0)\<lparr>e_priority := prio key, e_key := Some key, e_prev := None, e_next := el_head l\<rparr>"
    define es' where "es' = set_prev (el_head l) (Some 0) (es[0 := e])"
    have 0: "0 < length es" using assms(2) True by (simp add: es_def)
    have n0: "el_head l \<noteq> Some 0" using hv(1) True hs(1) hd by (cases hs) auto
    have seg': "lseg (es[0 := e]) None hs None" using seg hv(1) True hs(1) by (simp add: lseg_frame)
    have "lseg es' (Some 0) hs None"
      unfolding es'_def hd by (rule lseg_set_prev [OF seg']) (use hv(2) hs(1) in simp)
    moreover have "es' ! 0 = e" using n0 0 by (simp add: es'_def set_prev_frame)
    ultimately have "lseg es' None (insert_after h hs) None" using 0 hs(2) hd by (simp add: es'_def e_def)
    moreover have "el_link prio key h l = Some (l\<lparr>el_head := Some 0, el_entries := es'\<rparr>)"
      using True by (simp add: el_link_def Let_def es'_def es_def e_def)
    moreover have "e_key (es' ! i) = (if i = h then Some key else e_key (es ! i)) \<and>
        e_priority (es' ! i) = (if i = h then prio key else e_priority (es ! i))" for i
      using True 0 by (auto simp: es'_def e_def nth_update_if)
    ultimately show thesis using hs(2) by (intro that [of "l\<lparr>el_head := Some 0, el_entries := es'\<rparr>"])
        (simp_all add: es_def es'_def)
  next
    case False
    then obtain us where us: "filter (\<lambda>i. i < h) hs = us @ [h - 1]" "h - 1 \<notin> set us"
      using last_below [OF srt assms(4)] by auto
    have hs: "hs = us @ [h - 1] @ vs" using sorted_partition [OF srt assms(3)] us(1) by (simp add: vs_def)
    have ins: "insert_after h hs = us @ [h - 1] @ h # vs" using us(1) by (simp add: insert_after_def vs_def)
    have hus: "h \<notin> set us" "h \<noteq> h - 1" "h - 1 \<notin> set vs" "set us \<inter> set vs = {}"
      using assms(3) hs False el_rep_distinct [OF assms(1)] by auto
    have s1: "lseg es None (us @ [h - 1]) (first_or vs None)" and s2: "lseg es (Some (h - 1)) vs None"
      using seg unfolding hs by (auto simp: lseg_append)
    define n where "n = first_or vs None"
    have n: "e_next (es ! (h - 1)) = n" using s1 by (simp add: lseg_append n_def)
    define e where "e = (es ! h)\<lparr>e_priority := prio key, e_key := Some key, e_prev := Some (h - 1), e_next := n\<rparr>"
    define es1 where "es1 = es[h := e]"
    define es2 where "es2 = es1[h - 1 := (es1 ! (h - 1))\<lparr>e_next := Some h\<rparr>]"
    define es' where "es' = set_prev n (Some h) es2"
    have nin: "n = Some i \<Longrightarrow> i \<in> set vs" for i unfolding n_def by (rule first_or_in)
    have "lseg es1 None (us @ [h - 1]) n" unfolding es1_def using s1 hus by (subst lseg_frame) (auto simp: n_def)
    then have "lseg es2 None (us @ [h - 1]) (Some h)" unfolding es2_def by (rule lseg_set_next) (rule us(2))
    then have t1: "lseg es' None (us @ [h - 1]) (Some h)"
      unfolding es'_def by (subst lseg_set_prev_frame) (use nin hus in auto)
    have "lseg es2 (Some (h - 1)) vs None" using s2 hv(1) hus by (simp add: es2_def es1_def lseg_frame)
    then have t2: "lseg es' (Some h) vs None" unfolding es'_def n_def by (rule lseg_set_prev) (rule hv(2))
    have h: "es' ! h = e" using nin hv(1) hus assms(2)
      by (subst es'_def, subst set_prev_frame) (auto simp: es2_def es1_def nth_update_if es_def)
    have "lseg es' None (insert_after h hs) None"
      unfolding ins using t1 t2 h assms(2) by (auto simp: lseg_append e_def n_def es'_def es2_def es1_def es_def)
    moreover have nh: "el_head l \<noteq> Some h" using hd assms(3) by (cases hs) auto
    moreover have "el_link prio key h l = Some (l\<lparr>el_entries := es'\<rparr>)"
      using False nh n by (simp add: el_link_def Let_def es'_def es2_def es1_def e_def es_def)
    moreover have "e_key (es' ! i) = (if i = h then Some key else e_key (es ! i)) \<and>
        e_priority (es' ! i) = (if i = h then prio key else e_priority (es ! i))" for i
      using assms(2) hus by (auto simp: es'_def es2_def es1_def e_def nth_update_if es_def)
    moreover have "first_or (insert_after h hs) None = el_head l" unfolding hd ins by (simp add: hs)
    ultimately show thesis by (intro that [of "l\<lparr>el_entries := es'\<rparr>"])
        (simp_all add: es_def es'_def es2_def es1_def)
  qed
qed

lemma el_add_rep:
  assumes "el_rep prio l hs" "h < length (el_entries l)" "h \<notin> set hs" "{..<h} \<subseteq> set hs"
  obtains l' where "el_add prio key h l = Some l'" "el_rep prio l' (insert_after h hs)"
    "length (el_entries l') = length (el_entries l)"
    "\<And>i. i \<in> set (insert_after h hs) \<Longrightarrow> el_key l' i = (if i = h then key else el_key l i)"
    "enable_cache l' = enable_cache l"
    "use_cache l' \<longleftrightarrow> enable_cache l \<and> 16 \<le> Suc (length hs)"
    "el_cache l' = (if use_cache l then invalidate_all (el_cache l) else el_cache l)"
proof -
  obtain l1 where l1: "el_link prio key h l = Some l1" "el_head l1 = first_or (insert_after h hs) None"
    "lseg (el_entries l1) None (insert_after h hs) None"
    "length (el_entries l1) = length (el_entries l)"
    "\<forall>i. e_key (el_entries l1 ! i) = (if i = h then Some key else e_key (el_entries l ! i)) \<and>
       e_priority (el_entries l1 ! i) = (if i = h then prio key else e_priority (el_entries l ! i))"
    "entries_count l1 = entries_count l" "enable_cache l1 = enable_cache l" "use_cache l1 = use_cache l"
    "el_cache l1 = el_cache l"
    by (rule el_link_rep [OF assms])
  define l' where "l' = touch_cache (l1\<lparr>entries_count := entries_count l1 + 1\<rparr>)"
  have srt: "sorted_wrt (<) hs" and cnt: "entries_count l = length hs" using assms(1) by (auto simp: el_rep_def)
  have "el_rep prio l' (insert_after h hs)"
    unfolding el_rep_def
    using l1 cnt insert_after_sorted [OF srt] insert_after_length [OF srt assms(3)] insert_after_set [OF assms(3)]
      el_rep_key [OF assms(1)]
    by (auto simp: l'_def)
  moreover have "el_add prio key h l = Some l'" using assms(2) l1(1) by (simp add: el_add_def l'_def)
  moreover have "el_key l' i = (if i = h then key else el_key l i)" for i
    using l1(5) by (simp add: el_key_def l'_def)
  ultimately show thesis
    using l1 cnt by (intro that [of l'])
      (simp_all add: l'_def touch_cache_def update_use_cache_def cache_activated_def)
qed

lemma el_unlink_rep:
  assumes "el_rep prio l (us @ i # vs)"
  shows "el_head (el_unlink i l) = first_or (us @ vs) None"
    "lseg (el_entries (el_unlink i l)) None (us @ vs) None"
    "length (el_entries (el_unlink i l)) = length (el_entries l)"
    "e_key (el_entries (el_unlink i l) ! j) = e_key (el_entries l ! j)"
    "e_priority (el_entries (el_unlink i l) ! j) = e_priority (el_entries l ! j)"
    "entries_count (el_unlink i l) = entries_count l" "enable_cache (el_unlink i l) = enable_cache l"
    "use_cache (el_unlink i l) = use_cache l" "el_cache (el_unlink i l) = el_cache l"
proof -
  define es where "es = el_entries l"
  have d: "i \<notin> set us" "i \<notin> set vs" "distinct us" "distinct vs" "set us \<inter> set vs = {}"
    using el_rep_distinct [OF assms] by auto
  have hd: "el_head l = first_or us (Some i)" and s1: "lseg es None us (Some i)"
    and i: "i < length es" "e_prev (es ! i) = last_or us None" "e_next (es ! i) = first_or vs None"
    and s2: "lseg es (Some i) vs None"
    using assms by (auto simp: el_rep_def lseg_append es_def)
  define es1 where "es1 = (case last_or us None of None \<Rightarrow> es | Some p \<Rightarrow> es[p := (es ! p)\<lparr>e_next := first_or vs None\<rparr>])"
  define l1 where "l1 = (if us = [] then l\<lparr>el_head := first_or vs None\<rparr> else l\<lparr>el_entries := es1\<rparr>)"
  have u: "el_unlink i l = l1\<lparr>el_entries := set_prev (first_or vs None) (last_or us None) es1\<rparr>"
    using i by (simp add: el_unlink_def Let_def es_def l1_def es1_def last_or_def)
  show "el_head (el_unlink i l) = first_or (us @ vs) None"
    unfolding u using hd by (cases us) (auto simp: l1_def)
  have "lseg es1 None us (first_or vs None)"
  proof (cases us rule: rev_cases)
    case (snoc us' p)
    then show ?thesis using lseg_set_next [of es None us' p "Some i"] s1 d(3) by (simp add: es1_def)
  qed simp
  then have t1: "lseg (set_prev (first_or vs None) (last_or us None) es1) None us (first_or vs None)"
    by (subst lseg_set_prev_frame) (use d(5) in \<open>auto dest: first_or_in\<close>)
  have "lseg es1 (Some i) vs None"
  proof (cases us rule: rev_cases)
    case (snoc us' p)
    then show ?thesis using s2 d(5) by (simp add: es1_def lseg_frame)
  qed (use s2 in \<open>simp add: es1_def\<close>)
  then have t2: "lseg (set_prev (first_or vs None) (last_or us None) es1) (last_or us None) vs None"
    by (rule lseg_set_prev) (rule d(4))
  show "lseg (el_entries (el_unlink i l)) None (us @ vs) None" unfolding u using t1 t2 by (simp add: lseg_append)
  have k: "length es1 = length es" "e_key (es1 ! j) = e_key (es ! j)" "e_priority (es1 ! j) = e_priority (es ! j)" for j
    by (auto simp: es1_def nth_update_if split: option.split)
  show "length (el_entries (el_unlink i l)) = length (el_entries l)"
    "e_key (el_entries (el_unlink i l) ! j) = e_key (el_entries l ! j)"
    "e_priority (el_entries (el_unlink i l) ! j) = e_priority (el_entries l ! j)"
    "entries_count (el_unlink i l) = entries_count l" "enable_cache (el_unlink i l) = enable_cache l"
    "use_cache (el_unlink i l) = use_cache l" "el_cache (el_unlink i l) = el_cache l"
    unfolding u by (simp_all add: k es_def l1_def)
qed

lemma el_delete_rep:
  assumes "el_rep prio l hs" "find (\<lambda>h. prio (el_key l h) = prio key \<and> eq (el_key l h) key) hs = Some i"
  obtains l' where "el_delete eq prio key l = Some l'" "el_rep prio l' (remove1 i hs)" "i \<in> set hs"
    "length (el_entries l') = length (el_entries l)" "\<And>j. el_key l' j = el_key l j"
    "enable_cache l' = enable_cache l"
    "use_cache l' \<longleftrightarrow> enable_cache l \<and> 16 \<le> length hs - 1"
    "el_cache l' = (if use_cache l then invalidate_all (el_cache l) else el_cache l)"
proof -
  have i: "i \<in> set hs" using assms(2) by (auto simp: find_Some_iff)
  then obtain us vs where hs: "hs = us @ i # vs" "i \<notin> set us" by (metis split_list_first)
  have rm: "remove1 i hs = us @ vs" using hs by (simp add: remove1_append)
  note un = el_unlink_rep [OF assms(1) [unfolded hs(1)]]
  define l' where "l' = touch_cache ((el_unlink i l)\<lparr>entries_count := entries_count (el_unlink i l) - 1\<rparr>)"
  have srt: "sorted_wrt (<) hs" and cnt: "entries_count l = length hs" using assms(1) by (auto simp: el_rep_def)
  have "sorted_wrt (<) (us @ vs)" using srt unfolding hs(1) by (auto simp: sorted_wrt_append)
  then have "el_rep prio l' (us @ vs)"
    unfolding el_rep_def using un cnt hs(1) el_rep_key [OF assms(1)] by (auto simp: l'_def)
  moreover have "el_delete eq prio key l = Some l'"
    using find_entry_rep [OF assms(1), of eq key] assms(2) by (simp add: el_delete_def l'_def Let_def)
  moreover have "el_key l' j = el_key l j" for j by (simp add: el_key_def l'_def un)
  ultimately show thesis
    using un cnt i rm by (intro that [of l'])
      (simp_all add: l'_def touch_cache_def update_use_cache_def cache_activated_def)
qed

section \<open>The search\<close>

text \<open>What a search looks for: a matching entry of least priority, the first of them.\<close>

definition hits :: "('k \<Rightarrow> int) \<Rightarrow> ('b \<Rightarrow> 'k \<Rightarrow> bool option) \<Rightarrow> 'b \<Rightarrow> 'k entry_list \<Rightarrow> nat list \<Rightarrow> nat set" where
  "hits prio cmp key l hs = {h \<in> set hs. prio (el_key l h) < int_max \<and> cmp key (el_key l h) = Some True}"

definition best_of :: "(nat \<Rightarrow> int) \<Rightarrow> nat set \<Rightarrow> nat \<Rightarrow> bool" where
  "best_of p H h \<longleftrightarrow> h \<in> H \<and> (\<forall>i \<in> H. p h < p i \<or> p h = p i \<and> h \<le> i)"

definition best_hit :: "('k \<Rightarrow> int) \<Rightarrow> ('b \<Rightarrow> 'k \<Rightarrow> bool option) \<Rightarrow> 'b \<Rightarrow> 'k entry_list \<Rightarrow> nat list \<Rightarrow> nat option \<Rightarrow> bool" where
  "best_hit prio cmp key l hs r \<longleftrightarrow> (case r of
     None \<Rightarrow> hits prio cmp key l hs = {}
   | Some h \<Rightarrow> best_of (\<lambda>i. prio (el_key l i)) (hits prio cmp key l hs) h)"

lemma best_of_unique: "best_of p H h \<Longrightarrow> best_of p H h' \<Longrightarrow> h = h'"
  by (force simp: best_of_def)

lemma best_of_empty [simp]: "\<not> best_of p {} h"
  by (simp add: best_of_def)

lemma best_hit_unique: "best_hit prio cmp key l hs r \<Longrightarrow> best_hit prio cmp key l hs r' \<Longrightarrow> r = r'"
  by (cases r; cases r') (auto simp: best_hit_def dest: best_of_unique)

lemma handle_from_entry_rep:
  assumes "el_rep prio l hs" "i \<in> set hs" "length (el_entries l) \<le> 2 ^ 64"
  shows "handle_from_entry l i = Some (i - hd hs)"
proof -
  obtain h hs' where hs: "hs = h # hs'" using assms(2) by (cases hs) auto
  have le: "h \<le> i" using assms(1,2) hs by (auto simp: el_rep_def)
  have "i < 2 ^ 64" using el_rep_bound [OF assms(1,2)] assms(3) by simp
  then have "(int i - int h) mod 2 ^ 64 = int (i - h)" using le by (simp add: of_nat_diff)
  then show ?thesis using assms(1) hs by (simp add: handle_from_entry_def el_rep_def)
qed

lemma scan_fold:
  assumes "el_rep prio l hs" "length (el_entries l) \<le> 2 ^ 64" "\<forall>h \<in> set hs. cmp key (el_key l h) \<noteq> None"
    and "set us \<subseteq> set hs" "sorted_wrt (<) us"
  shows "\<exists>r. fold_opt (scan_step cmp key l) us (int_max, None) =
      Some (case r of None \<Rightarrow> int_max | Some i \<Rightarrow> prio (el_key l i), map_option (\<lambda>i. i - hd hs) r) \<and>
    best_hit prio cmp key l us r \<and> (\<forall>i. r = Some i \<longrightarrow> prio (el_key l i) < int_max)"
  using assms(4,5)
proof (induction us rule: rev_induct)
  case Nil
  show ?case by (intro exI [of _ None]) (simp add: best_hit_def hits_def)
next
  case (snoc x us)
  then have x: "x \<in> set hs" "\<forall>i \<in> set us. i < x" by (auto simp: sorted_wrt_append)
  obtain r where r: "fold_opt (scan_step cmp key l) us (int_max, None) =
      Some (case r of None \<Rightarrow> int_max | Some i \<Rightarrow> prio (el_key l i), map_option (\<lambda>i. i - hd hs) r)"
    "best_hit prio cmp key l us r" "\<forall>i. r = Some i \<longrightarrow> prio (el_key l i) < int_max"
    using snoc by (auto simp: sorted_wrt_append)
  define m where "m = (case r of None \<Rightarrow> int_max | Some i \<Rightarrow> prio (el_key l i))"
  have m: "m \<le> int_max" using r(3) by (auto simp: m_def split: option.split)
  have ih: "i \<in> hits prio cmp key l us \<Longrightarrow> m \<le> prio (el_key l i)" for i
    using r(2) by (force simp: best_hit_def best_of_def m_def split: option.splits)
  define c where "c \<longleftrightarrow> prio (el_key l x) < m \<and> cmp key (el_key l x) = Some True"
  have hit: "hits prio cmp key l (us @ [x]) =
      hits prio cmp key l us \<union> (if prio (el_key l x) < int_max \<and> cmp key (el_key l x) = Some True then {x} else {})"
    by (auto simp: hits_def)
  have us_lt: "i \<in> hits prio cmp key l us \<Longrightarrow> i < x" for i using x(2) by (simp add: hits_def)
  have step: "scan_step cmp key l x (m, map_option (\<lambda>i. i - hd hs) r) =
      Some (if c then (prio (el_key l x), Some (x - hd hs)) else (m, map_option (\<lambda>i. i - hd hs) r))"
    using el_rep_key [OF assms(1) x(1)] assms(3) x(1) handle_from_entry_rep [OF assms(1) x(1) assms(2)]
    by (auto simp: scan_step_def Let_def c_def)
  define r' where "r' = (if c then Some x else r)"
  have "fold_opt (scan_step cmp key l) (us @ [x]) (int_max, None) =
      Some (case r' of None \<Rightarrow> int_max | Some i \<Rightarrow> prio (el_key l i), map_option (\<lambda>i. i - hd hs) r')"
    unfolding fold_opt_append r(1) using step by (simp add: m_def r'_def)
  moreover have "best_hit prio cmp key l (us @ [x]) r'"
  proof (cases c)
    case True
    then have "prio (el_key l x) < int_max" using m by (simp add: c_def)
    moreover have "i \<in> hits prio cmp key l us \<Longrightarrow> prio (el_key l x) < prio (el_key l i)" for i
      using ih [of i] True by (simp add: c_def)
    ultimately show ?thesis using True by (auto simp: best_hit_def best_of_def r'_def hit c_def)
  next
    case False
    then have r': "r' = r" by (simp add: r'_def)
    show ?thesis
    proof (cases r)
      case None
      then have "m = int_max" by (simp add: m_def)
      then show ?thesis using False r(2) None unfolding r' by (simp add: best_hit_def hit c_def)
    next
      case (Some i)
      then have "m = prio (el_key l i)" by (simp add: m_def)
      then show ?thesis using False r(2) Some us_lt unfolding r'
        by (auto simp: best_hit_def best_of_def hit c_def intro: us_lt [THEN less_imp_le])
    qed
  qed
  moreover have "\<forall>i. r' = Some i \<longrightarrow> prio (el_key l i) < int_max" using r(3) m by (auto simp: r'_def c_def)
  ultimately show ?case by blast
qed

lemma scan_rep:
  assumes "el_rep prio l hs" "length (el_entries l) \<le> 2 ^ 64" "\<forall>h \<in> set hs. cmp key (el_key l h) \<noteq> None"
  shows "\<exists>r. scan cmp key l = Some (map_option (\<lambda>i. i - hd hs) r) \<and> best_hit prio cmp key l hs r"
  using scan_fold [where cmp = cmp and key = key and us = hs, OF assms] assms(1) by (auto simp: scan_def el_rep_visited el_rep_def)

section \<open>The cache is transparent\<close>

definition cache_wf :: "ternary_cache \<Rightarrow> bool" where
  "cache_wf c \<longleftrightarrow> distinct (map snd (lru c)) \<and> cindex c = set (map snd (lru c)) \<and> length (lru c) \<le> cache_size"

text \<open>What the cache says is what a search would find, and a cache not in use is empty.\<close>

definition cache_ok :: "(u8 list \<Rightarrow> 'k \<Rightarrow> bool option) \<Rightarrow> 'k entry_list \<Rightarrow> bool" where
  "cache_ok cmp l \<longleftrightarrow> cache_wf (el_cache l) \<and> (\<forall>(h, k) \<in> set (lru (el_cache l)). scan cmp k l = Some (Some h)) \<and>
     (\<not> use_cache l \<longrightarrow> lru (el_cache l) = [])"

lemma cache_wf_empty [simp]: "cache_wf \<lparr>lru = [], cindex = {}\<rparr>"
  by (simp add: cache_wf_def)

lemma cache_ok_empty: "lru (el_cache l) = [] \<Longrightarrow> cindex (el_cache l) = {} \<Longrightarrow> cache_ok cmp l"
  by (simp add: cache_ok_def cache_wf_def)

lemma cache_size_pos: "0 < cache_size"
  by (simp add: cache_size_def)

lemma cache_lookup_wf:
  assumes "cache_wf c"
  shows "\<exists>c'. cache_lookup key c = Some (map_option fst (find (\<lambda>(h, k). k = key) (lru c)), c') \<and>
    cache_wf c' \<and> set (lru c') = set (lru c)"
proof (cases "find (\<lambda>(h, k). k = key) (lru c)")
  case None
  then have "key \<notin> cindex c" using assms by (fastforce simp: cache_wf_def find_None_iff)
  then show ?thesis using assms None by (simp add: cache_lookup_def)
next
  case (Some x)
  then have x: "x \<in> set (lru c)" "snd x = key" by (auto simp: find_Some_iff case_prod_beta)
  then have "key \<in> cindex c" using assms by (auto simp: cache_wf_def)
  moreover have "cache_wf (move_to_head x c)"
  proof -
    have d: "distinct (lru c)" using assms by (simp add: cache_wf_def distinct_map)
    have "snd x \<notin> snd ` set (remove1 x (lru c))"
      using assms x(1) d by (force simp: cache_wf_def distinct_map inj_on_def)
    moreover have "distinct (map snd (remove1 x (lru c)))"
      using assms d by (auto simp: cache_wf_def distinct_map intro: inj_on_subset)
    moreover have "length (remove1 x (lru c)) < length (lru c)"
      using length_pos_if_in_set [OF x(1)] x(1) by (simp add: length_remove1)
    ultimately show ?thesis using assms x(1) d by (auto simp: cache_wf_def move_to_head_def)
  qed
  moreover have "set (lru (move_to_head x c)) = set (lru c)"
    using x(1) assms by (auto simp: move_to_head_def cache_wf_def distinct_map)
  ultimately show ?thesis using Some by (simp add: cache_lookup_def)
qed

lemma cache_evict_wf:
  assumes "cache_wf c"
  shows "\<exists>c'. cache_evict c = Some c' \<and> cache_wf c' \<and> set (lru c') \<subseteq> set (lru c) \<and> length (lru c') < cache_size"
proof (cases "card (cindex c) = cache_size")
  case True
  have len: "length (lru c) = cache_size"
    using assms True by (metis cache_wf_def distinct_card length_map)
  then have ne: "lru c \<noteq> []" using cache_size_pos by auto
  then obtain xs x where xs: "lru c = xs @ [x]" by (metis rev_exhaust)
  have c: "cindex c = insert (snd x) (snd ` set xs)" "snd x \<notin> snd ` set xs" "distinct (map snd xs)"
    using assms xs by (auto simp: cache_wf_def)
  then have "cache_wf \<lparr>lru = xs, cindex = cindex c - {snd x}\<rparr>" using len xs by (auto simp: cache_wf_def)
  then show ?thesis using True xs c len by (auto simp: cache_evict_def Let_def)
next
  case False
  have "length (lru c) = card (cindex c)" using assms by (metis cache_wf_def distinct_card length_map)
  then show ?thesis using False assms by (auto simp: cache_evict_def cache_wf_def)
qed

lemma cache_add_wf:
  assumes "cache_wf c"
  shows "\<exists>b c'. cache_add key h c = Some (b, c') \<and> cache_wf c' \<and> set (lru c') \<subseteq> insert (h, key) (set (lru c))"
proof (cases "key \<in> cindex c")
  case False
  obtain c1 where c1: "cache_evict c = Some c1" "cache_wf c1" "set (lru c1) \<subseteq> set (lru c)" "length (lru c1) < cache_size"
    using cache_evict_wf [OF assms] by blast
  have "key \<notin> snd ` set (lru c1)" using False assms c1(3) by (auto simp: cache_wf_def)
  then have "cache_wf \<lparr>lru = (h, key) # lru c1, cindex = insert key (cindex c1)\<rparr>"
    using c1(2,4) by (simp add: cache_wf_def)
  then show ?thesis using False c1 by (auto simp: cache_add_def)
qed (use assms in \<open>auto simp: cache_add_def\<close>)

lemma scan_cache [simp]: "scan cmp key (l\<lparr>el_cache := c\<rparr>) = scan cmp key l"
proof -
  have "handle_from_entry (l\<lparr>el_cache := c\<rparr>) = handle_from_entry l"
    by (intro ext) (simp add: handle_from_entry_def cong: option.case_cong)
  then have "scan_step cmp key (l\<lparr>el_cache := c\<rparr>) = scan_step cmp key l"
    by (intro ext) (simp add: scan_step_def cong: if_cong)
  then show ?thesis by (simp add: scan_def visited_def)
qed

lemma search_and_cache_ok:
  assumes "cache_ok cmp l" "scan cmp key l = Some r"
  shows "\<exists>c. search_and_cache cmp key l = Some (r, l\<lparr>el_cache := c\<rparr>) \<and> cache_ok cmp (l\<lparr>el_cache := c\<rparr>)"
proof (cases "\<exists>h. r = Some h \<and> use_cache l")
  case True
  then obtain h where h: "r = Some h" "use_cache l" by blast
  have "cache_wf (el_cache l)" using assms(1) by (simp add: cache_ok_def)
  from cache_add_wf [OF this, of key h] obtain b c where
    c: "cache_add key h (el_cache l) = Some (b, c)" "cache_wf c" "set (lru c) \<subseteq> insert (h, key) (set (lru (el_cache l)))"
    by blast
  have "cache_ok cmp (l\<lparr>el_cache := c\<rparr>)" using assms h c by (auto simp: cache_ok_def)
  then show ?thesis using assms(2) h c(1) by (auto simp: search_and_cache_def cache_activated_def)
next
  case False
  then have "search_and_cache cmp key l = Some (r, l\<lparr>el_cache := el_cache l\<rparr>)"
    using assms(2) by (auto simp: search_and_cache_def cache_activated_def split: option.split)
  moreover have "cache_ok cmp (l\<lparr>el_cache := el_cache l\<rparr>)" using assms(1) by simp
  ultimately show ?thesis by blast
qed

lemma el_lookup_ok:
  assumes "cache_ok cmp l" "scan cmp key l = Some r"
  shows "\<exists>c. el_lookup cmp key l = Some (r, l\<lparr>el_cache := c\<rparr>) \<and> cache_ok cmp (l\<lparr>el_cache := c\<rparr>)"
proof (cases "use_cache l")
  case True
  have "cache_wf (el_cache l)" using assms(1) by (simp add: cache_ok_def)
  from cache_lookup_wf [OF this, of key] obtain c where
    c: "cache_lookup key (el_cache l) = Some (map_option fst (find (\<lambda>(h, k). k = key) (lru (el_cache l))), c)"
    "cache_wf c" "set (lru c) = set (lru (el_cache l))" by blast
  have ok: "cache_ok cmp (l\<lparr>el_cache := c\<rparr>)" using assms(1) c(2,3) True by (auto simp: cache_ok_def)
  show ?thesis
  proof (cases "find (\<lambda>(h, k). k = key) (lru (el_cache l))")
    case None
    then have "el_lookup cmp key l = search_and_cache cmp key (l\<lparr>el_cache := c\<rparr>)"
      using c(1) True by (simp add: el_lookup_def cache_activated_def)
    then show ?thesis using search_and_cache_ok [OF ok, of key r] assms(2) by auto
  next
    case (Some x)
    then have "x \<in> set (lru (el_cache l))" "snd x = key" by (auto simp: find_Some_iff case_prod_beta)
    then have "r = Some (fst x)" using assms by (auto simp: cache_ok_def)
    then show ?thesis using c(1) Some True ok by (auto simp: el_lookup_def cache_activated_def)
  qed
next
  case False
  then show ?thesis using search_and_cache_ok [OF assms] by (simp add: el_lookup_def cache_activated_def)
qed

end
