(* ===== verification/Lookup_Structures.thy ===== *)
theory Lookup_Structures
  imports LPM_Trie Entry_List
begin

text \<open>
  The four data structures that match units search (lookup_structures.h and lookup_structures.cpp),
  behind the interface \<^verbatim>\<open>LookupStructure<K>\<close>: its virtual functions are a record of functions, and
  what a match unit relies on are the assumptions of the locale \<open>lookup_structure\<close>.
\<close>

section \<open>The interface\<close>

record ('s, 'k) lookup_ops =
  ls_lookup :: "'s \<Rightarrow> u8 list \<Rightarrow> (nat option \<times> 's) option"
  ls_entry_exists :: "'s \<Rightarrow> 'k \<Rightarrow> bool option"
  ls_retrieve_handle :: "'s \<Rightarrow> 'k \<Rightarrow> nat option option"
  ls_add_entry :: "'s \<Rightarrow> 'k \<Rightarrow> nat \<Rightarrow> 's option"
  ls_delete_entry :: "'s \<Rightarrow> 'k \<Rightarrow> 's option"
  ls_clear :: "'s \<Rightarrow> 's option"

section \<open>Exact matches\<close>

type_synonym exact_map = "u8 list \<Rightarrow> nat option"

definition exact_new :: "nat \<Rightarrow> exact_map" where
  "exact_new n = (\<lambda>_. None)"

definition exact_lookup :: "exact_map \<Rightarrow> u8 list \<Rightarrow> (nat option \<times> exact_map) option" where
  "exact_lookup m key = Some (m key, m)"

definition exact_entry_exists :: "exact_map \<Rightarrow> match_key \<Rightarrow> bool option" where
  "exact_entry_exists m k = Some (m (kdata k) \<noteq> None)"

definition exact_retrieve_handle :: "exact_map \<Rightarrow> match_key \<Rightarrow> nat option option" where
  "exact_retrieve_handle m k = Some (m (kdata k))"

definition exact_add_entry :: "exact_map \<Rightarrow> match_key \<Rightarrow> nat \<Rightarrow> exact_map option" where
  "exact_add_entry m k h = Some (m(kdata k \<mapsto> h))"

definition exact_delete_entry :: "exact_map \<Rightarrow> match_key \<Rightarrow> exact_map option" where
  "exact_delete_entry m k = Some (m(kdata k := None))"

definition exact_clear :: "exact_map \<Rightarrow> exact_map option" where
  "exact_clear m = Some (\<lambda>_. None)"

definition exact_ops :: "(exact_map, match_key) lookup_ops" where
  "exact_ops = \<lparr>ls_lookup = exact_lookup, ls_entry_exists = exact_entry_exists,
     ls_retrieve_handle = exact_retrieve_handle, ls_add_entry = exact_add_entry,
     ls_delete_entry = exact_delete_entry, ls_clear = exact_clear\<rparr>"

section \<open>Longest prefix matches\<close>

text \<open>A handle is stored as the 64-bit value of the trie.\<close>

definition lpms_new :: "nat \<Rightarrow> nat \<Rightarrow> bf_lpm_trie option" where
  "lpms_new n nbytes = lpm_new nbytes"

definition lpms_lookup :: "bf_lpm_trie \<Rightarrow> u8 list \<Rightarrow> (nat option \<times> bf_lpm_trie) option" where
  "lpms_lookup t key = map_option (\<lambda>r. (map_option unat r, t)) (lpm_lookup t key)"

definition lpms_entry_exists :: "bf_lpm_trie \<Rightarrow> lpm_key \<Rightarrow> bool option" where
  "lpms_entry_exists t k = lpm_has_prefix t (kdata k) (prefix_length k)"

definition lpms_retrieve_handle :: "bf_lpm_trie \<Rightarrow> lpm_key \<Rightarrow> nat option option" where
  "lpms_retrieve_handle t k = map_option (map_option unat) (lpm_retrieve_value t (kdata k) (prefix_length k))"

definition lpms_add_entry :: "bf_lpm_trie \<Rightarrow> lpm_key \<Rightarrow> nat \<Rightarrow> bf_lpm_trie option" where
  "lpms_add_entry t k h = lpm_insert t (kdata k) (prefix_length k) (word_of_nat h)"

definition lpms_delete_entry :: "bf_lpm_trie \<Rightarrow> lpm_key \<Rightarrow> bf_lpm_trie option" where
  "lpms_delete_entry t k = map_option snd (lpm_delete t (kdata k) (prefix_length k))"

definition lpms_clear :: "bf_lpm_trie \<Rightarrow> bf_lpm_trie option" where
  "lpms_clear t = lpm_clear t"

definition lpm_ops :: "(bf_lpm_trie, lpm_key) lookup_ops" where
  "lpm_ops = \<lparr>ls_lookup = lpms_lookup, ls_entry_exists = lpms_entry_exists,
     ls_retrieve_handle = lpms_retrieve_handle, ls_add_entry = lpms_add_entry,
     ls_delete_entry = lpms_delete_entry, ls_clear = lpms_clear\<rparr>"

section \<open>Ternary matches\<close>

record ternary_map =
  t_list :: "ternary_key entry_list"
  t_nbytes_key :: nat

definition ternary_new :: "nat \<Rightarrow> nat \<Rightarrow> bool \<Rightarrow> ternary_map" where
  "ternary_new n nbytes en = \<lparr>t_list = el_new n en, t_nbytes_key = nbytes\<rparr>"

text \<open>The bytes of a key at some indices, under the mask of an entry; \<open>None\<close> is a failed bounds check.\<close>

fun masked_eq :: "nat list \<Rightarrow> u8 list \<Rightarrow> 'a ternary_key_scheme \<Rightarrow> bool option" where
  "masked_eq [] key k = Some True"
| "masked_eq (i # is) key k = do {
     d \<leftarrow> nth_opt (kdata k) i;
     x \<leftarrow> nth_opt key i;
     m \<leftarrow> nth_opt (kmask k) i;
     if d \<noteq> and x m then Some False else masked_eq is key k }"

definition ternary_cmp :: "nat \<Rightarrow> u8 list \<Rightarrow> ternary_key \<Rightarrow> bool option" where
  "ternary_cmp n key k = masked_eq [0..<n] key k"

definition ternary_lookup :: "ternary_map \<Rightarrow> u8 list \<Rightarrow> (nat option \<times> ternary_map) option" where
  "ternary_lookup t key = do {
     (r, l) \<leftarrow> el_lookup (ternary_cmp (t_nbytes_key t)) key (t_list t); Some (r, t\<lparr>t_list := l\<rparr>) }"

definition ternary_entry_exists :: "ternary_map \<Rightarrow> ternary_key \<Rightarrow> bool option" where
  "ternary_entry_exists t k = el_exists ternary_eq kpriority (t_list t) k"

definition ternary_retrieve_handle :: "ternary_map \<Rightarrow> ternary_key \<Rightarrow> nat option option" where
  "ternary_retrieve_handle t k = el_retrieve ternary_eq kpriority (t_list t) k"

definition ternary_add_entry :: "ternary_map \<Rightarrow> ternary_key \<Rightarrow> nat \<Rightarrow> ternary_map option" where
  "ternary_add_entry t k h = map_option (\<lambda>l. t\<lparr>t_list := l\<rparr>) (el_add kpriority k h (t_list t))"

definition ternary_delete_entry :: "ternary_map \<Rightarrow> ternary_key \<Rightarrow> ternary_map option" where
  "ternary_delete_entry t k = map_option (\<lambda>l. t\<lparr>t_list := l\<rparr>) (el_delete ternary_eq kpriority k (t_list t))"

definition ternary_clear :: "ternary_map \<Rightarrow> ternary_map option" where
  "ternary_clear t = Some (t\<lparr>t_list := el_clear (t_list t)\<rparr>)"

definition ternary_ops :: "(ternary_map, ternary_key) lookup_ops" where
  "ternary_ops = \<lparr>ls_lookup = ternary_lookup, ls_entry_exists = ternary_entry_exists,
     ls_retrieve_handle = ternary_retrieve_handle, ls_add_entry = ternary_add_entry,
     ls_delete_entry = ternary_delete_entry, ls_clear = ternary_clear\<rparr>"

section \<open>Range matches\<close>

record range_map =
  r_list :: "range_key entry_list"
  r_nbytes_key :: nat

definition range_new :: "nat \<Rightarrow> nat \<Rightarrow> bool \<Rightarrow> range_map" where
  "range_new n nbytes en = \<lparr>r_list = el_new n en, r_nbytes_key = nbytes\<rparr>"

fun memcmp :: "u8 list \<Rightarrow> u8 list \<Rightarrow> int" where
  "memcmp (a # as) (b # bs) = (if a < b then - 1 else if b < a then 1 else memcmp as bs)"
| "memcmp _ _ = 0"

text \<open>\<^verbatim>\<open>&xs[off]\<close> for \<open>w\<close> bytes.\<close>

definition bytes_at :: "u8 list \<Rightarrow> nat \<Rightarrow> nat \<Rightarrow> u8 list option" where
  "bytes_at xs off w = (if off < length xs \<and> off + w \<le> length xs then Some (take w (drop off xs)) else None)"

fun range_cmp_widths :: "nat list \<Rightarrow> nat \<Rightarrow> u8 list \<Rightarrow> range_key \<Rightarrow> (bool \<times> nat) option" where
  "range_cmp_widths [] off key k = Some (True, off)"
| "range_cmp_widths (w # ws) off key k = do {
     x \<leftarrow> bytes_at key off w;
     lo \<leftarrow> bytes_at (kdata k) off w;
     if memcmp x lo < 0 then Some (False, off)
     else do {
       hi \<leftarrow> bytes_at (kmask k) off w;
       if memcmp x hi > 0 then Some (False, off)
       else range_cmp_widths ws (off + w) key k } }"

definition range_cmp :: "nat \<Rightarrow> u8 list \<Rightarrow> range_key \<Rightarrow> bool option" where
  "range_cmp n key k = do {
     (ok, off) \<leftarrow> range_cmp_widths (range_widths k) 0 key k;
     if ok then masked_eq [off..<n] key k else Some False }"

definition range_lookup :: "range_map \<Rightarrow> u8 list \<Rightarrow> (nat option \<times> range_map) option" where
  "range_lookup t key = do {
     (r, l) \<leftarrow> el_lookup (range_cmp (r_nbytes_key t)) key (r_list t); Some (r, t\<lparr>r_list := l\<rparr>) }"

definition range_entry_exists :: "range_map \<Rightarrow> range_key \<Rightarrow> bool option" where
  "range_entry_exists t k = el_exists range_eq kpriority (r_list t) k"

definition range_retrieve_handle :: "range_map \<Rightarrow> range_key \<Rightarrow> nat option option" where
  "range_retrieve_handle t k = el_retrieve range_eq kpriority (r_list t) k"

definition range_add_entry :: "range_map \<Rightarrow> range_key \<Rightarrow> nat \<Rightarrow> range_map option" where
  "range_add_entry t k h = map_option (\<lambda>l. t\<lparr>r_list := l\<rparr>) (el_add kpriority k h (r_list t))"

definition range_delete_entry :: "range_map \<Rightarrow> range_key \<Rightarrow> range_map option" where
  "range_delete_entry t k = map_option (\<lambda>l. t\<lparr>r_list := l\<rparr>) (el_delete range_eq kpriority k (r_list t))"

definition range_clear :: "range_map \<Rightarrow> range_map option" where
  "range_clear t = Some (t\<lparr>r_list := el_clear (r_list t)\<rparr>)"

definition range_ops :: "(range_map, range_key) lookup_ops" where
  "range_ops = \<lparr>ls_lookup = range_lookup, ls_entry_exists = range_entry_exists,
     ls_retrieve_handle = range_retrieve_handle, ls_add_entry = range_add_entry,
     ls_delete_entry = range_delete_entry, ls_clear = range_clear\<rparr>"

section \<open>Ranges compare numbers\<close>

definition be_nat :: "u8 list \<Rightarrow> nat" where
  "be_nat bs = foldl (\<lambda>n b. 256 * n + unat b) 0 bs"

lemma foldl_be: "foldl (\<lambda>n b. 256 * n + unat b) m bs = 256 ^ length bs * m + be_nat bs"
proof (induction bs arbitrary: m)
  case (Cons b bs)
  show ?case
    using Cons [of "256 * m + unat b"] Cons [of "unat b"] by (simp add: be_nat_def algebra_simps)
qed (simp add: be_nat_def)

lemma be_nat_Cons [simp]: "be_nat (b # bs) = 256 ^ length bs * unat b + be_nat bs"
  using foldl_be [of "unat b" bs] by (simp add: be_nat_def)

lemma be_nat_bound: "be_nat bs < 256 ^ length bs"
proof (induction bs)
  case (Cons b bs)
  have "be_nat (b # bs) < 256 ^ length bs * unat b + 256 ^ length bs" using Cons by simp
  also have "\<dots> = 256 ^ length bs * (unat b + 1)" by simp
  also have "\<dots> \<le> 256 ^ length bs * 256" using unat_bound [of b] by (intro mult_le_mono2) simp
  finally show ?case by simp
qed (simp add: be_nat_def)

lemma be_nat_less: "length as = length bs \<Longrightarrow> a < b \<Longrightarrow> be_nat (a # as) < be_nat (b # bs)"
proof -
  assume l: "length as = length bs" and "a < b"
  then have "unat a + 1 \<le> unat b" by (simp add: word_less_nat_alt)
  then have "256 ^ length as * (unat a + 1) \<le> 256 ^ length as * unat b" by (rule mult_le_mono2)
  then show ?thesis using be_nat_bound [of as] l by simp
qed

lemma memcmp_be_nat:
  "length as = length bs \<Longrightarrow> memcmp as bs < 0 \<longleftrightarrow> be_nat as < be_nat bs"
  "length as = length bs \<Longrightarrow> memcmp as bs > 0 \<longleftrightarrow> be_nat as > be_nat bs"
proof (induction as bs rule: memcmp.induct)
  case (1 a as b bs)
  {
    case 1
    then show ?case using "1.IH" be_nat_less [of as bs a b] be_nat_less [of bs as b a]
      by (cases "a < b"; cases "b < a") auto
  next
    case 2
    then show ?case using "1.IH" be_nat_less [of as bs a b] be_nat_less [of bs as b a]
      by (cases "a < b"; cases "b < a") auto
  }
qed auto

definition field_at :: "'a list \<Rightarrow> nat \<Rightarrow> nat \<Rightarrow> 'a list" where
  "field_at xs off w = take w (drop off xs)"

lemma bytes_at_field: "0 < w \<Longrightarrow> off + w \<le> length xs \<Longrightarrow> bytes_at xs off w = Some (field_at xs off w)"
  by (simp add: bytes_at_def field_at_def)

lemma masked_eq_iff:
  assumes "\<forall>i \<in> set is. i < length key \<and> i < length (kdata k) \<and> i < length (kmask k)"
  shows "masked_eq is key k = Some (\<forall>i \<in> set is. kdata k ! i = and (key ! i) (kmask k ! i))"
  using assms by (induction "is") auto

text \<open>A field of the ranges: where it starts, and its width.\<close>

fun range_fields :: "nat \<Rightarrow> nat list \<Rightarrow> (nat \<times> nat) list" where
  "range_fields off [] = []"
| "range_fields off (w # ws) = (off, w) # range_fields (off + w) ws"

lemma range_cmp_widths_iff:
  assumes "\<forall>w \<in> set ws. 0 < w" "off + sum_list ws \<le> n" "length key = n" "length (kdata k) = n" "length (kmask k) = n"
  shows "\<exists>b off'. range_cmp_widths ws off key k = Some (b, off') \<and> (b \<longrightarrow> off' = off + sum_list ws) \<and>
    (b \<longleftrightarrow> (\<forall>(o1, w) \<in> set (range_fields off ws).
      be_nat (field_at (kdata k) o1 w) \<le> be_nat (field_at key o1 w) \<and> be_nat (field_at key o1 w) \<le> be_nat (field_at (kmask k) o1 w)))"
  using assms(1,2)
proof (induction ws arbitrary: off)
  case (Cons w ws)
  have at: "bytes_at key off w = Some (field_at key off w)" "bytes_at (kdata k) off w = Some (field_at (kdata k) off w)"
    "bytes_at (kmask k) off w = Some (field_at (kmask k) off w)"
    using Cons.prems assms(3-5) by (auto intro!: bytes_at_field)
  have len: "length (field_at key off w) = w" "length (field_at (kdata k) off w) = w" "length (field_at (kmask k) off w) = w"
    using Cons.prems assms(3-5) by (simp_all add: field_at_def)
  have lt: "memcmp (field_at key off w) (field_at (kdata k) off w) < 0 \<longleftrightarrow> be_nat (field_at key off w) < be_nat (field_at (kdata k) off w)"
    and gt: "memcmp (field_at key off w) (field_at (kmask k) off w) > 0 \<longleftrightarrow> be_nat (field_at key off w) > be_nat (field_at (kmask k) off w)"
    by (rule memcmp_be_nat, simp only: len)+
  have p: "\<forall>w \<in> set ws. 0 < w" "off + w + sum_list ws \<le> n" using Cons.prems by simp_all
  obtain b off' where ih: "range_cmp_widths ws (off + w) key k = Some (b, off')" "b \<longrightarrow> off' = off + w + sum_list ws"
    "b \<longleftrightarrow> (\<forall>(o1, w) \<in> set (range_fields (off + w) ws).
      be_nat (field_at (kdata k) o1 w) \<le> be_nat (field_at key o1 w) \<and> be_nat (field_at key o1 w) \<le> be_nat (field_at (kmask k) o1 w))"
    using Cons.IH [OF p] by blast
  show ?case
  proof (cases "be_nat (field_at (kdata k) off w) \<le> be_nat (field_at key off w) \<and> be_nat (field_at key off w) \<le> be_nat (field_at (kmask k) off w)")
    case True
    then have "range_cmp_widths (w # ws) off key k = Some (b, off')" using at lt gt ih(1) by simp
    then show ?thesis using True ih(2,3) by auto
  next
    case False
    then have "range_cmp_widths (w # ws) off key k = Some (False, off)" using at lt gt by auto
    then show ?thesis using False by auto
  qed
qed (simp, blast)

text \<open>a range entry matches a key exactly when each of its range fields, read as a big-endian
  number, lies between the two bounds, and the rest of the key agrees with the entry under its mask.\<close>

theorem range_cmp_numeric:
  assumes "\<forall>w \<in> set (range_widths k). 0 < w" "sum_list (range_widths k) \<le> n"
    and "length key = n" "length (kdata k) = n" "length (kmask k) = n"
  shows "range_cmp n key k = Some (
    (\<forall>(o1, w) \<in> set (range_fields 0 (range_widths k)).
      be_nat (field_at (kdata k) o1 w) \<le> be_nat (field_at key o1 w) \<and> be_nat (field_at key o1 w) \<le> be_nat (field_at (kmask k) o1 w)) \<and>
    (\<forall>i. sum_list (range_widths k) \<le> i \<and> i < n \<longrightarrow> kdata k ! i = and (key ! i) (kmask k ! i)))"
proof -
  obtain b off' where "range_cmp_widths (range_widths k) 0 key k = Some (b, off')"
    "b \<longrightarrow> off' = sum_list (range_widths k)"
    "b \<longleftrightarrow> (\<forall>(o1, w) \<in> set (range_fields 0 (range_widths k)).
      be_nat (field_at (kdata k) o1 w) \<le> be_nat (field_at key o1 w) \<and> be_nat (field_at key o1 w) \<le> be_nat (field_at (kmask k) o1 w))"
    using range_cmp_widths_iff [OF assms(1) _ assms(3-5), of 0] assms(2) unfolding add_0 by blast
  moreover have "masked_eq [off'..<n] key k = Some (\<forall>i \<in> set [off'..<n]. kdata k ! i = and (key ! i) (kmask k ! i))"
    using assms by (intro masked_eq_iff) auto
  ultimately show ?thesis by (cases b) (auto simp: range_cmp_def)
qed

section \<open>Keys of an entry list\<close>

text \<open>The handle under which an entry list holds a key.\<close>

definition same_key :: "('k \<Rightarrow> 'k \<Rightarrow> bool) \<Rightarrow> ('k \<Rightarrow> int) \<Rightarrow> 'k \<Rightarrow> 'k \<Rightarrow> bool" where
  "same_key eq prio k k' \<longleftrightarrow> prio k = prio k' \<and> eq k k'"

definition el_holds :: "('k \<Rightarrow> 'k \<Rightarrow> bool) \<Rightarrow> ('k \<Rightarrow> int) \<Rightarrow> 'k entry_list \<Rightarrow> 'k \<Rightarrow> nat option" where
  "el_holds eq prio l k = (case find_entry eq prio l k of Some (Some h) \<Rightarrow> Some h | _ \<Rightarrow> None)"

definition el_inv :: "('k \<Rightarrow> 'k \<Rightarrow> bool) \<Rightarrow> ('k \<Rightarrow> int) \<Rightarrow> ('k \<Rightarrow> bool) \<Rightarrow> (u8 list \<Rightarrow> 'k \<Rightarrow> bool option) \<Rightarrow> 'k entry_list \<Rightarrow> nat list \<Rightarrow> bool" where
  "el_inv eq prio ok cmp l hs \<longleftrightarrow> el_rep prio l hs \<and> cache_ok cmp l \<and> length (el_entries l) \<le> 2 ^ 64 \<and>
     (\<forall>h \<in> set hs. ok (el_key l h)) \<and>
     (\<forall>h \<in> set hs. \<forall>h' \<in> set hs. same_key eq prio (el_key l h) (el_key l h') \<longrightarrow> h = h')"

locale entry_keys =
  fixes eq :: "'k \<Rightarrow> 'k \<Rightarrow> bool" and prio :: "'k \<Rightarrow> int" and ok :: "'k \<Rightarrow> bool"
    and cmp :: "u8 list \<Rightarrow> 'k \<Rightarrow> bool option" and n :: nat
  assumes eq_refl: "eq k k" and eq_sym: "eq k k' \<Longrightarrow> eq k' k" and eq_trans: "eq k k' \<Longrightarrow> eq k' k'' \<Longrightarrow> eq k k''"
    and cmp_total: "ok k \<Longrightarrow> length key = n \<Longrightarrow> cmp key k \<noteq> None"
begin

lemma same_refl: "same_key eq prio k k"
  by (simp add: same_key_def eq_refl)

lemma same_sym: "same_key eq prio k k' \<Longrightarrow> same_key eq prio k' k"
  by (simp add: same_key_def eq_sym)

lemma same_trans: "same_key eq prio k k' \<Longrightarrow> same_key eq prio k' k'' \<Longrightarrow> same_key eq prio k k''"
  using eq_trans by (auto simp: same_key_def)

lemma holds_find:
  "el_rep prio l hs \<Longrightarrow> find_entry eq prio l k = Some (el_holds eq prio l k) \<and>
     el_holds eq prio l k = find (\<lambda>h. same_key eq prio (el_key l h) k) hs"
  by (simp add: el_holds_def find_entry_rep same_key_def split: option.split)

lemma holds_iff:
  assumes "el_inv eq prio ok cmp l hs"
  shows "el_holds eq prio l k = Some h \<longleftrightarrow> h \<in> set hs \<and> same_key eq prio (el_key l h) k"
proof -
  have r: "el_rep prio l hs" and u: "\<And>h h'. h \<in> set hs \<Longrightarrow> h' \<in> set hs \<Longrightarrow>
      same_key eq prio (el_key l h) (el_key l h') \<Longrightarrow> h = h'"
    using assms by (auto simp: el_inv_def)
  have e: "el_holds eq prio l k = find (\<lambda>h. same_key eq prio (el_key l h) k) hs" using holds_find [OF r] by simp
  show ?thesis
  proof
    assume "el_holds eq prio l k = Some h"
    then show "h \<in> set hs \<and> same_key eq prio (el_key l h) k" unfolding e by (auto simp: find_Some_iff)
  next
    assume h: "h \<in> set hs \<and> same_key eq prio (el_key l h) k"
    then obtain h' where h': "find (\<lambda>h. same_key eq prio (el_key l h) k) hs = Some h'"
      by (metis find_None_iff option.exhaust)
    then have "h' \<in> set hs" "same_key eq prio (el_key l h') k" by (auto simp: find_Some_iff)
    then have "h' = h" using h u same_trans same_sym by blast
    then show "el_holds eq prio l k = Some h" unfolding e using h' by simp
  qed
qed

lemma holds_same:
  "el_inv eq prio ok cmp l hs \<Longrightarrow> same_key eq prio k k' \<Longrightarrow> el_holds eq prio l k = el_holds eq prio l k'"
proof -
  assume h: "el_inv eq prio ok cmp l hs" "same_key eq prio k k'"
  have "el_holds eq prio l k = Some h \<longleftrightarrow> el_holds eq prio l k' = Some h" for h
    unfolding holds_iff [OF h(1)] using h(2) same_trans same_sym by blast
  then show ?thesis by (metis not_None_eq)
qed

lemma el_inv_new: "m \<le> 2 ^ 64 \<Longrightarrow> el_inv eq prio ok cmp (el_new m en) []"
  unfolding el_inv_def by (intro conjI el_new_rep cache_ok_empty) (simp_all add: el_new_def cache_new_def)

lemma el_inv_clear: "el_inv eq prio ok cmp l hs \<Longrightarrow> el_inv eq prio ok cmp (el_clear l) []"
  unfolding el_inv_def
  by (intro conjI el_clear_rep cache_ok_empty) (simp_all add: el_clear_def invalidate_all_def)

lemma cache_touched:
  assumes "cache_ok cmp l" "el_cache l' = (if use_cache l then invalidate_all (el_cache l) else el_cache l)"
  shows "cache_ok cmp l'"
proof (rule cache_ok_empty)
  have "cindex (el_cache l) = {}" if "lru (el_cache l) = []"
    using assms(1) that by (simp add: cache_ok_def cache_wf_def)
  then show "lru (el_cache l') = []" "cindex (el_cache l') = {}"
    using assms by (auto simp: invalidate_all_def cache_ok_def)
qed

lemma el_add_inv:
  assumes "el_inv eq prio ok cmp l hs" "h < length (el_entries l)" "h \<notin> set hs" "{..<h} \<subseteq> set hs"
    and "ok key" "el_holds eq prio l key = None"
  obtains l' where "el_add prio key h l = Some l'" "el_inv eq prio ok cmp l' (insert_after h hs)"
    "length (el_entries l') = length (el_entries l)"
    "\<And>k. el_holds eq prio l' k = (if same_key eq prio key k then Some h else el_holds eq prio l k)"
proof -
  have r: "el_rep prio l hs" using assms(1) by (simp add: el_inv_def)
  obtain l' where l': "el_add prio key h l = Some l'" "el_rep prio l' (insert_after h hs)"
    "length (el_entries l') = length (el_entries l)"
    "\<And>i. i \<in> set (insert_after h hs) \<Longrightarrow> el_key l' i = (if i = h then key else el_key l i)"
    "el_cache l' = (if use_cache l then invalidate_all (el_cache l) else el_cache l)"
    by (rule el_add_rep [OF r assms(2-4), of key]) blast
  have s: "set (insert_after h hs) = insert h (set hs)" by (rule insert_after_set [OF assms(3)])
  have new: "\<not> same_key eq prio (el_key l i) key" if "i \<in> set hs" for i
    using assms(6) holds_iff [OF assms(1), of key i] that by auto
  have new': "\<not> same_key eq prio key (el_key l i)" if "i \<in> set hs" for i
    using new [OF that] same_sym by blast
  have hk: "el_key l' h = key" "\<And>i. i \<in> set hs \<Longrightarrow> el_key l' i = el_key l i"
    using l'(4) s assms(3) by auto
  have "cache_ok cmp l'" using cache_touched [OF _ l'(5)] assms(1) by (simp add: el_inv_def)
  moreover have "\<forall>i \<in> set (insert_after h hs). ok (el_key l' i)"
    using assms(1,5) hk by (simp add: s el_inv_def)
  moreover have "\<forall>i \<in> set (insert_after h hs). \<forall>j \<in> set (insert_after h hs).
      same_key eq prio (el_key l' i) (el_key l' j) \<longrightarrow> i = j"
    using assms(1) hk new new' by (simp add: s el_inv_def)
  ultimately have inv: "el_inv eq prio ok cmp l' (insert_after h hs)"
    using assms(1) l'(2,3) by (simp add: el_inv_def)
  have "el_holds eq prio l' k = (if same_key eq prio key k then Some h else el_holds eq prio l k)" for k
  proof (cases "same_key eq prio key k")
    case True
    then show ?thesis using holds_iff [OF inv, of k h] s hk by simp
  next
    case False
    have "el_holds eq prio l' k = Some i \<longleftrightarrow> el_holds eq prio l k = Some i" for i
      unfolding holds_iff [OF inv] holds_iff [OF assms(1)] s using hk False assms(3) by auto
    then show ?thesis using False by (metis not_None_eq)
  qed
  then show thesis using l'(1,3) inv by (intro that)
qed

lemma el_delete_inv:
  assumes "el_inv eq prio ok cmp l hs" "el_holds eq prio l key = Some h"
  obtains l' where "el_delete eq prio key l = Some l'" "el_inv eq prio ok cmp l' (remove1 h hs)"
    "length (el_entries l') = length (el_entries l)"
    "\<And>k. el_holds eq prio l' k = (if same_key eq prio key k then None else el_holds eq prio l k)"
proof -
  have r: "el_rep prio l hs" using assms(1) by (simp add: el_inv_def)
  have f: "find (\<lambda>h. prio (el_key l h) = prio key \<and> eq (el_key l h) key) hs = Some h"
    using holds_find [OF r, of key] assms(2) by (simp add: same_key_def)
  obtain l' where l': "el_delete eq prio key l = Some l'" "el_rep prio l' (remove1 h hs)"
    "length (el_entries l') = length (el_entries l)" "\<And>j. el_key l' j = el_key l j"
    "el_cache l' = (if use_cache l then invalidate_all (el_cache l) else el_cache l)"
    by (rule el_delete_rep [where prio = prio and eq = eq and key = key and l = l and hs = hs and i = h, OF r f]) blast
  have s: "set (remove1 h hs) = set hs - {h}" using el_rep_distinct [OF r] by simp
  have "cache_ok cmp l'" using cache_touched [OF _ l'(5)] assms(1) by (simp add: el_inv_def)
  then have inv: "el_inv eq prio ok cmp l' (remove1 h hs)"
    using assms(1) l'(2,3,4) s by (auto simp: el_inv_def)
  have hk: "h \<in> set hs" "same_key eq prio (el_key l h) key" using holds_iff [OF assms(1)] assms(2) by auto
  have i: "el_holds eq prio l' k = Some i \<longleftrightarrow> el_holds eq prio l k = Some i \<and> i \<noteq> h" for k i
    unfolding holds_iff [OF inv] holds_iff [OF assms(1)] s l'(4) by blast
  have d: "el_holds eq prio l k = Some h \<longleftrightarrow> same_key eq prio key k" for k
    unfolding holds_iff [OF assms(1)] using hk same_trans same_sym by blast
  have "el_holds eq prio l' k = (if same_key eq prio key k then None else el_holds eq prio l k)" for k
  proof (cases "same_key eq prio key k")
    case True
    then have "el_holds eq prio l' k \<noteq> Some i" for i using i [of k i] d [of k] by auto
    then show ?thesis using True by (cases "el_holds eq prio l' k") auto
  next
    case False
    then have "el_holds eq prio l' k = Some i \<longleftrightarrow> el_holds eq prio l k = Some i" for i
      using i [of k i] d [of k] by blast
    then show ?thesis using False by (metis not_None_eq)
  qed
  then show thesis using l'(1,3) inv by (intro that)
qed

lemma el_exists_inv:
  "el_inv eq prio ok cmp l hs \<Longrightarrow> el_exists eq prio l key = Some (el_holds eq prio l key \<noteq> None)"
  using holds_find [of l hs key] by (auto simp: el_exists_def el_inv_def)

lemma el_scan_inv:
  assumes "el_inv eq prio ok cmp l hs" "length key = n"
  shows "\<exists>r. scan cmp key l = Some (map_option (\<lambda>i. i - hd hs) r) \<and> best_hit prio cmp key l hs r"
  by (rule scan_rep) (use assms cmp_total in \<open>auto simp: el_inv_def\<close>)

lemma el_lookup_inv:
  assumes "el_inv eq prio ok cmp l hs" "length key = n"
  obtains r c where "el_lookup cmp key l = Some (map_option (\<lambda>i. i - hd hs) r, l\<lparr>el_cache := c\<rparr>)"
    "best_hit prio cmp key l hs r" "el_inv eq prio ok cmp (l\<lparr>el_cache := c\<rparr>) hs"
    "\<And>k. el_holds eq prio (l\<lparr>el_cache := c\<rparr>) k = el_holds eq prio l k"
proof -
  obtain r where r: "scan cmp key l = Some (map_option (\<lambda>i. i - hd hs) r)" "best_hit prio cmp key l hs r"
    using el_scan_inv [OF assms] by blast
  have "cache_ok cmp l" using assms(1) by (simp add: el_inv_def)
  from el_lookup_ok [OF this r(1)] obtain c where
    c: "el_lookup cmp key l = Some (map_option (\<lambda>i. i - hd hs) r, l\<lparr>el_cache := c\<rparr>)"
    "cache_ok cmp (l\<lparr>el_cache := c\<rparr>)" by blast
  have "el_inv eq prio ok cmp (l\<lparr>el_cache := c\<rparr>) hs"
    using assms(1) c(2) by (simp add: el_inv_def el_rep_def el_key_def)
  moreover have "el_holds eq prio (l\<lparr>el_cache := c\<rparr>) k = el_holds eq prio l k" for k
    by (simp add: el_holds_def find_entry_def visited_def)
  ultimately show thesis using c(1) r(2) by (intro that)
qed

end

section \<open>What a match unit relies on\<close>

text \<open>
  \<open>holds s k\<close> is the handle under which \<open>s\<close> holds the key \<open>k\<close>, \<open>cap\<close> the number of handles it has
  room for, and \<open>fits\<close> what else adding a key needs.
\<close>

definition used_handles :: "('k \<Rightarrow> bool) \<Rightarrow> ('s \<Rightarrow> 'k \<Rightarrow> nat option) \<Rightarrow> 's \<Rightarrow> nat set" where
  "used_handles ok holds s = {h. \<exists>k. ok k \<and> holds s k = Some h}"

locale lookup_structure =
  fixes ops :: "('s, 'k) lookup_ops" and inv :: "'s \<Rightarrow> bool" and ok :: "'k \<Rightarrow> bool" and same :: "'k \<Rightarrow> 'k \<Rightarrow> bool"
    and holds :: "'s \<Rightarrow> 'k \<Rightarrow> nat option" and cap :: "'s \<Rightarrow> nat" and fits :: "'s \<Rightarrow> 'k \<Rightarrow> bool" and n :: nat
  assumes same_refl: "same k k"
    and same_sym: "same k k' \<Longrightarrow> same k' k"
    and holds_same: "inv s \<Longrightarrow> ok k \<Longrightarrow> ok k' \<Longrightarrow> same k k' \<Longrightarrow> holds s k = holds s k'"
    and holds_inj: "inv s \<Longrightarrow> ok k \<Longrightarrow> ok k' \<Longrightarrow> holds s k = Some h \<Longrightarrow> holds s k' = Some h \<Longrightarrow> same k k'"
    and exists: "inv s \<Longrightarrow> ok k \<Longrightarrow> ls_entry_exists ops s k = Some (holds s k \<noteq> None)"
    and add: "inv s \<Longrightarrow> ok k \<Longrightarrow> fits s k \<Longrightarrow> holds s k = None \<Longrightarrow> h < cap s \<Longrightarrow>
      h \<notin> used_handles ok holds s \<Longrightarrow> {..<h} \<subseteq> used_handles ok holds s \<Longrightarrow>
      \<exists>s'. ls_add_entry ops s k h = Some s' \<and> inv s' \<and> cap s' = cap s \<and>
        (\<forall>k'. ok k' \<longrightarrow> holds s' k' = (if same k k' then Some h else holds s k'))"
    and delete: "inv s \<Longrightarrow> ok k \<Longrightarrow> holds s k \<noteq> None \<Longrightarrow>
      \<exists>s'. ls_delete_entry ops s k = Some s' \<and> inv s' \<and> cap s' = cap s \<and>
        (\<forall>k'. ok k' \<longrightarrow> holds s' k' = (if same k k' then None else holds s k'))"
    and clear: "inv s \<Longrightarrow> \<exists>s'. ls_clear ops s = Some s' \<and> inv s' \<and> cap s' = cap s \<and> (\<forall>k. ok k \<longrightarrow> holds s' k = None)"
    and lookup: "inv s \<Longrightarrow> length key = n \<Longrightarrow>
      \<exists>r s'. ls_lookup ops s key = Some (r, s') \<and> inv s' \<and> cap s' = cap s \<and> (\<forall>k. ok k \<longrightarrow> holds s' k = holds s k)"
begin

lemma used_add:
  assumes "ok k" "holds s k = None" "inv s" "\<forall>k'. ok k' \<longrightarrow> holds s' k' = (if same k k' then Some h else holds s k')"
  shows "used_handles ok holds s' = insert h (used_handles ok holds s)"
proof (intro equalityI subsetI)
  fix i assume "i \<in> used_handles ok holds s'"
  then show "i \<in> insert h (used_handles ok holds s)"
    using assms(4) by (auto simp: used_handles_def split: if_splits)
next
  fix i assume i: "i \<in> insert h (used_handles ok holds s)"
  show "i \<in> used_handles ok holds s'"
  proof (cases "i = h")
    case True
    then show ?thesis using assms(1,4) same_refl by (auto simp: used_handles_def)
  next
    case False
    then obtain k' where k': "ok k'" "holds s k' = Some i" using i by (auto simp: used_handles_def)
    then have "\<not> same k k'" using holds_same [OF assms(3,1) k'(1)] assms(2) by auto
    then show ?thesis using k' assms(4) by (auto simp: used_handles_def)
  qed
qed

lemma used_delete:
  assumes "ok k" "holds s k = Some h" "inv s" "\<forall>k'. ok k' \<longrightarrow> holds s' k' = (if same k k' then None else holds s k')"
  shows "used_handles ok holds s' = used_handles ok holds s - {h}"
proof (intro equalityI subsetI)
  fix i assume "i \<in> used_handles ok holds s'"
  then obtain k' where k': "ok k'" "holds s k' = Some i" "\<not> same k k'"
    using assms(4) by (auto simp: used_handles_def split: if_splits)
  then have "i \<noteq> h" using holds_inj [OF assms(3,1) k'(1) assms(2)] by auto
  then show "i \<in> used_handles ok holds s - {h}" using k' by (auto simp: used_handles_def)
next
  fix i assume "i \<in> used_handles ok holds s - {h}"
  then obtain k' where k': "ok k'" "holds s k' = Some i" "i \<noteq> h" by (auto simp: used_handles_def)
  then have "\<not> same k k'" using holds_same [OF assms(3,1) k'(1)] assms(2) by auto
  then show "i \<in> used_handles ok holds s'" using k' assms(4) by (auto simp: used_handles_def)
qed

end

text \<open>The structures that give back the handle they were given.\<close>

locale exact_handles = lookup_structure +
  assumes retrieve: "inv s \<Longrightarrow> ok k \<Longrightarrow> ls_retrieve_handle ops s k = Some (holds s k)"
    and lookup_used: "inv s \<Longrightarrow> length key = n \<Longrightarrow> ls_lookup ops s key = Some (Some h, s') \<Longrightarrow>
      h \<in> used_handles ok holds s"

subsection \<open>Exact matches\<close>

definition key_len :: "nat \<Rightarrow> 'a match_key_scheme \<Rightarrow> bool" where
  "key_len n k \<longleftrightarrow> length (kdata k) = n"

definition exact_inv :: "nat \<Rightarrow> exact_map \<Rightarrow> bool" where
  "exact_inv n m \<longleftrightarrow> (\<forall>k k' h. m k = Some h \<longrightarrow> m k' = Some h \<longrightarrow> k = k') \<and> (\<forall>k h. m k = Some h \<longrightarrow> length k = n)"

definition exact_holds :: "exact_map \<Rightarrow> match_key \<Rightarrow> nat option" where
  "exact_holds m k = m (kdata k)"

definition same_data :: "match_key \<Rightarrow> match_key \<Rightarrow> bool" where
  "same_data k k' \<longleftrightarrow> kdata k = kdata k'"

definition word_cap :: "'s \<Rightarrow> nat" where
  "word_cap s = 2 ^ 64"

definition always_fits :: "'s \<Rightarrow> 'k \<Rightarrow> bool" where
  "always_fits s k \<longleftrightarrow> True"

lemma exact_used: "exact_inv n m \<Longrightarrow> m k = Some h \<Longrightarrow> h \<in> used_handles (key_len n) exact_holds m"
  unfolding used_handles_def exact_holds_def key_len_def exact_inv_def
  by (intro CollectI exI [of _ "\<lparr>kdata = k, kversion = 0\<rparr>"]) auto

lemmas exact_defs = exact_ops_def exact_holds_def same_data_def word_cap_def
  exact_entry_exists_def exact_add_entry_def exact_delete_entry_def exact_clear_def exact_lookup_def
  exact_retrieve_handle_def key_len_def

interpretation exact: exact_handles exact_ops "exact_inv n" "key_len n" same_data exact_holds word_cap always_fits n for n
proof (unfold_locales, goal_cases)
  case (6 s k h)
  have "exact_inv n (s(kdata k \<mapsto> h))"
    using 6 exact_used [OF 6(1)] by (auto simp: exact_inv_def key_len_def)
  then show ?case by (simp add: exact_defs)
next
  case (7 s k)
  then have "exact_inv n (s(kdata k := None))" by (auto simp: exact_inv_def)
  then show ?case by (simp add: exact_defs)
next
  case (8 s)
  show ?case by (simp add: exact_defs exact_inv_def)
next
  case (11 s key h s')
  then show ?case using exact_used by (auto simp: exact_ops_def exact_lookup_def)
qed (auto simp: exact_defs exact_inv_def)

subsection \<open>Longest prefix matches\<close>

definition lpm_key_ok :: "nat \<Rightarrow> lpm_key \<Rightarrow> bool" where
  "lpm_key_ok n k \<longleftrightarrow> length (kdata k) = n \<and> prefix_length k \<le> 8 * n"

definition lpm_same :: "lpm_key \<Rightarrow> lpm_key \<Rightarrow> bool" where
  "lpm_same k k' \<longleftrightarrow> prefix_length k = prefix_length k' \<and> same_prefix (kdata k) (kdata k') (prefix_length k)"

definition lpm_holds :: "bf_lpm_trie \<Rightarrow> lpm_key \<Rightarrow> nat option" where
  "lpm_holds t k = (case lpm_retrieve_value t (kdata k) (prefix_length k) of Some r \<Rightarrow> map_option unat r | None \<Rightarrow> None)"

definition lpm_fits :: "bf_lpm_trie \<Rightarrow> lpm_key \<Rightarrow> bool" where
  "lpm_fits t k \<longleftrightarrow> room (kdata k) (prefix_length k) (root t)"

definition lpm_inv :: "nat \<Rightarrow> bf_lpm_trie \<Rightarrow> bool" where
  "lpm_inv n t \<longleftrightarrow> key_width_bytes t = n \<and> n \<le> 64 \<and> (\<exists>rt. stands_for t rt) \<and>
     (\<forall>k k' h. lpm_key_ok n k \<longrightarrow> lpm_key_ok n k' \<longrightarrow> lpm_holds t k = Some h \<longrightarrow> lpm_holds t k' = Some h \<longrightarrow> lpm_same k k')"

lemma lpm_holds_table:
  "stands_for t rt \<Longrightarrow> lpm_key_ok n k \<Longrightarrow> lpm_holds t k = map_option unat (rt_get rt (kdata k) (prefix_length k))"
  by (simp add: lpm_holds_def stands_for_def lpm_key_ok_def)

lemma lpm_same_sym: "lpm_same k k' \<longleftrightarrow> lpm_same k' k"
  using same_prefix_sym by (auto simp: lpm_same_def)

lemma rt_get_same: "same_prefix p q l \<Longrightarrow> rt_get rt p l = rt_get rt q l"
proof (induction rt)
  case (Cons e rt)
  then show ?case by (cases e) (auto simp: same_prefix_def)
qed simp

lemma lpm_add_law:
  assumes "lpm_inv n t" "lpm_key_ok n k" "lpm_fits t k" "lpm_holds t k = None" "h < 2 ^ 64"
    and "h \<notin> used_handles (lpm_key_ok n) lpm_holds t"
  shows "\<exists>t'. lpms_add_entry t k h = Some t' \<and> lpm_inv n t' \<and>
    (\<forall>k'. lpm_key_ok n k' \<longrightarrow> lpm_holds t' k' = (if lpm_same k k' then Some h else lpm_holds t k'))"
proof -
  obtain rt where rt: "stands_for t rt" using assms(1) by (auto simp: lpm_inv_def)
  have k: "prefix_length k \<le> 8 * length (kdata k)" using assms(2) by (simp add: lpm_key_ok_def)
  have none: "rt_get rt (kdata k) (prefix_length k) = None"
    using assms(4) lpm_holds_table [OF rt assms(2)] by simp
  obtain t' where t': "lpms_add_entry t k h = Some t'"
    "stands_for t' ((kdata k, prefix_length k, word_of_nat h) # rt_remove (kdata k) (prefix_length k) rt)"
    using lpm_insert_table [OF rt k, of "word_of_nat h"] assms(3) none by (auto simp: lpms_add_entry_def lpm_fits_def)
  have u: "unat (word_of_nat h :: u64) = h" using assms(5) by (simp add: unat_of_nat take_bit_nat_eq_self)
  have hold: "lpm_holds t' k' = (if lpm_same k k' then Some h else lpm_holds t k')" if "lpm_key_ok n k'" for k'
    using lpm_holds_table [OF t'(2) that] lpm_holds_table [OF rt that] u
    by (auto simp: lpm_same_def rt_get_remove)
  have "key_width_bytes t' = n" using t'(1) assms(1) by (auto simp: lpms_add_entry_def lpm_insert_def lpm_inv_def)
  moreover have "lpm_same k1 k2" if "lpm_key_ok n k1" "lpm_key_ok n k2" "lpm_holds t' k1 = Some i" "lpm_holds t' k2 = Some i" for k1 k2 i
  proof -
    have nu: "lpm_holds t k' \<noteq> Some h" if "lpm_key_ok n k'" for k' using assms(6) that by (auto simp: used_handles_def)
    show ?thesis
    proof (cases "lpm_same k k1 \<or> lpm_same k k2")
      case True
      then have "lpm_same k k1" "lpm_same k k2" using that hold nu by (auto split: if_splits)
      then show ?thesis by (auto simp: lpm_same_def same_prefix_def)
    next
      case False
      then show ?thesis using that hold assms(1) unfolding lpm_inv_def by (metis (no_types, lifting))
    qed
  qed
  ultimately have "lpm_inv n t'" using t'(2) assms(1) unfolding lpm_inv_def by blast
  then show ?thesis using t'(1) hold by blast
qed

lemma lpm_delete_law:
  assumes "lpm_inv n t" "lpm_key_ok n k"
  shows "\<exists>t'. lpms_delete_entry t k = Some t' \<and> lpm_inv n t' \<and>
    (\<forall>k'. lpm_key_ok n k' \<longrightarrow> lpm_holds t' k' = (if lpm_same k k' then None else lpm_holds t k'))"
proof -
  obtain rt where rt: "stands_for t rt" using assms(1) by (auto simp: lpm_inv_def)
  have k: "prefix_length k \<le> 8 * length (kdata k)" using assms(2) by (simp add: lpm_key_ok_def)
  obtain b t' where t': "lpm_delete t (kdata k) (prefix_length k) = Some (b, t')"
    "stands_for t' (rt_remove (kdata k) (prefix_length k) rt)"
    using lpm_delete_table [OF rt k] by blast
  have hold: "lpm_holds t' k' = (if lpm_same k k' then None else lpm_holds t k')" if "lpm_key_ok n k'" for k'
    using lpm_holds_table [OF t'(2) that] lpm_holds_table [OF rt that]
    by (auto simp: lpm_same_def rt_get_remove)
  have w: "key_width_bytes t' = n" using t'(1) assms(1) by (auto simp: lpm_delete_def bind_eq_Some_iff lpm_inv_def)
  have "lpm_same k1 k2" if "lpm_key_ok n k1" "lpm_key_ok n k2" "lpm_holds t' k1 = Some i" "lpm_holds t' k2 = Some i" for k1 k2 i
  proof -
    have "lpm_holds t k1 = Some i" "lpm_holds t k2 = Some i" using that hold by (auto split: if_splits)
    then show ?thesis using assms(1) that(1,2) unfolding lpm_inv_def by blast
  qed
  then have "lpm_inv n t'" using t'(2) assms(1) w unfolding lpm_inv_def by blast
  then show ?thesis using t'(1) hold by (auto simp: lpms_delete_entry_def)
qed

lemma lpm_lookup_law:
  assumes "lpm_inv n t" "length key = n"
  shows "\<exists>r. lpms_lookup t key = Some (r, t) \<and> (\<forall>h. r = Some h \<longrightarrow> h \<in> used_handles (lpm_key_ok n) lpm_holds t)"
proof -
  obtain rt where rt: "stands_for t rt" and w: "key_width_bytes t = n" using assms(1) by (auto simp: lpm_inv_def)
  have l: "lpm_lookup t key = Some (rt_lookup rt key)" using lpm_lookup_table [OF rt] w assms(2) by simp
  have "h \<in> used_handles (lpm_key_ok n) lpm_holds t" if hh: "map_option unat (rt_lookup rt key) = Some h" for h
  proof -
    obtain v where "rt_lookup rt key = Some v" and hv: "h = unat v" using hh by auto
    then obtain i where v: "h = unat v" "i \<le> 8 * length key" "rt_get rt key i = Some v"
      using hv unfolding rt_lookup_def longest_Some_iff by blast
    define k where "k = \<lparr>kdata = key, kversion = 0, prefix_length = i\<rparr>"
    have "lpm_key_ok n k" using v(2) assms(2) by (simp add: lpm_key_ok_def k_def)
    moreover from this have "lpm_holds t k = Some h" using lpm_holds_table [OF rt, of n k] v by (simp add: k_def)
    ultimately show ?thesis by (auto simp: used_handles_def)
  qed
  then show ?thesis using l by (simp add: lpms_lookup_def)
qed

lemma lpm_exists_law:
  assumes "lpm_inv n t" "lpm_key_ok n k"
  shows "lpms_entry_exists t k = Some (lpm_holds t k \<noteq> None)" "lpms_retrieve_handle t k = Some (lpm_holds t k)"
proof -
  obtain rt where rt: "stands_for t rt" using assms(1) by (auto simp: lpm_inv_def)
  have "lpm_retrieve_value t (kdata k) (prefix_length k) = Some (rt_get rt (kdata k) (prefix_length k))"
    using rt assms(2) by (simp add: stands_for_def lpm_key_ok_def)
  then show "lpms_entry_exists t k = Some (lpm_holds t k \<noteq> None)" "lpms_retrieve_handle t k = Some (lpm_holds t k)"
    by (simp_all add: lpms_entry_exists_def lpm_has_prefix_def lpms_retrieve_handle_def lpm_holds_def)
qed

lemma lpm_clear_law:
  assumes "lpm_inv n t"
  shows "\<exists>t'. lpms_clear t = Some t' \<and> lpm_inv n t' \<and> (\<forall>k. lpm_key_ok n k \<longrightarrow> lpm_holds t' k = None)"
proof -
  have n: "key_width_bytes t = n" "n \<le> 64" using assms by (auto simp: lpm_inv_def)
  obtain t' where t': "lpm_clear t = Some t'" "stands_for t' []" "key_width_bytes t' = n"
    using lpm_new_refines [OF n(2)] n(1) by (auto simp: lpm_clear_def lpm_new_def)
  have "lpm_holds t' k = None" if "lpm_key_ok n k" for k using lpm_holds_table [OF t'(2) that] by simp
  then have "lpm_inv n t' \<and> (\<forall>k. lpm_key_ok n k \<longrightarrow> lpm_holds t' k = None)"
    using t'(2,3) n(2) unfolding lpm_inv_def by auto
  then show ?thesis using t'(1) by (auto simp: lpms_clear_def)
qed

lemmas lpm_laws = lpm_add_law lpm_delete_law lpm_lookup_law lpm_exists_law lpm_clear_law

interpretation lpm: exact_handles lpm_ops "lpm_inv n" "lpm_key_ok n" lpm_same lpm_holds word_cap lpm_fits n for n
proof (unfold_locales, goal_cases)
  case (3 s k k')
  then obtain rt where rt: "stands_for s rt" by (auto simp: lpm_inv_def)
  then show ?case using 3 lpm_holds_table [OF rt] rt_get_same by (auto simp: lpm_same_def)
next
  case (4 s k k' h)
  then show ?case unfolding lpm_inv_def by blast
next
  case (9 s key)
  then show ?case using lpm_lookup_law [of n s key] by (auto simp: lpm_ops_def)
next
  case (11 s key h s')
  then show ?case using lpm_lookup_law [of n s key] by (auto simp: lpm_ops_def)
qed (use lpm_laws in \<open>auto simp: lpm_ops_def word_cap_def lpm_same_def lpm_same_sym same_prefix_def\<close>)

subsection \<open>Ternary matches\<close>

definition ternary_ok :: "nat \<Rightarrow> ternary_key \<Rightarrow> bool" where
  "ternary_ok n k \<longleftrightarrow> length (kdata k) = n \<and> length (kmask k) = n"

definition ternary_same :: "ternary_key \<Rightarrow> ternary_key \<Rightarrow> bool" where
  "ternary_same = same_key ternary_eq kpriority"

definition ternary_holds :: "ternary_map \<Rightarrow> ternary_key \<Rightarrow> nat option" where
  "ternary_holds t k = el_holds ternary_eq kpriority (t_list t) k"

definition ternary_cap :: "ternary_map \<Rightarrow> nat" where
  "ternary_cap t = length (el_entries (t_list t))"

definition ternary_rep :: "nat \<Rightarrow> ternary_map \<Rightarrow> nat list \<Rightarrow> bool" where
  "ternary_rep n t hs \<longleftrightarrow> t_nbytes_key t = n \<and> el_inv ternary_eq kpriority (ternary_ok n) (ternary_cmp n) (t_list t) hs"

definition ternary_inv :: "nat \<Rightarrow> ternary_map \<Rightarrow> bool" where
  "ternary_inv n t \<longleftrightarrow> (\<exists>hs. ternary_rep n t hs)"

lemma ternary_cmp_total:
  assumes "ternary_ok n k" "length key = n"
  shows "ternary_cmp n key k = Some (\<forall>i < n. kdata k ! i = and (key ! i) (kmask k ! i))"
  using masked_eq_iff [of "[0..<n]" key k] assms by (auto simp: ternary_cmp_def ternary_ok_def)

interpretation tk: entry_keys ternary_eq kpriority "ternary_ok n" "ternary_cmp n" n for n
  by unfold_locales (auto simp: ternary_eq_def ternary_cmp_total)

lemma ternary_used:
  assumes "ternary_rep n t hs"
  shows "used_handles (ternary_ok n) ternary_holds t = set hs"
proof (intro equalityI subsetI)
  fix h assume "h \<in> used_handles (ternary_ok n) ternary_holds t"
  then show "h \<in> set hs" using assms tk.holds_iff by (auto simp: used_handles_def ternary_holds_def ternary_rep_def)
next
  fix h assume h: "h \<in> set hs"
  then have "ternary_ok n (el_key (t_list t) h)" "ternary_holds t (el_key (t_list t) h) = Some h"
    using assms tk.holds_iff tk.same_refl by (auto simp: ternary_holds_def ternary_rep_def el_inv_def)
  then show "h \<in> used_handles (ternary_ok n) ternary_holds t" by (auto simp: used_handles_def)
qed

lemma ternary_add_law:
  assumes "ternary_rep n t hs" "ternary_ok n k" "ternary_holds t k = None" "h < ternary_cap t"
    and "h \<notin> set hs" "{..<h} \<subseteq> set hs"
  shows "\<exists>t'. ternary_add_entry t k h = Some t' \<and> ternary_rep n t' (insert_after h hs) \<and> ternary_cap t' = ternary_cap t \<and>
    (\<forall>k'. ternary_holds t' k' = (if ternary_same k k' then Some h else ternary_holds t k'))"
proof -
  have i: "el_inv ternary_eq kpriority (ternary_ok n) (ternary_cmp n) (t_list t) hs" and w: "t_nbytes_key t = n"
    using assms(1) by (auto simp: ternary_rep_def)
  obtain l' where "el_add kpriority k h (t_list t) = Some l'"
    "el_inv ternary_eq kpriority (ternary_ok n) (ternary_cmp n) l' (insert_after h hs)"
    "length (el_entries l') = length (el_entries (t_list t))"
    "\<And>k'. el_holds ternary_eq kpriority l' k' =
       (if same_key ternary_eq kpriority k k' then Some h else el_holds ternary_eq kpriority (t_list t) k')"
    using tk.el_add_inv [OF i _ assms(5,6,2)] assms(3,4) by (auto simp: ternary_cap_def ternary_holds_def)
  then show ?thesis using w
    by (auto simp: ternary_add_entry_def ternary_rep_def ternary_cap_def ternary_holds_def ternary_same_def)
qed

lemma ternary_delete_law:
  assumes "ternary_rep n t hs" "ternary_holds t k = Some h"
  shows "\<exists>t'. ternary_delete_entry t k = Some t' \<and> ternary_rep n t' (remove1 h hs) \<and> ternary_cap t' = ternary_cap t \<and>
    (\<forall>k'. ternary_holds t' k' = (if ternary_same k k' then None else ternary_holds t k'))"
proof -
  have i: "el_inv ternary_eq kpriority (ternary_ok n) (ternary_cmp n) (t_list t) hs" and w: "t_nbytes_key t = n"
    using assms(1) by (auto simp: ternary_rep_def)
  obtain l' where "el_delete ternary_eq kpriority k (t_list t) = Some l'"
    "el_inv ternary_eq kpriority (ternary_ok n) (ternary_cmp n) l' (remove1 h hs)"
    "length (el_entries l') = length (el_entries (t_list t))"
    "\<And>k'. el_holds ternary_eq kpriority l' k' =
       (if same_key ternary_eq kpriority k k' then None else el_holds ternary_eq kpriority (t_list t) k')"
    using tk.el_delete_inv [OF i] assms(2) unfolding ternary_holds_def by blast
  then show ?thesis using w
    by (auto simp: ternary_delete_entry_def ternary_rep_def ternary_cap_def ternary_holds_def ternary_same_def)
qed

lemma ternary_lookup_law:
  assumes "ternary_rep n t hs" "length key = n"
  shows "\<exists>r t'. ternary_lookup t key = Some (map_option (\<lambda>i. i - hd hs) r, t') \<and>
    best_hit kpriority (ternary_cmp n) key (t_list t) hs r \<and> ternary_rep n t' hs \<and> ternary_cap t' = ternary_cap t \<and>
    (\<forall>k. ternary_holds t' k = ternary_holds t k)"
proof -
  have i: "el_inv ternary_eq kpriority (ternary_ok n) (ternary_cmp n) (t_list t) hs" and w: "t_nbytes_key t = n"
    using assms(1) by (auto simp: ternary_rep_def)
  obtain r c where "el_lookup (ternary_cmp n) key (t_list t) = Some (map_option (\<lambda>i. i - hd hs) r, (t_list t)\<lparr>el_cache := c\<rparr>)"
    "best_hit kpriority (ternary_cmp n) key (t_list t) hs r"
    "el_inv ternary_eq kpriority (ternary_ok n) (ternary_cmp n) ((t_list t)\<lparr>el_cache := c\<rparr>) hs"
    "\<And>k. el_holds ternary_eq kpriority ((t_list t)\<lparr>el_cache := c\<rparr>) k = el_holds ternary_eq kpriority (t_list t) k"
    using tk.el_lookup_inv [OF i assms(2)] by blast
  then show ?thesis using w
    by (intro exI [of _ r] exI [of _ "t\<lparr>t_list := (t_list t)\<lparr>el_cache := c\<rparr>\<rparr>"])
      (simp add: ternary_lookup_def ternary_rep_def ternary_cap_def ternary_holds_def)
qed

lemma ternary_clear_law:
  "ternary_rep n t hs \<Longrightarrow> ternary_rep n (t\<lparr>t_list := el_clear (t_list t)\<rparr>) []"
  using tk.el_inv_clear by (auto simp: ternary_rep_def)

interpretation ternary: lookup_structure ternary_ops "ternary_inv n" "ternary_ok n" ternary_same ternary_holds
  ternary_cap always_fits n for n
proof (unfold_locales, goal_cases)
  case 1
  show ?case by (simp add: ternary_same_def tk.same_refl)
next
  case (2 k k')
  then show ?case by (simp add: ternary_same_def tk.same_sym)
next
  case (3 s k k')
  then show ?case using tk.holds_same by (auto simp: ternary_inv_def ternary_rep_def ternary_holds_def ternary_same_def)
next
  case (4 s k k' h)
  then show ?case using tk.holds_iff tk.same_trans tk.same_sym
    unfolding ternary_inv_def ternary_rep_def ternary_holds_def ternary_same_def by metis
next
  case (5 s k)
  then show ?case using tk.el_exists_inv
    by (auto simp: ternary_inv_def ternary_rep_def ternary_holds_def ternary_ops_def ternary_entry_exists_def)
next
  case (6 s k h)
  then obtain hs where hs: "ternary_rep n s hs" by (auto simp: ternary_inv_def)
  show ?case
    using ternary_add_law [OF hs 6(2,4,5)] 6(6,7) ternary_used [OF hs] by (auto simp: ternary_ops_def ternary_inv_def)
next
  case (7 s k)
  then obtain hs h where hs: "ternary_rep n s hs" "ternary_holds s k = Some h" by (auto simp: ternary_inv_def)
  show ?case using ternary_delete_law [OF hs] by (auto simp: ternary_ops_def ternary_inv_def)
next
  case (8 s)
  then obtain hs where hs: "ternary_rep n s hs" by (auto simp: ternary_inv_def)
  have "ternary_rep n (s\<lparr>t_list := el_clear (t_list s)\<rparr>) []" by (rule ternary_clear_law [OF hs])
  moreover from this have "ternary_holds (s\<lparr>t_list := el_clear (t_list s)\<rparr>) k = None" for k
    using tk.holds_iff [of n "el_clear (t_list s)" "[]" k] by (auto simp: ternary_rep_def ternary_holds_def)
  ultimately show ?case
    by (auto simp: ternary_ops_def ternary_clear_def ternary_inv_def ternary_cap_def el_clear_def)
next
  case (9 s key)
  then obtain hs where hs: "ternary_rep n s hs" by (auto simp: ternary_inv_def)
  show ?case using ternary_lookup_law [OF hs 9(2)] by (auto simp: ternary_ops_def ternary_inv_def)
qed

subsection \<open>Range matches\<close>

definition range_ok :: "nat \<Rightarrow> range_key \<Rightarrow> bool" where
  "range_ok n k \<longleftrightarrow> length (kdata k) = n \<and> length (kmask k) = n \<and>
     (\<forall>w \<in> set (range_widths k). 0 < w) \<and> sum_list (range_widths k) \<le> n"

definition range_same :: "range_key \<Rightarrow> range_key \<Rightarrow> bool" where
  "range_same = same_key range_eq kpriority"

definition range_holds :: "range_map \<Rightarrow> range_key \<Rightarrow> nat option" where
  "range_holds t k = el_holds range_eq kpriority (r_list t) k"

definition range_cap :: "range_map \<Rightarrow> nat" where
  "range_cap t = length (el_entries (r_list t))"

definition range_rep :: "nat \<Rightarrow> range_map \<Rightarrow> nat list \<Rightarrow> bool" where
  "range_rep n t hs \<longleftrightarrow> r_nbytes_key t = n \<and> el_inv range_eq kpriority (range_ok n) (range_cmp n) (r_list t) hs"

definition range_inv :: "nat \<Rightarrow> range_map \<Rightarrow> bool" where
  "range_inv n t \<longleftrightarrow> (\<exists>hs. range_rep n t hs)"

lemma range_cmp_total:
  assumes "range_ok n k" "length key = n"
  shows "range_cmp n key k \<noteq> None"
proof -
  obtain b off where "range_cmp_widths (range_widths k) 0 key k = Some (b, off)"
    using range_cmp_widths_iff [of "range_widths k" 0 n key k] assms by (auto simp: range_ok_def)
  moreover have "masked_eq [off..<n] key k \<noteq> None"
    using masked_eq_iff [of "[off..<n]" key k] assms by (auto simp: range_ok_def)
  ultimately show ?thesis by (cases b) (simp_all add: range_cmp_def)
qed

interpretation rk: entry_keys range_eq kpriority "range_ok n" "range_cmp n" n for n
  by unfold_locales (auto simp: range_eq_def range_cmp_total)

lemmas range_defs = range_inv_def range_rep_def range_holds_def range_cap_def range_same_def range_ops_def

lemma range_used:
  assumes "range_rep n t hs"
  shows "used_handles (range_ok n) range_holds t = set hs"
proof (intro equalityI subsetI)
  fix h assume "h \<in> used_handles (range_ok n) range_holds t"
  then show "h \<in> set hs" using assms rk.holds_iff by (auto simp: used_handles_def range_defs)
next
  fix h assume h: "h \<in> set hs"
  then have "range_ok n (el_key (r_list t) h)" "range_holds t (el_key (r_list t) h) = Some h"
    using assms rk.holds_iff rk.same_refl by (auto simp: range_defs el_inv_def)
  then show "h \<in> used_handles (range_ok n) range_holds t" by (auto simp: used_handles_def)
qed

interpretation range: lookup_structure range_ops "range_inv n" "range_ok n" range_same range_holds range_cap always_fits n for n
proof (unfold_locales, goal_cases)
  case 1
  show ?case by (simp add: range_same_def rk.same_refl)
next
  case (2 k k')
  then show ?case by (simp add: range_same_def rk.same_sym)
next
  case (3 s k k')
  then show ?case using rk.holds_same by (auto simp: range_defs)
next
  case (4 s k k' h)
  then show ?case using rk.holds_iff rk.same_trans rk.same_sym unfolding range_defs by metis
next
  case (5 s k)
  then show ?case using rk.el_exists_inv by (auto simp: range_defs range_entry_exists_def)
next
  case (6 s k h)
  then obtain hs where hs: "range_rep n s hs" by (auto simp: range_inv_def)
  then have i: "el_inv range_eq kpriority (range_ok n) (range_cmp n) (r_list s) hs" by (simp add: range_rep_def)
  have h: "h < length (el_entries (r_list s))" "h \<notin> set hs" "{..<h} \<subseteq> set hs" "el_holds range_eq kpriority (r_list s) k = None"
    using 6 range_used [OF hs] by (simp_all add: range_cap_def range_holds_def)
  obtain l' where "el_add kpriority k h (r_list s) = Some l'"
    "el_inv range_eq kpriority (range_ok n) (range_cmp n) l' (insert_after h hs)"
    "length (el_entries l') = length (el_entries (r_list s))"
    "\<And>k'. el_holds range_eq kpriority l' k' =
       (if same_key range_eq kpriority k k' then Some h else el_holds range_eq kpriority (r_list s) k')"
    using rk.el_add_inv [OF i h(1-3) 6(2) h(4)] by blast
  then show ?case using hs by (auto simp: range_defs range_add_entry_def)
next
  case (7 s k)
  then obtain hs h where hs: "range_rep n s hs" "range_holds s k = Some h" by (auto simp: range_inv_def)
  then have i: "el_inv range_eq kpriority (range_ok n) (range_cmp n) (r_list s) hs" by (simp add: range_rep_def)
  obtain l' where "el_delete range_eq kpriority k (r_list s) = Some l'"
    "el_inv range_eq kpriority (range_ok n) (range_cmp n) l' (remove1 h hs)"
    "length (el_entries l') = length (el_entries (r_list s))"
    "\<And>k'. el_holds range_eq kpriority l' k' =
       (if same_key range_eq kpriority k k' then None else el_holds range_eq kpriority (r_list s) k')"
    using rk.el_delete_inv [OF i] hs(2) unfolding range_holds_def by blast
  then show ?case using hs by (auto simp: range_defs range_delete_entry_def)
next
  case (8 s)
  then obtain hs where hs: "range_rep n s hs" by (auto simp: range_inv_def)
  have "el_inv range_eq kpriority (range_ok n) (range_cmp n) (el_clear (r_list s)) []"
    using hs rk.el_inv_clear by (auto simp: range_rep_def)
  moreover from this have "el_holds range_eq kpriority (el_clear (r_list s)) k = None" for k
    using rk.holds_iff [of n "el_clear (r_list s)" "[]" k] by auto
  ultimately show ?case using hs by (auto simp: range_defs range_clear_def el_clear_def)
next
  case (9 s key)
  then obtain hs where hs: "range_rep n s hs" by (auto simp: range_inv_def)
  then have i: "el_inv range_eq kpriority (range_ok n) (range_cmp n) (r_list s) hs" by (simp add: range_rep_def)
  obtain r c where "el_lookup (range_cmp n) key (r_list s) = Some (map_option (\<lambda>i. i - hd hs) r, (r_list s)\<lparr>el_cache := c\<rparr>)"
    "el_inv range_eq kpriority (range_ok n) (range_cmp n) ((r_list s)\<lparr>el_cache := c\<rparr>) hs"
    "\<And>k. el_holds range_eq kpriority ((r_list s)\<lparr>el_cache := c\<rparr>) k = el_holds range_eq kpriority (r_list s) k"
    using rk.el_lookup_inv [OF i 9(2)] by blast
  then show ?case using hs by (auto simp: range_defs range_lookup_def)
qed

section \<open>Searching ternary tables\<close>

text \<open>
  C34: A lookup in a ternary table that holds the entries \<open>hs\<close>, handle 0 among them, with a key of the width of the table,
  returns the handle of a matching entry of least priority below the maximum, the lowest handle among equals, and nothing when
  no entry matches, with and without the cache.
\<close>

theorem ternary_lookup_best:
  assumes "ternary_rep n t hs" "length key = n" "0 \<in> set hs"
  shows "\<exists>r t'. ternary_lookup t key = Some (r, t') \<and> best_hit kpriority (ternary_cmp n) key (t_list t) hs r \<and>
    ternary_rep n t' hs"
proof -
  have "sorted_wrt (<) hs" using assms(1) by (auto simp: ternary_rep_def el_inv_def el_rep_def)
  then have "hd hs = 0" using assms(3) by (cases hs) auto
  moreover obtain r t' where "ternary_lookup t key = Some (map_option (\<lambda>i. i - hd hs) r, t')"
    "best_hit kpriority (ternary_cmp n) key (t_list t) hs r" "ternary_rep n t' hs"
    using ternary_lookup_law [OF assms(1,2)] by blast
  ultimately show ?thesis by (auto simp: option.map_ident)
qed

text \<open>while handle 0 is free, a lookup that finds an entry returns the wrong handle: the handle
  of the best entry minus the handle of the first one, since handles are counted from the head of
  the list and not from the start of the vector.\<close>

theorem ternary_wrong_handle:
  assumes "ternary_rep n t hs" "length key = n" "0 \<notin> set hs" "hits kpriority (ternary_cmp n) key (t_list t) hs \<noteq> {}"
  shows "\<exists>i t'. ternary_lookup t key = Some (Some (i - hd hs), t') \<and> i - hd hs \<noteq> i \<and>
    best_hit kpriority (ternary_cmp n) key (t_list t) hs (Some i)"
proof -
  obtain r t' where l: "ternary_lookup t key = Some (map_option (\<lambda>i. i - hd hs) r, t')"
    "best_hit kpriority (ternary_cmp n) key (t_list t) hs r"
    using ternary_lookup_law [OF assms(1,2)] by blast
  then obtain i where r: "r = Some i" using assms(4) by (cases r) (auto simp: best_hit_def)
  have i: "i \<in> set hs" using l(2) r by (auto simp: best_hit_def best_of_def hits_def)
  then have "hd hs \<in> set hs" by (cases hs) auto
  then have "0 < hd hs" "0 < i" using assms(3) i by (metis neq0_conv)+
  then show ?thesis using l r by auto
qed

text \<open>the cache of a ternary table is invisible: a lookup through it returns what the search of
  the list returns, whatever is cached, and leaves a cache of which this is true again.\<close>

theorem cached_search_is_search:
  assumes "el_inv ternary_eq kpriority (ternary_ok n) (ternary_cmp n) l hs" "length key = n"
  shows "\<exists>c. el_lookup (ternary_cmp n) key l =
      map_option (\<lambda>r. (r, l\<lparr>el_cache := c\<rparr>)) (scan (ternary_cmp n) key l) \<and>
    el_inv ternary_eq kpriority (ternary_ok n) (ternary_cmp n) (l\<lparr>el_cache := c\<rparr>) hs"
proof -
  obtain r where r: "scan (ternary_cmp n) key l = Some (map_option (\<lambda>i. i - hd hs) r)"
    "best_hit kpriority (ternary_cmp n) key l hs r"
    using tk.el_scan_inv [OF assms] by blast
  obtain r' c where c: "el_lookup (ternary_cmp n) key l = Some (map_option (\<lambda>i. i - hd hs) r', l\<lparr>el_cache := c\<rparr>)"
    "best_hit kpriority (ternary_cmp n) key l hs r'"
    "el_inv ternary_eq kpriority (ternary_ok n) (ternary_cmp n) (l\<lparr>el_cache := c\<rparr>) hs"
    using tk.el_lookup_inv [OF assms] by blast
  have "r' = r" by (rule best_hit_unique [OF c(2) r(2)])
  then show ?thesis using c(1,3) r(1) by (intro exI [of _ c]) simp
qed

section \<open>Witnesses\<close>

definition example_key :: ternary_key where
  "example_key = \<lparr>kdata = [10], kversion = 0, kmask = [255], kpriority = 1\<rparr>"

definition example_map :: "nat \<Rightarrow> ternary_map" where
  "example_map h = \<lparr>t_list = \<lparr>el_head = Some h,
     el_entries = (replicate 2 null_entry)[h := \<lparr>e_priority = 1, e_key = Some example_key, e_prev = None, e_next = None\<rparr>],
     entries_count = 1, enable_cache = True, use_cache = False, el_cache = cache_new\<rparr>, t_nbytes_key = 1\<rparr>"

lemma example_rep: "h < 2 \<Longrightarrow> ternary_rep 1 (example_map h) [h]"
  unfolding ternary_rep_def el_inv_def el_rep_def
  by (auto simp: example_map_def example_key_def el_key_def ternary_ok_def cache_new_def intro!: cache_ok_empty)

theorem ternary_lookup_best_witness:
  "\<exists>r t'. ternary_lookup (example_map 0) [10] = Some (r, t') \<and>
    best_hit kpriority (ternary_cmp 1) [10] (t_list (example_map 0)) [0] r \<and> ternary_rep 1 t' [0]"
  by (rule ternary_lookup_best [OF example_rep]) simp_all

theorem ternary_wrong_handle_witness:
  "\<exists>i t'. ternary_lookup (example_map 1) [10] = Some (Some (i - hd [1]), t') \<and> i - hd [1] \<noteq> i \<and>
    best_hit kpriority (ternary_cmp 1) [10] (t_list (example_map 1)) [1] (Some i)"
  by (rule ternary_wrong_handle [OF example_rep])
    (simp_all add: hits_def el_key_def example_map_def example_key_def ternary_cmp_def int_max_def)

theorem cached_search_is_search_witness:
  "\<exists>c. el_lookup (ternary_cmp 1) [10] (t_list (example_map 0)) =
      map_option (\<lambda>r. (r, (t_list (example_map 0))\<lparr>el_cache := c\<rparr>)) (scan (ternary_cmp 1) [10] (t_list (example_map 0))) \<and>
    el_inv ternary_eq kpriority (ternary_ok 1) (ternary_cmp 1) ((t_list (example_map 0))\<lparr>el_cache := c\<rparr>) [0]"
  by (rule cached_search_is_search) (use example_rep [of 0] in \<open>simp_all add: ternary_rep_def\<close>)

theorem range_cmp_numeric_witness:
  "range_cmp 2 [5, 7] \<lparr>kdata = [1, 7], kversion = 0, kmask = [9, 255], kpriority = 0, range_widths = [1]\<rparr> = Some (
    (\<forall>(o1, w) \<in> set (range_fields 0 [1]).
      be_nat (field_at [1, 7] o1 w) \<le> be_nat (field_at [5, 7] o1 w) \<and> be_nat (field_at [5, 7] o1 w) \<le> be_nat (field_at [9, 255] o1 w)) \<and>
    (\<forall>i. sum_list [1] \<le> i \<and> i < 2 \<longrightarrow> [1, 7] ! i = and ([5, 7] ! i) ([9, 255 :: u8] ! i)))"
  using range_cmp_numeric [of "\<lparr>kdata = [1, 7], kversion = 0, kmask = [9, 255], kpriority = 0, range_widths = [1]\<rparr>" 2 "[5, 7]"]
  by simp

end
