(* ===== verification/Match_Keys.thy ===== *)
theory Match_Keys
  imports Phv_Store Lookup_Structures "HOL-Library.Multiset"
begin

text \<open>
  Match keys: \<^verbatim>\<open>MatchKeyParam\<close> and \<^verbatim>\<open>MatchKeyBuilder\<close> of \<^verbatim>\<open>match_units.h\<close> and
  \<^verbatim>\<open>match_units.cpp\<close>.  The builder reorders the fields of a table key by match type, turns the
  parameters a client gives for an entry into the bytes that the lookup structures store, and turns
  a packet into the bytes they are searched with.  The theorems: the two field orders are inverse
  permutations, an entry's parameters come back as they went in, and a packet hits an exact entry
  iff its fields agree with the entry's values in the bits of their masks.
\<close>

section \<open>Parameters\<close>

datatype match_type = RANGE | VALID | EXACT | LPM | TERNARY

fun type_rank :: "match_type \<Rightarrow> nat" where
  "type_rank RANGE = 0"
| "type_rank VALID = 1"
| "type_rank EXACT = 2"
| "type_rank LPM = 3"
| "type_rank TERNARY = 4"

lemma type_rank_inj: "type_rank a = type_rank b \<Longrightarrow> a = b"
  by (cases a; cases b) simp_all

instantiation match_type :: linorder
begin

definition less_eq_match_type :: "match_type \<Rightarrow> match_type \<Rightarrow> bool" where
  "less_eq_match_type a b \<longleftrightarrow> type_rank a \<le> type_rank b"

definition less_match_type :: "match_type \<Rightarrow> match_type \<Rightarrow> bool" where
  "less_match_type a b \<longleftrightarrow> type_rank a < type_rank b"

instance
  by standard (auto simp: less_eq_match_type_def less_match_type_def dest: type_rank_inj)

end

record match_key_param =
  p_type :: match_type
  pkey :: "u8 list"
  pmask :: "u8 list"
  pprefix :: int

definition key_param :: "match_type \<Rightarrow> u8 list \<Rightarrow> match_key_param" where
  "key_param t key = \<lparr>p_type = t, pkey = key, pmask = [], pprefix = 0\<rparr>"

definition mask_param :: "match_type \<Rightarrow> u8 list \<Rightarrow> u8 list \<Rightarrow> match_key_param" where
  "mask_param t key m = \<lparr>p_type = t, pkey = key, pmask = m, pprefix = 0\<rparr>"

definition prefix_param :: "match_type \<Rightarrow> u8 list \<Rightarrow> int \<Rightarrow> match_key_param" where
  "prefix_param t key n = \<lparr>p_type = t, pkey = key, pmask = [], pprefix = n\<rparr>"

section \<open>The builder\<close>

record keyF =
  kf_header :: nat
  kf_offset :: nat
  kf_type :: match_type
  kf_nbits :: nat

record name_map =
  names :: "string list"
  max_s :: nat

record key_builder =
  key_input :: "keyF list"
  nbytes_key :: nat
  has_big_mask :: bool
  big_mask :: "u8 list"
  key_mapping :: "nat list"
  inv_mapping :: "nat list"
  key_offsets :: "nat list"
  kb_names :: name_map
  built :: bool
  kb_masks :: "u8 list list"

definition kb_new :: key_builder where
  "kb_new = \<lparr>key_input = [], nbytes_key = 0, has_big_mask = False, big_mask = [], key_mapping = [],
     inv_mapping = [], key_offsets = [], kb_names = \<lparr>names = [], max_s = 0\<rparr>, built = False, kb_masks = []\<rparr>"

definition nbits_to_nbytes :: "nat \<Rightarrow> nat" where
  "nbits_to_nbytes n = (n + 7) div 8"

definition name_map_push_back :: "string \<Rightarrow> name_map \<Rightarrow> name_map" where
  "name_map_push_back s m = \<lparr>names = names m @ [s], max_s = max (max_s m) (length s)\<rparr>"

definition name_map_get :: "name_map \<Rightarrow> nat \<Rightarrow> string option" where
  "name_map_get m i = nth_opt (names m) i"

definition kb_push_back :: "keyF \<Rightarrow> u8 list \<Rightarrow> string \<Rightarrow> key_builder \<Rightarrow> key_builder" where
  "kb_push_back input m name kb = kb\<lparr>key_input := key_input kb @ [input],
     nbytes_key := nbytes_key kb + nbits_to_nbytes (kf_nbits input), kb_masks := kb_masks kb @ [m],
     kb_names := name_map_push_back name (kb_names kb)\<rparr>"

definition kb_push_back_field :: "nat \<Rightarrow> nat \<Rightarrow> nat \<Rightarrow> match_type \<Rightarrow> string \<Rightarrow> key_builder \<Rightarrow> key_builder" where
  "kb_push_back_field hdr off n t name kb =
     kb_push_back \<lparr>kf_header = hdr, kf_offset = off, kf_type = t, kf_nbits = n\<rparr>
       (replicate (nbits_to_nbytes n) 0xff) name kb"

definition kb_push_back_masked ::
  "nat \<Rightarrow> nat \<Rightarrow> nat \<Rightarrow> u8 list \<Rightarrow> match_type \<Rightarrow> string \<Rightarrow> key_builder \<Rightarrow> key_builder option" where
  "kb_push_back_masked hdr off n m t name kb = do {
     guard (length m = nbits_to_nbytes n);
     Some ((kb_push_back \<lparr>kf_header = hdr, kf_offset = off, kf_type = t, kf_nbits = n\<rparr> m name kb)
       \<lparr>has_big_mask := True\<rparr>) }"

definition kb_push_back_valid_header :: "nat \<Rightarrow> string \<Rightarrow> key_builder \<Rightarrow> key_builder" where
  "kb_push_back_valid_header hdr name kb =
     kb_push_back \<lparr>kf_header = hdr, kf_offset = 0, kf_type = VALID, kf_nbits = 8\<rparr> [0xff] name kb"

text \<open>
  \<^verbatim>\<open>build\<close>.  The comparison of the indices is a total order, so \<^verbatim>\<open>std::sort\<close> has one result:
  the indices by type, those of one type in their order.
\<close>

definition sort_fn :: "keyF list \<Rightarrow> nat \<Rightarrow> nat \<Rightarrow> bool" where
  "sort_fn ks i1 i2 \<longleftrightarrow> (let t1 = type_rank (kf_type (ks ! i1)); t2 = type_rank (kf_type (ks ! i2))
     in if t1 = t2 then i1 < i2 else t1 < t2)"

definition sort_indices :: "keyF list \<Rightarrow> nat list" where
  "sort_indices ks = sort_key (\<lambda>i. kf_type (ks ! i)) [0..<length ks]"

definition invert_mapping :: "nat list \<Rightarrow> nat list" where
  "invert_mapping im = fold (\<lambda>idx km. km[im ! idx := idx]) im (replicate (length im) 0)"

fun byte_offsets :: "nat \<Rightarrow> keyF list \<Rightarrow> nat list" where
  "byte_offsets off [] = []"
| "byte_offsets off (k # ks) = off # byte_offsets (off + nbits_to_nbytes (kf_nbits k)) ks"

text \<open>\<^verbatim>\<open>std::copy\<close> of the bytes of a mask to a position of the big mask.\<close>

definition copy_to :: "u8 list \<Rightarrow> nat \<Rightarrow> u8 list \<Rightarrow> u8 list option" where
  "copy_to src off dst = (if off + length src \<le> length dst
     then Some (take off dst @ src @ drop (off + length src) dst) else None)"

definition fill_big_mask :: "u8 list list \<Rightarrow> nat list \<Rightarrow> u8 list \<Rightarrow> u8 list option" where
  "fill_big_mask ms offs = fold_opt (\<lambda>i m. do {
     src \<leftarrow> nth_opt ms i; off \<leftarrow> nth_opt offs i; copy_to src off m }) [0..<length offs]"

definition build :: "key_builder \<Rightarrow> key_builder option" where
  "build kb = (if built kb then Some kb else
     let im = sort_indices (key_input kb);
         new_input = map ((!) (key_input kb)) im;
         km = invert_mapping im;
         offsets = byte_offsets 0 new_input;
         ko = key_offsets kb @ map (\<lambda>i. offsets ! (km ! i)) [0..<length km]
     in do {
       m \<leftarrow> fill_big_mask (kb_masks kb) ko (replicate (nbytes_key kb) 0);
       Some (kb\<lparr>key_input := new_input, key_mapping := km, inv_mapping := im, key_offsets := ko,
         big_mask := m, built := True\<rparr>) })"

section \<open>The key of a packet\<close>

definition apply_mask :: "u8 list \<Rightarrow> u8 list \<Rightarrow> u8 list option" where
  "apply_mask m key = do { guard (length key = length m); Some (map2 and key m) }"

definition apply_big_mask :: "key_builder \<Rightarrow> u8 list \<Rightarrow> u8 list option" where
  "apply_big_mask kb key = (if has_big_mask kb then apply_mask (big_mask kb) key else Some key)"

definition append_field :: "phv \<Rightarrow> keyF \<Rightarrow> u8 list \<Rightarrow> u8 list option" where
  "append_field p k key = do {
     h \<leftarrow> nth_opt (headers p) (kf_header k);
     if kf_type k = VALID then Some (key @ [if is_valid h then 1 else 0])
     else do {
       f \<leftarrow> nth_opt (hfields h) (kf_offset k);
       Some (key @ (if is_valid h \<or> hidden f then fbytes f else replicate (nbytes f) 0)) } }"

definition build_key :: "key_builder \<Rightarrow> phv \<Rightarrow> u8 list \<Rightarrow> u8 list option" where
  "build_key kb p key = do {
     key1 \<leftarrow> fold_opt (append_field p) (key_input kb) key;
     if has_big_mask kb then apply_mask (big_mask kb) key1 else Some key1 }"

text \<open>\<^verbatim>\<open>std::string(start, end)\<close> for \<open>n\<close> bytes of a container from \<open>off\<close> on.\<close>

definition sub_bytes :: "u8 list \<Rightarrow> nat \<Rightarrow> nat \<Rightarrow> u8 list option" where
  "sub_bytes xs off n = (if off + n \<le> length xs then Some (take n (drop off xs)) else None)"

definition field_slot :: "key_builder \<Rightarrow> nat \<Rightarrow> (keyF \<times> nat) option" where
  "field_slot kb i = do {
     imp_idx \<leftarrow> nth_opt (key_mapping kb) i;
     f \<leftarrow> nth_opt (key_input kb) imp_idx;
     off \<leftarrow> nth_opt (key_offsets kb) i;
     Some (f, off) }"

definition key_to_fields :: "key_builder \<Rightarrow> u8 list \<Rightarrow> u8 list list option" where
  "key_to_fields kb key = map_opt (\<lambda>i. do {
     (f, off) \<leftarrow> field_slot kb i; sub_bytes key off (nbits_to_nbytes (kf_nbits f)) }) [0..<length (key_mapping kb)]"

section \<open>Masks and prefixes\<close>

text \<open>The parallel bit count, on a signed \<^verbatim>\<open>char\<close>: its shifts to the right copy the sign.\<close>

definition count_bits :: "u8 \<Rightarrow> nat" where
  "count_bits b =
     (let c1 = b - (signed_drop_bit 1 b AND 0x55);
          c2 = (c1 AND 0x33) + (signed_drop_bit 2 c1 AND 0x33)
      in unat ((c2 + signed_drop_bit 4 c2) AND 0x0f))"

definition pref_len_from_mask :: "u8 list \<Rightarrow> nat" where
  "pref_len_from_mask m = foldl (\<lambda>pref b. if b = 0xff then pref + 8 else pref + count_bits b) 0 m"

definition create_mask_from_pref_len :: "int \<Rightarrow> nat \<Rightarrow> u8 list option" where
  "create_mask_from_pref_len pl n = (if 0 \<le> pl \<and> pl \<le> 8 * int n then
     (let q = nat pl div 8; r = nat pl mod 8; m = replicate q 0xff @ replicate (n - q) 0
      in Some (if r \<noteq> 0 then m[q := push_bit (8 - r) 0xff] else m))
     else None)"

definition format_ternary_key :: "u8 list \<Rightarrow> u8 list \<Rightarrow> u8 list" where
  "format_ternary_key key m = map2 and key m"

definition get_byte0_mask :: "nat \<Rightarrow> u8" where
  "get_byte0_mask bw =
     (if bw mod 8 = 0 then 0xff else push_bit (bw mod 8) 1 - 1)"

section \<open>From parameters to entries\<close>

text \<open>
  The loops over the parameters, in the order of the implementation.  A step appends the bytes of
  the parameter and clears the bits of its first byte that the field does not have.
\<close>

definition append_param ::
  "key_builder \<Rightarrow> match_key_param list \<Rightarrow> nat \<Rightarrow> u8 list \<times> nat \<Rightarrow> (match_key_param \<times> u8 list \<times> nat) option" where
  "append_param kb ps i st = do {
     pi \<leftarrow> nth_opt (inv_mapping kb) i;
     par \<leftarrow> nth_opt ps pi;
     f \<leftarrow> nth_opt (key_input kb) i;
     let (d, first_byte) = st;
     let d1 = d @ pkey par;
     b \<leftarrow> nth_opt d1 first_byte;
     Some (par, d1[first_byte := and b (get_byte0_mask (kf_nbits f))], first_byte + length (pkey par)) }"

definition params_to_exact :: "key_builder \<Rightarrow> match_key_param list \<Rightarrow> match_key option" where
  "params_to_exact kb ps = do {
     (d, fb) \<leftarrow> fold_opt (\<lambda>i st. do { (par, st') \<leftarrow> append_param kb ps i st; Some st' })
       [0..<length (inv_mapping kb)] ([], 0);
     Some \<lparr>kdata = d, kversion = 0\<rparr> }"

definition prefix_step :: "match_key_param \<Rightarrow> int option" where
  "prefix_step par = (case p_type par of
     VALID \<Rightarrow> Some 8
   | EXACT \<Rightarrow> Some (8 * int (length (pkey par)))
   | LPM \<Rightarrow> Some (pprefix par)
   | _ \<Rightarrow> None)"

text \<open>
  The prefix length is an \<^verbatim>\<open>int\<close>; the tries are modelled for lengths that are not negative, so a
  negative sum, which the checks of the client's parameters exclude, is not a key here.
\<close>

definition params_to_lpm :: "key_builder \<Rightarrow> match_key_param list \<Rightarrow> lpm_key option" where
  "params_to_lpm kb ps = do {
     ((d, fb), pl) \<leftarrow> fold_opt (\<lambda>i (st, pl). do {
         (par, st') \<leftarrow> append_param kb ps i st; n \<leftarrow> prefix_step par; Some (st', pl + n) })
       [0..<length (inv_mapping kb)] (([], 0), 0);
     guard (0 \<le> pl);
     Some \<lparr>kdata = d, kversion = 0, prefix_length = nat pl\<rparr> }"

definition mask_step :: "match_key_param \<Rightarrow> u8 list option" where
  "mask_step par = (case p_type par of
     VALID \<Rightarrow> Some [0xff]
   | EXACT \<Rightarrow> Some (replicate (length (pkey par)) 0xff)
   | LPM \<Rightarrow> create_mask_from_pref_len (pprefix par) (length (pkey par))
   | _ \<Rightarrow> Some (pmask par))"

definition params_to_data_mask :: "key_builder \<Rightarrow> match_key_param list \<Rightarrow> (u8 list \<times> u8 list) option" where
  "params_to_data_mask kb ps = do {
     ((d, fb), m) \<leftarrow> fold_opt (\<lambda>i (st, m). do {
         (par, st') \<leftarrow> append_param kb ps i st; m' \<leftarrow> mask_step par; Some (st', m @ m') })
       [0..<length (inv_mapping kb)] (([], 0), []);
     Some (d, m) }"

definition params_to_ternary :: "key_builder \<Rightarrow> match_key_param list \<Rightarrow> ternary_key option" where
  "params_to_ternary kb ps = do {
     (d, m) \<leftarrow> params_to_data_mask kb ps;
     guard (length d = length m);
     Some \<lparr>kdata = format_ternary_key d m, kversion = 0, kmask = m, kpriority = int_max\<rparr> }"

definition collect_widths :: "key_builder \<Rightarrow> match_key_param list \<Rightarrow> nat list option" where
  "collect_widths kb ps = fold_opt (\<lambda>pi ws. do {
     par \<leftarrow> nth_opt ps pi;
     Some (if p_type par = RANGE then ws @ [length (pkey par)] else ws) }) (inv_mapping kb) []"

definition params_to_range :: "key_builder \<Rightarrow> match_key_param list \<Rightarrow> range_key option" where
  "params_to_range kb ps = do {
     (d, m) \<leftarrow> params_to_data_mask kb ps;
     ws \<leftarrow> collect_widths kb ps;
     guard (length d = length m);
     guard (sum_list ws \<le> length d);
     let w = sum_list ws;
     Some \<lparr>kdata = take w d @ format_ternary_key (drop w d) (drop w m), kversion = 0, kmask = m,
       kpriority = int_max, range_widths = ws\<rparr> }"

section \<open>From entries to parameters\<close>

definition slot_bytes :: "key_builder \<Rightarrow> u8 list \<Rightarrow> nat \<Rightarrow> (keyF \<times> nat \<times> u8 list) option" where
  "slot_bytes kb d i = do {
     (f, off) \<leftarrow> field_slot kb i;
     bs \<leftarrow> sub_bytes d off (nbits_to_nbytes (kf_nbits f));
     Some (f, off, bs) }"

definition exact_to_params :: "key_builder \<Rightarrow> match_key \<Rightarrow> match_key_param list option" where
  "exact_to_params kb key = map_opt (\<lambda>i. do {
     (f, off, bs) \<leftarrow> slot_bytes kb (kdata key) i;
     guard (kf_type f = VALID \<or> kf_type f = EXACT);
     Some (key_param (kf_type f) bs) }) [0..<length (key_mapping kb)]"

definition lpm_to_params :: "key_builder \<Rightarrow> lpm_key \<Rightarrow> match_key_param list option" where
  "lpm_to_params kb key = do {
     (ps, idx, pref) \<leftarrow> fold_opt (\<lambda>i (ps, idx, pref). do {
         (f, off, bs) \<leftarrow> slot_bytes kb (kdata key) i;
         guard (kf_type f \<noteq> TERNARY);
         let ps' = ps @ [key_param (kf_type f) bs];
         Some (if kf_type f = LPM then (ps', i, pref) else (ps', idx, pref - 8 * int (length bs))) })
       [0..<length (key_mapping kb)] ([], 0, int (prefix_length key));
     q \<leftarrow> nth_opt ps idx;
     Some (ps[idx := q\<lparr>pprefix := pref\<rparr>]) }"

definition ternary_to_params :: "key_builder \<Rightarrow> 'a ternary_key_scheme \<Rightarrow> match_key_param list option" where
  "ternary_to_params kb key = map_opt (\<lambda>i. do {
     (f, off, bs) \<leftarrow> slot_bytes kb (kdata key) i;
     let n = nbits_to_nbytes (kf_nbits f);
     if kf_type f = VALID \<or> kf_type f = EXACT then Some (key_param (kf_type f) bs)
     else do {
       m \<leftarrow> sub_bytes (kmask key) off n;
       Some (if kf_type f = LPM then prefix_param LPM bs (int (pref_len_from_mask m))
             else mask_param (kf_type f) bs m) } }) [0..<length (key_mapping kb)]"

definition range_to_params :: "key_builder \<Rightarrow> range_key \<Rightarrow> match_key_param list option" where
  "range_to_params kb key = ternary_to_params kb key"

section \<open>The check of a client's parameters\<close>

fun sanity_loop :: "key_builder \<Rightarrow> match_key_param list \<Rightarrow> nat list \<Rightarrow> bool option" where
  "sanity_loop kb ps [] = Some True"
| "sanity_loop kb ps (i # is) = do {
     pi \<leftarrow> nth_opt (inv_mapping kb) i;
     par \<leftarrow> nth_opt ps pi;
     f \<leftarrow> nth_opt (key_input kb) i;
     let n = nbits_to_nbytes (kf_nbits f);
     if p_type par \<noteq> kf_type f then Some False
     else if length (pkey par) \<noteq> n then Some False
     else if (case p_type par of
         LPM \<Rightarrow> nat (pprefix par mod 2 ^ 64) > kf_nbits f
       | TERNARY \<Rightarrow> length (pmask par) \<noteq> n
       | RANGE \<Rightarrow> length (pmask par) \<noteq> n \<or> memcmp (pkey par) (pmask par) > 0
       | _ \<Rightarrow> False) then Some False
     else sanity_loop kb ps is }"

definition match_params_sanity_check :: "key_builder \<Rightarrow> match_key_param list \<Rightarrow> bool option" where
  "match_params_sanity_check kb ps =
     (if length ps \<noteq> length (key_input kb) then Some False
      else sanity_loop kb ps [0..<length (inv_mapping kb)])"

section \<open>The order of the fields\<close>

lemma sort_indices_facts:
  "length (sort_indices ks) = length ks" "distinct (sort_indices ks)" "set (sort_indices ks) = {..<length ks}"
  by (auto simp: sort_indices_def)

lemma sorted_wrt_by_key:
  fixes f :: "nat \<Rightarrow> 'b::linorder"
  assumes "sorted (map f xs)" "\<And>k. sorted_wrt (<) (filter (\<lambda>x. f x = k) xs)"
  shows "sorted_wrt (\<lambda>x y. f x < f y \<or> f x = f y \<and> x < y) xs"
  using assms
proof (induction xs)
  case (Cons x xs)
  have "f x < f y \<or> f x = f y \<and> x < y" if "y \<in> set xs" for y
    using Cons.prems(1) Cons.prems(2) [of "f x"] that by (cases "f x = f y") (auto simp: order.order_iff_strict)
  moreover have "sorted_wrt (<) (filter (\<lambda>x. f x = k) xs)" for k
    using Cons.prems(2) [of k] by (simp split: if_splits)
  ultimately show ?case using Cons by auto
qed simp

lemma sort_indices_sorted: "sorted_wrt (sort_fn ks) (sort_indices ks)"
proof -
  have "sorted_wrt (<) (filter (\<lambda>i. kf_type (ks ! i) = k) (sort_indices ks))" for k
    unfolding sort_indices_def sort_key_stable by (simp add: sorted_wrt_filter)
  then have "sorted_wrt (\<lambda>x y. kf_type (ks ! x) < kf_type (ks ! y) \<or> kf_type (ks ! x) = kf_type (ks ! y) \<and> x < y) (sort_indices ks)"
    by (intro sorted_wrt_by_key) (simp_all add: sort_indices_def)
  then show ?thesis
    by (rule sorted_wrt_mono_rel [rotated]) (auto simp: sort_fn_def less_match_type_def Let_def)
qed

lemma invert_fold:
  assumes "distinct im" "length km = length im" "set im = {..<length im}" "set js \<subseteq> {..<length im}" "j < length im"
  shows "fold (\<lambda>idx km. km[im ! idx := idx]) js km ! (im ! j) = (if j \<in> set js then j else km ! (im ! j))"
  using assms(2,4)
proof (induction js arbitrary: km)
  case (Cons i js)
  have "im ! j < length im" using assms(3,5) nth_mem by blast
  moreover have "im ! i = im ! j \<longleftrightarrow> i = j" using Cons.prems(2) assms by (simp add: nth_eq_iff_index_eq)
  ultimately show ?case using Cons by (auto simp: nth_list_update)
qed simp

lemma invert_mapping_length [simp]: "length (invert_mapping im) = length im"
proof -
  have "length (fold (\<lambda>idx km. km[im ! idx := idx]) js km) = length km" for js and km :: "nat list"
    by (induction js arbitrary: km) simp_all
  then show ?thesis by (simp add: invert_mapping_def)
qed

lemma invert_mapping_nth:
  "distinct im \<Longrightarrow> set im = {..<length im} \<Longrightarrow> j < length im \<Longrightarrow> invert_mapping im ! (im ! j) = j"
  using invert_fold [of im "replicate (length im) 0" im j] by (simp add: invert_mapping_def)

definition field_nbytes :: "keyF \<Rightarrow> nat" where
  "field_nbytes f = nbits_to_nbytes (kf_nbits f)"

definition offset_of :: "keyF list \<Rightarrow> nat \<Rightarrow> nat" where
  "offset_of ks j = sum_list (map field_nbytes (take j ks))"

lemma byte_offsets_nth: "j < length ks \<Longrightarrow> byte_offsets off ks ! j = off + offset_of ks j"
  by (induction ks arbitrary: off j) (auto simp: nth_Cons offset_of_def field_nbytes_def split: nat.splits)

lemma byte_offsets_length [simp]: "length (byte_offsets off ks) = length ks"
  by (induction ks arbitrary: off) simp_all

lemma offset_of_Suc: "j < length ks \<Longrightarrow> offset_of ks (Suc j) = offset_of ks j + field_nbytes (ks ! j)"
  by (simp add: offset_of_def take_Suc_conv_app_nth)

lemma offset_of_bound: "j < length ks \<Longrightarrow> offset_of ks j + field_nbytes (ks ! j) \<le> sum_list (map field_nbytes ks)"
  using offset_of_Suc [of j ks] append_take_drop_id [of "Suc j" ks]
  by (metis add_leE le_add1 map_append offset_of_def sum_list_append)

text \<open>A builder that fields were pushed to, and one that is built.\<close>

definition kb_open :: "key_builder \<Rightarrow> bool" where
  "kb_open kb \<longleftrightarrow> \<not> built kb \<and> key_offsets kb = [] \<and> length (kb_masks kb) = length (key_input kb) \<and>
     (\<forall>i < length (key_input kb). length (kb_masks kb ! i) = field_nbytes (key_input kb ! i)) \<and>
     nbytes_key kb = sum_list (map field_nbytes (key_input kb)) \<and>
     (\<forall>f \<in> set (key_input kb). 0 < kf_nbits f \<and> (kf_type f = VALID \<longrightarrow> kf_nbits f = 8))"

definition kb_wf :: "key_builder \<Rightarrow> bool" where
  "kb_wf kb \<longleftrightarrow> built kb \<and> (let n = length (key_input kb) in
     length (key_mapping kb) = n \<and> length (inv_mapping kb) = n \<and> length (key_offsets kb) = n \<and>
     (\<forall>j < n. inv_mapping kb ! j < n \<and> key_mapping kb ! (inv_mapping kb ! j) = j) \<and>
     (\<forall>i < n. key_mapping kb ! i < n \<and> inv_mapping kb ! (key_mapping kb ! i) = i \<and>
        key_offsets kb ! i = offset_of (key_input kb) (key_mapping kb ! i))) \<and>
     nbytes_key kb = sum_list (map field_nbytes (key_input kb)) \<and> length (big_mask kb) = nbytes_key kb \<and>
     sorted (map kf_type (key_input kb)) \<and>
     (\<forall>f \<in> set (key_input kb). 0 < kf_nbits f \<and> (kf_type f = VALID \<longrightarrow> kf_nbits f = 8))"

lemma kb_open_new: "kb_open kb_new"
  by (simp add: kb_open_def kb_new_def)

lemma kb_open_push_back:
  assumes "kb_open kb" "length m = field_nbytes f" "0 < kf_nbits f" "kf_type f = VALID \<longrightarrow> kf_nbits f = 8"
  shows "kb_open (kb_push_back f m name kb)"
  using assms by (auto simp: kb_open_def kb_push_back_def nth_append field_nbytes_def less_Suc_eq)

lemma kb_open_pushes:
  assumes "kb_open kb"
  shows "0 < n \<Longrightarrow> t \<noteq> VALID \<Longrightarrow> kb_open (kb_push_back_field hdr off n t name kb)"
    and "0 < n \<Longrightarrow> t \<noteq> VALID \<Longrightarrow> kb_push_back_masked hdr off n m t name kb = Some kb' \<Longrightarrow> kb_open kb'"
    and "kb_open (kb_push_back_valid_header hdr name kb)"
proof -
  show "0 < n \<Longrightarrow> t \<noteq> VALID \<Longrightarrow> kb_open (kb_push_back_field hdr off n t name kb)"
    unfolding kb_push_back_field_def using assms by (intro kb_open_push_back) (simp_all add: field_nbytes_def)
  show "kb_open (kb_push_back_valid_header hdr name kb)"
    unfolding kb_push_back_valid_header_def using assms
    by (intro kb_open_push_back) (simp_all add: field_nbytes_def nbits_to_nbytes_def)
  assume n: "0 < n" "t \<noteq> VALID" "kb_push_back_masked hdr off n m t name kb = Some kb'"
  let ?f = "\<lparr>kf_header = hdr, kf_offset = off, kf_type = t, kf_nbits = n\<rparr>"
  have "kb_open (kb_push_back ?f m name kb)"
    using n assms by (intro kb_open_push_back) (auto simp: field_nbytes_def kb_push_back_masked_def split: if_splits)
  then show "kb_open kb'" using n(3) by (auto simp: kb_push_back_masked_def kb_open_def split: if_splits)
qed

lemma fill_big_mask_length:
  assumes "\<forall>i < length offs. i < length ms \<and> offs ! i + length (ms ! i) \<le> length m"
  shows "\<exists>m'. fill_big_mask ms offs m = Some m' \<and> length m' = length m"
proof -
  let ?F = "fold_opt (\<lambda>i m. do { src \<leftarrow> nth_opt ms i; off \<leftarrow> nth_opt offs i; copy_to src off m })"
  have "\<exists>m'. ?F is x = Some m' \<and> length m' = length m"
    if "\<forall>i \<in> set is. i < length offs" "length x = length m" for "is" x
    using that
  proof (induction "is" arbitrary: x)
    case (Cons i "is")
    let ?y = "take (offs ! i) x @ ms ! i @ drop (offs ! i + length (ms ! i)) x"
    have i: "i < length offs" "i < length ms" "offs ! i + length (ms ! i) \<le> length x" using Cons.prems assms by auto
    then have "length ?y = length m" using Cons.prems(2) by simp
    then obtain m' where "?F is ?y = Some m'" "length m' = length m" using Cons.IH [of ?y] Cons.prems(1) by auto
    then show ?case using i by (simp add: copy_to_def)
  qed simp
  then show ?thesis by (simp add: fill_big_mask_def)
qed

lemma build_wf:
  assumes "kb_open kb"
  obtains kb' where "build kb = Some kb'" "kb_wf kb'" "inv_mapping kb' = sort_indices (key_input kb)"
    "key_input kb' = map ((!) (key_input kb)) (inv_mapping kb')" "has_big_mask kb' = has_big_mask kb" "nbytes_key kb' = nbytes_key kb"
proof -
  define ks im where "ks = key_input kb" and "im = sort_indices ks"
  define ks' km where "ks' = map ((!) ks) im" and "km = invert_mapping im"
  define ko where "ko = map (\<lambda>i. byte_offsets 0 ks' ! (km ! i)) [0..<length km]"
  note o = assms [unfolded kb_open_def, folded ks_def]
  have im: "length im = length ks" "distinct im" "set im = {..<length im}"
    using sort_indices_facts [of ks] by (simp_all add: im_def)
  have len: "length ks' = length ks" "length km = length ks" "length ko = length ks"
    by (simp_all add: ks'_def km_def ko_def im(1))
  have inv1: "im ! j < length ks" "km ! (im ! j) = j" if "j < length ks" for j
    using that im nth_mem [of j im] invert_mapping_nth [of im j] by (auto simp: km_def)
  have inv2: "km ! i < length ks \<and> im ! (km ! i) = i" if i: "i < length ks" for i
  proof -
    from i im have "i \<in> set im" by simp
    then obtain j where "j < length ks" "im ! j = i" using im(1) by (auto simp: in_set_conv_nth)
    then show ?thesis using inv1 by auto
  qed
  have off: "ko ! i = offset_of ks' (km ! i)" if "i < length ks" for i
    using inv2 [OF that] that len by (simp add: ko_def byte_offsets_nth)
  have set': "set ks' = set ks"
    using im by (auto simp: ks'_def set_conv_nth [of ks] image_iff)
  have "mset ks' = mset ks"
    using im mset_map [of "(!) ks" im] mset_map [of "(!) ks" "[0..<length ks]"]
    by (simp add: ks'_def im_def sort_indices_def map_nth)
  then have total: "nbytes_key kb = sum_list (map field_nbytes ks')"
    using o by (metis mset_map sum_mset_sum_list)
  have "i < length (kb_masks kb) \<and> ko ! i + length (kb_masks kb ! i) \<le> nbytes_key kb" if i: "i < length ko" for i
  proof -
    have "ks' ! (km ! i) = ks ! i" using inv2 i len im by (simp add: ks'_def)
    then show ?thesis using o off inv2 i len offset_of_bound [of "km ! i" ks'] total by auto
  qed
  then obtain m where m: "fill_big_mask (kb_masks kb) ko (replicate (nbytes_key kb) 0) = Some m" "length m = nbytes_key kb"
    using fill_big_mask_length [of ko "kb_masks kb" "replicate (nbytes_key kb) 0"] by auto
  let ?kb' = "kb\<lparr>key_input := ks', key_mapping := km, inv_mapping := im, key_offsets := ko, big_mask := m, built := True\<rparr>"
  have "build kb = Some ?kb'"
    using m(1) o by (simp add: build_def Let_def ks_def im_def ks'_def km_def ko_def)
  moreover have "sorted (map kf_type ks')"
    by (simp add: ks'_def im_def sort_indices_def comp_def)
  then have "kb_wf ?kb'"
    using inv1 inv2 off set' total m len im o by (simp add: kb_wf_def Let_def)
  ultimately show ?thesis by (rule that) (simp_all add: ks_def im_def ks'_def)
qed

section \<open>What the loops over the fields compute\<close>

definition clear_top :: "nat \<Rightarrow> u8 list \<Rightarrow> u8 list" where
  "clear_top n bs = bs[0 := and (bs ! 0) (get_byte0_mask n)]"

definition entry_bytes :: "key_builder \<Rightarrow> match_key_param list \<Rightarrow> nat \<Rightarrow> u8 list" where
  "entry_bytes kb ps j = clear_top (kf_nbits (key_input kb ! j)) (pkey (ps ! (inv_mapping kb ! j)))"

text \<open>The field of the table key at a position of the client's order.\<close>

definition field_at_pos :: "key_builder \<Rightarrow> nat \<Rightarrow> keyF" where
  "field_at_pos kb i = key_input kb ! (key_mapping kb ! i)"

definition param_bytes :: "key_builder \<Rightarrow> match_key_param list \<Rightarrow> nat \<Rightarrow> u8 list" where
  "param_bytes kb ps i = clear_top (kf_nbits (field_at_pos kb i)) (pkey (ps ! i))"

definition param_ok :: "keyF \<Rightarrow> match_key_param \<Rightarrow> bool" where
  "param_ok f par \<longleftrightarrow> p_type par = kf_type f \<and> length (pkey par) = field_nbytes f \<and>
     (p_type par = LPM \<longrightarrow> nat (pprefix par mod 2 ^ 64) \<le> kf_nbits f) \<and>
     (p_type par = TERNARY \<longrightarrow> length (pmask par) = field_nbytes f) \<and>
     (p_type par = RANGE \<longrightarrow> length (pmask par) = field_nbytes f \<and> memcmp (pkey par) (pmask par) \<le> 0)"

lemma sanity_loop_iff:
  assumes "kb_wf kb" "length ps = length (key_input kb)" "\<forall>i \<in> set is. i < length ps"
  shows "sanity_loop kb ps is = Some (\<forall>j \<in> set is. param_ok (key_input kb ! j) (ps ! (inv_mapping kb ! j)))"
  using assms(3)
proof (induction "is")
  case (Cons i "is")
  then have "inv_mapping kb ! i < length ps" "i < length (inv_mapping kb)" "i < length (key_input kb)"
    using assms by (auto simp: kb_wf_def Let_def)
  then show ?case using Cons
    by (auto simp: param_ok_def Let_def field_nbytes_def not_less not_le split: match_type.splits)
qed simp

lemma sanity_check_iff:
  assumes "kb_wf kb"
  shows "match_params_sanity_check kb ps = Some (length ps = length (key_input kb) \<and>
    (\<forall>i < length ps. param_ok (field_at_pos kb i) (ps ! i)))"
proof (cases "length ps = length (key_input kb)")
  case True
  have *: "(\<forall>j < length ps. param_ok (key_input kb ! j) (ps ! (inv_mapping kb ! j))) \<longleftrightarrow>
      (\<forall>i < length ps. param_ok (field_at_pos kb i) (ps ! i))"
    using assms True unfolding kb_wf_def Let_def field_at_pos_def by metis
  show ?thesis
    using sanity_loop_iff [OF assms True, of "[0..<length ps]"] assms True *
    by (simp add: match_params_sanity_check_def kb_wf_def Let_def Ball_def)
qed (simp add: match_params_sanity_check_def)

lemma lpm_param_prefix:
  assumes "param_ok f par" "p_type par = LPM" "- (2 ^ 63) \<le> pprefix par" "pprefix par < 2 ^ 63" "kf_nbits f < 2 ^ 32"
  shows "0 \<le> pprefix par \<and> pprefix par \<le> int (kf_nbits f)"
proof -
  have "pprefix par mod 2 ^ 64 < 2 ^ 32" using assms by (auto simp: param_ok_def)
  moreover have "pprefix par mod 2 ^ 64 = pprefix par + 2 ^ 64" if "pprefix par < 0"
    using that assms(3) by (subst mod_add_self2 [symmetric], subst mod_pos_pos_trivial) auto
  ultimately have "0 \<le> pprefix par" using assms(3) by (cases "pprefix par < 0") auto
  then show ?thesis using assms(1,2,4) by (auto simp: param_ok_def)
qed

lemma clear_top_length [simp]: "length (clear_top n bs) = length bs"
  by (simp add: clear_top_def)

lemma field_nbytes_pos: "0 < kf_nbits f \<Longrightarrow> 0 < field_nbytes f"
  by (simp add: field_nbytes_def nbits_to_nbytes_def)

text \<open>The setting of the client-side lemmas: a built key and parameters that pass the check.\<close>

definition sane :: "key_builder \<Rightarrow> match_key_param list \<Rightarrow> bool" where
  "sane kb ps \<longleftrightarrow> kb_wf kb \<and> match_params_sanity_check kb ps = Some True"

lemma saneD:
  assumes "sane kb ps"
  shows "kb_wf kb" "length ps = length (key_input kb)"
    "length (key_mapping kb) = length ps" "length (inv_mapping kb) = length ps" "length (key_offsets kb) = length ps"
    "i < length ps \<Longrightarrow> param_ok (field_at_pos kb i) (ps ! i)"
    "i < length ps \<Longrightarrow> key_mapping kb ! i < length ps \<and> inv_mapping kb ! (key_mapping kb ! i) = i"
    "i < length ps \<Longrightarrow> key_offsets kb ! i = offset_of (key_input kb) (key_mapping kb ! i)"
    "j < length ps \<Longrightarrow> inv_mapping kb ! j < length ps \<and> key_mapping kb ! (inv_mapping kb ! j) = j"
    "j < length ps \<Longrightarrow> 0 < kf_nbits (key_input kb ! j) \<and> (kf_type (key_input kb ! j) = VALID \<longrightarrow> kf_nbits (key_input kb ! j) = 8)"
proof -
  have wf: "kb_wf kb" and s: "match_params_sanity_check kb ps = Some True" using assms by (simp_all add: sane_def)
  note c = sanity_check_iff [OF wf, of ps]
  show "kb_wf kb" "length ps = length (key_input kb)"
    "i < length ps \<Longrightarrow> param_ok (field_at_pos kb i) (ps ! i)" using wf c s by simp_all
  then show "length (key_mapping kb) = length ps" "length (inv_mapping kb) = length ps" "length (key_offsets kb) = length ps"
    "i < length ps \<Longrightarrow> key_mapping kb ! i < length ps \<and> inv_mapping kb ! (key_mapping kb ! i) = i"
    "i < length ps \<Longrightarrow> key_offsets kb ! i = offset_of (key_input kb) (key_mapping kb ! i)"
    "j < length ps \<Longrightarrow> inv_mapping kb ! j < length ps \<and> key_mapping kb ! (inv_mapping kb ! j) = j"
    "j < length ps \<Longrightarrow> 0 < kf_nbits (key_input kb ! j) \<and> (kf_type (key_input kb ! j) = VALID \<longrightarrow> kf_nbits (key_input kb ! j) = 8)"
    by (simp_all add: kb_wf_def Let_def)
qed

lemma sane_at:
  assumes "sane kb ps" "j < length ps"
  shows "param_ok (key_input kb ! j) (ps ! (inv_mapping kb ! j))" "length (entry_bytes kb ps j) = field_nbytes (key_input kb ! j)"
    "0 < field_nbytes (key_input kb ! j)"
proof -
  show "param_ok (key_input kb ! j) (ps ! (inv_mapping kb ! j))"
    using saneD(6) [OF assms(1), of "inv_mapping kb ! j"] saneD(9) [OF assms] by (simp add: field_at_pos_def)
  then show "length (entry_bytes kb ps j) = field_nbytes (key_input kb ! j)" by (simp add: entry_bytes_def param_ok_def)
  show "0 < field_nbytes (key_input kb ! j)" using saneD(10) [OF assms] by (simp add: field_nbytes_pos)
qed

definition entry_data :: "key_builder \<Rightarrow> match_key_param list \<Rightarrow> nat \<Rightarrow> u8 list" where
  "entry_data kb ps m = concat (map (entry_bytes kb ps) [0..<m])"

lemma entry_data_length:
  assumes "sane kb ps"
  shows "m \<le> length ps \<Longrightarrow> length (entry_data kb ps m) = offset_of (key_input kb) m"
proof (induction m)
  case (Suc m)
  then show ?case
    using sane_at(2) [OF assms, of m] saneD(2) [OF assms] by (simp add: entry_data_def offset_of_Suc)
qed (simp add: entry_data_def offset_of_def)

lemma append_param_at:
  assumes "sane kb ps" "m < length ps"
  shows "append_param kb ps m (entry_data kb ps m, offset_of (key_input kb) m) =
    Some (ps ! (inv_mapping kb ! m), entry_data kb ps (Suc m), offset_of (key_input kb) (Suc m))"
proof -
  let ?par = "ps ! (inv_mapping kb ! m)"
  have len: "length (entry_data kb ps m) = offset_of (key_input kb) m"
    using entry_data_length [OF assms(1)] assms(2) by simp
  have par: "length (pkey ?par) = field_nbytes (key_input kb ! m)" "0 < field_nbytes (key_input kb ! m)"
    using sane_at [OF assms] by (simp_all add: param_ok_def)
  have "m < length (key_input kb)" using saneD(2) [OF assms(1)] assms(2) by simp
  moreover have "(entry_data kb ps m @ pkey ?par)[offset_of (key_input kb) m :=
      and ((entry_data kb ps m @ pkey ?par) ! offset_of (key_input kb) m) (get_byte0_mask (kf_nbits (key_input kb ! m)))] =
      entry_data kb ps (Suc m)"
    using par len by (simp add: entry_data_def entry_bytes_def clear_top_def list_update_append nth_append)
  ultimately show ?thesis
    using par len saneD(4) [OF assms(1)] saneD(9) [OF assms] assms(2)
    by (simp add: append_param_def offset_of_Suc)
qed

lemma exact_loop:
  assumes "sane kb ps"
  shows "m \<le> length ps \<Longrightarrow> fold_opt (\<lambda>i st. do { (par, st') \<leftarrow> append_param kb ps i st; Some st' }) [0..<m] ([], 0) =
    Some (entry_data kb ps m, offset_of (key_input kb) m)"
proof (induction m)
  case (Suc m)
  then show ?case using append_param_at [OF assms, of m] by (simp add: fold_opt_append)
qed (simp add: entry_data_def offset_of_def)

lemma params_to_exact_sane:
  "sane kb ps \<Longrightarrow> params_to_exact kb ps = Some \<lparr>kdata = entry_data kb ps (length ps), kversion = 0\<rparr>"
  using exact_loop [of kb ps "length ps"] saneD(4) [of kb ps] by (simp add: params_to_exact_def)

lemma lpm_loop:
  assumes "sane kb ps" "\<forall>i < length ps. prefix_step (ps ! i) = Some (w i)"
  shows "m \<le> length ps \<Longrightarrow> fold_opt (\<lambda>i (st, pl). do {
       (par, st') \<leftarrow> append_param kb ps i st; n \<leftarrow> prefix_step par; Some (st', pl + n) }) [0..<m] (([], 0), 0) =
    Some ((entry_data kb ps m, offset_of (key_input kb) m), \<Sum>j<m. w (inv_mapping kb ! j))"
proof (induction m)
  case (Suc m)
  then show ?case using append_param_at [OF assms(1), of m] saneD(9) [OF assms(1), of m] assms(2)
    by (simp add: fold_opt_append)
qed (simp add: entry_data_def offset_of_def)

lemma mask_loop:
  assumes "sane kb ps" "\<forall>i < length ps. mask_step (ps ! i) = Some (w i)"
  shows "m \<le> length ps \<Longrightarrow> fold_opt (\<lambda>i (st, m). do {
       (par, st') \<leftarrow> append_param kb ps i st; m' \<leftarrow> mask_step par; Some (st', m @ m') }) [0..<m] (([], 0), []) =
    Some ((entry_data kb ps m, offset_of (key_input kb) m), concat (map (\<lambda>j. w (inv_mapping kb ! j)) [0..<m]))"
proof (induction m)
  case (Suc m)
  then show ?case using append_param_at [OF assms(1), of m] saneD(9) [OF assms(1), of m] assms(2)
    by (simp add: fold_opt_append)
qed (simp add: entry_data_def offset_of_def)

text \<open>The bytes of the fields, one after the other, are found at the offsets of the fields.\<close>

lemma slice_concat:
  assumes "\<forall>j < length ks. length (b j) = field_nbytes (ks ! j)" "j < length ks" "m = length ks"
  shows "sub_bytes (concat (map b [0..<m])) (offset_of ks j) (field_nbytes (ks ! j)) = Some (b j)"
proof -
  have off: "length (concat (map b [0..<i])) = offset_of ks i" if "i \<le> length ks" for i
    using that
  proof (induction i)
    case (Suc i)
    then show ?case using assms(1) by (simp add: offset_of_Suc)
  qed (simp add: offset_of_def)
  have "[0..<m] = [0..<j] @ j # [Suc j..<m]"
    using assms(2,3) by (metis le_add_same_cancel1 less_imp_le upt_add_eq_append upt_conv_Cons zero_le le_add_diff_inverse)
  then have "concat (map b [0..<m]) = concat (map b [0..<j]) @ b j @ concat (map b [Suc j..<m])" by simp
  then show ?thesis using off [of j] assms(1,2) by (simp add: sub_bytes_def)
qed

lemma slot_bytes_at:
  assumes "kb_wf kb" "i < length (key_input kb)" "\<forall>j < length (key_input kb). length (b j) = field_nbytes (key_input kb ! j)"
  shows "slot_bytes kb (concat (map b [0..<length (key_input kb)])) i =
    Some (field_at_pos kb i, offset_of (key_input kb) (key_mapping kb ! i), b (key_mapping kb ! i))"
    and "field_slot kb i = Some (field_at_pos kb i, offset_of (key_input kb) (key_mapping kb ! i))"
proof -
  show *: "field_slot kb i = Some (field_at_pos kb i, offset_of (key_input kb) (key_mapping kb ! i))"
    using assms(1,2) by (simp add: field_slot_def kb_wf_def Let_def field_at_pos_def)
  have "key_mapping kb ! i < length (key_input kb)" using assms(1,2) by (simp add: kb_wf_def Let_def)
  from slice_concat [OF assms(3) this refl]
  show "slot_bytes kb (concat (map b [0..<length (key_input kb)])) i =
    Some (field_at_pos kb i, offset_of (key_input kb) (key_mapping kb ! i), b (key_mapping kb ! i))"
    using * by (simp add: slot_bytes_def field_at_pos_def field_nbytes_def)
qed

lemma entry_slot:
  assumes "sane kb ps" "i < length ps"
  shows "slot_bytes kb (entry_data kb ps (length ps)) i =
    Some (field_at_pos kb i, offset_of (key_input kb) (key_mapping kb ! i), param_bytes kb ps i)"
  using slot_bytes_at(1) [of kb i "entry_bytes kb ps"] sane_at(2) [OF assms(1)] saneD(1,2,7) [OF assms(1)] assms(2)
  by (simp add: entry_data_def entry_bytes_def param_bytes_def field_at_pos_def)

lemma map_opt_nth: "(\<And>i. i < n \<Longrightarrow> f i = Some (g i)) \<Longrightarrow> map_opt f [0..<n] = Some (map g [0..<n])"
  by (simp add: map_opt_Some_iff list_all2_conv_all_nth)

section \<open>Parameters come back from entries\<close>

lemma exact_params_back:
  assumes "sane kb ps" "\<forall>i < length ps. p_type (ps ! i) \<in> {VALID, EXACT}"
  shows "exact_to_params kb \<lparr>kdata = entry_data kb ps (length ps), kversion = v\<rparr> =
    Some (map (\<lambda>i. key_param (p_type (ps ! i)) (param_bytes kb ps i)) [0..<length ps])"
  unfolding exact_to_params_def saneD(3) [OF assms(1)]
  using assms(2) saneD(6) [OF assms(1)] entry_slot [OF assms(1)]
  by (intro map_opt_nth) (auto simp: param_ok_def)

subsection \<open>Prefix lengths and masks\<close>

lemma count_bits_prefix: "0 < r \<Longrightarrow> r < 8 \<Longrightarrow> push_bit (8 - r) (0xff :: u8) \<noteq> 0xff \<and> count_bits (push_bit (8 - r) 0xff) = r"
proof -
  assume "0 < r" "r < 8"
  then have "r \<in> {1, 2, 3, 4, 5, 6, 7}" by auto
  then show ?thesis by (elim insertE emptyE) (simp_all add: count_bits_def)
qed

lemma pref_len_append: "pref_len_from_mask (a @ b) = pref_len_from_mask a + pref_len_from_mask b"
proof -
  let ?f = "\<lambda>pref b. if b = 0xff then pref + 8 else pref + count_bits b"
  have "foldl ?f n b = n + foldl ?f 0 b" for n
  proof (induction b rule: rev_induct)
    case (snoc x xs)
    then show ?case by simp
  qed simp
  then show ?thesis unfolding pref_len_from_mask_def foldl_append by metis
qed

lemma pref_len_simps:
  "pref_len_from_mask (replicate n 0xff) = 8 * n" "pref_len_from_mask (replicate n 0) = 0"
  "pref_len_from_mask [b] = (if b = 0xff then 8 else count_bits b)"
proof -
  have 0: "pref_len_from_mask (x # xs) = (if x = 0xff then 8 else count_bits x) + pref_len_from_mask xs" for x xs
    using pref_len_append [of "[x]" xs] by (simp add: pref_len_from_mask_def)
  show "pref_len_from_mask (replicate n 0xff) = 8 * n"
    by (induction n) (simp_all add: 0, simp add: pref_len_from_mask_def)
  show "pref_len_from_mask (replicate n 0) = 0"
    by (induction n) (simp_all add: 0 count_bits_def, simp add: pref_len_from_mask_def)
qed (simp add: pref_len_from_mask_def)

lemma prefix_mask_exists:
  assumes "0 \<le> pl" "pl \<le> 8 * int n"
  obtains m where "create_mask_from_pref_len pl n = Some m" "length m = n" "pref_len_from_mask m = nat pl"
proof -
  define q r where "q = nat pl div 8" and "r = nat pl mod 8"
  have e: "8 * q + r = nat pl" "r < 8" "nat pl \<le> 8 * n" using assms by (simp_all add: q_def r_def)
  have qr: "8 * q + r = nat pl" "r < 8" "q \<le> n" "r \<noteq> 0 \<Longrightarrow> q < n" using e by linarith+
  have c: "create_mask_from_pref_len pl n = Some (if r \<noteq> 0 then (replicate q 0xff @ replicate (n - q) 0)[q := push_bit (8 - r) 0xff]
      else replicate q 0xff @ replicate (n - q) 0)"
    using assms by (simp add: create_mask_from_pref_len_def Let_def q_def r_def)
  show ?thesis
  proof (cases "r = 0")
    case True
    then show ?thesis using c qr by (intro that) (auto simp: pref_len_append pref_len_simps)
  next
    case False
    then obtain d where "n - q = Suc d" using qr by (cases "n - q") auto
    then have "(replicate q 0xff @ replicate (n - q) 0)[q := push_bit (8 - r) 0xff] =
        (replicate q (0xff :: u8) @ [push_bit (8 - r) 0xff]) @ replicate d 0"
      by (simp add: list_update_append)
    moreover have "pref_len_from_mask ((replicate q 0xff @ [push_bit (8 - r) 0xff]) @ replicate d 0) = nat pl"
      unfolding pref_len_append using count_bits_prefix [of r] False qr(1,2) by (simp add: pref_len_simps)
    ultimately show ?thesis using c False qr \<open>n - q = Suc d\<close> by (intro that) auto
  qed
qed

text \<open>A prefix length survives its conversion to a mask and back.\<close>

theorem prefix_mask_roundtrip:
  assumes "0 \<le> pl" "pl \<le> 8 * int n"
  shows "map_option pref_len_from_mask (create_mask_from_pref_len pl n) = Some (nat pl)"
  using assms by (rule prefix_mask_exists) simp

theorem prefix_mask_roundtrip_witness:
  "map_option pref_len_from_mask (create_mask_from_pref_len 20 4) = Some (nat 20)"
  by (rule prefix_mask_roundtrip) simp_all

subsection \<open>Ternary keys\<close>

text \<open>The prefix lengths fit the \<^verbatim>\<open>int\<close> of the code and the fields have widths that fit it too.\<close>

definition int_prefixes :: "key_builder \<Rightarrow> match_key_param list \<Rightarrow> bool" where
  "int_prefixes kb ps \<longleftrightarrow> (\<forall>par \<in> set ps. - (2 ^ 31) \<le> pprefix par \<and> pprefix par < 2 ^ 31) \<and>
     (\<forall>f \<in> set (key_input kb). kf_nbits f < 2 ^ 31)"

lemma lpm_param_range:
  assumes "sane kb ps" "int_prefixes kb ps" "i < length ps" "p_type (ps ! i) = LPM"
  shows "0 \<le> pprefix (ps ! i) \<and> pprefix (ps ! i) \<le> int (kf_nbits (field_at_pos kb i))"
    "pprefix (ps ! i) \<le> 8 * int (length (pkey (ps ! i)))"
proof -
  have "ps ! i \<in> set ps" "field_at_pos kb i \<in> set (key_input kb)"
    using assms saneD(2,7) [OF assms(1)] by (auto simp: field_at_pos_def)
  then have b: "- (2 ^ 31) \<le> pprefix (ps ! i)" "pprefix (ps ! i) < 2 ^ 31" "kf_nbits (field_at_pos kb i) < 2 ^ 31"
    using assms(2) by (auto simp: int_prefixes_def)
  have ok: "param_ok (field_at_pos kb i) (ps ! i)" using saneD(6) [OF assms(1,3)] .
  show r: "0 \<le> pprefix (ps ! i) \<and> pprefix (ps ! i) \<le> int (kf_nbits (field_at_pos kb i))"
    by (rule lpm_param_prefix [OF ok assms(4)]) (use b in simp_all)
  have "kf_nbits (field_at_pos kb i) \<le> 8 * field_nbytes (field_at_pos kb i)"
    by (simp add: field_nbytes_def nbits_to_nbytes_def)
  then show "pprefix (ps ! i) \<le> 8 * int (length (pkey (ps ! i)))" using r ok by (auto simp: param_ok_def)
qed

lemma mask_step_sane:
  assumes "sane kb ps" "int_prefixes kb ps" "i < length ps"
  obtains m where "mask_step (ps ! i) = Some m" "length m = field_nbytes (field_at_pos kb i)"
    "p_type (ps ! i) = LPM \<Longrightarrow> pref_len_from_mask m = nat (pprefix (ps ! i))"
proof -
  have ok: "param_ok (field_at_pos kb i) (ps ! i)" using saneD(6) [OF assms(1,3)] .
  show ?thesis
  proof (cases "p_type (ps ! i)")
    case VALID
    then have "field_nbytes (field_at_pos kb i) = 1"
      using ok saneD(7,10) [OF assms(1)] assms(3) by (auto simp: param_ok_def field_at_pos_def field_nbytes_def nbits_to_nbytes_def)
    then show ?thesis using VALID that by (simp add: mask_step_def)
  next
    case LPM
    obtain m where "create_mask_from_pref_len (pprefix (ps ! i)) (length (pkey (ps ! i))) = Some m"
        "length m = length (pkey (ps ! i))" "pref_len_from_mask m = nat (pprefix (ps ! i))"
      using lpm_param_range [OF assms LPM] by (auto elim: prefix_mask_exists)
    then show ?thesis using LPM ok by (intro that) (simp_all add: mask_step_def param_ok_def)
  qed (use ok that in \<open>auto simp: mask_step_def param_ok_def\<close>)
qed

lemma map2_concat:
  assumes "\<forall>j \<in> set is. length (a j) = length (b j)"
  shows "map2 f (concat (map a is)) (concat (map b is)) = concat (map (\<lambda>j. map2 f (a j) (b j)) is)"
  using assms by (induction "is") auto

text \<open>
  What the client gets back for a parameter: the bits its field does not have are cleared, and so are those
  its mask leaves out.
\<close>

definition ternary_canon :: "keyF \<Rightarrow> match_key_param \<Rightarrow> match_key_param" where
  "ternary_canon f par = (let bs = clear_top (kf_nbits f) (pkey par) in
     case p_type par of
       VALID \<Rightarrow> key_param VALID bs
     | EXACT \<Rightarrow> key_param EXACT bs
     | LPM \<Rightarrow> prefix_param LPM (map2 and bs (the (create_mask_from_pref_len (pprefix par) (length bs)))) (pprefix par)
     | t \<Rightarrow> mask_param t (map2 and bs (pmask par)) (pmask par))"

lemma and_ones: "map2 and xs (replicate (length xs) (0xff :: u8)) = xs"
proof (induction xs)
  case (Cons x xs)
  have "(0xff :: u8) = - 1" by simp
  then have "and x (0xff :: u8) = x" by (metis and.right_neutral)
  then show ?case using Cons by simp
qed simp

definition step_mask :: "match_key_param list \<Rightarrow> nat \<Rightarrow> u8 list" where
  "step_mask ps i = the (mask_step (ps ! i))"

lemma step_mask:
  assumes "sane kb ps" "int_prefixes kb ps" "i < length ps"
  shows "mask_step (ps ! i) = Some (step_mask ps i)" "length (step_mask ps i) = field_nbytes (field_at_pos kb i)"
    "p_type (ps ! i) = LPM \<Longrightarrow> pref_len_from_mask (step_mask ps i) = nat (pprefix (ps ! i))"
proof -
  obtain m where "mask_step (ps ! i) = Some m" "length m = field_nbytes (field_at_pos kb i)"
      "p_type (ps ! i) = LPM \<Longrightarrow> pref_len_from_mask m = nat (pprefix (ps ! i))"
    by (rule mask_step_sane [OF assms]) blast
  then show "mask_step (ps ! i) = Some (step_mask ps i)" "length (step_mask ps i) = field_nbytes (field_at_pos kb i)"
    "p_type (ps ! i) = LPM \<Longrightarrow> pref_len_from_mask (step_mask ps i) = nat (pprefix (ps ! i))" by (simp_all add: step_mask_def)
qed

definition entry_mask :: "key_builder \<Rightarrow> match_key_param list \<Rightarrow> u8 list" where
  "entry_mask kb ps = concat (map (\<lambda>j. step_mask ps (inv_mapping kb ! j)) [0..<length ps])"

lemma data_mask_sane:
  assumes "sane kb ps" "int_prefixes kb ps"
  shows "params_to_data_mask kb ps = Some (entry_data kb ps (length ps), entry_mask kb ps)"
    and "j < length ps \<Longrightarrow> length (step_mask ps (inv_mapping kb ! j)) = field_nbytes (key_input kb ! j)"
    and "length (entry_data kb ps (length ps)) = nbytes_key kb" "length (entry_mask kb ps) = nbytes_key kb"
proof -
  note s = saneD [OF assms(1)]
  show wj: "length (step_mask ps (inv_mapping kb ! j)) = field_nbytes (key_input kb ! j)" if "j < length ps" for j
    using step_mask(2) [OF assms, of "inv_mapping kb ! j"] s(9) [OF that] by (simp add: field_at_pos_def)
  show "params_to_data_mask kb ps = Some (entry_data kb ps (length ps), entry_mask kb ps)"
    using mask_loop [OF assms(1), of "step_mask ps" "length ps"] step_mask(1) [OF assms] s(4)
    by (simp add: params_to_data_mask_def entry_mask_def)
  show nb: "length (entry_data kb ps (length ps)) = nbytes_key kb"
    using entry_data_length [OF assms(1), of "length ps"] s(1,2) by (simp add: kb_wf_def offset_of_def)
  have "map (length \<circ> entry_bytes kb ps) [0..<length ps] = map (length \<circ> (\<lambda>j. step_mask ps (inv_mapping kb ! j))) [0..<length ps]"
    using wj sane_at(2) [OF assms(1)] by simp
  then have "length (entry_mask kb ps) = length (entry_data kb ps (length ps))"
    by (simp only: entry_data_def entry_mask_def length_concat map_map)
  with nb show "length (entry_mask kb ps) = nbytes_key kb" by simp
qed

lemma ternary_params_back:
  assumes "sane kb ps" "int_prefixes kb ps"
  obtains k where "params_to_ternary kb ps = Some k" "length (kdata k) = nbytes_key kb" "length (kmask k) = nbytes_key kb"
    "ternary_to_params kb k = Some (map (\<lambda>i. ternary_canon (field_at_pos kb i) (ps ! i)) [0..<length ps])"
proof -
  let ?w = "step_mask ps"
  note w = step_mask [OF assms]
  define n where "n = length ps"
  note s = saneD [OF assms(1)]
  have n: "length (key_input kb) = n" "length (key_mapping kb) = n" "length (inv_mapping kb) = n"
    using s(2,3,4) by (simp_all add: n_def)
  let ?d = "entry_data kb ps n" and ?m = "concat (map (\<lambda>j. ?w (inv_mapping kb ! j)) [0..<n])"
  have wj: "length (?w (inv_mapping kb ! j)) = field_nbytes (key_input kb ! j)" if "j < n" for j
    using data_mask_sane(2) [OF assms] that by (simp add: n_def)
  have ej: "length (entry_bytes kb ps j) = field_nbytes (key_input kb ! j)" if "j < n" for j
    using sane_at(2) [OF assms(1)] that by (simp add: n_def)
  have "params_to_data_mask kb ps = Some (?d, ?m)"
    using data_mask_sane(1) [OF assms] by (simp add: entry_mask_def n_def)
  moreover have len: "length ?d = length ?m"
    using data_mask_sane(3,4) [OF assms] by (simp add: entry_mask_def n_def)
  moreover have fmt: "format_ternary_key ?d ?m =
      concat (map (\<lambda>j. map2 and (entry_bytes kb ps j) (?w (inv_mapping kb ! j))) [0..<n])"
    unfolding format_ternary_key_def entry_data_def using wj ej by (intro map2_concat) simp
  ultimately have k: "params_to_ternary kb ps =
      Some \<lparr>kdata = format_ternary_key ?d ?m, kversion = 0, kmask = ?m, kpriority = int_max\<rparr>" (is "_ = Some ?k")
    by (simp add: params_to_ternary_def)
  have nb: "nbytes_key kb = length ?d"
    using entry_data_length [OF assms(1), of n] s(1,2) by (simp add: n_def kb_wf_def offset_of_def)
  have "ternary_to_params kb ?k = Some (map (\<lambda>i. ternary_canon (field_at_pos kb i) (ps ! i)) [0..<length ps])"
    unfolding ternary_to_params_def n(2) n_def [symmetric]
  proof (intro map_opt_nth)
    fix i assume i: "i < n"
    let ?f = "field_at_pos kb i" and ?bs = "param_bytes kb ps i"
    have ok: "param_ok ?f (ps ! i)" "key_mapping kb ! i < n" "inv_mapping kb ! (key_mapping kb ! i) = i"
      using s(6,7) [of i] i by (simp_all add: n_def)
    have slot: "slot_bytes kb (kdata ?k) i = Some (?f, offset_of (key_input kb) (key_mapping kb ! i), map2 and ?bs (?w i))"
      using slot_bytes_at(1) [OF s(1), of i "\<lambda>j. map2 and (entry_bytes kb ps j) (?w (inv_mapping kb ! j))"] i n wj ej ok(2,3)
      by (simp add: fmt entry_bytes_def param_bytes_def field_at_pos_def)
    have mb: "sub_bytes ?m (offset_of (key_input kb) (key_mapping kb ! i)) (nbits_to_nbytes (kf_nbits ?f)) = Some (?w i)"
    proof -
      have "\<forall>j < length (key_input kb). length (?w (inv_mapping kb ! j)) = field_nbytes (key_input kb ! j)" using wj n(1) by simp
      moreover have "key_mapping kb ! i < length (key_input kb)" using ok(2) n(1) by (simp only:)
      ultimately have "sub_bytes ?m (offset_of (key_input kb) (key_mapping kb ! i)) (field_nbytes (key_input kb ! (key_mapping kb ! i))) =
          Some (?w (inv_mapping kb ! (key_mapping kb ! i)))"
        by (rule slice_concat) (simp only: n(1))
      then show ?thesis by (simp only: ok(3) field_at_pos_def field_nbytes_def)
    qed
    have len: "length ?bs = length (pkey (ps ! i))" by (simp add: param_bytes_def)
    have ones: "map2 and ?bs (?w i) = ?bs" if t: "p_type (ps ! i) = VALID \<or> p_type (ps ! i) = EXACT"
    proof -
      have "?w i = replicate (length ?bs) 0xff"
      proof (cases "p_type (ps ! i) = VALID")
        case True
        then have "?w i = [0xff]" using w(1) [of i] i by (simp add: mask_step_def n_def)
        moreover have "length ?bs = length (?w i)" using ok(1) w(2) [of i] i len by (simp add: param_ok_def n_def)
        ultimately show ?thesis by simp
      next
        case False
        then show ?thesis using t w(1) [of i] i len by (simp add: mask_step_def n_def)
      qed
      then show ?thesis by (simp only: and_ones)
    qed
    have ty: "kf_type ?f = p_type (ps ! i)" using ok(1) by (simp add: param_ok_def)
    have canon: "ternary_canon ?f (ps ! i) = (if p_type (ps ! i) = VALID \<or> p_type (ps ! i) = EXACT then key_param (p_type (ps ! i)) ?bs
        else if p_type (ps ! i) = LPM then prefix_param LPM (map2 and ?bs (?w i)) (pprefix (ps ! i))
        else mask_param (p_type (ps ! i)) (map2 and ?bs (?w i)) (?w i))"
      using w(1) [of i] i len
      by (cases "p_type (ps ! i)") (simp_all add: ternary_canon_def mask_step_def param_bytes_def n_def)
    show "(do { (f, off, bs) \<leftarrow> slot_bytes kb (kdata ?k) i; let n = nbits_to_nbytes (kf_nbits f);
        if kf_type f = VALID \<or> kf_type f = EXACT then Some (key_param (kf_type f) bs)
        else do { m \<leftarrow> sub_bytes (kmask ?k) off n;
          Some (if kf_type f = LPM then prefix_param LPM bs (int (pref_len_from_mask m)) else mask_param (kf_type f) bs m) } })
      = Some (ternary_canon ?f (ps ! i))"
      using w(3) [of i] i mb ones lpm_param_range(1) [OF assms, of i]
      unfolding slot canon by (simp add: ty n_def Let_def)
  qed
  with k show ?thesis using nb len by (intro that) (simp_all add: format_ternary_key_def)
qed

subsection \<open>Prefix keys\<close>

definition lpm_weight :: "match_key_param \<Rightarrow> int" where
  "lpm_weight par = (if p_type par = LPM then pprefix par else 8 * int (length (pkey par)))"

lemma sum_permuted:
  fixes f :: "nat \<Rightarrow> int"
  assumes "\<forall>j < n. im ! j < n \<and> km ! (im ! j) = j" "\<forall>i < n. km ! i < n \<and> im ! (km ! i) = i"
  shows "(\<Sum>j<n. f (im ! j)) = (\<Sum>i<n. f i)"
  by (rule sum.reindex_bij_witness [of _ "(!) km" "(!) im"]) (use assms in auto)

lemma lpm_back_loop:
  assumes "sane kb ps" "i0 < length ps" "\<forall>i < length ps. p_type (ps ! i) = LPM \<longleftrightarrow> i = i0"
    "\<forall>i < length ps. p_type (ps ! i) \<noteq> TERNARY" "kdata k = entry_data kb ps (length ps)"
  shows "m \<le> length ps \<Longrightarrow> fold_opt (\<lambda>i (ps, idx, pref). do {
         (f, off, bs) \<leftarrow> slot_bytes kb (kdata k) i;
         guard (kf_type f \<noteq> TERNARY);
         let ps' = ps @ [key_param (kf_type f) bs];
         Some (if kf_type f = LPM then (ps', i, pref) else (ps', idx, pref - 8 * int (length bs))) })
       [0..<m] ([], 0, pl) =
    Some (map (\<lambda>i. key_param (p_type (ps ! i)) (param_bytes kb ps i)) [0..<m], if i0 < m then i0 else 0,
      pl - (\<Sum>i<m. if i = i0 then 0 else 8 * int (length (pkey (ps ! i)))))"
proof (induction m)
  case (Suc m)
  then have m: "m < length ps" by simp
  have "kf_type (field_at_pos kb m) = p_type (ps ! m)" using saneD(6) [OF assms(1) m] by (simp add: param_ok_def)
  moreover have "length (param_bytes kb ps m) = length (pkey (ps ! m))" by (simp add: param_bytes_def)
  ultimately show ?case
    using Suc entry_slot [OF assms(1) m] assms(3,4,5) m by (auto simp: fold_opt_append)
qed simp

lemma prefix_step_sane:
  assumes "sane kb ps" "i < length ps" "p_type (ps ! i) \<in> {VALID, EXACT, LPM}"
  shows "prefix_step (ps ! i) = Some (lpm_weight (ps ! i))"
proof (cases "p_type (ps ! i) = VALID")
  case True
  note s = saneD [OF assms(1)]
  have "kf_nbits (field_at_pos kb i) = 8" "length (pkey (ps ! i)) = field_nbytes (field_at_pos kb i)"
    using True s(6,7,10) assms(2) by (auto simp: param_ok_def field_at_pos_def)
  then show ?thesis using True by (simp add: prefix_step_def lpm_weight_def field_nbytes_def nbits_to_nbytes_def)
next
  case False
  then show ?thesis using assms(3) by (auto simp: prefix_step_def lpm_weight_def)
qed

lemma params_total_length:
  assumes "sane kb ps"
  shows "(\<Sum>i<length ps. int (length (pkey (ps ! i)))) = int (nbytes_key kb)"
proof -
  note s = saneD [OF assms]
  have "(\<Sum>i<length ps. int (length (pkey (ps ! i)))) = (\<Sum>j<length ps. int (length (pkey (ps ! (inv_mapping kb ! j)))))"
    using s(7,9) by (intro sum_permuted [symmetric, where km = "key_mapping kb"]) auto
  also have "\<dots> = (\<Sum>j<length ps. int (field_nbytes (key_input kb ! j)))"
    using sane_at(1) [OF assms] by (intro sum.cong) (auto simp: param_ok_def)
  also have "\<dots> = int (sum_list (map field_nbytes (key_input kb)))"
    using s(2) by (simp add: sum_list_sum_nth atLeast0LessThan)
  finally show ?thesis using s(1) by (simp add: kb_wf_def)
qed

lemma params_to_lpm_sane:
  assumes "sane kb ps" "int_prefixes kb ps" "\<forall>i < length ps. p_type (ps ! i) \<in> {VALID, EXACT, LPM}"
  shows "params_to_lpm kb ps = Some \<lparr>kdata = entry_data kb ps (length ps), kversion = 0,
      prefix_length = nat (\<Sum>i<length ps. lpm_weight (ps ! i))\<rparr>"
    and "0 \<le> (\<Sum>i<length ps. lpm_weight (ps ! i))" "(\<Sum>i<length ps. lpm_weight (ps ! i)) \<le> 8 * int (nbytes_key kb)"
proof -
  note s = saneD [OF assms(1)]
  let ?n = "length ps"
  have w: "0 \<le> lpm_weight (ps ! i) \<and> lpm_weight (ps ! i) \<le> 8 * int (length (pkey (ps ! i)))" if "i < ?n" for i
    using lpm_param_range [OF assms(1,2) that] by (auto simp: lpm_weight_def)
  show nonneg: "0 \<le> (\<Sum>i<?n. lpm_weight (ps ! i))" using w by (intro sum_nonneg) simp
  have "(\<Sum>i<?n. lpm_weight (ps ! i)) \<le> (\<Sum>i<?n. 8 * int (length (pkey (ps ! i))))" using w by (intro sum_mono) simp
  then show "(\<Sum>i<?n. lpm_weight (ps ! i)) \<le> 8 * int (nbytes_key kb)"
    using params_total_length [OF assms(1)] by (simp add: sum_distrib_left [symmetric])
  have perm: "(\<Sum>j<?n. lpm_weight (ps ! (inv_mapping kb ! j))) = (\<Sum>i<?n. lpm_weight (ps ! i))"
    using s(7,9) by (intro sum_permuted [where km = "key_mapping kb"]) auto
  show "params_to_lpm kb ps = Some \<lparr>kdata = entry_data kb ps ?n, kversion = 0,
      prefix_length = nat (\<Sum>i<?n. lpm_weight (ps ! i))\<rparr>"
    using lpm_loop [OF assms(1), of "\<lambda>i. lpm_weight (ps ! i)" ?n] prefix_step_sane [OF assms(1)] assms(3) perm nonneg s(4)
    by (simp add: params_to_lpm_def)
qed

lemma lpm_params_back:
  assumes "sane kb ps" "int_prefixes kb ps" "i0 < length ps"
    "\<forall>i < length ps. p_type (ps ! i) \<in> {VALID, EXACT, LPM} \<and> (p_type (ps ! i) = LPM \<longleftrightarrow> i = i0)"
  obtains k where "params_to_lpm kb ps = Some k" "length (kdata k) = nbytes_key kb"
    "lpm_to_params kb k = Some (map (\<lambda>i. prefix_param (p_type (ps ! i)) (clear_top (kf_nbits (field_at_pos kb i)) (pkey (ps ! i)))
       (if i = i0 then pprefix (ps ! i) else 0)) [0..<length ps])"
proof -
  note s = saneD [OF assms(1)]
  let ?n = "length ps"
  define total where "total = (\<Sum>i<?n. lpm_weight (ps ! i))"
  have lpm0: "p_type (ps ! i0) = LPM" using assms(3,4) by blast
  have types: "\<forall>i < ?n. p_type (ps ! i) \<in> {VALID, EXACT, LPM}" using assms(4) by blast
  note k = params_to_lpm_sane(1) [OF assms(1,2) types, folded total_def]
  have nonneg: "0 \<le> total" using params_to_lpm_sane(2) [OF assms(1,2) types] by (simp only: total_def)
  let ?k = "\<lparr>kdata = entry_data kb ps ?n, kversion = 0, prefix_length = nat total\<rparr>"
  have others: "total - (\<Sum>i<?n. if i = i0 then 0 else 8 * int (length (pkey (ps ! i)))) = pprefix (ps ! i0)"
  proof -
    have "total - (\<Sum>i<?n. if i = i0 then 0 else 8 * int (length (pkey (ps ! i)))) =
        (\<Sum>i<?n. if i = i0 then pprefix (ps ! i0) else 0)"
      unfolding total_def sum_subtractf [symmetric] using assms(4) by (intro sum.cong) (auto simp: lpm_weight_def)
    then show ?thesis using assms(3) by simp
  qed
  have "lpm_to_params kb ?k = Some ((map (\<lambda>i. key_param (p_type (ps ! i)) (param_bytes kb ps i)) [0..<?n])
      [i0 := (key_param LPM (param_bytes kb ps i0))\<lparr>pprefix := pprefix (ps ! i0)\<rparr>])"
  proof -
    have pl: "int (prefix_length ?k) = total" using nonneg by simp
    have types: "\<forall>i < ?n. p_type (ps ! i) = LPM \<longleftrightarrow> i = i0" "\<forall>i < ?n. p_type (ps ! i) \<noteq> TERNARY" "kdata ?k = entry_data kb ps ?n"
      using assms(4) by auto
    show ?thesis
      unfolding lpm_to_params_def s(3) lpm_back_loop [OF assms(1,3) types, of ?n "int (prefix_length ?k)", OF order.refl]
      using assms(3) others lpm0 by (simp add: pl [simplified])
  qed
  also have "(map (\<lambda>i. key_param (p_type (ps ! i)) (param_bytes kb ps i)) [0..<?n])
      [i0 := (key_param LPM (param_bytes kb ps i0))\<lparr>pprefix := pprefix (ps ! i0)\<rparr>] =
    map (\<lambda>i. prefix_param (p_type (ps ! i)) (clear_top (kf_nbits (field_at_pos kb i)) (pkey (ps ! i)))
       (if i = i0 then pprefix (ps ! i) else 0)) [0..<?n]"
    using assms(3) lpm0 by (intro nth_equalityI) (auto simp: nth_list_update key_param_def prefix_param_def param_bytes_def)
  finally show ?thesis
    using k entry_data_length [OF assms(1), of ?n] s(1,2) by (intro that) (simp_all add: kb_wf_def offset_of_def)
qed

subsection \<open>Range keys\<close>

lemma collect_widths_sane:
  assumes "\<forall>pi \<in> set is. pi < length ps"
  shows "fold_opt (\<lambda>pi ws. do {
      par \<leftarrow> nth_opt ps pi;
      Some (if p_type par = RANGE then ws @ [length (pkey par)] else ws) }) is ws =
    Some (ws @ map (\<lambda>pi. length (pkey (ps ! pi))) (filter (\<lambda>pi. p_type (ps ! pi) = RANGE) is))"
  using assms by (induction "is" arbitrary: ws) auto

lemma params_to_range_sane:
  assumes "sane kb ps" "int_prefixes kb ps"
  obtains k where "params_to_range kb ps = Some k" "length (kdata k) = nbytes_key kb" "length (kmask k) = nbytes_key kb"
    "\<forall>w \<in> set (range_widths k). 0 < w" "sum_list (range_widths k) \<le> nbytes_key kb"
proof -
  note s = saneD [OF assms(1)]
  let ?im = "inv_mapping kb" and ?len = "\<lambda>pi. length (pkey (ps ! pi))"
  define ws where "ws = map ?len (filter (\<lambda>pi. p_type (ps ! pi) = RANGE) ?im)"
  have im: "\<forall>pi \<in> set ?im. pi < length ps" using s(4,9) by (auto simp: in_set_conv_nth)
  have c: "collect_widths kb ps = Some ws"
    using collect_widths_sane [OF im, of "[]"] by (simp add: collect_widths_def ws_def)
  have pos: "0 < ?len pi" if "pi \<in> set ?im" for pi
  proof -
    have "pi < length ps" using im that by blast
    then show ?thesis
      using s(6) [of pi] s(7) [of pi] sane_at(3) [OF assms(1), of "key_mapping kb ! pi"] by (simp add: param_ok_def field_at_pos_def)
  qed
  have "sum_list (map ?len (filter P is)) \<le> sum_list (map ?len is)" for P "is" by (induction "is") auto
  then have "sum_list ws \<le> sum_list (map ?len ?im)" by (simp only: ws_def)
  also have "\<dots> = (\<Sum>j<length ps. ?len (?im ! j))"
    using s(4) by (simp add: sum_list_sum_nth atLeast0LessThan)
  also have "\<dots> = (\<Sum>j<length ps. field_nbytes (key_input kb ! j))"
    using sane_at(1) [OF assms(1)] by (intro sum.cong) (auto simp: param_ok_def)
  also have "\<dots> = nbytes_key kb"
    using s(1,2) by (simp add: sum_list_sum_nth atLeast0LessThan kb_wf_def)
  finally have total: "sum_list ws \<le> nbytes_key kb" .
  show ?thesis
    using c data_mask_sane [OF assms] total pos
    by (intro that [of "\<lparr>kdata = take (sum_list ws) (entry_data kb ps (length ps)) @
        format_ternary_key (drop (sum_list ws) (entry_data kb ps (length ps))) (drop (sum_list ws) (entry_mask kb ps)),
        kversion = 0, kmask = entry_mask kb ps, kpriority = int_max, range_widths = ws\<rparr>"])
      (simp_all add: params_to_range_def format_ternary_key_def Let_def ws_def)
qed

section \<open>Packets and entries\<close>

text \<open>What a packet has for a field of the key; a field of a header that is not valid counts as zero.\<close>

definition field_value :: "phv \<Rightarrow> keyF \<Rightarrow> u8 list option" where
  "field_value p f = do {
     h \<leftarrow> nth_opt (headers p) (kf_header f);
     if kf_type f = VALID then Some [if is_valid h then 1 else 0]
     else do {
       x \<leftarrow> nth_opt (hfields h) (kf_offset f);
       Some (if is_valid h \<or> hidden x then fbytes x else replicate (nbytes x) 0) } }"

lemma append_field_value: "append_field p f key = map_option (\<lambda>v. key @ v) (field_value p f)"
  by (simp add: append_field_def field_value_def option.map_comp comp_def map_option_bind split: if_splits bind_splits)

lemma append_fields: "fold_opt (append_field p) fs key = map_option (\<lambda>vs. key @ concat vs) (map_opt (field_value p) fs)"
proof (induction fs arbitrary: key)
  case (Cons f fs)
  then show ?case by (cases "field_value p f"; cases "map_opt (field_value p) fs") (simp_all add: append_field_value)
qed simp

lemma concat_inj:
  "list_all2 (\<lambda>x y. length x = length y) xs ys \<Longrightarrow> concat xs = concat ys \<Longrightarrow> xs = ys"
  by (induction rule: list_all2_induct) simp_all

definition fields_sized :: "key_builder \<Rightarrow> phv \<Rightarrow> bool" where
  "fields_sized kb p \<longleftrightarrow> (\<forall>f \<in> set (key_input kb). \<exists>v. field_value p f = Some v \<and> length v = field_nbytes f)"

lemma fields_sizedD:
  assumes "fields_sized kb p" "f \<in> set (key_input kb)"
  shows "field_value p f = Some (the (field_value p f))" "length (the (field_value p f)) = field_nbytes f"
  using assms by (auto simp: fields_sized_def dest!: bspec)

text \<open>The part of the big mask for the \<open>i\<close>-th field of the client; a key without masks keeps all bits.\<close>

definition field_mask :: "key_builder \<Rightarrow> nat \<Rightarrow> u8 list" where
  "field_mask kb i = (let n = field_nbytes (field_at_pos kb i) in
     if has_big_mask kb then take n (drop (key_offsets kb ! i) (big_mask kb)) else replicate n 0xFF)"

definition masked :: "u8 list \<Rightarrow> u8 list \<Rightarrow> u8 list" where
  "masked m x = map2 and x m"

text \<open>The field has the value of the parameter in the bits of the mask.\<close>

definition param_matches :: "key_builder \<Rightarrow> phv \<Rightarrow> match_key_param list \<Rightarrow> nat \<Rightarrow> bool" where
  "param_matches kb p ps i \<longleftrightarrow> map_option (masked (field_mask kb i)) (field_value p (field_at_pos kb i)) =
     Some (masked (field_mask kb i) (clear_top (kf_nbits (field_at_pos kb i)) (pkey (ps ! i))))"

lemma masked_all: "length x \<le> n \<Longrightarrow> masked (replicate n 0xFF) x = x"
proof (induction x arbitrary: n)
  case (Cons b x)
  have "(0xFF :: u8) = - 1" by simp
  then have "and b 0xFF = b" by (simp only: and.right_neutral)
  with Cons show ?case by (cases n) (simp_all add: masked_def)
qed (simp add: masked_def)

lemma masked_concat:
  "list_all2 (\<lambda>x m. length x = length m) xs ms \<Longrightarrow> masked (concat ms) (concat xs) = concat (map2 masked ms xs)"
proof (induction rule: list_all2_induct)
  case (Cons x xs m ms)
  then show ?case by (simp add: masked_def)
qed (simp add: masked_def)

lemma mask_slices:
  "m \<le> length ks \<Longrightarrow> concat (map (\<lambda>j. take (field_nbytes (ks ! j)) (drop (offset_of ks j) M)) [0..<m]) = take (offset_of ks m) M"
proof (induction m)
  case (Suc m)
  then show ?case by (simp add: offset_of_Suc take_add)
qed (simp add: offset_of_def)

text \<open>The field at a position of the key, its mask and the bytes of the parameter.\<close>

definition mask_at :: "key_builder \<Rightarrow> nat \<Rightarrow> u8 list" where
  "mask_at kb j = take (field_nbytes (key_input kb ! j)) (drop (offset_of (key_input kb) j) (big_mask kb))"

lemma packet_key_masked:
  assumes "kb_wf kb" "fields_sized kb p"
  shows "build_key kb p [] = apply_big_mask kb (concat (map (\<lambda>f. the (field_value p f)) (key_input kb)))"
proof -
  have "map_opt (field_value p) (key_input kb) = Some (map (\<lambda>f. the (field_value p f)) (key_input kb))"
    using fields_sizedD(1) [OF assms(2)] by (simp add: map_opt_Some_iff list_all2_conv_all_nth)
  then show ?thesis by (simp add: build_key_def apply_big_mask_def append_fields)
qed

lemma apply_big_mask_concat:
  assumes "kb_wf kb" "length xs = length (key_input kb)"
    and "\<And>j. j < length xs \<Longrightarrow> length (xs ! j) = field_nbytes (key_input kb ! j)"
  shows "apply_big_mask kb (concat xs) = Some (concat (map (\<lambda>j. if has_big_mask kb then masked (mask_at kb j) (xs ! j) else xs ! j) [0..<length xs]))"
proof (cases "has_big_mask kb")
  case True
  let ?ms = "map (mask_at kb) [0..<length xs]"
  have l: "map length xs = map field_nbytes (key_input kb)" using assms(2,3) by (simp add: list_eq_iff_nth_eq)
  have M: "length (big_mask kb) = sum_list (map field_nbytes (key_input kb))" using assms(1) by (simp add: kb_wf_def Let_def)
  have ml: "length (mask_at kb j) = field_nbytes (key_input kb ! j)" if "j < length xs" for j
    using offset_of_bound [of j "key_input kb"] that assms(2) M by (simp add: mask_at_def)
  have "concat ?ms = take (offset_of (key_input kb) (length xs)) (big_mask kb)"
    using mask_slices [of "length xs" "key_input kb" "big_mask kb"] assms(2) by (simp add: mask_at_def [abs_def])
  also have "\<dots> = big_mask kb" using M assms(2) by (simp add: offset_of_def)
  finally have c: "concat ?ms = big_mask kb" .
  have "list_all2 (\<lambda>x m. length x = length m) xs ?ms" using assms(3) ml by (simp add: list_all2_conv_all_nth)
  from masked_concat [OF this] have e: "map2 and (concat xs) (big_mask kb) = concat (map2 masked ?ms xs)"
    by (simp add: c masked_def)
  have "map2 masked ?ms xs = map (\<lambda>j. masked (mask_at kb j) (xs ! j)) [0..<length xs]" by (rule nth_equalityI) simp_all
  moreover have "length (concat xs) = length (big_mask kb)" using M l by (simp add: length_concat)
  ultimately show ?thesis using True e by (simp add: apply_big_mask_def apply_mask_def)
next
  case False
  then show ?thesis by (simp add: apply_big_mask_def map_nth)
qed

lemma masked_length: "length m = length x \<Longrightarrow> length (masked m x) = length x"
  by (simp add: masked_def)

lemma packet_key_entry:
  assumes "sane kb ps" "fields_sized kb p"
  shows "build_key kb p [] = apply_big_mask kb (entry_data kb ps (length ps)) \<longleftrightarrow> (\<forall>i < length ps. param_matches kb p ps i)"
proof -
  note s = saneD [OF assms(1)]
  define vs where "vs = map (\<lambda>f. the (field_value p f)) (key_input kb)"
  define es where "es = map (entry_bytes kb ps) [0..<length ps]"
  have es: "length es = length ps" "\<And>j. j < length ps \<Longrightarrow> es ! j = entry_bytes kb ps j" "entry_data kb ps (length ps) = concat es"
    by (simp_all add: es_def entry_data_def)
  define g where "g = (\<lambda>j x. if has_big_mask kb then masked (mask_at kb j) x else x)"
  have v: "field_value p (key_input kb ! j) = Some (vs ! j)" "length (vs ! j) = field_nbytes (key_input kb ! j)"
    if "j < length ps" for j
    using fields_sizedD [OF assms(2), of "key_input kb ! j"] that s(2) by (simp_all add: vs_def)
  have len: "length vs = length (key_input kb)" "length es = length (key_input kb)" using s(2) es(1) by (simp_all add: vs_def)
  have ml: "length (mask_at kb j) = field_nbytes (key_input kb ! j)" if "j < length ps" for j
    using offset_of_bound [of j "key_input kb"] that s(1,2) by (simp add: mask_at_def kb_wf_def Let_def)
  have gl: "length (g j x) = length x" if "j < length ps" "length x = field_nbytes (key_input kb ! j)" for j x
    using ml that by (simp add: g_def masked_def)
  have V: "build_key kb p [] = Some (concat (map (\<lambda>j. g j (vs ! j)) [0..<length ps]))"
    using packet_key_masked [OF s(1) assms(2)] apply_big_mask_concat [OF s(1) len(1)] v(2) len(1) s(2)
    by (simp add: vs_def [symmetric] g_def)
  have E: "apply_big_mask kb (entry_data kb ps (length ps)) = Some (concat (map (\<lambda>j. g j (es ! j)) [0..<length ps]))"
    using apply_big_mask_concat [OF s(1) len(2)] sane_at(2) [OF assms(1)] s(2) es by (simp add: g_def)
  let ?X = "map (\<lambda>j. g j (vs ! j)) [0..<length ps]" and ?Y = "map (\<lambda>j. g j (es ! j)) [0..<length ps]"
  have "list_all2 (\<lambda>x y. length x = length y) ?X ?Y"
    using v(2) sane_at(2) [OF assms(1)] gl es(2) by (simp add: list_all2_conv_all_nth)
  note inj = concat_inj [OF this]
  have "concat ?X = concat ?Y \<longleftrightarrow> ?X = ?Y" by (rule iffI, erule inj, simp only:)
  moreover have "?X = ?Y \<longleftrightarrow> (\<forall>j < length ps. g j (vs ! j) = g j (entry_bytes kb ps j))"
    using es(2) by (simp add: Ball_def)
  ultimately have 1: "build_key kb p [] = apply_big_mask kb (entry_data kb ps (length ps)) \<longleftrightarrow>
      (\<forall>j < length ps. g j (vs ! j) = g j (entry_bytes kb ps j))"
    by (simp only: V E option.inject)
  have pm: "param_matches kb p ps i \<longleftrightarrow> g (key_mapping kb ! i) (vs ! (key_mapping kb ! i)) = g (key_mapping kb ! i) (entry_bytes kb ps (key_mapping kb ! i))"
    if i: "i < length ps" for i
  proof -
    define j where "j = key_mapping kb ! i"
    have j: "j < length ps" "inv_mapping kb ! j = i" "field_at_pos kb i = key_input kb ! j" "key_offsets kb ! i = offset_of (key_input kb) j"
      using s(7,8) [OF i] by (simp_all add: j_def field_at_pos_def)
    have e: "length (entry_bytes kb ps j) = field_nbytes (key_input kb ! j)" "entry_bytes kb ps j = clear_top (kf_nbits (key_input kb ! j)) (pkey (ps ! i))"
      using sane_at(2) [OF assms(1) j(1)] j(2) by (simp_all add: entry_bytes_def)
    have "field_mask kb i = (if has_big_mask kb then mask_at kb j else replicate (field_nbytes (key_input kb ! j)) 0xFF)"
      by (simp add: field_mask_def mask_at_def Let_def j(3,4))
    then have "param_matches kb p ps i \<longleftrightarrow> g j (vs ! j) = g j (entry_bytes kb ps j)"
      using v [OF j(1)] e by (simp add: param_matches_def j(3) g_def masked_all)
    then show ?thesis by (simp add: j_def)
  qed
  have "(\<forall>j < length ps. g j (vs ! j) = g j (entry_bytes kb ps j)) \<longleftrightarrow> (\<forall>i < length ps. param_matches kb p ps i)"
    using pm s(7,9) by metis
  with 1 show ?thesis by simp
qed

text \<open>Without masks: equal values.\<close>

lemma param_matches_unmasked:
  assumes "sane kb ps" "fields_sized kb p" "\<not> has_big_mask kb" "i < length ps"
  shows "param_matches kb p ps i \<longleftrightarrow>
    field_value p (field_at_pos kb i) = Some (clear_top (kf_nbits (field_at_pos kb i)) (pkey (ps ! i)))"
proof -
  note s = saneD [OF assms(1)]
  have "field_at_pos kb i \<in> set (key_input kb)" using s(2) s(7) [OF assms(4)] by (simp add: field_at_pos_def)
  from fields_sizedD [OF assms(2) this] obtain v where "field_value p (field_at_pos kb i) = Some v"
    "length v = field_nbytes (field_at_pos kb i)" by auto
  moreover have "length (clear_top (kf_nbits (field_at_pos kb i)) (pkey (ps ! i))) = field_nbytes (field_at_pos kb i)"
    using s(6) [OF assms(4)] by (simp add: param_ok_def clear_top_def)
  ultimately show ?thesis using assms(3) by (simp add: param_matches_def field_mask_def masked_all)
qed

section \<open>Properties\<close>

text \<open>
  Building a key sorts its fields by match type, keeping the order within a type; the two
  mappings are inverse permutations, and every field is found at the offset recorded for it.
\<close>

theorem build_sorts_fields:
  assumes "kb_open kb"
  shows "\<exists>kb'. build kb = Some kb' \<and> sorted_wrt (sort_fn (key_input kb)) (inv_mapping kb') \<and>
    set (inv_mapping kb') = {..<length (key_input kb)} \<and>
    (\<forall>i < length (key_input kb). field_at_pos kb' i = key_input kb ! i \<and>
       inv_mapping kb' ! (key_mapping kb' ! i) = i \<and>
       field_slot kb' i = Some (key_input kb ! i, offset_of (key_input kb') (key_mapping kb' ! i)))"
proof -
  obtain kb' where kb': "build kb = Some kb'" "kb_wf kb'" "inv_mapping kb' = sort_indices (key_input kb)"
      "key_input kb' = map ((!) (key_input kb)) (inv_mapping kb')"
    by (rule build_wf [OF assms]) blast
  have len: "length (key_input kb') = length (key_input kb)" "length (inv_mapping kb') = length (key_input kb)"
    using kb'(3,4) sort_indices_facts(1) by simp_all
  have field: "field_at_pos kb' i = key_input kb ! i \<and> inv_mapping kb' ! (key_mapping kb' ! i) = i"
    if "i < length (key_input kb)" for i
    using kb'(2) len that by (subst field_at_pos_def, subst kb'(4)) (simp add: kb_wf_def Let_def)
  moreover have "field_slot kb' i = Some (key_input kb ! i, offset_of (key_input kb') (key_mapping kb' ! i))"
    if "i < length (key_input kb)" for i
    using slot_bytes_at(2) [OF kb'(2), of i "\<lambda>j. replicate (field_nbytes (key_input kb' ! j)) 0"] that len field by simp
  ultimately show ?thesis
    using kb'(1,3) sort_indices_sorted sort_indices_facts by (intro exI [of _ kb']) simp
qed

text \<open>
  Reading back an LPM entry that was made from parameters that pass the check gives these
  parameters, with the bits that a field does not have cleared, in the order of the client.
\<close>

theorem lpm_params_roundtrip:
  assumes "sane kb ps" "int_prefixes kb ps" "i0 < length ps"
    "\<forall>i < length ps. p_type (ps ! i) \<in> {VALID, EXACT, LPM} \<and> (p_type (ps ! i) = LPM \<longleftrightarrow> i = i0)"
  shows "\<exists>k. params_to_lpm kb ps = Some k \<and>
    lpm_to_params kb k = Some (map (\<lambda>i. prefix_param (p_type (ps ! i)) (clear_top (kf_nbits (field_at_pos kb i)) (pkey (ps ! i)))
       (if i = i0 then pprefix (ps ! i) else 0)) [0..<length ps])"
  by (rule lpm_params_back [OF assms]) blast

text \<open>
  Reading back a ternary entry that was made from parameters that pass the check gives these
  parameters, with the bits outside the field and outside the mask cleared; a prefix comes back
  with its length although the entry stores it as a mask.
\<close>

theorem ternary_params_roundtrip:
  assumes "sane kb ps" "int_prefixes kb ps"
  shows "\<exists>k. params_to_ternary kb ps = Some k \<and>
    ternary_to_params kb k = Some (map (\<lambda>i. ternary_canon (field_at_pos kb i) (ps ! i)) [0..<length ps])"
  by (rule ternary_params_back [OF assms]) blast

text \<open>
  C35: The key of a packet is the key stored for an exact entry iff, for each field of the key, the field of the packet (zero
  if its header is not valid and the field is not hidden) and the parameter of the entry agree in the bits of the mask of
  that field; a field without a mask has to be equal to the parameter.  The fields have the widths the key was built for.
\<close>

theorem packet_hits_exact:
  assumes "sane kb ps" "fields_sized kb p"
  shows "build_key kb p [] = (case params_to_exact kb ps of None \<Rightarrow> None | Some k \<Rightarrow> apply_big_mask kb (kdata k)) \<longleftrightarrow>
    (\<forall>i < length ps. param_matches kb p ps i)"
  using packet_key_entry [OF assms] by (simp add: params_to_exact_sane [OF assms(1)])

definition one_lpm_field :: "nat \<Rightarrow> key_builder" where
  "one_lpm_field n = kb_push_back_field 0 0 n LPM ''f'' kb_new"

lemma one_lpm_field_built:
  assumes "0 < n"
  obtains kb where "build (one_lpm_field n) = Some kb" "kb_wf kb" "key_input kb = [\<lparr>kf_header = 0, kf_offset = 0, kf_type = LPM, kf_nbits = n\<rparr>]"
    "inv_mapping kb = [0]" "key_mapping kb = [0]"
proof -
  have "kb_open (one_lpm_field n)" unfolding one_lpm_field_def by (rule kb_open_pushes(1) [OF kb_open_new assms]) simp
  then obtain kb where kb: "build (one_lpm_field n) = Some kb" "kb_wf kb" "inv_mapping kb = sort_indices (key_input (one_lpm_field n))"
      "key_input kb = map ((!) (key_input (one_lpm_field n))) (inv_mapping kb)"
    by (rule build_wf) blast
  have "key_input (one_lpm_field n) = [\<lparr>kf_header = 0, kf_offset = 0, kf_type = LPM, kf_nbits = n\<rparr>]"
    by (simp add: one_lpm_field_def kb_push_back_field_def kb_push_back_def kb_new_def)
  then have i: "inv_mapping kb = [0]" "key_input kb = [\<lparr>kf_header = 0, kf_offset = 0, kf_type = LPM, kf_nbits = n\<rparr>]"
    using kb(3,4) by (simp_all add: sort_indices_def)
  then have "length (key_mapping kb) = 1" "key_mapping kb ! 0 = 0"
    using kb(2) unfolding kb_wf_def Let_def i(1,2) by simp_all
  then have "key_mapping kb = [0]" by (intro nth_equalityI) simp_all
  with kb(1,2) i show ?thesis by (intro that)
qed

lemma byte0_mask: "n mod 8 \<noteq> 0 \<Longrightarrow> get_byte0_mask n = mask (n mod 8)"
  by (simp add: get_byte0_mask_def mask_eq_exp_minus_1)

lemma clear_top_bits:
  assumes "n mod 8 \<noteq> 0" "bs \<noteq> []" "i < 8 - n mod 8"
  shows "\<not> bit (clear_top n bs ! 0) (7 - i)"
proof -
  have "clear_top n bs ! 0 = and (bs ! 0) (mask (n mod 8))" using assms(1,2) by (simp add: clear_top_def byte0_mask)
  moreover have "\<not> 7 - i < n mod 8" using assms(3) by linarith
  then have "\<not> bit (mask (n mod 8) :: u8) (7 - i)" by (simp add: bit_mask_iff)
  ultimately show ?thesis by (simp add: bit_and_iff)
qed

text \<open>
  The prefix of an LPM parameter is counted from the first bit of its padded bytes, not of the
  field: for a field whose width is not a multiple of 8, a prefix no longer than the padding makes the
  entries of any two values the same entry.
\<close>

theorem lpm_padding_swallows_prefix:
  assumes "n mod 8 \<noteq> 0" "n < 2 ^ 31" "pl \<le> 8 - n mod 8" "pl \<le> n"
    "length v1 = nbits_to_nbytes n" "length v2 = nbits_to_nbytes n"
  shows "\<exists>kb k1 k2. build (one_lpm_field n) = Some kb \<and>
    match_params_sanity_check kb [prefix_param LPM v1 (int pl)] = Some True \<and>
    params_to_lpm kb [prefix_param LPM v1 (int pl)] = Some k1 \<and>
    params_to_lpm kb [prefix_param LPM v2 (int pl)] = Some k2 \<and> lpm_same k1 k2"
proof -
  have n0: "0 < n" using assms(1) by (cases n) auto
  then obtain kb where kb: "build (one_lpm_field n) = Some kb" "kb_wf kb" "key_input kb = [\<lparr>kf_header = 0, kf_offset = 0, kf_type = LPM, kf_nbits = n\<rparr>]"
      "inv_mapping kb = [0]" "key_mapping kb = [0]" by (rule one_lpm_field_built)
  let ?p = "\<lambda>v. prefix_param LPM v (int pl)" and ?k = "\<lambda>v. \<lparr>kdata = clear_top n v, kversion = 0, prefix_length = pl\<rparr>"
  have pl: "int pl mod 2 ^ 64 = int pl" using assms(2,4) by simp
  have sane: "sane kb [?p v]" if "length v = nbits_to_nbytes n" for v
    using kb(2) sanity_check_iff [OF kb(2), of "[?p v]"] assms(4) that pl
    by (simp add: sane_def kb(3,5) param_ok_def prefix_param_def field_at_pos_def field_nbytes_def)
  have key: "params_to_lpm kb [?p v] = Some (?k v)" if v: "length v = nbits_to_nbytes n" for v
    using lpm_loop [OF sane [OF v], of "\<lambda>_. int pl" 1]
    by (simp add: params_to_lpm_def kb(3,4) prefix_step_def prefix_param_def entry_data_def entry_bytes_def)
  have ne: "v1 \<noteq> []" "v2 \<noteq> []" using assms(5,6) n0 by (auto simp: nbits_to_nbytes_def)
  have "prefix_bit (clear_top n v1) i = prefix_bit (clear_top n v2) i" if "i < pl" for i
    using clear_top_bits [OF assms(1) ne(1), of i] clear_top_bits [OF assms(1) ne(2), of i] assms(3) that
    by (simp add: prefix_bit_def)
  then have "lpm_same (?k v1) (?k v2)" by (simp add: lpm_same_def same_prefix_def)
  then show ?thesis using kb(1) key [OF assms(5)] key [OF assms(6)] sane [OF assms(5)] by (auto simp: sane_def)
qed

section \<open>Examples\<close>

text \<open>A prefix of 12 bits, a validity bit and an exact byte: the key puts them in the opposite order.\<close>

definition example_builder :: key_builder where
  "example_builder = kb_push_back_field 0 1 8 EXACT ''e''
     (kb_push_back_valid_header 0 ''v'' (kb_push_back_field 0 0 12 LPM ''p'' kb_new))"

definition example_params :: "match_key_param list" where
  "example_params = [prefix_param LPM [0xFA, 0xBC] 12, key_param VALID [1], key_param EXACT [7]]"

definition example_built :: key_builder where
  "example_built = the (build example_builder)"

lemma example_open: "kb_open example_builder"
  unfolding example_builder_def
  by (rule kb_open_pushes(1) [OF kb_open_pushes(3) [OF kb_open_pushes(1) [OF kb_open_new]]]) simp_all

lemma example_built: "build example_builder = Some example_built" "kb_wf example_built"
  "key_input example_built = [\<lparr>kf_header = 0, kf_offset = 0, kf_type = VALID, kf_nbits = 8\<rparr>,
     \<lparr>kf_header = 0, kf_offset = 1, kf_type = EXACT, kf_nbits = 8\<rparr>, \<lparr>kf_header = 0, kf_offset = 0, kf_type = LPM, kf_nbits = 12\<rparr>]"
  "inv_mapping example_built = [1, 2, 0]" "\<not> has_big_mask example_built" "key_mapping example_built = [2, 0, 1]"
proof -
  obtain kb where kb: "build example_builder = Some kb" "kb_wf kb" "inv_mapping kb = sort_indices (key_input example_builder)"
      "key_input kb = map ((!) (key_input example_builder)) (inv_mapping kb)" "has_big_mask kb = has_big_mask example_builder"
    by (rule build_wf [OF example_open]) blast
  then have e: "example_built = kb" by (simp add: example_built_def)
  show "build example_builder = Some example_built" "kb_wf example_built" using kb(1,2) e by simp_all
  have ki: "key_input example_builder = [\<lparr>kf_header = 0, kf_offset = 0, kf_type = LPM, kf_nbits = 12\<rparr>,
      \<lparr>kf_header = 0, kf_offset = 0, kf_type = VALID, kf_nbits = 8\<rparr>, \<lparr>kf_header = 0, kf_offset = 1, kf_type = EXACT, kf_nbits = 8\<rparr>]"
    "\<not> has_big_mask example_builder"
    by (simp_all add: example_builder_def kb_push_back_field_def kb_push_back_valid_header_def kb_push_back_def kb_new_def)
  have s: "sort_indices (key_input example_builder) = [1, 2, 0]"
    unfolding ki sort_indices_def by (simp add: upt_rec numeral_eq_Suc less_eq_match_type_def)
  show im: "inv_mapping example_built = [1, 2, 0]" "\<not> has_big_mask example_built" using kb(3,5) s e ki(2) by simp_all
  show kf: "key_input example_built = [\<lparr>kf_header = 0, kf_offset = 0, kf_type = VALID, kf_nbits = 8\<rparr>,
     \<lparr>kf_header = 0, kf_offset = 1, kf_type = EXACT, kf_nbits = 8\<rparr>, \<lparr>kf_header = 0, kf_offset = 0, kf_type = LPM, kf_nbits = 12\<rparr>]"
    using kb(4) im(1) e ki by simp
  have km: "length (key_mapping kb) = 3" "\<And>j. j < 3 \<Longrightarrow> key_mapping kb ! (inv_mapping kb ! j) = j"
    using kb(2) kf e by (simp_all add: kb_wf_def Let_def)
  have "length (key_mapping kb) = 3" "key_mapping kb ! 1 = 0" "key_mapping kb ! 2 = 1" "key_mapping kb ! 0 = 2"
    using km(1) km(2) [of 0] km(2) [of 1] km(2) [of 2] im(1) e by simp_all
  then show "key_mapping example_built = [2, 0, 1]"
    unfolding e by (intro nth_equalityI) (auto simp: numeral_eq_Suc less_Suc_eq)
qed

lemma example_sane: "sane example_built example_params" "int_prefixes example_built example_params"
proof -
  show "sane example_built example_params"
    unfolding sane_def sanity_check_iff [OF example_built(2)] example_built(3) field_at_pos_def example_built(6)
    using example_built(2)
    by (auto simp: example_params_def prefix_param_def key_param_def less_Suc_eq param_ok_def field_nbytes_def nbits_to_nbytes_def)
  show "int_prefixes example_built example_params"
    unfolding int_prefixes_def example_built(3) by (simp add: example_params_def prefix_param_def key_param_def)
qed

theorem build_sorts_fields_witness:
  "\<exists>kb'. build example_builder = Some kb' \<and> sorted_wrt (sort_fn (key_input example_builder)) (inv_mapping kb') \<and>
    set (inv_mapping kb') = {..<length (key_input example_builder)} \<and>
    (\<forall>i < length (key_input example_builder). field_at_pos kb' i = key_input example_builder ! i \<and>
       inv_mapping kb' ! (key_mapping kb' ! i) = i \<and>
       field_slot kb' i = Some (key_input example_builder ! i, offset_of (key_input kb') (key_mapping kb' ! i)))"
  by (rule build_sorts_fields [OF example_open])

theorem lpm_params_roundtrip_witness:
  "\<exists>k. params_to_lpm example_built example_params = Some k \<and> lpm_to_params example_built k =
    Some [prefix_param LPM [0x0A, 0xBC] 12, prefix_param VALID [1] 0, prefix_param EXACT [7] 0]"
proof -
  have l: "length example_params = 3" by (simp add: example_params_def)
  have t: "\<forall>i < length example_params. p_type (example_params ! i) \<in> {VALID, EXACT, LPM} \<and>
      (p_type (example_params ! i) = LPM \<longleftrightarrow> i = 0)"
    unfolding l by (auto simp: less_Suc_eq numeral_eq_Suc example_params_def prefix_param_def key_param_def)
  have "map (\<lambda>i. prefix_param (p_type (example_params ! i)) (clear_top (kf_nbits (field_at_pos example_built i)) (pkey (example_params ! i)))
       (if i = 0 then pprefix (example_params ! i) else 0)) [0..<length example_params] =
     [prefix_param LPM [0x0A, 0xBC] 12, prefix_param VALID [1] 0, prefix_param EXACT [7] 0]"
    unfolding l field_at_pos_def example_built(3,6)
    by (simp add: numeral_eq_Suc [of "num.One"] upt_rec example_params_def prefix_param_def key_param_def clear_top_def get_byte0_mask_def)
  moreover have "0 < length example_params" by (simp add: l)
  note lpm_params_roundtrip [OF example_sane this t]
  ultimately show ?thesis by (simp only:)
qed

theorem ternary_params_roundtrip_witness:
  "\<exists>k. params_to_ternary example_built example_params = Some k \<and> ternary_to_params example_built k =
    Some (map (\<lambda>i. ternary_canon (field_at_pos example_built i) (example_params ! i)) [0..<length example_params])"
  by (rule ternary_params_roundtrip [OF example_sane])

theorem lpm_padding_swallows_prefix_witness:
  "\<exists>kb k1 k2. build (one_lpm_field 12) = Some kb \<and>
    match_params_sanity_check kb [prefix_param LPM [0x01, 0x00] (int 4)] = Some True \<and>
    params_to_lpm kb [prefix_param LPM [0x01, 0x00] (int 4)] = Some k1 \<and>
    params_to_lpm kb [prefix_param LPM [0x02, 0x00] (int 4)] = Some k2 \<and> lpm_same k1 k2"
  by (rule lpm_padding_swallows_prefix) (simp_all add: nbits_to_nbytes_def)

text \<open>An exact key of one byte, and a packet whose only header holds 7 in it.\<close>

definition byte_builder :: key_builder where
  "byte_builder = kb_push_back_field 0 0 8 EXACT ''e'' kb_new"

definition byte_packet :: phv where
  "byte_packet = empty_phv\<lparr>headers := [\<lparr>htype = new_header_type 0,
     hfields = [(the (new_field 8 False False False False))\<lparr>fbytes := [7]\<rparr>],
     valid_flag = True, metadata = False, nbytes_packet = 1, union_membership = None\<rparr>]\<rparr>"

lemma byte_built:
  obtains kb where "build byte_builder = Some kb" "sane kb [key_param EXACT [7]]" "fields_sized kb byte_packet" "\<not> has_big_mask kb"
    "field_at_pos kb 0 = \<lparr>kf_header = 0, kf_offset = 0, kf_type = EXACT, kf_nbits = 8\<rparr>"
proof -
  let ?f = "\<lparr>kf_header = 0, kf_offset = 0, kf_type = EXACT, kf_nbits = 8\<rparr>"
  have "kb_open byte_builder" unfolding byte_builder_def by (rule kb_open_pushes(1) [OF kb_open_new]) simp_all
  then obtain kb where kb: "build byte_builder = Some kb" "kb_wf kb" "inv_mapping kb = sort_indices (key_input byte_builder)"
      "key_input kb = map ((!) (key_input byte_builder)) (inv_mapping kb)" "has_big_mask kb = has_big_mask byte_builder"
    by (rule build_wf) blast
  have "key_input byte_builder = [?f]" "\<not> has_big_mask byte_builder"
    by (simp_all add: byte_builder_def kb_push_back_field_def kb_push_back_def kb_new_def)
  then have ki: "key_input kb = [?f]" "\<not> has_big_mask kb" using kb(3,4,5) by (simp_all add: sort_indices_def)
  then have "key_mapping kb ! 0 < 1" using kb(2) by (simp add: kb_wf_def Let_def)
  then have f: "field_at_pos kb 0 = ?f" using ki by (simp add: field_at_pos_def)
  have "sane kb [key_param EXACT [7]]"
    using kb(2) f by (simp add: sane_def sanity_check_iff ki(1) param_ok_def key_param_def field_nbytes_def nbits_to_nbytes_def)
  moreover have "fields_sized kb byte_packet"
    by (simp add: fields_sized_def ki(1) field_value_def byte_packet_def empty_phv_def is_valid_def field_nbytes_def
        nbits_to_nbytes_def new_field_def)
  ultimately show ?thesis using kb(1) ki(2) f by (intro that)
qed

theorem packet_hits_exact_witness:
  "\<exists>kb. build byte_builder = Some kb \<and> build_key kb byte_packet [] =
     (case params_to_exact kb [key_param EXACT [7]] of None \<Rightarrow> None | Some k \<Rightarrow> apply_big_mask kb (kdata k))"
proof -
  obtain kb where kb: "build byte_builder = Some kb" "sane kb [key_param EXACT [7]]" "fields_sized kb byte_packet" "\<not> has_big_mask kb"
    "field_at_pos kb 0 = \<lparr>kf_header = 0, kf_offset = 0, kf_type = EXACT, kf_nbits = 8\<rparr>" by (rule byte_built)
  have "\<forall>i < length [key_param EXACT [7]]. param_matches kb byte_packet [key_param EXACT [7]] i"
    using param_matches_unmasked [OF kb(2-4)]
    by (simp add: kb(5) field_value_def byte_packet_def empty_phv_def is_valid_def clear_top_def get_byte0_mask_def key_param_def)
  with packet_hits_exact [OF kb(2,3)] kb(1) show ?thesis by blast
qed

end
