(* ===== verification/Match_Units.thy ===== *)
theory Match_Units
  imports Match_Keys Handle_Mgr
begin

text \<open>
  Match units: \<^verbatim>\<open>MatchUnitAbstract_\<close>, \<^verbatim>\<open>MatchUnitAbstract\<close> and \<^verbatim>\<open>MatchUnitGeneric\<close> of
  \<^verbatim>\<open>match_units.h\<close> and \<^verbatim>\<open>match_units.cpp\<close>.  A unit keeps the entries of a table in an
  array indexed by internal handles, next to a lookup structure that finds the handle of a key.
  The client-visible handle carries the low 8 bits of a version that counts the deletions of
  its slot.  The theorems: a unit refines a finite map from keys to values, its counters and
  handles stay consistent in all reachable states, handles of deleted entries are refused, and a packet is
  answered with the entry whose parameters it carries.
\<close>

section \<open>Handles\<close>

datatype match_error =
    TABLE_FULL | INVALID_HANDLE | EXPIRED_HANDLE | COUNTERS_DISABLED | METERS_DISABLED
  | AGEING_DISABLED | INVALID_TABLE_NAME | INVALID_ACTION_NAME | WRONG_TABLE_TYPE | INVALID_MBR_HANDLE
  | MBR_STILL_USED | MBR_ALREADY_IN_GRP | MBR_NOT_IN_GRP | INVALID_GRP_HANDLE | GRP_STILL_USED
  | EMPTY_GRP | DUPLICATE_ENTRY | BAD_MATCH_KEY | INVALID_METER_OPERATION | DEFAULT_ACTION_IS_CONST
  | DEFAULT_ENTRY_IS_CONST | NO_DEFAULT_ENTRY | INVALID_ACTION_PROFILE_NAME | NO_ACTION_PROFILE_SELECTION
  | IMMUTABLE_TABLE_ENTRIES | BAD_ACTION_DATA | ERROR

text \<open>The code \<^verbatim>\<open>SUCCESS\<close> is the right injection of a result, every other code a left one.\<close>

definition HANDLE_VERSION :: "u32 \<Rightarrow> nat" where
  "HANDLE_VERSION h = unat (drop_bit 24 h)"

definition HANDLE_INTERNAL :: "u32 \<Rightarrow> nat" where
  "HANDLE_INTERNAL h = unat (and h 0x00ffffff)"

definition HANDLE_SET :: "nat \<Rightarrow> nat \<Rightarrow> u32" where
  "HANDLE_SET v i = or (push_bit 24 (and (word_of_nat v) 0xff)) (word_of_nat i)"

definition MAX_TABLE_SIZE :: nat where
  "MAX_TABLE_SIZE = 0x00ffffff"

section \<open>State\<close>

record counter =
  cbytes :: u64
  cpackets :: u64

definition increment_counter :: "nat \<Rightarrow> counter \<Rightarrow> counter" where
  "increment_counter len c = \<lparr>cbytes = cbytes c + word_of_nat len, cpackets = cpackets c + 1\<rparr>"

definition query_counter :: "counter \<Rightarrow> u64 \<times> u64" where
  "query_counter c = (cbytes c, cpackets c)"

definition reset_counter :: "counter \<Rightarrow> counter" where
  "reset_counter c = \<lparr>cbytes = 0, cpackets = 0\<rparr>"

definition write_counter :: "u64 \<Rightarrow> u64 \<Rightarrow> counter \<Rightarrow> counter" where
  "write_counter b p c = \<lparr>cbytes = b, cpackets = p\<rparr>"

record entry_meta =
  ts :: nat
  timeout_ms :: nat
  em_counter :: counter
  em_version :: nat

definition null_meta :: entry_meta where
  "null_meta = \<lparr>ts = 0, timeout_ms = 0, em_counter = \<lparr>cbytes = 0, cpackets = 0\<rparr>, em_version = 0\<rparr>"

definition meta_reset :: "nat \<Rightarrow> entry_meta \<Rightarrow> entry_meta" where
  "meta_reset now m = m\<lparr>em_counter := reset_counter (em_counter m), ts := now\<rparr>"

record ('k, 'v) mu_entry =
  me_key :: 'k
  me_value :: 'v

record ('s, 'k, 'v) match_unit =
  mu_size :: nat
  num_entries :: nat
  mu_nbytes_key :: nat
  mu_handles :: handle_mgr
  mu_builder :: key_builder
  mu_meta :: "entry_meta list"
  direct_meters :: "nat option"
  mu_entries :: "('k, 'v) mu_entry list"
  mu_ls :: 's

text \<open>
  What a unit knows of its kind of key: the template instances of the builder, the overloads of
  \<^verbatim>\<open>get_priority\<close> and \<^verbatim>\<open>set_priority\<close>, and a default-constructed key.
\<close>

record 'k key_kind =
  kk_null :: 'k
  kk_from_params :: "key_builder \<Rightarrow> match_key_param list \<Rightarrow> 'k option"
  kk_to_params :: "key_builder \<Rightarrow> 'k \<Rightarrow> match_key_param list option"
  kk_set_priority :: "int \<Rightarrow> 'k \<Rightarrow> 'k"
  kk_get_priority :: "'k \<Rightarrow> int"

definition no_priority_set :: "int \<Rightarrow> 'k \<Rightarrow> 'k" where
  "no_priority_set p k = k"

definition no_priority_get :: "'k \<Rightarrow> int" where
  "no_priority_get k = - 1"

definition ternary_set_priority :: "int \<Rightarrow> 'a ternary_key_scheme \<Rightarrow> 'a ternary_key_scheme" where
  "ternary_set_priority p k = k\<lparr>kpriority := p\<rparr>"

definition ternary_get_priority :: "'a ternary_key_scheme \<Rightarrow> int" where
  "ternary_get_priority k = kpriority k"

definition exact_kind :: "match_key key_kind" where
  "exact_kind = \<lparr>kk_null = \<lparr>kdata = [], kversion = 0\<rparr>, kk_from_params = params_to_exact,
     kk_to_params = exact_to_params, kk_set_priority = no_priority_set, kk_get_priority = no_priority_get\<rparr>"

definition lpm_kind :: "lpm_key key_kind" where
  "lpm_kind = \<lparr>kk_null = \<lparr>kdata = [], kversion = 0, prefix_length = 0\<rparr>, kk_from_params = params_to_lpm,
     kk_to_params = lpm_to_params, kk_set_priority = no_priority_set, kk_get_priority = no_priority_get\<rparr>"

definition ternary_kind :: "ternary_key key_kind" where
  "ternary_kind = \<lparr>kk_null = \<lparr>kdata = [], kversion = 0, kmask = [], kpriority = int_max\<rparr>,
     kk_from_params = params_to_ternary, kk_to_params = ternary_to_params,
     kk_set_priority = ternary_set_priority, kk_get_priority = ternary_get_priority\<rparr>"

definition range_kind :: "range_key key_kind" where
  "range_kind = \<lparr>kk_null = \<lparr>kdata = [], kversion = 0, kmask = [], kpriority = int_max, range_widths = []\<rparr>,
     kk_from_params = params_to_range, kk_to_params = range_to_params,
     kk_set_priority = ternary_set_priority, kk_get_priority = ternary_get_priority\<rparr>"

text \<open>
  The constructors.  A size above the maximum is only reported: the assignment of the maximum
  goes to the parameter, after the member and the arrays got the requested size.
\<close>

definition mu_new :: "'k key_kind \<Rightarrow> 'v \<Rightarrow> 's \<Rightarrow> nat \<Rightarrow> key_builder \<Rightarrow> ('s, 'k, 'v) match_unit option" where
  "mu_new kk v0 ls n kb = do {
     kb1 \<leftarrow> build kb;
     Some \<lparr>mu_size = n, num_entries = 0, mu_nbytes_key = nbytes_key kb, mu_handles = mgr_new, mu_builder = kb1,
       mu_meta = replicate n null_meta, direct_meters = None,
       mu_entries = replicate n \<lparr>me_key = kk_null kk, me_value = v0\<rparr>, mu_ls = ls\<rparr> }"

section \<open>Handles of a unit\<close>

definition get_and_set_handle :: "('s, 'k, 'v) match_unit \<Rightarrow> (match_error + nat) \<times> ('s, 'k, 'v) match_unit" where
  "get_and_set_handle mu =
     (if mu_size mu \<le> num_entries mu then (Inl TABLE_FULL, mu)
      else case get_handle (mu_handles mu) of
        None \<Rightarrow> (Inl ERROR, mu)
      | Some (h, hs) \<Rightarrow> (Inr h, mu\<lparr>mu_handles := hs, num_entries := num_entries mu + 1\<rparr>))"

definition unset_handle :: "nat \<Rightarrow> ('s, 'k, 'v) match_unit \<Rightarrow> (match_error + unit) \<times> ('s, 'k, 'v) match_unit" where
  "unset_handle h mu =
     (let (ok, hs) = release_handle (mu_handles mu) h in
      if \<not> ok then (Inl INVALID_HANDLE, mu\<lparr>mu_handles := hs\<rparr>)
      else (Inr (), mu\<lparr>mu_handles := hs, num_entries := num_entries mu - 1\<rparr>))"

definition mu_valid_internal :: "('s, 'k, 'v) match_unit \<Rightarrow> nat \<Rightarrow> bool" where
  "mu_valid_internal mu h = valid_handle (mu_handles mu) h"

definition mu_valid_handle :: "('s, 'k, 'v) match_unit \<Rightarrow> u32 \<Rightarrow> bool" where
  "mu_valid_handle mu h = mu_valid_internal mu (HANDLE_INTERNAL h)"

definition get_entry_meta :: "('s, 'k, 'v) match_unit \<Rightarrow> u32 \<Rightarrow> entry_meta option" where
  "get_entry_meta mu h = nth_opt (mu_meta mu) (HANDLE_INTERNAL h)"

definition mu_reset_counters :: "('s, 'k, 'v) match_unit \<Rightarrow> ('s, 'k, 'v) match_unit" where
  "mu_reset_counters mu = mu\<lparr>mu_meta := map (\<lambda>m. m\<lparr>em_counter := reset_counter (em_counter m)\<rparr>) (mu_meta mu)\<rparr>"

text \<open>A meter array is its identity; \<open>n\<close> is its size.\<close>

definition set_direct_meters :: "nat \<Rightarrow> nat \<Rightarrow> ('s, 'k, 'v) match_unit \<Rightarrow> ('s, 'k, 'v) match_unit option" where
  "set_direct_meters arr n mu = do { guard (mu_size mu = n); Some (mu\<lparr>direct_meters := Some arr\<rparr>) }"

definition mu_get_meter :: "('s, 'k, 'v) match_unit \<Rightarrow> u32 \<Rightarrow> (nat \<times> nat) option" where
  "mu_get_meter mu h = do { arr \<leftarrow> direct_meters mu; guard (HANDLE_INTERNAL h < mu_size mu); Some (arr, HANDLE_INTERNAL h) }"

definition set_entry_ttl :: "nat \<Rightarrow> u32 \<Rightarrow> nat \<Rightarrow> ('s, 'k, 'v) match_unit \<Rightarrow> ((match_error + unit) \<times> ('s, 'k, 'v) match_unit) option" where
  "set_entry_ttl now h ttl mu =
     (let i = HANDLE_INTERNAL h in
      if \<not> mu_valid_internal mu i then Some (Inl INVALID_HANDLE, mu)
      else do {
        m \<leftarrow> nth_opt (mu_meta mu) i;
        Some (Inr (), mu\<lparr>mu_meta := (mu_meta mu)[i := m\<lparr>timeout_ms := ttl, ts := now\<rparr>]\<rparr>) })"

fun sweep_loop :: "nat \<Rightarrow> entry_meta list \<Rightarrow> nat list \<Rightarrow> u32 list \<Rightarrow> u32 list option" where
  "sweep_loop now ms [] es = Some es"
| "sweep_loop now ms (i # is) es = do {
     m \<leftarrow> nth_opt ms i;
     guard (ts m \<le> now);
     sweep_loop now ms is (if 0 < timeout_ms m \<and> timeout_ms m \<le> now - ts m then es @ [HANDLE_SET (em_version m) i] else es) }"

definition sweep_entries :: "nat \<Rightarrow> ('s, 'k, 'v) match_unit \<Rightarrow> u32 list \<Rightarrow> u32 list option" where
  "sweep_entries now mu es = do { is \<leftarrow> all_handles (mu_handles mu); sweep_loop now (mu_meta mu) is es }"

text \<open>The handles that a loop from \<^verbatim>\<open>handles_begin()\<close> to \<^verbatim>\<open>handles_end()\<close> yields.\<close>

definition entry_handles :: "('s, 'k, 'v) match_unit \<Rightarrow> u32 list option" where
  "entry_handles mu = do {
     is \<leftarrow> all_handles (mu_handles mu);
     map_opt (\<lambda>i. do { m \<leftarrow> nth_opt (mu_meta mu) i; Some (HANDLE_SET (em_version m) i) }) is }"

section \<open>Entries\<close>

definition lookup_key ::
  "('s, 'e match_key_scheme) lookup_ops \<Rightarrow> u8 list \<Rightarrow> ('s, 'e match_key_scheme, 'v) match_unit \<Rightarrow>
   ((u32 \<times> 'v) option \<times> ('s, 'e match_key_scheme, 'v) match_unit) option" where
  "lookup_key ops key mu = do {
     (r, s) \<leftarrow> ls_lookup ops (mu_ls mu) key;
     case r of
       None \<Rightarrow> Some (None, mu\<lparr>mu_ls := s\<rparr>)
     | Some i \<Rightarrow> do {
         e \<leftarrow> nth_opt (mu_entries mu) i;
         Some (Some (HANDLE_SET (kversion (me_key e)) i, me_value e), mu\<lparr>mu_ls := s\<rparr>) } }"

definition build_entry_from_match_key ::
  "'e match_key_scheme key_kind \<Rightarrow> key_builder \<Rightarrow> match_key_param list \<Rightarrow> int \<Rightarrow> (match_error + 'e match_key_scheme) option" where
  "build_entry_from_match_key kk kb ps prio = do {
     sane \<leftarrow> match_params_sanity_check kb ps;
     if \<not> sane then Some (Inl BAD_MATCH_KEY)
     else do {
       k \<leftarrow> kk_from_params kk kb ps;
       d \<leftarrow> apply_big_mask kb (kdata k);
       Some (Inr (kk_set_priority kk prio (k\<lparr>kdata := d\<rparr>))) } }"

definition add_entry_internal ::
  "('s, 'e match_key_scheme) lookup_ops \<Rightarrow> 'e match_key_scheme key_kind \<Rightarrow> match_key_param list \<Rightarrow> 'v \<Rightarrow> int \<Rightarrow>
   ('s, 'e match_key_scheme, 'v) match_unit \<Rightarrow> ((match_error + u32) \<times> ('s, 'e match_key_scheme, 'v) match_unit) option" where
  "add_entry_internal ops kk ps v prio mu = do {
     b \<leftarrow> build_entry_from_match_key kk (mu_builder mu) ps prio;
     case b of
       Inl e \<Rightarrow> Some (Inl e, mu)
     | Inr k \<Rightarrow> do {
         present \<leftarrow> ls_entry_exists ops (mu_ls mu) k;
         if present then Some (Inl DUPLICATE_ENTRY, mu)
         else case get_and_set_handle mu of
           (Inl e, mu1) \<Rightarrow> Some (Inl e, mu1)
         | (Inr i, mu1) \<Rightarrow> do {
             old \<leftarrow> nth_opt (mu_entries mu1) i;
             let k1 = k\<lparr>kversion := kversion (me_key old)\<rparr>;
             s \<leftarrow> ls_add_entry ops (mu_ls mu1) k1 i;
             Some (Inr (HANDLE_SET (kversion (me_key old)) i),
               mu1\<lparr>mu_entries := (mu_entries mu1)[i := \<lparr>me_key = k1, me_value = v\<rparr>], mu_ls := s\<rparr>) } } }"

definition mu_add_entry ::
  "('s, 'e match_key_scheme) lookup_ops \<Rightarrow> 'e match_key_scheme key_kind \<Rightarrow> nat \<Rightarrow> match_key_param list \<Rightarrow> 'v \<Rightarrow> int \<Rightarrow>
   ('s, 'e match_key_scheme, 'v) match_unit \<Rightarrow> ((match_error + u32) \<times> ('s, 'e match_key_scheme, 'v) match_unit) option" where
  "mu_add_entry ops kk now ps v prio mu = do {
     (r, mu1) \<leftarrow> add_entry_internal ops kk ps v prio mu;
     case r of
       Inl e \<Rightarrow> Some (Inl e, mu1)
     | Inr h \<Rightarrow> do {
         m \<leftarrow> nth_opt (mu_meta mu1) (HANDLE_INTERNAL h);
         Some (Inr h, mu1\<lparr>mu_meta := (mu_meta mu1)[HANDLE_INTERNAL h := (meta_reset now m)\<lparr>em_version := HANDLE_VERSION h\<rparr>]\<rparr>) } }"

text \<open>
  The guards that open \<^verbatim>\<open>delete_entry_\<close>, \<^verbatim>\<open>modify_entry_\<close>, \<^verbatim>\<open>get_value_\<close> and
  \<^verbatim>\<open>get_entry_\<close>: the handle is allocated and its version is the one of the entry.
\<close>

definition checked_entry ::
  "('s, 'e match_key_scheme, 'v) match_unit \<Rightarrow> u32 \<Rightarrow> (match_error + ('e match_key_scheme, 'v) mu_entry) option" where
  "checked_entry mu h =
     (if \<not> mu_valid_internal mu (HANDLE_INTERNAL h) then Some (Inl INVALID_HANDLE)
      else do {
        e \<leftarrow> nth_opt (mu_entries mu) (HANDLE_INTERNAL h);
        Some (if HANDLE_VERSION h \<noteq> kversion (me_key e) then Inl EXPIRED_HANDLE else Inr e) })"

definition mu_delete_entry ::
  "('s, 'e match_key_scheme) lookup_ops \<Rightarrow> u32 \<Rightarrow> ('s, 'e match_key_scheme, 'v) match_unit \<Rightarrow>
   ((match_error + unit) \<times> ('s, 'e match_key_scheme, 'v) match_unit) option" where
  "mu_delete_entry ops h mu = do {
     c \<leftarrow> checked_entry mu h;
     case c of
       Inl e \<Rightarrow> Some (Inl e, mu)
     | Inr e \<Rightarrow> do {
         let i = HANDLE_INTERNAL h;
         let k1 = (me_key e)\<lparr>kversion := (kversion (me_key e) + 1) mod 2 ^ 32\<rparr>;
         s \<leftarrow> ls_delete_entry ops (mu_ls mu) k1;
         Some (unset_handle i (mu\<lparr>mu_entries := (mu_entries mu)[i := e\<lparr>me_key := k1\<rparr>], mu_ls := s\<rparr>)) } }"

definition mu_modify_entry ::
  "u32 \<Rightarrow> 'v \<Rightarrow> ('s, 'e match_key_scheme, 'v) match_unit \<Rightarrow>
   ((match_error + unit) \<times> ('s, 'e match_key_scheme, 'v) match_unit) option" where
  "mu_modify_entry h v mu = do {
     c \<leftarrow> checked_entry mu h;
     case c of
       Inl e \<Rightarrow> Some (Inl e, mu)
     | Inr e \<Rightarrow> Some (Inr (), mu\<lparr>mu_entries := (mu_entries mu)[HANDLE_INTERNAL h := e\<lparr>me_value := v\<rparr>]\<rparr>) }"

definition mu_get_value ::
  "u32 \<Rightarrow> ('s, 'e match_key_scheme, 'v) match_unit \<Rightarrow> (match_error + 'v) option" where
  "mu_get_value h mu = do {
     c \<leftarrow> checked_entry mu h;
     Some (case c of Inl e \<Rightarrow> Inl e | Inr e \<Rightarrow> Inr (me_value e)) }"

definition mu_get_entry ::
  "'e match_key_scheme key_kind \<Rightarrow> u32 \<Rightarrow> ('s, 'e match_key_scheme, 'v) match_unit \<Rightarrow>
   (match_error + match_key_param list \<times> 'v \<times> int) option" where
  "mu_get_entry kk h mu = do {
     c \<leftarrow> checked_entry mu h;
     case c of
       Inl e \<Rightarrow> Some (Inl e)
     | Inr e \<Rightarrow> do {
         ps \<leftarrow> kk_to_params kk (mu_builder mu) (me_key e);
         Some (Inr (ps, me_value e, kk_get_priority kk (me_key e))) } }"

definition mu_retrieve_handle ::
  "('s, 'e match_key_scheme) lookup_ops \<Rightarrow> 'e match_key_scheme key_kind \<Rightarrow> match_key_param list \<Rightarrow> int \<Rightarrow>
   ('s, 'e match_key_scheme, 'v) match_unit \<Rightarrow> (match_error + u32) option" where
  "mu_retrieve_handle ops kk ps prio mu = do {
     b \<leftarrow> build_entry_from_match_key kk (mu_builder mu) ps prio;
     case b of
       Inl e \<Rightarrow> Some (Inl e)
     | Inr k \<Rightarrow> do {
         r \<leftarrow> ls_retrieve_handle ops (mu_ls mu) k;
         case r of
           None \<Rightarrow> Some (Inl BAD_MATCH_KEY)
         | Some i \<Rightarrow> do {
             e \<leftarrow> nth_opt (mu_entries mu) i;
             Some (Inr (HANDLE_SET (kversion (me_key e)) i)) } } }"

definition mu_reset_state ::
  "('s, 'e match_key_scheme) lookup_ops \<Rightarrow> 'e match_key_scheme key_kind \<Rightarrow> 'v \<Rightarrow> ('s, 'e match_key_scheme, 'v) match_unit \<Rightarrow>
   ('s, 'e match_key_scheme, 'v) match_unit option" where
  "mu_reset_state ops kk v0 mu = do {
     s \<leftarrow> ls_clear ops (mu_ls mu);
     Some (mu\<lparr>num_entries := 0, mu_handles := mgr_clear (mu_handles mu), mu_meta := replicate (mu_size mu) null_meta,
       mu_ls := s, mu_entries := replicate (mu_size mu) \<lparr>me_key = kk_null kk, me_value = v0\<rparr>\<rparr>) }"

text \<open>A packet of \<open>len\<close> bytes that came in at \<open>now\<close>.\<close>

definition mu_lookup ::
  "('s, 'e match_key_scheme) lookup_ops \<Rightarrow> phv \<Rightarrow> nat \<Rightarrow> nat \<Rightarrow> ('s, 'e match_key_scheme, 'v) match_unit \<Rightarrow>
   ((u32 \<times> 'v) option \<times> ('s, 'e match_key_scheme, 'v) match_unit) option" where
  "mu_lookup ops p len now mu = do {
     key \<leftarrow> build_key (mu_builder mu) p [];
     (r, mu1) \<leftarrow> lookup_key ops key mu;
     case r of
       None \<Rightarrow> Some (None, mu1)
     | Some (h, v) \<Rightarrow> do {
         m \<leftarrow> nth_opt (mu_meta mu1) (HANDLE_INTERNAL h);
         Some (Some (h, v), mu1\<lparr>mu_meta := (mu_meta mu1)[HANDLE_INTERNAL h :=
           m\<lparr>em_counter := increment_counter len (em_counter m), ts := now\<rparr>]\<rparr>) } }"

section \<open>Handles and versions\<close>

lemma internal_mask: "(0x00ffffff :: u32) = mask 24" "(0xff :: u32) = mask 8"
  by (simp_all add: mask_eq_exp_minus_1)

lemma handle_parts:
  assumes "i < 2 ^ 24"
  shows "HANDLE_INTERNAL (HANDLE_SET v i) = i" "HANDLE_VERSION (HANDLE_SET v i) = v mod 256"
proof -
  have hi: "m < 24" if b: "bit (word_of_nat i :: u32) m" for m
  proof (rule ccontr)
    assume "\<not> m < 24"
    then have that: "24 \<le> m" by simp
    have "i < 2 ^ m" using assms that by (meson less_le_trans one_le_numeral power_increasing)
    then have "\<not> bit i m" by (simp add: bit_iff_odd)
    then have "\<not> bit (word_of_nat i :: u32) m" by transfer (simp add: bit_take_bit_iff bit_of_nat_iff_bit)
    with b show False by simp
  qed
  have "and (HANDLE_SET v i) (mask 24) = word_of_nat i"
    by (rule bit_word_eqI) (use hi in \<open>fastforce simp: HANDLE_SET_def bit_and_iff bit_or_iff bit_push_bit_iff bit_mask_iff\<close>)
  then show "HANDLE_INTERNAL (HANDLE_SET v i) = i"
    using assms by (simp add: HANDLE_INTERNAL_def internal_mask unat_of_nat)
  have "drop_bit 24 (HANDLE_SET v i) = and (word_of_nat v) (mask 8)"
    by (rule bit_word_eqI)
      (use hi in \<open>fastforce simp: HANDLE_SET_def internal_mask bit_and_iff bit_or_iff bit_push_bit_iff bit_mask_iff bit_drop_bit_eq\<close>)
  moreover have "unat (and (word_of_nat v) (mask 8) :: u32) = v mod 256"
  proof -
    have "and (word_of_nat v) (mask 8) = take_bit 8 (word_of_nat v :: u32)" by (simp only: take_bit_eq_mask)
    then have "unat (and (word_of_nat v) (mask 8) :: u32) = take_bit 8 (take_bit 32 v)"
      by (simp only: unsigned_take_bit_eq unsigned_of_nat) simp
    then show ?thesis by (simp add: take_bit_eq_mod mod_mod_cancel)
  qed
  ultimately show "HANDLE_VERSION (HANDLE_SET v i) = v mod 256" by (simp add: HANDLE_VERSION_def)
qed

lemma handle_eqI: "HANDLE_INTERNAL h = HANDLE_INTERNAL h' \<Longrightarrow> HANDLE_VERSION h = HANDLE_VERSION h' \<Longrightarrow> h = h'"
proof -
  assume "HANDLE_INTERNAL h = HANDLE_INTERNAL h'" "HANDLE_VERSION h = HANDLE_VERSION h'"
  then have a: "and h (mask 24) = and h' (mask 24)" and d: "drop_bit 24 h = drop_bit 24 h'"
    by (simp_all add: HANDLE_INTERNAL_def HANDLE_VERSION_def internal_mask word_unat_eq_iff)
  show "h = h'"
  proof (rule bit_word_eqI)
    fix m assume "m < LENGTH(32)"
    show "bit h m = bit h' m"
    proof (cases "m < 24")
      case True
      then show ?thesis using arg_cong [OF a, of "\<lambda>w. bit w m"] by (simp add: bit_and_iff bit_mask_iff)
    next
      case False
      then show ?thesis using arg_cong [OF d, of "\<lambda>w. bit w (m - 24)"] by (simp add: bit_drop_bit_eq)
    qed
  qed
qed

lemma handle_ranges: "HANDLE_INTERNAL h < 2 ^ 24" "HANDLE_VERSION h < 256"
proof -
  have "unat (take_bit 24 h) < 2 ^ 24" unfolding unsigned_take_bit_eq by (rule take_bit_nat_less_exp)
  then show "HANDLE_INTERNAL h < 2 ^ 24" by (simp add: HANDLE_INTERNAL_def internal_mask flip: take_bit_eq_mask)
  have "unat (drop_bit 24 h) = unat h div 2 ^ 24" unfolding unat_drop_bit_eq by (simp add: drop_bit_eq_div)
  moreover have "unat h < 2 ^ 32" using unat_bound [of h] by simp
  ultimately show "HANDLE_VERSION h < 256" by (simp add: HANDLE_VERSION_def)
qed

section \<open>The contract of a unit with its lookup structure\<close>

text \<open>
  A unit is well formed if the lookup structure holds exactly the keys of the allocated slots, each
  under the handle of its slot.  The parameters are those of \<open>lookup_structure\<close>.
\<close>

definition unit_wf ::
  "('s \<Rightarrow> bool) \<Rightarrow> ('e match_key_scheme \<Rightarrow> bool) \<Rightarrow> ('s \<Rightarrow> 'e match_key_scheme \<Rightarrow> nat option) \<Rightarrow> ('s \<Rightarrow> nat) \<Rightarrow> nat \<Rightarrow>
   ('s, 'e match_key_scheme, 'v) match_unit \<Rightarrow> bool" where
  "unit_wf I ok holds cap n mu \<longleftrightarrow>
     I (mu_ls mu) \<and> mu_size mu \<le> cap (mu_ls mu) \<and> mu_size mu \<le> 2 ^ 24 \<and>
     kb_wf (mu_builder mu) \<and> nbytes_key (mu_builder mu) = n \<and>
     length (mu_entries mu) = mu_size mu \<and> length (mu_meta mu) = mu_size mu \<and>
     mu_handles mu = used_handles ok holds (mu_ls mu) \<and> (\<forall>h \<in> mu_handles mu. h < mu_size mu) \<and>
     num_entries mu = card (mu_handles mu) \<and>
     (\<forall>h \<in> mu_handles mu. ok (me_key (mu_entries mu ! h)) \<and> holds (mu_ls mu) (me_key (mu_entries mu ! h)) = Some h \<and>
        em_version (mu_meta mu ! h) = kversion (me_key (mu_entries mu ! h)) mod 256)"

text \<open>The finite map that a unit stands for.\<close>

definition unit_table ::
  "('e match_key_scheme \<Rightarrow> bool) \<Rightarrow> ('s \<Rightarrow> 'e match_key_scheme \<Rightarrow> nat option) \<Rightarrow>
   ('s, 'e match_key_scheme, 'v) match_unit \<Rightarrow> 'e match_key_scheme \<Rightarrow> 'v option" where
  "unit_table ok holds mu k =
     (if ok k then map_option (\<lambda>h. me_value (mu_entries mu ! h)) (holds (mu_ls mu) k) else None)"

definition slot_version :: "('s, 'e match_key_scheme, 'v) match_unit \<Rightarrow> nat \<Rightarrow> nat" where
  "slot_version mu i = kversion (me_key (mu_entries mu ! i))"

locale unit_parts = lookup_structure ops inv ok same holds cap fits n
  for ops :: "('s, 'e match_key_scheme) lookup_ops" and inv ok same holds cap fits n +
  fixes kk :: "'e match_key_scheme key_kind" and accepts :: "key_builder \<Rightarrow> match_key_param list \<Rightarrow> bool"
  assumes same_version: "same (k\<lparr>kversion := v\<rparr>) k"
    and same_trans: "same k1 k2 \<Longrightarrow> same k2 k3 \<Longrightarrow> same k1 k3"
    and ok_version: "ok (k\<lparr>kversion := v\<rparr>) \<longleftrightarrow> ok k"
    and fits_version: "fits s (k\<lparr>kversion := v\<rparr>) \<longleftrightarrow> fits s k"
    and ok_data: "ok k \<Longrightarrow> length d = length (kdata k) \<Longrightarrow> ok (k\<lparr>kdata := d\<rparr>)"
    and ok_length: "ok k \<Longrightarrow> length (kdata k) = n"
    and ok_priority: "ok k \<Longrightarrow> ok (kk_set_priority kk p k)"
    and from_params: "sane kb ps \<Longrightarrow> accepts kb ps \<Longrightarrow> nbytes_key kb = n \<Longrightarrow> \<exists>k. kk_from_params kk kb ps = Some k \<and> ok k"
begin

lemma wf_finite: "unit_wf inv ok holds cap n mu \<Longrightarrow> finite (mu_handles mu)"
  unfolding unit_wf_def by (meson bounded_nat_set_is_finite)

lemma same_version': "same k (k\<lparr>kversion := v\<rparr>)"
  using same_version same_sym by blast

lemma holds_version: "inv s \<Longrightarrow> ok k \<Longrightarrow> holds s (k\<lparr>kversion := v\<rparr>) = holds s k"
  using holds_same same_version ok_version by blast

lemma build_entry:
  assumes "kb_wf kb" "nbytes_key kb = n"
  shows "match_params_sanity_check kb ps = Some False \<Longrightarrow> build_entry_from_match_key kk kb ps prio = Some (Inl BAD_MATCH_KEY)"
    and "sane kb ps \<Longrightarrow> accepts kb ps \<Longrightarrow> \<exists>k. build_entry_from_match_key kk kb ps prio = Some (Inr k) \<and> ok k"
proof -
  show "match_params_sanity_check kb ps = Some False \<Longrightarrow> build_entry_from_match_key kk kb ps prio = Some (Inl BAD_MATCH_KEY)"
    by (simp add: build_entry_from_match_key_def)
  assume "sane kb ps" "accepts kb ps"
  then obtain k where k: "kk_from_params kk kb ps = Some k" "ok k" "match_params_sanity_check kb ps = Some True"
    using from_params assms(2) by (auto simp: sane_def)
  obtain d where d: "apply_big_mask kb (kdata k) = Some d" "length d = length (kdata k)"
  proof (cases "has_big_mask kb")
    case True
    have "length (big_mask kb) = length (kdata k)" using ok_length [OF k(2)] assms by (simp add: kb_wf_def)
    then show ?thesis using True that by (simp add: apply_big_mask_def apply_mask_def)
  qed (simp add: apply_big_mask_def)
  then have "ok (kk_set_priority kk prio (k\<lparr>kdata := d\<rparr>))" using ok_data [OF k(2)] ok_priority by blast
  with k d show "\<exists>k. build_entry_from_match_key kk kb ps prio = Some (Inr k) \<and> ok k"
    by (simp add: build_entry_from_match_key_def)
qed

lemma add_new:
  assumes wf: "unit_wf inv ok holds cap n mu" and room: "num_entries mu < mu_size mu"
    and k: "build_entry_from_match_key kk (mu_builder mu) ps prio = Some (Inr k)" "ok k"
    and new: "holds (mu_ls mu) k = None" "fits (mu_ls mu) k"
  obtains i s where "i \<notin> mu_handles mu" "{..<i} \<subseteq> mu_handles mu" "i < mu_size mu"
    "mu_add_entry ops kk now ps v prio mu = Some (Inr (HANDLE_SET (slot_version mu i) i),
       mu\<lparr>mu_handles := insert i (mu_handles mu), num_entries := num_entries mu + 1,
         mu_entries := (mu_entries mu)[i := \<lparr>me_key = k\<lparr>kversion := slot_version mu i\<rparr>, me_value = v\<rparr>], mu_ls := s,
         mu_meta := (mu_meta mu)[i := (meta_reset now (mu_meta mu ! i))\<lparr>em_version := slot_version mu i mod 256\<rparr>]\<rparr>)"
    "inv s" "cap s = cap (mu_ls mu)" "\<forall>k'. ok k' \<longrightarrow> holds s k' = (if same k k' then Some i else holds (mu_ls mu) k')"
proof -
  note w = wf [unfolded unit_wf_def]
  have fin: "finite (mu_handles mu)" using wf_finite [OF wf] .
  have "card (mu_handles mu) \<le> word_max" using w room by (auto simp: word_max_def)
  then obtain i where i: "get_handle (mu_handles mu) = Some (i, insert i (mu_handles mu))"
      "i \<notin> mu_handles mu" "{..<i} \<subseteq> mu_handles mu" "i \<le> card (mu_handles mu)"
    using get_handle_total [OF fin] get_handle_Some [OF fin] by blast
  then have isz: "i < mu_size mu" using w room by linarith
  let ?k1 = "k\<lparr>kversion := slot_version mu i\<rparr>"
  have ver: "same ?k1 k' \<longleftrightarrow> same k k'" for k' using same_trans same_version same_version' by blast
  have "\<exists>s. ls_add_entry ops (mu_ls mu) ?k1 i = Some s \<and> inv s \<and> cap s = cap (mu_ls mu) \<and>
      (\<forall>k'. ok k' \<longrightarrow> holds s k' = (if same ?k1 k' then Some i else holds (mu_ls mu) k'))"
  proof (rule add)
    show "inv (mu_ls mu)" using w by blast
    show "ok ?k1" "fits (mu_ls mu) ?k1" using k(2) new(2) ok_version fits_version by simp_all
    show "holds (mu_ls mu) ?k1 = None" using holds_version w k(2) new(1) by simp
    show "i < cap (mu_ls mu)" using w isz by linarith
    show "i \<notin> used_handles ok holds (mu_ls mu)" "{..<i} \<subseteq> used_handles ok holds (mu_ls mu)" using i w by simp_all
  qed
  then obtain s where s: "ls_add_entry ops (mu_ls mu) ?k1 i = Some s" "inv s" "cap s = cap (mu_ls mu)"
      "\<forall>k'. ok k' \<longrightarrow> holds s k' = (if same k k' then Some i else holds (mu_ls mu) k')" using ver by auto
  have ex: "ls_entry_exists ops (mu_ls mu) k = Some False" using exists [of "mu_ls mu" k] w k(2) new(1) by simp
  have i24: "i < 2 ^ 24" using w isz by linarith
  have "mu_add_entry ops kk now ps v prio mu = Some (Inr (HANDLE_SET (slot_version mu i) i),
       mu\<lparr>mu_handles := insert i (mu_handles mu), num_entries := num_entries mu + 1,
         mu_entries := (mu_entries mu)[i := \<lparr>me_key = ?k1, me_value = v\<rparr>], mu_ls := s,
         mu_meta := (mu_meta mu)[i := (meta_reset now (mu_meta mu ! i))\<lparr>em_version := slot_version mu i mod 256\<rparr>]\<rparr>)"
    using k(1) ex i(1) room w isz s(1) handle_parts [OF i24]
    by (simp add: mu_add_entry_def add_entry_internal_def get_and_set_handle_def slot_version_def)
  then show ?thesis using i(2,3) isz s(2-4) by (intro that)
qed

lemma add_new_wf:
  assumes wf: "unit_wf inv ok holds cap n mu" and "num_entries mu < mu_size mu"
    and "build_entry_from_match_key kk (mu_builder mu) ps prio = Some (Inr k)" "ok k"
    and "holds (mu_ls mu) k = None" "fits (mu_ls mu) k"
  obtains h mu' where "mu_add_entry ops kk now ps v prio mu = Some (Inr h, mu')" "unit_wf inv ok holds cap n mu'"
    "mu_builder mu' = mu_builder mu" "mu_size mu' = mu_size mu"
    "HANDLE_INTERNAL h \<notin> mu_handles mu" "{..<HANDLE_INTERNAL h} \<subseteq> mu_handles mu"
    "mu_handles mu' = insert (HANDLE_INTERNAL h) (mu_handles mu)"
    "holds (mu_ls mu') k = Some (HANDLE_INTERNAL h)" "slot_version mu' (HANDLE_INTERNAL h) = slot_version mu (HANDLE_INTERNAL h)"
    "HANDLE_VERSION h = slot_version mu (HANDLE_INTERNAL h) mod 256"
    "me_value (mu_entries mu' ! HANDLE_INTERNAL h) = v" "me_key (mu_entries mu' ! HANDLE_INTERNAL h) = k\<lparr>kversion := slot_version mu (HANDLE_INTERNAL h)\<rparr>"
    "\<forall>k'. unit_table ok holds mu' k' = (if ok k' \<and> same k k' then Some v else unit_table ok holds mu k')"
proof -
  note w = wf [unfolded unit_wf_def]
  obtain i s where i: "i \<notin> mu_handles mu" "{..<i} \<subseteq> mu_handles mu" "i < mu_size mu"
    and e: "mu_add_entry ops kk now ps v prio mu = Some (Inr (HANDLE_SET (slot_version mu i) i),
       mu\<lparr>mu_handles := insert i (mu_handles mu), num_entries := num_entries mu + 1,
         mu_entries := (mu_entries mu)[i := \<lparr>me_key = k\<lparr>kversion := slot_version mu i\<rparr>, me_value = v\<rparr>], mu_ls := s,
         mu_meta := (mu_meta mu)[i := (meta_reset now (mu_meta mu ! i))\<lparr>em_version := slot_version mu i mod 256\<rparr>]\<rparr>)"
    and s: "inv s" "cap s = cap (mu_ls mu)" "\<forall>k'. ok k' \<longrightarrow> holds s k' = (if same k k' then Some i else holds (mu_ls mu) k')"
    by (rule add_new [OF assms]) blast
  let ?mu' = "mu\<lparr>mu_handles := insert i (mu_handles mu), num_entries := num_entries mu + 1,
         mu_entries := (mu_entries mu)[i := \<lparr>me_key = k\<lparr>kversion := slot_version mu i\<rparr>, me_value = v\<rparr>], mu_ls := s,
         mu_meta := (mu_meta mu)[i := (meta_reset now (mu_meta mu ! i))\<lparr>em_version := slot_version mu i mod 256\<rparr>]\<rparr>"
  have used: "used_handles ok holds s = insert i (mu_handles mu)"
    using used_add [OF assms(4,5) _ s(3)] w by simp
  have other: "\<not> same k (me_key (mu_entries mu ! h))" if "h \<in> mu_handles mu" for h
    using holds_same [of "mu_ls mu" k "me_key (mu_entries mu ! h)"] w assms(4,5) that by auto
  have len: "length (mu_entries mu) = mu_size mu" "length (mu_meta mu) = mu_size mu" using w by blast+
  have self: "holds s (k\<lparr>kversion := slot_version mu i\<rparr>) = Some i" using s(3) ok_version same_version' assms(4) by simp
  have ent: "\<forall>h \<in> mu_handles ?mu'. ok (me_key (mu_entries ?mu' ! h)) \<and> holds (mu_ls ?mu') (me_key (mu_entries ?mu' ! h)) = Some h \<and>
      em_version (mu_meta ?mu' ! h) = kversion (me_key (mu_entries ?mu' ! h)) mod 256"
  proof
    fix h assume h: "h \<in> mu_handles ?mu'"
    show "ok (me_key (mu_entries ?mu' ! h)) \<and> holds (mu_ls ?mu') (me_key (mu_entries ?mu' ! h)) = Some h \<and>
      em_version (mu_meta ?mu' ! h) = kversion (me_key (mu_entries ?mu' ! h)) mod 256"
    proof (cases "h = i")
      case True
      then show ?thesis using len i(3) ok_version assms(4) self by simp
    next
      case False
      then have "h \<in> mu_handles mu" using h by simp
      then show ?thesis using w False s(3) other by simp
    qed
  qed
  have fin: "finite (mu_handles mu)" using wf_finite [OF wf] .
  have wf': "unit_wf inv ok holds cap n ?mu'"
    unfolding unit_wf_def using ent w i s(1,2) used fin by simp
  have "unit_table ok holds ?mu' k' = (if ok k' \<and> same k k' then Some v else unit_table ok holds mu k')" for k'
  proof (cases "ok k' \<and> \<not> same k k'")
    case True
    then have "holds s k' = holds (mu_ls mu) k'" using s(3) by simp
    moreover have "holds (mu_ls mu) k' \<noteq> Some i" using True i(1) w by (auto simp: used_handles_def)
    ultimately show ?thesis using True by (cases "holds (mu_ls mu) k'") (auto simp: unit_table_def)
  next
    case False
    then show ?thesis using s(3) len i(3) by (auto simp: unit_table_def)
  qed
  moreover have i24: "i < 2 ^ 24" using w i(3) by linarith
  moreover have "holds s k = Some i" using s(3) assms(4) same_refl by simp
  ultimately show ?thesis
    using e wf' i len handle_parts [OF i24] by (intro that [of "HANDLE_SET (slot_version mu i) i" ?mu']) (simp_all add: slot_version_def)
qed

lemma checked_ok:
  assumes "unit_wf inv ok holds cap n mu"
  shows "checked_entry mu h = Some (if HANDLE_INTERNAL h \<notin> mu_handles mu then Inl INVALID_HANDLE
    else if HANDLE_VERSION h \<noteq> slot_version mu (HANDLE_INTERNAL h) then Inl EXPIRED_HANDLE
    else Inr (mu_entries mu ! HANDLE_INTERNAL h))"
  using assms by (auto simp: checked_entry_def mu_valid_internal_def valid_handle_def slot_version_def unit_wf_def)

lemma delete_wf:
  assumes wf: "unit_wf inv ok holds cap n mu"
    and h: "HANDLE_INTERNAL h \<in> mu_handles mu" "HANDLE_VERSION h = slot_version mu (HANDLE_INTERNAL h)"
  obtains mu' where "mu_delete_entry ops h mu = Some (Inr (), mu')" "unit_wf inv ok holds cap n mu'"
    "mu_builder mu' = mu_builder mu" "mu_size mu' = mu_size mu" "mu_handles mu' = mu_handles mu - {HANDLE_INTERNAL h}"
    "slot_version mu' (HANDLE_INTERNAL h) = (slot_version mu (HANDLE_INTERNAL h) + 1) mod 2 ^ 32"
    "\<And>j. j \<noteq> HANDLE_INTERNAL h \<Longrightarrow> mu_entries mu' ! j = mu_entries mu ! j"
    "\<forall>k'. unit_table ok holds mu' k' =
      (if ok k' \<and> same (me_key (mu_entries mu ! HANDLE_INTERNAL h)) k' then None else unit_table ok holds mu k')"
proof -
  define i where "i = HANDLE_INTERNAL h"
  note w = wf [unfolded unit_wf_def]
  let ?e = "mu_entries mu ! i"
  define v1 where "v1 = (kversion (me_key ?e) + 1) mod 2 ^ 32"
  let ?k1 = "(me_key ?e)\<lparr>kversion := v1\<rparr>"
  have i: "i \<in> mu_handles mu" "i < mu_size mu" "ok (me_key ?e)" "holds (mu_ls mu) (me_key ?e) = Some i"
    using h w by (auto simp: i_def)
  have len: "length (mu_entries mu) = mu_size mu" and I: "inv (mu_ls mu)" using w by blast+
  have hk1: "holds (mu_ls mu) ?k1 = Some i" "ok ?k1" using holds_version [OF I i(3)] i(3,4) ok_version by simp_all
  have ver: "same ?k1 k' \<longleftrightarrow> same (me_key ?e) k'" for k' using same_trans same_version same_version' by blast
  obtain s where s: "ls_delete_entry ops (mu_ls mu) ?k1 = Some s" "inv s" "cap s = cap (mu_ls mu)"
      "\<forall>k'. ok k' \<longrightarrow> holds s k' = (if same (me_key ?e) k' then None else holds (mu_ls mu) k')"
    using delete [OF I hk1(2)] hk1(1) ver by auto
  let ?mu' = "mu\<lparr>mu_entries := (mu_entries mu)[i := ?e\<lparr>me_key := ?k1\<rparr>], mu_ls := s, mu_handles := mu_handles mu - {i},
      num_entries := num_entries mu - 1\<rparr>"
  have del: "mu_delete_entry ops h mu = Some (Inr (), ?mu')"
    using checked_ok [OF wf, of h] h s(1) i(1)
    by (simp add: mu_delete_entry_def unset_handle_def release_handle_def i_def [symmetric] v1_def slot_version_def Let_def)
  have used: "used_handles ok holds s = mu_handles mu - {i}"
    using used_delete [OF i(3,4) I s(4)] w by simp
  have other: "\<not> same (me_key ?e) (me_key (mu_entries mu ! j))" if "j \<in> mu_handles mu" "j \<noteq> i" for j
    using holds_same [OF I i(3), of "me_key (mu_entries mu ! j)"] w i(4) that by auto
  have ent: "\<forall>j \<in> mu_handles ?mu'. ok (me_key (mu_entries ?mu' ! j)) \<and> holds (mu_ls ?mu') (me_key (mu_entries ?mu' ! j)) = Some j \<and>
      em_version (mu_meta ?mu' ! j) = kversion (me_key (mu_entries ?mu' ! j)) mod 256"
    using w s(4) other by auto
  have fin: "finite (mu_handles mu)" using wf_finite [OF wf] .
  have wf': "unit_wf inv ok holds cap n ?mu'"
    unfolding unit_wf_def using ent w s(2,3) used fin i(1) by (simp add: card_Diff_singleton)
  have "unit_table ok holds ?mu' k' = (if ok k' \<and> same (me_key ?e) k' then None else unit_table ok holds mu k')" for k'
  proof (cases "ok k' \<and> \<not> same (me_key ?e) k'")
    case True
    then have "holds s k' = holds (mu_ls mu) k'" using s(4) by simp
    moreover have "holds (mu_ls mu) k' \<noteq> Some i" using True holds_inj [OF I i(3) _ i(4), of k'] by auto
    ultimately show ?thesis using True by (cases "holds (mu_ls mu) k'") (auto simp: unit_table_def)
  next
    case False
    then show ?thesis using s(4) by (auto simp: unit_table_def)
  qed
  then show ?thesis
    using del wf' len i(2) by (intro that [of ?mu']) (simp_all add: slot_version_def v1_def i_def [symmetric])
qed

lemma modify_wf:
  assumes wf: "unit_wf inv ok holds cap n mu"
    and h: "HANDLE_INTERNAL h \<in> mu_handles mu" "HANDLE_VERSION h = slot_version mu (HANDLE_INTERNAL h)"
  obtains mu' where "mu_modify_entry h v mu = Some (Inr (), mu')" "unit_wf inv ok holds cap n mu'"
    "mu_builder mu' = mu_builder mu" "mu_size mu' = mu_size mu" "mu_handles mu' = mu_handles mu"
    "\<forall>j. slot_version mu' j = slot_version mu j"
    "\<forall>k'. unit_table ok holds mu' k' =
      (if ok k' \<and> same (me_key (mu_entries mu ! HANDLE_INTERNAL h)) k' then Some v else unit_table ok holds mu k')"
proof -
  define i where "i = HANDLE_INTERNAL h"
  note w = wf [unfolded unit_wf_def]
  let ?e = "mu_entries mu ! i"
  have i: "i \<in> mu_handles mu" "i < mu_size mu" "ok (me_key ?e)" "holds (mu_ls mu) (me_key ?e) = Some i"
    using h w by (auto simp: i_def)
  have len: "length (mu_entries mu) = mu_size mu" and I: "inv (mu_ls mu)" using w by blast+
  let ?mu' = "mu\<lparr>mu_entries := (mu_entries mu)[i := ?e\<lparr>me_value := v\<rparr>]\<rparr>"
  have mod: "mu_modify_entry h v mu = Some (Inr (), ?mu')"
    using checked_ok [OF wf, of h] h by (simp add: mu_modify_entry_def i_def)
  have keys: "me_key ((mu_entries mu)[i := ?e\<lparr>me_value := v\<rparr>] ! j) = me_key (mu_entries mu ! j)" for j
    by (simp add: nth_update_if)
  have wf': "unit_wf inv ok holds cap n ?mu'" unfolding unit_wf_def using w by (simp add: keys)
  have "unit_table ok holds ?mu' k' = (if ok k' \<and> same (me_key ?e) k' then Some v else unit_table ok holds mu k')" for k'
  proof (cases "ok k'")
    case True
    have "holds (mu_ls mu) k' = Some i \<longleftrightarrow> same (me_key ?e) k'"
      using holds_inj [OF I i(3) True i(4)] holds_same [OF I i(3) True] i(4) by auto
    then show ?thesis using True i(2) len by (cases "holds (mu_ls mu) k'") (auto simp: unit_table_def nth_update_if)
  qed (simp add: unit_table_def)
  then show ?thesis
    using mod wf' by (intro that [of ?mu']) (simp_all add: slot_version_def keys i_def [symmetric])
qed

lemma lookup_wf:
  assumes wf: "unit_wf inv ok holds cap n mu" and key: "length key = n"
  obtains r s where "ls_lookup ops (mu_ls mu) key = Some (r, s)" "unit_wf inv ok holds cap n (mu\<lparr>mu_ls := s\<rparr>)"
    "unit_table ok holds (mu\<lparr>mu_ls := s\<rparr>) = unit_table ok holds mu"
proof -
  note w = wf [unfolded unit_wf_def]
  obtain r s where s: "ls_lookup ops (mu_ls mu) key = Some (r, s)" "inv s" "cap s = cap (mu_ls mu)"
      "\<forall>k. ok k \<longrightarrow> holds s k = holds (mu_ls mu) k"
    using lookup [of "mu_ls mu" key] w key by auto
  then have "used_handles ok holds s = used_handles ok holds (mu_ls mu)" by (auto simp: used_handles_def)
  then have "unit_wf inv ok holds cap n (mu\<lparr>mu_ls := s\<rparr>)" unfolding unit_wf_def using w s by simp
  moreover have "unit_table ok holds (mu\<lparr>mu_ls := s\<rparr>) = unit_table ok holds mu" using s(4) by (auto simp: unit_table_def)
  ultimately show ?thesis using s(1) by (intro that)
qed

lemma reset_wf:
  assumes wf: "unit_wf inv ok holds cap n mu"
  obtains mu' where "mu_reset_state ops kk v0 mu = Some mu'" "unit_wf inv ok holds cap n mu'" "mu_handles mu' = {}"
    "mu_builder mu' = mu_builder mu" "\<forall>k. unit_table ok holds mu' k = None"
proof -
  note w = wf [unfolded unit_wf_def]
  obtain s where s: "ls_clear ops (mu_ls mu) = Some s" "inv s" "cap s = cap (mu_ls mu)" "\<forall>k. ok k \<longrightarrow> holds s k = None"
    using clear [of "mu_ls mu"] w by auto
  then have "used_handles ok holds s = {}" by (auto simp: used_handles_def)
  then show ?thesis
    using w s by (intro that [of "mu\<lparr>num_entries := 0, mu_handles := mgr_clear (mu_handles mu), mu_meta := replicate (mu_size mu) null_meta,
       mu_ls := s, mu_entries := replicate (mu_size mu) \<lparr>me_key = kk_null kk, me_value = v0\<rparr>\<rparr>"])
      (simp_all add: mu_reset_state_def unit_wf_def mgr_clear_def unit_table_def)
qed

lemma meta_wf:
  assumes "unit_wf inv ok holds cap n mu" "length ms = mu_size mu"
    and "\<forall>h \<in> mu_handles mu. em_version (ms ! h) = em_version (mu_meta mu ! h)"
  shows "unit_wf inv ok holds cap n (mu\<lparr>mu_meta := ms\<rparr>)"
  using assms unfolding unit_wf_def by simp

lemma new_wf:
  assumes "kb_open kb" "nbytes_key kb = n" "inv s" "\<forall>k. ok k \<longrightarrow> holds s k = None" "m \<le> cap s" "m \<le> 2 ^ 24"
  obtains mu where "mu_new kk v0 s m kb = Some mu" "unit_wf inv ok holds cap n mu" "\<forall>k. unit_table ok holds mu k = None"
proof -
  obtain kb1 where kb1: "build kb = Some kb1" "kb_wf kb1" "nbytes_key kb1 = nbytes_key kb"
    by (rule build_wf [OF assms(1)]) blast
  have "used_handles ok holds s = {}" using assms(4) by (auto simp: used_handles_def)
  then show ?thesis
    using kb1 assms by (intro that [of "\<lparr>mu_size = m, num_entries = 0, mu_nbytes_key = nbytes_key kb, mu_handles = mgr_new, mu_builder = kb1,
       mu_meta = replicate m null_meta, direct_meters = None,
       mu_entries = replicate m \<lparr>me_key = kk_null kk, me_value = v0\<rparr>, mu_ls = s\<rparr>"])
      (simp_all add: mu_new_def unit_wf_def mgr_new_def unit_table_def)
qed

end

text \<open>
  The steps of a unit in service: the client's operations, the packets, and ageing.  \<open>accepts\<close> and
  \<open>fits\<close> say what the parameters and keys of an insertion have to satisfy for the kind of unit.
\<close>

inductive unit_step ::
  "('s, 'e match_key_scheme) lookup_ops \<Rightarrow> 'e match_key_scheme key_kind \<Rightarrow> 'v \<Rightarrow> (key_builder \<Rightarrow> match_key_param list \<Rightarrow> bool) \<Rightarrow>
   ('s \<Rightarrow> 'e match_key_scheme \<Rightarrow> bool) \<Rightarrow> ('s, 'e match_key_scheme, 'v) match_unit \<Rightarrow> ('s, 'e match_key_scheme, 'v) match_unit \<Rightarrow> bool"
  for ops kk v0 accepts fits where
  step_add: "accepts (mu_builder mu) ps \<Longrightarrow>
    (\<forall>k. build_entry_from_match_key kk (mu_builder mu) ps prio = Some (Inr k) \<longrightarrow> fits (mu_ls mu) k) \<Longrightarrow>
    mu_add_entry ops kk now ps v prio mu = Some (r, mu') \<Longrightarrow> unit_step ops kk v0 accepts fits mu mu'"
| step_delete: "mu_delete_entry ops h mu = Some (r, mu') \<Longrightarrow> unit_step ops kk v0 accepts fits mu mu'"
| step_modify: "mu_modify_entry h v mu = Some (r, mu') \<Longrightarrow> unit_step ops kk v0 accepts fits mu mu'"
| step_lookup: "fields_sized (mu_builder mu) p \<Longrightarrow> mu_lookup ops p len now mu = Some (x, mu') \<Longrightarrow>
    unit_step ops kk v0 accepts fits mu mu'"
| step_ttl: "set_entry_ttl now h ttl mu = Some (r, mu') \<Longrightarrow> unit_step ops kk v0 accepts fits mu mu'"
| step_reset_counters: "unit_step ops kk v0 accepts fits mu (mu_reset_counters mu)"
| step_reset: "mu_reset_state ops kk v0 mu = Some mu' \<Longrightarrow> unit_step ops kk v0 accepts fits mu mu'"

lemma apply_mask_length: "apply_mask m key = Some d \<Longrightarrow> length d = length key"
  by (auto simp: apply_mask_def split: if_splits)

lemma packet_key_length:
  assumes "kb_wf kb" "fields_sized kb p"
  shows "\<exists>key. build_key kb p [] = Some key \<and> length key = nbytes_key kb"
proof -
  let ?vs = "map (\<lambda>f. the (field_value p f)) (key_input kb)"
  have "map_opt (field_value p) (key_input kb) = Some ?vs"
    using fields_sizedD(1) [OF assms(2)] by (simp add: map_opt_Some_iff list_all2_conv_all_nth)
  moreover have "length (concat ?vs) = nbytes_key kb"
  proof -
    have "map (length \<circ> (\<lambda>f. the (field_value p f))) (key_input kb) = map field_nbytes (key_input kb)"
      using fields_sizedD(2) [OF assms(2)] by simp
    then show ?thesis using assms(1) unfolding length_concat map_map by (simp only: kb_wf_def)
  qed
  ultimately show ?thesis
    using assms(1) by (auto simp: build_key_def append_fields apply_mask_def kb_wf_def)
qed

context unit_parts
begin

lemma add_result:
  assumes wf: "unit_wf inv ok holds cap n mu" and a: "accepts (mu_builder mu) ps"
    and f: "\<forall>k. build_entry_from_match_key kk (mu_builder mu) ps prio = Some (Inr k) \<longrightarrow> fits (mu_ls mu) k"
  shows "\<exists>r mu'. mu_add_entry ops kk now ps v prio mu = Some (r, mu') \<and> unit_wf inv ok holds cap n mu' \<and>
    (case r of
       Inl e \<Rightarrow> mu' = mu \<and> (if match_params_sanity_check (mu_builder mu) ps = Some False then e = BAD_MATCH_KEY
         else \<exists>k. build_entry_from_match_key kk (mu_builder mu) ps prio = Some (Inr k) \<and> ok k \<and>
           (if holds (mu_ls mu) k \<noteq> None then e = DUPLICATE_ENTRY else e = TABLE_FULL \<and> num_entries mu = mu_size mu))
     | Inr h \<Rightarrow> \<exists>k. build_entry_from_match_key kk (mu_builder mu) ps prio = Some (Inr k) \<and> ok k \<and>
         holds (mu_ls mu) k = None \<and> num_entries mu < mu_size mu \<and>
         mu_builder mu' = mu_builder mu \<and>
         mu_handles mu' = insert (HANDLE_INTERNAL h) (mu_handles mu) \<and>
         HANDLE_INTERNAL h \<notin> mu_handles mu \<and> {..<HANDLE_INTERNAL h} \<subseteq> mu_handles mu \<and>
         holds (mu_ls mu') k = Some (HANDLE_INTERNAL h) \<and>
         HANDLE_VERSION h = slot_version mu' (HANDLE_INTERNAL h) mod 256 \<and>
         slot_version mu' (HANDLE_INTERNAL h) = slot_version mu (HANDLE_INTERNAL h) \<and>
         (\<forall>k'. unit_table ok holds mu' k' = (if ok k' \<and> same k k' then Some v else unit_table ok holds mu k')))"
proof -
  note w = wf [unfolded unit_wf_def]
  have kb: "kb_wf (mu_builder mu)" "nbytes_key (mu_builder mu) = n" using w by blast+
  have sz: "num_entries mu \<le> mu_size mu"
    using w card_mono [of "{..<mu_size mu}" "mu_handles mu"] by auto
  show ?thesis
  proof (cases "match_params_sanity_check (mu_builder mu) ps = Some False")
    case True
    then show ?thesis using build_entry(1) [OF kb True, of prio] wf by (simp add: mu_add_entry_def add_entry_internal_def)
  next
    case False
    then have "sane (mu_builder mu) ps" using sanity_check_iff [OF kb(1), of ps] kb(1) by (auto simp: sane_def)
    then obtain k where k: "build_entry_from_match_key kk (mu_builder mu) ps prio = Some (Inr k)" "ok k"
      using build_entry(2) [OF kb _ a] by blast
    have ex: "ls_entry_exists ops (mu_ls mu) k = Some (holds (mu_ls mu) k \<noteq> None)" using exists w k(2) by blast
    consider (dup) "holds (mu_ls mu) k \<noteq> None" | (full) "holds (mu_ls mu) k = None" "num_entries mu = mu_size mu"
      | (new) "holds (mu_ls mu) k = None" "num_entries mu < mu_size mu" using sz by linarith
    then show ?thesis
    proof cases
      case dup
      then show ?thesis using k ex False wf by (auto simp: mu_add_entry_def add_entry_internal_def)
    next
      case full
      then show ?thesis using k ex False wf by (auto simp: mu_add_entry_def add_entry_internal_def get_and_set_handle_def)
    next
      case new
      have fk: "fits (mu_ls mu) k" using f k(1) by blast
      show ?thesis
        by (rule add_new_wf [OF wf new(2) k new(1) fk, of now v]) (use k new in \<open>auto\<close>)
    qed
  qed
qed

lemma delete_result:
  assumes wf: "unit_wf inv ok holds cap n mu"
  shows "\<exists>r mu'. mu_delete_entry ops h mu = Some (r, mu') \<and> unit_wf inv ok holds cap n mu' \<and>
    (case r of
       Inl e \<Rightarrow> mu' = mu \<and> (if HANDLE_INTERNAL h \<notin> mu_handles mu then e = INVALID_HANDLE
         else e = EXPIRED_HANDLE \<and> HANDLE_VERSION h \<noteq> slot_version mu (HANDLE_INTERNAL h))
     | Inr _ \<Rightarrow> HANDLE_INTERNAL h \<in> mu_handles mu \<and> HANDLE_VERSION h = slot_version mu (HANDLE_INTERNAL h) \<and>
         mu_handles mu' = mu_handles mu - {HANDLE_INTERNAL h} \<and>
         slot_version mu' (HANDLE_INTERNAL h) = (slot_version mu (HANDLE_INTERNAL h) + 1) mod 2 ^ 32 \<and>
         (\<forall>k'. unit_table ok holds mu' k' = (if ok k' \<and> same (me_key (mu_entries mu ! HANDLE_INTERNAL h)) k' then None
           else unit_table ok holds mu k')))"
proof (cases "HANDLE_INTERNAL h \<in> mu_handles mu \<and> HANDLE_VERSION h = slot_version mu (HANDLE_INTERNAL h)")
  case True
  show ?thesis by (rule delete_wf [OF wf, of h]) (use True in \<open>auto\<close>)
next
  case False
  then show ?thesis using wf checked_ok [OF wf, of h] by (auto simp: mu_delete_entry_def)
qed

lemma modify_result:
  assumes wf: "unit_wf inv ok holds cap n mu"
  shows "\<exists>r mu'. mu_modify_entry h v mu = Some (r, mu') \<and> unit_wf inv ok holds cap n mu' \<and>
    (case r of
       Inl e \<Rightarrow> mu' = mu \<and> (if HANDLE_INTERNAL h \<notin> mu_handles mu then e = INVALID_HANDLE
         else e = EXPIRED_HANDLE \<and> HANDLE_VERSION h \<noteq> slot_version mu (HANDLE_INTERNAL h))
     | Inr _ \<Rightarrow> HANDLE_INTERNAL h \<in> mu_handles mu \<and> HANDLE_VERSION h = slot_version mu (HANDLE_INTERNAL h) \<and>
         mu_handles mu' = mu_handles mu \<and>
         (\<forall>k'. unit_table ok holds mu' k' = (if ok k' \<and> same (me_key (mu_entries mu ! HANDLE_INTERNAL h)) k' then Some v
           else unit_table ok holds mu k')))"
proof (cases "HANDLE_INTERNAL h \<in> mu_handles mu \<and> HANDLE_VERSION h = slot_version mu (HANDLE_INTERNAL h)")
  case True
  show ?thesis by (rule modify_wf [OF wf, of h v]) (use True in \<open>auto\<close>)
next
  case False
  then show ?thesis using wf checked_ok [OF wf, of h] by (auto simp: mu_modify_entry_def)
qed

lemma meta_update_wf:
  assumes "unit_wf inv ok holds cap n mu" "\<And>m. em_version (g m) = em_version m"
  shows "unit_wf inv ok holds cap n (mu\<lparr>mu_meta := (mu_meta mu)[i := g (mu_meta mu ! i)]\<rparr>)"
proof (rule meta_wf [OF assms(1)])
  show "length ((mu_meta mu)[i := g (mu_meta mu ! i)]) = mu_size mu" using assms(1) by (simp add: unit_wf_def)
qed (simp add: assms(2) nth_update_if)

lemma step_wf:
  assumes "unit_step ops kk v0 accepts fits mu mu'" "unit_wf inv ok holds cap n mu"
  shows "unit_wf inv ok holds cap n mu'"
  using assms
proof (induction rule: unit_step.induct)
  case (step_add mu ps prio now v r mu')
  then show ?case using add_result [OF step_add.prems step_add.hyps(1,2), of now v] by auto
next
  case (step_delete h mu r mu')
  then show ?case using delete_result [OF step_delete.prems, of h] by auto
next
  case (step_modify h v mu r mu')
  then show ?case using modify_result [OF step_modify.prems, of h v] by auto
next
  case (step_lookup mu p len now x mu')
  have kb: "kb_wf (mu_builder mu)" "nbytes_key (mu_builder mu) = n" using step_lookup.prems by (simp_all add: unit_wf_def)
  obtain key where key: "build_key (mu_builder mu) p [] = Some key" "length key = n"
    using packet_key_length [OF kb(1) step_lookup.hyps(1)] kb(2) by auto
  obtain r s where s: "ls_lookup ops (mu_ls mu) key = Some (r, s)" "unit_wf inv ok holds cap n (mu\<lparr>mu_ls := s\<rparr>)"
    by (rule lookup_wf [OF step_lookup.prems key(2)]) blast
  let ?g = "\<lambda>m. m\<lparr>em_counter := increment_counter len (em_counter m), ts := now\<rparr>"
  have "unit_wf inv ok holds cap n ((mu\<lparr>mu_ls := s\<rparr>)\<lparr>mu_meta := (mu_meta (mu\<lparr>mu_ls := s\<rparr>))[i := ?g (mu_meta (mu\<lparr>mu_ls := s\<rparr>) ! i)]\<rparr>)" for i
    by (rule meta_update_wf [OF s(2)]) simp
  then show ?case
    using step_lookup.hyps(2) key s
    by (auto simp: mu_lookup_def lookup_key_def bind_eq_Some_iff nth_opt_Some_iff split: option.splits)
next
  case (step_ttl now h ttl mu r mu')
  have "unit_wf inv ok holds cap n (mu\<lparr>mu_meta := (mu_meta mu)[i := (mu_meta mu ! i)\<lparr>timeout_ms := ttl, ts := now\<rparr>]\<rparr>)" for i
    by (rule meta_update_wf [OF step_ttl.prems]) simp
  then show ?case
    using step_ttl by (auto simp: set_entry_ttl_def Let_def bind_eq_Some_iff nth_opt_Some_iff split: if_splits)
next
  case (step_reset_counters mu)
  then show ?case unfolding mu_reset_counters_def by (intro meta_wf) (auto simp: unit_wf_def)
next
  case (step_reset mu mu')
  show ?case by (rule reset_wf [OF step_reset.prems, of v0]) (use step_reset.hyps in auto)
qed

lemma steps_wf:
  assumes "(unit_step ops kk v0 accepts fits)\<^sup>*\<^sup>* mu mu'" "unit_wf inv ok holds cap n mu"
  shows "unit_wf inv ok holds cap n mu'"
  using assms by (induction rule: rtranclp_induct) (auto intro: step_wf)

lemma deleted_handle:
  assumes wf: "unit_wf inv ok holds cap n mu" and d: "mu_delete_entry ops h mu = Some (Inr (), mu1)"
    and a: "mu_add_entry ops kk now ps v prio mu1 = Some (Inr h', mu2)" "accepts (mu_builder mu1) ps"
      "\<forall>k. build_entry_from_match_key kk (mu_builder mu1) ps prio = Some (Inr k) \<longrightarrow> fits (mu_ls mu1) k"
    and same_slot: "HANDLE_INTERNAL h' = HANDLE_INTERNAL h"
  shows "checked_entry mu1 h = Some (Inl INVALID_HANDLE)" "checked_entry mu2 h = Some (Inl EXPIRED_HANDLE)"
proof -
  have hs: "HANDLE_INTERNAL h \<in> mu_handles mu" "HANDLE_VERSION h = slot_version mu (HANDLE_INTERNAL h)"
      "unit_wf inv ok holds cap n mu1" "mu_handles mu1 = mu_handles mu - {HANDLE_INTERNAL h}"
      "slot_version mu1 (HANDLE_INTERNAL h) = (slot_version mu (HANDLE_INTERNAL h) + 1) mod 2 ^ 32"
    using delete_result [OF wf, of h] d by auto
  show "checked_entry mu1 h = Some (Inl INVALID_HANDLE)" using checked_ok [OF hs(3), of h] hs(4) by simp
  have "unit_wf inv ok holds cap n mu2" "HANDLE_INTERNAL h \<in> mu_handles mu2"
      "slot_version mu2 (HANDLE_INTERNAL h) = slot_version mu1 (HANDLE_INTERNAL h)"
    using add_result [OF hs(3) a(2,3), of now v] a(1) same_slot by auto
  then show "checked_entry mu2 h = Some (Inl EXPIRED_HANDLE)"
    using checked_ok [of mu2 h] hs(2,5) handle_ranges(2) [of h] by simp
qed

end

text \<open>Adding an entry and deleting it again, a number of times.\<close>

fun churn ::
  "('s, 'e match_key_scheme) lookup_ops \<Rightarrow> 'e match_key_scheme key_kind \<Rightarrow> match_key_param list \<Rightarrow> 'v \<Rightarrow> nat \<Rightarrow>
   ('s, 'e match_key_scheme, 'v) match_unit \<Rightarrow> ('s, 'e match_key_scheme, 'v) match_unit option" where
  "churn ops kk ps v 0 mu = Some mu"
| "churn ops kk ps v (Suc m) mu = do {
     (r, mu1) \<leftarrow> mu_add_entry ops kk 0 ps v 0 mu;
     case r of
       Inl e \<Rightarrow> None
     | Inr h \<Rightarrow> do {
         (d, mu2) \<leftarrow> mu_delete_entry ops h mu1;
         if d = Inr () then churn ops kk ps v m mu2 else None } }"

context unit_parts
begin

lemma empty_holds: "unit_wf inv ok holds cap n mu \<Longrightarrow> mu_handles mu = {} \<Longrightarrow> ok k \<Longrightarrow> holds (mu_ls mu) k = None"
  by (cases "holds (mu_ls mu) k") (auto simp: unit_wf_def used_handles_def)

text \<open>The only entry of an empty unit.\<close>

lemma add_first:
  assumes wf: "unit_wf inv ok holds cap n mu" and e: "mu_handles mu = {}" "0 < mu_size mu"
    and k: "build_entry_from_match_key kk (mu_builder mu) ps prio = Some (Inr k)" "ok k" "fits (mu_ls mu) k"
  obtains h mu' where "mu_add_entry ops kk now ps v prio mu = Some (Inr h, mu')" "unit_wf inv ok holds cap n mu'"
    "mu_builder mu' = mu_builder mu" "mu_size mu' = mu_size mu" "HANDLE_INTERNAL h = 0" "mu_handles mu' = {0}"
    "slot_version mu' 0 = slot_version mu 0" "HANDLE_VERSION h = slot_version mu 0 mod 256"
proof -
  have "num_entries mu < mu_size mu" using wf e by (simp add: unit_wf_def)
  from add_new_wf [OF wf this k(1,2) empty_holds [OF wf e(1) k(2)] k(3), of now v]
  obtain h mu' where m: "mu_add_entry ops kk now ps v prio mu = Some (Inr h, mu')" "unit_wf inv ok holds cap n mu'"
    "mu_builder mu' = mu_builder mu" "mu_size mu' = mu_size mu" "{..<HANDLE_INTERNAL h} \<subseteq> mu_handles mu"
    "mu_handles mu' = insert (HANDLE_INTERNAL h) (mu_handles mu)"
    "slot_version mu' (HANDLE_INTERNAL h) = slot_version mu (HANDLE_INTERNAL h)"
    "HANDLE_VERSION h = slot_version mu (HANDLE_INTERNAL h) mod 256" by blast
  moreover have "HANDLE_INTERNAL h = 0" using m(5) e(1) by auto
  ultimately show ?thesis using e(1) by (intro that [of h mu']) simp_all
qed

lemma churn_versions:
  assumes "unit_wf inv ok holds cap n mu" "mu_handles mu = {}" "0 < mu_size mu" "sane (mu_builder mu) ps" "accepts (mu_builder mu) ps"
    and "\<forall>s k. fits s k" "slot_version mu 0 + m \<le> 256"
  shows "\<exists>mu'. churn ops kk ps v m mu = Some mu' \<and> unit_wf inv ok holds cap n mu' \<and> mu_handles mu' = {} \<and>
    mu_size mu' = mu_size mu \<and> mu_builder mu' = mu_builder mu \<and> slot_version mu' 0 = slot_version mu 0 + m"
  using assms(1-5,7)
proof (induction m arbitrary: mu)
  case (Suc m)
  have kb: "kb_wf (mu_builder mu)" "nbytes_key (mu_builder mu) = n" using Suc.prems(1) by (simp_all add: unit_wf_def)
  obtain k where k: "build_entry_from_match_key kk (mu_builder mu) ps 0 = Some (Inr k)" "ok k"
    using build_entry(2) [OF kb Suc.prems(4,5)] by blast
  have f: "fits (mu_ls mu) k" using assms(6) by blast
  obtain h mu1 where a: "mu_add_entry ops kk 0 ps v 0 mu = Some (Inr h, mu1)" "unit_wf inv ok holds cap n mu1"
    "mu_builder mu1 = mu_builder mu" "mu_size mu1 = mu_size mu" "HANDLE_INTERNAL h = 0" "mu_handles mu1 = {0}"
    "slot_version mu1 0 = slot_version mu 0" "HANDLE_VERSION h = slot_version mu 0 mod 256"
    by (rule add_first [OF Suc.prems(1-3) k f, of 0 v]) blast
  have h: "HANDLE_INTERNAL h \<in> mu_handles mu1" "HANDLE_VERSION h = slot_version mu1 (HANDLE_INTERNAL h)"
    using a(5-8) Suc.prems(6) by simp_all
  obtain mu2 where d: "mu_delete_entry ops h mu1 = Some (Inr (), mu2)" "unit_wf inv ok holds cap n mu2"
    "mu_builder mu2 = mu_builder mu1" "mu_size mu2 = mu_size mu1" "mu_handles mu2 = mu_handles mu1 - {HANDLE_INTERNAL h}"
    "slot_version mu2 (HANDLE_INTERNAL h) = (slot_version mu1 (HANDLE_INTERNAL h) + 1) mod 2 ^ 32"
    by (rule delete_wf [OF a(2) h]) blast
  have v2: "slot_version mu2 0 = slot_version mu 0 + 1" using d(6) a(5,7) Suc.prems(6) by simp
  have "\<exists>mu'. churn ops kk ps v m mu2 = Some mu' \<and> unit_wf inv ok holds cap n mu' \<and> mu_handles mu' = {} \<and>
      mu_size mu' = mu_size mu2 \<and> mu_builder mu' = mu_builder mu2 \<and> slot_version mu' 0 = slot_version mu2 0 + m"
    using d a Suc.prems v2 by (intro Suc.IH) simp_all
  then show ?case using a(1,3,4) d(1,3,4) v2 by auto
qed simp

lemma churned_slot:
  assumes "unit_wf inv ok holds cap n mu" "mu_handles mu = {}" "0 < mu_size mu" "sane (mu_builder mu) ps" "accepts (mu_builder mu) ps"
    and "\<forall>s k. fits s k" "slot_version mu 0 = 0"
  shows "\<exists>mu1 h mu2. churn ops kk ps v 256 mu = Some mu1 \<and> mu_add_entry ops kk now ps v prio mu1 = Some (Inr h, mu2) \<and>
    checked_entry mu2 h = Some (Inl EXPIRED_HANDLE)"
proof -
  obtain mu1 where m: "churn ops kk ps v 256 mu = Some mu1" "unit_wf inv ok holds cap n mu1" "mu_handles mu1 = {}"
      "mu_size mu1 = mu_size mu" "mu_builder mu1 = mu_builder mu" "slot_version mu1 0 = 256"
    using churn_versions [OF assms(1-6), of 256 v] assms(7) by auto
  have kb: "kb_wf (mu_builder mu)" "nbytes_key (mu_builder mu) = n" using assms(1) by (simp_all add: unit_wf_def)
  obtain k where k: "build_entry_from_match_key kk (mu_builder mu1) ps prio = Some (Inr k)" "ok k"
    using build_entry(2) [OF kb assms(4,5), of prio] m(5) by auto
  have f: "fits (mu_ls mu1) k" using assms(6) by blast
  have sz: "0 < mu_size mu1" using assms(3) m(4) by simp
  obtain h mu2 where a: "mu_add_entry ops kk now ps v prio mu1 = Some (Inr h, mu2)" "unit_wf inv ok holds cap n mu2"
    "HANDLE_INTERNAL h = 0" "mu_handles mu2 = {0}" "slot_version mu2 0 = slot_version mu1 0" "HANDLE_VERSION h = slot_version mu1 0 mod 256"
    by (rule add_first [OF m(2,3) sz k f, of now v]) blast
  have "checked_entry mu2 h = Some (Inl EXPIRED_HANDLE)" using checked_ok [OF a(2), of h] a(3-6) m(6) by simp
  with m(1) a(1) show ?thesis by blast
qed

lemma sweep_wf:
  assumes wf: "unit_wf inv ok holds cap n mu" and t: "\<forall>i \<in> mu_handles mu. ts (mu_meta mu ! i) \<le> now"
  shows "sweep_entries now mu es = Some (es @ map (\<lambda>i. HANDLE_SET (em_version (mu_meta mu ! i)) i)
    (filter (\<lambda>i. 0 < timeout_ms (mu_meta mu ! i) \<and> timeout_ms (mu_meta mu ! i) \<le> now - ts (mu_meta mu ! i))
      (sorted_list_of_set (mu_handles mu))))"
proof -
  have loop: "sweep_loop now (mu_meta mu) is es = Some (es @ map (\<lambda>i. HANDLE_SET (em_version (mu_meta mu ! i)) i)
      (filter (\<lambda>i. 0 < timeout_ms (mu_meta mu ! i) \<and> timeout_ms (mu_meta mu ! i) \<le> now - ts (mu_meta mu ! i)) is))"
    if "set is \<subseteq> mu_handles mu" for "is"
    using that
  proof (induction "is" arbitrary: es)
    case (Cons i "is")
    then have "i < length (mu_meta mu)" "ts (mu_meta mu ! i) \<le> now" using wf t by (auto simp: unit_wf_def)
    then show ?case using Cons by auto
  qed simp
  have fin: "finite (mu_handles mu)" using wf_finite [OF wf] .
  have "\<forall>j \<in> mu_handles mu. j < word_max" using wf by (fastforce simp: unit_wf_def word_max_def)
  then have "all_handles (mu_handles mu) = Some (sorted_list_of_set (mu_handles mu))" using fin by (intro all_handles_sorted)
  then show ?thesis using loop fin by (simp add: sweep_entries_def)
qed

end

section \<open>The four kinds of units\<close>

definition any_params :: "key_builder \<Rightarrow> match_key_param list \<Rightarrow> bool" where
  "any_params kb ps \<longleftrightarrow> True"

definition lpm_params :: "key_builder \<Rightarrow> match_key_param list \<Rightarrow> bool" where
  "lpm_params kb ps \<longleftrightarrow> int_prefixes kb ps \<and> (\<forall>i < length ps. p_type (ps ! i) \<in> {VALID, EXACT, LPM})"

lemma entry_data_total: "sane kb ps \<Longrightarrow> length (entry_data kb ps (length ps)) = nbytes_key kb"
  using entry_data_length [of kb ps "length ps"] saneD(1,2) [of kb ps] by (simp add: kb_wf_def offset_of_def)

interpretation eu: unit_parts exact_ops "exact_inv n" "key_len n" same_data exact_holds word_cap always_fits n exact_kind any_params
  for n
  by unfold_locales
    (auto simp: same_data_def key_len_def always_fits_def exact_kind_def no_priority_set_def
      params_to_exact_sane entry_data_total)

interpretation lu: unit_parts lpm_ops "lpm_inv n" "lpm_key_ok n" lpm_same lpm_holds word_cap lpm_fits n lpm_kind lpm_params
  for n
proof (unfold_locales, goal_cases)
  case (2 k1 k2 k3)
  then show ?case by (auto simp: lpm_same_def same_prefix_def)
next
  case (8 kb ps)
  then have "params_to_lpm kb ps = Some \<lparr>kdata = entry_data kb ps (length ps), kversion = 0,
      prefix_length = nat (\<Sum>i<length ps. lpm_weight (ps ! i))\<rparr>"
      "(\<Sum>i<length ps. lpm_weight (ps ! i)) \<le> 8 * int (nbytes_key kb)"
    using params_to_lpm_sane [of kb ps] by (simp_all add: lpm_params_def)
  then show ?case using 8 by (simp add: lpm_kind_def lpm_key_ok_def entry_data_total)
qed (auto simp: lpm_same_def lpm_key_ok_def lpm_fits_def lpm_kind_def no_priority_set_def)

interpretation tu: unit_parts ternary_ops "ternary_inv n" "ternary_ok n" ternary_same ternary_holds ternary_cap always_fits n
  ternary_kind int_prefixes for n
proof (unfold_locales, goal_cases)
  case (8 kb ps)
  obtain k where "params_to_ternary kb ps = Some k" "length (kdata k) = nbytes_key kb" "length (kmask k) = nbytes_key kb"
    by (rule ternary_params_back [OF 8(1,2)]) blast
  then show ?case using 8(3) by (simp add: ternary_kind_def ternary_ok_def)
qed (auto simp: ternary_same_def same_key_def ternary_eq_def ternary_ok_def always_fits_def ternary_kind_def ternary_set_priority_def)

interpretation ru: unit_parts range_ops "range_inv n" "range_ok n" range_same range_holds range_cap always_fits n
  range_kind int_prefixes for n
proof (unfold_locales, goal_cases)
  case (8 kb ps)
  obtain k where "params_to_range kb ps = Some k" "length (kdata k) = nbytes_key kb" "length (kmask k) = nbytes_key kb"
      "\<forall>w \<in> set (range_widths k). 0 < w" "sum_list (range_widths k) \<le> nbytes_key kb"
    by (rule params_to_range_sane [OF 8(1,2)]) blast
  then show ?case using 8(3) by (simp add: range_kind_def range_ok_def)
qed (auto simp: range_same_def same_key_def range_eq_def range_ok_def always_fits_def range_kind_def ternary_set_priority_def)

section \<open>What a packet finds\<close>

lemma slot_bound:
  assumes "unit_wf I ok holds cap n mu" "i \<in> used_handles ok holds (mu_ls mu)"
  shows "i < mu_size mu" "i < 2 ^ 24"
proof -
  show "i < mu_size mu" using assms unfolding unit_wf_def by metis
  moreover have "mu_size mu \<le> 2 ^ 24" using assms(1) by (simp add: unit_wf_def)
  ultimately show "i < 2 ^ 24" by linarith
qed

lemma exact_lookup_unit:
  assumes wf: "unit_wf (exact_inv n) (key_len n) exact_holds word_cap n mu"
    and key: "build_key (mu_builder mu) p [] = Some key"
  shows "\<exists>mu'. mu_lookup exact_ops p len now mu = Some (map_option (\<lambda>i. (HANDLE_SET (slot_version mu i) i, me_value (mu_entries mu ! i))) (mu_ls mu key), mu')"
proof (cases "mu_ls mu key")
  case None
  then show ?thesis by (simp add: mu_lookup_def key lookup_key_def exact_ops_def exact_lookup_def)
next
  case (Some i)
  have "i \<in> used_handles (key_len n) exact_holds (mu_ls mu)"
    using Some wf by (intro exact_used [where n = n]) (simp_all add: unit_wf_def)
  note i = slot_bound [OF wf this]
  show ?thesis
    using i Some wf handle_parts(1) [OF i(2)]
    by (simp add: mu_lookup_def key lookup_key_def exact_ops_def exact_lookup_def unit_wf_def slot_version_def)
qed

lemma longest_map: "longest (\<lambda>l. map_option g (f l)) m = map_option g (longest f m)"
  by (induction m) (simp_all add: or_else_def split: option.split)

lemma lpm_lookup_unit:
  assumes wf: "unit_wf (lpm_inv n) (lpm_key_ok n) lpm_holds word_cap n mu"
    and key: "build_key (mu_builder mu) p [] = Some key" "length key = n"
  shows "\<exists>x mu'. mu_lookup lpm_ops p len now mu = Some (x, mu') \<and> map_option snd x =
    longest (\<lambda>l. unit_table (lpm_key_ok n) lpm_holds mu \<lparr>kdata = key, kversion = 0, prefix_length = l\<rparr>) (8 * n)"
proof -
  note w = wf [unfolded unit_wf_def]
  have len: "length key = key_width_bytes (mu_ls mu)" using w key(2) by (simp add: lpm_inv_def)
  let ?st = "\<lambda>l. lpm_holds (mu_ls mu) \<lparr>kdata = key, kversion = 0, prefix_length = l\<rparr>"
  have st: "?st l = map_option unat (stored (root (mu_ls mu)) key l)" for l
    by (simp add: lpm_holds_def lpm_retrieve_value_def stored_def split: option.split)
  have res: "ls_lookup lpm_ops (mu_ls mu) key = Some (longest ?st (8 * n), mu_ls mu)"
    using lookup_node_longest [of "length key" key "root (mu_ls mu)" None] len key(2)
    by (simp add: lpm_ops_def lpms_lookup_def lpm_lookup_def st longest_map)
  have tab: "longest (\<lambda>l. unit_table (lpm_key_ok n) lpm_holds mu \<lparr>kdata = key, kversion = 0, prefix_length = l\<rparr>) (8 * n) =
      map_option (\<lambda>h. me_value (mu_entries mu ! h)) (longest ?st (8 * n))"
    unfolding longest_map [symmetric] by (rule longest_cong) (simp add: unit_table_def lpm_key_ok_def key(2))
  show ?thesis
  proof (cases "longest ?st (8 * n)")
    case None
    then show ?thesis using res tab by (simp add: mu_lookup_def key lookup_key_def)
  next
    case (Some i)
    then obtain l where "l \<le> 8 * n" "?st l = Some i" by (auto simp: longest_Some_iff)
    then have "i \<in> used_handles (lpm_key_ok n) lpm_holds (mu_ls mu)"
      using key(2) unfolding used_handles_def
      by (intro CollectI exI [of _ "\<lparr>kdata = key, kversion = 0, prefix_length = l\<rparr>"]) (simp add: lpm_key_ok_def)
    note i = slot_bound [OF wf this]
    show ?thesis
      using i Some res tab w handle_parts(1) [OF i(2)]
      by (simp add: mu_lookup_def key lookup_key_def)
  qed
qed

section \<open>Properties\<close>

text \<open>
  Every state that a unit for exact matches reaches by the operations of its client, packets,
  ageing and resets is well formed: the lookup structure holds exactly the allocated slots, each under its handle,
  and the number of entries is right.
\<close>

theorem exact_unit_invariant:
  assumes "unit_wf (exact_inv n) (key_len n) exact_holds word_cap n mu"
    and "(unit_step exact_ops exact_kind v0 any_params always_fits)\<^sup>*\<^sup>* mu mu'"
  shows "unit_wf (exact_inv n) (key_len n) exact_holds word_cap n mu'"
  by (rule eu.steps_wf [OF assms(2,1)])

text \<open>The same for longest prefix matches, as long as no node of the trie gets its 256th branch.\<close>

theorem lpm_unit_invariant:
  assumes "unit_wf (lpm_inv n) (lpm_key_ok n) lpm_holds word_cap n mu"
    and "(unit_step lpm_ops lpm_kind v0 lpm_params lpm_fits)\<^sup>*\<^sup>* mu mu'"
  shows "unit_wf (lpm_inv n) (lpm_key_ok n) lpm_holds word_cap n mu'"
  by (rule lu.steps_wf [OF assms(2,1)])

text \<open>
  C9: Adding an entry to a unit for exact matches: parameters that fail the check give
  \<^verbatim>\<open>BAD_MATCH_KEY\<close>, a key that is there \<^verbatim>\<open>DUPLICATE_ENTRY\<close>, a full unit
  \<^verbatim>\<open>TABLE_FULL\<close>, all without a change; else the entry goes to the least free
  slot and the table of the unit is updated at the key and nowhere else.
\<close>

theorem exact_add_refines:
  assumes "unit_wf (exact_inv n) (key_len n) exact_holds word_cap n mu"
  shows "\<exists>r mu'. mu_add_entry exact_ops exact_kind now ps v prio mu = Some (r, mu') \<and>
    (case r of
       Inl e \<Rightarrow> mu' = mu \<and> (if match_params_sanity_check (mu_builder mu) ps = Some False then e = BAD_MATCH_KEY
         else \<exists>k. build_entry_from_match_key exact_kind (mu_builder mu) ps prio = Some (Inr k) \<and>
           (if unit_table (key_len n) exact_holds mu k \<noteq> None then e = DUPLICATE_ENTRY else e = TABLE_FULL \<and> num_entries mu = mu_size mu))
     | Inr h \<Rightarrow> \<exists>k. build_entry_from_match_key exact_kind (mu_builder mu) ps prio = Some (Inr k) \<and>
         unit_table (key_len n) exact_holds mu k = None \<and> num_entries mu < mu_size mu \<and>
         HANDLE_INTERNAL h \<notin> mu_handles mu \<and> {..<HANDLE_INTERNAL h} \<subseteq> mu_handles mu \<and>
         mu_handles mu' = insert (HANDLE_INTERNAL h) (mu_handles mu) \<and>
         (\<forall>k'. unit_table (key_len n) exact_holds mu' k' =
           (if key_len n k' \<and> same_data k k' then Some v else unit_table (key_len n) exact_holds mu k')))"
proof -
  have f: "any_params (mu_builder mu) ps"
    "\<forall>k. build_entry_from_match_key exact_kind (mu_builder mu) ps prio = Some (Inr k) \<longrightarrow> always_fits (mu_ls mu) k"
    by (simp_all add: any_params_def always_fits_def)
  have t: "unit_table (key_len n) exact_holds mu k = None \<longleftrightarrow> exact_holds (mu_ls mu) k = None" if "key_len n k" for k
    using that by (simp add: unit_table_def)
  from eu.add_result [OF assms f, of now v] show ?thesis
    by (elim exE conjE) (use t in \<open>auto split: sum.splits if_splits\<close>, use t in blast)
qed

text \<open>
  Deleting by a handle refines deleting from the table: the entry of the slot goes and nothing
  else changes, the version of the slot grows; a handle of a free slot gives \<^verbatim>\<open>INVALID_HANDLE\<close>
  and one with another version \<^verbatim>\<open>EXPIRED_HANDLE\<close>, both without a change.
\<close>

theorem lpm_delete_unit_refines:
  assumes "unit_wf (lpm_inv n) (lpm_key_ok n) lpm_holds word_cap n mu"
  shows "\<exists>r mu'. mu_delete_entry lpm_ops h mu = Some (r, mu') \<and>
    (case r of
       Inl e \<Rightarrow> mu' = mu \<and> (if HANDLE_INTERNAL h \<notin> mu_handles mu then e = INVALID_HANDLE
         else e = EXPIRED_HANDLE \<and> HANDLE_VERSION h \<noteq> slot_version mu (HANDLE_INTERNAL h))
     | Inr _ \<Rightarrow> HANDLE_INTERNAL h \<in> mu_handles mu \<and> HANDLE_VERSION h = slot_version mu (HANDLE_INTERNAL h) \<and>
         mu_handles mu' = mu_handles mu - {HANDLE_INTERNAL h} \<and>
         slot_version mu' (HANDLE_INTERNAL h) = (slot_version mu (HANDLE_INTERNAL h) + 1) mod 2 ^ 32 \<and>
         (\<forall>k'. unit_table (lpm_key_ok n) lpm_holds mu' k' =
           (if lpm_key_ok n k' \<and> lpm_same (me_key (mu_entries mu ! HANDLE_INTERNAL h)) k' then None
            else unit_table (lpm_key_ok n) lpm_holds mu k')))"
  using lu.delete_result [OF assms, of h] by (elim exE conjE) (auto split: sum.splits)


text \<open>
  A handle has 8 bits for the version but the version of a slot is not cut to 8 bits: after 256
  deletions the handle that an insertion returns is refused as expired by every operation, so the
  entry can no longer be read, modified or deleted.
\<close>

theorem version_wrap_locks_slot:
  assumes "unit_wf (exact_inv n) (key_len n) exact_holds word_cap n mu" "mu_handles mu = {}" "0 < mu_size mu"
    and "match_params_sanity_check (mu_builder mu) ps = Some True" "slot_version mu 0 = 0"
  shows "\<exists>mu1 h mu2. churn exact_ops exact_kind ps v 256 mu = Some mu1 \<and>
    mu_add_entry exact_ops exact_kind now ps v prio mu1 = Some (Inr h, mu2) \<and>
    mu_get_value h mu2 = Some (Inl EXPIRED_HANDLE) \<and> mu_modify_entry h v mu2 = Some (Inl EXPIRED_HANDLE, mu2) \<and>
    mu_delete_entry exact_ops h mu2 = Some (Inl EXPIRED_HANDLE, mu2)"
proof -
  have s: "sane (mu_builder mu) ps" using assms(1,4) by (simp add: sane_def unit_wf_def)
  have "any_params (mu_builder mu) ps" "\<forall>s k. always_fits s k" by (simp_all add: any_params_def always_fits_def)
  from eu.churned_slot [OF assms(1-3) s this assms(5), of v now prio]
  show ?thesis by (elim exE conjE) (auto simp: mu_get_value_def mu_modify_entry_def mu_delete_entry_def)
qed

lemma exact_added_lookup:
  assumes wf: "unit_wf (exact_inv n) (key_len n) exact_holds word_cap n mu"
    and add: "mu_add_entry exact_ops exact_kind t ps v prio mu = Some (Inr h, mu1)"
    and p: "fields_sized (mu_builder mu) p"
  shows "\<exists>x mu2. mu_lookup exact_ops p len now mu1 = Some (x, mu2) \<and>
    (x = Some (h, v) \<longleftrightarrow> (\<forall>i < length ps. param_matches (mu_builder mu) p ps i))"
proof -
  let ?kb = "mu_builder mu"
  have f: "any_params ?kb ps"
    "\<forall>k. build_entry_from_match_key exact_kind ?kb ps prio = Some (Inr k) \<longrightarrow> always_fits (mu_ls mu) k"
    by (simp_all add: any_params_def always_fits_def)
  obtain k where k: "build_entry_from_match_key exact_kind ?kb ps prio = Some (Inr k)" "key_len n k"
      "exact_holds (mu_ls mu1) k = Some (HANDLE_INTERNAL h)" "HANDLE_VERSION h = slot_version mu1 (HANDLE_INTERNAL h) mod 256"
      "unit_table (key_len n) exact_holds mu1 k = Some v" "mu_builder mu1 = ?kb"
    and wf1: "unit_wf (exact_inv n) (key_len n) exact_holds word_cap n mu1"
    using eu.add_result [OF wf f, of t v] add by (auto simp: same_data_def)
  define i where "i = HANDLE_INTERNAL h"
  have sane: "sane ?kb ps"
    using k(1) wf by (auto simp: build_entry_from_match_key_def bind_eq_Some_iff sane_def unit_wf_def split: if_splits)
  have kd: "apply_big_mask ?kb (entry_data ?kb ps (length ps)) = Some (kdata k)"
    using k(1) sane
    by (auto simp: build_entry_from_match_key_def sane_def exact_kind_def params_to_exact_sane [OF sane] no_priority_set_def
        bind_eq_Some_iff)
  have i: "mu_ls mu1 (kdata k) = Some i" "me_value (mu_entries mu1 ! i) = v"
    using k(2,3,5) by (simp_all add: exact_holds_def i_def unit_table_def)
  have "i < 2 ^ 24" using handle_ranges(1) by (simp add: i_def)
  from handle_parts [OF this] have h: "HANDLE_SET (slot_version mu1 i) i = h"
    using k(4) by (intro handle_eqI) (simp_all add: i_def)
  obtain key where key: "build_key ?kb p [] = Some key"
    using packet_key_length [OF _ p] wf by (auto simp: unit_wf_def)
  have match: "key = kdata k \<longleftrightarrow> (\<forall>i < length ps. param_matches ?kb p ps i)"
    using packet_key_entry [OF sane p] by (simp add: key kd)
  have key1: "build_key (mu_builder mu1) p [] = Some key" using key k(6) by simp
  obtain mu2 where l: "mu_lookup exact_ops p len now mu1 =
      Some (map_option (\<lambda>i. (HANDLE_SET (slot_version mu1 i) i, me_value (mu_entries mu1 ! i))) (mu_ls mu1 key), mu2)"
    using exact_lookup_unit [OF wf1 key1] by blast
  have other: "HANDLE_SET (slot_version mu1 j) j \<noteq> h" if j: "mu_ls mu1 key = Some j" "key \<noteq> kdata k" for j
  proof -
    have I: "exact_inv n (mu_ls mu1)" using wf1 by (simp add: unit_wf_def)
    have "j \<noteq> i" using I j i(1) by (auto simp: exact_inv_def)
    moreover have "HANDLE_INTERNAL (HANDLE_SET (slot_version mu1 j) j) = j"
      using slot_bound(2) [OF wf1 exact_used [OF I j(1)]] by (rule handle_parts)
    ultimately show ?thesis by (auto simp: i_def)
  qed
  have "map_option (\<lambda>i. (HANDLE_SET (slot_version mu1 i) i, me_value (mu_entries mu1 ! i))) (mu_ls mu1 key) = Some (h, v) \<longleftrightarrow> key = kdata k"
    using i h other by (cases "mu_ls mu1 key") auto
  with l match show ?thesis by blast
qed

text \<open>
  After an entry was added to a unit for exact matches in a reachable state, a packet gets the handle and value of
  this entry iff each of its fields agrees with the parameter of that field in the bits of the mask of the field (all bits
  where the key has no masks).
\<close>

theorem exact_added_then_found:
  assumes wf: "unit_wf (exact_inv n) (key_len n) exact_holds word_cap n mu"
    and add: "mu_add_entry exact_ops exact_kind t ps v prio mu = Some (Inr h, mu1)"
    and p: "fields_sized (mu_builder mu) p"
  shows "\<exists>x mu2. mu_lookup exact_ops p len now mu1 = Some (x, mu2) \<and>
    (x = Some (h, v) \<longleftrightarrow> (\<forall>i < length ps. param_matches (mu_builder mu) p ps i))"
  by (rule exact_added_lookup [OF assms])

text \<open>
  C8: A packet that reaches a unit for longest prefix matches gets the value of the longest prefix of its
  key that the table of the unit has, and misses if the table has none.
\<close>

theorem lpm_unit_finds_longest:
  assumes "unit_wf (lpm_inv n) (lpm_key_ok n) lpm_holds word_cap n mu" "fields_sized (mu_builder mu) p"
  shows "\<exists>key x mu'. build_key (mu_builder mu) p [] = Some key \<and> mu_lookup lpm_ops p len now mu = Some (x, mu') \<and>
    map_option snd x = longest (\<lambda>l. unit_table (lpm_key_ok n) lpm_holds mu \<lparr>kdata = key, kversion = 0, prefix_length = l\<rparr>) (8 * n)"
proof -
  obtain key where "build_key (mu_builder mu) p [] = Some key" "length key = n"
    using packet_key_length [OF _ assms(2)] assms(1) by (auto simp: unit_wf_def)
  then show ?thesis using lpm_lookup_unit [OF assms(1), of p key len now] by blast
qed

text \<open>
  A sweep reports the handles of exactly the entries whose timeout is set and has passed since their
  last hit, in the order of their slots.
\<close>

theorem sweep_reports_expired:
  assumes "unit_wf (exact_inv n) (key_len n) exact_holds word_cap n mu" "\<forall>i \<in> mu_handles mu. ts (mu_meta mu ! i) \<le> now"
  shows "sweep_entries now mu [] = Some (map (\<lambda>i. HANDLE_SET (slot_version mu i) i)
    (filter (\<lambda>i. 0 < timeout_ms (mu_meta mu ! i) \<and> timeout_ms (mu_meta mu ! i) \<le> now - ts (mu_meta mu ! i))
      (sorted_list_of_set (mu_handles mu))))"
proof -
  have "HANDLE_SET (em_version (mu_meta mu ! i)) i = HANDLE_SET (slot_version mu i) i" if "i \<in> mu_handles mu" for i
  proof -
    have "i < 2 ^ 24" using slot_bound(2) [OF assms(1)] assms(1) that by (simp add: unit_wf_def)
    then show ?thesis using assms(1) that by (intro handle_eqI) (auto simp: handle_parts unit_wf_def slot_version_def)
  qed
  moreover have "finite (mu_handles mu)" using eu.wf_finite [OF assms(1)] .
  ultimately show ?thesis using eu.sweep_wf [OF assms, of "[]"] by (auto cong: map_cong)
qed

section \<open>Examples\<close>

text \<open>A unit of two slots for an exact key of one byte.\<close>

definition byte_unit :: "'v \<Rightarrow> (exact_map, match_key, 'v) match_unit" where
  "byte_unit v0 = the (mu_new exact_kind v0 (exact_new 2) 2 byte_builder)"

definition example_unit :: "(exact_map, match_key, nat) match_unit" where
  "example_unit = byte_unit 0"

lemma byte_builder_nbytes: "nbytes_key byte_builder = 1"
  by (simp add: byte_builder_def kb_push_back_field_def kb_push_back_def kb_new_def nbits_to_nbytes_def)

lemma byte_unit:
  shows "unit_wf (exact_inv 1) (key_len 1) exact_holds word_cap 1 (byte_unit v0)"
    and "mu_handles (byte_unit v0) = {}" "mu_size (byte_unit v0) = 2" "slot_version (byte_unit v0) 0 = 0"
    and "sane (mu_builder (byte_unit v0)) [key_param EXACT [7]]" "fields_sized (mu_builder (byte_unit v0)) byte_packet"
    and "\<not> has_big_mask (mu_builder (byte_unit v0))"
    and "field_at_pos (mu_builder (byte_unit v0)) 0 = \<lparr>kf_header = 0, kf_offset = 0, kf_type = EXACT, kf_nbits = 8\<rparr>"
    and "\<forall>i < length [key_param EXACT [7]]. param_matches (mu_builder (byte_unit v0)) byte_packet [key_param EXACT [7]] i"
proof -
  obtain kb where kb: "build byte_builder = Some kb" "sane kb [key_param EXACT [7]]" "fields_sized kb byte_packet" "\<not> has_big_mask kb"
    "field_at_pos kb 0 = \<lparr>kf_header = 0, kf_offset = 0, kf_type = EXACT, kf_nbits = 8\<rparr>" by (rule byte_built)
  have o: "kb_open byte_builder" unfolding byte_builder_def by (rule kb_open_pushes(1) [OF kb_open_new]) simp_all
  have e: "exact_inv 1 (exact_new 2)" "\<forall>k. key_len 1 k \<longrightarrow> exact_holds (exact_new 2) k = None"
    by (simp_all add: exact_inv_def exact_new_def exact_holds_def)
  obtain mu where "mu_new exact_kind v0 (exact_new 2) 2 byte_builder = Some mu"
      "unit_wf (exact_inv 1) (key_len 1) exact_holds word_cap 1 mu"
    by (rule eu.new_wf [OF o byte_builder_nbytes e, of 2 v0]) (simp_all add: word_cap_def)
  then show "unit_wf (exact_inv 1) (key_len 1) exact_holds word_cap 1 (byte_unit v0)" by (simp add: byte_unit_def)
  show "mu_handles (byte_unit v0) = {}" "mu_size (byte_unit v0) = 2" "slot_version (byte_unit v0) 0 = 0"
    "sane (mu_builder (byte_unit v0)) [key_param EXACT [7]]" "fields_sized (mu_builder (byte_unit v0)) byte_packet"
    "\<not> has_big_mask (mu_builder (byte_unit v0))"
    "field_at_pos (mu_builder (byte_unit v0)) 0 = \<lparr>kf_header = 0, kf_offset = 0, kf_type = EXACT, kf_nbits = 8\<rparr>"
    using kb by (simp_all add: byte_unit_def mu_new_def mgr_new_def slot_version_def exact_kind_def)
  have "mu_builder (byte_unit v0) = kb" using kb(1) by (simp add: byte_unit_def mu_new_def)
  then show "\<forall>i < length [key_param EXACT [7]]. param_matches (mu_builder (byte_unit v0)) byte_packet [key_param EXACT [7]] i"
    using param_matches_unmasked [OF kb(2-4)]
    by (simp add: kb(5) field_value_def byte_packet_def empty_phv_def is_valid_def clear_top_def get_byte0_mask_def key_param_def)
qed

lemmas example_unit = byte_unit [of "0 :: nat", folded example_unit_def]

lemma example_first:
  assumes "unit_wf (exact_inv 1) (key_len 1) exact_holds word_cap 1 mu" "mu_handles mu = {}" "0 < mu_size mu"
    "sane (mu_builder mu) ps"
  obtains h mu1 where "mu_add_entry exact_ops exact_kind 0 ps v 0 mu = Some (Inr h, mu1)"
    "unit_wf (exact_inv 1) (key_len 1) exact_holds word_cap 1 mu1" "mu_builder mu1 = mu_builder mu" "mu_size mu1 = mu_size mu"
    "HANDLE_INTERNAL h = 0" "mu_handles mu1 = {0}" "slot_version mu1 0 = slot_version mu 0" "HANDLE_VERSION h = slot_version mu 0 mod 256"
proof -
  have kb: "kb_wf (mu_builder mu)" "nbytes_key (mu_builder mu) = 1" using assms(1) by (simp_all add: unit_wf_def)
  obtain k where k: "build_entry_from_match_key exact_kind (mu_builder mu) ps 0 = Some (Inr k)" "key_len 1 k"
    using eu.build_entry(2) [OF kb assms(4), of 0] by (auto simp: any_params_def)
  have f: "always_fits (mu_ls mu) k" by (simp add: always_fits_def)
  show ?thesis by (rule eu.add_first [OF assms(1-3) k f, of 0 v]) (rule that)
qed

theorem exact_unit_invariant_witness:
  "unit_wf (exact_inv 1) (key_len 1) exact_holds word_cap 1 (mu_reset_counters example_unit)"
  by (rule exact_unit_invariant [OF example_unit(1), of 0], rule r_into_rtranclp, rule step_reset_counters)

theorem exact_add_refines_witness: "mu_add_entry exact_ops exact_kind 0 [key_param EXACT [7]] 5 0 example_unit \<noteq> None"
  using exact_add_refines [OF example_unit(1), of 0 "[key_param EXACT [7]]" 5 0] by auto


theorem version_wrap_locks_slot_witness:
  "\<exists>mu1 h mu2. churn exact_ops exact_kind [key_param EXACT [7]] 5 256 example_unit = Some mu1 \<and>
    mu_add_entry exact_ops exact_kind 0 [key_param EXACT [7]] 5 0 mu1 = Some (Inr h, mu2) \<and>
    mu_get_value h mu2 = Some (Inl EXPIRED_HANDLE) \<and> mu_modify_entry h 5 mu2 = Some (Inl EXPIRED_HANDLE, mu2) \<and>
    mu_delete_entry exact_ops h mu2 = Some (Inl EXPIRED_HANDLE, mu2)"
  by (rule version_wrap_locks_slot [OF example_unit(1,2)])
    (use example_unit(3-5) in \<open>simp_all add: sane_def\<close>)

theorem exact_added_then_found_witness:
  "\<exists>h mu1 mu2. mu_add_entry exact_ops exact_kind 0 [key_param EXACT [7]] (5 :: nat) 0 example_unit = Some (Inr h, mu1) \<and>
    mu_lookup exact_ops byte_packet 64 10 mu1 = Some (Some (h, 5), mu2)"
proof -
  obtain h mu1 where a: "mu_add_entry exact_ops exact_kind 0 [key_param EXACT [7]] 5 0 example_unit = Some (Inr h, mu1)"
    by (rule example_first [OF example_unit(1,2) _ example_unit(5), of 5]) (simp_all add: example_unit(3))
  with exact_added_then_found [OF example_unit(1) a example_unit(6), of 64 10] example_unit(9) show ?thesis by blast
qed

theorem sweep_reports_expired_witness: "sweep_entries 7 example_unit [] = Some []"
  using sweep_reports_expired [OF example_unit(1), of 7] by (simp add: example_unit(2))

text \<open>A unit for prefixes of one byte.\<close>

definition example_lpm_unit :: "(bf_lpm_trie, lpm_key, nat) match_unit" where
  "example_lpm_unit = the (mu_new lpm_kind 0 (the (lpms_new 2 1)) 2 (one_lpm_field 8))"

lemma example_lpm_unit:
  "unit_wf (lpm_inv 1) (lpm_key_ok 1) lpm_holds word_cap 1 example_lpm_unit" "fields_sized (mu_builder example_lpm_unit) byte_packet"
  "mu_handles example_lpm_unit = {}"
proof -
  obtain tr where tr: "lpms_new 2 1 = Some tr" "stands_for tr []" "key_width_bytes tr = 1"
    using lpm_new_refines [of 1] by (auto simp: lpms_new_def)
  have h: "\<forall>k. lpm_key_ok 1 k \<longrightarrow> lpm_holds tr k = None" using lpm_holds_table [OF tr(2)] by simp
  then have I: "lpm_inv 1 tr" using tr(2,3) by (auto simp: lpm_inv_def)
  have o: "kb_open (one_lpm_field 8)" unfolding one_lpm_field_def by (rule kb_open_pushes(1) [OF kb_open_new]) simp_all
  have nb: "nbytes_key (one_lpm_field 8) = 1"
    by (simp add: one_lpm_field_def kb_push_back_field_def kb_push_back_def kb_new_def nbits_to_nbytes_def)
  obtain mu where m: "mu_new lpm_kind (0::nat) tr 2 (one_lpm_field 8) = Some mu" "unit_wf (lpm_inv 1) (lpm_key_ok 1) lpm_holds word_cap 1 mu"
    by (rule lu.new_wf [OF o nb I h, of 2 0]) (simp_all add: word_cap_def)
  then show "unit_wf (lpm_inv 1) (lpm_key_ok 1) lpm_holds word_cap 1 example_lpm_unit"
    by (simp only: example_lpm_unit_def tr(1) option.sel)
  obtain kb where kb: "build (one_lpm_field 8) = Some kb" "key_input kb = [\<lparr>kf_header = 0, kf_offset = 0, kf_type = LPM, kf_nbits = 8\<rparr>]"
    by (rule one_lpm_field_built [of 8]) simp_all
  then show "fields_sized (mu_builder example_lpm_unit) byte_packet" "mu_handles example_lpm_unit = {}"
    by (simp_all add: example_lpm_unit_def tr(1) mu_new_def mgr_new_def fields_sized_def field_value_def byte_packet_def
        empty_phv_def is_valid_def field_nbytes_def nbits_to_nbytes_def)
qed

theorem lpm_unit_invariant_witness:
  "unit_wf (lpm_inv 1) (lpm_key_ok 1) lpm_holds word_cap 1 (mu_reset_counters example_lpm_unit)"
  by (rule lpm_unit_invariant [OF example_lpm_unit(1), of 0], rule r_into_rtranclp, rule step_reset_counters)

theorem lpm_delete_unit_refines_witness: "mu_delete_entry lpm_ops 0 example_lpm_unit = Some (Inl INVALID_HANDLE, example_lpm_unit)"
proof -
  obtain r mu' where "mu_delete_entry lpm_ops 0 example_lpm_unit = Some (r, mu')"
    "case r of Inl e \<Rightarrow> mu' = example_lpm_unit \<and> e = INVALID_HANDLE | Inr _ \<Rightarrow> False"
    using lpm_delete_unit_refines [OF example_lpm_unit(1), of 0] example_lpm_unit(3) by (fastforce split: sum.splits)
  then show ?thesis by (cases r) simp_all
qed

theorem lpm_unit_finds_longest_witness:
  "\<exists>key x mu'. build_key (mu_builder example_lpm_unit) byte_packet [] = Some key \<and>
    mu_lookup lpm_ops byte_packet 64 10 example_lpm_unit = Some (x, mu') \<and>
    map_option snd x = longest (\<lambda>l. unit_table (lpm_key_ok 1) lpm_holds example_lpm_unit \<lparr>kdata = key, kversion = 0, prefix_length = l\<rparr>) (8 * 1)"
  by (rule lpm_unit_finds_longest [OF example_lpm_unit(1,2)])

end
