(* ===== verification/Action_Profiles.thy ===== *)
theory Action_Profiles
  imports Match_Units
begin

text \<open>
  Action profiles: \<^verbatim>\<open>action_profile.h\<close>, \<^verbatim>\<open>action_profile.cpp\<close>, \<^verbatim>\<open>ras.h\<close> and the
  action entries of \<^verbatim>\<open>action_entry.h\<close>.  A profile holds action entries (members) and groups of
  members that tables refer to by an index, and counts these references, so that a member or group in
  use cannot be deleted.  The theorems: the counts are right in all reachable states, so an index that a
  table holds always leads to a member; and the three ways in which the code itself breaks this.
\<close>

section \<open>Actions\<close>

text \<open>An action function is its identity and its number of parameters.\<close>

record action_fn =
  fn_id :: int
  fn_num_params :: nat

record action_fn_entry =
  afe_fn :: "action_fn option"
  afe_data :: "data list"

record action_entry =
  ae_fn :: action_fn_entry
  ae_next :: "nat option"

definition empty_action_entry :: action_entry where
  "empty_action_entry = \<lparr>ae_fn = \<lparr>afe_fn = None, afe_data = []\<rparr>, ae_next = None\<rparr>"

definition get_action_id :: "action_fn_entry \<Rightarrow> int" where
  "get_action_id e = (case afe_fn e of None \<Rightarrow> 2 ^ 31 - 1 | Some f \<Rightarrow> fn_id f)"

section \<open>Sets with access by rank\<close>

type_synonym ras = "nat set"

definition ras_add :: "ras \<Rightarrow> nat \<Rightarrow> bool \<times> ras" where
  "ras_add S m = (m \<notin> S, insert m S)"

definition ras_remove :: "ras \<Rightarrow> nat \<Rightarrow> bool \<times> ras" where
  "ras_remove S m = (m \<in> S, S - {m})"

definition ras_contains :: "ras \<Rightarrow> nat \<Rightarrow> bool" where
  "ras_contains S m \<longleftrightarrow> m \<in> S"

definition ras_count :: "ras \<Rightarrow> nat" where
  "ras_count S = card S"

definition ras_get_nth :: "ras \<Rightarrow> nat \<Rightarrow> nat option" where
  "ras_get_nth S n = do { guard (n \<le> ras_count S); nth_opt (sorted_list_of_set S) n }"

section \<open>Indices\<close>

text \<open>An index is an unsigned number: its kind above bit 24, the member or group below.\<close>

definition index_mask :: nat where
  "index_mask = 0x00ffffff"

definition is_mbr :: "nat \<Rightarrow> bool" where
  "is_mbr i \<longleftrightarrow> i div 2 ^ 24 = 0"

definition is_grp :: "nat \<Rightarrow> bool" where
  "is_grp i \<longleftrightarrow> i div 2 ^ 24 = 1"

definition get_index :: "nat \<Rightarrow> nat" where
  "get_index i = i mod 2 ^ 24"

definition get_mbr :: "nat \<Rightarrow> nat option" where
  "get_mbr i = do { guard (is_mbr i); Some (get_index i) }"

definition get_grp :: "nat \<Rightarrow> nat option" where
  "get_grp i = do { guard (is_grp i); Some (get_index i) }"

definition make_mbr_index :: "nat \<Rightarrow> nat option" where
  "make_mbr_index m = do { guard (m \<le> index_mask); Some (0 * 2 ^ 24 + m) }"

definition make_grp_index :: "nat \<Rightarrow> nat option" where
  "make_grp_index g = do { guard (g \<le> index_mask); Some (1 * 2 ^ 24 + g) }"

section \<open>Reference counts\<close>

record ref_count =
  mbr_count :: "nat list"
  grp_count :: "nat list"

definition rc_new :: ref_count where
  "rc_new = \<lparr>mbr_count = [], grp_count = []\<rparr>"

definition set_count :: "nat list \<Rightarrow> nat \<Rightarrow> nat \<Rightarrow> nat list option" where
  "set_count v i x = do { guard (i \<le> length v); Some (if i = length v then v @ [x] else v[i := x]) }"

definition on_counts :: "nat \<Rightarrow> (nat list \<Rightarrow> nat list option) \<Rightarrow> ref_count \<Rightarrow> ref_count option" where
  "on_counts index f rc =
     (if is_mbr index then map_option (\<lambda>v. rc\<lparr>mbr_count := v\<rparr>) (f (mbr_count rc))
      else map_option (\<lambda>v. rc\<lparr>grp_count := v\<rparr>) (f (grp_count rc)))"

definition rc_set :: "nat \<Rightarrow> nat \<Rightarrow> ref_count \<Rightarrow> ref_count option" where
  "rc_set index x = on_counts index (\<lambda>v. set_count v (get_index index) x)"

definition rc_get :: "nat \<Rightarrow> ref_count \<Rightarrow> nat option" where
  "rc_get index rc = (if is_mbr index then nth_opt (mbr_count rc) (get_index index) else nth_opt (grp_count rc) (get_index index))"

definition rc_increase :: "nat \<Rightarrow> ref_count \<Rightarrow> ref_count option" where
  "rc_increase index = on_counts index (\<lambda>v. do {
     x \<leftarrow> nth_opt v (get_index index); Some (v[get_index index := (x + 1) mod 2 ^ 32]) })"

definition rc_decrease :: "nat \<Rightarrow> ref_count \<Rightarrow> ref_count option" where
  "rc_decrease index = on_counts index (\<lambda>v. do {
     x \<leftarrow> nth_opt v (get_index index); Some (v[get_index index := (x + (2 ^ 32 - 1)) mod 2 ^ 32]) })"

section \<open>Profiles\<close>

text \<open>
  The groups are those of \<^verbatim>\<open>GroupMgr\<close>, which is also the selector unless a target sets another
  one: its operations on members do nothing.
\<close>

record action_profile =
  with_selection :: bool
  action_entries :: "action_entry list"
  index_ref_count :: ref_count
  mbr_handles :: handle_mgr
  grp_handles :: handle_mgr
  num_members :: nat
  num_groups :: nat
  grp_mgr :: "ras list"

definition ap_new :: "bool \<Rightarrow> action_profile" where
  "ap_new sel = \<lparr>with_selection = sel, action_entries = [], index_ref_count = rc_new, mbr_handles = mgr_new,
     grp_handles = mgr_new, num_members = 0, num_groups = 0, grp_mgr = []\<rparr>"

definition is_valid_mbr :: "action_profile \<Rightarrow> nat \<Rightarrow> bool" where
  "is_valid_mbr ap m = valid_handle (mbr_handles ap) m"

definition is_valid_grp :: "action_profile \<Rightarrow> nat \<Rightarrow> bool" where
  "is_valid_grp ap g = valid_handle (grp_handles ap) g"

definition get_from_hash :: "ras list \<Rightarrow> nat \<Rightarrow> nat \<Rightarrow> nat option" where
  "get_from_hash gs g h = do {
     S \<leftarrow> nth_opt gs g;
     guard (ras_count S \<noteq> 0);
     ras_get_nth S (h mod ras_count S) }"

text \<open>\<open>h\<close> is the output of the hash calculation for the packet, if there is a calculation.\<close>

definition choose_from_group :: "action_profile \<Rightarrow> nat option \<Rightarrow> nat \<Rightarrow> nat option" where
  "choose_from_group ap h g = (case h of None \<Rightarrow> get_from_hash (grp_mgr ap) g 0 | Some x \<Rightarrow> get_from_hash (grp_mgr ap) g (x mod 2 ^ 32))"

text \<open>The entry is returned by reference: the result is its position.\<close>

definition ap_lookup :: "action_profile \<Rightarrow> nat option \<Rightarrow> nat \<Rightarrow> nat option" where
  "ap_lookup ap h index = do {
     guard (is_mbr index \<or> with_selection ap);
     m \<leftarrow> (if is_mbr index then get_mbr index
           else do { g \<leftarrow> get_grp index; guard (is_valid_grp ap g); choose_from_group ap h g });
     guard (is_valid_mbr ap m);
     guard (m < length (action_entries ap));
     Some m }"

definition entries_insert :: "nat \<Rightarrow> action_entry \<Rightarrow> action_profile \<Rightarrow> action_profile option" where
  "entries_insert m e ap = do {
     guard (m \<le> length (action_entries ap));
     i \<leftarrow> make_mbr_index m;
     rc \<leftarrow> rc_set i 0 (index_ref_count ap);
     Some (ap\<lparr>action_entries := (if m = length (action_entries ap) then action_entries ap @ [e] else (action_entries ap)[m := e]),
       index_ref_count := rc\<rparr>) }"

definition add_member ::
  "action_fn \<Rightarrow> data list \<Rightarrow> action_profile \<Rightarrow> ((match_error + nat) \<times> action_profile) option" where
  "add_member f d ap =
     (if length d \<noteq> fn_num_params f then Some (Inl BAD_ACTION_DATA, ap)
      else case get_handle (mbr_handles ap) of
        None \<Rightarrow> Some (Inl ERROR, ap)
      | Some (h, hs) \<Rightarrow> do {
          let m = h mod 2 ^ 32;
          ap1 \<leftarrow> entries_insert m \<lparr>ae_fn = \<lparr>afe_fn = Some f, afe_data = d\<rparr>, ae_next = None\<rparr> (ap\<lparr>mbr_handles := hs\<rparr>);
          Some (Inr m, ap1\<lparr>num_members := num_members ap1 + 1\<rparr>) })"

definition delete_member :: "nat \<Rightarrow> action_profile \<Rightarrow> ((match_error + unit) \<times> action_profile) option" where
  "delete_member m ap =
     (if \<not> is_valid_mbr ap m then Some (Inl INVALID_MBR_HANDLE, ap)
      else do {
        i \<leftarrow> make_mbr_index m;
        c \<leftarrow> rc_get i (index_ref_count ap);
        if c > 0 then Some (Inl MBR_STILL_USED, ap)
        else do {
          let (ok, hs) = release_handle (mbr_handles ap) m;
          guard ok;
          Some (Inr (), ap\<lparr>mbr_handles := hs, num_members := num_members ap - 1\<rparr>) } })"

definition modify_member ::
  "nat \<Rightarrow> action_fn \<Rightarrow> data list \<Rightarrow> action_profile \<Rightarrow> ((match_error + unit) \<times> action_profile) option" where
  "modify_member m f d ap =
     (if length d \<noteq> fn_num_params f then Some (Inl BAD_ACTION_DATA, ap)
      else if \<not> is_valid_mbr ap m then Some (Inl INVALID_MBR_HANDLE, ap)
      else do {
        guard (m < length (action_entries ap));
        Some (Inr (), ap\<lparr>action_entries := (action_entries ap)[m := \<lparr>ae_fn = \<lparr>afe_fn = Some f, afe_data = d\<rparr>, ae_next = None\<rparr>]\<rparr>) })"

definition insert_group :: "nat \<Rightarrow> ras list \<Rightarrow> ras list option" where
  "insert_group g gs = do {
     guard (g \<le> length gs);
     Some (if g = length gs then gs @ [{}] else gs[g := {}]) }"

definition create_group :: "action_profile \<Rightarrow> ((match_error + nat) \<times> action_profile) option" where
  "create_group ap =
     (case get_handle (grp_handles ap) of
        None \<Rightarrow> Some (Inl ERROR, ap)
      | Some (h, hs) \<Rightarrow> do {
          let g = h mod 2 ^ 32;
          gs \<leftarrow> insert_group g (grp_mgr ap);
          i \<leftarrow> make_grp_index g;
          rc \<leftarrow> rc_set i 0 (index_ref_count ap);
          Some (Inr g, ap\<lparr>grp_handles := hs, grp_mgr := gs, index_ref_count := rc, num_groups := num_groups ap + 1\<rparr>) })"

definition decrease_member :: "nat \<Rightarrow> ref_count \<Rightarrow> ref_count option" where
  "decrease_member m rc = do { i \<leftarrow> make_mbr_index m; rc_decrease i rc }"

definition delete_group :: "nat \<Rightarrow> action_profile \<Rightarrow> ((match_error + unit) \<times> action_profile) option" where
  "delete_group g ap =
     (if \<not> is_valid_grp ap g then Some (Inl INVALID_GRP_HANDLE, ap)
      else do {
        i \<leftarrow> make_grp_index g;
        c \<leftarrow> rc_get i (index_ref_count ap);
        if c > 0 then Some (Inl GRP_STILL_USED, ap)
        else do {
          S \<leftarrow> nth_opt (grp_mgr ap) g;
          rc \<leftarrow> fold_opt decrease_member (sorted_list_of_set S) (index_ref_count ap);
          let (ok, hs) = release_handle (grp_handles ap) g;
          guard ok;
          Some (Inr (), ap\<lparr>index_ref_count := rc, grp_handles := hs, num_groups := num_groups ap - 1\<rparr>) } })"

definition add_member_to_group :: "nat \<Rightarrow> nat \<Rightarrow> action_profile \<Rightarrow> ((match_error + unit) \<times> action_profile) option" where
  "add_member_to_group m g ap =
     (if \<not> is_valid_mbr ap m then Some (Inl INVALID_MBR_HANDLE, ap)
      else if \<not> is_valid_grp ap g then Some (Inl INVALID_GRP_HANDLE, ap)
      else do {
        S \<leftarrow> nth_opt (grp_mgr ap) g;
        let (added, S') = ras_add S m;
        if \<not> added then Some (Inl MBR_ALREADY_IN_GRP, ap)
        else do {
          i \<leftarrow> make_mbr_index m;
          rc \<leftarrow> rc_increase i (index_ref_count ap);
          Some (Inr (), ap\<lparr>grp_mgr := (grp_mgr ap)[g := S'], index_ref_count := rc\<rparr>) } })"

definition remove_member_from_group :: "nat \<Rightarrow> nat \<Rightarrow> action_profile \<Rightarrow> ((match_error + unit) \<times> action_profile) option" where
  "remove_member_from_group m g ap =
     (if \<not> is_valid_mbr ap m then Some (Inl INVALID_MBR_HANDLE, ap)
      else if \<not> is_valid_grp ap g then Some (Inl INVALID_GRP_HANDLE, ap)
      else do {
        S \<leftarrow> nth_opt (grp_mgr ap) g;
        let (removed, S') = ras_remove S m;
        if \<not> removed then Some (Inl MBR_NOT_IN_GRP, ap)
        else do {
          i \<leftarrow> make_mbr_index m;
          rc \<leftarrow> rc_decrease i (index_ref_count ap);
          Some (Inr (), ap\<lparr>grp_mgr := (grp_mgr ap)[g := S'], index_ref_count := rc\<rparr>) } })"

record member =
  m_mbr :: nat
  m_fn :: "action_fn option"
  m_data :: "data list"

record group =
  g_grp :: nat
  g_mbrs :: "nat list"

definition get_member_internal :: "action_profile \<Rightarrow> nat \<Rightarrow> member option" where
  "get_member_internal ap m = do {
     e \<leftarrow> nth_opt (action_entries ap) m;
     Some \<lparr>m_mbr = m, m_fn = afe_fn (ae_fn e), m_data = afe_data (ae_fn e)\<rparr> }"

definition get_member :: "action_profile \<Rightarrow> nat \<Rightarrow> (match_error + member) option" where
  "get_member ap m = (if \<not> is_valid_mbr ap m then Some (Inl INVALID_MBR_HANDLE)
     else map_option Inr (get_member_internal ap m))"

text \<open>The vectors of results have the counted size: more handles are written outside, fewer leave members unset.\<close>

definition get_members :: "action_profile \<Rightarrow> member list option" where
  "get_members ap = do {
     hs \<leftarrow> all_handles (mbr_handles ap);
     guard (length hs \<le> num_members ap);
     ms \<leftarrow> map_opt (get_member_internal ap) hs;
     guard (length ms = num_members ap);
     Some ms }"

definition get_group_internal :: "action_profile \<Rightarrow> nat \<Rightarrow> group option" where
  "get_group_internal ap g = do {
     S \<leftarrow> nth_opt (grp_mgr ap) g;
     Some \<lparr>g_grp = g, g_mbrs = sorted_list_of_set S\<rparr> }"

definition get_group :: "action_profile \<Rightarrow> nat \<Rightarrow> (match_error + group) option" where
  "get_group ap g = (if \<not> is_valid_grp ap g then Some (Inl INVALID_GRP_HANDLE)
     else map_option Inr (get_group_internal ap g))"

definition get_groups :: "action_profile \<Rightarrow> group list option" where
  "get_groups ap = do {
     hs \<leftarrow> all_handles (grp_handles ap);
     guard (length hs \<le> num_groups ap);
     gs \<leftarrow> map_opt (get_group_internal ap) hs;
     guard (length gs = num_groups ap);
     Some gs }"

definition get_num_members_in_group :: "action_profile \<Rightarrow> nat \<Rightarrow> (match_error + nat) option" where
  "get_num_members_in_group ap g = (if \<not> is_valid_grp ap g then Some (Inl INVALID_GRP_HANDLE)
     else map_option (\<lambda>S. Inr (ras_count S)) (nth_opt (grp_mgr ap) g))"

definition group_is_empty :: "action_profile \<Rightarrow> nat \<Rightarrow> bool option" where
  "group_is_empty ap g = map_option (\<lambda>S. ras_count S = 0) (nth_opt (grp_mgr ap) g)"

definition ap_reset_state :: "action_profile \<Rightarrow> action_profile" where
  "ap_reset_state ap = ap\<lparr>index_ref_count := rc_new, mbr_handles := mgr_clear (mbr_handles ap), action_entries := [],
     num_members := 0, num_groups := 0, grp_mgr := []\<rparr>"

definition ref_count_increase :: "nat \<Rightarrow> action_profile \<Rightarrow> action_profile option" where
  "ref_count_increase i ap = map_option (\<lambda>rc. ap\<lparr>index_ref_count := rc\<rparr>) (rc_increase i (index_ref_count ap))"

definition ref_count_decrease :: "nat \<Rightarrow> action_profile \<Rightarrow> action_profile option" where
  "ref_count_decrease i ap = map_option (\<lambda>rc. ap\<lparr>index_ref_count := rc\<rparr>) (rc_decrease i (index_ref_count ap))"

section \<open>The references to members and groups\<close>

text \<open>
  \<open>ext i\<close> is the number of references to index \<open>i\<close> from outside the profile.  The bounds keep
  the 32-bit counts from wrapping and the handles within an index.
\<close>

definition groups_of :: "action_profile \<Rightarrow> nat \<Rightarrow> nat set" where
  "groups_of ap m = {g \<in> grp_handles ap. m \<in> grp_mgr ap ! g}"

definition counts_ok :: "ref_count \<Rightarrow> (nat \<Rightarrow> nat) \<Rightarrow> action_profile \<Rightarrow> bool" where
  "counts_ok rc ext ap \<longleftrightarrow>
     (\<forall>m \<in> mbr_handles ap. mbr_count rc ! m = ext m + card (groups_of ap m)) \<and>
     (\<forall>g \<in> grp_handles ap. grp_count rc ! g = ext (2 ^ 24 + g))"

definition refs_valid :: "(nat \<Rightarrow> nat) \<Rightarrow> nat set \<Rightarrow> nat set \<Rightarrow> bool" where
  "refs_valid ext ms gs \<longleftrightarrow> (\<forall>i. 0 < ext i \<longrightarrow> (i < 2 ^ 24 \<and> i \<in> ms) \<or> (2 ^ 24 \<le> i \<and> i - 2 ^ 24 \<in> gs))"

lemma refs_valid_mono: "refs_valid ext ms gs \<Longrightarrow> ms \<subseteq> ms' \<Longrightarrow> gs \<subseteq> gs' \<Longrightarrow> refs_valid ext ms' gs'"
  unfolding refs_valid_def by blast

lemma refs_valid_drop:
  assumes "refs_valid ext ms gs"
  shows "m < 2 ^ 24 \<Longrightarrow> ext m = 0 \<Longrightarrow> refs_valid ext (ms - {m}) gs" "ext (2 ^ 24 + g) = 0 \<Longrightarrow> refs_valid ext ms (gs - {g})"
proof -
  show "refs_valid ext (ms - {m}) gs" if "ext m = 0"
    unfolding refs_valid_def
  proof (intro allI impI)
    fix i assume i: "0 < ext i"
    then have "i \<noteq> m" using that by auto
    then show "(i < 2 ^ 24 \<and> i \<in> ms - {m}) \<or> (2 ^ 24 \<le> i \<and> i - 2 ^ 24 \<in> gs)"
      using assms i unfolding refs_valid_def by blast
  qed
  show "refs_valid ext ms (gs - {g})" if "ext (2 ^ 24 + g) = 0"
    unfolding refs_valid_def
  proof (intro allI impI)
    fix i assume i: "0 < ext i"
    have "i - 2 ^ 24 \<noteq> g" if "2 ^ 24 \<le> i"
    proof
      assume "i - 2 ^ 24 = g"
      then have "i = 2 ^ 24 + g" using that by simp
      then show False using i \<open>ext (2 ^ 24 + g) = 0\<close> by simp
    qed
    then show "(i < 2 ^ 24 \<and> i \<in> ms) \<or> (2 ^ 24 \<le> i \<and> i - 2 ^ 24 \<in> gs - {g})"
      using assms i unfolding refs_valid_def by blast
  qed
qed

definition ap_inv :: "(nat \<Rightarrow> nat) \<Rightarrow> action_profile \<Rightarrow> bool" where
  "ap_inv ext ap \<longleftrightarrow>
     length (mbr_count (index_ref_count ap)) = length (action_entries ap) \<and> length (action_entries ap) \<le> 2 ^ 24 \<and>
     mbr_handles ap \<subseteq> {..<length (action_entries ap)} \<and> num_members ap = card (mbr_handles ap) \<and>
     length (grp_count (index_ref_count ap)) = length (grp_mgr ap) \<and> length (grp_mgr ap) \<le> 2 ^ 24 \<and>
     grp_handles ap \<subseteq> {..<length (grp_mgr ap)} \<and> num_groups ap = card (grp_handles ap) \<and>
     (\<forall>g \<in> grp_handles ap. grp_mgr ap ! g \<subseteq> mbr_handles ap) \<and>
     counts_ok (index_ref_count ap) ext ap \<and>
     refs_valid ext (mbr_handles ap) (grp_handles ap) \<and> (\<forall>i. ext i < 2 ^ 31)"

lemma ap_invD:
  assumes "ap_inv ext ap"
  shows "finite (mbr_handles ap)" "finite (grp_handles ap)"
    "m \<in> mbr_handles ap \<Longrightarrow> m < length (action_entries ap) \<and> m < 2 ^ 24"
    "g \<in> grp_handles ap \<Longrightarrow> g < length (grp_mgr ap) \<and> g < 2 ^ 24"
    "m \<in> mbr_handles ap \<Longrightarrow> mbr_count (index_ref_count ap) ! m = ext m + card (groups_of ap m)"
    "g \<in> grp_handles ap \<Longrightarrow> grp_count (index_ref_count ap) ! g = ext (2 ^ 24 + g)"
    "g \<in> grp_handles ap \<Longrightarrow> grp_mgr ap ! g \<subseteq> mbr_handles ap"
    "finite (groups_of ap m)" "ext m + card (groups_of ap m) < 2 ^ 32 - 1"
    "length (mbr_count (index_ref_count ap)) = length (action_entries ap)"
    "length (grp_count (index_ref_count ap)) = length (grp_mgr ap)"
proof -
  note a = assms [unfolded ap_inv_def counts_ok_def]
  show fin: "finite (mbr_handles ap)" "finite (grp_handles ap)" using a finite_subset [OF _ finite_lessThan] by blast+
  have len: "length (action_entries ap) \<le> 2 ^ 24" "length (grp_mgr ap) \<le> 2 ^ 24"
    "mbr_handles ap \<subseteq> {..<length (action_entries ap)}" "grp_handles ap \<subseteq> {..<length (grp_mgr ap)}"
    using a by blast+
  show "m \<in> mbr_handles ap \<Longrightarrow> m < length (action_entries ap) \<and> m < 2 ^ 24"
    using len(3) order.strict_trans2 [OF _ len(1)] by (simp only: subset_iff lessThan_iff)
  show "g \<in> grp_handles ap \<Longrightarrow> g < length (grp_mgr ap) \<and> g < 2 ^ 24"
    using len(4) order.strict_trans2 [OF _ len(2)] by (simp only: subset_iff lessThan_iff)
  show "m \<in> mbr_handles ap \<Longrightarrow> mbr_count (index_ref_count ap) ! m = ext m + card (groups_of ap m)"
    "g \<in> grp_handles ap \<Longrightarrow> grp_count (index_ref_count ap) ! g = ext (2 ^ 24 + g)"
    "g \<in> grp_handles ap \<Longrightarrow> grp_mgr ap ! g \<subseteq> mbr_handles ap"
    "length (mbr_count (index_ref_count ap)) = length (action_entries ap)"
    "length (grp_count (index_ref_count ap)) = length (grp_mgr ap)"
    using a by blast+
  show fg: "finite (groups_of ap m)" using fin(2) by (simp add: groups_of_def)
  have "card (groups_of ap m) \<le> card {..<length (grp_mgr ap)}"
    using a by (intro card_mono) (auto simp: groups_of_def)
  moreover have "length (grp_mgr ap) \<le> 2 ^ 24" "ext m < 2 ^ 31" using a by blast+
  ultimately show "ext m + card (groups_of ap m) < 2 ^ 32 - 1" by simp
qed

lemma mbr_index: "m < 2 ^ 24 \<Longrightarrow> make_mbr_index m = Some m" "m < 2 ^ 24 \<Longrightarrow> is_mbr m" "m < 2 ^ 24 \<Longrightarrow> get_index m = m"
  "m < 2 ^ 24 \<Longrightarrow> get_mbr m = Some m"
  by (simp_all add: make_mbr_index_def index_mask_def is_mbr_def get_index_def get_mbr_def)

lemma grp_index: "g < 2 ^ 24 \<Longrightarrow> make_grp_index g = Some (2 ^ 24 + g)" "g < 2 ^ 24 \<Longrightarrow> \<not> is_mbr (2 ^ 24 + g)"
  "g < 2 ^ 24 \<Longrightarrow> get_index (2 ^ 24 + g) = g" "g < 2 ^ 24 \<Longrightarrow> get_grp (2 ^ 24 + g) = Some g"
  by (auto simp: make_grp_index_def index_mask_def is_mbr_def get_index_def get_grp_def is_grp_def)

lemma new_inv: "ap_inv (\<lambda>_. 0) (ap_new sel)"
  by (simp add: ap_inv_def ap_new_def rc_new_def counts_ok_def mgr_new_def refs_valid_def)

lemma free_handle:
  assumes "finite S" "S \<subseteq> {..<n}" "n \<le> 2 ^ 24"
  obtains h where "get_handle S = Some (h, insert h S)" "h \<notin> S" "h \<le> n" "h \<le> card S" "h mod 2 ^ 32 = h"
proof -
  have c: "card S \<le> n" using card_mono [OF finite_lessThan assms(2)] by simp
  have "card S \<le> word_max" using c assms(3) by (simp add: word_max_def)
  then obtain h where h: "get_handle S = Some (h, insert h S)" "h \<notin> S" "{..<h} \<subseteq> S" "h \<le> card S"
    using get_handle_total [OF assms(1)] get_handle_Some [OF assms(1)] by blast
  have "h < 2 ^ 32" using h(4) c assms(3) by simp
  then show ?thesis using h c by (intro that [of h]) simp_all
qed

section \<open>Members\<close>

lemma add_member_inv:
  assumes inv: "ap_inv ext ap" and args: "length d = fn_num_params f" and room: "card (mbr_handles ap) < 2 ^ 24"
  obtains m ap' where "add_member f d ap = Some (Inr m, ap')" "ap_inv ext ap'" "m \<notin> mbr_handles ap"
    "mbr_handles ap' = insert m (mbr_handles ap)" "grp_handles ap' = grp_handles ap" "grp_mgr ap' = grp_mgr ap"
    "action_entries ap' ! m = \<lparr>ae_fn = \<lparr>afe_fn = Some f, afe_data = d\<rparr>, ae_next = None\<rparr>"
proof -
  note i = ap_invD [OF inv] and a = inv [unfolded ap_inv_def]
  have sub: "mbr_handles ap \<subseteq> {..<length (action_entries ap)}" "length (action_entries ap) \<le> 2 ^ 24" using a by blast+
  obtain m where m: "get_handle (mbr_handles ap) = Some (m, insert m (mbr_handles ap))" "m \<notin> mbr_handles ap"
      "m \<le> length (action_entries ap)" "m \<le> card (mbr_handles ap)" "m mod 2 ^ 32 = m"
    by (rule free_handle [OF i(1) sub])
  have m24: "m < 2 ^ 24" and mle: "m \<le> length (action_entries ap)" using m(3,4) room by linarith+
  let ?e = "\<lparr>ae_fn = \<lparr>afe_fn = Some f, afe_data = d\<rparr>, ae_next = None\<rparr>"
  define es where "es = (if m = length (action_entries ap) then action_entries ap @ [?e] else (action_entries ap)[m := ?e])"
  define v where "v = (if m = length (action_entries ap) then mbr_count (index_ref_count ap) @ [0] else (mbr_count (index_ref_count ap))[m := 0])"
  let ?ap' = "ap\<lparr>mbr_handles := insert m (mbr_handles ap), action_entries := es,
      index_ref_count := (index_ref_count ap)\<lparr>mbr_count := v\<rparr>, num_members := num_members ap + 1\<rparr>"
  have rc: "rc_set m 0 (index_ref_count ap) = Some ((index_ref_count ap)\<lparr>mbr_count := v\<rparr>)"
    using mle i(10) by (simp add: rc_set_def on_counts_def mbr_index [OF m24] set_count_def v_def)
  have run: "add_member f d ap = Some (Inr m, ?ap')"
    using m(1,5) m24 mle args rc by (simp add: add_member_def entries_insert_def mbr_index es_def)
  have len: "length es = max (length (action_entries ap)) (m + 1)" "length v = length es"
    using mle i(10) by (auto simp: es_def v_def)
  have vm: "v ! m = 0" "\<And>j. j \<noteq> m \<Longrightarrow> j < length (action_entries ap) \<Longrightarrow> v ! j = mbr_count (index_ref_count ap) ! j"
    using mle i(10) by (auto simp: v_def nth_append)
  have no_ref: "ext m = 0" using a m(2) m24 unfolding refs_valid_def by (metis gr0I not_le)
  have grp: "groups_of ?ap' j = groups_of ap j" for j by (simp add: groups_of_def)
  have none: "groups_of ap m = {}" using i(7) m(2) by (auto simp: groups_of_def)
  have "v ! j = ext j + card (groups_of ap j)" if "j \<in> insert m (mbr_handles ap)" for j
    by (cases "j = m") (use that vm no_ref i(3,5) none in auto)
  then have "counts_ok ((index_ref_count ap)\<lparr>mbr_count := v\<rparr>) ext ?ap'"
    using i(6) unfolding counts_ok_def grp by simp
  moreover have "refs_valid ext (insert m (mbr_handles ap)) (grp_handles ap)" using a refs_valid_mono by blast
  moreover have "insert m (mbr_handles ap) \<subseteq> {..<length es}" "length es \<le> 2 ^ 24" using sub len(1) m24 by auto
  moreover have "\<forall>g \<in> grp_handles ap. grp_mgr ap ! g \<subseteq> insert m (mbr_handles ap)" using i(7) by blast
  ultimately have inv': "ap_inv ext ?ap'"
    unfolding ap_inv_def using a len(2) m(2) i(1) by simp
  have "es ! m = ?e" using mle by (simp add: es_def)
  then show ?thesis using run inv' m(2) by (intro that [of m ?ap']) simp_all
qed

lemma delete_member_inv:
  assumes inv: "ap_inv ext ap"
  shows "delete_member m ap =
    (if m \<notin> mbr_handles ap then Some (Inl INVALID_MBR_HANDLE, ap)
     else if 0 < ext m \<or> groups_of ap m \<noteq> {} then Some (Inl MBR_STILL_USED, ap)
     else Some (Inr (), ap\<lparr>mbr_handles := mbr_handles ap - {m}, num_members := num_members ap - 1\<rparr>))"
    and "m \<in> mbr_handles ap \<Longrightarrow> ext m = 0 \<Longrightarrow> groups_of ap m = {} \<Longrightarrow>
      ap_inv ext (ap\<lparr>mbr_handles := mbr_handles ap - {m}, num_members := num_members ap - 1\<rparr>)"
proof -
  note i = ap_invD [OF inv] and a = inv [unfolded ap_inv_def]
  show "delete_member m ap =
    (if m \<notin> mbr_handles ap then Some (Inl INVALID_MBR_HANDLE, ap)
     else if 0 < ext m \<or> groups_of ap m \<noteq> {} then Some (Inl MBR_STILL_USED, ap)
     else Some (Inr (), ap\<lparr>mbr_handles := mbr_handles ap - {m}, num_members := num_members ap - 1\<rparr>))"
  proof (cases "m \<in> mbr_handles ap")
    case True
    then have "rc_get m (index_ref_count ap) = Some (ext m + card (groups_of ap m))"
      using i(3,5,10) by (simp add: rc_get_def mbr_index)
    moreover have "0 < ext m + card (groups_of ap m) \<longleftrightarrow> 0 < ext m \<or> groups_of ap m \<noteq> {}"
      using i(8) card_gt_0_iff by auto
    ultimately show ?thesis
      using True i(3) by (simp add: delete_member_def is_valid_mbr_def valid_handle_def mbr_index release_handle_def)
  qed (simp add: delete_member_def is_valid_mbr_def valid_handle_def)
  assume m: "m \<in> mbr_handles ap" "ext m = 0" "groups_of ap m = {}"
  let ?ap' = "ap\<lparr>mbr_handles := mbr_handles ap - {m}, num_members := num_members ap - 1\<rparr>"
  have grp: "groups_of ?ap' j = groups_of ap j" for j by (simp add: groups_of_def)
  have sub: "\<forall>g \<in> grp_handles ap. grp_mgr ap ! g \<subseteq> mbr_handles ap - {m}"
    using i(7) m(3) by (auto simp: groups_of_def)
  have "counts_ok (index_ref_count ap) ext ?ap'" using i(5,6) unfolding counts_ok_def grp by simp
  moreover have "refs_valid ext (mbr_handles ap - {m}) (grp_handles ap)"
    using a i(3) m(1,2) by (intro refs_valid_drop(1)) blast+
  moreover have "mbr_handles ap - {m} \<subseteq> {..<length (action_entries ap)}" using a by blast
  ultimately show "ap_inv ext ?ap'"
    unfolding ap_inv_def using a sub m(1) i(1) by (simp add: card_Diff_singleton)
qed

lemma modify_member_inv:
  assumes inv: "ap_inv ext ap"
  shows "modify_member m f d ap =
    (if length d \<noteq> fn_num_params f then Some (Inl BAD_ACTION_DATA, ap)
     else if m \<notin> mbr_handles ap then Some (Inl INVALID_MBR_HANDLE, ap)
     else Some (Inr (), ap\<lparr>action_entries := (action_entries ap)[m := \<lparr>ae_fn = \<lparr>afe_fn = Some f, afe_data = d\<rparr>, ae_next = None\<rparr>]\<rparr>))"
    and "ap_inv ext (ap\<lparr>action_entries := (action_entries ap)[m := e]\<rparr>)"
  using ap_invD(3) [OF inv] inv
  by (simp_all add: modify_member_def is_valid_mbr_def valid_handle_def ap_inv_def counts_ok_def groups_of_def)

section \<open>Groups\<close>

lemma groups_of_update:
  assumes "\<And>g'. g' \<noteq> g \<Longrightarrow> g' \<in> grp_handles ap \<Longrightarrow> gs ! g' = grp_mgr ap ! g'"
  shows "{g' \<in> insert g (grp_handles ap). m \<in> gs ! g'} = (if m \<in> gs ! g then insert g (groups_of ap m) else groups_of ap m - {g})"
proof (intro set_eqI)
  fix x
  show "x \<in> {g' \<in> insert g (grp_handles ap). m \<in> gs ! g'} \<longleftrightarrow>
      x \<in> (if m \<in> gs ! g then insert g (groups_of ap m) else groups_of ap m - {g})"
    by (cases "x = g") (use assms [of x] in \<open>auto simp: groups_of_def\<close>)
qed

lemma create_group_inv:
  assumes inv: "ap_inv ext ap" and room: "card (grp_handles ap) < 2 ^ 24"
  obtains g ap' where "create_group ap = Some (Inr g, ap')" "ap_inv ext ap'" "g \<notin> grp_handles ap"
    "grp_handles ap' = insert g (grp_handles ap)" "grp_mgr ap' ! g = {}" "mbr_handles ap' = mbr_handles ap"
    "action_entries ap' = action_entries ap"
proof -
  note i = ap_invD [OF inv] and a = inv [unfolded ap_inv_def]
  have sub: "grp_handles ap \<subseteq> {..<length (grp_mgr ap)}" "length (grp_mgr ap) \<le> 2 ^ 24" using a by blast+
  obtain g where g: "get_handle (grp_handles ap) = Some (g, insert g (grp_handles ap))" "g \<notin> grp_handles ap"
      "g \<le> length (grp_mgr ap)" "g \<le> card (grp_handles ap)" "g mod 2 ^ 32 = g"
    by (rule free_handle [OF i(2) sub])
  have g24: "g < 2 ^ 24" and gle: "g \<le> length (grp_mgr ap)" using g(3,4) room by linarith+
  define gs where "gs = (if g = length (grp_mgr ap) then grp_mgr ap @ [{}] else (grp_mgr ap)[g := {}])"
  define v where "v = (if g = length (grp_mgr ap) then grp_count (index_ref_count ap) @ [0] else (grp_count (index_ref_count ap))[g := 0])"
  let ?ap' = "ap\<lparr>grp_handles := insert g (grp_handles ap), grp_mgr := gs,
      index_ref_count := (index_ref_count ap)\<lparr>grp_count := v\<rparr>, num_groups := num_groups ap + 1\<rparr>"
  have rc: "rc_set (2 ^ 24 + g) 0 (index_ref_count ap) = Some ((index_ref_count ap)\<lparr>grp_count := v\<rparr>)"
    using gle i(11) grp_index(2,3) [OF g24] by (simp add: rc_set_def on_counts_def set_count_def v_def)
  have run: "create_group ap = Some (Inr g, ?ap')"
    using g(1,5) gle rc grp_index(1) [OF g24] by (simp add: create_group_def insert_group_def gs_def)
  have len: "length gs = max (length (grp_mgr ap)) (g + 1)" "length v = length gs"
    using gle i(11) by (auto simp: gs_def v_def)
  have old: "v ! g = 0" "\<And>j. j \<noteq> g \<Longrightarrow> j < length (grp_mgr ap) \<Longrightarrow> v ! j = grp_count (index_ref_count ap) ! j"
    "gs ! g = {}" "\<And>j. j \<noteq> g \<Longrightarrow> j < length (grp_mgr ap) \<Longrightarrow> gs ! j = grp_mgr ap ! j"
    using gle i(11) by (auto simp: v_def gs_def nth_append)
  have no_ref: "ext (2 ^ 24 + g) = 0"
    using a g(2) unfolding refs_valid_def by (metis add_diff_cancel_left' gr0I le_add1 not_le)
  have grp: "groups_of ?ap' m = groups_of ap m" for m
    using groups_of_update [of g ap gs m] old(3,4) i(4) g(2) by (auto simp: groups_of_def)
  have "v ! j = ext (2 ^ 24 + j)" if "j \<in> insert g (grp_handles ap)" for j
    by (cases "j = g") (use that old(1,2) no_ref i(4,6) in auto)
  then have "counts_ok ((index_ref_count ap)\<lparr>grp_count := v\<rparr>) ext ?ap'"
    using i(5) unfolding counts_ok_def grp by simp
  moreover have "refs_valid ext (mbr_handles ap) (insert g (grp_handles ap))" using a refs_valid_mono by blast
  moreover have "insert g (grp_handles ap) \<subseteq> {..<length gs}" "length gs \<le> 2 ^ 24" using sub len(1) g24 by auto
  moreover have "gs ! j \<subseteq> mbr_handles ap" if "j \<in> insert g (grp_handles ap)" for j
    by (cases "j = g") (use that old(3,4) i(4,7) in auto)
  ultimately have inv': "ap_inv ext ?ap'"
    unfolding ap_inv_def using a len(2) g(2) i(2) by simp
  show ?thesis using run inv' g(2) old(3) by (intro that [of g ?ap']) simp_all
qed

lemma change_group_inv:
  assumes inv: "ap_inv ext ap" and mg: "m \<in> mbr_handles ap" "g \<in> grp_handles ap"
  shows "m \<notin> grp_mgr ap ! g \<Longrightarrow> rc_increase m (index_ref_count ap) = Some rc \<Longrightarrow>
      ap_inv ext (ap\<lparr>grp_mgr := (grp_mgr ap)[g := insert m (grp_mgr ap ! g)], index_ref_count := rc\<rparr>)"
    and "m \<in> grp_mgr ap ! g \<Longrightarrow> rc_decrease m (index_ref_count ap) = Some rc \<Longrightarrow>
      ap_inv ext (ap\<lparr>grp_mgr := (grp_mgr ap)[g := grp_mgr ap ! g - {m}], index_ref_count := rc\<rparr>)"
proof -
  note i = ap_invD [OF inv] and a = inv [unfolded ap_inv_def]
  have m: "m < length (mbr_count (index_ref_count ap))" "m < 2 ^ 24" using i(3) mg(1) i(10) by simp_all
  have gl: "g < length (grp_mgr ap)" using i(4) mg(2) by simp
  have ins: "insert g (grp_handles ap) = grp_handles ap" using mg(2) by blast
  have card0: "mbr_count (index_ref_count ap) ! m = ext m + card (groups_of ap m)" "ext m + card (groups_of ap m) < 2 ^ 32 - 1"
    using i(5) [OF mg(1)] i(9) by simp_all
  {
    fix S n rc
    assume S: "S \<subseteq> mbr_handles ap" "\<And>j. j \<noteq> m \<Longrightarrow> j \<in> S \<longleftrightarrow> j \<in> grp_mgr ap ! g"
      and n: "n = ext m + card {g' \<in> grp_handles ap. m \<in> (grp_mgr ap)[g := S] ! g'}"
      and rc: "rc = (index_ref_count ap)\<lparr>mbr_count := (mbr_count (index_ref_count ap))[m := n]\<rparr>"
    let ?ap' = "ap\<lparr>grp_mgr := (grp_mgr ap)[g := S], index_ref_count := rc\<rparr>"
    have "{g' \<in> grp_handles ap. j \<in> (grp_mgr ap)[g := S] ! g'} = groups_of ap j" if "j \<noteq> m" for j
      using S(2) [OF that] gl by (auto simp: groups_of_def nth_list_update)
    then have "counts_ok rc ext ?ap'"
      using i(5,6) n rc m(1) unfolding counts_ok_def groups_of_def by (auto simp: nth_list_update groups_of_def)
    moreover have "\<forall>j \<in> grp_handles ap. (grp_mgr ap)[g := S] ! j \<subseteq> mbr_handles ap"
      using i(7) S(1) gl by (simp add: nth_list_update)
    ultimately have "ap_inv ext ?ap'" unfolding ap_inv_def using a rc by simp
  }
  note step = this
  show "ap_inv ext (ap\<lparr>grp_mgr := (grp_mgr ap)[g := insert m (grp_mgr ap ! g)], index_ref_count := rc\<rparr>)"
    if "m \<notin> grp_mgr ap ! g" "rc_increase m (index_ref_count ap) = Some rc"
  proof (rule step)
    have "{g' \<in> grp_handles ap. m \<in> (grp_mgr ap)[g := insert m (grp_mgr ap ! g)] ! g'} = insert g (groups_of ap m)"
      using groups_of_update [of g ap "(grp_mgr ap)[g := insert m (grp_mgr ap ! g)]" m] ins gl by simp
    then show "ext m + card (groups_of ap m) + 1 = ext m + card {g' \<in> grp_handles ap. m \<in> (grp_mgr ap)[g := insert m (grp_mgr ap ! g)] ! g'}"
      using that(1) i(8) by (simp add: groups_of_def)
    show "rc = (index_ref_count ap)\<lparr>mbr_count := (mbr_count (index_ref_count ap))[m := ext m + card (groups_of ap m) + 1]\<rparr>"
      using that(2) m card0 by (simp add: rc_increase_def on_counts_def mbr_index)
  qed (use i(7) mg in auto)
  show "ap_inv ext (ap\<lparr>grp_mgr := (grp_mgr ap)[g := grp_mgr ap ! g - {m}], index_ref_count := rc\<rparr>)"
    if "m \<in> grp_mgr ap ! g" "rc_decrease m (index_ref_count ap) = Some rc"
  proof (rule step)
    have g': "g \<in> groups_of ap m" using that(1) mg(2) by (simp add: groups_of_def)
    then have pos: "0 < card (groups_of ap m)" using i(8) card_gt_0_iff by blast
    have "{g' \<in> grp_handles ap. m \<in> (grp_mgr ap)[g := grp_mgr ap ! g - {m}] ! g'} = groups_of ap m - {g}"
      using groups_of_update [of g ap "(grp_mgr ap)[g := grp_mgr ap ! g - {m}]" m] ins gl by simp
    then show "ext m + card (groups_of ap m) - 1 = ext m + card {g' \<in> grp_handles ap. m \<in> (grp_mgr ap)[g := grp_mgr ap ! g - {m}] ! g'}"
      using g' i(8) pos by (simp add: card_Diff_singleton)
    have "(ext m + card (groups_of ap m) + (2 ^ 32 - 1)) mod 2 ^ 32 = ext m + card (groups_of ap m) - 1"
      using pos card0(2) by (simp add: mod_if)
    then show "rc = (index_ref_count ap)\<lparr>mbr_count := (mbr_count (index_ref_count ap))[m := ext m + card (groups_of ap m) - 1]\<rparr>"
      using that(2) m card0 by (simp add: rc_decrease_def on_counts_def mbr_index)
  qed (use i(7) mg in auto)
qed

lemma rc_changes_total:
  assumes "ap_inv ext ap" "m \<in> mbr_handles ap"
  shows "rc_increase m (index_ref_count ap) \<noteq> None" "rc_decrease m (index_ref_count ap) \<noteq> None"
  using ap_invD(3,10) [OF assms(1)] assms(2) by (simp_all add: rc_increase_def rc_decrease_def on_counts_def mbr_index)

lemma add_to_group_inv:
  assumes inv: "ap_inv ext ap"
  shows "\<exists>r ap'. add_member_to_group m g ap = Some (r, ap') \<and> ap_inv ext ap' \<and>
    mbr_handles ap' = mbr_handles ap \<and> grp_handles ap' = grp_handles ap \<and>
    (case r of
       Inl e \<Rightarrow> ap' = ap \<and> e = (if m \<notin> mbr_handles ap then INVALID_MBR_HANDLE
         else if g \<notin> grp_handles ap then INVALID_GRP_HANDLE else MBR_ALREADY_IN_GRP)
     | Inr _ \<Rightarrow> m \<in> mbr_handles ap \<and> g \<in> grp_handles ap \<and> m \<notin> grp_mgr ap ! g \<and>
         grp_mgr ap' = (grp_mgr ap)[g := insert m (grp_mgr ap ! g)])"
proof (cases "m \<in> mbr_handles ap \<and> g \<in> grp_handles ap")
  case True
  note i = ap_invD [OF inv]
  obtain rc where rc: "rc_increase m (index_ref_count ap) = Some rc" using rc_changes_total(1) [OF inv] True by auto
  show ?thesis
    using True i(3,4) rc inv change_group_inv(1) [OF inv conjunct1 [OF True] conjunct2 [OF True] _ rc]
    by (cases "m \<in> grp_mgr ap ! g")
      (simp_all add: add_member_to_group_def is_valid_mbr_def is_valid_grp_def valid_handle_def ras_add_def mbr_index)
next
  case False
  then show ?thesis using inv by (auto simp: add_member_to_group_def is_valid_mbr_def is_valid_grp_def valid_handle_def)
qed

lemma remove_from_group_inv:
  assumes inv: "ap_inv ext ap"
  shows "\<exists>r ap'. remove_member_from_group m g ap = Some (r, ap') \<and> ap_inv ext ap' \<and>
    mbr_handles ap' = mbr_handles ap \<and> grp_handles ap' = grp_handles ap \<and>
    (case r of
       Inl e \<Rightarrow> ap' = ap \<and> e = (if m \<notin> mbr_handles ap then INVALID_MBR_HANDLE
         else if g \<notin> grp_handles ap then INVALID_GRP_HANDLE else MBR_NOT_IN_GRP)
     | Inr _ \<Rightarrow> m \<in> mbr_handles ap \<and> g \<in> grp_handles ap \<and> m \<in> grp_mgr ap ! g \<and>
         grp_mgr ap' = (grp_mgr ap)[g := grp_mgr ap ! g - {m}])"
proof (cases "m \<in> mbr_handles ap \<and> g \<in> grp_handles ap")
  case True
  note i = ap_invD [OF inv]
  obtain rc where rc: "rc_decrease m (index_ref_count ap) = Some rc" using rc_changes_total(2) [OF inv] True by auto
  show ?thesis
    using True i(3,4) rc inv change_group_inv(2) [OF inv conjunct1 [OF True] conjunct2 [OF True] _ rc]
    by (cases "m \<in> grp_mgr ap ! g")
      (simp_all add: remove_member_from_group_def is_valid_mbr_def is_valid_grp_def valid_handle_def ras_remove_def mbr_index)
next
  case False
  then show ?thesis using inv by (auto simp: remove_member_from_group_def is_valid_mbr_def is_valid_grp_def valid_handle_def)
qed

section \<open>Deleting a group\<close>

lemma decrease_member:
  assumes "m < 2 ^ 24" "m < length (mbr_count rc)" "0 < mbr_count rc ! m" "mbr_count rc ! m < 2 ^ 32"
  shows "decrease_member m rc = Some (rc\<lparr>mbr_count := (mbr_count rc)[m := mbr_count rc ! m - 1]\<rparr>)"
proof -
  have "(mbr_count rc ! m + (2 ^ 32 - 1)) mod 2 ^ 32 = mbr_count rc ! m - 1"
    using assms(3,4) by (simp add: mod_if)
  then show ?thesis
    using assms(1,2) by (simp add: decrease_member_def rc_decrease_def on_counts_def mbr_index)
qed

lemma decrease_members:
  assumes "distinct ms"
    "\<And>m. m \<in> set ms \<Longrightarrow> m < 2 ^ 24 \<and> m < length (mbr_count rc) \<and> 0 < mbr_count rc ! m \<and> mbr_count rc ! m < 2 ^ 32"
  obtains v where "fold_opt decrease_member ms rc = Some (rc\<lparr>mbr_count := v\<rparr>)" "length v = length (mbr_count rc)"
    "\<And>j. j < length v \<Longrightarrow> v ! j = (if j \<in> set ms then mbr_count rc ! j - 1 else mbr_count rc ! j)"
  using assms
proof (induction ms arbitrary: rc thesis)
  case Nil
  show ?case by (rule Nil.prems(1) [of "mbr_count rc"]) simp_all
next
  case (Cons m ms)
  define rc1 where "rc1 = rc\<lparr>mbr_count := (mbr_count rc)[m := mbr_count rc ! m - 1]\<rparr>"
  have m: "m < 2 ^ 24 \<and> m < length (mbr_count rc) \<and> 0 < mbr_count rc ! m \<and> mbr_count rc ! m < 2 ^ 32"
    by (rule Cons.prems(3)) simp
  have first: "decrease_member m rc = Some rc1" unfolding rc1_def by (rule decrease_member) (use m in blast)+
  have dist: "distinct ms" and mm: "m \<notin> set ms" using Cons.prems(2) by simp_all
  have rest: "j < 2 ^ 24 \<and> j < length (mbr_count rc1) \<and> 0 < mbr_count rc1 ! j \<and> mbr_count rc1 ! j < 2 ^ 32"
    if "j \<in> set ms" for j
  proof -
    have "j \<noteq> m" using that mm by auto
    then show ?thesis using Cons.prems(3) [of j] that by (simp add: rc1_def)
  qed
  obtain v where v: "fold_opt decrease_member ms rc1 = Some (rc1\<lparr>mbr_count := v\<rparr>)" "length v = length (mbr_count rc1)"
      "\<And>j. j < length v \<Longrightarrow> v ! j = (if j \<in> set ms then mbr_count rc1 ! j - 1 else mbr_count rc1 ! j)"
    by (rule Cons.IH [OF _ dist rest]) blast
  show ?case
  proof (rule Cons.prems(1) [of v])
    show "fold_opt decrease_member (m # ms) rc = Some (rc\<lparr>mbr_count := v\<rparr>)"
      using v(1) by (simp add: first) (simp add: rc1_def)
    show "length v = length (mbr_count rc)" using v(2) by (simp add: rc1_def)
    show "v ! j = (if j \<in> set (m # ms) then mbr_count rc ! j - 1 else mbr_count rc ! j)" if "j < length v" for j
      using v(2) v(3) [OF that] that mm by (cases "j = m") (simp_all add: rc1_def)
  qed
qed

lemma delete_group_inv:
  assumes inv: "ap_inv ext ap"
  shows "\<exists>r ap'. delete_group g ap = Some (r, ap') \<and> ap_inv ext ap' \<and>
    (case r of
       Inl e \<Rightarrow> ap' = ap \<and> e = (if g \<notin> grp_handles ap then INVALID_GRP_HANDLE else GRP_STILL_USED) \<and>
         (g \<notin> grp_handles ap \<or> 0 < ext (2 ^ 24 + g))
     | Inr _ \<Rightarrow> g \<in> grp_handles ap \<and> ext (2 ^ 24 + g) = 0 \<and> grp_handles ap' = grp_handles ap - {g} \<and>
         mbr_handles ap' = mbr_handles ap \<and> grp_mgr ap' = grp_mgr ap)"
proof (cases "g \<in> grp_handles ap")
  case False
  then show ?thesis using inv by (simp add: delete_group_def is_valid_grp_def valid_handle_def)
next
  case True
  note i = ap_invD [OF inv] and a = inv [unfolded ap_inv_def]
  have g: "g < length (grp_mgr ap)" "g < 2 ^ 24" using i(4) [OF True] by blast+
  have get: "rc_get (2 ^ 24 + g) (index_ref_count ap) = Some (ext (2 ^ 24 + g))"
    using i(6) [OF True] i(11) g grp_index(2,3) [OF g(2)] by (simp add: rc_get_def)
  show ?thesis
  proof (cases "0 < ext (2 ^ 24 + g)")
    case used: True
    then show ?thesis using inv True get grp_index(1) [OF g(2)]
      by (simp add: delete_group_def is_valid_grp_def valid_handle_def)
  next
    case False
    define S where "S = grp_mgr ap ! g"
    have S: "S \<subseteq> mbr_handles ap" "finite S" using i(7) [OF True] i(1) finite_subset unfolding S_def by blast+
    have g_of: "g \<in> groups_of ap m \<longleftrightarrow> m \<in> S" for m using True by (simp add: groups_of_def S_def)
    have cnt: "m < 2 ^ 24 \<and> m < length (mbr_count (index_ref_count ap)) \<and> 0 < mbr_count (index_ref_count ap) ! m \<and>
        mbr_count (index_ref_count ap) ! m < 2 ^ 32" if "m \<in> set (sorted_list_of_set S)" for m
    proof -
      have m: "m \<in> S" "m \<in> mbr_handles ap" using that S by auto
      have "0 < card (groups_of ap m)" using g_of m(1) i(8) card_gt_0_iff by blast
      then show ?thesis using i(3,5) [OF m(2)] i(9) [of m] i(10) by simp
    qed
    obtain v where v: "fold_opt decrease_member (sorted_list_of_set S) (index_ref_count ap) = Some ((index_ref_count ap)\<lparr>mbr_count := v\<rparr>)"
        "length v = length (mbr_count (index_ref_count ap))"
        "\<And>j. j < length v \<Longrightarrow> v ! j = (if j \<in> set (sorted_list_of_set S) then mbr_count (index_ref_count ap) ! j - 1 else mbr_count (index_ref_count ap) ! j)"
      by (rule decrease_members [OF distinct_sorted_list_of_set], erule cnt, rule that)
    note v3 = v(3) [unfolded set_sorted_list_of_set [OF S(2)]]
    let ?ap' = "ap\<lparr>index_ref_count := (index_ref_count ap)\<lparr>mbr_count := v\<rparr>, grp_handles := grp_handles ap - {g},
        num_groups := num_groups ap - 1\<rparr>"
    have run: "delete_group g ap = Some (Inr (), ?ap')"
      using True False get grp_index(1) [OF g(2)] g(1) v(1)
      by (simp add: delete_group_def is_valid_grp_def valid_handle_def release_handle_def S_def)
    have grp: "groups_of ?ap' j = groups_of ap j - {g}" for j by (auto simp: groups_of_def)
    have "v ! j = ext j + card (groups_of ap j - {g})" if "j \<in> mbr_handles ap" for j
    proof (cases "j \<in> S")
      case True
      then have "g \<in> groups_of ap j" using g_of by blast
      then have "card (groups_of ap j - {g}) = card (groups_of ap j) - 1" "0 < card (groups_of ap j)"
        using i(8) card_gt_0_iff by (auto simp: card_Diff_singleton)
      then show ?thesis using True v(2) v3 i(3,5) [OF that] i(10) by simp
    next
      case False
      then have "groups_of ap j - {g} = groups_of ap j" using g_of by blast
      then show ?thesis using False v(2) v3 i(3,5) [OF that] i(10) by simp
    qed
    then have "counts_ok ((index_ref_count ap)\<lparr>mbr_count := v\<rparr>) ext ?ap'"
      using i(6) unfolding counts_ok_def grp by simp
    moreover have "refs_valid ext (mbr_handles ap) (grp_handles ap - {g})"
      using a False by (intro refs_valid_drop(2)) simp_all
    moreover have "grp_handles ap - {g} \<subseteq> {..<length (grp_mgr ap)}" using a by blast
    moreover have "\<forall>j \<in> grp_handles ap - {g}. grp_mgr ap ! j \<subseteq> mbr_handles ap" using i(7) by blast
    ultimately have "ap_inv ext ?ap'"
      unfolding ap_inv_def using a v(2) True i(2) by (simp add: card_Diff_singleton)
    then show ?thesis using run True False by simp
  qed
qed

section \<open>References from tables\<close>

definition valid_ref :: "action_profile \<Rightarrow> nat \<Rightarrow> bool" where
  "valid_ref ap i \<longleftrightarrow> (i < 2 ^ 24 \<and> i \<in> mbr_handles ap) \<or> (2 ^ 24 \<le> i \<and> i - 2 ^ 24 \<in> grp_handles ap)"

lemma refs_valid_iff: "refs_valid ext (mbr_handles ap) (grp_handles ap) \<longleftrightarrow> (\<forall>i. 0 < ext i \<longrightarrow> valid_ref ap i)"
  by (simp add: refs_valid_def valid_ref_def)

lemma valid_ref_cases:
  assumes "ap_inv ext ap" "valid_ref ap i"
  obtains (mbr) "i \<in> mbr_handles ap" "i < 2 ^ 24"
    | (grp) g where "i = 2 ^ 24 + g" "g \<in> grp_handles ap" "g < 2 ^ 24"
proof -
  consider "i < 2 ^ 24 \<and> i \<in> mbr_handles ap" | "2 ^ 24 \<le> i \<and> i - 2 ^ 24 \<in> grp_handles ap"
    using assms(2) unfolding valid_ref_def by blast
  then show thesis
  proof cases
    case 2
    then have "i = 2 ^ 24 + (i - 2 ^ 24)" "i - 2 ^ 24 < 2 ^ 24" using ap_invD(4) [OF assms(1)] by auto
    then show ?thesis using 2 by (intro grp) auto
  qed (use mbr in blast)
qed

lemma ref_changed:
  assumes inv: "ap_inv ext ap" and ref: "valid_ref ap i" and n: "n < 2 ^ 31"
    and c: "c = (if i < 2 ^ 24 then n + card (groups_of ap i) else n)"
  shows "ap_inv (ext(i := n)) (ap\<lparr>index_ref_count :=
    (if i < 2 ^ 24 then (index_ref_count ap)\<lparr>mbr_count := (mbr_count (index_ref_count ap))[i := c]\<rparr>
     else (index_ref_count ap)\<lparr>grp_count := (grp_count (index_ref_count ap))[i - 2 ^ 24 := c]\<rparr>)\<rparr>)" (is "ap_inv ?ext ?ap'")
proof -
  note a = inv [unfolded ap_inv_def] and d = ap_invD [OF inv]
  let ?rc = "index_ref_count ?ap'"
  have grp: "groups_of ?ap' j = groups_of ap j" for j by (simp add: groups_of_def)
  have len: "length (mbr_count ?rc) = length (action_entries ap)" "length (grp_count ?rc) = length (grp_mgr ap)"
    using d(10,11) by simp_all
  have m: "mbr_count ?rc ! j = ?ext j + card (groups_of ap j)" if "j \<in> mbr_handles ap" for j
    using d(3,5) [OF that] d(10) c by (cases "j = i") (simp_all add: nth_list_update)
  have g: "grp_count ?rc ! j = ?ext (2 ^ 24 + j)" if "j \<in> grp_handles ap" for j
    using d(4,6) [OF that] d(11) c by (cases "2 ^ 24 + j = i") (auto simp: nth_list_update)
  have "counts_ok ?rc ?ext ?ap'" unfolding counts_ok_def grp using m g by simp
  moreover have "refs_valid ?ext (mbr_handles ap) (grp_handles ap)"
    using a ref unfolding refs_valid_iff by simp
  moreover have "\<forall>j. ?ext j < 2 ^ 31" using a n by simp
  ultimately show ?thesis unfolding ap_inv_def using a len by simp
qed

lemma take_ref:
  assumes inv: "ap_inv ext ap" and ref: "valid_ref ap i" and room: "ext i + 1 < 2 ^ 31"
  obtains rc where "ref_count_increase i ap = Some (ap\<lparr>index_ref_count := rc\<rparr>)"
    "ap_inv (ext(i := ext i + 1)) (ap\<lparr>index_ref_count := rc\<rparr>)"
proof -
  note d = ap_invD [OF inv]
  note ch = ref_changed [OF inv ref room refl]
  show thesis
  proof (rule valid_ref_cases [OF inv ref])
    assume m: "i \<in> mbr_handles ap" "i < 2 ^ 24"
    have "rc_increase i (index_ref_count ap) =
        Some ((index_ref_count ap)\<lparr>mbr_count := (mbr_count (index_ref_count ap))[i := ext i + 1 + card (groups_of ap i)]\<rparr>)"
      using d(3,5) [OF m(1)] d(9) [of i] d(10) m(2) by (simp add: rc_increase_def on_counts_def mbr_index)
    then show thesis using ch m(2) by (intro that) (simp_all add: ref_count_increase_def)
  next
    fix g assume g: "i = 2 ^ 24 + g" "g \<in> grp_handles ap" "g < 2 ^ 24"
    have "rc_increase i (index_ref_count ap) =
        Some ((index_ref_count ap)\<lparr>grp_count := (grp_count (index_ref_count ap))[g := ext i + 1]\<rparr>)"
      using d(4,6) [OF g(2)] room d(11) grp_index(2,3) [OF g(3)] g(1) by (simp add: rc_increase_def on_counts_def)
    then show thesis using ch g(1) by (intro that) (simp_all add: ref_count_increase_def)
  qed
qed

lemma drop_ref:
  assumes inv: "ap_inv ext ap" and pos: "0 < ext i"
  obtains rc where "ref_count_decrease i ap = Some (ap\<lparr>index_ref_count := rc\<rparr>)"
    "ap_inv (ext(i := ext i - 1)) (ap\<lparr>index_ref_count := rc\<rparr>)"
proof -
  note d = ap_invD [OF inv]
  have lt: "ext i < 2 ^ 31" "ext i - 1 < 2 ^ 31" and ref: "valid_ref ap i"
    using inv [unfolded ap_inv_def refs_valid_iff] pos less_imp_diff_less by blast+
  note ch = ref_changed [OF inv ref lt(2) refl]
  have dec: "(x + (2 ^ 32 - 1)) mod 2 ^ 32 = x - 1" if "0 < x" "x < 2 ^ 32" for x :: nat
    using that by (simp add: mod_if)
  show thesis
  proof (rule valid_ref_cases [OF inv ref])
    assume m: "i \<in> mbr_handles ap" "i < 2 ^ 24"
    have "rc_decrease i (index_ref_count ap) =
        Some ((index_ref_count ap)\<lparr>mbr_count := (mbr_count (index_ref_count ap))[i := ext i - 1 + card (groups_of ap i)]\<rparr>)"
      using d(3,5) [OF m(1)] d(9) [of i] d(10) m(2) pos dec [of "ext i + card (groups_of ap i)"]
      by (simp add: rc_decrease_def on_counts_def mbr_index)
    then show thesis using ch m(2) by (intro that) (simp_all add: ref_count_decrease_def)
  next
    fix g assume g: "i = 2 ^ 24 + g" "g \<in> grp_handles ap" "g < 2 ^ 24"
    have "rc_decrease i (index_ref_count ap) =
        Some ((index_ref_count ap)\<lparr>grp_count := (grp_count (index_ref_count ap))[g := ext i - 1]\<rparr>)"
      using d(4,6) [OF g(2)] lt d(11) grp_index(2,3) [OF g(3)] g(1) dec [of "ext i"] pos
      by (simp add: rc_decrease_def on_counts_def)
    then show thesis using ch g(1) by (intro that) (simp_all add: ref_count_decrease_def)
  qed
qed


section \<open>Steps\<close>

text \<open>
  The calls of clients, and of tables when they take or drop a reference.  The results are those of the
  operations, errors included; the handles and counts stay below their limits.  The function beside the profile counts, for
  each index, the references that tables took and did not drop since the last reset.  A reset is a step only while there
  is no group: what it does to the groups there are is the last theorem.
\<close>

inductive profile_step :: "(nat \<Rightarrow> nat) \<times> action_profile \<Rightarrow> (nat \<Rightarrow> nat) \<times> action_profile \<Rightarrow> bool" where
  step_add_member: "card (mbr_handles ap) < 2 ^ 24 \<Longrightarrow> add_member f d ap = Some (r, ap') \<Longrightarrow> profile_step (ext, ap) (ext, ap')"
| step_delete_member: "delete_member m ap = Some (e, ap') \<Longrightarrow> profile_step (ext, ap) (ext, ap')"
| step_modify_member: "modify_member m f d ap = Some (e, ap') \<Longrightarrow> profile_step (ext, ap) (ext, ap')"
| step_create_group: "card (grp_handles ap) < 2 ^ 24 \<Longrightarrow> create_group ap = Some (r, ap') \<Longrightarrow> profile_step (ext, ap) (ext, ap')"
| step_delete_group: "delete_group g ap = Some (e, ap') \<Longrightarrow> profile_step (ext, ap) (ext, ap')"
| step_add_to_group: "add_member_to_group m g ap = Some (e, ap') \<Longrightarrow> profile_step (ext, ap) (ext, ap')"
| step_remove_from_group: "remove_member_from_group m g ap = Some (e, ap') \<Longrightarrow> profile_step (ext, ap) (ext, ap')"
| step_take: "valid_ref ap i \<Longrightarrow> ext i + 1 < 2 ^ 31 \<Longrightarrow> ref_count_increase i ap = Some ap' \<Longrightarrow>
    profile_step (ext, ap) (ext(i := ext i + 1), ap')"
| step_drop: "0 < ext i \<Longrightarrow> ref_count_decrease i ap = Some ap' \<Longrightarrow>
    profile_step (ext, ap) (ext(i := ext i - 1), ap')"
| step_reset: "grp_handles ap = {} \<Longrightarrow> profile_step (ext, ap) ((\<lambda>_. 0), ap_reset_state ap)"

lemma reset_inv: "ap_inv ext ap \<Longrightarrow> grp_handles ap = {} \<Longrightarrow> ap_inv (\<lambda>_. 0) (ap_reset_state ap)"
  by (simp add: ap_inv_def ap_reset_state_def rc_new_def counts_ok_def mgr_clear_def refs_valid_def)

lemma add_member_bad: "length d \<noteq> fn_num_params f \<Longrightarrow> add_member f d ap = Some (Inl BAD_ACTION_DATA, ap)"
  by (simp add: add_member_def)

lemma selection_kept:
  "add_member f d ap = Some (r, ap') \<Longrightarrow> with_selection ap' = with_selection ap"
  "delete_member m ap = Some (e, ap') \<Longrightarrow> with_selection ap' = with_selection ap"
  "modify_member m f d ap = Some (e, ap') \<Longrightarrow> with_selection ap' = with_selection ap"
  "create_group ap = Some (r, ap') \<Longrightarrow> with_selection ap' = with_selection ap"
  "delete_group g ap = Some (e, ap') \<Longrightarrow> with_selection ap' = with_selection ap"
  "add_member_to_group m g ap = Some (e, ap') \<Longrightarrow> with_selection ap' = with_selection ap"
  "remove_member_from_group m g ap = Some (e, ap') \<Longrightarrow> with_selection ap' = with_selection ap"
  "ref_count_increase i ap = Some ap' \<Longrightarrow> with_selection ap' = with_selection ap"
  "ref_count_decrease i ap = Some ap' \<Longrightarrow> with_selection ap' = with_selection ap"
  by (auto simp: add_member_def entries_insert_def delete_member_def modify_member_def create_group_def delete_group_def
      add_member_to_group_def remove_member_from_group_def ref_count_increase_def ref_count_decrease_def
      ras_add_def ras_remove_def release_handle_def bind_eq_Some_iff Let_def split: if_splits option.splits prod.splits)

lemma profile_step_inv:
  assumes "profile_step s s'" "ap_inv (fst s) (snd s)"
  shows "ap_inv (fst s') (snd s') \<and> with_selection (snd s') = with_selection (snd s)"
  using assms
proof cases
  case (step_add_member ap f d r ap' ext)
  have inv: "ap_inv ext ap" using assms(2) step_add_member by simp
  have "ap_inv ext ap'"
  proof (cases "length d = fn_num_params f")
    case True
    obtain m ap2 where "add_member f d ap = Some (Inr m, ap2)" "ap_inv ext ap2"
      by (rule add_member_inv [OF inv True step_add_member(3)]) blast
    then show ?thesis using step_add_member(4) by simp
  qed (use step_add_member(4) inv add_member_bad in simp)
  then show ?thesis using step_add_member selection_kept(1) by simp
next
  case (step_delete_member m ap e ap' ext)
  have inv: "ap_inv ext ap" using assms(2) step_delete_member by simp
  have "ap_inv ext ap'"
    using delete_member_inv(1) [OF inv, of m] delete_member_inv(2) [OF inv, of m] step_delete_member(3) inv
    by (auto split: if_splits)
  then show ?thesis using step_delete_member selection_kept(2) by simp
next
  case (step_modify_member m f d ap e ap' ext)
  have inv: "ap_inv ext ap" using assms(2) step_modify_member by simp
  have "ap_inv ext ap'"
    using modify_member_inv(1) [OF inv, of m f d] modify_member_inv(2) [OF inv] step_modify_member(3) inv
    by (auto split: if_splits)
  then show ?thesis using step_modify_member selection_kept(3) by simp
next
  case (step_create_group ap r ap' ext)
  have inv: "ap_inv ext ap" using assms(2) step_create_group by simp
  obtain g ap2 where "create_group ap = Some (Inr g, ap2)" "ap_inv ext ap2"
    by (rule create_group_inv [OF inv step_create_group(3)]) blast
  then show ?thesis using step_create_group selection_kept(4) by simp
next
  case (step_delete_group g ap e ap' ext)
  then show ?thesis using delete_group_inv [of ext ap g] assms(2) selection_kept(5) by auto
next
  case (step_add_to_group m g ap e ap' ext)
  then show ?thesis using add_to_group_inv [of ext ap m g] assms(2) selection_kept(6) by auto
next
  case (step_remove_from_group m g ap e ap' ext)
  then show ?thesis using remove_from_group_inv [of ext ap m g] assms(2) selection_kept(7) by auto
next
  case (step_take ap i ext ap')
  have inv: "ap_inv ext ap" using assms(2) step_take by simp
  obtain rc where "ref_count_increase i ap = Some (ap\<lparr>index_ref_count := rc\<rparr>)"
      "ap_inv (ext(i := ext i + 1)) (ap\<lparr>index_ref_count := rc\<rparr>)"
    by (rule take_ref [OF inv step_take(3,4)])
  then show ?thesis using step_take by simp
next
  case (step_drop ext i ap ap')
  have inv: "ap_inv ext ap" using assms(2) step_drop by simp
  obtain rc where "ref_count_decrease i ap = Some (ap\<lparr>index_ref_count := rc\<rparr>)"
      "ap_inv (ext(i := ext i - 1)) (ap\<lparr>index_ref_count := rc\<rparr>)"
    by (rule drop_ref [OF inv step_drop(3)])
  then show ?thesis using step_drop by simp
next
  case (step_reset ap ext)
  then show ?thesis using reset_inv [of ext ap] assms(2) by (simp add: ap_reset_state_def)
qed

lemma profile_reachable_inv:
  assumes "profile_step\<^sup>*\<^sup>* (\<lambda>_. 0, ap_new sel) (ext, ap)"
  shows "ap_inv ext ap" "with_selection ap = sel"
proof -
  have "ap_inv (fst s) (snd s) \<and> with_selection (snd s) = sel" if "profile_step\<^sup>*\<^sup>* (\<lambda>_. 0, ap_new sel) s" for s
    using that
  proof (induction rule: rtranclp_induct)
    case base
    show ?case using new_inv by (simp add: ap_new_def)
  next
    case (step s s')
    then show ?case using profile_step_inv by blast
  qed
  from this [OF assms] show "ap_inv ext ap" "with_selection ap = sel" by simp_all
qed

section \<open>Lookups\<close>

lemma ras_nth:
  assumes "finite S" "n < card S"
  shows "ras_get_nth S n = Some (sorted_list_of_set S ! n)" "sorted_list_of_set S ! n \<in> S"
proof -
  have l: "n < length (sorted_list_of_set S)" using assms by simp
  then show "ras_get_nth S n = Some (sorted_list_of_set S ! n)" using assms by (simp add: ras_get_nth_def ras_count_def)
  show "sorted_list_of_set S ! n \<in> S" using nth_mem [OF l] assms(1) by simp
qed

lemma lookup_member:
  assumes "ap_inv ext ap" "m \<in> mbr_handles ap"
  shows "ap_lookup ap h m = Some m"
  using ap_invD(3) [OF assms] assms(2) by (simp add: ap_lookup_def mbr_index is_valid_mbr_def valid_handle_def)

definition chosen :: "nat option \<Rightarrow> nat set \<Rightarrow> nat" where
  "chosen h S = sorted_list_of_set S ! (case h of None \<Rightarrow> 0 | Some x \<Rightarrow> x mod 2 ^ 32 mod card S)"

lemma lookup_group:
  assumes inv: "ap_inv ext ap" and sel: "with_selection ap" and g: "g \<in> grp_handles ap" and ne: "grp_mgr ap ! g \<noteq> {}"
  shows "ap_lookup ap h (2 ^ 24 + g) = Some (chosen h (grp_mgr ap ! g))" "chosen h (grp_mgr ap ! g) \<in> grp_mgr ap ! g"
proof -
  let ?S = "grp_mgr ap ! g"
  note d = ap_invD [OF inv]
  have S: "finite ?S" "?S \<subseteq> mbr_handles ap" using d(1) d(7) [OF g] finite_subset by blast+
  have pos: "0 < card ?S" using S(1) ne by (simp add: card_gt_0_iff)
  have gl: "g < length (grp_mgr ap)" "g < 2 ^ 24" using d(4) [OF g] by blast+
  define n where "n = (case h of None \<Rightarrow> 0 | Some x \<Rightarrow> x mod 2 ^ 32 mod card ?S)"
  have n: "n < card ?S" using pos by (simp add: n_def split: option.splits)
  show mem: "chosen h ?S \<in> ?S" using ras_nth(2) [OF S(1) n] by (simp add: chosen_def n_def)
  have "choose_from_group ap h g = Some (chosen h ?S)"
    using ras_nth(1) [OF S(1) n] gl(1) pos
    by (cases h) (simp_all add: choose_from_group_def get_from_hash_def chosen_def n_def ras_count_def)
  then show "ap_lookup ap h (2 ^ 24 + g) = Some (chosen h ?S)"
    using sel g grp_index(2,4) [OF gl(2)] d(3) [of "chosen h ?S"] mem S(2)
    by (simp add: ap_lookup_def is_valid_grp_def is_valid_mbr_def valid_handle_def subset_iff)
qed

section \<open>Properties\<close>


text \<open> In a reachable state, the index of a table entry always leads to a member: to itself, or for a non-empty group
  to the member of the group that the hash selects; no assertion of the lookup fails.\<close>

theorem referenced_index_found:
  assumes "profile_step\<^sup>*\<^sup>* (\<lambda>_. 0, ap_new sel) (ext, ap)" "0 < ext i"
    and "2 ^ 24 \<le> i \<longrightarrow> sel \<and> grp_mgr ap ! (i - 2 ^ 24) \<noteq> {}"
  shows "\<exists>m. ap_lookup ap h i = Some m \<and> m \<in> mbr_handles ap \<and>
    (if i < 2 ^ 24 then m = i else m \<in> grp_mgr ap ! (i - 2 ^ 24))"
proof -
  note inv = profile_reachable_inv [OF assms(1)]
  have ref: "valid_ref ap i" using inv(1) assms(2) unfolding ap_inv_def refs_valid_iff by blast
  show ?thesis
  proof (rule valid_ref_cases [OF inv(1) ref])
    assume "i \<in> mbr_handles ap" "i < 2 ^ 24"
    then show ?thesis using lookup_member [OF inv(1)] by simp
  next
    fix g assume g: "i = 2 ^ 24 + g" "g \<in> grp_handles ap"
    then show ?thesis
      using lookup_group [OF inv(1) _ g(2), of h] assms(3) inv(2) ap_invD(7) [OF inv(1) g(2)] by auto
  qed
qed


text \<open> The last member of a group that a table refers to can be removed from it, and the next lookup
  divides by the size of the group, zero.\<close>

theorem emptied_group_fails:
  assumes "profile_step\<^sup>*\<^sup>* (\<lambda>_. 0, ap_new sel) (ext, ap)" "0 < ext (2 ^ 24 + g)" "g < 2 ^ 24" "grp_mgr ap ! g = {m}"
  shows "\<exists>ap'. remove_member_from_group m g ap = Some (Inr (), ap') \<and> profile_step (ext, ap) (ext, ap') \<and>
    ap_lookup ap' h (2 ^ 24 + g) = None"
proof -
  note inv = profile_reachable_inv(1) [OF assms(1)]
  have "valid_ref ap (2 ^ 24 + g)" using inv assms(2) unfolding ap_inv_def refs_valid_iff by blast
  then have g: "g \<in> grp_handles ap" using assms(3) by (auto simp: valid_ref_def)
  have gl: "g < length (grp_mgr ap)" using ap_invD(4) [OF inv g] by blast
  have m: "m \<in> mbr_handles ap" "m \<in> grp_mgr ap ! g" using ap_invD(7) [OF inv g] assms(4) by blast+
  obtain r ap' where r: "remove_member_from_group m g ap = Some (r, ap')" "ap_inv ext ap'"
      "(case r of Inl e \<Rightarrow> ap' = ap \<and> e = (if m \<notin> mbr_handles ap then INVALID_MBR_HANDLE
         else if g \<notin> grp_handles ap then INVALID_GRP_HANDLE else MBR_NOT_IN_GRP)
       | Inr _ \<Rightarrow> m \<in> mbr_handles ap \<and> g \<in> grp_handles ap \<and> m \<in> grp_mgr ap ! g \<and>
         grp_mgr ap' = (grp_mgr ap)[g := grp_mgr ap ! g - {m}])"
    using remove_from_group_inv [OF inv, of m g] by blast
  have ok: "r = Inr ()"
  proof (cases r)
    case (Inl e)
    then have "remove_member_from_group m g ap = Some (Inl e, ap)" using r by simp
    then show ?thesis using m g gl ap_invD(3) [OF inv m(1)] rc_changes_total(2) [OF inv m(1)]
      by (auto simp: remove_member_from_group_def is_valid_mbr_def is_valid_grp_def valid_handle_def ras_remove_def
          mbr_index bind_eq_Some_iff split: if_splits)
  qed simp
  have "grp_mgr ap' = (grp_mgr ap)[g := {}]" using r(3) ok assms(4) by simp
  then have "choose_from_group ap' h g = None"
    using gl by (simp add: choose_from_group_def get_from_hash_def ras_count_def split: option.splits)
  then have "ap_lookup ap' h (2 ^ 24 + g) = None"
    using grp_index(2,4) [OF assms(3)] by (simp add: ap_lookup_def)
  moreover have "profile_step (ext, ap) (ext, ap')" using r(1) by (rule step_remove_from_group)
  ultimately show ?thesis using r(1) ok by blast
qed

text \<open> Resetting a profile does not release the handles of its groups: once a group had handle 0, the next
  creation of a group fails an assertion.\<close>

theorem reset_keeps_group_handles:
  assumes "profile_step\<^sup>*\<^sup>* (\<lambda>_. 0, ap_new sel) (ext, ap)" "0 \<in> grp_handles ap" "card (grp_handles ap) < 2 ^ 24"
  shows "create_group (ap_reset_state ap) = None"
proof -
  note inv = profile_reachable_inv(1) [OF assms(1)]
  have sub: "grp_handles ap \<subseteq> {..<length (grp_mgr ap)}" "length (grp_mgr ap) \<le> 2 ^ 24"
    using inv unfolding ap_inv_def by blast+
  obtain g where g: "get_handle (grp_handles ap) = Some (g, insert g (grp_handles ap))" "g \<notin> grp_handles ap" "g mod 2 ^ 32 = g"
    by (rule free_handle [OF ap_invD(2) [OF inv] sub])
  have "0 < g" using g(2) assms(2) by (cases "g = 0") auto
  then show ?thesis using g(1,3) by (simp add: create_group_def ap_reset_state_def insert_group_def)
qed

section \<open>Witnesses\<close>

definition example_fn :: action_fn where
  "example_fn = \<lparr>fn_id = 7, fn_num_params = 0\<rparr>"

text \<open>One member, in the only group, to which one table entry refers.\<close>

definition example_profile :: action_profile where
  "example_profile = \<lparr>with_selection = True,
     action_entries = [\<lparr>ae_fn = \<lparr>afe_fn = Some example_fn, afe_data = []\<rparr>, ae_next = None\<rparr>],
     index_ref_count = \<lparr>mbr_count = [1], grp_count = [1]\<rparr>, mbr_handles = {0}, grp_handles = {0},
     num_members = 1, num_groups = 1, grp_mgr = [{0}]\<rparr>"

lemma empty_handle: "get_handle {} = Some (0, {0})"
  by (simp add: get_handle_def first_empty_def word_max_def)

lemma example_ops:
  "add_member example_fn [] (ap_new True) = Some (Inr 0,
     example_profile\<lparr>index_ref_count := \<lparr>mbr_count = [0], grp_count = []\<rparr>, grp_handles := {}, num_groups := 0, grp_mgr := []\<rparr>)"
  "create_group (example_profile\<lparr>index_ref_count := \<lparr>mbr_count = [0], grp_count = []\<rparr>, grp_handles := {}, num_groups := 0, grp_mgr := []\<rparr>) =
     Some (Inr 0, example_profile\<lparr>index_ref_count := \<lparr>mbr_count = [0], grp_count = [0]\<rparr>, grp_mgr := [{}]\<rparr>)"
  "add_member_to_group 0 0 (example_profile\<lparr>index_ref_count := \<lparr>mbr_count = [0], grp_count = [0]\<rparr>, grp_mgr := [{}]\<rparr>) =
     Some (Inr (), example_profile\<lparr>index_ref_count := \<lparr>mbr_count = [1], grp_count = [0]\<rparr>\<rparr>)"
  "ref_count_increase (2 ^ 24) (example_profile\<lparr>index_ref_count := \<lparr>mbr_count = [1], grp_count = [0]\<rparr>\<rparr>) = Some example_profile"
  using mbr_index [of 0] grp_index [of 0]
  by (simp_all add: add_member_def create_group_def add_member_to_group_def ref_count_increase_def ap_new_def example_profile_def
      example_fn_def mgr_new_def rc_new_def empty_handle entries_insert_def rc_set_def on_counts_def set_count_def insert_group_def
      is_valid_mbr_def is_valid_grp_def valid_handle_def ras_add_def rc_increase_def)

lemma example_reachable: "profile_step\<^sup>*\<^sup>* (\<lambda>_. 0, ap_new True) ((\<lambda>_. 0)(2 ^ 24 := 1), example_profile)"
proof -
  let ?e = "\<lambda>_ :: nat. 0 :: nat"
  let ?p1 = "example_profile\<lparr>index_ref_count := \<lparr>mbr_count = [0], grp_count = []\<rparr>, grp_handles := {}, num_groups := 0, grp_mgr := []\<rparr>"
  let ?p2 = "example_profile\<lparr>index_ref_count := \<lparr>mbr_count = [0], grp_count = [0]\<rparr>, grp_mgr := [{}]\<rparr>"
  let ?p3 = "example_profile\<lparr>index_ref_count := \<lparr>mbr_count = [1], grp_count = [0]\<rparr>\<rparr>"
  have "profile_step (?e, ap_new True) (?e, ?p1)"
    by (rule step_add_member [OF _ example_ops(1)]) (simp add: ap_new_def mgr_new_def)
  moreover have "profile_step (?e, ?p1) (?e, ?p2)"
    by (rule step_create_group [OF _ example_ops(2)]) simp
  moreover have "profile_step (?e, ?p2) (?e, ?p3)"
    by (rule step_add_to_group [OF example_ops(3)])
  moreover have "profile_step (?e, ?p3) (?e(2 ^ 24 := ?e (2 ^ 24) + 1), example_profile)"
    by (rule step_take [OF _ _ example_ops(4)]) (simp_all add: valid_ref_def example_profile_def)
  then have "profile_step (?e, ?p3) (?e(2 ^ 24 := 1), example_profile)" by simp
  ultimately show ?thesis by (meson rtranclp.rtrancl_into_rtrancl rtranclp.rtrancl_refl)
qed


theorem referenced_index_found_witness: "ap_lookup example_profile (Some 5) (2 ^ 24) = Some 0"
  using referenced_index_found [OF example_reachable, of "2 ^ 24" "Some 5"] by (simp add: example_profile_def)


theorem emptied_group_fails_witness:
  "\<exists>ap'. remove_member_from_group 0 0 example_profile = Some (Inr (), ap') \<and> ap_lookup ap' None (2 ^ 24) = None"
  using emptied_group_fails [OF example_reachable, of 0 0 None] by (auto simp: example_profile_def)

theorem reset_keeps_group_handles_witness: "create_group (ap_reset_state example_profile) = None"
  by (rule reset_keeps_group_handles [OF example_reachable]) (simp_all add: example_profile_def)

end
