(* ===== verification/Match_Tables.thy ===== *)
theory Match_Tables
  imports Action_Profiles
begin

text \<open>
  Match-action tables: \<^verbatim>\<open>match_tables.h\<close> and \<^verbatim>\<open>match_tables.cpp\<close>.  A simple table
  holds an action with its data for each entry; an indirect table holds the index of a member of an action
  profile, and one with selection also of groups.  The theorems: what a client adds is what packets get,
  constant parts stay constant, and the references of an indirect table are those its profile counts, so that
  a packet always finds its action; then the calls after which this is no longer true.
\<close>

section \<open>What all tables share\<close>

text \<open>
  A node of the control flow is a number, \<open>None\<close> the null pointer.  The operations of tables take the
  operations of the lookup structure and the kind of keys, as those of match units do; what the table
  logs is left out.
\<close>

record ('s, 'k, 'v) table_common =
  mt_unit :: "('s, 'k, 'v) match_unit"
  with_counters :: bool
  with_meters :: bool
  with_ageing :: bool
  next_nodes :: "int \<Rightarrow> nat option option"
  next_node_hit :: "nat option"
  next_node_miss :: "nat option"
  has_next_node_hit :: bool
  has_next_node_miss :: bool
  next_node_miss_default :: "nat option"
  meter_target :: "nat \<times> int"

definition common_new :: "bool \<Rightarrow> bool \<Rightarrow> ('s, 'k, 'v) match_unit \<Rightarrow> ('s, 'k, 'v) table_common" where
  "common_new wc wa mu = \<lparr>mt_unit = mu, with_counters = wc, with_meters = False, with_ageing = wa, next_nodes = Map.empty,
     next_node_hit = None, next_node_miss = None, has_next_node_hit = False, has_next_node_miss = False,
     next_node_miss_default = None, meter_target = (0, 0)\<rparr>"

definition set_next_node :: "int \<Rightarrow> nat option \<Rightarrow> ('s, 'k, 'v, 'z) table_common_scheme \<Rightarrow> ('s, 'k, 'v, 'z) table_common_scheme" where
  "set_next_node aid node mt = mt\<lparr>next_nodes := (next_nodes mt)(aid \<mapsto> node)\<rparr>"

definition set_next_node_hit :: "nat option \<Rightarrow> ('s, 'k, 'v, 'z) table_common_scheme \<Rightarrow> ('s, 'k, 'v, 'z) table_common_scheme" where
  "set_next_node_hit node mt = mt\<lparr>has_next_node_hit := True, next_node_hit := node\<rparr>"

definition set_next_node_miss :: "nat option \<Rightarrow> ('s, 'k, 'v, 'z) table_common_scheme \<Rightarrow> ('s, 'k, 'v, 'z) table_common_scheme" where
  "set_next_node_miss node mt = mt\<lparr>has_next_node_miss := True, next_node_miss := node, next_node_miss_default := node\<rparr>"

definition set_next_node_miss_default :: "nat option \<Rightarrow> ('s, 'k, 'v, 'z) table_common_scheme \<Rightarrow> ('s, 'k, 'v, 'z) table_common_scheme" where
  "set_next_node_miss_default node mt =
     (if has_next_node_miss mt then mt else mt\<lparr>next_node_miss := node, next_node_miss_default := node\<rparr>)"

text \<open>A missing action id makes \<^verbatim>\<open>at\<close> throw.\<close>

definition get_next_node :: "('s, 'k, 'v, 'z) table_common_scheme \<Rightarrow> int \<Rightarrow> nat option option" where
  "get_next_node mt aid = (if has_next_node_hit mt then Some (next_node_hit mt) else next_nodes mt aid)"

definition get_next_node_default :: "('s, 'k, 'v, 'z) table_common_scheme \<Rightarrow> int \<Rightarrow> nat option option" where
  "get_next_node_default mt aid = (if has_next_node_miss mt then Some (next_node_miss mt) else next_nodes mt aid)"

definition table_direct_meters ::
  "nat \<Rightarrow> nat \<Rightarrow> nat \<Rightarrow> int \<Rightarrow> ('s, 'k, 'v, 'z) table_common_scheme \<Rightarrow> ('s, 'k, 'v, 'z) table_common_scheme option" where
  "table_direct_meters arr n hdr off mt = do {
     mu \<leftarrow> set_direct_meters arr n (mt_unit mt);
     Some (mt\<lparr>mt_unit := mu, meter_target := (hdr, off), with_meters := True\<rparr>) }"

definition table_query_counters :: "u32 \<Rightarrow> ('s, 'k, 'v, 'z) table_common_scheme \<Rightarrow> (match_error + u64 \<times> u64) option" where
  "table_query_counters h mt =
     (if \<not> with_counters mt then Some (Inl COUNTERS_DISABLED)
      else if \<not> mu_valid_handle (mt_unit mt) h then Some (Inl INVALID_HANDLE)
      else do { m \<leftarrow> get_entry_meta (mt_unit mt) h; Some (Inr (query_counter (em_counter m))) })"

definition table_reset_counters :: "('s, 'k, 'v, 'z) table_common_scheme \<Rightarrow> (match_error + unit) \<times> ('s, 'k, 'v, 'z) table_common_scheme" where
  "table_reset_counters mt =
     (if \<not> with_counters mt then (Inl COUNTERS_DISABLED, mt) else (Inr (), mt\<lparr>mt_unit := mu_reset_counters (mt_unit mt)\<rparr>))"

definition table_write_counters ::
  "u32 \<Rightarrow> u64 \<Rightarrow> u64 \<Rightarrow> ('s, 'k, 'v, 'z) table_common_scheme \<Rightarrow> ((match_error + unit) \<times> ('s, 'k, 'v, 'z) table_common_scheme) option" where
  "table_write_counters h b p mt =
     (if \<not> with_counters mt then Some (Inl COUNTERS_DISABLED, mt)
      else if \<not> mu_valid_handle (mt_unit mt) h then Some (Inl INVALID_HANDLE, mt)
      else do {
        m \<leftarrow> get_entry_meta (mt_unit mt) h;
        Some (Inr (), mt\<lparr>mt_unit := (mt_unit mt)\<lparr>mu_meta := (mu_meta (mt_unit mt))[HANDLE_INTERNAL h :=
          m\<lparr>em_counter := write_counter b p (em_counter m)\<rparr>]\<rparr>\<rparr>) })"

definition table_set_ttl ::
  "nat \<Rightarrow> u32 \<Rightarrow> nat \<Rightarrow> ('s, 'k, 'v, 'z) table_common_scheme \<Rightarrow> ((match_error + unit) \<times> ('s, 'k, 'v, 'z) table_common_scheme) option" where
  "table_set_ttl now h ttl mt =
     (if \<not> with_ageing mt then Some (Inl AGEING_DISABLED, mt)
      else do { (r, mu) \<leftarrow> set_entry_ttl now h ttl (mt_unit mt); Some (r, mt\<lparr>mt_unit := mu\<rparr>) })"

definition table_sweep :: "nat \<Rightarrow> u32 list \<Rightarrow> ('s, 'k, 'v, 'z) table_common_scheme \<Rightarrow> u32 list option" where
  "table_sweep now es mt = sweep_entries now (mt_unit mt) es"

text \<open>The timeout and the time since the last hit, 0 and 0 where the table does not age; the difference is cut to 32 bits.\<close>

definition entry_common_info :: "nat \<Rightarrow> u32 \<Rightarrow> ('s, 'k, 'v, 'z) table_common_scheme \<Rightarrow> (nat \<times> nat) option" where
  "entry_common_info now h mt =
     (if \<not> with_ageing mt then Some (0, 0)
      else do { m \<leftarrow> get_entry_meta (mt_unit mt) h; Some (timeout_ms m, nat ((int now - int (ts m)) mod 2 ^ 32)) })"

text \<open>The vector of entries has the counted size, and the loop asserts that every handle can be read.\<close>

definition all_entries ::
  "(u32 \<Rightarrow> (match_error + 'a) option) \<Rightarrow> ('s, 'k, 'v, 'z) table_common_scheme \<Rightarrow> 'a list option" where
  "all_entries get mt = do {
     hs \<leftarrow> entry_handles (mt_unit mt);
     guard (length hs = num_entries (mt_unit mt));
     map_opt (\<lambda>h. do { r \<leftarrow> get h; case r of Inl e \<Rightarrow> None | Inr x \<Rightarrow> Some x }) hs }"

section \<open>Simple tables\<close>

record ('s, 'k) match_table = "('s, 'k, action_entry) table_common" +
  default_entry :: action_entry
  const_default_action :: "action_fn option"
  const_default_entry :: bool
  immutable_entries :: bool

definition mt_new :: "bool \<Rightarrow> bool \<Rightarrow> ('s, 'k, action_entry) match_unit \<Rightarrow> ('s, 'k) match_table" where
  "mt_new wc wa mu = table_common.extend (common_new wc wa mu)
     \<lparr>default_entry = empty_action_entry, const_default_action = None, const_default_entry = False, immutable_entries = False\<rparr>"

type_synonym ('s, 'e) simple_table = "('s, 'e match_key_scheme) match_table"

definition mt_lookup ::
  "('s, 'e match_key_scheme) lookup_ops \<Rightarrow> phv \<Rightarrow> nat \<Rightarrow> nat \<Rightarrow> ('s, 'e) simple_table \<Rightarrow>
   ((u32 option \<times> action_entry) \<times> ('s, 'e) simple_table) option" where
  "mt_lookup ops p len now mt = do {
     (r, mu) \<leftarrow> mu_lookup ops p len now (mt_unit mt);
     Some ((case r of None \<Rightarrow> (None, default_entry mt) | Some (h, e) \<Rightarrow> (Some h, e)), mt\<lparr>mt_unit := mu\<rparr>) }"

definition new_action_entry :: "action_fn \<Rightarrow> data list \<Rightarrow> nat option \<Rightarrow> action_entry" where
  "new_action_entry f d node = \<lparr>ae_fn = \<lparr>afe_fn = Some f, afe_data = d\<rparr>, ae_next = node\<rparr>"

definition mt_add_entry ::
  "('s, 'e match_key_scheme) lookup_ops \<Rightarrow> 'e match_key_scheme key_kind \<Rightarrow> nat \<Rightarrow> match_key_param list \<Rightarrow> action_fn \<Rightarrow> data list \<Rightarrow> int \<Rightarrow>
   ('s, 'e) simple_table \<Rightarrow> ((match_error + u32) \<times> ('s, 'e) simple_table) option" where
  "mt_add_entry ops kk now ps f d prio mt =
     (if immutable_entries mt then Some (Inl IMMUTABLE_TABLE_ENTRIES, mt)
      else if length d \<noteq> fn_num_params f then Some (Inl BAD_ACTION_DATA, mt)
      else do {
        node \<leftarrow> get_next_node mt (fn_id f);
        (r, mu) \<leftarrow> mu_add_entry ops kk now ps (new_action_entry f d node) prio (mt_unit mt);
        Some (r, mt\<lparr>mt_unit := mu\<rparr>) })"

definition mt_delete_entry ::
  "('s, 'e match_key_scheme) lookup_ops \<Rightarrow> u32 \<Rightarrow> ('s, 'e) simple_table \<Rightarrow> ((match_error + unit) \<times> ('s, 'e) simple_table) option" where
  "mt_delete_entry ops h mt =
     (if immutable_entries mt then Some (Inl IMMUTABLE_TABLE_ENTRIES, mt)
      else do { (r, mu) \<leftarrow> mu_delete_entry ops h (mt_unit mt); Some (r, mt\<lparr>mt_unit := mu\<rparr>) })"

definition mt_modify_entry ::
  "u32 \<Rightarrow> action_fn \<Rightarrow> data list \<Rightarrow> ('s, 'e) simple_table \<Rightarrow> ((match_error + unit) \<times> ('s, 'e) simple_table) option" where
  "mt_modify_entry h f d mt =
     (if immutable_entries mt then Some (Inl IMMUTABLE_TABLE_ENTRIES, mt)
      else if length d \<noteq> fn_num_params f then Some (Inl BAD_ACTION_DATA, mt)
      else do {
        node \<leftarrow> get_next_node mt (fn_id f);
        (r, mu) \<leftarrow> mu_modify_entry h (new_action_entry f d node) (mt_unit mt);
        Some (r, mt\<lparr>mt_unit := mu\<rparr>) })"

definition mt_set_default_action :: "action_fn \<Rightarrow> data list \<Rightarrow> ('s, 'k) match_table \<Rightarrow> ((match_error + unit) \<times> ('s, 'k) match_table) option" where
  "mt_set_default_action f d mt =
     (if const_default_entry mt then Some (Inl DEFAULT_ENTRY_IS_CONST, mt)
      else if const_default_action mt \<noteq> None \<and> const_default_action mt \<noteq> Some f then Some (Inl DEFAULT_ACTION_IS_CONST, mt)
      else if length d \<noteq> fn_num_params f then Some (Inl BAD_ACTION_DATA, mt)
      else do {
        node \<leftarrow> get_next_node_default mt (fn_id f);
        Some (Inr (), mt\<lparr>next_node_miss := node, default_entry := new_action_entry f d node\<rparr>) })"

record table_entry =
  te_handle :: u32
  te_key :: "match_key_param list"
  te_timeout_ms :: nat
  te_since_hit_ms :: nat
  te_fn :: "action_fn option"
  te_data :: "data list"
  te_priority :: int

definition mt_get_entry ::
  "'e match_key_scheme key_kind \<Rightarrow> nat \<Rightarrow> ('s, 'e) simple_table \<Rightarrow> u32 \<Rightarrow> (match_error + table_entry) option" where
  "mt_get_entry kk now mt h = do {
     r \<leftarrow> mu_get_entry kk h (mt_unit mt);
     case r of
       Inl e \<Rightarrow> Some (Inl e)
     | Inr (ps, a, prio) \<Rightarrow> do {
         (tmo, hit) \<leftarrow> entry_common_info now h mt;
         Some (Inr \<lparr>te_handle = h, te_key = ps, te_timeout_ms = tmo, te_since_hit_ms = hit,
           te_fn = afe_fn (ae_fn a), te_data = afe_data (ae_fn a), te_priority = prio\<rparr>) } }"

definition mt_get_entry_from_key ::
  "('s, 'e match_key_scheme) lookup_ops \<Rightarrow> 'e match_key_scheme key_kind \<Rightarrow> nat \<Rightarrow> match_key_param list \<Rightarrow> int \<Rightarrow>
   ('s, 'e) simple_table \<Rightarrow> (match_error + table_entry) option" where
  "mt_get_entry_from_key ops kk now ps prio mt = do {
     r \<leftarrow> mu_retrieve_handle ops kk ps prio (mt_unit mt);
     case r of Inl e \<Rightarrow> Some (Inl e) | Inr h \<Rightarrow> mt_get_entry kk now mt h }"

definition mt_get_entries :: "'e match_key_scheme key_kind \<Rightarrow> nat \<Rightarrow> ('s, 'e) simple_table \<Rightarrow> table_entry list option" where
  "mt_get_entries kk now mt = all_entries (mt_get_entry kk now mt) mt"

definition mt_get_default_entry :: "('s, 'k) match_table \<Rightarrow> match_error + action_fn \<times> data list" where
  "mt_get_default_entry mt = (case afe_fn (ae_fn (default_entry mt)) of
     None \<Rightarrow> Inl NO_DEFAULT_ENTRY
   | Some f \<Rightarrow> Inr (f, afe_data (ae_fn (default_entry mt))))"

definition mt_reset_state ::
  "('s, 'e match_key_scheme) lookup_ops \<Rightarrow> 'e match_key_scheme key_kind \<Rightarrow> ('s, 'e) simple_table \<Rightarrow> ('s, 'e) simple_table option" where
  "mt_reset_state ops kk mt = map_option (\<lambda>mu. mt\<lparr>mt_unit := mu\<rparr>) (mu_reset_state ops kk empty_action_entry (mt_unit mt))"

definition set_const_default_action_fn :: "action_fn option \<Rightarrow> ('s, 'k) match_table \<Rightarrow> ('s, 'k) match_table option" where
  "set_const_default_action_fn f mt = do { guard (const_default_action mt = None); Some (mt\<lparr>const_default_action := f\<rparr>) }"

definition mt_set_default_entry :: "action_fn \<Rightarrow> data list \<Rightarrow> bool \<Rightarrow> ('s, 'k) match_table \<Rightarrow> ('s, 'k) match_table option" where
  "mt_set_default_entry f d is_const mt = do {
     guard (\<not> const_default_entry mt);
     (r, mt1) \<leftarrow> mt_set_default_action f d mt;
     guard (r = Inr ());
     Some (mt1\<lparr>const_default_entry := is_const\<rparr>) }"

definition set_immutable_entries :: "('s, 'k) match_table \<Rightarrow> ('s, 'k) match_table" where
  "set_immutable_entries mt = mt\<lparr>immutable_entries := True\<rparr>"

section \<open>Indirect tables\<close>

text \<open>The action profile is shared between tables: it is an argument of the operations and part of their results.\<close>

record ('s, 'k) match_table_indirect = "('s, 'k, nat) table_common" +
  default_index :: nat
  default_set :: bool
  empty_action :: action_entry

definition mti_new :: "bool \<Rightarrow> bool \<Rightarrow> ('s, 'k, nat) match_unit \<Rightarrow> ('s, 'k) match_table_indirect" where
  "mti_new wc wa mu = table_common.extend (common_new wc wa mu)
     \<lparr>default_index = 0, default_set = False, empty_action = empty_action_entry\<rparr>"

type_synonym ('s, 'e) indirect_table = "('s, 'e match_key_scheme) match_table_indirect"

text \<open>The entry of the profile gets the next node before it is returned; \<open>hash\<close> is the hash of the packet for a group.\<close>

definition mti_lookup ::
  "('s, 'e match_key_scheme) lookup_ops \<Rightarrow> phv \<Rightarrow> nat \<Rightarrow> nat \<Rightarrow> nat option \<Rightarrow> ('s, 'e) indirect_table \<times> action_profile \<Rightarrow>
   ((u32 option \<times> action_entry) \<times> ('s, 'e) indirect_table \<times> action_profile) option" where
  "mti_lookup ops p len now hash s = do {
     let (mt, ap) = s;
     (r, mu) \<leftarrow> mu_lookup ops p len now (mt_unit mt);
     let mt1 = mt\<lparr>mt_unit := mu\<rparr>;
     if r = None \<and> \<not> default_set mt then Some ((None, empty_action mt), mt1, ap)
     else do {
       m \<leftarrow> ap_lookup ap hash (case r of Some (h, i) \<Rightarrow> i | None \<Rightarrow> default_index mt);
       let e = action_entries ap ! m;
       node \<leftarrow> get_next_node mt (get_action_id (ae_fn e));
       let e1 = e\<lparr>ae_next := node\<rparr>;
       Some ((map_option fst r, e1), mt1, ap\<lparr>action_entries := (action_entries ap)[m := e1]\<rparr>) } }"

definition mti_add_entry ::
  "('s, 'e match_key_scheme) lookup_ops \<Rightarrow> 'e match_key_scheme key_kind \<Rightarrow> nat \<Rightarrow> match_key_param list \<Rightarrow> nat \<Rightarrow> int \<Rightarrow>
   ('s, 'e) indirect_table \<times> action_profile \<Rightarrow> ((match_error + u32) \<times> ('s, 'e) indirect_table \<times> action_profile) option" where
  "mti_add_entry ops kk now ps m prio s = do {
     let (mt, ap) = s;
     if \<not> is_valid_mbr ap m then Some (Inl INVALID_MBR_HANDLE, mt, ap)
     else do {
       i \<leftarrow> make_mbr_index m;
       ap1 \<leftarrow> ref_count_increase i ap;
       (r, mu) \<leftarrow> mu_add_entry ops kk now ps i prio (mt_unit mt);
       Some (r, mt\<lparr>mt_unit := mu\<rparr>, ap1) } }"

definition mti_delete_entry ::
  "('s, 'e match_key_scheme) lookup_ops \<Rightarrow> u32 \<Rightarrow>
   ('s, 'e) indirect_table \<times> action_profile \<Rightarrow> ((match_error + unit) \<times> ('s, 'e) indirect_table \<times> action_profile) option" where
  "mti_delete_entry ops h s = do {
     let (mt, ap) = s;
     r \<leftarrow> mu_get_value h (mt_unit mt);
     case r of
       Inl e \<Rightarrow> Some (Inl e, mt, ap)
     | Inr i \<Rightarrow> do {
         ap1 \<leftarrow> ref_count_decrease i ap;
         (r, mu) \<leftarrow> mu_delete_entry ops h (mt_unit mt);
         Some (r, mt\<lparr>mt_unit := mu\<rparr>, ap1) } }"

definition mti_modify_entry ::
  "u32 \<Rightarrow> nat \<Rightarrow> ('s, 'e) indirect_table \<times> action_profile \<Rightarrow> ((match_error + unit) \<times> ('s, 'e) indirect_table \<times> action_profile) option" where
  "mti_modify_entry h m s = do {
     let (mt, ap) = s;
     r \<leftarrow> mu_get_value h (mt_unit mt);
     case r of
       Inl e \<Rightarrow> Some (Inl e, mt, ap)
     | Inr i \<Rightarrow> do {
         ap1 \<leftarrow> ref_count_decrease i ap;
         if \<not> is_valid_mbr ap1 m then Some (Inl INVALID_MBR_HANDLE, mt, ap1)
         else do {
           j \<leftarrow> make_mbr_index m;
           ap2 \<leftarrow> ref_count_increase j ap1;
           (r, mu) \<leftarrow> mu_modify_entry h j (mt_unit mt);
           Some (r, mt\<lparr>mt_unit := mu\<rparr>, ap2) } } }"

definition mti_set_default_member ::
  "nat \<Rightarrow> ('s, 'k) match_table_indirect \<times> action_profile \<Rightarrow> ((match_error + unit) \<times> ('s, 'k) match_table_indirect \<times> action_profile) option" where
  "mti_set_default_member m s = do {
     let (mt, ap) = s;
     if \<not> is_valid_mbr ap m then Some (Inl INVALID_MBR_HANDLE, mt, ap)
     else do { i \<leftarrow> make_mbr_index m; Some (Inr (), mt\<lparr>default_index := i, default_set := True\<rparr>, ap) } }"

record indirect_entry =
  ie_handle :: u32
  ie_key :: "match_key_param list"
  ie_timeout_ms :: nat
  ie_since_hit_ms :: nat
  ie_mbr :: nat
  ie_priority :: int

definition mti_get_entry ::
  "'e match_key_scheme key_kind \<Rightarrow> nat \<Rightarrow> ('s, 'e) indirect_table \<Rightarrow> u32 \<Rightarrow> (match_error + indirect_entry) option" where
  "mti_get_entry kk now mt h = do {
     r \<leftarrow> mu_get_entry kk h (mt_unit mt);
     case r of
       Inl e \<Rightarrow> Some (Inl e)
     | Inr (ps, i, prio) \<Rightarrow> do {
         m \<leftarrow> get_mbr i;
         (tmo, hit) \<leftarrow> entry_common_info now h mt;
         Some (Inr \<lparr>ie_handle = h, ie_key = ps, ie_timeout_ms = tmo, ie_since_hit_ms = hit, ie_mbr = m, ie_priority = prio\<rparr>) } }"

definition mti_get_entry_from_key ::
  "('s, 'e match_key_scheme) lookup_ops \<Rightarrow> 'e match_key_scheme key_kind \<Rightarrow> nat \<Rightarrow> match_key_param list \<Rightarrow> int \<Rightarrow>
   ('s, 'e) indirect_table \<Rightarrow> (match_error + indirect_entry) option" where
  "mti_get_entry_from_key ops kk now ps prio mt = do {
     r \<leftarrow> mu_retrieve_handle ops kk ps prio (mt_unit mt);
     case r of Inl e \<Rightarrow> Some (Inl e) | Inr h \<Rightarrow> mti_get_entry kk now mt h }"

definition mti_get_entries :: "'e match_key_scheme key_kind \<Rightarrow> nat \<Rightarrow> ('s, 'e) indirect_table \<Rightarrow> indirect_entry list option" where
  "mti_get_entries kk now mt = all_entries (mti_get_entry kk now mt) mt"

definition mti_get_default_entry :: "('s, 'k) match_table_indirect \<Rightarrow> (match_error + nat) option" where
  "mti_get_default_entry mt = (if \<not> default_set mt then Some (Inl NO_DEFAULT_ENTRY) else map_option Inr (get_mbr (default_index mt)))"

definition mti_reset_state ::
  "('s, 'e match_key_scheme) lookup_ops \<Rightarrow> 'e match_key_scheme key_kind \<Rightarrow> ('s, 'e) indirect_table \<Rightarrow> ('s, 'e) indirect_table option" where
  "mti_reset_state ops kk mt = map_option (\<lambda>mu. mt\<lparr>mt_unit := mu\<rparr>) (mu_reset_state ops kk 0 (mt_unit mt))"

section \<open>Indirect tables with selection\<close>

definition add_entry_ws ::
  "('s, 'e match_key_scheme) lookup_ops \<Rightarrow> 'e match_key_scheme key_kind \<Rightarrow> nat \<Rightarrow> match_key_param list \<Rightarrow> nat \<Rightarrow> int \<Rightarrow>
   ('s, 'e) indirect_table \<times> action_profile \<Rightarrow> ((match_error + u32) \<times> ('s, 'e) indirect_table \<times> action_profile) option" where
  "add_entry_ws ops kk now ps g prio s = do {
     let (mt, ap) = s;
     if \<not> is_valid_grp ap g then Some (Inl INVALID_GRP_HANDLE, mt, ap)
     else do {
       empty \<leftarrow> group_is_empty ap g;
       if empty then Some (Inl EMPTY_GRP, mt, ap)
       else do {
         i \<leftarrow> make_grp_index g;
         ap1 \<leftarrow> ref_count_increase i ap;
         (r, mu) \<leftarrow> mu_add_entry ops kk now ps i prio (mt_unit mt);
         Some (r, mt\<lparr>mt_unit := mu\<rparr>, ap1) } } }"

definition modify_entry_ws ::
  "u32 \<Rightarrow> nat \<Rightarrow> ('s, 'e) indirect_table \<times> action_profile \<Rightarrow> ((match_error + unit) \<times> ('s, 'e) indirect_table \<times> action_profile) option" where
  "modify_entry_ws h g s = do {
     let (mt, ap) = s;
     r \<leftarrow> mu_get_value h (mt_unit mt);
     case r of
       Inl e \<Rightarrow> Some (Inl e, mt, ap)
     | Inr i \<Rightarrow> do {
         ap1 \<leftarrow> ref_count_decrease i ap;
         if \<not> is_valid_grp ap1 g then Some (Inl INVALID_GRP_HANDLE, mt, ap1)
         else do {
           empty \<leftarrow> group_is_empty ap1 g;
           if empty then Some (Inl EMPTY_GRP, mt, ap1)
           else do {
             j \<leftarrow> make_grp_index g;
             ap2 \<leftarrow> ref_count_increase j ap1;
             (r, mu) \<leftarrow> mu_modify_entry h j (mt_unit mt);
             Some (r, mt\<lparr>mt_unit := mu\<rparr>, ap2) } } } }"

definition set_default_group ::
  "nat \<Rightarrow> ('s, 'k) match_table_indirect \<times> action_profile \<Rightarrow> ((match_error + unit) \<times> ('s, 'k) match_table_indirect \<times> action_profile) option" where
  "set_default_group g s = do {
     let (mt, ap) = s;
     if \<not> is_valid_grp ap g then Some (Inl INVALID_GRP_HANDLE, mt, ap)
     else do { i \<leftarrow> make_grp_index g; Some (Inr (), mt\<lparr>default_index := i, default_set := True\<rparr>, ap) } }"

text \<open>The largest handle stands for "not a member" and "not a group".\<close>

definition mbr_and_grp :: "nat \<Rightarrow> (nat \<times> nat) option" where
  "mbr_and_grp i =
     (if is_mbr i then map_option (\<lambda>m. (m, 2 ^ 32 - 1)) (get_mbr i) else map_option (\<lambda>g. (2 ^ 32 - 1, g)) (get_grp i))"

record indirect_ws_entry = indirect_entry +
  ie_grp :: nat

definition ws_get_entry ::
  "'e match_key_scheme key_kind \<Rightarrow> nat \<Rightarrow> ('s, 'e) indirect_table \<Rightarrow> u32 \<Rightarrow> (match_error + indirect_ws_entry) option" where
  "ws_get_entry kk now mt h = do {
     r \<leftarrow> mu_get_entry kk h (mt_unit mt);
     case r of
       Inl e \<Rightarrow> Some (Inl e)
     | Inr (ps, i, prio) \<Rightarrow> do {
         (m, g) \<leftarrow> mbr_and_grp i;
         (tmo, hit) \<leftarrow> entry_common_info now h mt;
         Some (Inr \<lparr>ie_handle = h, ie_key = ps, ie_timeout_ms = tmo, ie_since_hit_ms = hit, ie_mbr = m, ie_priority = prio,
           ie_grp = g\<rparr>) } }"

definition ws_get_entry_from_key ::
  "('s, 'e match_key_scheme) lookup_ops \<Rightarrow> 'e match_key_scheme key_kind \<Rightarrow> nat \<Rightarrow> match_key_param list \<Rightarrow> int \<Rightarrow>
   ('s, 'e) indirect_table \<Rightarrow> (match_error + indirect_ws_entry) option" where
  "ws_get_entry_from_key ops kk now ps prio mt = do {
     r \<leftarrow> mu_retrieve_handle ops kk ps prio (mt_unit mt);
     case r of Inl e \<Rightarrow> Some (Inl e) | Inr h \<Rightarrow> ws_get_entry kk now mt h }"

definition ws_get_entries :: "'e match_key_scheme key_kind \<Rightarrow> nat \<Rightarrow> ('s, 'e) indirect_table \<Rightarrow> indirect_ws_entry list option" where
  "ws_get_entries kk now mt = all_entries (ws_get_entry kk now mt) mt"

definition ws_get_default_entry :: "('s, 'k) match_table_indirect \<Rightarrow> (match_error + nat \<times> nat) option" where
  "ws_get_default_entry mt = (if \<not> default_set mt then Some (Inl NO_DEFAULT_ENTRY) else map_option Inr (mbr_and_grp (default_index mt)))"

section \<open>The references of a table\<close>

text \<open>The number of entries of a unit that have a value.\<close>

definition value_refs :: "nat set \<Rightarrow> ('k, 'v) mu_entry list \<Rightarrow> 'v \<Rightarrow> nat" where
  "value_refs H es x = card {h \<in> H. me_value (es ! h) = x}"

definition entry_refs :: "('s, 'k, 'v) match_unit \<Rightarrow> 'v \<Rightarrow> nat" where
  "entry_refs mu = value_refs (mu_handles mu) (mu_entries mu)"

lemma value_refs_insert:
  assumes "finite H" "i \<notin> H" "i < length es"
  shows "value_refs (insert i H) (es[i := e]) x = value_refs H es x + (if x = me_value e then 1 else 0)"
proof -
  have "{h \<in> insert i H. me_value (es[i := e] ! h) = x} =
      (if x = me_value e then insert i {h \<in> H. me_value (es ! h) = x} else {h \<in> H. me_value (es ! h) = x})"
    using assms by (auto simp: nth_update_if)
  then show ?thesis using assms by (simp add: value_refs_def)
qed

lemma value_refs_delete:
  assumes "finite H" "i \<in> H" "\<And>j. j \<in> H - {i} \<Longrightarrow> me_value (es' ! j) = me_value (es ! j)"
  shows "value_refs H es x = value_refs (H - {i}) es' x + (if x = me_value (es ! i) then 1 else 0)"
proof -
  have "{h \<in> H. me_value (es ! h) = x} =
      (if x = me_value (es ! i) then insert i {h \<in> H - {i}. me_value (es' ! h) = x} else {h \<in> H - {i}. me_value (es' ! h) = x})"
    using assms(2,3) by auto
  then show ?thesis using assms(1) by (simp add: value_refs_def)
qed

lemma value_refs_modify:
  assumes "finite H" "i \<in> H" "i < length es"
  shows "value_refs H (es[i := e]) x + (if x = me_value (es ! i) then 1 else 0) = value_refs H es x + (if x = me_value e then 1 else 0)"
  using value_refs_delete [OF assms(1,2), of es es x] value_refs_delete [OF assms(1,2), of es "es[i := e]" x] assms(3)
  by (simp add: nth_update_if)

lemma value_refs_pos: "finite H \<Longrightarrow> 0 < value_refs H es x \<longleftrightarrow> (\<exists>h \<in> H. me_value (es ! h) = x)"
  by (auto simp: value_refs_def card_gt_0_iff)

lemma value_refs_le: "finite H \<Longrightarrow> value_refs H es x \<le> card H"
  by (auto simp: value_refs_def intro!: card_mono)

text \<open>What the operations of a unit do to its entries, for any kind of keys.\<close>

lemma add_effect:
  assumes "mu_add_entry ops kk now ps v prio mu = Some (Inr h, mu')" "finite (mu_handles mu)"
  shows "entry_refs mu' = (entry_refs mu)(v := entry_refs mu v + 1)"
proof -
  obtain r mu1 where 1: "add_entry_internal ops kk ps v prio mu = Some (r, mu1)"
    using assms(1) by (cases "add_entry_internal ops kk ps v prio mu") (auto simp: mu_add_entry_def)
  have m1: "r = Inr h" "mu_handles mu' = mu_handles mu1" "mu_entries mu' = mu_entries mu1"
    using assms(1) 1 by (cases r; auto simp: mu_add_entry_def bind_eq_Some_iff)+
  obtain b where b: "build_entry_from_match_key kk (mu_builder mu) ps prio = Some b"
    using 1 by (cases "build_entry_from_match_key kk (mu_builder mu) ps prio") (auto simp: add_entry_internal_def)
  obtain k where k: "b = Inr k" using 1 b m1(1) by (cases b) (auto simp: add_entry_internal_def)
  obtain g mu2 where g: "get_and_set_handle mu = (g, mu2)" by fastforce
  obtain i where gi: "g = Inr i"
    using 1 b k g m1(1) by (cases g) (auto simp: add_entry_internal_def bind_eq_Some_iff split: if_splits)
  have 2: "get_handle (mu_handles mu) = Some (i, mu_handles mu2)" "mu_entries mu2 = mu_entries mu"
    using g gi by (auto simp: get_and_set_handle_def split: if_splits option.splits)
  obtain k1 where e: "i < length (mu_entries mu)" "mu_handles mu1 = mu_handles mu2"
      "mu_entries mu1 = (mu_entries mu)[i := \<lparr>me_key = k1, me_value = v\<rparr>]"
    using 1 b k g gi 2(2) m1(1)
    by (auto simp: add_entry_internal_def bind_eq_Some_iff nth_opt_Some_iff Let_def split: if_splits)
  note i = get_handle_Some(1,4) [OF assms(2) 2(1)]
  show ?thesis
    using value_refs_insert [OF assms(2) i(1) e(1), of "\<lparr>me_key = k1, me_value = v\<rparr>"] i(2) e(2,3) m1(2,3)
    by (auto simp: entry_refs_def)
qed

lemma value_checked:
  assumes "mu_get_value h mu = Some (Inr w)"
  obtains e where "checked_entry mu h = Some (Inr e)" "me_value e = w" "HANDLE_INTERNAL h \<in> mu_handles mu"
    "HANDLE_INTERNAL h < length (mu_entries mu)" "e = mu_entries mu ! HANDLE_INTERNAL h"
proof -
  obtain c where c: "checked_entry mu h = Some c"
    using assms by (cases "checked_entry mu h") (auto simp: mu_get_value_def)
  obtain e where e: "c = Inr e" using assms c by (cases c) (auto simp: mu_get_value_def)
  then have "HANDLE_INTERNAL h \<in> mu_handles mu \<and> HANDLE_INTERNAL h < length (mu_entries mu) \<and> e = mu_entries mu ! HANDLE_INTERNAL h"
    using c by (auto simp: checked_entry_def mu_valid_internal_def valid_handle_def bind_eq_Some_iff nth_opt_Some_iff split: if_splits)
  then show ?thesis using assms c e by (intro that) (auto simp: mu_get_value_def)
qed

lemma value_delete_fails:
  assumes "mu_get_value h mu = Some (Inl e)"
  shows "mu_delete_entry ops h mu = Some (Inl e, mu)" "mu_modify_entry h v mu = Some (Inl e, mu)"
proof -
  obtain c where c: "checked_entry mu h = Some c"
    using assms by (cases "checked_entry mu h") (auto simp: mu_get_value_def)
  have "c = Inl e" using assms c by (cases c) (auto simp: mu_get_value_def)
  then show "mu_delete_entry ops h mu = Some (Inl e, mu)" "mu_modify_entry h v mu = Some (Inl e, mu)"
    using c by (simp_all add: mu_delete_entry_def mu_modify_entry_def)
qed

lemma delete_effect:
  assumes "mu_get_value h mu = Some (Inr w)" "mu_delete_entry ops h mu = Some (r, mu')" "finite (mu_handles mu)"
  shows "r = Inr ()" "0 < entry_refs mu w" "entry_refs mu' = (entry_refs mu)(w := entry_refs mu w - 1)"
proof -
  obtain e where e: "checked_entry mu h = Some (Inr e)" "me_value e = w" "HANDLE_INTERNAL h \<in> mu_handles mu"
      "e = mu_entries mu ! HANDLE_INTERNAL h"
    by (rule value_checked [OF assms(1)])
  have m: "r = Inr ()" "mu_handles mu' = mu_handles mu - {HANDLE_INTERNAL h}"
      "\<And>j. j \<in> mu_handles mu - {HANDLE_INTERNAL h} \<Longrightarrow> me_value (mu_entries mu' ! j) = me_value (mu_entries mu ! j)"
    using assms(2) e(1,3) by (auto simp: mu_delete_entry_def unset_handle_def release_handle_def bind_eq_Some_iff Let_def)
  have d: "entry_refs mu x = entry_refs mu' x + (if x = w then 1 else 0)" for x
    using value_refs_delete [OF assms(3) e(3) m(3), of x] e(2,4) m(2) by (simp add: entry_refs_def)
  show "r = Inr ()" "0 < entry_refs mu w" using m(1) d [of w] by simp_all
  show "entry_refs mu' = (entry_refs mu)(w := entry_refs mu w - 1)"
  proof
    fix x
    show "entry_refs mu' x = ((entry_refs mu)(w := entry_refs mu w - 1)) x" using d [of x] by (cases "x = w") auto
  qed
qed

lemma modify_effect:
  assumes "mu_get_value h mu = Some (Inr w)" "finite (mu_handles mu)"
  shows "\<exists>mu'. mu_modify_entry h v mu = Some (Inr (), mu') \<and> 0 < entry_refs mu w \<and>
    entry_refs mu' = (let f = (entry_refs mu)(w := entry_refs mu w - 1) in f(v := f v + 1))"
proof -
  define i where "i = HANDLE_INTERNAL h"
  obtain e where e: "checked_entry mu h = Some (Inr e)" "me_value e = w" "i \<in> mu_handles mu"
      "i < length (mu_entries mu)" "e = mu_entries mu ! i"
    unfolding i_def by (rule value_checked [OF assms(1)])
  let ?mu' = "mu\<lparr>mu_entries := (mu_entries mu)[i := e\<lparr>me_value := v\<rparr>]\<rparr>"
  have run: "mu_modify_entry h v mu = Some (Inr (), ?mu')" using e(1) by (simp add: mu_modify_entry_def i_def)
  have m: "entry_refs ?mu' x + (if x = w then 1 else 0) = entry_refs mu x + (if x = v then 1 else 0)" for x
    using value_refs_modify [OF assms(2) e(3,4), of "e\<lparr>me_value := v\<rparr>" x] e(2,5) by (simp add: entry_refs_def)
  have pos: "0 < entry_refs mu w" unfolding entry_refs_def value_refs_pos [OF assms(2)] using e(2,3,5) by blast
  have "entry_refs ?mu' x = (let f = (entry_refs mu)(w := entry_refs mu w - 1) in f(v := f v + 1)) x" for x
    using m [of x] m [of w] pos by (cases "x = w"; cases "x = v") (simp_all add: Let_def)
  then show ?thesis using pos run by blast
qed

section \<open>The steps of an indirect table\<close>

text \<open>
  \<open>W\<close> is the well-formedness of the unit of the table.  The references that the profile counts are
  the entries of the table.
\<close>

definition table_inv :: "(('s, 'k, nat) match_unit \<Rightarrow> bool) \<Rightarrow> ('s, 'k) match_table_indirect \<times> action_profile \<Rightarrow> bool" where
  "table_inv W s \<longleftrightarrow> W (mt_unit (fst s)) \<and> finite (mu_handles (mt_unit (fst s))) \<and>
     card (mu_handles (mt_unit (fst s))) \<le> 2 ^ 24 \<and> ap_inv (entry_refs (mt_unit (fst s))) (snd s)"

text \<open>
  Client calls on the table and its profile, and packets.  Left out are the calls that fail after the profile
  was told: an addition that the unit refuses, and a modification with a bad member or group.
\<close>

inductive indirect_step ::
  "('s, 'e match_key_scheme) lookup_ops \<Rightarrow> 'e match_key_scheme key_kind \<Rightarrow> (key_builder \<Rightarrow> match_key_param list \<Rightarrow> bool) \<Rightarrow>
   ('s \<Rightarrow> 'e match_key_scheme \<Rightarrow> bool) \<Rightarrow> ('s, 'e) indirect_table \<times> action_profile \<Rightarrow> ('s, 'e) indirect_table \<times> action_profile \<Rightarrow> bool"
  for ops kk accepts fits where
  is_profile: "profile_step (entry_refs (mt_unit mt), ap) (entry_refs (mt_unit mt), ap') \<Longrightarrow>
    indirect_step ops kk accepts fits (mt, ap) (mt, ap')"
| is_add: "accepts (mu_builder (mt_unit (fst s))) ps \<Longrightarrow>
    (\<forall>k. build_entry_from_match_key kk (mu_builder (mt_unit (fst s))) ps prio = Some (Inr k) \<longrightarrow> fits (mu_ls (mt_unit (fst s))) k) \<Longrightarrow>
    mti_add_entry ops kk now ps m prio s = Some (r, s') \<Longrightarrow> r \<in> insert (Inl INVALID_MBR_HANDLE) (range Inr) \<Longrightarrow>
    indirect_step ops kk accepts fits s s'"
| is_add_ws: "accepts (mu_builder (mt_unit (fst s))) ps \<Longrightarrow>
    (\<forall>k. build_entry_from_match_key kk (mu_builder (mt_unit (fst s))) ps prio = Some (Inr k) \<longrightarrow> fits (mu_ls (mt_unit (fst s))) k) \<Longrightarrow>
    add_entry_ws ops kk now ps g prio s = Some (r, s') \<Longrightarrow> r \<in> {Inl INVALID_GRP_HANDLE, Inl EMPTY_GRP} \<union> range Inr \<Longrightarrow>
    indirect_step ops kk accepts fits s s'"
| is_delete: "mti_delete_entry ops h s = Some (r, s') \<Longrightarrow> indirect_step ops kk accepts fits s s'"
| is_modify: "mti_modify_entry h m s = Some (r, s') \<Longrightarrow> r \<noteq> Inl INVALID_MBR_HANDLE \<Longrightarrow> indirect_step ops kk accepts fits s s'"
| is_modify_ws: "modify_entry_ws h g s = Some (r, s') \<Longrightarrow> r \<notin> {Inl INVALID_GRP_HANDLE, Inl EMPTY_GRP} \<Longrightarrow>
    indirect_step ops kk accepts fits s s'"
| is_default: "mti_set_default_member m s = Some (r, s') \<Longrightarrow> indirect_step ops kk accepts fits s s'"
| is_default_ws: "set_default_group g s = Some (r, s') \<Longrightarrow> indirect_step ops kk accepts fits s s'"
| is_packet: "fields_sized (mu_builder (mt_unit (fst s))) p \<Longrightarrow> mti_lookup ops p len now hash s = Some (x, s') \<Longrightarrow>
    indirect_step ops kk accepts fits s s'"

lemma refs_room: "table_inv W s \<Longrightarrow> entry_refs (mt_unit (fst s)) i + 1 < 2 ^ 31"
  using value_refs_le [of "mu_handles (mt_unit (fst s))" "mu_entries (mt_unit (fst s))" i]
  by (simp add: table_inv_def entry_refs_def)

lemma valid_mbr_ref:
  assumes "ap_inv ext ap" "is_valid_mbr ap m"
  shows "make_mbr_index m = Some m" "valid_ref ap m"
  using assms ap_invD(3) [OF assms(1), of m] by (auto simp: is_valid_mbr_def valid_handle_def mbr_index valid_ref_def)

lemma valid_grp_ref:
  assumes "ap_inv ext ap" "is_valid_grp ap g"
  shows "make_grp_index g = Some (2 ^ 24 + g)" "valid_ref ap (2 ^ 24 + g)" "\<exists>b. group_is_empty ap g = Some b"
  using assms ap_invD(4) [OF assms(1), of g] by (auto simp: is_valid_grp_def valid_handle_def grp_index valid_ref_def group_is_empty_def)

text \<open>The part that additions, deletions and modifications have in common.\<close>

lemma add_refs_inv:
  assumes inv: "table_inv W (mt, ap)" and ref: "valid_ref ap i"
    and add: "mu_add_entry ops kk now ps i prio (mt_unit mt) = Some (Inr h, mu)"
    and wf: "W mu" "finite (mu_handles mu)" "card (mu_handles mu) \<le> 2 ^ 24"
    and inc: "ref_count_increase i ap = Some ap1"
  shows "table_inv W (mt\<lparr>mt_unit := mu\<rparr>, ap1)"
proof -
  have ap: "ap_inv (entry_refs (mt_unit mt)) ap" and fin: "finite (mu_handles (mt_unit mt))"
    using inv by (simp_all add: table_inv_def)
  have room: "entry_refs (mt_unit mt) i + 1 < 2 ^ 31" using refs_room [OF inv] by simp
  obtain rc where "ref_count_increase i ap = Some (ap\<lparr>index_ref_count := rc\<rparr>)"
      "ap_inv ((entry_refs (mt_unit mt))(i := entry_refs (mt_unit mt) i + 1)) (ap\<lparr>index_ref_count := rc\<rparr>)"
    by (rule take_ref [OF ap ref room])
  then show ?thesis using add_effect [OF add fin] wf inc by (simp add: table_inv_def)
qed

lemma drop_take:
  assumes inv: "ap_inv ext ap" and pos: "0 < ext w" and ref: "valid_ref ap v" and room: "ext v + 1 < 2 ^ 31"
  obtains rc1 rc2 where "ref_count_decrease w ap = Some (ap\<lparr>index_ref_count := rc1\<rparr>)"
    "ap_inv (ext(w := ext w - 1)) (ap\<lparr>index_ref_count := rc1\<rparr>)"
    "ref_count_increase v (ap\<lparr>index_ref_count := rc1\<rparr>) = Some (ap\<lparr>index_ref_count := rc2\<rparr>)"
    "ap_inv (let f = ext(w := ext w - 1) in f(v := f v + 1)) (ap\<lparr>index_ref_count := rc2\<rparr>)"
proof -
  obtain rc1 where 1: "ref_count_decrease w ap = Some (ap\<lparr>index_ref_count := rc1\<rparr>)"
      "ap_inv (ext(w := ext w - 1)) (ap\<lparr>index_ref_count := rc1\<rparr>)"
    by (rule drop_ref [OF inv pos])
  have ref1: "valid_ref (ap\<lparr>index_ref_count := rc1\<rparr>) v" using ref by (simp add: valid_ref_def)
  have room1: "(ext(w := ext w - 1)) v + 1 < 2 ^ 31" using room by (cases "v = w") simp_all
  obtain rc2 where "ref_count_increase v (ap\<lparr>index_ref_count := rc1\<rparr>) = Some ((ap\<lparr>index_ref_count := rc1\<rparr>)\<lparr>index_ref_count := rc2\<rparr>)"
      "ap_inv ((ext(w := ext w - 1))(v := (ext(w := ext w - 1)) v + 1)) ((ap\<lparr>index_ref_count := rc1\<rparr>)\<lparr>index_ref_count := rc2\<rparr>)"
    by (rule take_ref [OF 1(2) ref1 room1])
  then show ?thesis using 1 by (intro that [of rc1 rc2]) (simp_all add: Let_def)
qed

lemma next_node_inv: "ap_inv ext ap \<Longrightarrow> ap_inv ext (ap\<lparr>action_entries := (action_entries ap)[m := e]\<rparr>)"
  by (rule modify_member_inv(2))

lemma entries_kept:
  assumes "mu_handles mu' = mu_handles mu" "mu_entries mu' = mu_entries mu"
  shows "entry_refs mu' = entry_refs mu"
  using assms by (auto simp: entry_refs_def)

lemma lookup_keeps_entries:
  assumes "mu_lookup ops p len now mu = Some (x, mu')"
  shows "mu_handles mu' = mu_handles mu" "mu_entries mu' = mu_entries mu" "mu_builder mu' = mu_builder mu"
  using assms by (auto simp: mu_lookup_def lookup_key_def bind_eq_Some_iff split: option.splits)

lemma mti_lookup_parts:
  assumes "mti_lookup ops p len now hash (mt, ap) = Some (x, mt', ap')"
  obtains r mu where "mu_lookup ops p len now (mt_unit mt) = Some (r, mu)" "mt' = mt\<lparr>mt_unit := mu\<rparr>"
    "ap' = ap \<or> (\<exists>m e. ap' = ap\<lparr>action_entries := (action_entries ap)[m := e]\<rparr>)"
proof -
  obtain r mu where r: "mu_lookup ops p len now (mt_unit mt) = Some (r, mu)"
    using assms by (cases "mu_lookup ops p len now (mt_unit mt)") (auto simp: mti_lookup_def)
  then show ?thesis
    using assms by (intro that [of r mu]) (auto simp: mti_lookup_def bind_eq_Some_iff Let_def split: if_splits)
qed

context unit_parts
begin

lemma unit_card: "unit_wf inv ok holds cap n mu \<Longrightarrow> card (mu_handles mu) \<le> 2 ^ 24"
proof -
  assume w: "unit_wf inv ok holds cap n mu"
  then have "mu_handles mu \<subseteq> {..<mu_size mu}" "mu_size mu \<le> 2 ^ 24" unfolding unit_wf_def by blast+
  then show "card (mu_handles mu) \<le> 2 ^ 24" using card_mono [of "{..<mu_size mu}" "mu_handles mu"] by simp
qed

lemma table_inv_unit:
  "table_inv (unit_wf inv ok holds cap n) (mt, ap) \<longleftrightarrow> unit_wf inv ok holds cap n (mt_unit mt) \<and> ap_inv (entry_refs (mt_unit mt)) ap"
  using wf_finite unit_card by (auto simp: table_inv_def)

lemma add_step:
  assumes inv: "table_inv (unit_wf inv ok holds cap n) (mt, ap)" and ref: "valid_ref ap i"
    and a: "accepts (mu_builder (mt_unit mt)) ps"
    and f: "\<forall>k. build_entry_from_match_key kk (mu_builder (mt_unit mt)) ps prio = Some (Inr k) \<longrightarrow> fits (mu_ls (mt_unit mt)) k"
    and run: "mu_add_entry ops kk now ps i prio (mt_unit mt) = Some (Inr h, mu)" "ref_count_increase i ap = Some ap1"
  shows "table_inv (unit_wf inv ok holds cap n) (mt\<lparr>mt_unit := mu\<rparr>, ap1)"
proof -
  have wf: "unit_wf inv ok holds cap n (mt_unit mt)" using inv by (simp add: table_inv_unit)
  have "unit_wf inv ok holds cap n mu" using add_result [OF wf a f, of now i] run(1) by auto
  then show ?thesis using add_refs_inv [OF inv ref run(1) _ _ _ run(2)] wf_finite unit_card by blast
qed

lemma modify_step:
  assumes inv: "table_inv (unit_wf inv ok holds cap n) (mt, ap)" and ref: "valid_ref ap v"
    and get: "mu_get_value h (mt_unit mt) = Some (Inr w)"
  obtains rc1 rc2 mu where "ref_count_decrease w ap = Some (ap\<lparr>index_ref_count := rc1\<rparr>)"
    "ap_inv ((entry_refs (mt_unit mt))(w := entry_refs (mt_unit mt) w - 1)) (ap\<lparr>index_ref_count := rc1\<rparr>)"
    "ref_count_increase v (ap\<lparr>index_ref_count := rc1\<rparr>) = Some (ap\<lparr>index_ref_count := rc2\<rparr>)"
    "mu_modify_entry h v (mt_unit mt) = Some (Inr (), mu)"
    "table_inv (unit_wf inv ok holds cap n) (mt\<lparr>mt_unit := mu\<rparr>, ap\<lparr>index_ref_count := rc2\<rparr>)"
proof -
  have wf: "unit_wf inv ok holds cap n (mt_unit mt)" and ap: "ap_inv (entry_refs (mt_unit mt)) ap"
    using inv by (simp_all add: table_inv_unit)
  obtain mu where mu: "mu_modify_entry h v (mt_unit mt) = Some (Inr (), mu)" "0 < entry_refs (mt_unit mt) w"
      "entry_refs mu = (let f = (entry_refs (mt_unit mt))(w := entry_refs (mt_unit mt) w - 1) in f(v := f v + 1))"
    using modify_effect [OF get wf_finite [OF wf], of v] by blast
  have "unit_wf inv ok holds cap n mu" using modify_result [OF wf, of h v] mu(1) by auto
  moreover have room: "entry_refs (mt_unit mt) v + 1 < 2 ^ 31" using refs_room [OF inv] by simp
  obtain rc1 rc2 where "ref_count_decrease w ap = Some (ap\<lparr>index_ref_count := rc1\<rparr>)"
    "ap_inv ((entry_refs (mt_unit mt))(w := entry_refs (mt_unit mt) w - 1)) (ap\<lparr>index_ref_count := rc1\<rparr>)"
    "ref_count_increase v (ap\<lparr>index_ref_count := rc1\<rparr>) = Some (ap\<lparr>index_ref_count := rc2\<rparr>)"
    "ap_inv (let f = (entry_refs (mt_unit mt))(w := entry_refs (mt_unit mt) w - 1) in f(v := f v + 1)) (ap\<lparr>index_ref_count := rc2\<rparr>)"
    by (rule drop_take [OF ap mu(2) ref room])
  ultimately show ?thesis using mu(1,3) by (intro that [of rc1 rc2 mu]) (simp_all add: table_inv_unit)
qed

lemma delete_step:
  assumes inv: "table_inv (unit_wf inv ok holds cap n) (mt, ap)" and get: "mu_get_value h (mt_unit mt) = Some (Inr w)"
  obtains rc mu where "ref_count_decrease w ap = Some (ap\<lparr>index_ref_count := rc\<rparr>)"
    "mu_delete_entry ops h (mt_unit mt) = Some (Inr (), mu)"
    "table_inv (unit_wf inv ok holds cap n) (mt\<lparr>mt_unit := mu\<rparr>, ap\<lparr>index_ref_count := rc\<rparr>)"
proof -
  have wf: "unit_wf inv ok holds cap n (mt_unit mt)" and ap: "ap_inv (entry_refs (mt_unit mt)) ap"
    using inv by (simp_all add: table_inv_unit)
  obtain r mu where d: "mu_delete_entry ops h (mt_unit mt) = Some (r, mu)" "unit_wf inv ok holds cap n mu"
    using delete_result [OF wf, of h] by blast
  note e = delete_effect [OF get d(1) wf_finite [OF wf]]
  obtain rc where "ref_count_decrease w ap = Some (ap\<lparr>index_ref_count := rc\<rparr>)"
      "ap_inv ((entry_refs (mt_unit mt))(w := entry_refs (mt_unit mt) w - 1)) (ap\<lparr>index_ref_count := rc\<rparr>)"
    by (rule drop_ref [OF ap e(2)])
  then show ?thesis using d e(1,3) by (intro that [of rc mu]) (simp_all add: table_inv_unit)
qed

lemma add_error:
  assumes wf: "unit_wf inv ok holds cap n mu" and a: "accepts (mu_builder mu) ps"
    and f: "\<forall>k. build_entry_from_match_key kk (mu_builder mu) ps prio = Some (Inr k) \<longrightarrow> fits (mu_ls mu) k"
    and run: "mu_add_entry ops kk now ps v prio mu = Some (Inl e, mu')"
  shows "e \<in> {BAD_MATCH_KEY, DUPLICATE_ENTRY, TABLE_FULL}" "mu' = mu"
  using add_result [OF wf a f, of now v] run by (auto split: if_splits)

lemma add_table_step:
  assumes inv: "table_inv (unit_wf inv ok holds cap n) (mt, ap)" and ref: "valid_ref ap i"
    and a: "accepts (mu_builder (mt_unit mt)) ps"
    and f: "\<forall>k. build_entry_from_match_key kk (mu_builder (mt_unit mt)) ps prio = Some (Inr k) \<longrightarrow> fits (mu_ls (mt_unit mt)) k"
    and run: "do { ap1 \<leftarrow> ref_count_increase i ap; (r, mu) \<leftarrow> mu_add_entry ops kk now ps i prio (mt_unit mt);
      Some (r, mt\<lparr>mt_unit := mu\<rparr>, ap1) } = Some (r, s')" and r: "r \<notin> Inl ` {BAD_MATCH_KEY, DUPLICATE_ENTRY, TABLE_FULL}"
  shows "table_inv (unit_wf inv ok holds cap n) s'"
proof -
  have wf: "unit_wf inv ok holds cap n (mt_unit mt)" using inv by (simp add: table_inv_unit)
  obtain ap1 mu where 1: "ref_count_increase i ap = Some ap1" "mu_add_entry ops kk now ps i prio (mt_unit mt) = Some (r, mu)"
      "s' = (mt\<lparr>mt_unit := mu\<rparr>, ap1)"
    using run by (auto simp: bind_eq_Some_iff)
  obtain h where "r = Inr h"
    using add_error [OF wf a f, of now i _ mu] 1(2) r by (cases r) auto
  then show ?thesis using add_step [OF inv ref a f, of now h mu] 1 by simp
qed

lemma profile_step_table:
  assumes "profile_step (ext, ap) (ext, ap')" "ap_inv ext ap"
  shows "ap_inv ext ap'"
  using profile_step_inv [OF assms(1)] assms(2) by simp

lemma step_table_inv:
  assumes "indirect_step ops kk accepts fits s s'" "table_inv (unit_wf inv ok holds cap n) s"
  shows "table_inv (unit_wf inv ok holds cap n) s'"
  using assms
proof cases
  case (is_profile mt ap ap')
  then show ?thesis using assms(2) profile_step_table by (simp add: table_inv_unit)
next
  case (is_add ps prio now m r)
  obtain mt ap where s: "s = (mt, ap)" by fastforce
  have inv: "table_inv (unit_wf inv ok holds cap n) (mt, ap)" and ap: "ap_inv (entry_refs (mt_unit mt)) ap"
    using assms(2) by (simp_all add: s table_inv_unit)
  show ?thesis
  proof (cases "is_valid_mbr ap m")
    case True
    note ref = valid_mbr_ref [OF ap True]
    show ?thesis
      by (rule add_table_step [OF inv ref(2), of ps prio now r]) (use is_add s True ref(1) in \<open>auto simp: mti_add_entry_def\<close>)
  next
    case False
    then show ?thesis using is_add(3) inv by (simp add: s mti_add_entry_def)
  qed
next
  case (is_add_ws ps prio now g r)
  obtain mt ap where s: "s = (mt, ap)" by fastforce
  have inv: "table_inv (unit_wf inv ok holds cap n) (mt, ap)" and ap: "ap_inv (entry_refs (mt_unit mt)) ap"
    using assms(2) by (simp_all add: s table_inv_unit)
  show ?thesis
  proof (cases "is_valid_grp ap g \<and> group_is_empty ap g = Some False")
    case True
    note ref = valid_grp_ref [OF ap conjunct1 [OF True]]
    show ?thesis
      by (rule add_table_step [OF inv ref(2), of ps prio now r]) (use is_add_ws s True ref(1) in \<open>auto simp: add_entry_ws_def\<close>)
  next
    case False
    then show ?thesis
      using is_add_ws(3) inv valid_grp_ref(3) [OF ap, of g] by (auto simp: s add_entry_ws_def split: if_splits)
  qed
next
  case (is_delete h r)
  obtain mt ap where s: "s = (mt, ap)" by fastforce
  have inv: "table_inv (unit_wf inv ok holds cap n) (mt, ap)" using assms(2) by (simp add: s)
  obtain g where g: "mu_get_value h (mt_unit mt) = Some g"
    using is_delete by (cases "mu_get_value h (mt_unit mt)") (auto simp: s mti_delete_entry_def)
  show ?thesis
  proof (cases g)
    case (Inl e)
    then show ?thesis using is_delete g inv by (simp add: s mti_delete_entry_def)
  next
    case (Inr w)
    then have get: "mu_get_value h (mt_unit mt) = Some (Inr w)" using g by simp
    obtain rc mu where "ref_count_decrease w ap = Some (ap\<lparr>index_ref_count := rc\<rparr>)"
        "mu_delete_entry ops h (mt_unit mt) = Some (Inr (), mu)"
        "table_inv (unit_wf inv ok holds cap n) (mt\<lparr>mt_unit := mu\<rparr>, ap\<lparr>index_ref_count := rc\<rparr>)"
      by (rule delete_step [OF inv get])
    then show ?thesis using is_delete get by (simp add: s mti_delete_entry_def)
  qed
next
  case (is_modify h m r)
  obtain mt ap where s: "s = (mt, ap)" by fastforce
  have inv: "table_inv (unit_wf inv ok holds cap n) (mt, ap)" and ap: "ap_inv (entry_refs (mt_unit mt)) ap"
    using assms(2) by (simp_all add: s table_inv_unit)
  obtain g where g: "mu_get_value h (mt_unit mt) = Some g"
    using is_modify by (cases "mu_get_value h (mt_unit mt)") (auto simp: s mti_modify_entry_def)
  show ?thesis
  proof (cases g)
    case (Inl e)
    then show ?thesis using is_modify g inv by (simp add: s mti_modify_entry_def)
  next
    case (Inr w)
    then have get: "mu_get_value h (mt_unit mt) = Some (Inr w)" using g by simp
    show ?thesis
    proof (cases "is_valid_mbr ap m")
      case True
      note ref = valid_mbr_ref [OF ap True]
      have ok: "is_valid_mbr (ap\<lparr>index_ref_count := c\<rparr>) m" for c using True by (simp add: is_valid_mbr_def)
      obtain rc1 rc2 mu where "ref_count_decrease w ap = Some (ap\<lparr>index_ref_count := rc1\<rparr>)"
          "ref_count_increase m (ap\<lparr>index_ref_count := rc1\<rparr>) = Some (ap\<lparr>index_ref_count := rc2\<rparr>)"
          "mu_modify_entry h m (mt_unit mt) = Some (Inr (), mu)"
          "table_inv (unit_wf inv ok holds cap n) (mt\<lparr>mt_unit := mu\<rparr>, ap\<lparr>index_ref_count := rc2\<rparr>)"
        by (rule modify_step [OF inv ref(2) get]) blast
      then show ?thesis using is_modify get ok ref(1) by (simp add: s mti_modify_entry_def)
    next
      case False
      have bad: "\<not> is_valid_mbr ap1 m" if "ref_count_decrease w ap = Some ap1" for ap1
        using that False by (auto simp: is_valid_mbr_def ref_count_decrease_def)
      then show ?thesis using is_modify get by (auto simp: s mti_modify_entry_def bind_eq_Some_iff)
    qed
  qed
next
  case (is_modify_ws h g' r)
  obtain mt ap where s: "s = (mt, ap)" by fastforce
  have inv: "table_inv (unit_wf inv ok holds cap n) (mt, ap)" and ap: "ap_inv (entry_refs (mt_unit mt)) ap"
    using assms(2) by (simp_all add: s table_inv_unit)
  obtain g where g: "mu_get_value h (mt_unit mt) = Some g"
    using is_modify_ws by (cases "mu_get_value h (mt_unit mt)") (auto simp: s modify_entry_ws_def)
  show ?thesis
  proof (cases g)
    case (Inl e)
    then show ?thesis using is_modify_ws g inv by (simp add: s modify_entry_ws_def)
  next
    case (Inr w)
    then have get: "mu_get_value h (mt_unit mt) = Some (Inr w)" using g by simp
    have same: "is_valid_grp ap1 g' = is_valid_grp ap g'" "group_is_empty ap1 g' = group_is_empty ap g'"
      if "ref_count_decrease w ap = Some ap1" for ap1
      using that by (auto simp: is_valid_grp_def group_is_empty_def ref_count_decrease_def)
    show ?thesis
    proof (cases "is_valid_grp ap g' \<and> group_is_empty ap g' = Some False")
      case True
      note ref = valid_grp_ref [OF ap conjunct1 [OF True]]
      obtain rc1 rc2 mu where m: "ref_count_decrease w ap = Some (ap\<lparr>index_ref_count := rc1\<rparr>)"
          "ref_count_increase (2 ^ 24 + g') (ap\<lparr>index_ref_count := rc1\<rparr>) = Some (ap\<lparr>index_ref_count := rc2\<rparr>)"
          "mu_modify_entry h (2 ^ 24 + g') (mt_unit mt) = Some (Inr (), mu)"
          "table_inv (unit_wf inv ok holds cap n) (mt\<lparr>mt_unit := mu\<rparr>, ap\<lparr>index_ref_count := rc2\<rparr>)"
        by (rule modify_step [OF inv ref(2) get]) blast
      then show ?thesis using is_modify_ws get True same [OF m(1)] ref(1) by (simp add: s modify_entry_ws_def)
    next
      case False
      then show ?thesis
        using is_modify_ws get same valid_grp_ref(3) [OF ap, of g']
        by (auto simp: s modify_entry_ws_def bind_eq_Some_iff split: if_splits)
    qed
  qed
next
  case (is_default m r)
  obtain mt ap where s: "s = (mt, ap)" by fastforce
  show ?thesis using is_default assms(2)
    by (auto simp: s mti_set_default_member_def table_inv_def bind_eq_Some_iff split: if_splits)
next
  case (is_default_ws g r)
  obtain mt ap where s: "s = (mt, ap)" by fastforce
  show ?thesis using is_default_ws assms(2)
    by (auto simp: s set_default_group_def table_inv_def bind_eq_Some_iff split: if_splits)
next
  case (is_packet p len now hash x)
  obtain mt ap mt' ap' where s: "s = (mt, ap)" "s' = (mt', ap')" by fastforce
  have wf: "unit_wf inv ok holds cap n (mt_unit mt)" and ap: "ap_inv (entry_refs (mt_unit mt)) ap"
    using assms(2) by (simp_all add: s table_inv_unit)
  have run: "mti_lookup ops p len now hash (mt, ap) = Some (x, mt', ap')" using is_packet(2) s by simp
  obtain q mu where l: "mu_lookup ops p len now (mt_unit mt) = Some (q, mu)" "mt' = mt\<lparr>mt_unit := mu\<rparr>"
      "ap' = ap \<or> (\<exists>m e. ap' = ap\<lparr>action_entries := (action_entries ap)[m := e]\<rparr>)"
    by (rule mti_lookup_parts [OF run]) (rule that)
  have "unit_step ops kk 0 accepts fits (mt_unit mt) mu"
    by (rule step_lookup [OF _ l(1)]) (use is_packet(1) in \<open>simp add: s\<close>)
  then have "unit_wf inv ok holds cap n mu" using wf by (rule step_wf)
  moreover have "ap_inv (entry_refs mu) ap'"
    using entries_kept [OF lookup_keeps_entries(1,2) [OF l(1)]] ap l(3) next_node_inv by auto
  ultimately show ?thesis by (simp add: s l(2) table_inv_unit)
qed

lemma steps_table_inv:
  assumes "(indirect_step ops kk accepts fits)\<^sup>*\<^sup>* s s'" "table_inv (unit_wf inv ok holds cap n) s"
  shows "table_inv (unit_wf inv ok holds cap n) s'"
  using assms by (induction rule: rtranclp_induct) (auto intro: step_table_inv)

end

section \<open>Properties of indirect tables\<close>

lemma exact_lookup_value:
  assumes wf: "unit_wf (exact_inv n) (key_len n) exact_holds word_cap n mu" and p: "fields_sized (mu_builder mu) p"
  obtains x mu' where "mu_lookup exact_ops p len now mu = Some (x, mu')"
    "\<And>h v. x = Some (h, v) \<Longrightarrow> \<exists>i \<in> mu_handles mu. h = HANDLE_SET (slot_version mu i) i \<and> v = me_value (mu_entries mu ! i)"
proof -
  obtain key where key: "build_key (mu_builder mu) p [] = Some key"
    using packet_key_length [OF _ p] wf by (auto simp: unit_wf_def)
  obtain mu' where l: "mu_lookup exact_ops p len now mu =
      Some (map_option (\<lambda>i. (HANDLE_SET (slot_version mu i) i, me_value (mu_entries mu ! i))) (mu_ls mu key), mu')"
    using exact_lookup_unit [OF wf key] by blast
  have "i \<in> mu_handles mu" if "mu_ls mu key = Some i" for i
    using exact_used [of n "mu_ls mu" key i] that wf by (simp add: unit_wf_def)
  then show ?thesis by (intro that [OF l]) (auto split: option.splits)
qed


text \<open>
  An addition that the match unit refuses has already taken its reference: the table is unchanged, but from
  then on the member cannot be deleted although nothing refers to it.
\<close>

theorem failed_add_leaks:
  assumes inv: "unit_wf (exact_inv n) (key_len n) exact_holds word_cap n (mt_unit mt)" "ap_inv (entry_refs (mt_unit mt)) ap"
    and m: "m \<in> mbr_handles ap" "entry_refs (mt_unit mt) m = 0" "\<forall>g \<in> grp_handles ap. m \<notin> grp_mgr ap ! g"
    and refused: "mu_add_entry exact_ops exact_kind now ps m prio (mt_unit mt) = Some (Inl e, mt_unit mt)"
  shows "delete_member m ap \<noteq> Some (Inl MBR_STILL_USED, ap) \<and>
    (\<exists>ap1. mti_add_entry exact_ops exact_kind now ps m prio (mt, ap) = Some (Inl e, mt, ap1) \<and>
       delete_member m ap1 = Some (Inl MBR_STILL_USED, ap1))"
proof -
  have valid: "is_valid_mbr ap m" using m(1) by (simp add: is_valid_mbr_def valid_handle_def)
  note ref = valid_mbr_ref [OF inv(2) valid]
  have none: "groups_of ap m = {}" using m(3) by (auto simp: groups_of_def)
  have room: "entry_refs (mt_unit mt) m + 1 < 2 ^ 31" using m(2) by simp
  obtain rc where rc: "ref_count_increase m ap = Some (ap\<lparr>index_ref_count := rc\<rparr>)"
      "ap_inv ((entry_refs (mt_unit mt))(m := entry_refs (mt_unit mt) m + 1)) (ap\<lparr>index_ref_count := rc\<rparr>)"
    by (rule take_ref [OF inv(2) ref(2) room])
  have "mti_add_entry exact_ops exact_kind now ps m prio (mt, ap) = Some (Inl e, mt, ap\<lparr>index_ref_count := rc\<rparr>)"
    using valid ref(1) rc(1) refused by (simp add: mti_add_entry_def)
  moreover have "delete_member m (ap\<lparr>index_ref_count := rc\<rparr>) = Some (Inl MBR_STILL_USED, ap\<lparr>index_ref_count := rc\<rparr>)"
    using delete_member_inv(1) [OF rc(2), of m] m(1) by simp
  moreover have "delete_member m ap \<noteq> Some (Inl MBR_STILL_USED, ap)"
    using delete_member_inv(1) [OF inv(2), of m] m(1,2) none by simp
  ultimately show ?thesis by blast
qed

text \<open>
  A modification with a bad member is refused after the reference of the old member was dropped: the entry still
  refers to the old member, which can now be deleted, and then every packet that hits the entry fails
  an assertion.
\<close>

theorem failed_modify_frees:
  assumes inv: "unit_wf (exact_inv n) (key_len n) exact_holds word_cap n (mt_unit mt)" "ap_inv (entry_refs (mt_unit mt)) ap"
    and h: "mu_get_value h (mt_unit mt) = Some (Inr m)" "m < 2 ^ 24"
    and m: "entry_refs (mt_unit mt) m = 1" "\<forall>g \<in> grp_handles ap. m \<notin> grp_mgr ap ! g"
    and bad: "m' \<notin> mbr_handles ap"
  shows "\<exists>ap1 ap2. mti_modify_entry h m' (mt, ap) = Some (Inl INVALID_MBR_HANDLE, mt, ap1) \<and>
    delete_member m ap1 = Some (Inr (), ap2) \<and> mu_get_value h (mt_unit mt) = Some (Inr m) \<and> ap_lookup ap2 hash m = None"
proof -
  have none: "groups_of (ap\<lparr>index_ref_count := c\<rparr>) m = {}" for c using m(2) by (auto simp: groups_of_def)
  have "valid_ref ap m" using inv(2) m(1) unfolding ap_inv_def refs_valid_iff by simp
  then have mm: "m \<in> mbr_handles ap" using h(2) by (auto simp: valid_ref_def)
  have pos: "0 < entry_refs (mt_unit mt) m" using m(1) by simp
  obtain rc where rc: "ref_count_decrease m ap = Some (ap\<lparr>index_ref_count := rc\<rparr>)"
      "ap_inv ((entry_refs (mt_unit mt))(m := entry_refs (mt_unit mt) m - 1)) (ap\<lparr>index_ref_count := rc\<rparr>)"
    by (rule drop_ref [OF inv(2) pos])
  let ?ap1 = "ap\<lparr>index_ref_count := rc\<rparr>"
  let ?ap2 = "?ap1\<lparr>mbr_handles := mbr_handles ?ap1 - {m}, num_members := num_members ?ap1 - 1\<rparr>"
  have "mti_modify_entry h m' (mt, ap) = Some (Inl INVALID_MBR_HANDLE, mt, ?ap1)"
    using h(1) rc(1) bad by (simp add: mti_modify_entry_def is_valid_mbr_def valid_handle_def)
  moreover have "delete_member m ?ap1 = Some (Inr (), ?ap2)"
    using delete_member_inv(1) [OF rc(2), of m] mm m(1) none by simp
  moreover have "ap_lookup ?ap2 hash m = None"
    using mbr_index(2,4) [OF h(2)] by (simp add: ap_lookup_def is_valid_mbr_def valid_handle_def)
  ultimately show ?thesis using h(1) by blast
qed

text \<open>
  The default of a table takes no reference: a member set as the default can be deleted, and then
  every packet that misses fails an assertion.
\<close>

theorem default_member_dangles:
  assumes inv: "ap_inv (entry_refs (mt_unit mt)) ap" and m: "m \<in> mbr_handles ap" "entry_refs (mt_unit mt) m = 0"
      "\<forall>g \<in> grp_handles ap. m \<notin> grp_mgr ap ! g"
    and miss: "mu_lookup exact_ops p len now (mt_unit mt) = Some (None, mu)"
  shows "\<exists>mt1 ap1. mti_set_default_member m (mt, ap) = Some (Inr (), mt1, ap) \<and> delete_member m ap = Some (Inr (), ap1) \<and>
    mti_lookup exact_ops p len now hash (mt1, ap1) = None"
proof -
  have valid: "is_valid_mbr ap m" using m(1) by (simp add: is_valid_mbr_def valid_handle_def)
  note ref = valid_mbr_ref [OF inv valid]
  have m24: "m < 2 ^ 24" using ap_invD(3) [OF inv m(1)] by blast
  let ?mt1 = "mt\<lparr>default_index := m, default_set := True\<rparr>"
  let ?ap1 = "ap\<lparr>mbr_handles := mbr_handles ap - {m}, num_members := num_members ap - 1\<rparr>"
  have none: "groups_of ap m = {}" using m(3) by (auto simp: groups_of_def)
  have "mti_set_default_member m (mt, ap) = Some (Inr (), ?mt1, ap)"
    using valid ref(1) by (simp add: mti_set_default_member_def)
  moreover have "delete_member m ap = Some (Inr (), ?ap1)"
    using delete_member_inv(1) [OF inv, of m] m(1,2) none by simp
  moreover have "ap_lookup ?ap1 hash m = None"
    using mbr_index(2,4) [OF m24] by (simp add: ap_lookup_def is_valid_mbr_def valid_handle_def)
  then have "mti_lookup exact_ops p len now hash (?mt1, ?ap1) = None" using miss by (simp add: mti_lookup_def)
  ultimately show ?thesis by blast
qed

section \<open>Properties of simple tables\<close>

inductive simple_step ::
  "('s, 'e match_key_scheme) lookup_ops \<Rightarrow> 'e match_key_scheme key_kind \<Rightarrow> ('s, 'e) simple_table \<Rightarrow> ('s, 'e) simple_table \<Rightarrow> bool"
  for ops kk where
  ss_add: "mt_add_entry ops kk now ps f d prio mt = Some (r, mt') \<Longrightarrow> simple_step ops kk mt mt'"
| ss_delete: "mt_delete_entry ops h mt = Some (e, mt') \<Longrightarrow> simple_step ops kk mt mt'"
| ss_modify: "mt_modify_entry h f d mt = Some (e, mt') \<Longrightarrow> simple_step ops kk mt mt'"
| ss_default: "mt_set_default_action f d mt = Some (e, mt') \<Longrightarrow> simple_step ops kk mt mt'"
| ss_packet: "mt_lookup ops p len now mt = Some (x, mt') \<Longrightarrow> simple_step ops kk mt mt'"
| ss_ttl: "table_set_ttl now h ttl mt = Some (e, mt') \<Longrightarrow> simple_step ops kk mt mt'"
| ss_write: "table_write_counters h b q mt = Some (e, mt') \<Longrightarrow> simple_step ops kk mt mt'"
| ss_reset: "simple_step ops kk mt (snd (table_reset_counters mt))"

definition same_constants :: "('s, 'k) match_table \<Rightarrow> ('s, 'k) match_table \<Rightarrow> bool" where
  "same_constants mt mt' \<longleftrightarrow>
     immutable_entries mt' = immutable_entries mt \<and> const_default_entry mt' = const_default_entry mt \<and>
     const_default_action mt' = const_default_action mt \<and>
     (immutable_entries mt \<longrightarrow> mu_handles (mt_unit mt') = mu_handles (mt_unit mt) \<and> mu_entries (mt_unit mt') = mu_entries (mt_unit mt)) \<and>
     (const_default_entry mt \<longrightarrow> default_entry mt' = default_entry mt) \<and>
     (const_default_action mt \<noteq> None \<and> afe_fn (ae_fn (default_entry mt)) = const_default_action mt \<longrightarrow>
        afe_fn (ae_fn (default_entry mt')) = const_default_action mt)"

lemma ttl_keeps_entries:
  assumes "set_entry_ttl now h ttl mu = Some (r, mu')"
  shows "mu_handles mu' = mu_handles mu" "mu_entries mu' = mu_entries mu"
  using assms by (auto simp: set_entry_ttl_def bind_eq_Some_iff Let_def split: if_splits)

lemma simple_step_constants: "simple_step ops kk mt mt' \<Longrightarrow> same_constants mt mt'"
proof (induction rule: simple_step.induct)
  case (ss_default f d mt e mt')
  then show ?case
    by (auto simp: mt_set_default_action_def same_constants_def new_action_entry_def bind_eq_Some_iff split: if_splits)
next
  case (ss_packet p len now mt x mt')
  then show ?case
    using lookup_keeps_entries(1,2) [of ops p len now "mt_unit mt"]
    by (auto simp: mt_lookup_def same_constants_def bind_eq_Some_iff)
next
  case (ss_ttl now h ttl mt e mt')
  then show ?case
    using ttl_keeps_entries [of now h ttl "mt_unit mt"] by (auto simp: table_set_ttl_def same_constants_def bind_eq_Some_iff split: if_splits)
qed (auto simp: mt_add_entry_def mt_delete_entry_def mt_modify_entry_def table_write_counters_def table_reset_counters_def
    mu_reset_counters_def same_constants_def bind_eq_Some_iff split: if_splits)

text \<open>
  Whatever clients call and packets come, a table with constant entries keeps them, a constant default entry
  stays, and a constant default action keeps its function.
\<close>

theorem constants_kept:
  assumes "(simple_step ops kk)\<^sup>*\<^sup>* mt mt'"
  shows "(immutable_entries mt \<longrightarrow> mu_handles (mt_unit mt') = mu_handles (mt_unit mt) \<and> mu_entries (mt_unit mt') = mu_entries (mt_unit mt)) \<and>
    (const_default_entry mt \<longrightarrow> default_entry mt' = default_entry mt) \<and>
    (const_default_action mt = Some f \<and> afe_fn (ae_fn (default_entry mt)) = Some f \<longrightarrow> afe_fn (ae_fn (default_entry mt')) = Some f)"
proof -
  have "same_constants mt mt'"
    using assms
  proof (induction rule: rtranclp_induct)
    case base
    show ?case by (simp add: same_constants_def)
  next
    case (step y z)
    then have "same_constants y z" using simple_step_constants by blast
    then show ?case using step.IH by (simp add: same_constants_def)
  qed
  then show ?thesis by (simp add: same_constants_def)
qed

text \<open>
  The counters of a handle are read without its version: a handle whose entry was deleted is refused for the
  entry, but gives the counters of the entry that took the slot.
\<close>

theorem expired_handle_reads_counters:
  assumes wf: "unit_wf (exact_inv n) (key_len n) exact_holds word_cap n (mt_unit mt)"
    and del: "mt_delete_entry exact_ops h mt = Some (Inr (), mt1)"
    and add: "mt_add_entry exact_ops exact_kind now ps f d prio mt1 = Some (Inr h', mt2)"
    and slot: "HANDLE_INTERNAL h' = HANDLE_INTERNAL h" and cnt: "with_counters mt"
  shows "mu_get_value h (mt_unit mt2) = Some (Inl EXPIRED_HANDLE) \<and>
    (\<exists>c. table_query_counters h' mt2 = Some (Inr c) \<and> table_query_counters h mt2 = Some (Inr c))"
proof -
  obtain mu1 where d: "mu_delete_entry exact_ops h (mt_unit mt) = Some (Inr (), mu1)" "mt1 = mt\<lparr>mt_unit := mu1\<rparr>"
    using del by (auto simp: mt_delete_entry_def bind_eq_Some_iff split: if_splits)
  obtain v mu2 where a: "mu_add_entry exact_ops exact_kind now ps v prio mu1 = Some (Inr h', mu2)" "mt2 = mt1\<lparr>mt_unit := mu2\<rparr>"
    using add d(2) by (auto simp: mt_add_entry_def bind_eq_Some_iff split: if_splits)
  have p: "any_params (mu_builder mu1) ps"
      "\<forall>k. build_entry_from_match_key exact_kind (mu_builder mu1) ps prio = Some (Inr k) \<longrightarrow> always_fits (mu_ls mu1) k"
    by (simp_all add: any_params_def always_fits_def)
  have wf1: "unit_wf (exact_inv n) (key_len n) exact_holds word_cap n mu1"
    using eu.delete_result [OF wf, of h] d(1) by auto
  have wf2: "unit_wf (exact_inv n) (key_len n) exact_holds word_cap n mu2" "HANDLE_INTERNAL h' \<in> mu_handles mu2"
    using eu.add_result [OF wf1 p, of now v] a(1) by auto
  have "mu_get_value h mu2 = Some (Inl EXPIRED_HANDLE)"
    using eu.deleted_handle(2) [OF wf d(1) a(1) p slot] by (simp add: mu_get_value_def)
  moreover have "HANDLE_INTERNAL h' < length (mu_meta mu2)" using wf2 by (auto simp: unit_wf_def)
  ultimately show ?thesis
    using a(2) d(2) cnt wf2(2) slot
    by (simp add: table_query_counters_def mu_valid_handle_def mu_valid_internal_def valid_handle_def get_entry_meta_def)
qed

lemma table_added_lookup:
  assumes wf: "unit_wf (exact_inv n) (key_len n) exact_holds word_cap n (mt_unit mt)"
    and add: "mt_add_entry exact_ops exact_kind t ps f d prio mt = Some (Inr h, mt1)"
    and p: "fields_sized (mu_builder (mt_unit mt)) p"
  shows "\<exists>node r a mt2. get_next_node mt (fn_id f) = Some node \<and> mt_lookup exact_ops p len now mt1 = Some ((r, a), mt2) \<and>
    (r = Some h \<and> a = new_action_entry f d node \<longleftrightarrow> (\<forall>i < length ps. param_matches (mu_builder (mt_unit mt)) p ps i))"
proof -
  obtain node mu1 where a: "get_next_node mt (fn_id f) = Some node"
      "mu_add_entry exact_ops exact_kind t ps (new_action_entry f d node) prio (mt_unit mt) = Some (Inr h, mu1)"
      "mt1 = mt\<lparr>mt_unit := mu1\<rparr>"
    using add by (auto simp: mt_add_entry_def bind_eq_Some_iff split: if_splits)
  obtain x mu2 where l: "mu_lookup exact_ops p len now mu1 = Some (x, mu2)"
      "x = Some (h, new_action_entry f d node) \<longleftrightarrow> (\<forall>i < length ps. param_matches (mu_builder (mt_unit mt)) p ps i)"
    using exact_added_lookup [OF wf a(2) p, of len now] by blast
  define r where "r = map_option fst x"
  define ae where "ae = (case x of None \<Rightarrow> default_entry mt | Some (h, e) \<Rightarrow> e)"
  have run: "mt_lookup exact_ops p len now mt1 = Some ((r, ae), mt\<lparr>mt_unit := mu2\<rparr>)"
    using l(1) a(3) by (cases x) (auto simp: mt_lookup_def r_def ae_def)
  have "r = Some h \<and> ae = new_action_entry f d node \<longleftrightarrow> x = Some (h, new_action_entry f d node)"
    by (cases x) (auto simp: r_def ae_def)
  then show ?thesis using a(1) run l(2) by blast
qed

text \<open>
  C1: After a client added an entry to a table for exact matches whose unit is in a reachable state, a packet gets the handle
  of this entry, its action with its data, and the next node that the table has for the action, iff each of its fields
  agrees with the parameter of that field in the bits of the mask of the field (all bits where the key has no masks).
\<close>

theorem table_added_then_hit:
  assumes wf: "unit_wf (exact_inv n) (key_len n) exact_holds word_cap n (mt_unit mt)"
    and add: "mt_add_entry exact_ops exact_kind t ps f d prio mt = Some (Inr h, mt1)"
    and p: "fields_sized (mu_builder (mt_unit mt)) p"
  shows "\<exists>node r a mt2. get_next_node mt (fn_id f) = Some node \<and> mt_lookup exact_ops p len now mt1 = Some ((r, a), mt2) \<and>
    (r = Some h \<and> a = new_action_entry f d node \<longleftrightarrow> (\<forall>i < length ps. param_matches (mu_builder (mt_unit mt)) p ps i))"
  by (rule table_added_lookup [OF assms])

text \<open>
  Once a slot in use has the version 256, listing the entries of its table fails the assertion that every
  handle can be read.
\<close>

theorem listing_fails_after_wrap:
  assumes wf: "unit_wf (exact_inv n) (key_len n) exact_holds word_cap n (mt_unit mt)"
    and i: "i \<in> mu_handles (mt_unit mt)" "256 \<le> slot_version (mt_unit mt) i"
  shows "mt_get_entries kk now mt = None"
proof (rule ccontr)
  let ?mu = "mt_unit mt"
  assume "mt_get_entries kk now mt \<noteq> None"
  then obtain es hs where e: "entry_handles ?mu = Some hs"
      "map_opt (\<lambda>h. do { r \<leftarrow> mt_get_entry kk now mt h; case r of Inl e \<Rightarrow> None | Inr x \<Rightarrow> Some x }) hs = Some es"
    by (auto simp: mt_get_entries_def all_entries_def bind_eq_Some_iff split: if_splits)
  have "\<forall>j \<in> mu_handles ?mu. j < word_max" using wf by (fastforce simp: unit_wf_def word_max_def)
  then have all: "all_handles (mu_handles ?mu) = Some (sorted_list_of_set (mu_handles ?mu))"
    using eu.wf_finite [OF wf] by (intro all_handles_sorted)
  let ?h = "HANDLE_SET (em_version (mu_meta ?mu ! i)) i"
  have l2: "list_all2 (\<lambda>i h. do { m \<leftarrow> nth_opt (mu_meta ?mu) i; Some (HANDLE_SET (em_version m) i) } = Some h)
      (sorted_list_of_set (mu_handles ?mu)) hs"
    using e(1) all by (simp add: entry_handles_def map_opt_Some_iff)
  have "i \<in> set (sorted_list_of_set (mu_handles ?mu))" using i(1) eu.wf_finite [OF wf] by simp
  then obtain j where j: "j < length (sorted_list_of_set (mu_handles ?mu))" "sorted_list_of_set (mu_handles ?mu) ! j = i"
    unfolding in_set_conv_nth by blast
  from list_all2_nthD [OF l2 j(1)] j(2)
  have "do { m \<leftarrow> nth_opt (mu_meta ?mu) i; Some (HANDLE_SET (em_version m) i) } = Some (hs ! j)" by simp
  moreover have "hs ! j \<in> set hs" using list_all2_lengthD [OF l2] j(1) by simp
  ultimately have "?h \<in> set hs" by (auto simp: bind_eq_Some_iff nth_opt_Some_iff)
  then obtain x where x: "do { r \<leftarrow> mt_get_entry kk now mt ?h; case r of Inl e \<Rightarrow> None | Inr x \<Rightarrow> Some x } = Some x"
    using e(2) unfolding map_opt_Some_iff list_all2_conv_all_nth by (metis in_set_conv_nth)
  have i24: "i < 2 ^ 24" and emv: "em_version (mu_meta ?mu ! i) = slot_version ?mu i mod 256"
    using wf i(1) slot_bound(2) [OF wf, of i] by (auto simp: unit_wf_def slot_version_def)
  have "checked_entry ?mu ?h = Some (Inl EXPIRED_HANDLE)"
    using eu.checked_ok [OF wf, of ?h] handle_parts [OF i24] i emv by simp
  then show False using x by (simp add: mt_get_entry_def mu_get_entry_def)
qed

section \<open>Examples\<close>

definition example_table :: "(exact_map, unit) simple_table" where
  "example_table = set_next_node 7 (Some 3) (mt_new True False (byte_unit empty_action_entry))"

definition example_indirect :: "(exact_map, unit) indirect_table" where
  "example_indirect = set_next_node 7 (Some 3) (mti_new True False (byte_unit 0))"

text \<open>One member and no group.\<close>

definition one_member :: action_profile where
  "one_member = example_profile\<lparr>index_ref_count := \<lparr>mbr_count = [0], grp_count = []\<rparr>, grp_handles := {}, num_groups := 0, grp_mgr := []\<rparr>"

lemma table_units [simp]: "mt_unit example_table = byte_unit empty_action_entry" "mt_unit example_indirect = byte_unit 0"
  by (simp_all add: example_table_def example_indirect_def set_next_node_def mt_new_def mti_new_def common_new_def table_common.defs)

lemma table_parts [simp]: "with_counters example_table" "\<not> immutable_entries example_table" "\<not> default_set example_indirect"
  "get_next_node example_table 7 = Some (Some 3)" "get_next_node (example_table\<lparr>mt_unit := mu'\<rparr>) 7 = Some (Some 3)"
  "get_next_node (example_indirect\<lparr>mt_unit := mu\<rparr>) 7 = Some (Some 3)"
  by (simp_all add: example_table_def example_indirect_def set_next_node_def mt_new_def mti_new_def common_new_def
      table_common.defs get_next_node_def)

lemma no_refs: "entry_refs (byte_unit v0) = (\<lambda>_. 0)"
  by (simp add: byte_unit(2) entry_refs_def value_refs_def fun_eq_iff)

lemma one_member: "profile_step (\<lambda>_. 0, ap_new True) (\<lambda>_. 0, one_member)" "ap_inv (\<lambda>_. 0) one_member"
proof -
  show s: "profile_step (\<lambda>_. 0, ap_new True) (\<lambda>_. 0, one_member)"
    unfolding one_member_def by (rule step_add_member [OF _ example_ops(1)]) (simp add: ap_new_def mgr_new_def)
  show "ap_inv (\<lambda>_. 0) one_member" using profile_step_inv [OF s] new_inv by simp
qed

text \<open>An entry for the byte 7 that refers to the member.\<close>

lemma example_added:
  obtains h mu rc where
    "mti_add_entry exact_ops exact_kind 0 [key_param EXACT [7]] 0 0 (example_indirect, one_member) =
       Some (Inr h, example_indirect\<lparr>mt_unit := mu\<rparr>, one_member\<lparr>index_ref_count := rc\<rparr>)"
    "unit_wf (exact_inv 1) (key_len 1) exact_holds word_cap 1 mu" "mu_builder mu = mu_builder (byte_unit (0 :: nat))"
    "mu_get_value h mu = Some (Inr 0)" "entry_refs mu = (\<lambda>_. 0)(0 := 1)"
    "ap_inv (entry_refs mu) (one_member\<lparr>index_ref_count := rc\<rparr>)"
proof -
  have sz: "0 < mu_size (byte_unit (0 :: nat))" by (simp add: byte_unit(3))
  obtain h mu where a: "mu_add_entry exact_ops exact_kind 0 [key_param EXACT [7]] 0 0 (byte_unit (0 :: nat)) = Some (Inr h, mu)"
    "unit_wf (exact_inv 1) (key_len 1) exact_holds word_cap 1 mu" "mu_builder mu = mu_builder (byte_unit (0 :: nat))"
    "HANDLE_INTERNAL h = 0" "mu_handles mu = {0}" "slot_version mu 0 = slot_version (byte_unit (0 :: nat)) 0"
    "HANDLE_VERSION h = slot_version (byte_unit (0 :: nat)) 0 mod 256"
    by (rule example_first [OF byte_unit(1,2) sz byte_unit(5), of 0]) (rule that)
  have refs: "entry_refs mu = (\<lambda>_. 0)(0 := 1)"
    using add_effect [OF a(1)] by (simp add: byte_unit(2) no_refs)
  have "0 < entry_refs mu 0" by (simp add: refs)
  then have "me_value (mu_entries mu ! 0) = 0"
    unfolding entry_refs_def value_refs_pos [OF eu.wf_finite [OF a(2)]] using a(5) by simp
  then have get: "mu_get_value h mu = Some (Inr 0)"
    using eu.checked_ok [OF a(2), of h] a(4-7) by (simp add: mu_get_value_def byte_unit(4))
  have valid: "is_valid_mbr one_member 0" by (simp add: one_member_def example_profile_def is_valid_mbr_def valid_handle_def)
  note ref = valid_mbr_ref [OF one_member(2) valid]
  obtain rc where rc: "ref_count_increase 0 one_member = Some (one_member\<lparr>index_ref_count := rc\<rparr>)"
      "ap_inv ((\<lambda>_. 0)(0 := 0 + 1)) (one_member\<lparr>index_ref_count := rc\<rparr>)"
    by (rule take_ref [OF one_member(2) ref(2)]) (simp, rule that)
  show ?thesis
    by (rule that [of h mu rc]) (use a rc get refs valid ref(1) in \<open>simp_all add: mti_add_entry_def\<close>)
qed


lemma no_parameters: "mu_add_entry exact_ops exact_kind 0 [] v 0 (byte_unit v0) = Some (Inl BAD_MATCH_KEY, byte_unit v0)"
proof -
  have kb: "kb_wf (mu_builder (byte_unit v0))" "nbytes_key (mu_builder (byte_unit v0)) = 1"
    using byte_unit(1) [of v0] by (simp_all add: unit_wf_def)
  have "length (key_input (mu_builder (byte_unit v0))) = length [key_param EXACT [7]]"
    using byte_unit(5) [of v0] by (auto simp: sane_def match_params_sanity_check_def split: if_splits)
  then have "match_params_sanity_check (mu_builder (byte_unit v0)) [] = Some False"
    by (simp add: match_params_sanity_check_def)
  from eu.build_entry(1) [OF kb this] show ?thesis by (simp add: mu_add_entry_def add_entry_internal_def)
qed

theorem failed_add_leaks_witness:
  "\<exists>ap1. mti_add_entry exact_ops exact_kind 0 [] 0 0 (example_indirect, one_member) = Some (Inl BAD_MATCH_KEY, example_indirect, ap1) \<and>
     delete_member 0 ap1 = Some (Inl MBR_STILL_USED, ap1)"
proof -
  have wf: "unit_wf (exact_inv 1) (key_len 1) exact_holds word_cap 1 (mt_unit example_indirect)"
    unfolding table_units by (rule byte_unit(1))
  have inv: "ap_inv (entry_refs (mt_unit example_indirect)) one_member" by (simp add: no_refs one_member(2))
  have m: "0 \<in> mbr_handles one_member" "\<forall>g \<in> grp_handles one_member. 0 \<notin> grp_mgr one_member ! g"
    by (simp_all add: one_member_def example_profile_def)
  have z: "entry_refs (mt_unit example_indirect) 0 = 0" by (simp add: no_refs)
  have r: "mu_add_entry exact_ops exact_kind 0 [] 0 0 (mt_unit example_indirect) = Some (Inl BAD_MATCH_KEY, mt_unit example_indirect)"
    by (simp add: no_parameters)
  show ?thesis by (rule conjunct2 [OF failed_add_leaks [OF wf inv m(1) z m(2) r]])
qed

theorem failed_modify_frees_witness:
  "\<exists>mt :: (exact_map, unit) indirect_table. \<exists>ap h ap1 ap2. mti_modify_entry h 5 (mt, ap) = Some (Inl INVALID_MBR_HANDLE, mt, ap1) \<and>
     delete_member 0 ap1 = Some (Inr (), ap2) \<and> mu_get_value h (mt_unit mt) = Some (Inr 0) \<and> ap_lookup ap2 None 0 = None"
proof -
  obtain h mu rc where e: "unit_wf (exact_inv 1) (key_len 1) exact_holds word_cap 1 mu"
    "mu_get_value h mu = Some (Inr 0)" "entry_refs mu = (\<lambda>_. 0)(0 := 1)"
    "ap_inv (entry_refs mu) (one_member\<lparr>index_ref_count := rc\<rparr>)"
    by (rule example_added) (rule that)
  let ?mt = "example_indirect\<lparr>mt_unit := mu\<rparr>"
  have inv: "unit_wf (exact_inv 1) (key_len 1) exact_holds word_cap 1 (mt_unit ?mt)"
      "ap_inv (entry_refs (mt_unit ?mt)) (one_member\<lparr>index_ref_count := rc\<rparr>)" using e(1,4) by simp_all
  have get: "mu_get_value h (mt_unit ?mt) = Some (Inr 0)" using e(2) by simp
  have lt: "(0 :: nat) < 2 ^ 24" by simp
  have one: "entry_refs (mt_unit ?mt) 0 = 1" using e(3) by simp
  have none: "\<forall>g \<in> grp_handles (one_member\<lparr>index_ref_count := rc\<rparr>). 0 \<notin> grp_mgr (one_member\<lparr>index_ref_count := rc\<rparr>) ! g"
    and bad: "5 \<notin> mbr_handles (one_member\<lparr>index_ref_count := rc\<rparr>)" by (simp_all add: one_member_def example_profile_def)
  from failed_modify_frees [OF inv get lt one none bad, of None] show ?thesis by blast
qed

theorem default_member_dangles_witness:
  "\<exists>mt1 ap1. mti_set_default_member 0 (example_indirect, one_member) = Some (Inr (), mt1, one_member) \<and>
     delete_member 0 one_member = Some (Inr (), ap1) \<and> mti_lookup exact_ops byte_packet 64 10 None (mt1, ap1) = None"
proof -
  obtain x mu where l: "mu_lookup exact_ops byte_packet 64 10 (byte_unit (0 :: nat)) = Some (x, mu)"
      "\<And>h v. x = Some (h, v) \<Longrightarrow> \<exists>i \<in> mu_handles (byte_unit (0 :: nat)). h = HANDLE_SET (slot_version (byte_unit (0 :: nat)) i) i \<and>
        v = me_value (mu_entries (byte_unit (0 :: nat)) ! i)"
    by (rule exact_lookup_value [OF byte_unit(1,6)]) (rule that)
  have "x = None" using l(2) by (cases x) (auto simp: byte_unit(2))
  then have miss: "mu_lookup exact_ops byte_packet 64 10 (mt_unit example_indirect) = Some (None, mu)" using l(1) by simp
  show ?thesis
    by (rule default_member_dangles [OF _ _ _ _ miss]) (simp_all add: no_refs one_member(2), simp_all add: one_member_def example_profile_def)
qed

theorem constants_kept_witness:
  "\<exists>mt'. mt_delete_entry exact_ops 0 (set_immutable_entries example_table) = Some (Inl IMMUTABLE_TABLE_ENTRIES, mt') \<and>
     mu_entries (mt_unit mt') = mu_entries (mt_unit example_table)"
proof -
  let ?mt = "set_immutable_entries example_table"
  have d: "mt_delete_entry exact_ops 0 ?mt = Some (Inl IMMUTABLE_TABLE_ENTRIES, ?mt)"
    by (simp add: mt_delete_entry_def set_immutable_entries_def)
  have "(simple_step exact_ops exact_kind)\<^sup>*\<^sup>* ?mt ?mt" by (rule r_into_rtranclp, rule ss_delete [OF d])
  from constants_kept [OF this] d show ?thesis by (simp add: set_immutable_entries_def)
qed

theorem expired_handle_reads_counters_witness:
  "\<exists>h. \<exists>mt :: (exact_map, unit) simple_table. mu_get_value h (mt_unit mt) = Some (Inl EXPIRED_HANDLE) \<and>
     (\<exists>c. table_query_counters h mt = Some (Inr c))"
proof -
  let ?u = "byte_unit empty_action_entry"
  have sz: "0 < mu_size ?u" by (simp add: byte_unit(3))
  obtain h mu where a: "mu_add_entry exact_ops exact_kind 0 [key_param EXACT [7]] empty_action_entry 0 ?u = Some (Inr h, mu)"
    "unit_wf (exact_inv 1) (key_len 1) exact_holds word_cap 1 mu" "mu_builder mu = mu_builder ?u"
    "mu_size mu = mu_size ?u" "HANDLE_INTERNAL h = 0" "mu_handles mu = {0}" "slot_version mu 0 = slot_version ?u 0"
    "HANDLE_VERSION h = slot_version ?u 0 mod 256"
    by (rule example_first [OF byte_unit(1,2) sz byte_unit(5), of empty_action_entry]) (rule that)
  have h: "HANDLE_INTERNAL h \<in> mu_handles mu" "HANDLE_VERSION h = slot_version mu (HANDLE_INTERNAL h)"
    using a(5-8) by (simp_all add: byte_unit(4))
  obtain mu1 where d: "mu_delete_entry exact_ops h mu = Some (Inr (), mu1)"
    "unit_wf (exact_inv 1) (key_len 1) exact_holds word_cap 1 mu1" "mu_builder mu1 = mu_builder mu" "mu_size mu1 = mu_size mu"
    "mu_handles mu1 = mu_handles mu - {HANDLE_INTERNAL h}"
    by (rule eu.delete_wf [OF a(2) h]) blast
  have e: "mu_handles mu1 = {}" "0 < mu_size mu1" "sane (mu_builder mu1) [key_param EXACT [7]]"
    using d(3-5) a(3-6) byte_unit(5) [of empty_action_entry] by (simp_all add: byte_unit(3))
  obtain h' mu2 where b: "mu_add_entry exact_ops exact_kind 0 [key_param EXACT [7]] (new_action_entry example_fn [] (Some 3)) 0 mu1 = Some (Inr h', mu2)"
      "HANDLE_INTERNAL h' = 0"
    by (rule example_first [OF d(2) e]) blast
  let ?mt = "example_table\<lparr>mt_unit := mu\<rparr>"
  have wf: "unit_wf (exact_inv 1) (key_len 1) exact_holds word_cap 1 (mt_unit ?mt)" using a(2) by simp
  have 1: "mt_delete_entry exact_ops h ?mt = Some (Inr (), ?mt\<lparr>mt_unit := mu1\<rparr>)"
    using d(1) by (simp add: mt_delete_entry_def)
  have node: "get_next_node (?mt\<lparr>mt_unit := mu1\<rparr>) 7 = Some (Some 3)" by simp
  have 2: "mt_add_entry exact_ops exact_kind 0 [key_param EXACT [7]] example_fn [] 0 (?mt\<lparr>mt_unit := mu1\<rparr>) = Some (Inr h', ?mt\<lparr>mt_unit := mu2\<rparr>)"
    using b(1) node by (simp add: mt_add_entry_def example_fn_def)
  have "HANDLE_INTERNAL h' = HANDLE_INTERNAL h" "with_counters ?mt" using a(5) b(2) by simp_all
  from expired_handle_reads_counters [OF wf 1 2 this] show ?thesis by blast
qed

theorem table_added_then_hit_witness:
  "\<exists>h mt1 mt2. mt_add_entry exact_ops exact_kind 0 [key_param EXACT [7]] example_fn [] 0 example_table = Some (Inr h, mt1) \<and>
     mt_lookup exact_ops byte_packet 64 10 mt1 = Some ((Some h, new_action_entry example_fn [] (Some 3)), mt2)"
proof -
  let ?u = "byte_unit empty_action_entry"
  have sz: "0 < mu_size ?u" by (simp add: byte_unit(3))
  obtain h mu where a: "mu_add_entry exact_ops exact_kind 0 [key_param EXACT [7]] (new_action_entry example_fn [] (Some 3)) 0 ?u = Some (Inr h, mu)"
    by (rule example_first [OF byte_unit(1,2) sz byte_unit(5)]) blast
  have 1: "mt_add_entry exact_ops exact_kind 0 [key_param EXACT [7]] example_fn [] 0 example_table = Some (Inr h, example_table\<lparr>mt_unit := mu\<rparr>)"
    using a by (simp add: mt_add_entry_def example_fn_def)
  have wf: "unit_wf (exact_inv 1) (key_len 1) exact_holds word_cap 1 (mt_unit example_table)"
    unfolding table_units by (rule byte_unit(1))
  have p: "fields_sized (mu_builder (mt_unit example_table)) byte_packet" by (simp add: byte_unit(6))
  have m: "\<forall>i < length [key_param EXACT [7]]. param_matches (mu_builder (mt_unit example_table)) byte_packet [key_param EXACT [7]] i"
    using byte_unit(9) by simp
  obtain node r ae mt2 where t: "get_next_node example_table (fn_id example_fn) = Some node"
      "mt_lookup exact_ops byte_packet 64 10 (example_table\<lparr>mt_unit := mu\<rparr>) = Some ((r, ae), mt2)"
      "r = Some h \<and> ae = new_action_entry example_fn [] node"
    using table_added_then_hit [OF wf 1 p, of 64 10] m by blast
  have "node = Some 3" using t(1) by (simp add: example_fn_def)
  with 1 t show ?thesis by blast
qed

theorem listing_fails_after_wrap_witness:
  "\<exists>mt :: (exact_map, unit) simple_table. mu_handles (mt_unit mt) = {0} \<and> mt_get_entries exact_kind 0 mt = None"
proof -
  let ?u = "byte_unit empty_action_entry"
  have sz: "0 < mu_size ?u" and par: "any_params (mu_builder ?u) [key_param EXACT [7]]" and fit: "\<forall>s k. always_fits s k"
    and v: "slot_version ?u 0 + 256 \<le> 256"
    by (simp_all add: byte_unit(3,4) any_params_def always_fits_def)
  from eu.churn_versions [OF byte_unit(1,2) sz byte_unit(5) par fit v, of empty_action_entry]
  obtain mu where mc: "churn exact_ops exact_kind [key_param EXACT [7]] empty_action_entry 256 ?u = Some mu \<and>
      unit_wf (exact_inv 1) (key_len 1) exact_holds word_cap 1 mu \<and> mu_handles mu = {} \<and> mu_size mu = mu_size ?u \<and>
      mu_builder mu = mu_builder ?u \<and> slot_version mu 0 = slot_version ?u 0 + 256" by (rule exE)
  then have m: "unit_wf (exact_inv 1) (key_len 1) exact_holds word_cap 1 mu" "mu_handles mu = {}" "mu_size mu = mu_size ?u"
      "mu_builder mu = mu_builder ?u" "slot_version mu 0 = slot_version ?u 0 + 256" by - (elim conjE, assumption)+
  have e: "0 < mu_size mu" "sane (mu_builder mu) [key_param EXACT [7]]"
    using m(3,4) byte_unit(5) [of empty_action_entry] by (simp_all add: byte_unit(3))
  obtain h mu1 where a: "mu_add_entry exact_ops exact_kind 0 [key_param EXACT [7]] empty_action_entry 0 mu = Some (Inr h, mu1)"
    "unit_wf (exact_inv 1) (key_len 1) exact_holds word_cap 1 mu1" "mu_builder mu1 = mu_builder mu" "mu_size mu1 = mu_size mu"
    "HANDLE_INTERNAL h = 0" "mu_handles mu1 = {0}" "slot_version mu1 0 = slot_version mu 0" "HANDLE_VERSION h = slot_version mu 0 mod 256"
    by (rule example_first [OF m(1,2) e, of empty_action_entry]) (rule that)
  have wf: "unit_wf (exact_inv 1) (key_len 1) exact_holds word_cap 1 (mt_unit (example_table\<lparr>mt_unit := mu1\<rparr>))" using a(2) by simp
  have "mt_get_entries exact_kind 0 (example_table\<lparr>mt_unit := mu1\<rparr>) = None"
    by (rule listing_fails_after_wrap [OF wf, of 0]) (simp_all add: a(6,7) m(5) byte_unit(4))
  moreover have "mu_handles (mt_unit (example_table\<lparr>mt_unit := mu1\<rparr>)) = {0}" using a(6) by simp
  ultimately show ?thesis by blast
qed

end
