(* ===== verification/Queueing.thy ===== *)
theory Queueing
  imports Prelude "HOL-Library.Multiset"
begin

text \<open>
  Queues between threads: \<^verbatim>\<open>queue.h\<close> and the three classes of \<^verbatim>\<open>queueing.h\<close>: logical queues
  with a capacity that share the queue of a worker thread, the same with a maximum rate for each logical
  queue, and with priorities.  The theorems: first in first out for each logical queue, the capacity and the
  rate are kept, a worker gets every element in the end, and a priority is served only when no higher one
  can be; then where the classes with a rate differ from their documentation.
\<close>

section \<open>Waiting\<close>

text \<open>
  An operation that has to wait gives up the lock of the queue and is tried again after a notification or
  at a time.  It is modelled by one try under the lock: the left injection says what it waits for.
  \<open>UntilTime None\<close> is the largest point in time.  Elements that are copied or moved in are the same.
\<close>

datatype wait = UntilNotFull | UntilNotEmpty | UntilTime "nat option"

section \<open>A single queue\<close>

datatype write_behavior = WriteBlock | WriteReturn

text \<open>The front of a deque is the head of its list.\<close>

record 'a bounded_queue =
  bq_capacity :: nat
  bq_queue :: "'a list"
  bq_wb :: write_behavior

definition bq_new :: "nat \<Rightarrow> write_behavior \<Rightarrow> 'a bounded_queue" where
  "bq_new c wb = \<lparr>bq_capacity = c, bq_queue = [], bq_wb = wb\<rparr>"

definition bq_push_front :: "'a \<Rightarrow> 'a bounded_queue \<Rightarrow> wait + 'a bounded_queue" where
  "bq_push_front x q =
     (if length (bq_queue q) < bq_capacity q then Inr (q\<lparr>bq_queue := x # bq_queue q\<rparr>)
      else if bq_wb q = WriteReturn then Inr q
      else Inl UntilNotFull)"

definition bq_pop_back :: "'a bounded_queue \<Rightarrow> wait + 'a \<times> 'a bounded_queue" where
  "bq_pop_back q =
     (if bq_queue q = [] then Inl UntilNotEmpty else Inr (last (bq_queue q), q\<lparr>bq_queue := butlast (bq_queue q)\<rparr>))"

definition bq_size :: "'a bounded_queue \<Rightarrow> nat" where
  "bq_size q = length (bq_queue q)"

definition bq_set_capacity :: "nat \<Rightarrow> 'a bounded_queue \<Rightarrow> 'a bounded_queue" where
  "bq_set_capacity c q = q\<lparr>bq_capacity := c\<rparr>"

section \<open>Logical queues\<close>

text \<open>\<open>fm\<close> is the functor that maps a logical queue to its worker.\<close>

record queue_info =
  qi_size :: nat
  qi_capacity :: nat

record 'a queueing =
  ql_infos :: "queue_info list"
  ql_workers :: "('a \<times> nat) list list"

definition ql_new :: "nat \<Rightarrow> nat \<Rightarrow> nat \<Rightarrow> 'a queueing" where
  "ql_new nq nw c = \<lparr>ql_infos = replicate nq \<lparr>qi_size = 0, qi_capacity = c\<rparr>, ql_workers = replicate nw []\<rparr>"

definition ql_push_front :: "(nat \<Rightarrow> nat) \<Rightarrow> nat \<Rightarrow> 'a \<Rightarrow> 'a queueing \<Rightarrow> (wait + 'a queueing) option" where
  "ql_push_front fm i x s = do {
     qi \<leftarrow> nth_opt (ql_infos s) i;
     w \<leftarrow> nth_opt (ql_workers s) (fm i);
     Some (if qi_capacity qi \<le> qi_size qi then Inl UntilNotFull
       else Inr (s\<lparr>ql_workers := (ql_workers s)[fm i := (x, i) # w],
         ql_infos := (ql_infos s)[i := qi\<lparr>qi_size := qi_size qi + 1\<rparr>]\<rparr>)) }"

definition ql_pop_back :: "nat \<Rightarrow> 'a queueing \<Rightarrow> (wait + (nat \<times> 'a) \<times> 'a queueing) option" where
  "ql_pop_back wid s = do {
     w \<leftarrow> nth_opt (ql_workers s) wid;
     if w = [] then Some (Inl UntilNotEmpty)
     else do {
       let (x, i) = last w;
       qi \<leftarrow> nth_opt (ql_infos s) i;
       Some (Inr ((i, x), s\<lparr>ql_workers := (ql_workers s)[wid := butlast w],
         ql_infos := (ql_infos s)[i := qi\<lparr>qi_size := qi_size qi - 1\<rparr>]\<rparr>)) } }"

definition ql_size :: "(nat \<Rightarrow> nat) \<Rightarrow> nat \<Rightarrow> 'a queueing \<Rightarrow> nat option" where
  "ql_size fm i s = do { qi \<leftarrow> nth_opt (ql_infos s) i; guard (fm i < length (ql_workers s)); Some (qi_size qi) }"

definition ql_set_capacity :: "(nat \<Rightarrow> nat) \<Rightarrow> nat \<Rightarrow> nat \<Rightarrow> 'a queueing \<Rightarrow> 'a queueing option" where
  "ql_set_capacity fm i c s = do {
     qi \<leftarrow> nth_opt (ql_infos s) i;
     guard (fm i < length (ql_workers s));
     Some (s\<lparr>ql_infos := (ql_infos s)[i := qi\<lparr>qi_capacity := c\<rparr>]\<rparr>) }"

section \<open>Logical queues with a maximum rate\<close>

text \<open>
  Times and delays are nanoseconds.  The priority queue of a worker is the list of its elements in the order in
  which they came; \<open>pick\<close> is \<^verbatim>\<open>std::priority_queue::top\<close>, of which the code uses that it is an
  element with the least time: among equal ones the library may choose any.  \<open>delay\<close> of
  \<open>rl_set_rate\<close> is the value of the floating-point expression for the given rate, whose conversion to
  an integer is undefined for the rate zero.
\<close>

record 'a timed =
  te_elem :: 'a
  te_queue :: nat
  te_send :: nat

locale least_first =
  fixes pick :: "'a timed list \<Rightarrow> 'a timed"
  assumes pick_in: "q \<noteq> [] \<Longrightarrow> pick q \<in> set q"
    and pick_least: "e \<in> set q \<Longrightarrow> te_send (pick q) \<le> te_send e"
begin

lemma pick_size: "q \<noteq> [] \<Longrightarrow> length q = Suc (length (remove1 (pick q) q))"
  using pick_in [of q] by (simp add: length_remove1)

lemma pick_mset: "q \<noteq> [] \<Longrightarrow> mset q = add_mset (pick q) (mset (remove1 (pick q) q))"
  using pick_in [of q] by simp

lemma rest_later: "e \<in> set (remove1 x q) \<Longrightarrow> te_send (pick q) \<le> te_send e"
  by (rule pick_least) (rule subsetD [OF set_remove1_subset])

lemma none_ready: "\<lbrakk>\<not> te_send (pick q) \<le> now; e \<in> set q\<rbrakk> \<Longrightarrow> now < te_send e"
  using pick_least [of e q] by simp

end

text \<open>Two ways to choose among equal ones: the first and the last that came.\<close>

fun first_least :: "'a timed list \<Rightarrow> 'a timed" where
  "first_least [] = undefined"
| "first_least [e] = e"
| "first_least (e # q) = (let f = first_least q in if te_send e \<le> te_send f then e else f)"

fun last_least :: "'a timed list \<Rightarrow> 'a timed" where
  "last_least [] = undefined"
| "last_least [e] = e"
| "last_least (e # q) = (let f = last_least q in if te_send e < te_send f then e else f)"

lemma first_least_in: "q \<noteq> [] \<Longrightarrow> first_least q \<in> set q"
  by (induction q rule: first_least.induct) (auto simp: Let_def)

lemma last_least_in: "q \<noteq> [] \<Longrightarrow> last_least q \<in> set q"
  by (induction q rule: last_least.induct) (auto simp: Let_def)

lemma first_least_le: "e \<in> set q \<Longrightarrow> te_send (first_least q) \<le> te_send e"
  by (induction q rule: first_least.induct) (fastforce simp: Let_def)+

lemma last_least_le: "e \<in> set q \<Longrightarrow> te_send (last_least q) \<le> te_send e"
  by (induction q rule: last_least.induct) (fastforce simp: Let_def)+

interpretation first: least_first first_least
  by unfold_locales (simp_all add: first_least_in first_least_le)

interpretation last: least_first last_least
  by unfold_locales (simp_all add: last_least_in last_least_le)

record rate_info = queue_info +
  ri_rate :: nat
  ri_delay :: nat
  ri_last_sent :: nat

record 'a rate_queueing =
  rl_infos :: "rate_info list"
  rl_workers :: "'a timed list list"

definition rl_new :: "nat \<Rightarrow> nat \<Rightarrow> nat \<Rightarrow> nat \<Rightarrow> 'a rate_queueing" where
  "rl_new now nq nw c = \<lparr>rl_infos = replicate nq \<lparr>qi_size = 0, qi_capacity = c, ri_rate = 0, ri_delay = 0, ri_last_sent = now\<rparr>,
     rl_workers = replicate nw []\<rparr>"

definition get_next_tp :: "nat \<Rightarrow> rate_info \<Rightarrow> nat" where
  "get_next_tp now qi = max now (ri_last_sent qi + ri_delay qi)"

definition rl_push_front :: "(nat \<Rightarrow> nat) \<Rightarrow> nat \<Rightarrow> nat \<Rightarrow> 'a \<Rightarrow> 'a rate_queueing \<Rightarrow> (bool \<times> 'a rate_queueing) option" where
  "rl_push_front fm now i x s = do {
     qi \<leftarrow> nth_opt (rl_infos s) i;
     w \<leftarrow> nth_opt (rl_workers s) (fm i);
     if qi_capacity qi \<le> qi_size qi then Some (False, s)
     else do {
       let t = get_next_tp now qi;
       Some (True, s\<lparr>rl_infos := (rl_infos s)[i := qi\<lparr>ri_last_sent := t, qi_size := qi_size qi + 1\<rparr>],
         rl_workers := (rl_workers s)[fm i := w @ [\<lparr>te_elem = x, te_queue = i, te_send = t\<rparr>]]\<rparr>) } }"

definition rl_pop_back :: "('a timed list \<Rightarrow> 'a timed) \<Rightarrow> nat \<Rightarrow> nat \<Rightarrow> 'a rate_queueing \<Rightarrow> (wait + 'a timed \<times> 'a rate_queueing) option" where
  "rl_pop_back pick now wid s = do {
     w \<leftarrow> nth_opt (rl_workers s) wid;
     if w = [] then Some (Inl UntilNotEmpty)
     else if \<not> te_send (pick w) \<le> now then Some (Inl (UntilTime (Some (te_send (pick w)))))
     else do {
       qi \<leftarrow> nth_opt (rl_infos s) (te_queue (pick w));
       Some (Inr (pick w, s\<lparr>rl_workers := (rl_workers s)[wid := remove1 (pick w) w],
         rl_infos := (rl_infos s)[te_queue (pick w) := qi\<lparr>qi_size := qi_size qi - 1\<rparr>]\<rparr>)) } }"

definition rl_size :: "(nat \<Rightarrow> nat) \<Rightarrow> nat \<Rightarrow> 'a rate_queueing \<Rightarrow> nat option" where
  "rl_size fm i s = do { qi \<leftarrow> nth_opt (rl_infos s) i; guard (fm i < length (rl_workers s)); Some (qi_size qi) }"

definition rl_set_capacity :: "(nat \<Rightarrow> nat) \<Rightarrow> nat \<Rightarrow> nat \<Rightarrow> 'a rate_queueing \<Rightarrow> 'a rate_queueing option" where
  "rl_set_capacity fm i c s = do {
     qi \<leftarrow> nth_opt (rl_infos s) i;
     guard (fm i < length (rl_workers s));
     Some (s\<lparr>rl_infos := (rl_infos s)[i := qi\<lparr>qi_capacity := c\<rparr>]\<rparr>) }"

definition rl_set_rate :: "(nat \<Rightarrow> nat) \<Rightarrow> nat \<Rightarrow> nat \<Rightarrow> nat \<Rightarrow> 'a rate_queueing \<Rightarrow> 'a rate_queueing option" where
  "rl_set_rate fm i pps delay s = do {
     qi \<leftarrow> nth_opt (rl_infos s) i;
     guard (fm i < length (rl_workers s));
     guard (0 < pps);
     Some (s\<lparr>rl_infos := (rl_infos s)[i := qi\<lparr>ri_rate := pps, ri_delay := delay\<rparr>]\<rparr>) }"

section \<open>Priorities\<close>

record pri_info =
  pi_pris :: "rate_info list"
  pi_size :: nat

record 'a pri_worker =
  pw_size :: nat
  pw_queues :: "'a timed list list"

record 'a pri_queueing =
  pq_infos :: "pri_info list"
  pq_workers :: "'a pri_worker list"
  nb_priorities :: nat

definition pri_new :: "nat \<Rightarrow> nat \<Rightarrow> nat \<Rightarrow> nat \<Rightarrow> nat \<Rightarrow> 'a pri_queueing" where
  "pri_new now nq nw c np = \<lparr>
     pq_infos = replicate nq \<lparr>pi_pris = replicate np \<lparr>qi_size = 0, qi_capacity = c, ri_rate = 0, ri_delay = 0, ri_last_sent = now\<rparr>, pi_size = 0\<rparr>,
     pq_workers = replicate nw \<lparr>pw_size = 0, pw_queues = replicate 32 []\<rparr>, nb_priorities = np\<rparr>"

definition pri_push_front :: "(nat \<Rightarrow> nat) \<Rightarrow> nat \<Rightarrow> nat \<Rightarrow> nat \<Rightarrow> 'a \<Rightarrow> 'a pri_queueing \<Rightarrow> (bool \<times> 'a pri_queueing) option" where
  "pri_push_front fm now i p x s = do {
     qi \<leftarrow> nth_opt (pq_infos s) i;
     w \<leftarrow> nth_opt (pq_workers s) (fm i);
     qp \<leftarrow> nth_opt (pi_pris qi) p;
     if qi_capacity qp \<le> qi_size qp then Some (False, s)
     else do {
       let t = get_next_tp now qp;
       q \<leftarrow> nth_opt (pw_queues w) p;
       Some (True, s\<lparr>
         pq_infos := (pq_infos s)[i := \<lparr>pi_pris = (pi_pris qi)[p := qp\<lparr>ri_last_sent := t, qi_size := qi_size qp + 1\<rparr>],
           pi_size = pi_size qi + 1\<rparr>],
         pq_workers := (pq_workers s)[fm i := \<lparr>pw_size = pw_size w + 1,
           pw_queues = (pw_queues w)[p := q @ [\<lparr>te_elem = x, te_queue = i, te_send = t\<rparr>]]\<rparr>]\<rparr>) } }"

text \<open>The scan of the priorities: the first whose top may be sent, or the least time at which one may.\<close>

definition min_time :: "nat option \<Rightarrow> nat \<Rightarrow> nat option" where
  "min_time next t = (case next of None \<Rightarrow> Some t | Some u \<Rightarrow> Some (min u t))"

fun pri_scan :: "('a timed list \<Rightarrow> 'a timed) \<Rightarrow> nat \<Rightarrow> 'a timed list list \<Rightarrow> nat list \<Rightarrow> nat option \<Rightarrow> (nat option + nat) option" where
  "pri_scan pick now qs [] next = Some (Inl next)"
| "pri_scan pick now qs (p # ps) next = do {
     q \<leftarrow> nth_opt qs p;
     if q = [] then pri_scan pick now qs ps next
     else if te_send (pick q) \<le> now then Some (Inr p)
     else pri_scan pick now qs ps (min_time next (te_send (pick q))) }"

definition pri_pop_back :: "('a timed list \<Rightarrow> 'a timed) \<Rightarrow> nat \<Rightarrow> nat \<Rightarrow> 'a pri_queueing \<Rightarrow> (wait + (nat \<times> 'a timed) \<times> 'a pri_queueing) option" where
  "pri_pop_back pick now wid s = do {
     w \<leftarrow> nth_opt (pq_workers s) wid;
     if pw_size w = 0 then Some (Inl UntilNotEmpty)
     else do {
       r \<leftarrow> pri_scan pick now (pw_queues w) [0..<nb_priorities s] None;
       case r of
         Inl next \<Rightarrow> Some (Inl (UntilTime next))
       | Inr p \<Rightarrow> do {
           q \<leftarrow> nth_opt (pw_queues w) p;
           let e = pick q;
           qi \<leftarrow> nth_opt (pq_infos s) (te_queue e);
           qp \<leftarrow> nth_opt (pi_pris qi) p;
           Some (Inr ((p, e), s\<lparr>
             pq_infos := (pq_infos s)[te_queue e := \<lparr>pi_pris = (pi_pris qi)[p := qp\<lparr>qi_size := qi_size qp - 1\<rparr>], pi_size = pi_size qi - 1\<rparr>],
             pq_workers := (pq_workers s)[wid := w\<lparr>pw_queues := (pw_queues w)[p := remove1 e q]\<rparr>]\<rparr>)) } } }"

definition pri_size :: "(nat \<Rightarrow> nat) \<Rightarrow> nat \<Rightarrow> 'a pri_queueing \<Rightarrow> nat option" where
  "pri_size fm i s = do { qi \<leftarrow> nth_opt (pq_infos s) i; guard (fm i < length (pq_workers s)); Some (pi_size qi) }"

definition pri_size_of :: "(nat \<Rightarrow> nat) \<Rightarrow> nat \<Rightarrow> nat \<Rightarrow> 'a pri_queueing \<Rightarrow> nat option" where
  "pri_size_of fm i p s = do {
     qi \<leftarrow> nth_opt (pq_infos s) i;
     qp \<leftarrow> nth_opt (pi_pris qi) p;
     guard (fm i < length (pq_workers s));
     Some (pi_size qi) }"

definition for_each_q :: "(nat \<Rightarrow> nat) \<Rightarrow> nat \<Rightarrow> (rate_info \<Rightarrow> rate_info) \<Rightarrow> 'a pri_queueing \<Rightarrow> 'a pri_queueing option" where
  "for_each_q fm i f s = do {
     qi \<leftarrow> nth_opt (pq_infos s) i;
     guard (fm i < length (pq_workers s));
     Some (s\<lparr>pq_infos := (pq_infos s)[i := qi\<lparr>pi_pris := map f (pi_pris qi)\<rparr>]\<rparr>) }"

definition for_one_q :: "(nat \<Rightarrow> nat) \<Rightarrow> nat \<Rightarrow> nat \<Rightarrow> (rate_info \<Rightarrow> rate_info) \<Rightarrow> 'a pri_queueing \<Rightarrow> 'a pri_queueing option" where
  "for_one_q fm i p f s = do {
     qi \<leftarrow> nth_opt (pq_infos s) i;
     guard (fm i < length (pq_workers s));
     qp \<leftarrow> nth_opt (pi_pris qi) p;
     Some (s\<lparr>pq_infos := (pq_infos s)[i := qi\<lparr>pi_pris := (pi_pris qi)[p := f qp]\<rparr>]\<rparr>) }"

definition set_capacity_fn :: "nat \<Rightarrow> rate_info \<Rightarrow> rate_info" where
  "set_capacity_fn c qi = qi\<lparr>qi_capacity := c\<rparr>"

definition set_rate_fn :: "nat \<Rightarrow> nat \<Rightarrow> rate_info \<Rightarrow> rate_info" where
  "set_rate_fn pps delay qi = qi\<lparr>ri_rate := pps, ri_delay := delay\<rparr>"

definition pri_set_capacity :: "(nat \<Rightarrow> nat) \<Rightarrow> nat \<Rightarrow> nat \<Rightarrow> 'a pri_queueing \<Rightarrow> 'a pri_queueing option" where
  "pri_set_capacity fm i c = for_each_q fm i (set_capacity_fn c)"

definition pri_set_capacity_of :: "(nat \<Rightarrow> nat) \<Rightarrow> nat \<Rightarrow> nat \<Rightarrow> nat \<Rightarrow> 'a pri_queueing \<Rightarrow> 'a pri_queueing option" where
  "pri_set_capacity_of fm i p c = for_one_q fm i p (set_capacity_fn c)"

definition pri_set_rate :: "(nat \<Rightarrow> nat) \<Rightarrow> nat \<Rightarrow> nat \<Rightarrow> nat \<Rightarrow> 'a pri_queueing \<Rightarrow> 'a pri_queueing option" where
  "pri_set_rate fm i pps delay s = (if pps = 0 then None else for_each_q fm i (set_rate_fn pps delay) s)"

definition pri_set_rate_of :: "(nat \<Rightarrow> nat) \<Rightarrow> nat \<Rightarrow> nat \<Rightarrow> nat \<Rightarrow> nat \<Rightarrow> 'a pri_queueing \<Rightarrow> 'a pri_queueing option" where
  "pri_set_rate_of fm i p pps delay s = (if pps = 0 then None else for_one_q fm i p (set_rate_fn pps delay) s)"


section \<open>First in, first out\<close>

lemma case_sum_iff: "case_sum f g z = y \<longleftrightarrow> (\<exists>a. z = Inl a \<and> f a = y) \<or> (\<exists>b. z = Inr b \<and> g b = y)"
  by (cases z) auto

datatype 'a ql_op = QPush nat 'a | QPop nat | QCapacity nat nat

text \<open>One operation, with the elements it puts in and the ones it takes out; one that has to wait does neither.\<close>

fun ql_exec :: "(nat \<Rightarrow> nat) \<Rightarrow> 'a ql_op \<Rightarrow> 'a queueing \<Rightarrow> ((nat \<times> 'a) list \<times> (nat \<times> 'a) list \<times> 'a queueing) option" where
  "ql_exec fm (QPush i x) s = map_option (case_sum (\<lambda>_. ([], [], s)) (\<lambda>s'. ([(i, x)], [], s'))) (ql_push_front fm i x s)"
| "ql_exec fm (QPop w) s = map_option (case_sum (\<lambda>_. ([], [], s)) (\<lambda>(e, s'). ([], [e], s'))) (ql_pop_back w s)"
| "ql_exec fm (QCapacity i c) s = map_option (\<lambda>s'. ([], [], s')) (ql_set_capacity fm i c s)"

fun ql_run :: "(nat \<Rightarrow> nat) \<Rightarrow> 'a ql_op list \<Rightarrow> 'a queueing \<Rightarrow> ((nat \<times> 'a) list \<times> (nat \<times> 'a) list \<times> 'a queueing) option" where
  "ql_run fm [] s = Some ([], [], s)"
| "ql_run fm (op # ops) s = do {
     (ins, outs, s') \<leftarrow> ql_exec fm op s;
     (inss, outss, s'') \<leftarrow> ql_run fm ops s';
     Some (ins @ inss, outs @ outss, s'') }"

definition of_queue :: "nat \<Rightarrow> (nat \<times> 'a) list \<Rightarrow> 'a list" where
  "of_queue i es = map snd (filter (\<lambda>e. fst e = i) es)"

definition ql_content :: "(nat \<Rightarrow> nat) \<Rightarrow> 'a queueing \<Rightarrow> nat \<Rightarrow> 'a list" where
  "ql_content fm s i = (if fm i < length (ql_workers s)
     then map fst (filter (\<lambda>e. snd e = i) (ql_workers s ! fm i)) else [])"

text \<open>Every element waits at the worker of its queue, and the size of a queue is the number of its elements.\<close>

definition ql_inv :: "(nat \<Rightarrow> nat) \<Rightarrow> 'a queueing \<Rightarrow> bool" where
  "ql_inv fm s \<longleftrightarrow>
     (\<forall>w < length (ql_workers s). \<forall>x i. (x, i) \<in> set (ql_workers s ! w) \<longrightarrow> fm i = w \<and> i < length (ql_infos s)) \<and>
     (\<forall>i < length (ql_infos s). qi_size (ql_infos s ! i) = length (ql_content fm s i))"

lemma of_queue_simps [simp]:
  "of_queue i [] = []"
  "of_queue i (e # es) = (if fst e = i then snd e # of_queue i es else of_queue i es)"
  "of_queue i (es @ fs) = of_queue i es @ of_queue i fs"
  by (simp_all add: of_queue_def)

lemma ql_inv_new: "ql_inv fm (ql_new nq nw c)"
  by (auto simp: ql_inv_def ql_new_def ql_content_def)

lemma ql_new_content: "ql_content fm (ql_new nq nw c) i = []"
  by (simp add: ql_content_def ql_new_def)

lemma ql_push_content:
  assumes "ql_push_front fm i x s = Some (Inr s')" "ql_inv fm s"
  shows "ql_content fm s' j = (if j = i then x # ql_content fm s j else ql_content fm s j)" "ql_inv fm s'"
    "length (ql_infos s') = length (ql_infos s)" "length (ql_workers s') = length (ql_workers s)"
proof -
  have i: "i < length (ql_infos s)" "fm i < length (ql_workers s)"
    and s': "ql_workers s' = (ql_workers s)[fm i := (x, i) # ql_workers s ! fm i]"
      "ql_infos s' = (ql_infos s)[i := (ql_infos s ! i)\<lparr>qi_size := qi_size (ql_infos s ! i) + 1\<rparr>]"
    using assms(1) by (auto simp: ql_push_front_def bind_eq_Some_iff nth_opt_Some_iff split: if_splits)
  have c: "ql_content fm s' j = (if j = i then x # ql_content fm s j else ql_content fm s j)" for j
    using i by (auto simp: ql_content_def s' nth_update_if)
  then show "ql_content fm s' j = (if j = i then x # ql_content fm s j else ql_content fm s j)" .
  show "ql_inv fm s'"
    using assms(2) i unfolding ql_inv_def by (auto simp: c s' nth_update_if split: if_splits)
  show "length (ql_infos s') = length (ql_infos s)" "length (ql_workers s') = length (ql_workers s)"
    by (simp_all add: s')
qed

lemma filter_butlast:
  "xs \<noteq> [] \<Longrightarrow> filter P xs = filter P (butlast xs) @ (if P (last xs) then [last xs] else [])"
  by (subst append_butlast_last_id [symmetric]) (simp_all add: filter_append del: append_butlast_last_id)

lemma ql_pop_content:
  assumes "ql_pop_back w s = Some (Inr ((i, x), s'))" "ql_inv fm s"
  shows "ql_content fm s j = (if j = i then ql_content fm s' j @ [x] else ql_content fm s' j)" "ql_inv fm s'"
    "length (ql_infos s') = length (ql_infos s)" "length (ql_workers s') = length (ql_workers s)"
proof -
  have w: "w < length (ql_workers s)" "ql_workers s ! w \<noteq> []" "last (ql_workers s ! w) = (x, i)" "i < length (ql_infos s)"
    and s': "ql_workers s' = (ql_workers s)[w := butlast (ql_workers s ! w)]"
      "ql_infos s' = (ql_infos s)[i := (ql_infos s ! i)\<lparr>qi_size := qi_size (ql_infos s ! i) - 1\<rparr>]"
    using assms(1) by (auto simp: ql_pop_back_def bind_eq_Some_iff nth_opt_Some_iff Let_def split: if_splits prod.splits)
  from last_in_set [OF w(2)] assms(2) w have fm: "fm i = w"
    by (auto simp: ql_inv_def)
  have c: "ql_content fm s j = (if j = i then ql_content fm s' j @ [x] else ql_content fm s' j)" for j
  proof (cases "fm j = w")
    case True
    with w fm show ?thesis
      by (simp add: ql_content_def s' filter_butlast [OF w(2)])
  qed (use w fm in \<open>auto simp: ql_content_def s' nth_update_if\<close>)
  then show "ql_content fm s j = (if j = i then ql_content fm s' j @ [x] else ql_content fm s' j)" .
  have size: "qi_size (ql_infos s' ! j) = length (ql_content fm s' j)" if "j < length (ql_infos s')" for j
    using assms(2) w(4) that c [of j] by (auto simp: ql_inv_def s' nth_update_if)
  have "fm k = v \<and> k < length (ql_infos s')" if "v < length (ql_workers s')" "(y, k) \<in> set (ql_workers s' ! v)" for v y k
    using assms(2) that in_set_butlastD [of "(y, k)" "ql_workers s ! w"]
    by (auto simp: ql_inv_def s' nth_update_if split: if_splits)
  with size show "ql_inv fm s'"
    by (simp add: ql_inv_def)
  show "length (ql_infos s') = length (ql_infos s)" "length (ql_workers s') = length (ql_workers s)"
    by (simp_all add: s')
qed

lemma ql_exec_content:
  assumes "ql_exec fm op s = Some (ins, outs, s')" "ql_inv fm s"
  shows "of_queue i outs @ rev (ql_content fm s' i) = rev (ql_content fm s i) @ of_queue i ins \<and> ql_inv fm s' \<and>
    length (ql_infos s') = length (ql_infos s) \<and> length (ql_workers s') = length (ql_workers s)"
proof (cases op)
  case (QPush j x)
  with assms(1) consider "ins = []" "outs = []" "s' = s"
    | s2 where "ql_push_front fm j x s = Some (Inr s2)" "ins = [(j, x)]" "outs = []" "s' = s2"
    by (auto simp: case_sum_iff)
  then show ?thesis
    using assms(2) by cases (simp_all add: ql_push_content [OF _ assms(2)])
next
  case (QPop w)
  with assms(1) consider "ins = []" "outs = []" "s' = s"
    | k x s2 where "ql_pop_back w s = Some (Inr ((k, x), s2))" "ins = []" "outs = [(k, x)]" "s' = s2"
    by (auto simp: case_sum_iff)
  then show ?thesis
  proof cases
    case 2
    with ql_pop_content [OF 2(1) assms(2)] show ?thesis by simp
  qed (use assms(2) in simp)
next
  case (QCapacity j c)
  with assms have eq: "ins = []" "outs = []" and s': "s' = s\<lparr>ql_infos := (ql_infos s)[j := (ql_infos s ! j)\<lparr>qi_capacity := c\<rparr>]\<rparr>"
    by (auto simp: ql_set_capacity_def bind_eq_Some_iff nth_opt_Some_iff if_Some_iff)
  have c: "ql_content fm s' k = ql_content fm s k" for k
    by (simp add: ql_content_def s')
  have "ql_inv fm s'"
    unfolding ql_inv_def c using assms(2) by (simp add: ql_inv_def s' nth_update_if)
  then show ?thesis by (simp add: c eq) (simp add: s')
qed

lemma ql_run_content:
  assumes "ql_run fm ops s = Some (ins, outs, s')" "ql_inv fm s"
  shows "of_queue i outs @ rev (ql_content fm s' i) = rev (ql_content fm s i) @ of_queue i ins \<and> ql_inv fm s' \<and>
    length (ql_infos s') = length (ql_infos s) \<and> length (ql_workers s') = length (ql_workers s)"
  using assms
proof (induction ops arbitrary: s ins outs)
  case (Cons op ops)
  then obtain a b s1 as bs where step: "ql_exec fm op s = Some (a, b, s1)"
    and rest: "ql_run fm ops s1 = Some (as, bs, s')" and eq: "ins = a @ as" "outs = b @ bs"
    by (auto simp: bind_eq_Some_iff)
  note 1 = ql_exec_content [OF step Cons.prems(2), of i]
  note 2 = Cons.IH [OF rest]
  from 1 2 have "of_queue i bs @ rev (ql_content fm s' i) = rev (ql_content fm s1 i) @ of_queue i as"
    "ql_inv fm s'" "length (ql_infos s') = length (ql_infos s1)" "length (ql_workers s') = length (ql_workers s1)"
    by auto
  with 1 show ?case by (simp add: eq)
qed simp

text \<open>
  C11: Logical queues share the queue of a worker, and whatever producers, consumers and changes of capacities do,
  what came out of each logical queue followed by what is in it is what went in, in that order; the
  reported size is the number of elements still in it.
\<close>

theorem logical_queues_fifo:
  assumes "ql_run fm ops (ql_new nq nw c) = Some (ins, outs, s)"
  shows "of_queue i ins = of_queue i outs @ rev (ql_content fm s i) \<and>
    (i < nq \<and> fm i < nw \<longrightarrow> ql_size fm i s = Some (length (ql_content fm s i)))"
proof -
  note r = ql_run_content [OF assms ql_inv_new]
  from r [of i] have "of_queue i ins = of_queue i outs @ rev (ql_content fm s i)"
    by (simp add: ql_new_content)
  with r [of i] show ?thesis
    by (auto simp: ql_size_def ql_inv_def ql_new_def)
qed

lemma logical_queues_fifo_witness:
  "ql_run (\<lambda>i. i mod 2) [QPush 0 10, QPush 2 20, QPush 0 (30 :: nat), QPop 0, QPop 1, QPop 0] (ql_new 4 2 8) =
     Some ([(0, 10), (2, 20), (0, 30)], [(0, 10), (2, 20)],
       \<lparr>ql_infos = [\<lparr>qi_size = 1, qi_capacity = 8\<rparr>, \<lparr>qi_size = 0, qi_capacity = 8\<rparr>, \<lparr>qi_size = 0, qi_capacity = 8\<rparr>, \<lparr>qi_size = 0, qi_capacity = 8\<rparr>],
        ql_workers = [[(30, 0)], []]\<rparr>) \<and>
   of_queue 0 [(0, 10), (2, 20), (0, 30)] = of_queue 0 [(0, 10 :: nat), (2, 20)] @ [30]"
proof -
  let ?s = "\<lparr>ql_infos = [\<lparr>qi_size = 1, qi_capacity = 8\<rparr>, \<lparr>qi_size = 0, qi_capacity = 8\<rparr>, \<lparr>qi_size = 0, qi_capacity = 8\<rparr>, \<lparr>qi_size = 0, qi_capacity = 8\<rparr>],
        ql_workers = [[(30 :: nat, 0)], []]\<rparr>"
  have run: "ql_run (\<lambda>i. i mod 2) [QPush 0 10, QPush 2 20, QPush 0 (30 :: nat), QPop 0, QPop 1, QPop 0] (ql_new 4 2 8) =
     Some ([(0, 10), (2, 20), (0, 30)], [(0, 10), (2, 20)], ?s)"
    by (simp add: ql_new_def ql_push_front_def ql_pop_back_def replicate_expand nth_opt_def)
  from logical_queues_fifo [OF run, of 0] run show ?thesis
    by (simp add: ql_content_def)
qed

section \<open>The rate is a maximum\<close>

datatype 'a rl_op = RPush nat 'a | RPop nat | RCapacity nat nat | RRate nat nat nat

text \<open>
  One operation at a time of the clock, with the choice among equal elements that the library makes in it:
  the elements that are put in and the ones that are taken out.
\<close>

type_synonym 'a rl_step = "nat \<times> ('a timed list \<Rightarrow> 'a timed) \<times> 'a rl_op"

fun rl_exec :: "(nat \<Rightarrow> nat) \<Rightarrow> 'a rl_step \<Rightarrow> 'a rate_queueing \<Rightarrow> ((nat \<times> 'a) list \<times> 'a timed list \<times> 'a rate_queueing) option" where
  "rl_exec fm (now, pick, RPush i x) s = map_option (\<lambda>(ok, s'). (if ok then [(i, x)] else [], [], s')) (rl_push_front fm now i x s)"
| "rl_exec fm (now, pick, RPop w) s = map_option (case_sum (\<lambda>_. ([], [], s)) (\<lambda>(e, s'). ([], [e], s'))) (rl_pop_back pick now w s)"
| "rl_exec fm (now, pick, RCapacity i c) s = map_option (\<lambda>s'. ([], [], s')) (rl_set_capacity fm i c s)"
| "rl_exec fm (now, pick, RRate i pps delay) s = map_option (\<lambda>s'. ([], [], s')) (rl_set_rate fm i pps delay s)"

fun rl_run :: "(nat \<Rightarrow> nat) \<Rightarrow> 'a rl_step list \<Rightarrow> 'a rate_queueing \<Rightarrow> ((nat \<times> 'a) list \<times> 'a timed list \<times> 'a rate_queueing) option" where
  "rl_run fm [] s = Some ([], [], s)"
| "rl_run fm (st # sts) s = do {
     (ins, outs, s') \<leftarrow> rl_exec fm st s;
     (inss, outss, s'') \<leftarrow> rl_run fm sts s';
     Some (ins @ inss, outs @ outss, s'') }"

definition rl_waiting :: "'a rate_queueing \<Rightarrow> nat \<Rightarrow> 'a timed multiset" where
  "rl_waiting s i = mset (filter (\<lambda>e. te_queue e = i) (concat (rl_workers s)))"

lemma mset_concat_update:
  "k < length ws \<Longrightarrow> mset (concat (ws[k := v])) + mset (ws ! k) = mset (concat ws) + mset v"
proof (induction ws arbitrary: k)
  case (Cons w ws)
  then show ?case by (cases k) (simp_all add: ac_simps)
qed simp

lemma waiting_update:
  assumes "k < length (rl_workers s)" "rl_workers s' = (rl_workers s)[k := v]"
  shows "rl_waiting s' i + mset (filter (\<lambda>e. te_queue e = i) (rl_workers s ! k)) =
    rl_waiting s i + mset (filter (\<lambda>e. te_queue e = i) v)"
  using arg_cong [OF mset_concat_update [OF assms(1), of v], of "filter_mset (\<lambda>e. te_queue e = i)"]
  by (simp add: rl_waiting_def assms(2))

definition valid_elems :: "'a rate_queueing \<Rightarrow> bool" where
  "valid_elems s \<longleftrightarrow> (\<forall>w \<in> set (rl_workers s). \<forall>e \<in> set w. te_queue e < length (rl_infos s))"

text \<open>What each operation does to the elements that wait, to the time of the last one and to the delay.\<close>

lemma rl_push_effect:
  assumes "rl_push_front fm now i x s = Some (True, s')"
  obtains e where "te_elem e = x" "te_queue e = i" "te_send e = get_next_tp now (rl_infos s ! i)" "i < length (rl_infos s)"
    "fm i < length (rl_workers s)" "rl_workers s' = (rl_workers s)[fm i := rl_workers s ! fm i @ [e]]"
    "\<And>j. rl_waiting s' j = rl_waiting s j + (if j = i then {#e#} else {#})"
    "rl_infos s' = (rl_infos s)[i := (rl_infos s ! i)\<lparr>ri_last_sent := te_send e, qi_size := qi_size (rl_infos s ! i) + 1\<rparr>]"
proof -
  let ?e = "\<lparr>te_elem = x, te_queue = i, te_send = get_next_tp now (rl_infos s ! i)\<rparr>"
  have l: "i < length (rl_infos s)" "fm i < length (rl_workers s)"
    and w: "rl_workers s' = (rl_workers s)[fm i := rl_workers s ! fm i @ [?e]]"
    and q: "rl_infos s' = (rl_infos s)[i := (rl_infos s ! i)\<lparr>ri_last_sent := te_send ?e, qi_size := qi_size (rl_infos s ! i) + 1\<rparr>]"
    using assms by (auto simp: rl_push_front_def bind_eq_Some_iff nth_opt_Some_iff Let_def split: if_splits)
  have "rl_waiting s' j = rl_waiting s j + (if j = i then {#?e#} else {#})" for j
    using waiting_update [OF l(2) w, of j] by simp
  from that [of ?e, OF _ _ _ l w this q] show ?thesis by simp
qed

lemma rl_push_full: "rl_push_front fm now i x s = Some (False, s') \<Longrightarrow> s' = s"
  by (auto simp: rl_push_front_def bind_eq_Some_iff Let_def split: if_splits)

lemma rl_pop_effect:
  assumes "rl_pop_back pick now w s = Some (Inr (e, s'))" "least_first pick"
  shows "w < length (rl_workers s)" "e \<in> set (rl_workers s ! w)" "te_send e \<le> now" "te_queue e < length (rl_infos s)"
    "rl_workers s' = (rl_workers s)[w := remove1 e (rl_workers s ! w)]"
    "rl_waiting s j = rl_waiting s' j + (if te_queue e = j then {#e#} else {#})"
    "rl_infos s' = (rl_infos s)[te_queue e := (rl_infos s ! te_queue e)\<lparr>qi_size := qi_size (rl_infos s ! te_queue e) - 1\<rparr>]"
    "e = pick (rl_workers s ! w)"
proof -
  show w: "w < length (rl_workers s)" and pick: "e = pick (rl_workers s ! w)" and "te_send e \<le> now"
    and i: "te_queue e < length (rl_infos s)" and w': "rl_workers s' = (rl_workers s)[w := remove1 e (rl_workers s ! w)]"
    and "rl_infos s' = (rl_infos s)[te_queue e := (rl_infos s ! te_queue e)\<lparr>qi_size := qi_size (rl_infos s ! te_queue e) - 1\<rparr>]"
    using assms(1) by (auto simp: rl_pop_back_def bind_eq_Some_iff nth_opt_Some_iff split: if_splits)
  have "rl_workers s ! w \<noteq> []"
    using assms(1) w by (auto simp: rl_pop_back_def)
  then show e: "e \<in> set (rl_workers s ! w)"
    using least_first.pick_in [OF assms(2)] by (simp add: pick)
  then have eq: "mset (rl_workers s ! w) = add_mset e (mset (remove1 e (rl_workers s ! w)))" by simp
  have "mset (filter (\<lambda>f. te_queue f = j) (rl_workers s ! w)) =
      mset (filter (\<lambda>f. te_queue f = j) (remove1 e (rl_workers s ! w))) + (if te_queue e = j then {#e#} else {#})"
    by (simp only: mset_filter eq) (simp del: mset_remove1)
  with waiting_update [OF w w', of j] show "rl_waiting s j = rl_waiting s' j + (if te_queue e = j then {#e#} else {#})"
    by (simp del: mset_filter)
qed

lemma rl_set_effect:
  assumes "rl_set_capacity fm i c s = Some s' \<or> rl_set_rate fm i pps delay s = Some s'"
  shows "rl_workers s' = rl_workers s" "length (rl_infos s') = length (rl_infos s)"
    "qi_size (rl_infos s' ! j) = qi_size (rl_infos s ! j)" "ri_last_sent (rl_infos s' ! j) = ri_last_sent (rl_infos s ! j)"
  using assms by (auto simp: rl_set_capacity_def rl_set_rate_def bind_eq_Some_iff nth_opt_Some_iff if_Some_iff nth_update_if)

lemma rl_set_capacity_delay:
  "rl_set_capacity fm i c s = Some s' \<Longrightarrow> ri_delay (rl_infos s' ! j) = ri_delay (rl_infos s ! j)"
  by (auto simp: rl_set_capacity_def bind_eq_Some_iff nth_opt_Some_iff if_Some_iff nth_update_if)

lemma rl_set_rate_delay:
  "rl_set_rate fm i pps delay s = Some s' \<Longrightarrow> j \<noteq> i \<Longrightarrow> ri_delay (rl_infos s' ! j) = ri_delay (rl_infos s ! j)"
  by (auto simp: rl_set_rate_def bind_eq_Some_iff nth_opt_Some_iff if_Some_iff nth_update_if)

text \<open>
  The elements of a queue, those that wait and those that have left, since the time \<open>t\<close>: so many as the delay
  allows, at every time.
\<close>

definition spaced :: "nat \<Rightarrow> nat \<Rightarrow> nat \<Rightarrow> 'a timed multiset \<Rightarrow> 'a rate_queueing \<Rightarrow> bool" where
  "spaced i t d M s \<longleftrightarrow> ri_delay (rl_infos s ! i) = d \<and> t + size M * d \<le> ri_last_sent (rl_infos s ! i) \<and>
     (\<forall>u. size (filter_mset (\<lambda>e. te_send e \<le> u) M) * d \<le> u - t)"

lemma spaced_add:
  assumes "spaced i t d M s" "te_send e = get_next_tp now (rl_infos s ! i)"
    "ri_delay (rl_infos s' ! i) = ri_delay (rl_infos s ! i)" "ri_last_sent (rl_infos s' ! i) = te_send e"
  shows "spaced i t d (add_mset e M) s'"
proof -
  have t: "t + size (add_mset e M) * d \<le> te_send e"
    using assms(1,2) by (auto simp: spaced_def get_next_tp_def)
  have "size (filter_mset (\<lambda>e. te_send e \<le> u) (add_mset e M)) * d \<le> u - t" for u
  proof (cases "te_send e \<le> u")
    case True
    have "size (filter_mset (\<lambda>e. te_send e \<le> u) (add_mset e M)) * d \<le> size (add_mset e M) * d"
      by (intro mult_le_mono1 size_mset_mono multiset_filter_subset)
    with t True show ?thesis by linarith
  next
    case False
    with assms(1) show ?thesis by (simp add: spaced_def)
  qed
  with t assms show ?thesis by (simp add: spaced_def)
qed

lemma rl_exec_spaced:
  assumes "rl_exec fm (now, pick, op) s = Some (ins, outs, s')" "least_first pick"
    and "spaced i t d (M + rl_waiting s i) s" "\<forall>pps delay. op \<noteq> RRate i pps delay"
  shows "spaced i t d (M + mset (filter (\<lambda>e. te_queue e = i) outs) + rl_waiting s' i) s'"
proof (cases op)
  case (RPush j x)
  show ?thesis
  proof (cases "rl_push_front fm now j x s")
    case (Some r)
    obtain ok s2 where r: "r = (ok, s2)" by (cases r)
    show ?thesis
    proof (cases ok)
      case True
      with Some r have "rl_push_front fm now j x s = Some (True, s2)" by simp
      then obtain e where e: "te_queue e = j" "te_send e = get_next_tp now (rl_infos s ! j)" "j < length (rl_infos s)"
        and w: "\<And>k. rl_waiting s2 k = rl_waiting s k + (if k = j then {#e#} else {#})"
        and q: "rl_infos s2 = (rl_infos s)[j := (rl_infos s ! j)\<lparr>ri_last_sent := te_send e, qi_size := qi_size (rl_infos s ! j) + 1\<rparr>]"
        by (rule rl_push_effect) (rule that)
      have s': "outs = []" "s' = s2" using assms(1) RPush Some r by auto
      show ?thesis
      proof (cases "j = i")
        case True
        from spaced_add [OF assms(3), of e now s2] e q show ?thesis
          by (simp add: s' w True)
      next
        case False
        with assms(3) q show ?thesis by (simp add: s' w spaced_def)
      qed
    next
      case False
      with Some r rl_push_full assms RPush show ?thesis by fastforce
    qed
  qed (use assms(1) RPush in simp)
next
  case (RPop w)
  with assms(1) consider "outs = []" "s' = s"
    | e s2 where "rl_pop_back pick now w s = Some (Inr (e, s2))" "outs = [e]" "s' = s2"
    by (auto simp: case_sum_iff)
  then show ?thesis
  proof cases
    case s': 2
    note p = rl_pop_effect [OF s'(1) assms(2)]
    have "ri_delay (rl_infos s2 ! i) = ri_delay (rl_infos s ! i)" "ri_last_sent (rl_infos s2 ! i) = ri_last_sent (rl_infos s ! i)"
      by (simp_all add: p(7) nth_update_if)
    moreover have "M + mset (filter (\<lambda>e. te_queue e = i) outs) + rl_waiting s' i = M + rl_waiting s i"
      by (simp add: s' p(6) [of i])
    ultimately show ?thesis
      using assms(3) unfolding spaced_def s' by metis
  qed (use assms(3) in simp)
next
  case (RCapacity j c)
  with assms have set: "rl_set_capacity fm j c s = Some s'" and "outs = []" by auto
  note eff = rl_set_effect(1) [OF disjI1, OF set] rl_set_effect(4) [OF disjI1, OF set, of i] rl_set_capacity_delay [OF set, of i]
  from assms(3) \<open>outs = []\<close> show ?thesis by (simp add: spaced_def rl_waiting_def eff)
next
  case (RRate j pps delay)
  with assms have set: "rl_set_rate fm j pps delay s = Some s'" and "outs = []" "i \<noteq> j" by auto
  note eff = rl_set_effect(1) [OF disjI2, OF set] rl_set_effect(4) [OF disjI2, OF set, of i] rl_set_rate_delay [OF set \<open>i \<noteq> j\<close>]
  from assms(3) \<open>outs = []\<close> show ?thesis by (simp add: spaced_def rl_waiting_def eff)
qed

lemma rl_run_spaced:
  assumes "rl_run fm sts s = Some (ins, outs, s')" "spaced i t d (M + rl_waiting s i) s"
    and "\<forall>(now, pick, op) \<in> set sts. least_first pick \<and> (\<forall>pps delay. op \<noteq> RRate i pps delay)"
  shows "spaced i t d (M + mset (filter (\<lambda>e. te_queue e = i) outs) + rl_waiting s' i) s'"
  using assms
proof (induction sts arbitrary: s ins outs M)
  case (Cons st sts)
  obtain now pick op where st: "st = (now, pick, op)" by (cases st)
  from Cons.prems(1) obtain a b s1 as bs where step: "rl_exec fm (now, pick, op) s = Some (a, b, s1)"
    and rest: "rl_run fm sts s1 = Some (as, bs, s')" and eq: "ins = a @ as" "outs = b @ bs"
    by (auto simp: bind_eq_Some_iff st)
  from rl_exec_spaced [OF step _ Cons.prems(2)] Cons.prems(3)
  have "spaced i t d (M + mset (filter (\<lambda>e. te_queue e = i) b) + rl_waiting s1 i) s1" by (auto simp: st)
  from Cons.IH [OF rest this] Cons.prems(3) show ?case by (simp add: eq ac_simps)
qed simp

text \<open>What is taken out at the times of a run could be sent by then.\<close>

lemma rl_exec_times:
  assumes "rl_exec fm (now, pick, op) s = Some (ins, outs, s')" "least_first pick" "e \<in> set outs"
  shows "te_send e \<le> now"
proof -
  from assms(1,3) obtain w where "rl_pop_back pick now w s = Some (Inr (e, s'))"
    by (cases op) (auto simp: case_sum_iff split: if_splits)
  then show ?thesis by (rule rl_pop_effect(3)) (rule assms)
qed

lemma rl_run_times:
  assumes "rl_run fm sts s = Some (ins, outs, s')" "\<forall>(now, pick, op) \<in> set sts. least_first pick \<and> now \<le> T" "e \<in> set outs"
  shows "te_send e \<le> T"
  using assms
proof (induction sts arbitrary: s ins outs)
  case (Cons st sts)
  obtain now pick op where st: "st = (now, pick, op)" by (cases st)
  from Cons.prems(1) obtain a b s1 as bs where step: "rl_exec fm (now, pick, op) s = Some (a, b, s1)"
    and rest: "rl_run fm sts s1 = Some (as, bs, s')" and eq: "outs = b @ bs"
    by (auto simp: bind_eq_Some_iff st)
  from Cons.prems(2) have "least_first pick" "now \<le> T" by (auto simp: st)
  with Cons.prems rl_exec_times [OF step, of e] Cons.IH [OF rest] show ?case
    by (auto simp: eq)
qed simp

text \<open>
  C12: From a state in which a logical queue is empty, as long as its rate is not changed, the workers take at most
  one element out of it for each delay that has passed since the last one was sent, whatever is pushed, at
  whatever times of the clock.
\<close>

theorem rate_is_kept:
  assumes "rl_run fm sts s = Some (ins, outs, s')"
    and "\<forall>(now, pick, op) \<in> set sts. least_first pick \<and> now \<le> T \<and> (\<forall>pps delay. op \<noteq> RRate i pps delay)"
    and "\<forall>w \<in> set (rl_workers s). \<forall>e \<in> set w. te_queue e \<noteq> i"
  shows "length (filter (\<lambda>e. te_queue e = i) outs) * ri_delay (rl_infos s ! i) \<le> T - ri_last_sent (rl_infos s ! i)"
proof -
  let ?O = "mset (filter (\<lambda>e. te_queue e = i) outs)"
  have w: "rl_waiting s i = {#}" using assms(3) by (auto simp: rl_waiting_def filter_empty_conv)
  have "spaced i (ri_last_sent (rl_infos s ! i)) (ri_delay (rl_infos s ! i)) ({#} + rl_waiting s i) s"
    by (simp add: spaced_def w)
  from rl_run_spaced [OF assms(1) this] assms(2)
  have sp: "size (filter_mset (\<lambda>e. te_send e \<le> T) (?O + rl_waiting s' i)) * ri_delay (rl_infos s ! i) \<le> T - ri_last_sent (rl_infos s ! i)"
    by (fastforce simp: spaced_def)
  have "filter_mset (\<lambda>e. te_send e \<le> T) ?O = ?O"
    using rl_run_times [OF assms(1), of T] assms(2) by (fastforce simp: filter_mset_eq_conv)
  then have "size ?O \<le> size (filter_mset (\<lambda>e. te_send e \<le> T) (?O + rl_waiting s' i))"
    by (simp del: mset_filter)
  with sp show ?thesis
    by (metis (no_types, lifting) le_trans mult_le_mono1 size_mset)
qed

definition limited_queue :: "nat rate_queueing" where
  "limited_queue = \<lparr>rl_infos = [\<lparr>qi_size = 0, qi_capacity = 8, ri_rate = 100000000, ri_delay = 10, ri_last_sent = 100\<rparr>], rl_workers = [[]]\<rparr>"

lemma rate_is_kept_witness:
  "\<exists>s'. rl_run (\<lambda>i. 0) [(100, first_least, RPush 0 1), (100, first_least, RPush 0 2), (110, first_least, RPop 0),
       (110, first_least, RPop 0), (125, first_least, RPop 0)] limited_queue =
     Some ([(0, 1), (0, 2)], [\<lparr>te_elem = 1, te_queue = 0, te_send = 110\<rparr>, \<lparr>te_elem = 2, te_queue = 0, te_send = 120\<rparr>], s') \<and>
   length [\<lparr>te_elem = 1 :: nat, te_queue = 0, te_send = 110\<rparr>, \<lparr>te_elem = 2, te_queue = 0, te_send = 120\<rparr>] * 10 \<le> 125 - (100 :: nat)"
proof -
  let ?sts = "[(100, first_least, RPush 0 1), (100, first_least, RPush 0 2), (110, first_least, RPop 0),
       (110, first_least, RPop 0), (125, first_least, RPop 0)]"
  let ?outs = "[\<lparr>te_elem = 1, te_queue = 0, te_send = 110\<rparr>, \<lparr>te_elem = 2 :: nat, te_queue = 0, te_send = 120\<rparr>]"
  obtain s' where run: "rl_run (\<lambda>i. 0) ?sts limited_queue = Some ([(0, 1), (0, 2)], ?outs, s')"
    by (simp add: rl_push_front_def rl_pop_back_def nth_opt_def get_next_tp_def limited_queue_def)
  have "length (filter (\<lambda>e. te_queue e = 0) ?outs) * ri_delay (rl_infos limited_queue ! 0) \<le> 125 - ri_last_sent (rl_infos limited_queue ! 0)"
    by (rule rate_is_kept [OF run]) (simp_all add: first.least_first_axioms limited_queue_def)
  with run show ?thesis by (simp add: limited_queue_def)
qed

section \<open>Every element is served\<close>

definition rl_ok :: "'a rate_queueing \<Rightarrow> bool" where
  "rl_ok s \<longleftrightarrow> (\<forall>w < length (rl_workers s). \<forall>e \<in> set (rl_workers s ! w). te_queue e < length (rl_infos s))"

lemma rl_ok_new: "rl_ok (rl_new now nq nw c)"
  by (simp add: rl_ok_def rl_new_def)

lemma rl_exec_ok:
  assumes "rl_exec fm (now, pick, op) s = Some (ins, outs, s')" "least_first pick" "rl_ok s"
  shows "rl_ok s'"
proof (cases op)
  case (RPush i x)
  with assms(1) consider "s' = s" | s2 where "rl_push_front fm now i x s = Some (True, s2)" "s' = s2"
    by (auto split: if_splits dest!: rl_push_full)
  then show ?thesis
  proof cases
    case 2
    from 2(1) obtain e where "te_queue e = i" "i < length (rl_infos s)"
      "rl_workers s2 = (rl_workers s)[fm i := rl_workers s ! fm i @ [e]]"
      "rl_infos s2 = (rl_infos s)[i := (rl_infos s ! i)\<lparr>ri_last_sent := te_send e, qi_size := qi_size (rl_infos s ! i) + 1\<rparr>]"
      by (rule rl_push_effect) blast
    with assms(3) 2(2) show ?thesis by (auto simp: rl_ok_def nth_update_if)
  qed (use assms(3) in simp)
next
  case (RPop w)
  with assms(1) consider "s' = s" | e where "rl_pop_back pick now w s = Some (Inr (e, s'))"
    by (auto simp: case_sum_iff)
  then show ?thesis
  proof cases
    case 2
    note p = rl_pop_effect [OF 2 assms(2)]
    show ?thesis
      using assms(3) p(1) set_remove1_subset [of e "rl_workers s ! w"] by (auto simp: rl_ok_def p(5,7) nth_update_if)
  qed (use assms(3) in simp)
next
  case (RCapacity j c)
  with assms have set: "rl_set_capacity fm j c s = Some s'" by auto
  note eff = rl_set_effect(1,2) [OF disjI1, OF set]
  from assms(3) show ?thesis by (simp add: rl_ok_def eff)
next
  case (RRate j pps delay)
  with assms have set: "rl_set_rate fm j pps delay s = Some s'" by auto
  note eff = rl_set_effect(1,2) [OF disjI2, OF set]
  from assms(3) show ?thesis by (simp add: rl_ok_def eff)
qed

lemma rl_run_ok:
  assumes "rl_run fm sts s = Some (ins, outs, s')" "\<forall>(now, pick, op) \<in> set sts. least_first pick" "rl_ok s"
  shows "rl_ok s'"
  using assms
proof (induction sts arbitrary: s ins outs)
  case (Cons st sts)
  obtain now pick op where st: "st = (now, pick, op)" by (cases st)
  from Cons.prems(1) obtain a b s1 as bs where step: "rl_exec fm (now, pick, op) s = Some (a, b, s1)"
    and rest: "rl_run fm sts s1 = Some (as, bs, s')"
    by (auto simp: bind_eq_Some_iff st)
  with Cons.prems rl_exec_ok [OF step] Cons.IH [OF rest] show ?case by (simp add: st)
qed simp

text \<open>One worker that only takes elements out, late enough.\<close>

lemma rl_pop_ready:
  assumes "rl_ok s" "w < length (rl_workers s)" "rl_workers s ! w \<noteq> []" "least_first pick"
    and "\<forall>e \<in> set (rl_workers s ! w). te_send e \<le> now"
  obtains s' where "rl_pop_back pick now w s = Some (Inr (pick (rl_workers s ! w), s'))"
  using assms least_first.pick_in [OF assms(4,3)]
  by (auto simp: rl_pop_back_def rl_ok_def)

lemma rl_drain:
  assumes "rl_ok s" "w < length (rl_workers s)" "length sts = length (rl_workers s ! w)"
    and "\<forall>(now, pick, op) \<in> set sts. least_first pick \<and> op = RPop w \<and> (\<forall>e \<in> set (rl_workers s ! w). te_send e \<le> now)"
  shows "\<exists>outs s'. rl_run fm sts s = Some ([], outs, s') \<and> mset outs = mset (rl_workers s ! w) \<and> sorted (map te_send outs)"
  using assms
proof (induction sts arbitrary: s)
  case (Cons st sts)
  obtain now pick where st: "st = (now, pick, RPop w)" and pick: "least_first pick"
    and now: "\<forall>e \<in> set (rl_workers s ! w). te_send e \<le> now"
    using Cons.prems(4) by (cases st) auto
  let ?e = "pick (rl_workers s ! w)"
  have ne: "rl_workers s ! w \<noteq> []" using Cons.prems(3) by auto
  obtain s1 where pop: "rl_pop_back pick now w s = Some (Inr (?e, s1))"
    using rl_pop_ready [OF Cons.prems(1,2) ne pick now] .
  note p = rl_pop_effect [OF pop pick]
  have step: "rl_exec fm st s = Some ([], [?e], s1)" by (simp add: st pop)
  have w1: "rl_workers s1 ! w = remove1 ?e (rl_workers s ! w)" using Cons.prems(2) by (simp add: p(5))
  have "\<exists>outs s'. rl_run fm sts s1 = Some ([], outs, s') \<and> mset outs = mset (rl_workers s1 ! w) \<and> sorted (map te_send outs)"
  proof (rule Cons.IH)
    show "rl_ok s1" using rl_exec_ok [OF _ pick Cons.prems(1), of fm now "RPop w"] step by (simp add: st)
    show "length sts = length (rl_workers s1 ! w)"
      using Cons.prems(3) least_first.pick_size [OF pick ne] by (simp add: w1)
    show "\<forall>(now, pick, op) \<in> set sts. least_first pick \<and> op = RPop w \<and> (\<forall>e \<in> set (rl_workers s1 ! w). te_send e \<le> now)"
      using Cons.prems(4) set_remove1_subset [of ?e "rl_workers s ! w"] by (fastforce simp: w1)
  qed (use Cons.prems(2) in \<open>simp add: p(5)\<close>)
  then obtain outs s' where run: "rl_run fm sts s1 = Some ([], outs, s')" and m: "mset outs = mset (rl_workers s1 ! w)"
    and so: "sorted (map te_send outs)" by blast
  have "te_send ?e \<le> te_send e" if "e \<in> set outs" for e
    using that least_first.rest_later [OF pick, of e ?e] mset_eq_setD [OF m] by (simp add: w1)
  moreover have "mset (?e # outs) = mset (rl_workers s ! w)"
    using least_first.pick_mset [OF pick ne] m by (simp add: w1)
  ultimately show ?case
    using so by (intro exI [of _ "?e # outs"] exI [of _ s']) (simp add: step run)
qed simp

text \<open>
  C13: Nothing is lost behind the rate limiter: in every state that operations lead to there is a time after which as
  many calls as elements wait take all of them out, in the order of the times from which they may be sent.
\<close>

theorem waiting_is_served:
  assumes "rl_run fm sts (rl_new t nq nw c) = Some (ins, outs, s)" "\<forall>(now, pick, op) \<in> set sts. least_first pick"
    and "w < length (rl_workers s)"
  shows "\<exists>T. \<forall>pops. length pops = length (rl_workers s ! w) \<and>
      (\<forall>(now, pick, op) \<in> set pops. T \<le> now \<and> least_first pick \<and> op = RPop w) \<longrightarrow>
    (\<exists>served s'. rl_run fm pops s = Some ([], served, s') \<and>
      mset served = mset (rl_workers s ! w) \<and> sorted (map te_send served))"
proof -
  let ?T = "Max (insert 0 (te_send ` set (rl_workers s ! w)))"
  have T: "te_send e \<le> ?T" if "e \<in> set (rl_workers s ! w)" for e
    using that by (intro Max_ge) auto
  have "rl_ok s" by (rule rl_run_ok [OF assms(1,2) rl_ok_new])
  from rl_drain [OF this assms(3)] T le_trans show ?thesis
    by (intro exI [of _ ?T]) fastforce
qed

lemma waiting_is_served_witness:
  "\<exists>s T. rl_run (\<lambda>i. 0) [(5, first_least, RPush 1 (7 :: nat)), (6, first_least, RPush 0 8)] (rl_new 0 2 1 8) = Some ([(1, 7), (0, 8)], [], s) \<and>
     (\<exists>served s'. rl_run (\<lambda>i. 0) [(T, last_least, RPop 0), (T, first_least, RPop 0)] s = Some ([], served, s') \<and>
       mset served = mset (rl_workers s ! 0) \<and> sorted (map te_send served))"
proof -
  obtain s where run: "rl_run (\<lambda>i. 0) [(5, first_least, RPush 1 (7 :: nat)), (6, first_least, RPush 0 8)] (rl_new 0 2 1 8) =
      Some ([(1, 7), (0, 8)], [], s)" and w: "length (rl_workers s) = 1" "length (rl_workers s ! 0) = 2"
    by (simp add: rl_push_front_def nth_opt_def get_next_tp_def rl_new_def replicate_expand)
  have "0 < length (rl_workers s)" by (simp add: w)
  from waiting_is_served [OF run _ this] obtain T where T: "\<forall>pops. length pops = length (rl_workers s ! 0) \<and>
      (\<forall>(now, pick, op) \<in> set pops. T \<le> now \<and> least_first pick \<and> op = RPop 0) \<longrightarrow>
    (\<exists>served s'. rl_run (\<lambda>i. 0) pops s = Some ([], served, s') \<and>
      mset served = mset (rl_workers s ! 0) \<and> sorted (map te_send served))"
    by (auto simp: first.least_first_axioms)
  from T [rule_format, of "[(T, last_least, RPop 0), (T, first_least, RPop 0)]"] run w show ?thesis
    by (intro exI [of _ s] exI [of _ T]) (simp add: first.least_first_axioms last.least_first_axioms)
qed

text \<open>
  A worker need not get the oldest element, as the documentation has it: two elements that are pushed at the
  same time of the clock to queues without a limit have the same time, and the heap may put the younger first.
\<close>

theorem younger_served_first:
  assumes "0 < nq" "0 < nw" "1 < c" "fm 0 = 0"
  shows "\<exists>s. rl_run fm [(t, pick, RPush 0 x), (t, pick, RPush 0 y)] (rl_new t nq nw c) = Some ([(0, x), (0, y)], [], s) \<and>
    least_first last_least \<and>
    (\<exists>s'. rl_pop_back last_least t 0 s = Some (Inr (\<lparr>te_elem = y, te_queue = 0, te_send = t\<rparr>, s')))"
  using assms last.least_first_axioms
  by (simp add: rl_push_front_def rl_pop_back_def nth_opt_def get_next_tp_def rl_new_def)

lemma younger_served_first_witness:
  "\<exists>s. rl_run (\<lambda>i. 0) [(5, first_least, RPush 0 1), (5, first_least, RPush 0 2)] (rl_new 5 1 1 8) = Some ([(0, 1), (0, 2)], [], s) \<and>
    least_first (last_least :: nat timed list \<Rightarrow> nat timed) \<and>
    (\<exists>s'. rl_pop_back last_least 5 0 s = Some (Inr (\<lparr>te_elem = 2 :: nat, te_queue = 0, te_send = 5\<rparr>, s')))"
  by (rule younger_served_first) simp_all

section \<open>Priorities\<close>

lemma upt_split:
  assumes "[0..<n] = pre @ p # post"
  shows "pre = [0..<p]" "p < n"
proof -
  have l: "length pre < n" using arg_cong [OF assms, of length] by simp
  have "[0..<n] ! length pre = p" by (simp add: assms)
  with l have p: "p = length pre" by simp
  with l show "p < n" by simp
  have "take (length pre) [0..<n] = pre" by (simp add: assms)
  with l show "pre = [0..<p]" unfolding p by (simp add: take_upt)
qed

lemma pri_scan_Inr:
  assumes "pri_scan pick now qs ps next = Some (Inr p)" "least_first pick"
  shows "\<exists>pre post. ps = pre @ p # post \<and> p < length qs \<and> qs ! p \<noteq> [] \<and> te_send (pick (qs ! p)) \<le> now \<and>
    (\<forall>p' \<in> set pre. p' < length qs \<and> (\<forall>e \<in> set (qs ! p'). now < te_send e))"
  using assms
proof (induction ps arbitrary: "next")
  case (Cons a ps)
  then have a: "a < length qs" by (auto simp: bind_eq_Some_iff nth_opt_Some_iff)
  show ?case
  proof (cases "qs ! a \<noteq> [] \<and> te_send (pick (qs ! a)) \<le> now")
    case True
    with Cons.prems a show ?thesis by (intro exI [of _ "[]"] exI [of _ ps]) simp
  next
    case False
    with a Cons.prems obtain n where rest: "pri_scan pick now qs ps n = Some (Inr p)"
      by (auto split: if_splits)
    have "\<forall>e \<in> set (qs ! a). now < te_send e"
      using False least_first.none_ready [OF assms(2)] by (cases "qs ! a = []") auto
    with Cons.IH [OF rest assms(2)] a show ?thesis
      by (metis append_Cons set_ConsD)
  qed
qed simp

lemma highest_ready:
  assumes "pri_pop_back pick now w s = Some (Inr ((p, e), s'))" "least_first pick"
  shows "p < nb_priorities s \<and> e \<in> set (pw_queues (pq_workers s ! w) ! p) \<and> te_send e \<le> now \<and>
    (\<forall>f \<in> set (pw_queues (pq_workers s ! w) ! p). te_send e \<le> te_send f) \<and>
    (\<forall>p' < p. \<forall>f \<in> set (pw_queues (pq_workers s ! w) ! p'). now < te_send f)"
proof -
  let ?qs = "pw_queues (pq_workers s ! w)"
  have scan: "pri_scan pick now ?qs [0..<nb_priorities s] None = Some (Inr p)" and e: "e = pick (?qs ! p)"
    using assms(1) by (auto simp: pri_pop_back_def bind_eq_Some_iff nth_opt_Some_iff Let_def case_sum_iff split: if_splits)
  from pri_scan_Inr [OF scan assms(2)] obtain pre post where split: "[0..<nb_priorities s] = pre @ p # post"
    and p: "?qs ! p \<noteq> []" "te_send (pick (?qs ! p)) \<le> now" and pre: "\<forall>p' \<in> set pre. \<forall>f \<in> set (?qs ! p'). now < te_send f"
    by blast
  from split have "pre = [0..<p]" "p < nb_priorities s"
    by (rule upt_split)+
  with p pre e show ?thesis
    using least_first.pick_in [OF assms(2)] least_first.pick_least [OF assms(2)] by simp
qed

text \<open>
  C14: What a worker gets is in a priority queue of which it may be sent now, and every element of a higher priority
  has to wait.
\<close>

theorem highest_ready_priority_served:
  assumes "pri_pop_back pick now w s = Some (Inr ((p, e), s'))" "least_first pick"
  shows "p < nb_priorities s \<and> e \<in> set (pw_queues (pq_workers s ! w) ! p) \<and> te_send e \<le> now \<and>
    (\<forall>f \<in> set (pw_queues (pq_workers s ! w) ! p). te_send e \<le> te_send f) \<and>
    (\<forall>p' < p. \<forall>f \<in> set (pw_queues (pq_workers s ! w) ! p'). now < te_send f)"
  using assms by (rule highest_ready)

text \<open>A queue set in which the priority 0 waits for its rate and the priority 1 does not.\<close>

definition two_priorities :: "nat pri_queueing" where
  "two_priorities = \<lparr>
     pq_infos = [\<lparr>pi_pris = [\<lparr>qi_size = 1, qi_capacity = 8, ri_rate = 1, ri_delay = 100, ri_last_sent = 100\<rparr>,
       \<lparr>qi_size = 1, qi_capacity = 8, ri_rate = 0, ri_delay = 0, ri_last_sent = 5\<rparr>], pi_size = 2\<rparr>],
     pq_workers = [\<lparr>pw_size = 2, pw_queues = [[\<lparr>te_elem = 1, te_queue = 0, te_send = 100\<rparr>], [\<lparr>te_elem = 2, te_queue = 0, te_send = 5\<rparr>]]\<rparr>],
     nb_priorities = 2\<rparr>"

lemma highest_ready_priority_served_witness:
  "\<exists>s'. pri_pop_back first_least 50 0 two_priorities = Some (Inr ((1, \<lparr>te_elem = 2, te_queue = 0, te_send = 5\<rparr>), s')) \<and>
    (\<forall>p' < 1. \<forall>f \<in> set (pw_queues (pq_workers two_priorities ! 0) ! p'). 50 < te_send f)"
proof -
  obtain s' where pop: "pri_pop_back first_least 50 0 two_priorities = Some (Inr ((1, \<lparr>te_elem = 2, te_queue = 0, te_send = 5\<rparr>), s'))"
    by (simp add: pri_pop_back_def two_priorities_def nth_opt_def upt_rec)
  from highest_ready_priority_served [OF pop first.least_first_axioms] pop show ?thesis by blast
qed

section \<open>The sizes that are kept with the priorities\<close>

text \<open>What threads do with a set of queues; operations that wait or fail leave it as it is.\<close>

inductive pri_step :: "(nat \<Rightarrow> nat) \<Rightarrow> 'a pri_queueing \<Rightarrow> 'a pri_queueing \<Rightarrow> bool" for fm where
  push: "pri_push_front fm now i p x s = Some (ok, s') \<Longrightarrow> pri_step fm s s'"
| pop: "\<lbrakk>least_first pick; pri_pop_back pick now w s = Some (Inr (r, s'))\<rbrakk> \<Longrightarrow> pri_step fm s s'"
| set_all: "\<lbrakk>\<And>qi. qi_size (f qi) = qi_size qi; for_each_q fm i f s = Some s'\<rbrakk> \<Longrightarrow> pri_step fm s s'"
| set_one: "\<lbrakk>\<And>qi. qi_size (f qi) = qi_size qi; for_one_q fm i p f s = Some s'\<rbrakk> \<Longrightarrow> pri_step fm s s'"

inductive pri_reach :: "(nat \<Rightarrow> nat) \<Rightarrow> 'a pri_queueing \<Rightarrow> bool" for fm where
  new: "pri_reach fm (pri_new now nq nw c np)"
| step: "\<lbrakk>pri_reach fm s; pri_step fm s s'\<rbrakk> \<Longrightarrow> pri_reach fm s'"

lemma set_capacity_step: "pri_set_capacity fm i c s = Some s' \<Longrightarrow> pri_step fm s s'"
  by (rule pri_step.set_all [where f = "set_capacity_fn c" and i = i]) (simp_all add: set_capacity_fn_def pri_set_capacity_def)

lemma set_capacity_of_step: "pri_set_capacity_of fm i p c s = Some s' \<Longrightarrow> pri_step fm s s'"
  by (rule pri_step.set_one [where f = "set_capacity_fn c" and i = i and p = p]) (simp_all add: set_capacity_fn_def pri_set_capacity_of_def)

lemma set_rate_step: "pri_set_rate fm i pps d s = Some s' \<Longrightarrow> pri_step fm s s'"
  by (rule pri_step.set_all [where f = "set_rate_fn pps d" and i = i]) (simp_all add: set_rate_fn_def pri_set_rate_def split: if_splits)

lemma set_rate_of_step: "pri_set_rate_of fm i p pps d s = Some s' \<Longrightarrow> pri_step fm s s'"
  by (rule pri_step.set_one [where f = "set_rate_fn pps d" and i = i and p = p]) (simp_all add: set_rate_fn_def pri_set_rate_of_def split: if_splits)

text \<open>
  The elements of a logical queue in a worker with a priority; the two sizes are the number of these elements,
  one for each priority and one for all of them.
\<close>

definition pri_elems :: "'a pri_queueing \<Rightarrow> nat \<Rightarrow> nat \<Rightarrow> nat" where
  "pri_elems s i p = length (filter (\<lambda>e. te_queue e = i) (concat (map (\<lambda>w. pw_queues w ! p) (pq_workers s))))"

definition pri_inv :: "'a pri_queueing \<Rightarrow> bool" where
  "pri_inv s \<longleftrightarrow> (\<forall>w \<in> set (pq_workers s). length (pw_queues w) = 32) \<and>
     (\<forall>i < length (pq_infos s). length (pi_pris (pq_infos s ! i)) = nb_priorities s \<and>
       pi_size (pq_infos s ! i) = sum_list (map qi_size (pi_pris (pq_infos s ! i))) \<and>
       (\<forall>p < min 32 (nb_priorities s). qi_size (pi_pris (pq_infos s ! i) ! p) = pri_elems s i p))"

lemma sum_list_map_update:
  fixes g :: "'b \<Rightarrow> nat"
  shows "k < length xs \<Longrightarrow> sum_list (map g (xs[k := x])) + g (xs ! k) = sum_list (map g xs) + g x"
proof (induction xs arbitrary: k)
  case (Cons a xs)
  from Cons.IH [of "k - 1"] Cons.prems show ?case by (cases k) simp_all
qed simp

lemma pri_elems_alt: "pri_elems s i p = sum_list (map (\<lambda>w. length (filter (\<lambda>e. te_queue e = i) (pw_queues w ! p))) (pq_workers s))"
  by (simp add: pri_elems_def filter_concat length_concat o_def)

lemma pri_elems_update:
  assumes "w < length (pq_workers s)" "pq_workers s' = (pq_workers s)[w := v]"
  shows "pri_elems s' i p + length (filter (\<lambda>e. te_queue e = i) (pw_queues (pq_workers s ! w) ! p)) =
    pri_elems s i p + length (filter (\<lambda>e. te_queue e = i) (pw_queues v ! p))"
  using sum_list_map_update [OF assms(1), of "\<lambda>w. length (filter (\<lambda>e. te_queue e = i) (pw_queues w ! p))" v]
  by (simp add: pri_elems_alt assms(2))

lemma pri_inv_new: "pri_inv (pri_new now nq nw c np)"
  by (simp add: pri_inv_def pri_new_def pri_elems_alt sum_list_replicate)

lemma pri_inv_push:
  assumes "pri_push_front fm now i p x s = Some (ok, s')" "pri_inv s"
  shows "pri_inv s'"
proof (cases ok)
  case True
  let ?qi = "pq_infos s ! i" let ?w = "pq_workers s ! fm i" let ?qp = "pi_pris ?qi ! p"
  let ?t = "get_next_tp now ?qp" let ?e = "\<lparr>te_elem = x, te_queue = i, te_send = ?t\<rparr>"
  have l: "i < length (pq_infos s)" "fm i < length (pq_workers s)" "p < length (pi_pris ?qi)" "p < length (pw_queues ?w)"
    and q: "pq_infos s' = (pq_infos s)[i := \<lparr>pi_pris = (pi_pris ?qi)[p := ?qp\<lparr>ri_last_sent := ?t, qi_size := qi_size ?qp + 1\<rparr>],
           pi_size = pi_size ?qi + 1\<rparr>]"
    and w: "pq_workers s' = (pq_workers s)[fm i := \<lparr>pw_size = pw_size ?w + 1, pw_queues = (pw_queues ?w)[p := pw_queues ?w ! p @ [?e]]\<rparr>]"
    and n: "nb_priorities s' = nb_priorities s"
    using assms(1) True by (auto simp: pri_push_front_def bind_eq_Some_iff nth_opt_Some_iff Let_def split: if_splits)
  have el: "pri_elems s' j r = pri_elems s j r + (if j = i \<and> r = p then 1 else 0)" for j r
    using pri_elems_update [OF l(2) w, of j r] l(4) by (auto simp: nth_update_if split: if_splits)
  have sum: "sum_list (map qi_size ((pi_pris ?qi)[p := ?qp\<lparr>ri_last_sent := ?t, qi_size := qi_size ?qp + 1\<rparr>])) =
      sum_list (map qi_size (pi_pris ?qi)) + 1"
    using sum_list_map_update [OF l(3), of qi_size "?qp\<lparr>ri_last_sent := ?t, qi_size := qi_size ?qp + 1\<rparr>"] by simp
  have "\<forall>v \<in> set (pq_workers s'). length (pw_queues v) = 32"
    using assms(2) l(2) by (auto simp: pri_inv_def w dest!: set_update_subset_insert [THEN subsetD])
  with assms(2) l(1,3) sum show ?thesis
    by (simp add: pri_inv_def q n el nth_update_if)
next
  case False
  with assms show ?thesis by (auto simp: pri_push_front_def bind_eq_Some_iff Let_def split: if_splits)
qed

lemma pri_pop_effect:
  assumes "pri_pop_back pick now w s = Some (Inr ((p, e), s'))" "least_first pick"
  shows "te_queue e < length (pq_infos s)" "w < length (pq_workers s)" "p < length (pw_queues (pq_workers s ! w))"
    "p < length (pi_pris (pq_infos s ! te_queue e))" "e \<in> set (pw_queues (pq_workers s ! w) ! p)"
    "pq_infos s' = (pq_infos s)[te_queue e := \<lparr>pi_pris = (pi_pris (pq_infos s ! te_queue e))[p :=
       (pi_pris (pq_infos s ! te_queue e) ! p)\<lparr>qi_size := qi_size (pi_pris (pq_infos s ! te_queue e) ! p) - 1\<rparr>],
       pi_size = pi_size (pq_infos s ! te_queue e) - 1\<rparr>]"
    "pq_workers s' = (pq_workers s)[w := (pq_workers s ! w)\<lparr>pw_queues :=
       (pw_queues (pq_workers s ! w))[p := remove1 e (pw_queues (pq_workers s ! w) ! p)]\<rparr>]"
    "nb_priorities s' = nb_priorities s" "pw_size (pq_workers s ! w) \<noteq> 0"
proof -
  show "e \<in> set (pw_queues (pq_workers s ! w) ! p)"
    using highest_ready [OF assms] by blast
  show "te_queue e < length (pq_infos s)" "w < length (pq_workers s)" "p < length (pw_queues (pq_workers s ! w))"
    "p < length (pi_pris (pq_infos s ! te_queue e))"
    "pq_infos s' = (pq_infos s)[te_queue e := \<lparr>pi_pris = (pi_pris (pq_infos s ! te_queue e))[p :=
       (pi_pris (pq_infos s ! te_queue e) ! p)\<lparr>qi_size := qi_size (pi_pris (pq_infos s ! te_queue e) ! p) - 1\<rparr>],
       pi_size = pi_size (pq_infos s ! te_queue e) - 1\<rparr>]"
    "pq_workers s' = (pq_workers s)[w := (pq_workers s ! w)\<lparr>pw_queues :=
       (pw_queues (pq_workers s ! w))[p := remove1 e (pw_queues (pq_workers s ! w) ! p)]\<rparr>]"
    "nb_priorities s' = nb_priorities s" "pw_size (pq_workers s ! w) \<noteq> 0"
    using assms(1) by (auto simp: pri_pop_back_def bind_eq_Some_iff nth_opt_Some_iff Let_def case_sum_iff split: if_splits)
qed

lemma length_filter_remove1:
  "e \<in> set q \<Longrightarrow> length (filter P q) = length (filter P (remove1 e q)) + (if P e then 1 else 0)"
  by (induction q) auto

lemma pri_inv_pop:
  assumes "pri_pop_back pick now w s = Some (Inr ((p, e), s'))" "least_first pick" "pri_inv s"
  shows "pri_inv s'"
proof -
  note f = pri_pop_effect [OF assms(1,2)]
  let ?i = "te_queue e" let ?qi = "pq_infos s ! ?i" let ?qp = "pi_pris ?qi ! p" let ?q = "pw_queues (pq_workers s ! w) ! p"
  have p: "p < 32" "p < nb_priorities s"
    using assms(3) f(1-4) by (auto simp: pri_inv_def)
  have ne: "length (filter (\<lambda>f. te_queue f = j) ?q) =
      length (filter (\<lambda>f. te_queue f = j) (remove1 e ?q)) + (if j = ?i then 1 else 0)" for j
    using length_filter_remove1 [OF f(5)] by simp
  have el: "pri_elems s j r = pri_elems s' j r + (if j = ?i \<and> r = p then 1 else 0)" for j r
    using pri_elems_update [OF f(2,7), of j r] f(3) ne [of j] by (auto simp: nth_update_if split: if_splits)
  have size: "qi_size ?qp = pri_elems s ?i p"
    using assms(3) f(1) p by (simp add: pri_inv_def)
  with el [of ?i p] have pos: "qi_size ?qp = Suc (pri_elems s' ?i p)" by simp
  let ?qp' = "?qp\<lparr>qi_size := qi_size ?qp - 1\<rparr>"
  have sum: "sum_list (map qi_size ((pi_pris ?qi)[p := ?qp'])) = sum_list (map qi_size (pi_pris ?qi)) - 1"
    using sum_list_map_update [OF f(4), of qi_size ?qp'] by (simp add: pos)
  have "\<forall>v \<in> set (pq_workers s'). length (pw_queues v) = 32"
    using assms(3) f(2) by (auto simp: pri_inv_def f(7) dest!: set_update_subset_insert [THEN subsetD])
  moreover have "qi_size (pi_pris (pq_infos s' ! j) ! r) = pri_elems s' j r" if "j < length (pq_infos s)" "r < min 32 (nb_priorities s)" for j r
    using assms(3) that el [of j r] pos f(4) by (auto simp: pri_inv_def f(6) nth_update_if)
  moreover have "length (pi_pris (pq_infos s' ! j)) = nb_priorities s' \<and> pi_size (pq_infos s' ! j) = sum_list (map qi_size (pi_pris (pq_infos s' ! j)))"
    if "j < length (pq_infos s)" for j
    using assms(3) that sum f(1) by (auto simp: pri_inv_def f(6,8) nth_update_if)
  ultimately show ?thesis
    by (simp add: pri_inv_def f(6,8))
qed

lemma pri_inv_for_each:
  assumes "for_each_q fm i f s = Some s'" "\<And>qi. qi_size (f qi) = qi_size qi" "pri_inv s"
  shows "pri_inv s'"
proof -
  have s': "s' = s\<lparr>pq_infos := (pq_infos s)[i := (pq_infos s ! i)\<lparr>pi_pris := map f (pi_pris (pq_infos s ! i))\<rparr>]\<rparr>"
    using assms(1) by (auto simp: for_each_q_def bind_eq_Some_iff nth_opt_Some_iff if_Some_iff)
  have "pri_elems s' j r = pri_elems s j r" for j r by (simp add: pri_elems_def s')
  moreover have "map qi_size (map f xs) = map qi_size xs" for xs by (simp add: assms(2))
  ultimately show ?thesis
    using assms(3) by (simp add: pri_inv_def s' nth_update_if assms(2) o_def)
qed

lemma pri_inv_for_one:
  assumes "for_one_q fm i p f s = Some s'" "\<And>qi. qi_size (f qi) = qi_size qi" "pri_inv s"
  shows "pri_inv s'"
proof -
  let ?ps = "pi_pris (pq_infos s ! i)"
  have s': "s' = s\<lparr>pq_infos := (pq_infos s)[i := (pq_infos s ! i)\<lparr>pi_pris := ?ps[p := f (?ps ! p)]\<rparr>]\<rparr>"
    using assms(1) by (auto simp: for_one_q_def bind_eq_Some_iff nth_opt_Some_iff if_Some_iff)
  have "pri_elems s' j r = pri_elems s j r" for j r by (simp add: pri_elems_def s')
  moreover have "map qi_size (?ps[p := f (?ps ! p)]) = map qi_size ?ps" by (rule map_update_same) (rule assms(2))
  moreover have "qi_size (?ps[p := f (?ps ! p)] ! r) = qi_size (?ps ! r)" for r by (simp add: nth_update_if assms(2))
  ultimately show ?thesis
    using assms(3) by (simp add: pri_inv_def s' nth_update_if assms(2))
qed

lemma pri_reach_inv: "pri_reach fm s \<Longrightarrow> pri_inv s"
proof (induction rule: pri_reach.induct)
  case (step s s')
  from step(2) step(3) show ?case
    by cases (metis pri_inv_push pri_inv_pop pri_inv_for_each pri_inv_for_one prod.exhaust)+
qed (rule pri_inv_new)

text \<open>
  In every state that threads can lead to, what is reported as the occupancy of one priority of a
  logical queue is that of all its priorities together.
\<close>

theorem priority_size_is_total:
  assumes "pri_reach fm s" "pri_size_of fm i p s = Some n"
  shows "n = (\<Sum>r \<leftarrow> [0..<nb_priorities s]. qi_size (pi_pris (pq_infos s ! i) ! r)) \<and>
    (p < 32 \<longrightarrow> pri_elems s i p \<le> n)"
proof -
  have i: "i < length (pq_infos s)" "p < length (pi_pris (pq_infos s ! i))" "n = pi_size (pq_infos s ! i)"
    using assms(2) by (auto simp: pri_size_of_def bind_eq_Some_iff nth_opt_Some_iff if_Some_iff)
  note iv = pri_reach_inv [OF assms(1)]
  have len: "length (pi_pris (pq_infos s ! i)) = nb_priorities s" and sum: "n = sum_list (map qi_size (pi_pris (pq_infos s ! i)))"
    using iv i(1,3) by (auto simp: pri_inv_def)
  have "map qi_size (pi_pris (pq_infos s ! i)) = map (\<lambda>r. qi_size (pi_pris (pq_infos s ! i) ! r)) [0..<nb_priorities s]"
    by (rule nth_equalityI) (simp_all add: len)
  moreover have "pri_elems s i p \<le> n" if "p < 32"
  proof -
    have "pri_elems s i p = qi_size (pi_pris (pq_infos s ! i) ! p)" using iv i that len by (simp add: pri_inv_def)
    also have "\<dots> \<le> n" unfolding sum using i(2) by (intro member_le_sum_list) simp_all
    finally show ?thesis .
  qed
  ultimately show ?thesis by (simp add: sum)
qed

text \<open>
  When a worker has taken the last of its elements it still counts them: it then waits for the
  largest point in time, not for a queue that is not empty.
\<close>

theorem emptied_worker_waits_for_time:
  assumes "pri_pop_back pick now w s = Some (Inr (r, s'))" "least_first pick" "pri_reach fm s" "nb_priorities s \<le> 32"
    and "\<forall>q \<in> set (pw_queues (pq_workers s' ! w)). q = []"
  shows "pri_pop_back pick' now' w s' = Some (Inl (UntilTime None))"
proof -
  obtain p e where r: "r = (p, e)" by (cases r)
  note f = pri_pop_effect [OF assms(1) [unfolded r] assms(2)]
  have "length (pw_queues (pq_workers s' ! w)) = 32"
    using pri_reach_inv [OF assms(3)] f(2) by (simp add: f(7) pri_inv_def)
  then have "pri_scan pick' now' (pw_queues (pq_workers s' ! w)) ps None = Some (Inl None)" if "\<forall>p \<in> set ps. p < 32" for ps
    using that assms(5) by (induction ps) auto
  from this [of "[0..<nb_priorities s]"] f(2,8,9) assms(4) show ?thesis
    by (simp add: pri_pop_back_def) (simp add: f(7))
qed

text \<open>One element that was pushed with the priority 1.\<close>

definition one_waiting :: "nat pri_queueing" where
  "one_waiting = \<lparr>
     pq_infos = [\<lparr>pi_pris = [\<lparr>qi_size = 0, qi_capacity = 8, ri_rate = 0, ri_delay = 0, ri_last_sent = 3\<rparr>,
       \<lparr>qi_size = 1, qi_capacity = 8, ri_rate = 0, ri_delay = 0, ri_last_sent = 5\<rparr>], pi_size = 1\<rparr>],
     pq_workers = [\<lparr>pw_size = 1, pw_queues = (replicate 32 [])[1 := [\<lparr>te_elem = 7, te_queue = 0, te_send = 5\<rparr>]]\<rparr>],
     nb_priorities = 2\<rparr>"

lemma one_waiting_reach: "pri_reach (\<lambda>i. 0) one_waiting"
proof -
  have "pri_push_front (\<lambda>i. 0) 5 0 1 7 (pri_new 3 1 1 8 2) = Some (True, one_waiting)"
    by (simp add: pri_push_front_def pri_new_def one_waiting_def nth_opt_def get_next_tp_def replicate_expand)
  then show ?thesis by (intro pri_reach.step [OF pri_reach.new pri_step.push])
qed

lemma priority_size_is_total_witness:
  "pri_size_of (\<lambda>i. 0) 0 0 one_waiting = Some 1 \<and> pri_elems one_waiting 0 0 = 0 \<and>
    (1 :: nat) = (\<Sum>r \<leftarrow> [0..<2]. qi_size (pi_pris (pq_infos one_waiting ! 0) ! r))"
proof -
  have size: "pri_size_of (\<lambda>i. 0) 0 0 one_waiting = Some 1"
    by (simp add: pri_size_of_def one_waiting_def nth_opt_def)
  from priority_size_is_total [OF one_waiting_reach size] size show ?thesis
    by (simp add: pri_elems_def one_waiting_def)
qed

lemma emptied_worker_waits_for_time_witness:
  "\<exists>s'. pri_pop_back first_least 6 0 one_waiting = Some (Inr ((1, \<lparr>te_elem = 7, te_queue = 0, te_send = 5\<rparr>), s')) \<and>
    pri_pop_back first_least 9 0 s' = Some (Inl (UntilTime None))"
proof -
  obtain s' where pop: "pri_pop_back first_least 6 0 one_waiting = Some (Inr ((1, \<lparr>te_elem = 7, te_queue = 0, te_send = 5\<rparr>), s'))"
    and e: "\<forall>q \<in> set (pw_queues (pq_workers s' ! 0)). q = []"
    by (simp add: pri_pop_back_def one_waiting_def nth_opt_def upt_rec replicate_expand)
  have "nb_priorities one_waiting \<le> 32" by (simp add: one_waiting_def)
  from emptied_worker_waits_for_time [OF pop first.least_first_axioms one_waiting_reach this e] pop show ?thesis by blast
qed

end
