(* ===== verification/Replication.thy ===== *)
theory Replication
  imports Prelude Handle_Mgr
begin

text \<open>
  The packet replication engine: \<^verbatim>\<open>simple_pre.cpp\<close> with \<^verbatim>\<open>pre.h\<close>, and \<^verbatim>\<open>simple_pre_lag.cpp\<close> that adds link
  aggregation groups.  Multicast groups list the handles of level 1 nodes, each of which has a replication id and
  the handle of a level 2 node with its sets of ports and of aggregation groups.  The theorems: the two tables of
  nodes with their handle managers are one table of nodes, operation by operation; which copies of a packet are
  made; in which states a copy or the removal of a node stops the switch.
\<close>

section \<open>State\<close>

text \<open>A \<^verbatim>\<open>bitset\<close> of 256 elements is a word, whose loops visit the indices from 0 on.\<close>

type_synonym port_set = "256 word"

definition members :: "port_set \<Rightarrow> nat list" where
  "members w = filter (bit w) [0..<256]"

datatype mc_code = SUCCESS | TABLE_FULL | INVALID_MGID | INVALID_L1_HANDLE | ERROR

record mgid_entry =
  me_mgid :: nat
  l1_list :: "nat list"

record l1_entry =
  l1_mgrp_hdl :: nat
  l1_rid :: nat
  l1_l2_hdl :: nat
  is_associated :: bool

record l2_entry =
  l2_l1_hdl :: nat
  l2_port_map :: port_set
  l2_lag_map :: port_set

record simple_pre =
  mgid_entries :: "nat \<rightharpoonup> mgid_entry"
  l1_entries :: "nat \<rightharpoonup> l1_entry"
  l2_entries :: "nat \<rightharpoonup> l2_entry"
  l1_handles :: handle_mgr
  l2_handles :: handle_mgr

definition MGID_TABLE_SIZE :: nat where "MGID_TABLE_SIZE = 4096"
definition L1_MAX_ENTRIES :: nat where "L1_MAX_ENTRIES = 4096"
definition L2_MAX_ENTRIES :: nat where "L2_MAX_ENTRIES = 8192"

definition pre_new :: simple_pre where
  "pre_new = \<lparr>mgid_entries = Map.empty, l1_entries = Map.empty, l2_entries = Map.empty, l1_handles = mgr_new, l2_handles = mgr_new\<rparr>"

section \<open>Operations of clients\<close>

definition mc_mgrp_create :: "nat \<Rightarrow> 'a simple_pre_scheme \<Rightarrow> (mc_code \<times> nat option) \<times> 'a simple_pre_scheme" where
  "mc_mgrp_create g s =
     (if MGID_TABLE_SIZE \<le> card (dom (mgid_entries s)) then ((TABLE_FULL, None), s)
      else ((SUCCESS, Some g), case mgid_entries s g of
          Some e \<Rightarrow> s
        | None \<Rightarrow> s\<lparr>mgid_entries := (mgid_entries s)(g \<mapsto> \<lparr>me_mgid = g, l1_list = []\<rparr>)\<rparr>))"

definition mc_mgrp_destroy :: "nat \<Rightarrow> 'a simple_pre_scheme \<Rightarrow> mc_code \<times> 'a simple_pre_scheme" where
  "mc_mgrp_destroy g s = (SUCCESS, s\<lparr>mgid_entries := (mgid_entries s)(g := None)\<rparr>)"

text \<open>The class with aggregation groups repeats \<^verbatim>\<open>mc_node_create\<close> and \<^verbatim>\<open>mc_node_update\<close> with one more argument.\<close>

definition lag_node_create :: "nat \<Rightarrow> port_set \<Rightarrow> port_set \<Rightarrow> 'a simple_pre_scheme \<Rightarrow> (mc_code \<times> nat option) \<times> 'a simple_pre_scheme" where
  "lag_node_create rid pm lm s =
     (if L1_MAX_ENTRIES \<le> card (dom (l1_entries s)) then ((TABLE_FULL, None), s)
      else if L2_MAX_ENTRIES \<le> card (dom (l2_entries s)) then ((TABLE_FULL, None), s)
      else case get_handle (l1_handles s) of
          None \<Rightarrow> ((ERROR, None), s)
        | Some (h1, H1) \<Rightarrow> (case get_handle (l2_handles s) of
              None \<Rightarrow> ((ERROR, Some h1), s\<lparr>l1_handles := H1\<rparr>)
            | Some (h2, H2) \<Rightarrow> ((SUCCESS, Some h1), s\<lparr>l1_handles := H1, l2_handles := H2,
                l1_entries := (l1_entries s)(h1 \<mapsto> \<lparr>l1_mgrp_hdl = 0, l1_rid = rid, l1_l2_hdl = h2, is_associated = False\<rparr>),
                l2_entries := (l2_entries s)(h2 \<mapsto> \<lparr>l2_l1_hdl = h1, l2_port_map = pm, l2_lag_map = lm\<rparr>)\<rparr>)))"

definition mc_node_create :: "nat \<Rightarrow> port_set \<Rightarrow> 'a simple_pre_scheme \<Rightarrow> (mc_code \<times> nat option) \<times> 'a simple_pre_scheme" where
  "mc_node_create rid pm s = lag_node_create rid pm 0 s"

definition mc_node_associate :: "nat \<Rightarrow> nat \<Rightarrow> 'a simple_pre_scheme \<Rightarrow> (mc_code \<times> 'a simple_pre_scheme) option" where
  "mc_node_associate g h s =
     (if \<not> valid_handle (l1_handles s) h then Some (INVALID_L1_HANDLE, s)
      else case mgid_entries s g of
          None \<Rightarrow> Some (INVALID_MGID, s)
        | Some me \<Rightarrow> do {
            e \<leftarrow> l1_entries s h;
            if is_associated e then Some (ERROR, s)
            else Some (SUCCESS, s\<lparr>mgid_entries := (mgid_entries s)(g \<mapsto> me\<lparr>l1_list := l1_list me @ [h]\<rparr>),
              l1_entries := (l1_entries s)(h \<mapsto> e\<lparr>l1_mgrp_hdl := g, is_associated := True\<rparr>)\<rparr>) })"

definition node_dissociate :: "nat \<Rightarrow> mgid_entry \<Rightarrow> mgid_entry" where
  "node_dissociate h me = me\<lparr>l1_list := filter (\<lambda>k. k \<noteq> h) (l1_list me)\<rparr>"

definition mc_node_dissociate :: "nat \<Rightarrow> nat \<Rightarrow> 'a simple_pre_scheme \<Rightarrow> (mc_code \<times> 'a simple_pre_scheme) option" where
  "mc_node_dissociate g h s =
     (if \<not> valid_handle (l1_handles s) h then Some (INVALID_L1_HANDLE, s)
      else case mgid_entries s g of
          None \<Rightarrow> Some (INVALID_MGID, s)
        | Some me \<Rightarrow> do {
            e \<leftarrow> l1_entries s h;
            if \<not> is_associated e \<or> l1_mgrp_hdl e \<noteq> g then Some (ERROR, s)
            else Some (SUCCESS, s\<lparr>mgid_entries := (mgid_entries s)(g \<mapsto> node_dissociate h me),
              l1_entries := (l1_entries s)(h \<mapsto> e\<lparr>is_associated := False\<rparr>)\<rparr>) })"

definition mc_node_destroy :: "nat \<Rightarrow> 'a simple_pre_scheme \<Rightarrow> (mc_code \<times> 'a simple_pre_scheme) option" where
  "mc_node_destroy h s =
     (if \<not> valid_handle (l1_handles s) h then Some (INVALID_L1_HANDLE, s)
      else do {
        e \<leftarrow> l1_entries s h;
        mgids \<leftarrow> (if is_associated e then do {
            me \<leftarrow> mgid_entries s (l1_mgrp_hdl e);
            Some ((mgid_entries s)(l1_mgrp_hdl e \<mapsto> node_dissociate h me)) }
          else Some (mgid_entries s));
        let (ok2, H2) = release_handle (l2_handles s) (l1_l2_hdl e);
        guard ok2;
        let (ok1, H1) = release_handle (l1_handles s) h;
        guard ok1;
        Some (SUCCESS, s\<lparr>mgid_entries := mgids, l1_entries := (l1_entries s)(h := None),
          l2_entries := (l2_entries s)(l1_l2_hdl e := None), l1_handles := H1, l2_handles := H2\<rparr>) })"

definition mc_node_update :: "nat \<Rightarrow> port_set \<Rightarrow> 'a simple_pre_scheme \<Rightarrow> (mc_code \<times> 'a simple_pre_scheme) option" where
  "mc_node_update h pm s =
     (if \<not> valid_handle (l1_handles s) h then Some (INVALID_L1_HANDLE, s)
      else do {
        e \<leftarrow> l1_entries s h;
        e2 \<leftarrow> l2_entries s (l1_l2_hdl e);
        Some (SUCCESS, s\<lparr>l2_entries := (l2_entries s)(l1_l2_hdl e \<mapsto> e2\<lparr>l2_port_map := pm\<rparr>)\<rparr>) })"

definition lag_node_update :: "nat \<Rightarrow> port_set \<Rightarrow> port_set \<Rightarrow> 'a simple_pre_scheme \<Rightarrow> (mc_code \<times> 'a simple_pre_scheme) option" where
  "lag_node_update h pm lm s =
     (if \<not> valid_handle (l1_handles s) h then Some (INVALID_L1_HANDLE, s)
      else do {
        e \<leftarrow> l1_entries s h;
        e2 \<leftarrow> l2_entries s (l1_l2_hdl e);
        Some (SUCCESS, s\<lparr>l2_entries := (l2_entries s)(l1_l2_hdl e \<mapsto> e2\<lparr>l2_port_map := pm, l2_lag_map := lm\<rparr>)\<rparr>) })"

definition pre_reset_state :: "'a simple_pre_scheme \<Rightarrow> 'a simple_pre_scheme" where
  "pre_reset_state s = s\<lparr>mgid_entries := Map.empty, l1_entries := Map.empty, l2_entries := Map.empty,
     l1_handles := mgr_clear (l1_handles s), l2_handles := mgr_clear (l2_handles s)\<rparr>"

section \<open>Copies of a packet\<close>

type_synonym mc_out = "nat \<times> nat"

fun replicate_nodes :: "'a simple_pre_scheme \<Rightarrow> nat list \<Rightarrow> mc_out list option" where
  "replicate_nodes s [] = Some []"
| "replicate_nodes s (h # hs) = do {
     e \<leftarrow> l1_entries s h;
     e2 \<leftarrow> l2_entries s (l1_l2_hdl e);
     rest \<leftarrow> replicate_nodes s hs;
     Some (map (Pair (l1_rid e)) (members (l2_port_map e2)) @ rest) }"

definition pre_replicate :: "nat \<Rightarrow> 'a simple_pre_scheme \<Rightarrow> mc_out list option" where
  "pre_replicate g s = (case mgid_entries s g of None \<Rightarrow> Some [] | Some me \<Rightarrow> replicate_nodes s (l1_list me))"

section \<open>Aggregation groups\<close>

record lag_entry =
  member_count :: nat
  lag_port_map :: port_set

record lag_pre = simple_pre +
  lag_entries :: "nat \<rightharpoonup> lag_entry"

definition LAG_MAX_ENTRIES :: nat where "LAG_MAX_ENTRIES = 256"

definition lag_new :: lag_pre where
  "lag_new = simple_pre.extend pre_new \<lparr>lag_entries = Map.empty\<rparr>"

definition mc_set_lag_membership :: "nat \<Rightarrow> port_set \<Rightarrow> lag_pre \<Rightarrow> mc_code \<times> lag_pre" where
  "mc_set_lag_membership i pm s =
     (if LAG_MAX_ENTRIES < i then (ERROR, s)
      else (SUCCESS, s\<lparr>lag_entries := (lag_entries s)(i \<mapsto> \<lparr>member_count = length (members pm) mod 2 ^ 16, lag_port_map = pm\<rparr>)\<rparr>))"

definition lag_reset_state :: "lag_pre \<Rightarrow> lag_pre" where
  "lag_reset_state s = (pre_reset_state s)\<lparr>lag_entries := Map.empty\<rparr>"

definition lag_hash :: nat where "lag_hash = 0xFF"

text \<open>The loop over the ports of a group that stops at the member with the number \<open>c1\<close>.\<close>

fun pick_port :: "port_set \<Rightarrow> nat \<Rightarrow> nat \<Rightarrow> nat list \<Rightarrow> nat list" where
  "pick_port pm c1 c2 [] = []"
| "pick_port pm c1 c2 (p # ps) =
     (let c = (if bit pm p then c2 + 1 else c2) in if c1 = c then [p] else pick_port pm c1 c ps)"

definition lag_ports :: "lag_pre \<Rightarrow> nat \<Rightarrow> nat list option" where
  "lag_ports s i = do {
     e \<leftarrow> lag_entries s i;
     guard (member_count e \<noteq> 0);
     Some (pick_port (lag_port_map e) (lag_hash mod member_count e + 1) 0 [0..<256]) }"

fun lag_replicate_nodes :: "lag_pre \<Rightarrow> nat list \<Rightarrow> mc_out list option" where
  "lag_replicate_nodes s [] = Some []"
| "lag_replicate_nodes s (h # hs) = do {
     e \<leftarrow> l1_entries s h;
     e2 \<leftarrow> l2_entries s (l1_l2_hdl e);
     lags \<leftarrow> map_opt (lag_ports s) (members (l2_lag_map e2));
     rest \<leftarrow> lag_replicate_nodes s hs;
     Some (map (Pair (l1_rid e)) (members (l2_port_map e2) @ concat lags) @ rest) }"

definition lag_replicate :: "nat \<Rightarrow> lag_pre \<Rightarrow> mc_out list option" where
  "lag_replicate g s = (case mgid_entries s g of None \<Rightarrow> Some [] | Some me \<Rightarrow> lag_replicate_nodes s (l1_list me))"

section \<open>What clients can do\<close>

datatype pre_op =
    Mgrp_Create nat | Mgrp_Destroy nat | Node_Create nat port_set port_set | Node_Associate nat nat
  | Node_Dissociate nat nat | Node_Destroy nat | Node_Update nat port_set port_set
  | Set_Lag nat port_set | Reset

fun pre_exec :: "pre_op \<Rightarrow> lag_pre \<Rightarrow> ((mc_code \<times> nat option) \<times> lag_pre) option" where
  "pre_exec (Mgrp_Create g) s = Some (mc_mgrp_create g s)"
| "pre_exec (Mgrp_Destroy g) s = Some (apfst (\<lambda>c. (c, None)) (mc_mgrp_destroy g s))"
| "pre_exec (Node_Create rid pm lm) s = Some (lag_node_create rid pm lm s)"
| "pre_exec (Node_Associate g h) s = map_option (apfst (\<lambda>c. (c, None))) (mc_node_associate g h s)"
| "pre_exec (Node_Dissociate g h) s = map_option (apfst (\<lambda>c. (c, None))) (mc_node_dissociate g h s)"
| "pre_exec (Node_Destroy h) s = map_option (apfst (\<lambda>c. (c, None))) (mc_node_destroy h s)"
| "pre_exec (Node_Update h pm lm) s = map_option (apfst (\<lambda>c. (c, None))) (lag_node_update h pm lm s)"
| "pre_exec (Set_Lag i pm) s = Some (apfst (\<lambda>c. (c, None)) (mc_set_lag_membership i pm s))"
| "pre_exec Reset s = Some ((SUCCESS, None), lag_reset_state s)"

inductive pre_reach :: "lag_pre \<Rightarrow> bool" where
  new: "pre_reach lag_new"
| step: "\<lbrakk>pre_reach s; pre_exec op s = Some (r, s')\<rbrakk> \<Longrightarrow> pre_reach s'"

section \<open>The invariant\<close>

text \<open>
  The handles are those of the entries; each node of level 1 has its own node of level 2; the nodes in the list
  of a group are associated with it.
\<close>

definition pre_tables :: "'a simple_pre_scheme \<Rightarrow> bool" where
  "pre_tables s \<longleftrightarrow> finite (l1_handles s) \<and> finite (l2_handles s) \<and> card (l2_handles s) = card (l1_handles s) \<and>
     dom (l1_entries s) = l1_handles s \<and> dom (l2_entries s) = l2_handles s \<and>
     (\<forall>h e. l1_entries s h = Some e \<longrightarrow> (\<exists>e2. l2_entries s (l1_l2_hdl e) = Some e2 \<and> l2_l1_hdl e2 = h))"

definition pre_groups :: "'a simple_pre_scheme \<Rightarrow> bool" where
  "pre_groups s \<longleftrightarrow> (\<forall>g me. mgid_entries s g = Some me \<longrightarrow> distinct (l1_list me) \<and>
     (\<forall>h \<in> set (l1_list me). \<exists>e. l1_entries s h = Some e \<and> is_associated e \<and> l1_mgrp_hdl e = g))"

definition pre_lags :: "lag_pre \<Rightarrow> bool" where
  "pre_lags s \<longleftrightarrow> (\<forall>i e. lag_entries s i = Some e \<longrightarrow> member_count e = length (members (lag_port_map e)))"

definition pre_inv :: "lag_pre \<Rightarrow> bool" where
  "pre_inv s \<longleftrightarrow> pre_tables s \<and> pre_groups s \<and> pre_lags s"

lemma l1_valid: "pre_tables s \<Longrightarrow> valid_handle (l1_handles s) h \<longleftrightarrow> l1_entries s h \<noteq> None"
  by (auto simp: pre_tables_def valid_handle_def dom_def)

lemma l2_of: "\<lbrakk>pre_tables s; l1_entries s h = Some e\<rbrakk> \<Longrightarrow> \<exists>e2. l2_entries s (l1_l2_hdl e) = Some e2 \<and> l2_l1_hdl e2 = h"
  by (simp add: pre_tables_def)

lemma l2_inj: "\<lbrakk>pre_tables s; l1_entries s h = Some e; l1_entries s k = Some f; l1_l2_hdl e = l1_l2_hdl f\<rbrakk> \<Longrightarrow> h = k"
  using l2_of by (metis option.inject)

lemma members_bound: "length (members w) \<le> 256"
  unfolding members_def by (rule order_trans [OF length_filter_le]) simp

section \<open>One table of nodes\<close>

text \<open>What the component promises: groups that list nodes, and nodes with their two sets.\<close>

record anode =
  an_rid :: nat
  an_ports :: port_set
  an_lags :: port_set
  an_group :: "nat option"

record apre =
  a_groups :: "nat \<rightharpoonup> nat list"
  a_nodes :: "nat \<rightharpoonup> anode"
  a_lags :: "nat \<rightharpoonup> port_set"

definition node_of :: "l1_entry \<Rightarrow> l2_entry \<Rightarrow> anode" where
  "node_of e e2 = \<lparr>an_rid = l1_rid e, an_ports = l2_port_map e2, an_lags = l2_lag_map e2,
     an_group = (if is_associated e then Some (l1_mgrp_hdl e) else None)\<rparr>"

definition abs_pre :: "lag_pre \<Rightarrow> apre" where
  "abs_pre s = \<lparr>a_groups = map_option l1_list \<circ> mgid_entries s,
     a_nodes = (\<lambda>h. do { e \<leftarrow> l1_entries s h; e2 \<leftarrow> l2_entries s (l1_l2_hdl e); Some (node_of e e2) }),
     a_lags = map_option lag_port_map \<circ> lag_entries s\<rparr>"

fun a_exec :: "pre_op \<Rightarrow> apre \<Rightarrow> ((mc_code \<times> nat option) \<times> apre) option" where
  "a_exec (Mgrp_Create g) a = Some (if 4096 \<le> card (dom (a_groups a)) then ((TABLE_FULL, None), a)
     else ((SUCCESS, Some g), if a_groups a g = None then a\<lparr>a_groups := (a_groups a)(g \<mapsto> [])\<rparr> else a))"
| "a_exec (Mgrp_Destroy g) a = Some ((SUCCESS, None), a\<lparr>a_groups := (a_groups a)(g := None)\<rparr>)"
| "a_exec (Node_Create rid pm lm) a = (if 4096 \<le> card (dom (a_nodes a)) then Some ((TABLE_FULL, None), a)
     else do {
       (h, H) \<leftarrow> get_handle (dom (a_nodes a));
       Some ((SUCCESS, Some h), a\<lparr>a_nodes := (a_nodes a)(h \<mapsto> \<lparr>an_rid = rid, an_ports = pm, an_lags = lm, an_group = None\<rparr>)\<rparr>) })"
| "a_exec (Node_Associate g h) a = Some (case a_nodes a h of
       None \<Rightarrow> ((INVALID_L1_HANDLE, None), a)
     | Some n \<Rightarrow> (case a_groups a g of
           None \<Rightarrow> ((INVALID_MGID, None), a)
         | Some hs \<Rightarrow> if an_group n \<noteq> None then ((ERROR, None), a)
             else ((SUCCESS, None), a\<lparr>a_groups := (a_groups a)(g \<mapsto> hs @ [h]), a_nodes := (a_nodes a)(h \<mapsto> n\<lparr>an_group := Some g\<rparr>)\<rparr>)))"
| "a_exec (Node_Dissociate g h) a = Some (case a_nodes a h of
       None \<Rightarrow> ((INVALID_L1_HANDLE, None), a)
     | Some n \<Rightarrow> (case a_groups a g of
           None \<Rightarrow> ((INVALID_MGID, None), a)
         | Some hs \<Rightarrow> if an_group n \<noteq> Some g then ((ERROR, None), a)
             else ((SUCCESS, None), a\<lparr>a_groups := (a_groups a)(g \<mapsto> removeAll h hs), a_nodes := (a_nodes a)(h \<mapsto> n\<lparr>an_group := None\<rparr>)\<rparr>)))"
| "a_exec (Node_Destroy h) a = (case a_nodes a h of
       None \<Rightarrow> Some ((INVALID_L1_HANDLE, None), a)
     | Some n \<Rightarrow> (case an_group n of
           None \<Rightarrow> Some ((SUCCESS, None), a\<lparr>a_nodes := (a_nodes a)(h := None)\<rparr>)
         | Some g \<Rightarrow> do {
             hs \<leftarrow> a_groups a g;
             Some ((SUCCESS, None), a\<lparr>a_groups := (a_groups a)(g \<mapsto> removeAll h hs), a_nodes := (a_nodes a)(h := None)\<rparr>) }))"
| "a_exec (Node_Update h pm lm) a = Some (case a_nodes a h of
       None \<Rightarrow> ((INVALID_L1_HANDLE, None), a)
     | Some n \<Rightarrow> ((SUCCESS, None), a\<lparr>a_nodes := (a_nodes a)(h \<mapsto> n\<lparr>an_ports := pm, an_lags := lm\<rparr>)\<rparr>))"
| "a_exec (Set_Lag i pm) a = Some (if 256 < i then ((ERROR, None), a)
     else ((SUCCESS, None), a\<lparr>a_lags := (a_lags a)(i \<mapsto> pm)\<rparr>))"
| "a_exec Reset a = Some ((SUCCESS, None), \<lparr>a_groups = Map.empty, a_nodes = Map.empty, a_lags = Map.empty\<rparr>)"

lemma abs_nodes_dom: "pre_tables s \<Longrightarrow> dom (a_nodes (abs_pre s)) = l1_handles s"
  using l2_of by (fastforce simp: abs_pre_def pre_tables_def bind_eq_Some_iff)

lemma abs_node: "\<lbrakk>pre_tables s; l1_entries s h = Some e\<rbrakk> \<Longrightarrow>
  \<exists>e2. l2_entries s (l1_l2_hdl e) = Some e2 \<and> a_nodes (abs_pre s) h = Some (node_of e e2)"
  using l2_of by (fastforce simp: abs_pre_def)

lemma abs_groups: "a_groups (abs_pre s) g = map_option l1_list (mgid_entries s g)"
  by (simp add: abs_pre_def)

lemma abs_no_node: "l1_entries s h = None \<Longrightarrow> a_nodes (abs_pre s) h = None"
  by (simp add: abs_pre_def)

lemma abs_groups_dom: "dom (a_groups (abs_pre s)) = dom (mgid_entries s)"
  by (auto simp: abs_pre_def)

lemma apre_eqI: "\<lbrakk>a_groups a = a_groups b; a_nodes a = a_nodes b; a_lags a = a_lags b\<rbrakk> \<Longrightarrow> a = (b :: apre)"
  by simp

text \<open>Operation by operation, the state that is reached has the invariant and is the one the table of nodes reaches.\<close>

lemma refine_create:
  assumes "pre_inv s" "lag_node_create rid pm lm s = (r, s')"
  shows "pre_inv s' \<and> a_exec (Node_Create rid pm lm) (abs_pre s) = Some (r, abs_pre s')"
proof -
  have T: "pre_tables s" using assms(1) by (simp add: pre_inv_def)
  then have c: "card (dom (l1_entries s)) = card (l1_handles s)" "card (dom (l2_entries s)) = card (l1_handles s)"
    "finite (l1_handles s)" "finite (l2_handles s)" "card (l2_handles s) = card (l1_handles s)"
    by (simp_all add: pre_tables_def)
  show ?thesis
  proof (cases "4096 \<le> card (l1_handles s)")
    case True
    with assms c abs_nodes_dom [OF T] show ?thesis
      by (auto simp: lag_node_create_def L1_MAX_ENTRIES_def)
  next
    case False
    with c get_handle_total [of "l1_handles s"] get_handle_total [of "l2_handles s"]
    obtain h1 H1 h2 H2 where g: "get_handle (l1_handles s) = Some (h1, H1)" "get_handle (l2_handles s) = Some (h2, H2)"
      by (fastforce simp: word_max_def)
    note g1 = get_handle_Some [OF c(3) g(1)] and g2 = get_handle_Some [OF c(4) g(2)]
    have s': "r = (SUCCESS, Some h1)" "s' = s\<lparr>l1_handles := H1, l2_handles := H2,
                l1_entries := (l1_entries s)(h1 \<mapsto> \<lparr>l1_mgrp_hdl = 0, l1_rid = rid, l1_l2_hdl = h2, is_associated = False\<rparr>),
                l2_entries := (l2_entries s)(h2 \<mapsto> \<lparr>l2_l1_hdl = h1, l2_port_map = pm, l2_lag_map = lm\<rparr>)\<rparr>"
      using assms(2) False c g by (simp_all add: lag_node_create_def L1_MAX_ENTRIES_def L2_MAX_ENTRIES_def)
    have n1: "l1_entries s h1 = None" and n2: "l2_entries s h2 = None"
      using T g1(1) g2(1) by (auto simp: pre_tables_def dom_def)
    have l2: "l1_l2_hdl e \<noteq> h2" if "l1_entries s h = Some e" for h e
      using l2_of [OF T that] n2 by auto
    have "pre_tables s'"
      using T n1 n2 g1 g2 by (auto simp: pre_tables_def s' dest: l2)
    moreover have "pre_groups s'"
      using assms(1) n1 by (fastforce simp: pre_inv_def pre_groups_def s')
    moreover have "pre_lags s'"
      using assms(1) by (simp add: pre_inv_def pre_lags_def s')
    moreover have "a_nodes (abs_pre s') = (a_nodes (abs_pre s))(h1 \<mapsto> \<lparr>an_rid = rid, an_ports = pm, an_lags = lm, an_group = None\<rparr>)"
    proof
      fix h
      show "a_nodes (abs_pre s') h = ((a_nodes (abs_pre s))(h1 \<mapsto> \<lparr>an_rid = rid, an_ports = pm, an_lags = lm, an_group = None\<rparr>)) h"
        using l2 [of h] by (cases "l1_entries s h") (auto simp: abs_pre_def s' node_of_def)
    qed
    then have "abs_pre s' = (abs_pre s)\<lparr>a_nodes := (a_nodes (abs_pre s))(h1 \<mapsto> \<lparr>an_rid = rid, an_ports = pm, an_lags = lm, an_group = None\<rparr>)\<rparr>"
      by (intro apre_eqI) (simp_all add: abs_pre_def s')
    ultimately show ?thesis
      using False g(1) by (simp add: pre_inv_def abs_nodes_dom [OF T] s'(1))
  qed
qed

text \<open>An operation that changes one node of level 1 and one list leaves the tables and the other nodes as they are.\<close>

lemma tables_upd:
  assumes "pre_tables s" "l1_entries s h = Some e" "l1_l2_hdl f = l1_l2_hdl e"
    and "l1_entries s' = (l1_entries s)(h \<mapsto> f)" "l2_entries s' = l2_entries s" "l1_handles s' = l1_handles s" "l2_handles s' = l2_handles s"
  shows "pre_tables s'"
  using assms by (auto simp: pre_tables_def)

lemma nodes_upd:
  assumes "l1_entries s h = Some e" "l1_l2_hdl f = l1_l2_hdl e" "l1_entries s' = (l1_entries s)(h \<mapsto> f)" "l2_entries s' = l2_entries s"
    and "l2_entries s (l1_l2_hdl e) = Some e2"
  shows "a_nodes (abs_pre s') = (a_nodes (abs_pre s))(h \<mapsto> node_of f e2)"
  using assms by (auto simp: abs_pre_def fun_eq_iff)

lemma groups_upd:
  assumes "mgid_entries s' = (mgid_entries s)(g \<mapsto> me)"
  shows "a_groups (abs_pre s') = (a_groups (abs_pre s))(g \<mapsto> l1_list me)"
  using assms by (auto simp: abs_pre_def fun_eq_iff)

lemma refine_associate:
  assumes "pre_inv s" "mc_node_associate g h s = Some (c, s')"
  shows "pre_inv s' \<and> a_exec (Node_Associate g h) (abs_pre s) = Some ((c, None), abs_pre s')"
proof (cases "l1_entries s h")
  case None
  with assms l1_valid [of s h] abs_no_node [OF None] show ?thesis
    by (auto simp: pre_inv_def mc_node_associate_def)
next
  case (Some e)
  have T: "pre_tables s" using assms(1) by (simp add: pre_inv_def)
  obtain e2 where e2: "l2_entries s (l1_l2_hdl e) = Some e2" and n: "a_nodes (abs_pre s) h = Some (node_of e e2)"
    using abs_node [OF T Some] by blast
  show ?thesis
  proof (cases "mgid_entries s g")
    case None
    with assms l1_valid [OF T, of h] Some n show ?thesis
      by (auto simp: mc_node_associate_def abs_groups)
  next
    case me: (Some me)
    show ?thesis
    proof (cases "is_associated e")
      case True
      with assms l1_valid [OF T, of h] Some n me show ?thesis
        by (auto simp: mc_node_associate_def abs_groups node_of_def)
    next
      case False
      let ?f = "e\<lparr>l1_mgrp_hdl := g, is_associated := True\<rparr>" let ?me = "me\<lparr>l1_list := l1_list me @ [h]\<rparr>"
      have c: "c = SUCCESS" and s': "s' = s\<lparr>mgid_entries := (mgid_entries s)(g \<mapsto> ?me), l1_entries := (l1_entries s)(h \<mapsto> ?f)\<rparr>"
        using assms(2) l1_valid [OF T, of h] Some me False by (simp_all add: mc_node_associate_def)
      have "pre_tables s'" by (rule tables_upd [OF T Some, of ?f]) (simp_all add: s')
      moreover have "pre_groups s'"
        using assms(1) Some False me unfolding pre_inv_def pre_groups_def
        by (auto simp: s' split: if_splits) fastforce+
      moreover have "pre_lags s'" using assms(1) by (simp add: pre_inv_def pre_lags_def s')
      moreover have "a_nodes (abs_pre s') = (a_nodes (abs_pre s))(h \<mapsto> node_of ?f e2)"
        by (rule nodes_upd [OF Some]) (simp_all add: s' e2)
      moreover have "a_groups (abs_pre s') = (a_groups (abs_pre s))(g \<mapsto> l1_list ?me)"
        by (rule groups_upd) (simp add: s')
      ultimately show ?thesis
        using n me False by (auto intro!: apre_eqI simp: pre_inv_def c abs_groups node_of_def) (simp_all add: abs_pre_def s')
    qed
  qed
qed

lemma refine_dissociate:
  assumes "pre_inv s" "mc_node_dissociate g h s = Some (c, s')"
  shows "pre_inv s' \<and> a_exec (Node_Dissociate g h) (abs_pre s) = Some ((c, None), abs_pre s')"
proof (cases "l1_entries s h")
  case None
  with assms l1_valid [of s h] abs_no_node [OF None] show ?thesis
    by (auto simp: pre_inv_def mc_node_dissociate_def)
next
  case (Some e)
  have T: "pre_tables s" using assms(1) by (simp add: pre_inv_def)
  obtain e2 where e2: "l2_entries s (l1_l2_hdl e) = Some e2" and n: "a_nodes (abs_pre s) h = Some (node_of e e2)"
    using abs_node [OF T Some] by blast
  show ?thesis
  proof (cases "mgid_entries s g")
    case None
    with assms l1_valid [OF T, of h] Some n show ?thesis
      by (auto simp: mc_node_dissociate_def abs_groups)
  next
    case me: (Some me)
    show ?thesis
    proof (cases "is_associated e \<and> l1_mgrp_hdl e = g")
      case False
      with assms l1_valid [OF T, of h] Some n me show ?thesis
        by (auto simp: mc_node_dissociate_def abs_groups node_of_def split: if_splits)
    next
      case True
      let ?f = "e\<lparr>is_associated := False\<rparr>"
      have c: "c = SUCCESS" and s': "s' = s\<lparr>mgid_entries := (mgid_entries s)(g \<mapsto> node_dissociate h me), l1_entries := (l1_entries s)(h \<mapsto> ?f)\<rparr>"
        using assms(2) l1_valid [OF T, of h] Some me True by (simp_all add: mc_node_dissociate_def)
      have "pre_tables s'" by (rule tables_upd [OF T Some, of ?f]) (simp_all add: s')
      moreover have "pre_groups s'"
        using assms(1) Some True me unfolding pre_inv_def pre_groups_def
        by (auto simp: s' node_dissociate_def split: if_splits) fastforce+
      moreover have "pre_lags s'" using assms(1) by (simp add: pre_inv_def pre_lags_def s')
      moreover have "a_nodes (abs_pre s') = (a_nodes (abs_pre s))(h \<mapsto> node_of ?f e2)"
        by (rule nodes_upd [OF Some]) (simp_all add: s' e2)
      moreover have "a_groups (abs_pre s') = (a_groups (abs_pre s))(g \<mapsto> l1_list (node_dissociate h me))"
        by (rule groups_upd) (simp add: s')
      ultimately show ?thesis
        using n me True by (auto intro!: apre_eqI simp: pre_inv_def c abs_groups node_of_def node_dissociate_def removeAll_filter_not_eq)
          (simp_all add: abs_pre_def s' neq_commute)
    qed
  qed
qed

lemma refine_update:
  assumes "pre_inv s" "lag_node_update h pm lm s = Some (c, s')"
  shows "pre_inv s' \<and> a_exec (Node_Update h pm lm) (abs_pre s) = Some ((c, None), abs_pre s')"
proof (cases "l1_entries s h")
  case None
  with assms l1_valid [of s h] abs_no_node [OF None] show ?thesis
    by (auto simp: pre_inv_def lag_node_update_def)
next
  case (Some e)
  have T: "pre_tables s" using assms(1) by (simp add: pre_inv_def)
  obtain e2 where e2: "l2_entries s (l1_l2_hdl e) = Some e2" "l2_l1_hdl e2 = h" using l2_of [OF T Some] by blast
  let ?f = "e2\<lparr>l2_port_map := pm, l2_lag_map := lm\<rparr>"
  have c: "c = SUCCESS" and s': "s' = s\<lparr>l2_entries := (l2_entries s)(l1_l2_hdl e \<mapsto> ?f)\<rparr>"
    using assms(2) l1_valid [OF T, of h] Some e2 by (simp_all add: lag_node_update_def)
  have "pre_tables s'" using T e2 by (auto simp: pre_tables_def s') (metis option.inject)
  moreover have "pre_groups s'" "pre_lags s'" using assms(1) by (simp_all add: pre_inv_def pre_groups_def pre_lags_def s')
  moreover have "a_nodes (abs_pre s') = (a_nodes (abs_pre s))(h \<mapsto> node_of e ?f)"
  proof
    fix k
    show "a_nodes (abs_pre s') k = ((a_nodes (abs_pre s))(h \<mapsto> node_of e ?f)) k"
      using Some l2_inj [OF T Some, of k] by (cases "l1_entries s k") (auto simp: abs_pre_def s')
  qed
  then have "abs_pre s' = (abs_pre s)\<lparr>a_nodes := (a_nodes (abs_pre s))(h \<mapsto> node_of e ?f)\<rparr>"
    by (intro apre_eqI) (simp_all add: abs_pre_def s')
  moreover have "a_nodes (abs_pre s) h = Some (node_of e e2)" using Some e2 by (simp add: abs_pre_def)
  moreover have "node_of e ?f = (node_of e e2)\<lparr>an_ports := pm, an_lags := lm\<rparr>" by (simp add: node_of_def)
  ultimately show ?thesis by (simp add: pre_inv_def c)
qed

lemma refine_destroy:
  assumes "pre_inv s"
  shows "case mc_node_destroy h s of
      None \<Rightarrow> a_exec (Node_Destroy h) (abs_pre s) = None
    | Some (c, s') \<Rightarrow> pre_inv s' \<and> a_exec (Node_Destroy h) (abs_pre s) = Some ((c, None), abs_pre s')"
proof (cases "l1_entries s h")
  case None
  with assms l1_valid [of s h] abs_no_node [OF None] show ?thesis
    by (auto simp: pre_inv_def mc_node_destroy_def)
next
  case (Some e)
  have T: "pre_tables s" using assms(1) by (simp add: pre_inv_def)
  obtain e2 where e2: "l2_entries s (l1_l2_hdl e) = Some e2" and n: "a_nodes (abs_pre s) h = Some (node_of e e2)"
    using abs_node [OF T Some] by blast
  have h: "h \<in> l1_handles s" "l1_l2_hdl e \<in> l2_handles s" using T Some e2 by (auto simp: pre_tables_def)
  define s0 where "s0 m = s\<lparr>mgid_entries := m, l1_entries := (l1_entries s)(h := None),
    l2_entries := (l2_entries s)(l1_l2_hdl e := None), l1_handles := l1_handles s - {h}, l2_handles := l2_handles s - {l1_l2_hdl e}\<rparr>" for m
  have T0: "pre_tables (s0 m)" for m
    unfolding pre_tables_def s0_def using T h l2_inj [OF T Some] l2_of [OF T]
    by (auto simp: pre_tables_def)
  have L0: "pre_lags (s0 m)" for m using assms by (simp add: pre_inv_def pre_lags_def s0_def)
  have N0: "a_nodes (abs_pre (s0 m)) = (a_nodes (abs_pre s))(h := None)" for m
  proof
    fix k
    show "a_nodes (abs_pre (s0 m)) k = ((a_nodes (abs_pre s))(h := None)) k"
      using Some l2_inj [OF T Some, of k] by (cases "l1_entries s k") (auto simp: abs_pre_def s0_def)
  qed
  show ?thesis
  proof (cases "is_associated e")
    case False
    then have "mc_node_destroy h s = Some (SUCCESS, s0 (mgid_entries s))"
      using l1_valid [OF T, of h] Some h by (simp add: mc_node_destroy_def release_handle_def s0_def)
    moreover have "pre_groups (s0 (mgid_entries s))"
      using assms Some False by (fastforce simp: pre_inv_def pre_groups_def s0_def)
    ultimately show ?thesis
      using n False T0 L0 N0 [of "mgid_entries s"] by (auto intro!: apre_eqI simp: pre_inv_def node_of_def) (simp_all add: abs_pre_def s0_def)
  next
    case True
    show ?thesis
    proof (cases "mgid_entries s (l1_mgrp_hdl e)")
      case None
      with True n Some l1_valid [OF T, of h] show ?thesis by (simp add: mc_node_destroy_def node_of_def abs_groups)
    next
      case me: (Some me)
      let ?m = "(mgid_entries s)(l1_mgrp_hdl e \<mapsto> node_dissociate h me)"
      have "mc_node_destroy h s = Some (SUCCESS, s0 ?m)"
        using l1_valid [OF T, of h] Some h True me by (simp add: mc_node_destroy_def release_handle_def s0_def)
      moreover have "pre_groups (s0 ?m)"
        using assms Some me unfolding pre_inv_def pre_groups_def
        by (auto simp: s0_def node_dissociate_def split: if_splits) fastforce+
      moreover have "a_groups (abs_pre (s0 ?m)) = (a_groups (abs_pre s))(l1_mgrp_hdl e \<mapsto> l1_list (node_dissociate h me))"
        by (rule groups_upd) (simp add: s0_def)
      ultimately show ?thesis
        using n True me T0 L0 N0 [of ?m] by (auto intro!: apre_eqI simp: pre_inv_def node_of_def abs_groups node_dissociate_def removeAll_filter_not_eq)
          (simp_all add: abs_pre_def s0_def neq_commute)
    qed
  qed
qed

lemma refine_exec:
  assumes "pre_inv s"
  shows "case pre_exec op s of
      None \<Rightarrow> a_exec op (abs_pre s) = None
    | Some (r, s') \<Rightarrow> pre_inv s' \<and> a_exec op (abs_pre s) = Some (r, abs_pre s')"
proof (cases op)
  case (Mgrp_Create g)
  obtain r s' where e: "mc_mgrp_create g s = (r, s')" by (cases "mc_mgrp_create g s")
  then have s': "l1_entries s' = l1_entries s" "l2_entries s' = l2_entries s" "l1_handles s' = l1_handles s"
    "l2_handles s' = l2_handles s" "lag_entries s' = lag_entries s"
    by (auto simp: mc_mgrp_create_def split: if_splits option.splits)
  have "pre_groups s'"
    using assms e by (auto simp: mc_mgrp_create_def pre_inv_def pre_groups_def split: if_splits option.splits)
  with assms s' have "pre_inv s'" by (simp add: pre_inv_def pre_tables_def pre_lags_def)
  moreover have "a_exec op (abs_pre s) = Some (r, abs_pre s')"
    using e by (auto simp: Mgrp_Create mc_mgrp_create_def MGID_TABLE_SIZE_def abs_groups_dom split: if_splits option.splits)
      (auto intro!: apre_eqI simp: abs_pre_def fun_eq_iff)
  ultimately show ?thesis by (simp add: Mgrp_Create e)
next
  case (Mgrp_Destroy g)
  let ?s = "s\<lparr>mgid_entries := (mgid_entries s)(g := None)\<rparr>"
  have "pre_inv ?s"
    using assms by (auto simp: pre_inv_def pre_tables_def pre_groups_def pre_lags_def)
  moreover have "abs_pre ?s = (abs_pre s)\<lparr>a_groups := (a_groups (abs_pre s))(g := None)\<rparr>"
    by (intro apre_eqI) (auto simp: abs_pre_def fun_eq_iff)
  ultimately show ?thesis by (simp add: Mgrp_Destroy mc_mgrp_destroy_def)
next
  case (Node_Create rid pm lm)
  with refine_create [OF assms, of rid pm lm] show ?thesis
    by (cases "lag_node_create rid pm lm s") simp
next
  case (Node_Associate g h)
  have "mc_node_associate g h s \<noteq> None"
    using assms l1_valid [of s h] by (auto simp: mc_node_associate_def pre_inv_def split: option.splits)
  with refine_associate [OF assms, of g h] show ?thesis by (auto simp: Node_Associate)
next
  case (Node_Dissociate g h)
  have "mc_node_dissociate g h s \<noteq> None"
    using assms l1_valid [of s h] by (auto simp: mc_node_dissociate_def pre_inv_def split: option.splits)
  with refine_dissociate [OF assms, of g h] show ?thesis by (auto simp: Node_Dissociate)
next
  case (Node_Destroy h)
  with refine_destroy [OF assms, of h] show ?thesis by (auto split: option.splits)
next
  case (Node_Update h pm lm)
  have "lag_node_update h pm lm s \<noteq> None"
    using assms l1_valid [of s h] l2_of [of s h] by (fastforce simp: lag_node_update_def pre_inv_def)
  with refine_update [OF assms, of h pm lm] show ?thesis by (auto simp: Node_Update)
next
  case (Set_Lag i pm)
  obtain c s' where e: "mc_set_lag_membership i pm s = (c, s')" by (cases "mc_set_lag_membership i pm s")
  have "length (members pm) mod 65536 = length (members pm)"
    using members_bound [of pm] by simp
  with e consider "s' = s" | "s' = s\<lparr>lag_entries := (lag_entries s)(i \<mapsto> \<lparr>member_count = length (members pm), lag_port_map = pm\<rparr>)\<rparr>"
    by (auto simp: mc_set_lag_membership_def split: if_splits)
  then have "pre_inv s'"
    using assms by cases (simp_all add: pre_inv_def pre_tables_def pre_groups_def pre_lags_def)
  moreover have "a_exec op (abs_pre s) = Some ((c, None), abs_pre s')"
    using e by (auto simp: Set_Lag mc_set_lag_membership_def LAG_MAX_ENTRIES_def split: if_splits)
      (auto intro!: apre_eqI simp: abs_pre_def fun_eq_iff)
  ultimately show ?thesis by (simp add: Set_Lag e)
next
  case Reset
  have "pre_inv (lag_reset_state s)"
    by (simp add: lag_reset_state_def pre_reset_state_def pre_inv_def pre_tables_def pre_groups_def pre_lags_def mgr_clear_def)
  moreover have "abs_pre (lag_reset_state s) = \<lparr>a_groups = Map.empty, a_nodes = Map.empty, a_lags = Map.empty\<rparr>"
    by (simp add: lag_reset_state_def pre_reset_state_def abs_pre_def)
  ultimately show ?thesis by (simp add: Reset)
qed

lemma pre_reach_inv: "pre_reach s \<Longrightarrow> pre_inv s"
proof (induction rule: pre_reach.induct)
  case new
  show ?case
    by (simp add: lag_new_def pre_new_def pre_inv_def pre_tables_def pre_groups_def pre_lags_def mgr_new_def simple_pre.defs)
next
  case (step s op r s')
  with refine_exec [of s op] show ?case by simp
qed

text \<open>
  C15: In every state that clients can lead to, each operation does on the tables of groups, of nodes of both
  levels and of handles what it does on one table of nodes, with the same code and the same handle, and it stops
  the switch in exactly the same cases.
\<close>

theorem pre_refines:
  assumes "pre_reach s"
  shows "map_option (apsnd abs_pre) (pre_exec op s) = a_exec op (abs_pre s)"
  using refine_exec [OF pre_reach_inv [OF assms], of op] by (auto split: option.splits)

text \<open>A group with one node that is copied to two ports and to one group of links with the ports 1 and 3.\<close>

definition example_ops :: "pre_op list" where
  "example_ops = [Set_Lag 7 10, Mgrp_Create 5, Node_Create 9 6 128, Node_Associate 5 0]"

definition example_pre :: lag_pre where
  "example_pre = \<lparr>mgid_entries = [5 \<mapsto> \<lparr>me_mgid = 5, l1_list = [0]\<rparr>],
     l1_entries = [0 \<mapsto> \<lparr>l1_mgrp_hdl = 5, l1_rid = 9, l1_l2_hdl = 0, is_associated = True\<rparr>],
     l2_entries = [0 \<mapsto> \<lparr>l2_l1_hdl = 0, l2_port_map = 6, l2_lag_map = 128\<rparr>],
     l1_handles = {0}, l2_handles = {0}, lag_entries = [7 \<mapsto> \<lparr>member_count = 2, lag_port_map = 10\<rparr>]\<rparr>"

lemma members_upto: "w < 2 ^ 8 \<Longrightarrow> members w = filter (bit w) [0..<8]" for w :: "256 word"
proof -
  assume w: "w < 2 ^ 8"
  have "\<not> bit w i" if "8 \<le> i" for i
  proof
    assume b: "bit w i"
    then have "bit (unat w) i" by (simp add: bit_unsigned_iff bit_imp_possible_bit)
    then have "odd (unat w div 2 ^ i)" by (simp add: bit_iff_odd)
    moreover have "unat w < 2 ^ 8" using w by (simp add: word_less_nat_alt)
    then have "unat w < 2 ^ i" using that by (rule less_le_trans [OF _ power_increasing]) simp
    ultimately show False by simp
  qed
  moreover have "[0..<256] = [0..<8] @ [8..<256]" by (simp add: upt_add_eq_append [of 0 8 248, simplified])
  ultimately show ?thesis by (simp add: members_def filter_none)
qed

lemma example_members [simp]: "members 10 = [1, 3]" "members 6 = [1, 2]" "members 128 = [7]"
  by (simp_all add: members_upto upt_rec word_less_nat_alt bit_numeral_rec)

lemma example_run:
  "foldl (\<lambda>r op. r \<bind> (\<lambda>s. map_option snd (pre_exec op s))) (Some lag_new) example_ops = Some example_pre"
  by (simp add: example_ops_def example_pre_def lag_new_def pre_new_def simple_pre.defs mgr_new_def mc_set_lag_membership_def
      LAG_MAX_ENTRIES_def mc_mgrp_create_def MGID_TABLE_SIZE_def lag_node_create_def L1_MAX_ENTRIES_def L2_MAX_ENTRIES_def
      get_handle_def first_empty_def word_max_def mc_node_associate_def valid_handle_def numeral_2_eq_2 [symmetric])

lemma pre_reach_run:
  "\<lbrakk>foldl (\<lambda>r op. r \<bind> (\<lambda>s. map_option snd (pre_exec op s))) (Some s) ops = Some s'; pre_reach s\<rbrakk> \<Longrightarrow> pre_reach s'"
proof (induction ops arbitrary: s)
  case (Cons op ops)
  have "foldl (\<lambda>r op. r \<bind> (\<lambda>s. map_option snd (pre_exec op s))) None ops = None" by (induction ops) simp_all
  with Cons.prems(1) obtain r s1 where "pre_exec op s = Some (r, s1)"
    by (cases "pre_exec op s") auto
  with Cons show ?case by (auto intro: pre_reach.step)
qed simp

lemma example_reach: "pre_reach example_pre"
  by (rule pre_reach_run [OF example_run pre_reach.new])

lemma pre_refines_witness:
  "map_option (apsnd abs_pre) (pre_exec (Node_Update 0 2 0) example_pre) = a_exec (Node_Update 0 2 0) (abs_pre example_pre)"
  by (rule pre_refines [OF example_reach])

section \<open>Which copies are made\<close>

lemma pick_port_nth:
  "\<lbrakk>c2 < c1; c1 - c2 \<le> length (filter (bit w) ps)\<rbrakk> \<Longrightarrow> pick_port w c1 c2 ps = [filter (bit w) ps ! (c1 - c2 - 1)]"
proof (induction ps arbitrary: c2)
  case (Cons p ps)
  show ?case
  proof (cases "bit w p")
    case True
    show ?thesis
    proof (cases "c1 = c2 + 1")
      case False
      with True Cons.prems have "c2 + 1 < c1" "c1 - (c2 + 1) \<le> length (filter (bit w) ps)" by simp_all
      from Cons.IH [OF this] True False Cons.prems show ?thesis by (simp add: nth_Cons')
    qed (use True in simp)
  next
    case False
    with Cons show ?thesis by simp
  qed
qed simp

definition lag_members :: "lag_pre \<Rightarrow> nat \<Rightarrow> nat list" where
  "lag_members s i = (case lag_entries s i of None \<Rightarrow> [] | Some e \<Rightarrow> members (lag_port_map e))"

lemma lag_ports_eq:
  assumes "pre_inv s"
  shows "lag_ports s i = (if lag_members s i = [] then None
    else Some [lag_members s i ! (255 mod length (lag_members s i))])"
proof (cases "lag_entries s i")
  case (Some e)
  then have c: "member_count e = length (members (lag_port_map e))" using assms by (simp add: pre_inv_def pre_lags_def)
  show ?thesis
  proof (cases "members (lag_port_map e) = []")
    case False
    then have "255 mod length (members (lag_port_map e)) < length (members (lag_port_map e))" by simp
    then have "pick_port (lag_port_map e) (255 mod length (members (lag_port_map e)) + 1) 0 [0..<256] =
        [members (lag_port_map e) ! (255 mod length (members (lag_port_map e)))]"
      unfolding members_def by (subst pick_port_nth) simp_all
    with Some c False show ?thesis by (simp add: lag_ports_def lag_members_def lag_hash_def)
  qed (use Some c in \<open>simp add: lag_ports_def lag_members_def\<close>)
qed (simp add: lag_ports_def lag_members_def)

text \<open>The copies for one node: one for each port, and one for each group of links to one of its members.\<close>

definition node_copies :: "lag_pre \<Rightarrow> nat \<Rightarrow> mc_out list" where
  "node_copies s h = (case a_nodes (abs_pre s) h of None \<Rightarrow> []
     | Some n \<Rightarrow> map (Pair (an_rid n)) (members (an_ports n) @
         map (\<lambda>i. lag_members s i ! (255 mod length (lag_members s i))) (members (an_lags n))))"

definition copies_defined :: "lag_pre \<Rightarrow> nat \<Rightarrow> bool" where
  "copies_defined s h \<longleftrightarrow> (\<forall>n. a_nodes (abs_pre s) h = Some n \<longrightarrow> (\<forall>i \<in> set (members (an_lags n)). lag_members s i \<noteq> []))"

lemma map_lag_ports:
  assumes "pre_inv s"
  shows "map_opt (lag_ports s) is = (if \<forall>i \<in> set is. lag_members s i \<noteq> []
    then Some (map (\<lambda>i. [lag_members s i ! (255 mod length (lag_members s i))]) is) else None)"
  by (induction "is") (auto simp: lag_ports_eq [OF assms])

lemma lag_replicate_nodes_eq:
  assumes "pre_inv s" "\<forall>h \<in> set hs. l1_entries s h \<noteq> None"
  shows "lag_replicate_nodes s hs =
    (if \<forall>h \<in> set hs. copies_defined s h then Some (concat (map (node_copies s) hs)) else None)"
  using assms(2)
proof (induction hs)
  case (Cons h hs)
  then obtain e where e: "l1_entries s h = Some e" by auto
  obtain e2 where e2: "l2_entries s (l1_l2_hdl e) = Some e2" and n: "a_nodes (abs_pre s) h = Some (node_of e e2)"
    using abs_node [OF _ e] assms(1) by (auto simp: pre_inv_def)
  have c: "copies_defined s h \<longleftrightarrow> (\<forall>i \<in> set (members (l2_lag_map e2)). lag_members s i \<noteq> [])"
    "node_copies s h = map (Pair (l1_rid e)) (members (l2_port_map e2) @
         map (\<lambda>i. lag_members s i ! (255 mod length (lag_members s i))) (members (l2_lag_map e2)))"
    by (simp_all add: copies_defined_def node_copies_def n) (simp_all add: node_of_def)
  from Cons have IH: "lag_replicate_nodes s hs =
    (if \<forall>h \<in> set hs. copies_defined s h then Some (concat (map (node_copies s) hs)) else None)" by simp
  have "concat (map (\<lambda>i. [f i]) is) = map f is" for f :: "nat \<Rightarrow> nat" and "is" by (induction "is") simp_all
  then show ?case
    by (simp add: e e2 map_lag_ports [OF assms(1)] IH c)
qed simp

text \<open>
  C16: In every state that clients can lead to, a packet for a multicast group gets the copies of all nodes in its list, in
  that order, unless one of these nodes has a group of links that was never set or has no members: then the
  switch stops.
\<close>

theorem multicast_copies:
  assumes "pre_reach s" "mgid_entries s g = Some me"
  shows "lag_replicate g s = (if \<forall>h \<in> set (l1_list me). copies_defined s h
    then Some (concat (map (node_copies s) (l1_list me))) else None)"
proof -
  note inv = pre_reach_inv [OF assms(1)]
  have "\<forall>h \<in> set (l1_list me). l1_entries s h \<noteq> None"
    using inv assms(2) by (fastforce simp: pre_inv_def pre_groups_def)
  with lag_replicate_nodes_eq [OF inv] assms(2) show ?thesis by (simp add: lag_replicate_def)
qed

lemma multicast_copies_witness:
  "lag_replicate 5 example_pre = Some [(9, 1), (9, 2), (9, 3)]"
proof -
  have "mgid_entries example_pre 5 = Some \<lparr>me_mgid = 5, l1_list = [0]\<rparr>" by (simp add: example_pre_def)
  from multicast_copies [OF example_reach this] show ?thesis
    by (simp add: copies_defined_def node_copies_def abs_pre_def node_of_def lag_members_def example_pre_def numeral_2_eq_2 [symmetric])
qed

lemma members_0: "members 0 = []"
  by (simp add: members_def)

text \<open>Without groups of links the derived class copies as the base class does.\<close>

lemma replicate_base:
  assumes "\<forall>h e2. l2_entries s h = Some e2 \<longrightarrow> l2_lag_map e2 = 0"
  shows "lag_replicate g s = pre_replicate g s"
proof -
  have "lag_replicate_nodes s hs = replicate_nodes s hs" for hs
    using assms by (induction hs) (auto simp: members_0 bind_eq_Some_iff intro!: Option.bind_cong)
  then show ?thesis by (simp add: lag_replicate_def pre_replicate_def split: option.split)
qed

section \<open>A group that is removed under its nodes\<close>

text \<open>
  A client may remove a group with nodes in it: then a node of it cannot be removed, associated or dissociated; the
  first of these stops the switch, the others return codes of errors.  The node can be freed only after a
  group with the same identifier is made again.
\<close>

theorem orphaned_node:
  assumes "pre_reach s" "l1_entries s h = Some e" "is_associated e" "mc_mgrp_destroy (l1_mgrp_hdl e) s = (c, s')"
  shows "c = SUCCESS \<and> mc_node_destroy h s' = None \<and>
    (\<forall>g. mc_node_dissociate g h s' = Some (INVALID_MGID, s') \<or> mc_node_dissociate g h s' = Some (ERROR, s')) \<and>
    (\<forall>g. mc_node_associate g h s' = Some (INVALID_MGID, s') \<or> mc_node_associate g h s' = Some (ERROR, s'))"
proof -
  have v: "valid_handle (l1_handles s) h"
    using pre_reach_inv [OF assms(1)] assms(2) l1_valid by (auto simp: pre_inv_def)
  have s': "c = SUCCESS" "s' = s\<lparr>mgid_entries := (mgid_entries s)(l1_mgrp_hdl e := None)\<rparr>"
    using assms(4) by (simp_all add: mc_mgrp_destroy_def)
  have "mc_node_destroy h s' = None" using v assms(2,3) by (simp add: mc_node_destroy_def s')
  moreover have "mc_node_dissociate g h s' = Some (INVALID_MGID, s') \<or> mc_node_dissociate g h s' = Some (ERROR, s')" for g
    using v assms(2,3) by (auto simp: mc_node_dissociate_def s' split: option.splits)
  moreover have "mc_node_associate g h s' = Some (INVALID_MGID, s') \<or> mc_node_associate g h s' = Some (ERROR, s')" for g
    using v assms(2,3) by (auto simp: mc_node_associate_def s' split: option.splits)
  ultimately show ?thesis by (simp add: s'(1))
qed

lemma orphaned_node_witness:
  "mc_node_destroy 0 (snd (mc_mgrp_destroy 5 example_pre)) = None"
  using orphaned_node [OF example_reach, of 0 "\<lparr>l1_mgrp_hdl = 5, l1_rid = 9, l1_l2_hdl = 0, is_associated = True\<rparr>"
      SUCCESS "snd (mc_mgrp_destroy 5 example_pre)"]
  by (simp add: mc_mgrp_destroy_def example_pre_def)

end
