(* ===== verification/Meters.thy ===== *)
theory Meters
  imports Prelude
begin

text \<open>
  Meters: \<^verbatim>\<open>meters.h\<close> and \<^verbatim>\<open>meters.cpp\<close>.  A meter with N rates is N token buckets, kept with the highest
  rate first.  The theorems: a meter with two rates marks packets as the two rate three color marker of
  RFC 2698 does, though it brings a bucket up to date only when a packet reaches it; what it marks green is
  bounded by the committed rate and burst; then what a rejected configuration, a restored state and two
  threads do to it.
\<close>

section \<open>Rates\<close>

text \<open>
  Rates are floating-point numbers; the code compares two of them and multiplies one by a number of
  microseconds, and keeps the integer part.  \<open>gt\<close> and \<open>tok\<close> stand for these operations.  What \<open>tok\<close> gives
  is an unsigned word of 64 bits, as are the tokens.
\<close>

datatype meter_type = BYTES | PACKETS

datatype meter_code = SUCCESS | INVALID_METER_NAME | INVALID_INDEX | BAD_RATES_LIST
  | INVALID_INFO_RATE_VALUE | INVALID_BURST_SIZE_VALUE | ERROR

record 'r rate_config =
  rc_info_rate :: 'r
  rc_burst_size :: nat

record 'r meter_rate =
  mr_valid :: bool
  info_rate :: 'r
  burst_size :: nat
  tokens :: nat
  tokens_last :: nat
  mr_color :: nat

record 'r meter =
  m_type :: meter_type
  rates :: "'r meter_rate list"
  configured :: bool

definition new_rate :: "'r \<Rightarrow> 'r meter_rate" where
  "new_rate zero = \<lparr>mr_valid = False, info_rate = zero, burst_size = 0, tokens = 0, tokens_last = 0, mr_color = 0\<rparr>"

definition meter_new :: "'r \<Rightarrow> meter_type \<Rightarrow> nat \<Rightarrow> 'r meter" where
  "meter_new zero ty n = \<lparr>m_type = ty, rates = replicate n (new_rate zero), configured = False\<rparr>"

section \<open>Configuration\<close>

definition configured_rate :: "nat \<Rightarrow> 'r rate_config \<Rightarrow> 'r meter_rate" where
  "configured_rate idx c = \<lparr>mr_valid = True, info_rate = rc_info_rate c, burst_size = rc_burst_size c,
     tokens = rc_burst_size c, tokens_last = 0, mr_color = idx + 1\<rparr>"

definition set_rate :: "('r \<Rightarrow> 'r \<Rightarrow> bool) \<Rightarrow> nat \<Rightarrow> 'r rate_config \<Rightarrow> 'r meter \<Rightarrow> (meter_code \<times> 'r meter) option" where
  "set_rate gt idx c m = do {
     guard (idx < length (rates m));
     let rs = (rates m)[idx := configured_rate idx c];
     Some (if idx > 0 \<and> gt (info_rate (rs ! (idx - 1))) (info_rate (rs ! idx)) then INVALID_INFO_RATE_VALUE else SUCCESS,
       m\<lparr>rates := rs\<rparr>) }"

fun set_rates_loop :: "('r \<Rightarrow> 'r \<Rightarrow> bool) \<Rightarrow> nat \<Rightarrow> 'r rate_config list \<Rightarrow> 'r meter \<Rightarrow> (meter_code \<times> 'r meter) option" where
  "set_rates_loop gt idx [] m = Some (SUCCESS, m)"
| "set_rates_loop gt idx (c # cs) m = do {
     (rc, m') \<leftarrow> set_rate gt idx c m;
     if rc \<noteq> SUCCESS then Some (rc, m') else set_rates_loop gt (idx + 1) cs m' }"

definition set_rates :: "('r \<Rightarrow> 'r \<Rightarrow> bool) \<Rightarrow> 'r rate_config list \<Rightarrow> 'r meter \<Rightarrow> (meter_code \<times> 'r meter) option" where
  "set_rates gt cs m =
     (if length cs \<noteq> length (rates m) then Some (BAD_RATES_LIST, m)
      else do {
        (rc, m') \<leftarrow> set_rates_loop gt 0 cs m;
        if rc \<noteq> SUCCESS then Some (rc, m')
        else Some (SUCCESS, m'\<lparr>rates := rev (rates m'), configured := True\<rparr>) })"

definition reset_rates :: "'r meter \<Rightarrow> meter_code \<times> 'r meter" where
  "reset_rates m = (SUCCESS, m\<lparr>rates := map (\<lambda>r. r\<lparr>mr_valid := False\<rparr>) (rates m), configured := False\<rparr>)"

definition get_rates :: "'r meter \<Rightarrow> 'r rate_config list" where
  "get_rates m = (if \<not> configured m then []
     else rev (map (\<lambda>r. \<lparr>rc_info_rate = info_rate r, rc_burst_size = burst_size r\<rparr>) (rates m)))"

section \<open>Marking a packet\<close>

definition refill :: "('r \<Rightarrow> nat \<Rightarrow> nat) \<Rightarrow> nat \<Rightarrow> 'r meter_rate \<Rightarrow> 'r meter_rate option" where
  "refill tok micros r = do {
     let since = tok (info_rate r) micros;
     guard (tokens_last r \<le> since);
     let fresh = since - tokens_last r;
     Some (r\<lparr>tokens_last := since, tokens := min ((tokens r + fresh) mod 2 ^ 64) (burst_size r)\<rparr>) }"

fun mark_loop :: "('r \<Rightarrow> nat \<Rightarrow> nat) \<Rightarrow> nat \<Rightarrow> nat \<Rightarrow> 'r meter_rate list \<Rightarrow> (nat \<times> 'r meter_rate list) option" where
  "mark_loop tok micros inp [] = Some (0, [])"
| "mark_loop tok micros inp (r # rs) = do {
     r' \<leftarrow> refill tok micros r;
     if tokens r' < inp then Some (mr_color r', r' # rs)
     else do {
       (c, rs') \<leftarrow> mark_loop tok micros inp rs;
       Some (c, r'\<lparr>tokens := tokens r' - inp\<rparr> # rs') } }"

text \<open>\<open>micros\<close> is the time that was read before the lock was taken, \<open>len\<close> the ingress length of the packet.\<close>

definition execute_meter :: "('r \<Rightarrow> nat \<Rightarrow> nat) \<Rightarrow> nat \<Rightarrow> nat \<Rightarrow> nat \<Rightarrow> 'r meter \<Rightarrow> (nat \<times> 'r meter) option" where
  "execute_meter tok micros len pre m =
     (if \<not> configured m then Some (0, m)
      else do {
        (c, rs) \<leftarrow> mark_loop tok micros (if m_type m = PACKETS then 1 else len) (rates m);
        Some (max pre c, m\<lparr>rates := rs\<rparr>) })"

section \<open>Saving and restoring\<close>

text \<open>A stream is the list of the values printed; \<open>printed\<close> is what a rate is read back as.\<close>

datatype 'r item = Flag bool | Rate 'r | Size nat

definition meter_serialize :: "('r \<Rightarrow> 'r) \<Rightarrow> 'r meter \<Rightarrow> 'r item list" where
  "meter_serialize printed m = Flag (configured m) #
     (if configured m then concat (map (\<lambda>r. [Rate (printed (info_rate r)), Size (burst_size r)]) (rates m)) else [])"

fun restore_loop :: "('r \<Rightarrow> 'r \<Rightarrow> bool) \<Rightarrow> nat \<Rightarrow> nat \<Rightarrow> 'r item list \<Rightarrow> 'r meter \<Rightarrow> ('r meter \<times> 'r item list) option" where
  "restore_loop gt 0 idx xs m = Some (m, xs)"
| "restore_loop gt (Suc n) idx (Rate r # Size b # xs) m = do {
     (rc, m') \<leftarrow> set_rate gt idx \<lparr>rc_info_rate = r, rc_burst_size = b\<rparr> m;
     restore_loop gt n (idx + 1) xs m' }"
| "restore_loop gt (Suc n) idx xs m = None"

definition meter_deserialize :: "('r \<Rightarrow> 'r \<Rightarrow> bool) \<Rightarrow> 'r item list \<Rightarrow> 'r meter \<Rightarrow> ('r meter \<times> 'r item list) option" where
  "meter_deserialize gt xs m = (case xs of
       Flag b # ys \<Rightarrow> (if b then restore_loop gt (length (rates m)) 0 ys (m\<lparr>configured := True\<rparr>)
         else Some (m\<lparr>configured := False\<rparr>, ys))
     | _ \<Rightarrow> None)"

section \<open>Arrays of meters\<close>

type_synonym 'r meter_array = "'r meter list"

definition array_new :: "'r \<Rightarrow> meter_type \<Rightarrow> nat \<Rightarrow> nat \<Rightarrow> 'r meter_array" where
  "array_new zero ty n k = replicate k (meter_new zero ty n)"

definition array_execute :: "('r \<Rightarrow> nat \<Rightarrow> nat) \<Rightarrow> nat \<Rightarrow> nat \<Rightarrow> nat \<Rightarrow> nat \<Rightarrow> 'r meter_array \<Rightarrow> (nat \<times> 'r meter_array) option" where
  "array_execute tok micros len idx pre ms = do {
     m \<leftarrow> nth_opt ms idx;
     (c, m') \<leftarrow> execute_meter tok micros len pre m;
     Some (c, ms[idx := m']) }"

fun array_set_rates :: "('r \<Rightarrow> 'r \<Rightarrow> bool) \<Rightarrow> 'r rate_config list \<Rightarrow> 'r meter_array \<Rightarrow> (meter_code \<times> 'r meter_array) option" where
  "array_set_rates gt cs [] = Some (SUCCESS, [])"
| "array_set_rates gt cs (m # ms) = do {
     (rc, m') \<leftarrow> set_rates gt cs m;
     if rc \<noteq> SUCCESS then Some (rc, m' # ms)
     else do { (rc', ms') \<leftarrow> array_set_rates gt cs ms; Some (rc', m' # ms') } }"

definition array_reset :: "'r meter_array \<Rightarrow> 'r meter_array" where
  "array_reset ms = map (snd \<circ> reset_rates) ms"

definition array_serialize :: "('r \<Rightarrow> 'r) \<Rightarrow> 'r meter_array \<Rightarrow> 'r item list" where
  "array_serialize printed ms = concat (map (meter_serialize printed) ms)"

fun array_deserialize :: "('r \<Rightarrow> 'r \<Rightarrow> bool) \<Rightarrow> 'r item list \<Rightarrow> 'r meter_array \<Rightarrow> ('r meter_array \<times> 'r item list) option" where
  "array_deserialize gt xs [] = Some ([], xs)"
| "array_deserialize gt xs (m # ms) = do {
     (m', ys) \<leftarrow> meter_deserialize gt xs m;
     (ms', zs) \<leftarrow> array_deserialize gt ys ms;
     Some (m' # ms', zs) }"

section \<open>The two rate three color marker\<close>

text \<open>
  The marker of RFC 2698 in color-blind mode: both buckets are filled up to the burst sizes as time passes; a packet
  that the peak bucket cannot pay for is red (2), one that only the committed one cannot pay for yellow (1).
\<close>

record 'r trtcm =
  cir :: 'r
  cbs :: nat
  pir :: 'r
  pbs :: nat
  tc :: nat
  tp :: nat
  at_time :: nat

definition trtcm_mark :: "('r \<Rightarrow> nat \<Rightarrow> nat) \<Rightarrow> nat \<Rightarrow> nat \<Rightarrow> 'r trtcm \<Rightarrow> nat \<times> 'r trtcm" where
  "trtcm_mark tok t b s =
     (let c = min (tc s + (tok (cir s) t - tok (cir s) (at_time s))) (cbs s);
          p = min (tp s + (tok (pir s) t - tok (pir s) (at_time s))) (pbs s);
          s' = s\<lparr>at_time := t, tc := c, tp := p\<rparr>
      in if p < b then (2, s')
         else if c < b then (1, s'\<lparr>tp := p - b\<rparr>)
         else (0, s'\<lparr>tc := c - b, tp := p - b\<rparr>))"

definition trtcm_new :: "'r rate_config \<Rightarrow> 'r rate_config \<Rightarrow> nat \<Rightarrow> 'r trtcm" where
  "trtcm_new c p t = \<lparr>cir = rc_info_rate c, cbs = rc_burst_size c, pir = rc_info_rate p, pbs = rc_burst_size p,
     tc = rc_burst_size c, tp = rc_burst_size p, at_time = t\<rparr>"

text \<open>Packets are times and lengths.\<close>

fun trtcm_run :: "('r \<Rightarrow> nat \<Rightarrow> nat) \<Rightarrow> (nat \<times> nat) list \<Rightarrow> 'r trtcm \<Rightarrow> nat list" where
  "trtcm_run tok [] s = []"
| "trtcm_run tok ((t, b) # ps) s = (let (c, s') = trtcm_mark tok t b s in c # trtcm_run tok ps s')"

fun meter_run :: "('r \<Rightarrow> nat \<Rightarrow> nat) \<Rightarrow> (nat \<times> nat) list \<Rightarrow> 'r meter \<Rightarrow> nat list option" where
  "meter_run tok [] m = Some []"
| "meter_run tok ((t, b) # ps) m = do {
     (c, m') \<leftarrow> execute_meter tok t b 0 m;
     cs \<leftarrow> meter_run tok ps m';
     Some (c # cs) }"

text \<open>What a bucket of the meter holds once it is brought up to date, against one that always is.\<close>

definition bucket_is :: "('r \<Rightarrow> nat \<Rightarrow> nat) \<Rightarrow> nat \<Rightarrow> 'r meter_rate \<Rightarrow> nat \<Rightarrow> bool" where
  "bucket_is tok t r k \<longleftrightarrow> tokens_last r \<le> tok (info_rate r) t \<and> tokens r \<le> burst_size r \<and>
     k = min (tokens r + (tok (info_rate r) t - tokens_last r)) (burst_size r)"

text \<open>The words do not wrap around: the accumulated tokens and a burst fit into 64 bits, up to the time \<open>T\<close>.\<close>

definition fits :: "('r \<Rightarrow> nat \<Rightarrow> nat) \<Rightarrow> nat \<Rightarrow> 'r \<Rightarrow> nat \<Rightarrow> bool" where
  "fits tok T x b \<longleftrightarrow> tok x T + b < 2 ^ 64"

text \<open>Filling late is filling in time.\<close>

lemma lazy_min:
  fixes a :: nat
  assumes "l \<le> t" "t \<le> u"
  shows "min (a + (u - l)) b = min (min (a + (t - l)) b + (u - t)) b"
  using assms unfolding min_def by (simp split: if_splits) linarith

lemma refill_bucket:
  assumes "bucket_is tok t r k" "mono (tok (info_rate r))" "fits tok T (info_rate r) (burst_size r)" "t \<le> u" "u \<le> T"
  shows "refill tok u r = Some (r\<lparr>tokens_last := tok (info_rate r) u,
    tokens := min (k + (tok (info_rate r) u - tok (info_rate r) t)) (burst_size r)\<rparr>)"
proof -
  let ?f = "tok (info_rate r)"
  have m: "?f t \<le> ?f u" "?f u \<le> ?f T" using assms(2,4,5) by (auto dest: monoD)
  with assms have "tokens r + (?f u - tokens_last r) < 2 ^ 64" by (auto simp: bucket_is_def fits_def)
  then have "(tokens r + (?f u - tokens_last r)) mod 2 ^ 64 = tokens r + (?f u - tokens_last r)" by simp
  with m assms(1) show ?thesis
    using lazy_min [of "tokens_last r" "?f t" "?f u" "tokens r" "burst_size r"]
    by (simp add: refill_def bucket_is_def Let_def)
qed

text \<open>The meter and the marker between two packets.\<close>

definition meter_is :: "('r \<Rightarrow> nat \<Rightarrow> nat) \<Rightarrow> nat \<Rightarrow> 'r meter \<Rightarrow> 'r trtcm \<Rightarrow> bool" where
  "meter_is tok T m s \<longleftrightarrow> configured m \<and> (\<exists>rp rc. rates m = [rp, rc] \<and> mr_color rp = 2 \<and> mr_color rc = 1 \<and>
     info_rate rp = pir s \<and> burst_size rp = pbs s \<and> info_rate rc = cir s \<and> burst_size rc = cbs s \<and>
     bucket_is tok (at_time s) rp (tp s) \<and> bucket_is tok (at_time s) rc (tc s) \<and>
     mono (tok (pir s)) \<and> mono (tok (cir s)) \<and> fits tok T (pir s) (pbs s) \<and> fits tok T (cir s) (cbs s))"

lemma bucket_now: "tokens r \<le> burst_size r \<Longrightarrow> tokens_last r = tok (info_rate r) t \<Longrightarrow> bucket_is tok t r (tokens r)"
  by (simp add: bucket_is_def)

lemma bucket_later:
  assumes "bucket_is tok t r k" "mono (tok (info_rate r))" "t \<le> u"
  shows "bucket_is tok u r (min (k + (tok (info_rate r) u - tok (info_rate r) t)) (burst_size r))"
proof -
  have "tok (info_rate r) t \<le> tok (info_rate r) u" using assms(2,3) by (rule monoD)
  with assms(1) show ?thesis
    unfolding bucket_is_def using lazy_min [of "tokens_last r" "tok (info_rate r) t" "tok (info_rate r) u" "tokens r" "burst_size r"]
    by simp
qed

definition meter_input :: "'r meter \<Rightarrow> nat \<Rightarrow> nat" where
  "meter_input m b = (if m_type m = PACKETS then 1 else b)"

lemma meter_step:
  fixes b :: nat
  assumes "meter_is tok T m s" "at_time s \<le> t" "t \<le> T"
  defines "inp \<equiv> meter_input m b"
  obtains c s' m' where "trtcm_mark tok t inp s = (c, s')" "execute_meter tok t b 0 m = Some (c, m')" "meter_is tok T m' s'"
    "at_time s' = t" "m_type m' = m_type m"
proof -
  obtain rp rc where r: "rates m = [rp, rc]" "mr_color rp = 2" "mr_color rc = 1"
    "info_rate rp = pir s" "burst_size rp = pbs s" "info_rate rc = cir s" "burst_size rc = cbs s"
    and B: "bucket_is tok (at_time s) rp (tp s)" "bucket_is tok (at_time s) rc (tc s)"
    and M: "mono (tok (pir s))" "mono (tok (cir s))" "fits tok T (pir s) (pbs s)" "fits tok T (cir s) (cbs s)" and conf: "configured m"
    using assms(1) by (auto simp: meter_is_def)
  define p where "p = min (tp s + (tok (pir s) t - tok (pir s) (at_time s))) (pbs s)"
  define c where "c = min (tc s + (tok (cir s) t - tok (cir s) (at_time s))) (cbs s)"
  let ?rp = "rp\<lparr>tokens_last := tok (pir s) t, tokens := p\<rparr>" let ?rc = "rc\<lparr>tokens_last := tok (cir s) t, tokens := c\<rparr>"
  let ?s = "s\<lparr>at_time := t, tc := c, tp := p\<rparr>"
  have P: "refill tok t rp = Some ?rp" and C: "refill tok t rc = Some ?rc"
    using refill_bucket [OF B(1), of T t] refill_bucket [OF B(2), of T t] M assms(2,3) r by (simp_all add: p_def c_def)
  have le: "p \<le> pbs s" "c \<le> cbs s" by (simp_all add: p_def c_def)
  have late: "bucket_is tok t rc c"
    using bucket_later [OF B(2) _ assms(2)] M r by (simp add: c_def)
  have mark: "trtcm_mark tok t inp s = (if p < inp then (2, ?s) else if c < inp then (1, ?s\<lparr>tp := p - inp\<rparr>)
      else (0, ?s\<lparr>tc := c - inp, tp := p - inp\<rparr>))"
    by (simp add: trtcm_mark_def Let_def p_def c_def)
  have exec: "execute_meter tok t b 0 m = (if p < inp then Some (2, m\<lparr>rates := [?rp, rc]\<rparr>)
      else if c < inp then Some (1, m\<lparr>rates := [?rp\<lparr>tokens := p - inp\<rparr>, ?rc]\<rparr>)
      else Some (0, m\<lparr>rates := [?rp\<lparr>tokens := p - inp\<rparr>, ?rc\<lparr>tokens := c - inp\<rparr>]\<rparr>))"
    unfolding execute_meter_def using conf r by (simp add: P C inp_def [unfolded meter_input_def, symmetric])
  have now: "bucket_is tok t (rp\<lparr>tokens_last := tok (pir s) t, tokens := k\<rparr>) k" if "k \<le> pbs s" for k
    using that r by (simp add: bucket_is_def)
  have now': "bucket_is tok t (rc\<lparr>tokens_last := tok (cir s) t, tokens := k\<rparr>) k" if "k \<le> cbs s" for k
    using that r by (simp add: bucket_is_def)
  consider "p < inp" | "\<not> p < inp" "c < inp" | "\<not> p < inp" "\<not> c < inp" by blast
  then show ?thesis
  proof cases
    case 1
    show ?thesis
      by (rule that [of 2 ?s "m\<lparr>rates := [?rp, rc]\<rparr>"])
        (use 1 r conf M late now [OF le(1)] in \<open>simp_all add: mark exec meter_is_def\<close>)
  next
    case 2
    show ?thesis
      by (rule that [of 1 "?s\<lparr>tp := p - inp\<rparr>" "m\<lparr>rates := [?rp\<lparr>tokens := p - inp\<rparr>, ?rc]\<rparr>"])
        (use 2 r conf M le now [of "p - inp"] now' [OF le(2)] in \<open>simp_all add: mark exec meter_is_def\<close>)
  next
    case 3
    show ?thesis
      by (rule that [of 0 "?s\<lparr>tc := c - inp, tp := p - inp\<rparr>" "m\<lparr>rates := [?rp\<lparr>tokens := p - inp\<rparr>, ?rc\<lparr>tokens := c - inp\<rparr>]\<rparr>"])
        (use 3 r conf M le now [of "p - inp"] now' [of "c - inp"] in \<open>simp_all add: mark exec meter_is_def\<close>)
  qed
qed

fun times_from :: "nat \<Rightarrow> nat \<Rightarrow> (nat \<times> nat) list \<Rightarrow> bool" where
  "times_from t T [] = True"
| "times_from t T ((u, b) # ps) \<longleftrightarrow> t \<le> u \<and> u \<le> T \<and> times_from u T ps"

lemma meter_run_eq:
  assumes "meter_is tok T m s" "times_from (at_time s) T ps"
  shows "meter_run tok ps m = Some (trtcm_run tok (map (apsnd (meter_input m)) ps) s)"
  using assms
proof (induction ps arbitrary: m s)
  case (Cons q ps)
  obtain t b where q: "q = (t, b)" by (cases q)
  with Cons.prems(2) have t: "at_time s \<le> t" "t \<le> T" and rest: "times_from t T ps" by simp_all
  obtain c s' m' where step: "trtcm_mark tok t (meter_input m b) s = (c, s')" "execute_meter tok t b 0 m = Some (c, m')"
    and m': "meter_is tok T m' s'" and tt: "at_time s' = t" and mt: "m_type m' = m_type m"
    using meter_step [OF Cons.prems(1) t, of b] by blast
  have "times_from (at_time s') T ps" using rest tt by simp
  moreover have "meter_input m' = meter_input m" by (simp add: fun_eq_iff meter_input_def mt)
  ultimately show ?case using Cons.IH [OF m'] step by (simp add: q)
qed simp

lemma set_two_rates:
  assumes "length (rates m) = 2" "\<not> gt (rc_info_rate c) (rc_info_rate p)"
  shows "set_rates gt [c, p] m = Some (SUCCESS, m\<lparr>rates := [configured_rate 1 p, configured_rate 0 c], configured := True\<rparr>)"
proof -
  obtain a b where "rates m = [a, b]" using assms(1) by (auto simp: numeral_2_eq_2 length_Suc_conv)
  with assms(2) show ?thesis by (simp add: set_rates_def set_rate_def configured_rate_def)
qed

lemma configured_meter_is:
  assumes "mono (tok (rc_info_rate c))" "mono (tok (rc_info_rate p))"
    and "fits tok T (rc_info_rate c) (rc_burst_size c)" "fits tok T (rc_info_rate p) (rc_burst_size p)"
  shows "meter_is tok T (m\<lparr>rates := [configured_rate 1 p, configured_rate 0 c], configured := True\<rparr>) (trtcm_new c p t)"
  using assms by (simp add: meter_is_def trtcm_new_def configured_rate_def bucket_is_def)

lemma meter_run_ref:
  assumes "set_rates gt [c, p] m = Some (SUCCESS, m')" "times_from t T ps"
    and "mono (tok (rc_info_rate c))" "mono (tok (rc_info_rate p))"
    and "fits tok T (rc_info_rate c) (rc_burst_size c)" "fits tok T (rc_info_rate p) (rc_burst_size p)"
  shows "meter_run tok ps m' = Some (trtcm_run tok (map (apsnd (meter_input m)) ps) (trtcm_new c p t))"
proof -
  have l: "length (rates m) = 2" using assms(1) by (auto simp: set_rates_def split: if_splits)
  have "\<not> gt (rc_info_rate c) (rc_info_rate p)"
    using assms(1) l by (auto simp: set_rates_def set_rate_def configured_rate_def Let_def bind_eq_Some_iff split: if_splits)
  from set_two_rates [of m gt c p, OF l this] assms(1)
  have m': "m' = m\<lparr>rates := [configured_rate 1 p, configured_rate 0 c], configured := True\<rparr>" by simp
  have "meter_input m' = meter_input m" by (simp add: fun_eq_iff meter_input_def m')
  with meter_run_eq [OF configured_meter_is [where m = m and t = t, OF assms(3-6)], of ps] assms(2) show ?thesis
    by (simp add: trtcm_new_def m')
qed

text \<open>
  C17: A meter that is configured with a committed and a peak rate gives each packet the color that the two
  rate three color marker gives it, whenever the packets come and whatever their lengths are; for a meter of
  packets every length counts as one.
\<close>

theorem meter_is_trtcm:
  assumes "set_rates gt [c, p] m = Some (SUCCESS, m')" "times_from t T ps"
    and "mono (tok (rc_info_rate c))" "mono (tok (rc_info_rate p))"
    and "fits tok T (rc_info_rate c) (rc_burst_size c)" "fits tok T (rc_info_rate p) (rc_burst_size p)"
  shows "meter_run tok ps m' = Some (trtcm_run tok (map (apsnd (meter_input m)) ps) (trtcm_new c p t))"
  using assms by (rule meter_run_ref)

text \<open>Rates as numbers of tokens for a microsecond.\<close>

definition exact_tok :: "nat \<Rightarrow> nat \<Rightarrow> nat" where
  "exact_tok r t = r * t"

lemma exact_mono: "mono (exact_tok r)"
  by (simp add: exact_tok_def mono_def)

lemma meter_is_trtcm_witness:
  "meter_run exact_tok [(5, 80), (5, 40), (5, 90), (45, 60)] (snd (the (set_rates (>) [\<lparr>rc_info_rate = 1, rc_burst_size = 100\<rparr>,
     \<lparr>rc_info_rate = 2, rc_burst_size = 150\<rparr>] (meter_new 0 BYTES 2)))) = Some [0, 1, 2, 0]"
proof -
  let ?c = "\<lparr>rc_info_rate = 1 :: nat, rc_burst_size = 100\<rparr>" let ?p = "\<lparr>rc_info_rate = 2 :: nat, rc_burst_size = 150\<rparr>"
  let ?m = "meter_new 0 BYTES 2 :: nat meter"
  have l: "length (rates ?m) = 2" by (simp add: meter_new_def)
  have "set_rates (>) [?c, ?p] ?m = Some (SUCCESS, ?m\<lparr>rates := [configured_rate 1 ?p, configured_rate 0 ?c], configured := True\<rparr>)"
    by (rule set_two_rates [OF l]) simp
  from meter_is_trtcm [OF this, of 5 45 "[(5, 80), (5, 40), (5, 90), (45, 60)]" exact_tok] this show ?thesis
    by (simp add: exact_mono fits_def exact_tok_def trtcm_new_def trtcm_mark_def meter_input_def meter_new_def)
qed

section \<open>What is marked green\<close>

lemma trtcm_green:
  assumes "times_from (at_time s) T ps" "mono (tok (cir s))" "tc s \<le> cbs s"
  shows "sum_list (map (\<lambda>((t, b), c). if c = 0 then b else 0) (zip ps (trtcm_run tok ps s))) + tok (cir s) (at_time s)
    \<le> tc s + tok (cir s) T + (if ps = [] then tok (cir s) (at_time s) else 0)"
  using assms
proof (induction ps arbitrary: s)
  case (Cons q ps)
  obtain t b where q: "q = (t, b)" by (cases q)
  obtain c s' where step: "trtcm_mark tok t b s = (c, s')" by (cases "trtcm_mark tok t b s")
  then have s': "cir s' = cir s" "cbs s' = cbs s" "at_time s' = t" "tc s' \<le> cbs s'"
    "(if c = 0 then b else 0) + tc s' \<le> tc s + (tok (cir s) t - tok (cir s) (at_time s))"
    by (auto simp: trtcm_mark_def Let_def split: if_splits)
  from Cons.prems q have t: "at_time s \<le> t" "t \<le> T" "times_from t T ps" by simp_all
  have m: "tok (cir s) (at_time s) \<le> tok (cir s) t" "tok (cir s) t \<le> tok (cir s) T"
    using Cons.prems(2) t by (auto dest: monoD)
  have "sum_list (map (\<lambda>((t, b), c). if c = 0 then b else 0) (zip ps (trtcm_run tok ps s'))) + tok (cir s) t
    \<le> tc s' + tok (cir s) T + (if ps = [] then tok (cir s) t else 0)"
    using Cons.IH [of s'] s' t Cons.prems(2) by (cases "ps = []") simp_all
  then show ?case using s'(5) m step by (cases "ps = []") (auto simp: q)
qed simp

text \<open>The marker after some packets, and the marker with its buckets filled up to a time.\<close>

fun trtcm_after :: "('r \<Rightarrow> nat \<Rightarrow> nat) \<Rightarrow> (nat \<times> nat) list \<Rightarrow> 'r trtcm \<Rightarrow> 'r trtcm" where
  "trtcm_after tok [] s = s"
| "trtcm_after tok ((t, b) # ps) s = trtcm_after tok ps (snd (trtcm_mark tok t b s))"

definition trtcm_wait :: "('r \<Rightarrow> nat \<Rightarrow> nat) \<Rightarrow> nat \<Rightarrow> 'r trtcm \<Rightarrow> 'r trtcm" where
  "trtcm_wait tok u s = s\<lparr>at_time := u, tc := min (tc s + (tok (cir s) u - tok (cir s) (at_time s))) (cbs s),
     tp := min (tp s + (tok (pir s) u - tok (pir s) (at_time s))) (pbs s)\<rparr>"

lemma trtcm_run_append: "trtcm_run tok (qs @ ps) s = trtcm_run tok qs s @ trtcm_run tok ps (trtcm_after tok qs s)"
  by (induction tok qs s rule: trtcm_after.induct) (simp_all add: split_def Let_def)

lemma trtcm_run_length [simp]: "length (trtcm_run tok ps s) = length ps"
proof (induction ps arbitrary: s)
  case (Cons q ps)
  then show ?case by (cases q) (simp add: split_def Let_def)
qed simp

lemma trtcm_mark_frame:
  "cir (snd (trtcm_mark tok t b s)) = cir s" "cbs (snd (trtcm_mark tok t b s)) = cbs s" "pir (snd (trtcm_mark tok t b s)) = pir s"
  "pbs (snd (trtcm_mark tok t b s)) = pbs s" "at_time (snd (trtcm_mark tok t b s)) = t"
  "tc (snd (trtcm_mark tok t b s)) \<le> cbs s"
  by (auto simp: trtcm_mark_def Let_def)

lemma trtcm_after_frame:
  assumes "times_from (at_time s) T qs" "tc s \<le> cbs s"
  shows "cir (trtcm_after tok qs s) = cir s \<and> cbs (trtcm_after tok qs s) = cbs s \<and> pir (trtcm_after tok qs s) = pir s \<and>
    tc (trtcm_after tok qs s) \<le> cbs s \<and> at_time s \<le> at_time (trtcm_after tok qs s) \<and>
    (\<forall>u. at_time s \<le> u \<and> (\<forall>(t, b) \<in> set qs. t \<le> u) \<longrightarrow> at_time (trtcm_after tok qs s) \<le> u)"
  using assms
proof (induction qs arbitrary: s)
  case (Cons q qs)
  obtain t b where q: "q = (t, b)" by (cases q)
  show ?case
    using Cons.IH [of "snd (trtcm_mark tok t b s)"] Cons.prems trtcm_mark_frame [of tok t b s] by (auto simp: q)
qed simp

lemma trtcm_wait_mark:
  assumes "mono (tok (cir s))" "mono (tok (pir s))" "at_time s \<le> u" "u \<le> t"
  shows "trtcm_mark tok t b (trtcm_wait tok u s) = trtcm_mark tok t b s"
proof -
  have l: "tok (cir s) (at_time s) \<le> tok (cir s) u" "tok (cir s) u \<le> tok (cir s) t"
    "tok (pir s) (at_time s) \<le> tok (pir s) u" "tok (pir s) u \<le> tok (pir s) t"
    using assms by (auto dest: monoD)
  show ?thesis
    using lazy_min [OF l(1,2), of "tc s" "cbs s"] lazy_min [OF l(3,4), of "tp s" "pbs s"]
    by (simp add: trtcm_mark_def trtcm_wait_def Let_def)
qed

lemma trtcm_wait_run:
  assumes "mono (tok (cir s))" "mono (tok (pir s))" "at_time s \<le> u" "times_from u T ps"
  shows "trtcm_run tok ps (trtcm_wait tok u s) = trtcm_run tok ps s"
  using assms by (cases ps) (auto simp: trtcm_wait_mark)

lemma times_from_append:
  "times_from t T (qs @ ps) \<longleftrightarrow> times_from t T qs \<and> times_from (last (t # map fst qs)) T ps"
  by (induction t T qs rule: times_from.induct) auto

lemma times_from_bounded: "times_from t T qs \<Longrightarrow> \<forall>(u, b) \<in> set qs. u \<le> T"
  by (induction t T qs rule: times_from.induct) auto

lemma times_from_last: "times_from t T qs \<Longrightarrow> t \<le> T \<Longrightarrow> last (t # map fst qs) \<le> T"
  by (induction t T qs rule: times_from.induct) auto

lemma times_from_until: "times_from t T qs \<Longrightarrow> T \<le> T' \<Longrightarrow> times_from t T' qs"
  by (induction t T qs rule: times_from.induct) auto

lemma times_from_earlier: "times_from t T qs \<Longrightarrow> s \<le> t \<Longrightarrow> times_from s T qs"
  by (cases qs) auto

lemma times_from_map: "times_from t T (map (apsnd f) ps) = times_from t T ps"
  by (induction t T ps rule: times_from.induct) simp_all

text \<open>
  C18: Between any two times \<open>u\<close> and \<open>v\<close> after the configuration of a meter, whatever packets \<open>qs\<close> came before \<open>u\<close>, the
  packets \<open>ps\<close> that the meter marks green have together at most the committed burst and what the committed rate gives from
  \<open>u\<close> to \<open>v\<close>: in bytes for a meter of bytes, in packets for a meter of packets.  The times of the packets do not decrease, the
  tokens of a rate do not decrease with time, and up to the last packet no sum of tokens reaches 64 bits.
\<close>

theorem green_bytes_bounded:
  assumes "set_rates gt [c, p] m = Some (SUCCESS, m')" "times_from t u qs" "t \<le> u" "times_from u v ps" "u \<le> v"
    and "mono (tok (rc_info_rate c))" "mono (tok (rc_info_rate p))"
    and "fits tok v (rc_info_rate c) (rc_burst_size c)" "fits tok v (rc_info_rate p) (rc_burst_size p)"
  shows "\<exists>before colors. meter_run tok (qs @ ps) m' = Some (before @ colors) \<and> length before = length qs \<and>
    sum_list (map (\<lambda>((w, b), k). if k = 0 then meter_input m b else 0) (zip ps colors))
      \<le> rc_burst_size c + (tok (rc_info_rate c) v - tok (rc_info_rate c) u)"
proof -
  let ?s = "trtcm_new c p t" and ?in = "map (apsnd (meter_input m))"
  let ?s1 = "trtcm_after tok (?in qs) ?s"
  have s: "cir ?s = rc_info_rate c" "pir ?s = rc_info_rate p" "cbs ?s = rc_burst_size c" "at_time ?s = t" "tc ?s \<le> cbs ?s"
    by (simp_all add: trtcm_new_def)
  have q: "times_from (at_time ?s) u (?in qs)" using assms(2) s(4) by (simp add: times_from_map)
  note le = times_from_bounded [OF q]
  note a = trtcm_after_frame [OF q s(5), of tok]
  have "at_time ?s \<le> u \<and> (\<forall>(w, b) \<in> set (?in qs). w \<le> u) \<longrightarrow> at_time ?s1 \<le> u" using a by (elim conjE) (erule spec)
  then have at: "at_time ?s1 \<le> u" using le assms(3) s(4) by simp
  have m: "mono (tok (cir ?s1))" "mono (tok (pir ?s1))" using a s assms(6,7) by simp_all
  have tf: "times_from t v (qs @ ps)"
    using times_from_until [OF assms(2,5)] times_from_earlier [OF assms(4) times_from_last [OF assms(2,3)]]
    by (simp only: times_from_append simp_thms)
  have run: "meter_run tok (qs @ ps) m' = Some (trtcm_run tok (?in qs) ?s @ trtcm_run tok (?in ps) ?s1)"
    using meter_run_ref [OF assms(1) tf assms(6-9)] by (simp add: trtcm_run_append)
  have "tok (rc_info_rate c) u \<le> tok (rc_info_rate c) v" using assms(5,6) by (auto dest: monoD)
  moreover have "times_from (at_time (trtcm_wait tok u ?s1)) v (?in ps)" using assms(4) by (simp add: trtcm_wait_def times_from_map)
  note trtcm_green [OF this, of tok]
  moreover have "cir (trtcm_wait tok u ?s1) = rc_info_rate c" "tc (trtcm_wait tok u ?s1) \<le> cbs (trtcm_wait tok u ?s1)"
    "cbs (trtcm_wait tok u ?s1) = rc_burst_size c" "at_time (trtcm_wait tok u ?s1) = u"
    using a s by (simp_all add: trtcm_wait_def)
  moreover have "trtcm_run tok (?in ps) (trtcm_wait tok u ?s1) = trtcm_run tok (?in ps) ?s1"
    by (rule trtcm_wait_run [OF m at]) (use assms(4) in \<open>simp add: times_from_map\<close>)
  ultimately have "sum_list (map (\<lambda>((w, b), k). if k = 0 then b else 0) (zip (?in ps) (trtcm_run tok (?in ps) ?s1)))
      \<le> rc_burst_size c + (tok (rc_info_rate c) v - tok (rc_info_rate c) u)"
    using assms(6) by (cases "ps = []") simp_all
  moreover have "map (\<lambda>((w, b), k). if k = 0 then b else 0) (zip (?in ps) cs) =
      map (\<lambda>((w, b), k). if k = 0 then meter_input m b else 0) (zip ps cs)" for cs :: "nat list"
    by (induction ps cs rule: list_induct2') auto
  ultimately show ?thesis using run
    by (intro exI [of _ "trtcm_run tok (?in qs) ?s"] exI [of _ "trtcm_run tok (?in ps) ?s1"] conjI) simp_all
qed

definition example_meter :: "nat meter" where
  "example_meter = (meter_new 0 BYTES 2)\<lparr>
     rates := [configured_rate 1 \<lparr>rc_info_rate = 2, rc_burst_size = 150\<rparr>, configured_rate 0 \<lparr>rc_info_rate = 1, rc_burst_size = 100\<rparr>],
     configured := True\<rparr>"

lemma example_set: "set_rates (>) [\<lparr>rc_info_rate = 1, rc_burst_size = 100\<rparr>, \<lparr>rc_info_rate = 2, rc_burst_size = 150\<rparr>]
    (meter_new 0 BYTES 2) = Some (SUCCESS, example_meter)"
  unfolding example_meter_def by (rule set_two_rates) (simp_all add: meter_new_def)


definition early_packets :: "(nat \<times> nat) list" where "early_packets = [(5, 80), (5, 40)]"

definition late_packets :: "(nat \<times> nat) list" where "late_packets = [(20, 90), (45, 60)]"

lemma green_bytes_bounded_witness:
  "\<exists>before colors. meter_run exact_tok (early_packets @ late_packets) example_meter = Some (before @ colors) \<and> length before = 2 \<and>
    sum_list (map (\<lambda>((w, b), k). if k = 0 then b else 0) (zip late_packets colors)) \<le> 125"
proof -
  have t: "times_from 5 20 early_packets" "(5 :: nat) \<le> 20" "times_from 20 45 late_packets" "(20 :: nat) \<le> 45"
    by (simp_all add: early_packets_def late_packets_def)
  have l: "length early_packets = 2" "100 + (exact_tok 1 45 - exact_tok 1 20) = 125"
    "fits exact_tok 45 1 100" "fits exact_tok 45 2 150" by (simp_all add: early_packets_def exact_tok_def fits_def)
  have i: "meter_input (meter_new 0 BYTES 2 :: nat meter) b = b" for b by (simp add: meter_input_def meter_new_def)
  from green_bytes_bounded [OF example_set t, of exact_tok] l show ?thesis by (simp add: exact_mono i cong: if_cong)
qed

section \<open>A state that is restored\<close>

lemma refill_configured:
  "rc_burst_size c + tok (rc_info_rate c) t < 2 ^ 64 \<Longrightarrow>
    refill tok t (configured_rate i c) = Some ((configured_rate i c)\<lparr>tokens_last := tok (rc_info_rate c) t\<rparr>)"
  by (simp add: refill_def configured_rate_def)

lemma refill_configured_le:
  "\<exists>r. refill tok t (configured_rate i c) = Some r \<and> tokens r \<le> rc_burst_size c \<and> mr_color r = i + 1"
  by (simp add: refill_def configured_rate_def Let_def)

text \<open>
  The rates are saved highest first and restored as if the lowest came first: in the restored state the peak rate has
  the color of the committed one and the other way round.  A packet that exceeds the peak rate is then yellow, and one
  that exceeds the committed rate only is red.
\<close>

theorem restored_meter_swaps_colors:
  assumes "set_rates gt [c, p] m = Some (SUCCESS, m')" "length (rates m0) = 2" "m_type m0 = BYTES"
  shows "\<exists>m1. meter_deserialize gt (meter_serialize id m') m0 = Some (m1, []) \<and>
    rates m1 = [configured_rate 0 p, configured_rate 1 c] \<and>
    (\<forall>b. rc_burst_size p < b \<and> rc_burst_size p + tok (rc_info_rate p) t < 2 ^ 64 \<longrightarrow>
      (\<exists>m2. execute_meter tok t b 0 m1 = Some (1, m2))) \<and>
    (\<forall>b. rc_burst_size c < b \<and> b \<le> rc_burst_size p \<and> rc_burst_size p + tok (rc_info_rate p) t < 2 ^ 64 \<and>
        rc_burst_size c + tok (rc_info_rate c) t < 2 ^ 64 \<longrightarrow>
      (\<exists>m2. execute_meter tok t b 0 m1 = Some (2, m2)))"
proof -
  have l: "length (rates m) = 2" using assms(1) by (auto simp: set_rates_def split: if_splits)
  have "\<not> gt (rc_info_rate c) (rc_info_rate p)"
    using assms(1) l by (auto simp: set_rates_def set_rate_def configured_rate_def Let_def bind_eq_Some_iff split: if_splits)
  from set_two_rates [of m gt c p, OF l this] assms(1)
  have m': "m' = m\<lparr>rates := [configured_rate 1 p, configured_rate 0 c], configured := True\<rparr>" by simp
  obtain x y where xy: "rates m0 = [x, y]" using assms(2) by (auto simp: numeral_2_eq_2 length_Suc_conv)
  let ?m1 = "m0\<lparr>configured := True, rates := [configured_rate 0 p, configured_rate 1 c]\<rparr>"
  have "meter_deserialize gt (meter_serialize id m') m0 = Some (?m1, [])"
    by (simp add: m' meter_serialize_def meter_deserialize_def xy set_rate_def configured_rate_def numeral_2_eq_2)
  moreover have "\<exists>m2. execute_meter tok t b 0 ?m1 = Some (1, m2)"
    if "rc_burst_size p < b" "rc_burst_size p + tok (rc_info_rate p) t < 2 ^ 64" for b
  proof -
    have "refill tok t (configured_rate 0 p) = Some ((configured_rate 0 p)\<lparr>tokens_last := tok (rc_info_rate p) t\<rparr>)"
      by (rule refill_configured) (rule that)
    with that(1) show ?thesis by (simp add: execute_meter_def assms(3)) (simp add: configured_rate_def)
  qed
  moreover have "\<exists>m2. execute_meter tok t b 0 ?m1 = Some (2, m2)"
    if "rc_burst_size c < b" "b \<le> rc_burst_size p" "rc_burst_size p + tok (rc_info_rate p) t < 2 ^ 64"
      "rc_burst_size c + tok (rc_info_rate c) t < 2 ^ 64" for b
  proof -
    have "refill tok t (configured_rate 0 p) = Some ((configured_rate 0 p)\<lparr>tokens_last := tok (rc_info_rate p) t\<rparr>)"
      by (rule refill_configured) (rule that)
    moreover have "refill tok t (configured_rate 1 c) = Some ((configured_rate 1 c)\<lparr>tokens_last := tok (rc_info_rate c) t\<rparr>)"
      by (rule refill_configured) (rule that)
    ultimately show ?thesis using that(1,2) by (simp add: execute_meter_def assms(3)) (simp add: configured_rate_def)
  qed
  ultimately show ?thesis by (intro exI [of _ ?m1]) simp
qed

lemma restored_meter_swaps_colors_witness:
  "\<exists>m1 m2. meter_deserialize (>) (meter_serialize id example_meter) (meter_new 0 BYTES 2) = Some (m1, []) \<and>
    execute_meter exact_tok 5 120 0 m1 = Some (2, m2)"
proof -
  have "length (rates (meter_new 0 BYTES 2 :: nat meter)) = 2" "m_type (meter_new 0 BYTES 2 :: nat meter) = BYTES"
    by (simp_all add: meter_new_def)
  from restored_meter_swaps_colors [OF example_set this, of exact_tok 5]
  obtain m1 where "meter_deserialize (>) (meter_serialize id example_meter) (meter_new 0 BYTES 2) = Some (m1, [])"
    and "\<forall>b. 100 < b \<and> b \<le> 150 \<and> 150 + exact_tok 2 5 < 2 ^ 64 \<and> 100 + exact_tok 1 5 < 2 ^ 64 \<longrightarrow>
      (\<exists>m2. execute_meter exact_tok 5 b 0 m1 = Some (2, m2))"
    unfolding rate_config.simps by blast
  from this(1) this(2) [rule_format, of 120] show ?thesis by (auto simp: exact_tok_def)
qed

section \<open>A configuration that is rejected\<close>

text \<open>
  A configuration whose rates are in the wrong order is rejected after both have been written, without the change of
  order that the loop over the rates relies on, and the meter goes on with them: what exceeds the first is yellow,
  whether or not it exceeds the second.
\<close>

theorem rejected_rates_are_used:
  assumes "configured m" "length (rates m) = 2" "m_type m = BYTES" "gt (rc_info_rate a) (rc_info_rate b)"
  shows "\<exists>m'. set_rates gt [a, b] m = Some (INVALID_INFO_RATE_VALUE, m') \<and> configured m' \<and>
    rates m' = [configured_rate 0 a, configured_rate 1 b] \<and>
    (\<forall>len. rc_burst_size a < len \<longrightarrow> (\<exists>m2. execute_meter tok t len 0 m' = Some (1, m2)))"
proof -
  obtain x y where xy: "rates m = [x, y]" using assms(2) by (auto simp: numeral_2_eq_2 length_Suc_conv)
  let ?m = "m\<lparr>rates := [configured_rate 0 a, configured_rate 1 b]\<rparr>"
  have "set_rates gt [a, b] m = Some (INVALID_INFO_RATE_VALUE, ?m)"
    using assms(4) xy by (simp add: set_rates_def set_rate_def configured_rate_def)
  moreover have "\<exists>m2. execute_meter tok t len 0 ?m = Some (1, m2)" if "rc_burst_size a < len" for len
    using that refill_configured_le [of tok t 0 a] assms(1,3) by (auto simp: execute_meter_def)
  ultimately show ?thesis using assms(1) by (intro exI [of _ ?m]) simp
qed

lemma rejected_rates_are_used_witness:
  "\<exists>m' m2. set_rates (>) [\<lparr>rc_info_rate = 9, rc_burst_size = 50\<rparr>, \<lparr>rc_info_rate = 3, rc_burst_size = 10\<rparr>] example_meter =
      Some (INVALID_INFO_RATE_VALUE, m') \<and> execute_meter exact_tok 5 60 0 m' = Some (1, m2)"
proof -
  let ?a = "\<lparr>rc_info_rate = 9 :: nat, rc_burst_size = 50\<rparr>" let ?b = "\<lparr>rc_info_rate = 3 :: nat, rc_burst_size = 10\<rparr>"
  have "configured example_meter" "length (rates example_meter) = 2" "m_type example_meter = BYTES" "rc_info_rate ?a > rc_info_rate ?b"
    by (simp_all add: example_meter_def meter_new_def)
  from rejected_rates_are_used [of example_meter "(>)" ?a ?b exact_tok 5, OF this]
  obtain m' where "set_rates (>) [?a, ?b] example_meter = Some (INVALID_INFO_RATE_VALUE, m')"
    and "\<forall>len. rc_burst_size ?a < len \<longrightarrow> (\<exists>m2. execute_meter exact_tok 5 len 0 m' = Some (1, m2))" by blast
  from this(1) this(2) [rule_format, of 60] show ?thesis by auto
qed

section \<open>Two threads\<close>

text \<open>
  The time is read before the lock is taken.  When a thread that read it later gets the lock first, the assertion
  fails in the other, as soon as the rate has given a token in between.
\<close>

theorem late_thread_fails:
  assumes "configured m" "rates m = r # rs" "execute_meter tok t2 b2 0 m = Some (c, m')"
    and "tok (info_rate r) t1 < tok (info_rate r) t2"
  shows "execute_meter tok t1 b1 0 m' = None"
proof -
  have "\<exists>r' rs'. rates m' = r' # rs' \<and> tokens_last r' = tok (info_rate r) t2 \<and> info_rate r' = info_rate r \<and> configured m'"
    using assms(1-3) by (auto simp: execute_meter_def bind_eq_Some_iff refill_def Let_def split: if_splits)
  with assms(4) show ?thesis by (auto simp: execute_meter_def refill_def Let_def)
qed

lemma late_thread_fails_witness:
  "\<exists>c m'. execute_meter exact_tok 6 10 0 example_meter = Some (c, m') \<and> execute_meter exact_tok 5 10 0 m' = None"
proof -
  obtain c m' where run: "execute_meter exact_tok 6 10 0 example_meter = Some (c, m')"
    by (simp add: execute_meter_def example_meter_def meter_new_def refill_def configured_rate_def exact_tok_def)
  have "execute_meter exact_tok 5 10 0 m' = None"
    by (rule late_thread_fails [OF _ _ run, of "configured_rate 1 \<lparr>rc_info_rate = 2, rc_burst_size = 150\<rparr>"])
      (simp_all add: example_meter_def exact_tok_def configured_rate_def)
  with run show ?thesis by blast
qed

end
