(* ===== verification/Crc.thy ===== *)
theory Crc
  imports Prelude
begin

unbundle bit_operations_syntax

text \<open>
  The cyclic redundancy checks of \<^verbatim>\<open>calculations.cpp\<close> with the tables of \<^verbatim>\<open>crc_tables.h\<close>, the
  registry of hash functions and the configuration of custom checks.  The theorems: what is computed with a
  table, a byte at a time, is the division of the message by the polynomial, a bit at a time, for every
  configuration; and the three constant tables are the ones of their polynomials.
\<close>

section \<open>The code\<close>

text \<open>
  The bits of \<^verbatim>\<open>data\<close> from the lowest are set in the result from the highest of \<^verbatim>\<open>nBits\<close> down.
\<close>

fun reflect_loop :: "nat \<Rightarrow> nat \<Rightarrow> nat \<Rightarrow> u32 \<Rightarrow> u32 \<Rightarrow> u32" where
  "reflect_loop n b 0 d r = r"
| "reflect_loop n b (Suc k) d r =
     reflect_loop n (b + 1) k (drop_bit 1 d) (if d AND 1 \<noteq> 0 then r OR push_bit (n - 1 - b) 1 else r)"

definition reflect :: "u32 \<Rightarrow> nat \<Rightarrow> u32" where
  "reflect d n = reflect_loop n 0 n d 0"

text \<open>
  One byte: the index into the table and the new remainder.  The type of remainders is a word of 16 or 32 bits;
  bytes are given as the unsigned words they are converted to, of which only the lowest eight bits count.
\<close>

definition crc_byte :: "('w :: len) word list \<Rightarrow> bool \<Rightarrow> u8 \<Rightarrow> 'w word \<Rightarrow> 'w word option" where
  "crc_byte table rf c r = do {
     let data = (if rf then reflect (ucast c) 8 else ucast c) XOR ucast (drop_bit (LENGTH('w) - 8) r);
     e \<leftarrow> nth_opt table (unat data);
     Some (e XOR push_bit 8 r) }"

fun crc_loop :: "('w :: len) word list \<Rightarrow> bool \<Rightarrow> u8 list \<Rightarrow> 'w word \<Rightarrow> 'w word option" where
  "crc_loop table rf [] r = Some r"
| "crc_loop table rf (c # cs) r = crc_byte table rf c r \<bind> crc_loop table rf cs"

definition table_crc16 :: "16 word list" where
  "table_crc16 = [
     0x0000, 0x8005, 0x800F, 0x000A, 0x801B, 0x001E, 0x0014, 0x8011,
     0x8033, 0x0036, 0x003C, 0x8039, 0x0028, 0x802D, 0x8027, 0x0022,
     0x8063, 0x0066, 0x006C, 0x8069, 0x0078, 0x807D, 0x8077, 0x0072,
     0x0050, 0x8055, 0x805F, 0x005A, 0x804B, 0x004E, 0x0044, 0x8041,
     0x80C3, 0x00C6, 0x00CC, 0x80C9, 0x00D8, 0x80DD, 0x80D7, 0x00D2,
     0x00F0, 0x80F5, 0x80FF, 0x00FA, 0x80EB, 0x00EE, 0x00E4, 0x80E1,
     0x00A0, 0x80A5, 0x80AF, 0x00AA, 0x80BB, 0x00BE, 0x00B4, 0x80B1,
     0x8093, 0x0096, 0x009C, 0x8099, 0x0088, 0x808D, 0x8087, 0x0082,
     0x8183, 0x0186, 0x018C, 0x8189, 0x0198, 0x819D, 0x8197, 0x0192,
     0x01B0, 0x81B5, 0x81BF, 0x01BA, 0x81AB, 0x01AE, 0x01A4, 0x81A1,
     0x01E0, 0x81E5, 0x81EF, 0x01EA, 0x81FB, 0x01FE, 0x01F4, 0x81F1,
     0x81D3, 0x01D6, 0x01DC, 0x81D9, 0x01C8, 0x81CD, 0x81C7, 0x01C2,
     0x0140, 0x8145, 0x814F, 0x014A, 0x815B, 0x015E, 0x0154, 0x8151,
     0x8173, 0x0176, 0x017C, 0x8179, 0x0168, 0x816D, 0x8167, 0x0162,
     0x8123, 0x0126, 0x012C, 0x8129, 0x0138, 0x813D, 0x8137, 0x0132,
     0x0110, 0x8115, 0x811F, 0x011A, 0x810B, 0x010E, 0x0104, 0x8101,
     0x8303, 0x0306, 0x030C, 0x8309, 0x0318, 0x831D, 0x8317, 0x0312,
     0x0330, 0x8335, 0x833F, 0x033A, 0x832B, 0x032E, 0x0324, 0x8321,
     0x0360, 0x8365, 0x836F, 0x036A, 0x837B, 0x037E, 0x0374, 0x8371,
     0x8353, 0x0356, 0x035C, 0x8359, 0x0348, 0x834D, 0x8347, 0x0342,
     0x03C0, 0x83C5, 0x83CF, 0x03CA, 0x83DB, 0x03DE, 0x03D4, 0x83D1,
     0x83F3, 0x03F6, 0x03FC, 0x83F9, 0x03E8, 0x83ED, 0x83E7, 0x03E2,
     0x83A3, 0x03A6, 0x03AC, 0x83A9, 0x03B8, 0x83BD, 0x83B7, 0x03B2,
     0x0390, 0x8395, 0x839F, 0x039A, 0x838B, 0x038E, 0x0384, 0x8381,
     0x0280, 0x8285, 0x828F, 0x028A, 0x829B, 0x029E, 0x0294, 0x8291,
     0x82B3, 0x02B6, 0x02BC, 0x82B9, 0x02A8, 0x82AD, 0x82A7, 0x02A2,
     0x82E3, 0x02E6, 0x02EC, 0x82E9, 0x02F8, 0x82FD, 0x82F7, 0x02F2,
     0x02D0, 0x82D5, 0x82DF, 0x02DA, 0x82CB, 0x02CE, 0x02C4, 0x82C1,
     0x8243, 0x0246, 0x024C, 0x8249, 0x0258, 0x825D, 0x8257, 0x0252,
     0x0270, 0x8275, 0x827F, 0x027A, 0x826B, 0x026E, 0x0264, 0x8261,
     0x0220, 0x8225, 0x822F, 0x022A, 0x823B, 0x023E, 0x0234, 0x8231,
     0x8213, 0x0216, 0x021C, 0x8219, 0x0208, 0x820D, 0x8207, 0x0202]"

definition table_crcCCITT :: "16 word list" where
  "table_crcCCITT = [
     0x0000, 0x1021, 0x2042, 0x3063, 0x4084, 0x50A5, 0x60C6, 0x70E7,
     0x8108, 0x9129, 0xA14A, 0xB16B, 0xC18C, 0xD1AD, 0xE1CE, 0xF1EF,
     0x1231, 0x0210, 0x3273, 0x2252, 0x52B5, 0x4294, 0x72F7, 0x62D6,
     0x9339, 0x8318, 0xB37B, 0xA35A, 0xD3BD, 0xC39C, 0xF3FF, 0xE3DE,
     0x2462, 0x3443, 0x0420, 0x1401, 0x64E6, 0x74C7, 0x44A4, 0x5485,
     0xA56A, 0xB54B, 0x8528, 0x9509, 0xE5EE, 0xF5CF, 0xC5AC, 0xD58D,
     0x3653, 0x2672, 0x1611, 0x0630, 0x76D7, 0x66F6, 0x5695, 0x46B4,
     0xB75B, 0xA77A, 0x9719, 0x8738, 0xF7DF, 0xE7FE, 0xD79D, 0xC7BC,
     0x48C4, 0x58E5, 0x6886, 0x78A7, 0x0840, 0x1861, 0x2802, 0x3823,
     0xC9CC, 0xD9ED, 0xE98E, 0xF9AF, 0x8948, 0x9969, 0xA90A, 0xB92B,
     0x5AF5, 0x4AD4, 0x7AB7, 0x6A96, 0x1A71, 0x0A50, 0x3A33, 0x2A12,
     0xDBFD, 0xCBDC, 0xFBBF, 0xEB9E, 0x9B79, 0x8B58, 0xBB3B, 0xAB1A,
     0x6CA6, 0x7C87, 0x4CE4, 0x5CC5, 0x2C22, 0x3C03, 0x0C60, 0x1C41,
     0xEDAE, 0xFD8F, 0xCDEC, 0xDDCD, 0xAD2A, 0xBD0B, 0x8D68, 0x9D49,
     0x7E97, 0x6EB6, 0x5ED5, 0x4EF4, 0x3E13, 0x2E32, 0x1E51, 0x0E70,
     0xFF9F, 0xEFBE, 0xDFDD, 0xCFFC, 0xBF1B, 0xAF3A, 0x9F59, 0x8F78,
     0x9188, 0x81A9, 0xB1CA, 0xA1EB, 0xD10C, 0xC12D, 0xF14E, 0xE16F,
     0x1080, 0x00A1, 0x30C2, 0x20E3, 0x5004, 0x4025, 0x7046, 0x6067,
     0x83B9, 0x9398, 0xA3FB, 0xB3DA, 0xC33D, 0xD31C, 0xE37F, 0xF35E,
     0x02B1, 0x1290, 0x22F3, 0x32D2, 0x4235, 0x5214, 0x6277, 0x7256,
     0xB5EA, 0xA5CB, 0x95A8, 0x8589, 0xF56E, 0xE54F, 0xD52C, 0xC50D,
     0x34E2, 0x24C3, 0x14A0, 0x0481, 0x7466, 0x6447, 0x5424, 0x4405,
     0xA7DB, 0xB7FA, 0x8799, 0x97B8, 0xE75F, 0xF77E, 0xC71D, 0xD73C,
     0x26D3, 0x36F2, 0x0691, 0x16B0, 0x6657, 0x7676, 0x4615, 0x5634,
     0xD94C, 0xC96D, 0xF90E, 0xE92F, 0x99C8, 0x89E9, 0xB98A, 0xA9AB,
     0x5844, 0x4865, 0x7806, 0x6827, 0x18C0, 0x08E1, 0x3882, 0x28A3,
     0xCB7D, 0xDB5C, 0xEB3F, 0xFB1E, 0x8BF9, 0x9BD8, 0xABBB, 0xBB9A,
     0x4A75, 0x5A54, 0x6A37, 0x7A16, 0x0AF1, 0x1AD0, 0x2AB3, 0x3A92,
     0xFD2E, 0xED0F, 0xDD6C, 0xCD4D, 0xBDAA, 0xAD8B, 0x9DE8, 0x8DC9,
     0x7C26, 0x6C07, 0x5C64, 0x4C45, 0x3CA2, 0x2C83, 0x1CE0, 0x0CC1,
     0xEF1F, 0xFF3E, 0xCF5D, 0xDF7C, 0xAF9B, 0xBFBA, 0x8FD9, 0x9FF8,
     0x6E17, 0x7E36, 0x4E55, 0x5E74, 0x2E93, 0x3EB2, 0x0ED1, 0x1EF0]"

definition table_crc32 :: "32 word list" where
  "table_crc32 = [
     0x00000000, 0x04C11DB7, 0x09823B6E, 0x0D4326D9, 0x130476DC, 0x17C56B6B, 0x1A864DB2, 0x1E475005,
     0x2608EDB8, 0x22C9F00F, 0x2F8AD6D6, 0x2B4BCB61, 0x350C9B64, 0x31CD86D3, 0x3C8EA00A, 0x384FBDBD,
     0x4C11DB70, 0x48D0C6C7, 0x4593E01E, 0x4152FDA9, 0x5F15ADAC, 0x5BD4B01B, 0x569796C2, 0x52568B75,
     0x6A1936C8, 0x6ED82B7F, 0x639B0DA6, 0x675A1011, 0x791D4014, 0x7DDC5DA3, 0x709F7B7A, 0x745E66CD,
     0x9823B6E0, 0x9CE2AB57, 0x91A18D8E, 0x95609039, 0x8B27C03C, 0x8FE6DD8B, 0x82A5FB52, 0x8664E6E5,
     0xBE2B5B58, 0xBAEA46EF, 0xB7A96036, 0xB3687D81, 0xAD2F2D84, 0xA9EE3033, 0xA4AD16EA, 0xA06C0B5D,
     0xD4326D90, 0xD0F37027, 0xDDB056FE, 0xD9714B49, 0xC7361B4C, 0xC3F706FB, 0xCEB42022, 0xCA753D95,
     0xF23A8028, 0xF6FB9D9F, 0xFBB8BB46, 0xFF79A6F1, 0xE13EF6F4, 0xE5FFEB43, 0xE8BCCD9A, 0xEC7DD02D,
     0x34867077, 0x30476DC0, 0x3D044B19, 0x39C556AE, 0x278206AB, 0x23431B1C, 0x2E003DC5, 0x2AC12072,
     0x128E9DCF, 0x164F8078, 0x1B0CA6A1, 0x1FCDBB16, 0x018AEB13, 0x054BF6A4, 0x0808D07D, 0x0CC9CDCA,
     0x7897AB07, 0x7C56B6B0, 0x71159069, 0x75D48DDE, 0x6B93DDDB, 0x6F52C06C, 0x6211E6B5, 0x66D0FB02,
     0x5E9F46BF, 0x5A5E5B08, 0x571D7DD1, 0x53DC6066, 0x4D9B3063, 0x495A2DD4, 0x44190B0D, 0x40D816BA,
     0xACA5C697, 0xA864DB20, 0xA527FDF9, 0xA1E6E04E, 0xBFA1B04B, 0xBB60ADFC, 0xB6238B25, 0xB2E29692,
     0x8AAD2B2F, 0x8E6C3698, 0x832F1041, 0x87EE0DF6, 0x99A95DF3, 0x9D684044, 0x902B669D, 0x94EA7B2A,
     0xE0B41DE7, 0xE4750050, 0xE9362689, 0xEDF73B3E, 0xF3B06B3B, 0xF771768C, 0xFA325055, 0xFEF34DE2,
     0xC6BCF05F, 0xC27DEDE8, 0xCF3ECB31, 0xCBFFD686, 0xD5B88683, 0xD1799B34, 0xDC3ABDED, 0xD8FBA05A,
     0x690CE0EE, 0x6DCDFD59, 0x608EDB80, 0x644FC637, 0x7A089632, 0x7EC98B85, 0x738AAD5C, 0x774BB0EB,
     0x4F040D56, 0x4BC510E1, 0x46863638, 0x42472B8F, 0x5C007B8A, 0x58C1663D, 0x558240E4, 0x51435D53,
     0x251D3B9E, 0x21DC2629, 0x2C9F00F0, 0x285E1D47, 0x36194D42, 0x32D850F5, 0x3F9B762C, 0x3B5A6B9B,
     0x0315D626, 0x07D4CB91, 0x0A97ED48, 0x0E56F0FF, 0x1011A0FA, 0x14D0BD4D, 0x19939B94, 0x1D528623,
     0xF12F560E, 0xF5EE4BB9, 0xF8AD6D60, 0xFC6C70D7, 0xE22B20D2, 0xE6EA3D65, 0xEBA91BBC, 0xEF68060B,
     0xD727BBB6, 0xD3E6A601, 0xDEA580D8, 0xDA649D6F, 0xC423CD6A, 0xC0E2D0DD, 0xCDA1F604, 0xC960EBB3,
     0xBD3E8D7E, 0xB9FF90C9, 0xB4BCB610, 0xB07DABA7, 0xAE3AFBA2, 0xAAFBE615, 0xA7B8C0CC, 0xA379DD7B,
     0x9B3660C6, 0x9FF77D71, 0x92B45BA8, 0x9675461F, 0x8832161A, 0x8CF30BAD, 0x81B02D74, 0x857130C3,
     0x5D8A9099, 0x594B8D2E, 0x5408ABF7, 0x50C9B640, 0x4E8EE645, 0x4A4FFBF2, 0x470CDD2B, 0x43CDC09C,
     0x7B827D21, 0x7F436096, 0x7200464F, 0x76C15BF8, 0x68860BFD, 0x6C47164A, 0x61043093, 0x65C52D24,
     0x119B4BE9, 0x155A565E, 0x18197087, 0x1CD86D30, 0x029F3D35, 0x065E2082, 0x0B1D065B, 0x0FDC1BEC,
     0x3793A651, 0x3352BBE6, 0x3E119D3F, 0x3AD08088, 0x2497D08D, 0x2056CD3A, 0x2D15EBE3, 0x29D4F654,
     0xC5A92679, 0xC1683BCE, 0xCC2B1D17, 0xC8EA00A0, 0xD6AD50A5, 0xD26C4D12, 0xDF2F6BCB, 0xDBEE767C,
     0xE3A1CBC1, 0xE760D676, 0xEA23F0AF, 0xEEE2ED18, 0xF0A5BD1D, 0xF464A0AA, 0xF9278673, 0xFDE69BC4,
     0x89B8FD09, 0x8D79E0BE, 0x803AC667, 0x84FBDBD0, 0x9ABC8BD5, 0x9E7D9662, 0x933EB0BB, 0x97FFAD0C,
     0xAFB010B1, 0xAB710D06, 0xA6322BDF, 0xA2F33668, 0xBCB4666D, 0xB8757BDA, 0xB5365D03, 0xB1F740B4]"

definition crc16 :: "u8 list \<Rightarrow> 16 word option" where
  "crc16 buf = do { r \<leftarrow> crc_loop table_crc16 True buf 0x0000; Some (ucast (reflect (ucast r) 16) XOR 0x0000) }"

definition crc32 :: "u8 list \<Rightarrow> 32 word option" where
  "crc32 buf = do { r \<leftarrow> crc_loop table_crc32 True buf 0xFFFFFFFF; Some (reflect r 32 XOR 0xFFFFFFFF) }"

definition crcCCITT :: "u8 list \<Rightarrow> 16 word option" where
  "crcCCITT buf = do { r \<leftarrow> crc_loop table_crcCCITT False buf 0xFFFF; Some (r XOR 0x0000) }"

section \<open>Custom checks\<close>

record 'r crc_config =
  polynomial :: 'r
  initial_remainder :: 'r
  final_xor_value :: 'r
  data_reflected :: bool
  remainder_reflected :: bool

record 'r crc_custom =
  crc_table :: "'r list"
  crc_conf :: "'r crc_config"

definition crc16_custom_new :: "16 word crc_custom" where
  "crc16_custom_new = \<lparr>crc_table = table_crc16, crc_conf = \<lparr>polynomial = 0x8005, initial_remainder = 0x0000,
     final_xor_value = 0x0000, data_reflected = True, remainder_reflected = True\<rparr>\<rparr>"

definition crc32_custom_new :: "32 word crc_custom" where
  "crc32_custom_new = \<lparr>crc_table = table_crc32, crc_conf = \<lparr>polynomial = 0x04c11db7, initial_remainder = 0xffffffff,
     final_xor_value = 0xffffffff, data_reflected = True, remainder_reflected = True\<rparr>\<rparr>"

definition crc_custom_hash :: "('w :: len) word crc_custom \<Rightarrow> u8 list \<Rightarrow> 'w word option" where
  "crc_custom_hash c buf = do {
     r \<leftarrow> crc_loop (crc_table c) (data_reflected (crc_conf c)) buf (initial_remainder (crc_conf c));
     Some (if remainder_reflected (crc_conf c) then ucast (reflect (ucast r) (LENGTH('w))) XOR final_xor_value (crc_conf c)
       else r XOR final_xor_value (crc_conf c)) }"

text \<open>One step of the division, and the eight steps for each byte that the table is made of.\<close>

definition shift_step :: "('w :: len) word \<Rightarrow> 'w word \<Rightarrow> 'w word" where
  "shift_step p r = (if r AND push_bit (LENGTH('w) - 1) 1 \<noteq> 0 then push_bit 1 r XOR p else push_bit 1 r)"

definition crc_table_entry :: "('w :: len) word \<Rightarrow> nat \<Rightarrow> 'w word" where
  "crc_table_entry p d = (shift_step p ^^ 8) (push_bit (LENGTH('w) - 8) (word_of_nat d))"

definition recompute_crc_table :: "('w :: len) word \<Rightarrow> 'w word list" where
  "recompute_crc_table p = map (crc_table_entry p) [0..<256]"

definition update_config :: "('w :: len) word crc_config \<Rightarrow> 'w word crc_custom \<Rightarrow> 'w word crc_custom" where
  "update_config cfg c = \<lparr>crc_table = recompute_crc_table (polynomial cfg), crc_conf = cfg\<rparr>"

section \<open>Division a bit at a time\<close>

text \<open>
  The message is shifted into a register of the width of the polynomial; whenever the bit that leaves it differs from the
  bit of the message, the polynomial is subtracted.
\<close>

definition bit_step :: "('w :: len) word \<Rightarrow> bool \<Rightarrow> 'w word \<Rightarrow> 'w word" where
  "bit_step p b r = (if bit r (LENGTH('w) - 1) \<noteq> b then push_bit 1 r XOR p else push_bit 1 r)"

definition msb_first :: "u8 \<Rightarrow> bool list" where
  "msb_first c = map (bit c) (rev [0..<8])"

definition lsb_first :: "u8 \<Rightarrow> bool list" where
  "lsb_first c = map (bit c) [0..<8]"

definition message_bits :: "bool \<Rightarrow> u8 list \<Rightarrow> bool list" where
  "message_bits rf buf = concat (map (if rf then lsb_first else msb_first) buf)"

definition reversed :: "('w :: len) word \<Rightarrow> 'w word" where
  "reversed w = horner_sum of_bool 2 (map (bit w) (rev [0..<LENGTH('w)]))"

definition crc_spec :: "('w :: len) word crc_config \<Rightarrow> u8 list \<Rightarrow> 'w word" where
  "crc_spec cfg buf =
     (let r = fold (bit_step (polynomial cfg)) (message_bits (data_reflected cfg) buf) (initial_remainder cfg)
      in (if remainder_reflected cfg then reversed r else r) XOR final_xor_value cfg)"

section \<open>Reflection\<close>

lemma reflect_loop_bit:
  "\<lbrakk>b + k = n; n \<le> 32\<rbrakk> \<Longrightarrow> bit (reflect_loop n b k d r) i \<longleftrightarrow> bit r i \<or> (i < k \<and> bit d (k - 1 - i))"
proof (induction k arbitrary: b d r)
  case (Suc k)
  have "bit (if d AND 1 \<noteq> 0 then r OR push_bit (n - 1 - b) 1 else r) i \<longleftrightarrow> bit r i \<or> (i = k \<and> bit d 0)"
    using Suc.prems by (auto simp: and_one_eq bit_or_iff bit_push_bit_iff bit_exp_iff bit_0 odd_iff_mod_2_eq_one)
  with Suc show ?case
    by (auto simp: bit_drop_bit_eq less_Suc_eq Suc_diff_Suc)
qed simp

lemma reflect_bit: "n \<le> 32 \<Longrightarrow> bit (reflect d n) i \<longleftrightarrow> i < n \<and> bit d (n - 1 - i)"
  by (simp add: reflect_def reflect_loop_bit)

section \<open>The shift register is linear\<close>

locale xor_linear =
  fixes f :: "('w :: len) word \<Rightarrow> 'w word"
  assumes f_xor: "f (a XOR b) = f a XOR f b"
begin

lemma funpow_xor: "(f ^^ n) (a XOR b) = (f ^^ n) a XOR (f ^^ n) b"
  by (induction n) (simp_all add: f_xor)

end

definition shl1 :: "('w :: len) word \<Rightarrow> 'w word" where
  "shl1 r = push_bit 1 r"

definition top_bit :: "('w :: len) word" where
  "top_bit = push_bit (LENGTH('w) - 1) 1"

lemma bit_shl1: "bit (shl1 r) i \<longleftrightarrow> 0 < i \<and> i < LENGTH('w) \<and> bit r (i - 1)" for r :: "'w::len word"
  unfolding shl1_def by (auto simp only: bit_push_bit_iff possible_bit_word)

lemma bit_top_bit: "bit (top_bit :: 'w::len word) i \<longleftrightarrow> i = LENGTH('w) - 1"
  unfolding top_bit_def by (auto simp: bit_push_bit_iff bit_exp_iff)

lemma msb_mask: "r AND top_bit \<noteq> 0 \<longleftrightarrow> bit r (LENGTH('w) - 1)" for r :: "'w::len word"
proof -
  have "r AND top_bit = (if bit r (LENGTH('w) - 1) then top_bit else 0)"
    by (rule bit_eqI) (auto simp: bit_and_iff bit_top_bit)
  moreover have "top_bit \<noteq> (0 :: 'w word)"
    using bit_top_bit [of "LENGTH('w) - 1", where 'w = 'w] by auto
  ultimately show ?thesis by simp
qed

lemma shift_step_alt: "shift_step p r = (if bit r (LENGTH('w) - 1) then shl1 r XOR p else shl1 r)"
  for r :: "'w::len word"
  unfolding shift_step_def shl1_def [symmetric] top_bit_def [symmetric] msb_mask by (rule refl)

lemma bit_step_alt: "bit_step p b r = (if bit r (LENGTH('w) - 1) \<noteq> b then shl1 r XOR p else shl1 r)"
  for r :: "'w::len word"
  unfolding bit_step_def shl1_def [symmetric] by (rule refl)

lemma shl1_xor: "shl1 (a XOR b) = shl1 a XOR shl1 b"
  unfolding shl1_def by (rule push_bit_xor)

interpretation shift: xor_linear "shift_step p" for p :: "'w::len word"
  by unfold_locales (simp add: shift_step_alt shl1_xor bit_xor_iff xor.assoc xor.commute xor.left_commute)

text \<open>A value whose upper bits are zero is only shifted.\<close>

lemma shift_low:
  fixes r :: "'w::len word"
  assumes "\<And>i. LENGTH('w) - n \<le> i \<Longrightarrow> \<not> bit r i" "n \<le> LENGTH('w)"
  shows "(shift_step p ^^ n) r = push_bit n r"
  using assms
proof (induction n)
  case (Suc n)
  have "(shift_step p ^^ n) r = push_bit n r" using Suc by simp
  moreover have "\<not> bit (push_bit n r) (LENGTH('w) - 1)"
    using Suc.prems by (auto simp: bit_push_bit_iff)
  moreover have "shl1 (push_bit n r) = push_bit (Suc n) r"
    by (rule bit_eqI) (unfold bit_shl1 bit_push_bit_iff, auto)
  ultimately show ?case by (simp only: funpow.simps comp_apply shift_step_alt [of p "push_bit n r"] if_False)
qed simp

text \<open>Eight steps are one lookup in the table.\<close>

lemma eight_steps:
  fixes x :: "'w::len word"
  assumes "8 \<le> LENGTH('w)"
  shows "(shift_step p ^^ 8) x = crc_table_entry p (unat (drop_bit (LENGTH('w) - 8) x)) XOR push_bit 8 x"
proof -
  let ?k = "LENGTH('w) - 8"
  have "x = push_bit ?k (drop_bit ?k x) XOR take_bit ?k x"
    by (rule bit_eqI) (auto simp: bit_xor_iff bit_push_bit_iff bit_drop_bit_eq bit_take_bit_iff)
  then have "(shift_step p ^^ 8) x = (shift_step p ^^ 8) (push_bit ?k (drop_bit ?k x)) XOR (shift_step p ^^ 8) (take_bit ?k x)"
    by (metis shift.funpow_xor)
  moreover have "(shift_step p ^^ 8) (take_bit ?k x) = push_bit 8 (take_bit ?k x)"
    by (rule shift_low) (use assms in \<open>auto simp: bit_take_bit_iff\<close>)
  moreover have "push_bit 8 (take_bit ?k x) = push_bit 8 x"
    by (rule bit_eqI) (auto simp: bit_push_bit_iff bit_take_bit_iff)
  ultimately show ?thesis by (simp add: crc_table_entry_def)
qed

text \<open>The bits of the message can be added to the register before the steps.\<close>

fun placed :: "bool list \<Rightarrow> ('w :: len) word" where
  "placed [] = 0"
| "placed (b # bs) = (if b then top_bit else 0) XOR drop_bit 1 (placed bs)"

lemma bit_step_shift:
  fixes r :: "'w::len word"
  shows "bit_step p b r = shift_step p (r XOR (if b then top_bit else 0))"
proof -
  have "shl1 (r XOR top_bit) = shl1 r"
    by (rule bit_eqI) (auto simp: bit_shl1 bit_xor_iff bit_top_bit)
  then show ?thesis by (auto simp: bit_step_alt shift_step_alt bit_xor_iff bit_top_bit)
qed

lemma placed_bit:
  "length bs \<le> LENGTH('w) \<Longrightarrow> bit (placed bs :: 'w::len word) i \<longleftrightarrow> LENGTH('w) - length bs \<le> i \<and> i < LENGTH('w) \<and> bs ! (LENGTH('w) - 1 - i)"
proof (induction bs arbitrary: i)
  case (Cons b bs)
  have l: "length bs < LENGTH('w)" using Cons.prems by simp
  have "bit (placed (b # bs) :: 'w word) i \<longleftrightarrow> (b \<and> i = LENGTH('w) - 1) \<noteq> bit (placed bs :: 'w word) (1 + i)"
    by (simp only: placed.simps bit_xor_iff bit_drop_bit_eq comp_def) (simp add: bit_top_bit)
  also have "bit (placed bs :: 'w word) (1 + i) \<longleftrightarrow> LENGTH('w) - length bs \<le> 1 + i \<and> 1 + i < LENGTH('w) \<and> bs ! (LENGTH('w) - 1 - (1 + i))"
    by (rule Cons.IH) (use l in simp)
  finally have eq: "bit (placed (b # bs) :: 'w word) i \<longleftrightarrow> (b \<and> i = LENGTH('w) - 1) \<noteq>
    (LENGTH('w) - length bs \<le> 1 + i \<and> 1 + i < LENGTH('w) \<and> bs ! (LENGTH('w) - 1 - (1 + i)))" .
  consider "i = LENGTH('w) - 1" | "1 + i < LENGTH('w)" | "LENGTH('w) \<le> i" using len_gt_0 [where 'a = 'w] by linarith
  then show ?case
  proof cases
    case 2
    then have "LENGTH('w) - 1 - i = Suc (LENGTH('w) - 1 - (1 + i))" by simp
    with 2 l show ?thesis unfolding eq by auto
  qed (use eq l in auto)
qed simp

lemma fold_bit_step:
  fixes r :: "'w::len word"
  assumes "length bs \<le> LENGTH('w)"
  shows "fold (bit_step p) bs r = (shift_step p ^^ length bs) (r XOR placed bs)"
  using assms
proof (induction bs arbitrary: r)
  case (Cons b bs)
  let ?t = "if b then top_bit else 0 :: 'w word"
  have low: "shl1 (drop_bit 1 (placed bs)) = (placed bs :: 'w word)"
    by (rule bit_eqI) (use Cons.prems in \<open>auto simp: bit_shl1 bit_drop_bit_eq placed_bit\<close>)
  have "\<not> bit (drop_bit 1 (placed bs :: 'w word)) (LENGTH('w) - 1)" by (simp add: bit_drop_bit_eq)
  then have sh: "shift_step p (drop_bit 1 (placed bs)) = (placed bs :: 'w word)" by (simp only: shift_step_alt low if_False)
  have "fold (bit_step p) (b # bs) r = fold (bit_step p) bs (bit_step p b r)" by simp
  also have "bit_step p b r = shift_step p (r XOR ?t)" by (rule bit_step_shift)
  also have "fold (bit_step p) bs (shift_step p (r XOR ?t)) = (shift_step p ^^ length bs) (shift_step p (r XOR ?t) XOR placed bs)"
    by (rule Cons.IH) (use Cons.prems in simp)
  also have "shift_step p (r XOR ?t) XOR placed bs = shift_step p (r XOR ?t XOR drop_bit 1 (placed bs))"
    by (simp only: shift.f_xor sh xor.assoc)
  finally show ?case by (simp only: length_Cons funpow_Suc_right comp_def placed.simps xor.assoc)
qed simp

section \<open>A byte at a time is a bit at a time\<close>

lemma placed_byte:
  fixes f :: "nat \<Rightarrow> bool"
  assumes "8 \<le> LENGTH('w)" "\<And>i. bit w i \<longleftrightarrow> i < 8 \<and> f (7 - i)"
  shows "placed (map f [0..<8]) = (push_bit (LENGTH('w) - 8) (ucast (w :: u32)) :: 'w::len word)"
proof (rule bit_eqI)
  fix i assume "possible_bit TYPE('w word) i"
  then have "i < LENGTH('w)" by simp
  then have "LENGTH('w) - Suc i < 8 \<Longrightarrow> [0..<8] ! (LENGTH('w) - Suc i) = LENGTH('w) - Suc i" by simp
  moreover have "LENGTH('w) - 8 \<le> i \<Longrightarrow> 7 - (i - (LENGTH('w) - 8)) = LENGTH('w) - Suc i"
    using \<open>i < LENGTH('w)\<close> assms(1) by simp
  ultimately show "bit (placed (map f [0..<8]) :: 'w word) i \<longleftrightarrow> bit (push_bit (LENGTH('w) - 8) (ucast w) :: 'w word) i"
    using assms(1) \<open>i < LENGTH('w)\<close> by (auto simp: placed_bit bit_push_bit_iff bit_ucast_iff assms(2))
qed

text \<open>The byte as it is looked up: reflected or not.\<close>

definition byte_in :: "bool \<Rightarrow> u8 \<Rightarrow> u32" where
  "byte_in rf c = (if rf then reflect (ucast c) 8 else ucast c)"

definition byte_bits_in :: "bool \<Rightarrow> u8 \<Rightarrow> bool list" where
  "byte_bits_in rf c = (if rf then lsb_first c else msb_first c)"

lemma byte_in_bit: "bit (byte_in rf c) i \<longleftrightarrow> i < 8 \<and> bit c (if rf then 7 - i else i)"
  by (auto simp: byte_in_def reflect_bit bit_ucast_iff dest: bit_imp_le_length)

lemma byte_bits_in_map: "byte_bits_in rf c = map (\<lambda>i. bit c (if rf then i else 7 - i)) [0..<8]"
  by (simp add: byte_bits_in_def lsb_first_def msb_first_def upt_rec numeral_eq_Suc)

lemma placed_byte_in:
  "8 \<le> LENGTH('w) \<Longrightarrow> placed (byte_bits_in rf c) = (push_bit (LENGTH('w) - 8) (ucast (byte_in rf c)) :: 'w::len word)"
  unfolding byte_bits_in_map by (rule placed_byte) (auto simp: byte_in_bit)

lemma index_in:
  fixes r :: "'w::len word"
  assumes "8 \<le> LENGTH('w)" "LENGTH('w) \<le> 32"
  shows "unat (byte_in rf c XOR ucast (drop_bit (LENGTH('w) - 8) r)) < 256"
    "unat (drop_bit (LENGTH('w) - 8) (r XOR push_bit (LENGTH('w) - 8) (ucast (byte_in rf c)))) =
      unat (byte_in rf c XOR ucast (drop_bit (LENGTH('w) - 8) r))"
proof -
  define d where "d = byte_in rf c XOR ucast (drop_bit (LENGTH('w) - 8) r)"
  have b: "bit d i \<longleftrightarrow> i < 8 \<and> (bit (byte_in rf c) i \<noteq> bit r (LENGTH('w) - 8 + i))" for i
    unfolding d_def using assms bit_imp_le_length [of r "LENGTH('w) - 8 + i"]
    by (auto simp: bit_xor_iff bit_ucast_iff bit_drop_bit_eq byte_in_bit)
  have "take_bit 8 d = d" by (rule bit_eqI) (auto simp: bit_take_bit_iff b)
  then have "unat d = take_bit 8 (unat d)" by (metis unsigned_take_bit_eq)
  then have d: "unat d < 2 ^ 8" by (metis take_bit_nat_less_exp)
  then show "unat (byte_in rf c XOR ucast (drop_bit (LENGTH('w) - 8) r)) < 256" by (simp add: d_def)
  have "drop_bit (LENGTH('w) - 8) (r XOR push_bit (LENGTH('w) - 8) (ucast (byte_in rf c))) = (ucast d :: 'w word)"
  proof (rule bit_eqI)
    fix n assume "possible_bit TYPE('w word) n"
    then have n: "n < LENGTH('w)" by simp
    show "bit (drop_bit (LENGTH('w) - 8) (r XOR push_bit (LENGTH('w) - 8) (ucast (byte_in rf c)))) n = bit (ucast d :: 'w word) n"
    proof (cases "n < 8")
      case True
      with n assms show ?thesis by (auto simp: bit_drop_bit_eq bit_xor_iff bit_push_bit_iff bit_ucast_iff b)
    next
      case False
      then have "\<not> bit r (LENGTH('w) - 8 + n)" using assms bit_imp_le_length [of r "LENGTH('w) - 8 + n"] by auto
      with False n assms show ?thesis by (auto simp: bit_drop_bit_eq bit_xor_iff bit_push_bit_iff bit_ucast_iff b byte_in_bit)
    qed
  qed
  moreover have "unat d < 2 ^ LENGTH('w)"
    using d power_increasing [of 8 "LENGTH('w)" "2 :: nat"] assms(1) by simp
  then have "unat (ucast d :: 'w word) = unat d" by (simp add: unsigned_ucast_eq take_bit_nat_eq_self)
  ultimately show "unat (drop_bit (LENGTH('w) - 8) (r XOR push_bit (LENGTH('w) - 8) (ucast (byte_in rf c)))) =
      unat (byte_in rf c XOR ucast (drop_bit (LENGTH('w) - 8) r))" by (simp add: d_def)
qed

lemma crc_byte_bits:
  fixes r :: "'w::len word"
  assumes "8 \<le> LENGTH('w)" "LENGTH('w) \<le> 32"
  shows "crc_byte (recompute_crc_table p) rf c r = Some (fold (bit_step p) (byte_bits_in rf c) r)"
proof -
  let ?x = "r XOR push_bit (LENGTH('w) - 8) (ucast (byte_in rf c))"
  have l: "length (byte_bits_in rf c) = 8" by (simp add: byte_bits_in_map)
  have "fold (bit_step p) (byte_bits_in rf c) r = (shift_step p ^^ 8) ?x"
    using fold_bit_step [of "byte_bits_in rf c" p r] assms(1) by (simp add: l placed_byte_in)
  also have "\<dots> = crc_table_entry p (unat (drop_bit (LENGTH('w) - 8) ?x)) XOR push_bit 8 ?x"
    by (rule eight_steps) (rule assms)
  also have "push_bit 8 ?x = push_bit 8 r"
    by (rule bit_eqI) (use assms in \<open>auto simp: bit_push_bit_iff bit_xor_iff bit_ucast_iff byte_in_bit\<close>)
  finally show ?thesis
    unfolding crc_byte_def byte_in_def [symmetric] index_in(2) [OF assms]
    using index_in(1) [OF assms, of rf c r] by (simp add: recompute_crc_table_def nth_opt_def)
qed

lemma crc_loop_bits:
  fixes r :: "'w::len word"
  assumes "8 \<le> LENGTH('w)" "LENGTH('w) \<le> 32"
  shows "crc_loop (recompute_crc_table p) rf buf r = Some (fold (bit_step p) (message_bits rf buf) r)"
  by (induction buf arbitrary: r)
    (simp_all add: crc_byte_bits [OF assms] message_bits_def byte_bits_in_def split: if_splits)

lemma reversed_bit: "bit (reversed w) i \<longleftrightarrow> i < LENGTH('w) \<and> bit w (LENGTH('w) - 1 - i)" for w :: "'w::len word"
  by (auto simp: reversed_def bit_horner_sum_bit_iff rev_nth)

lemma reflect_reversed: "LENGTH('w) \<le> 32 \<Longrightarrow> ucast (reflect (ucast w) (LENGTH('w))) = (reversed w :: 'w::len word)"
  by (rule bit_eqI) (auto simp: bit_ucast_iff reflect_bit reversed_bit)

lemma crc_custom_bits:
  assumes "8 \<le> LENGTH('w)" "LENGTH('w) \<le> 32" "crc_table c = recompute_crc_table (polynomial (crc_conf c))"
  shows "crc_custom_hash c buf = Some (crc_spec (crc_conf c) buf :: 'w::len word)"
  by (simp add: crc_custom_hash_def assms(3) crc_loop_bits [OF assms(1,2)] crc_spec_def reflect_reversed [OF assms(2)])

section \<open>The constant tables\<close>

lemma entry_one: "8 \<le> LENGTH('w) \<Longrightarrow> crc_table_entry p 1 = (p :: 'w::len word)"
proof -
  assume l: "8 \<le> LENGTH('w)"
  let ?x = "push_bit (LENGTH('w) - 8) (1 :: 'w word)"
  have "(shift_step p ^^ 7) ?x = push_bit 7 ?x"
    by (rule shift_low) (use l in \<open>auto simp: bit_push_bit_iff bit_exp_iff\<close>)
  also have "\<dots> = top_bit"
    by (rule bit_eqI) (use l in \<open>auto simp: bit_push_bit_iff bit_exp_iff bit_top_bit\<close>)
  finally have "crc_table_entry p 1 = shift_step p top_bit"
    by (simp add: crc_table_entry_def eval_nat_numeral)
  also have "\<dots> = p"
  proof -
    have "shl1 top_bit = (0 :: 'w word)" by (rule bit_eqI) (auto simp: bit_shl1 bit_top_bit)
    then show ?thesis by (simp add: shift_step_alt bit_top_bit)
  qed
  finally show ?thesis .
qed

lemma bit_word_nat: "bit (word_of_nat n :: 'w::len word) i \<longleftrightarrow> i < LENGTH('w) \<and> bit n i"
proof -
  have "word_of_nat n = (word_of_int (int n) :: 'w word)" by simp
  then show ?thesis by (simp only: bit_word_of_int_iff) (simp add: bit_of_nat_iff_bit)
qed

lemma entry_double:
  assumes "8 \<le> LENGTH('w)" "d < 128"
  shows "crc_table_entry p (2 * d) = shift_step p (crc_table_entry p d :: 'w::len word)"
    "crc_table_entry p (2 * d + 1) = shift_step p (crc_table_entry p d) XOR (p :: 'w word)"
proof -
  let ?k = "LENGTH('w) - 8"
  have b: "bit (word_of_nat d :: 'w word) i \<longleftrightarrow> i < LENGTH('w) \<and> bit d i" for i by (simp add: bit_word_nat)
  have small: "\<not> bit d i" if "7 \<le> i" for i
  proof -
    have "d < 2 ^ i" using assms(2) power_increasing [OF that, of "2 :: nat"] by simp
    then show ?thesis by (simp add: bit_iff_odd)
  qed
  have "push_bit ?k (word_of_nat (2 * d)) = shl1 (push_bit ?k (word_of_nat d :: 'w word))"
    by (rule bit_eqI) (use assms(1) in \<open>auto simp: bit_shl1 bit_push_bit_iff bit_word_nat bit_double_iff Suc_diff_le\<close>)
  moreover have "\<not> bit (push_bit ?k (word_of_nat d :: 'w word)) (LENGTH('w) - 1)"
    using assms(1) small by (auto simp: bit_push_bit_iff b)
  ultimately have "push_bit ?k (word_of_nat (2 * d)) = shift_step p (push_bit ?k (word_of_nat d :: 'w word))"
    by (simp only: shift_step_alt if_False)
  then show even: "crc_table_entry p (2 * d) = shift_step p (crc_table_entry p d)"
    unfolding crc_table_entry_def by (simp only: funpow_swap1)
  have "word_of_nat (2 * d + 1) = (word_of_nat (2 * d) XOR word_of_nat 1 :: 'w word)"
  proof (rule bit_eqI)
    fix n
    have "bit (1 + 2 * d) n \<longleftrightarrow> bit (2 * d) n \<or> n = 0" by (rule even_bit_succ_iff) simp
    moreover have "bit (1 :: nat) n \<longleftrightarrow> n = 0" by (rule bit_1_iff)
    moreover have "\<not> bit (2 * d) 0" by (simp add: bit_0)
    ultimately have "bit (2 * d + 1) n \<longleftrightarrow> bit (2 * d) n \<noteq> bit (1 :: nat) n"
      unfolding add.commute [of "2 * d" 1] by blast
    then show "bit (word_of_nat (2 * d + 1) :: 'w word) n = bit (word_of_nat (2 * d) XOR word_of_nat 1 :: 'w word) n"
      by (auto simp only: bit_word_nat bit_xor_iff)
  qed
  then have "crc_table_entry p (2 * d + 1) = crc_table_entry p (2 * d) XOR crc_table_entry p 1"
    by (simp only: crc_table_entry_def push_bit_xor shift.funpow_xor)
  then show "crc_table_entry p (2 * d + 1) = shift_step p (crc_table_entry p d) XOR p"
    by (simp only: even entry_one [OF assms(1)])
qed

definition doubled :: "('w :: len) word \<Rightarrow> 'w word list \<Rightarrow> 'w word list" where
  "doubled p xs = concat (map (\<lambda>x. let y = shift_step p x in [y, y XOR p]) xs)"

lemma doubled_nth:
  "i < length xs \<Longrightarrow> doubled p xs ! (2 * i) = shift_step p (xs ! i) \<and> doubled p xs ! (2 * i + 1) = shift_step p (xs ! i) XOR p"
proof (induction xs arbitrary: i)
  case (Cons x xs)
  then show ?case by (cases i) (simp_all add: doubled_def Let_def)
qed simp

lemma table_check:
  fixes p :: "'w::len word"
  assumes "8 \<le> LENGTH('w)" "length t = 256" "t ! 0 = 0" "doubled p (take 128 t) = t"
  shows "t = recompute_crc_table p"
proof (rule nth_equalityI)
  show "length t = length (recompute_crc_table p)" by (simp add: recompute_crc_table_def assms(2))
  have zero: "crc_table_entry p 0 = 0"
    using shift_low [of 8 "0 :: 'w word" p] assms(1) by (simp add: crc_table_entry_def)
  fix i assume "i < length t"
  moreover have "i < 256 \<Longrightarrow> t ! i = crc_table_entry p i"
  proof (induction i rule: less_induct)
    case (less i)
    show ?case
    proof (cases "i = 0")
      case False
      then have d: "i div 2 < i" "i div 2 < 128" using less.prems by auto
      then have IH: "t ! (i div 2) = crc_table_entry p (i div 2)" using less by auto
      have "take 128 t ! (i div 2) = t ! (i div 2)" using d by simp
      with doubled_nth [of "i div 2" "take 128 t" p] d assms(2,4)
      have "t ! (2 * (i div 2)) = shift_step p (t ! (i div 2))" "t ! (2 * (i div 2) + 1) = shift_step p (t ! (i div 2)) XOR p"
        by simp_all
      with IH entry_double [OF assms(1) d(2), of p] show ?thesis
        by (cases "even i") (auto elim!: evenE oddE)
    qed (simp add: assms(3) zero)
  qed
  ultimately show "t ! i = recompute_crc_table p ! i" by (simp add: recompute_crc_table_def assms(2))
qed

lemma table16_ok: "table_crc16 = recompute_crc_table 0x8005"
proof (rule table_check)
  show "doubled 0x8005 (take 128 table_crc16) = table_crc16"
    by (simp add: table_crc16_def doubled_def Let_def shift_step_def)
qed (simp_all add: table_crc16_def)

lemma tableCCITT_ok: "table_crcCCITT = recompute_crc_table 0x1021"
proof (rule table_check)
  show "doubled 0x1021 (take 128 table_crcCCITT) = table_crcCCITT"
    by (simp add: table_crcCCITT_def doubled_def Let_def shift_step_def)
qed (simp_all add: table_crcCCITT_def)

lemma table32_ok: "table_crc32 = recompute_crc_table 0x04c11db7"
proof (rule table_check)
  show "doubled 0x04c11db7 (take 128 table_crc32) = table_crc32"
    by (simp add: table_crc32_def doubled_def Let_def shift_step_def)
qed (simp_all add: table_crc32_def)

section \<open>What is computed\<close>

text \<open>
  C19: After any configuration, a custom check of 16 or 32 bits, which looks up one byte at a time in the table that was
  computed for its polynomial, is the remainder of the division that shifts the message in bit by bit, with both
  reflections as configured.
\<close>

theorem custom_crc_is_division:
  fixes cfg :: "('w :: len) word crc_config"
  assumes "LENGTH('w) = 16 \<or> LENGTH('w) = 32"
  shows "crc_custom_hash (update_config cfg c) buf = Some (crc_spec cfg buf)"
  using crc_custom_bits [of "update_config cfg c" buf] assms by (auto simp: update_config_def)

lemma custom_crc_is_division_witness:
  "crc_custom_hash (update_config \<lparr>polynomial = 0x1021, initial_remainder = 0xFFFF, final_xor_value = 0, data_reflected = False,
     remainder_reflected = False\<rparr> crc16_custom_new) [0x31] = Some (0xC782 :: 16 word)"
  using custom_crc_is_division [of "\<lparr>polynomial = 0x1021 :: 16 word, initial_remainder = 0xFFFF, final_xor_value = 0, data_reflected = False,
     remainder_reflected = False\<rparr>" crc16_custom_new "[0x31]"]
  by (simp add: crc_spec_def message_bits_def msb_first_def upt_rec bit_step_def bit_numeral_rec)

text \<open>
  The checks with constant tables are the ones of the polynomials 0x8005, 0x04c11db7 and 0x1021, and a custom check
  that was not configured computes the one that it is named after.
\<close>

theorem constant_crcs:
  "crc16 buf = Some (crc_spec \<lparr>polynomial = 0x8005, initial_remainder = 0, final_xor_value = 0, data_reflected = True,
      remainder_reflected = True\<rparr> buf) \<and>
   crc32 buf = Some (crc_spec \<lparr>polynomial = 0x04c11db7, initial_remainder = 0xFFFFFFFF, final_xor_value = 0xFFFFFFFF,
      data_reflected = True, remainder_reflected = True\<rparr> buf) \<and>
   crcCCITT buf = Some (crc_spec \<lparr>polynomial = 0x1021, initial_remainder = 0xFFFF, final_xor_value = 0, data_reflected = False,
      remainder_reflected = False\<rparr> buf) \<and>
   crc_custom_hash crc16_custom_new buf = crc16 buf \<and> crc_custom_hash crc32_custom_new buf = crc32 buf"
proof -
  have "ucast (reflect (ucast w) 16) = reversed w" for w :: "16 word" using reflect_reversed [of w] by simp
  moreover have "reflect w 32 = reversed w" for w :: "32 word" using reflect_reversed [of w] by simp
  ultimately show ?thesis
    by (simp add: crc16_def crc32_def crcCCITT_def crc_custom_hash_def crc16_custom_new_def crc32_custom_new_def table16_ok table32_ok
        tableCCITT_ok crc_loop_bits crc_spec_def)
qed

end
