(* ===== verification/Internet_Checksum.thy ===== *)
theory Internet_Checksum
  imports Prelude
begin

unbundle bit_operations_syntax

text \<open>
  The 16-bit ones' complement checksum of \<^verbatim>\<open>calculations.cpp\<close> (\<^verbatim>\<open>cksum16\<close>, \<^verbatim>\<open>csum16\<close>) and its
  copy in \<^verbatim>\<open>checksums.cpp\<close>.  The code adds words of 64 bits in the byte order of the host and folds the acc at
  the end.  The theorem: the result is the checksum that RFC 1071 defines on words of 16 bits in network order.
  The host is little-endian.
\<close>

section \<open>The code\<close>

text \<open>Addition with the end-around carry: \<^verbatim>\<open>sum += s; if (sum < s) sum++\<close>.\<close>

definition ones_add :: "('w :: len) word \<Rightarrow> 'w word \<Rightarrow> 'w word" where
  "ones_add acc s = (let t = acc + s in if t < s then t + 1 else t)"

text \<open>A load of some bytes, the least significant first.\<close>

fun load_le :: "u8 list \<Rightarrow> ('w :: len) word" where
  "load_le [] = 0"
| "load_le (b # bs) = ucast b + 256 * load_le bs"

fun sum_words :: "u64 \<Rightarrow> u8 list \<Rightarrow> u64 \<times> u8 list" where
  "sum_words acc buf = (if 8 \<le> length buf then sum_words (ones_add acc (load_le (take 8 buf))) (drop 8 buf) else (acc, buf))"

declare sum_words.simps [simp del]

definition sum_tail :: "u64 \<Rightarrow> u8 list \<Rightarrow> u64" where
  "sum_tail acc rest =
     (let l = length rest;
          (acc, rest) = (if l AND 4 \<noteq> 0 then (ones_add acc (load_le (take 4 rest)), drop 4 rest) else (acc, rest));
          (acc, rest) = (if l AND 2 \<noteq> 0 then (ones_add acc (load_le (take 2 rest)), drop 2 rest) else (acc, rest))
      in if l AND 1 \<noteq> 0 then ones_add acc (load_le (take 1 rest)) else acc)"

definition fold_sum :: "u64 \<Rightarrow> 16 word" where
  "fold_sum acc =
     (let t1 = ones_add (ucast acc :: u32) (ucast (drop_bit 32 acc))
      in ones_add (ucast t1) (ucast (drop_bit 16 t1)))"

definition raw_cksum16 :: "u8 list \<Rightarrow> 16 word" where
  "raw_cksum16 buf = (let (acc, rest) = sum_words 0 buf in NOT (fold_sum (sum_tail acc rest)))"

definition ntohs :: "16 word \<Rightarrow> 16 word" where
  "ntohs w = push_bit 8 w OR drop_bit 8 w"

definition cksum16 :: "u8 list \<Rightarrow> 16 word" where
  "cksum16 buf = ntohs (raw_cksum16 buf)"

definition csum16 :: "u8 list \<Rightarrow> 16 word" where
  "csum16 buf = cksum16 buf"

section \<open>The definition\<close>

text \<open>RFC 1071: words in network order, a last odd byte padded with zero.\<close>

fun be_words :: "u8 list \<Rightarrow> 16 word list" where
  "be_words [] = []"
| "be_words [a] = [256 * ucast a]"
| "be_words (a # b # bs) = (256 * ucast a + ucast b) # be_words bs"

definition internet_checksum :: "u8 list \<Rightarrow> 16 word" where
  "internet_checksum buf = NOT (fold (\<lambda>w s. ones_add s w) (be_words buf) 0)"

section \<open>Ones' complement sums\<close>

text \<open>A word that is a number up to multiples of \<open>M\<close>, and zero only if the number is.\<close>

definition ones_val :: "int \<Rightarrow> ('w :: len) word \<Rightarrow> nat \<Rightarrow> bool" where
  "ones_val M w n \<longleftrightarrow> M dvd int (unat w) - int n \<and> (w = 0 \<longleftrightarrow> n = 0)"

lemma unat_ones_add:
  fixes a b :: "'w::len word"
  shows "unat (ones_add a b) = (if unat a + unat b < 2 ^ LENGTH('w) then unat a + unat b else unat a + unat b + 1 - 2 ^ LENGTH('w))"
proof (cases "unat a + unat b < 2 ^ LENGTH('w)")
  case True
  then have "unat (a + b) = unat a + unat b" by (simp add: unat_word_ariths)
  moreover from this have "\<not> a + b < b" by (simp add: word_less_nat_alt)
  ultimately show ?thesis using True by (simp add: ones_add_def Let_def)
next
  case False
  have ab: "unat a < 2 ^ LENGTH('w)" "unat b < 2 ^ LENGTH('w)" by (rule unat_bound)+
  then have "unat a + unat b - 2 ^ LENGTH('w) < 2 ^ LENGTH('w)" by linarith
  then have s: "unat (a + b) = unat a + unat b - 2 ^ LENGTH('w)"
    using False by (simp add: unat_word_ariths le_mod_geq)
  then have "unat (a + b) < unat b" using ab False by linarith
  then have "a + b < b" by (simp add: word_less_nat_alt)
  moreover have "unat (a + b) + 1 < 2 ^ LENGTH('w)" using s ab False by linarith
  then have "unat (a + b + 1) = unat (a + b) + 1" by (simp add: unat_word_ariths)
  ultimately show ?thesis using False s by (simp add: ones_add_def Let_def)
qed

lemma ones_add_val:
  fixes a b :: "'w::len word"
  assumes "ones_val M a m" "ones_val M b n" "M dvd 2 ^ LENGTH('w) - 1"
  shows "ones_val M (ones_add a b) (m + n)"
proof -
  have z: "ones_add a b = 0 \<longleftrightarrow> a = 0 \<and> b = 0"
  proof
    assume "ones_add a b = 0"
    then have "unat (ones_add a b) = 0" by simp
    then have "unat a + unat b = 0" unfolding unat_ones_add by (auto split: if_splits)
    then show "a = 0 \<and> b = 0" by (simp add: unat_eq_zero)
  qed (simp add: ones_add_def)
  have "M dvd (int (unat a) - int m) + (int (unat b) - int n)"
    using assms(1,2) by (auto simp: ones_val_def)
  moreover from this assms(3) have "M dvd (int (unat a) - int m) + (int (unat b) - int n) - (2 ^ LENGTH('w) - 1)"
    by (rule dvd_diff)
  moreover have "int (unat (ones_add a b)) - int (m + n) = (int (unat a) - int m) + (int (unat b) - int n) - (2 ^ LENGTH('w) - 1)
      \<or> int (unat (ones_add a b)) - int (m + n) = (int (unat a) - int m) + (int (unat b) - int n)"
    unfolding unat_ones_add by (auto simp: of_nat_diff)
  ultimately have "M dvd int (unat (ones_add a b)) - int (m + n)" by (elim disjE) (simp_all only:)
  with z assms(1,2) show ?thesis by (simp add: ones_val_def)
qed

text \<open>What the words add up to: the bytes, alternately with the weights 1 and 256.\<close>

fun le_total :: "u8 list \<Rightarrow> nat" where
  "le_total [] = 0"
| "le_total [a] = unat a"
| "le_total (a # b # bs) = unat a + 256 * unat b + le_total bs"

fun le_value :: "u8 list \<Rightarrow> nat" where
  "le_value [] = 0"
| "le_value (b # bs) = unat b + 256 * le_value bs"

lemma le_value_bound: "le_value bs < 256 ^ length bs"
proof (induction bs)
  case (Cons b bs)
  have "unat b < 256" using unat_bound [of b] by simp
  with Cons show ?case by simp
qed simp

lemma load_le_value:
  "256 ^ length bs \<le> (2 :: nat) ^ LENGTH('w) \<Longrightarrow> unat (load_le bs :: 'w::len word) = le_value bs"
proof (induction bs)
  case (Cons b bs)
  have m: "(256 :: nat) ^ length bs \<le> 2 ^ LENGTH('w)" using Cons.prems by simp
  have "le_value (b # bs) < 2 ^ LENGTH('w)" using le_value_bound [of "b # bs"] Cons.prems by linarith
  moreover have "load_le (b # bs) = (word_of_nat (le_value (b # bs)) :: 'w word)"
  proof -
    have "load_le bs = (word_of_nat (unat (load_le bs :: 'w word)) :: 'w word)" by simp
    then have "load_le bs = (word_of_nat (le_value bs) :: 'w word)" unfolding Cons.IH [OF m] .
    moreover have "ucast b = (word_of_nat (unat b) :: 'w word)" by simp
    ultimately show ?thesis by simp
  qed
  ultimately show ?case by (simp only: unat_of_nat mod_less)
qed simp

lemma ones_val_eq:
  assumes "ones_val M w n" "M dvd int n - int k" "n = 0 \<longleftrightarrow> k = 0"
  shows "ones_val M w k"
proof -
  have "M dvd (int (unat w) - int n) + (int n - int k)"
    using assms(1,2) unfolding ones_val_def by (intro dvd_add) blast+
  then have "M dvd int (unat w) - int k" by simp
  with assms(1,3) show ?thesis by (simp add: ones_val_def)
qed

lemma ones_val_self: "ones_val M w (unat w)"
  by (simp add: ones_val_def unat_eq_zero)

lemma le_value_total: "65535 dvd int (le_value bs) - int (le_total bs) \<and> (le_value bs = 0 \<longleftrightarrow> le_total bs = 0)"
proof (induction bs rule: le_total.induct)
  case (3 a b bs)
  have "int (le_value (a # b # bs)) - int (le_total (a # b # bs)) = (int (le_value bs) - int (le_total bs)) + 65535 * int (le_value bs)"
    by (simp add: algebra_simps)
  with 3 show ?case by (simp only: dvd_add dvd_triv_left) simp
qed simp_all

lemma load_le_val:
  "256 ^ length bs \<le> (2 :: nat) ^ LENGTH('w) \<Longrightarrow> ones_val 65535 (load_le bs :: 'w::len word) (le_total bs)"
  using ones_val_eq [OF ones_val_self [of 65535 "load_le bs :: 'w word"], of "le_total bs"] le_value_total [of bs]
  by (simp only: load_le_value)

lemma le_total_append: "even (length xs) \<Longrightarrow> le_total (xs @ ys) = le_total xs + le_total ys"
  by (induction xs rule: le_total.induct) simp_all

lemma le_total_split: "\<lbrakk>even k; k \<le> length bs\<rbrakk> \<Longrightarrow> le_total bs = le_total (take k bs) + le_total (drop k bs)"
  using le_total_append [of "take k bs" "drop k bs"] by simp

lemma add_load:
  assumes "ones_val 65535 s n" "even k" "k \<le> length bs" "k \<le> 8"
  shows "ones_val 65535 (ones_add (s :: u64) (load_le (take k bs))) (n + le_total (take k bs))"
proof (rule ones_add_val [OF assms(1)])
  have "(256 :: nat) ^ length (take k bs) \<le> 256 ^ 8" using assms(4) by (intro power_increasing) auto
  then show "ones_val 65535 (load_le (take k bs) :: u64) (le_total (take k bs))" by (intro load_le_val) simp
qed simp

lemma sum_words_val:
  assumes "ones_val 65535 s n" "sum_words s buf = (s', rest)"
  shows "length rest < 8 \<and> (\<exists>k. ones_val 65535 s' (n + k) \<and> k + le_total rest = le_total buf)"
  using assms
proof (induction s buf arbitrary: n rule: sum_words.induct)
  case (1 s buf)
  show ?case
  proof (cases "8 \<le> length buf")
    case True
    with 1 add_load [OF 1(2), of 8 buf] obtain k where "length rest < 8" "ones_val 65535 s' (n + le_total (take 8 buf) + k)"
      "k + le_total rest = le_total (drop 8 buf)"
      by (auto simp: sum_words.simps [of s buf])
    with True le_total_split [of 8 buf] show ?thesis
      by (intro conjI exI [of _ "le_total (take 8 buf) + k"]) (simp_all add: add.assoc)
  next
    case False
    with 1 show ?thesis by (auto simp: sum_words.simps [of s buf])
  qed
qed

lemma sum_tail_val:
  assumes "ones_val 65535 s n" "length rest < 8"
  shows "ones_val 65535 (sum_tail s rest) (n + le_total rest)"
proof -
  define s1 where "s1 = (if length rest AND 4 \<noteq> 0 then ones_add s (load_le (take 4 rest)) else s)"
  define r1 where "r1 = (if length rest AND 4 \<noteq> 0 then drop 4 rest else rest)"
  define s2 where "s2 = (if length rest AND 2 \<noteq> 0 then ones_add s1 (load_le (take 2 r1)) else s1)"
  define r2 where "r2 = (if length rest AND 2 \<noteq> 0 then drop 2 r1 else r1)"
  have "length rest \<in> {0, 1, 2, 3, 4, 5, 6, 7}" using assms(2) by (simp add: numeral_eq_Suc less_Suc_eq)
  then have l1: "length rest AND 4 \<noteq> 0 \<longrightarrow> 4 \<le> length rest" "length rest AND 2 \<noteq> 0 \<longrightarrow> 2 \<le> length r1"
    and l2: "length r2 = (if length rest AND 1 \<noteq> 0 then 1 else 0)"
    by (auto simp: r1_def r2_def)
  have "ones_val 65535 s1 (n + (le_total rest - le_total r1)) \<and> le_total r1 \<le> le_total rest"
    using add_load [OF assms(1), of 4 rest] le_total_split [of 4 rest] l1(1) assms(1) by (auto simp: s1_def r1_def)
  then obtain k1 where k1: "ones_val 65535 s1 (n + k1)" "k1 + le_total r1 = le_total rest" by (metis le_add_diff_inverse2)
  have "ones_val 65535 s2 (n + k1 + (le_total r1 - le_total r2)) \<and> le_total r2 \<le> le_total r1"
    using add_load [OF k1(1), of 2 r1] le_total_split [of 2 r1] l1(2) k1(1) by (auto simp: s2_def r2_def add.assoc)
  then obtain k2 where k2: "ones_val 65535 s2 (n + k1 + k2)" "k2 + le_total r2 = le_total r1" by (metis le_add_diff_inverse2)
  have tail: "sum_tail s rest = (if length rest AND 1 \<noteq> 0 then ones_add s2 (load_le (take 1 r2)) else s2)"
    by (simp add: sum_tail_def Let_def s1_def r1_def s2_def r2_def)
  show ?thesis
  proof (cases "length rest AND 1 \<noteq> 0")
    case True
    with l2 obtain b where b: "r2 = [b]" by (auto simp: length_Suc_conv)
    have "ones_val 65535 (ones_add s2 (load_le [b])) (n + k1 + k2 + le_total [b])"
      by (rule ones_add_val [OF k2(1) load_le_val]) simp_all
    with True b k1 k2 tail show ?thesis by (simp add: add.assoc)
  next
    case False
    with l2 k1 k2 tail show ?thesis by (simp add: add.assoc)
  qed
qed

lemma halves:
  fixes w :: "'w::len word"
  assumes "LENGTH('w) = 2 * LENGTH('v)"
  shows "unat w = unat (ucast w :: 'v::len word) + 2 ^ LENGTH('v) * unat (ucast (drop_bit LENGTH('v) w) :: 'v word)"
proof -
  have "unat (drop_bit LENGTH('v) w) = unat w div 2 ^ LENGTH('v)" by (simp only: unat_drop_bit_eq) (simp only: drop_bit_eq_div)
  moreover have "unat w div 2 ^ LENGTH('v) < 2 ^ LENGTH('v)"
    using unat_bound [of w] assms by (simp add: less_mult_imp_div_less mult_2 power_add)
  ultimately have "unat (ucast (drop_bit LENGTH('v) w) :: 'v word) = unat w div 2 ^ LENGTH('v)"
    by (simp add: unsigned_ucast_eq take_bit_nat_eq_self)
  moreover have "unat (ucast w :: 'v word) = unat w mod 2 ^ LENGTH('v)"
    by (simp add: unsigned_ucast_eq take_bit_eq_mod)
  ultimately show ?thesis by simp
qed

lemma fold_half:
  fixes s :: "'w::len word"
  assumes "ones_val 65535 s n" "LENGTH('w) = 2 * LENGTH('v)" "65535 dvd (2 :: int) ^ LENGTH('v) - 1"
  shows "ones_val 65535 (ones_add (ucast s :: 'v::len word) (ucast (drop_bit LENGTH('v) s))) n"
proof -
  define lo where "lo = unat (ucast s :: 'v word)"
  define hi where "hi = unat (ucast (drop_bit LENGTH('v) s) :: 'v word)"
  have s: "unat s = lo + 2 ^ LENGTH('v) * hi" unfolding lo_def hi_def by (rule halves) (rule assms)
  have "ones_val 65535 (ones_add (ucast s :: 'v word) (ucast (drop_bit LENGTH('v) s))) (lo + hi)"
    unfolding lo_def hi_def by (intro ones_add_val ones_val_self assms)
  moreover have "65535 dvd (int (unat s) - int n) - (2 ^ LENGTH('v) - 1) * int hi"
    by (rule dvd_diff) (use assms(1,3) in \<open>auto simp: ones_val_def\<close>)
  then have "65535 dvd int (lo + hi) - int n" unfolding s by (simp add: algebra_simps)
  moreover have "lo + hi = 0 \<longleftrightarrow> n = 0"
  proof -
    have "lo + hi = 0 \<longleftrightarrow> unat s = 0" unfolding s by simp
    with assms(1) show ?thesis by (simp add: ones_val_def unat_eq_zero)
  qed
  ultimately show ?thesis by (rule ones_val_eq)
qed

lemma fold_sum_val: "ones_val 65535 s n \<Longrightarrow> ones_val 65535 (fold_sum s) n"
proof -
  assume "ones_val 65535 s n"
  from fold_half [OF this, where 'v = 32]
  have "ones_val 65535 (ones_add (ucast s :: u32) (ucast (drop_bit 32 s))) n" by simp
  from fold_half [OF this, where 'v = 16] show ?thesis by (simp add: fold_sum_def Let_def)
qed

lemma raw_cksum_val: "\<exists>w. raw_cksum16 buf = NOT w \<and> ones_val 65535 w (le_total buf)"
proof -
  obtain s rest where sw: "sum_words 0 buf = (s, rest)" by (cases "sum_words 0 buf")
  have "ones_val 65535 (0 :: u64) 0" by (simp add: ones_val_def)
  from sum_words_val [OF this sw] obtain k where r: "length rest < 8" and k: "ones_val 65535 s k" "k + le_total rest = le_total buf"
    by auto
  have "ones_val 65535 (fold_sum (sum_tail s rest)) (le_total buf)"
    using fold_sum_val [OF sum_tail_val [OF k(1) r]] k(2) by simp
  then show ?thesis by (auto simp: raw_cksum16_def sw)
qed

section \<open>Network order\<close>

lemma ntohs_bit: "bit (ntohs w) i \<longleftrightarrow> i < 16 \<and> bit w (if i < 8 then i + 8 else i - 8)"
  using bit_imp_le_length [of w "i + 8"] by (auto simp: ntohs_def bit_or_iff bit_push_bit_iff bit_drop_bit_eq ac_simps)

lemma ntohs_not: "ntohs (NOT w) = NOT (ntohs w)"
  by (rule bit_eqI) (auto simp: ntohs_bit bit_not_iff)

lemma ntohs_value: "unat (ntohs w) = 256 * (unat w mod 256) + unat w div 256"
proof -
  have "ntohs w = push_bit 8 w + drop_bit 8 w"
    unfolding ntohs_def
    by (rule disjunctive_add_eq_or [symmetric], rule bit_eqI)
      (auto simp: bit_and_iff bit_push_bit_iff bit_drop_bit_eq dest!: bit_imp_le_length)
  moreover have "unat (push_bit 8 w) = 256 * (unat w mod 256)"
  proof -
    have "push_bit 8 w = 256 * w" by (simp add: push_bit_eq_mult)
    then have "unat (push_bit 8 w) = (256 * unat w) mod (256 * 256)" by (simp add: unat_word_ariths)
    then show ?thesis by (simp only: mod_mult_mult1)
  qed
  moreover have "unat (drop_bit 8 w) = unat w div 256"
    by (simp only: unat_drop_bit_eq) (simp add: drop_bit_eq_div)
  moreover have "256 * (unat w mod 256) + unat w div 256 < 2 ^ 16"
    using unat_bound [of w] by simp
  ultimately show ?thesis by (simp add: unat_word_ariths)
qed

lemma ntohs_val: "ones_val 65535 w n \<Longrightarrow> ones_val 65535 (ntohs w) (256 * n)"
proof -
  assume w: "ones_val 65535 w n"
  have d: "256 * (unat w mod 256) = 256 * unat w - 256 * 256 * (unat w div 256)"
    by (simp add: minus_mult_div_eq_mod [symmetric] diff_mult_distrib2)
  have "256 * 256 * (unat w div 256) \<le> 256 * unat w" by simp
  then have "int (unat (ntohs w)) - int (256 * unat w) = 65535 * - int (unat w div 256)"
    unfolding ntohs_value d by (simp add: of_nat_diff)
  then have "65535 dvd int (unat (ntohs w)) - int (256 * unat w)" by (rule dvdI)
  moreover have "65535 dvd 256 * (int (unat w) - int n)" using w by (intro dvd_mult) (simp add: ones_val_def)
  ultimately have "65535 dvd (int (unat (ntohs w)) - int (256 * unat w)) + 256 * (int (unat w) - int n)" by (rule dvd_add)
  then have "65535 dvd int (unat (ntohs w)) - int (256 * n)" by (simp add: algebra_simps)
  moreover have "ntohs w = 0 \<longleftrightarrow> w = 0"
  proof
    assume "ntohs w = 0"
    then have "256 * (unat w mod 256) + unat w div 256 = 0" using ntohs_value [of w] by simp
    then have "unat w mod 256 = 0" "unat w div 256 = 0" by simp_all
    then have "unat w = 0" by (metis div_mult_mod_eq mult_zero_left add_0)
    then show "w = 0" by (simp add: unat_eq_zero)
  qed (simp add: ntohs_def)
  ultimately show "ones_val 65535 (ntohs w) (256 * n)" using w by (simp add: ones_val_def)
qed

lemma ones_val_unique:
  assumes "ones_val 65535 (v :: 16 word) n" "ones_val 65535 w n"
  shows "v = w"
proof -
  have b: "unat v < 65536" "unat w < 65536" using unat_bound [of v] unat_bound [of w] by simp_all
  have "65535 dvd (int (unat v) - int n) - (int (unat w) - int n)"
    by (rule dvd_diff) (use assms in \<open>auto simp: ones_val_def\<close>)
  then obtain k where k: "int (unat v) - int (unat w) = 65535 * k" by (auto elim: dvdE)
  have z: "unat v = 0 \<longleftrightarrow> unat w = 0" using assms by (simp add: ones_val_def unat_eq_zero)
  have "k \<le> 0"
  proof (rule ccontr)
    assume "\<not> k \<le> 0"
    then have "int (unat v) \<ge> 65535 + int (unat w)" using k by linarith
    then show False using b z by linarith
  qed
  moreover have "0 \<le> k"
  proof (rule ccontr)
    assume "\<not> 0 \<le> k"
    then have "int (unat w) \<ge> 65535 + int (unat v)" using k by linarith
    then show False using b z by linarith
  qed
  ultimately have "k = 0" by simp
  with k show ?thesis by (simp add: unsigned_word_eqI)
qed

fun be_total :: "16 word list \<Rightarrow> nat" where
  "be_total [] = 0"
| "be_total (w # ws) = unat w + be_total ws"

lemma fold_ones_val: "ones_val 65535 (s :: 16 word) n \<Longrightarrow> ones_val 65535 (fold (\<lambda>w s. ones_add s w) ws s) (n + be_total ws)"
proof (induction ws arbitrary: s n)
  case (Cons w ws)
  have "ones_val 65535 (ones_add s w) (n + unat w)" by (intro ones_add_val ones_val_self Cons.prems) simp
  from Cons.IH [OF this] show ?case by (simp add: add.assoc)
qed simp

lemma be_word: "unat (256 * ucast a + ucast b :: 16 word) = 256 * unat (a :: u8) + unat (b :: u8)"
proof -
  have "unat a < 256" "unat b < 256" using unat_bound [of a] unat_bound [of b] by simp_all
  then have "256 * unat a + unat b < 2 ^ 16" by simp
  moreover have "(256 * ucast a + ucast b :: 16 word) = word_of_nat (256 * unat a + unat b)" by simp
  ultimately show ?thesis by (simp only: unat_of_nat mod_less) simp
qed

lemma be_le_total: "65535 dvd int (be_total (be_words buf)) - int (256 * le_total buf) \<and> (be_total (be_words buf) = 0 \<longleftrightarrow> le_total buf = 0)"
proof (induction buf rule: be_words.induct)
  case (2 a)
  show ?case using be_word [of a 0] by simp
next
  case (3 a b bs)
  have eq: "int (be_total (be_words (a # b # bs))) - int (256 * le_total (a # b # bs)) =
      (int (be_total (be_words bs)) - int (256 * le_total bs)) + 65535 * - int (unat b)"
    using be_word [of a b] by (simp add: algebra_simps)
  have "65535 dvd (int (be_total (be_words bs)) - int (256 * le_total bs)) + 65535 * - int (unat b)"
    using 3 by (intro dvd_add dvd_triv_left) blast
  moreover have "be_total (be_words (a # b # bs)) = 256 * unat a + unat b + be_total (be_words bs)"
    using be_word [of a b] by simp
  then have "be_total (be_words (a # b # bs)) = 0 \<longleftrightarrow> le_total (a # b # bs) = 0"
    using 3 by simp
  ultimately show ?case unfolding eq by blast
qed simp

text \<open>
  C20: The sum of words of 64 bits in the byte order of the host, folded and swapped at the end, is the Internet checksum
  of RFC 1071, for every buffer and every length.
\<close>

theorem cksum16_is_rfc1071: "cksum16 buf = internet_checksum buf"
proof -
  obtain w where w: "raw_cksum16 buf = NOT w" "ones_val 65535 w (le_total buf)" using raw_cksum_val by blast
  have "ones_val 65535 (ntohs w) (256 * le_total buf)" by (rule ntohs_val) (rule w)
  moreover have "ones_val 65535 (fold (\<lambda>w s. ones_add s w) (be_words buf) 0) (0 + be_total (be_words buf))"
    by (rule fold_ones_val) (simp add: ones_val_def)
  then have "ones_val 65535 (fold (\<lambda>w s. ones_add s w) (be_words buf) 0) (be_total (be_words buf))"
    unfolding add_0 .
  then have "ones_val 65535 (fold (\<lambda>w s. ones_add s w) (be_words buf) 0) (256 * le_total buf)"
    by (rule ones_val_eq) (use be_le_total [of buf] in \<open>simp_all only: mult_eq_0_iff\<close>, simp)
  ultimately have "ntohs w = fold (\<lambda>w s. ones_add s w) (be_words buf) 0" by (rule ones_val_unique)
  then show ?thesis by (simp add: cksum16_def w(1) ntohs_not internet_checksum_def)
qed

end
