(* ===== verification/Checksums.thy ===== *)
theory Checksums
  imports Phv_Store Expressions Crc Internet_Checksum
begin

unbundle bit_operations_syntax

text \<open>
  Calculations over packets and the checksums made of them: the rest of \<^verbatim>\<open>calculations.cpp\<close> and \<^verbatim>\<open>calculations.h\<close>
  (the builder of the buffer that is hashed, the registry of hash functions, the configuration of custom checks) and
  \<^verbatim>\<open>checksums.cpp\<close>.  The theorems: the buffer holds the bits of its entries in order; a header whose IPv4 checksum is
  updated verifies, and it verifies only with the checksum that RFC 1071 defines; when a checksum of a calculation
  does.
\<close>

section \<open>Hash functions\<close>

text \<open>\<open>xxh\<close> is the function of the xxHash library.\<close>

datatype raw_calc =
    Xxh64 | Crc16 | Crc32 | CrcCCITT | Cksum16 | Csum16 | Identity
  | Crc16_Custom "16 word crc_custom" | Crc32_Custom "32 word crc_custom"

fun identity_loop :: "u8 list \<Rightarrow> u64 \<Rightarrow> u64" where
  "identity_loop [] res = res"
| "identity_loop (b # bs) res = identity_loop bs (push_bit 8 res + ucast b)"

definition identity_hash :: "u8 list \<Rightarrow> u64" where
  "identity_hash buf = identity_loop (take 8 buf) 0"

text \<open>\<^verbatim>\<open>RawCalculation::output\<close>: the result of the functor as a word of 64 bits.\<close>

fun raw_output :: "(u8 list \<Rightarrow> u64) \<Rightarrow> raw_calc \<Rightarrow> u8 list \<Rightarrow> u64 option" where
  "raw_output xxh Xxh64 buf = Some (xxh buf)"
| "raw_output xxh Crc16 buf = map_option ucast (crc16 buf)"
| "raw_output xxh Crc32 buf = map_option ucast (crc32 buf)"
| "raw_output xxh CrcCCITT buf = map_option ucast (crcCCITT buf)"
| "raw_output xxh Cksum16 buf = Some (ucast (cksum16 buf))"
| "raw_output xxh Csum16 buf = Some (ucast (csum16 buf))"
| "raw_output xxh Identity buf = Some (identity_hash buf)"
| "raw_output xxh (Crc16_Custom c) buf = map_option ucast (crc_custom_hash c buf)"
| "raw_output xxh (Crc32_Custom c) buf = map_option ucast (crc_custom_hash c buf)"

text \<open>A clone is a newly constructed functor.\<close>

fun raw_clone :: "raw_calc \<Rightarrow> raw_calc" where
  "raw_clone (Crc16_Custom c) = Crc16_Custom crc16_custom_new"
| "raw_clone (Crc32_Custom c) = Crc32_Custom crc32_custom_new"
| "raw_clone c = c"

type_synonym calculations_map = "string \<rightharpoonup> raw_calc"

definition register_one :: "string \<Rightarrow> raw_calc \<Rightarrow> calculations_map \<Rightarrow> bool \<times> calculations_map" where
  "register_one name c m = (if m name \<noteq> None then (False, m) else (True, m(name \<mapsto> c)))"

definition get_copy :: "string \<Rightarrow> calculations_map \<Rightarrow> raw_calc option" where
  "get_copy name m = map_option raw_clone (m name)"

definition registered :: calculations_map where
  "registered = fold (\<lambda>(n, c) m. snd (register_one n c m))
     [(''xxh64'', Xxh64), (''crc16'', Crc16), (''crc32'', Crc32), (''crcCCITT'', CrcCCITT), (''cksum16'', Cksum16),
      (''csum16'', Csum16), (''identity'', Identity), (''crc16_custom'', Crc16_Custom crc16_custom_new),
      (''crc32_custom'', Crc32_Custom crc32_custom_new)] Map.empty"

datatype crc_error = SUCCESS | INVALID_CALCULATION_NAME | WRONG_TYPE_CALCULATION | INVALID_CONFIG

definition update_config16 :: "raw_calc \<Rightarrow> 16 word crc_config \<Rightarrow> crc_error \<times> raw_calc" where
  "update_config16 c cfg = (case c of Crc16_Custom k \<Rightarrow> (SUCCESS, Crc16_Custom (update_config cfg k)) | _ \<Rightarrow> (WRONG_TYPE_CALCULATION, c))"

definition update_config32 :: "raw_calc \<Rightarrow> 32 word crc_config \<Rightarrow> crc_error \<times> raw_calc" where
  "update_config32 c cfg = (case c of Crc32_Custom k \<Rightarrow> (SUCCESS, Crc32_Custom (update_config cfg k)) | _ \<Rightarrow> (WRONG_TYPE_CALCULATION, c))"

section \<open>The buffer\<close>

datatype buf_entry = BField nat nat | BConstant "u8 list" nat | BHeader nat

record buf_builder =
  bb_entries :: "buf_entry list"
  with_payload :: bool

definition new_builder :: buf_builder where
  "new_builder = \<lparr>bb_entries = [], with_payload = False\<rparr>"

definition bb_push_back_field :: "nat \<Rightarrow> nat \<Rightarrow> buf_builder \<Rightarrow> buf_builder" where
  "bb_push_back_field h f b = b\<lparr>bb_entries := bb_entries b @ [BField h f]\<rparr>"

definition bb_push_back_constant :: "u8 list \<Rightarrow> nat \<Rightarrow> buf_builder \<Rightarrow> buf_builder" where
  "bb_push_back_constant v n b = b\<lparr>bb_entries := bb_entries b @ [BConstant v n]\<rparr>"

definition bb_push_back_header :: "nat \<Rightarrow> buf_builder \<Rightarrow> buf_builder" where
  "bb_push_back_header h b = b\<lparr>bb_entries := bb_entries b @ [BHeader h]\<rparr>"

definition append_payload :: "buf_builder \<Rightarrow> buf_builder" where
  "append_payload b = b\<lparr>with_payload := True\<rparr>"

text \<open>
  The visitor: the buffer and the number of bits in it.  \<open>put_bits\<close> extends the buffer and lets a function write at the
  place where the last bit was.
\<close>

type_synonym deparse_state = "u8 list \<times> nat"

definition extend_buf :: "nat \<Rightarrow> deparse_state \<Rightarrow> deparse_state" where
  "extend_buf extra st = (case st of (buf, n) \<Rightarrow>
     (let k = (n + extra + 7) div 8 in (take k buf @ replicate (k - length buf) 0, n + extra)))"

definition put_bits :: "nat \<Rightarrow> (u8 list \<Rightarrow> nat \<Rightarrow> u8 list option) \<Rightarrow> deparse_state \<Rightarrow> deparse_state option" where
  "put_bits extra wr st = (let (buf, m) = extend_buf extra st; q = snd st div 8 in
     do { r \<leftarrow> wr (drop q buf) (snd st mod 8); Some (take q buf @ r, m) })"

fun visit_entry :: "phv \<Rightarrow> buf_entry \<Rightarrow> deparse_state \<Rightarrow> deparse_state option" where
  "visit_entry p (BField h i) st = do {
     hd \<leftarrow> nth_opt (headers p) h;
     if \<not> is_valid hd then Some st
     else do {
       f \<leftarrow> nth_opt (hfields hd) i;
       put_bits (nbits f) (field_deparse f) st } }"
| "visit_entry p (BConstant v n) st = put_bits n (generic_deparse v n) st"
| "visit_entry p (BHeader h) st = do {
     guard (snd st mod 8 = 0);
     hd \<leftarrow> nth_opt (headers p) h;
     if is_valid hd then put_bits (nat (nbytes_packet hd) * 8) (\<lambda>d _. header_deparse hd d) st
     else Some st }"

text \<open>\<open>data\<close> is what the packet still holds.\<close>

definition build_buf :: "buf_builder \<Rightarrow> phv \<Rightarrow> u8 list \<Rightarrow> u8 list option" where
  "build_buf b p data = do {
     (buf, n) \<leftarrow> fold_opt (visit_entry p) (bb_entries b) ([], 0);
     Some (if with_payload b then buf @ data else buf) }"

text \<open>\<open>None\<close> as the raw calculation is the null pointer that an unknown name gives.\<close>

definition calc_output :: "(u8 list \<Rightarrow> u64) \<Rightarrow> buf_builder \<Rightarrow> raw_calc option \<Rightarrow> phv \<Rightarrow> u8 list \<Rightarrow> u64 option" where
  "calc_output xxh b c p data = do { key \<leftarrow> build_buf b p data; r \<leftarrow> c; raw_output xxh r key }"

section \<open>Checksums\<close>

text \<open>What both kinds have: the field, and a condition.  The condition sees the headers only.\<close>

record checksum =
  ck_header :: nat
  ck_field :: nat
  ck_condition :: "expression option"

definition set_checksum_condition :: "expression option \<Rightarrow> checksum \<Rightarrow> checksum" where
  "set_checksum_condition c k = k\<lparr>ck_condition := c\<rparr>"

definition condition_met :: "eval_env \<Rightarrow> checksum \<Rightarrow> bool option" where
  "condition_met env k = (case ck_condition k of None \<Rightarrow> Some True | Some e \<Rightarrow> eval_bool env e [])"

definition checksum_update :: "eval_env \<Rightarrow> (checksum \<Rightarrow> phv \<Rightarrow> phv option) \<Rightarrow> checksum \<Rightarrow> phv option" where
  "checksum_update env upd k = do {
     met \<leftarrow> condition_met env k;
     if met then upd k (env_phv env) else Some (env_phv env) }"

definition checksum_verify :: "eval_env \<Rightarrow> (checksum \<Rightarrow> phv \<Rightarrow> bool option) \<Rightarrow> checksum \<Rightarrow> bool option" where
  "checksum_verify env vfy k = do {
     met \<leftarrow> condition_met env k;
     if met then vfy k (env_phv env) else Some True }"

definition put_field :: "nat \<Rightarrow> nat \<Rightarrow> field \<Rightarrow> phv \<Rightarrow> phv option" where
  "put_field i j f p = do { h \<leftarrow> nth_opt (headers p) i; Some (put_header i (h\<lparr>hfields := (hfields h)[j := f]\<rparr>) p) }"

definition calc_update :: "(phv \<Rightarrow> u64 option) \<Rightarrow> checksum \<Rightarrow> phv \<Rightarrow> phv option" where
  "calc_update calc k p = do {
     c \<leftarrow> calc p;
     f \<leftarrow> phv_get_field p (ck_header k) (ck_field k);
     f' \<leftarrow> field_set f (uint c);
     put_field (ck_header k) (ck_field k) f' p }"

definition calc_verify :: "(phv \<Rightarrow> u64 option) \<Rightarrow> checksum \<Rightarrow> phv \<Rightarrow> bool option" where
  "calc_verify calc k p = do {
     c \<leftarrow> calc p;
     f \<leftarrow> phv_get_field p (ck_header k) (ck_field k);
     v \<leftarrow> get_uint64 f;
     Some (unat c = v) }"

definition IPV4_CKSUM_OFFSET :: nat where "IPV4_CKSUM_OFFSET = 10"

text \<open>The bytes of a word of 16 bits in the memory of the host.\<close>

definition host_bytes :: "16 word \<Rightarrow> u8 list" where
  "host_bytes w = [ucast w, ucast (drop_bit 8 w)]"

text \<open>\<open>buffer\<close> is the array of 60 bytes as it is found on the stack.\<close>

definition ipv4_cksum :: "u8 list \<Rightarrow> header \<Rightarrow> 16 word option" where
  "ipv4_cksum buffer h = do {
     d \<leftarrow> header_deparse h buffer;
     guard (0 \<le> nbytes_packet h \<and> nat (nbytes_packet h) \<le> length d);
     Some (raw_cksum16 (take (nat (nbytes_packet h)) (d[IPV4_CKSUM_OFFSET := 0, IPV4_CKSUM_OFFSET + 1 := 0]))) }"

definition ipv4_update :: "u8 list \<Rightarrow> checksum \<Rightarrow> phv \<Rightarrow> phv option" where
  "ipv4_update buffer k p = do {
     h \<leftarrow> nth_opt (headers p) (ck_header k);
     if \<not> is_valid h then Some p
     else do {
       f \<leftarrow> nth_opt (hfields h) (ck_field k);
       c \<leftarrow> ipv4_cksum buffer h;
       f' \<leftarrow> set_bytes f (host_bytes c);
       put_field (ck_header k) (ck_field k) f' p } }"

definition ipv4_verify :: "u8 list \<Rightarrow> checksum \<Rightarrow> phv \<Rightarrow> bool option" where
  "ipv4_verify buffer k p = do {
     h \<leftarrow> nth_opt (headers p) (ck_header k);
     if \<not> is_valid h then Some True
     else do {
       f \<leftarrow> nth_opt (hfields h) (ck_field k);
       c \<leftarrow> ipv4_cksum buffer h;
       guard (2 \<le> length (fbytes f));
       Some (host_bytes c = take 2 (fbytes f)) } }"

section \<open>What the buffer holds\<close>

text \<open>The bits of an entry: those of the field, the constant or the header; none if the header is not valid.\<close>

definition field_bits :: "field \<Rightarrow> bool list" where
  "field_bits f = drop (8 * nbytes f - nbits f) (bits (fbytes f))"

definition header_bits :: "header \<Rightarrow> bool list" where
  "header_bits h = concat (map field_bits (visible (hfields h)))"

text \<open>Fields as their constructors and their operations leave them, none of them empty.\<close>

definition plain_fields :: "header \<Rightarrow> bool" where
  "plain_fields h \<longleftrightarrow> (\<forall>f \<in> set (visible (hfields h)). field_ok f \<and> packed f \<and> 0 < nbits f)"

lemma length_field_bits: "field_ok f \<Longrightarrow> length (field_bits f) = nbits f"
  using bytes_of_bits_ge [of "nbits f"] by (simp add: field_bits_def field_ok_def)

lemma field_bits_store: "\<lbrakk>field_ok f; packed f\<rbrakk> \<Longrightarrow> field_store (nbits f) (field_bits f) (fbytes f)"
  unfolding field_bits_def by (rule packed_field_store)

lemma header_holds:
  assumes "plain_fields h"
  shows "holds_bits (hfields h) (header_bits h)" "length (header_bits h) = width_of (hfields h)"
proof -
  have "holds_bits fs (concat (map field_bits (visible fs))) \<and> length (concat (map field_bits (visible fs))) = width_of fs"
    if "\<forall>f \<in> set (visible fs). field_ok f \<and> packed f \<and> 0 < nbits f" for fs
    using that
  proof (induction fs)
    case (Cons f fs)
    show ?case
    proof (cases "hidden f")
      case False
      with Cons.prems have f: "field_ok f" "packed f" and rest: "\<forall>f \<in> set (visible fs). field_ok f \<and> packed f \<and> 0 < nbits f"
        by (simp_all add: visible_def)
      from Cons.IH [OF rest] f False show ?thesis
        by (simp add: visible_def length_field_bits field_bits_store)
    qed (simp add: visible_def)
  qed (simp add: visible_def)
  with assms show "holds_bits (hfields h) (header_bits h)" "length (header_bits h) = width_of (hfields h)"
    by (simp_all add: plain_fields_def header_bits_def)
qed

lemma header_deparse_bits:
  assumes "plain_fields h" "width_of (hfields h) \<le> 8 * length dst"
  shows "\<exists>d. header_deparse h dst = Some d \<and> length d = length dst \<and> take (width_of (hfields h)) (bits d) = header_bits h"
  using deparse_fields_bits [OF header_holds(1) [OF assms(1)] _ header_holds(2) [OF assms(1)], of 0 dst] assms
  by (simp add: plain_fields_def header_deparse_def)

text \<open>An entry that writes some bits at a place.\<close>

definition writes :: "nat \<Rightarrow> nat \<Rightarrow> (u8 list \<Rightarrow> nat \<Rightarrow> u8 list option) \<Rightarrow> bool list \<Rightarrow> bool" where
  "writes off n wr B \<longleftrightarrow> length B = n \<and> (\<forall>dst. off + n \<le> 8 * length dst \<longrightarrow>
     (\<exists>d. wr dst off = Some d \<and> length d = length dst \<and> take (off + n) (bits d) = take off (bits dst) @ B))"

definition holds :: "deparse_state \<Rightarrow> bool list \<Rightarrow> bool" where
  "holds st B \<longleftrightarrow> length B = snd st \<and> length (fst st) = bytes_of_bits (snd st) \<and> take (snd st) (bits (fst st)) = B"

lemma extend_holds:
  assumes "holds st B"
  shows "length (fst (extend_buf n st)) = bytes_of_bits (snd st + n)" "snd (extend_buf n st) = snd st + n"
    "take (snd st) (bits (fst (extend_buf n st))) = B"
proof -
  obtain buf m where st: "st = (buf, m)" by (cases st)
  have l: "length buf = bytes_of_bits m" "take m (bits buf) = B" using assms by (simp_all add: holds_def st)
  have k: "(m + n + 7) div 8 = bytes_of_bits (m + n)" by (simp add: bytes_of_bits_def)
  have le: "length buf \<le> bytes_of_bits (m + n)" unfolding l by (rule bytes_of_bits_mono) simp
  show "length (fst (extend_buf n st)) = bytes_of_bits (snd st + n)" "snd (extend_buf n st) = snd st + n"
    using le by (simp_all add: st extend_buf_def Let_def k)
  have "m \<le> length (bits buf)" using bytes_of_bits_ge [of m] by (simp add: l(1))
  then show "take (snd st) (bits (fst (extend_buf n st))) = B"
    using le l(2) by (simp add: st extend_buf_def Let_def k)
qed

lemma put_bits_holds:
  assumes "holds st B" "writes (snd st mod 8) n wr C"
  shows "\<exists>st'. put_bits n wr st = Some st' \<and> holds st' (B @ C)"
proof -
  obtain b0 m where st: "st = (b0, m)" by (cases st)
  define buf where "buf = fst (extend_buf n st)"
  have e: "extend_buf n (b0, m) = (buf, m + n)"
    using extend_holds(2) [OF assms(1), of n] by (simp add: st buf_def prod_eq_iff)
  have l: "length buf = bytes_of_bits (m + n)" "take m (bits buf) = B" "length B = m"
    using extend_holds [OF assms(1), of n] assms(1) by (simp_all add: buf_def st holds_def)
  define q r where "q = m div 8" and "r = m mod 8"
  have qr: "m = 8 * q + r" "r < 8" by (simp_all add: q_def r_def)
  have room: "m + n \<le> 8 * length buf" using bytes_of_bits_ge [of "m + n"] by (simp add: l(1))
  then have ql: "q \<le> length buf" "r + n \<le> 8 * length (drop q buf)" using qr(1) by (simp_all add: diff_mult_distrib2)
  obtain d where d: "wr (drop q buf) r = Some d" "length d = length (drop q buf)"
    "take (r + n) (bits d) = take r (bits (drop q buf)) @ C" and lC: "length C = n"
    using assms(2) ql(2) unfolding writes_def st snd_conv r_def by blast
  have "take (m + n) (bits (take q buf @ d)) = bits (take q buf) @ take (r + n) (bits d)"
    using ql(1) qr(1) by simp
  also have "\<dots> = (take (8 * q) (bits buf) @ take r (drop (8 * q) (bits buf))) @ C"
    by (simp only: d(3) take_bits drop_bits append.assoc)
  also have "\<dots> = take m (bits buf) @ C" by (simp only: take_add [symmetric] qr(1) [symmetric])
  finally have "take (m + n) (bits (take q buf @ d)) = B @ C" by (simp only: l(2))
  moreover have "length (take q buf @ d) = bytes_of_bits (m + n)" using d(2) ql(1) l(1) by simp
  ultimately have "holds (take q buf @ d, m + n) (B @ C)" using l(3) lC by (simp add: holds_def)
  moreover have "put_bits n wr st = Some (take q buf @ d, m + n)"
    using d(1) by (simp add: put_bits_def e st q_def r_def)
  ultimately show ?thesis by blast
qed

lemma writes_field: "\<lbrakk>field_ok f; packed f; 0 < nbits f\<rbrakk> \<Longrightarrow> writes (m mod 8) (nbits f) (field_deparse f) (field_bits f)"
  unfolding writes_def field_deparse_def
  using generic_deparse_bits [OF field_bits_store] length_field_bits by simp

lemma writes_store: "\<lbrakk>field_store n B v; 0 < n\<rbrakk> \<Longrightarrow> writes (m mod 8) n (generic_deparse v n) B"
  unfolding writes_def using generic_deparse_bits [of n B v "m mod 8"] by (auto simp: field_store_def)

lemma writes_header:
  assumes "plain_fields h" "width_of (hfields h) = n"
  shows "writes 0 n (\<lambda>d _. header_deparse h d) (header_bits h)"
  unfolding writes_def using header_deparse_bits [OF assms(1)] header_holds(2) [OF assms(1)] assms(2) by simp

fun entry_bits :: "phv \<Rightarrow> buf_entry \<Rightarrow> bool list" where
  "entry_bits p (BField h i) = (if is_valid (headers p ! h) then field_bits (hfields (headers p ! h) ! i) else [])"
| "entry_bits p (BConstant v n) = drop (8 * length v - n) (bits v)"
| "entry_bits p (BHeader h) = (if is_valid (headers p ! h) then header_bits (headers p ! h) else [])"

text \<open>
  An entry that can be written: the indices exist, the values are in the form that their operations leave them in, and a
  whole header starts and ends at a byte.
\<close>

fun entry_ok :: "phv \<Rightarrow> buf_entry \<Rightarrow> bool" where
  "entry_ok p (BField h i) \<longleftrightarrow> h < length (headers p) \<and> (is_valid (headers p ! h) \<longrightarrow> i < length (hfields (headers p ! h)) \<and>
     (let f = hfields (headers p ! h) ! i in field_ok f \<and> packed f \<and> 0 < nbits f))"
| "entry_ok p (BConstant v n) \<longleftrightarrow> 0 < n \<and> field_store n (drop (8 * length v - n) (bits v)) v"
| "entry_ok p (BHeader h) \<longleftrightarrow> h < length (headers p) \<and> (is_valid (headers p ! h) \<longrightarrow> plain_fields (headers p ! h) \<and>
     0 \<le> nbytes_packet (headers p ! h) \<and> width_of (hfields (headers p ! h)) = 8 * nat (nbytes_packet (headers p ! h)))"

fun aligned :: "phv \<Rightarrow> nat \<Rightarrow> buf_entry list \<Rightarrow> bool" where
  "aligned p n [] = True"
| "aligned p n (e # es) \<longleftrightarrow> (case e of BHeader h \<Rightarrow> n mod 8 = 0 | _ \<Rightarrow> True) \<and> aligned p (n + length (entry_bits p e)) es"

lemma visit_holds:
  assumes "holds st B" "entry_ok p e" "case e of BHeader h \<Rightarrow> snd st mod 8 = 0 | _ \<Rightarrow> True"
  shows "\<exists>st'. visit_entry p e st = Some st' \<and> holds st' (B @ entry_bits p e)"
proof (cases e)
  case (BField h i)
  show ?thesis
  proof (cases "is_valid (headers p ! h)")
    case True
    with assms(2) BField have f: "h < length (headers p)" "i < length (hfields (headers p ! h))"
      "field_ok (hfields (headers p ! h) ! i)" "packed (hfields (headers p ! h) ! i)" "0 < nbits (hfields (headers p ! h) ! i)"
      by (simp_all add: Let_def)
    from put_bits_holds [OF assms(1) writes_field [OF f(3-5)]] f(1,2) True BField show ?thesis by simp
  next
    case False
    with assms BField show ?thesis by simp
  qed
next
  case (BConstant v n)
  with assms(2) have c: "0 < n" "field_store n (drop (8 * length v - n) (bits v)) v" by simp_all
  from put_bits_holds [OF assms(1) writes_store [OF c(2,1)]] BConstant show ?thesis by simp
next
  case (BHeader h)
  show ?thesis
  proof (cases "is_valid (headers p ! h)")
    case True
    with assms(2) BHeader have h: "h < length (headers p)" "plain_fields (headers p ! h)"
      "width_of (hfields (headers p ! h)) = nat (nbytes_packet (headers p ! h)) * 8" by simp_all
    have z: "snd st mod 8 = 0" using assms(3) BHeader by simp
    from put_bits_holds [OF assms(1), unfolded z, OF writes_header [OF h(2,3)]] h(1) True BHeader z show ?thesis by simp
  next
    case False
    with assms BHeader show ?thesis by simp
  qed
qed

lemma visit_all:
  assumes "holds st B" "\<forall>e \<in> set es. entry_ok p e" "aligned p (snd st) es"
  shows "\<exists>st'. fold_opt (visit_entry p) es st = Some st' \<and> holds st' (B @ concat (map (entry_bits p) es))"
  using assms
proof (induction es arbitrary: st B)
  case (Cons e es)
  then obtain st1 where st1: "visit_entry p e st = Some st1" "holds st1 (B @ entry_bits p e)"
    using visit_holds [OF Cons.prems(1), of p e] by auto
  have "snd st1 = snd st + length (entry_bits p e)"
    using st1(2) Cons.prems(1) by (simp add: holds_def)
  then have "aligned p (snd st1) es" using Cons.prems(3) by simp
  from Cons.IH [OF st1(2) _ this] Cons.prems(2) st1(1) show ?case by simp
qed auto

text \<open>
  C21: If every field that is asked for holds its bits in its bytes with nothing but zeros in front, every constant does too,
  the fields of a header fill its bytes, and every valid header starts at a whole byte of the buffer, then the buffer that is
  hashed holds the bits of the fields, constants and headers in order, without gaps, in as many bytes as they need, and then
  what is left of the packet if it was asked for; entries of headers that are not valid are left out.
\<close>

theorem builder_concatenates:
  assumes "\<forall>e \<in> set (bb_entries b). entry_ok p e" "aligned p 0 (bb_entries b)"
  defines "B \<equiv> concat (map (entry_bits p) (bb_entries b))"
  shows "\<exists>buf. build_buf b p data = Some (buf @ (if with_payload b then data else [])) \<and>
    length buf = bytes_of_bits (length B) \<and> take (length B) (bits buf) = B"
proof -
  have "holds ([], 0) []" by (simp add: holds_def bytes_of_bits_def)
  from visit_all [OF this assms(1)] assms(2)
  obtain buf n where "fold_opt (visit_entry p) (bb_entries b) ([], 0) = Some (buf, n)" "holds (buf, n) B"
    by (auto simp: B_def)
  then show ?thesis by (auto simp: build_buf_def holds_def)
qed


section \<open>IPv4\<close>

definition net_bytes :: "16 word \<Rightarrow> u8 list" where
  "net_bytes w = [ucast (drop_bit 8 w), ucast w]"

lemma host_bytes_ntohs: "net_bytes (ntohs w) = host_bytes w"
  unfolding net_bytes_def host_bytes_def ntohs_def
  by (auto intro!: bit_eqI simp: bit_simps)

lemma host_bytes_raw: "host_bytes (raw_cksum16 b) = net_bytes (internet_checksum b)"
  unfolding host_bytes_ntohs [symmetric] cksum16_def [symmetric] cksum16_is_rfc1071 ..

definition clear_cksum :: "u8 list \<Rightarrow> u8 list" where
  "clear_cksum bs = bs[10 := 0, 11 := 0]"

text \<open>A header whose fields are \<open>n\<close> bytes long, these bytes being \<open>bs\<close>.\<close>

definition on_wire :: "header \<Rightarrow> u8 list \<Rightarrow> bool" where
  "on_wire h bs \<longleftrightarrow> is_valid h \<and> plain_fields h \<and> header_bits h = bits bs \<and> nbytes_packet h = int (length bs)"

lemma ipv4_cksum_wire:
  assumes "on_wire h bs" "12 \<le> length bs" "length bs \<le> length buffer"
  shows "ipv4_cksum buffer h = Some (raw_cksum16 (clear_cksum bs))"
proof -
  have w: "width_of (hfields h) = 8 * length bs"
    using assms(1) header_holds(2) [of h] by (simp add: on_wire_def)
  with header_deparse_bits [of h buffer] assms obtain d where d: "header_deparse h buffer = Some d"
    "length d = length buffer" "take (8 * length bs) (bits d) = bits bs"
    by (auto simp: on_wire_def)
  have "bits (take (length bs) d) = bits bs" using d(3) by (simp add: take_bits)
  then have "take (length bs) d = bs" using d(2) assms(3) by (intro bits_inject [THEN iffD1]) simp_all
  then have "take (length bs) (d[10 := 0, 11 := 0]) = clear_cksum bs" by (simp add: clear_cksum_def take_update_swap)
  with d assms show ?thesis by (simp add: ipv4_cksum_def IPV4_CKSUM_OFFSET_def on_wire_def)
qed

text \<open>
  C23: the IPv4 checksum of a valid header verifies exactly if the bytes of the field are, in network order, the checksum
  of RFC 1071 over the bytes of the header with bytes 10 and 11 zero, whatever the buffer held before.
\<close>

theorem ipv4_verify_is_rfc1071:
  assumes "ck_header k < length (headers p)" "headers p ! ck_header k = h" "on_wire h bs"
    "12 \<le> length bs" "length bs \<le> 60" "length buffer = 60"
    "ck_field k < length (hfields h)" "length (fbytes (hfields h ! ck_field k)) = 2"
  shows "ipv4_verify buffer k p =
    Some (fbytes (hfields h ! ck_field k) = net_bytes (internet_checksum (clear_cksum bs)))"
proof -
  have "ipv4_cksum buffer h = Some (raw_cksum16 (clear_cksum bs))"
    using assms by (intro ipv4_cksum_wire) simp_all
  with assms show ?thesis by (auto simp: ipv4_verify_def on_wire_def host_bytes_raw)
qed

lemma visible_append: "\<forall>f \<in> set xs. \<not> hidden f \<Longrightarrow> visible (xs @ ys) = xs @ visible ys"
  by (simp add: visible_def)

text \<open>The field of 16 bits that follows fields of 80 bits.\<close>

lemma replace_cksum:
  assumes "on_wire h bs" "hfields h = xs @ f # ys" "\<forall>g \<in> set (xs @ [f]). \<not> hidden g" "width_of xs = 80" "nbits f = 16"
    "fbytes f' = [a, b]" "nbits f' = 16" "nbytes f' = 2" "field_ok f'" "\<not> hidden f'"
  shows "on_wire (h\<lparr>hfields := xs @ f' # ys\<rparr>) (take 10 bs @ [a, b] @ drop 12 bs)" "12 \<le> length bs"
proof -
  let ?h = "h\<lparr>hfields := xs @ f' # ys\<rparr>"
  have v: "visible (hfields h) = xs @ f # visible ys" "visible (hfields ?h) = xs @ f' # visible ys"
    using assms(2,3,10) by (simp_all add: visible_append) (simp_all add: visible_def)
  have ok: "\<forall>f \<in> set (visible (hfields h)). field_ok f \<and> packed f \<and> 0 < nbits f"
    using assms(1) by (simp add: on_wire_def plain_fields_def)
  have "packed f'" using assms(6,7) import_bytes_bound [of "fbytes f'"] by (simp add: packed_def)
  then have pf: "plain_fields ?h" using ok v assms(7,9) by (auto simp: plain_fields_def)
  define pre post where "pre = concat (map field_bits xs)" and "post = concat (map field_bits (visible ys))"
  have hb: "header_bits h = pre @ field_bits f @ post" "header_bits ?h = pre @ bits [a, b] @ post"
    unfolding header_bits_def v using assms(6-8) by (simp_all add: pre_def post_def field_bits_def)
  have lf: "length (field_bits f) = 16" using ok v(1) assms(5) by (simp add: length_field_bits)
  have "length pre = width_of xs"
  proof -
    have "\<forall>f \<in> set xs. length (field_bits f) = nbits f" using ok v(1) by (simp add: length_field_bits)
    then have "length pre = sum_list (map nbits xs)" unfolding pre_def by (induction xs) simp_all
    moreover have "visible xs = xs" using assms(3) visible_append [of xs "[]"] by (simp add: visible_def)
    ultimately show ?thesis by (simp add: width_of_def)
  qed
  then have lp: "length pre = 80" using assms(4) by simp
  have B: "bits bs = pre @ field_bits f @ post" using assms(1) hb(1) by (simp add: on_wire_def)
  have "bits (take 10 bs) = pre" using take_bits [of 10 bs] lp by (simp add: B)
  moreover have "bits (drop 12 bs) = post" using drop_bits [of 12 bs] lp lf by (simp add: B)
  ultimately have "header_bits ?h = bits (take 10 bs @ [a, b] @ drop 12 bs)" by (simp add: hb(2))
  moreover have "length (bits bs) = 96 + length post" using lp lf by (simp add: B)
  then show "12 \<le> length bs" by simp
  ultimately show "on_wire ?h (take 10 bs @ [a, b] @ drop 12 bs)"
    using assms(1) pf by (simp add: on_wire_def is_valid_def)
qed

lemma clear_replaced: "12 \<le> length bs \<Longrightarrow> clear_cksum (take 10 bs @ [a, b] @ drop 12 bs) = clear_cksum bs"
  by (rule nth_equalityI) (auto simp: clear_cksum_def nth_list_update nth_append)

text \<open>
  C22: after the IPv4 checksum of a valid header was updated it verifies, and nothing but bytes 10 and 11 of the header
  changed: they hold the checksum of RFC 1071.
\<close>

theorem ipv4_update_verifies:
  assumes "ck_header k < length (headers p)" "headers p ! ck_header k = h" "on_wire h bs"
    "length bs \<le> 60" "length buffer = 60" "length buffer' = 60"
    "hfields h = xs @ f # ys" "ck_field k = length xs" "\<forall>g \<in> set (xs @ [f]). \<not> hidden g"
    "width_of xs = 80" "nbits f = 16"
  shows "\<exists>p' h'. ipv4_update buffer k p = Some p' \<and> headers p' = (headers p)[ck_header k := h'] \<and>
    on_wire h' (take 10 bs @ net_bytes (internet_checksum (clear_cksum bs)) @ drop 12 bs) \<and>
    ipv4_verify buffer' k p' = Some True"
proof -
  obtain a b where ab: "net_bytes (internet_checksum (clear_cksum bs)) = [a, b]" by (simp add: net_bytes_def)
  have fv: "f \<in> set (visible (hfields h))" using assms(7,9) by (simp add: visible_append) (simp add: visible_def)
  then have ok: "field_ok f" using assms(3) by (simp add: on_wire_def plain_fields_def)
  have n2: "nbytes f = 2" "length (fbytes f) = 2" using ok assms(11) by (simp_all add: field_ok_def bytes_of_bits_def)
  define f' where "f' = (if arith f then sync_value (f\<lparr>fbytes := [a, b]\<rparr>) else f\<lparr>fbytes := [a, b]\<rparr>)"
  have sb: "set_bytes f [a, b] = Some f'" using n2 by (simp add: set_bytes_def f'_def)
  have ok1: "field_ok (f\<lparr>fbytes := [a, b]\<rparr>)" using ok n2 by (simp add: field_ok_def)
  have f': "fbytes f' = [a, b]" "nbits f' = 16" "nbytes f' = 2" "field_ok f'" "\<not> hidden f'"
    using n2 assms(9,11) ok1 by (simp_all add: f'_def)
  define h' where "h' = h\<lparr>hfields := xs @ f' # ys\<rparr>"
  have w: "on_wire h' (take 10 bs @ [a, b] @ drop 12 bs)"
    unfolding h'_def by (rule replace_cksum(1) [OF assms(3,7,9-11) f'])
  have l12: "12 \<le> length bs" by (rule replace_cksum(2) [OF assms(3,7,9-11) f'])
  have c: "ipv4_cksum buffer h = Some (raw_cksum16 (clear_cksum bs))"
    using assms l12 by (intro ipv4_cksum_wire) simp_all
  have c': "ipv4_cksum buffer' h' = Some (raw_cksum16 (clear_cksum bs))"
    using ipv4_cksum_wire [OF w, of buffer'] assms(4,6) l12 by (simp only: clear_replaced) simp
  have "ipv4_update buffer k p = Some (put_header (ck_header k) h' p)"
    using assms c sb ab by (simp add: ipv4_update_def on_wire_def host_bytes_raw put_field_def h'_def)
  moreover have "ipv4_verify buffer' k (put_header (ck_header k) h' p) = Some True"
    using assms c' w ab f' by (simp add: ipv4_verify_def put_header_def on_wire_def host_bytes_raw h'_def)
  ultimately show ?thesis using w ab by (auto simp: put_header_def)
qed

section \<open>Checksums of calculations\<close>

text \<open>
  a checksum that is updated with what a calculation gives verifies afterwards if the calculation gives the same value
  again, that is if it does not see the field, exactly when the value fits in the field: the comparison is made with the
  whole value of 64 bits.
\<close>

theorem calc_checksum_verifies:
  assumes "ck_header k < length (headers p)" "ck_field k < length (hfields (headers p ! ck_header k))"
    "hfields (headers p ! ck_header k) ! ck_field k = f" "field_ok f" "\<not> is_signed f" "arith f" "nbits f \<le> 64"
    "calc p = Some c" "calc_update calc k p = Some p'" "calc p' = Some c"
  shows "calc_verify calc k p' = Some (unat c < 2 ^ nbits f)"
proof -
  let ?h = "headers p ! ck_header k"
  from field_set_unsigned [OF assms(4,5), of "uint c"] obtain f' where f': "field_set f (uint c) = Some f'"
    "dval f' = uint c mod 2 ^ nbits f" by blast
  have ar: "arith f'" using f'(1) assms(6) by (auto simp: field_set_def field_export_def Let_def split: if_splits bind_splits)
  have p': "put_field (ck_header k) (ck_field k) f' p = Some p'"
    using assms(9,8) f'(1) assms(1-3) by (simp add: calc_update_def phv_get_field_def)
  then have hp: "headers p' = (headers p)[ck_header k := ?h\<lparr>hfields := (hfields ?h)[ck_field k := f']\<rparr>]"
    using assms(1) by (auto simp: put_field_def put_header_def)
  have "(2 :: int) ^ nbits f \<le> 2 ^ 64" using assms(7) by (intro power_increasing) simp_all
  moreover have "uint c mod 2 ^ nbits f < 2 ^ nbits f" by simp
  ultimately have "dval f' < 2 ^ 64" using f'(2) by linarith
  moreover have "0 \<le> dval f'" using f'(2) by simp
  ultimately have g: "get_uint64 f' = Some (nat (uint c mod 2 ^ nbits f))" using ar f'(2) by (simp add: get_uint64_def)
  have "nat (uint c mod 2 ^ nbits f) = unat c mod 2 ^ nbits f"
    by (simp add: nat_mod_distrib nat_power_eq flip: unat_eq_nat_uint)
  moreover have "unat c = unat c mod 2 ^ nbits f \<longleftrightarrow> unat c < 2 ^ nbits f"
    by (metis mod_less mod_less_divisor zero_less_numeral zero_less_power)
  ultimately show ?thesis
    using assms(10) g hp assms(1,2) by (simp add: calc_verify_def phv_get_field_def)
qed


section \<open>Witnesses\<close>

text \<open>A header of 12 bytes: 80 bits, the checksum, and nothing more; and a builder over it.\<close>

definition sample_ck_header :: header where
  "sample_ck_header = (the (new_header (build_type [(''before'', 80, False), (''sum'', 16, False)] (new_header_type 0)) {0, 1, 2} False))
     \<lparr>valid_flag := True\<rparr>"

definition sample_ck_phv :: phv where
  "sample_ck_phv = \<lparr>headers = [sample_ck_header], header_stacks = [], header_unions = [], header_union_stacks = []\<rparr>"


definition sample_ck :: checksum where
  "sample_ck = \<lparr>ck_header = 0, ck_field = 1, ck_condition = None\<rparr>"

lemmas sample_ck_defs = sample_ck_header_def new_header_def new_header_type_def push_back_field_def
  hidden_fields_def new_field_def Let_def bytes_of_bits_def

lemma zero_bits: "bits (replicate k 0) = replicate (8 * k) False"
  by (induction k) (simp_all add: byte_bits_zero replicate_add [symmetric])

lemma sample_new_field:
  assumes "f = the (new_field n a False h v)"
  shows "field_ok f" "packed f" "nbits f = n" "hidden f = h" "field_bits f = replicate n False" "\<not> is_signed f"
    "fbytes f = replicate (bytes_of_bits n) 0" "arith f = a"
proof -
  obtain g where g: "new_field n a False h v = Some g" by (simp add: new_field_def)
  then have "field_ok g" by (rule new_field_ok)
  moreover have "import_bytes (replicate k 0) = 0" for k by (simp add: import_bytes_bits zero_bits)
  moreover have "8 * bytes_of_bits n - (8 * bytes_of_bits n - n) = n" using bytes_of_bits_ge [of n] by simp
  ultimately show "field_ok f" "packed f" "nbits f = n" "hidden f = h" "field_bits f = replicate n False" "\<not> is_signed f"
    "fbytes f = replicate (bytes_of_bits n) 0" "arith f = a"
    using g assms by (auto simp: new_field_def packed_def field_bits_def zero_bits)
qed

definition F80 :: field where "F80 = the (new_field 80 True False False False)"
definition F16 :: field where "F16 = the (new_field 16 True False False False)"
definition F1 :: field where "F1 = the (new_field 1 True False True False)"

lemmas F80 = sample_new_field [OF F80_def]
lemmas F16 = sample_new_field [OF F16_def]
lemmas F1 = sample_new_field [OF F1_def]

lemma sample_ck_fields [simp]:
  "is_valid sample_ck_header" "nbytes_packet sample_ck_header = 12" "hfields sample_ck_header = [F80, F16, F1]"
  "headers sample_ck_phv = [sample_ck_header]" "ck_header sample_ck = 0" "ck_field sample_ck = 1"
  by (simp_all add: sample_ck_defs is_valid_def F80_def F16_def F1_def sample_ck_phv_def sample_ck_def)

lemma sample_on_wire: "on_wire sample_ck_header (replicate 12 0)"
proof -
  have v: "visible (hfields sample_ck_header) = [F80, F16]"
    unfolding sample_ck_fields visible_def by (simp add: F80 F16 F1)
  have "header_bits sample_ck_header = replicate 96 False"
    unfolding header_bits_def v using replicate_add [of 80 16 False] by (simp only: list.map concat.simps F80 F16) simp
  then show ?thesis
    using zero_bits [of 12] by (simp only: on_wire_def plain_fields_def v) (simp add: F80 F16)
qed

theorem builder_concatenates_witness:
  "\<exists>buf. build_buf \<lparr>bb_entries = [BHeader 0, BField 0 0], with_payload = True\<rparr> sample_ck_phv [7] = Some (buf @ [7]) \<and>
     length buf = 22"
proof -
  have "header_bits sample_ck_header = replicate 96 False" "plain_fields sample_ck_header"
    using sample_on_wire zero_bits [of 12] by (simp_all add: on_wire_def)
  moreover from this have "width_of (hfields sample_ck_header) = 96"
    using header_holds(2) [of sample_ck_header] by simp
  ultimately show ?thesis
    using builder_concatenates [of "\<lparr>bb_entries = [BHeader 0, BField 0 0], with_payload = True\<rparr>" sample_ck_phv "[7]"]
    by (auto simp: F80 bytes_of_bits_def)
qed

theorem ipv4_verify_is_rfc1071_witness:
  "ipv4_verify (replicate 60 9) sample_ck sample_ck_phv =
     Some ([0, 0] = net_bytes (internet_checksum (clear_cksum (replicate 12 0))))"
  using ipv4_verify_is_rfc1071 [of sample_ck sample_ck_phv sample_ck_header "replicate 12 0" "replicate 60 9"] sample_on_wire
  by (simp add: F16 bytes_of_bits_def numeral_2_eq_2)

theorem ipv4_update_verifies_witness:
  "\<exists>p'. ipv4_update (replicate 60 9) sample_ck sample_ck_phv = Some p' \<and> ipv4_verify (replicate 60 3) sample_ck p' = Some True"
  using ipv4_update_verifies [of sample_ck sample_ck_phv sample_ck_header "replicate 12 0" "replicate 60 9" "replicate 60 3"
      "[F80]" F16 "[F1]"] sample_on_wire
  by (simp add: F80 F16) blast

theorem calc_checksum_verifies_witness:
  "\<exists>p'. calc_update (\<lambda>p. Some 0x12345) sample_ck sample_ck_phv = Some p' \<and>
     calc_verify (\<lambda>p. Some 0x12345) sample_ck p' = Some (unat (0x12345 :: u64) < 2 ^ 16)"
proof -
  have "calc_update (\<lambda>p. Some 0x12345) sample_ck sample_ck_phv \<noteq> None"
    using field_set_unsigned [OF F16(1,6), of "0x12345"]
    by (auto simp: calc_update_def phv_get_field_def put_field_def)
  then obtain p' where p': "calc_update (\<lambda>p. Some 0x12345) sample_ck sample_ck_phv = Some p'" by auto
  then show ?thesis
    using calc_checksum_verifies [of sample_ck sample_ck_phv F16 "\<lambda>p. Some 0x12345" "0x12345" p'] F16
    by simp
qed

end
