(* ===== verification/Packets.thy ===== *)
theory Packets
  imports Phv_Factory
begin

text \<open>
  Packets: class \<^verbatim>\<open>Packet\<close> and the generator of copy ids of packet.h and packet.cpp, the buffer of packet_buffer.h and
  the pools of header vectors of phv_source.cpp.  A packet owns its buffer and its header vector.  Memory that C++
  leaves uninitialised (a new buffer, the registers of a new packet) is an argument.  The theorems: a buffer is its
  data with room in front; the ids of the copies of a packet are different as long as no other packet shares the slot
  of the generator; whatever packets do with their header vectors, a vector out of a pool has no valid header; what a
  moved packet forgets.
\<close>

section \<open>Copy ids\<close>

record cntr =
  cmax :: "16 word"
  cnum :: "16 word"

type_synonym copy_gen = "nat \<Rightarrow> cntr"

definition W :: nat where "W = 4096"

definition new_gen :: copy_gen where
  "new_gen = (\<lambda>_. \<lparr>cmax = 0, cnum = 0\<rparr>)"

text \<open>
  The loops around the exchange of a slot.  What \<^verbatim>\<open>add_one\<close> writes depends on the value that was exchanged only.  That of
  \<^verbatim>\<open>remove_one\<close> is kept from round to round: \<open>seen\<close> are the values of the slot for which the exchange failed,
  \<open>c\<close> the one for which it succeeded.
\<close>

definition cntr_add :: "cntr \<Rightarrow> cntr" where
  "cntr_add c = \<lparr>cmax = cmax c + 1, cnum = cnum c + 1\<rparr>"

definition remove_round :: "cntr \<Rightarrow> cntr \<Rightarrow> cntr" where
  "remove_round new old = (if cnum old = 0 then new\<lparr>cmax := 0\<rparr> else \<lparr>cmax = cmax old, cnum = cnum old - 1\<rparr>)"

definition cntr_remove_after :: "cntr list \<Rightarrow> cntr \<Rightarrow> cntr" where
  "cntr_remove_after seen c = remove_round (foldl remove_round \<lparr>cmax = 0, cnum = 0\<rparr> seen) c"

text \<open>No other thread in between.\<close>

definition cntr_remove :: "cntr \<Rightarrow> cntr" where
  "cntr_remove c = cntr_remove_after [] c"

lemma cntr_remove_alone: "cntr_remove c = (if cnum c = 0 then c\<lparr>cmax := 0\<rparr> else c\<lparr>cnum := cnum c - 1\<rparr>)"
  by (cases c) (simp add: cntr_remove_def cntr_remove_after_def remove_round_def)

text \<open>Other threads in between do not matter while there are copies left in the end.\<close>

lemma cntr_remove_after_alone: "cnum c \<noteq> 0 \<Longrightarrow> cntr_remove_after seen c = cntr_remove c"
  by (simp add: cntr_remove_def cntr_remove_after_def remove_round_def)

definition add_one :: "nat \<Rightarrow> copy_gen \<Rightarrow> nat \<times> copy_gen" where
  "add_one pid g = (let c = cntr_add (g (pid mod W)) in (unat (cmax c), g(pid mod W := c)))"

definition remove_one :: "nat \<Rightarrow> copy_gen \<Rightarrow> copy_gen" where
  "remove_one pid g = g(pid mod W := cntr_remove (g (pid mod W)))"

definition gen_get :: "nat \<Rightarrow> copy_gen \<Rightarrow> nat" where
  "gen_get pid g = unat (cmax (g (pid mod W)))"

definition gen_reset :: "nat \<Rightarrow> copy_gen \<Rightarrow> copy_gen" where
  "gen_reset pid g = g(pid mod W := \<lparr>cmax = 0, cnum = 0\<rparr>)"

section \<open>Buffers\<close>

text \<open>The array, the index of its first byte in use (\<^verbatim>\<open>head\<close>) and the number of bytes in use.\<close>

record packet_buffer =
  pb_mem :: "u8 list"
  pb_head :: nat
  pb_data_size :: nat

definition pb_empty :: "u8 list \<Rightarrow> packet_buffer" where
  "pb_empty mem = \<lparr>pb_mem = mem, pb_head = length mem, pb_data_size = 0\<rparr>"

definition pb_push :: "nat \<Rightarrow> packet_buffer \<Rightarrow> packet_buffer option" where
  "pb_push n b = do {
     guard (pb_data_size b + n \<le> length (pb_mem b) \<and> n \<le> pb_head b);
     Some (b\<lparr>pb_data_size := pb_data_size b + n, pb_head := pb_head b - n\<rparr>) }"

definition pb_pop :: "nat \<Rightarrow> packet_buffer \<Rightarrow> packet_buffer option" where
  "pb_pop n b = do {
     guard (n \<le> pb_data_size b);
     Some (b\<lparr>pb_data_size := pb_data_size b - n, pb_head := pb_head b + n\<rparr>) }"

text \<open>Bytes written from a place on.\<close>

definition pb_write :: "nat \<Rightarrow> u8 list \<Rightarrow> packet_buffer \<Rightarrow> packet_buffer option" where
  "pb_write at bs b = do {
     guard (at + length bs \<le> length (pb_mem b));
     Some (b\<lparr>pb_mem := take at (pb_mem b) @ bs @ drop (at + length bs) (pb_mem b)\<rparr>) }"

definition pb_new :: "u8 list \<Rightarrow> u8 list \<Rightarrow> packet_buffer option" where
  "pb_new mem data = do { b \<leftarrow> pb_push (length data) (pb_empty mem); pb_write (pb_head b) data b }"

definition pb_data :: "packet_buffer \<Rightarrow> u8 list" where
  "pb_data b = take (pb_data_size b) (drop (pb_head b) (pb_mem b))"

type_synonym buffer_state = "nat \<times> nat"

definition pb_save :: "packet_buffer \<Rightarrow> buffer_state" where
  "pb_save b = (pb_head b, pb_data_size b)"

definition pb_restore :: "buffer_state \<Rightarrow> packet_buffer \<Rightarrow> packet_buffer" where
  "pb_restore s b = b\<lparr>pb_head := fst s, pb_data_size := snd s\<rparr>"

text \<open>\<open>mem\<close> is the new array, as large as the old one.\<close>

definition pb_clone :: "u8 list \<Rightarrow> nat \<Rightarrow> packet_buffer \<Rightarrow> packet_buffer option" where
  "pb_clone mem end_bytes b = do {
     guard (end_bytes \<le> pb_data_size b \<and> length mem = length (pb_mem b));
     pb_new mem (drop (length (pb_mem b) - end_bytes) (pb_mem b)) }"

section \<open>Pools of header vectors\<close>

record phv_pool =
  pool_phvs :: "phv list"
  pool_factory :: "phv_factory option"
  pool_count :: nat

type_synonym phv_source = "phv_pool list"

definition make_phv_source :: "nat \<Rightarrow> phv_source" where
  "make_phv_source n = replicate n \<lparr>pool_phvs = [], pool_factory = None, pool_count = 0\<rparr>"

definition pool_set_factory :: "phv_factory \<Rightarrow> phv_pool \<Rightarrow> phv_pool option" where
  "pool_set_factory f p = do {
     guard (pool_count p = 0);
     Some (p\<lparr>pool_factory := Some f, pool_phvs := []\<rparr>) }"

definition pool_get :: "phv_pool \<Rightarrow> (phv \<times> phv_pool) option" where
  "pool_get p = (let p' = p\<lparr>pool_count := pool_count p + 1\<rparr> in
     if pool_phvs p = [] then do { f \<leftarrow> pool_factory p; v \<leftarrow> factory_create f; Some (v, p') }
     else Some (last (pool_phvs p), p'\<lparr>pool_phvs := butlast (pool_phvs p)\<rparr>))"

definition pool_release :: "phv \<Rightarrow> phv_pool \<Rightarrow> phv_pool" where
  "pool_release v p = p\<lparr>pool_count := pool_count p - 1, pool_phvs := pool_phvs p @ [v]\<rparr>"

definition source_set_factory :: "nat \<Rightarrow> phv_factory \<Rightarrow> phv_source \<Rightarrow> phv_source option" where
  "source_set_factory c f s = do { p \<leftarrow> nth_opt s c; p' \<leftarrow> pool_set_factory f p; Some (s[c := p']) }"

definition source_get :: "nat \<Rightarrow> phv_source \<Rightarrow> (phv \<times> phv_source) option" where
  "source_get c s = do { p \<leftarrow> nth_opt s c; (v, p') \<leftarrow> pool_get p; Some (v, s[c := p']) }"

definition source_release :: "nat \<Rightarrow> phv \<Rightarrow> phv_source \<Rightarrow> phv_source option" where
  "source_release c v s = do { p \<leftarrow> nth_opt s c; Some (s[c := pool_release v p]) }"

definition phvs_in_use :: "nat \<Rightarrow> phv_source \<Rightarrow> nat option" where
  "phvs_in_use c s = map_option pool_count (nth_opt s c)"

section \<open>Packets\<close>

record packet =
  cxt_id :: nat
  ingress_port :: int
  egress_port :: int
  packet_id :: nat
  copy_id :: nat
  ingress_length :: int
  exit_flag :: bool
  signature :: u64
  buffer :: packet_buffer
  payload_size :: nat
  truncated_length :: nat
  ingress_ts :: nat
  pkt_phv :: phv
  pkt_registers :: "u64 list"
  entry_index :: nat
  error_code :: int

definition nb_registers :: nat where "nb_registers = 2"

definition INVALID_ENTRY_INDEX :: nat where "INVALID_ENTRY_INDEX = 2 ^ 64 - 1"

definition INVALID_V :: int where "INVALID_V = 2 ^ 31 - 1"

text \<open>What all packets share.\<close>

record packet_world =
  phv_source :: phv_source
  copy_id_gen :: copy_gen

text \<open>
  What a new packet finds: the array of its buffer, its registers, the time, and the hash of its data by the xxHash
  library.
\<close>

record fresh =
  fresh_mem :: "u8 list"
  fresh_registers :: "u64 list"
  fresh_now :: nat
  fresh_hash :: "u8 list \<Rightarrow> u64"

definition fresh_ok :: "fresh \<Rightarrow> bool" where
  "fresh_ok e \<longleftrightarrow> length (fresh_registers e) = nb_registers"

definition packet_new ::
  "fresh \<Rightarrow> nat \<Rightarrow> int \<Rightarrow> nat \<Rightarrow> nat \<Rightarrow> int \<Rightarrow> packet_buffer \<Rightarrow> packet_world \<Rightarrow> (packet \<times> packet_world) option" where
  "packet_new e cxt port pid cid len b w = do {
     (v, s) \<leftarrow> source_get cxt (phv_source w);
     Some (\<lparr>cxt_id = cxt, ingress_port = port, egress_port = -1, packet_id = pid, copy_id = cid, ingress_length = len,
       exit_flag = False, signature = fresh_hash e (pb_data b), buffer = b, payload_size = 0,
       truncated_length = 2 ^ 64 - 1, ingress_ts = fresh_now e, pkt_phv = v, pkt_registers = fresh_registers e,
       entry_index = INVALID_ENTRY_INDEX, error_code = INVALID_V\<rparr>, w\<lparr>phv_source := s\<rparr>) }"

text \<open>The destructor of a packet that was not moved from.\<close>

definition packet_destroy :: "packet \<Rightarrow> packet_world \<Rightarrow> packet_world option" where
  "packet_destroy p w = do {
     v \<leftarrow> phv_reset (pkt_phv p);
     s \<leftarrow> source_release (cxt_id p) (reset_header_stacks v) (phv_source w);
     Some (w\<lparr>copy_id_gen := remove_one (packet_id p) (copy_id_gen w), phv_source := s\<rparr>) }"

definition change_context :: "nat \<Rightarrow> packet \<Rightarrow> packet_world \<Rightarrow> (packet \<times> packet_world) option" where
  "change_context c p w =
     (if cxt_id p = c then Some (p, w)
      else do {
        v \<leftarrow> phv_reset (pkt_phv p);
        s1 \<leftarrow> source_release (cxt_id p) (reset_header_stacks v) (phv_source w);
        (v2, s2) \<leftarrow> source_get c s1;
        Some (p\<lparr>pkt_phv := v2, cxt_id := c\<rparr>, w\<lparr>phv_source := s2\<rparr>) })"

subsection \<open>Copies\<close>

definition clone_choose_context :: "fresh \<Rightarrow> nat \<Rightarrow> packet \<Rightarrow> packet_world \<Rightarrow> (packet \<times> packet_world) option" where
  "clone_choose_context e c p w = do {
     let (cid, g) = add_one (packet_id p) (copy_id_gen w);
     b \<leftarrow> pb_clone (fresh_mem e) (pb_data_size (buffer p)) (buffer p);
     packet_new e c (ingress_port p) (packet_id p) cid (ingress_length p) b (w\<lparr>copy_id_gen := g\<rparr>) }"

definition clone_no_phv :: "fresh \<Rightarrow> packet \<Rightarrow> packet_world \<Rightarrow> (packet \<times> packet_world) option" where
  "clone_no_phv e p w = clone_choose_context e (cxt_id p) p w"

definition clone_with_phv :: "fresh \<Rightarrow> packet \<Rightarrow> packet_world \<Rightarrow> (packet \<times> packet_world) option" where
  "clone_with_phv e p w = do {
     (q, w') \<leftarrow> clone_choose_context e (cxt_id p) p w;
     v \<leftarrow> copy_headers (pkt_phv p) (pkt_phv q);
     Some (q\<lparr>pkt_phv := v\<rparr>, w') }"

definition clone_with_phv_reset_metadata :: "fresh \<Rightarrow> packet \<Rightarrow> packet_world \<Rightarrow> (packet \<times> packet_world) option" where
  "clone_with_phv_reset_metadata e p w = do {
     (q, w') \<leftarrow> clone_with_phv e p w;
     v \<leftarrow> reset_metadata (pkt_phv q);
     Some (q\<lparr>pkt_phv := v\<rparr>, w') }"

text \<open>The move constructor and the move assignment: the members that they name, and the defaults of the others.\<close>

definition packet_move :: "packet \<Rightarrow> packet" where
  "packet_move p = p\<lparr>exit_flag := False, truncated_length := 2 ^ 64 - 1, entry_index := INVALID_ENTRY_INDEX,
     error_code := INVALID_V\<rparr>"

definition packet_move_assign :: "packet \<Rightarrow> packet \<Rightarrow> packet" where
  "packet_move_assign dst p = p\<lparr>exit_flag := exit_flag dst, truncated_length := truncated_length dst,
     entry_index := entry_index dst, error_code := error_code dst\<rparr>"

subsection \<open>Operations\<close>

definition get_data_size :: "packet \<Rightarrow> nat" where
  "get_data_size p = min (pb_data_size (buffer p)) (truncated_length p)"

definition truncate_packet :: "nat \<Rightarrow> packet \<Rightarrow> packet" where
  "truncate_packet n p = p\<lparr>truncated_length := min n (truncated_length p)\<rparr>"

definition prepend :: "nat \<Rightarrow> packet \<Rightarrow> packet option" where
  "prepend n p = do { b \<leftarrow> pb_push n (buffer p); Some (p\<lparr>buffer := b\<rparr>) }"

definition remove_bytes :: "nat \<Rightarrow> packet \<Rightarrow> packet option" where
  "remove_bytes n p = do {
     guard (payload_size p + n \<le> pb_data_size (buffer p));
     b \<leftarrow> pb_pop n (buffer p); Some (p\<lparr>buffer := b\<rparr>) }"

definition payload :: "packet \<Rightarrow> u8 list option" where
  "payload p = do {
     guard (0 < payload_size p \<and> payload_size p \<le> length (pb_mem (buffer p)));
     Some (drop (length (pb_mem (buffer p)) - payload_size p) (pb_mem (buffer p))) }"

definition set_register :: "nat \<Rightarrow> u64 \<Rightarrow> packet \<Rightarrow> packet option" where
  "set_register i v p = do {
     guard (i < length (pkt_registers p)); Some (p\<lparr>pkt_registers := (pkt_registers p)[i := v]\<rparr>) }"

definition get_register :: "nat \<Rightarrow> packet \<Rightarrow> u64 option" where
  "get_register i p = nth_opt (pkt_registers p) i"

definition mark_for_exit :: "packet \<Rightarrow> packet" where
  "mark_for_exit p = p\<lparr>exit_flag := True\<rparr>"

definition reset_exit :: "packet \<Rightarrow> packet" where
  "reset_exit p = p\<lparr>exit_flag := False\<rparr>"

definition save_buffer_state :: "packet \<Rightarrow> buffer_state" where
  "save_buffer_state p = pb_save (buffer p)"

definition restore_buffer_state :: "buffer_state \<Rightarrow> packet \<Rightarrow> packet" where
  "restore_buffer_state s p = p\<lparr>buffer := pb_restore s (buffer p)\<rparr>"

text \<open>The bytes that are sent.\<close>

definition packet_bytes :: "packet \<Rightarrow> u8 list" where
  "packet_bytes p = take (get_data_size p) (drop (pb_head (buffer p)) (pb_mem (buffer p)))"

section \<open>Buffers are lists with room in front\<close>

definition pb_ok :: "packet_buffer \<Rightarrow> bool" where
  "pb_ok b \<longleftrightarrow> pb_head b + pb_data_size b = length (pb_mem b)"

lemma pb_data_ok: "pb_ok b \<Longrightarrow> pb_data b = drop (pb_head b) (pb_mem b)"
  by (simp add: pb_ok_def pb_data_def)

lemma length_pb_data: "pb_ok b \<Longrightarrow> length (pb_data b) = pb_data_size b"
  by (simp add: pb_ok_def pb_data_def)

lemma pb_empty_ok [simp]: "pb_ok (pb_empty mem)" "pb_data (pb_empty mem) = []"
  by (simp_all add: pb_ok_def pb_empty_def pb_data_def)

lemma pb_push_ok:
  assumes "pb_ok b" "n \<le> pb_head b"
  shows "\<exists>b'. pb_push n b = Some b' \<and> pb_ok b' \<and> pb_mem b' = pb_mem b \<and> pb_head b' = pb_head b - n \<and>
    drop n (pb_data b') = pb_data b \<and> length (pb_data b') = length (pb_data b) + n"
  using assms by (auto simp: pb_push_def pb_ok_def pb_data_def)

lemma pb_pop_ok:
  assumes "pb_ok b" "n \<le> length (pb_data b)"
  shows "\<exists>b'. pb_pop n b = Some b' \<and> pb_ok b' \<and> pb_mem b' = pb_mem b \<and> pb_head b' = pb_head b + n \<and>
    pb_data b' = drop n (pb_data b)"
  using assms by (auto simp: pb_pop_def pb_ok_def pb_data_def add.commute)

lemma pb_write_ok:
  assumes "pb_ok b" "length bs \<le> length (pb_data b)"
  shows "\<exists>b'. pb_write (pb_head b) bs b = Some b' \<and> pb_ok b' \<and> pb_head b' = pb_head b \<and>
    length (pb_mem b') = length (pb_mem b) \<and> pb_data b' = bs @ drop (length bs) (pb_data b)"
  using assms by (auto simp: pb_write_def pb_ok_def pb_data_def add.commute)

lemma pb_new_ok:
  assumes "length data \<le> length mem"
  shows "\<exists>b. pb_new mem data = Some b \<and> pb_ok b \<and> pb_data b = data \<and> length (pb_mem b) = length mem"
proof -
  have "length data \<le> pb_head (pb_empty mem)" using assms by (simp add: pb_empty_def)
  from pb_push_ok [OF pb_empty_ok(1) this] obtain b1 where b1: "pb_push (length data) (pb_empty mem) = Some b1"
    "pb_ok b1" "pb_mem b1 = mem" "length (pb_data b1) = length data" by (auto simp: pb_empty_def pb_data_def)
  from pb_write_ok [OF b1(2), of data] b1(3,4) obtain b where "pb_write (pb_head b1) data b1 = Some b" "pb_ok b"
    "pb_data b = data" "length (pb_mem b) = length mem" by auto
  with b1(1) show ?thesis by (simp add: pb_new_def)
qed

text \<open>What a buffer promises: a list of bytes that can grow at its front up to the size of the array.\<close>

datatype buf_op = Push "u8 list" | Pop nat

fun buf_step :: "buf_op \<Rightarrow> packet_buffer \<Rightarrow> packet_buffer option" where
  "buf_step (Push bs) b = do { b1 \<leftarrow> pb_push (length bs) b; pb_write (pb_head b1) bs b1 }"
| "buf_step (Pop n) b = pb_pop n b"

fun list_step :: "nat \<Rightarrow> buf_op \<Rightarrow> u8 list \<Rightarrow> u8 list option" where
  "list_step cap (Push bs) xs = (if length xs + length bs \<le> cap then Some (bs @ xs) else None)"
| "list_step cap (Pop n) xs = (if n \<le> length xs then Some (drop n xs) else None)"

lemma buf_step_refines:
  assumes "pb_ok b"
  shows "map_option pb_data (buf_step op b) = list_step (length (pb_mem b)) op (pb_data b) \<and>
    (\<forall>b'. buf_step op b = Some b' \<longrightarrow> pb_ok b' \<and> length (pb_mem b') = length (pb_mem b))"
proof (cases op)
  case (Push bs)
  have eq: "length (pb_data b) + length bs \<le> length (pb_mem b) \<longleftrightarrow> length bs \<le> pb_head b"
    using assms by (auto simp: pb_ok_def pb_data_def)
  show ?thesis
  proof (cases "length bs \<le> pb_head b")
    case True
    from pb_push_ok [OF assms True] obtain b1 where b1: "pb_push (length bs) b = Some b1" "pb_ok b1" "pb_mem b1 = pb_mem b"
      "drop (length bs) (pb_data b1) = pb_data b" "length (pb_data b1) = length (pb_data b) + length bs" by blast
    from pb_write_ok [OF b1(2), of bs] b1 obtain b2 where b2: "pb_write (pb_head b1) bs b1 = Some b2" "pb_ok b2"
      "length (pb_mem b2) = length (pb_mem b)" "pb_data b2 = bs @ pb_data b" by auto
    have "buf_step op b = Some b2" using Push b1(1) b2(1) by simp
    then show ?thesis using Push b2(2-4) True eq by simp
  next
    case False
    then show ?thesis using Push eq by (auto simp: pb_push_def)
  qed
next
  case (Pop n)
  have "n \<le> length (pb_data b) \<longleftrightarrow> n \<le> pb_data_size b" using length_pb_data [OF assms] by simp
  then show ?thesis using Pop pb_pop_ok [OF assms, of n] by (auto simp: pb_pop_def)
qed

text \<open>
  C28: any sequence of prepending and removing bytes on a buffer does what it does on a list of bytes that may not get longer
  than the array, and fails exactly when that does; a clone holds the same bytes in an array of the same size.
\<close>

theorem buffer_refines_list:
  assumes "length data \<le> length mem" "length mem' = length mem"
  shows "\<exists>b. pb_new mem data = Some b \<and>
    map_option pb_data (fold_opt buf_step xs b) = fold_opt (list_step (length mem)) xs data \<and>
    (\<forall>b'. fold_opt buf_step xs b = Some b' \<longrightarrow>
       (\<exists>c. pb_clone mem' (pb_data_size b') b' = Some c \<and> pb_data c = pb_data b' \<and> pb_ok c))"
proof -
  obtain b where b: "pb_new mem data = Some b" "pb_ok b" "pb_data b = data" "length (pb_mem b) = length mem"
    using pb_new_ok [OF assms(1)] by blast
  have run: "map_option pb_data (fold_opt buf_step xs b) = fold_opt (list_step (length (pb_mem b))) xs (pb_data b) \<and>
      (\<forall>b'. fold_opt buf_step xs b = Some b' \<longrightarrow> pb_ok b' \<and> length (pb_mem b') = length (pb_mem b))" if "pb_ok b" for b
    using that
  proof (induction xs arbitrary: b)
    case (Cons x xs)
    show ?case
    proof (cases "buf_step x b")
      case None
      then show ?thesis using buf_step_refines [OF Cons.prems, of x] by (cases "list_step (length (pb_mem b)) x (pb_data b)") simp_all
    next
      case (Some b1)
      then have "list_step (length (pb_mem b)) x (pb_data b) = Some (pb_data b1)" "pb_ok b1" "length (pb_mem b1) = length (pb_mem b)"
        using buf_step_refines [OF Cons.prems, of x] by auto
      with Cons.IH [of b1] Some show ?thesis by simp
    qed
  qed simp
  have "\<exists>c. pb_clone mem' (pb_data_size b') b' = Some c \<and> pb_data c = pb_data b' \<and> pb_ok c"
    if "fold_opt buf_step xs b = Some b'" for b'
  proof -
    have ok: "pb_ok b'" "length (pb_mem b') = length mem" using run [OF b(2)] that b(4) by auto
    have "length (pb_mem b') - pb_data_size b' = pb_head b'" using ok(1) unfolding pb_ok_def by linarith
    then have "drop (length (pb_mem b') - pb_data_size b') (pb_mem b') = pb_data b'" using pb_data_ok [OF ok(1)] by simp
    moreover have "length (pb_data b') \<le> length mem'" using ok assms(2) by (simp add: length_pb_data pb_ok_def)
    ultimately show ?thesis using pb_new_ok [of "pb_data b'" mem'] ok assms(2) by (auto simp: pb_clone_def)
  qed
  with b run [OF b(2)] show ?thesis by auto
qed


theorem buffer_refines_list_witness:
  "\<exists>b. pb_new [0, 0, 0] [7] = Some b \<and>
     map_option pb_data (fold_opt buf_step [Push [5, 6], Pop 1] b) = Some [6, 7]"
  using buffer_refines_list [of "[7]" "[0, 0, 0]" "[0, 0, 0]" "[Push [5, 6], Pop 1]"] by simp blast

section \<open>Copies have different ids\<close>

text \<open>
  The life of a packet and its copies: a copy is made of one that lives, one that lives is destroyed.  The original has
  copy id 0.
\<close>

datatype family_op = Clone | Destroy nat

fun family_step :: "family_op \<Rightarrow> cntr \<times> nat list \<Rightarrow> (cntr \<times> nat list) option" where
  "family_step Clone (c, live) = do {
     guard (live \<noteq> []);
     let c' = cntr_add c;
     Some (c', live @ [unat (cmax c')]) }"
| "family_step (Destroy i) (c, live) = do {
     guard (i < length live);
     Some (cntr_remove c, take i live @ drop (i + 1) live) }"

definition family_inv :: "nat \<Rightarrow> cntr \<times> nat list \<Rightarrow> bool" where
  "family_inv n s \<longleftrightarrow> (case s of (c, live) \<Rightarrow>
     distinct live \<and> (\<forall>i \<in> set live. i \<le> unat (cmax c)) \<and> length live \<le> n + 1 \<and> unat (cmax c) \<le> n \<and>
     (if live = [] then c = \<lparr>cmax = 0, cnum = 0\<rparr> else unat (cnum c) = length live - 1))"

lemma unat_Suc16: "unat (w :: 16 word) < 65535 \<Longrightarrow> unat (w + 1) = unat w + 1"
  by (simp add: unat_word_ariths)

lemma set_remove_at: "set (take i xs @ drop (i + 1) xs) \<subseteq> set xs"
  using set_take_subset [of i xs] set_drop_subset [of "i + 1" xs] by auto

lemma distinct_remove_at: "distinct xs \<Longrightarrow> distinct (take i xs @ drop (i + 1) xs)"
proof -
  assume d: "distinct xs"
  then have "distinct (take (i + 1) xs @ drop (i + 1) xs)" by simp
  moreover have "set (take i xs) \<subseteq> set (take (i + 1) xs)" by (rule set_take_subset_set_take) simp
  ultimately show ?thesis using d by (auto simp del: append_take_drop_id simp: distinct_take distinct_drop)
qed

lemma family_step_inv:
  assumes "family_inv n (c, live)" "family_step op (c, live) = Some s" "op = Clone \<longrightarrow> n < 65535"
  shows "family_inv (case op of Clone \<Rightarrow> n + 1 | Destroy i \<Rightarrow> n) s"
proof (cases op)
  case Clone
  then have l: "live \<noteq> []" and s: "s = (cntr_add c, live @ [unat (cmax (cntr_add c))])"
    using assms(2) by (auto simp: Let_def split: if_splits)
  have I: "distinct live" "\<forall>i \<in> set live. i \<le> unat (cmax c)" "length live \<le> n + 1" "unat (cmax c) \<le> n"
    "unat (cnum c) = length live - 1"
    using assms(1) l by (auto simp: family_inv_def)
  have m: "unat (cmax (cntr_add c)) = unat (cmax c) + 1" "unat (cnum (cntr_add c)) = length live"
    using I l assms(3) Clone by (auto simp: cntr_add_def unat_Suc16)
  then show ?thesis
    using I Clone unfolding s family_inv_def by (auto simp: le_Suc_eq)
next
  case (Destroy i)
  then have i: "i < length live" and s: "s = (cntr_remove c, take i live @ drop (i + 1) live)"
    using assms(2) by (auto split: if_splits)
  have I: "distinct live" "\<forall>i \<in> set live. i \<le> unat (cmax c)" "length live \<le> n + 1" "unat (cmax c) \<le> n"
    "unat (cnum c) = length live - 1"
    using assms(1) i by (auto simp: family_inv_def split: if_splits)
  have l: "length (take i live @ drop (i + 1) live) = length live - 1" using i by simp
  show ?thesis
  proof (cases "length live = 1")
    case True
    then have "cnum c = 0" using I(5) by (simp add: unat_eq_zero)
    moreover obtain x where "live = [x]" "i = 0" using True i by (cases live) auto
    ultimately show ?thesis using Destroy unfolding s family_inv_def by (simp add: cntr_remove_alone)
  next
    case False
    then have z: "cnum c \<noteq> 0" using I(5) i by (auto simp: unat_eq_zero [symmetric])
    then have "unat (cnum c - 1) = unat (cnum c) - 1" by (simp add: unat_minus_one)
    moreover have "take i live @ drop (i + 1) live \<noteq> []" using l False i by (cases live) auto
    ultimately show ?thesis
      using Destroy I l z distinct_remove_at [OF I(1), of i] set_remove_at [of i live] unfolding s family_inv_def
      by (auto simp: cntr_remove_alone)
  qed
qed

text \<open>
  while no other packet uses the slot, and until 65535 copies were made, the original and its copies that live have
  different ids; when the last of them is destroyed the slot is as it was.
\<close>

theorem copies_have_different_ids:
  assumes "fold_opt family_step ops (\<lparr>cmax = 0, cnum = 0\<rparr>, [0]) = Some (c, live)"
    "length (filter (\<lambda>op. op = Clone) ops) < 65536"
  shows "distinct live \<and> (live = [] \<longrightarrow> c = \<lparr>cmax = 0, cnum = 0\<rparr>)"
proof -
  have "family_inv (n + length (filter (\<lambda>op. op = Clone) ops)) (c, live)"
    if "family_inv n s" "fold_opt family_step ops s = Some (c, live)" "n + length (filter (\<lambda>op. op = Clone) ops) < 65536" for n s
    using that
  proof (induction ops arbitrary: n s)
    case (Cons op ops)
    obtain c0 l0 where s: "s = (c0, l0)" by (cases s)
    obtain s1 where s1: "family_step op (c0, l0) = Some s1" "fold_opt family_step ops s1 = Some (c, live)"
      using Cons.prems(2) by (auto simp: s bind_eq_Some_iff)
    show ?case
    proof (cases op)
      case Clone
      have "family_inv (n + 1) s1"
        using family_step_inv [OF Cons.prems(1) [unfolded s] s1(1)] Cons.prems(3) Clone by simp
      from Cons.IH [OF this s1(2)] Cons.prems(3) Clone show ?thesis by simp
    next
      case (Destroy i)
      have "family_inv n s1" using family_step_inv [OF Cons.prems(1) [unfolded s] s1(1)] Destroy by simp
      from Cons.IH [OF this s1(2)] Cons.prems(3) Destroy show ?thesis by simp
    qed
  qed simp
  from this [of 0 "(\<lparr>cmax = 0, cnum = 0\<rparr>, [0])"] assms
  have "family_inv (length (filter (\<lambda>op. op = Clone) ops)) (c, live)" by (simp add: family_inv_def)
  then show ?thesis by (auto simp: family_inv_def)
qed


theorem copies_have_different_ids_witness:
  "distinct [2, 3 :: nat] \<and> ([2, 3 :: nat] = [] \<longrightarrow> \<lparr>cmax = 3, cnum = 1\<rparr> = \<lparr>cmax = 0, cnum = 0\<rparr>)"
  using copies_have_different_ids [of "[Clone, Clone, Destroy 0, Destroy 0, Clone]" "\<lparr>cmax = 3, cnum = 1\<rparr>" "[2, 3]"]
  by (simp add: cntr_add_def cntr_remove_alone Let_def)

text \<open>
  two packets whose ids are equal modulo 4096 share the slot: after the copy id 1 was given to a copy of packet 0,
  packets 4096 and 0 end, and the next copy of the copy gets id 1 as well.
\<close>

theorem shared_slot_repeats_id:
  "fst (add_one 0 new_gen) = 1 \<and>
   fst (add_one 0 (remove_one 0 (remove_one 4096 (snd (add_one 0 new_gen))))) = 1"
  by (simp add: add_one_def remove_one_def new_gen_def cntr_add_def cntr_remove_alone W_def Let_def)

text \<open>
  the last packet of a slot, whose first exchange failed because two others ended meanwhile, leaves the slot with the
  count that it saw, less one: the slot is not as it was before the first copy.
\<close>

theorem late_remove_leaves_count:
  assumes "cnum s \<noteq> 0" "cnum c = 0"
  shows "cntr_remove_after (seen @ [s]) c = \<lparr>cmax = 0, cnum = cnum s - 1\<rparr>"
  using assms by (simp add: cntr_remove_after_def remove_round_def)

theorem late_remove_leaves_count_witness:
  "cntr_remove_after [\<lparr>cmax = 2, cnum = 2\<rparr>] (cntr_remove (cntr_remove \<lparr>cmax = 2, cnum = 2\<rparr>)) = \<lparr>cmax = 0, cnum = 1\<rparr>"
  using late_remove_leaves_count [of "\<lparr>cmax = 2, cnum = 2\<rparr>" "\<lparr>cmax = 2, cnum = 0\<rparr>" "[]"] by (simp add: cntr_remove_alone)

section \<open>Moving a packet\<close>

text \<open>
  a packet that was truncated or marked for exit is neither after a move: all of its data is sent again.
\<close>

theorem moved_packet_forgets:
  assumes "pb_data_size (buffer p) < 2 ^ 64"
  shows "get_data_size (packet_move (truncate_packet n p)) = pb_data_size (buffer p) \<and>
    get_data_size (truncate_packet n p) \<le> n \<and> \<not> exit_flag (packet_move (mark_for_exit p))"
  using assms by (simp add: get_data_size_def packet_move_def truncate_packet_def)

section \<open>Header vectors out of a pool\<close>

text \<open>A vector in which nothing is valid; headers of fixed length.\<close>

definition clean :: "phv \<Rightarrow> bool" where
  "clean p \<longleftrightarrow> phv_wf p \<and> all_invalid p"

definition fixed_headers :: "phv \<Rightarrow> bool" where
  "fixed_headers p \<longleftrightarrow> (\<forall>h \<in> set (headers p). VL_offset (htype h) = None)"

text \<open>What no packet changes of its vector: the type of every header, its number of fields and its union.\<close>

definition phv_types :: "phv \<Rightarrow> (header_type \<times> nat \<times> (nat \<times> nat) option) list" where
  "phv_types p = map (\<lambda>h. (htype h, length (hfields h), union_membership h)) (headers p)"

lemma types_update:
  "i < length (headers p) \<Longrightarrow> htype h' = htype (headers p ! i) \<Longrightarrow> length (hfields h') = length (hfields (headers p ! i)) \<Longrightarrow>
   union_membership h' = union_membership (headers p ! i) \<Longrightarrow> headers p' = (headers p)[i := h'] \<Longrightarrow> phv_types p' = phv_types p"
  by (simp add: phv_types_def map_update_same)

lemma fixed_headers_types: "phv_types p' = phv_types p \<Longrightarrow> fixed_headers p' = fixed_headers p"
proof -
  assume e: "phv_types p' = phv_types p"
  have "fixed_headers q \<longleftrightarrow> (\<forall>t \<in> set (phv_types q). VL_offset (fst t) = None)" for q
    by (simp add: fixed_headers_def phv_types_def)
  with e show ?thesis by simp
qed

lemma set_validity_types:
  "set_validity b h = Some h' \<Longrightarrow> htype h' = htype h \<and> length (hfields h') = length (hfields h) \<and> union_membership h' = union_membership h"
  by (auto simp: set_validity_def bind_eq_Some_iff split: if_splits)

lemma mark_invalid_types:
  assumes "mark_invalid i p = Some p'"
  shows "i < length (headers p)" "phv_types p' = phv_types p"
proof -
  obtain h' where h: "i < length (headers p)" "set_validity False (headers p ! i) = Some h'"
    and p': "(case union_membership (headers p ! i) of None \<Rightarrow> Some (put_header i h' p)
      | Some (u, idx) \<Rightarrow> make_header_invalid u idx (put_header i h' p)) = Some p'"
    using assms by (auto simp: mark_invalid_def bind_eq_Some_iff nth_opt_Some_iff Let_def)
  have "headers p' = headers (put_header i h' p)"
    using p' by (auto simp: make_header_invalid_def put_union_def bind_eq_Some_iff split: option.splits)
  then have "headers p' = (headers p)[i := h']" by (simp add: put_header_def)
  from types_update [OF h(1) _ _ _ this] set_validity_types [OF h(2)] show "phv_types p' = phv_types p" by simp
  show "i < length (headers p)" by (rule h(1))
qed

text \<open>Headers are invalid up to \<open>k\<close>, and what a union still calls valid comes later.\<close>

definition reset_up_to :: "nat \<Rightarrow> phv \<Rightarrow> bool" where
  "reset_up_to k p \<longleftrightarrow> phv_wf p \<and> fixed_headers p \<and> (\<forall>j < k. \<not> valid_flag (headers p ! j)) \<and>
     (\<forall>u < length (header_unions p). u_valid (header_unions p ! u) \<longrightarrow>
        k \<le> u_headers (header_unions p ! u) ! u_idx (header_unions p ! u))"

lemma reset_one:
  assumes r: "reset_up_to k p" and k: "k < length (headers p)"
  shows "\<exists>p'. (do { p1 \<leftarrow> mark_invalid k p; update_header reset_VL_header k p1 }) = Some p' \<and> reset_up_to (k + 1) p' \<and>
    length (headers p') = length (headers p)"
proof -
  have wf: "phv_wf p" using r by (simp add: reset_up_to_def)
  from mark_invalid_effect [OF wf k] obtain p1 h1 where p1: "mark_invalid k p = Some p1" "phv_wf p1"
    "headers p1 = (headers p)[k := h1]" "\<not> valid_flag h1" "map u_headers (header_unions p1) = map u_headers (header_unions p)"
    "header_unions p1 = (case union_membership (headers p ! k) of None \<Rightarrow> header_unions p
      | Some (u, idx) \<Rightarrow> if u_valid (header_unions p ! u) \<and> u_idx (header_unions p ! u) = idx
          then (header_unions p)[u := (header_unions p ! u)\<lparr>u_valid := False\<rparr>] else header_unions p)"
    by blast
  have fx: "fixed_headers p1" using fixed_headers_types [OF mark_invalid_types(2) [OF p1(1)]] r by (simp add: reset_up_to_def)
  then have "VL_offset (htype h1) = None" using p1(3) k by (auto simp: fixed_headers_def set_update_memI)
  then have u: "update_header reset_VL_header k p1 = Some p1"
    using p1(3) k by (simp add: update_header_def reset_VL_header_def put_header_def)
  have l: "length (header_unions p1) = length (header_unions p)" using p1(5) map_eq_imp_length_eq by metis
  have late: "k + 1 \<le> u_headers (header_unions p1 ! u) ! u_idx (header_unions p1 ! u)"
    if a: "u < length (header_unions p1)" "u_valid (header_unions p1 ! u)" for u
  proof -
    have same: "header_unions p1 ! u = header_unions p ! u"
      using a p1(6) by (auto simp: nth_update_if split: option.splits if_splits)
    then have le: "k \<le> u_headers (header_unions p ! u) ! u_idx (header_unions p ! u)"
      using a r l by (simp add: reset_up_to_def)
    have mem: "union_membership (headers p ! (u_headers (header_unions p ! u) ! u_idx (header_unions p ! u))) =
        Some (u, u_idx (header_unions p ! u))"
      using wf a same l by (simp add: phv_wf_def)
    have "u_headers (header_unions p ! u) ! u_idx (header_unions p ! u) \<noteq> k"
    proof
      assume "u_headers (header_unions p ! u) ! u_idx (header_unions p ! u) = k"
      then have "union_membership (headers p ! k) = Some (u, u_idx (header_unions p ! u))" using mem by simp
      then have "header_unions p1 = (header_unions p)[u := (header_unions p ! u)\<lparr>u_valid := False\<rparr>]"
        using p1(6) a(2) same by simp
      then show False using a by simp
    qed
    with le same show ?thesis by simp
  qed
  have "\<not> valid_flag (headers p1 ! j)" if "j < k + 1" for j
    using that r p1(3,4) k by (auto simp: nth_list_update reset_up_to_def)
  then have "reset_up_to (k + 1) p1" using p1(2) fx late by (simp add: reset_up_to_def)
  with p1(1,3) u show ?thesis by simp
qed

lemma phv_reset_clean:
  assumes "phv_wf p" "fixed_headers p"
  shows "\<exists>p'. phv_reset p = Some p' \<and> clean p' \<and> fixed_headers p'"
proof -
  define g where "g = (\<lambda>i p. do { p1 \<leftarrow> mark_invalid i p; update_header reset_VL_header i p1 })"
  have "\<exists>p'. fold_opt g [0..<k] p = Some p' \<and> reset_up_to k p' \<and> length (headers p') = length (headers p)"
    if "k \<le> length (headers p)" for k
    using that
  proof (induction k)
    case 0
    with assms show ?case by (simp add: reset_up_to_def)
  next
    case (Suc k)
    then obtain p1 where p1: "fold_opt g [0..<k] p = Some p1" "reset_up_to k p1" "length (headers p1) = length (headers p)"
      by auto
    have "k < length (headers p1)" using Suc.prems p1(3) by simp
    from reset_one [OF p1(2) this] obtain p2 where "g k p1 = Some p2" "reset_up_to (k + 1) p2"
      "length (headers p2) = length (headers p1)" unfolding g_def by blast
    with p1 show ?case by (simp add: fold_opt_append)
  qed
  from this [of "length (headers p)"] obtain p' where p': "phv_reset p = Some p'" "reset_up_to (length (headers p')) p'"
    by (auto simp: phv_reset_def each_header_def g_def)
  have "\<not> u_valid (header_unions p' ! u)" if "u < length (header_unions p')" for u
    using p'(2) that unfolding reset_up_to_def phv_wf_def by (meson leD)
  with p' show ?thesis
    by (auto simp: clean_def all_invalid_def reset_up_to_def all_set_conv_all_nth)
qed

lemma clean_stacks: "clean (reset_header_stacks p) = clean p" "fixed_headers (reset_header_stacks p) = fixed_headers p"
  by (simp_all add: clean_def phv_wf_def all_invalid_def fixed_headers_def reset_header_stacks_def)

lemma phv_reset_types:
  assumes "phv_reset p = Some p'" "fixed_headers p"
  shows "phv_types p' = phv_types p"
proof (rule fold_opt_invariant [OF assms(1) [unfolded phv_reset_def each_header_def]])
  fix i q q'
  assume q: "phv_types q = phv_types p"
    and "(do { p1 \<leftarrow> mark_invalid i q; update_header reset_VL_header i p1 }) = Some q'"
  then obtain q1 where q1: "mark_invalid i q = Some q1" "update_header reset_VL_header i q1 = Some q'"
    by (auto simp: bind_eq_Some_iff)
  have t: "phv_types q1 = phv_types p" using mark_invalid_types(2) [OF q1(1)] q by simp
  have "fixed_headers q1" using fixed_headers_types [OF t] assms(2) by simp
  then have "q' = q1"
    using q1(2) by (auto simp: update_header_def bind_eq_Some_iff nth_opt_Some_iff reset_VL_header_def fixed_headers_def put_header_def)
  with t show "phv_types q' = phv_types p" by simp
qed simp

subsection \<open>What packets do with their vectors\<close>

text \<open>
  Marks of headers; writes into a header, which keep its type, its number of fields and the hidden field, as those of
  extraction, of the primitives and of the swaps of stacks do; copies between vectors of the same types; resets of
  the metadata; the valid entry of a union, when unions are swapped; the counters of the stacks.
\<close>

inductive phv_use :: "phv \<Rightarrow> phv \<Rightarrow> bool" where
  use_valid: "mark_valid i p = Some p' \<Longrightarrow> phv_use p p'"
| use_invalid: "mark_invalid i p = Some p' \<Longrightarrow> phv_use p p'"
| use_write: "i < length (headers p) \<Longrightarrow> header_shape h \<Longrightarrow> htype h = htype (headers p ! i) \<Longrightarrow>
    length (hfields h) = length (hfields (headers p ! i)) \<Longrightarrow> union_membership h = union_membership (headers p ! i) \<Longrightarrow>
    phv_use p (put_header i h p)"
| use_copy: "copy_headers src p = Some p' \<Longrightarrow> phv_wf src \<Longrightarrow> phv_types src = phv_types p \<Longrightarrow> phv_use p p'"
| use_reset_metadata: "reset_metadata p = Some p' \<Longrightarrow> phv_use p p'"
| use_entry: "u < length (header_unions p) \<Longrightarrow> b \<longrightarrow> k < length (u_headers (header_unions p ! u)) \<Longrightarrow>
    phv_use p (put_union u ((header_unions p ! u)\<lparr>u_idx := k, u_valid := b\<rparr>) p)"
| use_stacks: "phv_use p (p\<lparr>header_stacks := x, header_union_stacks := y\<rparr>)"

text \<open>A write keeps a vector well-formed.\<close>

lemma write_keeps:
  assumes wf: "phv_wf p" and i: "i < length (headers p)" and h: "header_shape h" "htype h = htype (headers p ! i)"
    "length (hfields h) = length (hfields (headers p ! i))" "union_membership h = union_membership (headers p ! i)"
  shows "phv_wf (put_header i h p) \<and> phv_types (put_header i h p) = phv_types p"
proof
  have e: "headers (put_header i h p) = (headers p)[i := h]" "header_unions (put_header i h p) = header_unions p"
    by (simp_all add: put_header_def)
  show "phv_types (put_header i h p) = phv_types p" by (rule types_update [OF i h(2-4) e(1)])
  show "phv_wf (put_header i h p)"
    by (rule phv_wf_update [OF wf]) (use wf h i in \<open>auto simp: e nth_list_update phv_wf_def\<close>)
qed

lemma update_keeps:
  assumes "phv_wf p" "update_header g i p = Some p'"
    and "\<And>h h'. g h = Some h' \<Longrightarrow> header_shape h \<Longrightarrow> h \<in> set (headers p) \<Longrightarrow>
      header_shape h' \<and> htype h' = htype h \<and> length (hfields h') = length (hfields h) \<and> union_membership h' = union_membership h"
  shows "phv_wf p' \<and> phv_types p' = phv_types p"
proof -
  obtain h' where h: "i < length (headers p)" "g (headers p ! i) = Some h'" "p' = put_header i h' p"
    using assms(2) by (auto simp: update_header_def bind_eq_Some_iff nth_opt_Some_iff)
  from assms(3) [OF h(2) phv_wfD(1) [OF assms(1) h(1)]] write_keeps [OF assms(1) h(1), of h'] h(1,3)
  show ?thesis by simp
qed

lemma mark_invalid_keeps:
  assumes "phv_wf p" "mark_invalid i p = Some p'"
  shows "phv_wf p' \<and> phv_types p' = phv_types p"
  using mark_invalid_effect [OF assms(1) mark_invalid_types(1) [OF assms(2)]] mark_invalid_types(2) [OF assms(2)] assms(2)
  by auto

lemma entry_keeps:
  assumes wf: "phv_wf p" and u: "u < length (header_unions p)" "b \<longrightarrow> k < length (u_headers (header_unions p ! u))"
  shows "phv_wf (put_union u ((header_unions p ! u)\<lparr>u_idx := k, u_valid := b\<rparr>) p) \<and>
    phv_types (put_union u ((header_unions p ! u)\<lparr>u_idx := k, u_valid := b\<rparr>) p) = phv_types p"
    (is "phv_wf ?p \<and> _")
proof
  show "phv_types ?p = phv_types p" by (simp add: phv_types_def put_union_def)
  have e: "headers ?p = headers p" "header_unions ?p = (header_unions p)[u := (header_unions p ! u)\<lparr>u_idx := k, u_valid := b\<rparr>]"
    by (simp_all add: put_union_def)
  show "phv_wf ?p"
  proof (rule phv_wf_update [OF wf])
    show "\<forall>v < length (header_unions ?p). u_valid (header_unions ?p ! v) \<longrightarrow>
        u_idx (header_unions ?p ! v) < length (u_headers (header_unions ?p ! v))"
      using wf u by (auto simp: e phv_wf_def nth_list_update)
  qed (use wf u in \<open>auto simp: e map_update_same dest: phv_wfD(1)\<close>)
qed

lemma mark_valid_keeps:
  assumes wf: "phv_wf p" and m: "mark_valid i p = Some p'"
  shows "phv_wf p' \<and> phv_types p' = phv_types p"
proof -
  obtain h' where h: "i < length (headers p)" "set_validity True (headers p ! i) = Some h'"
    and p': "(case union_membership (headers p ! i) of None \<Rightarrow> Some (put_header i h' p)
      | Some (u, idx) \<Rightarrow> make_header_valid u idx (put_header i h' p)) = Some p'"
    using m by (auto simp: mark_valid_def bind_eq_Some_iff nth_opt_Some_iff Let_def)
  obtain h2 where h2: "set_validity True (headers p ! i) = Some h2" "header_shape h2" "htype h2 = htype (headers p ! i)"
      "union_membership h2 = union_membership (headers p ! i)"
    using set_validity_shape [OF phv_wfD(1) [OF wf h(1)], of True] by blast
  have p1: "phv_wf (put_header i h' p)" "phv_types (put_header i h' p) = phv_types p"
    using write_keeps [OF wf h(1), of h'] h2 h(2) set_validity_types [OF h(2)] by simp_all
  show ?thesis
  proof (cases "union_membership (headers p ! i)")
    case None
    then show ?thesis using p' p1 by simp
  next
    case (Some x)
    obtain u new where x: "union_membership (headers p ! i) = Some (u, new)" using Some by (cases x) auto
    let ?p1 = "put_header i h' p"
    let ?un = "header_unions ?p1 ! u"
    let ?g = "if u_valid ?un \<and> u_idx ?un \<noteq> new then do { i \<leftarrow> nth_opt (u_headers ?un) (u_idx ?un); mark_invalid i ?p1 } else Some ?p1"
    have m1: "make_header_valid u new ?p1 = Some p'" using p' x by simp
    then have "u < length (header_unions ?p1)" by (auto simp: make_header_valid_def bind_eq_Some_iff nth_opt_Some_iff)
    then have n: "nth_opt (header_unions ?p1) u = Some ?un" by (simp add: nth_opt_Some_iff)
    obtain p2 where un: "?g = Some p2" "u < length (header_unions p2)"
        "p' = put_union u ((header_unions p2 ! u)\<lparr>u_idx := new, u_valid := True\<rparr>) p2"
      using m1 unfolding make_header_valid_def n Option.bind.simps
      by (cases ?g) (auto simp: bind_eq_Some_iff nth_opt_Some_iff simp del: bind.simps)
    have p2: "phv_wf p2 \<and> phv_types p2 = phv_types p"
    proof (cases "u_valid ?un \<and> u_idx ?un \<noteq> new")
      case True
      then obtain j where "mark_invalid j (put_header i h' p) = Some p2" using un(1) by (auto simp: bind_eq_Some_iff)
      from mark_invalid_keeps [OF p1(1) this] p1(2) show ?thesis by simp
    next
      case False
      then show ?thesis using un(1) p1 by auto
    qed
    have l: "length (headers p2) = length (headers p)" using arg_cong [OF conjunct2 [OF p2], of length] by (simp add: phv_types_def)
    then have "union_membership (headers p2 ! i) = Some (u, new)"
      using arg_cong [OF conjunct2 [OF p2], of "\<lambda>xs. xs ! i"] h(1) x by (simp add: phv_types_def)
    from phv_wfD(2) [OF conjunct1 [OF p2] _ this] l h(1) have "new < length (u_headers (header_unions p2 ! u))" by simp
    from entry_keeps [OF conjunct1 [OF p2] un(2), of True new] this p2 un(3) show ?thesis by simp
  qed
qed

lemma copy_field_list_snoc:
  assumes "copy_field_list (xs @ [x]) (ys @ [y]) = Some fs" "length xs = length ys"
  shows "\<exists>fs'. fs = fs' @ [copy_value x y] \<and> length fs' = length xs \<and> map hidden fs' = map hidden xs"
  using assms
proof (induction xs arbitrary: ys fs)
  case Nil
  then show ?case by simp
next
  case (Cons a xs)
  then obtain b ys' fs1 where y: "ys = b # ys'" "copy_field_list (xs @ [x]) (ys' @ [y]) = Some fs1" "fs = copy_value a b # fs1"
    by (cases ys) (auto simp: bind_eq_Some_iff)
  then obtain fs' where "fs1 = fs' @ [copy_value x y]" "length fs' = length xs" "map hidden fs' = map hidden xs"
    using Cons.IH [OF y(2)] Cons.prems(2) by auto
  then show ?case using y(3) by (intro exI [of _ "copy_value a b # fs'"]) (simp add: copy_value_def Let_def)
qed

lemma copy_fields_shape:
  assumes "copy_fields h s = Some h'" "header_shape h" "header_shape s" "length (hfields h) = length (hfields s)"
  shows "header_shape h' \<and> htype h' = htype h \<and> length (hfields h') = length (hfields h) \<and> union_membership h' = union_membership h"
proof -
  obtain xs x ys y where xy: "hfields h = xs @ [x]" "hfields s = ys @ [y]" "\<forall>f \<in> set xs. \<not> hidden f" "hidden x" "field_ok x"
      "field_ok y" "\<not> is_signed x" "\<not> is_signed y" "nbits x = 1" "nbits y = 1"
    using assms(2,3) by (auto simp: header_shape_def)
  obtain fs where c: "copy_field_list (hfields h) (hfields s) = Some fs" "h' = h\<lparr>hfields := fs, nbytes_packet := nbytes_packet s\<rparr>"
    using assms(1) by (auto simp: copy_fields_def bind_eq_Some_iff)
  then obtain fs' where fs: "fs = fs' @ [copy_value x y]" "length fs' = length xs" "map hidden fs' = map hidden xs"
    using copy_field_list_snoc [of xs x ys y fs] assms(4) xy(1,2) by auto
  have "field_ok (copy_value x y)" using xy(5-10) by (simp add: copy_value_def Let_def field_ok_def)
  moreover have "\<forall>f \<in> set fs'. \<not> hidden f" using fs(3) xy(3) by (metis (no_types, lifting) in_set_conv_nth length_map nth_map)
  ultimately have "header_shape h'" using c(2) fs(1) xy(4,7-10) by (simp add: header_shape_def copy_value_def Let_def)
  then show ?thesis using c(2) fs(1,2) xy(1) by simp
qed

lemma header_shape_flags [simp]: "header_shape (h\<lparr>valid_flag := a, metadata := b\<rparr>) = header_shape h"
  by (simp add: header_shape_def)

lemma reset_header_shape:
  assumes "reset_header h = Some h'" "header_shape h"
  shows "header_shape h' \<and> htype h' = htype h \<and> length (hfields h') = length (hfields h) \<and> union_membership h' = union_membership h"
proof -
  obtain xs x where x: "hfields h = xs @ [x]" "\<forall>f \<in> set xs. \<not> hidden f" "hidden x" "field_ok x" "\<not> is_signed x" "nbits x = 1"
    using assms(2) by (auto simp: header_shape_def)
  obtain fs where fs: "list_all2 (\<lambda>f f'. field_set f 0 = Some f') (hfields h) fs" "h' = h\<lparr>hfields := fs\<rparr>"
    using assms(1) by (auto simp: reset_header_def bind_eq_Some_iff map_opt_Some_iff)
  then obtain fs' x' where f: "fs = fs' @ [x']" "list_all2 (\<lambda>f f'. field_set f 0 = Some f') xs fs'" "field_set x 0 = Some x'"
    unfolding x(1) list_all2_append1 by (auto simp: list_all2_Cons1)
  obtain v where "field_set x 0 = Some v" "field_ok v" using field_set_unsigned [OF x(4,5), of 0] x(6) by auto
  then have "field_ok x'" using f(3) by simp
  moreover have "\<forall>g \<in> set fs'. \<not> hidden g"
  proof
    fix g assume "g \<in> set fs'"
    then obtain k where "k < length fs'" "fs' ! k = g" by (auto simp: in_set_conv_nth)
    moreover from this have "k < length xs" "field_set (xs ! k) 0 = Some (fs' ! k)"
      using f(2) by (simp_all add: list_all2_conv_all_nth)
    ultimately show "\<not> hidden g" using x(2) field_set_frame by (metis nth_mem)
  qed
  ultimately have "header_shape h'" using fs(2) f(1) x(3,5,6) field_set_frame [OF f(3)] by (simp add: header_shape_def)
  then show ?thesis using fs(2) f(1,2) x(1) by (simp add: list_all2_lengthD)
qed

lemma reset_metadata_keeps:
  assumes "reset_metadata p = Some p'" "phv_wf p"
  shows "phv_wf p' \<and> phv_types p' = phv_types p"
proof (rule fold_opt_invariant [OF assms(1) [unfolded reset_metadata_def each_header_def]])
  fix i q q'
  assume q: "phv_wf q \<and> phv_types q = phv_types p"
    and u: "update_header (\<lambda>h. if metadata h then reset_header h else Some h) i q = Some q'"
  have "phv_wf q' \<and> phv_types q' = phv_types q"
    by (rule update_keeps [OF conjunct1 [OF q] u]) (auto dest: reset_header_shape split: if_splits)
  then show "phv_wf q' \<and> phv_types q' = phv_types p" using q by simp
qed (simp add: assms(2))

lemma copy_keeps:
  assumes "copy_headers src p = Some p'" "phv_wf src" "phv_types src = phv_types p" "phv_wf p"
  shows "phv_wf p' \<and> phv_types p' = phv_types p"
proof (rule fold_opt_invariant [OF assms(1) [unfolded copy_headers_def each_header_def]])
  fix i q q'
  assume q: "phv_wf q \<and> phv_types q = phv_types p"
    and g: "(do { s \<leftarrow> nth_opt (headers src) i;
       update_header (\<lambda>h. let h1 = h\<lparr>valid_flag := valid_flag s, metadata := metadata s\<rparr> in
         if valid_flag h1 \<or> metadata h1 then copy_fields h1 s else Some h1) i q }) = Some q'"
  then obtain h' where s: "i < length (headers src)" "i < length (headers q)" "q' = put_header i h' q"
      "(let h1 = (headers q ! i)\<lparr>valid_flag := valid_flag (headers src ! i), metadata := metadata (headers src ! i)\<rparr> in
         if valid_flag h1 \<or> metadata h1 then copy_fields h1 (headers src ! i) else Some h1) = Some h'"
    by (auto simp: update_header_def bind_eq_Some_iff nth_opt_Some_iff simp del: bind.simps)
  have sh: "header_shape (headers src ! i)" "header_shape (headers q ! i)"
    using phv_wfD(1) assms(2) q s(1,2) by blast+
  have l: "length (hfields (headers q ! i)) = length (hfields (headers src ! i))"
    using arg_cong [OF trans [OF conjunct2 [OF q] assms(3) [symmetric]], of "\<lambda>xs. xs ! i"] s(1,2) by (simp add: phv_types_def)
  have "header_shape h' \<and> htype h' = htype (headers q ! i) \<and> length (hfields h') = length (hfields (headers q ! i)) \<and>
      union_membership h' = union_membership (headers q ! i)"
    using s(4) copy_fields_shape [of _ "headers src ! i" h'] sh l by (auto simp: Let_def split: if_splits)
  then show "phv_wf q' \<and> phv_types q' = phv_types p" using write_keeps [OF conjunct1 [OF q] s(2), of h'] q s(3) by simp
qed (simp add: assms(4))

lemma use_keeps:
  assumes "phv_use p p'" "phv_wf p"
  shows "phv_wf p' \<and> phv_types p' = phv_types p"
  using assms
proof (induction rule: phv_use.induct)
  case (use_stacks p x y)
  then show ?case by (simp add: phv_wf_def phv_types_def)
next
  case (use_write i p h)
  from write_keeps [OF use_write(6,1-5)] show ?case .
next
  case (use_copy src p p')
  from copy_keeps [OF use_copy] show ?case .
next
  case (use_entry u p b k)
  from entry_keeps [OF use_entry(3,1,2)] show ?case .
qed (rule mark_valid_keeps mark_invalid_keeps reset_metadata_keeps; assumption)+

subsection \<open>The life of a vector\<close>

text \<open>A factory: header types of fixed fields, no header in two unions.\<close>

definition factory_ok :: "phv_factory \<Rightarrow> bool" where
  "factory_ok f \<longleftrightarrow> distinct (concat (map snd (header_union_descs f))) \<and>
     (\<forall>d \<in> set (header_descs f). \<exists>specs n. hd_type (snd d) = build_type specs (new_header_type n))"

lemma factory_create_fixed:
  assumes "factory_create f = Some v" "factory_ok f"
  shows "fixed_headers v"
proof -
  obtain p1 p2 p3 where
    1: "fold_opt (\<lambda>(i, d). push_back_header i (hd_type d) (hd_arith d) (hd_metadata d)) (header_descs f) empty_phv = Some p1"
    and 2: "fold_opt (\<lambda>(i, ids). push_back_header_stack i ids) (header_stack_descs f) p1 = Some p2"
    and 3: "fold_opt (\<lambda>(i, ids). push_back_header_union i ids) (header_union_descs f) p2 = Some p3"
    and 4: "fold_opt (\<lambda>(i, ids). push_back_header_union_stack i ids) (header_union_stack_descs f) p3 = Some v"
    using assms(1) by (auto simp: factory_create_def bind_eq_Some_iff)
  have "fixed_headers p1"
  proof (rule fold_opt_invariant [OF 1])
    fix d p p'
    assume d: "d \<in> set (header_descs f)" "fixed_headers p"
      and b: "(case d of (i, d) \<Rightarrow> push_back_header i (hd_type d) (hd_arith d) (hd_metadata d)) p = Some p'"
    obtain specs n where "hd_type (snd d) = build_type specs (new_header_type n)"
      using assms(2) d(1) unfolding factory_ok_def by blast
    then have "VL_offset (hd_type (snd d)) = None" by (simp add: build_type_not_VL new_header_type_def)
    then show "fixed_headers p'" using b d(2)
      by (auto simp: push_back_header_def bind_eq_Some_iff fixed_headers_def new_header_def Let_def case_prod_beta split: if_splits)
  qed (simp add: fixed_headers_def empty_phv_def)
  then have "fixed_headers p2"
    by (rule fold_opt_invariant [OF 2]) (auto simp: fixed_headers_def push_back_header_stack_def split: if_splits)
  then have "fixed_headers p3"
  proof (rule fold_opt_invariant [OF 3])
    fix d p p'
    assume p: "fixed_headers p" and b: "(case d of (i, ids) \<Rightarrow> push_back_header_union i ids) p = Some p'"
    obtain i ids where d: "d = (i, ids)" by (cases d)
    have m: "fold_opt (\<lambda>(idx, x). update_header (\<lambda>h. Some (h\<lparr>union_membership := Some (i, idx)\<rparr>)) x) (enumerate 0 ids)
        (p\<lparr>header_unions := header_unions p @ [\<lparr>u_headers = ids, u_valid = False, u_idx = 0\<rparr>]\<rparr>) = Some p'"
      using b by (auto simp: d push_back_header_union_def Let_def split: if_splits)
    show "fixed_headers p'"
    proof (rule fold_opt_invariant [OF m])
      show "fixed_headers (p\<lparr>header_unions := header_unions p @ [\<lparr>u_headers = ids, u_valid = False, u_idx = 0\<rparr>]\<rparr>)"
        using p by (simp add: fixed_headers_def)
    next
      fix x q q'
      assume "fixed_headers q" "(case x of (idx, x) \<Rightarrow> update_header (\<lambda>h. Some (h\<lparr>union_membership := Some (i, idx)\<rparr>)) x) q = Some q'"
      then show "fixed_headers q'"
        by (auto simp: update_header_def bind_eq_Some_iff nth_opt_Some_iff put_header_def fixed_headers_def case_prod_beta
            dest!: subsetD [OF set_update_subset_insert])
    qed
  qed
  then show "fixed_headers v"
    by (rule fold_opt_invariant [OF 4]) (auto simp: fixed_headers_def push_back_header_union_stack_def split: if_splits)
qed

text \<open>What packets and their copies do, one call at a time: the packets that live, and the pools.\<close>

inductive pool_step :: "packet list \<times> packet_world \<Rightarrow> packet list \<times> packet_world \<Rightarrow> bool" where
  ps_new: "packet_new e c port pid cid len b w = Some (p, w') \<Longrightarrow> pool_step (L, w) (p # L, w')"
| ps_copy: "p \<in> set L \<Longrightarrow> clone_choose_context e c p w = Some (q, w') \<Longrightarrow> pool_step (L, w) (q # L, w')"
| ps_copy_phv: "p \<in> set L \<Longrightarrow> clone_with_phv e p w = Some (q, w') \<Longrightarrow> pool_step (L, w) (q # L, w')"
| ps_copy_reset: "p \<in> set L \<Longrightarrow> clone_with_phv_reset_metadata e p w = Some (q, w') \<Longrightarrow> pool_step (L, w) (q # L, w')"
| ps_use: "i < length L \<Longrightarrow> phv_use (pkt_phv (L ! i)) v \<Longrightarrow> pool_step (L, w) (L[i := (L ! i)\<lparr>pkt_phv := v\<rparr>], w)"
| ps_context: "i < length L \<Longrightarrow> change_context c (L ! i) w = Some (p, w') \<Longrightarrow> pool_step (L, w) (L[i := p], w')"
| ps_destroy: "i < length L \<Longrightarrow> packet_destroy (L ! i) w = Some w' \<Longrightarrow> pool_step (L, w) (take i L @ drop (Suc i) L, w')"

text \<open>The vectors of a context all have the types \<open>T\<close>; those in the pool are clean.\<close>

definition fits :: "(header_type \<times> nat \<times> (nat \<times> nat) option) list \<Rightarrow> phv \<Rightarrow> bool" where
  "fits T v \<longleftrightarrow> phv_wf v \<and> fixed_headers v \<and> phv_types v = T"

definition pool_ok :: "(header_type \<times> nat \<times> (nat \<times> nat) option) list \<Rightarrow> phv_pool \<Rightarrow> bool" where
  "pool_ok T pl \<longleftrightarrow> (\<forall>v \<in> set (pool_phvs pl). clean v \<and> fits T v) \<and>
     (\<forall>f. pool_factory pl = Some f \<longrightarrow> factory_ok f \<and> (\<forall>v. factory_create f = Some v \<longrightarrow> phv_types v = T))"

definition live_ok :: "(header_type \<times> nat \<times> (nat \<times> nat) option) list list \<Rightarrow> packet \<Rightarrow> bool" where
  "live_ok Ts p \<longleftrightarrow> cxt_id p < length Ts \<and> fits (Ts ! cxt_id p) (pkt_phv p)"

definition pools_inv :: "(header_type \<times> nat \<times> (nat \<times> nat) option) list list \<Rightarrow> packet list \<times> packet_world \<Rightarrow> bool" where
  "pools_inv Ts s \<longleftrightarrow> list_all2 pool_ok Ts (phv_source (snd s)) \<and> (\<forall>p \<in> set (fst s). live_ok Ts p)"

lemma pool_get_ok:
  assumes "pool_get pl = Some (v, pl')" "pool_ok T pl"
  shows "clean v \<and> fits T v \<and> pool_ok T pl'"
proof (cases "pool_phvs pl = []")
  case True
  then obtain f where f: "pool_factory pl = Some f" "factory_create f = Some v" "pool_phvs pl' = []" "pool_factory pl' = pool_factory pl"
    using assms(1) by (auto simp: pool_get_def Let_def bind_eq_Some_iff)
  have ok: "factory_ok f" "phv_types v = T" using assms(2) f(1,2) by (auto simp: pool_ok_def)
  have "phv_wf v" "all_invalid v" using factory_create_wf [OF f(2)] ok(1) by (auto simp: factory_ok_def)
  then show ?thesis using factory_create_fixed [OF f(2) ok(1)] ok(2) f(3,4) assms(2)
    by (simp add: clean_def fits_def pool_ok_def)
next
  case False
  then have "v = last (pool_phvs pl)" "pool_phvs pl' = butlast (pool_phvs pl)" "pool_factory pl' = pool_factory pl"
    using assms(1) by (auto simp: pool_get_def Let_def)
  then show ?thesis using assms(2) False by (auto simp: pool_ok_def dest: in_set_butlastD)
qed

lemma source_get_ok:
  assumes "source_get c s = Some (v, s')" "list_all2 pool_ok Ts s"
  shows "c < length Ts \<and> clean v \<and> fits (Ts ! c) v \<and> list_all2 pool_ok Ts s'"
proof -
  obtain pl' where pl: "c < length s" "pool_get (s ! c) = Some (v, pl')" "s' = s[c := pl']"
    using assms(1) by (auto simp: source_get_def bind_eq_Some_iff nth_opt_Some_iff)
  have c: "c < length Ts" "pool_ok (Ts ! c) (s ! c)" using assms(2) pl(1) by (simp_all add: list_all2_conv_all_nth)
  from pool_get_ok [OF pl(2) c(2)] c(1) show ?thesis
    using list_all2_update_cong [OF assms(2), of "Ts ! c" pl' c] pl(3) by simp
qed

lemma release_ok:
  assumes "list_all2 pool_ok Ts s" "c < length Ts" "clean v" "fits (Ts ! c) v"
  shows "\<exists>s'. source_release c (reset_header_stacks v) s = Some s' \<and> list_all2 pool_ok Ts s'"
proof -
  have c: "c < length s" "pool_ok (Ts ! c) (s ! c)" using assms(1,2) by (simp_all add: list_all2_conv_all_nth)
  have "clean (reset_header_stacks v)" "fits (Ts ! c) (reset_header_stacks v)"
    using assms(3,4) by (simp_all add: clean_stacks fits_def, simp add: phv_types_def reset_header_stacks_def phv_wf_def)
  then have "pool_ok (Ts ! c) (pool_release (reset_header_stacks v) (s ! c))"
    using c(2) by (auto simp: pool_ok_def pool_release_def)
  then have "list_all2 pool_ok (Ts[c := Ts ! c]) (s[c := pool_release (reset_header_stacks v) (s ! c)])"
    by (rule list_all2_update_cong [OF assms(1)])
  then show ?thesis using c(1) by (simp add: source_release_def nth_opt_def)
qed

lemma reset_ok:
  assumes "fits T v"
  shows "\<exists>v'. phv_reset v = Some v' \<and> clean v' \<and> fits T v'"
proof -
  obtain v' where v': "phv_reset v = Some v'" "clean v'" "fixed_headers v'"
    using phv_reset_clean assms by (auto simp: fits_def)
  then show ?thesis using phv_reset_types [OF v'(1)] assms by (simp add: fits_def clean_def)
qed

lemma packet_new_ok:
  assumes "packet_new e c port pid cid len b w = Some (p, w')" "list_all2 pool_ok Ts (phv_source w)"
  shows "clean (pkt_phv p) \<and> cxt_id p = c \<and> live_ok Ts p \<and> list_all2 pool_ok Ts (phv_source w')"
proof -
  obtain v s where v: "source_get c (phv_source w) = Some (v, s)" "pkt_phv p = v" "cxt_id p = c" "phv_source w' = s"
    using assms(1) by (auto simp: packet_new_def bind_eq_Some_iff)
  from source_get_ok [OF v(1) assms(2)] v(2-4) show ?thesis by (simp add: live_ok_def)
qed

lemma copy_ok:
  assumes "clone_choose_context e c p w = Some (q, w')" "list_all2 pool_ok Ts (phv_source w)"
  shows "clean (pkt_phv q) \<and> cxt_id q = c \<and> live_ok Ts q \<and> list_all2 pool_ok Ts (phv_source w')"
proof -
  obtain cid g b where "packet_new e c (ingress_port p) (packet_id p) cid (ingress_length p) b (w\<lparr>copy_id_gen := g\<rparr>) = Some (q, w')"
    using assms(1) by (auto simp: clone_choose_context_def bind_eq_Some_iff Let_def split: prod.splits)
  from packet_new_ok [OF this] assms(2) show ?thesis by simp
qed

lemma copy_phv_ok:
  assumes "clone_with_phv e p w = Some (q, w')" "list_all2 pool_ok Ts (phv_source w)" "live_ok Ts p"
  shows "live_ok Ts q \<and> list_all2 pool_ok Ts (phv_source w')"
proof -
  obtain q0 v where q: "clone_choose_context e (cxt_id p) p w = Some (q0, w')" "copy_headers (pkt_phv p) (pkt_phv q0) = Some v"
      "q = q0\<lparr>pkt_phv := v\<rparr>"
    using assms(1) by (auto simp: clone_with_phv_def bind_eq_Some_iff)
  note k = copy_ok [OF q(1) assms(2)]
  have "phv_wf v \<and> phv_types v = phv_types (pkt_phv q0)"
    by (rule copy_keeps [OF q(2)]) (use k assms(3) in \<open>simp_all add: live_ok_def fits_def\<close>)
  then show ?thesis using k q(3) fixed_headers_types [of v "pkt_phv q0"] by (simp add: live_ok_def fits_def)
qed

lemma context_ok:
  assumes "change_context c p w = Some (q, w')" "list_all2 pool_ok Ts (phv_source w)" "live_ok Ts p"
  shows "live_ok Ts q \<and> list_all2 pool_ok Ts (phv_source w') \<and> (c \<noteq> cxt_id p \<longrightarrow> clean (pkt_phv q))"
proof (cases "cxt_id p = c")
  case False
  obtain v where v: "phv_reset (pkt_phv p) = Some v" "clean v" "fits (Ts ! cxt_id p) v"
    using reset_ok assms(3) by (auto simp: live_ok_def)
  obtain s1 where s1: "source_release (cxt_id p) (reset_header_stacks v) (phv_source w) = Some s1" "list_all2 pool_ok Ts s1"
    using release_ok [OF assms(2) _ v(2,3)] assms(3) by (auto simp: live_ok_def)
  obtain v2 s2 where g: "source_get c s1 = Some (v2, s2)" "q = p\<lparr>pkt_phv := v2, cxt_id := c\<rparr>" "phv_source w' = s2"
    using assms(1) False v(1) s1(1) by (auto simp: change_context_def bind_eq_Some_iff)
  from source_get_ok [OF g(1) s1(2)] g(2,3) show ?thesis by (simp add: live_ok_def)
qed (use assms in \<open>simp add: change_context_def\<close>)

lemma destroy_ok:
  assumes "list_all2 pool_ok Ts (phv_source w)" "live_ok Ts p"
  shows "\<exists>w'. packet_destroy p w = Some w' \<and> list_all2 pool_ok Ts (phv_source w')"
proof -
  obtain v where v: "phv_reset (pkt_phv p) = Some v" "clean v" "fits (Ts ! cxt_id p) v"
    using reset_ok assms(2) by (auto simp: live_ok_def)
  obtain s1 where "source_release (cxt_id p) (reset_header_stacks v) (phv_source w) = Some s1" "list_all2 pool_ok Ts s1"
    using release_ok [OF assms(1) _ v(2,3)] assms(2) by (auto simp: live_ok_def)
  then show ?thesis using v(1) by (simp add: packet_destroy_def)
qed

lemma use_ok:
  assumes "phv_use (pkt_phv p) v" "live_ok Ts p"
  shows "live_ok Ts (p\<lparr>pkt_phv := v\<rparr>)"
  using use_keeps [OF assms(1)] fixed_headers_types [of v "pkt_phv p"] assms(2) by (simp add: live_ok_def fits_def)

lemma pool_step_inv:
  assumes "pool_step s s'" "pools_inv Ts s"
  shows "pools_inv Ts s'"
  using assms
proof (induction rule: pool_step.induct)
  case (ps_new e c port pid cid len b w p w' L)
  then show ?case using packet_new_ok [OF ps_new(1), of Ts] by (simp add: pools_inv_def)
next
  case (ps_copy p L e c w q w')
  then show ?case using copy_ok [OF ps_copy(2), of Ts] by (simp add: pools_inv_def)
next
  case (ps_copy_phv p L e w q w')
  then show ?case using copy_phv_ok [OF ps_copy_phv(2), of Ts] by (simp add: pools_inv_def)
next
  case (ps_copy_reset p L e w q w')
  obtain q0 v where q: "clone_with_phv e p w = Some (q0, w')" "reset_metadata (pkt_phv q0) = Some v" "q = q0\<lparr>pkt_phv := v\<rparr>"
    using ps_copy_reset(2) by (auto simp: clone_with_phv_reset_metadata_def bind_eq_Some_iff)
  have "live_ok Ts q0 \<and> list_all2 pool_ok Ts (phv_source w')"
    using copy_phv_ok [OF q(1)] ps_copy_reset(1,3) by (auto simp: pools_inv_def)
  then show ?case using use_ok [OF use_reset_metadata [OF q(2)]] q(3) ps_copy_reset(3) by (simp add: pools_inv_def)
next
  case (ps_use i L v w)
  have "live_ok Ts (L ! i)" using ps_use(1,3) by (simp add: pools_inv_def)
  from use_ok [OF ps_use(2) this] ps_use(3) show ?case
    by (auto simp: pools_inv_def dest!: subsetD [OF set_update_subset_insert])
next
  case (ps_context i L c w p w')
  have "live_ok Ts (L ! i)" "list_all2 pool_ok Ts (phv_source w)" using ps_context(1,3) by (simp_all add: pools_inv_def)
  from context_ok [OF ps_context(2) this(2,1)] ps_context(3) show ?case
    by (auto simp: pools_inv_def dest!: subsetD [OF set_update_subset_insert])
next
  case (ps_destroy i L w w')
  have "live_ok Ts (L ! i)" "list_all2 pool_ok Ts (phv_source w)" using ps_destroy(1,3) by (simp_all add: pools_inv_def)
  from destroy_ok [OF this(2,1)] ps_destroy(2,3) show ?case by (auto simp: pools_inv_def dest: in_set_takeD in_set_dropD)
qed

text \<open>Pools as they are set up: no vectors yet.\<close>

definition fresh_pools :: "phv_source \<Rightarrow> bool" where
  "fresh_pools s \<longleftrightarrow> (\<forall>pl \<in> set s. pool_phvs pl = [] \<and> (\<forall>f. pool_factory pl = Some f \<longrightarrow> factory_ok f))"

lemma reached_inv:
  assumes "fresh_pools (phv_source w0)" "pool_step\<^sup>*\<^sup>* ([], w0) s"
  shows "\<exists>Ts. pools_inv Ts s"
proof -
  define T where "T = (\<lambda>pl :: phv_pool. case pool_factory pl of None \<Rightarrow> [] | Some f \<Rightarrow> (case factory_create f of None \<Rightarrow> [] | Some v \<Rightarrow> phv_types v))"
  have "pool_ok (T pl) pl" if "pl \<in> set (phv_source w0)" for pl
    using assms(1) that by (auto simp: fresh_pools_def pool_ok_def T_def)
  then have "list_all2 pool_ok (map T (phv_source w0)) (phv_source w0)"
    by (simp add: list_all2_conv_all_nth)
  then have "pools_inv (map T (phv_source w0)) ([], w0)" by (simp add: pools_inv_def)
  with assms(2) have "pools_inv (map T (phv_source w0)) s"
    by (induction rule: rtranclp_induct) (auto intro: pool_step_inv)
  then show ?thesis ..
qed

text \<open>
  C29: a packet never sees a header that another packet left valid.  From pools without vectors, whose factories have only
  fixed-length fields and no header in two unions, after any calls of the constructor, the copies, the changes of context
  and the destructor, with any marks, writes, copies and resets by the packets that live in between: the vector of a new
  packet, of a copy without headers and of a packet in its new context is well-formed with no valid header and no valid
  union; and the destructor of a packet that lives never fails.
\<close>

theorem packets_start_clean:
  assumes "fresh_pools (phv_source w0)" "pool_step\<^sup>*\<^sup>* ([], w0) (L, w)"
  shows "(packet_new e c port pid cid len b w = Some (p, w') \<longrightarrow> clean (pkt_phv p)) \<and>
    (clone_choose_context e c q w = Some (p, w') \<longrightarrow> clean (pkt_phv p)) \<and>
    (q \<in> set L \<and> c \<noteq> cxt_id q \<and> change_context c q w = Some (p, w') \<longrightarrow> clean (pkt_phv p)) \<and>
    (q \<in> set L \<longrightarrow> packet_destroy q w \<noteq> None)"
proof -
  obtain Ts where i: "list_all2 pool_ok Ts (phv_source w)" "\<forall>p \<in> set L. live_ok Ts p"
    using reached_inv [OF assms] by (auto simp: pools_inv_def)
  show ?thesis
  proof (intro conjI impI)
    show "clean (pkt_phv p)" if "packet_new e c port pid cid len b w = Some (p, w')" using packet_new_ok [OF that i(1)] by simp
    show "clean (pkt_phv p)" if "clone_choose_context e c q w = Some (p, w')" using copy_ok [OF that i(1)] by simp
    show "clean (pkt_phv p)" if "q \<in> set L \<and> c \<noteq> cxt_id q \<and> change_context c q w = Some (p, w')"
      using context_ok [OF _ i(1)] i(2) that by blast
    show "packet_destroy q w \<noteq> None" if "q \<in> set L" using destroy_ok [OF i(1)] i(2) that by fastforce
  qed
qed

definition sample_packet :: packet where
  "sample_packet = \<lparr>cxt_id = 0, ingress_port = 1, egress_port = -1, packet_id = 0, copy_id = 0, ingress_length = 2,
     exit_flag = False, signature = 0, buffer = \<lparr>pb_mem = [0, 7, 8], pb_head = 1, pb_data_size = 2\<rparr>, payload_size = 0,
     truncated_length = 2 ^ 64 - 1, ingress_ts = 0, pkt_phv = empty_phv, pkt_registers = [2, 0],
     entry_index = INVALID_ENTRY_INDEX, error_code = INVALID_V\<rparr>"

theorem moved_packet_forgets_witness:
  "get_data_size (packet_move (truncate_packet 1 sample_packet)) = 2 \<and> get_data_size (truncate_packet 1 sample_packet) \<le> 1"
  using moved_packet_forgets [of sample_packet 1] by (simp add: sample_packet_def)

text \<open>A vector that a packet used: header 0 was valid when the packet was destroyed; then the next one gets it.\<close>

definition sample_world :: packet_world where
  "sample_world = \<lparr>phv_source = [\<lparr>pool_phvs = [], pool_factory = Some sample_factory, pool_count = 0\<rparr>], copy_id_gen = new_gen\<rparr>"

definition sample_fresh :: fresh where
  "sample_fresh = \<lparr>fresh_mem = [], fresh_registers = [0, 0], fresh_now = 0, fresh_hash = (\<lambda>_. 0)\<rparr>"

lemma sample_pools: "fresh_pools (phv_source sample_world)" "factory_ok sample_factory"
proof -
  show f: "factory_ok sample_factory"
    unfolding factory_ok_def
    by (auto simp: sample_factory_def new_factory_def f_push_back_header_def f_push_back_header_union_def
        new_header_desc_def simp del: build_type.simps)
  then show "fresh_pools (phv_source sample_world)" by (simp add: fresh_pools_def sample_world_def)
qed

lemma sample_created:
  obtains v where "factory_create sample_factory = Some v" "length (headers v) = 2"
proof -
  have "map_option (length \<circ> headers) (factory_create sample_factory) = Some 2"
    by (simp add: factory_create_def sample_factory_def new_factory_def f_push_back_header_def
      f_push_back_header_union_def new_header_desc_def push_back_header_def empty_phv_def new_header_def
      new_header_type_def push_back_field_def hidden_fields_def new_field_def Let_def
      push_back_header_union_def update_header_def nth_opt_def put_header_def bytes_of_bits_def)
  then show ?thesis by (cases "factory_create sample_factory") (auto intro: that)
qed

theorem packets_start_clean_witness:
  "\<exists>p1 w1 v w2 p2 w3. packet_new sample_fresh 0 1 0 0 2 (buffer sample_packet) sample_world = Some (p1, w1) \<and>
     mark_valid 0 (pkt_phv p1) = Some v \<and> valid_flag (headers v ! 0) \<and> packet_destroy (p1\<lparr>pkt_phv := v\<rparr>) w1 = Some w2 \<and>
     length (pool_phvs (phv_source w2 ! 0)) = 1 \<and>
     packet_new sample_fresh 0 1 1 0 2 (buffer sample_packet) w2 = Some (p2, w3) \<and> clean (pkt_phv p2)"
proof -
  obtain v0 where v0: "factory_create sample_factory = Some v0" "length (headers v0) = 2" by (rule sample_created)
  have ok: "phv_wf v0" "unions_exclusive v0" using factory_create_wf [OF v0(1)] sample_pools(2) by (auto simp: factory_ok_def)
  obtain p1 w1 where n: "packet_new sample_fresh 0 1 0 0 2 (buffer sample_packet) sample_world = Some (p1, w1)" "pkt_phv p1 = v0"
      "phv_source w1 = [\<lparr>pool_phvs = [], pool_factory = Some sample_factory, pool_count = 1\<rparr>]" "cxt_id p1 = 0"
    using v0(1) by (simp add: packet_new_def source_get_def pool_get_def sample_world_def nth_opt_def)
  obtain v where v: "mark_valid 0 (pkt_phv p1) = Some v" "valid_flag (headers v ! 0)"
    using mark_valid_exclusive [OF ok, of 0] v0(2) n(2) by auto
  let ?p = "p1\<lparr>pkt_phv := v\<rparr>"
  have s1: "pool_step\<^sup>*\<^sup>* ([], sample_world) ([?p], w1)"
    using ps_use [of 0 "[p1]" v w1] use_valid [OF v(1)] ps_new [OF n(1), of "[]"]
    by (auto intro: rtranclp.rtrancl_into_rtrancl)
  have "packet_destroy ?p w1 \<noteq> None"
    by (rule packets_start_clean [OF sample_pools(1) s1, THEN conjunct2, THEN conjunct2, THEN conjunct2, THEN mp]) simp
  then obtain w2 where d: "packet_destroy ?p w1 = Some w2" by auto
  have s2: "pool_step\<^sup>*\<^sup>* ([], sample_world) ([], w2)"
    using s1 ps_destroy [of 0 "[?p]" w1 w2] d by (auto intro: rtranclp.rtrancl_into_rtrancl)
  have l: "length (pool_phvs (phv_source w2 ! 0)) = 1" "length (phv_source w2) = 1"
    using d n(3,4) by (auto simp: packet_destroy_def source_release_def pool_release_def bind_eq_Some_iff nth_opt_def)
  then have "packet_new sample_fresh 0 1 1 0 2 (buffer sample_packet) w2 \<noteq> None"
    by (auto simp: packet_new_def source_get_def pool_get_def nth_opt_def Let_def)
  then obtain p2 w3 where p2: "packet_new sample_fresh 0 1 1 0 2 (buffer sample_packet) w2 = Some (p2, w3)" by auto
  moreover have "clean (pkt_phv p2)"
    using packets_start_clean [OF sample_pools(1) s2, of sample_fresh 0 1 1 0 2 "buffer sample_packet" p2 w3] p2 by simp
  ultimately show ?thesis using n(1) v d l(1) by blast
qed

end
