(* ===== verification/Registers.thy ===== *)
theory Registers
  imports Expressions
begin

unbundle bit_operations_syntax

text \<open>
  Stateful memory: stateful.h and stateful.cpp.  A register is a value with a mask; an array tells its notifiers the index
  of each register that is written.  \<open>register_sync\<close> is the set of arrays whose mutexes an action takes before it runs,
  in the order in which they were added.
\<close>

record register_array =
  ra_bitwidth :: nat
  ra_registers :: "data list"
  ra_notified :: "nat list"

definition new_register :: data where
  "new_register = \<lparr>arith = True, dval = 0\<rparr>"

definition register_mask :: "nat \<Rightarrow> int" where
  "register_mask n = push_bit n 1 - 1"

definition ra_new :: "nat \<Rightarrow> nat \<Rightarrow> register_array" where
  "ra_new n b = \<lparr>ra_bitwidth = b, ra_registers = replicate n new_register, ra_notified = []\<rparr>"

definition ra_reset :: "register_array \<Rightarrow> register_array" where
  "ra_reset a = a\<lparr>ra_registers := replicate (length (ra_registers a)) new_register\<rparr>"

text \<open>\<^verbatim>\<open>Register::export_bytes\<close>, at the end of every operation that sets a value.\<close>

definition register_export :: "nat \<Rightarrow> register_array \<Rightarrow> register_array" where
  "register_export i a =
     (let r = ra_registers a ! i; r' = r\<lparr>dval := dval r AND register_mask (ra_bitwidth a)\<rparr>
      in a\<lparr>ra_registers := (ra_registers a)[i := r'], ra_notified := ra_notified a @ [i]\<rparr>)"

definition register_set :: "nat \<Rightarrow> int \<Rightarrow> register_array \<Rightarrow> register_array option" where
  "register_set i v a = do {
     guard (i < length (ra_registers a));
     Some (register_export i (a\<lparr>ra_registers := (ra_registers a)[i := (ra_registers a ! i)\<lparr>dval := v\<rparr>]\<rparr>)) }"

definition register_at :: "nat \<Rightarrow> register_array \<Rightarrow> data option" where
  "register_at i a = nth_opt (ra_registers a) i"

section \<open>Which arrays are locked\<close>

type_synonym register_sync = "nat list"

definition add_register_array :: "nat \<Rightarrow> register_sync \<Rightarrow> register_sync" where
  "add_register_array r rs = (if r \<in> set rs then rs else rs @ [r])"

definition merge_from :: "register_sync \<Rightarrow> register_sync \<Rightarrow> register_sync" where
  "merge_from other rs = fold add_register_array other rs"

text \<open>\<^verbatim>\<open>Expression::grab_register_accesses\<close>.\<close>

definition grab_register_accesses :: "expression \<Rightarrow> register_sync \<Rightarrow> register_sync" where
  "grab_register_accesses e rs = fold (\<lambda>op rs. case op of
       LOAD_REGISTER_REF r i \<Rightarrow> add_register_array r rs
     | LOAD_REGISTER_GEN r \<Rightarrow> add_register_array r rs
     | _ \<Rightarrow> rs) (ops e) rs"

section \<open>Lemmas\<close>

lemma set_add_register_array [simp]: "set (add_register_array r rs) = insert r (set rs)"
  by (auto simp: add_register_array_def)

lemma set_merge_from [simp]: "set (merge_from other rs) = set other \<union> set rs"
  unfolding merge_from_def by (induction other arbitrary: rs) auto

text \<open>The arrays an expression reads.\<close>

definition expression_arrays :: "expression \<Rightarrow> nat set" where
  "expression_arrays e = {r. \<exists>i. LOAD_REGISTER_REF r i \<in> set (ops e)} \<union> {r. LOAD_REGISTER_GEN r \<in> set (ops e)}"

lemma set_grab [simp]: "set (grab_register_accesses e rs) = expression_arrays e \<union> set rs"
proof -
  have "set (fold (\<lambda>op rs. case op of LOAD_REGISTER_REF r i \<Rightarrow> add_register_array r rs
      | LOAD_REGISTER_GEN r \<Rightarrow> add_register_array r rs | _ \<Rightarrow> rs) os rs) =
    {r. \<exists>i. LOAD_REGISTER_REF r i \<in> set os} \<union> {r. LOAD_REGISTER_GEN r \<in> set os} \<union> set rs" for os
    by (induction os arbitrary: rs) (auto split: expr_op.splits)
  then show ?thesis by (simp add: grab_register_accesses_def expression_arrays_def)
qed

text \<open>Writing a register keeps the value modulo the width and nothing else changes.\<close>

lemma register_set_bounds:
  assumes "register_set i v a = Some a'"
  shows "length (ra_registers a') = length (ra_registers a)" "dval (ra_registers a' ! i) = v mod 2 ^ ra_bitwidth a"
    "j \<noteq> i \<Longrightarrow> ra_registers a' ! j = ra_registers a ! j" "ra_bitwidth a' = ra_bitwidth a"
  using assms and_low_mask [of v "ra_bitwidth a"]
  by (auto simp: register_set_def register_export_def register_mask_def Let_def split: if_splits)

end
