(* ===== verification/Actions.thy ===== *)
theory Actions
  imports Registers Packets Checksums Meters Match_Units
begin

unbundle bit_operations_syntax

text \<open>
  Actions and their primitives: actions.h and actions.cpp, core/primitives.h and .cpp, and the primitives of the target in
  simple_switch/primitives.cpp.  An action is a list of primitives and one list of parameters that they consume in
  order; it runs on a packet and on the arrays of registers, meters and counters that all packets share.
  The theorem: an action neither reads nor writes a register array that it does not lock.
\<close>

section \<open>State\<close>

text \<open>What an action can change: its packet and the arrays.\<close>

record 'r switch_state =
  sw_pkt :: packet
  sw_regs :: "register_array list"
  sw_meters :: "'r meter_array list"
  sw_counters :: "counter list list"

text \<open>
  What it can read beside: the names of the fields, the calculations, and, as parameters, the hash of the xxHash
  library, the tokens of a rate, the clock, and the distribution of the standard library's random engine.
\<close>

record 'r action_env =
  ae_names :: "string \<rightharpoonup> nat \<times> nat"
  ae_calcs :: "(buf_builder \<times> raw_calc option) list"
  ae_xxh :: "u8 list \<Rightarrow> u64"
  ae_tok :: "'r \<Rightarrow> nat \<Rightarrow> nat"
  ae_micros :: nat
  ae_random :: "nat \<Rightarrow> nat \<Rightarrow> nat"

datatype action_param =
    CONST_DATA nat
  | FIELD nat nat
  | HEADER nat
  | ACTION_DATA nat
  | REGISTER_REF nat nat
  | REGISTER_GEN nat expression
  | HEADER_STACK nat
  | LAST_HEADER_STACK_FIELD nat nat
  | CALCULATION nat
  | METER_ARRAY nat
  | COUNTER_ARRAY nat
  | REGISTER_ARRAY nat
  | EXPRESSION nat expression
  | EXTERN_INSTANCE nat
  | STRING string
  | HEADER_UNION nat
  | HEADER_UNION_STACK nat

datatype primitive =
    P_assign | P_assign_VL | P_assign_header | P_assign_union | P_push | P_pop
  | P_modify_field | P_modify_field_rng_uniform | P_add_to_field | P_subtract_from_field | P_add | P_subtract
  | P_bit_xor | P_bit_or | P_bit_and | P_shift_left | P_shift_right | P_drop | P_exit | P_generate_digest
  | P_add_header | P_add_header_fast | P_remove_header | P_copy_header
  | P_clone_ingress_pkt_to_egress | P_clone_egress_pkt_to_egress | P_resubmit | P_recirculate
  | P_modify_field_with_hash_based_offset | P_no_op | P_execute_meter | P_count | P_register_read | P_register_write
  | P_truncate | P_modify_and_resubmit

record action_body =
  ab_primitives :: "primitive list"
  ab_params :: "action_param list"
  ab_const_values :: "data list"
  ab_sync :: register_sync
  ab_num_params :: nat

section \<open>Building an action\<close>

definition new_action :: "nat \<Rightarrow> action_body" where
  "new_action n = \<lparr>ab_primitives = [], ab_params = [], ab_const_values = [], ab_sync = [], ab_num_params = n\<rparr>"

definition push_param :: "action_param \<Rightarrow> action_body \<Rightarrow> action_body" where
  "push_param p a = a\<lparr>ab_params := ab_params a @ [p]\<rparr>"

definition parameter_push_back_const :: "data \<Rightarrow> action_body \<Rightarrow> action_body" where
  "parameter_push_back_const d a = push_param (CONST_DATA (length (ab_const_values a))) (a\<lparr>ab_const_values := ab_const_values a @ [d]\<rparr>)"

definition parameter_push_back_register_ref :: "nat \<Rightarrow> nat \<Rightarrow> action_body \<Rightarrow> action_body" where
  "parameter_push_back_register_ref r i a =
     (let a1 = push_param (REGISTER_REF r i) a in a1\<lparr>ab_sync := add_register_array r (ab_sync a1)\<rparr>)"

definition parameter_push_back_register_gen :: "nat \<Rightarrow> expression \<Rightarrow> action_body \<Rightarrow> action_body" where
  "parameter_push_back_register_gen r idx a =
     (let a1 = push_param (REGISTER_GEN r idx) (a\<lparr>ab_sync := grab_register_accesses idx (ab_sync a)\<rparr>)
      in a1\<lparr>ab_sync := add_register_array r (ab_sync a1)\<rparr>)"

definition parameter_push_back_register_array :: "nat \<Rightarrow> action_body \<Rightarrow> action_body" where
  "parameter_push_back_register_array r a =
     (let a1 = push_param (REGISTER_ARRAY r) a in a1\<lparr>ab_sync := add_register_array r (ab_sync a1)\<rparr>)"

text \<open>\<open>nb\<close> is the static number of temporary values, shared by all actions.\<close>

definition nb_expression_params :: "action_body \<Rightarrow> nat" where
  "nb_expression_params a = 1 + length (filter (\<lambda>p. case p of EXPRESSION _ _ \<Rightarrow> True | _ \<Rightarrow> False) (ab_params a))"

definition parameter_push_back_expression :: "expression \<Rightarrow> nat \<Rightarrow> action_body \<Rightarrow> (nat \<times> action_body) option" where
  "parameter_push_back_expression e nb a =
     (let n = nb_expression_params a in do {
        guard (n \<le> nb);
        Some (if n = nb then nb + 1 else nb,
          push_param (EXPRESSION n e) (a\<lparr>ab_sync := grab_register_accesses e (ab_sync a)\<rparr>)) })"

text \<open>The parameters that only name an object.\<close>

fun plain_param :: "action_param \<Rightarrow> bool" where
  "plain_param (FIELD _ _) = True"
| "plain_param (HEADER _) = True"
| "plain_param (ACTION_DATA _) = True"
| "plain_param (HEADER_STACK _) = True"
| "plain_param (LAST_HEADER_STACK_FIELD _ _) = True"
| "plain_param (CALCULATION _) = True"
| "plain_param (METER_ARRAY _) = True"
| "plain_param (COUNTER_ARRAY _) = True"
| "plain_param (EXTERN_INSTANCE _) = True"
| "plain_param (STRING _) = True"
| "plain_param (HEADER_UNION _) = True"
| "plain_param (HEADER_UNION_STACK _) = True"
| "plain_param _ = False"

definition push_back_primitive :: "primitive \<Rightarrow> action_body \<Rightarrow> action_body" where
  "push_back_primitive p a = a\<lparr>ab_primitives := ab_primitives a @ [p]\<rparr>"

type_synonym opcodes_map = "string \<rightharpoonup> primitive"

definition register_primitive :: "string \<Rightarrow> primitive \<Rightarrow> opcodes_map \<Rightarrow> bool \<times> opcodes_map" where
  "register_primitive name p m = (if m name \<noteq> None then (False, m) else (True, m(name \<mapsto> p)))"

definition get_primitive :: "string \<Rightarrow> opcodes_map \<Rightarrow> primitive option" where
  "get_primitive name m = m name"

section \<open>Parameters\<close>

text \<open>A reference to a value that can be set, and one that can be read.\<close>

datatype dest = Field_At nat nat | Register_At nat nat

datatype operand = At dest | Val data

definition sw_phv :: "'r switch_state \<Rightarrow> phv" where
  "sw_phv st = pkt_phv (sw_pkt st)"

definition set_phv :: "phv \<Rightarrow> 'r switch_state \<Rightarrow> 'r switch_state" where
  "set_phv v st = st\<lparr>sw_pkt := (sw_pkt st)\<lparr>pkt_phv := v\<rparr>\<rparr>"

definition on_phv :: "(phv \<Rightarrow> phv option) \<Rightarrow> 'r switch_state \<Rightarrow> 'r switch_state option" where
  "on_phv g st = do { v \<leftarrow> g (sw_phv st); Some (set_phv v st) }"

definition action_eval_env :: "data list \<Rightarrow> 'r switch_state \<Rightarrow> eval_env" where
  "action_eval_env adata st = \<lparr>env_phv = sw_phv st, env_regs = map ra_registers (sw_regs st), env_locals = adata\<rparr>"

text \<open>\<^verbatim>\<open>expr->eval(phv, &temp, action_data)\<close>, as a value for an index or an operand.\<close>

definition eval_temp :: "data list \<Rightarrow> 'r switch_state \<Rightarrow> expression \<Rightarrow> data option" where
  "eval_temp adata st e = map_option data_of (eval_arith (action_eval_env adata st) e [])"

definition register_gen :: "data list \<Rightarrow> 'r switch_state \<Rightarrow> nat \<Rightarrow> expression \<Rightarrow> dest option" where
  "register_gen adata st r e = do { t \<leftarrow> eval_temp adata st e; i \<leftarrow> get_uint64 t; Some (Register_At r i) }"

definition last_field :: "'r switch_state \<Rightarrow> nat \<Rightarrow> nat \<Rightarrow> dest option" where
  "last_field st s f = do { stk \<leftarrow> nth_opt (header_stacks (sw_phv st)) s; h \<leftarrow> get_last stk; Some (Field_At h f) }"

fun to_data :: "data list \<Rightarrow> 'r switch_state \<Rightarrow> action_param \<Rightarrow> dest option" where
  "to_data adata st (FIELD h f) = Some (Field_At h f)"
| "to_data adata st (REGISTER_REF r i) = Some (Register_At r i)"
| "to_data adata st (REGISTER_GEN r e) = register_gen adata st r e"
| "to_data adata st (LAST_HEADER_STACK_FIELD s f) = last_field st s f"
| "to_data adata st _ = None"

fun to_const_data :: "data list \<Rightarrow> data list \<Rightarrow> 'r switch_state \<Rightarrow> action_param \<Rightarrow> operand option" where
  "to_const_data cs adata st (CONST_DATA i) = map_option Val (nth_opt cs i)"
| "to_const_data cs adata st (FIELD h f) = Some (At (Field_At h f))"
| "to_const_data cs adata st (ACTION_DATA i) = map_option Val (nth_opt adata i)"
| "to_const_data cs adata st (REGISTER_REF r i) = Some (At (Register_At r i))"
| "to_const_data cs adata st (REGISTER_GEN r e) = map_option At (register_gen adata st r e)"
| "to_const_data cs adata st (EXPRESSION off e) = map_option Val (eval_temp adata st e)"
| "to_const_data cs adata st (LAST_HEADER_STACK_FIELD s f) = map_option At (last_field st s f)"
| "to_const_data cs adata st _ = None"

fun to_field :: "action_param \<Rightarrow> (nat \<times> nat) option" where
  "to_field (FIELD h f) = Some (h, f)" | "to_field _ = None"

fun to_header :: "action_param \<Rightarrow> nat option" where
  "to_header (HEADER h) = Some h" | "to_header _ = None"

text \<open>A stack of headers or of unions.\<close>

fun to_stack :: "action_param \<Rightarrow> (nat + nat) option" where
  "to_stack (HEADER_STACK s) = Some (Inl s)" | "to_stack (HEADER_UNION_STACK s) = Some (Inr s)" | "to_stack _ = None"

fun to_union :: "action_param \<Rightarrow> nat option" where
  "to_union (HEADER_UNION u) = Some u" | "to_union _ = None"

fun to_calculation :: "action_param \<Rightarrow> nat option" where
  "to_calculation (CALCULATION c) = Some c" | "to_calculation _ = None"

fun to_meter_array :: "action_param \<Rightarrow> nat option" where
  "to_meter_array (METER_ARRAY m) = Some m" | "to_meter_array _ = None"

fun to_counter_array :: "action_param \<Rightarrow> nat option" where
  "to_counter_array (COUNTER_ARRAY c) = Some c" | "to_counter_array _ = None"

fun to_register_array :: "action_param \<Rightarrow> nat option" where
  "to_register_array (REGISTER_ARRAY r) = Some r" | "to_register_array _ = None"

fun read_dest :: "'r switch_state \<Rightarrow> dest \<Rightarrow> data option" where
  "read_dest st (Field_At h f) = map_option plain (phv_get_field (sw_phv st) h f)"
| "read_dest st (Register_At r i) = do { a \<leftarrow> nth_opt (sw_regs st) r; register_at i a }"

fun read_operand :: "'r switch_state \<Rightarrow> operand \<Rightarrow> data option" where
  "read_operand st (At d) = read_dest st d"
| "read_operand st (Val v) = Some v"

definition write_field :: "nat \<Rightarrow> nat \<Rightarrow> int \<Rightarrow> phv \<Rightarrow> phv option" where
  "write_field h f v p = do { fd \<leftarrow> phv_get_field p h f; fd' \<leftarrow> field_set fd v; put_field h f fd' p }"

fun write_dest :: "dest \<Rightarrow> int \<Rightarrow> 'r switch_state \<Rightarrow> 'r switch_state option" where
  "write_dest (Field_At h f) v st = on_phv (write_field h f v) st"
| "write_dest (Register_At r i) v st = do {
     a \<leftarrow> nth_opt (sw_regs st) r; a' \<leftarrow> register_set i v a; Some (st\<lparr>sw_regs := (sw_regs st)[r := a']\<rparr>) }"

text \<open>Fields by name.\<close>

definition named_field :: "'r action_env \<Rightarrow> string \<Rightarrow> dest option" where
  "named_field env name = map_option (\<lambda>(h, f). Field_At h f) (ae_names env name)"

definition set_if_named :: "'r action_env \<Rightarrow> string \<Rightarrow> int \<Rightarrow> 'r switch_state \<Rightarrow> 'r switch_state option" where
  "set_if_named env name v st = (case named_field env name of None \<Rightarrow> Some st | Some d \<Rightarrow> write_dest d v st)"


section \<open>Primitives\<close>

definition num_params :: "primitive \<Rightarrow> nat" where
  "num_params p = (case p of
       P_assign \<Rightarrow> 2 | P_assign_VL \<Rightarrow> 2 | P_assign_header \<Rightarrow> 2 | P_assign_union \<Rightarrow> 2 | P_push \<Rightarrow> 2 | P_pop \<Rightarrow> 2
     | P_modify_field \<Rightarrow> 2 | P_modify_field_rng_uniform \<Rightarrow> 3 | P_add_to_field \<Rightarrow> 2 | P_subtract_from_field \<Rightarrow> 2
     | P_add \<Rightarrow> 3 | P_subtract \<Rightarrow> 3 | P_bit_xor \<Rightarrow> 3 | P_bit_or \<Rightarrow> 3 | P_bit_and \<Rightarrow> 3 | P_shift_left \<Rightarrow> 3
     | P_shift_right \<Rightarrow> 3 | P_drop \<Rightarrow> 0 | P_exit \<Rightarrow> 0 | P_generate_digest \<Rightarrow> 2 | P_add_header \<Rightarrow> 1
     | P_add_header_fast \<Rightarrow> 1 | P_remove_header \<Rightarrow> 1 | P_copy_header \<Rightarrow> 2 | P_clone_ingress_pkt_to_egress \<Rightarrow> 2
     | P_clone_egress_pkt_to_egress \<Rightarrow> 2 | P_resubmit \<Rightarrow> 1 | P_recirculate \<Rightarrow> 1
     | P_modify_field_with_hash_based_offset \<Rightarrow> 4 | P_no_op \<Rightarrow> 0 | P_execute_meter \<Rightarrow> 3 | P_count \<Rightarrow> 2
     | P_register_read \<Rightarrow> 3 | P_register_write \<Rightarrow> 3 | P_truncate \<Rightarrow> 1 | P_modify_and_resubmit \<Rightarrow> 1)"

text \<open>\<^verbatim>\<open>dst.set(src)\<close>.\<close>

definition assign :: "dest \<Rightarrow> operand \<Rightarrow> 'r switch_state \<Rightarrow> 'r switch_state option" where
  "assign d s st = do { v \<leftarrow> read_operand st s; write_dest d (dval v) st }"

text \<open>\<^verbatim>\<open>dst.op(src1, src2)\<close> for the operations of \<^verbatim>\<open>Data\<close>.\<close>

definition arith_op :: "(data \<Rightarrow> data \<Rightarrow> int option) \<Rightarrow> dest \<Rightarrow> operand \<Rightarrow> operand \<Rightarrow> 'r switch_state \<Rightarrow> 'r switch_state option" where
  "arith_op f d a b st = do {
     x \<leftarrow> read_operand st a; y \<leftarrow> read_operand st b; v \<leftarrow> f x y; write_dest d v st }"

text \<open>\<^verbatim>\<open>Field::assign_VL\<close> with its call back into the header.\<close>

definition assign_VL_field :: "nat \<times> nat \<Rightarrow> nat \<times> nat \<Rightarrow> phv \<Rightarrow> phv option" where
  "assign_VL_field d s p = do {
     f \<leftarrow> phv_get_field p (fst d) (snd d);
     g \<leftarrow> phv_get_field p (fst s) (snd s);
     f' \<leftarrow> assign_VL f g;
     p1 \<leftarrow> put_field (fst d) (snd d) f' p;
     update_header recompute_nbytes_packet (fst d) p1 }"

text \<open>The loop over the fields reads the source as it is at that moment.\<close>

definition assign_header_field :: "nat \<Rightarrow> nat \<Rightarrow> nat \<Rightarrow> phv \<Rightarrow> phv option" where
  "assign_header_field d s i p = do {
     f \<leftarrow> phv_get_field p d i;
     if VL f then assign_VL_field (d, i) (s, i) p
     else do { g \<leftarrow> phv_get_field p s i; write_field d i (dval g) p } }"

definition assign_header :: "nat \<Rightarrow> nat \<Rightarrow> phv \<Rightarrow> phv option" where
  "assign_header d s p = do {
     hs \<leftarrow> nth_opt (headers p) s;
     if \<not> is_valid hs then mark_invalid d p
     else do {
       p1 \<leftarrow> mark_valid d p;
       hd \<leftarrow> nth_opt (headers p1) d;
       guard (type_id (htype hd) = type_id (htype hs));
       fold_opt (assign_header_field d s) [0..<length (hfields hd)] p1 } }"

definition assign_union :: "nat \<Rightarrow> nat \<Rightarrow> phv \<Rightarrow> phv option" where
  "assign_union d s p = do {
     ud \<leftarrow> nth_opt (header_unions p) d;
     us \<leftarrow> nth_opt (header_unions p) s;
     guard (length (u_headers ud) = length (u_headers us));
     fold_opt (\<lambda>(a, b). assign_header a b) (zip (u_headers ud) (u_headers us)) p }"

fun stack_push :: "nat + nat \<Rightarrow> nat \<Rightarrow> phv \<Rightarrow> phv option" where
  "stack_push (Inl s) n p = do {
     st \<leftarrow> nth_opt (header_stacks p) s;
     (_, st', p') \<leftarrow> push_front_n swap_headers mark_valid n st p;
     Some (p'\<lparr>header_stacks := (header_stacks p')[s := st']\<rparr>) }"
| "stack_push (Inr s) n p = do {
     st \<leftarrow> nth_opt (header_union_stacks p) s;
     (_, st', p') \<leftarrow> push_front_n swap_unions union_mark n st p;
     Some (p'\<lparr>header_union_stacks := (header_union_stacks p')[s := st']\<rparr>) }"

fun stack_pop :: "nat + nat \<Rightarrow> nat \<Rightarrow> phv \<Rightarrow> phv option" where
  "stack_pop (Inl s) n p = do {
     st \<leftarrow> nth_opt (header_stacks p) s;
     (_, st', p') \<leftarrow> pop_front_n swap_headers mark_invalid n st p;
     Some (p'\<lparr>header_stacks := (header_stacks p')[s := st']\<rparr>) }"
| "stack_pop (Inr s) n p = do {
     st \<leftarrow> nth_opt (header_union_stacks p) s;
     (_, st', p') \<leftarrow> pop_front_n swap_unions union_mark n st p;
     Some (p'\<lparr>header_union_stacks := (header_union_stacks p')[s := st']\<rparr>) }"

definition PACKET_LENGTH_REG_IDX :: nat where "PACKET_LENGTH_REG_IDX = 0"

definition add_to_length :: "int \<Rightarrow> 'r switch_state \<Rightarrow> 'r switch_state option" where
  "add_to_length n st = do {
     v \<leftarrow> get_register PACKET_LENGTH_REG_IDX (sw_pkt st);
     p \<leftarrow> set_register PACKET_LENGTH_REG_IDX (v + word_of_int n) (sw_pkt st);
     Some (st\<lparr>sw_pkt := p\<rparr>) }"

definition add_header :: "nat \<Rightarrow> 'r switch_state \<Rightarrow> 'r switch_state option" where
  "add_header i st = do {
     h \<leftarrow> nth_opt (headers (sw_phv st)) i;
     if is_valid h then Some st
     else do {
       st1 \<leftarrow> on_phv (update_header reset_header i) st;
       st2 \<leftarrow> on_phv (mark_valid i) st1;
       h2 \<leftarrow> nth_opt (headers (sw_phv st2)) i;
       add_to_length (nbytes_packet h2) st2 } }"

definition remove_header :: "nat \<Rightarrow> 'r switch_state \<Rightarrow> 'r switch_state option" where
  "remove_header i st = do {
     h \<leftarrow> nth_opt (headers (sw_phv st)) i;
     if \<not> is_valid h then Some st
     else do {
       st1 \<leftarrow> add_to_length (- nbytes_packet h) st;
       on_phv (mark_invalid i) st1 } }"

definition drop_packet :: "'r action_env \<Rightarrow> 'r switch_state \<Rightarrow> 'r switch_state option" where
  "drop_packet env st = do {
     d \<leftarrow> named_field env ''standard_metadata.egress_spec'';
     st1 \<leftarrow> write_dest d 511 st;
     set_if_named env ''intrinsic_metadata.mcast_grp'' 0 st1 }"

text \<open>The clone specification: the list of fields in the upper half, the mirroring session in the lower half.\<close>

definition set_clone_spec :: "'r action_env \<Rightarrow> operand \<Rightarrow> operand \<Rightarrow> 'r switch_state \<Rightarrow> 'r switch_state option" where
  "set_clone_spec env spec field_list st = do {
     d \<leftarrow> named_field env ''standard_metadata.clone_spec'';
     x \<leftarrow> read_operand st field_list;
     guard (arith x);
     st1 \<leftarrow> write_dest d (push_bit 16 (dval x)) st;
     arith_op d_add d (At d) spec st1 }"

definition set_flag :: "'r action_env \<Rightarrow> string \<Rightarrow> operand \<Rightarrow> 'r switch_state \<Rightarrow> 'r switch_state option" where
  "set_flag env name s st = (case named_field env name of None \<Rightarrow> Some st | Some d \<Rightarrow> assign d s st)"

definition hash_offset :: "'r action_env \<Rightarrow> dest \<Rightarrow> operand \<Rightarrow> nat \<Rightarrow> operand \<Rightarrow> 'r switch_state \<Rightarrow> 'r switch_state option" where
  "hash_offset env d base c sz st = do {
     (bld, raw) \<leftarrow> nth_opt (ae_calcs env) c;
     h \<leftarrow> calc_output (ae_xxh env) bld raw (sw_phv st) (packet_bytes (sw_pkt st));
     s \<leftarrow> read_operand st sz; n \<leftarrow> get_uint64 s;
     b \<leftarrow> read_operand st base; k \<leftarrow> get_uint64 b;
     guard (0 < n);
     write_dest d (int ((unat h mod n + k) mod 2 ^ 64)) st }"

definition execute_meter_array :: "'r action_env \<Rightarrow> nat \<Rightarrow> operand \<Rightarrow> nat \<times> nat \<Rightarrow> 'r switch_state \<Rightarrow> 'r switch_state option" where
  "execute_meter_array env m idx d st = do {
     ms \<leftarrow> nth_opt (sw_meters st) m;
     x \<leftarrow> read_operand st idx; i \<leftarrow> get_uint x;
     (c, ms') \<leftarrow> array_execute (ae_tok env) (ae_micros env) (nat (ingress_length (sw_pkt st))) i 0 ms;
     write_dest (Field_At (fst d) (snd d)) (int c) (st\<lparr>sw_meters := (sw_meters st)[m := ms']\<rparr>) }"

definition count_packet :: "nat \<Rightarrow> operand \<Rightarrow> 'r switch_state \<Rightarrow> 'r switch_state option" where
  "count_packet c idx st = do {
     cs \<leftarrow> nth_opt (sw_counters st) c;
     x \<leftarrow> read_operand st idx; i \<leftarrow> get_uint x;
     k \<leftarrow> nth_opt cs i;
     Some (st\<lparr>sw_counters := (sw_counters st)[c := cs[i := increment_counter (nat (ingress_length (sw_pkt st))) k]]\<rparr>) }"

definition register_write :: "nat \<Rightarrow> operand \<Rightarrow> operand \<Rightarrow> 'r switch_state \<Rightarrow> 'r switch_state option" where
  "register_write r idx src st = do {
     x \<leftarrow> read_operand st idx; i \<leftarrow> get_uint x; assign (Register_At r i) src st }"

definition register_read :: "nat \<times> nat \<Rightarrow> nat \<Rightarrow> operand \<Rightarrow> 'r switch_state \<Rightarrow> 'r switch_state option" where
  "register_read d r idx st = do {
     x \<leftarrow> read_operand st idx; i \<leftarrow> get_uint x; assign (Field_At (fst d) (snd d)) (At (Register_At r i)) st }"

text \<open>
  One primitive on its parameters; \<open>D\<close>, \<open>C\<close> convert a parameter to a value that can be set and to one that can be read.
\<close>

definition run_primitive ::
  "'r action_env \<Rightarrow> data list \<Rightarrow> data list \<Rightarrow> primitive \<Rightarrow> action_param list \<Rightarrow> 'r switch_state \<Rightarrow> 'r switch_state option" where
  "run_primitive env cs adata p args st =
     (let D = to_data adata st; C = to_const_data cs adata st; a = (!) args;
          op3 = (\<lambda>f. do { d \<leftarrow> D (a 0); x \<leftarrow> C (a 1); y \<leftarrow> C (a 2); arith_op f d x y st })
      in case p of
       P_assign \<Rightarrow> do { d \<leftarrow> D (a 0); s \<leftarrow> C (a 1); assign d s st }
     | P_assign_VL \<Rightarrow> do { d \<leftarrow> to_field (a 0); s \<leftarrow> to_field (a 1); on_phv (assign_VL_field d s) st }
     | P_assign_header \<Rightarrow> do { d \<leftarrow> to_header (a 0); s \<leftarrow> to_header (a 1); on_phv (assign_header d s) st }
     | P_assign_union \<Rightarrow> do { d \<leftarrow> to_union (a 0); s \<leftarrow> to_union (a 1); on_phv (assign_union d s) st }
     | P_push \<Rightarrow> do { s \<leftarrow> to_stack (a 0); x \<leftarrow> C (a 1); d \<leftarrow> read_operand st x; n \<leftarrow> get_uint64 d; on_phv (stack_push s n) st }
     | P_pop \<Rightarrow> do { s \<leftarrow> to_stack (a 0); x \<leftarrow> C (a 1); d \<leftarrow> read_operand st x; n \<leftarrow> get_uint64 d; on_phv (stack_pop s n) st }
     | P_modify_field \<Rightarrow> do { d \<leftarrow> D (a 0); s \<leftarrow> C (a 1); assign d s st }
     | P_modify_field_rng_uniform \<Rightarrow> do {
         d \<leftarrow> D (a 0); x \<leftarrow> C (a 1); y \<leftarrow> C (a 2);
         bd \<leftarrow> read_operand st x; b \<leftarrow> get_uint64 bd; ed \<leftarrow> read_operand st y; e \<leftarrow> get_uint64 ed;
         guard (b \<le> e); write_dest d (int (ae_random env b e)) st }
     | P_add_to_field \<Rightarrow> do { (h, f) \<leftarrow> to_field (a 0); y \<leftarrow> C (a 1); arith_op d_add (Field_At h f) (At (Field_At h f)) y st }
     | P_subtract_from_field \<Rightarrow> do { (h, f) \<leftarrow> to_field (a 0); y \<leftarrow> C (a 1); arith_op d_sub (Field_At h f) (At (Field_At h f)) y st }
     | P_add \<Rightarrow> op3 d_add
     | P_subtract \<Rightarrow> op3 d_sub
     | P_bit_xor \<Rightarrow> op3 d_bit_xor
     | P_bit_or \<Rightarrow> op3 d_bit_or
     | P_bit_and \<Rightarrow> op3 d_bit_and
     | P_shift_left \<Rightarrow> op3 d_shift_left
     | P_shift_right \<Rightarrow> op3 d_shift_right
     | P_drop \<Rightarrow> drop_packet env st
     | P_exit \<Rightarrow> Some (st\<lparr>sw_pkt := mark_for_exit (sw_pkt st)\<rparr>)
     | P_generate_digest \<Rightarrow> do { x \<leftarrow> C (a 0); y \<leftarrow> C (a 1); d \<leftarrow> named_field env ''intrinsic_metadata.lf_field_list''; assign d y st }
     | P_add_header \<Rightarrow> do { h \<leftarrow> to_header (a 0); add_header h st }
     | P_add_header_fast \<Rightarrow> do { h \<leftarrow> to_header (a 0); on_phv (mark_valid h) st }
     | P_remove_header \<Rightarrow> do { h \<leftarrow> to_header (a 0); remove_header h st }
     | P_copy_header \<Rightarrow> do { d \<leftarrow> to_header (a 0); s \<leftarrow> to_header (a 1); on_phv (assign_header d s) st }
     | P_clone_ingress_pkt_to_egress \<Rightarrow> do { x \<leftarrow> C (a 0); y \<leftarrow> C (a 1); set_clone_spec env x y st }
     | P_clone_egress_pkt_to_egress \<Rightarrow> do { x \<leftarrow> C (a 0); y \<leftarrow> C (a 1); set_clone_spec env x y st }
     | P_resubmit \<Rightarrow> do { x \<leftarrow> C (a 0); set_flag env ''intrinsic_metadata.resubmit_flag'' x st }
     | P_recirculate \<Rightarrow> do { x \<leftarrow> C (a 0); set_flag env ''intrinsic_metadata.recirculate_flag'' x st }
     | P_modify_field_with_hash_based_offset \<Rightarrow> do {
         d \<leftarrow> D (a 0); b \<leftarrow> C (a 1); c \<leftarrow> to_calculation (a 2); z \<leftarrow> C (a 3); hash_offset env d b c z st }
     | P_no_op \<Rightarrow> Some st
     | P_execute_meter \<Rightarrow> do { m \<leftarrow> to_meter_array (a 0); x \<leftarrow> C (a 1); d \<leftarrow> to_field (a 2); execute_meter_array env m x d st }
     | P_count \<Rightarrow> do { c \<leftarrow> to_counter_array (a 0); x \<leftarrow> C (a 1); count_packet c x st }
     | P_register_read \<Rightarrow> do { d \<leftarrow> to_field (a 0); r \<leftarrow> to_register_array (a 1); x \<leftarrow> C (a 2); register_read d r x st }
     | P_register_write \<Rightarrow> do { r \<leftarrow> to_register_array (a 0); x \<leftarrow> C (a 1); y \<leftarrow> C (a 2); register_write r x y st }
     | P_truncate \<Rightarrow> do {
         x \<leftarrow> C (a 0); d \<leftarrow> read_operand st x; n \<leftarrow> get_uint64 d;
         Some (st\<lparr>sw_pkt := truncate_packet n (sw_pkt st)\<rparr>) }
     | P_modify_and_resubmit \<Rightarrow> do { x \<leftarrow> C (a 0); set_flag env ''intrinsic_metadata.modify_and_resubmit_flag'' x st })"

fun run_primitives ::
  "'r action_env \<Rightarrow> data list \<Rightarrow> data list \<Rightarrow> primitive list \<Rightarrow> action_param list \<Rightarrow> 'r switch_state \<Rightarrow> 'r switch_state option" where
  "run_primitives env cs adata [] params st = Some st"
| "run_primitives env cs adata (p # ps) params st = do {
     guard (num_params p \<le> length params);
     st' \<leftarrow> run_primitive env cs adata p (take (num_params p) params) st;
     run_primitives env cs adata ps (drop (num_params p) params) st' }"

text \<open>\<^verbatim>\<open>ActionFnEntry::execute\<close>.\<close>

definition execute_action :: "'r action_env \<Rightarrow> action_body \<Rightarrow> data list \<Rightarrow> 'r switch_state \<Rightarrow> 'r switch_state option" where
  "execute_action env a adata st = run_primitives env (ab_const_values a) adata (ab_primitives a) (ab_params a) st"

section \<open>An action touches only what it locks\<close>

fun param_arrays :: "action_param \<Rightarrow> nat set" where
  "param_arrays (REGISTER_REF r i) = {r}"
| "param_arrays (REGISTER_GEN r e) = insert r (expression_arrays e)"
| "param_arrays (REGISTER_ARRAY r) = {r}"
| "param_arrays (EXPRESSION n e) = expression_arrays e"
| "param_arrays _ = {}"

fun dest_arrays :: "dest \<Rightarrow> nat set" where
  "dest_arrays (Field_At h f) = {}"
| "dest_arrays (Register_At r i) = {r}"

fun operand_arrays :: "operand \<Rightarrow> nat set" where
  "operand_arrays (At d) = dest_arrays d"
| "operand_arrays (Val v) = {}"

text \<open>The state with the arrays outside \<open>S\<close> replaced.\<close>

definition others :: "nat set \<Rightarrow> register_array list \<Rightarrow> 'r switch_state \<Rightarrow> 'r switch_state" where
  "others S regs st = st\<lparr>sw_regs := map (\<lambda>i. if i \<in> S then sw_regs st ! i else regs ! i) [0..<length regs]\<rparr>"

definition reads_only :: "nat set \<Rightarrow> register_array list \<Rightarrow> ('r switch_state \<Rightarrow> 'x option) \<Rightarrow> ('x \<Rightarrow> bool) \<Rightarrow> bool" where
  "reads_only S regs h P \<longleftrightarrow> (\<forall>st. length (sw_regs st) = length regs \<longrightarrow>
     h (others S regs st) = h st \<and> (\<forall>x. h st = Some x \<longrightarrow> P x))"

definition isolated :: "nat set \<Rightarrow> register_array list \<Rightarrow> ('r switch_state \<Rightarrow> 'r switch_state option) \<Rightarrow> bool" where
  "isolated S regs f \<longleftrightarrow> (\<forall>st. length (sw_regs st) = length regs \<longrightarrow>
     f (others S regs st) = map_option (others S regs) (f st) \<and>
     (\<forall>st'. f st = Some st' \<longrightarrow> length (sw_regs st') = length regs))"

lemma others_frame [simp]:
  "sw_pkt (others S regs st) = sw_pkt st" "sw_meters (others S regs st) = sw_meters st"
  "sw_counters (others S regs st) = sw_counters st" "sw_phv (others S regs st) = sw_phv st"
  "length (sw_regs (others S regs st)) = length regs"
  by (simp_all add: others_def sw_phv_def)

lemma others_nth: "r \<in> S \<Longrightarrow> length (sw_regs st) = length regs \<Longrightarrow> nth_opt (sw_regs (others S regs st)) r = nth_opt (sw_regs st) r"
  by (simp add: others_def nth_opt_def)

lemma isolatedD:
  "isolated S regs f \<Longrightarrow> length (sw_regs st) = length regs \<Longrightarrow> f (others S regs st) = map_option (others S regs) (f st)"
  "isolated S regs f \<Longrightarrow> length (sw_regs st) = length regs \<Longrightarrow> f st = Some st' \<Longrightarrow> length (sw_regs st') = length regs"
  by (simp_all add: isolated_def)

lemma isolated_bind:
  assumes "reads_only S regs h P" "\<And>x. P x \<Longrightarrow> isolated S regs (f x)"
  shows "isolated S regs (\<lambda>st. h st \<bind> (\<lambda>x. f x st))"
  unfolding isolated_def
proof (intro allI impI)
  fix st :: "'a switch_state"
  assume l: "length (sw_regs st) = length regs"
  show "(h (others S regs st) \<bind> (\<lambda>x. f x (others S regs st))) = map_option (others S regs) (h st \<bind> (\<lambda>x. f x st)) \<and>
     (\<forall>st'. (h st \<bind> (\<lambda>x. f x st)) = Some st' \<longrightarrow> length (sw_regs st') = length regs)"
  proof (cases "h st")
    case (Some x)
    then have "isolated S regs (f x)" using assms l by (auto simp: reads_only_def)
    with Some assms(1) l show ?thesis by (simp add: reads_only_def isolated_def)
  qed (use assms(1) l in \<open>simp add: reads_only_def\<close>)
qed

lemma isolated_seq:
  assumes "isolated S regs f" "isolated S regs g"
  shows "isolated S regs (\<lambda>st. f st \<bind> g)"
  unfolding isolated_def
proof (intro allI impI)
  fix st :: "'a switch_state"
  assume l: "length (sw_regs st) = length regs"
  show "(f (others S regs st) \<bind> g) = map_option (others S regs) (f st \<bind> g) \<and>
     (\<forall>st'. (f st \<bind> g) = Some st' \<longrightarrow> length (sw_regs st') = length regs)"
  proof (cases "f st")
    case None
    then have "f (others S regs st) = None" using assms(1) l unfolding isolated_def by (metis option.map_disc_iff)
    with None show ?thesis by simp
  next
    case (Some st1)
    then have "f (others S regs st) = Some (others S regs st1)" and l1: "length (sw_regs st1) = length regs"
      using assms(1) l unfolding isolated_def by (metis option.simps(9)) (metis Some assms(1) isolated_def l)
    moreover have "g (others S regs st1) = map_option (others S regs) (g st1)"
      "\<forall>st'. g st1 = Some st' \<longrightarrow> length (sw_regs st') = length regs"
      using assms(2) l1 unfolding isolated_def by blast+
    ultimately show ?thesis using Some by simp
  qed
qed

lemma reads_bind:
  assumes "reads_only S regs h P" "\<And>x. P x \<Longrightarrow> reads_only S regs (f x) Q"
  shows "reads_only S regs (\<lambda>st. h st \<bind> (\<lambda>x. f x st)) Q"
  unfolding reads_only_def
proof (intro allI impI)
  fix st :: "'a switch_state"
  assume l: "length (sw_regs st) = length regs"
  show "(h (others S regs st) \<bind> (\<lambda>x. f x (others S regs st))) = (h st \<bind> (\<lambda>x. f x st)) \<and>
     (\<forall>x. (h st \<bind> (\<lambda>x. f x st)) = Some x \<longrightarrow> Q x)"
  proof (cases "h st")
    case (Some x)
    then have "reads_only S regs (f x) Q" using assms l by (auto simp: reads_only_def)
    with Some assms(1) l show ?thesis by (simp add: reads_only_def)
  qed (use assms(1) l in \<open>simp add: reads_only_def\<close>)
qed

lemma reads_const: "(\<And>x. c = Some x \<Longrightarrow> P x) \<Longrightarrow> reads_only S regs (\<lambda>st. c) P"
  by (simp add: reads_only_def)

lemma isolated_Some: "isolated S regs Some"
  by (simp add: isolated_def)

lemma isolated_phv: "isolated S regs (on_phv g)"
  unfolding isolated_def
proof (intro allI impI)
  fix st :: "'a switch_state"
  assume l: "length (sw_regs st) = length regs"
  show "on_phv g (others S regs st) = map_option (others S regs) (on_phv g st) \<and>
      (\<forall>st'. on_phv g st = Some st' \<longrightarrow> length (sw_regs st') = length regs)"
    using l by (cases "g (sw_phv st)") (simp_all add: on_phv_def, simp add: set_phv_def others_def)
qed

text \<open>Expressions read the arrays that they name.\<close>

definition same_arrays :: "nat set \<Rightarrow> eval_env \<Rightarrow> eval_env \<Rightarrow> bool" where
  "same_arrays S e1 e2 \<longleftrightarrow> env_phv e1 = env_phv e2 \<and> env_locals e1 = env_locals e2 \<and>
     (\<forall>r \<in> S. nth_opt (env_regs e1) r = nth_opt (env_regs e2) r)"

lemma exec_op_same:
  assumes "same_arrays S e1 e2" "\<And>r i. op = LOAD_REGISTER_REF r i \<Longrightarrow> r \<in> S" "\<And>r. op = LOAD_REGISTER_GEN r \<Longrightarrow> r \<in> S"
  shows "exec_op e1 cs op m = exec_op e2 cs op m"
proof -
  have p: "env_phv e1 = env_phv e2" "env_locals e1 = env_locals e2" using assms(1) by (simp_all add: same_arrays_def)
  have r: "load_register e1 r i = load_register e2 r i" if "r \<in> S" for r i
    using assms(1) that by (simp add: same_arrays_def load_register_def)
  have f: "load_field e1 = load_field e2" "load_last_field e1 = load_last_field e2" "union_header e1 = union_header e2"
    by (simp_all add: fun_eq_iff load_field_def load_last_field_def union_header_def p)
  have s: "stack_header e1 x d = stack_header e2 x d" "stack_union e1 x d = stack_union e2 x d" for x d
    by (cases x; simp add: p)+
  show ?thesis
    by (cases op) (simp_all add: p f s r assms(2,3))
qed

definition ops_within :: "nat set \<Rightarrow> expr_op list \<Rightarrow> bool" where
  "ops_within S os \<longleftrightarrow> (\<forall>op \<in> set os. (\<forall>r i. op = LOAD_REGISTER_REF r i \<longrightarrow> r \<in> S) \<and> (\<forall>r. op = LOAD_REGISTER_GEN r \<longrightarrow> r \<in> S))"

lemma ops_within_drop: "ops_within S os \<Longrightarrow> ops_within S (drop n os)"
  by (auto simp: ops_within_def dest: in_set_dropD)

lemma exec_same:
  assumes "same_arrays S e1 e2" "ops_within S os"
  shows "exec e1 cs os m = exec e2 cs os m"
  using assms(2)
proof (induction os arbitrary: m rule: measure_induct_rule [where f = length])
  case (less os)
  show ?case
  proof (cases os)
    case (Cons op os')
    have w: "ops_within S os'" using less.prems Cons by (simp add: ops_within_def)
    have IH: "exec e1 cs (drop n os') m' = exec e2 cs (drop n os') m'" for n m'
      using less.IH [of "drop n os'"] ops_within_drop [OF w] Cons by simp
    have IH0: "exec e1 cs os' m' = exec e2 cs os' m'" for m' using IH [of 0] by simp
    then have IH2: "exec e1 cs os' = exec e2 cs os'" by (rule ext)
    have IH1: "exec e1 cs (if b then drop n os' else os') m' = exec e2 cs (if b then drop n os' else os') m'" for b n m'
      using IH IH0 by simp
    have o: "exec_op e1 cs op m = exec_op e2 cs op m"
      by (rule exec_op_same [OF assms(1)]) (use less.prems Cons in \<open>auto simp: ops_within_def\<close>)
    consider "op = TERNARY_OP" | n where "op = SKIP n"
      | "\<And>env. exec env cs (op # os') m = exec_op env cs op m \<bind> exec env cs os'" by (cases op) simp_all
    then show ?thesis
      by cases (simp_all add: Cons IH IH1 IH2 o split_def)
  qed simp
qed

lemma eval_temp_reads:
  assumes "expression_arrays e \<subseteq> S"
  shows "reads_only S regs (\<lambda>st. eval_temp adata st e) (\<lambda>_. True)"
  unfolding reads_only_def
proof (intro allI impI conjI)
  fix st :: "'a switch_state"
  assume l: "length (sw_regs st) = length regs"
  have "same_arrays S (action_eval_env adata (others S regs st)) (action_eval_env adata st)"
    using l by (auto simp: same_arrays_def action_eval_env_def others_def nth_opt_def sw_phv_def)
  moreover have "ops_within S (ops e)" using assms by (auto simp: ops_within_def expression_arrays_def)
  ultimately show "eval_temp adata (others S regs st) e = eval_temp adata st e"
    by (simp add: eval_temp_def eval_arith_def exec_same)
qed simp

lemma register_gen_reads:
  assumes "expression_arrays e \<subseteq> S" "r \<in> S"
  shows "reads_only S regs (\<lambda>st. register_gen adata st r e) (\<lambda>d. dest_arrays d \<subseteq> S)"
  unfolding register_gen_def
  by (intro reads_bind [OF eval_temp_reads [OF assms(1)]] reads_const) (use assms(2) in \<open>auto simp: bind_eq_Some_iff\<close>)

lemma last_field_reads: "reads_only S regs (\<lambda>st. last_field st s f) (\<lambda>d. dest_arrays d \<subseteq> S)"
  by (auto simp: reads_only_def last_field_def bind_eq_Some_iff)

lemma to_data_reads:
  "param_arrays p \<subseteq> S \<Longrightarrow> reads_only S regs (\<lambda>st. to_data adata st p) (\<lambda>d. dest_arrays d \<subseteq> S)"
  by (cases p) (auto intro!: register_gen_reads last_field_reads reads_const)

lemma reads_map:
  assumes "reads_only S regs h P" "\<And>x. P x \<Longrightarrow> Q (g x)"
  shows "reads_only S regs (\<lambda>st. map_option g (h st)) Q"
  using assms by (auto simp: reads_only_def)

lemma to_const_reads:
  "param_arrays p \<subseteq> S \<Longrightarrow> reads_only S regs (\<lambda>st. to_const_data cs adata st p) (\<lambda>d. operand_arrays d \<subseteq> S)"
  by (cases p) (auto intro!: reads_map [OF register_gen_reads] reads_map [OF last_field_reads] reads_map [OF eval_temp_reads] reads_const)

lemma read_operand_reads: "operand_arrays x \<subseteq> S \<Longrightarrow> reads_only S regs (\<lambda>st. read_operand st x) (\<lambda>_. True)"
proof (cases x)
  case (At d)
  assume "operand_arrays x \<subseteq> S"
  then show ?thesis unfolding At by (cases d) (auto simp: reads_only_def others_nth)
qed (simp add: reads_const)

lemma isolated_write: "dest_arrays d \<subseteq> S \<Longrightarrow> isolated S regs (write_dest d v)"
proof (cases d)
  case (Field_At h f)
  then show ?thesis using isolated_phv [of S regs "write_field h f v"] by (simp add: isolated_def)
next
  case (Register_At r i)
  assume a: "dest_arrays d \<subseteq> S"
  show ?thesis
    unfolding isolated_def
  proof (intro allI impI)
    fix st :: "'a switch_state"
    assume l: "length (sw_regs st) = length regs"
    have r: "r \<in> S" using a Register_At by simp
    show "write_dest d v (others S regs st) = map_option (others S regs) (write_dest d v st) \<and>
      (\<forall>st'. write_dest d v st = Some st' \<longrightarrow> length (sw_regs st') = length regs)"
    proof (cases "do { a \<leftarrow> nth_opt (sw_regs st) r; register_set i v a }")
      case None
      then show ?thesis using others_nth [OF r l] Register_At by (auto split: bind_splits)
    next
      case (Some a')
      then obtain a where a: "nth_opt (sw_regs st) r = Some a" "register_set i v a = Some a'" by (auto simp: bind_eq_Some_iff)
      moreover have "(sw_regs (others S regs st))[r := a'] = sw_regs (others S regs (st\<lparr>sw_regs := (sw_regs st)[r := a']\<rparr>))"
        using a(1) r l by (auto simp: others_def nth_opt_Some_iff intro!: nth_equalityI simp: nth_list_update)
      ultimately show ?thesis using others_nth [OF r l] Register_At l by (simp add: others_def)
    qed
  qed
qed

lemmas isolated_intros = isolated_write isolated_phv isolated_Some

lemma assign_isolated:
  "dest_arrays d \<subseteq> S \<Longrightarrow> operand_arrays s \<subseteq> S \<Longrightarrow> isolated S regs (assign d s)"
  unfolding assign_def [abs_def] by (rule isolated_bind [OF read_operand_reads]) (simp_all add: isolated_write)

lemma arith_op_isolated:
  "dest_arrays d \<subseteq> S \<Longrightarrow> operand_arrays a \<subseteq> S \<Longrightarrow> operand_arrays b \<subseteq> S \<Longrightarrow> isolated S regs (arith_op f d a b)"
  unfolding arith_op_def [abs_def]
  by (rule isolated_bind [OF read_operand_reads], assumption, rule isolated_bind [OF read_operand_reads], assumption,
      rule isolated_bind [OF reads_const [where P = "\<lambda>_. True"]]) (simp_all add: isolated_write)

lemma named_field_arrays: "named_field env name = Some d \<Longrightarrow> dest_arrays d = {}"
  by (auto simp: named_field_def)

lemma set_if_named_isolated: "isolated S regs (set_if_named env name v)"
  unfolding set_if_named_def [abs_def]
  by (cases "named_field env name") (simp_all add: isolated_Some isolated_write named_field_arrays)

lemma set_flag_isolated: "operand_arrays s \<subseteq> S \<Longrightarrow> isolated S regs (set_flag env name s)"
  unfolding set_flag_def [abs_def]
  by (cases "named_field env name") (simp_all add: isolated_Some assign_isolated named_field_arrays)

lemma isolated_const: "(\<And>x. c = Some x \<Longrightarrow> isolated S regs (f x)) \<Longrightarrow> isolated S regs (\<lambda>st. c \<bind> (\<lambda>x. f x st))"
  by (cases c) (simp_all add: isolated_def)

lemma isolated_guard: "isolated S regs f \<Longrightarrow> isolated S regs (\<lambda>st. guard b \<bind> (\<lambda>_. f st))"
  by (cases b) (simp_all add: isolated_def)

lemma drop_isolated: "isolated S regs (drop_packet env)"
  unfolding drop_packet_def [abs_def]
  by (intro isolated_const isolated_seq isolated_write set_if_named_isolated) (simp_all add: named_field_arrays)

lemma uint_reads: "operand_arrays x \<subseteq> S \<Longrightarrow> reads_only S regs (\<lambda>st. read_operand st x \<bind> g) (\<lambda>_. True)"
  by (rule reads_bind [OF read_operand_reads]) (simp_all add: reads_const)

lemma clone_spec_isolated:
  assumes "operand_arrays a \<subseteq> S" "operand_arrays b \<subseteq> S"
  shows "isolated S regs (set_clone_spec env a b)"
  unfolding set_clone_spec_def [abs_def]
  by (intro isolated_const isolated_bind [OF read_operand_reads [OF assms(2)]] isolated_guard isolated_seq isolated_write arith_op_isolated)
    (simp_all add: named_field_arrays assms)

lemma hash_offset_isolated:
  assumes "dest_arrays d \<subseteq> S" "operand_arrays b \<subseteq> S" "operand_arrays z \<subseteq> S"
  shows "isolated S regs (hash_offset env d b c z)"
proof -
  have "isolated S regs (\<lambda>st. nth_opt (ae_calcs env) c \<bind> (\<lambda>x. calc_output (ae_xxh env) (fst x) (snd x) (sw_phv st) (packet_bytes (sw_pkt st)) \<bind>
      (\<lambda>h. read_operand st z \<bind> (\<lambda>s. get_uint64 s \<bind> (\<lambda>n. read_operand st b \<bind> (\<lambda>bd. get_uint64 bd \<bind> (\<lambda>k. guard (0 < n) \<bind>
      (\<lambda>_. write_dest d (int ((unat h mod n + k) mod 2 ^ 64)) st))))))))"
    by (intro isolated_const isolated_bind [OF read_operand_reads] isolated_guard isolated_write assms
        isolated_bind [where h = "\<lambda>st. calc_output (ae_xxh env) bl raw (sw_phv st) (packet_bytes (sw_pkt st))" and P = "\<lambda>_. True" for bl raw])
      (simp add: reads_only_def)
  then show ?thesis unfolding hash_offset_def [abs_def] by (simp add: split_def)
qed

lemma read_others:
  "operand_arrays x \<subseteq> S \<Longrightarrow> length (sw_regs st) = length regs \<Longrightarrow> read_operand (others S regs st) x = read_operand st x"
  using read_operand_reads unfolding reads_only_def by blast

lemma meter_isolated:
  assumes "operand_arrays x \<subseteq> S"
  shows "isolated S regs (execute_meter_array env m x d)"
  unfolding isolated_def
proof (intro allI impI)
  fix st :: "'a switch_state"
  assume l: "length (sw_regs st) = length regs"
  have r: "read_operand (others S regs st) x = read_operand st x"
    by (rule read_others [OF assms l])
  have o: "(others S regs st)\<lparr>sw_meters := ms\<rparr> = others S regs (st\<lparr>sw_meters := ms\<rparr>)" for ms by (simp add: others_def)
  show "execute_meter_array env m x d (others S regs st) = map_option (others S regs) (execute_meter_array env m x d st) \<and>
      (\<forall>st'. execute_meter_array env m x d st = Some st' \<longrightarrow> length (sw_regs st') = length regs)"
    using l by (auto simp: execute_meter_array_def r o isolatedD(1) [OF isolated_phv] bind_eq_Some_iff split: bind_splits
      intro: isolatedD(2) [OF isolated_phv, rotated])
qed

lemma count_isolated:
  assumes "operand_arrays x \<subseteq> S"
  shows "isolated S regs (count_packet c x)"
  unfolding isolated_def
proof (intro allI impI)
  fix st :: "'a switch_state"
  assume l: "length (sw_regs st) = length regs"
  have r: "read_operand (others S regs st) x = read_operand st x"
    by (rule read_others [OF assms l])
  have o: "(others S regs st)\<lparr>sw_counters := ms\<rparr> = others S regs (st\<lparr>sw_counters := ms\<rparr>)" for ms by (simp add: others_def)
  show "count_packet c x (others S regs st) = map_option (others S regs) (count_packet c x st) \<and>
      (\<forall>st'. count_packet c x st = Some st' \<longrightarrow> length (sw_regs st') = length regs)"
    using l by (auto simp: count_packet_def r o bind_eq_Some_iff split: bind_splits)
qed

lemma register_write_isolated:
  "r \<in> S \<Longrightarrow> operand_arrays x \<subseteq> S \<Longrightarrow> operand_arrays y \<subseteq> S \<Longrightarrow> isolated S regs (register_write r x y)"
  unfolding register_write_def [abs_def]
  by (rule isolated_bind [OF read_operand_reads], assumption, rule isolated_const, rule assign_isolated) simp_all

lemma register_read_isolated:
  "r \<in> S \<Longrightarrow> operand_arrays x \<subseteq> S \<Longrightarrow> isolated S regs (register_read d r x)"
  unfolding register_read_def [abs_def]
  by (rule isolated_bind [OF read_operand_reads], assumption, rule isolated_const, rule assign_isolated) simp_all

text \<open>What leaves the arrays alone and does not look at them.\<close>

lemma frame_isolated:
  assumes "\<And>st. f (others S regs st) = map_option (others S regs) (f st)"
    "\<And>st st'. f st = Some st' \<Longrightarrow> sw_regs st' = sw_regs st"
  shows "isolated S regs f"
  using assms by (auto simp: isolated_def)

lemma add_to_length_isolated: "isolated S regs (add_to_length n)"
  by (rule frame_isolated) (auto simp: add_to_length_def others_def bind_eq_Some_iff split: bind_splits)

lemma pkt_isolated: "isolated S regs (\<lambda>st. Some (st\<lparr>sw_pkt := g (sw_pkt st)\<rparr>))"
  by (rule frame_isolated) (auto simp: others_def)

lemma phv_reads: "reads_only S regs (\<lambda>st. g (sw_phv st)) (\<lambda>_. True)"
  by (simp add: reads_only_def)

lemma add_header_isolated: "isolated S regs (add_header i)"
  unfolding isolated_def
proof (intro allI impI)
  fix st :: "'a switch_state"
  assume l: "length (sw_regs st) = length regs"
  have "isolated S regs (\<lambda>st. on_phv (update_header reset_header i) st \<bind> (\<lambda>st1. on_phv (mark_valid i) st1 \<bind>
      (\<lambda>st2. nth_opt (headers (sw_phv st2)) i \<bind> (\<lambda>h2. add_to_length (nbytes_packet h2) st2))))" 
    by (intro isolated_seq isolated_phv isolated_bind [OF phv_reads] add_to_length_isolated)
  then show "add_header i (others S regs st) = map_option (others S regs) (add_header i st) \<and>
      (\<forall>st'. add_header i st = Some st' \<longrightarrow> length (sw_regs st') = length regs)"
    using l by (cases "nth_opt (headers (sw_phv st)) i") (auto simp: add_header_def isolated_def)
qed

lemma remove_header_isolated: "isolated S regs (remove_header i)"
  unfolding isolated_def
proof (intro allI impI)
  fix st :: "'a switch_state"
  assume l: "length (sw_regs st) = length regs"
  have "isolated S regs (\<lambda>st. add_to_length n st \<bind> on_phv (mark_invalid i))" for n
    by (intro isolated_seq isolated_phv add_to_length_isolated)
  then show "remove_header i (others S regs st) = map_option (others S regs) (remove_header i st) \<and>
      (\<forall>st'. remove_header i st = Some st' \<longrightarrow> length (sw_regs st') = length regs)"
    using l by (cases "nth_opt (headers (sw_phv st)) i") (auto simp: remove_header_def isolated_def)
qed

lemma to_register_array_arrays: "to_register_array q = Some r \<Longrightarrow> r \<in> param_arrays q"
  by (cases q) simp_all

lemmas primitive_isolated = assign_isolated arith_op_isolated isolated_phv isolated_Some drop_isolated set_flag_isolated
  clone_spec_isolated hash_offset_isolated meter_isolated count_isolated register_write_isolated register_read_isolated
  add_header_isolated remove_header_isolated pkt_isolated isolated_write isolated_guard

lemma isolated_split: "(\<And>a b. isolated S regs (f a b)) \<Longrightarrow> isolated S regs (\<lambda>st. case x of (a, b) \<Rightarrow> f a b st)"
  by (cases x) simp

lemma run_primitive_isolated:
  assumes n: "length args = num_params p" and s: "\<And>q. q \<in> set args \<Longrightarrow> param_arrays q \<subseteq> S"
  shows "isolated S regs (run_primitive env cs adata p args)"
proof -
  have a: "param_arrays (args ! i) \<subseteq> S" if "i < num_params p" for i using s n that by simp
  have r: "to_register_array (args ! i) = Some r \<Longrightarrow> r \<in> S" if "i < num_params p" for i r
    using a [OF that] to_register_array_arrays by blast
  note rules = isolated_split isolated_const isolated_bind [OF to_data_reads] isolated_bind [OF to_const_reads]
    isolated_bind [OF read_operand_reads] primitive_isolated
  show ?thesis
    using n a [of 0] a [of 1] a [of 2] a [of 3] r [of 0] r [of 1]
    by (cases p; simp only: run_primitive_def [abs_def] Let_def primitive.case; intro rules;
        simp add: num_params_def named_field_arrays)
qed

lemma run_primitives_isolated:
  assumes "\<And>q. q \<in> set params \<Longrightarrow> param_arrays q \<subseteq> S"
  shows "isolated S regs (run_primitives env cs adata ps params)"
  using assms
proof (induction ps arbitrary: params)
  case Nil
  have "run_primitives env cs adata [] params = Some" by (simp add: fun_eq_iff)
  then show ?case by (simp add: isolated_Some)
next
  case (Cons p ps)
  have 1: "isolated S regs (run_primitives env cs adata ps (drop k params))" for k
    by (rule Cons.IH) (use Cons.prems in \<open>auto dest: in_set_dropD\<close>)
  have 2: "isolated S regs (run_primitive env cs adata p (take (num_params p) params))" if "num_params p \<le> length params"
    by (rule run_primitive_isolated) (use Cons.prems that in \<open>auto dest: in_set_takeD\<close>)
  show ?case
  proof (cases "num_params p \<le> length params")
    case True
    then show ?thesis using isolated_seq [OF 2 1 [of "num_params p"]] by simp
  qed (simp add: isolated_def)
qed

text \<open>The actions that the pushes build.\<close>

inductive built_action :: "action_body \<Rightarrow> bool" where
  ba_new: "built_action (new_action n)"
| ba_const: "built_action a \<Longrightarrow> built_action (parameter_push_back_const d a)"
| ba_plain: "built_action a \<Longrightarrow> plain_param p \<Longrightarrow> built_action (push_param p a)"
| ba_register_ref: "built_action a \<Longrightarrow> built_action (parameter_push_back_register_ref r i a)"
| ba_register_gen: "built_action a \<Longrightarrow> built_action (parameter_push_back_register_gen r e a)"
| ba_register_array: "built_action a \<Longrightarrow> built_action (parameter_push_back_register_array r a)"
| ba_expression: "built_action a \<Longrightarrow> parameter_push_back_expression e nb a = Some (nb', a') \<Longrightarrow> built_action a'"
| ba_primitive: "built_action a \<Longrightarrow> built_action (push_back_primitive p a)"

lemma plain_no_arrays: "plain_param p \<Longrightarrow> param_arrays p = {}"
  by (cases p) simp_all

lemma built_locks:
  assumes "built_action a"
  shows "\<forall>p \<in> set (ab_params a). param_arrays p \<subseteq> set (ab_sync a)"
  using assms
proof induction
  case (ba_plain a p)
  then show ?case by (simp add: push_param_def plain_no_arrays)
next
  case (ba_expression a e nb nb' a')
  then show ?case
    by (auto simp: parameter_push_back_expression_def push_param_def Let_def bind_eq_Some_iff guard_def split: if_splits)
      (blast dest: bspec)+
qed (auto simp: new_action_def parameter_push_back_const_def push_param_def parameter_push_back_register_ref_def
    parameter_push_back_register_gen_def parameter_push_back_register_array_def push_back_primitive_def Let_def)

text \<open>
  C26: an action built by the pushes neither reads nor writes the register arrays outside the set it locks before it runs:
  with other contents there it fails or succeeds alike, its result is the same elsewhere, and those contents are as
  before.
\<close>

theorem action_touches_only_locked:
  assumes "built_action a" "length (sw_regs st) = length regs"
  shows "execute_action env a adata (others (set (ab_sync a)) regs st) =
      map_option (others (set (ab_sync a)) regs) (execute_action env a adata st) \<and>
    (\<forall>st' r. execute_action env a adata st = Some st' \<and> r < length regs \<and> r \<notin> set (ab_sync a) \<longrightarrow>
      sw_regs st' ! r = sw_regs st ! r)"
proof (intro conjI allI impI)
  let ?S = "set (ab_sync a)"
  have i: "isolated ?S rs (execute_action env a adata)" for rs
    unfolding execute_action_def [abs_def] using built_locks [OF assms(1)] by (intro run_primitives_isolated) simp
  show "execute_action env a adata (others ?S regs st) = map_option (others ?S regs) (execute_action env a adata st)"
    by (rule isolatedD(1) [OF i assms(2)])
  fix st' r
  assume e: "execute_action env a adata st = Some st' \<and> r < length regs \<and> r \<notin> ?S"
  have "others ?S (sw_regs st) st = st" by (simp add: others_def map_nth)
  then have "others ?S (sw_regs st) st' = st'" using isolatedD(1) [OF i [of "sw_regs st"] refl] e by simp
  then have "sw_regs st' ! r = sw_regs (others ?S (sw_regs st) st') ! r" by simp
  also have "\<dots> = sw_regs st ! r" using e assms(2) by (simp add: others_def)
  finally show "sw_regs st' ! r = sw_regs st ! r" .
qed

section \<open>Examples\<close>

definition sample_action :: action_body where
  "sample_action = push_back_primitive P_register_write
     (push_param (ACTION_DATA 0) (parameter_push_back_const \<lparr>arith = True, dval = 1\<rparr> (parameter_push_back_register_array 1 (new_action 1))))"

definition sample_state :: "nat switch_state" where
  "sample_state = \<lparr>sw_pkt = sample_packet, sw_regs = [ra_new 1 8, ra_new 2 8], sw_meters = [], sw_counters = []\<rparr>"

lemma sample_built: "built_action sample_action"
  unfolding sample_action_def by (rule ba_primitive, rule ba_plain, rule ba_const, rule ba_register_array, rule ba_new, simp)

lemma sample_sync: "ab_sync sample_action = [1]"
  by (simp add: sample_action_def push_back_primitive_def push_param_def parameter_push_back_const_def
      parameter_push_back_register_array_def new_action_def add_register_array_def Let_def)

definition sample_env :: "nat action_env" where
  "sample_env = \<lparr>ae_names = (\<lambda>_. None), ae_calcs = [], ae_xxh = (\<lambda>_. 0), ae_tok = (\<lambda>_ _. 0), ae_micros = 0, ae_random = (\<lambda>b _. b)\<rparr>"

lemma sample_run:
  "map_option (\<lambda>st. map (map dval \<circ> ra_registers) (sw_regs st))
     (execute_action sample_env sample_action [\<lparr>arith = True, dval = 258\<rparr>] (sample_state\<lparr>sw_regs := [ra_new 1 8, ra_new 2 8]\<rparr>)) =
   Some [[0], [0, 2]]"
  by (simp add: execute_action_def sample_action_def push_back_primitive_def push_param_def parameter_push_back_const_def
      parameter_push_back_register_array_def new_action_def add_register_array_def Let_def run_primitive_def num_params_def
      sample_state_def register_write_def assign_def get_uint_def ra_new_def register_set_def register_export_def register_mask_def
      new_register_def nth_opt_def numeral_2_eq_2)

theorem action_touches_only_locked_witness:
  "execute_action sample_env sample_action [\<lparr>arith = True, dval = 258\<rparr>] (others {1} [ra_new 3 4, ra_new 5 6] sample_state) =
      map_option (others {1} [ra_new 3 4, ra_new 5 6])
        (execute_action sample_env sample_action [\<lparr>arith = True, dval = 258\<rparr>] sample_state)"
proof -
  have "length (sw_regs sample_state) = length [ra_new 3 4, ra_new 5 6]" by (simp add: sample_state_def)
  from action_touches_only_locked [OF sample_built this, of sample_env "[\<lparr>arith = True, dval = 258\<rparr>]"]
  show ?thesis unfolding sample_sync by simp
qed

end
