(* ===== verification/Parser_Errors.thy ===== *)
theory Parser_Errors
  imports Prelude
begin

text \<open>
  The error codes of parsers: parser_error.h and parser_error.cpp.  The two hash tables are association lists in no
  particular order; what is raised while a packet is parsed is a value.  The theorem: the two tables stay inverse to each
  other, and after \<open>add_core\<close> every core error has a code of its own.
\<close>

datatype core_error =
  NoError | PacketTooShort | NoMatch | StackOutOfBounds | OverwritingHeader | HeaderTooShort | ParserTimeout

record error_codes =
  v_to_name :: "(int \<times> string) list"
  name_to_v :: "(string \<times> int) list"

definition no_codes :: error_codes where
  "no_codes = \<lparr>v_to_name = [], name_to_v = []\<rparr>"

definition exists_name :: "string \<Rightarrow> error_codes \<Rightarrow> bool" where
  "exists_name n m \<longleftrightarrow> map_of (name_to_v m) n \<noteq> None"

definition exists_code :: "int \<Rightarrow> error_codes \<Rightarrow> bool" where
  "exists_code v m \<longleftrightarrow> map_of (v_to_name m) v \<noteq> None"

definition add_code :: "string \<Rightarrow> int \<Rightarrow> error_codes \<Rightarrow> bool \<times> error_codes" where
  "add_code n v m =
     (if exists_name n m \<or> exists_code v m then (False, m)
      else (True, \<lparr>v_to_name = (v, n) # v_to_name m, name_to_v = (n, v) # name_to_v m\<rparr>))"

fun core_to_name :: "core_error \<Rightarrow> string" where
  "core_to_name NoError = ''NoError''"
| "core_to_name PacketTooShort = ''PacketTooShort''"
| "core_to_name NoMatch = ''NoMatch''"
| "core_to_name StackOutOfBounds = ''StackOutOfBounds''"
| "core_to_name OverwritingHeader = ''OverwritingHeader''"
| "core_to_name HeaderTooShort = ''HeaderTooShort''"
| "core_to_name ParserTimeout = ''ParserTimeout''"

definition core_errors :: "core_error list" where
  "core_errors = [NoError, PacketTooShort, NoMatch, StackOutOfBounds, OverwritingHeader, HeaderTooShort, ParserTimeout]"

text \<open>The loop counts up from the largest code; its assert is that the code was added.\<close>

fun add_core_loop :: "core_error list \<Rightarrow> int \<Rightarrow> error_codes \<Rightarrow> error_codes option" where
  "add_core_loop [] v m = Some m"
| "add_core_loop (c # cs) v m =
     (if exists_name (core_to_name c) m then add_core_loop cs v m
      else let (ok, m') = add_code (core_to_name c) v m in
        if ok \<and> v < 2 ^ 31 - 1 then add_core_loop cs (v + 1) m' else None)"

definition first_free :: "error_codes \<Rightarrow> int" where
  "first_free m = (case map fst (v_to_name m) of [] \<Rightarrow> 0 | v # vs \<Rightarrow> foldl max v vs + 1)"

definition add_core :: "error_codes \<Rightarrow> error_codes option" where
  "add_core m = add_core_loop core_errors (first_free m) m"

definition make_with_core :: "error_codes option" where
  "make_with_core = add_core no_codes"

definition from_name :: "string \<Rightarrow> error_codes \<Rightarrow> int option" where
  "from_name n m = map_of (name_to_v m) n"

definition from_core :: "core_error \<Rightarrow> error_codes \<Rightarrow> int option" where
  "from_core c m = from_name (core_to_name c) m"

definition to_name :: "int \<Rightarrow> error_codes \<Rightarrow> string option" where
  "to_name v m = map_of (v_to_name m) v"

text \<open>The two kinds of exceptions, and the code each stands for.\<close>

datatype parser_exception = Arch int | Core core_error

fun exception_code :: "error_codes \<Rightarrow> parser_exception \<Rightarrow> int option" where
  "exception_code m (Arch v) = Some v"
| "exception_code m (Core c) = from_core c m"

section \<open>Codes and names\<close>

definition inverse_tables :: "error_codes \<Rightarrow> bool" where
  "inverse_tables m \<longleftrightarrow> (\<forall>v n. to_name v m = Some n \<longleftrightarrow> from_name n m = Some v)"

lemma no_codes_inverse: "inverse_tables no_codes"
  by (simp add: inverse_tables_def no_codes_def to_name_def from_name_def)

lemma add_code_inverse: "inverse_tables m \<Longrightarrow> inverse_tables (snd (add_code n v m))"
  by (auto simp: inverse_tables_def add_code_def to_name_def from_name_def exists_name_def exists_code_def)

lemma foldl_max: "(v::int) \<le> foldl max v vs \<and> (\<forall>x \<in> set vs. x \<le> foldl max v vs)"
proof (induction vs arbitrary: v)
  case (Cons x vs)
  from Cons [of "max v x"] show ?case by auto
qed simp

lemma first_free_above: "exists_code v m \<Longrightarrow> v < first_free m"
proof -
  assume "exists_code v m"
  then have "v \<in> set (map fst (v_to_name m))" by (force simp: exists_code_def dest: map_of_SomeD)
  then show ?thesis
    unfolding first_free_def by (cases "map fst (v_to_name m)") (use foldl_max in \<open>fastforce simp: less_iff_succ_less_eq\<close>)+
qed

lemma add_core_loop_works:
  assumes "inverse_tables m" "\<And>w. exists_code w m \<Longrightarrow> w < v" "v + int (length cs) < 2 ^ 31"
  shows "\<exists>m'. add_core_loop cs v m = Some m' \<and> inverse_tables m' \<and> (\<forall>c \<in> set cs. from_core c m' \<noteq> None) \<and>
    (\<forall>n w. from_name n m = Some w \<longrightarrow> from_name n m' = Some w)"
  using assms
proof (induction cs arbitrary: v m)
  case (Cons c cs)
  show ?case
  proof (cases "exists_name (core_to_name c) m")
    case True
    then obtain w where w: "from_name (core_to_name c) m = Some w" by (auto simp: exists_name_def from_name_def)
    from Cons.IH [OF Cons.prems(1,2)] Cons.prems(3) obtain m' where m': "add_core_loop cs v m = Some m'" "inverse_tables m'"
      "\<forall>c \<in> set cs. from_core c m' \<noteq> None" "\<forall>n w. from_name n m = Some w \<longrightarrow> from_name n m' = Some w" by auto
    then have "from_core c m' \<noteq> None" using w by (simp add: from_core_def)
    with m' True show ?thesis by simp
  next
    case False
    define m1 where "m1 = snd (add_code (core_to_name c) v m)"
    have fresh: "\<not> exists_code v m" using Cons.prems(2) [of v] by auto
    have m1: "add_code (core_to_name c) v m = (True, m1)" "from_name n m1 = (if n = core_to_name c then Some v else from_name n m)"
      "exists_code w m1 \<Longrightarrow> w < v + 1" for n w
      using False fresh Cons.prems(2) [of w] by (auto simp: m1_def add_code_def from_name_def exists_code_def split: if_splits)
    have i: "inverse_tables m1" unfolding m1_def by (rule add_code_inverse [OF Cons.prems(1)])
    from Cons.IH [OF i m1(3)] Cons.prems(3) obtain m' where m': "add_core_loop cs (v + 1) m1 = Some m'" "inverse_tables m'"
      "\<forall>c \<in> set cs. from_core c m' \<noteq> None" "\<forall>n w. from_name n m1 = Some w \<longrightarrow> from_name n m' = Some w" by auto
    then have "from_core c m' = Some v" using m1(2) by (simp add: from_core_def)
    moreover have "from_name n m' = Some w" if "from_name n m = Some w" for n w
      using m'(4) m1(2) [of n] that False by (cases "n = core_to_name c") (auto simp: exists_name_def from_name_def)
    ultimately show ?thesis using m' m1(1) False Cons.prems(3) by simp
  qed
qed simp

lemma core_to_name_inj: "core_to_name c = core_to_name d \<Longrightarrow> c = d"
  by (cases c; cases d) simp_all

text \<open>
  if names and codes are a bijection and the largest code leaves room, adding the core errors succeeds and keeps it one;
  every code from before still has its name, every core error has a code, and different core errors have different codes.
\<close>

theorem core_errors_have_codes:
  assumes "inverse_tables m" "first_free m < 2 ^ 31 - 7"
  shows "\<exists>m'. add_core m = Some m' \<and> inverse_tables m' \<and> (\<forall>n w. from_name n m = Some w \<longrightarrow> from_name n m' = Some w) \<and>
    (\<forall>c. from_core c m' \<noteq> None) \<and> (\<forall>c d. from_core c m' = from_core d m' \<longrightarrow> c = d)"
proof -
  have "first_free m + int (length core_errors) < 2 ^ 31" using assms(2) by (simp add: core_errors_def)
  from add_core_loop_works [OF assms(1) first_free_above this] obtain m' where m': "add_core m = Some m'" "inverse_tables m'"
    "\<forall>c \<in> set core_errors. from_core c m' \<noteq> None" "\<forall>n w. from_name n m = Some w \<longrightarrow> from_name n m' = Some w"
    unfolding add_core_def by auto
  have c: "from_core c m' \<noteq> None" for c using m'(3) by (cases c) (simp_all add: core_errors_def)
  moreover have "c = d" if "from_core c m' = from_core d m'" for c d
  proof -
    obtain v where "from_core c m' = Some v" using c by blast
    then have "to_name v m' = Some (core_to_name c)" "to_name v m' = Some (core_to_name d)"
      using that m'(2) by (simp_all add: inverse_tables_def from_core_def)
    then show ?thesis using core_to_name_inj by simp
  qed
  ultimately show ?thesis using m' by blast
qed

theorem core_errors_have_codes_witness:
  "\<exists>m'. add_core (snd (add_code ''NoMatch'' 4 no_codes)) = Some m' \<and> inverse_tables m' \<and> from_name ''NoMatch'' m' = Some 4"
  using core_errors_have_codes [of "snd (add_code ''NoMatch'' 4 no_codes)"] add_code_inverse [OF no_codes_inverse, of "''NoMatch''" 4]
  by (force simp: add_code_def no_codes_def exists_name_def exists_code_def first_free_def from_name_def)

end
