(* ===== verification/Value_Sets.thy ===== *)
theory Value_Sets
  imports Bit_Extract
begin

unbundle bit_operations_syntax

text \<open>
  The value sets of parsers, from parser.cpp: a set has a copy of its own (the base) and one shadow for each switch case
  that uses it; clients change all of them, a case looks into its shadow.  A shadow pads values to whole bytes for every
  field of the key, a shadow with a mask keeps masked values.
  The theorems: a shadow without mask holds the padded values of the base, and padding keeps values apart; removing a
  value from a set can take another value out of a masked shadow.
\<close>

section \<open>One set\<close>

text \<open>\<^verbatim>\<open>ParseVSetBase\<close>, \<^verbatim>\<open>ParseVSetNoMask\<close> and \<^verbatim>\<open>ParseVSetMask\<close>.\<close>

datatype vset_kind = VSet_Base | VSet_NoMask "nat list" | VSet_Mask "u8 list" "nat list"

record vset_copy =
  vc_kind :: vset_kind
  vc_compressed :: nat
  vc_values :: "u8 list set"

fun vset_width :: "vset_kind \<Rightarrow> nat \<Rightarrow> nat" where
  "vset_width VSet_Base n = bytes_of_bits n"
| "vset_width (VSet_NoMask ws) n = sum_list (map bytes_of_bits ws)"
| "vset_width (VSet_Mask m ws) n = sum_list (map bytes_of_bits ws)"

definition vc_width :: "vset_copy \<Rightarrow> nat" where
  "vc_width c = vset_width (vc_kind c) (vc_compressed c)"

definition new_copy :: "vset_kind \<Rightarrow> nat \<Rightarrow> vset_copy option" where
  "new_copy k n = do {
     guard (case k of VSet_Base \<Rightarrow> True | VSet_NoMask ws \<Rightarrow> ws \<noteq> [] | VSet_Mask m ws \<Rightarrow> ws \<noteq> []);
     Some \<lparr>vc_kind = k, vc_compressed = n, vc_values = {}\<rparr> }"

text \<open>The loop over the widths: the source moves on by whole bytes.\<close>

fun pad_loop :: "nat list \<Rightarrow> u8 list \<Rightarrow> nat \<Rightarrow> u8 list option" where
  "pad_loop [] src offset = Some []"
| "pad_loop (w # ws) src offset = do {
     b \<leftarrow> generic_extract src offset w;
     let o1 = offset + w;
     bs \<leftarrow> pad_loop ws (drop (o1 div 8) src) (o1 mod 8);
     Some (b @ bs) }"

definition do_padding_widths :: "nat list \<Rightarrow> u8 list \<Rightarrow> u8 list option" where
  "do_padding_widths ws v =
     (if length ws = 1 then Some v
      else do {
        guard (length v = bytes_of_bits (sum_list ws));
        pad_loop ws v (8 * length v - sum_list ws) })"

fun do_padding :: "vset_kind \<Rightarrow> u8 list \<Rightarrow> u8 list option" where
  "do_padding VSet_Base v = Some v"
| "do_padding (VSet_NoMask ws) v = do_padding_widths ws v"
| "do_padding (VSet_Mask m ws) v = do_padding_widths ws v"

text \<open>\<^verbatim>\<open>mask_v\<close>: the mask has to be as long as the value.\<close>

fun transform_input :: "vset_kind \<Rightarrow> u8 list \<Rightarrow> u8 list option" where
  "transform_input (VSet_Mask m ws) v = (if length v \<le> length m then Some (map2 (AND) v m) else None)"
| "transform_input _ v = Some v"

definition stored :: "vset_copy \<Rightarrow> u8 list \<Rightarrow> u8 list option" where
  "stored c v = do {
     p \<leftarrow> do_padding (vc_kind c) v;
     t \<leftarrow> transform_input (vc_kind c) p;
     guard (length t = vc_width c);
     Some t }"

definition copy_add :: "u8 list \<Rightarrow> vset_copy \<Rightarrow> vset_copy option" where
  "copy_add v c = do { t \<leftarrow> stored c v; Some (c\<lparr>vc_values := insert t (vc_values c)\<rparr>) }"

definition copy_remove :: "u8 list \<Rightarrow> vset_copy \<Rightarrow> vset_copy option" where
  "copy_remove v c = do { t \<leftarrow> stored c v; Some (c\<lparr>vc_values := vc_values c - {t}\<rparr>) }"

definition copy_contains :: "u8 list \<Rightarrow> vset_copy \<Rightarrow> bool option" where
  "copy_contains v c = do {
     t \<leftarrow> transform_input (vc_kind c) v;
     guard (length v = vc_width c);
     Some (t \<in> vc_values c) }"

definition copy_clear :: "vset_copy \<Rightarrow> vset_copy" where
  "copy_clear c = c\<lparr>vc_values := {}\<rparr>"

definition copy_size :: "vset_copy \<Rightarrow> nat" where
  "copy_size c = card (vc_values c)"

section \<open>A set with its shadows\<close>

text \<open>\<^verbatim>\<open>ParseVSet\<close>: the base is the first of the copies.\<close>

type_synonym parse_vset = "vset_copy list"

definition new_vset :: "nat \<Rightarrow> parse_vset option" where
  "new_vset n = do { b \<leftarrow> new_copy VSet_Base n; Some [b] }"

definition add_shadow :: "vset_copy \<Rightarrow> parse_vset \<Rightarrow> parse_vset" where
  "add_shadow c s = s @ [c]"

definition vset_add :: "u8 list \<Rightarrow> parse_vset \<Rightarrow> parse_vset option" where
  "vset_add v s = map_opt (copy_add v) s"

definition vset_remove :: "u8 list \<Rightarrow> parse_vset \<Rightarrow> parse_vset option" where
  "vset_remove v s = map_opt (copy_remove v) s"

definition vset_clear :: "parse_vset \<Rightarrow> parse_vset" where
  "vset_clear s = map copy_clear s"

definition vset_contains :: "u8 list \<Rightarrow> parse_vset \<Rightarrow> bool option" where
  "vset_contains v s = do { b \<leftarrow> nth_opt s 0; copy_contains v b }"

definition vset_size :: "parse_vset \<Rightarrow> nat option" where
  "vset_size s = map_option copy_size (nth_opt s 0)"

section \<open>Shadows without mask\<close>

text \<open>\<open>off\<close> is where the next field starts in its first byte.\<close>

fun widths_ok :: "nat \<Rightarrow> nat list \<Rightarrow> bool" where
  "widths_ok off [] = True"
| "widths_ok off (w # ws) = (0 < w \<and> \<not> narrow_straddle off w \<and> widths_ok ((off + w) mod 8) ws)"

text \<open>The bits of the key that the fields with the bits \<open>B\<close> make.\<close>

fun key_bits :: "nat list \<Rightarrow> bool list \<Rightarrow> bool list" where
  "key_bits [] B = []"
| "key_bits (w # ws) B = padded w (take w B) @ key_bits ws (drop w B)"

definition first_bit :: "nat \<Rightarrow> nat" where
  "first_bit n = 8 * bytes_of_bits n - n"

text \<open>A value of \<open>n\<close> bits, right-aligned, zeros in front.\<close>

definition is_value :: "nat \<Rightarrow> u8 list \<Rightarrow> bool" where
  "is_value n v \<longleftrightarrow> length v = bytes_of_bits n \<and> take (first_bit n) (bits v) = replicate (first_bit n) False"

definition value_bits :: "nat \<Rightarrow> u8 list \<Rightarrow> bool list" where
  "value_bits n v = drop (first_bit n) (bits v)"

lemma pad_loop_bits:
  assumes "widths_ok off ws" "off < 8" "off + sum_list ws \<le> 8 * length src"
  shows "\<exists>r. pad_loop ws src off = Some r \<and> length r = sum_list (map bytes_of_bits ws) \<and>
    bits r = key_bits ws (drop off (bits src))"
  using assms
proof (induction ws arbitrary: off src)
  case (Cons w ws)
  define o1 where "o1 = off + w"
  obtain b where b: "generic_extract src off w = Some b" "length b = bytes_of_bits w"
    "bits b = padded w (take w (drop off (bits src)))"
    using generic_extract_bits [of w off src] Cons.prems by auto
  have "o1 mod 8 + sum_list ws \<le> 8 * length (drop (o1 div 8) src)"
  proof -
    have "8 * (o1 div 8) + o1 mod 8 = o1" by simp
    moreover have "o1 + sum_list ws \<le> 8 * length src" using Cons.prems(3) by (simp add: o1_def)
    ultimately show ?thesis by (simp only: length_drop diff_mult_distrib2)
  qed
  with Cons.IH [of "o1 mod 8" "drop (o1 div 8) src"] Cons.prems(1) obtain r where
    r: "pad_loop ws (drop (o1 div 8) src) (o1 mod 8) = Some r" "length r = sum_list (map bytes_of_bits ws)"
      "bits r = key_bits ws (drop (o1 mod 8) (bits (drop (o1 div 8) src)))"
    by (auto simp: o1_def)
  have "drop (o1 mod 8) (bits (drop (o1 div 8) src)) = drop w (drop off (bits src))"
    by (simp add: drop_bits [symmetric] o1_def add.commute)
  with b r show ?case by (simp add: o1_def [symmetric])
qed simp

lemma length_padded: "length fb = w \<Longrightarrow> length (padded w fb) = 8 * bytes_of_bits w"
  using bytes_of_bits_ge [of w] by (simp add: padded_def)

lemma key_bits_inject:
  "length B = sum_list ws \<Longrightarrow> length C = sum_list ws \<Longrightarrow> key_bits ws B = key_bits ws C \<Longrightarrow> B = C"
proof (induction ws arbitrary: B C)
  case (Cons w ws)
  then have "padded w (take w B) = padded w (take w C)" "key_bits ws (drop w B) = key_bits ws (drop w C)"
    by (auto simp: length_padded)
  with Cons have "take w B = take w C" "drop w B = drop w C" by (auto simp: padded_def)
  then show ?case by (metis append_take_drop_id)
qed simp

lemma first_bit_less: "0 < n \<Longrightarrow> first_bit n < 8"
  unfolding first_bit_def by (rule pad_bound)

lemma first_bit_add: "first_bit n + n = 8 * bytes_of_bits n"
  using bytes_of_bits_ge [of n] by (simp add: first_bit_def)

lemma value_bits_inject:
  assumes "is_value n v" "is_value n w" "value_bits n v = value_bits n w"
  shows "v = w"
proof -
  have "bits v = bits w" using assms unfolding is_value_def value_bits_def by (metis append_take_drop_id)
  then show ?thesis using assms by (simp add: is_value_def bits_inject)
qed

lemma padding_bits:
  assumes "is_value (sum_list ws) v" "widths_ok (first_bit (sum_list ws)) ws" "ws \<noteq> []"
  shows "\<exists>p. do_padding_widths ws v = Some p \<and> length p = sum_list (map bytes_of_bits ws) \<and>
    bits p = key_bits ws (value_bits (sum_list ws) v)"
proof (cases "length ws = 1")
  case True
  then obtain w where w: "ws = [w]" by (cases ws) auto
  have "bits v = replicate (first_bit w) False @ value_bits w v"
    using assms(1) w unfolding is_value_def value_bits_def by (metis append_take_drop_id sum_list_simps(2) add_0_right sum_list.Nil)
  moreover have "length (value_bits w v) = w"
    using assms(1) w first_bit_add [of w] by (simp add: is_value_def value_bits_def)
  ultimately show ?thesis
    using assms(1) w by (simp add: do_padding_widths_def is_value_def padded_def first_bit_def)
next
  case False
  have "0 < sum_list ws" using assms(2,3) by (cases ws) auto
  moreover have "length v = bytes_of_bits (sum_list ws)" using assms(1) by (simp add: is_value_def)
  ultimately show ?thesis
    using pad_loop_bits [OF assms(2) first_bit_less, of v] first_bit_add [of "sum_list ws"] False
    by (simp add: do_padding_widths_def value_bits_def first_bit_def)
qed

text \<open>What clients do, and what the set then promises to contain.\<close>

datatype vset_op = VAdd "u8 list" | VRemove "u8 list" | VClear

fun vset_step :: "vset_op \<Rightarrow> parse_vset \<Rightarrow> parse_vset option" where
  "vset_step (VAdd v) s = vset_add v s"
| "vset_step (VRemove v) s = vset_remove v s"
| "vset_step VClear s = Some (vset_clear s)"

fun set_step :: "vset_op \<Rightarrow> u8 list set \<Rightarrow> u8 list set" where
  "set_step (VAdd v) S = insert v S"
| "set_step (VRemove v) S = S - {v}"
| "set_step VClear S = {}"

fun op_values :: "vset_op \<Rightarrow> u8 list set" where
  "op_values (VAdd v) = {v}" | "op_values (VRemove v) = {v}" | "op_values VClear = {}"

definition shadowed :: "nat list \<Rightarrow> u8 list set \<Rightarrow> parse_vset \<Rightarrow> bool" where
  "shadowed ws S s \<longleftrightarrow> S \<subseteq> {v. is_value (sum_list ws) v} \<and>
     s = [\<lparr>vc_kind = VSet_Base, vc_compressed = sum_list ws, vc_values = S\<rparr>,
          \<lparr>vc_kind = VSet_NoMask ws, vc_compressed = sum_list ws, vc_values = (\<lambda>v. the (do_padding_widths ws v)) ` S\<rparr>]"

lemma shadow_step:
  assumes ws: "widths_ok (first_bit (sum_list ws)) ws" "ws \<noteq> []"
    and s: "shadowed ws S s" "\<forall>v \<in> op_values op. is_value (sum_list ws) v"
  shows "\<exists>s'. vset_step op s = Some s' \<and> shadowed ws (set_step op S) s'"
proof -
  have pad: "\<exists>p. do_padding_widths ws v = Some p \<and> length p = sum_list (map bytes_of_bits ws) \<and>
      bits p = key_bits ws (value_bits (sum_list ws) v)" if "is_value (sum_list ws) v" for v
    by (rule padding_bits [OF that ws])
  have inj: "v = w" if "is_value (sum_list ws) v" "is_value (sum_list ws) w"
    "the (do_padding_widths ws v) = the (do_padding_widths ws w)" for v w
  proof -
    have "key_bits ws (value_bits (sum_list ws) v) = key_bits ws (value_bits (sum_list ws) w)"
      using pad [OF that(1)] pad [OF that(2)] that(3) by auto
    moreover have "length (value_bits (sum_list ws) u) = sum_list ws" if "is_value (sum_list ws) u" for u
      using that first_bit_add [of "sum_list ws"] by (simp add: is_value_def value_bits_def)
    ultimately show ?thesis using key_bits_inject value_bits_inject that(1,2) by blast
  qed
  show ?thesis
  proof (cases op)
    case (VAdd v)
    then have v: "is_value (sum_list ws) v" using s(2) by simp
    with pad [OF v] VAdd s(1) show ?thesis
      by (auto simp: shadowed_def vset_add_def copy_add_def stored_def vc_width_def is_value_def)
  next
    case (VRemove v)
    then have v: "is_value (sum_list ws) v" using s(2) by simp
    have "(\<lambda>v. the (do_padding_widths ws v)) ` S - {the (do_padding_widths ws v)} = (\<lambda>v. the (do_padding_widths ws v)) ` (S - {v})"
      using s(1) inj v by (auto simp: shadowed_def)
    with pad [OF v] VRemove s(1) v show ?thesis
      by (auto simp: shadowed_def vset_remove_def copy_remove_def stored_def vc_width_def is_value_def)
  next
    case VClear
    with s(1) show ?thesis by (simp add: shadowed_def vset_clear_def copy_clear_def)
  qed
qed

lemma shadow_steps:
  assumes ws: "widths_ok (first_bit (sum_list ws)) ws" "ws \<noteq> []"
  shows "shadowed ws S s \<Longrightarrow> \<forall>op \<in> set os. \<forall>v \<in> op_values op. is_value (sum_list ws) v \<Longrightarrow>
    \<exists>s'. fold_opt vset_step os s = Some s' \<and> shadowed ws (fold set_step os S) s'"
proof (induction os arbitrary: S s)
  case (Cons op os)
  with shadow_step [OF ws Cons.prems(1), of op] show ?case by fastforce
qed auto

text \<open>
  C27: clients that add, remove and clear values of a set with one shadow never fail; afterwards the set contains the values
  that were added and not removed, and the shadow contains the key that the fields of a packet make exactly if the set
  contains the value with the bits of these fields.  The widths must be such that no field of at most a byte lies across
  two bytes of a value.
\<close>

theorem unmasked_shadow_follows:
  assumes "widths_ok (first_bit (sum_list ws)) ws" "ws \<noteq> []"
    and "\<forall>op \<in> set os. \<forall>v \<in> op_values op. is_value (sum_list ws) v"
    and "new_copy (VSet_NoMask ws) (sum_list ws) = Some c" "new_vset (sum_list ws) = Some s"
    and "is_value (sum_list ws) v" "bits k = key_bits ws (value_bits (sum_list ws) v)"
  shows "\<exists>b c'. fold_opt vset_step os (add_shadow c s) = Some [b, c'] \<and>
    copy_contains v b = Some (v \<in> fold set_step os {}) \<and> copy_contains k c' = Some (v \<in> fold set_step os {})"
proof -
  let ?P = "\<lambda>v. the (do_padding_widths ws v)" and ?S = "fold set_step os {}"
  have "shadowed ws {} (add_shadow c s)"
    using assms(2,4,5) by (auto simp: shadowed_def add_shadow_def new_copy_def new_vset_def)
  from shadow_steps [OF assms(1,2) this assms(3)] obtain s' where s': "fold_opt vset_step os (add_shadow c s) = Some s'"
    "shadowed ws ?S s'" by blast
  have pad: "\<exists>p. do_padding_widths ws u = Some p \<and> length p = sum_list (map bytes_of_bits ws) \<and>
      bits p = key_bits ws (value_bits (sum_list ws) u)" if "is_value (sum_list ws) u" for u
    by (rule padding_bits [OF that assms(1,2)])
  obtain p where p: "do_padding_widths ws v = Some p" "length p = sum_list (map bytes_of_bits ws)" "bits p = bits k"
    using pad [OF assms(6)] assms(7) by auto
  have "length p = length k" using arg_cong [OF p(3), of length] by simp
  then have k: "k = p" using p(3) bits_inject by blast
  have "k \<in> ?P ` ?S \<longleftrightarrow> v \<in> ?S"
  proof
    assume "k \<in> ?P ` ?S"
    then obtain u where u: "u \<in> ?S" "k = ?P u" by blast
    then have iu: "is_value (sum_list ws) u" using s'(2) by (auto simp: shadowed_def)
    have "key_bits ws (value_bits (sum_list ws) u) = key_bits ws (value_bits (sum_list ws) v)"
      using pad [OF iu] u(2) assms(7) by auto
    moreover have "length (value_bits (sum_list ws) u) = sum_list ws" if "is_value (sum_list ws) u" for u
      using that first_bit_add [of "sum_list ws"] by (simp add: is_value_def value_bits_def)
    ultimately have "u = v" using key_bits_inject value_bits_inject iu assms(6) by blast
    with u(1) show "v \<in> ?S" by simp
  qed (use k p(1) in force)
  then show ?thesis
    using s' assms(6) k p(2) by (simp add: shadowed_def copy_contains_def vc_width_def is_value_def)
qed

text \<open>
  two values that differ only in bits that a shadow masks out are one value there: after removing one of them, the set
  contains the other, and the shadow does not match its key any more.
\<close>

theorem masked_shadow_loses_value:
  "\<exists>c s b c'. new_copy (VSet_Mask [0xF0] [8]) 8 = Some c \<and> new_vset 8 = Some s \<and>
     fold_opt vset_step [VAdd [0x11], VAdd [0x12], VRemove [0x11]] (add_shadow c s) = Some [b, c'] \<and>
     copy_contains [0x12] b = Some True \<and> copy_contains [0x12] c' = Some False"
  by (simp add: new_copy_def new_vset_def add_shadow_def vset_add_def vset_remove_def copy_add_def copy_remove_def stored_def
      do_padding_widths_def vc_width_def bytes_of_bits_def copy_contains_def)

text \<open>
  a field of six bits that lies across two bytes of the value is padded with bits of the field before it: the set contains
  the value, the shadow does not match the key of a packet with these fields.
\<close>

theorem straddling_value_missed:
  "\<exists>c s b c'. new_copy (VSet_NoMask [3, 6, 7]) 16 = Some c \<and> new_vset 16 = Some s \<and>
     fold_opt vset_step [VAdd [0x60, 0]] (add_shadow c s) = Some [b, c'] \<and>
     bits [3, 0, 0] = key_bits [3, 6, 7] (value_bits 16 [0x60, 0]) \<and>
     copy_contains [0x60, 0] b = Some True \<and> copy_contains [3, 0, 0] c' = Some False"
proof -
  have e: "generic_extract [0x60, 0] 0 3 = Some [3]" "generic_extract [0x60, 0] 3 6 = Some [0xC0]"
    "generic_extract [0] (Suc 0) 7 = Some [0]"
    by (simp_all add: generic_extract_def bytes_of_bits_def mask_first_def Let_def)
  have pad: "do_padding_widths [3, 6, 7] [0x60, 0] = Some [3, 0xC0, 0]"
    by (simp add: do_padding_widths_def bytes_of_bits_def e Let_def)
  have "bits [3, 0, 0] = key_bits [3, 6, 7] (value_bits 16 [0x60, 0])"
    by (simp add: byte_bits_def upt_rec value_bits_def first_bit_def bytes_of_bits_def padded_def replicate_expand)
  then show ?thesis
    by (simp add: new_copy_def new_vset_def add_shadow_def vset_add_def copy_add_def stored_def pad vc_width_def
        bytes_of_bits_def copy_contains_def)
qed

theorem unmasked_shadow_follows_witness:
  "\<exists>b c'. fold_opt vset_step [VAdd [1, 2], VAdd [3, 4], VRemove [1, 2]]
      [\<lparr>vc_kind = VSet_Base, vc_compressed = 16, vc_values = {}\<rparr>,
       \<lparr>vc_kind = VSet_NoMask [16], vc_compressed = 16, vc_values = {}\<rparr>] = Some [b, c'] \<and>
     copy_contains [3, 4] b = Some True \<and> copy_contains [3, 4] c' = Some True"
proof -
  have "is_value 16 [a, b]" for a b by (simp add: is_value_def first_bit_def bytes_of_bits_def)
  moreover have "bits [3, 4] = key_bits [16] (value_bits 16 [3, 4])"
    by (simp add: value_bits_def first_bit_def bytes_of_bits_def padded_def)
  ultimately show ?thesis
    using unmasked_shadow_follows [of "[16]" "[VAdd [1, 2], VAdd [3, 4], VRemove [1, 2]]"
        "\<lparr>vc_kind = VSet_NoMask [16], vc_compressed = 16, vc_values = {}\<rparr>"
        "[\<lparr>vc_kind = VSet_Base, vc_compressed = 16, vc_values = {}\<rparr>]" "[3, 4]" "[3, 4]"]
    by (simp add: narrow_straddle_def bytes_of_bits_def first_bit_def new_copy_def new_vset_def add_shadow_def)
qed

end
