(* ===== verification/Parser.thy ===== *)
theory Parser
  imports Actions Value_Sets Parser_Errors
begin

text \<open>
  The parser: parser.h and parser.cpp.  A parser walks a graph of states; each state runs its operations on the packet
  from the position reached, then builds a key and takes the first of its cases that matches.  An operation either goes
  on, possibly further in the packet, or raises an exception; what it changed before stays.
  The theorems: a parser of states that extract headers of fixed size, shift and set fields never reads past the length of
  the packet; if every state moves on, parsing ends within as many steps as the packet has bytes; extracting a
  variable-length header with a length expression of its own is not checked against the length of the packet.
\<close>

section \<open>State\<close>

record look_ahead =
  byte_offset :: nat
  bit_offset :: nat
  la_bitwidth :: nat
  la_nbytes :: nat

definition make_look_ahead :: "nat \<Rightarrow> nat \<Rightarrow> look_ahead" where
  "make_look_ahead offset w = \<lparr>byte_offset = offset div 8, bit_offset = offset mod 8, la_bitwidth = w, la_nbytes = (w + 7) div 8\<rparr>"

text \<open>\<open>data\<close> is the packet from the position reached on, up to the end of the buffer.\<close>

definition peek :: "look_ahead \<Rightarrow> u8 list \<Rightarrow> u8 list option" where
  "peek la data = generic_extract (drop (byte_offset la) data) (bit_offset la) (la_bitwidth la)"

datatype parser_op =
    OpSetField "nat \<times> nat" "nat \<times> nat"
  | OpSetData "nat \<times> nat" data
  | OpSetLookAhead "nat \<times> nat" look_ahead
  | OpSetExpression "nat \<times> nat" expression
  | OpExtract nat
  | OpExtractVL nat expression nat
  | OpExtractStack nat
  | OpExtractUnionStack nat nat
  | OpVerify expression expression
  | OpMethodCall action_body
  | OpShift nat

datatype key_entry =
    KField nat nat
  | KLookAhead look_ahead
  | KStackField nat nat
  | KUnionStackField nat nat nat

text \<open>The states are numbered; a value set case names the set and its shadow.\<close>

datatype switch_case =
    KeyCase "u8 list" "nat option"
  | MaskCase "u8 list" "u8 list" "nat option"
  | VSetCase nat nat "nat option"

record parse_state =
  parser_ops :: "parser_op list"
  ps_sync :: register_sync
  has_switch :: bool
  key_builder :: "key_entry list"
  key_widths :: "nat list"
  parser_switch :: "switch_case list"
  default_next :: "nat option"

text \<open>
  What a parser needs beside the packet: the states, the value sets, the error codes, the expressions of the lengths of
  headers, and what actions need.
\<close>

record 'r parser_env =
  pe_states :: "parse_state list"
  pe_vsets :: "parse_vset list"
  pe_errors :: error_codes
  pe_VL_exprs :: "nat \<rightharpoonup> expression"
  pe_action :: "'r action_env"

section \<open>Building a parser\<close>

definition new_state :: parse_state where
  "new_state = \<lparr>parser_ops = [], ps_sync = [], has_switch = False, key_builder = [], key_widths = [], parser_switch = [],
     default_next = None\<rparr>"

definition add_op :: "parser_op \<Rightarrow> parse_state \<Rightarrow> parse_state" where
  "add_op x s = s\<lparr>parser_ops := parser_ops s @ [x]\<rparr>"

definition add_set_from_expression :: "nat \<times> nat \<Rightarrow> expression \<Rightarrow> parse_state \<Rightarrow> parse_state" where
  "add_set_from_expression d e s = add_op (OpSetExpression d e) (s\<lparr>ps_sync := grab_register_accesses e (ps_sync s)\<rparr>)"

definition add_method_call :: "action_body \<Rightarrow> parse_state \<Rightarrow> parse_state" where
  "add_method_call a s = add_op (OpMethodCall a) (s\<lparr>ps_sync := merge_from (ab_sync a) (ps_sync s)\<rparr>)"

definition push_key :: "key_entry \<Rightarrow> nat \<Rightarrow> key_entry list \<times> nat list \<Rightarrow> key_entry list \<times> nat list" where
  "push_key e w b = (fst b @ [e], snd b @ [w])"

definition set_key_builder :: "key_entry list \<times> nat list \<Rightarrow> parse_state \<Rightarrow> parse_state" where
  "set_key_builder b s = s\<lparr>has_switch := True, key_builder := fst b, key_widths := snd b\<rparr>"

definition add_case :: "switch_case \<Rightarrow> parse_state \<Rightarrow> parse_state" where
  "add_case c s = s\<lparr>parser_switch := parser_switch s @ [c]\<rparr>"

text \<open>A case with a mask masks its key once.\<close>

definition make_case_with_mask :: "u8 list \<Rightarrow> u8 list \<Rightarrow> nat option \<Rightarrow> switch_case option" where
  "make_case_with_mask k m nxt = do { guard (length k = length m); Some (MaskCase (map2 (AND) k m) m nxt) }"

definition add_switch_case_vset ::
  "nat \<Rightarrow> u8 list option \<Rightarrow> nat option \<Rightarrow> parse_vset list \<Rightarrow> parse_state \<Rightarrow> (parse_vset list \<times> parse_state) option" where
  "add_switch_case_vset v m nxt sets s = do {
     set0 \<leftarrow> nth_opt sets v;
     b \<leftarrow> nth_opt set0 0;
     c \<leftarrow> new_copy (case m of None \<Rightarrow> VSet_NoMask (key_widths s) | Some k \<Rightarrow> VSet_Mask k (key_widths s)) (vc_compressed b);
     Some (sets[v := add_shadow c set0], add_case (VSetCase v (length set0) nxt) s) }"

definition set_default_switch_case :: "nat option \<Rightarrow> parse_state \<Rightarrow> parse_state" where
  "set_default_switch_case nxt s = s\<lparr>default_next := nxt\<rparr>"

section \<open>Operations\<close>

text \<open>
  What an operation makes of a packet and of the number of bytes parsed, and the exception if it raises one.  \<open>None\<close> is a
  failed assert or a read outside the buffer.
\<close>

type_synonym 'r op_result = "parser_exception option \<times> 'r switch_state \<times> nat"

definition go_on :: "nat \<Rightarrow> 'r switch_state option \<Rightarrow> 'r op_result option" where
  "go_on n r = map_option (\<lambda>st. (None, st, n)) r"

definition raise :: "parser_exception \<Rightarrow> nat \<Rightarrow> 'r switch_state \<Rightarrow> 'r op_result option" where
  "raise e n st = Some (Some e, st, n)"

text \<open>\<^verbatim>\<open>get_ingress_length() - bytes_parsed\<close>, as an unsigned number.\<close>

definition bytes_left :: "'r switch_state \<Rightarrow> nat \<Rightarrow> nat" where
  "bytes_left st n = nat ((ingress_length (sw_pkt st) - int n) mod 2 ^ 64)"

definition size_of_int :: "int \<Rightarrow> nat" where
  "size_of_int v = nat (v mod 2 ^ 64)"

text \<open>\<^verbatim>\<open>Header::extract\<close> and \<^verbatim>\<open>Header::extract_VL\<close> inside the header vector.\<close>

definition extract_into :: "nat \<Rightarrow> (nat \<times> int) option \<Rightarrow> u8 list \<Rightarrow> phv \<Rightarrow> phv option" where
  "extract_into i vl data p = do {
     h \<leftarrow> nth_opt (headers p) i;
     fs \<leftarrow> extract_fields vl 0 (hfields h) data 0;
     h1 \<leftarrow> (if vl = None then Some (h\<lparr>hfields := fs\<rparr>) else recompute_nbytes_packet (h\<lparr>hfields := fs\<rparr>));
     mark_valid i (put_header i h1 p) }"

text \<open>The length of a variable-length field is computed when its turn comes, with the fields before it in place.\<close>

definition own_length :: "(nat \<rightharpoonup> expression) \<Rightarrow> nat \<Rightarrow> u8 list \<Rightarrow> 'r switch_state \<Rightarrow> (nat \<times> int) option option" where
  "own_length ve i data st = do {
     h \<leftarrow> nth_opt (headers (sw_phv st)) i;
     (case VL_offset (htype h) of
        None \<Rightarrow> Some None
      | Some o1 \<Rightarrow> do {
          e \<leftarrow> ve i;
          fs \<leftarrow> extract_fields None 0 (take o1 (hfields h)) data 0;
          let p1 = put_header i (h\<lparr>hfields := fs @ drop o1 (hfields h)\<rparr>) (sw_phv st);
          v \<leftarrow> eval_arith (action_eval_env [] (set_phv p1 st)) e [];
          n \<leftarrow> get_int (data_of v);
          Some (Some (o1, n)) }) }"

definition check_enough :: "nat \<Rightarrow> header \<Rightarrow> 'r switch_state \<Rightarrow> bool" where
  "check_enough n h st \<longleftrightarrow> size_of_int (nbytes_packet h) \<le> bytes_left st n"

definition extract_checked :: "'r parser_env \<Rightarrow> nat \<Rightarrow> u8 list \<Rightarrow> nat \<Rightarrow> 'r switch_state \<Rightarrow> 'r op_result option" where
  "extract_checked env i data n st = do {
     h \<leftarrow> nth_opt (headers (sw_phv st)) i;
     if \<not> check_enough n h st then raise (Core PacketTooShort) n st
     else do {
       vl \<leftarrow> own_length (pe_VL_exprs env) i data st;
       st1 \<leftarrow> on_phv (extract_into i vl data) st;
       h1 \<leftarrow> nth_opt (headers (sw_phv st1)) i;
       Some (None, st1, n + size_of_int (nbytes_packet h1)) } }"

definition extract_header :: "'r parser_env \<Rightarrow> nat \<Rightarrow> u8 list \<Rightarrow> nat \<Rightarrow> 'r switch_state \<Rightarrow> 'r op_result option" where
  "extract_header env i data n st = do {
     h \<leftarrow> nth_opt (headers (sw_phv st)) i;
     if is_valid h then raise (Core OverwritingHeader) n st else extract_checked env i data n st }"

text \<open>The length is an \<^verbatim>\<open>int\<close>; the header counts its variable-length field as empty.\<close>

definition extract_VL :: "nat \<Rightarrow> expression \<Rightarrow> nat \<Rightarrow> u8 list \<Rightarrow> nat \<Rightarrow> 'r switch_state \<Rightarrow> 'r op_result option" where
  "extract_VL i e max_bytes data n st = do {
     h \<leftarrow> nth_opt (headers (sw_phv st)) i;
     o1 \<leftarrow> VL_offset (htype h);
     if is_valid h then raise (Core OverwritingHeader) n st
     else do {
       v \<leftarrow> eval_arith (action_eval_env [] st) e [];
       b \<leftarrow> get_int (data_of v);
       guard (b mod 8 = 0);
       let need = size_of_int (nbytes_packet h + b div 8);
       if bytes_left st n < need then raise (Core PacketTooShort) n st
       else if max_bytes \<noteq> 0 \<and> max_bytes < need then raise (Core HeaderTooShort) n st
       else do {
         st1 \<leftarrow> on_phv (extract_into i (Some (o1, b)) data) st;
         h1 \<leftarrow> nth_opt (headers (sw_phv st1)) i;
         Some (None, st1, n + size_of_int (nbytes_packet h1)) } } }"

definition stack_push_back :: "nat \<Rightarrow> phv \<Rightarrow> phv option" where
  "stack_push_back s p = do {
     st \<leftarrow> nth_opt (header_stacks p) s;
     (_, st', p') \<leftarrow> push_back mark_valid st p;
     Some (p'\<lparr>header_stacks := (header_stacks p')[s := st']\<rparr>) }"

definition union_stack_push_back :: "nat \<Rightarrow> phv \<Rightarrow> phv option" where
  "union_stack_push_back s p = do {
     st \<leftarrow> nth_opt (header_union_stacks p) s;
     (_, st', p') \<leftarrow> push_back union_mark st p;
     Some (p'\<lparr>header_union_stacks := (header_union_stacks p')[s := st']\<rparr>) }"

text \<open>The two extractions to a stack: the next element, then the stack grows.\<close>

definition then_push :: "(phv \<Rightarrow> phv option) \<Rightarrow> 'r op_result option \<Rightarrow> 'r op_result option" where
  "then_push g r = do {
     (e, st, n) \<leftarrow> r;
     if e \<noteq> None then Some (e, st, n) else do { st' \<leftarrow> on_phv g st; Some (None, st', n) } }"

definition extract_stack :: "'r parser_env \<Rightarrow> nat \<Rightarrow> u8 list \<Rightarrow> nat \<Rightarrow> 'r switch_state \<Rightarrow> 'r op_result option" where
  "extract_stack env s data n st = do {
     stk \<leftarrow> nth_opt (header_stacks (sw_phv st)) s;
     if is_full stk then raise (Core StackOutOfBounds) n st
     else do {
       i \<leftarrow> get_next stk;
       then_push (stack_push_back s) (extract_checked env i data n st) } }"

definition extract_union_stack :: "'r parser_env \<Rightarrow> nat \<Rightarrow> nat \<Rightarrow> u8 list \<Rightarrow> nat \<Rightarrow> 'r switch_state \<Rightarrow> 'r op_result option" where
  "extract_union_stack env s o1 data n st = do {
     stk \<leftarrow> nth_opt (header_union_stacks (sw_phv st)) s;
     if is_full stk then raise (Core StackOutOfBounds) n st
     else do {
       u \<leftarrow> get_next stk;
       un \<leftarrow> nth_opt (header_unions (sw_phv st)) u;
       i \<leftarrow> nth_opt (u_headers un) o1;
       then_push (union_stack_push_back s) (extract_checked env i data n st) } }"

definition set_from_field :: "nat \<times> nat \<Rightarrow> nat \<times> nat \<Rightarrow> phv \<Rightarrow> phv option" where
  "set_from_field d s p = do {
     f \<leftarrow> phv_get_field p (fst d) (snd d);
     g \<leftarrow> phv_get_field p (fst s) (snd s);
     if VL f then do { guard (VL g); assign_VL_field d s p }
     else write_field (fst d) (snd d) (dval g) p }"

text \<open>A field of the width looked ahead gets the bytes, another one their value.\<close>

definition set_from_look_ahead :: "nat \<times> nat \<Rightarrow> look_ahead \<Rightarrow> u8 list \<Rightarrow> phv \<Rightarrow> phv option" where
  "set_from_look_ahead d la data p = do {
     f \<leftarrow> phv_get_field p (fst d) (snd d);
     if la_bitwidth la = nbits f then do {
       f' \<leftarrow> field_extract f (drop (byte_offset la) data) (bit_offset la);
       put_field (fst d) (snd d) f' p }
     else do { bs \<leftarrow> peek la data; write_field (fst d) (snd d) (import_bytes bs) p } }"

fun run_op :: "'r parser_env \<Rightarrow> parser_op \<Rightarrow> u8 list \<Rightarrow> nat \<Rightarrow> 'r switch_state \<Rightarrow> 'r op_result option" where
  "run_op env (OpSetField d s) data n st = go_on n (on_phv (set_from_field d s) st)"
| "run_op env (OpSetData d v) data n st = go_on n (on_phv (write_field (fst d) (snd d) (dval v)) st)"
| "run_op env (OpSetLookAhead d la) data n st =
     (if bytes_left st n < la_nbytes la then raise (Core PacketTooShort) n st
      else go_on n (on_phv (set_from_look_ahead d la data) st))"
| "run_op env (OpSetExpression d e) data n st = do {
     v \<leftarrow> eval_arith (action_eval_env [] st) e [];
     go_on n (on_phv (write_field (fst d) (snd d) v) st) }"
| "run_op env (OpExtract i) data n st = extract_header env i data n st"
| "run_op env (OpExtractVL i e m) data n st = extract_VL i e m data n st"
| "run_op env (OpExtractStack s) data n st = extract_stack env s data n st"
| "run_op env (OpExtractUnionStack s o1) data n st = extract_union_stack env s o1 data n st"
| "run_op env (OpVerify c e) data n st = do {
     b \<leftarrow> eval_bool (action_eval_env [] st) c [];
     if b then Some (None, st, n)
     else do { v \<leftarrow> eval_arith (action_eval_env [] st) e []; x \<leftarrow> get_int (data_of v); raise (Arch x) n st } }"
| "run_op env (OpMethodCall a) data n st = go_on n (execute_action (pe_action env) a [] st)"
| "run_op env (OpShift k) data n st =
     (if bytes_left st n < k then raise (Core PacketTooShort) n st else Some (None, st, n + k))"

fun run_ops :: "'r parser_env \<Rightarrow> parser_op list \<Rightarrow> u8 list \<Rightarrow> nat \<Rightarrow> 'r switch_state \<Rightarrow> 'r op_result option" where
  "run_ops env [] data n st = Some (None, st, n)"
| "run_ops env (x # xs) data n st = do {
     (e, st1, n1) \<leftarrow> run_op env x (drop n data) n st;
     if e \<noteq> None then Some (e, st1, n1) else run_ops env xs data n1 st1 }"

section \<open>Choosing the next state\<close>

fun key_part :: "phv \<Rightarrow> u8 list \<Rightarrow> key_entry \<Rightarrow> u8 list option" where
  "key_part p data (KField h f) = map_option fbytes (phv_get_field p h f)"
| "key_part p data (KStackField s f) = do {
     stk \<leftarrow> nth_opt (header_stacks p) s; h \<leftarrow> get_last stk; map_option fbytes (phv_get_field p h f) }"
| "key_part p data (KLookAhead la) = peek la data"
| "key_part p data (KUnionStackField s o1 f) = do {
     stk \<leftarrow> nth_opt (header_union_stacks p) s; u \<leftarrow> get_last stk; un \<leftarrow> nth_opt (header_unions p) u;
     h \<leftarrow> nth_opt (u_headers un) o1; map_option fbytes (phv_get_field p h f) }"

definition parser_key :: "phv \<Rightarrow> u8 list \<Rightarrow> key_entry list \<Rightarrow> u8 list option" where
  "parser_key p data es = map_option concat (map_opt (key_part p data) es)"

text \<open>The loop of a case with a mask stops at the first difference.\<close>

fun masked_match :: "u8 list \<Rightarrow> u8 list \<Rightarrow> u8 list \<Rightarrow> bool option" where
  "masked_match [] ms xs = Some True"
| "masked_match (k # ks) (m # ms) (x # xs) = (if k = x AND m then masked_match ks ms xs else Some False)"
| "masked_match _ _ _ = None"

fun match_case :: "parse_vset list \<Rightarrow> u8 list \<Rightarrow> switch_case \<Rightarrow> (bool \<times> nat option) option" where
  "match_case sets key (KeyCase k nxt) = Some (k = key, nxt)"
| "match_case sets key (MaskCase k m nxt) = do { b \<leftarrow> masked_match k m key; Some (b, nxt) }"
| "match_case sets key (VSetCase v s nxt) = do {
     set0 \<leftarrow> nth_opt sets v; c \<leftarrow> nth_opt set0 s; b \<leftarrow> copy_contains key c; Some (b, nxt) }"

fun first_match :: "parse_vset list \<Rightarrow> u8 list \<Rightarrow> nat option \<Rightarrow> switch_case list \<Rightarrow> nat option option" where
  "first_match sets key d [] = Some d"
| "first_match sets key d (c # cs) = do {
     (b, nxt) \<leftarrow> match_case sets key c; if b then Some nxt else first_match sets key d cs }"

text \<open>\<^verbatim>\<open>find_next_state\<close>: the exception or the next state.\<close>

definition find_next_state ::
  "'r parser_env \<Rightarrow> parse_state \<Rightarrow> u8 list \<Rightarrow> nat \<Rightarrow> 'r switch_state \<Rightarrow> ((parser_exception + nat option) \<times> 'r switch_state \<times> nat) option" where
  "find_next_state env s data n st = do {
     (e, st1, n1) \<leftarrow> run_ops env (parser_ops s) data n st;
     (case e of
        Some x \<Rightarrow> Some (Inl x, st1, n1)
      | None \<Rightarrow>
          if \<not> has_switch s then Some (Inr (default_next s), st1, n1)
          else do {
            key \<leftarrow> parser_key (sw_phv st1) (drop n1 data) (key_builder s);
            nxt \<leftarrow> first_match (pe_vsets env) key (default_next s) (parser_switch s);
            Some (Inr nxt, st1, n1) }) }"

section \<open>Parsing\<close>

text \<open>The loop over the states, with a bound on the number of rounds.\<close>

datatype 'r parse_outcome = Parsed "parser_exception option" "'r switch_state" nat | Stuck | Out_of_fuel

fun parse_loop :: "nat \<Rightarrow> 'r parser_env \<Rightarrow> nat option \<Rightarrow> u8 list \<Rightarrow> nat \<Rightarrow> 'r switch_state \<Rightarrow> 'r parse_outcome" where
  "parse_loop fuel env None data n st = Parsed None st n"
| "parse_loop 0 env (Some s) data n st = Out_of_fuel"
| "parse_loop (Suc fuel) env (Some s) data n st =
     (case do { x \<leftarrow> nth_opt (pe_states env) s; find_next_state env x data n st } of
        None \<Rightarrow> Stuck
      | Some (Inl e, st1, n1) \<Rightarrow> Parsed (Some e) st1 n1
      | Some (Inr nxt, st1, n1) \<Rightarrow> parse_loop fuel env nxt data n1 st1)"

definition set_error_code :: "int \<Rightarrow> 'r switch_state \<Rightarrow> 'r switch_state" where
  "set_error_code v st = st\<lparr>sw_pkt := (sw_pkt st)\<lparr>error_code := v\<rparr>\<rparr>"

text \<open>
  \<^verbatim>\<open>Parser::parse\<close>.  The outcome of the loop, then the bytes parsed are taken off the packet.  The code of an exception
  needs a name, which is logged.
\<close>

definition finish_parse :: "error_codes \<Rightarrow> 'r parse_outcome \<Rightarrow> 'r switch_state option" where
  "finish_parse m r = (case r of
       Parsed e st n \<Rightarrow> do {
         st1 \<leftarrow> (case e of None \<Rightarrow> Some st | Some x \<Rightarrow> do { v \<leftarrow> exception_code m x; to_name v m; Some (set_error_code v st) });
         p \<leftarrow> remove_bytes n (sw_pkt st1);
         Some (st1\<lparr>sw_pkt := p\<rparr>) }
     | _ \<Rightarrow> None)"

definition parse :: "nat \<Rightarrow> 'r parser_env \<Rightarrow> nat option \<Rightarrow> 'r switch_state \<Rightarrow> 'r switch_state option" where
  "parse fuel env init st = do {
     v \<leftarrow> from_core NoError (pe_errors env);
     let st1 = set_error_code v st;
     if init = None then Some st1
     else finish_parse (pe_errors env) (parse_loop fuel env init (pb_data (buffer (sw_pkt st))) 0 st1) }"

section \<open>Sizes do not change\<close>

definition hsize :: "header \<Rightarrow> nat option \<times> int \<times> bool list" where
  "hsize h = (VL_offset (htype h), nbytes_packet h, map VL (hfields h))"

definition same_sizes :: "phv \<Rightarrow> phv \<Rightarrow> bool" where
  "same_sizes p p' \<longleftrightarrow> map hsize (headers p') = map hsize (headers p)"

lemma same_sizes_refl [simp]: "same_sizes p p" by (simp add: same_sizes_def)

lemma same_sizes_trans [trans]: "same_sizes p q \<Longrightarrow> same_sizes q r \<Longrightarrow> same_sizes p r"
  by (simp add: same_sizes_def)

lemma same_sizes_put:
  assumes "nth_opt (headers p) i = Some h" "hsize h' = hsize h"
  shows "same_sizes p (put_header i h' p)"
  using assms by (auto simp: same_sizes_def put_header_def nth_opt_Some_iff map_update intro!: nth_equalityI simp: nth_list_update)

lemma same_sizes_nth:
  assumes "same_sizes p q" "nth_opt (headers q) i = Some h'"
  shows "\<exists>h. nth_opt (headers p) i = Some h \<and> hsize h' = hsize h"
proof -
  have i: "i < length (headers q)" "headers q ! i = h'" using assms(2) by (auto simp: nth_opt_Some_iff)
  moreover have l: "length (headers q) = length (headers p)" using assms(1) unfolding same_sizes_def by (metis length_map)
  moreover have "hsize (headers q ! i) = hsize (headers p ! i)"
    using assms(1) i(1) l unfolding same_sizes_def by (metis nth_map)
  ultimately show ?thesis by (auto simp: nth_opt_Some_iff)
qed

lemma put_union_sizes [simp]: "same_sizes p (put_union u un p)"
  by (simp add: same_sizes_def put_union_def)

lemma set_validity_hsize: "set_validity b h = Some h' \<Longrightarrow> hsize h' = hsize h"
proof -
  assume s: "set_validity b h = Some h'"
  then obtain vf where vf: "hfields h \<noteq> []" "field_set (last (hfields h)) (if b then 1 else 0) = Some vf"
    "h' = h\<lparr>valid_flag := b, hfields := butlast (hfields h) @ [vf]\<rparr>"
    by (auto simp: set_validity_def bind_eq_Some_iff guard_def split: if_splits)
  have "map VL (butlast (hfields h) @ [vf]) = map VL (butlast (hfields h) @ [last (hfields h)])"
    using field_set_frame [OF vf(2)] by simp
  then show ?thesis using vf(1,3) by (simp add: hsize_def)
qed

lemma mark_invalid_sizes: "mark_invalid i p = Some p' \<Longrightarrow> same_sizes p p'"
  unfolding mark_invalid_def make_header_invalid_def Let_def
  by (auto simp: bind_eq_Some_iff split: option.splits if_splits
      intro!: same_sizes_put set_validity_hsize same_sizes_trans [OF same_sizes_put put_union_sizes])

lemma make_header_valid_sizes: "make_header_valid u idx p = Some p' \<Longrightarrow> same_sizes p p'"
  unfolding make_header_valid_def
  by (auto simp: bind_eq_Some_iff split: if_splits intro: same_sizes_trans [OF mark_invalid_sizes put_union_sizes])

lemma mark_valid_sizes:
  assumes "mark_valid i p = Some p'"
  shows "same_sizes p p'"
proof -
  from assms obtain h h' where h: "nth_opt (headers p) i = Some h" "set_validity True h = Some h'"
    by (auto simp: mark_valid_def bind_eq_Some_iff)
  have s: "same_sizes p (put_header i h' p)" by (rule same_sizes_put [OF h(1) set_validity_hsize [OF h(2)]])
  show ?thesis
  proof (cases "union_membership h")
    case None
    then show ?thesis using assms h s by (simp add: mark_valid_def)
  next
    case (Some m)
    obtain u idx where m: "m = (u, idx)" by (cases m)
    then have "make_header_valid u idx (put_header i h' p) = Some p'" using assms h Some by (simp add: mark_valid_def)
    then show ?thesis by (rule same_sizes_trans [OF s make_header_valid_sizes])
  qed
qed

lemma field_extract_VL_flag: "field_extract f data off = Some f' \<Longrightarrow> VL f' = VL f"
  by (auto simp: field_extract_def sync_value_def bind_eq_Some_iff Let_def guard_def split: if_splits)

lemma extract_fields_VL_flags:
  "extract_fields None i fs data off = Some fs' \<Longrightarrow> map VL fs' = map VL fs"
  by (induction fs arbitrary: i data off fs')
    (auto simp: bind_eq_Some_iff Let_def split: if_splits dest: field_extract_VL_flag)

lemma extract_into_sizes:
  assumes "extract_into i None data p = Some p'"
  shows "same_sizes p p'"
proof -
  from assms obtain h fs where h: "nth_opt (headers p) i = Some h" "extract_fields None 0 (hfields h) data 0 = Some fs"
    "mark_valid i (put_header i (h\<lparr>hfields := fs\<rparr>) p) = Some p'"
    by (auto simp: extract_into_def bind_eq_Some_iff)
  have "same_sizes p (put_header i (h\<lparr>hfields := fs\<rparr>) p)"
    by (rule same_sizes_put [OF h(1)]) (use extract_fields_VL_flags [OF h(2)] in \<open>simp add: hsize_def\<close>)
  also have "same_sizes \<dots> p'" by (rule mark_valid_sizes [OF h(3)])
  finally show ?thesis .
qed

lemma put_field_sizes:
  assumes "phv_get_field p h f = Some fd" "VL fd' = VL fd" "put_field h f fd' p = Some p'"
  shows "same_sizes p p'"
proof -
  obtain hd where hd: "nth_opt (headers p) h = Some hd" "nth_opt (hfields hd) f = Some fd"
    using assms(1) by (auto simp: phv_get_field_def bind_eq_Some_iff)
  have "map VL ((hfields hd)[f := fd']) = map VL (hfields hd)"
    using hd(2) assms(2) by (auto simp: nth_opt_Some_iff nth_list_update split: if_splits intro!: nth_equalityI)
  then have "same_sizes p (put_header h (hd\<lparr>hfields := (hfields hd)[f := fd']\<rparr>) p)"
    by (intro same_sizes_put [OF hd(1)]) (simp add: hsize_def)
  then show ?thesis using assms(3) hd by (auto simp: put_field_def)
qed

lemma write_field_sizes: "write_field h f v p = Some p' \<Longrightarrow> same_sizes p p'"
  by (auto simp: write_field_def bind_eq_Some_iff intro: put_field_sizes dest: field_set_frame)

section \<open>Parsing stays in the packet and ends\<close>

text \<open>Every header has a fixed size and no variable-length field.\<close>

definition fixed_sizes :: "phv \<Rightarrow> bool" where
  "fixed_sizes p \<longleftrightarrow> (\<forall>h \<in> set (headers p). VL_offset (htype h) = None \<and> 0 \<le> nbytes_packet h \<and> nbytes_packet h < 2 ^ 31 \<and>
     (\<forall>f \<in> set (hfields h). \<not> VL f))"

lemma fixed_sizes_hsize:
  "fixed_sizes p \<longleftrightarrow> (\<forall>(o1, n, vs) \<in> set (map hsize (headers p)). o1 = None \<and> 0 \<le> n \<and> n < 2 ^ 31 \<and> True \<notin> set vs)"
  by (auto simp: fixed_sizes_def hsize_def)

lemma same_sizes_fixed: "same_sizes p q \<Longrightarrow> fixed_sizes p \<Longrightarrow> fixed_sizes q"
  unfolding fixed_sizes_hsize same_sizes_def by (simp only:)

text \<open>What an operation other than a method call keeps: the buffer, the length, the sizes of the headers.\<close>

definition same_packet :: "'r switch_state \<Rightarrow> 'r switch_state \<Rightarrow> bool" where
  "same_packet st st' \<longleftrightarrow> same_sizes (sw_phv st) (sw_phv st') \<and> ingress_length (sw_pkt st') = ingress_length (sw_pkt st) \<and>
     buffer (sw_pkt st') = buffer (sw_pkt st) \<and> payload_size (sw_pkt st') = payload_size (sw_pkt st)"

lemma same_packet_refl [simp]: "same_packet st st" by (simp add: same_packet_def)

lemma same_packet_trans: "same_packet a b \<Longrightarrow> same_packet b c \<Longrightarrow> same_packet a c"
  by (auto simp: same_packet_def intro: same_sizes_trans)

lemma on_phv_same:
  "on_phv g st = Some st' \<Longrightarrow> (\<And>p p'. p = sw_phv st \<Longrightarrow> g p = Some p' \<Longrightarrow> same_sizes p p') \<Longrightarrow> same_packet st st'"
  by (auto simp: on_phv_def bind_eq_Some_iff same_packet_def set_phv_def sw_phv_def)

lemma set_from_field_sizes:
  assumes "fixed_sizes p" "set_from_field d s p = Some p'"
  shows "same_sizes p p'"
proof -
  obtain f where f: "phv_get_field p (fst d) (snd d) = Some f" using assms(2) by (auto simp: set_from_field_def bind_eq_Some_iff)
  have "\<not> VL f" using f assms(1)
    by (auto simp: phv_get_field_def bind_eq_Some_iff nth_opt_Some_iff fixed_sizes_def) (meson nth_mem)
  with f assms(2) show ?thesis by (auto simp: set_from_field_def bind_eq_Some_iff intro: write_field_sizes)
qed

lemma set_from_look_ahead_sizes: "set_from_look_ahead d la data p = Some p' \<Longrightarrow> same_sizes p p'"
  by (auto simp: set_from_look_ahead_def bind_eq_Some_iff split: if_splits
      intro: write_field_sizes put_field_sizes dest: field_extract_VL_flag)

lemma same_sizes_stacks [simp]: "same_sizes p (q\<lparr>header_stacks := s\<rparr>) = same_sizes p q"
  "same_sizes p (q\<lparr>header_union_stacks := s\<rparr>) = same_sizes p q"
  by (simp_all add: same_sizes_def)

lemma stack_push_back_sizes: "stack_push_back s p = Some p' \<Longrightarrow> same_sizes p p'"
  by (auto simp: stack_push_back_def push_back_def on_element_def bind_eq_Some_iff split: if_splits intro: mark_valid_sizes)

lemma union_stack_push_back_sizes: "union_stack_push_back s p = Some p' \<Longrightarrow> same_sizes p p'"
  by (auto simp: union_stack_push_back_def push_back_def on_element_def union_mark_def bind_eq_Some_iff split: if_splits)

text \<open>The position is in the packet and the sizes are fixed.\<close>

definition inside :: "'r switch_state \<Rightarrow> nat \<Rightarrow> bool" where
  "inside st n \<longleftrightarrow> fixed_sizes (sw_phv st) \<and> int n \<le> ingress_length (sw_pkt st) \<and> ingress_length (sw_pkt st) < 2 ^ 31"

lemma bytes_left_inside: "inside st n \<Longrightarrow> bytes_left st n = nat (ingress_length (sw_pkt st)) - n"
  by (auto simp: inside_def bytes_left_def)

lemma inside_same: "inside st n \<Longrightarrow> same_packet st st' \<Longrightarrow> inside st' n"
  by (auto simp: inside_def same_packet_def intro: same_sizes_fixed)

definition moves :: "'r switch_state \<Rightarrow> nat \<Rightarrow> 'r op_result \<Rightarrow> bool" where
  "moves st n r \<longleftrightarrow> (case r of (e, st', n') \<Rightarrow> same_packet st st' \<and> n \<le> n' \<and> inside st' n')"

lemma moves_stay: "inside st n \<Longrightarrow> same_packet st st' \<Longrightarrow> moves st n (e, st', n)"
  by (simp add: moves_def inside_same)

text \<open>An extraction moves on by the size of the header.\<close>

lemma extract_checked_moves:
  assumes "inside st n" "extract_checked env i data n st = Some r"
  shows "moves st n r \<and> (\<forall>st' n'. r = (None, st', n') \<longrightarrow>
    (\<exists>h. nth_opt (headers (sw_phv st)) i = Some h \<and> n' = n + nat (nbytes_packet h)))"
proof -
  obtain h where h: "nth_opt (headers (sw_phv st)) i = Some h" using assms(2) by (auto simp: extract_checked_def bind_eq_Some_iff)
  then have b: "0 \<le> nbytes_packet h" "nbytes_packet h < 2 ^ 31" "VL_offset (htype h) = None"
    using assms(1) by (auto simp: inside_def fixed_sizes_def nth_opt_Some_iff)
  have own: "own_length ve i data st = Some None" for ve using h b(3) by (simp add: own_length_def)
  show ?thesis
  proof (cases "check_enough n h st")
    case False
    then have "r = (Some (Core PacketTooShort), st, n)" using assms(2) h by (simp add: extract_checked_def raise_def)
    then show ?thesis using moves_stay [OF assms(1)] by simp
  next
    case True
    then obtain st1 h1 where s: "on_phv (extract_into i None data) st = Some st1" "nth_opt (headers (sw_phv st1)) i = Some h1"
      "r = (None, st1, n + size_of_int (nbytes_packet h1))"
      using assms(2) h by (auto simp: extract_checked_def own bind_eq_Some_iff)
    have same: "same_packet st st1" by (rule on_phv_same [OF s(1)]) (simp add: extract_into_sizes)
    then have "same_sizes (sw_phv st) (sw_phv st1)" by (simp add: same_packet_def)
    from same_sizes_nth [OF this s(2)] have "hsize h1 = hsize h" using h by simp
    then have n1: "size_of_int (nbytes_packet h1) = nat (nbytes_packet h)" using b by (simp add: hsize_def size_of_int_def)
    have "nat (nbytes_packet h) \<le> nat (ingress_length (sw_pkt st)) - n"
      using True b bytes_left_inside [OF assms(1)] by (simp add: check_enough_def size_of_int_def)
    then have "inside st1 (n + nat (nbytes_packet h))"
      using inside_same [OF assms(1) same] same assms(1) by (auto simp: inside_def same_packet_def)
    then show ?thesis using s(3) n1 same h by (simp add: moves_def)
  qed
qed

lemma then_push_moves:
  assumes "inside st n" "\<And>r. x = Some r \<Longrightarrow> moves st n r" "then_push g x = Some r" "\<And>p p'. g p = Some p' \<Longrightarrow> same_sizes p p'"
  shows "moves st n r"
proof -
  obtain e st1 n1 where x: "x = Some (e, st1, n1)" using assms(3) by (auto simp: then_push_def bind_eq_Some_iff)
  note m = assms(2) [OF x]
  show ?thesis
  proof (cases e)
    case None
    then obtain st2 where s: "on_phv g st1 = Some st2" "r = (None, st2, n1)"
      using assms(3) x by (auto simp: then_push_def bind_eq_Some_iff)
    have "same_packet st1 st2" using on_phv_same [OF s(1)] assms(4) by blast
    then show ?thesis using m s(2) by (auto simp: moves_def intro: same_packet_trans inside_same)
  qed (use m x assms(3) in \<open>simp add: then_push_def\<close>)
qed

fun no_call :: "parser_op \<Rightarrow> bool" where
  "no_call (OpMethodCall a) = False" | "no_call x = True"

lemma go_on_moves:
  assumes "inside st n" "go_on n (on_phv g st) = Some r" "\<And>p'. g (sw_phv st) = Some p' \<Longrightarrow> same_sizes (sw_phv st) p'"
  shows "moves st n r"
proof -
  obtain st' where s: "on_phv g st = Some st'" "r = (None, st', n)" using assms(2) by (auto simp: go_on_def)
  have "same_packet st st'" using on_phv_same [OF s(1)] assms(3) by blast
  then show ?thesis unfolding s(2) by (rule moves_stay [OF assms(1)])
qed

lemma raise_moves: "inside st n \<Longrightarrow> raise e n st = Some r \<Longrightarrow> moves st n r"
  by (auto simp: raise_def intro: moves_stay)

lemma run_op_moves:
  assumes i: "inside st n" and c: "no_call x" and r: "run_op env x data n st = Some r"
  shows "moves st n r"
proof (cases x)
  case (OpSetField d s)
  then have "go_on n (on_phv (set_from_field d s) st) = Some r" using r by simp
  then show ?thesis by (rule go_on_moves [OF i]) (use i in \<open>auto simp: inside_def intro: set_from_field_sizes\<close>)
next
  case (OpSetData d v)
  then have "go_on n (on_phv (write_field (fst d) (snd d) (dval v)) st) = Some r" using r by simp
  then show ?thesis by (rule go_on_moves [OF i]) (rule write_field_sizes)
next
  case (OpSetLookAhead d la)
  then consider "raise (Core PacketTooShort) n st = Some r" | "go_on n (on_phv (set_from_look_ahead d la data) st) = Some r"
    using r by (auto split: if_splits)
  then show ?thesis
    by cases (auto intro: raise_moves [OF i] go_on_moves [OF i] set_from_look_ahead_sizes)
next
  case (OpSetExpression d e)
  then obtain v where "go_on n (on_phv (write_field (fst d) (snd d) v) st) = Some r" using r by (auto simp: bind_eq_Some_iff)
  then show ?thesis by (rule go_on_moves [OF i]) (rule write_field_sizes)
next
  case (OpExtract h)
  then consider "raise (Core OverwritingHeader) n st = Some r" | "extract_checked env h data n st = Some r"
    using r by (auto simp: extract_header_def bind_eq_Some_iff split: if_splits)
  then show ?thesis by cases (use raise_moves [OF i] extract_checked_moves [OF i] in blast)+
next
  case (OpExtractVL h e m)
  then obtain hd where "nth_opt (headers (sw_phv st)) h = Some hd" "VL_offset (htype hd) \<noteq> None"
    using r by (auto simp: extract_VL_def bind_eq_Some_iff)
  then show ?thesis using i by (auto simp: inside_def fixed_sizes_def nth_opt_Some_iff)
next
  case (OpExtractStack s)
  then consider "raise (Core StackOutOfBounds) n st = Some r"
    | h where "then_push (stack_push_back s) (extract_checked env h data n st) = Some r"
    using r by (auto simp: extract_stack_def bind_eq_Some_iff split: if_splits)
  then show ?thesis
    by cases (auto intro: raise_moves [OF i] then_push_moves [OF i] stack_push_back_sizes dest: extract_checked_moves [OF i])
next
  case (OpExtractUnionStack s o1)
  then consider "raise (Core StackOutOfBounds) n st = Some r"
    | h where "then_push (union_stack_push_back s) (extract_checked env h data n st) = Some r"
    using r by (auto simp: extract_union_stack_def bind_eq_Some_iff split: if_splits)
  then show ?thesis
    by cases (auto intro: raise_moves [OF i] then_push_moves [OF i] union_stack_push_back_sizes dest: extract_checked_moves [OF i])
next
  case (OpVerify b e)
  then obtain met where met: "eval_bool (action_eval_env [] st) b [] = Some met" using r by (auto simp: bind_eq_Some_iff)
  show ?thesis
  proof (cases met)
    case True
    then have "r = (None, st, n)" using r met OpVerify by simp
    then show ?thesis using moves_stay [OF i same_packet_refl] by simp
  next
    case False
    then obtain v where "raise (Arch v) n st = Some r" using r met OpVerify by (auto simp: bind_eq_Some_iff)
    then show ?thesis by (rule raise_moves [OF i])
  qed
next
  case (OpShift k)
  show ?thesis
  proof (cases "bytes_left st n < k")
    case True
    then have "raise (Core PacketTooShort) n st = Some r" using r OpShift by simp
    then show ?thesis by (rule raise_moves [OF i])
  next
    case False
    then have "r = (None, st, n + k)" using r OpShift by simp
    then show ?thesis using False i bytes_left_inside [OF i] by (auto simp: moves_def inside_def)
  qed
qed (use c in simp)

text \<open>The operations that always move on.\<close>

fun advances :: "phv \<Rightarrow> parser_op \<Rightarrow> bool" where
  "advances p (OpExtract i) = (case nth_opt (headers p) i of Some h \<Rightarrow> 0 < nbytes_packet h | None \<Rightarrow> False)"
| "advances p (OpShift k) = (0 < k)"
| "advances p _ = False"

lemma advances_same:
  assumes "same_sizes p q" "advances p x"
  shows "advances q x"
proof (cases x)
  case (OpExtract i)
  then obtain h where h: "nth_opt (headers p) i = Some h" "0 < nbytes_packet h"
    using assms(2) by (auto split: option.splits)
  have "same_sizes q p" using assms(1) by (simp add: same_sizes_def)
  from same_sizes_nth [OF this h(1)] OpExtract h(2) show ?thesis by (auto simp: hsize_def)
qed (use assms in simp_all)

lemma run_op_advances:
  assumes "inside st n" "advances (sw_phv st) x" "run_op env x data n st = Some (None, st', n')"
  shows "n < n'"
proof (cases x)
  case (OpExtract i)
  then have "extract_checked env i data n st = Some (None, st', n')"
    using assms(3) by (auto simp: extract_header_def raise_def bind_eq_Some_iff split: if_splits)
  from extract_checked_moves [OF assms(1) this] assms(2) OpExtract show ?thesis by auto
qed (use assms in \<open>auto simp: raise_def split: if_splits\<close>)

lemma run_ops_moves:
  assumes "inside st n" "\<forall>x \<in> set xs. no_call x" "run_ops env xs data n st = Some r"
  shows "moves st n r \<and> (\<forall>st' n'. r = (None, st', n') \<longrightarrow> (\<exists>x \<in> set xs. advances (sw_phv st) x) \<longrightarrow> n < n')"
  using assms
proof (induction xs arbitrary: n st)
  case Nil
  then show ?case by (auto intro: moves_stay)
next
  case (Cons x xs)
  from Cons.prems(3) obtain e st1 n1 where s: "run_op env x (drop n data) n st = Some (e, st1, n1)"
    "(if e \<noteq> None then Some (e, st1, n1) else run_ops env xs data n1 st1) = Some r"
    by (auto simp: bind_eq_Some_iff)
  have m: "moves st n (e, st1, n1)" using run_op_moves [OF Cons.prems(1) _ s(1)] Cons.prems(2) by simp
  show ?case
  proof (cases e)
    case None
    have i1: "inside st1 n1" "same_packet st st1" "n \<le> n1" using m by (simp_all add: moves_def)
    then have ih: "moves st1 n1 r" "\<forall>st' n'. r = (None, st', n') \<longrightarrow> (\<exists>x \<in> set xs. advances (sw_phv st1) x) \<longrightarrow> n1 < n'"
      using Cons.IH [of st1 n1] Cons.prems(2) s(2) None by auto
    have "n < n'" if "r = (None, st', n')" "\<exists>y \<in> set (x # xs). advances (sw_phv st) y" for st' n'
    proof (cases "advances (sw_phv st) x")
      case True
      then have "n < n1" using run_op_advances [OF Cons.prems(1)] s(1) None by blast
      moreover have "n1 \<le> n'" using ih(1) that(1) by (simp add: moves_def)
      ultimately show ?thesis by simp
    next
      case False
      then have "\<exists>y \<in> set xs. advances (sw_phv st1) y" using that(2) i1(2) by (auto simp: same_packet_def intro: advances_same)
      then show ?thesis using ih(2) that(1) i1(3) by fastforce
    qed
    then show ?thesis using ih(1) i1 by (auto simp: moves_def intro: same_packet_trans)
  next
    case (Some a)
    then show ?thesis using m s(2) by auto
  qed
qed

lemma find_next_moves:
  assumes "inside st n" "\<forall>x \<in> set (parser_ops s). no_call x" "find_next_state env s data n st = Some (r, st1, n1)"
  shows "same_packet st st1 \<and> inside st1 n1 \<and> n \<le> n1 \<and>
    ((\<exists>nxt. r = Inr nxt) \<longrightarrow> (\<exists>x \<in> set (parser_ops s). advances (sw_phv st) x) \<longrightarrow> n < n1)"
proof -
  obtain e where e: "run_ops env (parser_ops s) data n st = Some (e, st1, n1)" "e = None \<longleftrightarrow> (\<exists>nxt. r = Inr nxt)"
    using assms(3) by (auto simp: find_next_state_def bind_eq_Some_iff split: option.splits if_splits)
  from run_ops_moves [OF assms(1,2) e(1)] e(2) show ?thesis by (auto simp: moves_def)
qed

lemma parse_loop_ends:
  assumes "inside st n" "ingress_length (sw_pkt st) < int (fuel + n)"
    and "\<forall>s \<in> set (pe_states env). (\<forall>x \<in> set (parser_ops s). no_call x) \<and> (\<exists>x \<in> set (parser_ops s). advances (sw_phv st) x)"
  shows "parse_loop fuel env nxt data n st \<noteq> Out_of_fuel \<and>
    (\<forall>e st' n'. parse_loop fuel env nxt data n st = Parsed e st' n' \<longrightarrow> inside st' n' \<and> same_packet st st')"
  using assms
proof (induction fuel arbitrary: nxt n st)
  case 0
  then show ?case by (auto simp: inside_def)
next
  case (Suc fuel)
  show ?case
  proof (cases nxt)
    case None
    then show ?thesis using Suc.prems(1) by simp
  next
    case (Some s)
    show ?thesis
    proof (cases "do { x \<leftarrow> nth_opt (pe_states env) s; find_next_state env x data n st }")
      case None
      then show ?thesis using \<open>nxt = Some s\<close> by simp
    next
      case step: (Some r)
      then obtain x where x: "nth_opt (pe_states env) s = Some x" "find_next_state env x data n st = Some r"
        by (auto simp: bind_eq_Some_iff)
      then have xs: "x \<in> set (pe_states env)" by (auto simp: nth_opt_Some_iff)
      obtain q st1 n1 where r: "r = (q, st1, n1)" by (cases r)
      have nc: "\<forall>y \<in> set (parser_ops x). no_call y" and ad: "\<exists>y \<in> set (parser_ops x). advances (sw_phv st) y"
        using Suc.prems(3) xs by blast+
      have m: "same_packet st st1" "inside st1 n1" "n \<le> n1" "(\<exists>nxt. q = Inr nxt) \<longrightarrow> n < n1"
        using find_next_moves [OF Suc.prems(1) nc x(2) [unfolded r]] ad by simp_all
      show ?thesis
      proof (cases q)
        case (Inl e)
        then show ?thesis using step m \<open>nxt = Some s\<close> by (simp add: r)
      next
        case (Inr nxt')
        have "ingress_length (sw_pkt st1) < int (fuel + n1)" using m Inr Suc.prems(2) by (auto simp: same_packet_def)
        moreover have "\<forall>s \<in> set (pe_states env). (\<forall>x \<in> set (parser_ops s). no_call x) \<and> (\<exists>x \<in> set (parser_ops s). advances (sw_phv st1) x)"
          using Suc.prems(3) m(1) advances_same unfolding same_packet_def by blast
        ultimately have "parse_loop fuel env nxt' data n1 st1 \<noteq> Out_of_fuel \<and>
            (\<forall>e st' n'. parse_loop fuel env nxt' data n1 st1 = Parsed e st' n' \<longrightarrow> inside st' n' \<and> same_packet st1 st')"
          by (rule Suc.IH [OF m(2)])
        then show ?thesis using step m(1) Inr \<open>nxt = Some s\<close> by (auto simp: r intro: same_packet_trans)
      qed
    qed
  qed
qed

text \<open>
  C5: if no state calls a method, every state extracts a header of fixed size with at least one byte or shifts by at least one,
  and the headers have fixed sizes, then parsing ends within as many rounds as the packet has bytes and one more, and it
  never gets past the length of the packet.
\<close>

theorem parsing_ends_in_packet:
  assumes "fixed_sizes (sw_phv st)" "0 \<le> ingress_length (sw_pkt st)" "ingress_length (sw_pkt st) < 2 ^ 31"
    and "\<forall>s \<in> set (pe_states env). (\<forall>x \<in> set (parser_ops s). no_call x) \<and> (\<exists>x \<in> set (parser_ops s). advances (sw_phv st) x)"
  shows "parse_loop (Suc (nat (ingress_length (sw_pkt st)))) env init data 0 st \<noteq> Out_of_fuel \<and>
    (\<forall>e st' n. parse_loop (Suc (nat (ingress_length (sw_pkt st)))) env init data 0 st = Parsed e st' n \<longrightarrow>
      int n \<le> ingress_length (sw_pkt st))"
proof -
  have "inside st 0" using assms(1-3) by (simp add: inside_def)
  moreover have "ingress_length (sw_pkt st) < int (Suc (nat (ingress_length (sw_pkt st))) + 0)" using assms(2) by simp
  ultimately have ends: "parse_loop (Suc (nat (ingress_length (sw_pkt st)))) env init data 0 st \<noteq> Out_of_fuel"
    "parse_loop (Suc (nat (ingress_length (sw_pkt st)))) env init data 0 st = Parsed e st' n \<Longrightarrow> inside st' n \<and> same_packet st st'"
    for e st' n using parse_loop_ends [OF _ _ assms(4)] by blast+
  have "int n \<le> ingress_length (sw_pkt st)"
    if "parse_loop (Suc (nat (ingress_length (sw_pkt st)))) env init data 0 st = Parsed e st' n" for e st' n
    using ends(2) [OF that] by (simp add: inside_def same_packet_def)
  with ends(1) show ?thesis by blast
qed

text \<open>
  a state that does nothing and is its own successor is never left: nothing counts the rounds, and the error for it is
  never raised.
\<close>

theorem idle_state_never_left:
  assumes "nth_opt (pe_states env) s = Some x" "parser_ops x = []" "\<not> has_switch x" "default_next x = Some s"
  shows "parse_loop fuel env (Some s) data n st = Out_of_fuel"
  using assms by (induction fuel) (simp_all add: find_next_state_def)

section \<open>Examples\<close>

text \<open>A header of two bytes of fixed size, and one whose first byte is the length in bits of the rest.\<close>

definition fixed_type :: header_type where
  "fixed_type = snd (push_back_field (new_header_type 0) ''f'' 16 False False)"

definition VL_type :: header_type where
  "VL_type = snd (the (push_back_VL_field (snd (push_back_field (new_header_type 1) ''len'' 8 False False)) ''vl'' 0 (Some [0]) False))"

definition fixed_phv :: phv where
  "fixed_phv = the (push_back_header 0 fixed_type {} False empty_phv)"

definition VL_phv :: phv where
  "VL_phv = the (push_back_header 0 VL_type {} False empty_phv)"

definition parser_state :: "phv \<Rightarrow> u8 list \<Rightarrow> nat switch_state" where
  "parser_state p bs = sample_state\<lparr>sw_pkt := sample_packet\<lparr>pkt_phv := p, ingress_length := int (length bs),
     buffer := the (pb_new (replicate 8 0) bs)\<rparr>\<rparr>"

definition length_field :: expression where
  "length_field = \<lparr>ops = [LOAD_FIELD 0 0], const_values = [], data_registers_cnt = 1\<rparr>"

definition sample_parser :: "parse_state list \<Rightarrow> nat parser_env" where
  "sample_parser ss = \<lparr>pe_states = ss, pe_vsets = [], pe_errors = the make_with_core, pe_VL_exprs = [0 \<mapsto> length_field],
     pe_action = sample_env\<rparr>"

definition two_byte_loop :: parse_state where
  "two_byte_loop = set_default_switch_case (Some 0) (add_op (OpExtract 0) new_state)"

lemmas example_defs = push_back_field_def push_back_VL_field_def new_header_type_def hidden_fields_def push_back_header_def
  new_header_def new_field_def empty_phv_def

lemma fixed_phv_value: "\<exists>f v. fixed_phv = empty_phv\<lparr>headers := [\<lparr>htype = fixed_type, hfields = [f, v], valid_flag = False,
    metadata = False, nbytes_packet = 2, union_membership = None\<rparr>]\<rparr> \<and> \<not> VL f \<and> \<not> VL v \<and> VL_offset fixed_type = None"
  by (simp add: fixed_phv_def fixed_type_def example_defs Let_def)

theorem idle_state_never_left_witness:
  "parse_loop 7 (sample_parser [set_default_switch_case (Some 0) new_state]) (Some 0) [] 0 (parser_state fixed_phv [1]) = Out_of_fuel"
  by (rule idle_state_never_left [where x = "set_default_switch_case (Some 0) new_state"])
    (simp_all add: sample_parser_def new_state_def set_default_switch_case_def nth_opt_def)

theorem parsing_ends_in_packet_witness:
  "parse_loop 5 (sample_parser [two_byte_loop]) (Some 0) [1, 2, 3, 4] 0 (parser_state fixed_phv [1, 2, 3, 4]) \<noteq> Out_of_fuel"
proof -
  obtain f v where v: "fixed_phv = empty_phv\<lparr>headers := [\<lparr>htype = fixed_type, hfields = [f, v], valid_flag = False,
    metadata = False, nbytes_packet = 2, union_membership = None\<rparr>]\<rparr>" "\<not> VL f" "\<not> VL v" "VL_offset fixed_type = None"
    using fixed_phv_value by blast
  have "fixed_sizes (sw_phv (parser_state fixed_phv [1, 2, 3, 4]))"
    unfolding v(1) using v(2-4) by (simp add: parser_state_def sw_phv_def fixed_sizes_def)
  moreover have "\<forall>s \<in> set (pe_states (sample_parser [two_byte_loop])). (\<forall>x \<in> set (parser_ops s). no_call x) \<and>
      (\<exists>x \<in> set (parser_ops s). advances (sw_phv (parser_state fixed_phv [1, 2, 3, 4])) x)"
    unfolding v(1) by (simp add: sample_parser_def two_byte_loop_def set_default_switch_case_def add_op_def new_state_def
        parser_state_def sw_phv_def nth_opt_def)
  ultimately show ?thesis
    using parsing_ends_in_packet [of "parser_state fixed_phv [1, 2, 3, 4]" "sample_parser [two_byte_loop]" "Some 0" "[1, 2, 3, 4]"]
    by (simp add: parser_state_def eval_nat_numeral)
qed

definition F_len :: field where "F_len = the (new_field 8 True False False False)"
definition F_vl :: field where "F_vl = the (new_field 0 False False False True)"
definition F_valid :: field where "F_valid = the (new_field 1 False False True False)"

lemmas field_defs = F_len_def F_vl_def F_valid_def new_field_def bytes_of_bits_def

lemma VL_phv_value: "VL_phv = empty_phv\<lparr>headers := [\<lparr>htype = VL_type, hfields = [F_len, F_vl, F_valid], valid_flag = False,
    metadata = False, nbytes_packet = 1, union_membership = None\<rparr>]\<rparr>" "VL_offset VL_type = Some 1"
  by (simp_all add: VL_phv_def VL_type_def example_defs Let_def field_defs nth_opt_def)

definition const_length :: expression where
  "const_length = \<lparr>ops = [LOAD_CONST 0], const_values = [data_of 16], data_registers_cnt = 1\<rparr>"

lemma length_16:
  "\<exists>f. field_extract F_len [16] 0 = Some f \<and> nbits f = 8 \<and> dval f = 16" "\<not> hidden F_len" "\<not> hidden F_vl" "nbits F_valid = 1"
  by (simp_all add: field_defs field_extract_def generic_extract_def sync_value_def import_bytes_def Let_def)

lemma own_length_16: "own_length [0 \<mapsto> length_field] 0 [16] (parser_state VL_phv [16]) = Some (Some (1, 16))"
proof -
  obtain f where f: "field_extract F_len [16] 0 = Some f" "dval f = 16" using length_16(1) by blast
  then show ?thesis
    by (simp add: own_length_def parser_state_def sw_phv_def VL_phv_value nth_opt_def length_16(2) Let_def
        length_field_def eval_arith_def set_phv_def action_eval_env_def put_header_def load_field_def
        start_machine_def phv_get_field_def push_data_def pop_data_def get_int_def data_of_def plain_def)
qed

text \<open>
  a header with a length expression of its own is checked for the bytes before the variable-length field only: a packet
  that ends inside that field is read past its end, where the operation that is told the length raises an exception.
\<close>

theorem own_length_not_checked:
  "run_op (sample_parser []) (OpExtract 0) [16] 0 (parser_state VL_phv [16]) = None \<and>
   run_op (sample_parser []) (OpExtractVL 0 const_length 0) [16] 0 (parser_state VL_phv [16]) =
     raise (Core PacketTooShort) 0 (parser_state VL_phv [16])"
proof -
  have h: "nth_opt (headers (sw_phv (parser_state VL_phv [16]))) 0 = Some \<lparr>htype = VL_type, hfields = [F_len, F_vl, F_valid],
      valid_flag = False, metadata = False, nbytes_packet = 1, union_membership = None\<rparr>"
    by (simp add: parser_state_def sw_phv_def VL_phv_value nth_opt_def)
  have left: "bytes_left (parser_state VL_phv [16]) 0 = 1" by (simp add: bytes_left_def parser_state_def)
  have f: "extract_fields (Some (Suc 0, 16)) 0 [F_len, F_vl, F_valid] [16] 0 = None"
  proof -
    obtain f where f: "field_extract F_len [16] 0 = Some f" "nbits f = 8" using length_16(1) by blast
    then show ?thesis
      using length_16(2-4) by (simp add: field_extract_VL_def field_extract_def [of _ "[]"] generic_extract_def bytes_of_bits_def Let_def)
  qed
  have "on_phv (extract_into 0 (Some (Suc 0, 16)) [16]) (parser_state VL_phv [16]) = None"
    using h f by (simp add: on_phv_def extract_into_def)
  moreover have "eval_arith (action_eval_env [] (parser_state VL_phv [16])) const_length [] = Some 16"
    by (simp add: const_length_def eval_arith_def start_machine_def push_data_def pop_data_def nth_opt_def data_of_def)
  ultimately show ?thesis
    using h left own_length_16
    by (simp add: extract_header_def extract_checked_def check_enough_def is_valid_def sample_parser_def extract_VL_def
        VL_phv_value(2) size_of_int_def get_int_def data_of_def)
qed

end
