(* ===== verification/Deparser.thy ===== *)
theory Deparser
  imports Parser Checksums
begin

text \<open>
  The deparser: deparser.h and deparser.cpp.  It updates the checksums, makes room in front of the packet and writes the
  valid headers there in its order.
  The theorem: whatever states a parser that only extracts and verifies goes through, deparsing the headers in the order
  of extraction gives back the packet, also after an exception.
\<close>

text \<open>The two kinds of checksums: with a named calculation, and the one of IPv4.\<close>

datatype checksum_kind = Calc_Based nat | IPv4_Checksum

record deparser =
  dp_headers :: "nat list"
  dp_checksums :: "(checksum_kind \<times> checksum) list"

definition new_deparser :: deparser where
  "new_deparser = \<lparr>dp_headers = [], dp_checksums = []\<rparr>"

definition dp_push_back_header :: "nat \<Rightarrow> deparser \<Rightarrow> deparser" where
  "dp_push_back_header i d = d\<lparr>dp_headers := dp_headers d @ [i]\<rparr>"

definition dp_add_checksum :: "checksum_kind \<times> checksum \<Rightarrow> deparser \<Rightarrow> deparser" where
  "dp_add_checksum k d = d\<lparr>dp_checksums := dp_checksums d @ [k]\<rparr>"

definition get_headers_size :: "nat list \<Rightarrow> phv \<Rightarrow> nat option" where
  "get_headers_size hs p = fold_opt (\<lambda>i n. do {
     h \<leftarrow> nth_opt (headers p) i;
     Some (if is_valid h then n + size_of_int (nbytes_packet h) else n) }) hs 0"

text \<open>\<open>stack\<close> is what the buffer of the IPv4 checksum holds at the start; the condition of a checksum sees the headers only.\<close>

definition run_checksum :: "'r action_env \<Rightarrow> u8 list \<Rightarrow> checksum_kind \<times> checksum \<Rightarrow> 'r switch_state \<Rightarrow> 'r switch_state option" where
  "run_checksum env stack k st = do {
     p \<leftarrow> checksum_update (action_eval_env [] st)
       (case fst k of
          Calc_Based c \<Rightarrow> calc_update (\<lambda>p. do {
            (bld, raw) \<leftarrow> nth_opt (ae_calcs env) c; calc_output (ae_xxh env) bld raw p (packet_bytes (sw_pkt st)) })
        | IPv4_Checksum \<Rightarrow> ipv4_update stack) (snd k);
     Some (set_phv p st) }"

definition update_checksums :: "'r action_env \<Rightarrow> u8 list \<Rightarrow> (checksum_kind \<times> checksum) list \<Rightarrow> 'r switch_state \<Rightarrow> 'r switch_state option" where
  "update_checksums env stack ks st = fold_opt (run_checksum env stack) ks st"

text \<open>The loop: \<open>k\<close> bytes are written so far.\<close>

fun emit_headers :: "phv \<Rightarrow> nat list \<Rightarrow> nat \<Rightarrow> u8 list \<Rightarrow> u8 list option" where
  "emit_headers p [] k data = Some data"
| "emit_headers p (i # is) k data = do {
     h \<leftarrow> nth_opt (headers p) i;
     if is_valid h then do {
       d \<leftarrow> header_deparse h (drop k data);
       emit_headers p is (k + size_of_int (nbytes_packet h)) (take k data @ d) }
     else emit_headers p is k data }"

definition deparse :: "'r action_env \<Rightarrow> u8 list \<Rightarrow> deparser \<Rightarrow> 'r switch_state \<Rightarrow> 'r switch_state option" where
  "deparse env stack dp st = do {
     st1 \<leftarrow> update_checksums env stack (dp_checksums dp) st;
     n \<leftarrow> get_headers_size (dp_headers dp) (sw_phv st1);
     p \<leftarrow> prepend n (sw_pkt st1);
     bs \<leftarrow> emit_headers (sw_phv st1) (dp_headers dp) 0 (pb_data (buffer p));
     b \<leftarrow> pb_write (pb_head (buffer p)) bs (buffer p);
     Some (st1\<lparr>sw_pkt := p\<lparr>buffer := b\<rparr>\<rparr>) }"

section \<open>What is behind the last byte stays\<close>

lemma generic_deparse_tail:
  assumes "generic_deparse data w dst off = Some d" "off < 8"
  shows "length d = length dst \<and> (w \<noteq> 0 \<longrightarrow> bytes_of_bits (off + w) \<le> length dst) \<and>
    drop (bytes_of_bits (off + w)) d = drop (bytes_of_bits (off + w)) dst"
proof -
  define hb where "hb = bytes_of_bits (off + w)"
  have two: "hb = 2" if "bytes_of_bits w = 1" "\<not> off < 8 * bytes_of_bits w - w" "8 * bytes_of_bits w - w \<noteq> off" "w \<noteq> 0"
    using that assms(2) by (auto simp: hb_def bytes_of_bits_def)
  have one: "hb = bytes_of_bits w" if "8 * bytes_of_bits w - w = off" "w \<noteq> 0"
    using that assms(2) by (auto simp: hb_def bytes_of_bits_def)
  have pos: "0 < hb" if "w \<noteq> 0" using that by (simp add: hb_def bytes_of_bits_def)
  have zero: "hb = bytes_of_bits w" if "off = 0" using that by (simp add: hb_def)
  have many: "2 \<le> hb" if "bytes_of_bits w \<noteq> 1" "w \<noteq> 0"
    using that bytes_of_bits_mono [of w "off + w"] bytes_of_bits_pos [of w] by (simp add: hb_def)
  have d: "drop hb d = drop hb dst \<and> length d = length dst \<and> hb \<le> length dst" if w: "w \<noteq> 0"
    using assms(1) w pos two one zero many unfolding generic_deparse_def Let_def hb_def [symmetric]
    by (auto simp: drop_Cons' split: if_splits)
  then show ?thesis
  proof (cases "w = 0")
    case True
    then show ?thesis using assms(1) by (simp add: generic_deparse_def)
  next
    case False
    then show ?thesis using d by (simp add: hb_def)
  qed
qed

lemma bytes_of_bits_add: "bytes_of_bits (8 * q + x) = q + bytes_of_bits x"
  by (simp add: bytes_of_bits_def)

lemma deparse_fields_tail:
  "deparse_fields fs dst off = Some d \<Longrightarrow> off < 8 \<Longrightarrow> length d = length dst \<and>
    drop (bytes_of_bits (off + width_of fs)) d = drop (bytes_of_bits (off + width_of fs)) dst"
proof (induction fs arbitrary: dst off d)
  case (Cons f fs)
  show ?case
  proof (cases "hidden f")
    case False
    define o1 q r0 W where "o1 = off + nbits f" and "q = o1 div 8" and "r0 = o1 mod 8" and "W = width_of fs"
    have o1: "o1 = 8 * q + r0" "r0 < 8" by (simp_all add: q_def r0_def)
    obtain d1 r where s: "generic_deparse (fbytes f) (nbits f) dst off = Some d1" "deparse_fields fs (drop q d1) r0 = Some r"
      "d = take q d1 @ r"
      using Cons.prems(1) False by (auto simp: bind_eq_Some_iff Let_def field_deparse_def o1_def q_def r0_def)
    note T = generic_deparse_tail [OF s(1) Cons.prems(2), folded o1_def]
    have q: "q \<le> length d1"
    proof (cases "nbits f = 0")
      case True
      then show ?thesis using Cons.prems(2) by (simp add: q_def o1_def)
    next
      case False
      have "q \<le> bytes_of_bits o1" by (simp add: q_def bytes_of_bits_def div_le_mono)
      with T False show ?thesis by simp
    qed
    note IH = Cons.IH [OF s(2) o1(2), folded W_def]
    define K where "K = q + bytes_of_bits (r0 + W)"
    have K: "bytes_of_bits (off + width_of (f # fs)) = K"
    proof -
      have "off + width_of (f # fs) = 8 * q + (r0 + W)" using False o1(1) by (simp add: o1_def W_def)
      then show ?thesis by (simp only: K_def bytes_of_bits_add)
    qed
    have "bytes_of_bits o1 \<le> K"
    proof -
      have "bytes_of_bits (8 * q + r0) \<le> bytes_of_bits (8 * q + (r0 + W))" by (rule bytes_of_bits_mono) simp
      then show ?thesis by (simp only: K_def o1(1) bytes_of_bits_add)
    qed
    then obtain m where m: "K = bytes_of_bits o1 + m" using le_Suc_ex by blast
    have "drop K d = drop (bytes_of_bits (r0 + W)) r" using q s(3) by (simp add: K_def)
    also have "\<dots> = drop K d1" using IH by (simp add: K_def add.commute)
    also have "\<dots> = drop m (drop (bytes_of_bits o1) d1)" by (simp add: m add.commute)
    also have "\<dots> = drop K dst" using T by (simp add: m add.commute)
    finally have "drop K d = drop K dst" .
    moreover have "length d = length dst" using T IH q s(3) by simp
    ultimately show ?thesis by (simp only: K)
  qed (use Cons.prems in simp)
qed simp

section \<open>What a header emits\<close>

definition emits :: "header \<Rightarrow> u8 list \<Rightarrow> bool" where
  "emits h bs \<longleftrightarrow> is_valid h \<and> nbytes_packet h = int (length bs) \<and> length bs < 2 ^ 31 \<and>
     (\<forall>dst. length bs \<le> length dst \<longrightarrow> header_deparse h dst = Some (bs @ drop (length bs) dst))"

text \<open>A header that can be extracted: constructed, of fixed size, outside unions, not valid yet.\<close>

definition extractable :: "header \<Rightarrow> bool" where
  "extractable h \<longleftrightarrow> header_shape h \<and> layout_ok 0 (hfields h) \<and> 0 \<le> nbytes_packet h \<and> nbytes_packet h < 2 ^ 31 \<and>
     width_of (hfields h) = 8 * nat (nbytes_packet h) \<and> VL_offset (htype h) = None \<and> union_membership h = None \<and> \<not> is_valid h"

lemma extract_emits:
  assumes "extractable h" "nat (nbytes_packet h) \<le> length data"
  shows "\<exists>h'. header_extract h data = Some h' \<and> emits h' (take (nat (nbytes_packet h)) data)"
proof -
  define n where "n = nat (nbytes_packet h)"
  have e: "header_shape h" "layout_ok 0 (hfields h)" "width_of (hfields h) = 8 * n" "n \<le> length data"
    using assms by (auto simp: extractable_def n_def)
  from extract_then_deparse [OF e] obtain h' where h': "header_extract h data = Some h'" "is_valid h'"
    "nbytes_packet h' = nbytes_packet h" "width_of (hfields h') = 8 * n"
    "\<And>dst. n \<le> length dst \<Longrightarrow> \<exists>d. header_deparse h' dst = Some d \<and> length d = length dst \<and> take n d = take n data"
    by blast
  have "header_deparse h' dst = Some (take n data @ drop n dst)" if l: "n \<le> length dst" for dst
  proof -
    obtain d where d: "header_deparse h' dst = Some d" "length d = length dst" "take n d = take n data"
      using h'(5) [OF l] by blast
    have "drop n d = drop n dst"
      using deparse_fields_tail [of "hfields h'" dst 0 d] d(1) h'(4) bytes_of_bits_add [of n 0]
      by (simp add: header_deparse_def bytes_of_bits_def)
    then show ?thesis using d(1,3) by (metis append_take_drop_id)
  qed
  moreover have "nbytes_packet h = int n" "n < 2 ^ 31" using assms(1) by (auto simp: extractable_def n_def)
  ultimately show ?thesis
    using h'(1-3) e(4) unfolding n_def [symmetric] by (intro exI [of _ h']) (simp add: emits_def)
qed

lemma emit_headers_run:
  assumes "\<forall>i \<in> set ds. \<exists>h. nth_opt (headers p) i = Some h \<and> (if is_valid h then emits h (f i) else f i = [])"
    and "k + length (concat (map f ds)) \<le> length data"
  shows "emit_headers p ds k data =
    Some (take k data @ concat (map f ds) @ drop (k + length (concat (map f ds))) data)"
  using assms
proof (induction ds arbitrary: k data)
  case (Cons i ds)
  obtain h where h: "nth_opt (headers p) i = Some h" "if is_valid h then emits h (f i) else f i = []"
    using Cons.prems(1) by auto
  show ?case
  proof (cases "is_valid h")
    case True
    define m data' where "m = length (f i)" and "data' = take k data @ f i @ drop (k + m) data"
    have e: "header_deparse h (drop k data) = Some (f i @ drop m (drop k data))" "size_of_int (nbytes_packet h) = m"
      using h True Cons.prems(2) by (auto simp: emits_def m_def size_of_int_def)
    have l: "length data' = length data" "take (k + m) data' = take k data @ f i" "drop (k + m + x) data' = drop (k + m + x) data" for x
      using Cons.prems(2) by (auto simp: data'_def m_def add.commute)
    have "emit_headers p (i # ds) k data = emit_headers p ds (k + m) data'"
      using h(1) True e by (simp add: data'_def add.commute)
    also have "\<dots> = Some (take (k + m) data' @ concat (map f ds) @ drop (k + m + length (concat (map f ds))) data')"
      by (rule Cons.IH) (use Cons.prems l(1) in \<open>auto simp: m_def\<close>)
    also have "\<dots> = Some (take k data @ concat (map f (i # ds)) @ drop (k + length (concat (map f (i # ds)))) data)"
      by (simp only: l) (simp add: m_def add.assoc)
    finally show ?thesis .
  next
    case False
    then show ?thesis using h Cons by simp
  qed
qed simp

lemma headers_size_run:
  assumes "\<forall>i \<in> set ds. \<exists>h. nth_opt (headers p) i = Some h \<and> (if is_valid h then emits h (f i) else f i = [])"
  shows "get_headers_size ds p = Some (length (concat (map f ds)))"
proof -
  have "fold_opt (\<lambda>i n. do { h \<leftarrow> nth_opt (headers p) i; Some (if is_valid h then n + size_of_int (nbytes_packet h) else n) }) ds m =
      Some (m + length (concat (map f ds)))" for m
    using assms
  proof (induction ds arbitrary: m)
    case (Cons i ds)
    obtain h where "nth_opt (headers p) i = Some h" "if is_valid h then emits h (f i) else f i = []"
      using Cons.prems by auto
    then show ?case using Cons by (cases "is_valid h") (auto simp: emits_def size_of_int_def)
  qed simp
  from this [of 0] show ?thesis by (simp add: get_headers_size_def)
qed

section \<open>A parser that extracts, then the deparser\<close>

text \<open>
  What holds while parsing: the headers \<open>xs\<close> were extracted, in this order; header \<open>i\<close> of them emits \<open>f i\<close>, and together
  these are the bytes parsed so far; the other headers are as they were.
\<close>

definition restored :: "phv \<Rightarrow> u8 list \<Rightarrow> phv \<Rightarrow> nat \<Rightarrow> nat list \<Rightarrow> (nat \<Rightarrow> u8 list) \<Rightarrow> bool" where
  "restored p0 data p n xs f \<longleftrightarrow> distinct xs \<and> n \<le> length data \<and> concat (map f xs) = take n data \<and>
     (\<forall>i \<in> set xs. \<exists>h. nth_opt (headers p) i = Some h \<and> emits h (f i)) \<and>
     (\<forall>i. i \<notin> set xs \<longrightarrow> nth_opt (headers p) i = nth_opt (headers p0) i)"

fun extracts :: "phv \<Rightarrow> parser_op \<Rightarrow> bool" where
  "extracts p0 (OpExtract i) = (\<exists>h. nth_opt (headers p0) i = Some h \<and> extractable h)"
| "extracts p0 (OpVerify c e) = True"
| "extracts p0 _ = False"

definition same_frame :: "'r switch_state \<Rightarrow> 'r switch_state \<Rightarrow> bool" where
  "same_frame st st' \<longleftrightarrow> (\<exists>p. st' = set_phv p st)"

lemma same_frame_refl [simp]: "same_frame st st"
  unfolding same_frame_def by (rule exI [of _ "sw_phv st"]) (simp add: set_phv_def sw_phv_def)

lemma same_frame_trans: "same_frame a b \<Longrightarrow> same_frame b c \<Longrightarrow> same_frame a c"
  by (auto simp: same_frame_def set_phv_def)

lemma same_frame_facts:
  "same_frame st st' \<Longrightarrow> ingress_length (sw_pkt st') = ingress_length (sw_pkt st) \<and> buffer (sw_pkt st') = buffer (sw_pkt st) \<and>
     payload_size (sw_pkt st') = payload_size (sw_pkt st)"
  by (auto simp: same_frame_def set_phv_def)

definition parsing :: "phv \<Rightarrow> u8 list \<Rightarrow> 'r switch_state \<Rightarrow> nat \<Rightarrow> bool" where
  "parsing p0 data st n \<longleftrightarrow> ingress_length (sw_pkt st) = int (length data) \<and> (\<exists>xs f. restored p0 data (sw_phv st) n xs f)"

lemma extract_into_plain:
  assumes "nth_opt (headers p) i = Some h" "union_membership h = None" "header_extract h data = Some h'"
  shows "extract_into i None data p = Some (put_header i h' p)"
proof -
  obtain fs where fs: "extract_fields None 0 (hfields h) data 0 = Some fs" "set_validity True (h\<lparr>hfields := fs\<rparr>) = Some h'"
    using assms(3) by (auto simp: header_extract_def bind_eq_Some_iff)
  then show ?thesis
    using assms(1,2) by (auto simp: extract_into_def mark_valid_def put_header_def nth_opt_Some_iff)
qed

lemma extract_op_restores:
  assumes r: "restored p0 data (sw_phv st) n xs f" and l: "ingress_length (sw_pkt st) = int (length data)" "length data < 2 ^ 31"
    and i: "nth_opt (headers p0) i = Some h0" "extractable h0"
    and s: "extract_header env i (drop n data) n st = Some (e, st', n')"
  shows "same_frame st st' \<and> (\<exists>xs f. restored p0 data (sw_phv st') n' xs f)"
proof (cases "st' = st \<and> n' = n")
  case True
  then show ?thesis using r by auto
next
  case False
  obtain h where h: "nth_opt (headers (sw_phv st)) i = Some h" using s by (auto simp: extract_header_def bind_eq_Some_iff)
  have nv: "\<not> is_valid h" using s False h by (auto simp: extract_header_def raise_def)
  then have nx: "i \<notin> set xs" using r h by (auto simp: restored_def emits_def)
  then have hx: "h = h0" using r h i(1) by (auto simp: restored_def)
  define m where "m = nat (nbytes_packet h)"
  have b: "0 \<le> nbytes_packet h" "nbytes_packet h < 2 ^ 31" "VL_offset (htype h) = None" "union_membership h = None"
    using i(2) hx by (auto simp: extractable_def)
  have n: "n \<le> length data" using r by (simp add: restored_def)
  have left: "bytes_left st n = length data - n" using l n by (auto simp: bytes_left_def)
  have own: "own_length ve i (drop n data) st = Some None" for ve using h b(3) by (simp add: own_length_def)
  have chk: "extract_checked env i (drop n data) n st = Some (e, st', n')" using s nv h by (simp add: extract_header_def)
  have enough: "check_enough n h st" using chk False h by (auto simp: extract_checked_def raise_def split: if_splits)
  then have m: "m \<le> length (drop n data)" using b left by (simp add: check_enough_def size_of_int_def m_def)
  obtain h' where h': "header_extract h (drop n data) = Some h'" "emits h' (take m (drop n data))"
    using extract_emits [of h "drop n data"] i(2) hx m unfolding m_def by blast
  have il: "i < length (headers (sw_phv st))" using h by (simp add: nth_opt_Some_iff)
  then have st': "st' = set_phv (put_header i h' (sw_phv st)) st" "n' = n + m"
    using chk h enough own extract_into_plain [OF h b(4) h'(1)] h'(2) m
    by (auto simp: extract_checked_def on_phv_def set_phv_def sw_phv_def put_header_def nth_opt_def emits_def size_of_int_def)
  have p: "sw_phv st' = put_header i h' (sw_phv st)" by (simp add: st'(1) set_phv_def sw_phv_def)
  have "restored p0 data (sw_phv st') n' (xs @ [i]) (f(i := take m (drop n data)))"
    unfolding restored_def
  proof (intro conjI ballI allI impI)
    show "distinct (xs @ [i])" using r nx by (simp add: restored_def)
    show "n' \<le> length data" using m n by (simp add: st'(2))
    have eq: "map (f(i := take m (drop n data))) xs = map f xs" using nx by auto
    show "concat (map (f(i := take m (drop n data))) (xs @ [i])) = take n' data"
      using r by (simp add: eq restored_def st'(2) take_add)
    show "\<exists>h. nth_opt (headers (sw_phv st')) j = Some h \<and> emits h ((f(i := take m (drop n data))) j)" if j: "j \<in> set (xs @ [i])" for j
    proof (cases "j = i")
      case True
      then show ?thesis using h'(2) il by (simp add: p put_header_def nth_opt_def)
    next
      case False
      then obtain hj where "nth_opt (headers (sw_phv st)) j = Some hj" "emits hj (f j)" using r j by (auto simp: restored_def)
      with False show ?thesis by (auto simp: p put_header_def nth_opt_def split: if_splits)
    qed
    show "nth_opt (headers (sw_phv st')) j = nth_opt (headers p0) j" if "j \<notin> set (xs @ [i])" for j
    proof -
      have "nth_opt (headers (sw_phv st')) j = nth_opt (headers (sw_phv st)) j"
        using that by (auto simp: p put_header_def nth_opt_def)
      then show ?thesis using that r by (simp add: restored_def)
    qed
  qed
  then show ?thesis using st'(1) by (auto simp: same_frame_def)
qed

lemma op_restores:
  assumes "parsing p0 data st n" "length data < 2 ^ 31" "extracts p0 x" "run_op env x (drop n data) n st = Some (e, st', n')"
  shows "same_frame st st' \<and> parsing p0 data st' n'"
proof (cases x)
  case (OpExtract i)
  obtain xs f where r: "restored p0 data (sw_phv st) n xs f" using assms(1) by (auto simp: parsing_def)
  obtain h0 where h0: "nth_opt (headers p0) i = Some h0" "extractable h0" using assms(3) OpExtract by auto
  have "same_frame st st' \<and> (\<exists>xs f. restored p0 data (sw_phv st') n' xs f)"
    by (rule extract_op_restores [OF r _ assms(2) h0]) (use assms(1,4) OpExtract in \<open>simp_all add: parsing_def\<close>)
  then show ?thesis using assms(1) same_frame_facts [of st st'] by (simp add: parsing_def)
next
  case (OpVerify c b)
  then have "st' = st" "n' = n" using assms(4) by (auto simp: bind_eq_Some_iff raise_def split: if_splits)
  then show ?thesis using assms(1) by simp
qed (use assms(3) in simp_all)

lemma ops_restore:
  assumes "parsing p0 data st n" "length data < 2 ^ 31" "\<forall>x \<in> set os. extracts p0 x" "run_ops env os data n st = Some (e, st', n')"
  shows "same_frame st st' \<and> parsing p0 data st' n'"
  using assms
proof (induction os arbitrary: n st)
  case (Cons x os)
  from Cons.prems(4) obtain e1 st1 n1 where s: "run_op env x (drop n data) n st = Some (e1, st1, n1)"
    "(if e1 \<noteq> None then Some (e1, st1, n1) else run_ops env os data n1 st1) = Some (e, st', n')"
    by (auto simp: bind_eq_Some_iff)
  have 1: "same_frame st st1 \<and> parsing p0 data st1 n1"
    by (rule op_restores [OF Cons.prems(1,2) _ s(1)]) (use Cons.prems(3) in simp)
  show ?case
  proof (cases "e1 = None")
    case True
    then have "same_frame st1 st' \<and> parsing p0 data st' n'" using Cons.IH [of st1 n1] Cons.prems 1 s(2) by auto
    with 1 show ?thesis by (auto intro: same_frame_trans)
  qed (use 1 s(2) in auto)
qed simp

lemma loop_restores:
  assumes "parsing p0 data st n" "length data < 2 ^ 31" "\<forall>s \<in> set (pe_states env). \<forall>x \<in> set (parser_ops s). extracts p0 x"
    and "parse_loop fuel env nxt data n st = Parsed e st' n'"
  shows "same_frame st st' \<and> parsing p0 data st' n'"
  using assms(1,4)
proof (induction fuel arbitrary: nxt n st)
  case 0
  then show ?case by (cases nxt) auto
next
  case (Suc fuel)
  show ?case
  proof (cases nxt)
    case None
    then show ?thesis using Suc.prems by auto
  next
    case (Some s)
    then obtain x q st1 n1 where x: "nth_opt (pe_states env) s = Some x" "find_next_state env x data n st = Some (q, st1, n1)"
      using Suc.prems(2) by (auto split: option.splits simp: bind_eq_Some_iff)
    then obtain e1 where "run_ops env (parser_ops x) data n st = Some (e1, st1, n1)"
      by (auto simp: find_next_state_def bind_eq_Some_iff split: option.splits if_splits)
    moreover have "\<forall>y \<in> set (parser_ops x). extracts p0 y" using assms(3) x(1) by (auto simp: nth_opt_Some_iff)
    ultimately have 1: "same_frame st st1 \<and> parsing p0 data st1 n1" using ops_restore [OF Suc.prems(1) assms(2)] by blast
    show ?thesis
    proof (cases q)
      case (Inl e2)
      then show ?thesis using Suc.prems(2) Some x 1 by simp
    next
      case (Inr nxt')
      then have "parse_loop fuel env nxt' data n1 st1 = Parsed e st' n'" using Suc.prems(2) Some x by simp
      with Suc.IH [of st1 n1 nxt'] 1 show ?thesis by (auto intro: same_frame_trans)
    qed
  qed
qed

lemma deparse_after:
  assumes r: "restored p0 data (sw_phv st) n xs f" and b: "pb_ok (buffer (sw_pkt st))"
    and d: "pb_data (buffer (sw_pkt st)) = drop n data" "n \<le> pb_head (buffer (sw_pkt st))"
    and dp: "dp_checksums dp = []" "filter (\<lambda>i. i \<in> set xs) (dp_headers dp) = xs"
    and inv: "\<forall>i \<in> set (dp_headers dp). \<exists>h. nth_opt (headers p0) i = Some h \<and> \<not> is_valid h"
  shows "\<exists>st'. deparse env stack dp st = Some st' \<and> pb_data (buffer (sw_pkt st')) = data"
proof -
  define g where "g i = (if i \<in> set xs then f i else [])" for i
  have hs: "\<forall>i \<in> set (dp_headers dp). \<exists>h. nth_opt (headers (sw_phv st)) i = Some h \<and> (if is_valid h then emits h (g i) else g i = [])"
  proof
    fix i assume i: "i \<in> set (dp_headers dp)"
    show "\<exists>h. nth_opt (headers (sw_phv st)) i = Some h \<and> (if is_valid h then emits h (g i) else g i = [])"
    proof (cases "i \<in> set xs")
      case True
      then obtain h where "nth_opt (headers (sw_phv st)) i = Some h" "emits h (f i)" using r by (auto simp: restored_def)
      then show ?thesis using True by (auto simp: g_def emits_def)
    next
      case False
      then show ?thesis using r inv i by (auto simp: restored_def g_def)
    qed
  qed
  have "concat (map g ds) = concat (map f (filter (\<lambda>i. i \<in> set xs) ds))" for ds by (induction ds) (simp_all add: g_def)
  then have c: "concat (map g (dp_headers dp)) = take n data" using r dp(2) by (simp add: restored_def)
  have n: "n \<le> length data" using r by (simp add: restored_def)
  from pb_push_ok [OF b d(2)] obtain b1 where b1: "pb_push n (buffer (sw_pkt st)) = Some b1" "pb_ok b1"
    "drop n (pb_data b1) = pb_data (buffer (sw_pkt st))" "length (pb_data b1) = length (pb_data (buffer (sw_pkt st))) + n" by blast
  have l: "length (pb_data b1) = length data" using b1(4) d(1) n by simp
  have "emit_headers (sw_phv st) (dp_headers dp) 0 (pb_data b1) = Some data"
    using emit_headers_run [OF hs, of 0 "pb_data b1"] c l n b1(3) d(1) by simp
  moreover obtain b2 where "pb_write (pb_head b1) data b1 = Some b2" "pb_data b2 = data"
    using pb_write_ok [OF b1(2), of data] l by auto
  ultimately show ?thesis
    using headers_size_run [OF hs] c n b1(1) dp(1) by (simp add: deparse_def update_checksums_def prepend_def)
qed

lemma remove_bytes_facts:
  "remove_bytes n p = Some q \<Longrightarrow> \<exists>b. pb_pop n (buffer p) = Some b \<and> q = p\<lparr>buffer := b\<rparr>"
  by (auto simp: remove_bytes_def guard_def bind_eq_Some_iff split: if_splits)

lemma finish_parse_facts:
  assumes "finish_parse m (Parsed e st n) = Some st1"
  shows "\<exists>b. pb_pop n (buffer (sw_pkt st)) = Some b \<and> buffer (sw_pkt st1) = b \<and> sw_phv st1 = sw_phv st"
proof -
  from assms obtain st2 p where s: "st2 = st \<or> (\<exists>v. st2 = set_error_code v st)" "remove_bytes n (sw_pkt st2) = Some p"
    "st1 = st2\<lparr>sw_pkt := p\<rparr>"
    by (auto simp: finish_parse_def bind_eq_Some_iff split: option.splits)
  from remove_bytes_facts [OF s(2)] s(1,3) show ?thesis by (auto simp: set_error_code_def sw_phv_def)
qed

lemma parsed_restores:
  assumes "parse fuel env init st = Some st1" "pb_ok (buffer (sw_pkt st))"
    and "ingress_length (sw_pkt st) = int (pb_data_size (buffer (sw_pkt st)))" "pb_data_size (buffer (sw_pkt st)) < 2 ^ 31"
    and "\<forall>s \<in> set (pe_states env). \<forall>x \<in> set (parser_ops s). extracts (sw_phv st) x"
  shows "\<exists>xs. distinct xs \<and> (\<forall>i \<in> set xs. \<exists>h. nth_opt (headers (sw_phv st1)) i = Some h \<and> is_valid h) \<and>
    (\<forall>dp. dp_checksums dp = [] \<and> filter (\<lambda>i. i \<in> set xs) (dp_headers dp) = xs \<and>
       (\<forall>i \<in> set (dp_headers dp). \<exists>h. nth_opt (headers (sw_phv st)) i = Some h \<and> \<not> is_valid h) \<longrightarrow>
       (\<exists>st2. deparse aenv stack dp st1 = Some st2 \<and> pb_data (buffer (sw_pkt st2)) = pb_data (buffer (sw_pkt st))))"
proof -
  let ?data = "pb_data (buffer (sw_pkt st))" and ?p0 = "sw_phv st"
  obtain v where v: "from_core NoError (pe_errors env) = Some v" using assms(1) by (auto simp: parse_def bind_eq_Some_iff)
  define st0 where "st0 = set_error_code v st"
  have st0: "sw_phv st0 = ?p0" "buffer (sw_pkt st0) = buffer (sw_pkt st)" "ingress_length (sw_pkt st0) = ingress_length (sw_pkt st)"
    by (simp_all add: st0_def set_error_code_def sw_phv_def)
  have len: "length ?data = pb_data_size (buffer (sw_pkt st))" by (rule length_pb_data [OF assms(2)])
  have start: "restored ?p0 ?data ?p0 0 [] f" for f by (simp add: restored_def)
  have "\<exists>xs f n. restored ?p0 ?data (sw_phv st1) n xs f \<and> pb_ok (buffer (sw_pkt st1)) \<and>
      pb_data (buffer (sw_pkt st1)) = drop n ?data \<and> n \<le> pb_head (buffer (sw_pkt st1))"
  proof (cases "init = None")
    case True
    then have "st1 = st0" using assms(1) v by (simp add: parse_def st0_def)
    then show ?thesis using start st0 assms(2) by (intro exI [of _ "[]"] exI [of _ "\<lambda>_. []"] exI [of _ 0]) auto
  next
    case False
    then have fin: "finish_parse (pe_errors env) (parse_loop fuel env init ?data 0 st0) = Some st1"
      using assms(1) v False by (auto simp: parse_def st0_def Let_def split: if_splits)
    then obtain e st' n where loop: "parse_loop fuel env init ?data 0 st0 = Parsed e st' n"
      by (auto simp: finish_parse_def split: parse_outcome.splits)
    have "parsing ?p0 ?data st0 0" using start st0 assms(3) len by (auto simp: parsing_def)
    then have k: "same_frame st0 st'" "parsing ?p0 ?data st' n"
      using loop_restores [OF _ _ assms(5) loop] assms(4) len by simp_all
    obtain b where b: "pb_pop n (buffer (sw_pkt st)) = Some b" "buffer (sw_pkt st1) = b" "sw_phv st1 = sw_phv st'"
      using finish_parse_facts [OF fin [unfolded loop]] same_frame_facts [OF k(1)] st0(2) by auto
    obtain xs f where r: "restored ?p0 ?data (sw_phv st') n xs f" using k(2) by (auto simp: parsing_def)
    then have "n \<le> length ?data" by (simp add: restored_def)
    from pb_pop_ok [OF assms(2) this] b(1) have "pb_ok b" "pb_head b = pb_head (buffer (sw_pkt st)) + n" "pb_data b = drop n ?data" by auto
    then show ?thesis using r b(2,3) by (intro exI [of _ xs] exI [of _ f] exI [of _ n]) auto
  qed
  then obtain xs f n where r: "restored ?p0 ?data (sw_phv st1) n xs f" "pb_ok (buffer (sw_pkt st1))"
    "pb_data (buffer (sw_pkt st1)) = drop n ?data" "n \<le> pb_head (buffer (sw_pkt st1))" by blast
  show ?thesis
  proof (intro exI [of _ xs] conjI ballI allI impI)
    show "distinct xs" using r(1) by (simp add: restored_def)
    show "\<exists>h. nth_opt (headers (sw_phv st1)) i = Some h \<and> is_valid h" if "i \<in> set xs" for i
      using r(1) that by (auto simp: restored_def emits_def)
    fix dp :: deparser
    assume "dp_checksums dp = [] \<and> filter (\<lambda>i. i \<in> set xs) (dp_headers dp) = xs \<and>
       (\<forall>i \<in> set (dp_headers dp). \<exists>h. nth_opt (headers (sw_phv st)) i = Some h \<and> \<not> is_valid h)"
    then show "\<exists>st2. deparse aenv stack dp st1 = Some st2 \<and> pb_data (buffer (sw_pkt st2)) = ?data"
      using deparse_after [OF r] by blast
  qed
qed

text \<open>
  C4: a parser whose states, however they are connected, only verify and extract headers that are not valid before, are in no
  union, have a fixed size of whole bytes, no empty field and no field of less than a byte across two bytes.  If all headers
  have fixed sizes and every state extracts at least one byte, the loop over the states ends within any number of
  rounds above the number of bytes.  And whenever parsing succeeds, with or without an exception, there is a list of
  headers such that any deparser without checksums that has these in this order, and otherwise headers that were not valid
  before, restores the bytes of the packet.
\<close>

theorem deparse_restores_packet:
  assumes "pb_ok (buffer (sw_pkt st))" "ingress_length (sw_pkt st) = int (pb_data_size (buffer (sw_pkt st)))"
    and "pb_data_size (buffer (sw_pkt st)) < 2 ^ 31"
    and "\<forall>s \<in> set (pe_states env). \<forall>x \<in> set (parser_ops s). extracts (sw_phv st) x"
  shows "(fixed_sizes (sw_phv st) \<and> (\<forall>s \<in> set (pe_states env). \<exists>x \<in> set (parser_ops s). advances (sw_phv st) x) \<and>
       pb_data_size (buffer (sw_pkt st)) < fuel \<longrightarrow>
       (\<forall>v. parse_loop fuel env init (pb_data (buffer (sw_pkt st))) 0 (set_error_code v st) \<noteq> Out_of_fuel)) \<and>
    (\<forall>st1. parse fuel env init st = Some st1 \<longrightarrow>
       (\<exists>xs. distinct xs \<and> (\<forall>i \<in> set xs. \<exists>h. nth_opt (headers (sw_phv st1)) i = Some h \<and> is_valid h) \<and>
         (\<forall>dp. dp_checksums dp = [] \<and> filter (\<lambda>i. i \<in> set xs) (dp_headers dp) = xs \<and>
            (\<forall>i \<in> set (dp_headers dp). \<exists>h. nth_opt (headers (sw_phv st)) i = Some h \<and> \<not> is_valid h) \<longrightarrow>
            (\<exists>st2. deparse aenv stack dp st1 = Some st2 \<and> pb_data (buffer (sw_pkt st2)) = pb_data (buffer (sw_pkt st))))))"
proof (intro conjI allI impI; (elim conjE)?)
  fix v
  assume f: "fixed_sizes (sw_phv st)" "\<forall>s \<in> set (pe_states env). \<exists>x \<in> set (parser_ops s). advances (sw_phv st) x"
    "pb_data_size (buffer (sw_pkt st)) < fuel"
  let ?st = "set_error_code v st"
  have e: "sw_phv ?st = sw_phv st" "ingress_length (sw_pkt ?st) = ingress_length (sw_pkt st)"
    by (simp_all add: set_error_code_def sw_phv_def)
  have "inside ?st 0" using f(1) assms(2,3) by (simp add: inside_def e)
  moreover have "ingress_length (sw_pkt ?st) < int (fuel + 0)" using f(3) assms(2) by (simp add: e)
  moreover have "no_call x" if "extracts (sw_phv st) x" for x using that by (cases x) simp_all
  then have "\<forall>s \<in> set (pe_states env). (\<forall>x \<in> set (parser_ops s). no_call x) \<and> (\<exists>x \<in> set (parser_ops s). advances (sw_phv ?st) x)"
    using f(2) assms(4) unfolding e by blast
  ultimately show "parse_loop fuel env init (pb_data (buffer (sw_pkt st))) 0 ?st \<noteq> Out_of_fuel"
    using parse_loop_ends by blast
next
  fix st1
  assume "parse fuel env init st = Some st1"
  then show "\<exists>xs. distinct xs \<and> (\<forall>i \<in> set xs. \<exists>h. nth_opt (headers (sw_phv st1)) i = Some h \<and> is_valid h) \<and>
     (\<forall>dp. dp_checksums dp = [] \<and> filter (\<lambda>i. i \<in> set xs) (dp_headers dp) = xs \<and>
        (\<forall>i \<in> set (dp_headers dp). \<exists>h. nth_opt (headers (sw_phv st)) i = Some h \<and> \<not> is_valid h) \<longrightarrow>
        (\<exists>st2. deparse aenv stack dp st1 = Some st2 \<and> pb_data (buffer (sw_pkt st2)) = pb_data (buffer (sw_pkt st))))"
    by (rule parsed_restores [OF _ assms])
qed

section \<open>Example\<close>

definition F_16 :: field where "F_16 = the (new_field 16 False False False False)"

definition two_bytes :: header where
  "two_bytes = \<lparr>htype = fixed_type, hfields = [F_16, F_valid], valid_flag = False, metadata = False, nbytes_packet = 2,
     union_membership = None\<rparr>"

lemma fixed_phv_headers: "fixed_phv = empty_phv\<lparr>headers := [two_bytes]\<rparr>"
  by (simp add: fixed_phv_def fixed_type_def two_bytes_def example_defs Let_def field_defs F_16_def)

lemma two_bytes_extractable: "extractable two_bytes"
  by (simp add: extractable_def two_bytes_def header_shape_def field_defs F_16_def field_ok_def narrow_straddle_def is_valid_def
      fixed_type_def example_defs Let_def)

definition sample_start :: "nat switch_state" where
  "sample_start = parser_state fixed_phv [1, 2, 3, 4]"

definition one_extract :: "nat parser_env" where
  "one_extract = sample_parser [add_op (OpExtract 0) new_state]"

lemma sample_buffer: "pb_ok (buffer (sw_pkt sample_start))" "pb_data (buffer (sw_pkt sample_start)) = [1, 2, 3, 4]"
  "ingress_length (sw_pkt sample_start) = 4" "pb_data_size (buffer (sw_pkt sample_start)) = 4"
proof -
  obtain b where b: "pb_new (replicate 8 0) [1, 2, 3, 4] = Some b" "pb_ok b" "pb_data b = [1, 2, 3, 4]"
    using pb_new_ok [of "[1, 2, 3, 4]" "replicate 8 0"] by auto
  then show "pb_ok (buffer (sw_pkt sample_start))" "pb_data (buffer (sw_pkt sample_start)) = [1, 2, 3, 4]"
    "ingress_length (sw_pkt sample_start) = 4" "pb_data_size (buffer (sw_pkt sample_start)) = 4"
    using length_pb_data [of b] by (simp_all add: sample_start_def parser_state_def)
qed

lemma sample_parse: "\<exists>st1. parse 1 one_extract (Some 0) sample_start = Some st1 \<and> length (headers (sw_phv st1)) = 1"
proof -
  obtain h' where h': "header_extract two_bytes [1, 2, 3, 4] = Some h'" "emits h' [1, 2]"
    using extract_emits [OF two_bytes_extractable, of "[1, 2, 3, 4]"] by (auto simp: two_bytes_def)
  have hd: "headers (sw_phv (set_error_code v sample_start)) = [two_bytes]" for v
    by (simp add: set_error_code_def sw_phv_def sample_start_def parser_state_def fixed_phv_headers)
  have i: "extract_into 0 None [1, 2, 3, 4] (sw_phv (set_error_code v sample_start)) =
      Some (put_header 0 h' (sw_phv (set_error_code v sample_start)))" for v
    by (rule extract_into_plain [OF _ _ h'(1)]) (simp_all add: hd nth_opt_def two_bytes_def)
  have "run_op one_extract (OpExtract 0) [1, 2, 3, 4] 0 (set_error_code v sample_start) =
      Some (None, set_phv (put_header 0 h' (sw_phv (set_error_code v sample_start))) (set_error_code v sample_start), 2)" for v
  proof -
    have "own_length ve 0 [1, 2, 3, 4] (set_error_code v sample_start) = Some None" for ve
      using two_bytes_extractable by (simp add: own_length_def hd nth_opt_def extractable_def)
    moreover have "check_enough 0 two_bytes (set_error_code v sample_start)"
      using sample_buffer(3) by (simp add: check_enough_def bytes_left_def size_of_int_def two_bytes_def set_error_code_def)
    moreover have "\<not> is_valid two_bytes" using two_bytes_extractable by (simp add: extractable_def)
    moreover have "headers (sw_phv (set_phv (put_header 0 h' (sw_phv (set_error_code v sample_start))) (set_error_code v sample_start))) = [h']"
      by (simp add: set_phv_def sw_phv_def put_header_def hd [unfolded sw_phv_def])
    ultimately show ?thesis
      using i [of v] h'(2) by (simp add: extract_header_def extract_checked_def hd nth_opt_def on_phv_def emits_def size_of_int_def)
  qed
  note step = this
  have "from_core NoError (pe_errors one_extract) = Some 0"
    by (simp add: one_extract_def sample_parser_def make_with_core_def add_core_def core_errors_def no_codes_def first_free_def
        exists_name_def exists_code_def add_code_def from_core_def from_name_def)
  moreover have "remove_bytes 2 (sw_pkt sample_start) \<noteq> None"
    using pb_pop_ok [OF sample_buffer(1), of 2] sample_buffer(2,4)
    by (auto simp: remove_bytes_def sample_start_def parser_state_def sample_packet_def)
  moreover have "parse_loop (Suc 0) one_extract (Some 0) [1, 2, 3, 4] 0 (set_error_code 0 sample_start) =
      Parsed None (set_phv (put_header 0 h' (sw_phv (set_error_code 0 sample_start))) (set_error_code 0 sample_start)) 2"
    using step [of 0] by (simp add: find_next_state_def one_extract_def sample_parser_def add_op_def new_state_def nth_opt_def)
  moreover have "remove_bytes 2 (sw_pkt (set_phv q (set_error_code 0 sample_start))) =
      map_option (\<lambda>p. p\<lparr>error_code := 0, pkt_phv := q\<rparr>) (remove_bytes 2 (sw_pkt sample_start))" for q
    by (cases "pb_pop 2 (buffer (sw_pkt sample_start))") (simp_all add: remove_bytes_def set_phv_def set_error_code_def)
  ultimately show ?thesis
    using sample_buffer(2)
    by (auto simp: parse_def finish_parse_def Let_def sw_phv_def put_header_def sample_start_def parser_state_def fixed_phv_headers
        set_error_code_def)
qed

lemma one_extract_extracts: "\<forall>s \<in> set (pe_states one_extract). \<forall>x \<in> set (parser_ops s). extracts (sw_phv sample_start) x"
  using two_bytes_extractable
  by (simp add: one_extract_def sample_parser_def add_op_def new_state_def sample_start_def parser_state_def sw_phv_def
      fixed_phv_headers nth_opt_def)

theorem deparse_restores_packet_witness:
  "parse_loop 5 one_extract (Some 0) [1, 2, 3, 4] 0 (set_error_code 0 sample_start) \<noteq> Out_of_fuel \<and>
   (\<exists>st1 st2. parse 1 one_extract (Some 0) sample_start = Some st1 \<and>
     deparse sample_env [] (dp_push_back_header 0 new_deparser) st1 = Some st2 \<and> pb_data (buffer (sw_pkt st2)) = [1, 2, 3, 4])"
proof
  have x: "\<forall>s \<in> set (pe_states one_extract). \<forall>x \<in> set (parser_ops s). extracts (sw_phv sample_start) x"
    by (rule one_extract_extracts)
  note restore = deparse_restores_packet [OF sample_buffer(1) _ _ x, of _ "Some 0" sample_env "[]"]
  have "fixed_sizes (sw_phv sample_start)" "\<forall>s \<in> set (pe_states one_extract). \<exists>x \<in> set (parser_ops s). advances (sw_phv sample_start) x"
    by (simp_all add: one_extract_def sample_parser_def add_op_def new_state_def sample_start_def parser_state_def sw_phv_def
        fixed_phv_headers nth_opt_def fixed_sizes_def two_bytes_def fixed_type_def F_16_def F_valid_def new_field_def example_defs Let_def)
  with restore [of 5] sample_buffer
  show "parse_loop 5 one_extract (Some 0) [1, 2, 3, 4] 0 (set_error_code 0 sample_start) \<noteq> Out_of_fuel" by auto
next
  have x: "\<forall>s \<in> set (pe_states one_extract). \<forall>x \<in> set (parser_ops s). extracts (sw_phv sample_start) x"
    by (rule one_extract_extracts)
  note restore = deparse_restores_packet [OF sample_buffer(1) _ _ x, of 1 "Some 0" sample_env "[]"]
  obtain st1 where p: "parse 1 one_extract (Some 0) sample_start = Some st1" "length (headers (sw_phv st1)) = 1"
    using sample_parse by blast
  from restore p(1) sample_buffer obtain xs where
    xs: "distinct xs" "\<forall>i \<in> set xs. \<exists>h. nth_opt (headers (sw_phv st1)) i = Some h \<and> is_valid h"
    and d: "\<And>dp. dp_checksums dp = [] \<Longrightarrow> filter (\<lambda>i. i \<in> set xs) (dp_headers dp) = xs \<Longrightarrow>
       (\<forall>i \<in> set (dp_headers dp). \<exists>h. nth_opt (headers (sw_phv sample_start)) i = Some h \<and> \<not> is_valid h) \<Longrightarrow>
       (\<exists>st2. deparse sample_env [] dp st1 = Some st2 \<and> pb_data (buffer (sw_pkt st2)) = [1, 2, 3, 4])"
    by auto
  have "set xs \<subseteq> {0}" using xs(2) p(2) by (auto simp: nth_opt_Some_iff)
  then have "filter (\<lambda>i. i \<in> set xs) [0] = xs" using xs(1) by (cases xs) (auto simp: subset_singleton_iff)
  with d [of "dp_push_back_header 0 new_deparser"] p(1) two_bytes_extractable
  show "\<exists>st1 st2. parse 1 one_extract (Some 0) sample_start = Some st1 \<and>
     deparse sample_env [] (dp_push_back_header 0 new_deparser) st1 = Some st2 \<and> pb_data (buffer (sw_pkt st2)) = [1, 2, 3, 4]"
    by (auto simp: dp_push_back_header_def new_deparser_def sample_start_def parser_state_def sw_phv_def fixed_phv_headers
        nth_opt_def extractable_def)
qed

end
