(* ===== verification/Spec2Isabelle.thy ===== *)
theory Spec2Isabelle
  imports Prelude Ring_Buffer ML_Controller Bit_Extract Bm_Data Packet_Fields Headers Phv_Store
    Phv_Factory Expressions Expression_Trees Expression_Correct LPM_Trie Handle_Mgr Entry_List
    Lookup_Structures Match_Keys Match_Units Action_Profiles Match_Tables Queueing
    Replication Meters Crc Internet_Checksum Checksums Packets Registers Actions Parser_Errors Value_Sets Parser Deparser
    Control
begin

text \<open>
  Verification of the packet-processing core of the ML routing switch: the behavioural model \<^verbatim>\<open>src/bmv2\<close> (sources in
  \<^verbatim>\<open>src/bm_sim\<close>, headers in \<^verbatim>\<open>include/bm/bm_sim\<close>) and the extern that connects it to a learning agent
  (\<^verbatim>\<open>targets/simple_switch\<close>).  File names below are of these directories.

  \<^bold>\<open>The program.\<close>  A packet gets a header vector out of a pool (\<^verbatim>\<open>phv_source.cpp\<close>) and a buffer with room in front.  A
  parser walks its states and extracts headers out of the bytes into the vector.  A pipeline walks the nodes of a control
  flow graph: a condition evaluates an expression; a table makes a key of the packet's fields, looks it up in a match unit,
  finds an action (directly, or through the members and groups of an action profile), runs the primitives of the action
  and goes on with the node that the table has for it.  Queues hand packets from thread to thread, the replication engine
  makes the copies of a multicast group, and the deparser updates checksums and writes the valid headers in front of the
  payload.  Meanwhile clients add, change and delete entries, members, groups, values of value sets, rates of meters and nodes
  of the replication engine.  The extern \<^verbatim>\<open>MLController\<close> remembers which addresses wait in the queues to each host, asks an
  agent for the port of a packet, and sends it rewards.

  \<^bold>\<open>Conventions.\<close>  A class is a record with its members under their names; a method that changes its object returns the new
  one.  \<open>None\<close> is a failed assertion, an access out of range or a read past the end of memory, so that \<open>Some\<close> in
  the conclusion of a theorem says that none of them happens; error codes and exceptions are values of a sum or of a
  datatype.  Machine integers that can wrap around are words; those for which the code asserts a bound or has no bound are
  numbers.  Objects that the code links by pointers (headers, nodes of the control flow, register arrays, members)
  are numbers into the list that owns them.  Methods under a mutex are one step, so interleavings of threads are sequences of
  steps; where the code lets go of a lock between two parts, the parts are steps of their own.  What is not code of this
  repository is an argument: the clock and the conversion of a rate to tokens, random numbers, the xxHash function, what
  sockets and files give, the contents of memory that the code does not initialise.

  \<^bold>\<open>Values, fields, headers.\<close>
  \<^item> \<open>Prelude\<close>: the integer types, the option as a result, generic lemmas.
  \<^item> \<open>Bm_Data\<close> (\<^verbatim>\<open>data.h\<close>, \<^verbatim>\<open>bignum.h\<close>): the arithmetic of arbitrary precision.
  \<^item> \<open>Bit_Extract\<close> (\<^verbatim>\<open>extract.h\<close>): bits between a buffer and the bytes of a field, with the loops over bytes.  Both directions
    are right unless a field of less than a byte lies across two bytes (\<open>narrow_straddle_unmasked\<close>); this is where the
    hypotheses \<open>layout_ok\<close>, \<open>packed\<close> and \<open>widths_ok\<close> of later theorems come from.
  \<^item> \<open>Packet_Fields\<close> (\<^verbatim>\<open>fields.h\<close>): a field keeps its value and its bytes; setting it wraps unsigned values around.
  \<^item> \<open>Headers\<close> (\<^verbatim>\<open>headers.h\<close>): header types and headers; extraction followed by deparsing gives the bytes back.
  \<^item> \<open>Phv_Store\<close> (\<^verbatim>\<open>phv.h\<close>, \<^verbatim>\<open>stacks.h\<close>, \<^verbatim>\<open>header_unions.h\<close>): the header vector.  The locale \<open>stack_elements\<close> is what a stack
    needs of its elements; it is interpreted for headers and for unions.  At most one header of a union is valid.
  \<^item> \<open>Phv_Factory\<close> (\<^verbatim>\<open>PHVFactory\<close>): the vectors it creates are well-formed.
  \<^item> \<open>Expressions\<close>, \<open>Expression_Trees\<close>, \<open>Expression_Correct\<close> (\<^verbatim>\<open>expressions.cpp\<close>): the stack machine with its numbered temporaries, a
    semantics of trees, and the proof that the machine computes it for every tree and any old temporaries.

  \<^bold>\<open>Packets.\<close>
  \<^item> \<open>Packets\<close> (\<^verbatim>\<open>packet.cpp\<close>, \<^verbatim>\<open>packet_buffer.h\<close>, \<^verbatim>\<open>phv_source.cpp\<close>): a buffer refines a list of bytes that grows at its front; the
    copy ids; the life of a header vector, as steps \<open>pool_step\<close> of constructors, copies, changes of context and
    destructors with any use \<open>phv_use\<close> of the vectors in between: no packet sees what another one left valid.
  \<^item> \<open>Parser_Errors\<close>, \<open>Value_Sets\<close>, \<open>Parser\<close> (\<^verbatim>\<open>parser_error.cpp\<close>, \<^verbatim>\<open>parser.cpp\<close>): parse states, their operations and
    cases.  The loop over the states, \<open>parse_loop\<close>, has a bound on its rounds, and running out of it is a result of its own
    (\<open>Out_of_fuel\<close>), different from a failure; where every state moves on by at least a byte, one round more than the packet has
    bytes is enough, and this is proved.  Without that hypothesis the loop of the code need not end.
  \<^item> \<open>Deparser\<close> (\<^verbatim>\<open>deparser.cpp\<close>): parsing and then deparsing restores the packet.
  \<^item> \<open>Crc\<close>, \<open>Internet_Checksum\<close>, \<open>Checksums\<close> (\<^verbatim>\<open>calculations.cpp\<close>, \<^verbatim>\<open>checksums.cpp\<close>): the checks by tables are polynomial
    divisions (locale \<open>xor_linear\<close>), the folded sum of 64-bit words is the checksum of RFC 1071, and the IPv4 header checksum
    verifies after an update.

  \<^bold>\<open>Tables.\<close>
  \<^item> \<open>Handle_Mgr\<close>, \<open>LPM_Trie\<close>, \<open>Entry_List\<close> (\<^verbatim>\<open>handle_mgr.h\<close>, \<^verbatim>\<open>bf_lpm_trie.c\<close>, \<^verbatim>\<open>lookup_structures.cpp\<close>): allocation of handles as a finite set, the trie,
    the list of ternary and range entries with its cache.
  \<^item> \<open>Lookup_Structures\<close>: the interface \<^verbatim>\<open>LookupStructure\<close> is the locale \<open>lookup_structure\<close> over a record of functions; the
    hash map, the trie and the two lists interpret it (\<open>exact_handles\<close> for those without priorities, \<open>entry_keys\<close> for the
    lists).
  \<^item> \<open>Match_Keys\<close>, \<open>Match_Units\<close> (\<^verbatim>\<open>match_units.cpp\<close>): keys of packets and of entries; units with handles, versions, ageing and
    direct meters.  The locale \<open>unit_parts\<close> extends \<open>lookup_structure\<close> by the rest of a unit and is interpreted for the four
    kinds of match (\<open>eu\<close>, \<open>lu\<close>, \<open>tu\<close>, \<open>ru\<close>); \<open>unit_wf\<close> is the invariant of the reachable states, and on it
    the operations refine a finite map from keys to handles and values.
  \<^item> \<open>Action_Profiles\<close>, \<open>Match_Tables\<close> (\<^verbatim>\<open>action_profile.cpp\<close>, \<^verbatim>\<open>match_tables.cpp\<close>): members, groups and reference counts as steps
    \<open>profile_step\<close>, tables and profiles together as steps \<open>indirect_step\<close>.  \<open>profile_step\<close> contains a reset only while there is no group, and
    \<open>indirect_step\<close> no failing addition or modification with a bad member: theorems of their own show that these calls
    break the counts.
  \<^item> \<open>Registers\<close>, \<open>Meters\<close>, \<open>Actions\<close> (\<^verbatim>\<open>stateful.cpp\<close>, \<^verbatim>\<open>meters.cpp\<close>, \<^verbatim>\<open>actions.cpp\<close>, \<^verbatim>\<open>core/primitives.cpp\<close>): arrays shared by all
    packets; a meter is the two rate three color marker of RFC 2698; an action reads and writes only the register arrays
    that it locks.
  \<^item> \<open>Control\<close> (\<^verbatim>\<open>pipeline.cpp\<close>, \<^verbatim>\<open>conditionals.cpp\<close>, \<^verbatim>\<open>apply_action\<close>): what a client adds to a table is the action that runs on the
    packets that match; an exit ends the pipeline; \<open>pipeline_loop\<close> has a bound on its rounds with a result \<open>Looping\<close>, and
    over a graph without cycles one round more than there are nodes is enough.

  \<^bold>\<open>Between threads and packets.\<close>
  \<^item> \<open>Queueing\<close> (\<^verbatim>\<open>queue.h\<close>, \<^verbatim>\<open>queueing.h\<close>): logical queues on the heaps of their workers (locale \<open>least_first\<close>, interpreted for
    the two comparisons), rate limits and priorities.  Each call is one try under the lock with what it waits for.
  \<^item> \<open>Replication\<close> (\<^verbatim>\<open>simple_pre.cpp\<close>, \<^verbatim>\<open>simple_pre_lag.cpp\<close>): two levels of nodes and two managers of handles refine one table.

  \<^bold>\<open>The extern.\<close>
  \<^item> \<open>Ring_Buffer\<close> (\<^verbatim>\<open>ccbuffer.h\<close>, \<^verbatim>\<open>rewardsQ.h\<close>): the ring of addresses is a bounded queue of positions (locale \<open>position_queue\<close>).  The
    scans for a valid slot are partial functions, and their end is proved in all states the calls reach.
  \<^item> \<open>ML_Controller\<close> (\<^verbatim>\<open>MLController.cpp\<close>, \<^verbatim>\<open>parseMac.h\<close>, \<^verbatim>\<open>pymodule.h\<close>): the methods that keep state, the statics that instances share, the
    protocol with the agent.

  \<^bold>\<open>Kinds of theorems.\<close>  For every component an invariant that its operations keep, from which follows that no assertion
  fails; refinements of finite maps, lists, queues and tables; equivalences with a second definition (tree semantics,
  polynomial division, RFC 1071, RFC 2698); round trips of parsing and deparsing; ends of loops.  Beside them stand theorems
  that show, on reachable states, where the code does something else than it means to: a full node of the trie,
  the reference that a failed addition leaves behind, the version of a slot that wraps around, a late decrement of the copy
  count, and others.  The theorems about the right behaviour name these states in their hypotheses.  Each theorem
  with a hypothesis is followed by one that applies it to concrete values.

  \<^bold>\<open>Not modelled.\<close>  The construction of a switch from JSON (\<^verbatim>\<open>P4Objects.cpp\<close>), which calls the modelled constructors; the dispatch
  of client calls by name (\<^verbatim>\<open>switch.cpp\<close>, \<^verbatim>\<open>context.cpp\<close>); network interfaces, files, options, logging and the debugger, which do
  not change the state modelled here; the threads of \<^verbatim>\<open>simple_switch.cpp\<close>, which call the modelled parts in turn; the
  learning engine, the thread that calls the sweeps of the tables, and the registration of externs; text dumps and the
  serialisation of tables; arrays of counters; the test variants of the extern; the P4 compiler, the JSON library and the agent,
  which are third-party code or in other languages.
\<close>

end
